(* ===== verification/Prelude.thy ===== *)
theory Prelude
  imports Main "HOL-Library.Word" "HOL-Library.Sublist"
begin

text \<open>
  Shared vocabulary of the development: the machine integers of the code
  (\<open>uint8_t\<close>, \<open>uint32_t\<close>, \<open>uint64_t\<close> as words), the
  errors that a step of the code can end in, the bind of the error type, the
  signed remainder of C, \<open>memcpy\<close> on byte lists, and the \<open>map::operator[]\<close>
  of the C++ library. The lemmas on list slices are used by every component
  that cuts a packet into payloads or puts payloads together again.
\<close>

unbundle bit_operations_syntax

section \<open>Machine integers, pointers and errors\<close>

type_synonym u8 = "8 word"
type_synonym u32 = "32 word"
type_synonym u64 = "64 word"
type_synonym byte = u8

text \<open>A pointer to a payload object; payload objects are numbered in order of creation.\<close>

type_synonym pid = nat

text \<open>
  What the code does not survive: \<open>front()\<close> of an empty deque, a failed
  assertion, a division by zero, an access outside an array, the use of a null pointer
  and the conversion of a floating-point value that does not fit an \<open>int\<close>. In each
  case the C++ program has no defined behaviour or aborts.
  \<open>Exception_thrown\<close> is a C++ exception that nothing catches.
  \<open>Would_block\<close> stands for a call that polls a full ring buffer and does
  not return before the host process takes a packet.
\<close>

datatype sim_error =
    Front_of_empty
  | Assert_failed
  | Division_by_zero
  | Out_of_bounds
  | Null_pointer
  | Int_overflow
  | Would_block
  | Exception_thrown

definition ebind :: "sim_error + 'a \<Rightarrow> ('a \<Rightarrow> sim_error + 'b) \<Rightarrow> sim_error + 'b" where
  "ebind m f = (case m of Inl e \<Rightarrow> Inl e | Inr x \<Rightarrow> f x)"

named_theorems pc_simps "equations that run one segment of a simulation thread"
named_theorems queue_simps "equations that read a queue after an operation"

lemma ebind_simps [simp]:
  "ebind (Inl e) f = Inl e"
  "ebind (Inr x) f = f x"
  by (simp_all add: ebind_def)

lemma ebind_eq_Inr [simp]:
  "ebind m f = Inr y \<longleftrightarrow> (\<exists>x. m = Inr x \<and> f x = Inr y)"
  by (cases m) auto

lemma ebind_eq_Inl [simp]:
  "ebind m f = Inl e \<longleftrightarrow> m = Inl e \<or> (\<exists>x. m = Inr x \<and> f x = Inl e)"
  by (cases m) auto

text \<open>A loop over a list of indices that stops at the first error.\<close>

fun efold :: "('x \<Rightarrow> 's \<Rightarrow> sim_error + 's) \<Rightarrow> 'x list \<Rightarrow> 's \<Rightarrow> sim_error + 's" where
  "efold f [] s = Inr s"
| "efold f (x # xs) s = ebind (f x s) (efold f xs)"

lemma efold_append: "efold f (xs @ ys) s = ebind (efold f xs s) (efold f ys)"
proof (induction xs arbitrary: s)
  case (Cons x xs)
  then show ?case by (cases "f x s") simp_all
qed simp

section \<open>Deques\<close>

text \<open>
  A \<open>deque\<close> that is used as a queue is a list: \<open>push_back\<close> appends,
  \<open>front\<close> followed by \<open>pop_front\<close> takes the head. The head of an empty
  deque is undefined behaviour.
\<close>

definition pop_front :: "'a list \<Rightarrow> sim_error + ('a \<times> 'a list)" where
  "pop_front q = (case q of [] \<Rightarrow> Inl Front_of_empty | x # xs \<Rightarrow> Inr (x, xs))"

lemma pop_front_simps [simp]:
  "pop_front [] = Inl Front_of_empty"
  "pop_front (x # xs) = Inr (x, xs)"
  by (simp_all add: pop_front_def)

lemma pop_front_Inr [simp]: "pop_front q = Inr (x, xs) \<longleftrightarrow> q = x # xs"
  by (cases q) auto

lemma pop_front_Inl [simp]: "pop_front q = Inl e \<longleftrightarrow> q = [] \<and> e = Front_of_empty"
  by (cases q) auto

section \<open>C and C++ library operations\<close>

text \<open>The remainder of C truncates towards zero.\<close>

definition c_rem :: "int \<Rightarrow> int \<Rightarrow> int" where
  "c_rem a b = sgn a * (\<bar>a\<bar> mod \<bar>b\<bar>)"

lemma c_rem_nonneg: "0 \<le> a \<Longrightarrow> 0 < b \<Longrightarrow> c_rem a b = a mod b"
  by (cases "a = 0") (auto simp: c_rem_def)

text \<open>The remainder of an \<open>int\<close>, which fails for a divisor of zero.\<close>

definition rem_by :: "int \<Rightarrow> int \<Rightarrow> sim_error + int" where
  "rem_by a n = (if n = 0 then Inl Division_by_zero else Inr (c_rem a n))"

text \<open>
  \<open>map::operator[]\<close> with an integer value type: a missing key is inserted
  with the value 0.
\<close>

definition map_index :: "('k \<rightharpoonup> 'v::zero) \<Rightarrow> 'k \<Rightarrow> 'v \<times> ('k \<rightharpoonup> 'v)" where
  "map_index m k = (case m k of Some v \<Rightarrow> (v, m) | None \<Rightarrow> (0, m(k \<mapsto> 0)))"

lemma map_index_Some [simp]: "m k = Some v \<Longrightarrow> map_index m k = (v, m)"
  by (simp add: map_index_def)

lemma map_index_None [simp]: "m k = None \<Longrightarrow> map_index m k = (0, m(k \<mapsto> 0))"
  by (simp add: map_index_def)

text \<open>
  \<open>memcpy (dst + off, src, n)\<close>: the destination outside the copied range is
  unchanged; a copy that leaves one of the two buffers is undefined behaviour.
\<close>

definition memcpy :: "'a list \<Rightarrow> nat \<Rightarrow> 'a list \<Rightarrow> nat \<Rightarrow> nat \<Rightarrow> sim_error + 'a list" where
  "memcpy dst doff src soff n =
     (if doff + n \<le> length dst \<and> soff + n \<le> length src
      then Inr (take doff dst @ take n (drop soff src) @ drop (doff + n) dst)
      else Inl Out_of_bounds)"

lemma memcpy_length: "memcpy dst doff src soff n = Inr r \<Longrightarrow> length r = length dst"
  by (auto simp: memcpy_def split: if_splits)

lemma memcpy_defined:
  "doff + n \<le> length dst \<Longrightarrow> soff + n \<le> length src \<Longrightarrow>
   memcpy dst doff src soff n = Inr (take doff dst @ take n (drop soff src) @ drop (doff + n) dst)"
  by (simp add: memcpy_def)

section \<open>Slices\<close>

text \<open>The \<open>i\<close>-th piece of \<open>k\<close> elements, and the first \<open>n\<close> pieces of a list.\<close>

definition piece :: "nat \<Rightarrow> nat \<Rightarrow> 'a list \<Rightarrow> 'a list" where
  "piece k i xs = take k (drop (k * i) xs)"

definition pieces :: "nat \<Rightarrow> nat \<Rightarrow> 'a list \<Rightarrow> 'a list list" where
  "pieces k n xs = map (\<lambda>i. piece k i xs) [0..<n]"

lemma length_pieces [simp]: "length (pieces k n xs) = n"
  by (simp add: pieces_def)

lemma length_piece: "k * Suc i \<le> length xs \<Longrightarrow> length (piece k i xs) = k"
  by (simp add: piece_def)

lemma concat_pieces: "concat (pieces k n xs) = take (k * n) xs"
proof (induction n)
  case 0
  show ?case by (simp add: pieces_def)
next
  case (Suc n)
  have "concat (pieces k (Suc n) xs) = take (k * n) xs @ take k (drop (k * n) xs)"
    using Suc.IH by (simp add: pieces_def piece_def)
  also have "\<dots> = take (k * n + k) xs"
    by (simp add: take_add)
  finally show ?case by (simp add: add.commute)
qed

lemma concat_pieces_all: "length xs = k * n \<Longrightarrow> concat (pieces k n xs) = xs"
  by (simp add: concat_pieces)

end
