(* ===== verification/Sim_Packet.thy ===== *)
theory Sim_Packet
  imports Prelude
begin

text \<open>
  The packet that a host process and the simulator exchange through shared memory
  (\<open>backplane/utilities/sim_packet.h\<close>).
\<close>

datatype packet_type =
    packet_read
  | packet_write
  | packet_bar_wait
  | packet_bar_signal
  | packet_elapsed
  | packet_terminated

definition MAX_DATA_SIZE :: nat where
  "MAX_DATA_SIZE = 2048"

record packet =
  p_type :: packet_type
  p_size :: u32
  p_delta :: u64
  p_address :: u32
  p_device_id :: u32
  p_data :: "byte list"

text \<open>The data of a packet is an array of \<open>MAX_DATA_SIZE\<close> bytes.\<close>

definition packet_wf :: "packet \<Rightarrow> bool" where
  "packet_wf p \<longleftrightarrow> length (p_data p) = MAX_DATA_SIZE"

text \<open>\<open>memset (&packet, 0, sizeof (Packet))\<close>.\<close>

definition zero_packet :: packet where
  "zero_packet =
     \<lparr>p_type = packet_read, p_size = 0, p_delta = 0, p_address = 0, p_device_id = 0,
      p_data = replicate MAX_DATA_SIZE 0\<rparr>"

lemma packet_wf_zero [simp]: "packet_wf zero_packet"
  by (simp add: packet_wf_def zero_packet_def)

text \<open>
  \<open>sizeof (Packet)\<close> on the 64-bit target: two 4-byte fields, the 8-byte delta,
  two 4-byte fields and the data array, without padding.
\<close>

definition sizeof_packet :: nat where
  "sizeof_packet = 4 + 4 + 8 + 4 + 4 + MAX_DATA_SIZE"

lemma sizeof_packet_eq: "sizeof_packet = 2072"
  by (simp add: sizeof_packet_def MAX_DATA_SIZE_def)

end
