(* ===== verification/Interfaces.thy ===== *)
theory Interfaces
  imports Prelude
begin

text \<open>
  The contracts between components. A \<open>hop\<close> is what each stage of the
  simulated link promises for one class of traffic: a payload that a neighbour hands over
  leaves exactly once, and payloads leave in the order in which they came. Each stage
  of the link (upstream port, downstream port, controller) interprets it for its four
  kinds of traffic, and \<open>duplex\<close> shows that two stages bound together by a socket are
  again a hop in each direction. A \<open>drain\<close> is a hop that empties itself. A
  \<open>bounded_queue\<close> is what the shared-memory channel needs from the ring buffer.
\<close>

section \<open>Runs of a component\<close>

text \<open>
  A component reacts to one event at a time (a call from a neighbour, or one of its own
  simulation threads that resumes after a wait); an event yields the new state and the
  calls the component makes, in order. A run handles a list of events and stops at the
  first error.
\<close>

fun run_events :: "('e \<Rightarrow> 's \<Rightarrow> sim_error + ('s \<times> 'o list)) \<Rightarrow> 'e list \<Rightarrow> 's \<Rightarrow> sim_error + ('s \<times> 'o list)"
where
  "run_events ev [] s = Inr (s, [])"
| "run_events ev (e # es) s =
     ebind (ev e s) (\<lambda>(s', os). ebind (run_events ev es s') (\<lambda>(s'', os'). Inr (s'', os @ os')))"

lemma run_events_append:
  "run_events ev (es @ es') s =
     ebind (run_events ev es s)
       (\<lambda>(s', os). ebind (run_events ev es' s') (\<lambda>(s'', os'). Inr (s'', os @ os')))"
proof (induction es arbitrary: s)
  case Nil
  show ?case by (cases "run_events ev es' s") auto
next
  case (Cons e es)
  then show ?case
    by (cases "ev e s") (auto simp: ebind_def split: sum.splits prod.splits)
qed

lemma run_events_snoc:
  "run_events ev (es @ [e]) s =
     ebind (run_events ev es s) (\<lambda>(s', os). ebind (ev e s') (\<lambda>(s'', os'). Inr (s'', os @ os')))"
  by (simp add: run_events_append) (auto simp: ebind_def split: sum.splits prod.splits)

text \<open>The tokens of one class among a list of calls or events.\<close>

definition tokens :: "('o \<Rightarrow> 'p list) \<Rightarrow> 'o list \<Rightarrow> 'p list" where
  "tokens f os = concat (map f os)"

lemma tokens_simps [simp]:
  "tokens f [] = []"
  "tokens f (x # xs) = f x @ tokens f xs"
  "tokens f (xs @ ys) = tokens f xs @ tokens f ys"
  by (simp_all add: tokens_def)

text \<open>
  An invariant that also counts the tokens of one class that have left so far.
\<close>

lemma run_events_count:
  assumes step: "\<And>s n e s' os. P s n \<Longrightarrow> legal e \<Longrightarrow> ev e s = Inr (s', os) \<Longrightarrow>
      P s' (n + length (tokens f os))"
  shows "P s n \<Longrightarrow> list_all legal es \<Longrightarrow> run_events ev es s = Inr (s', os) \<Longrightarrow>
    P s' (n + length (tokens f os))"
proof (induction es arbitrary: s n os)
  case Nil
  then show ?case by simp
next
  case (Cons e es)
  then obtain s1 os1 os2 where "ev e s = Inr (s1, os1)" and rest: "run_events ev es s1 = Inr (s', os2)"
    and os: "os = os1 @ os2"
    by auto
  with Cons.prems have "P s1 (n + length (tokens f os1))"
    using step by auto
  from Cons.IH [OF this _ rest] Cons.prems os show ?case
    by (simp add: add.assoc)
qed

section \<open>Stages that keep the order\<close>

locale hop =
  fixes inv :: "'s \<Rightarrow> bool"
    and content :: "'s \<Rightarrow> 'p list"
    and ev :: "'e \<Rightarrow> 's \<Rightarrow> sim_error + ('s \<times> 'o list)"
    and legal :: "'e \<Rightarrow> bool"
    and takes :: "'e \<Rightarrow> 'p list"
    and emits :: "'o \<Rightarrow> 'p list"
  assumes ev_total: "inv s \<Longrightarrow> legal e \<Longrightarrow> \<exists>s' os. ev e s = Inr (s', os)"
    and ev_inv: "inv s \<Longrightarrow> legal e \<Longrightarrow> ev e s = Inr (s', os) \<Longrightarrow> inv s'"
    and ev_fifo: "inv s \<Longrightarrow> legal e \<Longrightarrow> ev e s = Inr (s', os) \<Longrightarrow>
      tokens emits os @ content s' = content s @ takes e"
begin

lemma run_total:
  "inv s \<Longrightarrow> list_all legal es \<Longrightarrow> \<exists>s' os. run_events ev es s = Inr (s', os)"
proof (induction es arbitrary: s)
  case Nil
  show ?case by simp
next
  case (Cons e es)
  then obtain s1 os1 where "ev e s = Inr (s1, os1)"
    using ev_total by fastforce
  moreover from this Cons.prems have "inv s1"
    by (auto intro: ev_inv)
  ultimately show ?case
    using Cons.IH [of s1] Cons.prems by fastforce
qed

lemma run_inv_fifo:
  "inv s \<Longrightarrow> list_all legal es \<Longrightarrow> run_events ev es s = Inr (s', os) \<Longrightarrow>
   inv s' \<and> tokens emits os @ content s' = content s @ tokens takes es"
proof (induction es arbitrary: s os)
  case Nil
  then show ?case by simp
next
  case (Cons e es)
  then obtain s1 os1 os2 where step: "ev e s = Inr (s1, os1)"
    and rest: "run_events ev es s1 = Inr (s', os2)" and os: "os = os1 @ os2"
    by auto
  have "inv s1" and one: "tokens emits os1 @ content s1 = content s @ takes e"
    using ev_inv ev_fifo step Cons.prems by auto
  moreover have "list_all legal es"
    using Cons.prems by simp
  ultimately have "inv s'" and "tokens emits os2 @ content s' = content s1 @ tokens takes es"
    using Cons.IH [OF _ _ rest] by auto
  moreover from this have "tokens emits os @ content s' = (content s @ takes e) @ tokens takes es"
    using os by (simp flip: one)
  ultimately show ?case by simp
qed

lemmas run_inv = run_inv_fifo [THEN conjunct1]
lemmas run_fifo = run_inv_fifo [THEN conjunct2]

text \<open>From an empty stage, what has left is a prefix of what came in.\<close>

lemma run_prefix:
  assumes "inv s" and "content s = []" and "list_all legal es"
    and "run_events ev es s = Inr (s', os)"
  shows "prefix (tokens emits os) (tokens takes es)"
  using run_fifo [OF assms(1,3,4)] assms(2) by (simp add: prefix_def) metis

lemma run_counts:
  assumes "inv s" and "list_all legal es" and "run_events ev es s = Inr (s', os)"
  shows "length (tokens emits os) + length (content s') = length (content s) + length (tokens takes es)"
  using run_fifo [OF assms] by (metis length_append)

end

section \<open>Two stages bound together\<close>

text \<open>
  An event of the pair is an event of one of the stages. Each call that the stage makes
  in it becomes the events of the other stage that \<open>feed12\<close> and \<open>feed21\<close> say
  (none, when the call leaves the pair), handled at once, as a call through a bound
  socket is. The pair records the calls of both stages.
\<close>

fun duplex_ev :: "('e1 \<Rightarrow> 's1 \<Rightarrow> sim_error + ('s1 \<times> 'o1 list)) \<Rightarrow> ('e2 \<Rightarrow> 's2 \<Rightarrow> sim_error + ('s2 \<times> 'o2 list)) \<Rightarrow>
  ('o1 \<Rightarrow> 'e2 list) \<Rightarrow> ('o2 \<Rightarrow> 'e1 list) \<Rightarrow> 'e1 + 'e2 \<Rightarrow> 's1 \<times> 's2 \<Rightarrow>
  sim_error + (('s1 \<times> 's2) \<times> ('o1 + 'o2) list)" where
  "duplex_ev ev1 ev2 feed12 feed21 (Inl e) (s, t) =
     ebind (ev1 e s) (\<lambda>(s', os).
       ebind (run_events ev2 (concat (map feed12 os)) t) (\<lambda>(t', _). Inr ((s', t'), map Inl os)))"
| "duplex_ev ev1 ev2 feed12 feed21 (Inr e) (s, t) =
     ebind (ev2 e t) (\<lambda>(t', os).
       ebind (run_events ev1 (concat (map feed21 os)) s) (\<lambda>(s', _). Inr ((s', t'), map Inr os)))"

text \<open>What one stage is fed with: it takes the call and makes none itself.\<close>

definition feeds :: "('e \<Rightarrow> 's \<Rightarrow> sim_error + ('s \<times> 'o list)) \<Rightarrow> ('e \<Rightarrow> bool) \<Rightarrow> ('q \<Rightarrow> 'e list) \<Rightarrow> bool" where
  "feeds ev legal feed \<longleftrightarrow>
     (\<forall>x. \<forall>e \<in> set (feed x). legal e \<and> (\<forall>s s' os. ev e s = Inr (s', os) \<longrightarrow> os = []))"

lemma feeds_legal: "feeds ev legal feed \<Longrightarrow> list_all legal (concat (map feed xs))"
  by (auto simp: feeds_def list_all_iff)

lemma run_no_calls:
  "(\<And>e s s' os. e \<in> set es \<Longrightarrow> ev e s = Inr (s', os) \<Longrightarrow> os = []) \<Longrightarrow>
   run_events ev es s = Inr (s', os) \<Longrightarrow> os = []"
proof (induction es arbitrary: s os)
  case (Cons e es)
  then obtain s1 os1 os2 where "ev e s = Inr (s1, os1)" "run_events ev es s1 = Inr (s', os2)" "os = os1 @ os2"
    by auto
  with Cons.prems(1) Cons.IH show ?case by (metis append_Nil list.set_intros)
qed simp

lemma feeds_quiet: "feeds ev legal feed \<Longrightarrow> run_events ev (concat (map feed xs)) s = Inr (s', os) \<Longrightarrow> os = []"
  by (rule run_no_calls) (auto simp: feeds_def)

lemma tokens_concat: "tokens f (concat (map g xs)) = tokens (\<lambda>x. tokens f (g x)) xs"
  by (induction xs) simp_all

lemma tokens_map [simp]:
  "tokens (case_sum f g) (map Inl xs) = tokens f xs" "tokens (case_sum f g) (map Inr ys) = tokens g ys"
  by (induction xs; simp) (induction ys; simp)

lemma tokens_none [simp]: "tokens (\<lambda>_. []) xs = []"
  by (induction xs) simp_all

text \<open>
  \<open>f\<close> names the traffic from the first stage to the second, \<open>b\<close> the traffic back.
\<close>

locale duplex =
  f1: hop inv1 fcontent1 ev1 legal1 ftakes1 femits1 +
  f2: hop inv2 fcontent2 ev2 legal2 ftakes2 femits2 +
  b1: hop inv1 bcontent1 ev1 legal1 btakes1 bemits1 +
  b2: hop inv2 bcontent2 ev2 legal2 btakes2 bemits2
  for inv1 :: "'s1 \<Rightarrow> bool" and fcontent1 :: "'s1 \<Rightarrow> 'p list"
    and ev1 :: "'e1 \<Rightarrow> 's1 \<Rightarrow> sim_error + ('s1 \<times> 'o1 list)" and legal1 ftakes1 femits1
    and inv2 :: "'s2 \<Rightarrow> bool" and fcontent2 :: "'s2 \<Rightarrow> 'p list"
    and ev2 :: "'e2 \<Rightarrow> 's2 \<Rightarrow> sim_error + ('s2 \<times> 'o2 list)" and legal2 ftakes2 femits2
    and bcontent1 :: "'s1 \<Rightarrow> 'q list" and btakes1 bemits1
    and bcontent2 :: "'s2 \<Rightarrow> 'q list" and btakes2 bemits2 +
  fixes feed12 :: "'o1 \<Rightarrow> 'e2 list" and feed21 :: "'o2 \<Rightarrow> 'e1 list"
  assumes feeds12: "feeds ev2 legal2 feed12"
    and feeds21: "feeds ev1 legal1 feed21"
    and forward12: "tokens ftakes2 (feed12 x) = femits1 x"
    and forward21: "tokens ftakes1 (feed21 y) = []"
    and backward12: "tokens btakes2 (feed12 x) = []"
    and backward21: "tokens btakes1 (feed21 y) = bemits2 y"
begin

text \<open>
  Traffic that a stage gets from its partner does not come from outside as well: that is
  what the events of the pair have to obey.
\<close>

lemma pair_step:
  assumes inv: "inv1 (fst st) \<and> inv2 (snd st)" and legal: "case_sum (\<lambda>e. legal1 e \<and> btakes1 e = []) (\<lambda>e. legal2 e \<and> ftakes2 e = []) e"
  shows "\<exists>st' os. duplex_ev ev1 ev2 feed12 feed21 e st = Inr (st', os) \<and> (inv1 (fst st') \<and> inv2 (snd st')) \<and>
    tokens (case_sum (\<lambda>_. []) femits2) os @ (fcontent2 (snd st') @ fcontent1 (fst st')) =
      (fcontent2 (snd st) @ fcontent1 (fst st)) @ case_sum ftakes1 (\<lambda>_. []) e \<and>
    tokens (case_sum bemits1 (\<lambda>_. [])) os @ (bcontent1 (fst st') @ bcontent2 (snd st')) =
      (bcontent1 (fst st) @ bcontent2 (snd st)) @ case_sum (\<lambda>_. []) btakes2 e"
proof (cases e)
  case (Inl e1)
  obtain s t where st: "st = (s, t)" by (cases st)
  have l: "legal1 e1" "btakes1 e1 = []" using legal Inl by simp_all
  have i: "inv1 s" "inv2 t" using inv st by simp_all
  obtain s' os where one: "ev1 e1 s = Inr (s', os)" using f1.ev_total [OF i(1) l(1)] by blast
  obtain t' os' where two: "run_events ev2 (concat (map feed12 os)) t = Inr (t', os')"
    using f2.run_total [OF i(2) feeds_legal [OF feeds12]] by blast
  have quiet: "os' = []" by (rule feeds_quiet [OF feeds12 two])
  have f: "tokens femits1 os @ fcontent1 s' = fcontent1 s @ ftakes1 e1"
    "fcontent2 t' = fcontent2 t @ tokens femits1 os"
    using f1.ev_fifo [OF i(1) l(1) one] f2.run_fifo [OF i(2) feeds_legal [OF feeds12] two]
    by (simp_all add: tokens_concat forward12 quiet)
  have b: "tokens bemits1 os @ bcontent1 s' = bcontent1 s" "bcontent2 t' = bcontent2 t"
    using b1.ev_fifo [OF i(1) l(1) one] b2.run_fifo [OF i(2) feeds_legal [OF feeds12] two] l(2)
    by (simp_all add: tokens_concat backward12 quiet)
  have b': "tokens bemits1 os @ bcontent1 s' @ bcontent2 t' = bcontent1 s @ bcontent2 t"
    using b by (simp flip: append_assoc)
  show ?thesis
    using one two Inl st f b' f1.ev_inv [OF i(1) l(1) one] f2.run_inv [OF i(2) feeds_legal [OF feeds12] two]
    by simp
next
  case (Inr e2)
  obtain s t where st: "st = (s, t)" by (cases st)
  have l: "legal2 e2" "ftakes2 e2 = []" using legal Inr by simp_all
  have i: "inv1 s" "inv2 t" using inv st by simp_all
  obtain t' os where one: "ev2 e2 t = Inr (t', os)" using f2.ev_total [OF i(2) l(1)] by blast
  obtain s' os' where two: "run_events ev1 (concat (map feed21 os)) s = Inr (s', os')"
    using f1.run_total [OF i(1) feeds_legal [OF feeds21]] by blast
  have quiet: "os' = []" by (rule feeds_quiet [OF feeds21 two])
  have b: "tokens bemits2 os @ bcontent2 t' = bcontent2 t @ btakes2 e2"
    "bcontent1 s' = bcontent1 s @ tokens bemits2 os"
    using b2.ev_fifo [OF i(2) l(1) one] b1.run_fifo [OF i(1) feeds_legal [OF feeds21] two]
    by (simp_all add: tokens_concat backward21 quiet)
  have f: "tokens femits2 os @ fcontent2 t' = fcontent2 t" "fcontent1 s' = fcontent1 s"
    using f2.ev_fifo [OF i(2) l(1) one] f1.run_fifo [OF i(1) feeds_legal [OF feeds21] two] l(2)
    by (simp_all add: tokens_concat forward21 quiet)
  have f': "tokens femits2 os @ fcontent2 t' @ fcontent1 s' = fcontent2 t @ fcontent1 s"
    using f by (simp flip: append_assoc)
  show ?thesis
    using one two Inr st b f' f2.ev_inv [OF i(2) l(1) one] f1.run_inv [OF i(1) feeds_legal [OF feeds21] two]
    by simp
qed

end

text \<open>Hence the pair is a hop in both directions, and pairs can be bound to further stages.\<close>

sublocale duplex \<subseteq> forward: hop
  "\<lambda>st. inv1 (fst st) \<and> inv2 (snd st)" "\<lambda>st. fcontent2 (snd st) @ fcontent1 (fst st)"
  "duplex_ev ev1 ev2 feed12 feed21"
  "case_sum (\<lambda>e. legal1 e \<and> btakes1 e = []) (\<lambda>e. legal2 e \<and> ftakes2 e = [])"
  "case_sum ftakes1 (\<lambda>_. [])" "case_sum (\<lambda>_. []) femits2"
  by unfold_locales (use pair_step in fastforce)+

sublocale duplex \<subseteq> backward: hop
  "\<lambda>st. inv1 (fst st) \<and> inv2 (snd st)" "\<lambda>st. bcontent1 (fst st) @ bcontent2 (snd st)"
  "duplex_ev ev1 ev2 feed12 feed21"
  "case_sum (\<lambda>e. legal1 e \<and> btakes1 e = []) (\<lambda>e. legal2 e \<and> ftakes2 e = [])"
  "case_sum (\<lambda>_. []) btakes2" "case_sum bemits1 (\<lambda>_. [])"
  by unfold_locales (use pair_step in fastforce)+

section \<open>Stages that empty themselves\<close>

text \<open>
  A hop one of whose threads, resumed again and again without new input, empties it:
  \<open>work\<close> is a measure of what the thread has left to do.
\<close>

locale drain = hop inv content ev legal takes emits
  for inv :: "'s \<Rightarrow> bool" and content :: "'s \<Rightarrow> 'p list"
    and ev :: "'e \<Rightarrow> 's \<Rightarrow> sim_error + ('s \<times> 'o list)" and legal takes emits +
  fixes turn :: 'e
    and work :: "'s \<Rightarrow> nat"
  assumes turn_legal: "legal turn"
    and turn_takes: "takes turn = []"
    and work_less: "inv s \<Longrightarrow> ev turn s = Inr (s', os) \<Longrightarrow> work s' \<le> work s - 1"
    and work_done: "inv s \<Longrightarrow> work s = 0 \<Longrightarrow> content s = []"
begin

lemma tokens_turns: "tokens takes (replicate n turn) = []"
  by (induction n) (simp_all add: turn_takes)

lemma turns_legal: "list_all legal (replicate n turn)"
  by (induction n) (simp_all add: turn_legal)

lemma turns_work:
  "inv s \<Longrightarrow> run_events ev (replicate n turn) s = Inr (s', os) \<Longrightarrow> work s' \<le> work s - n"
proof (induction n arbitrary: s os)
  case 0
  then show ?case by simp
next
  case (Suc n)
  then obtain s1 os1 os2 where one: "ev turn s = Inr (s1, os1)"
    and rest: "run_events ev (replicate n turn) s1 = Inr (s', os2)"
    by auto
  have "inv s1" using ev_inv [OF Suc.prems(1) turn_legal one] .
  from Suc.IH [OF this rest] work_less [OF Suc.prems(1) one] show ?case by linarith
qed

lemma drained:
  assumes inv: "inv s" and enough: "work s \<le> n"
  shows "\<exists>s' os. run_events ev (replicate n turn) s = Inr (s', os) \<and> inv s' \<and> content s' = [] \<and>
    tokens emits os = content s"
proof -
  obtain s' os where run: "run_events ev (replicate n turn) s = Inr (s', os)"
    using run_total [OF inv turns_legal] by blast
  have "work s' = 0" using turns_work [OF inv run] enough by simp
  moreover have "inv s'" "tokens emits os @ content s' = content s"
    using run_inv_fifo [OF inv turns_legal run] by (simp_all add: tokens_turns)
  ultimately show ?thesis using work_done run by fastforce
qed

end

section \<open>A bounded queue\<close>

locale bounded_queue =
  fixes inv :: "'q \<Rightarrow> bool"
    and list :: "'q \<Rightarrow> 'a list"
    and cap :: nat
    and full :: "'q \<Rightarrow> bool"
    and empty :: "'q \<Rightarrow> bool"
    and put :: "'q \<Rightarrow> 'a \<Rightarrow> 'q"
    and get :: "'q \<Rightarrow> 'q \<times> 'a"
  assumes full_iff: "inv q \<Longrightarrow> full q \<longleftrightarrow> length (list q) = cap"
    and empty_iff: "inv q \<Longrightarrow> empty q \<longleftrightarrow> list q = []"
    and put_inv: "inv q \<Longrightarrow> \<not> full q \<Longrightarrow> inv (put q x)"
    and put_list: "inv q \<Longrightarrow> \<not> full q \<Longrightarrow> list (put q x) = list q @ [x]"
    and get_inv: "inv q \<Longrightarrow> \<not> empty q \<Longrightarrow> inv (fst (get q))"
    and get_list: "inv q \<Longrightarrow> \<not> empty q \<Longrightarrow> list q = snd (get q) # list (fst (get q))"
    and within: "inv q \<Longrightarrow> length (list q) \<le> cap"
begin

lemma put_get_roundtrip:
  assumes inv: "inv q" and room: "\<not> full q" and nil: "list q = []"
  shows "snd (get (put q x)) = x \<and> list (fst (get (put q x))) = []"
proof -
  have inv': "inv (put q x)" and l: "list (put q x) = [x]"
    using put_inv [OF inv room] put_list [OF inv room] nil by simp_all
  have "\<not> empty (put q x)"
    using empty_iff [OF inv'] l by simp
  from get_list [OF inv' this] show ?thesis
    unfolding l by simp
qed

end

end
