(* ===== verification/Packet_Buffer.thy ===== *)
theory Packet_Buffer
  imports Sim_Packet Interfaces
begin

text \<open>
  The ring buffer in shared memory (\<open>backplane/utilities/packet_buffer.h\<close> and
  \<open>.cpp\<close>). The indices are C \<open>int\<close>s and the remainder is C's; the
  element array is a function of the index, and the invariant shows that every index
  the code forms lies inside the array of \<open>PKT_BUFFER_SIZE + 1\<close> elements.
  \<open>pb_list\<close> is the abstraction to the queue of stored packets.
\<close>

section \<open>State and operations\<close>

definition PKT_BUFFER_SIZE :: int where
  "PKT_BUFFER_SIZE = 8192"

record packet_buffer =
  pb_start :: int
  pb_end :: int
  pb_size :: int
  pb_elems :: "int \<Rightarrow> packet"

definition pb_init :: "packet_buffer \<Rightarrow> packet_buffer" where
  "pb_init pb = pb\<lparr>pb_start := 0, pb_end := 0\<rparr>"

definition pb_is_full :: "packet_buffer \<Rightarrow> bool" where
  "pb_is_full pb \<longleftrightarrow> c_rem (pb_end pb + 1) PKT_BUFFER_SIZE = pb_start pb"

definition pb_is_empty :: "packet_buffer \<Rightarrow> bool" where
  "pb_is_empty pb \<longleftrightarrow> pb_end pb = pb_start pb"

definition pb_write :: "packet_buffer \<Rightarrow> packet \<Rightarrow> packet_buffer \<times> nat" where
  "pb_write pb elem =
     (pb\<lparr>pb_elems := (pb_elems pb)(pb_end pb := elem),
         pb_end := c_rem (pb_end pb + 1) PKT_BUFFER_SIZE\<rparr>, sizeof_packet)"

definition pb_read :: "packet_buffer \<Rightarrow> packet_buffer \<times> packet \<times> nat" where
  "pb_read pb =
     (pb\<lparr>pb_start := c_rem (pb_start pb + 1) PKT_BUFFER_SIZE\<rparr>,
      pb_elems pb (pb_start pb), sizeof_packet)"

section \<open>Invariant and abstraction\<close>

text \<open>Both indices lie in the ring.\<close>

definition pb_inv :: "packet_buffer \<Rightarrow> bool" where
  "pb_inv pb \<longleftrightarrow> 0 \<le> pb_start pb \<and> pb_start pb < PKT_BUFFER_SIZE \<and>
     0 \<le> pb_end pb \<and> pb_end pb < PKT_BUFFER_SIZE"

definition pb_count :: "packet_buffer \<Rightarrow> nat" where
  "pb_count pb = nat ((pb_end pb - pb_start pb) mod PKT_BUFFER_SIZE)"

definition pb_list :: "packet_buffer \<Rightarrow> packet list" where
  "pb_list pb =
     map (\<lambda>i. pb_elems pb ((pb_start pb + int i) mod PKT_BUFFER_SIZE)) [0..<pb_count pb]"

lemma pb_list_length [simp]: "length (pb_list pb) = pb_count pb"
  by (simp add: pb_list_def)

lemma pb_count_less: "pb_count pb < nat PKT_BUFFER_SIZE"
  by (simp add: pb_count_def PKT_BUFFER_SIZE_def nat_less_iff)

lemma next_index: "0 \<le> i \<Longrightarrow> c_rem (i + 1) PKT_BUFFER_SIZE = (i + 1) mod PKT_BUFFER_SIZE"
  by (simp add: c_rem_nonneg PKT_BUFFER_SIZE_def)

text \<open>
  The distance between two indices of a ring of \<open>n\<close> slots: one conditional
  subtraction, so that linear arithmetic settles every question about the ring.
\<close>

lemma ring_diff:
  "0 \<le> s \<Longrightarrow> s < n \<Longrightarrow> 0 \<le> e \<Longrightarrow> e < n \<Longrightarrow>
   (e - s) mod n = (if s \<le> e then e - s else e - s + n)" for s e n :: int
  by (smt (verit) mod_add_self2 mod_pos_pos_trivial)

lemma ring_add:
  "0 \<le> s \<Longrightarrow> s < n \<Longrightarrow> 0 \<le> d \<Longrightarrow> d < n \<Longrightarrow>
   (s + d) mod n = (if s + d < n then s + d else s + d - n)" for s d n :: int
  by (smt (verit) minus_mod_self2 mod_pos_pos_trivial)

lemma next_slot:
  "0 \<le> i \<Longrightarrow> i < PKT_BUFFER_SIZE \<Longrightarrow>
   c_rem (i + 1) PKT_BUFFER_SIZE = (if i + 1 = PKT_BUFFER_SIZE then 0 else i + 1)"
  by (simp add: next_index)

lemma pb_count_int:
  "pb_inv pb \<Longrightarrow>
   int (pb_count pb) = (if pb_start pb \<le> pb_end pb then pb_end pb - pb_start pb
                        else pb_end pb - pb_start pb + PKT_BUFFER_SIZE)"
  by (simp add: pb_count_def pb_inv_def ring_diff)

lemma pb_inv_init: "pb_inv (pb_init pb)"
  by (simp add: pb_inv_def pb_init_def PKT_BUFFER_SIZE_def)

lemma pb_inv_write: "pb_inv pb \<Longrightarrow> pb_inv (fst (pb_write pb x))"
  by (auto simp: pb_inv_def pb_write_def next_slot)

lemma pb_inv_read: "pb_inv pb \<Longrightarrow> pb_inv (fst (pb_read pb))"
  by (auto simp: pb_inv_def pb_read_def next_slot)

lemma pb_list_init: "pb_list (pb_init pb) = []"
  by (simp add: pb_list_def pb_count_def pb_init_def)

lemma pb_is_empty_iff: "pb_inv pb \<Longrightarrow> pb_is_empty pb \<longleftrightarrow> pb_list pb = []"
  using pb_count_int [of pb]
  by (auto simp: pb_is_empty_def pb_inv_def simp flip: length_0_conv split: if_splits)

lemma pb_is_full_iff:
  "pb_inv pb \<Longrightarrow> pb_is_full pb \<longleftrightarrow> int (length (pb_list pb)) = PKT_BUFFER_SIZE - 1"
  using pb_count_int [of pb]
  by (auto simp: pb_is_full_def pb_inv_def next_slot split: if_splits)

text \<open>A write into a buffer that is not full appends; a read takes the oldest packet.\<close>

lemma pb_count_write:
  assumes "pb_inv pb" and "\<not> pb_is_full pb"
  shows "pb_count (fst (pb_write pb x)) = Suc (pb_count pb)"
proof -
  have "int (pb_count (fst (pb_write pb x))) = int (pb_count pb) + 1"
    using assms pb_count_int [OF assms(1)] pb_count_int [OF pb_inv_write [OF assms(1)], of x]
    by (auto simp: pb_write_def pb_is_full_def pb_inv_def next_slot split: if_splits)
  then show ?thesis by simp
qed

lemma pb_slot_end:
  assumes "pb_inv pb" and "i \<le> pb_count pb"
  shows "(pb_start pb + int i) mod PKT_BUFFER_SIZE = pb_end pb \<longleftrightarrow> i = pb_count pb"
proof -
  have "int i < PKT_BUFFER_SIZE" and "int (pb_count pb) < PKT_BUFFER_SIZE"
    using assms pb_count_less [of pb] by (simp_all add: PKT_BUFFER_SIZE_def)
  then show ?thesis
    using assms pb_count_int [OF assms(1)] unfolding pb_inv_def
    by (subst ring_add) (auto split: if_splits)
qed

lemma pb_list_write:
  assumes inv: "pb_inv pb" and room: "\<not> pb_is_full pb"
  shows "pb_list (fst (pb_write pb x)) = pb_list pb @ [x]"
proof -
  have "pb_list (fst (pb_write pb x)) =
      map (\<lambda>i. ((pb_elems pb)(pb_end pb := x)) ((pb_start pb + int i) mod PKT_BUFFER_SIZE))
        [0..<Suc (pb_count pb)]"
    using pb_count_write [OF inv room, of x] by (simp add: pb_list_def pb_write_def)
  also have "\<dots> = pb_list pb @ [x]"
    using pb_slot_end [OF inv] by (auto simp: pb_list_def)
  finally show ?thesis .
qed

lemma pb_count_read:
  assumes "pb_inv pb" and "\<not> pb_is_empty pb"
  shows "pb_count pb = Suc (pb_count (fst (pb_read pb)))"
proof -
  have "int (pb_count (fst (pb_read pb))) + 1 = int (pb_count pb)"
    using assms pb_count_int [OF assms(1)] pb_count_int [OF pb_inv_read [OF assms(1)]]
    by (auto simp: pb_read_def pb_is_empty_def pb_inv_def next_slot split: if_splits)
  then show ?thesis by simp
qed

lemma pb_list_read:
  assumes inv: "pb_inv pb" and ne: "\<not> pb_is_empty pb"
  shows "pb_list pb = fst (snd (pb_read pb)) # pb_list (fst (pb_read pb))"
proof -
  let ?n = "pb_count (fst (pb_read pb))"
  have start: "0 \<le> pb_start pb" "pb_start pb < PKT_BUFFER_SIZE"
    using inv by (simp_all add: pb_inv_def)
  have shift: "(c_rem (pb_start pb + 1) PKT_BUFFER_SIZE + int i) mod PKT_BUFFER_SIZE
      = (pb_start pb + int (Suc i)) mod PKT_BUFFER_SIZE" for i
    using start by (simp add: next_index mod_add_left_eq) (simp add: algebra_simps)
  have "pb_list pb = map (\<lambda>i. pb_elems pb ((pb_start pb + int i) mod PKT_BUFFER_SIZE)) [0..<Suc ?n]"
    using pb_count_read [OF inv ne] by (simp add: pb_list_def)
  also have "\<dots> = pb_elems pb (pb_start pb) #
      map (\<lambda>i. pb_elems pb ((pb_start pb + int (Suc i)) mod PKT_BUFFER_SIZE)) [0..<?n]"
    using start by (simp add: upt_conv_Cons map_Suc_upt [symmetric] del: upt_Suc)
  also have "\<dots> = fst (snd (pb_read pb)) # pb_list (fst (pb_read pb))"
    by (simp add: pb_list_def shift) (simp add: pb_read_def shift)
  finally show ?thesis .
qed

section \<open>The ring buffer is a bounded queue\<close>

definition pb_put :: "packet_buffer \<Rightarrow> packet \<Rightarrow> packet_buffer" where
  "pb_put pb x = fst (pb_write pb x)"

definition pb_get :: "packet_buffer \<Rightarrow> packet_buffer \<times> packet" where
  "pb_get pb = (fst (pb_read pb), fst (snd (pb_read pb)))"

lemma pb_within: "length (pb_list pb) \<le> nat (PKT_BUFFER_SIZE - 1)"
  using pb_count_less [of pb] by (simp add: PKT_BUFFER_SIZE_def)

interpretation ring: bounded_queue pb_inv pb_list "nat (PKT_BUFFER_SIZE - 1)"
  pb_is_full pb_is_empty pb_put pb_get
proof unfold_locales
  fix q x assume inv: "pb_inv q"
  show "pb_is_full q \<longleftrightarrow> length (pb_list q) = nat (PKT_BUFFER_SIZE - 1)"
    using pb_is_full_iff [OF inv] by (auto simp: PKT_BUFFER_SIZE_def)
  show "pb_is_empty q \<longleftrightarrow> pb_list q = []"
    by (rule pb_is_empty_iff [OF inv])
  show "length (pb_list q) \<le> nat (PKT_BUFFER_SIZE - 1)"
    by (rule pb_within)
  show "\<not> pb_is_full q \<Longrightarrow> pb_inv (pb_put q x)"
    unfolding pb_put_def by (rule pb_inv_write [OF inv])
  show "\<not> pb_is_full q \<Longrightarrow> pb_list (pb_put q x) = pb_list q @ [x]"
    unfolding pb_put_def by (rule pb_list_write [OF inv])
  show "\<not> pb_is_empty q \<Longrightarrow> pb_inv (fst (pb_get q))"
    unfolding pb_get_def by (simp add: pb_inv_read [OF inv])
  show "\<not> pb_is_empty q \<Longrightarrow> pb_list q = snd (pb_get q) # pb_list (fst (pb_get q))"
    unfolding pb_get_def using pb_list_read [OF inv] by simp
qed

text \<open>
  Without the check, a write into a full buffer makes the two indices meet: the buffer
  reads as empty and every stored packet is lost. So the callers' check before
  \<open>pb_write\<close> is not optional.
\<close>

lemma pb_write_full:
  assumes "pb_inv pb" and "pb_is_full pb"
  shows "pb_list (fst (pb_write pb x)) = []"
proof -
  have "pb_is_empty (fst (pb_write pb x))"
    using assms(2) by (simp add: pb_is_empty_def pb_is_full_def pb_write_def)
  then show ?thesis
    using pb_is_empty_iff [OF pb_inv_write [OF assms(1)]] by simp
qed

end
