(* ===== verification/Packet_Buffer_Conc.thy ===== *)
theory Packet_Buffer_Conc
  imports Packet_Buffer
begin

text \<open>
  The ring buffer between its two processes. The simulator and the host process run at
  the same time and share the buffer without a lock: one only writes, the other only
  reads. The model cuts \<open>send_packet\<close> and \<open>recv_packet\<close> into their
  accesses to shared memory (test of the indices, copy of one element, update of one
  index) and lets the two sides interleave them in any order. The accesses themselves
  are taken to be atomic and in program order, which the \<open>volatile\<close> indices are
  there for.
\<close>

section \<open>The accesses of one operation\<close>

definition pb_store :: "packet_buffer \<Rightarrow> packet \<Rightarrow> packet_buffer" where
  "pb_store pb x = pb\<lparr>pb_elems := (pb_elems pb)(pb_end pb := x)\<rparr>"

definition pb_advance_end :: "packet_buffer \<Rightarrow> packet_buffer" where
  "pb_advance_end pb = pb\<lparr>pb_end := c_rem (pb_end pb + 1) PKT_BUFFER_SIZE\<rparr>"

definition pb_load :: "packet_buffer \<Rightarrow> packet" where
  "pb_load pb = pb_elems pb (pb_start pb)"

definition pb_advance_start :: "packet_buffer \<Rightarrow> packet_buffer" where
  "pb_advance_start pb = pb\<lparr>pb_start := c_rem (pb_start pb + 1) PKT_BUFFER_SIZE\<rparr>"

lemmas pb_access_defs = pb_store_def pb_advance_end_def pb_load_def pb_advance_start_def

lemma pb_write_accesses: "pb_write pb x = (pb_advance_end (pb_store pb x), sizeof_packet)"
  by (simp add: pb_write_def pb_access_defs)

lemma pb_read_accesses: "pb_read pb = (pb_advance_start pb, pb_load pb, sizeof_packet)"
  by (simp add: pb_read_def pb_access_defs)

section \<open>Two processes\<close>

datatype producer_pc =
    P_idle
  | P_test packet    \<comment> \<open>about to test \<open>pb_is_full\<close>\<close>
  | P_copy packet    \<comment> \<open>found room, about to copy the packet\<close>
  | P_bump packet    \<comment> \<open>copied, about to move \<open>end\<close>\<close>

datatype consumer_pc =
    C_test           \<comment> \<open>about to test \<open>pb_is_empty\<close>\<close>
  | C_copy           \<comment> \<open>found a packet, about to copy it\<close>
  | C_bump packet    \<comment> \<open>copied, about to move \<open>start\<close>\<close>

text \<open>
  \<open>sent\<close> and \<open>received\<close> record what the two calls have completed with;
  no step reads them.
\<close>

record spsc =
  buf :: packet_buffer
  prod_pc :: producer_pc
  cons_pc :: consumer_pc
  sent :: "packet list"
  received :: "packet list"

inductive spsc_step :: "spsc \<Rightarrow> spsc \<Rightarrow> bool" where
  send_call: "prod_pc s = P_idle \<Longrightarrow> spsc_step s (s\<lparr>prod_pc := P_test x\<rparr>)"
| send_wait: "prod_pc s = P_test x \<Longrightarrow> pb_is_full (buf s) \<Longrightarrow> spsc_step s s"
| send_go: "prod_pc s = P_test x \<Longrightarrow> \<not> pb_is_full (buf s) \<Longrightarrow>
    spsc_step s (s\<lparr>prod_pc := P_copy x\<rparr>)"
| send_copy: "prod_pc s = P_copy x \<Longrightarrow>
    spsc_step s (s\<lparr>buf := pb_store (buf s) x, prod_pc := P_bump x\<rparr>)"
| send_bump: "prod_pc s = P_bump x \<Longrightarrow>
    spsc_step s (s\<lparr>buf := pb_advance_end (buf s), prod_pc := P_idle, sent := sent s @ [x]\<rparr>)"
| recv_none: "cons_pc s = C_test \<Longrightarrow> pb_is_empty (buf s) \<Longrightarrow> spsc_step s s"
| recv_go: "cons_pc s = C_test \<Longrightarrow> \<not> pb_is_empty (buf s) \<Longrightarrow>
    spsc_step s (s\<lparr>cons_pc := C_copy\<rparr>)"
| recv_copy: "cons_pc s = C_copy \<Longrightarrow>
    spsc_step s (s\<lparr>cons_pc := C_bump (pb_load (buf s))\<rparr>)"
| recv_bump: "cons_pc s = C_bump x \<Longrightarrow>
    spsc_step s (s\<lparr>buf := pb_advance_start (buf s), cons_pc := C_test,
      received := received s @ [x]\<rparr>)"

text \<open>A buffer of zeros, for examples.\<close>

definition zero_buffer :: packet_buffer where
  "zero_buffer = \<lparr>pb_start = 0, pb_end = 0, pb_size = 0, pb_elems = (\<lambda>_. zero_packet)\<rparr>"

inductive_cases spsc_stepE: "spsc_step s t"

definition spsc_init :: "packet_buffer \<Rightarrow> spsc" where
  "spsc_init pb =
     \<lparr>buf = pb_init pb, prod_pc = P_idle, cons_pc = C_test, sent = [], received = []\<rparr>"

inductive spsc_reachable :: "spsc \<Rightarrow> bool" where
  start: "spsc_reachable (spsc_init pb)"
| step: "spsc_reachable s \<Longrightarrow> spsc_step s t \<Longrightarrow> spsc_reachable t"

section \<open>Invariant\<close>

text \<open>
  What each side has found out stays true while the other side moves: only the consumer
  can make room and only the producer can make the buffer non-empty.
\<close>

definition prod_ok :: "spsc \<Rightarrow> bool" where
  "prod_ok s \<longleftrightarrow> (case prod_pc s of
     P_copy x \<Rightarrow> \<not> pb_is_full (buf s)
   | P_bump x \<Rightarrow> \<not> pb_is_full (buf s) \<and> pb_elems (buf s) (pb_end (buf s)) = x
   | _ \<Rightarrow> True)"

definition cons_ok :: "spsc \<Rightarrow> bool" where
  "cons_ok s \<longleftrightarrow> (case cons_pc s of
     C_copy \<Rightarrow> \<not> pb_is_empty (buf s)
   | C_bump x \<Rightarrow> \<not> pb_is_empty (buf s) \<and> pb_load (buf s) = x
   | C_test \<Rightarrow> True)"

definition spsc_inv :: "spsc \<Rightarrow> bool" where
  "spsc_inv s \<longleftrightarrow> pb_inv (buf s) \<and> prod_ok s \<and> cons_ok s \<and>
     received s @ pb_list (buf s) = sent s"

lemma pb_list_store:
  assumes "pb_inv pb" and "\<not> pb_is_full pb"
  shows "pb_list (pb_store pb x) = pb_list pb"
  using pb_slot_end [OF assms(1)] by (auto simp: pb_list_def pb_store_def pb_count_def)

lemma pb_list_advance_end:
  assumes "pb_inv pb" and "\<not> pb_is_full pb"
  shows "pb_list (pb_advance_end pb) = pb_list pb @ [pb_elems pb (pb_end pb)]"
proof -
  have "pb_store pb (pb_elems pb (pb_end pb)) = pb"
    by (simp add: pb_store_def)
  then show ?thesis
    using pb_list_write [OF assms, of "pb_elems pb (pb_end pb)"] by (simp add: pb_write_accesses)
qed

lemma pb_list_advance_start:
  assumes "pb_inv pb" and "\<not> pb_is_empty pb"
  shows "pb_list pb = pb_load pb # pb_list (pb_advance_start pb)"
  using pb_list_read [OF assms] by (simp add: pb_read_accesses)

lemma pb_inv_accesses:
  "pb_inv pb \<Longrightarrow> pb_inv (pb_store pb x)"
  "pb_inv pb \<Longrightarrow> pb_inv (pb_advance_end pb)"
  "pb_inv pb \<Longrightarrow> pb_inv (pb_advance_start pb)"
  using pb_inv_write [of pb x] pb_inv_read [of pb]
  by (auto simp: pb_write_accesses pb_read_accesses) (auto simp: pb_inv_def pb_store_def pb_advance_end_def)

lemma full_empty_accesses:
  "pb_is_full (pb_store pb x) = pb_is_full pb"
  "pb_is_empty (pb_store pb x) = pb_is_empty pb"
  "pb_inv pb \<Longrightarrow> \<not> pb_is_full pb \<Longrightarrow> \<not> pb_is_empty (pb_advance_end pb)"
  "pb_inv pb \<Longrightarrow> \<not> pb_is_empty pb \<Longrightarrow> \<not> pb_is_full (pb_advance_start pb)"
  by (auto simp: pb_is_full_def pb_is_empty_def pb_access_defs pb_inv_def next_slot split: if_splits)

lemma element_accesses:
  "pb_load (pb_advance_end pb) = pb_load pb"
  "pb_elems (pb_advance_start pb) (pb_end (pb_advance_start pb)) = pb_elems pb (pb_end pb)"
  "pb_elems (pb_store pb x) (pb_end (pb_store pb x)) = x"
  "\<not> pb_is_empty pb \<Longrightarrow> pb_load (pb_store pb x) = pb_load pb"
  by (auto simp: pb_access_defs pb_is_empty_def)

lemma spsc_inv_init: "spsc_inv (spsc_init pb)"
  by (simp add: spsc_inv_def spsc_init_def prod_ok_def cons_ok_def pb_inv_init pb_list_init)

lemma spsc_step_inv: "spsc_step s t \<Longrightarrow> spsc_inv s \<Longrightarrow> spsc_inv t"
proof (induction rule: spsc_step.induct)
  case (send_copy s x)
  then show ?case
    by (auto simp: spsc_inv_def prod_ok_def cons_ok_def pb_inv_accesses pb_list_store
        full_empty_accesses element_accesses split: consumer_pc.splits)
next
  case (send_bump s x)
  then show ?case
    by (auto simp: spsc_inv_def prod_ok_def cons_ok_def pb_inv_accesses pb_list_advance_end
        full_empty_accesses element_accesses simp flip: append_assoc split: consumer_pc.splits)
next
  case (recv_bump s x)
  then show ?case
    by (auto simp: spsc_inv_def prod_ok_def cons_ok_def pb_inv_accesses pb_list_advance_start
        full_empty_accesses element_accesses split: producer_pc.splits)
qed (auto simp: spsc_inv_def prod_ok_def cons_ok_def split: consumer_pc.splits producer_pc.splits)

lemma spsc_reachable_inv: "spsc_reachable s \<Longrightarrow> spsc_inv s"
  by (induction rule: spsc_reachable.induct) (auto intro: spsc_inv_init spsc_step_inv)

text \<open>
  C8. Whatever the interleaving of the two processes, the packets received so far followed by
  the packets in the buffer are exactly the packets sent: none is lost, repeated,
  reordered or torn.
\<close>

theorem spsc_fifo: "spsc_reachable s \<Longrightarrow> received s @ pb_list (buf s) = sent s"
  by (drule spsc_reachable_inv) (simp add: spsc_inv_def)

theorem spsc_fifo_witness:
  "\<exists>s. spsc_reachable s \<and> prod_pc s = P_copy zero_packet \<and> received s @ pb_list (buf s) = sent s"
proof -
  let ?s0 = "spsc_init zero_buffer" and ?x = zero_packet
  have "spsc_reachable (?s0\<lparr>prod_pc := P_test ?x\<rparr>)"
    by (rule spsc_reachable.step [OF spsc_reachable.start send_call]) (simp add: spsc_init_def)
  then have "spsc_reachable (?s0\<lparr>prod_pc := P_test ?x, prod_pc := P_copy ?x\<rparr>)"
    by (rule spsc_reachable.step [OF _ send_go])
      (simp_all add: spsc_init_def pb_init_def pb_is_full_def c_rem_def PKT_BUFFER_SIZE_def)
  from spsc_fifo [OF this] this show ?thesis
    by (intro exI [of _ "?s0\<lparr>prod_pc := P_test ?x, prod_pc := P_copy ?x\<rparr>"]) simp
qed

text \<open>While both processes copy an element, they copy different ones.\<close>

lemma spsc_no_race:
  assumes "spsc_reachable s" and "prod_pc s = P_copy x" and "cons_pc s = C_copy"
  shows "pb_end (buf s) \<noteq> pb_start (buf s)"
  using spsc_reachable_inv [OF assms(1)] assms(2,3)
  by (auto simp: spsc_inv_def cons_ok_def pb_is_empty_def)

end
