(* ===== verification/Mem_Manager.thy ===== *)
theory Mem_Manager
  imports Prelude
begin

text \<open>
  The pool of payload objects (\<open>backplane/utilities/mm.h\<close> and \<open>.cpp\<close>). The
  code keeps one doubly linked list of \<open>access\<close> nodes and two pointers into it:
  \<open>free_list\<close>, whose nodes carry free payloads, and \<open>empties\<close>, the last node
  before it, whose payload has been handed out. Nodes live in an explicit store
  addressed by numbers. \<open>mm_rep\<close> relates the node store to the stack of free
  payloads, and the interface locale states the pool in terms of that stack.
\<close>

section \<open>State and operations\<close>

record access =
  a_trans :: pid
  a_next :: "nat option"
  a_prev :: "nat option"

record mm =
  free_list :: "nat option"
  empties :: "nat option"
  nodes :: "nat \<Rightarrow> access"
  next_node :: nat

text \<open>\<open>mm ()\<close>: both pointers are null; no node exists yet.\<close>

definition mm_init :: "(nat \<Rightarrow> access) \<Rightarrow> mm" where
  "mm_init garbage = \<lparr>free_list = None, empties = None, nodes = garbage, next_node = 0\<rparr>"

text \<open>\<open>allocate\<close>; \<open>None\<close> stands for \<open>new gp_t (this)\<close>.\<close>

definition mm_allocate :: "mm \<Rightarrow> mm \<times> pid option" where
  "mm_allocate m =
     (case free_list m of
        Some n \<Rightarrow> (m\<lparr>empties := Some n, free_list := a_next (nodes m n)\<rparr>, Some (a_trans (nodes m n)))
      | None \<Rightarrow> (m, None))"

text \<open>The node that \<open>free\<close> makes when no empty one is left.\<close>

definition mm_new_access :: "mm \<Rightarrow> mm" where
  "mm_new_access m =
     (let e = next_node m;
          nd = (nodes m)(e := (nodes m e)\<lparr>a_next := free_list m, a_prev := None\<rparr>);
          nd' = (case free_list m of None \<Rightarrow> nd
                 | Some f \<Rightarrow> nd(f := (nd f)\<lparr>a_prev := Some e\<rparr>))
      in m\<lparr>empties := Some e, nodes := nd', next_node := Suc e\<rparr>)"

definition mm_free :: "mm \<Rightarrow> pid \<Rightarrow> mm" where
  "mm_free m tr =
     (let m1 = (if empties m = None then mm_new_access m else m)
      in (case empties m1 of
            None \<Rightarrow> m1
          | Some e \<Rightarrow>
              m1\<lparr>free_list := Some e,
                 nodes := (nodes m1)(e := (nodes m1 e)\<lparr>a_trans := tr\<rparr>),
                 empties := a_prev (nodes m1 e)\<rparr>))"

section \<open>The linked list and the stack of free payloads\<close>

definition hd_opt :: "'a list \<Rightarrow> 'a option" where
  "hd_opt xs = (case xs of [] \<Rightarrow> None | x # _ \<Rightarrow> Some x)"

lemma hd_opt_simps [simp]: "hd_opt [] = None" "hd_opt (x # xs) = Some x"
  by (simp_all add: hd_opt_def)

lemma hd_opt_None [simp]: "hd_opt xs = None \<longleftrightarrow> xs = []"
  by (cases xs) auto

lemma hd_opt_Some: "hd_opt xs = Some x \<longleftrightarrow> (\<exists>ys. xs = x # ys)"
  by (cases xs) auto

text \<open>
  \<open>linked nd p xs\<close>: the nodes \<open>xs\<close> are linked in both directions, \<open>p\<close> is the
  predecessor of the first one, and the last one has no successor.
\<close>

fun linked :: "(nat \<Rightarrow> access) \<Rightarrow> nat option \<Rightarrow> nat list \<Rightarrow> bool" where
  "linked nd p [] \<longleftrightarrow> True"
| "linked nd p (x # xs) \<longleftrightarrow>
     a_prev (nd x) = p \<and> a_next (nd x) = hd_opt xs \<and> linked nd (Some x) xs"

lemma linked_cong:
  assumes "\<And>x. x \<in> set xs \<Longrightarrow> a_prev (nd' x) = a_prev (nd x) \<and> a_next (nd' x) = a_next (nd x)"
  shows "linked nd' p xs = linked nd p xs"
  using assms by (induction xs arbitrary: p) auto

lemma linked_append:
  "linked nd p (xs @ y # ys) \<Longrightarrow> a_prev (nd y) = (if xs = [] then p else Some (last xs))"
  by (induction xs arbitrary: p) auto

lemma linked_middle_next: "linked nd p (xs @ y # ys) \<Longrightarrow> a_next (nd y) = hd_opt ys"
  by (induction xs arbitrary: p) auto

definition mm_shape :: "mm \<Rightarrow> nat list \<Rightarrow> nat list \<Rightarrow> bool" where
  "mm_shape m es fs \<longleftrightarrow>
     linked (nodes m) None (rev es @ fs) \<and> distinct (rev es @ fs) \<and>
     (\<forall>n \<in> set (es @ fs). n < next_node m) \<and>
     free_list m = hd_opt fs \<and> empties m = hd_opt es"

definition mm_rep :: "mm \<Rightarrow> pid list \<Rightarrow> bool" where
  "mm_rep m ps \<longleftrightarrow> (\<exists>es fs. mm_shape m es fs \<and> ps = map (\<lambda>n. a_trans (nodes m n)) fs)"

lemma mm_rep_init: "mm_rep (mm_init g) []"
  unfolding mm_rep_def by (rule exI [of _ "[]"], rule exI [of _ "[]"]) (simp add: mm_shape_def mm_init_def)

lemma mm_allocate_shape:
  assumes "mm_shape m es (f # fs)"
  shows "mm_shape (fst (mm_allocate m)) (f # es) fs \<and>
    snd (mm_allocate m) = Some (a_trans (nodes m f)) \<and>
    nodes (fst (mm_allocate m)) = nodes m"
  using assms linked_middle_next [of "nodes m" None "rev es" f fs]
  by (auto simp: mm_shape_def mm_allocate_def)

lemma mm_allocate_empty:
  assumes "mm_rep m []"
  shows "mm_allocate m = (m, None)"
  using assms by (auto simp: mm_rep_def mm_shape_def mm_allocate_def)

lemma mm_allocate_pop:
  assumes "mm_rep m (p # ps)"
  obtains m' where "mm_allocate m = (m', Some p)" and "mm_rep m' ps"
proof -
  from assms obtain es f fs where shape: "mm_shape m es (f # fs)"
    and p: "p = a_trans (nodes m f)" and ps: "ps = map (\<lambda>n. a_trans (nodes m n)) fs"
    by (auto simp: mm_rep_def Cons_eq_map_conv)
  from mm_allocate_shape [OF shape] p ps have "mm_rep (fst (mm_allocate m)) ps"
    and "snd (mm_allocate m) = Some p"
    by (auto simp: mm_rep_def)
  with that show ?thesis by (cases "mm_allocate m") auto
qed

text \<open>A node made by \<open>free\<close> goes in front of the free nodes.\<close>

lemma mm_new_access_shape:
  assumes "mm_shape m [] fs"
  shows "mm_shape (mm_new_access m) [next_node m] fs \<and>
    map (\<lambda>n. a_trans (nodes (mm_new_access m) n)) fs = map (\<lambda>n. a_trans (nodes m n)) fs"
proof (cases fs)
  case Nil
  with assms show ?thesis
    by (simp add: mm_shape_def mm_new_access_def Let_def)
next
  case (Cons f gs)
  have ne: "next_node m \<notin> set (f # gs)" and d: "distinct (f # gs)"
    using assms Cons by (auto simp: mm_shape_def)
  have "linked (nodes (mm_new_access m)) (Some f) gs = linked (nodes m) (Some f) gs"
    using ne d assms Cons
    by (intro linked_cong) (auto simp: mm_new_access_def Let_def mm_shape_def)
  with assms Cons ne d show ?thesis
    by (auto simp: mm_shape_def mm_new_access_def Let_def less_Suc_eq)
qed

lemma mm_free_shape:
  assumes "mm_shape m (e # es) fs"
  shows "mm_shape (mm_free m p) es (e # fs) \<and>
    map (\<lambda>n. a_trans (nodes (mm_free m p) n)) (e # fs) = p # map (\<lambda>n. a_trans (nodes m n)) fs"
proof -
  have "a_prev (nodes m e) = hd_opt es"
    using assms linked_append [of "nodes m" None "rev es" e fs]
    by (cases es) (auto simp: mm_shape_def)
  moreover have "linked ((nodes m)(e := (nodes m e)\<lparr>a_trans := p\<rparr>)) None (rev es @ e # fs)
      = linked (nodes m) None (rev es @ e # fs)"
    by (rule linked_cong) simp
  moreover have "e \<notin> set fs"
    using assms by (auto simp: mm_shape_def)
  ultimately show ?thesis
    using assms by (auto simp: mm_shape_def mm_free_def Let_def)
qed

lemma mm_free_push:
  assumes "mm_rep m ps"
  shows "mm_rep (mm_free m p) (p # ps)"
proof -
  from assms obtain es fs where shape: "mm_shape m es fs"
    and ps: "ps = map (\<lambda>n. a_trans (nodes m n)) fs"
    by (auto simp: mm_rep_def)
  show ?thesis
  proof (cases es)
    case (Cons e es')
    from mm_free_shape [of m e es' fs p] shape ps Cons show ?thesis
      unfolding mm_rep_def by metis
  next
    case Nil
    let ?m = "mm_new_access m"
    from shape Nil have new: "mm_shape ?m [next_node m] fs"
      and same: "map (\<lambda>n. a_trans (nodes ?m n)) fs = ps"
      using mm_new_access_shape ps by auto
    have "empties m = None" and "empties ?m \<noteq> None"
      using shape Nil new by (auto simp: mm_shape_def)
    then have "mm_free m p = mm_free ?m p"
      by (simp only: mm_free_def if_True if_False refl)
    with mm_free_shape [OF new, of p] same show ?thesis
      unfolding mm_rep_def by metis
  qed
qed

section \<open>The pool as an interface\<close>

text \<open>
  What the payloads need from a memory manager (the library's \<open>tlm_mm_interface\<close>
  plus \<open>allocate\<close>): \<open>free\<close> puts a payload on the pool, \<open>allocate\<close> takes
  one from it and asks for a new one only when the pool is empty.
\<close>

locale payload_pool =
  fixes rep :: "'m \<Rightarrow> pid list \<Rightarrow> bool"
    and alloc :: "'m \<Rightarrow> 'm \<times> pid option"
    and free :: "'m \<Rightarrow> pid \<Rightarrow> 'm"
  assumes alloc_empty: "rep m [] \<Longrightarrow> alloc m = (m, None)"
    and alloc_pop: "rep m (p # ps) \<Longrightarrow> \<exists>m'. alloc m = (m', Some p) \<and> rep m' ps"
    and free_push: "rep m ps \<Longrightarrow> rep (free m p) (p # ps)"
begin

text \<open>A pool never asks for a new payload while it holds one, and reuses the last one freed.\<close>

lemma free_alloc: "rep m ps \<Longrightarrow> \<exists>m'. alloc (free m p) = (m', Some p) \<and> rep m' ps"
  by (rule alloc_pop) (rule free_push)

lemma alloc_cases:
  assumes "rep m ps"
  shows "\<exists>m'. (ps = [] \<and> m' = m \<and> alloc m = (m', None)) \<or>
    (\<exists>p qs. ps = p # qs \<and> alloc m = (m', Some p) \<and> rep m' qs)"
proof (cases ps)
  case Nil
  with assms show ?thesis using alloc_empty by auto
next
  case (Cons p qs)
  with assms show ?thesis using alloc_pop by blast
qed

end

interpretation mm: payload_pool mm_rep mm_allocate mm_free
proof unfold_locales
  fix m p ps assume "mm_rep m (p # ps)"
  then show "\<exists>m'. mm_allocate m = (m', Some p) \<and> mm_rep m' ps"
    by (rule mm_allocate_pop) blast
qed (simp_all add: mm_allocate_empty mm_free_push)

text \<open>
  The nodes are recycled: a payload that goes to the pool takes the node of a payload that
  left it, and a new node is made only when every node holds a free payload.
\<close>

lemma mm_free_reuses_node:
  assumes "mm_shape m es fs"
  shows "next_node (mm_free m p) = (if es = [] then Suc (next_node m) else next_node m)"
  using assms by (cases es) (auto simp: mm_free_def Let_def mm_new_access_def mm_shape_def)

end
