(* ===== verification/Tlm_Payload.thy ===== *)
theory Tlm_Payload
  imports Mem_Manager
begin

text \<open>
  Payload objects and their life cycle: the attributes and the reference count of
  \<open>tlm_generic_payload\<close> (the repository's copy of \<open>tlm_gp.h\<close>, which carries
  the extra attribute \<open>m_id\<close>) in a store addressed by payload pointers, together with
  the pools of the memory managers. A release that drops the last reference gives the
  object back to its pool.
\<close>

section \<open>The payload\<close>

datatype tlm_command = TLM_READ_COMMAND | TLM_WRITE_COMMAND | TLM_IGNORE_COMMAND

datatype tlm_phase = UNINITIALIZED_PHASE | BEGIN_REQ | END_REQ | BEGIN_RESP | END_RESP

datatype tlm_sync_enum = TLM_ACCEPTED | TLM_UPDATED | TLM_COMPLETED

text \<open>
  The data pointer of a payload is null, or points to a buffer that its creator filled and
  nobody changes afterwards (so the contents stand for the pointer), or points into
  the memory array of a memory device, where later writes show through it.
\<close>

datatype data_ptr = Null_ptr | Buf_ptr "byte list" | Mem_ptr nat u64

record gp =
  gp_address :: u64
  gp_command :: tlm_command
  gp_data :: data_ptr
  gp_length :: u32
  gp_id :: u32
  gp_mm :: "nat option"
  gp_ref_count :: u32

text \<open>
  \<open>gp_ini\<close> holds the attributes that the library's constructor gives a new payload; the
  constructor is not part of the repository, and every attribute the code reads is set
  before it is read.
\<close>

record store =
  heap :: "pid \<Rightarrow> gp"
  pools :: "nat \<Rightarrow> mm"
  next_pid :: pid
  gp_ini :: gp

definition gp_new :: "gp \<Rightarrow> nat \<Rightarrow> gp" where
  "gp_new ini m = ini\<lparr>gp_mm := Some m, gp_ref_count := 0\<rparr>"

definition upd_gp :: "pid \<Rightarrow> (gp \<Rightarrow> gp) \<Rightarrow> store \<Rightarrow> store" where
  "upd_gp p f st = st\<lparr>heap := (heap st)(p := f (heap st p))\<rparr>"

lemma upd_gp_simps [simp]:
  "heap (upd_gp p f st) = (heap st)(p := f (heap st p))"
  "pools (upd_gp p f st) = pools st"
  "next_pid (upd_gp p f st) = next_pid st"
  "gp_ini (upd_gp p f st) = gp_ini st"
  by (simp_all add: upd_gp_def)

section \<open>Allocation and reference counting\<close>

text \<open>\<open>m_mm.allocate ()\<close> on the memory manager \<open>m\<close>.\<close>

definition st_allocate :: "nat \<Rightarrow> store \<Rightarrow> store \<times> pid" where
  "st_allocate m st =
     (case mm_allocate (pools st m) of
        (pool, Some p) \<Rightarrow> (st\<lparr>pools := (pools st)(m := pool)\<rparr>, p)
      | (pool, None) \<Rightarrow>
          (st\<lparr>pools := (pools st)(m := pool),
              heap := (heap st)(next_pid st := gp_new (gp_ini st) m),
              next_pid := Suc (next_pid st)\<rparr>, next_pid st))"

definition acquire :: "pid \<Rightarrow> store \<Rightarrow> sim_error + store" where
  "acquire p st =
     (if gp_mm (heap st p) = None then Inl Assert_failed
      else Inr (upd_gp p (\<lambda>g. g\<lparr>gp_ref_count := gp_ref_count g + 1\<rparr>) st))"

definition release :: "pid \<Rightarrow> store \<Rightarrow> sim_error + store" where
  "release p st =
     (case gp_mm (heap st p) of
        None \<Rightarrow> Inl Assert_failed
      | Some m \<Rightarrow>
          (if gp_ref_count (heap st p) = 0 then Inl Assert_failed
           else let st1 = upd_gp p (\<lambda>g. g\<lparr>gp_ref_count := gp_ref_count g - 1\<rparr>) st
                in Inr (if gp_ref_count (heap st1 p) = 0
                        then st1\<lparr>pools := (pools st1)(m := mm_free (pools st1 m) p)\<rparr>
                        else st1)))"

section \<open>Life cycle\<close>

text \<open>
  \<open>fs m\<close> lists the free payloads of memory manager \<open>m\<close>. In a well-formed store an
  existing payload has no reference exactly if it is on the free list of its manager.
\<close>

definition store_wf :: "(nat \<Rightarrow> pid list) \<Rightarrow> store \<Rightarrow> bool" where
  "store_wf fs st \<longleftrightarrow>
     (\<forall>m. mm_rep (pools st m) (fs m) \<and> distinct (fs m)) \<and>
     (\<forall>m. \<forall>p \<in> set (fs m). p < next_pid st \<and> gp_mm (heap st p) = Some m) \<and>
     (\<forall>p < next_pid st. (\<exists>m. gp_mm (heap st p) = Some m) \<and>
        (gp_ref_count (heap st p) = 0 \<longleftrightarrow> (\<exists>m. p \<in> set (fs m))))"

definition live :: "store \<Rightarrow> pid set" where
  "live st = {p. p < next_pid st \<and> gp_ref_count (heap st p) \<noteq> 0}"

definition store_init :: "gp \<Rightarrow> (nat \<Rightarrow> nat \<Rightarrow> access) \<Rightarrow> (pid \<Rightarrow> gp) \<Rightarrow> store" where
  "store_init ini g h = \<lparr>heap = h, pools = (\<lambda>m. mm_init (g m)), next_pid = 0, gp_ini = ini\<rparr>"

lemma store_wf_init: "store_wf (\<lambda>_. []) (store_init ini g h)"
  by (simp add: store_wf_def store_init_def mm_rep_init)

lemma store_wfD:
  assumes "store_wf fs st"
  shows "mm_rep (pools st m) (fs m)" "distinct (fs m)"
    and "p \<in> set (fs m) \<Longrightarrow> p < next_pid st"
    and "p \<in> set (fs m) \<Longrightarrow> gp_mm (heap st p) = Some m"
    and "p \<in> set (fs m) \<Longrightarrow> gp_ref_count (heap st p) = 0"
    and "p < next_pid st \<Longrightarrow> gp_ref_count (heap st p) = 0 \<Longrightarrow> \<exists>m. p \<in> set (fs m)"
    and "p < next_pid st \<Longrightarrow> \<exists>m. gp_mm (heap st p) = Some m"
  using assms unfolding store_wf_def by blast+

lemma store_wfI:
  assumes "\<And>m. mm_rep (pools st m) (fs m)" "\<And>m. distinct (fs m)"
    and "\<And>m p. p \<in> set (fs m) \<Longrightarrow>
      p < next_pid st \<and> gp_mm (heap st p) = Some m \<and> gp_ref_count (heap st p) = 0"
    and "\<And>p. p < next_pid st \<Longrightarrow> \<exists>m. gp_mm (heap st p) = Some m"
    and "\<And>p. p < next_pid st \<Longrightarrow> gp_ref_count (heap st p) = 0 \<Longrightarrow> \<exists>m. p \<in> set (fs m)"
  shows "store_wf fs st"
  using assms unfolding store_wf_def by blast

text \<open>
  \<open>allocate\<close> followed by \<open>acquire\<close>, which is how the code makes every payload.
\<close>

definition st_obtain :: "nat \<Rightarrow> store \<Rightarrow> sim_error + (store \<times> pid)" where
  "st_obtain m st =
     (case st_allocate m st of (st1, p) \<Rightarrow> ebind (acquire p st1) (\<lambda>st2. Inr (st2, p)))"

lemma st_obtain_pool:
  assumes wf: "store_wf fs st" and fs: "fs m = p # ps"
  shows "\<exists>st'. st_obtain m st = Inr (st', p) \<and> store_wf (fs(m := ps)) st' \<and>
    live st' = insert p (live st) \<and> (\<forall>q. q \<noteq> p \<longrightarrow> heap st' q = heap st q) \<and>
    gp_ref_count (heap st' p) = 1"
proof -
  have p: "p < next_pid st" "gp_mm (heap st p) = Some m" "gp_ref_count (heap st p) = 0"
    "p \<notin> set ps"
    using store_wfD [OF wf] fs by (metis distinct.simps(2) list.set_intros(1))+
  have other: "m' = m" if "p \<in> set (fs m')" for m'
    using store_wfD(4) [OF wf that] p(2) by simp
  from mm.alloc_pop store_wfD(1) [OF wf, of m] fs
  obtain pool where pool: "mm_allocate (pools st m) = (pool, Some p)" "mm_rep pool ps"
    by metis
  let ?st = "upd_gp p (\<lambda>g. g\<lparr>gp_ref_count := gp_ref_count g + 1\<rparr>) (st\<lparr>pools := (pools st)(m := pool)\<rparr>)"
  have "st_obtain m st = Inr (?st, p)"
    using pool p by (simp add: st_obtain_def st_allocate_def acquire_def)
  moreover have "store_wf (fs(m := ps)) ?st"
  proof (rule store_wfI)
    show "distinct ((fs(m := ps)) m')" for m'
      using store_wfD(2) [OF wf, of m'] fs by (cases "m' = m") auto
    show "mm_rep (pools ?st m') ((fs(m := ps)) m')" for m'
      using pool store_wfD(1) [OF wf] by simp
    show "\<exists>m'. gp_mm (heap ?st q) = Some m'" if "q < next_pid ?st" for q
      using store_wfD(7) [OF wf, of q] that by auto
  next
    fix m' q assume q: "q \<in> set ((fs(m := ps)) m')"
    then have "q \<in> set (fs m')" and "q \<noteq> p"
      using fs p(4) other by (auto split: if_splits)
    then show "q < next_pid ?st \<and> gp_mm (heap ?st q) = Some m' \<and> gp_ref_count (heap ?st q) = 0"
      using store_wfD(3-5) [OF wf] by auto
  next
    fix q assume "q < next_pid ?st" and "gp_ref_count (heap ?st q) = 0"
    then have "q \<noteq> p" and "\<exists>m'. q \<in> set (fs m')"
      using p store_wfD(6) [OF wf, of q] by (auto split: if_splits)
    then show "\<exists>m'. q \<in> set ((fs(m := ps)) m')"
      using fs by (metis fun_upd_apply set_ConsD)
  qed
  moreover have "live ?st = insert p (live st)"
    using p by (auto simp: live_def)
  ultimately show ?thesis
    using p by auto
qed

lemma st_obtain_new:
  assumes wf: "store_wf fs st" and fs: "fs m = []"
  shows "\<exists>st'. st_obtain m st = Inr (st', next_pid st) \<and> store_wf fs st' \<and>
    live st' = insert (next_pid st) (live st) \<and> (\<forall>q. q \<noteq> next_pid st \<longrightarrow> heap st' q = heap st q) \<and>
    gp_ref_count (heap st' (next_pid st)) = 1"
proof -
  let ?p = "next_pid st"
  have pool: "mm_allocate (pools st m) = (pools st m, None)"
    using mm.alloc_empty store_wfD(1) [OF wf, of m] fs by simp
  have fresh: "?p \<notin> set (fs m')" for m'
    using store_wfD(3) [OF wf, of ?p m'] by auto
  let ?st = "upd_gp ?p (\<lambda>g. g\<lparr>gp_ref_count := gp_ref_count g + 1\<rparr>)
    (st\<lparr>pools := (pools st)(m := pools st m), heap := (heap st)(?p := gp_new (gp_ini st) m),
        next_pid := Suc ?p\<rparr>)"
  have "st_obtain m st = Inr (?st, ?p)"
    using pool by (simp add: st_obtain_def st_allocate_def acquire_def gp_new_def)
  moreover have "store_wf fs ?st"
  proof (rule store_wfI)
    fix m' q assume "q \<in> set (fs m')"
    then show "q < next_pid ?st \<and> gp_mm (heap ?st q) = Some m' \<and> gp_ref_count (heap ?st q) = 0"
      using store_wfD(3-5) [OF wf] fresh by (auto simp: less_Suc_eq)
  next
    fix q assume "q < next_pid ?st"
    then show "\<exists>m'. gp_mm (heap ?st q) = Some m'"
      using store_wfD(7) [OF wf] by (auto simp: less_Suc_eq gp_new_def)
  next
    fix q assume "q < next_pid ?st" and "gp_ref_count (heap ?st q) = 0"
    then show "\<exists>m'. q \<in> set (fs m')"
      using store_wfD(6) [OF wf] by (auto simp: less_Suc_eq gp_new_def split: if_splits)
  qed (use store_wfD(1,2) [OF wf] in simp_all)
  moreover have "live ?st = insert ?p (live st)"
    by (auto simp: live_def gp_new_def less_Suc_eq)
  ultimately show ?thesis
    by (auto simp: gp_new_def)
qed

text \<open>A payload that is handed out was not in use; everything else is untouched.\<close>

lemma st_obtain_fresh:
  assumes "store_wf fs st"
  shows "\<exists>st' p fs'. st_obtain m st = Inr (st', p) \<and> store_wf fs' st' \<and> p \<notin> live st \<and>
    live st' = insert p (live st) \<and> (\<forall>q. q \<noteq> p \<longrightarrow> heap st' q = heap st q) \<and>
    gp_ref_count (heap st' p) = 1"
proof (cases "fs m")
  case Nil
  from st_obtain_new [OF assms Nil] show ?thesis
    by (auto simp: live_def)
next
  case (Cons p ps)
  have "p \<notin> live st"
    using store_wfD(5) [OF assms, of p m] Cons by (simp add: live_def)
  with st_obtain_pool [OF assms Cons] show ?thesis by blast
qed

text \<open>Dropping the only reference puts the payload back on the pool it came from.\<close>

lemma release_last:
  assumes wf: "store_wf fs st" and p: "p < next_pid st" and one: "gp_ref_count (heap st p) = 1"
    and m: "gp_mm (heap st p) = Some m"
  shows "\<exists>st'. release p st = Inr st' \<and> store_wf (fs(m := p # fs m)) st' \<and>
    live st' = live st - {p} \<and> (\<forall>q. q \<noteq> p \<longrightarrow> heap st' q = heap st q)"
proof -
  have notin: "p \<notin> set (fs m')" for m'
    using store_wfD(5) [OF wf, of p m'] one by auto
  let ?st1 = "upd_gp p (\<lambda>g. g\<lparr>gp_ref_count := gp_ref_count g - 1\<rparr>) st"
  let ?st = "?st1\<lparr>pools := (pools ?st1)(m := mm_free (pools ?st1 m) p)\<rparr>"
  have "release p st = Inr ?st"
    using one m by (simp add: release_def Let_def)
  moreover have "store_wf (fs(m := p # fs m)) ?st"
  proof (rule store_wfI)
    show "mm_rep (pools ?st m') ((fs(m := p # fs m)) m')" for m'
      using store_wfD(1) [OF wf] mm.free_push by simp
    show "distinct ((fs(m := p # fs m)) m')" for m'
      using store_wfD(2) [OF wf] notin by simp
  next
    fix m' q assume "q \<in> set ((fs(m := p # fs m)) m')"
    then show "q < next_pid ?st \<and> gp_mm (heap ?st q) = Some m' \<and> gp_ref_count (heap ?st q) = 0"
      using store_wfD(3-5) [OF wf] p m one by (auto split: if_splits)
  next
    fix q assume "q < next_pid ?st"
    then show "\<exists>m'. gp_mm (heap ?st q) = Some m'"
      using store_wfD(7) [OF wf] m by auto
  next
    fix q assume q: "q < next_pid ?st" and zero: "gp_ref_count (heap ?st q) = 0"
    show "\<exists>m'. q \<in> set ((fs(m := p # fs m)) m')"
    proof (cases "q = p")
      case False
      with q zero store_wfD(6) [OF wf, of q] obtain m' where "q \<in> set (fs m')" by auto
      then have "q \<in> set ((fs(m := p # fs m)) m')" by auto
      then show ?thesis ..
    qed (rule exI [of _ m], simp)
  qed
  moreover have "live ?st = live st - {p}"
    using one by (auto simp: live_def)
  ultimately show ?thesis by auto
qed

text \<open>A release without a reference fails its assertion, so nothing reaches a pool twice.\<close>

lemma release_free_fails:
  assumes wf: "store_wf fs st" and "p \<in> set (fs m)"
  shows "release p st = Inl Assert_failed"
  using store_wfD(4,5) [OF wf assms(2)] by (simp add: release_def)

lemma store_wf_upd:
  assumes "store_wf fs st" and "\<And>g. gp_mm (f g) = gp_mm g" and "\<And>g. gp_ref_count (f g) = gp_ref_count g"
  shows "store_wf fs (upd_gp p f st)" and "live (upd_gp p f st) = live st"
proof -
  have "gp_mm (heap (upd_gp p f st) q) = gp_mm (heap st q)"
    "gp_ref_count (heap (upd_gp p f st) q) = gp_ref_count (heap st q)" for q
    using assms(2,3) by simp_all
  then show "store_wf fs (upd_gp p f st)" "live (upd_gp p f st) = live st"
    using assms(1) unfolding store_wf_def live_def by (simp_all del: upd_gp_simps(1))
qed

section \<open>The pools over time\<close>

text \<open>
  One payload is made or given back: the makers are the wrapper and the memory devices, a
  payload in use has one owner, who releases it once.
\<close>

inductive pool_step :: "store \<Rightarrow> store \<Rightarrow> bool" where
  make: "st_obtain m st = Inr (st', p) \<Longrightarrow> pool_step st st'"
| give: "p \<in> live st \<Longrightarrow> release p st = Inr st' \<Longrightarrow> pool_step st st'"

inductive_cases pool_stepE: "pool_step st st'"

definition pool_inv :: "store \<Rightarrow> bool" where
  "pool_inv st \<longleftrightarrow> (\<exists>fs. store_wf fs st) \<and> (\<forall>p \<in> live st. gp_ref_count (heap st p) = 1)"

lemma pool_obtain:
  assumes "pool_inv st"
  shows "\<exists>st' p. st_obtain m st = Inr (st', p) \<and> p \<notin> live st \<and> live st' = insert p (live st) \<and> pool_inv st'"
proof -
  obtain fs where "store_wf fs st" and one: "\<forall>p \<in> live st. gp_ref_count (heap st p) = 1"
    using assms by (auto simp: pool_inv_def)
  with st_obtain_fresh [of fs st m] obtain st' p fs' where "st_obtain m st = Inr (st', p)" "store_wf fs' st'"
    "p \<notin> live st" "live st' = insert p (live st)" "\<forall>q. q \<noteq> p \<longrightarrow> heap st' q = heap st q"
    "gp_ref_count (heap st' p) = 1"
    by blast
  with one show ?thesis unfolding pool_inv_def by (metis insert_iff)
qed

lemma pool_release:
  assumes "pool_inv st" and "q \<in> live st"
  shows "\<exists>st'. release q st = Inr st' \<and> live st' = live st - {q} \<and> pool_inv st'"
proof -
  obtain fs where wf: "store_wf fs st" and one: "\<forall>p \<in> live st. gp_ref_count (heap st p) = 1"
    using assms by (auto simp: pool_inv_def)
  have q: "q < next_pid st" using assms(2) by (simp add: live_def)
  obtain m where m: "gp_mm (heap st q) = Some m" using store_wfD(7) [OF wf q] by blast
  have "gp_ref_count (heap st q) = 1" using one assms(2) by blast
  from release_last [OF wf q this m] obtain st' where "release q st = Inr st'" "store_wf (fs(m := q # fs m)) st'"
    "live st' = live st - {q}" "\<forall>r. r \<noteq> q \<longrightarrow> heap st' r = heap st r"
    by blast
  with one show ?thesis unfolding pool_inv_def by (metis Diff_iff singletonI)
qed

lemma pool_step_inv: "pool_step st st' \<Longrightarrow> pool_inv st \<Longrightarrow> pool_inv st'"
proof (erule pool_stepE)
  fix m p assume "pool_inv st" "st_obtain m st = Inr (st', p)"
  with pool_obtain [of st m] show "pool_inv st'" by auto
next
  fix p assume "pool_inv st" "p \<in> live st" "release p st = Inr st'"
  with pool_release [of st p] show "pool_inv st'" by auto
qed

lemma pool_inv_init: "pool_inv (store_init ini g h)"
  unfolding pool_inv_def using store_wf_init [of ini g h] by (auto simp: live_def store_init_def)

lemma pool_inv_reach: "pool_step\<^sup>*\<^sup>* (store_init ini g h) st \<Longrightarrow> pool_inv st"
  by (induction rule: rtranclp_induct) (auto intro: pool_inv_init pool_step_inv)

text \<open>
  C32. However payloads were made and given back before: making one succeeds and never hands
  out a payload that is in use, and giving back any payload in use succeeds and ends
  the use of that payload only.
\<close>

theorem pools_safe:
  assumes "pool_step\<^sup>*\<^sup>* (store_init ini g h) st"
  shows "(\<exists>st' p. st_obtain m st = Inr (st', p) \<and> p \<notin> live st \<and> live st' = insert p (live st)) \<and>
    (q \<in> live st \<longrightarrow> (\<exists>st'. release q st = Inr st' \<and> live st' = live st - {q}))"
  using pool_obtain [OF pool_inv_reach [OF assms], of m] pool_release [OF pool_inv_reach [OF assms], of q] by blast

text \<open>A concrete store for examples: payload \<open>p\<close> has the command and address \<open>f p\<close>.\<close>

definition sample_gp :: "tlm_command \<Rightarrow> u64 \<Rightarrow> gp" where
  "sample_gp cmd a =
     \<lparr>gp_address = a, gp_command = cmd, gp_data = Null_ptr, gp_length = 64, gp_id = 0, gp_mm = None,
      gp_ref_count = 0\<rparr>"

definition sample_store :: "(pid \<Rightarrow> gp) \<Rightarrow> store" where
  "sample_store f =
     store_init (sample_gp TLM_READ_COMMAND 0) (\<lambda>_ _. \<lparr>a_trans = 0, a_next = None, a_prev = None\<rparr>) f"

lemma heap_sample_store [simp]: "heap (sample_store f) p = f p"
  by (simp add: sample_store_def store_init_def)

lemma sample_gp_simps [simp]:
  "gp_command (sample_gp cmd a) = cmd" "gp_address (sample_gp cmd a) = a"
  "gp_length (sample_gp cmd a) = 64" "gp_data (sample_gp cmd a) = Null_ptr"
  by (simp_all add: sample_gp_def)

lemma sample_store_wf: "store_wf (\<lambda>_. []) (sample_store f)"
  by (simp add: sample_store_def store_wf_init)

theorem pools_safe_witness:
  "\<exists>st q. pool_step\<^sup>*\<^sup>* (sample_store (\<lambda>_. sample_gp TLM_READ_COMMAND 0)) st \<and> q \<in> live st \<and>
    (\<exists>st'. release q st = Inr st' \<and> live st' = live st - {q})"
proof -
  let ?s = "sample_store (\<lambda>_. sample_gp TLM_READ_COMMAND 0)"
  have "pool_inv ?s" unfolding sample_store_def by (rule pool_inv_init)
  from pool_obtain [OF this, of 0] obtain st q where o: "st_obtain 0 ?s = Inr (st, q)" "live st = insert q (live ?s)"
    by blast
  have steps: "pool_step\<^sup>*\<^sup>* ?s st" using make [OF o(1)] by blast
  from pools_safe [OF steps [unfolded sample_store_def], of 0 q] o(2) steps show ?thesis by blast
qed

end
