(* ===== verification/Timing.thy ===== *)
theory Timing
  imports Complex_Main Interfaces Tlm_Payload
begin

text \<open>
  Simulated time, and what a simulation thread does between two waits. A thread of the
  simulator (\<open>SC_THREAD\<close>) runs without interruption from one \<open>wait\<close> to the
  next; only at a \<open>wait\<close> can another thread or a call from another module change the
  queues. The model therefore gives each thread a program counter with one value per
  \<open>wait\<close> and one function that runs the segment up to the next \<open>wait\<close>; the
  segment returns the length of that \<open>wait\<close>.
\<close>

text \<open>
  \<open>wait (n, SC_NS)\<close> with an integer, and \<open>wait (period, SC_NS)\<close> with the clock
  period of the module, which is a configuration value.
\<close>

datatype delay = Delay_ns u64 | Delay_period

definition delay_time :: "rat \<Rightarrow> delay \<Rightarrow> rat" where
  "delay_time period d = (case d of Delay_ns n \<Rightarrow> of_nat (unat n) | Delay_period \<Rightarrow> period)"

definition total_time :: "rat \<Rightarrow> delay list \<Rightarrow> rat" where
  "total_time period ds = sum_list (map (delay_time period) ds)"

lemma delay_time_simps [simp]:
  "delay_time p (Delay_ns n) = of_nat (unat n)"
  "delay_time p Delay_period = p"
  by (simp_all add: delay_time_def)

lemma total_time_simps [simp]:
  "total_time p [] = 0"
  "total_time p (d # ds) = delay_time p d + total_time p ds"
  "total_time p (ds @ ds') = total_time p ds + total_time p ds'"
  by (simp_all add: total_time_def)

text \<open>A 32-bit latency in a \<open>wait\<close>.\<close>

definition ns32 :: "u32 \<Rightarrow> delay" where
  "ns32 n = Delay_ns (ucast n)"

lemma unat_ucast_32_64: "unat (ucast n :: u64) = unat n" for n :: u32
proof -
  have "unat n < 2 ^ LENGTH(32)"
    by (rule unsigned_less)
  then have "take_bit 64 (unat n) = unat n"
    by (simp add: take_bit_nat_eq_self_iff)
  then show ?thesis
    by (simp add: unsigned_ucast_eq)
qed

lemma delay_time_ns32 [simp]: "delay_time p (ns32 n) = of_nat (unat n)"
  by (simp add: ns32_def unat_ucast_32_64)

section \<open>The four queues of a stage\<close>

text \<open>
  Every module of the link has the same four deques of payload pointers: read and write
  requests on their way to the memory, read and write acknowledgements on their way
  back.
\<close>

record channels =
  r_queue :: "pid list"
  w_queue :: "pid list"
  rack_queue :: "pid list"
  wack_queue :: "pid list"

text \<open>
  The body that the modules' transport functions share: the command of the payload selects
  the read or the write deque (anything but a read counts as a write).
\<close>

definition push_request :: "tlm_command \<Rightarrow> pid \<Rightarrow> ('a channels_scheme) \<Rightarrow> 'a channels_scheme" where
  "push_request cmd p c =
     (if cmd = TLM_READ_COMMAND then c\<lparr>r_queue := r_queue c @ [p]\<rparr>
      else c\<lparr>w_queue := w_queue c @ [p]\<rparr>)"

definition push_ack :: "tlm_command \<Rightarrow> pid \<Rightarrow> ('a channels_scheme) \<Rightarrow> 'a channels_scheme" where
  "push_ack cmd p c =
     (if cmd = TLM_READ_COMMAND then c\<lparr>rack_queue := rack_queue c @ [p]\<rparr>
      else c\<lparr>wack_queue := wack_queue c @ [p]\<rparr>)"

lemma push_request_queues [queue_simps]:
  "r_queue (push_request cmd p c) = (if cmd = TLM_READ_COMMAND then r_queue c @ [p] else r_queue c)"
  "w_queue (push_request cmd p c) = (if cmd = TLM_READ_COMMAND then w_queue c else w_queue c @ [p])"
  "rack_queue (push_request cmd p c) = rack_queue c"
  "wack_queue (push_request cmd p c) = wack_queue c"
  "channels.more (push_request cmd p c) = channels.more c"
  by (simp_all add: push_request_def)

lemma push_ack_queues [queue_simps]:
  "rack_queue (push_ack cmd p c) = (if cmd = TLM_READ_COMMAND then rack_queue c @ [p] else rack_queue c)"
  "wack_queue (push_ack cmd p c) = (if cmd = TLM_READ_COMMAND then wack_queue c else wack_queue c @ [p])"
  "r_queue (push_ack cmd p c) = r_queue c"
  "w_queue (push_ack cmd p c) = w_queue c"
  "channels.more (push_ack cmd p c) = channels.more c"
  by (simp_all add: push_ack_def)

section \<open>Calls between modules\<close>

text \<open>
  A call that a module makes through one of its sockets. The label of a request or of an
  acknowledgement names the place in the code that makes the call (the read part or the
  write part of the loop); the target number is the index into a multi-socket.
\<close>

datatype call =
    Fw_read nat pid     \<comment> \<open>\<open>master[i]->nb_transport_fw\<close> with \<open>BEGIN_REQ\<close>, read part\<close>
  | Fw_write nat pid    \<comment> \<open>the same, write part\<close>
  | Fw_end nat pid      \<comment> \<open>\<open>master[i]->nb_transport_fw\<close> with \<open>END_RESP\<close>\<close>
  | Bw_read nat pid     \<comment> \<open>\<open>slave[i]->nb_transport_bw\<close> with \<open>BEGIN_RESP\<close>, read part\<close>
  | Bw_write nat pid    \<comment> \<open>the same, write part\<close>

fun fw_reads :: "call \<Rightarrow> pid list" where
  "fw_reads (Fw_read i p) = [p]"
| "fw_reads _ = []"

fun fw_writes :: "call \<Rightarrow> pid list" where
  "fw_writes (Fw_write i p) = [p]"
| "fw_writes _ = []"

fun bw_reads :: "call \<Rightarrow> pid list" where
  "bw_reads (Bw_read i p) = [p]"
| "bw_reads _ = []"

fun bw_writes :: "call \<Rightarrow> pid list" where
  "bw_writes (Bw_write i p) = [p]"
| "bw_writes _ = []"

section \<open>Polling threads\<close>

text \<open>
  How a segment of a thread that polls shared memory ends: with a \<open>wait\<close>, with another
  turn of a polling loop that does not let simulated time pass, or with the end of the
  thread.
\<close>

datatype pause = Wait delay | Spin | Stop

end
