(* ===== verification/Statistics.thy ===== *)
theory Statistics
  imports Prelude
begin

text \<open>
  The counters of a component (\<open>backplane/utilities/statistics.h\<close> and
  \<open>.cpp\<close>): 32-bit unsigned counters that wrap around, and the two report
  functions as the list of lines they print.
\<close>

record statistics =
  num_read_request :: u32
  read_flit :: u32
  read_packet :: u32
  total_read_latency :: u32
  total_read_size :: u32
  num_write_request :: u32
  write_flit :: u32
  write_packet :: u32
  total_write_latency :: u32
  total_write_size :: u32
  total_flit :: u32
  stat_name :: string

text \<open>The constructor clears the counters; the name is set by the owner.\<close>

definition stats_new :: "string \<Rightarrow> statistics" where
  "stats_new n =
     \<lparr>num_read_request = 0, read_flit = 0, read_packet = 0, total_read_latency = 0,
      total_read_size = 0, num_write_request = 0, write_flit = 0, write_packet = 0,
      total_write_latency = 0, total_write_size = 0, total_flit = 0, stat_name = n\<rparr>"

definition set_name :: "string \<Rightarrow> statistics \<Rightarrow> statistics" where
  "set_name n s = s\<lparr>stat_name := n\<rparr>"

definition increase_r_request :: "statistics \<Rightarrow> statistics" where
  "increase_r_request s = s\<lparr>num_read_request := num_read_request s + 1\<rparr>"

definition increase_r_flit :: "statistics \<Rightarrow> statistics" where
  "increase_r_flit s = s\<lparr>read_flit := read_flit s + 1\<rparr>"

definition increase_r_packet :: "statistics \<Rightarrow> statistics" where
  "increase_r_packet s = s\<lparr>read_packet := read_packet s + 1\<rparr>"

definition increase_w_request :: "statistics \<Rightarrow> statistics" where
  "increase_w_request s = s\<lparr>num_write_request := num_write_request s + 1\<rparr>"

definition increase_w_flit :: "statistics \<Rightarrow> statistics" where
  "increase_w_flit s = s\<lparr>write_flit := write_flit s + 1\<rparr>"

definition increase_w_packet :: "statistics \<Rightarrow> statistics" where
  "increase_w_packet s = s\<lparr>write_packet := write_packet s + 1\<rparr>"

definition update_total_read_size :: "u32 \<Rightarrow> statistics \<Rightarrow> statistics" where
  "update_total_read_size sz s = s\<lparr>total_read_size := total_read_size s + sz\<rparr>"

definition update_total_write_size :: "u32 \<Rightarrow> statistics \<Rightarrow> statistics" where
  "update_total_write_size sz s = s\<lparr>total_write_size := total_write_size s + sz\<rparr>"

definition update_read_latency :: "u32 \<Rightarrow> statistics \<Rightarrow> statistics" where
  "update_read_latency l s = s\<lparr>total_read_latency := total_read_latency s + l\<rparr>"

definition update_write_latency :: "u32 \<Rightarrow> statistics \<Rightarrow> statistics" where
  "update_write_latency l s = s\<lparr>total_write_latency := total_write_latency s + l\<rparr>"

definition increase_total_flit :: "statistics \<Rightarrow> statistics" where
  "increase_total_flit s = s\<lparr>total_flit := total_flit s + 1\<rparr>"

definition get_r_flit_num :: "statistics \<Rightarrow> u32" where
  "get_r_flit_num s = read_flit s"

definition get_w_flit_num :: "statistics \<Rightarrow> u32" where
  "get_w_flit_num s = write_flit s"

lemmas stats_update_defs =
  increase_r_request_def increase_r_flit_def increase_r_packet_def
  increase_w_request_def increase_w_flit_def increase_w_packet_def
  update_total_read_size_def update_total_write_size_def
  update_read_latency_def update_write_latency_def increase_total_flit_def

section \<open>Reports\<close>

text \<open>A line of the report: a text, a label with a number, or one with a number of nanoseconds.\<close>

datatype report_line = Text string | Value string u32 | Value_ns string u32

definition print_stats :: "statistics \<Rightarrow> report_line list" where
  "print_stats s =
     [Text (''[----------'' @ stat_name s @ ''----------]'')] @
     (if read_packet s \<noteq> 0
      then [Text ''<-- READ -->'', Value ''packet num      : '' (read_packet s),
            Value ''total size      : '' (total_read_size s)] else []) @
     (if write_packet s \<noteq> 0
      then [Text ''<-- WRITE -->'', Value ''packet num      : '' (write_packet s),
            Value ''total size      : '' (total_write_size s)] else []) @
     (if total_flit s \<noteq> 0 then [Value ''Total flit num  :'' (total_flit s)] else []) @
     (if read_flit s \<noteq> 0
      then [Text ''<-- READ -->'', Value ''flit num      : '' (read_flit s)] else []) @
     (if write_flit s \<noteq> 0
      then [Text ''<-- WRITE -->'', Value ''flit num      : '' (write_flit s)] else [])"

text \<open>The averages of \<open>print_mem_stats\<close> stay 0 when nothing was counted.\<close>

definition average :: "u32 \<Rightarrow> u32 \<Rightarrow> u32" where
  "average tot n = (if n > 0 then tot div n else 0)"

definition print_mem_stats :: "statistics \<Rightarrow> report_line list" where
  "print_mem_stats s =
     [Text (''[----------'' @ stat_name s @ ''----------]''),
      Text ''<-- READ -->'',
      Value ''request num     : '' (num_read_request s),
      Value ''total size      : '' (total_read_size s),
      Value ''average size    : '' (average (total_read_size s) (num_read_request s)),
      Value_ns ''total latency   : '' (total_read_latency s),
      Value_ns ''average latency : '' (average (total_read_latency s) (num_read_request s)),
      Text ''<-- WRITE -->'',
      Value ''request num     : '' (num_write_request s),
      Value ''total size      : '' (total_write_size s),
      Value ''average size    : '' (average (total_write_size s) (num_write_request s)),
      Value_ns ''total latency   : '' (total_write_latency s),
      Value_ns ''average latency : '' (average (total_write_latency s) (num_write_request s))]"

text \<open>The average is the integer quotient and bounds the total from below.\<close>

lemma average_bounds:
  assumes "0 < n"
  shows "unat (average t n) * unat n \<le> unat t \<and> unat t < (unat (average t n) + 1) * unat n"
proof -
  have pos: "0 < unat n"
    using assms by (simp add: word_less_nat_alt)
  have "unat (average t n) = unat t div unat n"
    using assms by (simp add: average_def unat_div)
  moreover have "unat t < (unat t div unat n + 1) * unat n"
    using pos by (simp add: dividend_less_div_times add.commute)
  ultimately show ?thesis by simp
qed

end
