(* ===== verification/Usp.thy ===== *)
theory Usp
  imports Timing Statistics
begin

text \<open>
  The upstream port (\<open>backplane/components/port/usp.h\<close> and \<open>.cpp\<close>), which packs
  requests into 68-byte flits: two reads make one read flit, four writes make five write
  flits (the data of a write does not fit beside its header, so every write is sent one
  flit after it was taken, and a fifth flit carries the last one). The two threads of the
  module are modelled by program counters.
\<close>

section \<open>State\<close>

datatype usp_fw_pc =
    Fw_top          \<comment> \<open>at the head of the loop\<close>
  | Fw_last pid     \<comment> \<open>waiting for the last flit; the payload to send is in hand\<close>
  | Fw_first        \<comment> \<open>waiting for the first write flit of a group\<close>
  | Fw_mid pid      \<comment> \<open>waiting for a middle write flit; the payload to send is in hand\<close>
  | Fw_read_flit    \<comment> \<open>waiting for a read flit\<close>

datatype usp_bw_pc =
    Ubw_top         \<comment> \<open>at the head of the loop\<close>
  | Ubw_wack pid    \<comment> \<open>waiting for the latency of a write acknowledgement\<close>
  | Ubw_rack pid    \<comment> \<open>waiting for the latency of a read acknowledgement\<close>

record usp = channels +
  pending_queue :: "pid list"
  f_idx :: u32
  r_msg :: u32
  u_pipeline :: u32
  u_rack_num :: u32
  u_wack_num :: u32
  u_dram_num :: u32
  payload_num :: u32
  u_port_latency :: u32
  u_link_latency :: u32
  u_stats :: statistics
  u_fw_pc :: usp_fw_pc
  u_bw_pc :: usp_bw_pc

text \<open>
  The configuration values that \<open>init\<close> reads. The division of the packet size by the
  request size fails on a request size of 0.
\<close>

definition usp_init :: "u32 \<Rightarrow> u32 \<Rightarrow> u32 \<Rightarrow> u32 \<Rightarrow> u32 \<Rightarrow> string \<Rightarrow> sim_error + usp" where
  "usp_init dram_num port_latency link_latency packet_size req_size nm =
     (if req_size = 0 then Inl Division_by_zero
      else Inr
        \<lparr>r_queue = [], w_queue = [], rack_queue = [], wack_queue = [],
         pending_queue = [], f_idx = 0, r_msg = 2, u_pipeline = 8, u_rack_num = 0,
         u_wack_num = 0, u_dram_num = dram_num, payload_num = packet_size div req_size,
         u_port_latency = port_latency, u_link_latency = link_latency,
         u_stats = set_name nm (stats_new []), u_fw_pc = Fw_top, u_bw_pc = Ubw_top\<rparr>)"

section \<open>Transport functions\<close>

text \<open>A call with phase \<open>END_RESP\<close> releases the payload; any other call queues it.\<close>

definition usp_nb_transport_fw ::
  "store \<Rightarrow> usp \<Rightarrow> pid \<Rightarrow> tlm_phase \<Rightarrow> sim_error + (store \<times> usp \<times> tlm_sync_enum)" where
  "usp_nb_transport_fw st u p phase =
     (if phase = END_RESP
      then ebind (release p st) (\<lambda>st'. Inr (st', u, TLM_COMPLETED))
      else Inr (st, push_request (gp_command (heap st p)) p u, TLM_UPDATED))"

definition usp_nb_transport_bw :: "store \<Rightarrow> usp \<Rightarrow> pid \<Rightarrow> usp \<times> tlm_sync_enum" where
  "usp_nb_transport_bw st u p = (push_ack (gp_command (heap st p)) p u, TLM_UPDATED)"

section \<open>Forward thread\<close>

text \<open>\<open>flit_packing_68 (true)\<close> up to its \<open>wait\<close>, and the rest of the loop body.\<close>

definition usp_read_check :: "usp \<Rightarrow> sim_error + (usp \<times> delay)" where
  "usp_read_check u =
     (if unat (r_msg u) \<le> length (r_queue u)
      then (if r_msg u = 0 \<or> payload_num u div r_msg u = 0 then Inl Division_by_zero
            else Inr (u\<lparr>u_fw_pc := Fw_read_flit\<rparr>,
                      if get_r_flit_num (u_stats u) mod (payload_num u div r_msg u) = 0
                      then ns32 (u_port_latency u + u_link_latency u) else Delay_period))
      else Inr (u\<lparr>u_fw_pc := Fw_top\<rparr>, Delay_period))"

text \<open>The two deque operations at the end of a write flit: the next write becomes pending.\<close>

definition usp_take_write :: "usp \<Rightarrow> sim_error + usp" where
  "usp_take_write u =
     ebind (pop_front (w_queue u)) (\<lambda>(p, ws).
       Inr (u\<lparr>w_queue := ws, pending_queue := pending_queue u @ [p], f_idx := f_idx u + 1\<rparr>))"

text \<open>\<open>flit_packing_68 (false)\<close> up to its \<open>wait\<close>.\<close>

definition usp_write_flit :: "usp \<Rightarrow> sim_error + (usp \<times> delay)" where
  "usp_write_flit u =
     (if f_idx u = 4
      then ebind (pop_front (pending_queue u)) (\<lambda>(p, ps).
             Inr (u\<lparr>f_idx := 0, pending_queue := ps, u_fw_pc := Fw_last p\<rparr>, Delay_period))
      else if f_idx u = 0
      then Inr (u\<lparr>u_fw_pc := Fw_first\<rparr>,
                if get_w_flit_num (u_stats u) mod 20 = 0
                then ns32 (u_port_latency u + u_link_latency u) else Delay_period)
      else ebind (pop_front (pending_queue u)) (\<lambda>(p, ps).
             Inr (u\<lparr>pending_queue := ps, u_fw_pc := Fw_mid p\<rparr>, Delay_period)))"

text \<open>The read part of \<open>flit_packing_68\<close> after the \<open>wait\<close>: \<open>r_msg\<close> payloads leave.\<close>

fun usp_send_reads :: "nat \<Rightarrow> usp \<Rightarrow> sim_error + (usp \<times> call list)" where
  "usp_send_reads 0 u = Inr (u, [])"
| "usp_send_reads (Suc n) u =
     ebind (pop_front (r_queue u)) (\<lambda>(p, rs).
       ebind (usp_send_reads n (u\<lparr>r_queue := rs\<rparr>)) (\<lambda>(u', os). Inr (u', Fw_read 0 p # os)))"

text \<open>One segment of \<open>fw_thread\<close>: what runs until the next \<open>wait\<close>.\<close>

definition usp_fw_resume :: "usp \<Rightarrow> sim_error + (usp \<times> call list \<times> delay)" where
  "usp_fw_resume u =
     (case u_fw_pc u of
        Fw_top \<Rightarrow>
          ebind (if w_queue u \<noteq> [] \<or> f_idx u = 4 then usp_write_flit u else usp_read_check u)
            (\<lambda>(u', d). Inr (u', [], d))
      | Fw_last p \<Rightarrow>
          ebind (usp_read_check (u\<lparr>u_stats := increase_w_flit (u_stats u)\<rparr>))
            (\<lambda>(u', d). Inr (u', [Fw_write 0 p], d))
      | Fw_first \<Rightarrow>
          ebind (usp_take_write (u\<lparr>u_stats := increase_w_flit (u_stats u)\<rparr>)) (\<lambda>u1.
            ebind (usp_read_check u1) (\<lambda>(u', d). Inr (u', [], d)))
      | Fw_mid p \<Rightarrow>
          ebind (usp_take_write (u\<lparr>u_stats := increase_w_flit (u_stats u)\<rparr>)) (\<lambda>u1.
            ebind (usp_read_check u1) (\<lambda>(u', d). Inr (u', [Fw_write 0 p], d)))
      | Fw_read_flit \<Rightarrow>
          ebind (usp_send_reads (unat (r_msg u)) u) (\<lambda>(u', os).
            Inr (u'\<lparr>u_stats := increase_r_flit (u_stats u'), u_fw_pc := Fw_top\<rparr>, os, Delay_period)))"

section \<open>Backward thread\<close>

definition usp_ack_delay :: "usp \<Rightarrow> u32 \<Rightarrow> sim_error + delay" where
  "usp_ack_delay u num =
     (if u_pipeline u = 0 then Inl Division_by_zero
      else Inr (if num mod u_pipeline u = 0 then ns32 (u_port_latency u) else ns32 (u_link_latency u)))"

text \<open>The read half of the loop body up to its \<open>wait\<close>, or the \<open>wait\<close> of the loop.\<close>

definition usp_rack_check :: "usp \<Rightarrow> sim_error + (usp \<times> delay)" where
  "usp_rack_check u =
     (case rack_queue u of
        [] \<Rightarrow> Inr (u\<lparr>u_bw_pc := Ubw_top\<rparr>, Delay_period)
      | p # ps \<Rightarrow> ebind (usp_ack_delay u (u_rack_num u)) (\<lambda>d.
          Inr (u\<lparr>rack_queue := ps, u_bw_pc := Ubw_rack p\<rparr>, d)))"

definition usp_bw_resume :: "usp \<Rightarrow> sim_error + (usp \<times> call list \<times> delay)" where
  "usp_bw_resume u =
     (case u_bw_pc u of
        Ubw_top \<Rightarrow>
          (case wack_queue u of
             [] \<Rightarrow> ebind (usp_rack_check u) (\<lambda>(u', d). Inr (u', [], d))
           | p # ps \<Rightarrow> ebind (usp_ack_delay u (u_wack_num u)) (\<lambda>d.
               Inr (u\<lparr>wack_queue := ps, u_bw_pc := Ubw_wack p\<rparr>, [], d)))
      | Ubw_wack p \<Rightarrow>
          ebind (usp_rack_check (u\<lparr>u_wack_num := u_wack_num u + 1\<rparr>))
            (\<lambda>(u', d). Inr (u', [Bw_write 0 p], d))
      | Ubw_rack p \<Rightarrow>
          Inr (u\<lparr>u_rack_num := u_rack_num u + 1, u_bw_pc := Ubw_top\<rparr>, [Bw_read 0 p], Delay_period))"

end
