(* ===== verification/Usp_Props.thy ===== *)
theory Usp_Props
  imports Usp
begin

text \<open>
  What the upstream port guarantees. The invariant ties the position in a flit group to the
  pending payload, so that no \<open>front ()\<close> is taken of an empty deque; each of the four
  kinds of traffic is a \<open>hop\<close>; and the last sections say what happens to writes that
  do not fill a group of four, how many flits a write takes, and how long a packet waits.
\<close>

section \<open>Events and invariant\<close>

datatype usp_event =
    Usp_fw_call store pid tlm_phase
  | Usp_bw_call store pid
  | Usp_fw_run
  | Usp_bw_run

fun usp_ev :: "usp_event \<Rightarrow> usp \<Rightarrow> sim_error + (usp \<times> call list)" where
  "usp_ev (Usp_fw_call st p ph) u =
     ebind (usp_nb_transport_fw st u p ph) (\<lambda>(st', u', r). Inr (u', []))"
| "usp_ev (Usp_bw_call st p) u = Inr (fst (usp_nb_transport_bw st u p), [])"
| "usp_ev Usp_fw_run u = ebind (usp_fw_resume u) (\<lambda>(u', os, d). Inr (u', os))"
| "usp_ev Usp_bw_run u = ebind (usp_bw_resume u) (\<lambda>(u', os, d). Inr (u', os))"

text \<open>A response that ends must release a payload that is still referenced.\<close>

fun usp_legal :: "usp_event \<Rightarrow> bool" where
  "usp_legal (Usp_fw_call st p ph) \<longleftrightarrow> (ph = END_RESP \<longrightarrow> \<not> isl (release p st))"
| "usp_legal _ \<longleftrightarrow> True"

definition usp_fw_ok :: "usp \<Rightarrow> bool" where
  "usp_fw_ok u \<longleftrightarrow> (case u_fw_pc u of
     Fw_top \<Rightarrow> f_idx u \<in> {0, 1, 2, 3, 4} \<and> length (pending_queue u) = (if f_idx u = 0 then 0 else 1)
   | Fw_read_flit \<Rightarrow> f_idx u \<in> {0, 1, 2, 3, 4} \<and>
       length (pending_queue u) = (if f_idx u = 0 then 0 else 1) \<and> unat (r_msg u) \<le> length (r_queue u)
   | Fw_last p \<Rightarrow> f_idx u = 0 \<and> pending_queue u = []
   | Fw_first \<Rightarrow> f_idx u = 0 \<and> pending_queue u = [] \<and> w_queue u \<noteq> []
   | Fw_mid p \<Rightarrow> f_idx u \<in> {1, 2, 3} \<and> pending_queue u = [] \<and> w_queue u \<noteq> [])"

definition usp_cfg_ok :: "usp \<Rightarrow> bool" where
  "usp_cfg_ok u \<longleftrightarrow> r_msg u \<noteq> 0 \<and> payload_num u div r_msg u \<noteq> 0 \<and> u_pipeline u \<noteq> 0"

definition usp_inv :: "usp \<Rightarrow> bool" where
  "usp_inv u \<longleftrightarrow> usp_cfg_ok u \<and> usp_fw_ok u"

section \<open>What is inside the port\<close>

definition fw_in_hand :: "usp_fw_pc \<Rightarrow> pid list" where
  "fw_in_hand pc = (case pc of Fw_last p \<Rightarrow> [p] | Fw_mid p \<Rightarrow> [p] | _ \<Rightarrow> [])"

definition usp_writes :: "usp \<Rightarrow> pid list" where
  "usp_writes u = fw_in_hand (u_fw_pc u) @ pending_queue u @ w_queue u"

definition usp_wacks :: "usp \<Rightarrow> pid list" where
  "usp_wacks u = (case u_bw_pc u of Ubw_wack p \<Rightarrow> [p] | _ \<Rightarrow> []) @ wack_queue u"

definition usp_racks :: "usp \<Rightarrow> pid list" where
  "usp_racks u = (case u_bw_pc u of Ubw_rack p \<Rightarrow> [p] | _ \<Rightarrow> []) @ rack_queue u"

lemmas usp_content_defs = usp_writes_def usp_wacks_def usp_racks_def fw_in_hand_def

fun usp_write_in :: "usp_event \<Rightarrow> pid list" where
  "usp_write_in (Usp_fw_call st p ph) =
     (if ph \<noteq> END_RESP \<and> gp_command (heap st p) \<noteq> TLM_READ_COMMAND then [p] else [])"
| "usp_write_in _ = []"

fun usp_read_in :: "usp_event \<Rightarrow> pid list" where
  "usp_read_in (Usp_fw_call st p ph) =
     (if ph \<noteq> END_RESP \<and> gp_command (heap st p) = TLM_READ_COMMAND then [p] else [])"
| "usp_read_in _ = []"

fun usp_wack_in :: "usp_event \<Rightarrow> pid list" where
  "usp_wack_in (Usp_bw_call st p) = (if gp_command (heap st p) \<noteq> TLM_READ_COMMAND then [p] else [])"
| "usp_wack_in _ = []"

fun usp_rack_in :: "usp_event \<Rightarrow> pid list" where
  "usp_rack_in (Usp_bw_call st p) = (if gp_command (heap st p) = TLM_READ_COMMAND then [p] else [])"
| "usp_rack_in _ = []"

section \<open>One segment at a time\<close>

lemma usp_cfg_simps [simp]:
  "usp_cfg_ok (u\<lparr>u_fw_pc := x\<rparr>) = usp_cfg_ok u"
  "usp_cfg_ok (u\<lparr>u_bw_pc := y\<rparr>) = usp_cfg_ok u"
  "usp_cfg_ok (u\<lparr>u_stats := s\<rparr>) = usp_cfg_ok u"
  "usp_cfg_ok (u\<lparr>w_queue := ws\<rparr>) = usp_cfg_ok u"
  "usp_cfg_ok (u\<lparr>r_queue := ws\<rparr>) = usp_cfg_ok u"
  "usp_cfg_ok (u\<lparr>wack_queue := ws\<rparr>) = usp_cfg_ok u"
  "usp_cfg_ok (u\<lparr>rack_queue := ws\<rparr>) = usp_cfg_ok u"
  "usp_cfg_ok (u\<lparr>pending_queue := ws\<rparr>) = usp_cfg_ok u"
  "usp_cfg_ok (u\<lparr>f_idx := i\<rparr>) = usp_cfg_ok u"
  "usp_cfg_ok (u\<lparr>u_wack_num := n\<rparr>) = usp_cfg_ok u"
  "usp_cfg_ok (u\<lparr>u_rack_num := n\<rparr>) = usp_cfg_ok u"
  by (simp_all add: usp_cfg_ok_def)

lemma usp_read_check_cases:
  assumes "usp_cfg_ok u"
  shows "\<exists>d. usp_read_check u =
    Inr (u\<lparr>u_fw_pc := (if unat (r_msg u) \<le> length (r_queue u) then Fw_read_flit else Fw_top)\<rparr>, d)"
  using assms by (auto simp: usp_read_check_def usp_cfg_ok_def)

lemma usp_send_reads_eq:
  "n \<le> length (r_queue u) \<Longrightarrow>
   usp_send_reads n u = Inr (u\<lparr>r_queue := drop n (r_queue u)\<rparr>, map (Fw_read 0) (take n (r_queue u)))"
proof (induction n arbitrary: u)
  case 0
  show ?case by simp
next
  case (Suc n)
  then obtain p rs where "r_queue u = p # rs" by (cases "r_queue u") auto
  with Suc show ?case by simp
qed

lemma tokens_reads [simp]:
  "tokens fw_reads (map (Fw_read i) ps) = ps"
  "tokens fw_writes (map (Fw_read i) ps) = []"
  "tokens bw_reads (map (Fw_read i) ps) = []"
  "tokens bw_writes (map (Fw_read i) ps) = []"
  by (induction ps) simp_all

text \<open>
  The four fields that a segment of the forward thread can change besides its own pc, for
  every program counter; the hop laws and the later sections read off what they need.
\<close>

definition fw_next :: "usp \<Rightarrow> usp_fw_pc" where
  "fw_next u = (if unat (r_msg u) \<le> length (r_queue u) then Fw_read_flit else Fw_top)"

lemma fw_top_last:
  assumes "u_fw_pc u = Fw_top" and "f_idx u = 4" and "pending_queue u = [p]"
  shows "usp_fw_resume u = Inr (u\<lparr>f_idx := 0, pending_queue := [], u_fw_pc := Fw_last p\<rparr>, [], Delay_period)"
  using assms by (simp add: usp_fw_resume_def usp_write_flit_def)

lemma fw_top_mid:
  assumes "u_fw_pc u = Fw_top" and "f_idx u \<noteq> 4" and "f_idx u \<noteq> 0" and "w_queue u \<noteq> []"
    and "pending_queue u = [p]"
  shows "usp_fw_resume u = Inr (u\<lparr>pending_queue := [], u_fw_pc := Fw_mid p\<rparr>, [], Delay_period)"
  using assms by (simp add: usp_fw_resume_def usp_write_flit_def)

definition write_delay :: "usp \<Rightarrow> delay" where
  "write_delay u =
     (if write_flit (u_stats u) mod 20 = 0 then ns32 (u_port_latency u + u_link_latency u)
      else Delay_period)"

lemma fw_top_first:
  assumes "u_fw_pc u = Fw_top" and "f_idx u = 0" and "w_queue u \<noteq> []"
  shows "usp_fw_resume u = Inr (u\<lparr>u_fw_pc := Fw_first\<rparr>, [], write_delay u)"
  using assms by (simp add: usp_fw_resume_def usp_write_flit_def write_delay_def get_w_flit_num_def)

definition read_delay :: "usp \<Rightarrow> delay" where
  "read_delay u =
     (if unat (r_msg u) \<le> length (r_queue u) \<and> read_flit (u_stats u) mod (payload_num u div r_msg u) = 0
      then ns32 (u_port_latency u + u_link_latency u) else Delay_period)"

lemma read_check_eq:
  assumes "usp_cfg_ok u"
  shows "usp_read_check u = Inr (u\<lparr>u_fw_pc := fw_next u\<rparr>, read_delay u)"
  using assms by (simp add: usp_read_check_def usp_cfg_ok_def fw_next_def read_delay_def get_r_flit_num_def)

lemma fw_top_idle:
  assumes "usp_cfg_ok u" and "u_fw_pc u = Fw_top" and "f_idx u \<noteq> 4" and "w_queue u = []"
  shows "usp_fw_resume u = Inr (u\<lparr>u_fw_pc := fw_next u\<rparr>, [], read_delay u)"
  using assms by (simp add: usp_fw_resume_def read_check_eq)

lemma read_delay_simps [simp]:
  "read_delay (u\<lparr>u_fw_pc := x\<rparr>) = read_delay u"
  "read_delay (u\<lparr>w_queue := ws\<rparr>) = read_delay u"
  "read_delay (u\<lparr>pending_queue := ws\<rparr>) = read_delay u"
  "read_delay (u\<lparr>f_idx := i\<rparr>) = read_delay u"
  "read_delay (u\<lparr>u_stats := increase_w_flit (u_stats u)\<rparr>) = read_delay u"
  by (simp_all add: read_delay_def increase_w_flit_def)

lemma fw_next_simps [simp]:
  "fw_next (u\<lparr>u_fw_pc := x\<rparr>) = fw_next u"
  "fw_next (u\<lparr>w_queue := ws\<rparr>) = fw_next u"
  "fw_next (u\<lparr>pending_queue := ws\<rparr>) = fw_next u"
  "fw_next (u\<lparr>f_idx := i\<rparr>) = fw_next u"
  "fw_next (u\<lparr>u_stats := s\<rparr>) = fw_next u"
  by (simp_all add: fw_next_def)

lemma fw_last:
  assumes "usp_cfg_ok u" and "u_fw_pc u = Fw_last p"
  shows "usp_fw_resume u =
    Inr (u\<lparr>u_stats := increase_w_flit (u_stats u), u_fw_pc := fw_next u\<rparr>, [Fw_write 0 p], read_delay u)"
  using assms by (simp add: usp_fw_resume_def read_check_eq)

lemma fw_first:
  assumes "usp_cfg_ok u" and "u_fw_pc u = Fw_first" and "w_queue u = w # ws"
  shows "usp_fw_resume u =
    Inr (u\<lparr>u_stats := increase_w_flit (u_stats u), w_queue := ws,
           pending_queue := pending_queue u @ [w], f_idx := f_idx u + 1, u_fw_pc := fw_next u\<rparr>,
         [], read_delay u)"
  using assms by (simp add: usp_fw_resume_def usp_take_write_def read_check_eq)

lemma fw_mid:
  assumes "usp_cfg_ok u" and "u_fw_pc u = Fw_mid p" and "w_queue u = w # ws"
  shows "usp_fw_resume u =
    Inr (u\<lparr>u_stats := increase_w_flit (u_stats u), w_queue := ws,
           pending_queue := pending_queue u @ [w], f_idx := f_idx u + 1, u_fw_pc := fw_next u\<rparr>,
         [Fw_write 0 p], read_delay u)"
  using assms by (simp add: usp_fw_resume_def usp_take_write_def read_check_eq)

lemma fw_read:
  assumes "u_fw_pc u = Fw_read_flit" and "unat (r_msg u) \<le> length (r_queue u)"
  shows "usp_fw_resume u =
    Inr (u\<lparr>r_queue := drop (unat (r_msg u)) (r_queue u), u_stats := increase_r_flit (u_stats u),
           u_fw_pc := Fw_top\<rparr>, map (Fw_read 0) (take (unat (r_msg u)) (r_queue u)), Delay_period)"
  using assms by (simp add: usp_fw_resume_def usp_send_reads_eq)

text \<open>A segment of the forward thread never fails, and keeps the invariant and the content.\<close>

definition fw_seg_ok :: "usp \<Rightarrow> usp \<Rightarrow> call list \<Rightarrow> bool" where
  "fw_seg_ok u u' os \<longleftrightarrow> usp_inv u' \<and>
     tokens fw_writes os @ usp_writes u' = usp_writes u \<and>
     tokens fw_reads os @ r_queue u' = r_queue u \<and>
     tokens bw_writes os = [] \<and> tokens bw_reads os = [] \<and>
     rack_queue u' = rack_queue u \<and> wack_queue u' = wack_queue u \<and> u_bw_pc u' = u_bw_pc u"

lemmas fw_seg_simps = fw_seg_ok_def usp_inv_def usp_fw_ok_def usp_writes_def fw_in_hand_def fw_next_def

lemma fw_resume_ok:
  assumes inv: "usp_inv u"
  shows "\<exists>u' os d. usp_fw_resume u = Inr (u', os, d) \<and> fw_seg_ok u u' os"
proof (cases "u_fw_pc u")
  case Fw_top
  with inv have cfg: "usp_cfg_ok u" and idx: "f_idx u \<in> {0, 1, 2, 3, 4}"
    and len: "length (pending_queue u) = (if f_idx u = 0 then 0 else 1)"
    by (simp_all add: usp_inv_def usp_fw_ok_def)
  then consider (last) p where "f_idx u = 4" "pending_queue u = [p]"
    | (idle) "f_idx u \<noteq> 4" "w_queue u = []"
    | (first) "f_idx u = 0" "w_queue u \<noteq> []" "pending_queue u = []"
    | (mid) p where "f_idx u \<in> {1, 2, 3}" "w_queue u \<noteq> []" "pending_queue u = [p]"
    by (auto simp: length_Suc_conv split: if_splits)
  then show ?thesis
  proof cases
    case last
    then show ?thesis
      using fw_top_last [OF Fw_top last] cfg Fw_top by (simp add: fw_seg_simps)
  next
    case idle
    then show ?thesis
      using fw_top_idle [OF cfg Fw_top idle] cfg idx len Fw_top by (simp add: fw_seg_simps)
  next
    case first
    then show ?thesis
      using fw_top_first [OF Fw_top first(1,2)] cfg Fw_top by (simp add: fw_seg_simps)
  next
    case mid
    then have "f_idx u \<noteq> 4" "f_idx u \<noteq> 0" by auto
    then show ?thesis
      using fw_top_mid [OF Fw_top _ _ mid(2,3)] cfg Fw_top mid by (simp add: fw_seg_simps)
  qed
next
  case (Fw_last p)
  then show ?thesis
    using inv fw_last [OF _ Fw_last] by (simp add: fw_seg_simps)
next
  case Fw_first
  with inv obtain w ws where "w_queue u = w # ws" and "f_idx u = 0"
    by (cases "w_queue u") (auto simp: usp_inv_def usp_fw_ok_def)
  then show ?thesis
    using inv Fw_first fw_first [OF _ Fw_first] by (simp add: fw_seg_simps)
next
  case (Fw_mid p)
  with inv obtain w ws where "w_queue u = w # ws" and "f_idx u \<in> {1, 2, 3}"
    by (cases "w_queue u") (auto simp: usp_inv_def usp_fw_ok_def)
  then show ?thesis
    using inv Fw_mid fw_mid [OF _ Fw_mid] by (auto simp: fw_seg_simps)
next
  case Fw_read_flit
  then show ?thesis
    using inv fw_read [OF Fw_read_flit] by (simp add: fw_seg_simps)
qed

section \<open>The backward thread\<close>

definition bw_seg_ok :: "usp \<Rightarrow> usp \<Rightarrow> call list \<Rightarrow> bool" where
  "bw_seg_ok u u' os \<longleftrightarrow> usp_inv u' \<and>
     tokens bw_writes os @ usp_wacks u' = usp_wacks u \<and>
     tokens bw_reads os @ usp_racks u' = usp_racks u \<and>
     tokens fw_writes os = [] \<and> tokens fw_reads os = [] \<and>
     usp_writes u' = usp_writes u \<and> r_queue u' = r_queue u \<and> w_queue u' = w_queue u \<and>
     u_fw_pc u' = u_fw_pc u \<and> f_idx u' = f_idx u \<and> pending_queue u' = pending_queue u \<and>
     u_stats u' = u_stats u"

lemmas bw_seg_simps = bw_seg_ok_def usp_inv_def usp_fw_ok_def usp_writes_def usp_wacks_def usp_racks_def

lemma rack_check_eq:
  assumes "usp_cfg_ok u"
  shows "\<exists>d. usp_rack_check u =
    Inr (case rack_queue u of [] \<Rightarrow> u\<lparr>u_bw_pc := Ubw_top\<rparr>
         | p # ps \<Rightarrow> u\<lparr>rack_queue := ps, u_bw_pc := Ubw_rack p\<rparr>, d)"
  using assms
  by (auto simp: usp_rack_check_def usp_ack_delay_def usp_cfg_ok_def split: list.splits)

lemma usp_fw_ok_back [simp]:
  "usp_fw_ok (u\<lparr>u_bw_pc := y\<rparr>) = usp_fw_ok u"
  "usp_fw_ok (u\<lparr>wack_queue := ws\<rparr>) = usp_fw_ok u"
  "usp_fw_ok (u\<lparr>rack_queue := ws\<rparr>) = usp_fw_ok u"
  "usp_fw_ok (u\<lparr>u_wack_num := n\<rparr>) = usp_fw_ok u"
  "usp_fw_ok (u\<lparr>u_rack_num := n\<rparr>) = usp_fw_ok u"
  by (cases "u_fw_pc u"; simp add: usp_fw_ok_def)+

lemma bw_resume_ok:
  assumes inv: "usp_inv u"
  shows "\<exists>u' os d. usp_bw_resume u = Inr (u', os, d) \<and> bw_seg_ok u u' os"
proof (cases "u_bw_pc u")
  case Ubw_top
  have cfg: "usp_cfg_ok u" and pl: "u_pipeline u \<noteq> 0"
    using inv by (simp_all add: usp_inv_def usp_cfg_ok_def)
  obtain d where d: "usp_rack_check u =
      Inr (case rack_queue u of [] \<Rightarrow> u\<lparr>u_bw_pc := Ubw_top\<rparr>
         | p # ps \<Rightarrow> u\<lparr>rack_queue := ps, u_bw_pc := Ubw_rack p\<rparr>, d)"
    using rack_check_eq [OF cfg] by blast
  show ?thesis
  proof (cases "wack_queue u")
    case Nil
    then show ?thesis
      using d inv Ubw_top
      by (cases "rack_queue u")
        (simp_all add: usp_bw_resume_def bw_seg_ok_def usp_inv_def usp_writes_def usp_wacks_def usp_racks_def)
  next
    case (Cons p ps)
    then show ?thesis
      using inv pl Ubw_top
      by (simp add: usp_bw_resume_def usp_ack_delay_def bw_seg_ok_def usp_inv_def usp_writes_def
          usp_wacks_def usp_racks_def)
  qed
next
  case (Ubw_wack p)
  let ?u = "u\<lparr>u_wack_num := u_wack_num u + 1\<rparr>"
  obtain d where "usp_rack_check ?u =
      Inr (case rack_queue u of [] \<Rightarrow> ?u\<lparr>u_bw_pc := Ubw_top\<rparr>
         | p # ps \<Rightarrow> ?u\<lparr>rack_queue := ps, u_bw_pc := Ubw_rack p\<rparr>, d)"
    using rack_check_eq [of ?u] inv by (auto simp: usp_inv_def)
  then show ?thesis
    using inv Ubw_wack
    by (cases "rack_queue u")
      (simp_all add: usp_bw_resume_def bw_seg_ok_def usp_inv_def usp_writes_def usp_wacks_def usp_racks_def)
next
  case (Ubw_rack p)
  then show ?thesis
    using inv
    by (simp add: usp_bw_resume_def bw_seg_ok_def usp_inv_def usp_writes_def usp_wacks_def usp_racks_def)
qed

section \<open>Calls from the neighbours\<close>

lemma usp_fw_call_ok:
  assumes inv: "usp_inv u" and legal: "usp_legal (Usp_fw_call st p ph)"
  shows "\<exists>st' u' r. usp_nb_transport_fw st u p ph = Inr (st', u', r) \<and> usp_inv u' \<and>
    usp_writes u' = usp_writes u @ usp_write_in (Usp_fw_call st p ph) \<and>
    r_queue u' = r_queue u @ usp_read_in (Usp_fw_call st p ph) \<and>
    usp_racks u' = usp_racks u \<and> usp_wacks u' = usp_wacks u \<and>
    r = (if ph = END_RESP then TLM_COMPLETED else TLM_UPDATED)"
proof (cases "ph = END_RESP")
  case True
  with legal obtain st' where "release p st = Inr st'"
    by (cases "release p st") auto
  with True inv show ?thesis
    by (simp add: usp_nb_transport_fw_def)
next
  case False
  with inv show ?thesis
    by (auto simp: usp_nb_transport_fw_def push_request_def usp_inv_def usp_fw_ok_def usp_writes_def
        usp_racks_def usp_wacks_def usp_cfg_ok_def split: usp_fw_pc.splits)
qed

lemma usp_bw_call_ok:
  assumes inv: "usp_inv u"
  shows "usp_inv (fst (usp_nb_transport_bw st u p)) \<and>
    usp_racks (fst (usp_nb_transport_bw st u p)) = usp_racks u @ usp_rack_in (Usp_bw_call st p) \<and>
    usp_wacks (fst (usp_nb_transport_bw st u p)) = usp_wacks u @ usp_wack_in (Usp_bw_call st p) \<and>
    usp_writes (fst (usp_nb_transport_bw st u p)) = usp_writes u \<and>
    r_queue (fst (usp_nb_transport_bw st u p)) = r_queue u"
  using inv
  by (auto simp: usp_nb_transport_bw_def push_ack_def usp_inv_def usp_cfg_ok_def usp_writes_def
      usp_racks_def usp_wacks_def)

section \<open>Four hops\<close>

lemma usp_ev_ok:
  assumes inv: "usp_inv u" and legal: "usp_legal e"
  shows "\<exists>u' os. usp_ev e u = Inr (u', os) \<and> usp_inv u' \<and>
    tokens fw_writes os @ usp_writes u' = usp_writes u @ usp_write_in e \<and>
    tokens fw_reads os @ r_queue u' = r_queue u @ usp_read_in e \<and>
    tokens bw_writes os @ usp_wacks u' = usp_wacks u @ usp_wack_in e \<and>
    tokens bw_reads os @ usp_racks u' = usp_racks u @ usp_rack_in e"
proof (cases e)
  case (Usp_fw_call st p ph)
  with usp_fw_call_ok [OF inv legal [unfolded Usp_fw_call]] show ?thesis by auto
next
  case (Usp_bw_call st p)
  with usp_bw_call_ok [OF inv] show ?thesis by simp
next
  case Usp_fw_run
  obtain u' os d where "usp_fw_resume u = Inr (u', os, d)" and "fw_seg_ok u u' os"
    using fw_resume_ok [OF inv] by blast
  with Usp_fw_run show ?thesis
    by (simp add: fw_seg_ok_def usp_wacks_def usp_racks_def)
next
  case Usp_bw_run
  obtain u' os d where "usp_bw_resume u = Inr (u', os, d)" and "bw_seg_ok u u' os"
    using bw_resume_ok [OF inv] by blast
  with Usp_bw_run show ?thesis
    by (simp add: bw_seg_ok_def)
qed

interpretation usp_w: hop usp_inv usp_writes usp_ev usp_legal usp_write_in fw_writes
  by unfold_locales (use usp_ev_ok in fastforce)+

interpretation usp_r: hop usp_inv r_queue usp_ev usp_legal usp_read_in fw_reads
  by unfold_locales (use usp_ev_ok in fastforce)+

interpretation usp_wa: hop usp_inv usp_wacks usp_ev usp_legal usp_wack_in bw_writes
  by unfold_locales (use usp_ev_ok in fastforce)+

interpretation usp_ra: hop usp_inv usp_racks usp_ev usp_legal usp_rack_in bw_reads
  by unfold_locales (use usp_ev_ok in fastforce)+

end
