(* ===== verification/Usp_Flits.thy ===== *)
theory Usp_Flits
  imports Usp_Props
begin

text \<open>
  How the upstream port packs: the number of flits, the writes that stay behind when they
  do not fill a group of four, and the latency of a packet.
\<close>

section \<open>The forward thread on its own\<close>

text \<open>The first \<open>n\<close> segments of the forward thread, with the waits between them.\<close>

fun usp_fw_runs :: "nat \<Rightarrow> usp \<Rightarrow> sim_error + (usp \<times> call list \<times> delay list)" where
  "usp_fw_runs 0 u = Inr (u, [], [])"
| "usp_fw_runs (Suc n) u =
     ebind (usp_fw_resume u) (\<lambda>(u1, os, d).
       ebind (usp_fw_runs n u1) (\<lambda>(u2, os', ds). Inr (u2, os @ os', d # ds)))"

lemma usp_fw_runs_add:
  assumes "usp_fw_runs m u = Inr (u1, os, ds)" and "usp_fw_runs n u1 = Inr (u2, os', ds')"
  shows "usp_fw_runs (m + n) u = Inr (u2, os @ os', ds @ ds')"
  using assms(1)
proof (induction m arbitrary: u os ds)
  case 0
  then show ?case using assms(2) by simp
next
  case (Suc m)
  then show ?case by auto
qed

text \<open>Waiting at the head of the loop, with too few reads for a flit.\<close>

definition usp_at_rest :: "usp \<Rightarrow> bool" where
  "usp_at_rest u \<longleftrightarrow> usp_cfg_ok u \<and> u_fw_pc u = Fw_top \<and> length (r_queue u) < unat (r_msg u)"

definition add_w_flits :: "u32 \<Rightarrow> usp \<Rightarrow> usp" where
  "add_w_flits n u = u\<lparr>u_stats := (u_stats u)\<lparr>write_flit := write_flit (u_stats u) + n\<rparr>\<rparr>"

lemma at_rest_next [simp]:
  "usp_at_rest u \<Longrightarrow> fw_next u = Fw_top"
  "usp_at_rest u \<Longrightarrow> read_delay u = Delay_period"
  by (simp_all add: usp_at_rest_def fw_next_def read_delay_def)

text \<open>Two segments per write flit: up to the wait for the flit, and up to the end of the loop.\<close>

lemma flit_first:
  assumes "usp_at_rest u" and "f_idx u = 0" and "pending_queue u = []" and "w_queue u = w # ws"
  shows "usp_fw_runs 2 u =
    Inr (add_w_flits 1 (u\<lparr>w_queue := ws, pending_queue := [w], f_idx := 1\<rparr>), [],
         [write_delay u, Delay_period])"
  using assms
  by (simp add: numeral_2_eq_2 usp_at_rest_def fw_top_first fw_first add_w_flits_def
      increase_w_flit_def fw_next_def read_delay_def)

lemma flit_mid:
  assumes "usp_at_rest u" and "f_idx u \<in> {1, 2, 3}" and "pending_queue u = [p]" and "w_queue u = w # ws"
  shows "usp_fw_runs 2 u =
    Inr (add_w_flits 1 (u\<lparr>w_queue := ws, pending_queue := [w], f_idx := f_idx u + 1\<rparr>), [Fw_write 0 p],
         [Delay_period, Delay_period])"
proof -
  have "f_idx u \<noteq> 4" and "f_idx u \<noteq> 0"
    using assms(2) by auto
  with assms show ?thesis
    by (simp add: numeral_2_eq_2 usp_at_rest_def fw_top_mid fw_mid add_w_flits_def
        increase_w_flit_def fw_next_def read_delay_def)
qed

lemma flit_last:
  assumes "usp_at_rest u" and "f_idx u = 4" and "pending_queue u = [p]"
  shows "usp_fw_runs 2 u =
    Inr (add_w_flits 1 (u\<lparr>pending_queue := [], f_idx := 0\<rparr>), [Fw_write 0 p],
         [Delay_period, Delay_period])"
  using assms
  by (simp add: numeral_2_eq_2 usp_at_rest_def fw_top_last fw_last add_w_flits_def
      increase_w_flit_def fw_next_def read_delay_def)

section \<open>A group of four writes\<close>

lemma add_w_flits_fields [simp]:
  "f_idx (add_w_flits n u) = f_idx u"
  "pending_queue (add_w_flits n u) = pending_queue u"
  "w_queue (add_w_flits n u) = w_queue u"
  "r_queue (add_w_flits n u) = r_queue u"
  "u_fw_pc (add_w_flits n u) = u_fw_pc u"
  "r_msg (add_w_flits n u) = r_msg u"
  "usp_cfg_ok (add_w_flits n u) = usp_cfg_ok u"
  "add_w_flits m (add_w_flits n u) = add_w_flits (n + m) u"
  by (simp_all add: add_w_flits_def add.assoc)

lemma add_w_flits_upd [simp]:
  "(add_w_flits n u)\<lparr>w_queue := ws\<rparr> = add_w_flits n (u\<lparr>w_queue := ws\<rparr>)"
  "(add_w_flits n u)\<lparr>pending_queue := ws\<rparr> = add_w_flits n (u\<lparr>pending_queue := ws\<rparr>)"
  "(add_w_flits n u)\<lparr>f_idx := i\<rparr> = add_w_flits n (u\<lparr>f_idx := i\<rparr>)"
  by (simp_all add: add_w_flits_def)

lemma at_rest_upd [simp]:
  "usp_at_rest (add_w_flits n u) = usp_at_rest u"
  "usp_at_rest (u\<lparr>w_queue := ws\<rparr>) = usp_at_rest u"
  "usp_at_rest (u\<lparr>pending_queue := ws\<rparr>) = usp_at_rest u"
  "usp_at_rest (u\<lparr>f_idx := i\<rparr>) = usp_at_rest u"
  by (simp_all add: usp_at_rest_def)

lemma group_of_four:
  assumes rest: "usp_at_rest u" and idx: "f_idx u = 0" and pend: "pending_queue u = []"
    and ws: "w_queue u = a # b # c # d # ws"
  shows "usp_fw_runs 10 u =
    Inr (add_w_flits 5 (u\<lparr>w_queue := ws\<rparr>), map (Fw_write 0) [a, b, c, d],
         write_delay u # replicate 9 Delay_period)"
proof -
  define u1 where "u1 = add_w_flits 1 (u\<lparr>w_queue := b # c # d # ws, pending_queue := [a], f_idx := 1\<rparr>)"
  define u2 where "u2 = add_w_flits 2 (u\<lparr>w_queue := c # d # ws, pending_queue := [b], f_idx := 2\<rparr>)"
  define u3 where "u3 = add_w_flits 3 (u\<lparr>w_queue := d # ws, pending_queue := [c], f_idx := 3\<rparr>)"
  define u4 where "u4 = add_w_flits 4 (u\<lparr>w_queue := ws, pending_queue := [d], f_idx := 4\<rparr>)"
  have 1: "usp_fw_runs 2 u = Inr (u1, [], [write_delay u, Delay_period])"
    using flit_first [OF rest idx pend ws] by (simp add: u1_def)
  have 2: "usp_fw_runs 2 u1 = Inr (u2, [Fw_write 0 a], [Delay_period, Delay_period])"
    using flit_mid [of u1 a b "c # d # ws"] rest by (simp add: u1_def u2_def)
  have 3: "usp_fw_runs 2 u2 = Inr (u3, [Fw_write 0 b], [Delay_period, Delay_period])"
    using flit_mid [of u2 b c "d # ws"] rest by (simp add: u2_def u3_def)
  have 4: "usp_fw_runs 2 u3 = Inr (u4, [Fw_write 0 c], [Delay_period, Delay_period])"
    using flit_mid [of u3 c d "ws"] rest by (simp add: u3_def u4_def)
  have 5: "usp_fw_runs 2 u4 =
      Inr (add_w_flits 5 (u\<lparr>w_queue := ws, pending_queue := [], f_idx := 0\<rparr>), [Fw_write 0 d],
           [Delay_period, Delay_period])"
    using flit_last [of u4 d] rest by (simp add: u4_def)
  have same: "u\<lparr>w_queue := ws, pending_queue := [], f_idx := 0\<rparr> = u\<lparr>w_queue := ws\<rparr>"
    using idx pend by simp
  from usp_fw_runs_add [OF usp_fw_runs_add [OF usp_fw_runs_add [OF usp_fw_runs_add [OF 1 2] 3] 4] 5]
  show ?thesis
    unfolding same by (simp add: numeral_eq_Suc)
qed

section \<open>Full groups leave, a partial group keeps its last write\<close>

lemma mod4_simps [simp]:
  "Suc 0 mod 4 = 1" "Suc (Suc 0) mod 4 = 2" "Suc (Suc (Suc 0)) mod 4 = 3"
  "Suc (Suc (Suc (Suc n))) mod 4 = n mod 4"
  by presburger+

text \<open>What is left of the writes when the port comes to rest.\<close>

definition sent_of :: "pid list \<Rightarrow> pid list" where
  "sent_of ws = (if length ws mod 4 = 0 then ws else butlast ws)"

definition kept_of :: "pid list \<Rightarrow> pid list" where
  "kept_of ws = (if length ws mod 4 = 0 then [] else [last ws])"

definition usp_drained :: "pid list \<Rightarrow> usp \<Rightarrow> bool" where
  "usp_drained ws u \<longleftrightarrow> usp_at_rest u \<and> w_queue u = [] \<and> pending_queue u = kept_of ws \<and>
     f_idx u = of_nat (length ws mod 4)"

lemma drainI:
  "usp_fw_runs n u = Inr (u', os, ds) \<Longrightarrow> os = map (Fw_write 0) (sent_of ws) \<Longrightarrow> usp_drained ws u' \<Longrightarrow>
   \<exists>n u' ds. usp_fw_runs n u = Inr (u', map (Fw_write 0) (sent_of ws), ds) \<and> usp_drained ws u'"
  by blast

lemma short_group:
  assumes rest: "usp_at_rest u" and idx: "f_idx u = 0" and pend: "pending_queue u = []"
    and len: "length (w_queue u) < 4"
  shows "\<exists>n u' ds. usp_fw_runs n u = Inr (u', map (Fw_write 0) (sent_of (w_queue u)), ds) \<and>
    usp_drained (w_queue u) u'"
proof -
  consider (0) "w_queue u = []" | (1) a where "w_queue u = [a]" | (2) a b where "w_queue u = [a, b]"
    | (3) a b c where "w_queue u = [a, b, c]"
    using len by (auto simp: numeral_eq_Suc less_Suc_eq length_Suc_conv)
  then show ?thesis
  proof cases
    case 0
    with rest idx pend show ?thesis
      by (intro drainI [OF usp_fw_runs.simps(1)]) (simp_all add: usp_drained_def sent_of_def kept_of_def)
  next
    case 1
    with rest show ?thesis
      by (intro drainI [OF flit_first [OF rest idx pend 1]])
        (simp_all add: usp_drained_def sent_of_def kept_of_def)
  next
    case 2
    let ?u1 = "add_w_flits 1 (u\<lparr>w_queue := [b], pending_queue := [a], f_idx := 1\<rparr>)"
    have "usp_fw_runs 2 ?u1 = Inr (add_w_flits 2 (u\<lparr>w_queue := [], pending_queue := [b], f_idx := 2\<rparr>),
        [Fw_write 0 a], [Delay_period, Delay_period])"
      using flit_mid [of ?u1 a b "[]"] rest by simp
    from usp_fw_runs_add [OF flit_first [OF rest idx pend 2] this] 2 rest show ?thesis
      by (elim drainI) (simp_all add: usp_drained_def sent_of_def kept_of_def)
  next
    case 3
    let ?u1 = "add_w_flits 1 (u\<lparr>w_queue := [b, c], pending_queue := [a], f_idx := 1\<rparr>)"
    let ?u2 = "add_w_flits 2 (u\<lparr>w_queue := [c], pending_queue := [b], f_idx := 2\<rparr>)"
    have 1: "usp_fw_runs 2 ?u1 = Inr (?u2, [Fw_write 0 a], [Delay_period, Delay_period])"
      using flit_mid [of ?u1 a b "[c]"] rest by simp
    have 2: "usp_fw_runs 2 ?u2 = Inr (add_w_flits 3 (u\<lparr>w_queue := [], pending_queue := [c], f_idx := 3\<rparr>),
        [Fw_write 0 b], [Delay_period, Delay_period])"
      using flit_mid [of ?u2 b c "[]"] rest by simp
    from usp_fw_runs_add [OF usp_fw_runs_add [OF flit_first [OF rest idx pend 3] 1] 2] 3 rest show ?thesis
      by (elim drainI) (simp_all add: usp_drained_def sent_of_def kept_of_def)
  qed
qed

lemma kept_sent_group:
  "kept_of (a # b # c # d # ws) = kept_of ws"
  "sent_of (a # b # c # d # ws) = [a, b, c, d] @ sent_of ws"
  by (auto simp: kept_of_def sent_of_def)

text \<open>
  C30. Left alone, the upstream port passes on every group of four queued writes; of a last
  group with one to three writes it passes on all but the last one, which stays in
  \<open>pending_queue\<close>. Nothing is lost when the number of writes is a multiple of four.
\<close>

theorem usp_writes_drain:
  assumes "usp_at_rest u" and "f_idx u = 0" and "pending_queue u = []"
  shows "\<exists>n u' ds. usp_fw_runs n u = Inr (u', map (Fw_write 0) (sent_of (w_queue u)), ds) \<and>
    usp_drained (w_queue u) u'"
  using assms
proof (induction "length (w_queue u)" arbitrary: u rule: less_induct)
  case less
  show ?case
  proof (cases "length (w_queue u) < 4")
    case True
    with less.prems show ?thesis by (rule_tac short_group)
  next
    case False
    then obtain a b c d ws where ws: "w_queue u = a # b # c # d # ws"
      by (auto simp: not_less numeral_eq_Suc Suc_le_length_iff)
    let ?u1 = "add_w_flits 5 (u\<lparr>w_queue := ws\<rparr>)"
    have g: "usp_fw_runs 10 u = Inr (?u1, map (Fw_write 0) [a, b, c, d], write_delay u # replicate 9 Delay_period)"
      by (rule group_of_four [OF less.prems ws])
    have "\<exists>n u' ds. usp_fw_runs n ?u1 = Inr (u', map (Fw_write 0) (sent_of (w_queue ?u1)), ds) \<and>
        usp_drained (w_queue ?u1) u'"
      using less.prems ws by (intro less.hyps) simp_all
    then obtain n u' ds where "usp_fw_runs n ?u1 = Inr (u', map (Fw_write 0) (sent_of ws), ds)"
      and "usp_drained ws u'"
      by auto
    with usp_fw_runs_add [OF g this(1)] ws show ?thesis
      by (elim drainI) (simp_all add: kept_sent_group usp_drained_def)
  qed
qed

text \<open>
  Once it is the only write left, that last write is stuck: however long the port runs, it
  sends nothing until another write comes in.
\<close>

theorem usp_partial_group_stuck:
  assumes "usp_at_rest u" and "w_queue u = []" and "f_idx u \<noteq> 4"
  shows "usp_fw_runs n u = Inr (u, [], replicate n Delay_period)"
proof (induction n)
  case 0
  show ?case by simp
next
  case (Suc n)
  have "usp_fw_resume u = Inr (u, [], Delay_period)"
    using assms fw_top_idle [of u] at_rest_next [OF assms(1)] by (simp add: usp_at_rest_def)
  with Suc show ?case by simp
qed

text \<open>A port at rest that holds the given writes, for the witnesses.\<close>

definition port_with :: "pid list \<Rightarrow> u32 \<Rightarrow> pid list \<Rightarrow> usp" where
  "port_with pending i ws =
     \<lparr>r_queue = [], w_queue = ws, rack_queue = [], wack_queue = [], pending_queue = pending, f_idx = i, r_msg = 2,
      u_pipeline = 8, u_rack_num = 0, u_wack_num = 0, u_dram_num = 1, payload_num = 16,
      u_port_latency = 5, u_link_latency = 7, u_stats = stats_new [], u_fw_pc = Fw_top, u_bw_pc = Ubw_top\<rparr>"

lemma port_with_rest: "usp_at_rest (port_with pending i ws)"
  by (simp add: usp_at_rest_def port_with_def usp_cfg_ok_def)

lemma port_with_fields [simp]:
  "f_idx (port_with pending i ws) = i" "pending_queue (port_with pending i ws) = pending"
  "w_queue (port_with pending i ws) = ws" "u_stats (port_with pending i ws) = stats_new []"
  by (simp_all add: port_with_def)

theorem usp_writes_drain_witness:
  "\<exists>n u' ds. usp_fw_runs n (port_with [] 0 [1, 2, 3, 4, 5, 6]) =
      Inr (u', map (Fw_write 0) (sent_of (w_queue (port_with [] 0 [1, 2, 3, 4, 5, 6]))), ds) \<and>
    usp_drained (w_queue (port_with [] 0 [1, 2, 3, 4, 5, 6])) u'"
  by (rule usp_writes_drain [OF port_with_rest]) simp_all

theorem usp_partial_group_stuck_witness:
  "usp_fw_runs 100 (port_with [6] 2 []) = Inr (port_with [6] 2 [], [], replicate 100 Delay_period)"
  by (rule usp_partial_group_stuck [OF port_with_rest]) simp_all

section \<open>Flits per write\<close>

text \<open>
  \<open>flit_inv u n\<close>: after \<open>n\<close> writes have left, the port stands at the place of the
  five-flit group that \<open>n mod 4\<close> says, and has counted the flits for it.
\<close>

definition flit_inv :: "usp \<Rightarrow> nat \<Rightarrow> bool" where
  "flit_inv u n \<longleftrightarrow> usp_inv u \<and>
     write_flit (u_stats u) =
       of_nat (n + n div 4 + length (fw_in_hand (u_fw_pc u) @ pending_queue u)) \<and>
     (case u_fw_pc u of
        Fw_last p \<Rightarrow> n mod 4 = 3
      | Fw_first \<Rightarrow> n mod 4 = 0
      | Fw_mid p \<Rightarrow> f_idx u = of_nat (n mod 4 + 1)
      | _ \<Rightarrow> (if f_idx u = 0 then n mod 4 = 0 else f_idx u = of_nat (n mod 4 + 1)))"

lemma mod4_cases:
  fixes n :: nat
  obtains g where "n = 4 * g" | g where "n = 4 * g + 1" | g where "n = 4 * g + 2" | g where "n = 4 * g + 3"
proof -
  have "n = 4 * (n div 4) + n mod 4" and "n mod 4 < 4"
    by simp_all
  then have "n = 4 * (n div 4) \<or> n = 4 * (n div 4) + 1 \<or> n = 4 * (n div 4) + 2 \<or> n = 4 * (n div 4) + 3"
    by linarith
  with that show ?thesis by blast
qed

text \<open>The three moves that change the count: a write leaves, a write is taken, or both.\<close>

lemma group_count [simp]:
  "(4 * g) div 4 = g" "(4 * g + 1) div 4 = g" "(4 * g + 2) div 4 = g" "(4 * g + 3) div 4 = g"
  "Suc (4 * g) div 4 = g" "Suc (Suc (4 * g)) div 4 = g" "Suc (Suc (Suc (4 * g))) div 4 = g"
  "(4 * g) mod 4 = 0" "(4 * g + 1) mod 4 = 1" "(4 * g + 2) mod 4 = 2" "(4 * g + 3) mod 4 = 3"
  "Suc (4 * g) mod 4 = 1" "Suc (Suc (4 * g)) mod 4 = 2" "Suc (Suc (Suc (4 * g))) mod 4 = 3"
  for g :: nat
  by presburger+

lemma flit_inv_top:
  assumes fi: "flit_inv u n" and pc: "u_fw_pc u = Fw_top"
    and run: "usp_fw_resume u = Inr (u', os, d)"
  shows "flit_inv u' (n + length (tokens fw_writes os))"
proof -
  have inv: "usp_inv u" and inv': "usp_inv u'" and cfg: "usp_cfg_ok u"
    and len: "length (pending_queue u) = (if f_idx u = 0 then 0 else 1)"
    and idx: "f_idx u \<in> {0, 1, 2, 3, 4}"
    using fi fw_resume_ok [of u] run pc by (auto simp: flit_inv_def fw_seg_ok_def usp_inv_def usp_fw_ok_def)
  consider (last) p where "f_idx u = 4" "pending_queue u = [p]"
    | (idle) "f_idx u \<noteq> 4" "w_queue u = []"
    | (first) "f_idx u = 0" "w_queue u \<noteq> []" "pending_queue u = []"
    | (mid) p where "f_idx u \<in> {1, 2, 3}" "w_queue u \<noteq> []" "pending_queue u = [p]"
    using len idx by (auto simp: length_Suc_conv split: if_splits)
  then show ?thesis
  proof cases
    case last
    from fi pc last show ?thesis
      using run inv' fw_top_last [OF pc last]
      by (cases n rule: mod4_cases) (auto simp: flit_inv_def fw_in_hand_def)
  next
    case idle
    then show ?thesis
      using fi pc run inv' fw_top_idle [OF cfg pc idle]
      by (auto simp: flit_inv_def fw_in_hand_def fw_next_def)
  next
    case first
    then show ?thesis
      using fi pc run inv' fw_top_first [OF pc first(1,2)]
      by (auto simp: flit_inv_def fw_in_hand_def)
  next
    case mid
    then have "f_idx u \<noteq> 4" "f_idx u \<noteq> 0" by auto
    then show ?thesis
      using fi pc mid run inv' fw_top_mid [OF pc _ _ mid(2,3)]
      by (auto simp: flit_inv_def fw_in_hand_def)
  qed
qed

lemma flit_inv_fw:
  assumes fi: "flit_inv u n" and run: "usp_fw_resume u = Inr (u', os, d)"
  shows "flit_inv u' (n + length (tokens fw_writes os))"
proof -
  have inv: "usp_inv u" and inv': "usp_inv u'" and cfg: "usp_cfg_ok u"
    using fi fw_resume_ok [of u] run by (auto simp: flit_inv_def fw_seg_ok_def usp_inv_def)
  show ?thesis
  proof (cases "u_fw_pc u")
    case Fw_top
    with fi show ?thesis using run by (rule flit_inv_top)
  next
    case (Fw_last p)
    then show ?thesis
      using fi run inv inv' fw_last [OF cfg Fw_last]
      by (cases n rule: mod4_cases)
        (auto simp: flit_inv_def fw_in_hand_def fw_next_def increase_w_flit_def usp_inv_def usp_fw_ok_def)
  next
    case Fw_first
    with inv obtain w ws where w: "w_queue u = w # ws" and i: "f_idx u = 0" and "pending_queue u = []"
      by (cases "w_queue u") (auto simp: usp_inv_def usp_fw_ok_def)
    then show ?thesis
      using fi run inv' Fw_first fw_first [OF cfg Fw_first w]
      by (auto simp: flit_inv_def fw_in_hand_def fw_next_def increase_w_flit_def)
  next
    case (Fw_mid p)
    with inv obtain w ws where w: "w_queue u = w # ws" and i: "f_idx u \<in> {1, 2, 3}" and "pending_queue u = []"
      by (cases "w_queue u") (auto simp: usp_inv_def usp_fw_ok_def)
    then show ?thesis
      using fi run inv' Fw_mid fw_mid [OF cfg Fw_mid w]
      by (cases n rule: mod4_cases)
        (auto simp: flit_inv_def fw_in_hand_def fw_next_def increase_w_flit_def)
  next
    case Fw_read_flit
    then show ?thesis
      using fi run inv inv' fw_read [OF Fw_read_flit]
      by (auto simp: flit_inv_def fw_in_hand_def increase_r_flit_def usp_inv_def usp_fw_ok_def)
  qed
qed

lemma flit_inv_cong:
  assumes "flit_inv u n" and "usp_inv u'" and same: "u_fw_pc u' = u_fw_pc u" "f_idx u' = f_idx u"
    "pending_queue u' = pending_queue u" "u_stats u' = u_stats u"
  shows "flit_inv u' n"
  using assms(1,2) unfolding flit_inv_def same by blast

lemma flit_inv_ev:
  assumes fi: "flit_inv u n" and legal: "usp_legal e" and run: "usp_ev e u = Inr (u', os)"
  shows "flit_inv u' (n + length (tokens fw_writes os))"
proof -
  have inv: "usp_inv u" and inv': "usp_inv u'"
    using fi usp_w.ev_inv [OF _ legal run] by (auto simp: flit_inv_def)
  show ?thesis
  proof (cases e)
    case (Usp_fw_call st p ph)
    with run have "os = []" and "u_fw_pc u' = u_fw_pc u" "f_idx u' = f_idx u"
      "pending_queue u' = pending_queue u" "u_stats u' = u_stats u"
      by (auto simp: usp_nb_transport_fw_def push_request_def split: if_splits)
    with flit_inv_cong [OF fi inv'] show ?thesis by simp
  next
    case (Usp_bw_call st p)
    with run have "os = []" and "u_fw_pc u' = u_fw_pc u" "f_idx u' = f_idx u"
      "pending_queue u' = pending_queue u" "u_stats u' = u_stats u"
      by (auto simp: usp_nb_transport_bw_def push_ack_def)
    with flit_inv_cong [OF fi inv'] show ?thesis by simp
  next
    case Usp_fw_run
    with run obtain d where "usp_fw_resume u = Inr (u', os, d)" by auto
    with fi show ?thesis by (rule flit_inv_fw)
  next
    case Usp_bw_run
    with run obtain d where r: "usp_bw_resume u = Inr (u', os, d)" by auto
    from bw_resume_ok [OF inv] r have "bw_seg_ok u u' os" by auto
    with flit_inv_cong [OF fi inv'] show ?thesis by (simp add: bw_seg_ok_def)
  qed
qed

lemma usp_init_ok:
  assumes "usp_init dn pl ll ps rs nm = Inr u" and "ps div rs div 2 \<noteq> 0"
  shows "usp_inv u \<and> flit_inv u 0 \<and> usp_writes u = [] \<and> r_queue u = [] \<and> usp_racks u = [] \<and> usp_wacks u = []"
  using assms
  by (auto simp: usp_init_def usp_inv_def usp_cfg_ok_def usp_fw_ok_def flit_inv_def stats_new_def
      set_name_def usp_content_defs split: if_splits)

text \<open>
  After any run of a fresh upstream port, the write flits counted are one per write that
  has left, one more per complete group of four, and one for a write in progress: five flits
  for four writes.
\<close>

theorem usp_flit_count:
  assumes "usp_init dn pl ll ps rs nm = Inr u" and "ps div rs div 2 \<noteq> 0"
    and "list_all usp_legal es" and "run_events usp_ev es u = Inr (u', os)"
  shows "write_flit (u_stats u') =
    of_nat (let n = length (tokens fw_writes os) in
      n + n div 4 + length (fw_in_hand (u_fw_pc u') @ pending_queue u'))"
proof -
  have "flit_inv u 0"
    using usp_init_ok [OF assms(1,2)] by simp
  from run_events_count [where P = flit_inv and legal = usp_legal, OF flit_inv_ev this assms(3,4)]
  show ?thesis by (simp add: flit_inv_def Let_def)
qed

section \<open>Latency of a packet\<close>

text \<open>
  The waits for \<open>k\<close> complete groups, when \<open>f\<close> flits have been counted before: the
  first flit of a group waits for the port if its number is a multiple of 20, and every
  other wait is one clock period.
\<close>

definition flit_wait :: "u32 \<Rightarrow> u32 \<Rightarrow> delay" where
  "flit_wait lat f = (if f mod 20 = 0 then ns32 lat else Delay_period)"

fun group_waits :: "nat \<Rightarrow> u32 \<Rightarrow> u32 \<Rightarrow> delay list" where
  "group_waits 0 lat f = []"
| "group_waits (Suc k) lat f = flit_wait lat f # replicate 9 Delay_period @ group_waits k lat (f + 5)"

lemma write_delay_flit_wait:
  "write_delay u = flit_wait (u_port_latency u + u_link_latency u) (write_flit (u_stats u))"
  by (simp add: write_delay_def flit_wait_def)

lemma groups_run:
  assumes "usp_at_rest u" and "f_idx u = 0" and "pending_queue u = []"
    and "w_queue u = ws @ rest" and "length ws = 4 * k"
  shows "usp_fw_runs (10 * k) u =
    Inr (add_w_flits (of_nat (5 * k)) (u\<lparr>w_queue := rest\<rparr>), map (Fw_write 0) ws,
         group_waits k (u_port_latency u + u_link_latency u) (write_flit (u_stats u)))"
  using assms
proof (induction k arbitrary: u ws)
  case 0
  then show ?case by (simp add: add_w_flits_def)
next
  case (Suc k)
  from Suc.prems(5) obtain a b c d vs where ws: "ws = a # b # c # d # vs" and vs: "length vs = 4 * k"
    by (auto simp: numeral_eq_Suc length_Suc_conv)
  let ?u1 = "add_w_flits 5 (u\<lparr>w_queue := vs @ rest\<rparr>)"
  have g: "usp_fw_runs 10 u =
      Inr (?u1, map (Fw_write 0) [a, b, c, d], write_delay u # replicate 9 Delay_period)"
    using Suc.prems ws by (intro group_of_four) simp_all
  have "usp_fw_runs (10 * k) ?u1 =
      Inr (add_w_flits (of_nat (5 * k)) (?u1\<lparr>w_queue := rest\<rparr>), map (Fw_write 0) vs,
           group_waits k (u_port_latency ?u1 + u_link_latency ?u1) (write_flit (u_stats ?u1)))"
    using Suc.prems vs by (intro Suc.IH) simp_all
  from usp_fw_runs_add [OF g this] ws show ?case
    by (simp add: write_delay_flit_wait add_w_flits_def algebra_simps)
qed

lemma unat_mod_20: "f mod 20 = 0 \<Longrightarrow> unat f mod 20 = 0" for f :: u32
  using unat_mod [of f 20] by simp

lemma room_above_mod_20:
  fixes f :: u32
  assumes "unat f mod 20 = 0"
  shows "unat f + 15 < 4294967296"
proof -
  have "unat f < 2 ^ LENGTH(32)"
    by (rule unsigned_less)
  then have "unat f < 4294967296" by simp
  with assms show ?thesis by presburger
qed

lemma add_mod_20:
  fixes f :: u32
  assumes "f mod 20 = 0" and "0 < k" and "k \<le> 15"
  shows "(f + of_nat k) mod 20 \<noteq> 0"
proof
  assume "(f + of_nat k) mod 20 = 0"
  then have "unat (f + of_nat k) mod 20 = 0"
    by (rule unat_mod_20)
  moreover have "unat (of_nat k :: u32) = k"
    using assms(3) by (simp add: unat_of_nat)
  then have "unat (f + of_nat k) = unat f + k"
    using room_above_mod_20 [OF unat_mod_20 [OF assms(1)]] assms(3) by (simp add: unat_word_ariths)
  ultimately show False
    using unat_mod_20 [OF assms(1)] assms(2,3) by presburger
qed

lemma next_groups_wait:
  fixes f :: u32
  assumes "f mod 20 = 0"
  shows "(f + 5) mod 20 \<noteq> 0" "(f + 10) mod 20 \<noteq> 0" "(f + 15) mod 20 \<noteq> 0"
  using add_mod_20 [OF assms, of 5] add_mod_20 [OF assms, of 10] add_mod_20 [OF assms, of 15]
  by simp_all

text \<open>
  C31. The sixteen writes of a 1024-byte packet take twenty flits and pay the port and link
  latency once: one latency and 39 clock periods, when the flit counter stands at a
  multiple of 20 before.
\<close>

theorem usp_packet_latency:
  assumes "usp_at_rest u" and "f_idx u = 0" and "pending_queue u = []"
    and "w_queue u = ws" and "length ws = 16" and "write_flit (u_stats u) mod 20 = 0"
  shows "\<exists>u' ds. usp_fw_runs 40 u = Inr (u', map (Fw_write 0) ws, ds) \<and>
    w_queue u' = [] \<and> pending_queue u' = [] \<and>
    write_flit (u_stats u') = write_flit (u_stats u) + 20 \<and>
    total_time period ds = of_nat (unat (u_port_latency u + u_link_latency u)) + 39 * period"
proof -
  let ?lat = "u_port_latency u + u_link_latency u" and ?f = "write_flit (u_stats u)"
  have "usp_fw_runs 40 u =
      Inr (add_w_flits 20 (u\<lparr>w_queue := []\<rparr>), map (Fw_write 0) ws, group_waits 4 ?lat ?f)"
    using groups_run [of u ws "[]" 4] assms by simp
  moreover have "total_time period (group_waits 4 ?lat ?f) = of_nat (unat ?lat) + 39 * period"
    using assms(6) next_groups_wait [OF assms(6)]
    by (simp add: numeral_eq_Suc flit_wait_def add.assoc)
  ultimately show ?thesis
    using assms(3) by (simp add: add_w_flits_def)
qed

theorem usp_flit_count_witness:
  "\<exists>u u' os. usp_init 1 5 7 64 4 [] = Inr u \<and> run_events usp_ev [Usp_fw_run, Usp_bw_run] u = Inr (u', os) \<and>
    write_flit (u_stats u') = of_nat (let n = length (tokens fw_writes os) in
      n + n div 4 + length (fw_in_hand (u_fw_pc u') @ pending_queue u'))"
proof -
  obtain u where u: "usp_init 1 5 7 64 4 [] = Inr u"
    by (simp add: usp_init_def)
  have cfg: "(64::u32) div 4 div 2 \<noteq> 0" by simp
  have "usp_inv u" using usp_init_ok [OF u cfg] by simp
  moreover have legal: "list_all usp_legal [Usp_fw_run, Usp_bw_run]" by simp
  ultimately obtain u' os where run: "run_events usp_ev [Usp_fw_run, Usp_bw_run] u = Inr (u', os)"
    using usp_w.run_total by blast
  from usp_flit_count [OF u cfg legal run] u run show ?thesis by blast
qed

theorem usp_packet_latency_witness:
  "\<exists>u' ds. usp_fw_runs 40 (port_with [] 0 [0 ..< 16]) = Inr (u', map (Fw_write 0) [0 ..< 16], ds) \<and>
    w_queue u' = [] \<and> pending_queue u' = [] \<and>
    write_flit (u_stats u') = write_flit (u_stats (port_with [] 0 [0 ..< 16])) + 20 \<and>
    total_time 1 ds = of_nat (unat (u_port_latency (port_with [] 0 [0 ..< 16]) +
      u_link_latency (port_with [] 0 [0 ..< 16]))) + 39 * 1"
  by (rule usp_packet_latency [OF port_with_rest]) (simp_all add: stats_new_def)

end
