(* ===== verification/Dsp.thy ===== *)
theory Dsp
  imports Timing
begin

text \<open>
  The downstream port (\<open>backplane/components/port/dsp.h\<close> and \<open>.cpp\<close>): once per
  clock period each thread passes on at most one read and one write. The threads wait
  only at the end of their loop, so they need no program counter. The section on hops
  shows that the port neither loses nor reorders anything.
\<close>

section \<open>State and operations\<close>

text \<open>The module has a fifth deque, \<open>pending_queue\<close>, that no code uses.\<close>

record dsp = channels +
  d_pending_queue :: "pid list"

definition dsp_init :: dsp where
  "dsp_init = \<lparr>r_queue = [], w_queue = [], rack_queue = [], wack_queue = [], d_pending_queue = []\<rparr>"

definition dsp_nb_transport_fw :: "store \<Rightarrow> dsp \<Rightarrow> pid \<Rightarrow> dsp \<times> tlm_sync_enum" where
  "dsp_nb_transport_fw st d p = (push_request (gp_command (heap st p)) p d, TLM_UPDATED)"

definition dsp_nb_transport_bw :: "store \<Rightarrow> dsp \<Rightarrow> pid \<Rightarrow> dsp \<times> tlm_sync_enum" where
  "dsp_nb_transport_bw st d p = (push_ack (gp_command (heap st p)) p d, TLM_UPDATED)"

text \<open>One turn of \<open>fw_thread\<close>, up to the \<open>wait\<close> at its end.\<close>

definition dsp_fw_resume :: "dsp \<Rightarrow> dsp \<times> call list \<times> delay" where
  "dsp_fw_resume d =
     (let (d1, os1) = (case r_queue d of [] \<Rightarrow> (d, []) | p # ps \<Rightarrow> (d\<lparr>r_queue := ps\<rparr>, [Fw_read 0 p]));
          (d2, os2) = (case w_queue d1 of [] \<Rightarrow> (d1, []) | p # ps \<Rightarrow> (d1\<lparr>w_queue := ps\<rparr>, [Fw_write 0 p]))
      in (d2, os1 @ os2, Delay_period))"

definition dsp_bw_resume :: "dsp \<Rightarrow> dsp \<times> call list \<times> delay" where
  "dsp_bw_resume d =
     (let (d1, os1) = (case rack_queue d of [] \<Rightarrow> (d, []) | p # ps \<Rightarrow> (d\<lparr>rack_queue := ps\<rparr>, [Bw_read 0 p]));
          (d2, os2) = (case wack_queue d1 of [] \<Rightarrow> (d1, []) | p # ps \<Rightarrow> (d1\<lparr>wack_queue := ps\<rparr>, [Bw_write 0 p]))
      in (d2, os1 @ os2, Delay_period))"

section \<open>Hops\<close>

datatype dsp_event =
    Dsp_fw_call store pid
  | Dsp_bw_call store pid
  | Dsp_fw_run
  | Dsp_bw_run

fun dsp_ev :: "dsp_event \<Rightarrow> dsp \<Rightarrow> sim_error + (dsp \<times> call list)" where
  "dsp_ev (Dsp_fw_call st p) d = Inr (fst (dsp_nb_transport_fw st d p), [])"
| "dsp_ev (Dsp_bw_call st p) d = Inr (fst (dsp_nb_transport_bw st d p), [])"
| "dsp_ev Dsp_fw_run d = (case dsp_fw_resume d of (d', os, _) \<Rightarrow> Inr (d', os))"
| "dsp_ev Dsp_bw_run d = (case dsp_bw_resume d of (d', os, _) \<Rightarrow> Inr (d', os))"

fun dsp_read_in :: "dsp_event \<Rightarrow> pid list" where
  "dsp_read_in (Dsp_fw_call st p) = (if gp_command (heap st p) = TLM_READ_COMMAND then [p] else [])"
| "dsp_read_in _ = []"

fun dsp_write_in :: "dsp_event \<Rightarrow> pid list" where
  "dsp_write_in (Dsp_fw_call st p) = (if gp_command (heap st p) \<noteq> TLM_READ_COMMAND then [p] else [])"
| "dsp_write_in _ = []"

fun dsp_rack_in :: "dsp_event \<Rightarrow> pid list" where
  "dsp_rack_in (Dsp_bw_call st p) = (if gp_command (heap st p) = TLM_READ_COMMAND then [p] else [])"
| "dsp_rack_in _ = []"

fun dsp_wack_in :: "dsp_event \<Rightarrow> pid list" where
  "dsp_wack_in (Dsp_bw_call st p) = (if gp_command (heap st p) \<noteq> TLM_READ_COMMAND then [p] else [])"
| "dsp_wack_in _ = []"

lemma dsp_ev_total: "\<exists>d' os. dsp_ev e d = Inr (d', os)"
  by (cases e) (auto split: prod.splits)

lemma dsp_ev_ok:
  assumes "dsp_ev e d = Inr (d', os)"
  shows "tokens fw_reads os @ r_queue d' = r_queue d @ dsp_read_in e"
    and "tokens fw_writes os @ w_queue d' = w_queue d @ dsp_write_in e"
    and "tokens bw_reads os @ rack_queue d' = rack_queue d @ dsp_rack_in e"
    and "tokens bw_writes os @ wack_queue d' = wack_queue d @ dsp_wack_in e"
  using assms
  by (cases e; auto simp: dsp_nb_transport_fw_def dsp_nb_transport_bw_def queue_simps
      dsp_fw_resume_def dsp_bw_resume_def split: list.splits)+

interpretation dsp_r: hop "\<lambda>_. True" r_queue dsp_ev "\<lambda>_. True" dsp_read_in fw_reads
  by unfold_locales (simp_all add: dsp_ev_total dsp_ev_ok)

interpretation dsp_w: hop "\<lambda>_. True" w_queue dsp_ev "\<lambda>_. True" dsp_write_in fw_writes
  by unfold_locales (simp_all add: dsp_ev_total dsp_ev_ok)

interpretation dsp_ra: hop "\<lambda>_. True" rack_queue dsp_ev "\<lambda>_. True" dsp_rack_in bw_reads
  by unfold_locales (simp_all add: dsp_ev_total dsp_ev_ok)

interpretation dsp_wa: hop "\<lambda>_. True" wack_queue dsp_ev "\<lambda>_. True" dsp_wack_in bw_writes
  by unfold_locales (simp_all add: dsp_ev_total dsp_ev_ok)

text \<open>Left alone, the port passes on one request of each kind per turn, until none is left.\<close>

fun dsp_fw_runs :: "nat \<Rightarrow> dsp \<Rightarrow> dsp \<times> call list" where
  "dsp_fw_runs 0 d = (d, [])"
| "dsp_fw_runs (Suc n) d =
     (case dsp_fw_resume d of (d1, os, _) \<Rightarrow>
        (case dsp_fw_runs n d1 of (d2, os') \<Rightarrow> (d2, os @ os')))"

lemma dsp_fw_resume_fields:
  "r_queue (fst (dsp_fw_resume d)) = tl (r_queue d)"
  "w_queue (fst (dsp_fw_resume d)) = tl (w_queue d)"
  "tokens fw_reads (fst (snd (dsp_fw_resume d))) = take 1 (r_queue d)"
  "tokens fw_writes (fst (snd (dsp_fw_resume d))) = take 1 (w_queue d)"
  by (auto simp: dsp_fw_resume_def split: list.splits)

lemma take_Suc_tl: "take (Suc 0) xs @ take n (tl xs) = take (Suc n) xs"
  by (cases xs) simp_all

text \<open>
  After \<open>n\<close> turns of its forward thread the downstream port has sent the first
  \<open>n\<close> reads and the first \<open>n\<close> writes it held, in order, and keeps the rest: one
  request of each kind per clock period.
\<close>

theorem dsp_forward_rate:
  "dsp_fw_runs n d = (d', os) \<Longrightarrow>
   tokens fw_reads os = take n (r_queue d) \<and> r_queue d' = drop n (r_queue d) \<and>
   tokens fw_writes os = take n (w_queue d) \<and> w_queue d' = drop n (w_queue d)"
proof (induction n arbitrary: d os)
  case 0
  then show ?case by simp
next
  case (Suc n)
  obtain d1 os1 dl where one: "dsp_fw_resume d = (d1, os1, dl)"
    by (cases "dsp_fw_resume d") auto
  obtain d2 os2 where rest: "dsp_fw_runs n d1 = (d2, os2)"
    by (cases "dsp_fw_runs n d1") auto
  from Suc.prems one rest have "d2 = d'" and os: "os = os1 @ os2"
    by auto
  with Suc.IH [of d1 os2] rest dsp_fw_resume_fields [of d] one show ?case
    by (simp add: drop_Suc take_Suc_tl)
qed

theorem dsp_forward_rate_witness:
  "\<exists>d' os. dsp_fw_runs 2 (dsp_init\<lparr>r_queue := [1, 2, 3], w_queue := [4]\<rparr>) = (d', os) \<and>
    tokens fw_reads os = [1, 2] \<and> r_queue d' = [3] \<and> tokens fw_writes os = [4] \<and> w_queue d' = []"
proof -
  obtain d' os where run: "dsp_fw_runs 2 (dsp_init\<lparr>r_queue := [1, 2, 3], w_queue := [4]\<rparr>) = (d', os)"
    by (cases "dsp_fw_runs 2 (dsp_init\<lparr>r_queue := [1, 2, 3], w_queue := [4]\<rparr>)")
  from dsp_forward_rate [OF run] run show ?thesis by auto
qed

end
