(* ===== verification/Controller.thy ===== *)
theory Controller
  imports Timing Statistics
begin

text \<open>
  The device controller (\<open>backplane/components/controller.h\<close> and \<open>.cpp\<close>): it
  distributes requests over the memory devices, remembers for each address which port
  asked for it, and packs acknowledgements into flits on the way back. Both threads
  wait in the middle of their loops and have a program counter.
\<close>

section \<open>State\<close>

datatype ctrl_fw_pc =
    Cfw_top           \<comment> \<open>at the head of the loop\<close>
  | Cfw_read          \<comment> \<open>waiting before a read is sent\<close>
  | Cfw_write         \<comment> \<open>waiting before a write is sent\<close>

datatype ctrl_bw_pc =
    Cbw_top           \<comment> \<open>at the head of the loop\<close>
  | Cbw_drs_start     \<comment> \<open>data only: waiting for the controller and the link\<close>
  | Cbw_drs_flit nat  \<comment> \<open>data only: waiting for the flit of turn \<open>i\<close>\<close>
  | Cbw_ndr_start     \<comment> \<open>no data: waiting for the controller and the link\<close>
  | Cbw_ndr_flit nat  \<comment> \<open>no data: waiting for the flit of turn \<open>i\<close>\<close>
  | Cbw_mix_start     \<comment> \<open>both: waiting for the controller and the link\<close>
  | Cbw_mix_flit      \<comment> \<open>both: waiting for the data flit\<close>

text \<open>
  The two maps from an address to the number of the port that asked for it, and the
  number of sockets bound on either side (indexing beyond it is undefined).
\<close>

record ctrl = channels +
  w_trans_id :: "u64 \<rightharpoonup> int"
  r_trans_id :: "u64 \<rightharpoonup> int"
  c_id :: u32
  r_num :: u32
  w_num :: u32
  c_pipeline :: u32
  c_link_latency :: u32
  c_ctrl_latency :: u32
  c_stats :: statistics
  c_fw_pc :: ctrl_fw_pc
  c_bw_pc :: ctrl_bw_pc
  c_masters :: nat
  c_slaves :: nat

definition ctrl_init :: "u32 \<Rightarrow> u32 \<Rightarrow> string \<Rightarrow> nat \<Rightarrow> nat \<Rightarrow> ctrl" where
  "ctrl_init link_latency ctrl_latency nm masters slaves =
     \<lparr>r_queue = [], w_queue = [], rack_queue = [], wack_queue = [],
      w_trans_id = Map.empty, r_trans_id = Map.empty, c_id = 0, r_num = 0, w_num = 0,
      c_pipeline = 16, c_link_latency = link_latency, c_ctrl_latency = ctrl_latency,
      c_stats = set_name nm (stats_new []), c_fw_pc = Cfw_top, c_bw_pc = Cbw_top,
      c_masters = masters, c_slaves = slaves\<rparr>"

section \<open>Transport functions\<close>

definition ctrl_nb_transport_fw :: "store \<Rightarrow> ctrl \<Rightarrow> int \<Rightarrow> pid \<Rightarrow> ctrl \<times> tlm_sync_enum" where
  "ctrl_nb_transport_fw st c i p =
     (let g = heap st p;
          c1 = (if gp_command g = TLM_READ_COMMAND
                then c\<lparr>r_trans_id := (r_trans_id c)(gp_address g \<mapsto> i)\<rparr>
                else c\<lparr>w_trans_id := (w_trans_id c)(gp_address g \<mapsto> i)\<rparr>)
      in (push_request (gp_command g) p c1, TLM_UPDATED))"

text \<open>The lookup on the way back inserts a 0 for an address that nobody asked for.\<close>

definition ctrl_nb_transport_bw :: "store \<Rightarrow> ctrl \<Rightarrow> pid \<Rightarrow> ctrl \<times> tlm_sync_enum" where
  "ctrl_nb_transport_bw st c p =
     (let g = heap st p;
          c1 = (if gp_command g = TLM_READ_COMMAND
                then c\<lparr>r_trans_id := snd (map_index (r_trans_id c) (gp_address g))\<rparr>
                else c\<lparr>w_trans_id := snd (map_index (w_trans_id c) (gp_address g))\<rparr>)
      in (push_ack (gp_command g) p c1, TLM_UPDATED))"

section \<open>Forward thread\<close>

definition ctrl_stage_delay :: "ctrl \<Rightarrow> u32 \<Rightarrow> sim_error + delay" where
  "ctrl_stage_delay c num =
     (if c_pipeline c = 0 then Inl Division_by_zero
      else Inr (if num mod c_pipeline c = 0 then ns32 (c_ctrl_latency c) else ns32 (c_link_latency c)))"

text \<open>The write half of the loop up to its \<open>wait\<close>, or the \<open>wait\<close> at the end.\<close>

definition ctrl_write_check :: "ctrl \<Rightarrow> sim_error + (ctrl \<times> delay)" where
  "ctrl_write_check c =
     (if w_queue c \<noteq> []
      then ebind (ctrl_stage_delay c (w_num c)) (\<lambda>d. Inr (c\<lparr>c_fw_pc := Cfw_write\<rparr>, d))
      else Inr (c\<lparr>c_fw_pc := Cfw_top\<rparr>, Delay_period))"

text \<open>\<open>master[device_map[trans]]\<close>; the map is shared by the whole simulator.\<close>

definition ctrl_device :: "(pid \<rightharpoonup> u32) \<Rightarrow> ctrl \<Rightarrow> pid \<Rightarrow> sim_error + (nat \<times> (pid \<rightharpoonup> u32))" where
  "ctrl_device dm c p =
     (case map_index dm p of (i, dm') \<Rightarrow>
        (if unat i < c_masters c then Inr (unat i, dm') else Inl Out_of_bounds))"

definition ctrl_fw_resume ::
  "(pid \<rightharpoonup> u32) \<Rightarrow> ctrl \<Rightarrow> sim_error + ((pid \<rightharpoonup> u32) \<times> ctrl \<times> call list \<times> delay)" where
  "ctrl_fw_resume dm c =
     (case c_fw_pc c of
        Cfw_top \<Rightarrow>
          (if r_queue c \<noteq> []
           then ebind (ctrl_stage_delay c (r_num c)) (\<lambda>d. Inr (dm, c\<lparr>c_fw_pc := Cfw_read\<rparr>, [], d))
           else ebind (ctrl_write_check c) (\<lambda>(c', d). Inr (dm, c', [], d)))
      | Cfw_read \<Rightarrow>
          ebind (pop_front (r_queue c)) (\<lambda>(p, ps).
            ebind (ctrl_device dm c p) (\<lambda>(i, dm').
              ebind (ctrl_write_check (c\<lparr>r_queue := ps, r_num := r_num c + 1\<rparr>)) (\<lambda>(c', d).
                Inr (dm', c', [Fw_read i p], d))))
      | Cfw_write \<Rightarrow>
          ebind (pop_front (w_queue c)) (\<lambda>(p, ps).
            ebind (ctrl_device dm c p) (\<lambda>(i, dm').
              Inr (dm', c\<lparr>w_queue := ps, w_num := w_num c + 1, c_fw_pc := Cfw_top\<rparr>, [Fw_write i p],
                   Delay_period))))"

section \<open>Backward thread\<close>

text \<open>Pop an acknowledgement and send it to the port that asked for its address.\<close>

definition ctrl_send_rack :: "store \<Rightarrow> ctrl \<Rightarrow> sim_error + (ctrl \<times> call list)" where
  "ctrl_send_rack st c =
     ebind (pop_front (rack_queue c)) (\<lambda>(p, ps).
       case map_index (r_trans_id c) (gp_address (heap st p)) of (v, m) \<Rightarrow>
         let i = word_of_int v :: u32
         in if unat i < c_slaves c
            then Inr (c\<lparr>rack_queue := ps, r_trans_id := m, c_id := i\<rparr>, [Bw_read (unat i) p])
            else Inl Out_of_bounds)"

definition ctrl_send_wack :: "store \<Rightarrow> ctrl \<Rightarrow> sim_error + (ctrl \<times> call list)" where
  "ctrl_send_wack st c =
     ebind (pop_front (wack_queue c)) (\<lambda>(p, ps).
       case map_index (w_trans_id c) (gp_address (heap st p)) of (v, m) \<Rightarrow>
         let i = word_of_int v :: u32
         in if unat i < c_slaves c
            then Inr (c\<lparr>wack_queue := ps, w_trans_id := m, c_id := i\<rparr>, [Bw_write (unat i) p])
            else Inl Out_of_bounds)"

text \<open>The heads of the two loops: at most three data and at most two no-data responses.\<close>

definition ctrl_drs_turn :: "nat \<Rightarrow> ctrl \<Rightarrow> ctrl" where
  "ctrl_drs_turn i c =
     (if i < 3 \<and> rack_queue c \<noteq> [] then c\<lparr>c_bw_pc := Cbw_drs_flit i\<rparr> else c\<lparr>c_bw_pc := Cbw_top\<rparr>)"

definition ctrl_ndr_turn :: "nat \<Rightarrow> ctrl \<Rightarrow> ctrl" where
  "ctrl_ndr_turn i c =
     (if i < 2 \<and> wack_queue c \<noteq> [] then c\<lparr>c_bw_pc := Cbw_ndr_flit i\<rparr> else c\<lparr>c_bw_pc := Cbw_top\<rparr>)"

text \<open>The loop of the mixed flit sends up to two no-data responses without a \<open>wait\<close>.\<close>

fun ctrl_send_wacks :: "nat \<Rightarrow> store \<Rightarrow> ctrl \<Rightarrow> sim_error + (ctrl \<times> call list)" where
  "ctrl_send_wacks 0 st c = Inr (c, [])"
| "ctrl_send_wacks (Suc n) st c =
     (if wack_queue c = [] then Inr (c, [])
      else ebind (ctrl_send_wack st c) (\<lambda>(c1, os).
             ebind (ctrl_send_wacks n st c1) (\<lambda>(c2, os'). Inr (c2, os @ os'))))"

definition ctrl_bw_resume :: "store \<Rightarrow> ctrl \<Rightarrow> sim_error + (ctrl \<times> call list \<times> delay)" where
  "ctrl_bw_resume st c =
     (let both = ns32 (c_ctrl_latency c + c_link_latency c)
      in case c_bw_pc c of
           Cbw_top \<Rightarrow>
             (if rack_queue c = [] \<and> wack_queue c = [] then Inr (c, [], Delay_period)
              else if wack_queue c = [] then Inr (c\<lparr>c_bw_pc := Cbw_drs_start\<rparr>, [], both)
              else if rack_queue c = [] then Inr (c\<lparr>c_bw_pc := Cbw_ndr_start\<rparr>, [], both)
              else Inr (c\<lparr>c_bw_pc := Cbw_mix_start\<rparr>, [], both))
         | Cbw_drs_start \<Rightarrow> Inr (ctrl_drs_turn 0 c, [], Delay_period)
         | Cbw_drs_flit i \<Rightarrow>
             ebind (ctrl_send_rack st c) (\<lambda>(c1, os). Inr (ctrl_drs_turn (Suc i) c1, os, Delay_period))
         | Cbw_ndr_start \<Rightarrow> Inr (ctrl_ndr_turn 0 c, [], Delay_period)
         | Cbw_ndr_flit i \<Rightarrow>
             ebind (ctrl_send_wack st c) (\<lambda>(c1, os). Inr (ctrl_ndr_turn (Suc i) c1, os, Delay_period))
         | Cbw_mix_start \<Rightarrow>
             ebind (ctrl_send_wacks 2 st c) (\<lambda>(c1, os). Inr (c1\<lparr>c_bw_pc := Cbw_mix_flit\<rparr>, os, Delay_period))
         | Cbw_mix_flit \<Rightarrow>
             ebind (ctrl_send_rack st c) (\<lambda>(c1, os). Inr (c1\<lparr>c_bw_pc := Cbw_top\<rparr>, os, Delay_period)))"

end
