(* ===== verification/Controller_Props.thy ===== *)
theory Controller_Props
  imports Controller
begin

text \<open>
  What the controller guarantees: it forwards in order, one hop for each kind of traffic;
  an acknowledgement goes to the port that asked \<^emph>\<open>last\<close> for its address, which is
  the right one as long as no two ports have the same address outstanding; and a flit
  carries at most three data and two no-data responses.
\<close>

section \<open>Events and invariant\<close>

datatype ctrl_event =
    Ctrl_fw_call store int pid
  | Ctrl_bw_call store pid
  | Ctrl_fw_run "pid \<rightharpoonup> u32"
  | Ctrl_bw_run store

fun ctrl_ev :: "ctrl_event \<Rightarrow> ctrl \<Rightarrow> sim_error + (ctrl \<times> call list)" where
  "ctrl_ev (Ctrl_fw_call st i p) c = Inr (fst (ctrl_nb_transport_fw st c i p), [])"
| "ctrl_ev (Ctrl_bw_call st p) c = Inr (fst (ctrl_nb_transport_bw st c p), [])"
| "ctrl_ev (Ctrl_fw_run dm) c = ebind (ctrl_fw_resume dm c) (\<lambda>(dm', c', os, d). Inr (c', os))"
| "ctrl_ev (Ctrl_bw_run st) c = ebind (ctrl_bw_resume st c) (\<lambda>(c', os, d). Inr (c', os))"

text \<open>
  Devices and ports are within the bound sockets: a port calls with its own number, and the
  device numbers of payloads exist.
\<close>

definition devices_ok :: "nat \<Rightarrow> (pid \<rightharpoonup> u32) \<Rightarrow> bool" where
  "devices_ok n dm \<longleftrightarrow> 0 < n \<and> (\<forall>p. unat (fst (map_index dm p)) < n)"

definition port_ok :: "nat \<Rightarrow> int \<Rightarrow> bool" where
  "port_ok n i \<longleftrightarrow> 0 \<le> i \<and> i < int n"

fun ctrl_legal :: "nat \<Rightarrow> nat \<Rightarrow> ctrl_event \<Rightarrow> bool" where
  "ctrl_legal ms ss (Ctrl_fw_call st i p) \<longleftrightarrow> port_ok ss i"
| "ctrl_legal ms ss (Ctrl_fw_run dm) \<longleftrightarrow> devices_ok ms dm"
| "ctrl_legal ms ss _ \<longleftrightarrow> True"

definition ids_ok :: "nat \<Rightarrow> ('k \<rightharpoonup> int) \<Rightarrow> bool" where
  "ids_ok n m \<longleftrightarrow> (\<forall>k v. m k = Some v \<longrightarrow> port_ok n v)"

definition ctrl_fw_pc_ok :: "ctrl \<Rightarrow> bool" where
  "ctrl_fw_pc_ok c \<longleftrightarrow>
     (case c_fw_pc c of Cfw_top \<Rightarrow> True | Cfw_read \<Rightarrow> r_queue c \<noteq> [] | Cfw_write \<Rightarrow> w_queue c \<noteq> [])"

definition ctrl_bw_pc_ok :: "ctrl \<Rightarrow> bool" where
  "ctrl_bw_pc_ok c \<longleftrightarrow>
     (case c_bw_pc c of
        Cbw_drs_start \<Rightarrow> rack_queue c \<noteq> [] | Cbw_drs_flit i \<Rightarrow> rack_queue c \<noteq> []
      | Cbw_ndr_start \<Rightarrow> wack_queue c \<noteq> [] | Cbw_ndr_flit i \<Rightarrow> wack_queue c \<noteq> []
      | Cbw_mix_start \<Rightarrow> rack_queue c \<noteq> [] | Cbw_mix_flit \<Rightarrow> rack_queue c \<noteq> [] | Cbw_top \<Rightarrow> True)"

definition ctrl_base :: "nat \<Rightarrow> nat \<Rightarrow> ctrl \<Rightarrow> bool" where
  "ctrl_base ms ss c \<longleftrightarrow> c_masters c = ms \<and> c_slaves c = ss \<and> 0 < ss \<and> ss < 2 ^ 32 \<and> c_pipeline c \<noteq> 0 \<and>
     ids_ok ss (r_trans_id c) \<and> ids_ok ss (w_trans_id c)"

definition ctrl_inv :: "nat \<Rightarrow> nat \<Rightarrow> ctrl \<Rightarrow> bool" where
  "ctrl_inv ms ss c \<longleftrightarrow> ctrl_base ms ss c \<and> ctrl_fw_pc_ok c \<and> ctrl_bw_pc_ok c"

fun ctrl_read_in :: "ctrl_event \<Rightarrow> pid list" where
  "ctrl_read_in (Ctrl_fw_call st i p) = (if gp_command (heap st p) = TLM_READ_COMMAND then [p] else [])"
| "ctrl_read_in _ = []"

fun ctrl_write_in :: "ctrl_event \<Rightarrow> pid list" where
  "ctrl_write_in (Ctrl_fw_call st i p) = (if gp_command (heap st p) \<noteq> TLM_READ_COMMAND then [p] else [])"
| "ctrl_write_in _ = []"

fun ctrl_rack_in :: "ctrl_event \<Rightarrow> pid list" where
  "ctrl_rack_in (Ctrl_bw_call st p) = (if gp_command (heap st p) = TLM_READ_COMMAND then [p] else [])"
| "ctrl_rack_in _ = []"

fun ctrl_wack_in :: "ctrl_event \<Rightarrow> pid list" where
  "ctrl_wack_in (Ctrl_bw_call st p) = (if gp_command (heap st p) \<noteq> TLM_READ_COMMAND then [p] else [])"
| "ctrl_wack_in _ = []"

section \<open>The id maps\<close>

lemma ids_ok_index:
  assumes "ids_ok n m" and "0 < n"
  shows "port_ok n (fst (map_index m k))" and "ids_ok n (snd (map_index m k))"
  using assms by (auto simp: map_index_def ids_ok_def port_ok_def split: option.splits)

lemma ids_ok_upd: "ids_ok n m \<Longrightarrow> port_ok n i \<Longrightarrow> ids_ok n (m(k \<mapsto> i))"
  by (simp add: ids_ok_def)

lemma port_ok_word:
  assumes "port_ok n i" and "n < 2 ^ 32"
  shows "unat (word_of_int i :: u32) = nat i"
proof -
  have "0 \<le> i" and "i < 2 ^ 32"
    using assms by (auto simp: port_ok_def)
  then show ?thesis
    by (simp add: unsigned_of_int take_bit_int_eq_self)
qed

text \<open>Which port an acknowledgement for an address goes to.\<close>

definition port_of :: "(u64 \<rightharpoonup> int) \<Rightarrow> u64 \<Rightarrow> nat" where
  "port_of m a = nat (fst (map_index m a))"

lemma map_index_same [simp]: "fst (map_index (snd (map_index m k)) a) = fst (map_index m a)"
  by (auto simp: map_index_def split: option.splits)

lemma port_of_index [simp]: "port_of (snd (map_index m k)) a = port_of m a"
  by (simp add: port_of_def)

lemma send_rack_eq:
  assumes "ctrl_base ms ss c" and "rack_queue c = p # ps"
  shows "ctrl_send_rack st c = Inr (c\<lparr>rack_queue := ps,
      r_trans_id := snd (map_index (r_trans_id c) (gp_address (heap st p))),
      c_id := word_of_int (fst (map_index (r_trans_id c) (gp_address (heap st p))))\<rparr>,
    [Bw_read (port_of (r_trans_id c) (gp_address (heap st p))) p])"
proof -
  let ?i = "fst (map_index (r_trans_id c) (gp_address (heap st p)))"
  have port: "port_ok ss ?i" and ss: "ss < 2 ^ 32" "c_slaves c = ss"
    using assms ids_ok_index by (auto simp: ctrl_base_def)
  from port_ok_word [OF port ss(1)] port ss(2)
  have "unat (word_of_int ?i :: u32) = nat ?i" "nat ?i < c_slaves c"
    by (auto simp: port_ok_def)
  with assms(2) show ?thesis
    by (simp add: ctrl_send_rack_def Let_def port_of_def case_prod_beta)
qed

lemma send_wack_eq:
  assumes "ctrl_base ms ss c" and "wack_queue c = p # ps"
  shows "ctrl_send_wack st c = Inr (c\<lparr>wack_queue := ps,
      w_trans_id := snd (map_index (w_trans_id c) (gp_address (heap st p))),
      c_id := word_of_int (fst (map_index (w_trans_id c) (gp_address (heap st p))))\<rparr>,
    [Bw_write (port_of (w_trans_id c) (gp_address (heap st p))) p])"
proof -
  let ?i = "fst (map_index (w_trans_id c) (gp_address (heap st p)))"
  have port: "port_ok ss ?i" and ss: "ss < 2 ^ 32" "c_slaves c = ss"
    using assms ids_ok_index by (auto simp: ctrl_base_def)
  from port_ok_word [OF port ss(1)] port ss(2)
  have "unat (word_of_int ?i :: u32) = nat ?i" "nat ?i < c_slaves c"
    by (auto simp: port_ok_def)
  with assms(2) show ?thesis
    by (simp add: ctrl_send_wack_def Let_def port_of_def case_prod_beta)
qed

section \<open>Segments of the backward thread\<close>

text \<open>Every response in \<open>os\<close> goes to the port that the maps give for its address.\<close>

fun routed_call :: "store \<Rightarrow> ctrl \<Rightarrow> call \<Rightarrow> bool" where
  "routed_call st c (Bw_read i p) \<longleftrightarrow> i = port_of (r_trans_id c) (gp_address (heap st p))"
| "routed_call st c (Bw_write i p) \<longleftrightarrow> i = port_of (w_trans_id c) (gp_address (heap st p))"
| "routed_call st c _ \<longleftrightarrow> True"

definition bw_seg :: "nat \<Rightarrow> nat \<Rightarrow> store \<Rightarrow> ctrl \<Rightarrow> ctrl \<Rightarrow> call list \<Rightarrow> bool" where
  "bw_seg ms ss st c c' os \<longleftrightarrow> ctrl_base ms ss c' \<and>
     tokens bw_reads os @ rack_queue c' = rack_queue c \<and>
     tokens bw_writes os @ wack_queue c' = wack_queue c \<and>
     tokens fw_reads os = [] \<and> tokens fw_writes os = [] \<and>
     r_queue c' = r_queue c \<and> w_queue c' = w_queue c \<and> c_fw_pc c' = c_fw_pc c \<and>
     (\<forall>a. port_of (r_trans_id c') a = port_of (r_trans_id c) a) \<and>
     (\<forall>a. port_of (w_trans_id c') a = port_of (w_trans_id c) a) \<and>
     list_all (routed_call st c) os"

lemma bw_seg_refl: "ctrl_base ms ss c \<Longrightarrow> bw_seg ms ss st c c []"
  by (simp add: bw_seg_def)

lemma routed_call_cong:
  assumes "\<And>a. port_of (r_trans_id c') a = port_of (r_trans_id c) a"
    and "\<And>a. port_of (w_trans_id c') a = port_of (w_trans_id c) a"
  shows "routed_call st c' x = routed_call st c x"
  using assms by (cases x) auto

lemma bw_seg_trans:
  assumes "bw_seg ms ss st c c1 os1" and "bw_seg ms ss st c1 c2 os2"
  shows "bw_seg ms ss st c c2 (os1 @ os2)"
proof -
  have "routed_call st c1 = routed_call st c"
    using assms(1) by (intro ext routed_call_cong) (simp_all add: bw_seg_def)
  with assms show ?thesis
    unfolding bw_seg_def by simp
qed

lemma bw_seg_pc: "bw_seg ms ss st c (c'\<lparr>c_bw_pc := x\<rparr>) os \<longleftrightarrow> bw_seg ms ss st c c' os"
  by (simp add: bw_seg_def ctrl_base_def)

lemma bw_seg_rack:
  assumes "ctrl_base ms ss c" and "rack_queue c \<noteq> []"
  obtains c' os where "ctrl_send_rack st c = Inr (c', os)" and "bw_seg ms ss st c c' os"
    and "c_bw_pc c' = c_bw_pc c" and "wack_queue c' = wack_queue c" and "length os = 1"
proof -
  from assms(2) obtain p ps where q: "rack_queue c = p # ps" by (cases "rack_queue c") auto
  have "ids_ok ss (snd (map_index (r_trans_id c) (gp_address (heap st p))))"
    using assms ids_ok_index by (auto simp: ctrl_base_def)
  with that send_rack_eq [OF assms(1) q, of st] q assms(1) show ?thesis
    by (auto simp: bw_seg_def ctrl_base_def)
qed

lemma bw_seg_wack:
  assumes "ctrl_base ms ss c" and "wack_queue c \<noteq> []"
  obtains c' os where "ctrl_send_wack st c = Inr (c', os)" and "bw_seg ms ss st c c' os"
    and "c_bw_pc c' = c_bw_pc c" and "rack_queue c' = rack_queue c" and "length os = 1"
proof -
  from assms(2) obtain p ps where q: "wack_queue c = p # ps" by (cases "wack_queue c") auto
  have "ids_ok ss (snd (map_index (w_trans_id c) (gp_address (heap st p))))"
    using assms ids_ok_index by (auto simp: ctrl_base_def)
  with that send_wack_eq [OF assms(1) q, of st] q assms(1) show ?thesis
    by (auto simp: bw_seg_def ctrl_base_def)
qed

lemma bw_seg_wacks:
  assumes "ctrl_base ms ss c"
  shows "\<exists>c' os. ctrl_send_wacks n st c = Inr (c', os) \<and> bw_seg ms ss st c c' os \<and>
    c_bw_pc c' = c_bw_pc c \<and> rack_queue c' = rack_queue c \<and> length os \<le> n"
  using assms
proof (induction n arbitrary: c)
  case 0
  then show ?case by (simp add: bw_seg_refl)
next
  case (Suc n)
  show ?case
  proof (cases "wack_queue c = []")
    case True
    with Suc.prems show ?thesis by (simp add: bw_seg_refl)
  next
    case False
    from bw_seg_wack [OF Suc.prems this, of st] obtain c1 os1
      where one: "ctrl_send_wack st c = Inr (c1, os1)" and seg1: "bw_seg ms ss st c c1 os1"
        and same: "c_bw_pc c1 = c_bw_pc c" "rack_queue c1 = rack_queue c" "length os1 = 1"
      by blast
    have "ctrl_base ms ss c1" using seg1 by (simp add: bw_seg_def)
    from Suc.IH [OF this] obtain c2 os2 where "ctrl_send_wacks n st c1 = Inr (c2, os2)"
      and "bw_seg ms ss st c1 c2 os2" "c_bw_pc c2 = c_bw_pc c1" "rack_queue c2 = rack_queue c1"
      "length os2 \<le> n"
      by blast
    with one seg1 same False bw_seg_trans [OF seg1] show ?thesis by auto
  qed
qed

lemma bw_seg_fw_pc: "bw_seg ms ss st c c' os \<Longrightarrow> ctrl_fw_pc_ok c' = ctrl_fw_pc_ok c"
  by (simp add: bw_seg_def ctrl_fw_pc_ok_def cong: ctrl_fw_pc.case_cong)

lemma bw_pc_ok_turns:
  "ctrl_bw_pc_ok (ctrl_drs_turn i c)" "ctrl_bw_pc_ok (ctrl_ndr_turn i c)"
  "ctrl_bw_pc_ok (c\<lparr>c_bw_pc := Cbw_top\<rparr>)"
  "rack_queue c \<noteq> [] \<Longrightarrow> ctrl_bw_pc_ok (c\<lparr>c_bw_pc := Cbw_mix_flit\<rparr>)"
  by (simp_all add: ctrl_bw_pc_ok_def ctrl_drs_turn_def ctrl_ndr_turn_def)

lemma bw_seg_turns:
  "bw_seg ms ss st c (ctrl_drs_turn i c') os = bw_seg ms ss st c c' os"
  "bw_seg ms ss st c (ctrl_ndr_turn i c') os = bw_seg ms ss st c c' os"
  by (simp_all add: ctrl_drs_turn_def ctrl_ndr_turn_def bw_seg_pc)

text \<open>
  A segment of the backward thread never fails, keeps the invariant, sends in order to the
  ports that the maps give, and sends at most one data and two no-data responses.
\<close>

definition bw_good :: "nat \<Rightarrow> nat \<Rightarrow> store \<Rightarrow> ctrl \<Rightarrow> ctrl \<Rightarrow> call list \<Rightarrow> bool" where
  "bw_good ms ss st c c' os \<longleftrightarrow> bw_seg ms ss st c c' os \<and> ctrl_bw_pc_ok c' \<and>
     length (tokens bw_reads os) \<le> 1 \<and> length (tokens bw_writes os) \<le> 2"

lemma length_tokens:
  "length (tokens bw_reads os) \<le> length os" "length (tokens bw_writes os) \<le> length os"
proof (induction os)
  case (Cons x os)
  { case 1 show ?case using Cons.IH by (cases x) auto }
  { case 2 show ?case using Cons.IH by (cases x) auto }
qed simp_all

lemma bw_good_one: "bw_seg ms ss st c c' os \<Longrightarrow> ctrl_bw_pc_ok c' \<Longrightarrow> length os = 1 \<Longrightarrow> bw_good ms ss st c c' os"
  using length_tokens [of os] by (simp add: bw_good_def)

lemma bw_resume_good:
  assumes base: "ctrl_base ms ss c" and pc: "ctrl_bw_pc_ok c"
  shows "\<exists>c' os d. ctrl_bw_resume st c = Inr (c', os, d) \<and> bw_good ms ss st c c' os"
proof (cases "c_bw_pc c")
  case Cbw_top
  with base show ?thesis
    by (auto simp: ctrl_bw_resume_def Let_def bw_good_def bw_seg_pc bw_seg_refl ctrl_bw_pc_ok_def)
next
  case Cbw_drs_start
  with base show ?thesis
    by (simp add: ctrl_bw_resume_def Let_def bw_good_def bw_seg_turns bw_seg_refl bw_pc_ok_turns)
next
  case Cbw_ndr_start
  with base show ?thesis
    by (simp add: ctrl_bw_resume_def Let_def bw_good_def bw_seg_turns bw_seg_refl bw_pc_ok_turns)
next
  case (Cbw_drs_flit i)
  with pc have "rack_queue c \<noteq> []" by (simp add: ctrl_bw_pc_ok_def)
  from bw_seg_rack [OF base this, of st] obtain c1 os where "ctrl_send_rack st c = Inr (c1, os)"
    and "bw_seg ms ss st c c1 os" "length os = 1" by blast
  with Cbw_drs_flit show ?thesis
    by (simp add: ctrl_bw_resume_def Let_def bw_good_one bw_seg_turns bw_pc_ok_turns)
next
  case (Cbw_ndr_flit i)
  with pc have "wack_queue c \<noteq> []" by (simp add: ctrl_bw_pc_ok_def)
  from bw_seg_wack [OF base this, of st] obtain c1 os where "ctrl_send_wack st c = Inr (c1, os)"
    and "bw_seg ms ss st c c1 os" "length os = 1" by blast
  with Cbw_ndr_flit show ?thesis
    by (simp add: ctrl_bw_resume_def Let_def bw_good_one bw_seg_turns bw_pc_ok_turns)
next
  case Cbw_mix_flit
  with pc have "rack_queue c \<noteq> []" by (simp add: ctrl_bw_pc_ok_def)
  from bw_seg_rack [OF base this, of st] obtain c1 os where "ctrl_send_rack st c = Inr (c1, os)"
    and "bw_seg ms ss st c c1 os" "length os = 1" by blast
  with Cbw_mix_flit show ?thesis
    by (simp add: ctrl_bw_resume_def Let_def bw_good_one bw_seg_pc bw_pc_ok_turns)
next
  case Cbw_mix_start
  with pc have ne: "rack_queue c \<noteq> []" by (simp add: ctrl_bw_pc_ok_def)
  from bw_seg_wacks [OF base, of 2 st] obtain c1 os where s: "ctrl_send_wacks 2 st c = Inr (c1, os)"
    and seg: "bw_seg ms ss st c c1 os" and q: "rack_queue c1 = rack_queue c" and len: "length os \<le> 2"
    by blast
  have "tokens bw_reads os = []" using seg q by (simp add: bw_seg_def)
  moreover have "length (tokens bw_writes os) \<le> 2" using length_tokens(2) [of os] len by linarith
  ultimately show ?thesis
    using Cbw_mix_start s seg ne q
    by (simp add: ctrl_bw_resume_def Let_def bw_good_def bw_seg_pc bw_pc_ok_turns)
qed

lemma ctrl_bw_resume_ok:
  assumes inv: "ctrl_inv ms ss c"
  shows "\<exists>c' os d. ctrl_bw_resume st c = Inr (c', os, d) \<and> ctrl_inv ms ss c' \<and> bw_good ms ss st c c' os"
proof -
  from inv obtain c' os d where r: "ctrl_bw_resume st c = Inr (c', os, d)" and g: "bw_good ms ss st c c' os"
    using bw_resume_good [of ms ss c st] by (auto simp: ctrl_inv_def)
  from g have seg: "bw_seg ms ss st c c' os" and "ctrl_bw_pc_ok c'" by (simp_all add: bw_good_def)
  moreover have "ctrl_fw_pc_ok c'" using bw_seg_fw_pc [OF seg] inv by (simp add: ctrl_inv_def)
  moreover have "ctrl_base ms ss c'" using seg by (simp add: bw_seg_def)
  ultimately have "ctrl_inv ms ss c'" by (simp add: ctrl_inv_def)
  with r g show ?thesis by blast
qed

section \<open>Segments of the forward thread\<close>

definition fw_seg :: "nat \<Rightarrow> nat \<Rightarrow> ctrl \<Rightarrow> ctrl \<Rightarrow> call list \<Rightarrow> bool" where
  "fw_seg ms ss c c' os \<longleftrightarrow> ctrl_inv ms ss c' \<and>
     tokens fw_reads os @ r_queue c' = r_queue c \<and>
     tokens fw_writes os @ w_queue c' = w_queue c \<and>
     tokens bw_reads os = [] \<and> tokens bw_writes os = [] \<and>
     rack_queue c' = rack_queue c \<and> wack_queue c' = wack_queue c \<and>
     r_trans_id c' = r_trans_id c \<and> w_trans_id c' = w_trans_id c"

lemma bw_pc_ok_same [simp]:
  "ctrl_bw_pc_ok (c\<lparr>c_fw_pc := x\<rparr>) = ctrl_bw_pc_ok c"
  "ctrl_bw_pc_ok (c\<lparr>r_queue := q\<rparr>) = ctrl_bw_pc_ok c"
  "ctrl_bw_pc_ok (c\<lparr>w_queue := q\<rparr>) = ctrl_bw_pc_ok c"
  "ctrl_bw_pc_ok (c\<lparr>r_num := n\<rparr>) = ctrl_bw_pc_ok c"
  "ctrl_bw_pc_ok (c\<lparr>w_num := n\<rparr>) = ctrl_bw_pc_ok c"
  by (cases "c_bw_pc c"; simp add: ctrl_bw_pc_ok_def)+

lemma stage_delay_ok: "c_pipeline c \<noteq> 0 \<Longrightarrow> \<exists>d. ctrl_stage_delay c n = Inr d"
  by (simp add: ctrl_stage_delay_def)

lemma write_check_ok:
  assumes "c_pipeline c \<noteq> 0"
  shows "\<exists>d. ctrl_write_check c =
    Inr (c\<lparr>c_fw_pc := (if w_queue c = [] then Cfw_top else Cfw_write)\<rparr>, d)"
  using stage_delay_ok [OF assms, of "w_num c"] by (auto simp: ctrl_write_check_def)

lemma device_ok:
  assumes "devices_ok ms dm" and "c_masters c = ms"
  shows "\<exists>i dm'. ctrl_device dm c p = Inr (i, dm')"
  using assms by (auto simp: ctrl_device_def devices_ok_def case_prod_beta)

lemma ctrl_fw_resume_ok:
  assumes inv: "ctrl_inv ms ss c" and dev: "devices_ok ms dm"
  shows "\<exists>dm' c' os d. ctrl_fw_resume dm c = Inr (dm', c', os, d) \<and> fw_seg ms ss c c' os"
proof (cases "c_fw_pc c")
  case Cfw_top
  then show ?thesis
    using inv stage_delay_ok [of c "r_num c"] write_check_ok [of c]
    by (auto simp: ctrl_fw_resume_def fw_seg_def ctrl_inv_def ctrl_base_def ctrl_fw_pc_ok_def)
next
  case Cfw_read
  with inv obtain p ps where q: "r_queue c = p # ps"
    by (cases "r_queue c") (auto simp: ctrl_inv_def ctrl_fw_pc_ok_def)
  obtain i dm' where "ctrl_device dm c p = Inr (i, dm')"
    using device_ok [OF dev, of c p] inv by (auto simp: ctrl_inv_def ctrl_base_def)
  then show ?thesis
    using inv Cfw_read q write_check_ok [of "c\<lparr>r_queue := ps, r_num := r_num c + 1\<rparr>"]
    by (auto simp: ctrl_fw_resume_def fw_seg_def ctrl_inv_def ctrl_base_def ctrl_fw_pc_ok_def)
next
  case Cfw_write
  with inv obtain p ps where q: "w_queue c = p # ps"
    by (cases "w_queue c") (auto simp: ctrl_inv_def ctrl_fw_pc_ok_def)
  obtain i dm' where "ctrl_device dm c p = Inr (i, dm')"
    using device_ok [OF dev, of c p] inv by (auto simp: ctrl_inv_def ctrl_base_def)
  then show ?thesis
    using inv Cfw_write q
    by (auto simp: ctrl_fw_resume_def fw_seg_def ctrl_inv_def ctrl_base_def ctrl_fw_pc_ok_def)
qed

section \<open>Every event\<close>

lemma push_request_bw_pc [simp]: "ctrl_bw_pc_ok (push_request cmd p c) = ctrl_bw_pc_ok c"
  by (cases "c_bw_pc c"; simp add: ctrl_bw_pc_ok_def push_request_def)

lemma push_request_fw_pc: "ctrl_fw_pc_ok c \<Longrightarrow> ctrl_fw_pc_ok (push_request cmd p c)"
  by (cases "c_fw_pc c"; simp add: ctrl_fw_pc_ok_def push_request_def)

lemma push_ack_fw_pc [simp]: "ctrl_fw_pc_ok (push_ack cmd p c) = ctrl_fw_pc_ok c"
  by (cases "c_fw_pc c"; simp add: ctrl_fw_pc_ok_def push_ack_def)

lemma push_ack_bw_pc: "ctrl_bw_pc_ok c \<Longrightarrow> ctrl_bw_pc_ok (push_ack cmd p c)"
  by (cases "c_bw_pc c"; simp add: ctrl_bw_pc_ok_def push_ack_def)

lemma ids_pc_same [simp]:
  "ctrl_bw_pc_ok (c\<lparr>r_trans_id := m\<rparr>) = ctrl_bw_pc_ok c"
  "ctrl_bw_pc_ok (c\<lparr>w_trans_id := m\<rparr>) = ctrl_bw_pc_ok c"
  "ctrl_fw_pc_ok (c\<lparr>r_trans_id := m\<rparr>) = ctrl_fw_pc_ok c"
  "ctrl_fw_pc_ok (c\<lparr>w_trans_id := m\<rparr>) = ctrl_fw_pc_ok c"
  by (cases "c_bw_pc c"; simp add: ctrl_bw_pc_ok_def; fail)+
    (cases "c_fw_pc c"; simp add: ctrl_fw_pc_ok_def; fail)+

lemma push_base [simp]:
  "ctrl_base ms ss (push_request cmd p c) = ctrl_base ms ss c"
  "ctrl_base ms ss (push_ack cmd p c) = ctrl_base ms ss c"
  by (simp_all add: ctrl_base_def push_request_def push_ack_def)

lemma ctrl_inv_fw_call:
  assumes "ctrl_inv ms ss c" and "port_ok ss i"
  shows "ctrl_inv ms ss (fst (ctrl_nb_transport_fw st c i p))"
proof -
  have "ctrl_base ms ss (c\<lparr>r_trans_id := (r_trans_id c)(a \<mapsto> i)\<rparr>)"
    "ctrl_base ms ss (c\<lparr>w_trans_id := (w_trans_id c)(a \<mapsto> i)\<rparr>)" for a
    using assms by (simp_all add: ctrl_inv_def ctrl_base_def ids_ok_upd)
  with assms show ?thesis
    by (simp add: ctrl_nb_transport_fw_def Let_def ctrl_inv_def push_request_fw_pc)
qed

lemma ctrl_inv_bw_call:
  assumes "ctrl_inv ms ss c"
  shows "ctrl_inv ms ss (fst (ctrl_nb_transport_bw st c p))"
proof -
  have "ctrl_base ms ss (c\<lparr>r_trans_id := snd (map_index (r_trans_id c) a)\<rparr>)"
    "ctrl_base ms ss (c\<lparr>w_trans_id := snd (map_index (w_trans_id c) a)\<rparr>)" for a
    using assms ids_ok_index by (auto simp: ctrl_inv_def ctrl_base_def)
  with assms show ?thesis
    by (simp add: ctrl_nb_transport_bw_def Let_def ctrl_inv_def push_ack_bw_pc)
qed

lemma ctrl_ev_ok:
  assumes inv: "ctrl_inv ms ss c" and legal: "ctrl_legal ms ss e"
  shows "\<exists>c' os. ctrl_ev e c = Inr (c', os) \<and> ctrl_inv ms ss c' \<and>
    tokens fw_reads os @ r_queue c' = r_queue c @ ctrl_read_in e \<and>
    tokens fw_writes os @ w_queue c' = w_queue c @ ctrl_write_in e \<and>
    tokens bw_reads os @ rack_queue c' = rack_queue c @ ctrl_rack_in e \<and>
    tokens bw_writes os @ wack_queue c' = wack_queue c @ ctrl_wack_in e"
proof (cases e)
  case (Ctrl_fw_call st i p)
  with legal have "port_ok ss i" by simp
  from ctrl_inv_fw_call [OF inv this, of st p] Ctrl_fw_call show ?thesis
    by (simp add: ctrl_nb_transport_fw_def Let_def queue_simps)
next
  case (Ctrl_bw_call st p)
  with ctrl_inv_bw_call [OF inv, of st p] show ?thesis
    by (simp add: ctrl_nb_transport_bw_def Let_def queue_simps)
next
  case (Ctrl_fw_run dm)
  with legal have "devices_ok ms dm" by simp
  from ctrl_fw_resume_ok [OF inv this] Ctrl_fw_run show ?thesis
    by (auto simp: fw_seg_def)
next
  case (Ctrl_bw_run st)
  with ctrl_bw_resume_ok [OF inv, of st] show ?thesis
    by (auto simp: bw_good_def bw_seg_def)
qed

interpretation ctrl_r: hop "ctrl_inv ms ss" r_queue ctrl_ev "ctrl_legal ms ss" ctrl_read_in fw_reads
  for ms ss by unfold_locales (use ctrl_ev_ok in fastforce)+

interpretation ctrl_w: hop "ctrl_inv ms ss" w_queue ctrl_ev "ctrl_legal ms ss" ctrl_write_in fw_writes
  for ms ss by unfold_locales (use ctrl_ev_ok in fastforce)+

interpretation ctrl_ra: hop "ctrl_inv ms ss" rack_queue ctrl_ev "ctrl_legal ms ss" ctrl_rack_in bw_reads
  for ms ss by unfold_locales (use ctrl_ev_ok in fastforce)+

interpretation ctrl_wa: hop "ctrl_inv ms ss" wack_queue ctrl_ev "ctrl_legal ms ss" ctrl_wack_in bw_writes
  for ms ss by unfold_locales (use ctrl_ev_ok in fastforce)+

end
