(* ===== verification/Controller_Routing.thy ===== *)
theory Controller_Routing
  imports Controller_Props
begin

text \<open>
  Where the controller sends a response, in terms of the calls it has received: to the
  port that asked last for the address of the payload. Also how soon its two threads
  empty the queues.
\<close>

section \<open>The last port that asked for an address\<close>

fun asks_read :: "u64 \<Rightarrow> ctrl_event \<Rightarrow> nat option" where
  "asks_read a (Ctrl_fw_call st i p) =
     (if gp_command (heap st p) = TLM_READ_COMMAND \<and> gp_address (heap st p) = a then Some (nat i) else None)"
| "asks_read a _ = None"

fun asks_write :: "u64 \<Rightarrow> ctrl_event \<Rightarrow> nat option" where
  "asks_write a (Ctrl_fw_call st i p) =
     (if gp_command (heap st p) \<noteq> TLM_READ_COMMAND \<and> gp_address (heap st p) = a then Some (nat i) else None)"
| "asks_write a _ = None"

text \<open>Port 0 when nobody asked, as \<open>map::operator[]\<close> inserts a zero.\<close>

definition last_of :: "('e \<Rightarrow> nat option) \<Rightarrow> 'e list \<Rightarrow> nat \<Rightarrow> nat" where
  "last_of f es i = foldl (\<lambda>i e. case f e of Some j \<Rightarrow> j | None \<Rightarrow> i) i es"

lemma last_of_simps [simp]:
  "last_of f [] i = i"
  "last_of f (e # es) i = last_of f es (case f e of Some j \<Rightarrow> j | None \<Rightarrow> i)"
  by (simp_all add: last_of_def)

text \<open>If all who asked were the same port, the last one is that port.\<close>

lemma last_of_unique:
  "\<forall>e \<in> set es. f e \<in> {None, Some j} \<Longrightarrow> i = j \<or> (\<exists>e \<in> set es. f e = Some j) \<Longrightarrow> last_of f es i = j"
proof (induction es arbitrary: i)
  case (Cons e es)
  then show ?case by (cases "f e") auto
qed simp

definition last_reader :: "u64 \<Rightarrow> ctrl_event list \<Rightarrow> nat" where
  "last_reader a es = last_of (asks_read a) es 0"

definition last_writer :: "u64 \<Rightarrow> ctrl_event list \<Rightarrow> nat" where
  "last_writer a es = last_of (asks_write a) es 0"

lemma port_of_upd: "port_of (m(k \<mapsto> i)) a = (if a = k then nat i else port_of m a)"
  by (auto simp: port_of_def map_index_def split: option.splits)

lemma trans_id_step:
  assumes inv: "ctrl_inv ms ss c" and legal: "ctrl_legal ms ss e" and step: "ctrl_ev e c = Inr (c', os)"
  shows "port_of (r_trans_id c') a = (case asks_read a e of Some j \<Rightarrow> j | None \<Rightarrow> port_of (r_trans_id c) a)"
    and "port_of (w_trans_id c') a = (case asks_write a e of Some j \<Rightarrow> j | None \<Rightarrow> port_of (w_trans_id c) a)"
proof -
  have "port_of (r_trans_id c') a = (case asks_read a e of Some j \<Rightarrow> j | None \<Rightarrow> port_of (r_trans_id c) a) \<and>
    port_of (w_trans_id c') a = (case asks_write a e of Some j \<Rightarrow> j | None \<Rightarrow> port_of (w_trans_id c) a)"
  proof (cases e)
    case (Ctrl_fw_call st i p)
    with step show ?thesis
      by (auto simp: ctrl_nb_transport_fw_def Let_def push_request_def port_of_upd)
  next
    case (Ctrl_bw_call st p)
    with step show ?thesis
      by (auto simp: ctrl_nb_transport_bw_def Let_def push_ack_def)
  next
    case (Ctrl_fw_run dm)
    with legal ctrl_fw_resume_ok [OF inv, of dm] step show ?thesis
      by (auto simp: fw_seg_def)
  next
    case (Ctrl_bw_run st)
    with ctrl_bw_resume_ok [OF inv, of st] step show ?thesis
      by (auto simp: bw_good_def bw_seg_def)
  qed
  then show "port_of (r_trans_id c') a = (case asks_read a e of Some j \<Rightarrow> j | None \<Rightarrow> port_of (r_trans_id c) a)"
    "port_of (w_trans_id c') a = (case asks_write a e of Some j \<Rightarrow> j | None \<Rightarrow> port_of (w_trans_id c) a)"
    by blast+
qed

lemma trans_id_run:
  assumes "ctrl_inv ms ss c" and "list_all (ctrl_legal ms ss) es" and "run_events ctrl_ev es c = Inr (c', os)"
  shows "port_of (r_trans_id c') a = last_of (asks_read a) es (port_of (r_trans_id c) a) \<and>
    port_of (w_trans_id c') a = last_of (asks_write a) es (port_of (w_trans_id c) a)"
  using assms
proof (induction es arbitrary: c os)
  case (Cons e es)
  then obtain c1 os1 os2 where one: "ctrl_ev e c = Inr (c1, os1)"
    and rest: "run_events ctrl_ev es c1 = Inr (c', os2)" and legal: "ctrl_legal ms ss e" "list_all (ctrl_legal ms ss) es"
    by auto
  have "ctrl_inv ms ss c1" using ctrl_r.ev_inv [OF Cons.prems(1) legal(1) one] .
  from Cons.IH [OF this legal(2) rest] trans_id_step [OF Cons.prems(1) legal(1) one] show ?case by simp
qed simp

lemma ctrl_inv_init:
  assumes "0 < ss" and "ss < 2 ^ 32"
  shows "ctrl_inv ms ss (ctrl_init ll cl nm ms ss)"
  using assms by (simp add: ctrl_inv_def ctrl_base_def ctrl_init_def ids_ok_def ctrl_fw_pc_ok_def ctrl_bw_pc_ok_def)

text \<open>Every response in \<open>os\<close> goes to the port that asked last for its address in \<open>es\<close>.\<close>

fun to_last_asker :: "store \<Rightarrow> ctrl_event list \<Rightarrow> call \<Rightarrow> bool" where
  "to_last_asker st es (Bw_read i p) \<longleftrightarrow> i = last_reader (gp_address (heap st p)) es"
| "to_last_asker st es (Bw_write i p) \<longleftrightarrow> i = last_writer (gp_address (heap st p)) es"
| "to_last_asker st es _ \<longleftrightarrow> True"

text \<open>
  C5. After any history \<open>es\<close> of calls and thread turns of a controller with \<open>ss\<close>
  ports, the next turn of the backward thread succeeds, sends each response to the port
  that asked last for the address of its payload in \<open>es\<close>, and sends at most one data
  and two no-data responses.
\<close>

theorem ctrl_routes_to_last_asker:
  assumes "0 < ss" and "ss < 2 ^ 32" and legal: "list_all (ctrl_legal ms ss) es"
    and run: "run_events ctrl_ev es (ctrl_init ll cl nm ms ss) = Inr (c, os0)"
  shows "\<exists>c' os d. ctrl_bw_resume st c = Inr (c', os, d) \<and> list_all (to_last_asker st es) os \<and>
    length (tokens bw_reads os) \<le> 1 \<and> length (tokens bw_writes os) \<le> 2"
proof -
  have init: "ctrl_inv ms ss (ctrl_init ll cl nm ms ss)"
    using assms ctrl_inv_init by blast
  from ctrl_bw_resume_ok [OF ctrl_r.run_inv [OF init legal run], of st] obtain c' os d
    where r: "ctrl_bw_resume st c = Inr (c', os, d)" and g: "bw_good ms ss st c c' os" by blast
  have "port_of (r_trans_id c) a = last_reader a es" "port_of (w_trans_id c) a = last_writer a es" for a
    using trans_id_run [OF init legal run, of a]
    by (simp_all add: last_reader_def last_writer_def ctrl_init_def port_of_def)
  then have "to_last_asker st es x = routed_call st c x" for x
    by (cases x) simp_all
  with r g show ?thesis
    by (auto simp: bw_good_def bw_seg_def list_all_iff)
qed

theorem ctrl_routes_witness:
  "\<exists>c' os d. ctrl_bw_resume (sample_store (\<lambda>_. sample_gp TLM_READ_COMMAND 64))
     (ctrl_init 5 5 [] 1 2) = Inr (c', os, d) \<and>
     list_all (to_last_asker (sample_store (\<lambda>_. sample_gp TLM_READ_COMMAND 64)) []) os \<and>
     length (tokens bw_reads os) \<le> 1 \<and> length (tokens bw_writes os) \<le> 2"
  by (rule ctrl_routes_to_last_asker [where ms = 1 and ss = 2]) simp_all

text \<open>
  So the response reaches the requester as long as one port only uses an address. With two
  ports it need not: two reads of address 64, one from port 0 and one from port 1.
\<close>

definition reads_of :: "u64 \<Rightarrow> store" where
  "reads_of a = sample_store (\<lambda>_. sample_gp TLM_READ_COMMAND a)"

lemma heap_reads_of [simp]: "heap (reads_of a) p = sample_gp TLM_READ_COMMAND a"
  by (simp add: reads_of_def)

definition shared_address_events :: "ctrl_event list" where
  "shared_address_events =
     [Ctrl_fw_call (reads_of 64) 0 0, Ctrl_fw_call (reads_of 64) 1 1,
      Ctrl_fw_run Map.empty, Ctrl_fw_run Map.empty, Ctrl_fw_run Map.empty, Ctrl_fw_run Map.empty,
      Ctrl_bw_call (reads_of 64) 0, Ctrl_bw_call (reads_of 64) 1,
      Ctrl_bw_run (reads_of 64), Ctrl_bw_run (reads_of 64), Ctrl_bw_run (reads_of 64), Ctrl_bw_run (reads_of 64)]"

lemmas ctrl_run_simps = ctrl_nb_transport_fw_def ctrl_nb_transport_bw_def push_request_def push_ack_def
  ctrl_fw_resume_def ctrl_write_check_def ctrl_stage_delay_def ctrl_device_def
  ctrl_bw_resume_def ctrl_drs_turn_def ctrl_ndr_turn_def ctrl_send_rack_def ctrl_send_wack_def

text \<open>
  Two ports that read the same address: port 0 asks with payload 0, then port 1 with
  payload 1. Both payloads come back, and the controller sends both of them to port 1; port
  0 gets no answer.
\<close>

theorem ctrl_shared_address_misroutes:
  "\<exists>c. run_events ctrl_ev shared_address_events (ctrl_init 5 5 [] 1 2) =
     Inr (c, [Fw_read 0 0, Fw_read 0 1, Bw_read 1 0, Bw_read 1 1])"
  by (simp add: shared_address_events_def ctrl_init_def ctrl_run_simps Let_def)

section \<open>The queues empty themselves\<close>

fun bw_weight :: "ctrl_bw_pc \<Rightarrow> nat" where
  "bw_weight Cbw_top = 3"
| "bw_weight Cbw_drs_start = 2"
| "bw_weight Cbw_ndr_start = 2"
| "bw_weight Cbw_mix_start = 2"
| "bw_weight _ = 1"

definition bw_work :: "ctrl \<Rightarrow> nat" where
  "bw_work c =
     (let n = length (rack_queue c) + length (wack_queue c) in if n = 0 then 0 else 4 * n + bw_weight (c_bw_pc c))"

fun fw_weight :: "ctrl_fw_pc \<Rightarrow> nat" where
  "fw_weight Cfw_top = 2"
| "fw_weight _ = 1"

definition fw_work :: "ctrl \<Rightarrow> nat" where
  "fw_work c =
     (let n = length (r_queue c) + length (w_queue c) in if n = 0 then 0 else 3 * n + fw_weight (c_fw_pc c))"

lemma drs_turn_fields:
  "rack_queue (ctrl_drs_turn i c) = rack_queue c" "wack_queue (ctrl_drs_turn i c) = wack_queue c"
  "bw_weight (c_bw_pc (ctrl_drs_turn i c)) \<le> 3"
  "rack_queue c \<noteq> [] \<Longrightarrow> bw_weight (c_bw_pc (ctrl_drs_turn 0 c)) = 1"
  by (simp_all add: ctrl_drs_turn_def)

lemma ndr_turn_fields:
  "rack_queue (ctrl_ndr_turn i c) = rack_queue c" "wack_queue (ctrl_ndr_turn i c) = wack_queue c"
  "bw_weight (c_bw_pc (ctrl_ndr_turn i c)) \<le> 3"
  "wack_queue c \<noteq> [] \<Longrightarrow> bw_weight (c_bw_pc (ctrl_ndr_turn 0 c)) = 1"
  by (simp_all add: ctrl_ndr_turn_def)

lemma work_arith:
  fixes n n' k w w' m :: nat
  assumes "n' + k = n" and "0 < n" and "w' < m * k + w"
  shows "(if n' = 0 then 0 else m * n' + w') \<le> (if n = 0 then 0 else m * n + w) - 1"
proof -
  have "m * n = m * n' + m * k" using assms(1) by (simp flip: distrib_left)
  with assms show ?thesis by auto
qed

lemma bw_workI:
  assumes "length (rack_queue c') + length (wack_queue c') + k = length (rack_queue c) + length (wack_queue c)"
    and "rack_queue c \<noteq> [] \<or> wack_queue c \<noteq> []"
    and "bw_weight (c_bw_pc c') < 4 * k + bw_weight (c_bw_pc c)"
  shows "bw_work c' \<le> bw_work c - 1"
proof -
  have "0 < length (rack_queue c) + length (wack_queue c)"
    using assms(2) by auto
  from work_arith [OF assms(1) this assms(3)] show ?thesis
    by (simp only: bw_work_def Let_def)
qed

lemma bw_work_less:
  assumes inv: "ctrl_inv ms ss c" and step: "ctrl_bw_resume st c = Inr (c', os, d)"
  shows "bw_work c' \<le> bw_work c - 1"
proof -
  have base: "ctrl_base ms ss c" and pc: "ctrl_bw_pc_ok c" using inv by (simp_all add: ctrl_inv_def)
  have flit: "bw_work c' \<le> bw_work c - 1" if "bw_weight (c_bw_pc c) = 1" "bw_weight (c_bw_pc c') \<le> 3"
    "length (rack_queue c') + length (wack_queue c') + 1 = length (rack_queue c) + length (wack_queue c)"
    using that by (intro bw_workI [where k = 1]) auto
  show ?thesis
  proof (cases "c_bw_pc c")
    case Cbw_top
    show ?thesis
    proof (cases "rack_queue c = [] \<and> wack_queue c = []")
      case True
      with Cbw_top step show ?thesis by (simp add: ctrl_bw_resume_def Let_def bw_work_def)
    next
      case False
      with Cbw_top step show ?thesis
        by (intro bw_workI [where k = 0]) (auto simp: ctrl_bw_resume_def Let_def split: if_splits)
    qed
  next
    case Cbw_drs_start
    with pc step show ?thesis
      by (intro bw_workI [where k = 0])
        (auto simp: ctrl_bw_resume_def Let_def ctrl_bw_pc_ok_def drs_turn_fields)
  next
    case Cbw_ndr_start
    with pc step show ?thesis
      by (intro bw_workI [where k = 0])
        (auto simp: ctrl_bw_resume_def Let_def ctrl_bw_pc_ok_def ndr_turn_fields)
  next
    case (Cbw_drs_flit i)
    with pc obtain p ps where "rack_queue c = p # ps"
      by (cases "rack_queue c") (auto simp: ctrl_bw_pc_ok_def)
    with Cbw_drs_flit step send_rack_eq [OF base this, of st] show ?thesis
      by (intro flit) (auto simp: ctrl_bw_resume_def Let_def drs_turn_fields)
  next
    case (Cbw_ndr_flit i)
    with pc obtain p ps where "wack_queue c = p # ps"
      by (cases "wack_queue c") (auto simp: ctrl_bw_pc_ok_def)
    with Cbw_ndr_flit step send_wack_eq [OF base this, of st] show ?thesis
      by (intro flit) (auto simp: ctrl_bw_resume_def Let_def ndr_turn_fields)
  next
    case Cbw_mix_flit
    with pc obtain p ps where "rack_queue c = p # ps"
      by (cases "rack_queue c") (auto simp: ctrl_bw_pc_ok_def)
    with Cbw_mix_flit step send_rack_eq [OF base this, of st] show ?thesis
      by (intro flit) (auto simp: ctrl_bw_resume_def Let_def)
  next
    case Cbw_mix_start
    obtain c1 os1 where s: "ctrl_send_wacks 2 st c = Inr (c1, os1)" and seg: "bw_seg ms ss st c c1 os1"
      and q: "rack_queue c1 = rack_queue c"
      using bw_seg_wacks [OF base, of 2 st] by blast
    have "tokens bw_writes os1 @ wack_queue c1 = wack_queue c" using seg by (simp add: bw_seg_def)
    then have "length (wack_queue c1) + length (tokens bw_writes os1) = length (wack_queue c)"
      by (metis add.commute length_append)
    with Cbw_mix_start pc step s q show ?thesis
      by (intro bw_workI [where k = "length (tokens bw_writes os1)"])
        (auto simp: ctrl_bw_resume_def Let_def ctrl_bw_pc_ok_def)
  qed
qed

lemma bw_work_done: "bw_work c = 0 \<Longrightarrow> rack_queue c = [] \<and> wack_queue c = []"
  by (cases "c_bw_pc c"; simp add: bw_work_def Let_def split: if_splits)

interpretation ctrl_ra_drain: drain "ctrl_inv ms ss" rack_queue ctrl_ev "ctrl_legal ms ss" ctrl_rack_in
  bw_reads "Ctrl_bw_run st" bw_work for ms ss st
  by unfold_locales (auto dest: bw_work_less bw_work_done)

interpretation ctrl_wa_drain: drain "ctrl_inv ms ss" wack_queue ctrl_ev "ctrl_legal ms ss" ctrl_wack_in
  bw_writes "Ctrl_bw_run st" bw_work for ms ss st
  by unfold_locales (auto dest: bw_work_less bw_work_done)

lemma bw_work_bound: "bw_work c \<le> 4 * (length (rack_queue c) + length (wack_queue c)) + 3"
  by (cases "c_bw_pc c"; simp add: bw_work_def Let_def)

text \<open>
  C28. Resumed often enough (four turns for each waiting acknowledgement and three more
  are enough), the backward thread of the controller sends every data and every
  no-data response that waits, each kind in the order in which it arrived, and empties both
  queues.
\<close>

theorem ctrl_backward_drains:
  assumes "ctrl_inv ms ss c" and "4 * (length (rack_queue c) + length (wack_queue c)) + 3 \<le> n"
  shows "\<exists>c' os. run_events ctrl_ev (replicate n (Ctrl_bw_run st)) c = Inr (c', os) \<and>
    rack_queue c' = [] \<and> wack_queue c' = [] \<and>
    tokens bw_reads os = rack_queue c \<and> tokens bw_writes os = wack_queue c"
proof -
  have "bw_work c \<le> n" using bw_work_bound [of c] assms(2) by linarith
  from ctrl_ra_drain.drained [OF assms(1) this, of st] ctrl_wa_drain.drained [OF assms(1) this, of st]
  show ?thesis by fastforce
qed

text \<open>The forward thread likewise.\<close>

lemma fw_workI:
  assumes "length (r_queue c') + length (w_queue c') + k = length (r_queue c) + length (w_queue c)"
    and "r_queue c \<noteq> [] \<or> w_queue c \<noteq> []"
    and "fw_weight (c_fw_pc c') < 3 * k + fw_weight (c_fw_pc c)"
  shows "fw_work c' \<le> fw_work c - 1"
proof -
  have "0 < length (r_queue c) + length (w_queue c)"
    using assms(2) by auto
  from work_arith [OF assms(1) this assms(3)] show ?thesis
    by (simp only: fw_work_def Let_def)
qed

lemma fw_weight_bounds: "1 \<le> fw_weight x" "fw_weight x \<le> 2"
  by (cases x; simp)+

lemma write_check_fields:
  assumes "ctrl_write_check c = Inr (c', d)"
  shows "r_queue c' = r_queue c" "w_queue c' = w_queue c"
    and "c_fw_pc c' = (if w_queue c = [] then Cfw_top else Cfw_write)"
  using assms by (auto simp: ctrl_write_check_def split: if_splits)

lemma fw_work_less:
  assumes inv: "ctrl_inv ms ss c" and step: "ctrl_fw_resume dm c = Inr (dm', c', os, d)"
  shows "fw_work c' \<le> fw_work c - 1"
proof (cases "c_fw_pc c")
  case Cfw_top
  show ?thesis
  proof (cases "r_queue c = [] \<and> w_queue c = []")
    case True
    with Cfw_top step show ?thesis
      by (auto simp: ctrl_fw_resume_def fw_work_def dest: write_check_fields)
  next
    case False
    with Cfw_top step show ?thesis
      by (intro fw_workI [where k = 0])
        (auto simp: ctrl_fw_resume_def write_check_fields split: if_splits)
  qed
next
  case Cfw_read
  with step show ?thesis
    using fw_weight_bounds(2) [of "c_fw_pc c'"]
    by (intro fw_workI [where k = 1]) (auto simp: ctrl_fw_resume_def write_check_fields)
next
  case Cfw_write
  with step show ?thesis
    by (intro fw_workI [where k = 1]) (auto simp: ctrl_fw_resume_def)
qed

lemma fw_work_done: "fw_work c = 0 \<Longrightarrow> r_queue c = [] \<and> w_queue c = []"
  by (cases "c_fw_pc c"; simp add: fw_work_def Let_def split: if_splits)

lemma fw_work_bound: "fw_work c \<le> 3 * (length (r_queue c) + length (w_queue c)) + 2"
  by (cases "c_fw_pc c"; simp add: fw_work_def Let_def)

lemma ctrl_fw_drain:
  assumes "devices_ok ms dm"
  shows "drain (ctrl_inv ms ss) r_queue ctrl_ev (ctrl_legal ms ss) ctrl_read_in fw_reads (Ctrl_fw_run dm) fw_work"
    and "drain (ctrl_inv ms ss) w_queue ctrl_ev (ctrl_legal ms ss) ctrl_write_in fw_writes (Ctrl_fw_run dm) fw_work"
  using assms by (unfold_locales; auto dest: fw_work_less fw_work_done)+

text \<open>
  C29. Resumed often enough (three turns for each waiting request and two more are
  enough), the forward thread of the controller hands every request that waits to a
  memory device, each kind in the order in which it arrived, and empties both queues.
\<close>

theorem ctrl_forward_drains:
  assumes "ctrl_inv ms ss c" and "devices_ok ms dm"
    and "3 * (length (r_queue c) + length (w_queue c)) + 2 \<le> n"
  shows "\<exists>c' os. run_events ctrl_ev (replicate n (Ctrl_fw_run dm)) c = Inr (c', os) \<and>
    r_queue c' = [] \<and> w_queue c' = [] \<and>
    tokens fw_reads os = r_queue c \<and> tokens fw_writes os = w_queue c"
proof -
  have "fw_work c \<le> n" using fw_work_bound [of c] assms(3) by linarith
  from drain.drained [OF ctrl_fw_drain(1) [OF assms(2)] assms(1) this]
    drain.drained [OF ctrl_fw_drain(2) [OF assms(2)] assms(1) this]
  show ?thesis by fastforce
qed

text \<open>A controller with one device and two ports that holds two requests and an acknowledgement.\<close>

definition busy_ctrl :: ctrl where
  "busy_ctrl = (ctrl_init 5 5 [] 1 2)\<lparr>r_queue := [0], w_queue := [1], rack_queue := [2]\<rparr>"

lemma busy_ctrl_inv: "ctrl_inv 1 2 busy_ctrl"
  by (simp add: busy_ctrl_def ctrl_inv_def ctrl_base_def ctrl_init_def ids_ok_def ctrl_fw_pc_ok_def ctrl_bw_pc_ok_def)

lemma no_devices_ok: "devices_ok 1 Map.empty"
  by (simp add: devices_ok_def)

theorem ctrl_backward_drains_witness:
  "\<exists>c' os. run_events ctrl_ev (replicate 7 (Ctrl_bw_run (reads_of 64))) busy_ctrl = Inr (c', os) \<and>
    rack_queue c' = [] \<and> wack_queue c' = [] \<and>
    tokens bw_reads os = rack_queue busy_ctrl \<and> tokens bw_writes os = wack_queue busy_ctrl"
  by (rule ctrl_backward_drains [OF busy_ctrl_inv]) (simp add: busy_ctrl_def ctrl_init_def)

theorem ctrl_forward_drains_witness:
  "\<exists>c' os. run_events ctrl_ev (replicate 8 (Ctrl_fw_run Map.empty)) busy_ctrl = Inr (c', os) \<and>
    r_queue c' = [] \<and> w_queue c' = [] \<and>
    tokens fw_reads os = r_queue busy_ctrl \<and> tokens fw_writes os = w_queue busy_ctrl"
  by (rule ctrl_forward_drains [OF busy_ctrl_inv no_devices_ok]) (simp add: busy_ctrl_def ctrl_init_def)

end
