(* ===== verification/Link.thy ===== *)
theory Link
  imports Usp_Flits Dsp Controller_Routing
begin

text \<open>
  The link of one host as \<open>Top.h\<close> binds it: the upstream port to the downstream port, and
  this one to the controller. Each call of a stage through its socket is handled by the
  neighbour at once. By the interface of the stages the bound link is again a hop: it
  neither loses nor duplicates nor reorders a payload of one kind.
\<close>

section \<open>The sockets\<close>

text \<open>
  A neighbour looks at the command of the payload. The command does not change while the
  payload is in the link, and it is what the calling stage chose its queue by, so the label
  of the call gives it; the other attributes are those of the store \<open>st\<close>.
\<close>

definition labelled :: "tlm_command \<Rightarrow> store \<Rightarrow> store" where
  "labelled cmd st = st\<lparr>heap := \<lambda>p. (heap st p)\<lparr>gp_command := cmd\<rparr>\<rparr>"

lemma labelled_command [simp]: "gp_command (heap (labelled cmd st) p) = cmd"
  by (simp add: labelled_def)

text \<open>\<open>upstream_port[i]->master.bind (downstream_port[i]->slave)\<close>, both ways.\<close>

fun usp_to_dsp :: "store \<Rightarrow> call \<Rightarrow> dsp_event list" where
  "usp_to_dsp st (Fw_read i p) = [Dsp_fw_call (labelled TLM_READ_COMMAND st) p]"
| "usp_to_dsp st (Fw_write i p) = [Dsp_fw_call (labelled TLM_WRITE_COMMAND st) p]"
| "usp_to_dsp st _ = []"

fun dsp_to_usp :: "store \<Rightarrow> call \<Rightarrow> usp_event list" where
  "dsp_to_usp st (Bw_read i p) = [Usp_bw_call (labelled TLM_READ_COMMAND st) p]"
| "dsp_to_usp st (Bw_write i p) = [Usp_bw_call (labelled TLM_WRITE_COMMAND st) p]"
| "dsp_to_usp st _ = []"

text \<open>
  \<open>downstream_port[i]->master.bind (controller->slave)\<close>, for the only host: it is port 0
  of the controller, and the index of a response can only be 0.
\<close>

fun dsp_to_ctrl :: "store \<Rightarrow> call + call \<Rightarrow> ctrl_event list" where
  "dsp_to_ctrl st (Inr (Fw_read i p)) = [Ctrl_fw_call (labelled TLM_READ_COMMAND st) 0 p]"
| "dsp_to_ctrl st (Inr (Fw_write i p)) = [Ctrl_fw_call (labelled TLM_WRITE_COMMAND st) 0 p]"
| "dsp_to_ctrl st _ = []"

fun ctrl_to_dsp :: "store \<Rightarrow> call \<Rightarrow> (usp_event + dsp_event) list" where
  "ctrl_to_dsp st (Bw_read i p) = [Inr (Dsp_bw_call (labelled TLM_READ_COMMAND st) p)]"
| "ctrl_to_dsp st (Bw_write i p) = [Inr (Dsp_bw_call (labelled TLM_WRITE_COMMAND st) p)]"
| "ctrl_to_dsp st _ = []"

abbreviation ports_ev :: "store \<Rightarrow> usp_event + dsp_event \<Rightarrow> usp \<times> dsp \<Rightarrow>
  sim_error + ((usp \<times> dsp) \<times> (call + call) list)" where
  "ports_ev st \<equiv> duplex_ev usp_ev dsp_ev (usp_to_dsp st) (dsp_to_usp st)"

definition link_ev :: "store \<Rightarrow> (usp_event + dsp_event) + ctrl_event \<Rightarrow> (usp \<times> dsp) \<times> ctrl \<Rightarrow>
  sim_error + (((usp \<times> dsp) \<times> ctrl) \<times> ((call + call) + call) list)" where
  "link_ev st = duplex_ev (ports_ev st) ctrl_ev (dsp_to_ctrl st) (ctrl_to_dsp st)"

section \<open>The laws of the sockets\<close>

lemma usp_to_dsp_feeds: "feeds dsp_ev (\<lambda>_. True) (usp_to_dsp st)"
proof -
  have "\<forall>e \<in> set (usp_to_dsp st x). \<forall>s s' os. dsp_ev e s = Inr (s', os) \<longrightarrow> os = []" for x
    by (cases x) simp_all
  then show ?thesis by (simp add: feeds_def)
qed

lemma dsp_to_usp_feeds: "feeds usp_ev usp_legal (dsp_to_usp st)"
proof -
  have "\<forall>e \<in> set (dsp_to_usp st x). usp_legal e \<and> (\<forall>s s' os. usp_ev e s = Inr (s', os) \<longrightarrow> os = [])" for x
    by (cases x) simp_all
  then show ?thesis by (simp add: feeds_def)
qed

lemma dsp_to_ctrl_feeds: "feeds ctrl_ev (ctrl_legal ms 1) (dsp_to_ctrl st)"
proof -
  have "\<forall>e \<in> set (dsp_to_ctrl st x). ctrl_legal ms 1 e \<and> (\<forall>s s' os. ctrl_ev e s = Inr (s', os) \<longrightarrow> os = [])" for x
  proof (cases x)
    case (Inl y)
    then show ?thesis by simp
  next
    case (Inr y)
    then show ?thesis by (cases y) (simp_all add: port_ok_def)
  qed
  then show ?thesis by (simp add: feeds_def)
qed

interpretation ports_w: duplex usp_inv usp_writes usp_ev usp_legal usp_write_in fw_writes
  "\<lambda>_. True" w_queue dsp_ev "\<lambda>_. True" dsp_write_in fw_writes
  usp_wacks usp_wack_in bw_writes wack_queue dsp_wack_in bw_writes
  "usp_to_dsp st" "dsp_to_usp st" for st
proof unfold_locales
  show "feeds dsp_ev (\<lambda>_. True) (usp_to_dsp st)" "feeds usp_ev usp_legal (dsp_to_usp st)"
    by (rule usp_to_dsp_feeds dsp_to_usp_feeds)+
  fix x
  show "tokens dsp_write_in (usp_to_dsp st x) = fw_writes x" "tokens usp_write_in (dsp_to_usp st x) = []"
    "tokens dsp_wack_in (usp_to_dsp st x) = []" "tokens usp_wack_in (dsp_to_usp st x) = bw_writes x"
    by (cases x; simp)+
qed

interpretation ports_r: duplex usp_inv r_queue usp_ev usp_legal usp_read_in fw_reads
  "\<lambda>_. True" r_queue dsp_ev "\<lambda>_. True" dsp_read_in fw_reads
  usp_racks usp_rack_in bw_reads rack_queue dsp_rack_in bw_reads
  "usp_to_dsp st" "dsp_to_usp st" for st
proof unfold_locales
  show "feeds dsp_ev (\<lambda>_. True) (usp_to_dsp st)" "feeds usp_ev usp_legal (dsp_to_usp st)"
    by (rule usp_to_dsp_feeds dsp_to_usp_feeds)+
  fix x
  show "tokens dsp_read_in (usp_to_dsp st x) = fw_reads x" "tokens usp_read_in (dsp_to_usp st x) = []"
    "tokens dsp_rack_in (usp_to_dsp st x) = []" "tokens usp_rack_in (dsp_to_usp st x) = bw_reads x"
    by (cases x; simp)+
qed

lemma ctrl_to_dsp_feeds:
  "feeds (ports_ev st) (case_sum (\<lambda>e. usp_legal e \<and> usp_wack_in e = []) (\<lambda>e. True \<and> dsp_write_in e = [])) (ctrl_to_dsp st)"
  "feeds (ports_ev st) (case_sum (\<lambda>e. usp_legal e \<and> usp_rack_in e = []) (\<lambda>e. True \<and> dsp_read_in e = [])) (ctrl_to_dsp st)"
proof -
  have quiet: "os = []" if "e \<in> set (ctrl_to_dsp st x)" and "ports_ev st e s = Inr (s', os)" for e x s s' os
    using that by (cases x; cases s) auto
  have "\<forall>e \<in> set (ctrl_to_dsp st x). case_sum (\<lambda>e. usp_legal e \<and> usp_wack_in e = []) (\<lambda>e. True \<and> dsp_write_in e = []) e"
    "\<forall>e \<in> set (ctrl_to_dsp st x). case_sum (\<lambda>e. usp_legal e \<and> usp_rack_in e = []) (\<lambda>e. True \<and> dsp_read_in e = []) e" for x
    by (cases x; simp)+
  with quiet show
    "feeds (ports_ev st) (case_sum (\<lambda>e. usp_legal e \<and> usp_wack_in e = []) (\<lambda>e. True \<and> dsp_write_in e = [])) (ctrl_to_dsp st)"
    "feeds (ports_ev st) (case_sum (\<lambda>e. usp_legal e \<and> usp_rack_in e = []) (\<lambda>e. True \<and> dsp_read_in e = [])) (ctrl_to_dsp st)"
    unfolding feeds_def by blast+
qed

interpretation link_w: duplex
  "\<lambda>s. usp_inv (fst s) \<and> True" "\<lambda>s. w_queue (snd s) @ usp_writes (fst s)" "ports_ev st"
  "case_sum (\<lambda>e. usp_legal e \<and> usp_wack_in e = []) (\<lambda>e. True \<and> dsp_write_in e = [])"
  "case_sum usp_write_in (\<lambda>_. [])" "case_sum (\<lambda>_. []) fw_writes"
  "ctrl_inv ms 1" w_queue ctrl_ev "ctrl_legal ms 1" ctrl_write_in fw_writes
  "\<lambda>s. usp_wacks (fst s) @ wack_queue (snd s)" "case_sum (\<lambda>_. []) dsp_wack_in" "case_sum bw_writes (\<lambda>_. [])"
  wack_queue ctrl_wack_in bw_writes "dsp_to_ctrl st" "ctrl_to_dsp st" for st ms
proof unfold_locales
  show "feeds ctrl_ev (ctrl_legal ms 1) (dsp_to_ctrl st)" by (rule dsp_to_ctrl_feeds)
  show "feeds (ports_ev st) (case_sum (\<lambda>e. usp_legal e \<and> usp_wack_in e = [])
    (\<lambda>e. True \<and> dsp_write_in e = [])) (ctrl_to_dsp st)" by (rule ctrl_to_dsp_feeds)
  fix x y
  show "tokens ctrl_write_in (dsp_to_ctrl st x) = case_sum (\<lambda>_. []) fw_writes x"
    "tokens ctrl_wack_in (dsp_to_ctrl st x) = []"
    by (cases x; simp; cases "projr x"; simp)+
  show "tokens (case_sum usp_write_in (\<lambda>_. [])) (ctrl_to_dsp st y) = []"
    "tokens (case_sum (\<lambda>_. []) dsp_wack_in) (ctrl_to_dsp st y) = bw_writes y"
    by (cases y; simp)+
qed

interpretation link_r: duplex
  "\<lambda>s. usp_inv (fst s) \<and> True" "\<lambda>s. r_queue (snd s) @ r_queue (fst s)" "ports_ev st"
  "case_sum (\<lambda>e. usp_legal e \<and> usp_rack_in e = []) (\<lambda>e. True \<and> dsp_read_in e = [])"
  "case_sum usp_read_in (\<lambda>_. [])" "case_sum (\<lambda>_. []) fw_reads"
  "ctrl_inv ms 1" r_queue ctrl_ev "ctrl_legal ms 1" ctrl_read_in fw_reads
  "\<lambda>s. usp_racks (fst s) @ rack_queue (snd s)" "case_sum (\<lambda>_. []) dsp_rack_in" "case_sum bw_reads (\<lambda>_. [])"
  rack_queue ctrl_rack_in bw_reads "dsp_to_ctrl st" "ctrl_to_dsp st" for st ms
proof unfold_locales
  show "feeds ctrl_ev (ctrl_legal ms 1) (dsp_to_ctrl st)" by (rule dsp_to_ctrl_feeds)
  show "feeds (ports_ev st) (case_sum (\<lambda>e. usp_legal e \<and> usp_rack_in e = [])
    (\<lambda>e. True \<and> dsp_read_in e = [])) (ctrl_to_dsp st)" by (rule ctrl_to_dsp_feeds)
  fix x y
  show "tokens ctrl_read_in (dsp_to_ctrl st x) = case_sum (\<lambda>_. []) fw_reads x"
    "tokens ctrl_rack_in (dsp_to_ctrl st x) = []"
    by (cases x; simp; cases "projr x"; simp)+
  show "tokens (case_sum usp_read_in (\<lambda>_. [])) (ctrl_to_dsp st y) = []"
    "tokens (case_sum (\<lambda>_. []) dsp_rack_in) (ctrl_to_dsp st y) = bw_reads y"
    by (cases y; simp)+
qed

section \<open>The whole link\<close>

text \<open>
  The events of the link from outside: the host wrapper calls the upstream port, the memory
  devices answer the controller, and the six threads take their turns. The downstream
  port is called by its neighbours only.
\<close>

fun link_legal :: "nat \<Rightarrow> (usp_event + dsp_event) + ctrl_event \<Rightarrow> bool" where
  "link_legal ms (Inl (Inl e)) \<longleftrightarrow> usp_legal e \<and> usp_wack_in e = [] \<and> usp_rack_in e = []"
| "link_legal ms (Inl (Inr e)) \<longleftrightarrow>
     dsp_write_in e = [] \<and> dsp_read_in e = [] \<and> dsp_wack_in e = [] \<and> dsp_rack_in e = []"
| "link_legal ms (Inr e) \<longleftrightarrow> ctrl_legal ms 1 e \<and> ctrl_write_in e = [] \<and> ctrl_read_in e = []"

definition from_host :: "(usp_event \<Rightarrow> pid list) \<Rightarrow> (usp_event + dsp_event) + ctrl_event \<Rightarrow> pid list" where
  "from_host f = case_sum (case_sum f (\<lambda>_. [])) (\<lambda>_. [])"

definition from_memory :: "(ctrl_event \<Rightarrow> pid list) \<Rightarrow> (usp_event + dsp_event) + ctrl_event \<Rightarrow> pid list" where
  "from_memory f = case_sum (\<lambda>_. []) f"

definition to_memory :: "(call \<Rightarrow> pid list) \<Rightarrow> (call + call) + call \<Rightarrow> pid list" where
  "to_memory f = case_sum (\<lambda>_. []) f"

definition to_host :: "(call \<Rightarrow> pid list) \<Rightarrow> (call + call) + call \<Rightarrow> pid list" where
  "to_host f = case_sum (case_sum f (\<lambda>_. [])) (\<lambda>_. [])"

lemmas link_token_defs = from_host_def from_memory_def to_memory_def to_host_def

lemma link_legal_duplex:
  assumes "list_all (link_legal ms) es"
  shows "list_all (case_sum (\<lambda>e. case_sum (\<lambda>e. usp_legal e \<and> usp_wack_in e = []) (\<lambda>e. True \<and> dsp_write_in e = []) e \<and>
      case_sum (\<lambda>_. []) dsp_wack_in e = []) (\<lambda>e. ctrl_legal ms 1 e \<and> ctrl_write_in e = [])) es"
    and "list_all (case_sum (\<lambda>e. case_sum (\<lambda>e. usp_legal e \<and> usp_rack_in e = []) (\<lambda>e. True \<and> dsp_read_in e = []) e \<and>
      case_sum (\<lambda>_. []) dsp_rack_in e = []) (\<lambda>e. ctrl_legal ms 1 e \<and> ctrl_read_in e = [])) es"
proof -
  have "case_sum (\<lambda>e. case_sum (\<lambda>e. usp_legal e \<and> usp_wack_in e = []) (\<lambda>e. True \<and> dsp_write_in e = []) e \<and>
      case_sum (\<lambda>_. []) dsp_wack_in e = []) (\<lambda>e. ctrl_legal ms 1 e \<and> ctrl_write_in e = []) e \<and>
    case_sum (\<lambda>e. case_sum (\<lambda>e. usp_legal e \<and> usp_rack_in e = []) (\<lambda>e. True \<and> dsp_read_in e = []) e \<and>
      case_sum (\<lambda>_. []) dsp_rack_in e = []) (\<lambda>e. ctrl_legal ms 1 e \<and> ctrl_read_in e = []) e"
    if "link_legal ms e" for e
    using that by (cases "(ms, e)" rule: link_legal.cases) simp_all
  with assms show "list_all (case_sum (\<lambda>e. case_sum (\<lambda>e. usp_legal e \<and> usp_wack_in e = [])
        (\<lambda>e. True \<and> dsp_write_in e = []) e \<and>
      case_sum (\<lambda>_. []) dsp_wack_in e = []) (\<lambda>e. ctrl_legal ms 1 e \<and> ctrl_write_in e = [])) es"
    "list_all (case_sum (\<lambda>e. case_sum (\<lambda>e. usp_legal e \<and> usp_rack_in e = []) (\<lambda>e. True \<and> dsp_read_in e = []) e \<and>
      case_sum (\<lambda>_. []) dsp_rack_in e = []) (\<lambda>e. ctrl_legal ms 1 e \<and> ctrl_read_in e = [])) es"
    unfolding list_all_iff by blast+
qed

lemma link_run:
  assumes inv: "usp_inv u" "ctrl_inv ms 1 c" and legal: "list_all (link_legal ms) es"
  obtains u' d' c' os where "run_events (link_ev st) es ((u, d), c) = Inr (((u', d'), c'), os)"
    and "usp_inv u'" "ctrl_inv ms 1 c'"
    and "tokens (to_memory fw_writes) os @ w_queue c' @ w_queue d' @ usp_writes u' =
      (w_queue c @ w_queue d @ usp_writes u) @ tokens (from_host usp_write_in) es"
    and "tokens (to_memory fw_reads) os @ r_queue c' @ r_queue d' @ r_queue u' =
      (r_queue c @ r_queue d @ r_queue u) @ tokens (from_host usp_read_in) es"
    and "tokens (to_host bw_writes) os @ usp_wacks u' @ wack_queue d' @ wack_queue c' =
      (usp_wacks u @ wack_queue d @ wack_queue c) @ tokens (from_memory ctrl_wack_in) es"
    and "tokens (to_host bw_reads) os @ usp_racks u' @ rack_queue d' @ rack_queue c' =
      (usp_racks u @ rack_queue d @ rack_queue c) @ tokens (from_memory ctrl_rack_in) es"
proof -
  note l = link_legal_duplex [OF legal]
  have i: "(usp_inv (fst (fst ((u, d), c))) \<and> True) \<and> ctrl_inv ms 1 (snd ((u, d), c))" using inv by simp
  obtain s' os where run: "run_events (link_ev st) es ((u, d), c) = Inr (s', os)"
    using link_w.forward.run_total [OF i l(1)] unfolding link_ev_def by blast
  obtain u' d' c' where s': "s' = ((u', d'), c')" by (metis prod.exhaust)
  note run' = run [unfolded link_ev_def s']
  show thesis
    by (rule that [OF run [unfolded s']])
      (use link_w.forward.run_inv_fifo [OF i l(1) run'] link_w.backward.run_fifo [OF i l(1) run']
        link_r.forward.run_fifo [OF i l(2) run'] link_r.backward.run_fifo [OF i l(2) run']
        in \<open>simp_all add: link_token_defs\<close>)
qed

text \<open>
  C2. The link of one host, from its initial state, for every sequence of calls by the host
  wrapper and the memory devices and of turns of its six threads: no step fails; the
  write requests that reach the memory devices, followed by those still inside, are the
  write requests of the host in their order, and the same holds for reads; the write
  acknowledgements that reach the host wrapper, followed by those still inside, are those of
  the memory devices in their order, and the same holds for read responses.
\<close>

theorem link_in_order:
  assumes "usp_init dn pl ll ps rs nm = Inr u" and "ps div rs div 2 \<noteq> 0" and "list_all (link_legal ms) es"
  shows "\<exists>u' d' c' os. run_events (link_ev st) es ((u, dsp_init), ctrl_init cll ccl cnm ms 1) = Inr (((u', d'), c'), os) \<and>
    tokens (to_memory fw_writes) os @ w_queue c' @ w_queue d' @ usp_writes u' = tokens (from_host usp_write_in) es \<and>
    tokens (to_memory fw_reads) os @ r_queue c' @ r_queue d' @ r_queue u' = tokens (from_host usp_read_in) es \<and>
    tokens (to_host bw_writes) os @ usp_wacks u' @ wack_queue d' @ wack_queue c' = tokens (from_memory ctrl_wack_in) es \<and>
    tokens (to_host bw_reads) os @ usp_racks u' @ rack_queue d' @ rack_queue c' = tokens (from_memory ctrl_rack_in) es"
proof -
  let ?c = "ctrl_init cll ccl cnm ms 1"
  have u: "usp_inv u" using usp_init_ok [OF assms(1,2)] by simp
  have e: "w_queue u = []" "r_queue u = []" "usp_writes u = []" "usp_wacks u = []" "usp_racks u = []"
    using assms(1) by (auto simp: usp_init_def usp_content_defs split: if_splits)
  have c: "ctrl_inv ms 1 ?c" by (rule ctrl_inv_init) simp_all
  obtain u' d' c' os where "run_events (link_ev st) es ((u, dsp_init), ?c) = Inr (((u', d'), c'), os)"
    and "tokens (to_memory fw_writes) os @ w_queue c' @ w_queue d' @ usp_writes u' =
      (w_queue ?c @ w_queue dsp_init @ usp_writes u) @ tokens (from_host usp_write_in) es"
    and "tokens (to_memory fw_reads) os @ r_queue c' @ r_queue d' @ r_queue u' =
      (r_queue ?c @ r_queue dsp_init @ r_queue u) @ tokens (from_host usp_read_in) es"
    and "tokens (to_host bw_writes) os @ usp_wacks u' @ wack_queue d' @ wack_queue c' =
      (usp_wacks u @ wack_queue dsp_init @ wack_queue ?c) @ tokens (from_memory ctrl_wack_in) es"
    and "tokens (to_host bw_reads) os @ usp_racks u' @ rack_queue d' @ rack_queue c' =
      (usp_racks u @ rack_queue dsp_init @ rack_queue ?c) @ tokens (from_memory ctrl_rack_in) es"
    by (rule link_run [OF u c assms(3)])
  moreover have "r_queue ?c = []" "w_queue ?c = []" "rack_queue ?c = []" "wack_queue ?c = []"
    "r_queue dsp_init = []" "w_queue dsp_init = []" "rack_queue dsp_init = []" "wack_queue dsp_init = []"
    by (simp_all add: ctrl_init_def dsp_init_def)
  ultimately show ?thesis
    using e by (intro exI [of _ u'] exI [of _ d'] exI [of _ c'] exI [of _ os] conjI) simp_all
qed

definition link_witness_events :: "((usp_event + dsp_event) + ctrl_event) list" where
  "link_witness_events =
     [Inl (Inl (Usp_fw_call (reads_of 64) 0 BEGIN_REQ)), Inl (Inl (Usp_fw_call (reads_of 64) 1 BEGIN_REQ)),
      Inl (Inl Usp_fw_run), Inl (Inl Usp_fw_run), Inl (Inr Dsp_fw_run), Inr (Ctrl_fw_run Map.empty),
      Inr (Ctrl_fw_run Map.empty)]"

theorem link_in_order_witness:
  "\<exists>u u' d' c' os. usp_init 1 5 5 64 4 [] = Inr u \<and>
    run_events (link_ev (reads_of 64)) link_witness_events ((u, dsp_init), ctrl_init 5 5 [] 1 1) = Inr (((u', d'), c'), os) \<and>
    tokens (to_memory fw_reads) os @ r_queue c' @ r_queue d' @ r_queue u' = [0, 1]"
proof -
  obtain u where u: "usp_init 1 5 5 64 4 [] = Inr u"
    by (simp add: usp_init_def)
  have legal: "list_all (link_legal 1) link_witness_events"
    by (simp add: link_witness_events_def devices_ok_def)
  have "tokens (from_host usp_read_in) link_witness_events = [0, 1]"
    by (simp add: link_witness_events_def from_host_def)
  with u link_in_order [OF u _ legal, of "reads_of 64" 5 5 "[]"] show ?thesis by auto
qed

end
