(* ===== verification/Bridge.thy ===== *)
theory Bridge
  imports Tlm_Payload "HOL-Library.Multiset"
begin

text \<open>
  The bridge between the simulator and the DRAM simulator (\<open>etc/Bridge.h\<close> and
  \<open>.cpp\<close>). The memory system behind it belongs to another project: it is a
  parameter, a function \<open>send\<close> that accepts or refuses a request and a function
  \<open>tick\<close> that advances one memory cycle and yields the payloads of the requests whose
  callback it calls, in order.
\<close>

section \<open>State and operations\<close>

text \<open>The request that the bridge builds for the memory system (the callback is \<open>out_queue\<close>).\<close>

record request =
  rq_addr :: int
  rq_type :: tlm_command
  rq_source :: int
  rq_trans :: pid

record 'm bridge =
  in_queue :: "pid list"
  out_queue :: "pid list"
  enqueue_success :: bool
  memory_system :: 'm

definition bridge_init :: "bool \<Rightarrow> 'm \<Rightarrow> 'm bridge" where
  "bridge_init garbage m =
     \<lparr>in_queue = [], out_queue = [], enqueue_success = garbage, memory_system = m\<rparr>"

text \<open>\<open>static_cast<int64_t>\<close> of the address.\<close>

definition bridge_request :: "store \<Rightarrow> pid \<Rightarrow> request" where
  "bridge_request st p =
     \<lparr>rq_addr = sint (gp_address (heap st p)), rq_type = gp_command (heap st p), rq_source = 0,
      rq_trans = p\<rparr>"

definition ClockTick ::
  "(request \<Rightarrow> 'm \<Rightarrow> 'm \<times> bool) \<Rightarrow> ('m \<Rightarrow> 'm \<times> pid list) \<Rightarrow> store \<Rightarrow> 'm bridge \<Rightarrow> 'm bridge" where
  "ClockTick send tick st b =
     (let b1 = (case in_queue b of
                  [] \<Rightarrow> b
                | p # ps \<Rightarrow>
                    (case send (bridge_request st p) (memory_system b) of (m, ok) \<Rightarrow>
                       b\<lparr>memory_system := m, enqueue_success := ok,
                         in_queue := (if ok then ps else in_queue b)\<rparr>))
      in case tick (memory_system b1) of (m, done) \<Rightarrow>
           b1\<lparr>memory_system := m, out_queue := out_queue b1 @ done\<rparr>)"

definition sendCommand :: "pid \<Rightarrow> 'm bridge \<Rightarrow> 'm bridge" where
  "sendCommand p b = b\<lparr>in_queue := in_queue b @ [p]\<rparr>"

definition getCompletedCommand :: "'m bridge \<Rightarrow> 'm bridge \<times> pid option" where
  "getCompletedCommand b =
     (case out_queue b of [] \<Rightarrow> (b, None) | p # ps \<Rightarrow> (b\<lparr>out_queue := ps\<rparr>, Some p))"

section \<open>What a memory system promises\<close>

text \<open>
  \<open>busy m\<close> is the collection of requests that the memory system has accepted and not
  completed. It completes what it accepted, each request once: a refused request leaves
  it as it was.
\<close>

definition conserving ::
  "(request \<Rightarrow> 'm \<Rightarrow> 'm \<times> bool) \<Rightarrow> ('m \<Rightarrow> 'm \<times> pid list) \<Rightarrow> ('m \<Rightarrow> pid multiset) \<Rightarrow> bool" where
  "conserving send tick busy \<longleftrightarrow>
     (\<forall>r m m'. send r m = (m', True) \<longrightarrow> busy m' = add_mset (rq_trans r) (busy m)) \<and>
     (\<forall>r m m'. send r m = (m', False) \<longrightarrow> busy m' = busy m) \<and>
     (\<forall>m m' done. tick m = (m', done) \<longrightarrow> mset done + busy m' = busy m)"

text \<open>Everything in the bridge and behind it.\<close>

definition in_bridge :: "('m \<Rightarrow> pid multiset) \<Rightarrow> 'm bridge \<Rightarrow> pid multiset" where
  "in_bridge busy b = mset (in_queue b) + busy (memory_system b) + mset (out_queue b)"

lemma in_bridge_tick:
  assumes "conserving send tick busy"
  shows "in_bridge busy (ClockTick send tick st b) = in_bridge busy b"
proof -
  have tick: "mset (snd (tick m)) + busy (fst (tick m)) = busy m" for m
    using assms by (cases "tick m") (auto simp: conserving_def)
  have send: "busy (fst (send r m)) = (if snd (send r m) then add_mset (rq_trans r) (busy m) else busy m)" for r m
    using assms by (cases "send r m"; cases "snd (send r m)") (auto simp: conserving_def)
  show ?thesis
  proof (cases "in_queue b")
    case Nil
    with tick [of "memory_system b"] show ?thesis
      by (simp add: ClockTick_def in_bridge_def case_prod_beta ac_simps)
  next
    case (Cons p ps)
    let ?s = "send (bridge_request st p) (memory_system b)"
    show ?thesis
      using Cons tick [of "fst ?s"] send [of "bridge_request st p" "memory_system b"]
      by (cases "snd ?s") (simp_all add: ClockTick_def in_bridge_def case_prod_beta ac_simps bridge_request_def)
  qed
qed

lemma in_bridge_send [simp]: "in_bridge busy (sendCommand p b) = add_mset p (in_bridge busy b)"
  by (simp add: in_bridge_def sendCommand_def)

lemma in_bridge_get:
  "getCompletedCommand b = (b', None) \<Longrightarrow> b' = b \<and> out_queue b = []"
  "getCompletedCommand b = (b', Some p) \<Longrightarrow> in_bridge busy b = add_mset p (in_bridge busy b')"
  by (auto simp: getCompletedCommand_def in_bridge_def split: list.splits)

text \<open>
  A memory system for examples: it holds at most \<open>n\<close> requests and completes the oldest one
  in each cycle.
\<close>

definition fifo_send :: "nat \<Rightarrow> request \<Rightarrow> pid list \<Rightarrow> pid list \<times> bool" where
  "fifo_send n r m = (if length m < n then (m @ [rq_trans r], True) else (m, False))"

definition fifo_tick :: "pid list \<Rightarrow> pid list \<times> pid list" where
  "fifo_tick m = (tl m, take 1 m)"

lemma fifo_conserving: "conserving (fifo_send n) fifo_tick mset"
proof -
  have "mset (take (Suc 0) m) + mset (tl m) = mset m" for m :: "pid list"
    by (cases m) simp_all
  then show ?thesis
    by (auto simp: conserving_def fifo_send_def fifo_tick_def split: if_splits)
qed

end
