(* ===== verification/Mem_Wrapper.thy ===== *)
theory Mem_Wrapper
  imports Timing Statistics Bridge
begin

text \<open>
  The memory device (\<open>backplane/components/wrapper/mem_wrapper.h\<close> and \<open>.cpp\<close>).
  A request from the link goes through the payload event queue; its data are stored at
  once in the backing array, the payload of the link is released and a fresh payload
  with the same attributes goes through the queues into the DRAM simulator. A completed
  payload is sent back; for a read its data pointer is set into the backing array.
\<close>

section \<open>State\<close>

text \<open>
  The device number \<open>mw_id\<close> also numbers its memory manager \<open>mw_mm\<close> among all
  managers. \<open>mw_peq\<close> holds the notifications that the event queue has not delivered
  yet; all are for the same simulated time, and it delivers them in order.
\<close>

record 'm mem_wrapper = channels +
  mem_request :: "pid list"
  mw_id :: nat
  mw_mm :: nat
  mem_data :: "nat \<Rightarrow> byte"
  mem_size :: nat
  mw_total_cycle :: u64
  m_outstanding :: u32
  w_trans_map :: "u32 \<rightharpoonup> u32"
  r_trans_map :: "u32 \<rightharpoonup> u32"
  mw_stats :: statistics
  mw_bridge :: "'m bridge"
  mw_peq :: "(pid \<times> tlm_phase) list"

text \<open>The cycle counter is not initialised by the code.\<close>

definition mw_init :: "nat \<Rightarrow> nat \<Rightarrow> u64 \<Rightarrow> string \<Rightarrow> u64 \<Rightarrow> 'm bridge \<Rightarrow> 'm mem_wrapper" where
  "mw_init i m dram_size nm garbage b =
     \<lparr>r_queue = [], w_queue = [], rack_queue = [], wack_queue = [], mem_request = [], mw_id = i,
      mw_mm = m, mem_data = (\<lambda>_. 0), mem_size = unat dram_size, mw_total_cycle = garbage,
      m_outstanding = 0, w_trans_map = Map.empty, r_trans_map = Map.empty,
      mw_stats = set_name (''Ramulator_'' @ nm) (stats_new []), mw_bridge = b, mw_peq = []\<rparr>"

section \<open>The backing store\<close>

text \<open>\<open>memcpy\<close> into \<open>mem_data\<close>, and a copy out of it.\<close>

definition mem_store :: "(nat \<Rightarrow> byte) \<Rightarrow> nat \<Rightarrow> nat \<Rightarrow> byte list \<Rightarrow> nat \<Rightarrow> sim_error + (nat \<Rightarrow> byte)" where
  "mem_store d sz a src n =
     (if a + n \<le> sz \<and> n \<le> length src
      then Inr (\<lambda>k. if a \<le> k \<and> k < a + n then src ! (k - a) else d k)
      else Inl Out_of_bounds)"

definition mem_load :: "(nat \<Rightarrow> byte) \<Rightarrow> nat \<Rightarrow> nat \<Rightarrow> nat \<Rightarrow> sim_error + byte list" where
  "mem_load d sz a n = (if a + n \<le> sz then Inr (map d [a ..< a + n]) else Inl Out_of_bounds)"

text \<open>
  What \<open>memcpy (.., trans.get_data_ptr (), n)\<close> reads: the buffer of a payload, or the
  memory of the device that the pointer points into.
\<close>

definition data_read :: "(nat \<Rightarrow> (nat \<Rightarrow> byte) \<times> nat) \<Rightarrow> data_ptr \<Rightarrow> nat \<Rightarrow> sim_error + byte list" where
  "data_read mems ptr n =
     (case ptr of
        Null_ptr \<Rightarrow> (if n = 0 then Inr [] else Inl Null_pointer)
      | Buf_ptr bs \<Rightarrow> (if n \<le> length bs then Inr (take n bs) else Inl Out_of_bounds)
      | Mem_ptr i a \<Rightarrow> mem_load (fst (mems i)) (snd (mems i)) (unat a) n)"

section \<open>Requests from the link\<close>

definition mw_nb_transport_fw :: "'m mem_wrapper \<Rightarrow> pid \<Rightarrow> tlm_phase \<Rightarrow> 'm mem_wrapper \<times> tlm_sync_enum" where
  "mw_nb_transport_fw w p phase = (w\<lparr>mw_peq := mw_peq w @ [(p, phase)]\<rparr>, TLM_UPDATED)"

definition gen_trans ::
  "nat \<Rightarrow> u64 \<Rightarrow> tlm_command \<Rightarrow> u32 \<Rightarrow> u32 \<Rightarrow> store \<Rightarrow> sim_error + (store \<times> pid)" where
  "gen_trans m addr cmd sz i st =
     ebind (st_obtain m st) (\<lambda>(st1, q).
       Inr (upd_gp q (\<lambda>g. g\<lparr>gp_address := addr, gp_command := cmd, gp_length := sz, gp_id := i\<rparr>) st1, q))"

text \<open>
  The callback of the event queue. The data are read through the pointer of the payload;
  \<open>mems\<close> gives the memory arrays for pointers into them.
\<close>

definition mw_peq_cb ::
  "(nat \<Rightarrow> (nat \<Rightarrow> byte) \<times> nat) \<Rightarrow> store \<times> 'm mem_wrapper \<Rightarrow> pid \<Rightarrow> tlm_phase \<Rightarrow>
   sim_error + (store \<times> 'm mem_wrapper)" where
  "mw_peq_cb mems sw p phase =
     (case sw of (st, w) \<Rightarrow>
        let g = heap st p in
        ebind (gen_trans (mw_mm w) (gp_address g) (gp_command g) (gp_length g) (gp_id g) st) (\<lambda>(st1, q).
          ebind (if phase = BEGIN_REQ
                 then (if gp_command g = TLM_READ_COMMAND
                       then Inr (w\<lparr>r_queue := r_queue w @ [q]\<rparr>)
                       else ebind (data_read mems (gp_data g) (unat (gp_length g))) (\<lambda>bs.
                              ebind (mem_store (mem_data w) (mem_size w) (unat (gp_address g)) bs
                                       (unat (gp_length g))) (\<lambda>d.
                                Inr (w\<lparr>mem_data := d, w_queue := w_queue w @ [q]\<rparr>))))
                 else Inr w) (\<lambda>w1.
            ebind (release p st1) (\<lambda>st2. Inr (st2, w1)))))"

text \<open>The event queue delivers its oldest notification.\<close>

definition mw_peq_fire ::
  "(nat \<Rightarrow> (nat \<Rightarrow> byte) \<times> nat) \<Rightarrow> store \<times> 'm mem_wrapper \<Rightarrow> sim_error + (store \<times> 'm mem_wrapper)" where
  "mw_peq_fire mems sw =
     (case sw of (st, w) \<Rightarrow>
        case mw_peq w of
          [] \<Rightarrow> Inr (st, w)
        | (p, phase) # es \<Rightarrow> mw_peq_cb mems (st, w\<lparr>mw_peq := es\<rparr>) p phase)"

section \<open>Clock edges\<close>

definition mw_clock_posedge :: "'m mem_wrapper \<Rightarrow> 'm mem_wrapper" where
  "mw_clock_posedge w =
     (let w1 = (case r_queue w of [] \<Rightarrow> w
                | p # ps \<Rightarrow> w\<lparr>r_queue := ps, mem_request := mem_request w @ [p]\<rparr>)
      in case w_queue w1 of [] \<Rightarrow> w1
         | p # ps \<Rightarrow> w1\<lparr>w_queue := ps, mem_request := mem_request w1 @ [p]\<rparr>)"

text \<open>
  The response of a read carries a pointer into the memory array. The call goes to the
  one initiator socket bound to the device, the controller.
\<close>

definition backward_trans :: "store \<Rightarrow> 'm mem_wrapper \<Rightarrow> pid \<Rightarrow> bool \<Rightarrow> store \<times> call list" where
  "backward_trans st w p rd =
     (if rd then (upd_gp p (\<lambda>g. g\<lparr>gp_data := Mem_ptr (mw_id w) (gp_address g)\<rparr>) st, [Bw_read 0 p])
      else (st, [Bw_write 0 p]))"

definition mw_clock_negedge :: "store \<times> 'm mem_wrapper \<Rightarrow> (store \<times> 'm mem_wrapper) \<times> call list" where
  "mw_clock_negedge sw =
     (case sw of (st, w) \<Rightarrow>
        case (case rack_queue w of [] \<Rightarrow> (st, w, [])
              | p # ps \<Rightarrow> (case backward_trans st w p True of (st', os) \<Rightarrow>
                  (st', w\<lparr>rack_queue := ps, m_outstanding := m_outstanding w - 1\<rparr>, os))) of
          (st1, w1, os1) \<Rightarrow>
            (case wack_queue w1 of [] \<Rightarrow> ((st1, w1), os1)
             | p # ps \<Rightarrow> (case backward_trans st1 w1 p False of (st', os) \<Rightarrow>
                 ((st', w1\<lparr>wack_queue := ps, m_outstanding := m_outstanding w1 - 1\<rparr>), os1 @ os))))"

section \<open>The DRAM thread\<close>

text \<open>
  \<open>(int) (sc_time_stamp ().to_double () / 1000)\<close> at a simulated time of \<open>now\<close>
  picoseconds. Below 2^31 ns the division is exact enough for the truncation to be the integer
  quotient; beyond, the conversion is undefined.
\<close>

definition stamp_ns :: "nat \<Rightarrow> sim_error + u32" where
  "stamp_ns now = (if now div 1000 < 2 ^ 31 then Inr (of_nat (now div 1000)) else Inl Int_overflow)"

definition update_trans_delay :: "nat \<Rightarrow> 'm mem_wrapper \<Rightarrow> u32 \<Rightarrow> bool \<Rightarrow> sim_error + 'm mem_wrapper" where
  "update_trans_delay now w addr is_read =
     ebind (stamp_ns now) (\<lambda>t.
       Inr (if is_read
            then (case map_index (r_trans_map w) addr of (s, m) \<Rightarrow>
                    w\<lparr>r_trans_map := m, mw_stats := update_read_latency (t - s) (mw_stats w)\<rparr>)
            else (case map_index (w_trans_map w) addr of (s, m) \<Rightarrow>
                    w\<lparr>w_trans_map := m, mw_stats := update_write_latency (t - s) (mw_stats w)\<rparr>)))"

text \<open>The first part of the loop body: take one completed payload.\<close>

definition mw_complete :: "store \<Rightarrow> nat \<Rightarrow> 'm mem_wrapper \<Rightarrow> sim_error + 'm mem_wrapper" where
  "mw_complete st now w =
     (case getCompletedCommand (mw_bridge w) of
        (b, None) \<Rightarrow> Inr (w\<lparr>mw_bridge := b\<rparr>)
      | (b, Some p) \<Rightarrow>
          let g = heap st p; w1 = w\<lparr>mw_bridge := b\<rparr> in
          (if gp_command g = TLM_READ_COMMAND
           then update_trans_delay now (w1\<lparr>rack_queue := rack_queue w1 @ [p]\<rparr>) (ucast (gp_address g)) True
           else update_trans_delay now (w1\<lparr>wack_queue := wack_queue w1 @ [p]\<rparr>) (ucast (gp_address g)) False))"

text \<open>One turn of the loop that hands requests to the bridge, and the whole loop.\<close>

definition mw_issue :: "store \<Rightarrow> nat \<Rightarrow> pid \<Rightarrow> 'm mem_wrapper \<Rightarrow> sim_error + 'm mem_wrapper" where
  "mw_issue st now p w =
     (let g = heap st p in
      ebind (stamp_ns now) (\<lambda>t.
        let w1 = (if gp_command g = TLM_READ_COMMAND
                  then w\<lparr>mw_stats := update_total_read_size (gp_length g) (increase_r_request (mw_stats w)),
                         r_trans_map := (r_trans_map w)(ucast (gp_address g) \<mapsto> t)\<rparr>
                  else w\<lparr>mw_stats := update_total_write_size (gp_length g) (increase_w_request (mw_stats w)),
                         w_trans_map := (w_trans_map w)(ucast (gp_address g) \<mapsto> t)\<rparr>)
        in Inr (w1\<lparr>mw_bridge := sendCommand p (mw_bridge w1), m_outstanding := m_outstanding w1 + 1\<rparr>)))"

fun mw_issue_all :: "store \<Rightarrow> nat \<Rightarrow> pid list \<Rightarrow> 'm mem_wrapper \<Rightarrow> sim_error + 'm mem_wrapper" where
  "mw_issue_all st now [] w = Inr w"
| "mw_issue_all st now (p # ps) w = ebind (mw_issue st now p w) (mw_issue_all st now ps)"

text \<open>
  One turn of \<open>simulate_dram\<close>. The result says whether the thread ends, in which case it
  clears \<open>active_dram\<close>; otherwise it waits for one period, and the cycle counter
  grows when it resumes (here: at the end of the turn, nothing reads it in between).
\<close>

definition simulate_dram ::
  "(request \<Rightarrow> 'm \<Rightarrow> 'm \<times> bool) \<Rightarrow> ('m \<Rightarrow> 'm \<times> pid list) \<Rightarrow> store \<Rightarrow> nat \<Rightarrow> u32 \<Rightarrow> 'm mem_wrapper \<Rightarrow>
   sim_error + ('m mem_wrapper \<times> bool)" where
  "simulate_dram send tick st now active_cores w =
     ebind (mw_complete st now w) (\<lambda>w1.
       ebind (mw_issue_all st now (mem_request w1) (w1\<lparr>mem_request := []\<rparr>)) (\<lambda>w2.
         let w3 = w2\<lparr>mw_bridge := ClockTick send tick st (mw_bridge w2)\<rparr>
         in Inr (if active_cores = 0 \<and> m_outstanding w3 = 0 then (w3, True)
                 else (w3\<lparr>mw_total_cycle := mw_total_cycle w3 + 1\<rparr>, False))))"

end
