(* ===== verification/Mem_Props.thy ===== *)
theory Mem_Props
  imports Mem_Wrapper
begin

text \<open>
  What the memory device guarantees: a write request is stored and a later read of the
  range sees it; one fresh DRAM payload with the attributes of the request replaces
  the payload of the link; every request is answered once, and the count of outstanding
  requests is the number of requests in the DRAM simulator or about to be answered.
\<close>

section \<open>The backing store\<close>

lemma mem_load_store_same:
  assumes "mem_store d sz a src n = Inr d'"
  shows "mem_load d' sz a n = Inr (take n src)"
  using assms by (auto simp: mem_store_def mem_load_def split: if_splits intro!: nth_equalityI)

lemma mem_load_store_disjoint:
  assumes "mem_store d sz a src n = Inr d'" and "b + m \<le> a \<or> a + n \<le> b"
  shows "mem_load d' sz b m = mem_load d sz b m"
  using assms by (auto simp: mem_store_def mem_load_def split: if_splits)

section \<open>Accepting a request\<close>

lemma gen_trans_ok:
  assumes "store_wf fs st"
  obtains st' q fs' where "gen_trans m a cmd n i st = Inr (st', q)" and "store_wf fs' st'"
    and "q \<notin> live st" and "live st' = insert q (live st)" and "\<forall>r. r \<noteq> q \<longrightarrow> heap st' r = heap st r"
    and "gp_ref_count (heap st' q) = 1"
    and "gp_address (heap st' q) = a" "gp_command (heap st' q) = cmd" "gp_length (heap st' q) = n"
    "gp_id (heap st' q) = i"
proof -
  obtain st1 q fs1 where one: "st_obtain m st = Inr (st1, q)" "store_wf fs1 st1" "q \<notin> live st"
    "live st1 = insert q (live st)" "\<forall>r. r \<noteq> q \<longrightarrow> heap st1 r = heap st r"
    "gp_ref_count (heap st1 q) = 1"
    using st_obtain_fresh [OF assms, of m] by blast
  let ?f = "\<lambda>g. g\<lparr>gp_address := a, gp_command := cmd, gp_length := n, gp_id := i\<rparr>"
  have "store_wf fs1 (upd_gp q ?f st1)" "live (upd_gp q ?f st1) = live st1"
    by (rule store_wf_upd [OF one(2)]; simp)+
  with one that [of "upd_gp q ?f st1" q fs1] show thesis
    by (simp add: gen_trans_def)
qed

lemma liveD:
  assumes "store_wf fs st" and "p \<in> live st"
  shows "p < next_pid st" and "\<exists>m. gp_mm (heap st p) = Some m"
  using assms store_wfD(7) [OF assms(1), of p] by (auto simp: live_def)

text \<open>A payload of the link with one reference, and the payload that replaces it.\<close>

definition link_payload :: "store \<Rightarrow> pid \<Rightarrow> bool" where
  "link_payload st p \<longleftrightarrow> p \<in> live st \<and> gp_ref_count (heap st p) = 1"

definition replaces :: "store \<Rightarrow> pid \<Rightarrow> store \<Rightarrow> pid \<Rightarrow> bool" where
  "replaces st p st' q \<longleftrightarrow>
     q \<noteq> p \<and> q \<notin> live st \<and> live st' = insert q (live st - {p}) \<and>
     (\<forall>r \<in> live st - {p}. heap st' r = heap st r) \<and>
     gp_ref_count (heap st' q) = 1 \<and>
     gp_address (heap st' q) = gp_address (heap st p) \<and> gp_command (heap st' q) = gp_command (heap st p) \<and>
     gp_length (heap st' q) = gp_length (heap st p) \<and> gp_id (heap st' q) = gp_id (heap st p)"

lemma gen_release:
  assumes wf: "store_wf fs st" and p: "link_payload st p"
  obtains st1 q st2 fs2 where
    "gen_trans m (gp_address (heap st p)) (gp_command (heap st p)) (gp_length (heap st p)) (gp_id (heap st p)) st
       = Inr (st1, q)"
    and "release p st1 = Inr st2" and "store_wf fs2 st2" and "replaces st p st2 q"
proof -
  let ?g = "heap st p"
  obtain st1 q fs1 where g: "gen_trans m (gp_address ?g) (gp_command ?g) (gp_length ?g) (gp_id ?g) st = Inr (st1, q)"
    and wf1: "store_wf fs1 st1" and q: "q \<notin> live st" "live st1 = insert q (live st)"
    "\<forall>r. r \<noteq> q \<longrightarrow> heap st1 r = heap st r" "gp_ref_count (heap st1 q) = 1"
    "gp_address (heap st1 q) = gp_address ?g" "gp_command (heap st1 q) = gp_command ?g"
    "gp_length (heap st1 q) = gp_length ?g" "gp_id (heap st1 q) = gp_id ?g"
    using gen_trans_ok [OF wf] by metis
  have live: "p \<in> live st" and one: "gp_ref_count ?g = 1" using p by (simp_all add: link_payload_def)
  have ne: "q \<noteq> p" using q(1) live by blast
  then have same: "heap st1 p = heap st p" using q(3) by metis
  have live1: "p \<in> live st1" using q(2) live by blast
  obtain k where k: "gp_mm (heap st1 p) = Some k" using liveD [OF wf1 live1] by blast
  have one1: "gp_ref_count (heap st1 p) = 1" using same one by simp
  from release_last [OF wf1 liveD(1) [OF wf1 live1] one1 k] obtain st2
    where r: "release p st1 = Inr st2" "store_wf (fs1(k := p # fs1 k)) st2"
      "live st2 = live st1 - {p}" "\<forall>r. r \<noteq> p \<longrightarrow> heap st2 r = heap st1 r"
    by blast
  have "heap st2 q = heap st1 q" using r(4) ne by blast
  moreover have "live st2 = insert q (live st - {p})" using r(3) q(2) ne by blast
  moreover have "\<forall>r \<in> live st - {p}. heap st2 r = heap st r" using r(4) q(1,3) by auto
  ultimately have "replaces st p st2 q"
    using q ne by (simp add: replaces_def)
  with g r that show thesis by blast
qed

lemma accept_write:
  assumes wf: "store_wf fs st" and p: "link_payload st p"
    and cmd: "gp_command (heap st p) \<noteq> TLM_READ_COMMAND"
    and data: "gp_data (heap st p) = Buf_ptr bs" and len: "length bs = unat (gp_length (heap st p))"
    and fits: "unat (gp_address (heap st p)) + unat (gp_length (heap st p)) \<le> mem_size w"
  shows "\<exists>st' w' q fs'. mw_peq_cb mems (st, w) p BEGIN_REQ = Inr (st', w') \<and>
    store_wf fs' st' \<and> replaces st p st' q \<and> w_queue w' = w_queue w @ [q] \<and> r_queue w' = r_queue w \<and>
    mem_load (mem_data w') (mem_size w') (unat (gp_address (heap st p))) (length bs) = Inr bs \<and>
    (\<forall>b m. b + m \<le> unat (gp_address (heap st p)) \<or> unat (gp_address (heap st p)) + length bs \<le> b \<longrightarrow>
      mem_load (mem_data w') (mem_size w') b m = mem_load (mem_data w) (mem_size w) b m)"
proof -
  let ?a = "unat (gp_address (heap st p))"
  obtain st1 q st2 fs2 where s: "gen_trans (mw_mm w) (gp_address (heap st p)) (gp_command (heap st p))
      (gp_length (heap st p)) (gp_id (heap st p)) st = Inr (st1, q)"
    "release p st1 = Inr st2" "store_wf fs2 st2" "replaces st p st2 q"
    using gen_release [OF wf p] by blast
  obtain d where d: "mem_store (mem_data w) (mem_size w) ?a bs (length bs) = Inr d"
    using fits len by (simp add: mem_store_def)
  let ?w = "w\<lparr>mem_data := d, w_queue := w_queue w @ [q]\<rparr>"
  have "mw_peq_cb mems (st, w) p BEGIN_REQ = Inr (st2, ?w)"
    using s(1,2) cmd data d len [symmetric] by (simp add: mw_peq_cb_def Let_def data_read_def)
  moreover have "mem_load (mem_data ?w) (mem_size ?w) ?a (length bs) = Inr bs"
    using mem_load_store_same [OF d] by simp
  moreover have "mem_load (mem_data ?w) (mem_size ?w) b m = mem_load (mem_data w) (mem_size w) b m"
    if "b + m \<le> ?a \<or> ?a + length bs \<le> b" for b m
    using mem_load_store_disjoint [OF d that] by simp
  ultimately show ?thesis
    using s(3,4) by (intro exI [of _ st2] exI [of _ ?w] exI [of _ q] exI [of _ fs2]) auto
qed

text \<open>
  C18. A write request that the event queue delivers: its bytes are in the backing store
  (a read of the range gives them, every disjoint range is as before), the
  payload of the link is released, and one fresh payload with the same address, command,
  length and id waits at the tail of the write queue.
\<close>

theorem mem_accepts_write:
  assumes wf: "store_wf fs st" and p: "link_payload st p"
    and cmd: "gp_command (heap st p) \<noteq> TLM_READ_COMMAND"
    and data: "gp_data (heap st p) = Buf_ptr bs" and len: "length bs = unat (gp_length (heap st p))"
    and fits: "unat (gp_address (heap st p)) + unat (gp_length (heap st p)) \<le> mem_size w"
  shows "\<exists>st' w' q fs'. mw_peq_cb mems (st, w) p BEGIN_REQ = Inr (st', w') \<and>
    store_wf fs' st' \<and> replaces st p st' q \<and> w_queue w' = w_queue w @ [q] \<and> r_queue w' = r_queue w \<and>
    mem_load (mem_data w') (mem_size w') (unat (gp_address (heap st p))) (length bs) = Inr bs \<and>
    (\<forall>b m. b + m \<le> unat (gp_address (heap st p)) \<or> unat (gp_address (heap st p)) + length bs \<le> b \<longrightarrow>
      mem_load (mem_data w') (mem_size w') b m = mem_load (mem_data w) (mem_size w) b m)"
  using assms by (rule accept_write)

text \<open>
  A read request leaves the backing store alone: the payload of the link is released,
  and one fresh payload with its attributes waits at the tail of the read queue.
\<close>

theorem mem_accepts_read:
  assumes wf: "store_wf fs st" and p: "link_payload st p"
    and cmd: "gp_command (heap st p) = TLM_READ_COMMAND"
  shows "\<exists>st' q fs'. mw_peq_cb mems (st, w) p BEGIN_REQ = Inr (st', w\<lparr>r_queue := r_queue w @ [q]\<rparr>) \<and>
    store_wf fs' st' \<and> replaces st p st' q"
proof -
  obtain st1 q st2 fs2 where "gen_trans (mw_mm w) (gp_address (heap st p)) (gp_command (heap st p))
      (gp_length (heap st p)) (gp_id (heap st p)) st = Inr (st1, q)"
    "release p st1 = Inr st2" "store_wf fs2 st2" "replaces st p st2 q"
    using gen_release [OF wf p] by blast
  with cmd show ?thesis by (auto simp: mw_peq_cb_def Let_def)
qed

text \<open>The store of the witnesses: one live payload, created by memory manager 0.\<close>

definition link_store :: "gp \<Rightarrow> store" where
  "link_store g =
     (case st_obtain 0 (sample_store (\<lambda>_. g)) of
        Inr (st, p) \<Rightarrow> upd_gp p (\<lambda>g'. g\<lparr>gp_mm := gp_mm g', gp_ref_count := gp_ref_count g'\<rparr>) st
      | Inl e \<Rightarrow> sample_store (\<lambda>_. g))"

lemma link_store_ok:
  "store_wf (\<lambda>_. []) (link_store g)" "link_payload (link_store g) 0"
  "gp_command (heap (link_store g) 0) = gp_command g" "gp_data (heap (link_store g) 0) = gp_data g"
  "gp_length (heap (link_store g) 0) = gp_length g" "gp_address (heap (link_store g) 0) = gp_address g"
proof -
  have "next_pid (sample_store (\<lambda>_. g)) = 0"
    by (simp add: sample_store_def store_init_def)
  with st_obtain_new [OF sample_store_wf [of "\<lambda>_. g"], of 0] obtain st where
    o: "st_obtain 0 (sample_store (\<lambda>_. g)) = Inr (st, 0)" and wf: "store_wf (\<lambda>_. []) st"
    and l: "live st = insert 0 (live (sample_store (\<lambda>_. g)))" and r: "gp_ref_count (heap st 0) = 1"
    by auto
  let ?f = "\<lambda>g'. g\<lparr>gp_mm := gp_mm g', gp_ref_count := gp_ref_count g'\<rparr>"
  from o have eq: "link_store g = upd_gp 0 ?f st" by (simp add: link_store_def)
  have "store_wf (\<lambda>_. []) (upd_gp 0 ?f st)" "live (upd_gp 0 ?f st) = live st"
    by (rule store_wf_upd [OF wf]; simp)+
  with eq l r show "store_wf (\<lambda>_. []) (link_store g)" "link_payload (link_store g) 0"
    "gp_command (heap (link_store g) 0) = gp_command g" "gp_data (heap (link_store g) 0) = gp_data g"
    "gp_length (heap (link_store g) 0) = gp_length g" "gp_address (heap (link_store g) 0) = gp_address g"
    by (simp_all add: link_payload_def)
qed

definition eight_bytes :: "byte list" where
  "eight_bytes = [1, 2, 3, 4, 5, 6, 7, 8]"

definition write_gp :: gp where
  "write_gp = (sample_gp TLM_WRITE_COMMAND 4)\<lparr>gp_data := Buf_ptr eight_bytes, gp_length := 8\<rparr>"

definition small_mem :: "pid list mem_wrapper" where
  "small_mem = mw_init 0 1 64 [] 0 (bridge_init False [])"

theorem mem_accepts_write_witness:
  "\<exists>st' w' q fs'. mw_peq_cb (\<lambda>_. (\<lambda>_. 0, 0)) (link_store write_gp, small_mem) 0 BEGIN_REQ = Inr (st', w') \<and>
    store_wf fs' st' \<and> replaces (link_store write_gp) 0 st' q \<and> w_queue w' = w_queue small_mem @ [q] \<and>
    r_queue w' = r_queue small_mem \<and>
    mem_load (mem_data w') (mem_size w') (unat (gp_address (heap (link_store write_gp) 0))) (length eight_bytes) =
      Inr eight_bytes \<and>
    (\<forall>b m. b + m \<le> unat (gp_address (heap (link_store write_gp) 0)) \<or>
       unat (gp_address (heap (link_store write_gp) 0)) + length eight_bytes \<le> b \<longrightarrow>
      mem_load (mem_data w') (mem_size w') b m = mem_load (mem_data small_mem) (mem_size small_mem) b m)"
  by (rule mem_accepts_write [OF link_store_ok(1,2)])
    (simp_all add: link_store_ok write_gp_def small_mem_def mw_init_def eight_bytes_def)

theorem mem_accepts_read_witness:
  "\<exists>st' q fs'. mw_peq_cb (\<lambda>_. (\<lambda>_. 0, 0)) (link_store (sample_gp TLM_READ_COMMAND 4), small_mem) 0 BEGIN_REQ =
      Inr (st', small_mem\<lparr>r_queue := r_queue small_mem @ [q]\<rparr>) \<and>
    store_wf fs' st' \<and> replaces (link_store (sample_gp TLM_READ_COMMAND 4)) 0 st' q"
  by (rule mem_accepts_read [OF link_store_ok(1,2)]) (simp add: link_store_ok)

section \<open>Every request is answered once\<close>

text \<open>
  The events of the device, each with the store (and time) at that moment. The memory
  system is a parameter.
\<close>

datatype mw_event =
    Mw_fw_call pid tlm_phase
  | Mw_peq "nat \<Rightarrow> (nat \<Rightarrow> byte) \<times> nat" store
  | Mw_posedge
  | Mw_negedge store
  | Mw_dram store nat u32

fun mw_ev :: "(request \<Rightarrow> 'm \<Rightarrow> 'm \<times> bool) \<Rightarrow> ('m \<Rightarrow> 'm \<times> pid list) \<Rightarrow> mw_event \<Rightarrow> 'm mem_wrapper \<Rightarrow>
  sim_error + ('m mem_wrapper \<times> call list)" where
  "mw_ev send tick (Mw_fw_call p ph) w = Inr (fst (mw_nb_transport_fw w p ph), [])"
| "mw_ev send tick (Mw_peq mems st) w = ebind (mw_peq_fire mems (st, w)) (\<lambda>(st', w'). Inr (w', []))"
| "mw_ev send tick Mw_posedge w = Inr (mw_clock_posedge w, [])"
| "mw_ev send tick (Mw_negedge st) w = (case mw_clock_negedge (st, w) of ((st', w'), os) \<Rightarrow> Inr (w', os))"
| "mw_ev send tick (Mw_dram st now ac) w =
     ebind (simulate_dram send tick st now ac w) (\<lambda>(w', stop). Inr (w', []))"

text \<open>Requests on their way to the bridge, and those that the counter counts.\<close>

definition before_bridge :: "'m mem_wrapper \<Rightarrow> nat" where
  "before_bridge w = length (filter (\<lambda>e. snd e = BEGIN_REQ) (mw_peq w)) +
     length (r_queue w) + length (w_queue w) + length (mem_request w)"

definition at_dram :: "('m \<Rightarrow> pid multiset) \<Rightarrow> 'm mem_wrapper \<Rightarrow> nat" where
  "at_dram busy w = size (in_bridge busy (mw_bridge w)) + length (rack_queue w) + length (wack_queue w)"

fun begins :: "mw_event \<Rightarrow> pid list" where
  "begins (Mw_fw_call p ph) = (if ph = BEGIN_REQ then [p] else [])"
| "begins _ = []"

fun answers :: "call \<Rightarrow> pid list" where
  "answers (Bw_read i p) = [p]"
| "answers (Bw_write i p) = [p]"
| "answers _ = []"

definition same_front :: "'m mem_wrapper \<Rightarrow> 'm mem_wrapper \<Rightarrow> bool" where
  "same_front w w' \<longleftrightarrow> mw_peq w' = mw_peq w \<and> r_queue w' = r_queue w \<and> w_queue w' = w_queue w \<and>
     mem_request w' = mem_request w"

lemma same_front_before: "same_front w w' \<Longrightarrow> before_bridge w' = before_bridge w"
  by (simp add: same_front_def before_bridge_def)

lemma mw_issue_fields:
  assumes "mw_issue st now p w = Inr w'"
  shows "same_front w w' \<and> mw_bridge w' = sendCommand p (mw_bridge w) \<and> rack_queue w' = rack_queue w \<and>
    wack_queue w' = wack_queue w \<and> m_outstanding w' = m_outstanding w + 1"
proof (cases "stamp_ns now")
  case (Inl e)
  with assms show ?thesis by (simp add: mw_issue_def)
next
  case (Inr t)
  with assms show ?thesis
    by (cases "gp_command (heap st p) = TLM_READ_COMMAND") (auto simp: mw_issue_def Let_def same_front_def)
qed

lemma issue_all_counts:
  assumes "mw_issue_all st now ps w = Inr w'"
  shows "at_dram busy w' = at_dram busy w + length ps \<and> m_outstanding w' = m_outstanding w + of_nat (length ps) \<and>
    same_front w w'"
  using assms
proof (induction ps arbitrary: w)
  case (Cons p ps)
  then obtain w1 where one: "mw_issue st now p w = Inr w1" and rest: "mw_issue_all st now ps w1 = Inr w'"
    by auto
  from Cons.IH [OF rest] mw_issue_fields [OF one] show ?case
    by (simp add: at_dram_def same_front_def)
qed (simp add: same_front_def)

lemma update_trans_delay_fields:
  assumes "update_trans_delay now w a b = Inr w'"
  shows "same_front w w' \<and> mw_bridge w' = mw_bridge w \<and> rack_queue w' = rack_queue w \<and>
    wack_queue w' = wack_queue w \<and> m_outstanding w' = m_outstanding w"
proof (cases "stamp_ns now")
  case (Inl e)
  with assms show ?thesis by (simp add: update_trans_delay_def)
next
  case (Inr t)
  with assms show ?thesis
    by (cases b) (auto simp: update_trans_delay_def same_front_def case_prod_beta)
qed

lemma complete_counts:
  assumes step: "mw_complete st now w = Inr w'"
  shows "at_dram busy w' = at_dram busy w \<and> m_outstanding w' = m_outstanding w \<and> same_front w w'"
proof (cases "getCompletedCommand (mw_bridge w)")
  case (Pair b o')
  show ?thesis
  proof (cases o')
    case None
    with Pair in_bridge_get(1) [of "mw_bridge w" b] step show ?thesis
      by (auto simp: mw_complete_def same_front_def)
  next
    case (Some p)
    with Pair have b: "getCompletedCommand (mw_bridge w) = (b, Some p)" by simp
    have sz: "size (in_bridge busy (mw_bridge w)) = Suc (size (in_bridge busy b))"
      using in_bridge_get(2) [OF b, of busy] by simp
    show ?thesis
    proof (cases "gp_command (heap st p) = TLM_READ_COMMAND")
      case True
      with step b have "update_trans_delay now (w\<lparr>mw_bridge := b, rack_queue := rack_queue w @ [p]\<rparr>)
          (ucast (gp_address (heap st p))) True = Inr w'"
        by (simp add: mw_complete_def Let_def)
      from update_trans_delay_fields [OF this] sz show ?thesis
        by (simp add: at_dram_def same_front_def)
    next
      case False
      with step b have "update_trans_delay now (w\<lparr>mw_bridge := b, wack_queue := wack_queue w @ [p]\<rparr>)
          (ucast (gp_address (heap st p))) False = Inr w'"
        by (simp add: mw_complete_def Let_def)
      from update_trans_delay_fields [OF this] sz show ?thesis
        by (simp add: at_dram_def same_front_def)
    qed
  qed
qed

lemma dram_counts:
  assumes cons: "conserving send tick busy" and step: "simulate_dram send tick st now ac w = Inr (w', stop)"
  shows "at_dram busy w' = at_dram busy w + length (mem_request w) \<and>
    m_outstanding w' = m_outstanding w + of_nat (length (mem_request w)) \<and>
    before_bridge w' + length (mem_request w) = before_bridge w"
proof -
  from step obtain w1 w2 where one: "mw_complete st now w = Inr w1"
    and two: "mw_issue_all st now (mem_request w1) (w1\<lparr>mem_request := []\<rparr>) = Inr w2"
    and w': "w' = w2\<lparr>mw_bridge := ClockTick send tick st (mw_bridge w2)\<rparr> \<or>
      w' = w2\<lparr>mw_bridge := ClockTick send tick st (mw_bridge w2), mw_total_cycle := mw_total_cycle w2 + 1\<rparr>"
    by (auto simp: simulate_dram_def Let_def split: if_splits)
  have "at_dram busy w' = at_dram busy w2" "m_outstanding w' = m_outstanding w2" "same_front w2 w'"
    using w' in_bridge_tick [OF cons, of st "mw_bridge w2"] by (auto simp: at_dram_def same_front_def)
  with issue_all_counts [OF two, of busy] complete_counts [OF one, of busy] show ?thesis
    by (simp add: at_dram_def before_bridge_def same_front_def)
qed

lemma peq_fire_counts:
  assumes "mw_peq_fire mems (st, w) = Inr (st', w')"
  shows "before_bridge w' = before_bridge w" "at_dram busy w' = at_dram busy w" "m_outstanding w' = m_outstanding w"
proof -
  have "before_bridge w' = before_bridge w \<and> at_dram busy w' = at_dram busy w \<and> m_outstanding w' = m_outstanding w"
  proof (cases "mw_peq w")
    case Nil
    with assms show ?thesis by (simp add: mw_peq_fire_def)
  next
    case (Cons e es)
    obtain p ph where e: "e = (p, ph)" by (cases e)
    with Cons assms have cb: "mw_peq_cb mems (st, w\<lparr>mw_peq := es\<rparr>) p ph = Inr (st', w')"
      by (simp add: mw_peq_fire_def)
    consider "ph \<noteq> BEGIN_REQ" | "ph = BEGIN_REQ" "gp_command (heap st p) = TLM_READ_COMMAND"
      | "ph = BEGIN_REQ" "gp_command (heap st p) \<noteq> TLM_READ_COMMAND" by blast
    then show ?thesis
      using cb Cons e by cases (auto simp: mw_peq_cb_def Let_def before_bridge_def at_dram_def)
  qed
  then show "before_bridge w' = before_bridge w" "at_dram busy w' = at_dram busy w" "m_outstanding w' = m_outstanding w"
    by simp_all
qed

lemma posedge_counts:
  "before_bridge (mw_clock_posedge w) = before_bridge w" "at_dram busy (mw_clock_posedge w) = at_dram busy w"
  "m_outstanding (mw_clock_posedge w) = m_outstanding w"
  by (auto simp: mw_clock_posedge_def before_bridge_def at_dram_def Let_def split: list.split)

text \<open>What the two halves of the falling edge do, as equations.\<close>

definition ack_taken :: "'m mem_wrapper \<Rightarrow> nat" where
  "ack_taken w = (if rack_queue w = [] then 0 else 1) + (if wack_queue w = [] then 0 else 1)"

lemma negedge_counts:
  assumes "mw_clock_negedge (st, w) = ((st', w'), os)"
  shows "tokens answers os = take 1 (rack_queue w) @ take 1 (wack_queue w) \<and>
    rack_queue w' = tl (rack_queue w) \<and> wack_queue w' = tl (wack_queue w) \<and>
    m_outstanding w' = m_outstanding w - of_nat (ack_taken w) \<and>
    mw_bridge w' = mw_bridge w \<and> same_front w w'"
  using assms
  by (auto simp: mw_clock_negedge_def backward_trans_def ack_taken_def same_front_def split: list.splits)

lemma ack_taken_eq:
  "at_dram busy w = length (take 1 (rack_queue w) @ take 1 (wack_queue w)) +
     size (in_bridge busy (mw_bridge w)) + length (tl (rack_queue w)) + length (tl (wack_queue w))"
  "ack_taken w = length (take 1 (rack_queue w) @ take 1 (wack_queue w))"
  by (cases "rack_queue w"; cases "wack_queue w"; simp add: at_dram_def ack_taken_def)+

definition balanced :: "('m \<Rightarrow> pid multiset) \<Rightarrow> nat \<Rightarrow> 'm mem_wrapper \<Rightarrow> nat \<Rightarrow> bool" where
  "balanced busy came w answered \<longleftrightarrow>
     came = answered + before_bridge w + at_dram busy w \<and> m_outstanding w = of_nat (at_dram busy w)"

lemma mw_ev_balanced:
  assumes cons: "conserving send tick busy" and bal: "balanced busy came w answered"
    and step: "mw_ev send tick e w = Inr (w', os)"
  shows "balanced busy (came + length (begins e)) w' (answered + length (tokens answers os))"
proof (cases e)
  case (Mw_fw_call p ph)
  with bal step show ?thesis
    by (auto simp: mw_nb_transport_fw_def balanced_def before_bridge_def at_dram_def)
next
  case (Mw_peq mems st)
  with bal step show ?thesis
    by (auto simp: balanced_def peq_fire_counts)
next
  case Mw_posedge
  with bal step show ?thesis by (auto simp: balanced_def posedge_counts)
next
  case (Mw_negedge st)
  obtain st' where "mw_clock_negedge (st, w) = ((st', w'), os)"
    using Mw_negedge step by (auto split: prod.splits)
  from negedge_counts [OF this] have n: "at_dram busy w = ack_taken w + at_dram busy w'"
    "m_outstanding w' = m_outstanding w - of_nat (ack_taken w)" "before_bridge w' = before_bridge w"
    "length (tokens answers os) = ack_taken w"
    using ack_taken_eq(1) [of busy w] ack_taken_eq(2) [where w = w] same_front_before [of w w']
    by (auto simp: at_dram_def simp del: length_append)
  with bal Mw_negedge show ?thesis by (simp add: balanced_def)
next
  case (Mw_dram st now ac)
  then obtain stop where "simulate_dram send tick st now ac w = Inr (w', stop)" "os = []"
    using step by auto
  with dram_counts [OF cons this(1)] bal Mw_dram show ?thesis by (simp add: balanced_def)
qed

lemma mw_run_balanced:
  assumes cons: "conserving send tick busy"
  shows "balanced busy came w answered \<Longrightarrow> run_events (mw_ev send tick) es w = Inr (w', os) \<Longrightarrow>
    balanced busy (came + length (tokens begins es)) w' (answered + length (tokens answers os))"
proof (induction es arbitrary: w came answered os)
  case (Cons e es)
  then obtain w1 os1 os2 where one: "mw_ev send tick e w = Inr (w1, os1)"
    and rest: "run_events (mw_ev send tick) es w1 = Inr (w', os2)" and os: "os = os1 @ os2"
    by auto
  from Cons.IH [OF mw_ev_balanced [OF cons Cons.prems(1) one] rest] os show ?case
    by (simp add: add.assoc)
qed simp

lemma balanced_init: "busy m = {#} \<Longrightarrow> balanced busy 0 (mw_init i k sz nm g (bridge_init ok m)) 0"
  by (simp add: balanced_def mw_init_def bridge_init_def before_bridge_def at_dram_def in_bridge_def)

text \<open>
  For every memory system that completes each accepted request once, and every run
  of the device that does not end in an error: every request that began was answered or
  is still in exactly one of the queues, in the bridge or in the memory system, and the
  counter \<open>m_outstanding\<close> is the number of those that the memory thread has issued
  and the device has not answered (modulo 2^32).
\<close>

theorem mem_answers_once:
  assumes "conserving send tick busy" and "busy m = {#}"
    and "run_events (mw_ev send tick) es (mw_init i k sz nm g (bridge_init ok m)) = Inr (w, os)"
  shows "length (tokens begins es) = length (tokens answers os) + before_bridge w + at_dram busy w \<and>
    m_outstanding w = of_nat (at_dram busy w)"
  using mw_run_balanced [OF assms(1) balanced_init [where busy = busy and m = m, OF assms(2)] assms(3)]
  by (simp add: balanced_def)

text \<open>
  C34. When the memory thread stops, no core is active and nothing that it issued is
  unanswered; it does stop as soon as this is so.
\<close>

theorem mem_thread_stops:
  assumes "conserving send tick busy" and "balanced busy came w answered"
    and "simulate_dram send tick st now cores w = Inr (w', stop)" and "at_dram busy w' < 2 ^ 32"
  shows "stop \<longleftrightarrow> cores = 0 \<and> at_dram busy w' = 0"
proof -
  have "balanced busy came w' answered"
    using mw_ev_balanced [OF assms(1,2), of "Mw_dram st now cores" w' "[]"] assms(3) by simp
  then have "m_outstanding w' = of_nat (at_dram busy w')" by (simp add: balanced_def)
  then have "m_outstanding w' = 0 \<longleftrightarrow> at_dram busy w' = 0"
    using assms(4) by (auto simp: word_of_nat_eq_0_iff dest: dvd_imp_le)
  with assms(3) show ?thesis
    by (auto simp: simulate_dram_def Let_def split: if_splits)
qed

lemma dram_idle:
  assumes "out_queue (mw_bridge w) = []" and "mem_request w = []" and "m_outstanding w = 0"
  shows "simulate_dram send tick st now 0 w = Inr (w\<lparr>mw_bridge := ClockTick send tick st (mw_bridge w)\<rparr>, True)"
proof -
  have one: "mw_complete st now w = Inr w"
    using assms(1) by (simp add: mw_complete_def getCompletedCommand_def)
  have "w\<lparr>mem_request := []\<rparr> = w"
    using assms(2) by simp
  then show ?thesis
    using one assms(2,3) by (simp add: simulate_dram_def)
qed

lemma small_mem_fields:
  "mw_bridge small_mem = bridge_init False []" "mem_request small_mem = []" "mw_peq small_mem = []"
  "m_outstanding small_mem = 0" "w_queue small_mem = []" "rack_queue small_mem = []" "wack_queue small_mem = []"
  "mem_size small_mem = 64"
  by (simp_all add: small_mem_def mw_init_def)

lemma bridge_init_fields [simp]:
  "in_queue (bridge_init ok m) = []" "out_queue (bridge_init ok m) = []" "memory_system (bridge_init ok m) = m"
  by (simp_all add: bridge_init_def)

lemma balanced_small_mem: "balanced mset 0 small_mem 0"
  unfolding small_mem_def by (rule balanced_init) simp

theorem mem_answers_once_witness:
  "\<exists>w. run_events (mw_ev (fifo_send 4) fifo_tick) [Mw_fw_call 0 BEGIN_REQ, Mw_posedge]
      (mw_init 0 1 64 [] 0 (bridge_init False [])) = Inr (w, []) \<and>
    length (tokens begins [Mw_fw_call 0 BEGIN_REQ, Mw_posedge]) =
      length (tokens answers []) + before_bridge w + at_dram mset w \<and>
    m_outstanding w = of_nat (at_dram mset w)"
proof -
  let ?w = "mw_clock_posedge (fst (mw_nb_transport_fw (mw_init 0 1 64 [] 0 (bridge_init False [])) 0 BEGIN_REQ))"
  have run: "run_events (mw_ev (fifo_send 4) fifo_tick) [Mw_fw_call 0 BEGIN_REQ, Mw_posedge]
      (mw_init 0 1 64 [] 0 (bridge_init False [])) = Inr (?w, [])"
    by (simp only: run_events.simps mw_ev.simps ebind_simps prod.case append_Nil)
  have "mset [] = {#}" by simp
  from mem_answers_once [OF fifo_conserving this run] run show ?thesis by (intro exI [of _ ?w] conjI) simp_all
qed

theorem mem_thread_stops_witness:
  "\<exists>w' stop. simulate_dram (fifo_send 4) fifo_tick (sample_store (\<lambda>_. write_gp)) 0 0 small_mem = Inr (w', stop) \<and>
    (stop \<longleftrightarrow> (0::u32) = 0 \<and> at_dram mset w' = 0)"
proof -
  let ?w = "small_mem\<lparr>mw_bridge := ClockTick (fifo_send 4) fifo_tick (sample_store (\<lambda>_. write_gp)) (mw_bridge small_mem)\<rparr>"
  have step: "simulate_dram (fifo_send 4) fifo_tick (sample_store (\<lambda>_. write_gp)) 0 0 small_mem = Inr (?w, True)"
    by (rule dram_idle) (simp_all add: small_mem_fields)
  have "at_dram mset ?w < 2 ^ 32"
    by (simp add: at_dram_def small_mem_fields in_bridge_tick [OF fifo_conserving]) (simp add: in_bridge_def)
  from mem_thread_stops [OF fifo_conserving balanced_small_mem step this] step show ?thesis by blast
qed

text \<open>
  The counter does not see the requests that still wait in front of the bridge: after
  the last core has terminated, the memory thread stops although an accepted write
  is waiting in the write queue, and nothing else ever serves it.
\<close>

theorem mem_thread_stops_early:
  "\<exists>w w'. run_events (mw_ev (fifo_send 4) fifo_tick)
      [Mw_fw_call 0 BEGIN_REQ, Mw_peq (\<lambda>_. (\<lambda>_. 0, 0)) (link_store write_gp)] small_mem = Inr (w, []) \<and>
    simulate_dram (fifo_send 4) fifo_tick (link_store write_gp) 0 0 w = Inr (w', True) \<and>
    length (w_queue w') = 1"
proof -
  obtain st' q st2 fs2 where g: "gen_trans (mw_mm small_mem) (gp_address (heap (link_store write_gp) 0))
      (gp_command (heap (link_store write_gp) 0)) (gp_length (heap (link_store write_gp) 0))
      (gp_id (heap (link_store write_gp) 0)) (link_store write_gp) = Inr (st', q)"
    and r: "release 0 st' = Inr st2" and "store_wf fs2 st2" and "replaces (link_store write_gp) 0 st2 q"
    by (rule gen_release [OF link_store_ok(1,2)])
  have "\<exists>d. mem_store (mem_data small_mem) (mem_size small_mem) 4 eight_bytes 8 = Inr d"
    by (simp add: mem_store_def eight_bytes_def small_mem_fields)
  then obtain d where d: "mem_store (mem_data small_mem) (mem_size small_mem) 4 eight_bytes 8 = Inr d" ..
  let ?w = "small_mem\<lparr>mw_peq := [], mem_data := d, w_queue := [q]\<rparr>"
  have "mw_peq_cb (\<lambda>_. (\<lambda>_. 0, 0)) (link_store write_gp, small_mem\<lparr>mw_peq := []\<rparr>) 0 BEGIN_REQ =
      Inr (st2, ?w)"
    using g r d small_mem_fields by (simp add: mw_peq_cb_def Let_def link_store_ok write_gp_def data_read_def eight_bytes_def)
  then have "run_events (mw_ev (fifo_send 4) fifo_tick)
      [Mw_fw_call 0 BEGIN_REQ, Mw_peq (\<lambda>_. (\<lambda>_. 0, 0)) (link_store write_gp)] small_mem = Inr (?w, [])"
    by (simp add: mw_nb_transport_fw_def mw_peq_fire_def small_mem_fields)
  moreover have "simulate_dram (fifo_send 4) fifo_tick (link_store write_gp) 0 0 ?w =
      Inr (?w\<lparr>mw_bridge := ClockTick (fifo_send 4) fifo_tick (link_store write_gp) (mw_bridge ?w)\<rparr>, True)"
    by (rule dram_idle) (simp_all add: small_mem_fields)
  moreover have "length (w_queue (?w\<lparr>mw_bridge := ClockTick (fifo_send 4) fifo_tick (link_store write_gp)
      (mw_bridge ?w)\<rparr>)) = 1"
    by simp
  ultimately show ?thesis by blast
qed

section \<open>Latencies\<close>

lemma stamp_ns_Inr: "stamp_ns now = Inr t \<longleftrightarrow> now div 1000 < 2 ^ 31 \<and> t = of_nat (now div 1000)"
  by (auto simp: stamp_ns_def)

lemma mw_issue_stamp:
  assumes "mw_issue st now p w = Inr w'"
  shows "now div 1000 < 2 ^ 31 \<and> r_trans_map w' =
    (if gp_command (heap st p) = TLM_READ_COMMAND
     then (r_trans_map w)(ucast (gp_address (heap st p)) \<mapsto> of_nat (now div 1000)) else r_trans_map w)"
  using assms by (cases "gp_command (heap st p) = TLM_READ_COMMAND") (auto simp: mw_issue_def Let_def stamp_ns_Inr)

lemma issue_all_stamps:
  assumes "mw_issue_all st now ps w = Inr w'" and "p \<in> set ps" and "gp_command (heap st p) = TLM_READ_COMMAND"
  shows "now div 1000 < 2 ^ 31 \<and> r_trans_map w' (ucast (gp_address (heap st p))) = Some (of_nat (now div 1000))"
proof -
  let ?t = "of_nat (now div 1000) :: u32"
  have keep: "r_trans_map w a = Some ?t \<Longrightarrow> mw_issue_all st now ps w = Inr w' \<Longrightarrow> r_trans_map w' a = Some ?t"
    for a ps w
  proof (induction ps arbitrary: w)
    case (Cons q qs)
    from Cons.prems(2) obtain w1 where one: "mw_issue st now q w = Inr w1"
      and rest: "mw_issue_all st now qs w1 = Inr w'" by auto
    have "r_trans_map w1 a = Some ?t" using mw_issue_stamp [OF one] Cons.prems(1) by simp
    from Cons.IH [OF this rest] show ?case .
  qed simp
  show ?thesis
    using assms
  proof (induction ps arbitrary: w)
    case (Cons q qs)
    then obtain w1 where one: "mw_issue st now q w = Inr w1" and rest: "mw_issue_all st now qs w1 = Inr w'"
      by auto
    show ?case
    proof (cases "p = q")
      case True
      with mw_issue_stamp [OF one] Cons.prems(3)
      have "now div 1000 < 2 ^ 31" "r_trans_map w1 (ucast (gp_address (heap st p))) = Some ?t" by simp_all
      with keep [OF _ rest] show ?thesis by blast
    next
      case False
      with Cons.IH [OF rest] Cons.prems show ?thesis by simp
    qed
  qed simp
qed

lemma of_nat_diff_word: "m \<le> n \<Longrightarrow> of_nat n - of_nat m = (of_nat (n - m) :: 'a::len word)"
  by (simp add: of_nat_diff)

text \<open>
  The latency of a read: issued at one time and completed at a later one, it adds the
  difference of the two times in whole nanoseconds to the total, as long as no other
  read of the same (32-bit) address was issued in between.
\<close>

theorem mem_read_latency:
  assumes "mw_issue_all st now1 ps w = Inr w1" and "p \<in> set ps"
    and "gp_command (heap st p) = TLM_READ_COMMAND" and a: "a = ucast (gp_address (heap st p))"
    and "r_trans_map w2 a = r_trans_map w1 a"
    and "now1 \<le> now2" and "now2 div 1000 < 2 ^ 31"
  shows "\<exists>w3. update_trans_delay now2 w2 a True = Inr w3 \<and>
    total_read_latency (mw_stats w3) =
      total_read_latency (mw_stats w2) + of_nat (now2 div 1000 - now1 div 1000)"
proof -
  have "r_trans_map w2 a = Some (of_nat (now1 div 1000))"
    using issue_all_stamps [OF assms(1-3)] a assms(5) by simp
  moreover have "now1 div 1000 \<le> now2 div 1000"
    using assms(6) by (rule div_le_mono)
  moreover have "stamp_ns now2 = Inr (of_nat (now2 div 1000))"
    using assms(7) by (simp add: stamp_ns_def)
  ultimately have "update_trans_delay now2 w2 a True = Inr (w2\<lparr>r_trans_map := r_trans_map w2,
      mw_stats := update_read_latency (of_nat (now2 div 1000 - now1 div 1000)) (mw_stats w2)\<rparr>)"
    by (simp add: update_trans_delay_def of_nat_diff_word del: of_nat_diff)
  then show ?thesis
    by (intro exI conjI, assumption) (simp add: update_read_latency_def)
qed

theorem mem_read_latency_witness:
  "\<exists>w1 w3. mw_issue_all (sample_store (\<lambda>_. sample_gp TLM_READ_COMMAND 64)) 5000 [0] small_mem = Inr w1 \<and>
    update_trans_delay 47999 w1 64 True = Inr w3 \<and>
    total_read_latency (mw_stats w3) = total_read_latency (mw_stats w1) + 42"
proof -
  let ?st = "sample_store (\<lambda>_. sample_gp TLM_READ_COMMAND 64)"
  have "\<exists>w1. mw_issue_all ?st 5000 [0] small_mem = Inr w1"
    by (simp add: mw_issue_def stamp_ns_def Let_def)
  then obtain w1 where w1: "mw_issue_all ?st 5000 [0] small_mem = Inr w1" ..
  from mem_read_latency [OF w1, of 0 64 w1 47999] w1 show ?thesis by auto
qed

text \<open>
  The map of the start times has one entry for each address, so a second read of an
  address that is still outstanding makes the first one look faster: issued at 0 ns and at
  10 ns and both completed at 20 ns, the two count 20 ns together instead of 30 ns.
\<close>

theorem mem_same_address_latency:
  "\<exists>w. ebind (mw_issue (sample_store (\<lambda>_. sample_gp TLM_READ_COMMAND 64)) 0 0 small_mem) (\<lambda>w1.
     ebind (mw_issue (sample_store (\<lambda>_. sample_gp TLM_READ_COMMAND 64)) 10000 1 w1) (\<lambda>w2.
     ebind (update_trans_delay 20000 w2 64 True) (\<lambda>w3. update_trans_delay 20000 w3 64 True))) = Inr w \<and>
   total_read_latency (mw_stats w) = 20"
  by (simp add: mw_issue_def stamp_ns_def Let_def update_trans_delay_def update_read_latency_def
      update_total_read_size_def increase_r_request_def small_mem_def mw_init_def set_name_def stats_new_def)

end
