(* ===== verification/Sync_Object.thy ===== *)
theory Sync_Object
  imports Prelude
begin

text \<open>
  The signals that order a read after the write of the same packet address
  (\<open>backplane/utilities/sync_object.h\<close>): one flag per address, in an array of
  2000000000 flags that all hosts share. An index outside the array is an error
  of the model; the C++ code does not check it.
\<close>

definition SYNC_SIZE :: nat where
  "SYNC_SIZE = 2000000000"

type_synonym sync_object = "u32 \<Rightarrow> bool"

definition sync_init :: sync_object where
  "sync_init = (\<lambda>_. False)"

definition sync_signal :: "u32 \<Rightarrow> sync_object \<Rightarrow> sim_error + sync_object" where
  "sync_signal sync_id s =
     (if unat sync_id < SYNC_SIZE then Inr (s(sync_id := True)) else Inl Out_of_bounds)"

definition sync_free :: "u32 \<Rightarrow> sync_object \<Rightarrow> sim_error + sync_object" where
  "sync_free sync_id s =
     (if unat sync_id < SYNC_SIZE then Inr (s(sync_id := False)) else Inl Out_of_bounds)"

definition check_signal :: "u32 \<Rightarrow> sync_object \<Rightarrow> sim_error + bool" where
  "check_signal sync_id s =
     (if unat sync_id < SYNC_SIZE then Inr (if s sync_id then True else False)
      else Inl Out_of_bounds)"

text \<open>
  The contract that a waiting read relies on: after a signal the check succeeds, after
  \<open>free\<close> it fails, and neither touches another address.
\<close>

locale signals =
  fixes valid :: "'i \<Rightarrow> bool"
    and signal :: "'i \<Rightarrow> 's \<Rightarrow> sim_error + 's"
    and free :: "'i \<Rightarrow> 's \<Rightarrow> sim_error + 's"
    and check :: "'i \<Rightarrow> 's \<Rightarrow> sim_error + bool"
  assumes signal_ok: "valid i \<Longrightarrow> \<exists>s'. signal i s = Inr s'"
    and free_ok: "valid i \<Longrightarrow> \<exists>s'. free i s = Inr s'"
    and check_ok: "valid i \<Longrightarrow> \<exists>b. check i s = Inr b"
    and check_signal: "signal i s = Inr s' \<Longrightarrow> check i s' = Inr True"
    and check_free: "free i s = Inr s' \<Longrightarrow> check i s' = Inr False"
    and check_signal_other: "signal i s = Inr s' \<Longrightarrow> j \<noteq> i \<Longrightarrow> check j s' = check j s"
    and check_free_other: "free i s = Inr s' \<Longrightarrow> j \<noteq> i \<Longrightarrow> check j s' = check j s"
begin

text \<open>Two signals before the reader looks leave one signal: the reader consumes both at once.\<close>

lemma signals_merge:
  assumes "signal i s = Inr s1" and "signal i s1 = Inr s2" and "free i s2 = Inr s3"
  shows "check i s3 = Inr False"
  using assms(3) by (rule check_free)

end

interpretation sync: signals "\<lambda>i. unat i < SYNC_SIZE" sync_signal sync_free check_signal
  by unfold_locales
    (auto simp: sync_signal_def sync_free_def check_signal_def split: if_splits)

end
