(* ===== verification/Shmem.thy ===== *)
theory Shmem
  imports Packet_Buffer
begin

text \<open>
  The two ends of the shared-memory channel between a host process and the simulator:
  \<open>ShmemCommunicator\<close> (\<open>backplane/utilities/shmem_communicator.cpp\<close>) on the side of
  the simulator and \<open>packetManager\<close> (\<open>host/packetManager.cpp\<close>) on the side of the
  host process. The operating-system calls that map the segments are not modelled; a
  channel is the pair of mapped ring buffers. A loop that polls a ring with
  \<open>nanosleep\<close> is a function whose result \<open>None\<close> means that the condition it polls for
  does not hold yet.
\<close>

section \<open>The channel\<close>

text \<open>
  Segment \<open>ib\<close> carries packets from the host process to the simulator (its send buffer,
  the communicator's receive buffer), segment \<open>bi\<close> the other way.
\<close>

record channel =
  ib :: packet_buffer
  bi :: packet_buffer

text \<open>\<open>memset (buffer, 0, sizeof (PacketBuffer))\<close>.\<close>

definition zero_ring :: packet_buffer where
  "zero_ring = \<lparr>pb_start = 0, pb_end = 0, pb_size = 0, pb_elems = (\<lambda>_. zero_packet)\<rparr>"

section \<open>The side of the simulator\<close>

definition shm_prepare_connection :: "channel \<Rightarrow> channel" where
  "shm_prepare_connection ch = ch\<lparr>bi := pb_init zero_ring, ib := pb_init zero_ring\<rparr>"

text \<open>The value returned is \<open>sizeof (pkt)\<close>, the size of the pointer.\<close>

definition shm_send_packet :: "packet \<Rightarrow> channel \<Rightarrow> (channel \<times> nat) option" where
  "shm_send_packet p ch =
     (if pb_is_full (bi ch) then None else Some (ch\<lparr>bi := fst (pb_write (bi ch) p)\<rparr>, 8))"

text \<open>
  \<open>recv_packet (&packet)\<close> returns 0 and leaves the packet as it was when there is nothing
  to read.
\<close>

definition shm_recv_packet :: "packet \<Rightarrow> channel \<Rightarrow> channel \<times> packet \<times> nat" where
  "shm_recv_packet old ch =
     (if pb_is_empty (ib ch) then (ch, old, 0)
      else (case pb_read (ib ch) of (r, p, n) \<Rightarrow> (ch\<lparr>ib := r\<rparr>, p, n)))"

definition shm_wait_connection :: "channel \<Rightarrow> channel option" where
  "shm_wait_connection ch =
     (if pb_is_empty (ib ch) then None else Some (ch\<lparr>ib := fst (pb_read (ib ch))\<rparr>))"

section \<open>The side of the host process\<close>

definition pm_is_empty :: "channel \<Rightarrow> bool" where
  "pm_is_empty ch = pb_is_empty (bi ch)"

definition pm_sendPacket :: "packet \<Rightarrow> channel \<Rightarrow> channel option" where
  "pm_sendPacket p ch =
     (if pb_is_full (ib ch) then None else Some (ch\<lparr>ib := fst (pb_write (ib ch) p)\<rparr>))"

definition pm_recvPacket :: "channel \<Rightarrow> (channel \<times> packet) option" where
  "pm_recvPacket ch =
     (if pb_is_empty (bi ch) then None
      else (case pb_read (bi ch) of (r, p, n) \<Rightarrow> Some (ch\<lparr>bi := r\<rparr>, p)))"

text \<open>Both rings are cleared once more, and one packet tells the simulator to go on.\<close>

definition pm_prepare_connection :: "channel \<Rightarrow> channel option" where
  "pm_prepare_connection ch =
     pm_sendPacket (zero_packet\<lparr>p_type := packet_write\<rparr>)
       (ch\<lparr>ib := pb_init zero_ring, bi := pb_init zero_ring\<rparr>)"

text \<open>
  \<open>makePacket\<close>; the data, if any, are copied for the global packet size, whatever the
  size argument says.
\<close>

definition pm_makePacket ::
  "u32 \<Rightarrow> packet_type \<Rightarrow> u32 \<Rightarrow> byte list option \<Rightarrow> u32 \<Rightarrow> u32 \<Rightarrow> u64 \<Rightarrow> sim_error + packet" where
  "pm_makePacket packet_size t address dat size' device delta =
     (let p = zero_packet\<lparr>p_type := t, p_size := size', p_delta := delta, p_address := address,
                p_device_id := device\<rparr>
      in case dat of
           None \<Rightarrow> Inr p
         | Some bs \<Rightarrow> ebind (memcpy (p_data p) 0 bs 0 (unat packet_size)) (\<lambda>d. Inr (p\<lparr>p_data := d\<rparr>)))"

definition pm_request ::
  "u32 \<Rightarrow> packet_type \<Rightarrow> u32 \<Rightarrow> byte list option \<Rightarrow> u32 \<Rightarrow> u32 \<Rightarrow> u64 \<Rightarrow> channel \<Rightarrow> sim_error + channel option"
where
  "pm_request packet_size t address dat size' device delta ch =
     ebind (pm_makePacket packet_size t address dat size' device delta) (\<lambda>p. Inr (pm_sendPacket p ch))"

definition pm_readRequest :: "u32 \<Rightarrow> u32 \<Rightarrow> u32 \<Rightarrow> u32 \<Rightarrow> u64 \<Rightarrow> channel \<Rightarrow> sim_error + channel option" where
  "pm_readRequest packet_size address size' device delta =
     pm_request packet_size packet_read address None size' device delta"

definition pm_writeRequest ::
  "u32 \<Rightarrow> u32 \<Rightarrow> byte list \<Rightarrow> u32 \<Rightarrow> u32 \<Rightarrow> u64 \<Rightarrow> channel \<Rightarrow> sim_error + channel option" where
  "pm_writeRequest packet_size address dat size' device delta =
     pm_request packet_size packet_write address (Some dat) size' device delta"

definition pm_signalRequest :: "u32 \<Rightarrow> u32 \<Rightarrow> channel \<Rightarrow> sim_error + channel option" where
  "pm_signalRequest packet_size signalID = pm_request packet_size packet_bar_signal signalID None 0 0 0"

definition pm_waitRequest :: "u32 \<Rightarrow> u32 \<Rightarrow> channel \<Rightarrow> sim_error + channel option" where
  "pm_waitRequest packet_size waitID = pm_request packet_size packet_bar_wait waitID None 0 0 0"

definition pm_terminateRequest :: "u32 \<Rightarrow> u64 \<Rightarrow> channel \<Rightarrow> sim_error + channel option" where
  "pm_terminateRequest packet_size delta = pm_request packet_size packet_terminated 0 None 0 0 delta"

text \<open>\<open>readPacketData\<close>: the data of the next packet, copied into the caller's buffer.\<close>

definition pm_readPacketData :: "u32 \<Rightarrow> byte list \<Rightarrow> channel \<Rightarrow> sim_error + (channel \<times> byte list) option" where
  "pm_readPacketData packet_size buf ch =
     (case pm_recvPacket ch of
        None \<Rightarrow> Inr None
      | Some (ch', p) \<Rightarrow> ebind (memcpy buf 0 (p_data p) 0 (unat packet_size)) (\<lambda>d. Inr (Some (ch', d))))"

section \<open>What the channel guarantees\<close>

definition chan_inv :: "channel \<Rightarrow> bool" where
  "chan_inv ch \<longleftrightarrow> pb_inv (ib ch) \<and> pb_inv (bi ch)"

lemma chan_inv_prepare:
  "chan_inv (shm_prepare_connection ch)" "pb_list (ib (shm_prepare_connection ch)) = []"
  by (simp_all add: chan_inv_def shm_prepare_connection_def pb_inv_init pb_list_init)

text \<open>
  One operation of either side, as it changes the channel; a send to a full ring and a
  receive from an empty ring change nothing (the caller polls on). The second result is
  what the operation put into \<open>ib\<close>, took from \<open>ib\<close>, put into \<open>bi\<close> or took from
  \<open>bi\<close>.
\<close>

datatype chan_op = Host_send packet | Sim_recv | Sim_send packet | Host_recv

datatype chan_log = Ib_in packet | Ib_out packet | Bi_in packet | Bi_out packet

fun chan_step :: "chan_op \<Rightarrow> channel \<Rightarrow> channel \<times> chan_log list" where
  "chan_step (Host_send p) ch = (case pm_sendPacket p ch of None \<Rightarrow> (ch, []) | Some ch' \<Rightarrow> (ch', [Ib_in p]))"
| "chan_step Sim_recv ch =
     (case shm_recv_packet zero_packet ch of (ch', p, n) \<Rightarrow> if n = 0 then (ch', []) else (ch', [Ib_out p]))"
| "chan_step (Sim_send p) ch =
     (case shm_send_packet p ch of None \<Rightarrow> (ch, []) | Some (ch', n) \<Rightarrow> (ch', [Bi_in p]))"
| "chan_step Host_recv ch = (case pm_recvPacket ch of None \<Rightarrow> (ch, []) | Some (ch', p) \<Rightarrow> (ch', [Bi_out p]))"

fun chan_run :: "chan_op list \<Rightarrow> channel \<Rightarrow> channel \<times> chan_log list" where
  "chan_run [] ch = (ch, [])"
| "chan_run (x # xs) ch =
     (case chan_step x ch of (ch1, l1) \<Rightarrow> case chan_run xs ch1 of (ch2, l2) \<Rightarrow> (ch2, l1 @ l2))"

fun ib_in :: "chan_log \<Rightarrow> packet list" where "ib_in (Ib_in p) = [p]" | "ib_in _ = []"
fun ib_out :: "chan_log \<Rightarrow> packet list" where "ib_out (Ib_out p) = [p]" | "ib_out _ = []"
fun bi_in :: "chan_log \<Rightarrow> packet list" where "bi_in (Bi_in p) = [p]" | "bi_in _ = []"
fun bi_out :: "chan_log \<Rightarrow> packet list" where "bi_out (Bi_out p) = [p]" | "bi_out _ = []"

lemma chan_step_ok:
  assumes inv: "chan_inv ch" and step: "chan_step x ch = (ch', l)"
  shows "chan_inv ch' \<and> tokens ib_out l @ pb_list (ib ch') = pb_list (ib ch) @ tokens ib_in l \<and>
    tokens bi_out l @ pb_list (bi ch') = pb_list (bi ch) @ tokens bi_in l"
proof (cases x)
  case (Host_send p)
  with inv step ring.put_inv [of "ib ch" p] ring.put_list [of "ib ch" p] show ?thesis
    by (auto simp: pm_sendPacket_def chan_inv_def pb_put_def split: if_splits)
next
  case Sim_recv
  with inv step ring.get_inv [of "ib ch"] ring.get_list [of "ib ch"] show ?thesis
    by (auto simp: shm_recv_packet_def chan_inv_def pb_get_def pb_read_def sizeof_packet_eq split: if_splits)
next
  case (Sim_send p)
  with inv step ring.put_inv [of "bi ch" p] ring.put_list [of "bi ch" p] show ?thesis
    by (auto simp: shm_send_packet_def chan_inv_def pb_put_def split: if_splits)
next
  case Host_recv
  with inv step ring.get_inv [of "bi ch"] ring.get_list [of "bi ch"] show ?thesis
    by (auto simp: pm_recvPacket_def chan_inv_def pb_get_def pb_read_def split: if_splits)
qed

lemma chan_run_ok:
  "chan_inv ch \<Longrightarrow> chan_run xs ch = (ch', l) \<Longrightarrow>
   chan_inv ch' \<and> tokens ib_out l @ pb_list (ib ch') = pb_list (ib ch) @ tokens ib_in l \<and>
   tokens bi_out l @ pb_list (bi ch') = pb_list (bi ch) @ tokens bi_in l"
proof (induction xs arbitrary: ch l)
  case Nil
  then show ?case by simp
next
  case (Cons x xs)
  obtain ch1 l1 where one: "chan_step x ch = (ch1, l1)" by (cases "chan_step x ch")
  obtain ch2 l2 where rest2: "chan_run xs ch1 = (ch2, l2)" by (cases "chan_run xs ch1")
  with Cons.prems(2) one have rest: "chan_run xs ch1 = (ch', l2)" and l: "l = l1 @ l2" by auto
  have s: "chan_inv ch1" "tokens ib_out l1 @ pb_list (ib ch1) = pb_list (ib ch) @ tokens ib_in l1"
    "tokens bi_out l1 @ pb_list (bi ch1) = pb_list (bi ch) @ tokens bi_in l1"
    using chan_step_ok [OF Cons.prems(1) one] by simp_all
  from Cons.IH [OF s(1) rest] l show ?case
    by simp (metis append.assoc s(2) s(3))
qed

text \<open>
  C21. After both sides have prepared the connection (in the order of the code: the
  simulator before it starts the host process, then the host process, whose last act is
  the first packet), the simulator's wait ends and both rings are empty. From then on,
  whatever the two sides do and in whatever order, each direction delivers exactly the
  packets that were sent, each once and in order; what is not delivered yet is in the ring.
\<close>

theorem channel_delivers:
  shows "\<exists>ch1 ch2. pm_prepare_connection (shm_prepare_connection ch) = Some ch1 \<and>
    shm_wait_connection ch1 = Some ch2 \<and>
    (case chan_run xs ch2 of (ch3, l) \<Rightarrow>
       tokens ib_out l @ pb_list (ib ch3) = tokens ib_in l \<and>
       tokens bi_out l @ pb_list (bi ch3) = tokens bi_in l)"
proof -
  let ?r = "pb_init zero_ring" and ?p = "zero_packet\<lparr>p_type := packet_write\<rparr>"
  have r: "pb_inv ?r" "pb_list ?r = []" by (simp_all add: pb_inv_init pb_list_init)
  have room: "\<not> pb_is_full ?r"
    using ring.full_iff [OF r(1)] r(2) by (simp add: PKT_BUFFER_SIZE_def)
  let ?ch1 = "ch\<lparr>ib := pb_put ?r ?p, bi := ?r\<rparr>"
  have one: "pm_prepare_connection (shm_prepare_connection ch) = Some ?ch1"
    using room by (simp add: pm_prepare_connection_def shm_prepare_connection_def pm_sendPacket_def pb_put_def)
  have w: "pb_inv (pb_put ?r ?p)" "pb_list (pb_put ?r ?p) = [?p]"
    using ring.put_inv [OF r(1) room] ring.put_list [OF r(1) room] r(2) by simp_all
  have ne: "\<not> pb_is_empty (pb_put ?r ?p)"
    using ring.empty_iff [OF w(1)] w(2) by simp
  let ?ch2 = "?ch1\<lparr>ib := fst (pb_read (pb_put ?r ?p))\<rparr>"
  have two: "shm_wait_connection ?ch1 = Some ?ch2"
    using ne by (simp add: shm_wait_connection_def)
  have "chan_inv ?ch2" "pb_list (ib ?ch2) = []" "pb_list (bi ?ch2) = []"
    using ring.get_inv [OF w(1) ne] ring.get_list [OF w(1) ne] w(2) r by (simp_all add: chan_inv_def pb_get_def)
  moreover obtain ch3 l where "chan_run xs ?ch2 = (ch3, l)" by (cases "chan_run xs ?ch2")
  ultimately have "case chan_run xs ?ch2 of (ch3, l) \<Rightarrow>
       tokens ib_out l @ pb_list (ib ch3) = tokens ib_in l \<and>
       tokens bi_out l @ pb_list (bi ch3) = tokens bi_in l"
    using chan_run_ok [of ?ch2 xs ch3 l] by (simp only: prod.case append_Nil)
  with one two show ?thesis by (intro exI conjI)
qed

text \<open>
  C38. A write request that the host process sends to an empty ring reaches the simulator
  as it was made: type, address, size, device and delta are the arguments, and the data
  of the packet begin with the first \<open>packet_size\<close> bytes of the data.
\<close>

theorem write_request_arrives:
  assumes inv: "chan_inv ch" and nil: "pb_list (ib ch) = []"
    and n: "unat packet_size \<le> MAX_DATA_SIZE" "unat packet_size \<le> length dat"
  shows "\<exists>ch1 ch2 p. pm_writeRequest packet_size a dat sz dev delta ch = Inr (Some ch1) \<and>
    shm_recv_packet old ch1 = (ch2, p, sizeof_packet) \<and>
    p_type p = packet_write \<and> p_address p = a \<and> p_size p = sz \<and> p_device_id p = dev \<and> p_delta p = delta \<and>
    take (unat packet_size) (p_data p) = take (unat packet_size) dat \<and> packet_wf p"
proof -
  let ?p = "zero_packet\<lparr>p_type := packet_write, p_size := sz, p_delta := delta, p_address := a, p_device_id := dev\<rparr>"
  let ?n = "unat packet_size"
  have "length (p_data ?p) = MAX_DATA_SIZE" by (simp add: zero_packet_def)
  then obtain d where d: "memcpy (p_data ?p) 0 dat 0 ?n = Inr d" "take ?n d = take ?n dat" "length d = MAX_DATA_SIZE"
    using n memcpy_defined [of 0 ?n "p_data ?p" 0 dat] memcpy_length [of "p_data ?p" 0 dat 0 ?n] by auto
  have r: "pb_inv (ib ch)" using inv by (simp add: chan_inv_def)
  have room: "\<not> pb_is_full (ib ch)"
    using ring.full_iff [OF r] nil by (simp add: PKT_BUFFER_SIZE_def)
  let ?q = "?p\<lparr>p_data := d\<rparr>"
  have w: "pb_inv (pb_put (ib ch) ?q)" "pb_list (pb_put (ib ch) ?q) = [?q]"
    using ring.put_inv [OF r room] ring.put_list [OF r room] nil by simp_all
  have ne: "\<not> pb_is_empty (pb_put (ib ch) ?q)" using ring.empty_iff [OF w(1)] w(2) by simp
  have got: "fst (snd (pb_read (pb_put (ib ch) ?q))) = ?q"
    using ring.put_get_roundtrip [OF r room nil, of ?q] by (simp add: pb_get_def)
  let ?ch1 = "ch\<lparr>ib := pb_put (ib ch) ?q\<rparr>"
  have "pm_writeRequest packet_size a dat sz dev delta ch = Inr (Some ?ch1)"
    using d(1) room by (simp add: pm_writeRequest_def pm_request_def pm_makePacket_def Let_def pm_sendPacket_def pb_put_def)
  moreover have "shm_recv_packet old ?ch1 = (?ch1\<lparr>ib := fst (pb_read (pb_put (ib ch) ?q))\<rparr>, ?q, sizeof_packet)"
    using ne got by (simp add: shm_recv_packet_def case_prod_beta) (simp add: pb_read_def)
  ultimately show ?thesis
    using d by (intro exI conjI) (assumption | simp add: packet_wf_def)+
qed

theorem write_request_arrives_witness:
  "\<exists>ch1 ch2 p. pm_writeRequest 2 16 [7, 9] 2 0 5 (shm_prepare_connection \<lparr>ib = zero_ring, bi = zero_ring\<rparr>) = Inr (Some ch1) \<and>
    shm_recv_packet zero_packet ch1 = (ch2, p, sizeof_packet) \<and>
    p_type p = packet_write \<and> p_address p = 16 \<and> p_size p = 2 \<and> p_device_id p = 0 \<and> p_delta p = 5 \<and>
    take (unat (2::u32)) (p_data p) = take (unat (2::u32)) [7, 9] \<and> packet_wf p"
  by (rule write_request_arrives [OF chan_inv_prepare]) (simp_all add: MAX_DATA_SIZE_def)

end
