(* ===== verification/Host.thy ===== *)
theory Host
  imports Shmem
begin

text \<open>
  The host object of a wrapper (\<open>backplane/components/host.h\<close> and \<open>.cpp\<close>): its
  status and its channel. Starting the process (\<open>fork\<close> and \<open>system\<close>) and the event
  \<open>packet_handled\<close>, which nothing waits for, are not modelled.
\<close>

datatype status = INIT | RUNNING | BLOCKING | WAITING | TERMINATED

text \<open>The values of the C++ enumeration order the status.\<close>

fun status_value :: "status \<Rightarrow> nat" where
  "status_value INIT = 0"
| "status_value RUNNING = 1"
| "status_value BLOCKING = 2"
| "status_value WAITING = 3"
| "status_value TERMINATED = 4"

lemma status_value_inj: "status_value a = status_value b \<Longrightarrow> a = b"
  by (cases a; cases b; simp)

instantiation status :: linorder
begin

definition less_eq_status :: "status \<Rightarrow> status \<Rightarrow> bool" where
  "less_eq_status a b \<longleftrightarrow> status_value a \<le> status_value b"

definition less_status :: "status \<Rightarrow> status \<Rightarrow> bool" where
  "less_status a b \<longleftrightarrow> status_value a < status_value b"

instance
  by standard (auto simp: less_eq_status_def less_status_def intro: status_value_inj)

end

record host =
  h_status :: status
  h_chan :: channel

definition host_init :: "channel \<Rightarrow> host" where
  "host_init ch = \<lparr>h_status = INIT, h_chan = ch\<rparr>"

text \<open>
  \<open>run_host_proc\<close> up to the wait for the connection, and the wait: \<open>None\<close> while the host
  process has not answered.
\<close>

definition run_host_proc :: "host \<Rightarrow> host" where
  "run_host_proc h = h\<lparr>h_chan := shm_prepare_connection (h_chan h)\<rparr>"

definition set_status :: "status \<Rightarrow> host \<Rightarrow> host" where
  "set_status s h = h\<lparr>h_status := s\<rparr>"

definition get_status :: "host \<Rightarrow> status" where
  "get_status h = h_status h"

definition host_connect :: "host \<Rightarrow> host option" where
  "host_connect h =
     (case shm_wait_connection (h_chan h) of
        None \<Rightarrow> None
      | Some ch \<Rightarrow> Some (set_status RUNNING (h\<lparr>h_chan := ch\<rparr>)))"

definition host_recv_packet :: "packet \<Rightarrow> host \<Rightarrow> host \<times> packet \<times> nat" where
  "host_recv_packet old h =
     (case shm_recv_packet old (h_chan h) of (ch, p, n) \<Rightarrow> (h\<lparr>h_chan := ch\<rparr>, p, n))"

definition host_send_packet :: "packet \<Rightarrow> host \<Rightarrow> (host \<times> nat) option" where
  "host_send_packet p h =
     (case shm_send_packet p (h_chan h) of None \<Rightarrow> None | Some (ch, n) \<Rightarrow> Some (h\<lparr>h_chan := ch\<rparr>, n))"

definition host_response_request :: "packet \<Rightarrow> host \<Rightarrow> (host \<times> nat) option" where
  "host_response_request p h = host_send_packet p h"

end
