(* ===== verification/Sim_Wrapper.thy ===== *)
theory Sim_Wrapper
  imports Timing Statistics Sync_Object Host Mem_Wrapper
begin

text \<open>
  The wrapper of a host (\<open>backplane/components/wrapper/sim_wrapper.h\<close> and \<open>.cpp\<close>): its
  thread takes packets from the host process, orders a read after the write of the same
  address, and splits a packet into payloads; the clock methods hand payloads to the
  upstream port, put the data of read responses together, and signal completed
  writes.
\<close>

section \<open>State\<close>

text \<open>What all modules of the simulator share: payloads, the device of each payload, the
  signals, and the two global counters of \<open>Top.h\<close>.\<close>

record sim =
  s_store :: store
  device_map :: "pid \<rightharpoonup> u32"
  s_sync :: sync_object
  active_cores :: u32
  active_dram :: u32

datatype sw_pc =
    Pp_connect           \<comment> \<open>polling for the first packet of the host process\<close>
  | Pp_poll              \<comment> \<open>at the head of the receive loop\<close>
  | Pp_delta packet      \<comment> \<open>waiting for the delta time of the packet\<close>
  | Pp_sync packet bool  \<comment> \<open>in \<open>handle_wait_packet\<close>, with the value of \<open>sync_done\<close>\<close>
  | Pp_read packet       \<comment> \<open>in \<open>handle_read_packet\<close>, waiting for the CPU latency\<close>
  | Pp_write packet      \<comment> \<open>in \<open>handle_write_packet\<close>, waiting for the CPU latency\<close>
  | Pp_end               \<comment> \<open>waiting at the end of the main loop\<close>
  | Pp_done              \<comment> \<open>the thread has ended and stopped the simulation\<close>

record sim_wrapper = channels +
  sync_queue :: "u32 list"
  wack_incoming :: "pid option"
  rack_incoming :: "pid option"
  host_id :: nat
  sw_mm :: nat
  req_done :: bool
  packet_data :: "byte list"
  rack_num :: u32
  wack_num :: u32
  w_idx :: u32
  r_idx :: u32
  packet_size :: u32
  dram_req_size :: u32
  cpu_latency :: u32
  outstanding :: u32
  active_cycle :: u64
  sw_total_cycle :: u64
  sw_host :: host
  sw_stats :: statistics
  sw_peq :: "pid list"
  received :: bool
  terminated :: bool
  sw_packet :: packet
  sw_pc :: sw_pc

text \<open>
  The state before the thread runs for the first time; \<open>garbage\<close> stands for the
  uninitialised \<open>packet_data\<close> buffer and for the packet variable of the thread.
\<close>

definition sw_init ::
  "nat \<Rightarrow> nat \<Rightarrow> u32 \<Rightarrow> u32 \<Rightarrow> u32 \<Rightarrow> string \<Rightarrow> channel \<Rightarrow> byte list \<Rightarrow> packet \<Rightarrow> sim_wrapper" where
  "sw_init i m latency psize rsize nm ch garbage garbage' =
     \<lparr>r_queue = [], w_queue = [], rack_queue = [], wack_queue = [], sync_queue = [],
      wack_incoming = None, rack_incoming = None, host_id = i, sw_mm = m, req_done = False,
      packet_data = garbage, rack_num = 0, wack_num = 0, w_idx = 0, r_idx = 0, packet_size = psize,
      dram_req_size = rsize, cpu_latency = latency, outstanding = 0, active_cycle = 0,
      sw_total_cycle = 0, sw_host = run_host_proc (host_init ch), sw_stats = set_name nm (stats_new []),
      sw_peq = [], received = False, terminated = False, sw_packet = garbage', sw_pc = Pp_connect\<rparr>"

section \<open>Payloads of a packet\<close>

definition add_payload ::
  "tlm_command \<Rightarrow> u32 \<Rightarrow> u32 \<Rightarrow> data_ptr \<Rightarrow> u32 \<Rightarrow> sim \<times> sim_wrapper \<Rightarrow> sim_error + (sim \<times> sim_wrapper)" where
  "add_payload cmd addr sz dat device sw =
     (case sw of (s, w) \<Rightarrow>
        ebind (st_obtain (sw_mm w) (s_store s)) (\<lambda>(st1, p).
          let st2 = upd_gp p (\<lambda>g. g\<lparr>gp_address := ucast addr, gp_command := cmd, gp_length := sz,
                                    gp_id := of_nat (host_id w)\<rparr>) st1;
              s1 = s\<lparr>device_map := (device_map s)(p \<mapsto> device)\<rparr>
          in Inr (if cmd = TLM_READ_COMMAND
                  then (s1\<lparr>s_store := st2\<rparr>, w\<lparr>r_queue := r_queue w @ [p]\<rparr>)
                  else (s1\<lparr>s_store := upd_gp p (\<lambda>g. g\<lparr>gp_data := dat\<rparr>) st2\<rparr>,
                        w\<lparr>w_queue := w_queue w @ [p]\<rparr>))))"

text \<open>The number of payloads of a packet, \<open>packet_size/dram_req_size\<close>.\<close>

definition payloads_per_packet :: "sim_wrapper \<Rightarrow> sim_error + u32" where
  "payloads_per_packet w =
     (if dram_req_size w = 0 then Inl Division_by_zero else Inr (packet_size w div dram_req_size w))"

definition read_turn :: "packet \<Rightarrow> nat \<Rightarrow> sim \<times> sim_wrapper \<Rightarrow> sim_error + (sim \<times> sim_wrapper)" where
  "read_turn p i sw =
     (let r = dram_req_size (snd sw)
      in add_payload TLM_READ_COMMAND (p_address p + r * of_nat i) r Null_ptr (p_device_id p) sw)"

definition write_turn :: "packet \<Rightarrow> nat \<Rightarrow> sim \<times> sim_wrapper \<Rightarrow> sim_error + (sim \<times> sim_wrapper)" where
  "write_turn p i sw =
     (let r = dram_req_size (snd sw)
      in ebind (memcpy (replicate (unat r) 0) 0 (p_data p) (unat (r * of_nat i)) (unat r)) (\<lambda>bs.
           add_payload TLM_WRITE_COMMAND (p_address p + r * of_nat i) r (Buf_ptr bs) (p_device_id p) sw))"

text \<open>
  The second halves of \<open>handle_read_packet\<close> and \<open>handle_write_packet\<close>, after their last
  \<open>wait\<close>.
\<close>

definition split_read :: "packet \<Rightarrow> sim \<times> sim_wrapper \<Rightarrow> sim_error + (sim \<times> sim_wrapper)" where
  "split_read p sw =
     (case sw of (s, w) \<Rightarrow>
        let w1 = w\<lparr>req_done := False,
                   sw_stats := update_total_read_size (packet_size w) (increase_r_packet (sw_stats w))\<rparr>
        in ebind (payloads_per_packet w1) (\<lambda>n. efold (read_turn p) [0 ..< unat n] (s, w1)))"

definition split_write :: "packet \<Rightarrow> sim \<times> sim_wrapper \<Rightarrow> sim_error + (sim \<times> sim_wrapper)" where
  "split_write p sw =
     (case sw of (s, w) \<Rightarrow>
        let w1 = w\<lparr>req_done := False, sync_queue := sync_queue w @ [p_address p],
                   sw_stats := update_total_write_size (packet_size w) (increase_w_packet (sw_stats w))\<rparr>
        in ebind (payloads_per_packet w1) (\<lambda>n. efold (write_turn p) [0 ..< unat n] (s, w1)))"

section \<open>The thread\<close>

type_synonym sw_result = "sim_error + (sim \<times> sim_wrapper) \<times> pause"

text \<open>The end of the main loop.\<close>

definition sw_tail :: "sim \<times> sim_wrapper \<Rightarrow> (sim \<times> sim_wrapper) \<times> pause" where
  "sw_tail sw =
     (case sw of (s, w) \<Rightarrow>
        if get_status (sw_host w) = TERMINATED \<and> active_dram s = 0
        then ((s, w\<lparr>sw_pc := Pp_done\<rparr>), Stop)
        else ((s, w\<lparr>sw_pc := Pp_end\<rparr>), Wait Delay_period))"

text \<open>One look of \<open>handle_wait_packet\<close>, up to its \<open>wait\<close>.\<close>

definition handle_wait_packet :: "packet \<Rightarrow> sim \<times> sim_wrapper \<Rightarrow> sw_result" where
  "handle_wait_packet p sw =
     (case sw of (s, w) \<Rightarrow>
        ebind (check_signal (p_address p) (s_sync s)) (\<lambda>b.
          Inr ((s, w\<lparr>sw_pc := Pp_sync p b\<rparr>), Wait Delay_period)))"

definition handle_packet :: "packet \<Rightarrow> sim \<times> sim_wrapper \<Rightarrow> sw_result" where
  "handle_packet p sw =
     (case sw of (s, w) \<Rightarrow>
        case p_type p of
          packet_read \<Rightarrow> handle_wait_packet p (s, w)
        | packet_write \<Rightarrow> Inr ((s, w\<lparr>sw_pc := Pp_write p\<rparr>), Wait (ns32 (cpu_latency w)))
        | _ \<Rightarrow> Inr (sw_tail (s, w\<lparr>sw_host := set_status TERMINATED (sw_host w)\<rparr>)))"

text \<open>The head of the receive loop.\<close>

definition sw_poll :: "sim \<times> sim_wrapper \<Rightarrow> sw_result" where
  "sw_poll sw =
     (case sw of (s, w) \<Rightarrow>
        case host_recv_packet (sw_packet w) (sw_host w) of (h, p, n) \<Rightarrow>
          let w1 = w\<lparr>sw_host := h, sw_packet := p\<rparr> in
          if n \<noteq> 0
          then (if p_delta p \<noteq> 0
                then Inr ((s, w1\<lparr>sw_pc := Pp_delta p\<rparr>), Wait (Delay_ns (p_delta p)))
                else handle_packet p (s, w1\<lparr>received := True\<rparr>))
          else if \<not> received w1 then Inr ((s, w1\<lparr>sw_pc := Pp_poll\<rparr>), Spin)
          else if \<not> req_done w1 then Inr ((s, w1\<lparr>sw_pc := Pp_poll\<rparr>), Wait Delay_period)
          else Inr ((s, w1\<lparr>sw_pc := Pp_poll\<rparr>), Spin))"

text \<open>The head of the main loop.\<close>

definition sw_top :: "sim \<times> sim_wrapper \<Rightarrow> sw_result" where
  "sw_top sw =
     (case sw of (s, w) \<Rightarrow>
        if get_status (sw_host w) = RUNNING then sw_poll (s, w)
        else if get_status (sw_host w) = TERMINATED \<and> \<not> terminated w
        then Inr (sw_tail (s\<lparr>active_cores := active_cores s - 1\<rparr>, w\<lparr>terminated := True\<rparr>))
        else Inr (sw_tail (s, w)))"

text \<open>\<open>periodic_process\<close>: run from one \<open>wait\<close> (or one turn of a polling loop) to the next.\<close>

definition periodic_process :: "sim \<times> sim_wrapper \<Rightarrow> sw_result" where
  "periodic_process sw =
     (case sw of (s, w) \<Rightarrow>
        case sw_pc w of
          Pp_connect \<Rightarrow>
            (case host_connect (sw_host w) of
               None \<Rightarrow> Inr ((s, w), Spin)
             | Some h \<Rightarrow> sw_top (s, w\<lparr>sw_host := h\<rparr>))
        | Pp_poll \<Rightarrow> sw_poll (s, w)
        | Pp_delta p \<Rightarrow> handle_packet p (s, w\<lparr>received := True\<rparr>)
        | Pp_sync p b \<Rightarrow>
            (if b then ebind (sync_free (p_address p) (s_sync s)) (\<lambda>sy.
                         Inr ((s\<lparr>s_sync := sy\<rparr>, w\<lparr>sw_pc := Pp_read p\<rparr>), Wait (ns32 (cpu_latency w))))
             else handle_wait_packet p (s, w))
        | Pp_read p \<Rightarrow>
            ebind (split_read p (s, w)) (\<lambda>(s1, w1). Inr (sw_tail (s1, w1\<lparr>r_idx := r_idx w1 + 1\<rparr>)))
        | Pp_write p \<Rightarrow>
            ebind (split_write p (s, w)) (\<lambda>(s1, w1). Inr (sw_tail (s1, w1\<lparr>w_idx := w_idx w1 + 1\<rparr>)))
        | Pp_end \<Rightarrow> sw_top (s, w)
        | Pp_done \<Rightarrow> Inr ((s, w), Stop))"

section \<open>Responses from the link\<close>

definition sw_nb_transport_bw :: "sim_wrapper \<Rightarrow> pid \<Rightarrow> sim_wrapper \<times> tlm_sync_enum" where
  "sw_nb_transport_bw w p = (w\<lparr>sw_peq := sw_peq w @ [p]\<rparr>, TLM_UPDATED)"

definition sw_peq_cb :: "store \<Rightarrow> sim_wrapper \<Rightarrow> pid \<Rightarrow> sim_wrapper" where
  "sw_peq_cb st w p =
     (if gp_command (heap st p) = TLM_READ_COMMAND then w\<lparr>rack_incoming := Some p\<rparr>
      else w\<lparr>wack_incoming := Some p\<rparr>)"

definition sw_peq_fire :: "store \<Rightarrow> sim_wrapper \<Rightarrow> sim_wrapper" where
  "sw_peq_fire st w =
     (case sw_peq w of [] \<Rightarrow> w | p # ps \<Rightarrow> sw_peq_cb st (w\<lparr>sw_peq := ps\<rparr>) p)"

definition sw_clock_posedge :: "sim_wrapper \<Rightarrow> sim_wrapper" where
  "sw_clock_posedge w =
     (let w1 = (case rack_incoming w of None \<Rightarrow> w
                | Some p \<Rightarrow> w\<lparr>rack_queue := rack_queue w @ [p], rack_incoming := None\<rparr>)
      in case wack_incoming w1 of None \<Rightarrow> w1
         | Some p \<Rightarrow> w1\<lparr>wack_queue := wack_queue w1 @ [p], wack_incoming := None\<rparr>)"

section \<open>The falling edge\<close>

definition forward_read :: "sim_wrapper \<Rightarrow> sim_wrapper \<times> call list" where
  "forward_read w =
     (case r_queue w of [] \<Rightarrow> (w, [])
      | p # ps \<Rightarrow> (w\<lparr>r_queue := ps, outstanding := outstanding w + 1\<rparr>, [Fw_read 0 p]))"

definition forward_write :: "sim_wrapper \<Rightarrow> sim_wrapper \<times> call list" where
  "forward_write w =
     (case w_queue w of [] \<Rightarrow> (w, [])
      | p # ps \<Rightarrow> (w\<lparr>w_queue := ps, outstanding := outstanding w + 1\<rparr>, [Fw_write 0 p]))"

text \<open>
  A read response: the call with \<open>END_RESP\<close> makes the upstream port release the payload;
  the data pointer and the length, which the code reads afterwards, are not changed by
  that. When all payloads of a packet have arrived, the packet goes to the host process.
\<close>

definition respond :: "sim_wrapper \<Rightarrow> sim_error + sim_wrapper" where
  "respond w =
     ebind (memcpy (p_data zero_packet) 0 (packet_data w) 0 (unat (packet_size w))) (\<lambda>d.
       case host_response_request (zero_packet\<lparr>p_size := packet_size w, p_data := d\<rparr>) (sw_host w) of
         None \<Rightarrow> Inl Would_block
       | Some (h, n) \<Rightarrow> Inr (w\<lparr>sw_host := h, req_done := True, rack_num := 0\<rparr>))"

definition take_rack ::
  "(nat \<Rightarrow> (nat \<Rightarrow> byte) \<times> nat) \<Rightarrow> store \<Rightarrow> sim_wrapper \<Rightarrow> sim_error + (sim_wrapper \<times> call list)" where
  "take_rack mems st w =
     (case rack_queue w of
        [] \<Rightarrow> Inr (w, [])
      | p # ps \<Rightarrow>
          let g = heap st p; len = unat (gp_length g) in
          ebind (data_read mems (gp_data g) len) (\<lambda>bs.
            ebind (memcpy (packet_data w) (unat (dram_req_size w * rack_num w)) bs 0 len) (\<lambda>d.
              let w1 = w\<lparr>rack_queue := ps, packet_data := d, rack_num := rack_num w + 1,
                         outstanding := outstanding w - 1\<rparr>
              in ebind (payloads_per_packet w1) (\<lambda>n.
                   ebind (if rack_num w1 = n then respond w1 else Inr w1) (\<lambda>w2.
                     Inr (w2, [Fw_end 0 p]))))))"

definition take_wack :: "sim \<Rightarrow> sim_wrapper \<Rightarrow> sim_error + (sim \<times> sim_wrapper \<times> call list)" where
  "take_wack s w =
     (case wack_queue w of
        [] \<Rightarrow> Inr (s, w, [])
      | p # ps \<Rightarrow>
          let w1 = w\<lparr>wack_queue := ps, wack_num := wack_num w + 1, outstanding := outstanding w - 1\<rparr>
          in ebind (payloads_per_packet w1) (\<lambda>n.
               if wack_num w1 = n
               then ebind (pop_front (sync_queue w1)) (\<lambda>(sig, sigs).
                      ebind (sync_signal sig (s_sync s)) (\<lambda>sy.
                        Inr (s\<lparr>s_sync := sy\<rparr>, w1\<lparr>sync_queue := sigs, wack_num := 0\<rparr>, [Fw_end 0 p])))
               else Inr (s, w1, [Fw_end 0 p])))"

definition sw_clock_negedge ::
  "(nat \<Rightarrow> (nat \<Rightarrow> byte) \<times> nat) \<Rightarrow> sim \<times> sim_wrapper \<Rightarrow> sim_error + ((sim \<times> sim_wrapper) \<times> call list)" where
  "sw_clock_negedge mems sw =
     (case sw of (s, w) \<Rightarrow>
        case forward_read w of (w1, os1) \<Rightarrow>
        case forward_write w1 of (w2, os2) \<Rightarrow>
        ebind (take_rack mems (s_store s) w2) (\<lambda>(w3, os3).
          ebind (take_wack s w3) (\<lambda>(s1, w4, os4).
            Inr ((s1, w4\<lparr>active_cycle := (if 0 < outstanding w4 then active_cycle w4 + 1 else active_cycle w4),
                         sw_total_cycle := sw_total_cycle w4 + 1\<rparr>), os1 @ os2 @ os3 @ os4))))"

end
