(* ===== verification/Sim_Split.thy ===== *)
theory Sim_Split
  imports Sim_Wrapper
begin

text \<open>
  How the wrapper splits a packet into payloads and puts the data of the read responses
  together: the payloads of a packet cover it exactly, in order, and a response
  packet carries the data of the payloads in the order in which they came back.
\<close>

section \<open>One payload\<close>

definition carries :: "store \<Rightarrow> pid \<Rightarrow> tlm_command \<Rightarrow> u32 \<Rightarrow> u32 \<Rightarrow> nat \<Rightarrow> data_ptr \<Rightarrow> bool" where
  "carries st p cmd a sz i dat \<longleftrightarrow>
     gp_address (heap st p) = ucast a \<and> gp_command (heap st p) = cmd \<and> gp_length (heap st p) = sz \<and>
     gp_id (heap st p) = of_nat i \<and> (cmd \<noteq> TLM_READ_COMMAND \<longrightarrow> gp_data (heap st p) = dat) \<and>
     gp_ref_count (heap st p) = 1"

text \<open>The wrapper's queue for a command.\<close>

definition enqueue :: "tlm_command \<Rightarrow> pid list \<Rightarrow> sim_wrapper \<Rightarrow> sim_wrapper" where
  "enqueue cmd qs w =
     (if cmd = TLM_READ_COMMAND then w\<lparr>r_queue := r_queue w @ qs\<rparr> else w\<lparr>w_queue := w_queue w @ qs\<rparr>)"

lemma enqueue_simps [simp]:
  "enqueue cmd qs (enqueue cmd ps w) = enqueue cmd (ps @ qs) w"
  "enqueue cmd [] w = w"
  "dram_req_size (enqueue cmd qs w) = dram_req_size w" "host_id (enqueue cmd qs w) = host_id w"
  "sw_mm (enqueue cmd qs w) = sw_mm w" "packet_size (enqueue cmd qs w) = packet_size w"
  by (simp_all add: enqueue_def)

lemma add_payload_ok:
  assumes "store_wf fs (s_store s)"
  obtains s' q fs' where "add_payload cmd a sz dat dev (s, w) = Inr (s', enqueue cmd [q] w)"
    and "store_wf fs' (s_store s')" and "q \<notin> live (s_store s)"
    and "live (s_store s') = insert q (live (s_store s))"
    and "\<forall>r. r \<noteq> q \<longrightarrow> heap (s_store s') r = heap (s_store s) r"
    and "carries (s_store s') q cmd a sz (host_id w) dat"
    and "device_map s' = (device_map s)(q \<mapsto> dev)" and "s_sync s' = s_sync s"
proof -
  obtain st1 q fs1 where one: "st_obtain (sw_mm w) (s_store s) = Inr (st1, q)" "store_wf fs1 st1"
    "q \<notin> live (s_store s)" "live st1 = insert q (live (s_store s))"
    "\<forall>r. r \<noteq> q \<longrightarrow> heap st1 r = heap (s_store s) r" "gp_ref_count (heap st1 q) = 1"
    using st_obtain_fresh [OF assms, of "sw_mm w"] by blast
  let ?f = "\<lambda>g. g\<lparr>gp_address := ucast a, gp_command := cmd, gp_length := sz, gp_id := of_nat (host_id w)\<rparr>"
  let ?h = "\<lambda>g. g\<lparr>gp_data := dat\<rparr>"
  let ?st2 = "upd_gp q ?f st1"
  have wf2: "store_wf fs1 ?st2" "live ?st2 = live st1"
    by (rule store_wf_upd [OF one(2)]; simp)+
  have wf3: "store_wf fs1 (upd_gp q ?h ?st2)" "live (upd_gp q ?h ?st2) = live ?st2"
    by (rule store_wf_upd [OF wf2(1)]; simp)+
  let ?s = "s\<lparr>device_map := (device_map s)(q \<mapsto> dev)\<rparr>"
  show thesis
  proof (cases "cmd = TLM_READ_COMMAND")
    case True
    show thesis
      by (rule that [of "?s\<lparr>s_store := ?st2\<rparr>" q fs1])
        (use one wf2 True in \<open>simp_all add: add_payload_def Let_def enqueue_def carries_def\<close>)
  next
    case False
    show thesis
      by (rule that [of "?s\<lparr>s_store := upd_gp q ?h ?st2\<rparr>" q fs1])
        (use one wf2 wf3 False in \<open>simp_all add: add_payload_def Let_def enqueue_def carries_def\<close>)
  qed
qed

section \<open>All payloads of a packet\<close>

text \<open>
  \<open>made s s' qs\<close>: the payloads \<open>qs\<close> are new in \<open>s'\<close>, and everything that lived in
  \<open>s\<close> is as it was.
\<close>

definition made :: "sim \<Rightarrow> sim \<Rightarrow> pid list \<Rightarrow> bool" where
  "made s s' qs \<longleftrightarrow> distinct qs \<and> set qs \<inter> live (s_store s) = {} \<and>
     live (s_store s') = live (s_store s) \<union> set qs \<and>
     (\<forall>q \<in> live (s_store s). heap (s_store s') q = heap (s_store s) q) \<and> s_sync s' = s_sync s"

definition payload_row ::
  "sim \<Rightarrow> pid list \<Rightarrow> nat \<Rightarrow> tlm_command \<Rightarrow> u32 \<Rightarrow> u32 \<Rightarrow> nat \<Rightarrow> u32 \<Rightarrow> (nat \<Rightarrow> data_ptr) \<Rightarrow> bool" where
  "payload_row s qs n cmd a r hid dev dat \<longleftrightarrow> length qs = n \<and>
     (\<forall>i < n. carries (s_store s) (qs ! i) cmd (a + r * of_nat i) r hid (dat i) \<and>
       device_map s (qs ! i) = Some dev)"

lemma payloads_loop:
  assumes wf: "store_wf fs (s_store s)" and r: "dram_req_size w = r"
    and body: "\<And>i s' w'. i < n \<Longrightarrow> dram_req_size w' = r \<Longrightarrow>
      turn i (s', w') = add_payload cmd (a + r * of_nat i) r (dat i) dev (s', w')"
  shows "\<exists>s' qs fs'. efold turn [0 ..< n] (s, w) = Inr (s', enqueue cmd qs w) \<and>
    store_wf fs' (s_store s') \<and> made s s' qs \<and> payload_row s' qs n cmd a r (host_id w) dev dat"
  using body
proof (induction n)
  case 0
  have "made s s []" "payload_row s [] 0 cmd a r (host_id w) dev dat"
    by (simp_all add: made_def payload_row_def)
  moreover have "efold turn [0 ..< 0] (s, w) = Inr (s, enqueue cmd [] w)" by simp
  ultimately show ?case using wf by blast
next
  case (Suc n)
  then obtain s1 qs fs1 where one: "efold turn [0 ..< n] (s, w) = Inr (s1, enqueue cmd qs w)"
    and wf1: "store_wf fs1 (s_store s1)" and made1: "made s s1 qs"
    and row1: "payload_row s1 qs n cmd a r (host_id w) dev dat" by auto
  obtain s2 q fs2 where two: "add_payload cmd (a + r * of_nat n) r (dat n) dev (s1, enqueue cmd qs w) =
      Inr (s2, enqueue cmd [q] (enqueue cmd qs w))"
    and wf2: "store_wf fs2 (s_store s2)" and q: "q \<notin> live (s_store s1)"
    "live (s_store s2) = insert q (live (s_store s1))"
    "\<forall>p. p \<noteq> q \<longrightarrow> heap (s_store s2) p = heap (s_store s1) p"
    and c: "carries (s_store s2) q cmd (a + r * of_nat n) r (host_id (enqueue cmd qs w)) (dat n)"
    and d: "device_map s2 = (device_map s1)(q \<mapsto> dev)" "s_sync s2 = s_sync s1"
    by (rule add_payload_ok [OF wf1])
  have notin: "q \<notin> set qs" using made1 q(1) by (auto simp: made_def)
  have "efold turn [0 ..< Suc n] (s, w) = Inr (s2, enqueue cmd (qs @ [q]) w)"
    using one two Suc.prems [of n "enqueue cmd qs w" s1] r by (simp add: efold_append)
  moreover have "made s s2 (qs @ [q])"
    using made1 q d(2) notin by (auto simp: made_def)
  moreover have "payload_row s2 (qs @ [q]) (Suc n) cmd a r (host_id w) dev dat"
    unfolding payload_row_def
  proof (intro conjI allI impI)
    show "length (qs @ [q]) = Suc n" using row1 by (simp add: payload_row_def)
  next
    fix i assume i: "i < Suc n"
    show "carries (s_store s2) ((qs @ [q]) ! i) cmd (a + r * of_nat i) r (host_id w) (dat i)"
    proof (cases "i = n")
      case True
      with c row1 show ?thesis by (simp add: payload_row_def nth_append)
    next
      case False
      with i row1 have "i < n" "length qs = n" by (simp_all add: payload_row_def)
      moreover from this notin have "qs ! i \<noteq> q" by (metis nth_mem)
      ultimately show ?thesis
        using row1 q(3) by (simp add: payload_row_def nth_append carries_def)
    qed
    show "device_map s2 ((qs @ [q]) ! i) = Some dev"
      using i row1 d(1) by (auto simp: payload_row_def nth_append less_Suc_eq)
  qed
  ultimately show ?case using wf2 by blast
qed

lemma unat_mult_index:
  assumes "unat r * n \<le> b" and "b < 2 ^ 32" and "i < n"
  shows "unat (r * of_nat i :: u32) = unat r * i"
proof -
  have "unat r * i \<le> unat r * n" using assms(3) by simp
  also have "\<dots> < 2 ^ LENGTH(32)" using assms(1,2) by simp
  finally have lt: "unat r * i < 2 ^ LENGTH(32)" .
  have eq: "r * of_nat i = (of_nat (unat r * i) :: u32)" by simp
  show ?thesis using lt unfolding eq unat_of_nat by simp
qed

text \<open>
  A read packet becomes \<open>packet_size / dram_req_size\<close> fresh read payloads at
  the tail of the read queue. The \<open>i\<close>-th one reads \<open>dram_req_size\<close> bytes at the
  address of the packet plus \<open>i\<close> times this size, and is mapped to the device of the
  packet. Payloads that were in use are not touched.
\<close>

theorem sw_splits_read:
  assumes wf: "store_wf fs (s_store s)" and r: "dram_req_size w \<noteq> 0"
  shows "\<exists>s' w' qs fs'. split_read p (s, w) = Inr (s', w') \<and> r_queue w' = r_queue w @ qs \<and>
    w_queue w' = w_queue w \<and> sync_queue w' = sync_queue w \<and> \<not> req_done w' \<and> store_wf fs' (s_store s') \<and>
    made s s' qs \<and>
    payload_row s' qs (unat (packet_size w) div unat (dram_req_size w)) TLM_READ_COMMAND (p_address p)
      (dram_req_size w) (host_id w) (p_device_id p) (\<lambda>_. Null_ptr)"
proof -
  let ?n = "unat (packet_size w) div unat (dram_req_size w)"
  let ?w = "w\<lparr>req_done := False,
    sw_stats := update_total_read_size (packet_size w) (increase_r_packet (sw_stats w))\<rparr>"
  have "read_turn p i (s', w') = add_payload TLM_READ_COMMAND (p_address p + dram_req_size w * of_nat i)
      (dram_req_size w) Null_ptr (p_device_id p) (s', w')" if "dram_req_size w' = dram_req_size w" for i s' w'
    using that by (simp add: read_turn_def Let_def)
  from payloads_loop [OF wf, of ?w "dram_req_size w" ?n "read_turn p" TLM_READ_COMMAND "p_address p"
      "\<lambda>_. Null_ptr" "p_device_id p"] this
  obtain s' qs fs' where l: "efold (read_turn p) [0 ..< ?n] (s, ?w) = Inr (s', enqueue TLM_READ_COMMAND qs ?w)"
    and "store_wf fs' (s_store s')" "made s s' qs"
    "payload_row s' qs ?n TLM_READ_COMMAND (p_address p) (dram_req_size w) (host_id w) (p_device_id p) (\<lambda>_. Null_ptr)"
    by auto
  moreover have "split_read p (s, w) = Inr (s', enqueue TLM_READ_COMMAND qs ?w)"
    using l r by (simp add: split_read_def Let_def payloads_per_packet_def unat_div)
  ultimately show ?thesis
    by (intro exI conjI) (assumption | simp add: enqueue_def)+
qed

lemma split_write_payloads:
  assumes wf: "store_wf fs (s_store s)" and r: "dram_req_size w \<noteq> 0"
    and whole: "unat (packet_size w) = unat (dram_req_size w) * n"
    and room: "unat (packet_size w) \<le> length (p_data p)"
  shows "\<exists>s' w' qs fs'. split_write p (s, w) = Inr (s', w') \<and> w_queue w' = w_queue w @ qs \<and>
    r_queue w' = r_queue w \<and> sync_queue w' = sync_queue w @ [p_address p] \<and> \<not> req_done w' \<and>
    store_wf fs' (s_store s') \<and> made s s' qs \<and>
    payload_row s' qs n TLM_WRITE_COMMAND (p_address p) (dram_req_size w) (host_id w) (p_device_id p)
      (\<lambda>i. Buf_ptr (piece (unat (dram_req_size w)) i (p_data p))) \<and>
    concat (map (\<lambda>i. piece (unat (dram_req_size w)) i (p_data p)) [0 ..< n]) =
      take (unat (packet_size w)) (p_data p)"
proof -
  let ?r = "dram_req_size w"
  let ?w = "w\<lparr>req_done := False, sync_queue := sync_queue w @ [p_address p],
    sw_stats := update_total_write_size (packet_size w) (increase_w_packet (sw_stats w))\<rparr>"
  have n: "unat (packet_size w) div unat ?r = n"
    using whole r by (simp add: unat_eq_0)
  have size: "unat (packet_size w) < 2 ^ 32" using unsigned_less [of "packet_size w"] by simp
  have idx: "unat (?r * of_nat i :: u32) = unat ?r * i" if "i < n" for i
    using unat_mult_index [of ?r n "unat (packet_size w)" i] whole size that by simp
  have turn: "write_turn p i (s', w') = add_payload TLM_WRITE_COMMAND (p_address p + ?r * of_nat i) ?r
      (Buf_ptr (piece (unat ?r) i (p_data p))) (p_device_id p) (s', w')"
    if "i < n" and "dram_req_size w' = ?r" for i s' w'
  proof -
    have "unat ?r * Suc i \<le> unat ?r * n" using that(1) by (intro mult_le_mono2) simp
    then have "unat ?r * i + unat ?r \<le> length (p_data p)" using whole room by simp
    then have "memcpy (replicate (unat ?r) 0) 0 (p_data p) (unat (?r * of_nat i)) (unat ?r) =
        Inr (piece (unat ?r) i (p_data p))"
      using idx [OF that(1)] by (simp add: memcpy_def piece_def)
    then show ?thesis using that(2) by (simp add: write_turn_def Let_def)
  qed
  from payloads_loop [OF wf, of ?w ?r n "write_turn p" TLM_WRITE_COMMAND "p_address p"
      "\<lambda>i. Buf_ptr (piece (unat ?r) i (p_data p))" "p_device_id p"] turn
  obtain s' qs fs' where l: "efold (write_turn p) [0 ..< n] (s, ?w) = Inr (s', enqueue TLM_WRITE_COMMAND qs ?w)"
    and res: "store_wf fs' (s_store s')" "made s s' qs"
    "payload_row s' qs n TLM_WRITE_COMMAND (p_address p) ?r (host_id w) (p_device_id p)
      (\<lambda>i. Buf_ptr (piece (unat ?r) i (p_data p)))"
    by auto
  have "split_write p (s, w) = Inr (s', enqueue TLM_WRITE_COMMAND qs ?w)"
    using l r n by (simp add: split_write_def Let_def payloads_per_packet_def unat_div)
  moreover have "concat (map (\<lambda>i. piece (unat ?r) i (p_data p)) [0 ..< n]) = take (unat (packet_size w)) (p_data p)"
    using concat_pieces [of "unat ?r" n "p_data p"] whole by (simp add: pieces_def)
  ultimately show ?thesis
    using res by (intro exI conjI) (assumption | simp add: enqueue_def)+
qed

text \<open>
  C6. A write packet becomes as many fresh write payloads at the tail of the write queue, and
  its address goes to the queue of signals. The data of the payloads, one after
  the other, are the first \<open>packet_size\<close> bytes of the packet (if the request size divides
  the packet size and the packet holds so many bytes).
\<close>

theorem sw_splits_write:
  assumes wf: "store_wf fs (s_store s)" and r: "dram_req_size w \<noteq> 0"
    and whole: "unat (packet_size w) = unat (dram_req_size w) * n"
    and room: "unat (packet_size w) \<le> length (p_data p)"
  shows "\<exists>s' w' qs fs'. split_write p (s, w) = Inr (s', w') \<and> w_queue w' = w_queue w @ qs \<and>
    r_queue w' = r_queue w \<and> sync_queue w' = sync_queue w @ [p_address p] \<and> \<not> req_done w' \<and>
    store_wf fs' (s_store s') \<and> made s s' qs \<and>
    payload_row s' qs n TLM_WRITE_COMMAND (p_address p) (dram_req_size w) (host_id w) (p_device_id p)
      (\<lambda>i. Buf_ptr (piece (unat (dram_req_size w)) i (p_data p))) \<and>
    concat (map (\<lambda>i. piece (unat (dram_req_size w)) i (p_data p)) [0 ..< n]) =
      take (unat (packet_size w)) (p_data p)"
  using assms by (rule split_write_payloads)

text \<open>A wrapper that splits packets of 8 bytes into payloads of 4 bytes, for the witnesses.\<close>

definition small_wrapper :: sim_wrapper where
  "small_wrapper = sw_init 0 0 3 8 4 [] \<lparr>ib = zero_ring, bi = zero_ring\<rparr> (replicate 8 0) zero_packet"

definition small_sim :: "store \<Rightarrow> sim" where
  "small_sim st = \<lparr>s_store = st, device_map = Map.empty, s_sync = sync_init, active_cores = 1, active_dram = 1\<rparr>"

definition small_packet :: "packet_type \<Rightarrow> packet" where
  "small_packet t = zero_packet\<lparr>p_type := t, p_address := 64, p_size := 8, p_data := [1, 2, 3, 4, 5, 6, 7, 8]\<rparr>"

lemma small_wrapper_fields [simp]:
  "dram_req_size small_wrapper = 4" "packet_size small_wrapper = 8" "host_id small_wrapper = 0"
  "r_queue small_wrapper = []" "w_queue small_wrapper = []" "rack_queue small_wrapper = []"
  "wack_queue small_wrapper = []" "sync_queue small_wrapper = []" "rack_num small_wrapper = 0"
  "wack_num small_wrapper = 0" "packet_data small_wrapper = replicate 8 0" "outstanding small_wrapper = 0"
  "rack_incoming small_wrapper = None" "wack_incoming small_wrapper = None" "sw_peq small_wrapper = []"
  by (simp_all add: small_wrapper_def sw_init_def)

lemma small_sim_fields [simp]:
  "s_store (small_sim st) = st" "s_sync (small_sim st) = sync_init"
  by (simp_all add: small_sim_def)

lemma small_packet_fields [simp]:
  "p_data (small_packet t) = [1, 2, 3, 4, 5, 6, 7, 8]" "p_address (small_packet t) = 64"
  "p_type (small_packet t) = t" "p_delta (small_packet t) = 0"
  by (simp_all add: small_packet_def zero_packet_def)

abbreviation empty_store :: store where
  "empty_store \<equiv> sample_store (\<lambda>_. sample_gp TLM_READ_COMMAND 0)"

theorem sw_splits_read_witness:
  "\<exists>s' w' qs fs'. split_read (small_packet packet_read) (small_sim empty_store, small_wrapper) = Inr (s', w') \<and>
    r_queue w' = r_queue small_wrapper @ qs \<and> w_queue w' = w_queue small_wrapper \<and>
    sync_queue w' = sync_queue small_wrapper \<and> \<not> req_done w' \<and>
    store_wf fs' (s_store s') \<and> made (small_sim empty_store) s' qs \<and>
    payload_row s' qs (unat (packet_size small_wrapper) div unat (dram_req_size small_wrapper)) TLM_READ_COMMAND
      (p_address (small_packet packet_read)) (dram_req_size small_wrapper) (host_id small_wrapper)
      (p_device_id (small_packet packet_read)) (\<lambda>_. Null_ptr)"
  by (rule sw_splits_read [where fs = "\<lambda>_. []"]) (simp_all add: sample_store_wf)

theorem sw_splits_write_witness:
  "\<exists>s' w' qs fs'. split_write (small_packet packet_write) (small_sim empty_store, small_wrapper) = Inr (s', w') \<and>
    w_queue w' = w_queue small_wrapper @ qs \<and> r_queue w' = r_queue small_wrapper \<and>
    sync_queue w' = sync_queue small_wrapper @ [p_address (small_packet packet_write)] \<and> \<not> req_done w' \<and>
    store_wf fs' (s_store s') \<and> made (small_sim empty_store) s' qs \<and>
    payload_row s' qs 2 TLM_WRITE_COMMAND (p_address (small_packet packet_write)) (dram_req_size small_wrapper)
      (host_id small_wrapper) (p_device_id (small_packet packet_write))
      (\<lambda>i. Buf_ptr (piece (unat (dram_req_size small_wrapper)) i (p_data (small_packet packet_write)))) \<and>
    concat (map (\<lambda>i. piece (unat (dram_req_size small_wrapper)) i (p_data (small_packet packet_write))) [0 ..< 2]) =
      take (unat (packet_size small_wrapper)) (p_data (small_packet packet_write))"
  by (rule sw_splits_write [where fs = "\<lambda>_. []"]) (simp_all add: sample_store_wf)

end
