(* ===== verification/Sim_Respond.thy ===== *)
theory Sim_Respond
  imports Sim_Split
begin

text \<open>
  How the wrapper answers: the data of the read responses of a packet become one response
  packet for the host process, and the write acknowledgements of a packet become one signal
  for its address.
\<close>

section \<open>Read responses\<close>

text \<open>
  Successive read responses, each with the memories and the store of its moment; the payload
  at the head of the queue is taken each time.
\<close>

fun take_racks :: "((nat \<Rightarrow> (nat \<Rightarrow> byte) \<times> nat) \<times> store) list \<Rightarrow> sim_wrapper \<Rightarrow> sim_error + (sim_wrapper \<times> call list)"
where
  "take_racks [] w = Inr (w, [])"
| "take_racks ((mems, st) # es) w =
     ebind (take_rack mems st w) (\<lambda>(w1, os1). ebind (take_racks es w1) (\<lambda>(w2, os2). Inr (w2, os1 @ os2)))"

text \<open>The data that each response brings, all of the request size.\<close>

definition brings :: "u32 \<Rightarrow> (nat \<Rightarrow> (nat \<Rightarrow> byte) \<times> nat) \<times> store \<Rightarrow> pid \<Rightarrow> byte list \<Rightarrow> bool" where
  "brings r e p bs \<longleftrightarrow> gp_length (heap (snd e) p) = r \<and> length bs = unat r \<and>
     data_read (fst e) (gp_data (heap (snd e) p)) (unat r) = Inr bs"

text \<open>
  \<open>filled w k ds\<close>: \<open>k\<close> responses of the current packet have come, with the data \<open>ds\<close>.
\<close>

definition filled :: "sim_wrapper \<Rightarrow> byte list list \<Rightarrow> bool" where
  "filled w ds \<longleftrightarrow> rack_num w = of_nat (length ds) \<and> length (packet_data w) = unat (packet_size w) \<and>
     concat ds = take (unat (dram_req_size w) * length ds) (packet_data w)"

lemma payloads_whole:
  assumes "unat (packet_size w) = unat (dram_req_size w) * n" and "dram_req_size w \<noteq> 0"
  shows "payloads_per_packet w = Inr (of_nat n)" and "n < 2 ^ 32"
proof -
  have n: "unat (packet_size w div dram_req_size w) = n"
    using assms by (simp add: unat_div unat_eq_0)
  then have "packet_size w div dram_req_size w = of_nat n" by auto
  with assms(2) show "payloads_per_packet w = Inr (of_nat n)" by (simp add: payloads_per_packet_def)
  have "unat (packet_size w div dram_req_size w) < 2 ^ LENGTH(32)" by (rule unsigned_less)
  with n show "n < 2 ^ 32" by simp
qed

lemma of_nat_word_eq: "a < 2 ^ 32 \<Longrightarrow> b < 2 ^ 32 \<Longrightarrow> (of_nat a :: u32) = of_nat b \<longleftrightarrow> a = b"
  by (auto simp: word_of_nat_eq_iff take_bit_nat_eq_self)

text \<open>The copy of one response into the buffer.\<close>

lemma rack_copy:
  assumes whole: "unat (packet_size w) = unat (dram_req_size w) * n" and k: "length ds < n"
    and filled: "filled w ds" and bs: "length bs = unat (dram_req_size w)"
  obtains d where
    "memcpy (packet_data w) (unat (dram_req_size w * rack_num w)) bs 0 (unat (dram_req_size w)) = Inr d"
    and "length d = unat (packet_size w)"
    and "concat (ds @ [bs]) = take (unat (dram_req_size w) * Suc (length ds)) d"
proof -
  let ?r = "unat (dram_req_size w)" and ?k = "length ds" and ?pd = "packet_data w"
  have size: "unat (packet_size w) < 2 ^ 32" using unsigned_less [of "packet_size w"] by simp
  have idx: "unat (dram_req_size w * rack_num w) = ?r * ?k"
    using unat_mult_index [of "dram_req_size w" n "unat (packet_size w)" ?k] whole size k filled
    by (simp add: filled_def)
  have "?r * Suc ?k \<le> ?r * n" using k by (intro mult_le_mono2) simp
  then have fits: "?r * ?k + ?r \<le> length ?pd" using whole filled by (simp add: filled_def)
  let ?d = "take (?r * ?k) ?pd @ bs @ drop (?r * ?k + ?r) ?pd"
  have m: "memcpy ?pd (unat (dram_req_size w * rack_num w)) bs 0 ?r = Inr ?d"
    using idx fits bs by (simp add: memcpy_def)
  have "length ?d = unat (packet_size w)"
    using memcpy_length [OF m] filled by (simp add: filled_def)
  moreover have "concat (ds @ [bs]) = take (?r * Suc ?k) ?d"
    using filled bs fits by (simp add: filled_def add.commute)
  ultimately show thesis using that m by blast
qed

text \<open>The response packet: the data, and zeros after them.\<close>

definition response_packet :: "u32 \<Rightarrow> byte list \<Rightarrow> packet" where
  "response_packet n dat = zero_packet\<lparr>p_size := n, p_data := dat @ replicate (MAX_DATA_SIZE - length dat) 0\<rparr>"

lemma respond_ok:
  assumes "length (packet_data w) = unat (packet_size w)" and "unat (packet_size w) \<le> MAX_DATA_SIZE"
    and "chan_inv (h_chan (sw_host w))" and "\<not> pb_is_full (bi (h_chan (sw_host w)))"
  shows "\<exists>w'. respond w = Inr w' \<and> req_done w' \<and> rack_num w' = 0 \<and> rack_queue w' = rack_queue w \<and>
    outstanding w' = outstanding w \<and>
    pb_list (bi (h_chan (sw_host w'))) =
      pb_list (bi (h_chan (sw_host w))) @ [response_packet (packet_size w) (packet_data w)]"
proof -
  have "length (p_data zero_packet) = MAX_DATA_SIZE" by (simp add: zero_packet_def)
  then have "memcpy (p_data zero_packet) 0 (packet_data w) 0 (unat (packet_size w)) =
      Inr (packet_data w @ replicate (MAX_DATA_SIZE - unat (packet_size w)) 0)"
    using assms(1,2) by (simp add: memcpy_def) (simp add: zero_packet_def)
  then show ?thesis
    using assms ring.put_list [of "bi (h_chan (sw_host w))" "response_packet (packet_size w) (packet_data w)"]
    by (simp add: respond_def host_response_request_def host_send_packet_def shm_send_packet_def chan_inv_def
        pb_put_def response_packet_def)
qed

lemma take_rack_middle:
  assumes whole: "unat (packet_size w) = unat (dram_req_size w) * n" and r: "dram_req_size w \<noteq> 0"
    and k: "Suc (length ds) < n" and q: "rack_queue w = p # ps"
    and brings: "brings (dram_req_size w) (mems, st) p bs" and filled: "filled w ds"
  shows "\<exists>w'. take_rack mems st w = Inr (w', [Fw_end 0 p]) \<and> rack_queue w' = ps \<and> filled w' (ds @ [bs]) \<and>
    packet_size w' = packet_size w \<and> dram_req_size w' = dram_req_size w \<and> sw_host w' = sw_host w \<and>
    outstanding w' = outstanding w - 1"
proof -
  obtain d where d: "memcpy (packet_data w) (unat (dram_req_size w * rack_num w)) bs 0 (unat (dram_req_size w)) = Inr d"
    "length d = unat (packet_size w)" "concat (ds @ [bs]) = take (unat (dram_req_size w) * Suc (length ds)) d"
    using rack_copy [OF whole _ filled, of bs] k brings by (auto simp: brings_def)
  let ?w = "w\<lparr>rack_queue := ps, packet_data := d, rack_num := rack_num w + 1, outstanding := outstanding w - 1\<rparr>"
  have n: "payloads_per_packet ?w = Inr (of_nat n)" using payloads_whole [of ?w n] whole r by simp
  have "rack_num ?w = of_nat (Suc (length ds))" using filled by (simp add: filled_def)
  moreover have "(of_nat (Suc (length ds)) :: u32) \<noteq> of_nat n"
    using payloads_whole(2) [OF whole r] k by (subst of_nat_word_eq) simp_all
  ultimately have "rack_num ?w \<noteq> of_nat n" by metis
  then have "take_rack mems st w = Inr (?w, [Fw_end 0 p])"
    using q brings d(1) n by (simp add: take_rack_def brings_def Let_def)
  moreover have "filled ?w (ds @ [bs])"
    using d filled by (simp add: filled_def)
  ultimately show ?thesis by simp
qed

lemma take_rack_last:
  assumes whole: "unat (packet_size w) = unat (dram_req_size w) * n" and r: "dram_req_size w \<noteq> 0"
    and k: "Suc (length ds) = n" and q: "rack_queue w = p # ps"
    and brings: "brings (dram_req_size w) (mems, st) p bs" and filled: "filled w ds"
    and room: "unat (packet_size w) \<le> MAX_DATA_SIZE" "chan_inv (h_chan (sw_host w))"
      "\<not> pb_is_full (bi (h_chan (sw_host w)))"
  shows "\<exists>w'. take_rack mems st w = Inr (w', [Fw_end 0 p]) \<and> rack_queue w' = ps \<and> rack_num w' = 0 \<and>
    req_done w' \<and> outstanding w' = outstanding w - 1 \<and>
    pb_list (bi (h_chan (sw_host w'))) =
      pb_list (bi (h_chan (sw_host w))) @ [response_packet (packet_size w) (concat (ds @ [bs]))]"
proof -
  obtain d where d: "memcpy (packet_data w) (unat (dram_req_size w * rack_num w)) bs 0 (unat (dram_req_size w)) = Inr d"
    "length d = unat (packet_size w)" "concat (ds @ [bs]) = take (unat (dram_req_size w) * Suc (length ds)) d"
    using rack_copy [OF whole _ filled, of bs] k brings by (auto simp: brings_def)
  have all: "concat (ds @ [bs]) = d" using d(2,3) whole k by simp
  let ?w = "w\<lparr>rack_queue := ps, packet_data := d, rack_num := rack_num w + 1, outstanding := outstanding w - 1\<rparr>"
  have n: "payloads_per_packet ?w = Inr (of_nat n)" using payloads_whole [of ?w n] whole r by simp
  have eq: "rack_num w + 1 = of_nat n" using filled k by (auto simp: filled_def)
  obtain w' where w': "respond ?w = Inr w'" "req_done w'" "rack_num w' = 0" "rack_queue w' = ps"
    "outstanding w' = outstanding w - 1"
    "pb_list (bi (h_chan (sw_host w'))) = pb_list (bi (h_chan (sw_host w))) @ [response_packet (packet_size w) d]"
    using respond_ok [of ?w] room d(2) by auto
  then have "take_rack mems st w = Inr (w', [Fw_end 0 p])"
    using q brings d(1) n eq by (simp add: take_rack_def brings_def Let_def)
  with w' all show ?thesis by simp
qed

lemma take_racks_run:
  assumes "unat (packet_size w) = unat (dram_req_size w) * n" and "dram_req_size w \<noteq> 0"
    and "length ds + length ts = n" and "ts \<noteq> []" and "rack_queue w = map (fst \<circ> snd) ts @ ps"
    and "\<forall>t \<in> set ts. brings (dram_req_size w) (fst t) (fst (snd t)) (snd (snd t))" and "filled w ds"
    and "unat (packet_size w) \<le> MAX_DATA_SIZE" "chan_inv (h_chan (sw_host w))"
      "\<not> pb_is_full (bi (h_chan (sw_host w)))"
  shows "\<exists>w'. take_racks (map fst ts) w = Inr (w', map (\<lambda>t. Fw_end 0 (fst (snd t))) ts) \<and> rack_queue w' = ps \<and>
    rack_num w' = 0 \<and> req_done w' \<and> outstanding w' = outstanding w - of_nat (length ts) \<and>
    pb_list (bi (h_chan (sw_host w'))) =
      pb_list (bi (h_chan (sw_host w))) @ [response_packet (packet_size w) (concat (ds @ map (snd \<circ> snd) ts))]"
  using assms
proof (induction ts arbitrary: w ds)
  case Nil
  then show ?case by simp
next
  case (Cons t ts)
  obtain mems st p bs where t: "t = ((mems, st), p, bs)" by (metis prod.exhaust)
  have q: "rack_queue w = p # (map (fst \<circ> snd) ts @ ps)" using Cons.prems(5) t by simp
  have b: "brings (dram_req_size w) (mems, st) p bs" using Cons.prems(6) t by simp
  show ?case
  proof (cases ts)
    case Nil
    with Cons.prems(3) have k: "Suc (length ds) = n" by simp
    from take_rack_last [OF Cons.prems(1,2) k q b Cons.prems(7-10)] Nil t show ?thesis by auto
  next
    case (Cons t' ts')
    with Cons.prems(3) have k: "Suc (length ds) < n" by simp
    obtain w1 where w1: "take_rack mems st w = Inr (w1, [Fw_end 0 p])" "rack_queue w1 = map (fst \<circ> snd) ts @ ps"
      "filled w1 (ds @ [bs])" and same: "packet_size w1 = packet_size w" "dram_req_size w1 = dram_req_size w"
      "sw_host w1 = sw_host w" "outstanding w1 = outstanding w - 1"
      using take_rack_middle [OF Cons.prems(1,2) k q b Cons.prems(7)] by auto
    have "\<exists>w'. take_racks (map fst ts) w1 = Inr (w', map (\<lambda>t. Fw_end 0 (fst (snd t))) ts) \<and> rack_queue w' = ps \<and>
      rack_num w' = 0 \<and> req_done w' \<and> outstanding w' = outstanding w1 - of_nat (length ts) \<and>
      pb_list (bi (h_chan (sw_host w'))) = pb_list (bi (h_chan (sw_host w1))) @
        [response_packet (packet_size w1) (concat ((ds @ [bs]) @ map (snd \<circ> snd) ts))]"
      using Cons.prems Cons w1 same by (intro Cons.IH) auto
    with w1(1) same t show ?thesis by (auto simp: algebra_simps comp_def)
  qed
qed

text \<open>
  C7. Read responses become response packets: as many responses as a packet has payloads,
  each with the request size of data, are taken one per falling edge, and with the last
  one a packet goes to the host process whose data are those of the responses in
  the order in which they came. Then the wrapper is ready for the next packet.
\<close>

theorem sw_assembles_response:
  assumes "unat (packet_size w) = unat (dram_req_size w) * n" and "dram_req_size w \<noteq> 0"
    and "length ts = n" and "0 < n" and "rack_queue w = map (fst \<circ> snd) ts @ ps"
    and "\<forall>t \<in> set ts. brings (dram_req_size w) (fst t) (fst (snd t)) (snd (snd t))"
    and "rack_num w = 0" and "length (packet_data w) = unat (packet_size w)"
    and "unat (packet_size w) \<le> MAX_DATA_SIZE" "chan_inv (h_chan (sw_host w))"
      "\<not> pb_is_full (bi (h_chan (sw_host w)))"
  shows "\<exists>w'. take_racks (map fst ts) w = Inr (w', map (\<lambda>t. Fw_end 0 (fst (snd t))) ts) \<and> rack_queue w' = ps \<and>
    rack_num w' = 0 \<and> req_done w' \<and> outstanding w' = outstanding w - of_nat n \<and>
    pb_list (bi (h_chan (sw_host w'))) =
      pb_list (bi (h_chan (sw_host w))) @ [response_packet (packet_size w) (concat (map (snd \<circ> snd) ts))]"
proof -
  have "filled w []" using assms(7,8) by (simp add: filled_def)
  with take_racks_run [of w n "[]" ts ps] assms show ?thesis by auto
qed

text \<open>Two read responses whose data are in the memory of device 0 at 64 and at 68.\<close>

definition two_racks :: "(((nat \<Rightarrow> (nat \<Rightarrow> byte) \<times> nat) \<times> store) \<times> pid \<times> byte list) list" where
  "two_racks = map (\<lambda>i. (((\<lambda>_. (\<lambda>k. of_nat k, 128)),
      sample_store (\<lambda>_. (sample_gp TLM_READ_COMMAND 64)\<lparr>gp_length := 4, gp_data := Mem_ptr 0 (64 + 4 * of_nat i)\<rparr>)),
      i, map of_nat [64 + 4 * i ..< 68 + 4 * i])) [0, 1]"

lemma small_wrapper_chan:
  "chan_inv (h_chan (sw_host small_wrapper))" "\<not> pb_is_full (bi (h_chan (sw_host small_wrapper)))"
proof -
  have eq: "h_chan (sw_host small_wrapper) = shm_prepare_connection \<lparr>ib = zero_ring, bi = zero_ring\<rparr>"
    by (simp add: small_wrapper_def sw_init_def run_host_proc_def host_init_def)
  show "chan_inv (h_chan (sw_host small_wrapper))" unfolding eq by (rule chan_inv_prepare)
  show "\<not> pb_is_full (bi (h_chan (sw_host small_wrapper)))"
    unfolding eq by (simp add: shm_prepare_connection_def pb_is_full_def pb_init_def c_rem_def PKT_BUFFER_SIZE_def)
qed

theorem sw_assembles_response_witness:
  "\<exists>w'. take_racks (map fst two_racks) (small_wrapper\<lparr>rack_queue := [0, 1]\<rparr>) = Inr (w', [Fw_end 0 0, Fw_end 0 1]) \<and>
    pb_list (bi (h_chan (sw_host w'))) = pb_list (bi (h_chan (sw_host small_wrapper))) @
      [response_packet 8 [64, 65, 66, 67, 68, 69, 70, 71]]"
proof -
  have "\<forall>t \<in> set two_racks. brings 4 (fst t) (fst (snd t)) (snd (snd t))"
    by (simp add: two_racks_def brings_def data_read_def mem_load_def upt_rec)
  then show ?thesis
    using sw_assembles_response [of "small_wrapper\<lparr>rack_queue := [0, 1]\<rparr>" 2 two_racks "[]"] small_wrapper_chan
    by (auto simp: two_racks_def MAX_DATA_SIZE_def upt_rec)
qed

section \<open>Write acknowledgements\<close>

fun take_wacks :: "nat \<Rightarrow> sim \<Rightarrow> sim_wrapper \<Rightarrow> sim_error + (sim \<times> sim_wrapper \<times> call list)" where
  "take_wacks 0 s w = Inr (s, w, [])"
| "take_wacks (Suc k) s w =
     ebind (take_wack s w) (\<lambda>(s1, w1, os1). ebind (take_wacks k s1 w1) (\<lambda>(s2, w2, os2). Inr (s2, w2, os1 @ os2)))"

lemma take_wack_middle:
  assumes whole: "unat (packet_size w) = unat (dram_req_size w) * n" and r: "dram_req_size w \<noteq> 0"
    and k: "Suc k < n" "wack_num w = of_nat k" and q: "wack_queue w = p # ps"
  shows "take_wack s w = Inr (s, w\<lparr>wack_queue := ps, wack_num := of_nat (Suc k), outstanding := outstanding w - 1\<rparr>,
    [Fw_end 0 p])"
proof -
  let ?w = "w\<lparr>wack_queue := ps, wack_num := of_nat (Suc k), outstanding := outstanding w - 1\<rparr>"
  have "payloads_per_packet ?w = Inr (of_nat n)" using payloads_whole [of ?w n] whole r by simp
  moreover have "(of_nat (Suc k) :: u32) \<noteq> of_nat n"
    using payloads_whole(2) [OF whole r] k by (subst of_nat_word_eq) simp_all
  moreover have "wack_num w + 1 = of_nat (Suc k)" using k by simp
  ultimately show ?thesis using q by (simp add: take_wack_def Let_def del: of_nat_Suc)
qed

lemma take_wack_last:
  assumes whole: "unat (packet_size w) = unat (dram_req_size w) * n" and r: "dram_req_size w \<noteq> 0"
    and k: "Suc k = n" "wack_num w = of_nat k" and q: "wack_queue w = p # ps"
    and a: "sync_queue w = a # as" "unat a < SYNC_SIZE"
  shows "take_wack s w = Inr (s\<lparr>s_sync := (s_sync s)(a := True)\<rparr>,
    w\<lparr>wack_queue := ps, wack_num := 0, outstanding := outstanding w - 1, sync_queue := as\<rparr>, [Fw_end 0 p])"
proof -
  let ?w = "w\<lparr>wack_queue := ps, wack_num := of_nat n, outstanding := outstanding w - 1\<rparr>"
  have "payloads_per_packet ?w = Inr (of_nat n)" using payloads_whole(1) [of ?w n] whole r by simp
  moreover have "wack_num w + 1 = of_nat n" unfolding k(1) [symmetric] k(2) by simp
  ultimately show ?thesis using q a by (simp add: take_wack_def Let_def sync_signal_def)
qed

lemma take_wacks_run:
  assumes "unat (packet_size w) = unat (dram_req_size w) * n" and "dram_req_size w \<noteq> 0"
    and "k + length qs = n" and "qs \<noteq> []" and "wack_queue w = qs @ ps" and "wack_num w = of_nat k"
    and "sync_queue w = a # as" and "unat a < SYNC_SIZE"
  shows "take_wacks (length qs) s w = Inr (s\<lparr>s_sync := (s_sync s)(a := True)\<rparr>,
      w\<lparr>wack_queue := ps, wack_num := 0, outstanding := outstanding w - of_nat (length qs), sync_queue := as\<rparr>,
      map (Fw_end 0) qs)"
  using assms
proof (induction qs arbitrary: w k)
  case Nil
  then show ?case by simp
next
  case (Cons q qs)
  show ?case
  proof (cases "qs = []")
    case True
    with Cons.prems(3) have "Suc k = n" by simp
    with Cons.prems take_wack_last [OF Cons.prems(1,2), of k q ps a as s] True show ?thesis by (simp add: fun_upd_def)
  next
    case False
    with Cons.prems(3) have k: "Suc k < n" by (cases qs) simp_all
    let ?w = "w\<lparr>wack_queue := qs @ ps, wack_num := of_nat (Suc k), outstanding := outstanding w - 1\<rparr>"
    have "take_wack s w = Inr (s, ?w, [Fw_end 0 q])"
      using take_wack_middle [OF Cons.prems(1,2) k] Cons.prems by simp
    moreover have "take_wacks (length qs) s ?w = Inr (s\<lparr>s_sync := (s_sync s)(a := True)\<rparr>,
      ?w\<lparr>wack_queue := ps, wack_num := 0, outstanding := outstanding ?w - of_nat (length qs), sync_queue := as\<rparr>,
      map (Fw_end 0) qs)"
      using Cons.prems False by (intro Cons.IH [where k = "Suc k"]) simp_all
    ultimately show ?thesis by (simp add: algebra_simps fun_upd_def)
  qed
qed

text \<open>
  C20. Write acknowledgements become signals: when as many have come as a packet has
  payloads, the oldest address that waits in the queue of signals is signalled, exactly that
  one, and the count starts again.
\<close>

theorem sw_signals_write:
  assumes "unat (packet_size w) = unat (dram_req_size w) * n" and "dram_req_size w \<noteq> 0" and "0 < n"
    and "wack_queue w = qs @ ps" and "length qs = n" and "wack_num w = 0"
    and "sync_queue w = a # as" and "unat a < SYNC_SIZE"
  shows "take_wacks n s w = Inr (s\<lparr>s_sync := (s_sync s)(a := True)\<rparr>,
      w\<lparr>wack_queue := ps, wack_num := 0, outstanding := outstanding w - of_nat n, sync_queue := as\<rparr>,
      map (Fw_end 0) qs)"
  using take_wacks_run [of w n 0 qs ps a as s] assms by auto

theorem sw_signals_write_witness:
  "take_wacks 2 (small_sim empty_store) (small_wrapper\<lparr>wack_queue := [5, 6], sync_queue := [64]\<rparr>) =
    Inr ((small_sim empty_store)\<lparr>s_sync := (s_sync (small_sim empty_store))(64 := True)\<rparr>,
      (small_wrapper\<lparr>wack_queue := [5, 6], sync_queue := [64]\<rparr>)
        \<lparr>wack_queue := [], wack_num := 0,
          outstanding := outstanding (small_wrapper\<lparr>wack_queue := [5, 6], sync_queue := [64]\<rparr>) - of_nat 2,
          sync_queue := []\<rparr>,
      map (Fw_end 0) [5, 6])"
  by (rule sw_signals_write) (simp_all add: SYNC_SIZE_def)

text \<open>
  An address that the array of signals does not cover is an access outside the array:
  with payloads of 4 bytes, the acknowledgements of a write to address 2000000000, which lies
  inside a memory of 3 GB, end in one.
\<close>

theorem sw_signal_out_of_bounds:
  "take_wacks 2 (small_sim empty_store) (small_wrapper\<lparr>wack_queue := [5, 6], sync_queue := [2000000000]\<rparr>) =
    Inl Out_of_bounds"
proof -
  have two: "take_wacks 2 = take_wacks (Suc (Suc 0))" by (simp only: numeral_2_eq_2)
  show ?thesis
    unfolding two by (simp add: take_wack_def payloads_per_packet_def Let_def sync_signal_def SYNC_SIZE_def)
qed

end
