(* ===== verification/Sim_Thread.thy ===== *)
theory Sim_Thread
  imports Sim_Respond
begin

text \<open>
  The control flow of the wrapper: a read waits for the signal of its address, an empty
  channel holds the simulation, the thread counts its core once and stops only when the
  memory has stopped, and the counter of outstanding payloads follows the calls.
\<close>

section \<open>A read waits for its write\<close>

text \<open>
  Turns of the thread, each after the other modules have left the given signals. The
  pauses between the turns are collected.
\<close>

fun sync_turns :: "sync_object list \<Rightarrow> sim \<times> sim_wrapper \<Rightarrow> sim_error + ((sim \<times> sim_wrapper) \<times> pause list)" where
  "sync_turns [] sw = Inr (sw, [])"
| "sync_turns (sy # sys) (s, w) =
     ebind (periodic_process (s\<lparr>s_sync := sy\<rparr>, w)) (\<lambda>(sw1, d).
       ebind (sync_turns sys sw1) (\<lambda>(sw2, ds). Inr (sw2, d # ds)))"

lemma sync_turns_append:
  "sync_turns (xs @ ys) sw =
     ebind (sync_turns xs sw) (\<lambda>(sw1, ds). ebind (sync_turns ys sw1) (\<lambda>(sw2, ds'). Inr (sw2, ds @ ds')))"
proof (induction xs arbitrary: sw)
  case Nil
  show ?case by (cases "sync_turns ys sw") auto
next
  case (Cons x xs)
  obtain s w where sw: "sw = (s, w)" by (cases sw)
  show ?case
  proof (cases "periodic_process (s\<lparr>s_sync := x\<rparr>, w)")
    case (Inl e)
    with sw show ?thesis by simp
  next
    case (Inr r)
    obtain sw1 d where r: "r = (sw1, d)" by (cases r)
    show ?thesis
    proof (cases "sync_turns xs sw1")
      case (Inl e)
      with sw Inr r Cons.IH [of sw1] show ?thesis by simp
    next
      case (Inr r2)
      obtain sw2 ds where "r2 = (sw2, ds)" by (cases r2)
      with sw \<open>periodic_process _ = Inr r\<close> r Inr Cons.IH [of sw1] show ?thesis
        by (cases "sync_turns ys sw2") auto
    qed
  qed
qed

lemma sync_look:
  assumes "sw_pc w = Pp_sync p False" and "unat (p_address p) < SYNC_SIZE"
  shows "periodic_process (s\<lparr>s_sync := sy\<rparr>, w) =
    Inr ((s\<lparr>s_sync := sy\<rparr>, w\<lparr>sw_pc := Pp_sync p (sy (p_address p))\<rparr>), Wait Delay_period)"
  using assms by (simp add: periodic_process_def handle_wait_packet_def check_signal_def)

lemma sync_waits:
  assumes "sw_pc w = Pp_sync p False" and "unat (p_address p) < SYNC_SIZE"
    and "list_all (\<lambda>sy. \<not> sy (p_address p)) sys"
  shows "\<exists>s'. sync_turns sys (s, w) = Inr ((s', w), replicate (length sys) (Wait Delay_period)) \<and>
    s_store s' = s_store s"
  using assms
proof (induction sys arbitrary: s)
  case (Cons sy sys)
  then have no: "\<not> sy (p_address p)" by simp
  have same: "w\<lparr>sw_pc := Pp_sync p False\<rparr> = w" using Cons.prems(1) by simp
  obtain s' where "sync_turns sys (s\<lparr>s_sync := sy\<rparr>, w) =
      Inr ((s', w), replicate (length sys) (Wait Delay_period))" "s_store s' = s_store s"
    using Cons.IH [of "s\<lparr>s_sync := sy\<rparr>"] Cons.prems by auto
  with sync_look [OF Cons.prems(1,2), where s = s and sy = sy] no same show ?case by auto
qed simp

text \<open>
  C19. A read packet is held back until the signal of its address is set: as long as no look
  finds it, the thread looks again after each clock period and changes nothing, for ever if
  the address is never written. The first look \<open>sy\<close> that finds the signal lets it go
  on: one period later it clears the signal, whatever the signals are then, and waits for the
  CPU latency before it makes the payloads.
\<close>

theorem sw_read_waits_for_signal:
  assumes pc: "sw_pc w = Pp_sync p False" and a: "unat (p_address p) < SYNC_SIZE"
    and no: "list_all (\<lambda>sy. \<not> sy (p_address p)) sys"
  shows "(\<exists>s'. sync_turns sys (s, w) = Inr ((s', w), replicate (length sys) (Wait Delay_period))) \<and>
    (sy (p_address p) \<longrightarrow>
      (\<exists>s'. sync_turns (sys @ [sy, sy']) (s, w) =
         Inr ((s', w\<lparr>sw_pc := Pp_read p\<rparr>),
              replicate (Suc (length sys)) (Wait Delay_period) @ [Wait (ns32 (cpu_latency w))]) \<and>
         \<not> s_sync s' (p_address p) \<and> (\<forall>b. b \<noteq> p_address p \<longrightarrow> s_sync s' b = sy' b)))"
proof -
  obtain s1 where one: "sync_turns sys (s, w) = Inr ((s1, w), replicate (length sys) (Wait Delay_period))"
    using sync_waits [OF assms] by blast
  have "sync_turns [sy, sy'] (s1, w) = Inr ((s1\<lparr>s_sync := sy'(p_address p := False)\<rparr>, w\<lparr>sw_pc := Pp_read p\<rparr>),
      [Wait Delay_period, Wait (ns32 (cpu_latency w))])" if "sy (p_address p)"
    using sync_look [OF pc a, where s = s1 and sy = sy] that a by (simp add: periodic_process_def sync_free_def)
  with one show ?thesis
    by (auto simp: sync_turns_append replicate_append_same)
qed

theorem sw_read_waits_witness:
  "\<exists>s'. sync_turns ([sync_init, sync_init] @ [sync_init(64 := True), sync_init(64 := True)])
      (small_sim empty_store, small_wrapper\<lparr>sw_pc := Pp_sync (small_packet packet_read) False\<rparr>) =
    Inr ((s', small_wrapper\<lparr>sw_pc := Pp_sync (small_packet packet_read) False, sw_pc := Pp_read (small_packet packet_read)\<rparr>),
      replicate 3 (Wait Delay_period) @ [Wait (ns32 (cpu_latency small_wrapper))]) \<and>
    \<not> s_sync s' 64"
proof -
  let ?w = "small_wrapper\<lparr>sw_pc := Pp_sync (small_packet packet_read) False\<rparr>"
  have "sw_pc ?w = Pp_sync (small_packet packet_read) False" "unat (p_address (small_packet packet_read)) < SYNC_SIZE"
    "list_all (\<lambda>sy. \<not> sy (p_address (small_packet packet_read))) [sync_init, sync_init]"
    by (simp_all add: SYNC_SIZE_def sync_init_def)
  from sw_read_waits_for_signal [OF this, of "small_sim empty_store" "sync_init(64 := True)" "sync_init(64 := True)"]
  show ?thesis by (auto simp: numeral_3_eq_3)
qed

section \<open>Polling the channel\<close>

text \<open>
  With an empty channel the thread does not let simulated time pass before the first
  packet, nor after the data of a read have been sent to the host: it polls until the host
  process sends the next packet. Otherwise it lets one clock period pass between two looks.
\<close>

theorem sw_empty_channel:
  assumes "sw_pc w = Pp_poll" and "chan_inv (h_chan (sw_host w))" and "pb_list (ib (h_chan (sw_host w))) = []"
  shows "periodic_process (s, w) =
    Inr ((s, w), if received w \<and> \<not> req_done w then Wait Delay_period else Spin)"
proof -
  have "pb_is_empty (ib (h_chan (sw_host w)))"
    using assms(2,3) ring.empty_iff by (simp add: chan_inv_def)
  moreover have "w\<lparr>sw_pc := Pp_poll\<rparr> = w" using assms(1) by simp
  ultimately show ?thesis
    using assms(1) by (simp add: periodic_process_def sw_poll_def host_recv_packet_def shm_recv_packet_def Let_def)
qed

theorem sw_empty_channel_witness:
  "periodic_process (small_sim empty_store, small_wrapper\<lparr>sw_pc := Pp_poll\<rparr>) =
    Inr ((small_sim empty_store, small_wrapper\<lparr>sw_pc := Pp_poll\<rparr>), Spin)"
proof -
  have eq: "h_chan (sw_host small_wrapper) = shm_prepare_connection \<lparr>ib = zero_ring, bi = zero_ring\<rparr>"
    and r: "\<not> received small_wrapper"
    by (simp_all add: small_wrapper_def sw_init_def run_host_proc_def host_init_def)
  show ?thesis
    using sw_empty_channel [of "small_wrapper\<lparr>sw_pc := Pp_poll\<rparr>" "small_sim empty_store"] r
      chan_inv_prepare eq by simp
qed

text \<open>The packet at the head of the channel, with no delta time.\<close>

lemma sw_poll_packet:
  assumes "chan_inv (h_chan (sw_host w))" and "pb_list (ib (h_chan (sw_host w))) = p # ps" and "p_delta p = 0"
  shows "\<exists>h. sw_poll (s, w) = handle_packet p (s, w\<lparr>sw_host := h, sw_packet := p, received := True\<rparr>) \<and>
    h_status h = h_status (sw_host w) \<and> chan_inv (h_chan h) \<and> pb_list (ib (h_chan h)) = ps"
proof -
  let ?ch = "h_chan (sw_host w)"
  have inv: "pb_inv (ib ?ch)" using assms(1) by (simp add: chan_inv_def)
  then have ne: "\<not> pb_is_empty (ib ?ch)" using assms(2) ring.empty_iff by simp
  have get: "fst (snd (pb_read (ib ?ch))) = p" "pb_list (fst (pb_read (ib ?ch))) = ps"
    "pb_inv (fst (pb_read (ib ?ch)))"
    using ring.get_list [OF inv ne] ring.get_inv [OF inv ne] assms(2) by (simp_all add: pb_get_def)
  let ?h = "(sw_host w)\<lparr>h_chan := ?ch\<lparr>ib := fst (pb_read (ib ?ch))\<rparr>\<rparr>"
  have "shm_recv_packet (sw_packet w) ?ch = (?ch\<lparr>ib := fst (pb_read (ib ?ch))\<rparr>, p, sizeof_packet)"
    using ne get(1) by (simp add: shm_recv_packet_def pb_read_def)
  then have "sw_poll (s, w) = handle_packet p (s, w\<lparr>sw_host := ?h, sw_packet := p, received := True\<rparr>)"
    using assms(3) by (simp add: sw_poll_def host_recv_packet_def Let_def sizeof_packet_eq)
  with get assms(1) show ?thesis
    by (intro exI [of _ ?h]) (simp add: chan_inv_def)
qed

text \<open>
  The wrapper handles reads and writes only: a barrier packet (\<open>signalRequest\<close>,
  \<open>waitRequest\<close>) or an elapsed-time packet terminates the host in the simulator exactly
  as a termination packet does, and no later packet is looked at.
\<close>

theorem sw_other_packets_terminate:
  assumes "sw_pc w = Pp_poll" and "chan_inv (h_chan (sw_host w))"
    and "pb_list (ib (h_chan (sw_host w))) = p # ps" and "p_delta p = 0"
    and "p_type p \<noteq> packet_read" and "p_type p \<noteq> packet_write"
  shows "\<exists>s' w' d. periodic_process (s, w) = Inr ((s', w'), d) \<and> h_status (sw_host w') = TERMINATED \<and>
    pb_list (ib (h_chan (sw_host w'))) = ps \<and> sw_pc w' \<in> {Pp_end, Pp_done}"
proof -
  obtain h where h: "sw_poll (s, w) = handle_packet p (s, w\<lparr>sw_host := h, sw_packet := p, received := True\<rparr>)"
    "pb_list (ib (h_chan h)) = ps"
    using sw_poll_packet [OF assms(2-4)] by blast
  have "handle_packet p (s, w\<lparr>sw_host := h, sw_packet := p, received := True\<rparr>) =
      Inr (sw_tail (s, w\<lparr>sw_packet := p, received := True, sw_host := set_status TERMINATED h\<rparr>))"
    using assms(5,6) by (cases "p_type p") (simp_all add: handle_packet_def)
  with h assms(1) show ?thesis
    by (auto simp: periodic_process_def sw_tail_def get_status_def set_status_def)
qed

text \<open>A wrapper whose channel holds one packet.\<close>

definition wrapper_with :: "packet \<Rightarrow> sim_wrapper" where
  "wrapper_with p = small_wrapper\<lparr>sw_pc := Pp_poll,
     sw_host := \<lparr>h_status = RUNNING, h_chan = \<lparr>ib = pb_put (pb_init zero_ring) p, bi = pb_init zero_ring\<rparr>\<rparr>\<rparr>"

lemma wrapper_with_chan:
  "chan_inv (h_chan (sw_host (wrapper_with p)))" "pb_list (ib (h_chan (sw_host (wrapper_with p)))) = [p]"
  "sw_pc (wrapper_with p) = Pp_poll"
proof -
  have r: "pb_inv (pb_init zero_ring)" "pb_list (pb_init zero_ring) = []"
    by (simp_all add: pb_inv_init pb_list_init)
  then have room: "\<not> pb_is_full (pb_init zero_ring)"
    using ring.full_iff [OF r(1)] by (simp add: PKT_BUFFER_SIZE_def)
  show "chan_inv (h_chan (sw_host (wrapper_with p)))" "pb_list (ib (h_chan (sw_host (wrapper_with p)))) = [p]"
    "sw_pc (wrapper_with p) = Pp_poll"
    using ring.put_inv [OF r(1) room] ring.put_list [OF r(1) room] r
    by (simp_all add: wrapper_with_def chan_inv_def)
qed

theorem sw_other_packets_witness:
  "\<exists>s' w' d. periodic_process (small_sim empty_store, wrapper_with (small_packet packet_bar_wait)) = Inr ((s', w'), d) \<and>
    h_status (sw_host w') = TERMINATED \<and> pb_list (ib (h_chan (sw_host w'))) = [] \<and> sw_pc w' \<in> {Pp_end, Pp_done}"
  by (rule sw_other_packets_terminate [OF wrapper_with_chan(3,1,2)]) simp_all

end
