(* ===== verification/Sim_Count.thy ===== *)
theory Sim_Count
  imports Sim_Thread
begin

text \<open>
  Runs of the wrapper as a whole: the counter of outstanding payloads follows the calls that
  the falling edges make, the core is counted out once, the thread ends exactly when the host has terminated and the
  memory has stopped, and what the event queue delivers between two rising edges is kept only
  if it is one payload of each kind.
\<close>

section \<open>Events\<close>

text \<open>
  \<open>Sw_env\<close> is what the rest of the simulator does in between: it may change the
  payloads, the devices, the signals and \<open>active_dram\<close>. \<open>Sw_host\<close> is the host
  process, which changes the channel.
\<close>

datatype sw_event =
    Sw_env store "pid \<rightharpoonup> u32" sync_object u32
  | Sw_host channel
  | Sw_thread
  | Sw_bw_call pid
  | Sw_peq
  | Sw_posedge
  | Sw_negedge "nat \<Rightarrow> (nat \<Rightarrow> byte) \<times> nat"

fun sw_ev :: "sw_event \<Rightarrow> sim \<times> sim_wrapper \<Rightarrow> sim_error + ((sim \<times> sim_wrapper) \<times> call list)" where
  "sw_ev (Sw_env st dm sy ad) (s, w) =
     Inr ((s\<lparr>s_store := st, device_map := dm, s_sync := sy, active_dram := ad\<rparr>, w), [])"
| "sw_ev (Sw_host ch) (s, w) = Inr ((s, w\<lparr>sw_host := (sw_host w)\<lparr>h_chan := ch\<rparr>\<rparr>), [])"
| "sw_ev Sw_thread (s, w) = ebind (periodic_process (s, w)) (\<lambda>(sw', d). Inr (sw', []))"
| "sw_ev (Sw_bw_call p) (s, w) = Inr ((s, fst (sw_nb_transport_bw w p)), [])"
| "sw_ev Sw_peq (s, w) = Inr ((s, sw_peq_fire (s_store s) w), [])"
| "sw_ev Sw_posedge (s, w) = Inr ((s, sw_clock_posedge w), [])"
| "sw_ev (Sw_negedge mems) (s, w) = sw_clock_negedge mems (s, w)"

fun sent_calls :: "call \<Rightarrow> unit list" where
  "sent_calls (Fw_read i p) = [()]"
| "sent_calls (Fw_write i p) = [()]"
| "sent_calls _ = []"

fun ended_calls :: "call \<Rightarrow> unit list" where
  "ended_calls (Fw_end i p) = [()]"
| "ended_calls _ = []"

section \<open>What one step changes\<close>

text \<open>A step that leaves the counters and the status of the host alone.\<close>

definition quiet :: "sim \<times> sim_wrapper \<Rightarrow> sim \<times> sim_wrapper \<Rightarrow> bool" where
  "quiet a b \<longleftrightarrow> active_cores (fst b) = active_cores (fst a) \<and> active_dram (fst b) = active_dram (fst a) \<and>
     terminated (snd b) = terminated (snd a) \<and> outstanding (snd b) = outstanding (snd a) \<and>
     h_status (sw_host (snd b)) = h_status (sw_host (snd a))"

lemma quiet_refl [simp]: "quiet a a"
  by (simp add: quiet_def)

lemma quiet_trans: "quiet a b \<Longrightarrow> quiet b c \<Longrightarrow> quiet a c"
  by (simp add: quiet_def)

lemma efold_quiet:
  assumes "\<And>x a b. f x a = Inr b \<Longrightarrow> quiet a b"
  shows "efold f xs a = Inr b \<Longrightarrow> quiet a b"
proof (induction xs arbitrary: a)
  case (Cons x xs)
  then obtain c where "f x a = Inr c" "efold f xs c = Inr b" by auto
  with assms Cons.IH show ?case using quiet_trans by blast
qed simp

lemma add_payload_quiet:
  assumes "add_payload cmd a sz dat dev x = Inr y"
  shows "quiet x y"
proof -
  obtain s w where x: "x = (s, w)" by (cases x)
  with assms obtain st q where "st_obtain (sw_mm w) (s_store s) = Inr (st, q)"
    by (cases "st_obtain (sw_mm w) (s_store s)") (auto simp: add_payload_def)
  with assms x show ?thesis
    by (cases "cmd = TLM_READ_COMMAND") (auto simp: add_payload_def quiet_def Let_def)
qed

lemma turns_quiet: "read_turn p i x = Inr y \<Longrightarrow> quiet x y" "write_turn p i x = Inr y \<Longrightarrow> quiet x y"
  by (auto simp: read_turn_def write_turn_def Let_def dest: add_payload_quiet)

lemma split_quiet:
  assumes "split_read p x = Inr y \<or> split_write p x = Inr y"
  shows "quiet x y"
proof -
  obtain s w where x: "x = (s, w)" by (cases x)
  let ?r = "w\<lparr>req_done := False, sw_stats := update_total_read_size (packet_size w) (increase_r_packet (sw_stats w))\<rparr>"
  let ?u = "w\<lparr>req_done := False, sync_queue := sync_queue w @ [p_address p],
    sw_stats := update_total_write_size (packet_size w) (increase_w_packet (sw_stats w))\<rparr>"
  have start: "quiet x (s, ?r)" "quiet x (s, ?u)" using x by (simp_all add: quiet_def)
  from assms show ?thesis
  proof
    assume "split_read p x = Inr y"
    then obtain n where "efold (read_turn p) [0 ..< n] (s, ?r) = Inr y"
      using x by (auto simp: split_read_def Let_def)
    then have "quiet (s, ?r) y" by (rule efold_quiet [rotated]) (rule turns_quiet(1))
    with start(1) show ?thesis by (rule quiet_trans)
  next
    assume "split_write p x = Inr y"
    then obtain n where "efold (write_turn p) [0 ..< n] (s, ?u) = Inr y"
      using x by (auto simp: split_write_def Let_def)
    then have "quiet (s, ?u) y" by (rule efold_quiet [rotated]) (rule turns_quiet(2))
    with start(2) show ?thesis by (rule quiet_trans)
  qed
qed

text \<open>One turn of the thread counts the core out at most once, and only when the host has terminated.\<close>

definition counts_once :: "sim \<times> sim_wrapper \<Rightarrow> sim \<times> sim_wrapper \<Rightarrow> bool" where
  "counts_once a b \<longleftrightarrow> outstanding (snd b) = outstanding (snd a) \<and> active_dram (fst b) = active_dram (fst a) \<and>
     (terminated (snd a) \<longrightarrow> terminated (snd b)) \<and>
     active_cores (fst b) = active_cores (fst a) - (if terminated (snd b) \<and> \<not> terminated (snd a) then 1 else 0)"

lemma quiet_counts: "quiet a b \<Longrightarrow> counts_once a b"
  by (simp add: quiet_def counts_once_def)

lemma counts_trans: "counts_once a b \<Longrightarrow> counts_once b c \<Longrightarrow> counts_once a c"
  by (cases "terminated (snd a)"; cases "terminated (snd b)"; simp add: counts_once_def)

lemma tail_counts: "counts_once a b \<Longrightarrow> counts_once a (fst (sw_tail b))"
  by (cases b) (auto simp: sw_tail_def counts_once_def)

lemma tail_result: "Inr (sw_tail x) = Inr (b, d) \<Longrightarrow> fst (sw_tail x) = b"
  by (metis fst_conv sum.inject(2))

lemma handle_wait_counts: "handle_wait_packet p a = Inr (b, d) \<Longrightarrow> counts_once a b"
  by (cases a) (auto simp: handle_wait_packet_def counts_once_def)

lemma handle_counts:
  assumes "handle_packet p a = Inr (b, d)"
  shows "counts_once a b"
proof -
  obtain s w where a: "a = (s, w)" by (cases a)
  let ?w = "w\<lparr>sw_host := set_status TERMINATED (sw_host w)\<rparr>"
  have t: "counts_once (s, w) (fst (sw_tail (s, ?w)))"
    by (rule tail_counts) (simp add: counts_once_def)
  consider "p_type p = packet_read" | "p_type p = packet_write" | "p_type p \<noteq> packet_read" "p_type p \<noteq> packet_write"
    by blast
  then show ?thesis
  proof cases
    case 1
    with assms a handle_wait_counts show ?thesis by (simp add: handle_packet_def)
  next
    case 2
    with assms a show ?thesis by (auto simp: handle_packet_def counts_once_def)
  next
    case 3
    then have "handle_packet p a = Inr (sw_tail (s, ?w))"
      using a by (cases "p_type p") (simp_all add: handle_packet_def)
    with assms have "fst (sw_tail (s, ?w)) = b" by (metis tail_result)
    with a t show ?thesis by simp
  qed
qed

lemma poll_counts:
  assumes "sw_poll a = Inr (b, d)"
  shows "counts_once a b"
proof -
  obtain s w where a: "a = (s, w)" by (cases a)
  obtain h p n where r: "host_recv_packet (sw_packet w) (sw_host w) = (h, p, n)"
    by (cases "host_recv_packet (sw_packet w) (sw_host w)") auto
  have step: "counts_once a b" if "handle_packet p (s, w\<lparr>sw_host := h, sw_packet := p, received := True\<rparr>) = Inr (b, d)"
    using counts_trans [OF _ handle_counts [OF that], of a] a by (simp add: counts_once_def)
  show ?thesis
    using assms a r step by (auto simp: sw_poll_def Let_def counts_once_def split: if_splits)
qed

lemma top_counts:
  assumes "sw_top a = Inr (b, d)"
  shows "counts_once a b"
proof -
  obtain s w where a: "a = (s, w)" by (cases a)
  have t: "counts_once (s, w) (fst (sw_tail (s, w)))" by (rule tail_counts) (simp add: counts_once_def)
  have u: "\<not> terminated w \<Longrightarrow> counts_once (s, w)
      (fst (sw_tail (s\<lparr>active_cores := active_cores s - 1\<rparr>, w\<lparr>terminated := True\<rparr>)))"
    by (rule tail_counts) (simp add: counts_once_def)
  consider "get_status (sw_host w) = RUNNING" | "get_status (sw_host w) = TERMINATED" "\<not> terminated w"
    | "get_status (sw_host w) \<noteq> RUNNING" "\<not> (get_status (sw_host w) = TERMINATED \<and> \<not> terminated w)" by blast
  then show ?thesis
  proof cases
    case 1
    with assms a poll_counts show ?thesis by (simp add: sw_top_def)
  next
    case 2
    with assms a u show ?thesis by (simp add: sw_top_def)
  next
    case 3
    then have "sw_top a = Inr (sw_tail (s, w))" using a by (auto simp: sw_top_def)
    with assms have "fst (sw_tail (s, w)) = b" by (metis tail_result)
    with a t show ?thesis by simp
  qed
qed

lemma thread_counts:
  assumes "periodic_process a = Inr (b, d)"
  shows "counts_once a b"
proof -
  obtain s w where a: "a = (s, w)" by (cases a)
  have split: "counts_once (s, w) b"
    if "split_read p (s, w) = Inr (s1, w1) \<or> split_write p (s, w) = Inr (s1, w1)"
      and "sw_tail (s1, w1') = (b, d)" and "quiet (s1, w1) (s1, w1')" for p s1 w1 w1'
  proof -
    have "counts_once (s, w) (s1, w1')"
      using quiet_trans [OF split_quiet [OF that(1)] that(3)] by (rule quiet_counts)
    from tail_counts [OF this] that(2) show ?thesis by simp
  qed
  show ?thesis
  proof (cases "sw_pc w")
    case Pp_connect
    show ?thesis
    proof (cases "host_connect (sw_host w)")
      case None
      with assms a Pp_connect show ?thesis by (simp add: periodic_process_def counts_once_def)
    next
      case (Some h)
      with assms a Pp_connect have "sw_top (s, w\<lparr>sw_host := h\<rparr>) = Inr (b, d)"
        by (simp add: periodic_process_def)
      from top_counts [OF this] a show ?thesis by (simp add: counts_once_def)
    qed
  next
    case Pp_poll
    with assms a poll_counts show ?thesis by (simp add: periodic_process_def)
  next
    case (Pp_delta p)
    with assms a have "handle_packet p (s, w\<lparr>received := True\<rparr>) = Inr (b, d)"
      by (simp add: periodic_process_def)
    from handle_counts [OF this] a show ?thesis by (simp add: counts_once_def)
  next
    case (Pp_sync p x)
    with assms a handle_wait_counts show ?thesis
      by (cases x) (auto simp: periodic_process_def counts_once_def)
  next
    case (Pp_read p)
    with assms a obtain s1 w1 where "split_read p (s, w) = Inr (s1, w1)"
      "sw_tail (s1, w1\<lparr>r_idx := r_idx w1 + 1\<rparr>) = (b, d)"
      by (auto simp: periodic_process_def)
    moreover have "quiet (s1, w1) (s1, w1\<lparr>r_idx := r_idx w1 + 1\<rparr>)" by (simp add: quiet_def)
    ultimately show ?thesis using split a by blast
  next
    case (Pp_write p)
    with assms a obtain s1 w1 where "split_write p (s, w) = Inr (s1, w1)"
      "sw_tail (s1, w1\<lparr>w_idx := w_idx w1 + 1\<rparr>) = (b, d)"
      by (auto simp: periodic_process_def)
    moreover have "quiet (s1, w1) (s1, w1\<lparr>w_idx := w_idx w1 + 1\<rparr>)" by (simp add: quiet_def)
    ultimately show ?thesis using split a by blast
  next
    case Pp_end
    with assms a top_counts show ?thesis by (simp add: periodic_process_def)
  next
    case Pp_done
    with assms a show ?thesis by (simp add: periodic_process_def counts_once_def)
  qed
qed

section \<open>Whole runs\<close>

lemma respond_quiet: "respond w = Inr w' \<Longrightarrow> quiet (s, w) (s, w')"
  by (auto simp: respond_def host_response_request_def host_send_packet_def quiet_def split: option.splits prod.splits)

text \<open>The calls of a falling edge balance the counter.\<close>

definition balances :: "u32 \<Rightarrow> sim_wrapper \<Rightarrow> sim_wrapper \<Rightarrow> call list \<Rightarrow> bool" where
  "balances x w w' os \<longleftrightarrow> outstanding w' + of_nat (length (tokens ended_calls os)) =
     outstanding w + of_nat (length (tokens sent_calls os)) \<and> terminated w' = terminated w"

lemma forward_balances:
  "balances x w (fst (forward_read w)) (snd (forward_read w))"
  "balances x w (fst (forward_write w)) (snd (forward_write w))"
  by (auto simp: balances_def forward_read_def forward_write_def split: list.splits)

lemma take_rack_balances:
  assumes "take_rack mems st w = Inr (w', os)"
  shows "balances x w w' os"
proof (cases "rack_queue w")
  case Nil
  with assms show ?thesis by (simp add: take_rack_def balances_def)
next
  case (Cons p ps)
  from assms Cons obtain d n where "os = [Fw_end 0 p]" and
    "(if rack_num w + 1 = n
      then respond (w\<lparr>rack_queue := ps, packet_data := d, rack_num := rack_num w + 1, outstanding := outstanding w - 1\<rparr>)
      else Inr (w\<lparr>rack_queue := ps, packet_data := d, rack_num := rack_num w + 1, outstanding := outstanding w - 1\<rparr>))
      = Inr w'"
    by (auto simp: take_rack_def Let_def)
  then show ?thesis
    by (auto simp: balances_def quiet_def split: if_splits dest!: respond_quiet)
qed

lemma take_wack_balances:
  assumes "take_wack s w = Inr (s', w', os)"
  shows "balances x w w' os \<and> active_cores s' = active_cores s"
proof (cases "wack_queue w")
  case Nil
  with assms show ?thesis by (simp add: take_wack_def balances_def)
next
  case (Cons p ps)
  with assms show ?thesis
    by (auto simp: take_wack_def Let_def balances_def split: if_splits)
qed

lemma balance_chain:
  fixes x0 x1 x2 e1 e2 s1 s2 :: u32
  assumes "x1 + e1 = x0 + s1" and "x2 + e2 = x1 + s2"
  shows "x2 + (e1 + e2) = x0 + (s1 + s2)"
proof -
  have "x2 + (e1 + e2) = (x2 + e2) + e1" by (simp add: ac_simps)
  also have "\<dots> = (x1 + e1) + s2" using assms(2) by (simp add: ac_simps)
  finally show ?thesis using assms(1) by (simp add: ac_simps)
qed

lemma balances_append:
  assumes "balances x w w1 os1" and "balances x w1 w2 os2"
  shows "balances x w w2 (os1 @ os2)"
proof -
  have "outstanding w1 + of_nat (length (tokens ended_calls os1)) = outstanding w + of_nat (length (tokens sent_calls os1))"
    "outstanding w2 + of_nat (length (tokens ended_calls os2)) = outstanding w1 + of_nat (length (tokens sent_calls os2))"
    using assms by (simp_all add: balances_def)
  from balance_chain [OF this] assms show ?thesis by (simp add: balances_def)
qed

lemma negedge_balances:
  assumes "sw_clock_negedge mems (s, w) = Inr ((s', w'), os)"
  shows "balances x w w' os \<and> active_cores s' = active_cores s"
proof -
  obtain w1 os1 where 1: "forward_read w = (w1, os1)" by (cases "forward_read w")
  obtain w2 os2 where 2: "forward_write w1 = (w2, os2)" by (cases "forward_write w1")
  from assms 1 2 obtain w3 os3 w4 os4 where 3: "take_rack mems (s_store s) w2 = Inr (w3, os3)"
    and 4: "take_wack s w3 = Inr (s', w4, os4)" and os: "os = os1 @ os2 @ os3 @ os4"
    and w': "outstanding w' = outstanding w4" "terminated w' = terminated w4"
    by (auto simp: sw_clock_negedge_def)
  have "balances x w w4 (os1 @ os2 @ os3 @ os4)"
    using balances_append forward_balances(1) [of x w] forward_balances(2) [of x w1] 1 2
      take_rack_balances [OF 3, of x] take_wack_balances [OF 4, of x] by (metis fst_conv snd_conv)
  with os w' take_wack_balances [OF 4] show ?thesis by (simp add: balances_def)
qed

lemma sw_ev_counts:
  assumes "sw_ev e a = Inr (b, os)"
  shows "outstanding (snd b) + of_nat (length (tokens ended_calls os)) =
      outstanding (snd a) + of_nat (length (tokens sent_calls os)) \<and>
    (terminated (snd a) \<longrightarrow> terminated (snd b)) \<and>
    active_cores (fst b) = active_cores (fst a) - (if terminated (snd b) \<and> \<not> terminated (snd a) then 1 else 0)"
proof -
  obtain s w where a: "a = (s, w)" by (cases a)
  show ?thesis
  proof (cases e)
    case (Sw_negedge mems)
    obtain s' w' where b: "b = (s', w')" by (cases b)
    with negedge_balances [of mems s w s' w' os] assms a Sw_negedge show ?thesis
      by (simp add: balances_def)
  next
    case Sw_thread
    with assms a obtain d where "periodic_process (s, w) = Inr (b, d)" "os = []" by auto
    from thread_counts [OF this(1)] this(2) a show ?thesis by (simp add: counts_once_def)
  next
    case Sw_peq
    with assms a show ?thesis by (auto simp: sw_peq_fire_def sw_peq_cb_def split: list.splits if_splits)
  next
    case Sw_posedge
    with assms a show ?thesis by (auto simp: sw_clock_posedge_def Let_def split: option.splits)
  qed (use assms a in \<open>auto simp: sw_nb_transport_bw_def\<close>)
qed

text \<open>Over a run the steps add up.\<close>

lemma sw_run_counts:
  assumes "run_events sw_ev es a = Inr (b, os)"
  shows "outstanding (snd b) + of_nat (length (tokens ended_calls os)) =
      outstanding (snd a) + of_nat (length (tokens sent_calls os)) \<and>
    (terminated (snd a) \<longrightarrow> terminated (snd b)) \<and>
    active_cores (fst b) = active_cores (fst a) - (if terminated (snd b) \<and> \<not> terminated (snd a) then 1 else 0)"
  using assms
proof (induction es arbitrary: a os)
  case (Cons e es)
  then obtain c os1 os2 where one: "sw_ev e a = Inr (c, os1)" and rest: "run_events sw_ev es c = Inr (b, os2)"
    and os: "os = os1 @ os2" by auto
  note 1 = sw_ev_counts [OF one] and 2 = Cons.IH [OF rest]
  from balance_chain [OF 1 [THEN conjunct1] 2 [THEN conjunct1]] os
  have "outstanding (snd b) + of_nat (length (tokens ended_calls os)) =
      outstanding (snd a) + of_nat (length (tokens sent_calls os))"
    by simp
  with 1 [THEN conjunct2] 2 [THEN conjunct2] show ?case
    by (cases "terminated (snd a)"; cases "terminated (snd b)"; cases "terminated (snd c)"; simp)
qed simp

section \<open>The end of the host\<close>

text \<open>The host has sent its last packet, and the thread has looked at it.\<close>

definition over :: "sim_wrapper \<Rightarrow> bool" where
  "over w \<longleftrightarrow> h_status (sw_host w) = TERMINATED"

text \<open>
  Once the host is over, the thread is at the end of its loop or has ended; it counts the core out, and ends, only
  then.
\<close>

definition end_inv :: "sim_wrapper \<Rightarrow> bool" where
  "end_inv w \<longleftrightarrow> (over w \<longrightarrow> sw_pc w \<in> {Pp_end, Pp_done}) \<and> (terminated w \<longrightarrow> over w) \<and> (sw_pc w = Pp_done \<longrightarrow> over w)"

text \<open>What a turn may leave, with \<open>ad\<close> memories active, when the host was not over at its beginning.\<close>

definition before_end :: "u32 \<Rightarrow> (sim \<times> sim_wrapper) \<times> pause \<Rightarrow> bool" where
  "before_end ad r \<longleftrightarrow> (case r of ((s, w), d) \<Rightarrow> \<not> terminated w \<and>
     (over w \<longrightarrow> sw_pc w = (if ad = 0 then Pp_done else Pp_end)) \<and>
     (sw_pc w = Pp_done \<longrightarrow> over w \<and> ad = 0) \<and> (d = Stop \<longleftrightarrow> sw_pc w = Pp_done))"

lemma tail_before_end: "\<not> terminated w \<Longrightarrow> before_end (active_dram s) (sw_tail (s, w))"
  by (auto simp: sw_tail_def before_end_def over_def get_status_def)

lemma wait_before_end:
  "handle_wait_packet p (s, w) = Inr r \<Longrightarrow> \<not> over w \<Longrightarrow> \<not> terminated w \<Longrightarrow> before_end ad r"
  by (auto simp: handle_wait_packet_def before_end_def over_def)

lemma handle_before_end:
  assumes "handle_packet p (s, w) = Inr r" and "\<not> over w" and "\<not> terminated w"
  shows "before_end (active_dram s) r"
proof -
  have t: "before_end (active_dram s) (sw_tail (s, w\<lparr>sw_host := set_status TERMINATED (sw_host w)\<rparr>))"
    by (rule tail_before_end) (use assms(3) in simp)
  consider "p_type p = packet_read" | "p_type p = packet_write" | "p_type p \<noteq> packet_read" "p_type p \<noteq> packet_write"
    by blast
  then show ?thesis
  proof cases
    case 1
    with assms wait_before_end [of p s w r] show ?thesis by (simp add: handle_packet_def)
  next
    case 2
    with assms show ?thesis by (auto simp: handle_packet_def before_end_def over_def)
  next
    case 3
    then have "handle_packet p (s, w) = Inr (sw_tail (s, w\<lparr>sw_host := set_status TERMINATED (sw_host w)\<rparr>))"
      by (cases "p_type p") (simp_all add: handle_packet_def)
    with assms(1) t show ?thesis by simp
  qed
qed

lemma poll_before_end:
  assumes "sw_poll (s, w) = Inr r" and "\<not> over w" and "\<not> terminated w"
  shows "before_end (active_dram s) r"
proof -
  obtain h p n where r: "host_recv_packet (sw_packet w) (sw_host w) = (h, p, n)"
    by (cases "host_recv_packet (sw_packet w) (sw_host w)") auto
  then have h: "h_status h = h_status (sw_host w)" by (auto simp: host_recv_packet_def split: prod.splits)
  have "before_end (active_dram s) r"
    if "handle_packet p (s, w\<lparr>sw_host := h, sw_packet := p, received := True\<rparr>) = Inr r"
    by (rule handle_before_end [OF that]) (use assms(2,3) h in \<open>simp_all add: over_def\<close>)
  with assms r h show ?thesis
    by (auto simp: sw_poll_def Let_def before_end_def over_def split: if_splits)
qed

lemma split_before_end:
  assumes "split_read p (s, w) = Inr (s1, w1) \<or> split_write p (s, w) = Inr (s1, w1)" and "\<not> over w" and "\<not> terminated w"
  shows "before_end (active_dram s) (sw_tail (s1, w1\<lparr>r_idx := i\<rparr>))" "before_end (active_dram s) (sw_tail (s1, w1\<lparr>w_idx := i\<rparr>))"
  using split_quiet [OF assms(1)] assms(2,3) tail_before_end [of "w1\<lparr>r_idx := i\<rparr>" s1] tail_before_end [of "w1\<lparr>w_idx := i\<rparr>" s1]
  by (simp_all add: quiet_def)

lemma turn_before_end:
  assumes inv: "end_inv w" and no: "\<not> over w" and turn: "periodic_process (s, w) = Inr r"
  shows "before_end (active_dram s) r"
proof -
  have t: "\<not> terminated w" using inv no by (auto simp: end_inv_def)
  show ?thesis
  proof (cases "sw_pc w")
    case Pp_connect
    show ?thesis
    proof (cases "host_connect (sw_host w)")
      case None
      with turn t no Pp_connect show ?thesis by (auto simp: periodic_process_def before_end_def)
    next
      case (Some h)
      then have h: "h_status h = RUNNING" by (auto simp: host_connect_def set_status_def split: option.splits)
      have "sw_poll (s, w\<lparr>sw_host := h\<rparr>) = Inr r"
        using turn Pp_connect Some h by (simp add: periodic_process_def sw_top_def get_status_def)
      from poll_before_end [OF this] h t show ?thesis by (simp add: over_def)
    qed
  next
    case Pp_poll
    with turn poll_before_end [OF _ no t] show ?thesis by (simp add: periodic_process_def)
  next
    case (Pp_delta p)
    with turn have "handle_packet p (s, w\<lparr>received := True\<rparr>) = Inr r" by (simp add: periodic_process_def)
    from handle_before_end [OF this] no t show ?thesis by (simp add: over_def)
  next
    case (Pp_sync p x)
    with turn wait_before_end [OF _ no t] no t show ?thesis
      by (cases x) (auto simp: periodic_process_def before_end_def over_def)
  next
    case (Pp_read p)
    with turn obtain s1 w1 where sp: "split_read p (s, w) = Inr (s1, w1)" and r: "r = sw_tail (s1, w1\<lparr>r_idx := r_idx w1 + 1\<rparr>)"
      by (auto simp: periodic_process_def)
    from sp have "split_read p (s, w) = Inr (s1, w1) \<or> split_write p (s, w) = Inr (s1, w1)" by simp
    from split_before_end(1) [OF this no t] show ?thesis by (simp add: r)
  next
    case (Pp_write p)
    with turn obtain s1 w1 where sp: "split_write p (s, w) = Inr (s1, w1)" and r: "r = sw_tail (s1, w1\<lparr>w_idx := w_idx w1 + 1\<rparr>)"
      by (auto simp: periodic_process_def)
    from sp have "split_read p (s, w) = Inr (s1, w1) \<or> split_write p (s, w) = Inr (s1, w1)" by simp
    from split_before_end(2) [OF this no t] show ?thesis by (simp add: r)
  next
    case Pp_end
    with turn have top: "sw_top (s, w) = Inr r" by (simp add: periodic_process_def)
    show ?thesis
    proof (cases "get_status (sw_host w) = RUNNING")
      case True
      with top poll_before_end [OF _ no t] show ?thesis by (simp add: sw_top_def)
    next
      case False
      with top no have "r = sw_tail (s, w)" by (auto simp: sw_top_def over_def get_status_def)
      with tail_before_end [OF t] show ?thesis by simp
    qed
  next
    case Pp_done
    with inv no show ?thesis by (simp add: end_inv_def)
  qed
qed

text \<open>When the host is over, the turn is known exactly.\<close>

definition end_turn :: "sim \<times> sim_wrapper \<Rightarrow> (sim \<times> sim_wrapper) \<times> pause" where
  "end_turn a = (case a of (s, w) \<Rightarrow>
     ((if terminated w then s else s\<lparr>active_cores := active_cores s - 1\<rparr>,
       w\<lparr>terminated := True, sw_pc := (if active_dram s = 0 then Pp_done else Pp_end)\<rparr>),
      if active_dram s = 0 then Stop else Wait Delay_period))"

lemma turn_at_end:
  assumes "sw_pc w = Pp_end" and "over w"
  shows "periodic_process (s, w) = Inr (end_turn (s, w))"
proof (cases "terminated w")
  case True
  then have same: "w\<lparr>terminated := True, sw_pc := x\<rparr> = w\<lparr>sw_pc := x\<rparr>" for x by (cases w) simp
  have top: "periodic_process (s, w) = Inr (sw_tail (s, w))"
    using assms True by (simp add: periodic_process_def sw_top_def get_status_def over_def)
  show ?thesis
    unfolding top end_turn_def using assms True same by (simp add: sw_tail_def get_status_def over_def)
next
  case False
  with assms have top: "periodic_process (s, w) = Inr (sw_tail (s\<lparr>active_cores := active_cores s - 1\<rparr>, w\<lparr>terminated := True\<rparr>))"
    by (simp add: periodic_process_def sw_top_def get_status_def over_def)
  show ?thesis
    unfolding top end_turn_def using assms False by (simp add: sw_tail_def get_status_def over_def)
qed

lemma thread_end:
  assumes inv: "end_inv w" and turn: "periodic_process (s, w) = Inr ((s', w'), d)"
  shows "end_inv w'" (is ?A) and "over w \<longrightarrow> over w'" (is ?B)
    and "terminated w' \<longleftrightarrow> terminated w \<or> over w \<and> sw_pc w \<noteq> Pp_done" (is ?C)
    and "sw_pc w' = Pp_done \<longleftrightarrow> sw_pc w = Pp_done \<or> active_dram s = 0 \<and> over w'" (is ?D)
    and "sw_pc w \<noteq> Pp_done \<longrightarrow> (d = Stop \<longleftrightarrow> sw_pc w' = Pp_done)" (is ?E)
proof -
  have "?A \<and> ?B \<and> ?C \<and> ?D \<and> ?E"
  proof (cases "over w")
    case False
    have w: "\<not> terminated w" "sw_pc w \<noteq> Pp_done" using inv False by (auto simp: end_inv_def)
    have w': "\<not> terminated w'" "over w' \<longrightarrow> sw_pc w' = (if active_dram s = 0 then Pp_done else Pp_end)"
      "sw_pc w' = Pp_done \<longrightarrow> over w' \<and> active_dram s = 0" "d = Stop \<longleftrightarrow> sw_pc w' = Pp_done"
      using turn_before_end [OF inv False turn, unfolded before_end_def prod.case] by iprover+
    show ?thesis
    proof (cases "over w'")
      case True
      with w w' False show ?thesis by (cases "active_dram s = 0") (simp_all add: end_inv_def)
    next
      case no: False
      then have "sw_pc w' \<noteq> Pp_done" using w'(3) by blast
      with w w' False no show ?thesis by (simp add: end_inv_def)
    qed
  next
    case over: True
    with inv consider "sw_pc w = Pp_end" | "sw_pc w = Pp_done" by (auto simp: end_inv_def)
    then show ?thesis
    proof cases
      case 1
      have r: "end_turn (s, w) = ((s', w'), d)" using turn_at_end [OF 1 over, of s] turn by (simp only: sum.inject)
      have w': "w' = w\<lparr>terminated := True, sw_pc := (if active_dram s = 0 then Pp_done else Pp_end)\<rparr>"
        "d = (if active_dram s = 0 then Stop else Wait Delay_period)"
        using r unfolding end_turn_def prod.case prod.inject by blast+
      have "terminated w'" "over w'" using over by (simp_all add: w' over_def)
      moreover have "sw_pc w' = (if active_dram s = 0 then Pp_done else Pp_end)" by (simp add: w'(1))
      ultimately show ?thesis using over 1 w'(2) by (cases "active_dram s = 0") (simp_all add: end_inv_def)
    next
      case 2
      then have "w' = w" using turn by (simp add: periodic_process_def)
      with 2 inv over show ?thesis by (simp add: end_inv_def)
    qed
  qed
  then show ?A ?B ?C ?D ?E by iprover+
qed

text \<open>Only the thread changes its position, its flag and the status of the host.\<close>

definition same_thread :: "sim_wrapper \<Rightarrow> sim_wrapper \<Rightarrow> bool" where
  "same_thread w w' \<longleftrightarrow> sw_pc w' = sw_pc w \<and> terminated w' = terminated w \<and> over w' = over w"

lemma respond_same_thread: "respond w = Inr w' \<Longrightarrow> same_thread w w'"
  by (auto simp: respond_def host_response_request_def host_send_packet_def same_thread_def over_def
      split: option.splits prod.splits)

lemma same_thread_trans: "same_thread a b \<Longrightarrow> same_thread b c \<Longrightarrow> same_thread a c"
  by (simp add: same_thread_def)

lemma take_rack_same_thread:
  assumes "take_rack mems st w = Inr (w', os)"
  shows "same_thread w w'"
proof (cases "rack_queue w")
  case Nil
  with assms show ?thesis by (simp add: take_rack_def same_thread_def)
next
  case (Cons p ps)
  from assms Cons obtain d n where
    "(if rack_num w + 1 = n
      then respond (w\<lparr>rack_queue := ps, packet_data := d, rack_num := rack_num w + 1, outstanding := outstanding w - 1\<rparr>)
      else Inr (w\<lparr>rack_queue := ps, packet_data := d, rack_num := rack_num w + 1, outstanding := outstanding w - 1\<rparr>))
      = Inr w'"
    by (auto simp: take_rack_def Let_def)
  then show ?thesis
    by (auto simp: same_thread_def over_def split: if_splits dest!: respond_same_thread)
qed

lemma negedge_same_thread:
  assumes "sw_clock_negedge mems (s, w) = Inr ((s', w'), os)"
  shows "same_thread w w'"
proof -
  obtain w1 os1 where 1: "forward_read w = (w1, os1)" by (cases "forward_read w")
  obtain w2 os2 where 2: "forward_write w1 = (w2, os2)" by (cases "forward_write w1")
  from assms 1 2 obtain w3 os3 w4 os4 where 3: "take_rack mems (s_store s) w2 = Inr (w3, os3)"
    and 4: "take_wack s w3 = Inr (s', w4, os4)" and w': "same_thread w4 w'"
    by (auto simp: sw_clock_negedge_def same_thread_def over_def)
  have "same_thread w w2"
    using 1 2 by (auto simp: forward_read_def forward_write_def same_thread_def over_def split: list.splits)
  moreover have "same_thread w3 w4"
    using 4 by (auto simp: take_wack_def Let_def same_thread_def over_def split: list.splits if_splits)
  ultimately show ?thesis
    using take_rack_same_thread [OF 3] w' same_thread_trans by blast
qed

lemma event_same_thread:
  assumes "sw_ev e (s, w) = Inr ((s', w'), os)" and "e \<noteq> Sw_thread"
  shows "same_thread w w'"
proof (cases e)
  case (Sw_negedge mems)
  with assms negedge_same_thread show ?thesis by simp
next
  case Sw_peq
  with assms show ?thesis
    by (auto simp: sw_peq_fire_def sw_peq_cb_def same_thread_def over_def split: list.splits if_splits)
next
  case Sw_posedge
  with assms show ?thesis
    by (auto simp: sw_clock_posedge_def Let_def same_thread_def over_def split: option.splits)
qed (use assms in \<open>auto simp: sw_nb_transport_bw_def same_thread_def over_def\<close>)

section \<open>The turns of a run\<close>

text \<open>Whether the thread has, in a run from \<open>a\<close>, a turn that begins in a state with the property \<open>P\<close>.\<close>

fun turn_where :: "(sim \<times> sim_wrapper \<Rightarrow> bool) \<Rightarrow> sw_event list \<Rightarrow> sim \<times> sim_wrapper \<Rightarrow> bool" where
  "turn_where P [] a \<longleftrightarrow> False"
| "turn_where P (e # es) a \<longleftrightarrow> (case e of Sw_thread \<Rightarrow> P a | _ \<Rightarrow> False) \<or>
     (case sw_ev e a of Inl _ \<Rightarrow> False | Inr (b, _) \<Rightarrow> turn_where P es b)"

text \<open>A turn that begins after the host is over; and one that ends so while no memory is active.\<close>

fun after_end :: "sim \<times> sim_wrapper \<Rightarrow> bool" where
  "after_end (s, w) \<longleftrightarrow> h_status (sw_host w) = TERMINATED \<and> sw_pc w \<noteq> Pp_done"

fun last_turn :: "sim \<times> sim_wrapper \<Rightarrow> bool" where
  "last_turn (s, w) \<longleftrightarrow> active_dram s = 0 \<and>
     (case periodic_process (s, w) of Inl _ \<Rightarrow> False | Inr ((s', w'), d) \<Rightarrow> h_status (sw_host w') = TERMINATED)"

lemma run_end:
  assumes "end_inv (snd a)" and "run_events sw_ev es a = Inr (b, os)"
  shows "end_inv (snd b)" and "terminated (snd b) \<longleftrightarrow> terminated (snd a) \<or> turn_where after_end es a"
    and "sw_pc (snd b) = Pp_done \<longleftrightarrow> sw_pc (snd a) = Pp_done \<or> turn_where last_turn es a"
proof -
  have "end_inv (snd b) \<and> (terminated (snd b) \<longleftrightarrow> terminated (snd a) \<or> turn_where after_end es a) \<and>
    (sw_pc (snd b) = Pp_done \<longleftrightarrow> sw_pc (snd a) = Pp_done \<or> turn_where last_turn es a)"
    using assms
  proof (induction es arbitrary: a os)
    case Nil
    then show ?case by simp
  next
    case (Cons e es)
    obtain s w where a: "a = (s, w)" by (cases a)
    from Cons.prems obtain s1 w1 os1 os2 where one: "sw_ev e (s, w) = Inr ((s1, w1), os1)"
      and rest: "run_events sw_ev es (s1, w1) = Inr (b, os2)"
      using a by auto
    have inv: "end_inv w" using Cons.prems(1) a by simp
    show ?case
    proof (cases "e = Sw_thread")
      case True
      with one obtain d where "periodic_process (s, w) = Inr ((s1, w1), d)" by auto
      note t = thread_end [OF inv this] this
      from Cons.IH [of "(s1, w1)", OF _ rest] t(1,3,4,6) True one a show ?thesis
        by (auto simp: over_def simp del: sw_ev.simps)
    next
      case False
      from event_same_thread [OF one False] have "same_thread w w1" .
      then have "end_inv w1" "terminated w1 = terminated w" "sw_pc w1 = sw_pc w"
        using inv by (simp_all add: same_thread_def end_inv_def)
      with Cons.IH [of "(s1, w1)", OF _ rest] False one a show ?thesis
        by (cases e) (simp_all del: sw_ev.simps)
    qed
  qed
  then show "end_inv (snd b)" "terminated (snd b) \<longleftrightarrow> terminated (snd a) \<or> turn_where after_end es a"
    "sw_pc (snd b) = Pp_done \<longleftrightarrow> sw_pc (snd a) = Pp_done \<or> turn_where last_turn es a" by blast+
qed

lemma fresh_end_inv: "end_inv (sw_init i m latency psize rsize nm ch garbage garbage')"
  by (simp add: end_inv_def over_def sw_init_def run_host_proc_def host_init_def)

lemma fresh_fields:
  "\<not> terminated (sw_init i m latency psize rsize nm ch garbage garbage')"
  "sw_pc (sw_init i m latency psize rsize nm ch garbage garbage') \<noteq> Pp_done"
  "outstanding (sw_init i m latency psize rsize nm ch garbage garbage') = 0"
  by (simp_all add: sw_init_def)

text \<open>
  C22. In every run of a new wrapper, whatever the rest of the simulator and the host process do in between: the
  counter \<open>outstanding\<close> is the number of requests forwarded less the number of responses ended; and the
  wrapper takes exactly one from the global number of active cores if its thread has had a turn that began after
  the host had terminated, however many such turns there were, and nothing before that. (The turn that handles the
  last packet does not count the core out itself; if no memory is active at that moment, the thread ends there.)
\<close>

theorem sw_counts:
  assumes "run_events sw_ev es (s, sw_init i m latency psize rsize nm ch garbage garbage') = Inr ((s', w'), os)"
  shows "outstanding w' + of_nat (length (tokens ended_calls os)) = of_nat (length (tokens sent_calls os)) \<and>
    active_cores s' = active_cores s -
      (if turn_where after_end es (s, sw_init i m latency psize rsize nm ch garbage garbage') then 1 else 0)"
  using sw_run_counts [OF assms] run_end(2) [OF _ assms] fresh_end_inv fresh_fields by simp

text \<open>
  A run that terminates: the host process connects and sends its last packet, the thread handles
  it and has two more turns; in the end the memory stops as well, and the thread with it.
\<close>

definition last_packets :: channel where
  "last_packets = \<lparr>ib = zero_ring\<lparr>pb_start := 0, pb_end := 2, pb_elems := (\<lambda>_. small_packet packet_terminated)\<rparr>,
     bi = pb_init zero_ring\<rparr>"

definition last_events :: "sw_event list" where
  "last_events = [Sw_thread, Sw_host last_packets, Sw_thread, Sw_thread, Sw_thread]"

lemmas last_run_simps = periodic_process_def host_connect_def shm_wait_connection_def pb_is_empty_def pb_read_def pb_init_def
  sw_top_def get_status_def set_status_def sw_poll_def host_recv_packet_def shm_recv_packet_def sizeof_packet_eq Let_def
  handle_packet_def sw_tail_def last_packets_def PKT_BUFFER_SIZE_def c_rem_def

lemma small_wrapper_start:
  "sw_pc small_wrapper = Pp_connect" "h_status (sw_host small_wrapper) = INIT" "\<not> terminated small_wrapper"
  "pb_start (ib (h_chan (sw_host small_wrapper))) = 0" "pb_end (ib (h_chan (sw_host small_wrapper))) = 0"
  by (simp_all add: small_wrapper_def sw_init_def run_host_proc_def host_init_def shm_prepare_connection_def pb_init_def)

lemma last_run:
  "\<exists>s w. run_events sw_ev last_events (small_sim st, small_wrapper) = Inr ((s, w), []) \<and> active_cores s = 0 \<and>
     sw_pc w = Pp_end \<and> turn_where after_end last_events (small_sim st, small_wrapper)"
  by (simp add: last_events_def last_run_simps small_wrapper_start small_sim_def)

theorem sw_counts_witness:
  "\<exists>s w. run_events sw_ev last_events (small_sim empty_store, small_wrapper) = Inr ((s, w), []) \<and>
    turn_where after_end last_events (small_sim empty_store, small_wrapper) \<and>
    outstanding w = 0 \<and> active_cores s = active_cores (small_sim empty_store) - 1"
proof -
  obtain s w where run: "run_events sw_ev last_events (small_sim empty_store, small_wrapper) = Inr ((s, w), [])"
    and turn: "turn_where after_end last_events (small_sim empty_store, small_wrapper)"
    using last_run by blast
  from sw_counts [OF run [unfolded small_wrapper_def]] turn [unfolded small_wrapper_def] run turn show ?thesis
    by (intro exI [of _ s] exI [of _ w]) simp
qed

text \<open>
  C35. In every run of a new wrapper, whatever the rest of the simulator and the host process do in between: the thread
  has ended exactly if one of its turns left the host terminated while no memory was active. And from
  every state that a run reaches, the next turn of a thread that has not ended stops the simulation if and only if it ends the thread;
  when the host has terminated, this turn does not fail, and it is the last one if no memory is active, and
  lets one clock period pass otherwise. So the thread ends as soon as the host and the memories have, and not before.
\<close>

theorem sw_stops_after_memory:
  assumes "run_events sw_ev es (s, sw_init i m latency psize rsize nm ch garbage garbage') = Inr ((s1, w1), os)"
  shows "(sw_pc w1 = Pp_done \<longleftrightarrow> turn_where last_turn es (s, sw_init i m latency psize rsize nm ch garbage garbage')) \<and>
    (sw_pc w1 \<noteq> Pp_done \<longrightarrow>
      (\<forall>s2 w2 d. periodic_process (s1, w1) = Inr ((s2, w2), d) \<longrightarrow>
        (d = Stop \<longleftrightarrow> sw_pc w2 = Pp_done) \<and>
        (d = Stop \<longleftrightarrow> active_dram s1 = 0 \<and> h_status (sw_host w2) = TERMINATED)) \<and>
      (h_status (sw_host w1) = TERMINATED \<longrightarrow>
        (\<exists>s2 w2. periodic_process (s1, w1) =
          Inr ((s2, w2), if active_dram s1 = 0 then Stop else Wait Delay_period))))"
proof -
  have inv: "end_inv w1" using run_end(1) [OF _ assms] fresh_end_inv by simp
  have "(d = Stop \<longleftrightarrow> sw_pc w2 = Pp_done) \<and> (d = Stop \<longleftrightarrow> active_dram s1 = 0 \<and> h_status (sw_host w2) = TERMINATED)"
    if "sw_pc w1 \<noteq> Pp_done" and "periodic_process (s1, w1) = Inr ((s2, w2), d)" for s2 w2 d
    using thread_end(4,5) [OF inv that(2)] that(1) by (simp add: over_def)
  moreover have "\<exists>s2 w2. periodic_process (s1, w1) = Inr ((s2, w2), if active_dram s1 = 0 then Stop else Wait Delay_period)"
    if "sw_pc w1 \<noteq> Pp_done" and "h_status (sw_host w1) = TERMINATED"
    using that inv turn_at_end [of w1 s1] by (auto simp: end_inv_def over_def end_turn_def)
  moreover have "sw_pc w1 = Pp_done \<longleftrightarrow> turn_where last_turn es (s, sw_init i m latency psize rsize nm ch garbage garbage')"
    using run_end(3) [OF _ assms] fresh_end_inv fresh_fields by simp
  ultimately show ?thesis by blast
qed

lemma memory_stops:
  "run_events sw_ev (last_events @ [Sw_env st (\<lambda>_. None) sync_init 0, Sw_thread]) (small_sim st', small_wrapper) =
     Inr ((s, w), os) \<Longrightarrow> sw_pc w = Pp_done"
  "\<exists>s w. run_events sw_ev (last_events @ [Sw_env st (\<lambda>_. None) sync_init 0, Sw_thread]) (small_sim st', small_wrapper) =
     Inr ((s, w), [])"
  by (auto simp: last_events_def last_run_simps small_wrapper_start small_sim_def)

theorem sw_stops_witness:
  "\<exists>s w. run_events sw_ev (last_events @ [Sw_env empty_store (\<lambda>_. None) sync_init 0, Sw_thread])
      (small_sim empty_store, small_wrapper) = Inr ((s, w), []) \<and> sw_pc w = Pp_done \<and>
    turn_where last_turn (last_events @ [Sw_env empty_store (\<lambda>_. None) sync_init 0, Sw_thread]) (small_sim empty_store, small_wrapper)"
proof -
  let ?es = "last_events @ [Sw_env empty_store (\<lambda>_. None) sync_init 0, Sw_thread]"
  obtain s w where run: "run_events sw_ev ?es (small_sim empty_store, small_wrapper) = Inr ((s, w), [])"
    using memory_stops(2) by blast
  have "sw_pc w = Pp_done" using memory_stops(1) [OF run] .
  with sw_stops_after_memory [OF run [unfolded small_wrapper_def]] run show ?thesis
    unfolding small_wrapper_def by (intro exI [of _ s] exI [of _ w]) simp
qed

end
