(* ===== verification/Time_List.thy ===== *)
theory Time_List
  imports Prelude "HOL-Library.Monad_Syntax" "HOL-Library.Multiset"
begin

text \<open>
  The list that the event queues keep their timed notifications in: the class
  \<open>time_ordered_list\<close> of \<open>tlm_utils/peq_with_cb_and_phase.h\<close>, a singly linked list with an
  end node \<open>nill\<close> and a list of recycled nodes. Nodes live in a store addressed by numbers;
  the address 0 is the null pointer. An operation whose walk along the list would not end
  has the value \<open>None\<close>. The list is shown to refine a list that is kept in order of time,
  entries of the same time in order of insertion.
\<close>

section \<open>Nodes and operations\<close>

record ('p, 't) element =
  e_next :: nat
  e_p :: 'p
  e_t :: 't
  e_d :: u64

text \<open>\<open>tol_fresh\<close> is the next address that \<open>new\<close> returns.\<close>

record ('p, 't) time_list =
  tol_mem :: "nat \<Rightarrow> ('p, 't) element"
  tol_fresh :: nat
  tol_nill :: nat
  tol_empties :: nat
  tol_list :: nat
  tol_size :: u32

definition tol_new :: "(nat \<Rightarrow> ('p, 't) element) \<Rightarrow> ('p, 't) time_list" where
  "tol_new garbage =
     \<lparr>tol_mem = garbage, tol_fresh = 2, tol_nill = 1, tol_empties = 0, tol_list = 1, tol_size = 0\<rparr>"

text \<open>The loop of \<open>insert\<close>: past all nodes whose time is not later.\<close>

partial_function (option) tol_seek ::
  "(nat \<Rightarrow> ('p, 't::linorder) element) \<Rightarrow> nat \<Rightarrow> 't \<Rightarrow> nat \<Rightarrow> nat \<Rightarrow> (nat \<times> nat) option"
where
  "tol_seek mem nill t ancestor it =
     (if it \<noteq> nill \<and> e_t (mem it) \<le> t then tol_seek mem nill t it (e_next (mem it))
      else Some (ancestor, it))"

text \<open>A node for the new entry, recycled if there is one: the state without it, and its address.\<close>

definition tol_take_node :: "('p, 't) time_list \<Rightarrow> ('p, 't) time_list \<times> nat" where
  "tol_take_node s =
     (let s1 = (if tol_empties s = 0
                then s\<lparr>tol_mem := (tol_mem s)(tol_fresh s := (tol_mem s (tol_fresh s))\<lparr>e_next := 0\<rparr>),
                       tol_empties := tol_fresh s, tol_fresh := Suc (tol_fresh s)\<rparr>
                else s)
      in (s1\<lparr>tol_empties := e_next (tol_mem s1 (tol_empties s1))\<rparr>, tol_empties s1))"

definition tol_insert ::
  "'p \<Rightarrow> 't::linorder \<Rightarrow> u64 \<Rightarrow> ('p, 't) time_list \<Rightarrow> ('p, 't) time_list option"
where
  "tol_insert p t d s =
     (case tol_take_node s of (s1, e) \<Rightarrow>
        let mem = (tol_mem s1)(e := (tol_mem s1 e)\<lparr>e_p := p, e_t := t, e_d := d\<rparr>) in
        do {
          (ancestor, it) \<leftarrow> tol_seek mem (tol_nill s1) t (tol_nill s1) (tol_list s1);
          Some (if ancestor = tol_nill s1
                then s1\<lparr>tol_mem := mem(e := (mem e)\<lparr>e_next := tol_list s1\<rparr>), tol_list := e,
                        tol_size := tol_size s1 + 1\<rparr>
                else let mem1 = mem(e := (mem e)\<lparr>e_next := it\<rparr>) in
                     s1\<lparr>tol_mem := mem1(ancestor := (mem1 ancestor)\<lparr>e_next := e\<rparr>),
                        tol_size := tol_size s1 + 1\<rparr>)
        })"

definition tol_delete_top :: "('p, 't) time_list \<Rightarrow> ('p, 't) time_list" where
  "tol_delete_top s =
     (if tol_list s \<noteq> tol_nill s
      then let e = tol_list s in
           s\<lparr>tol_list := e_next (tol_mem s e),
             tol_mem := (tol_mem s)(e := (tol_mem s e)\<lparr>e_next := tol_empties s\<rparr>),
             tol_empties := e, tol_size := tol_size s - 1\<rparr>
      else s)"

definition tol_get_size :: "('p, 't) time_list \<Rightarrow> u32" where
  "tol_get_size s = tol_size s"

definition tol_top :: "('p, 't) time_list \<Rightarrow> 'p" where
  "tol_top s = e_p (tol_mem s (tol_list s))"

definition tol_top_time :: "('p, 't) time_list \<Rightarrow> 't" where
  "tol_top_time s = e_t (tol_mem s (tol_list s))"

definition tol_top_delta :: "('p, 't) time_list \<Rightarrow> u64" where
  "tol_top_delta s = e_d (tol_mem s (tol_list s))"

definition tol_next_time :: "('p, 't) time_list \<Rightarrow> 't" where
  "tol_next_time s = e_t (tol_mem s (e_next (tol_mem s (tol_list s))))"

text \<open>\<open>while (size) delete_top ()\<close>; each turn lowers the size unless the list is broken.\<close>

partial_function (option) tol_reset :: "('p, 't) time_list \<Rightarrow> ('p, 't) time_list option" where
  "tol_reset s = (if tol_size s \<noteq> 0 then tol_reset (tol_delete_top s) else Some s)"

section \<open>What the list stands for\<close>

text \<open>The nodes from \<open>a\<close> to the end \<open>z\<close>.\<close>

fun node_path :: "(nat \<Rightarrow> ('p, 't) element) \<Rightarrow> nat \<Rightarrow> nat list \<Rightarrow> nat \<Rightarrow> bool" where
  "node_path mem a [] z \<longleftrightarrow> a = z"
| "node_path mem a (x # xs) z \<longleftrightarrow> a = x \<and> x \<noteq> z \<and> node_path mem (e_next (mem x)) xs z"

definition entry :: "('p, 't) element \<Rightarrow> 't \<times> 'p \<times> u64" where
  "entry e = (e_t e, e_p e, e_d e)"

definition tol_wf :: "nat list \<Rightarrow> nat list \<Rightarrow> ('p, 't) time_list \<Rightarrow> bool" where
  "tol_wf as es s \<longleftrightarrow>
     node_path (tol_mem s) (tol_list s) as (tol_nill s) \<and>
     node_path (tol_mem s) (tol_empties s) es 0 \<and>
     distinct (tol_nill s # as @ es) \<and> 0 \<notin> set (tol_nill s # as @ es) \<and>
     (\<forall>a\<in>set (tol_nill s # as @ es). a < tol_fresh s) \<and> 0 < tol_fresh s \<and>
     tol_size s = of_nat (length as)"

definition tol_rep :: "('p, 't) time_list \<Rightarrow> ('t \<times> 'p \<times> u64) list \<Rightarrow> bool" where
  "tol_rep s xs \<longleftrightarrow> (\<exists>as es. tol_wf as es s \<and> xs = map (\<lambda>a. entry (tol_mem s a)) as)"

text \<open>The specification: a list in order of time.\<close>

definition time_insert :: "'t::linorder \<times> 'a \<Rightarrow> ('t \<times> 'a) list \<Rightarrow> ('t \<times> 'a) list" where
  "time_insert x xs = takeWhile (\<lambda>y. fst y \<le> fst x) xs @ x # dropWhile (\<lambda>y. fst y \<le> fst x) xs"

lemma mset_time_insert [simp]: "mset (time_insert x xs) = add_mset x (mset xs)"
proof -
  have "mset xs = mset (takeWhile (\<lambda>y. fst y \<le> fst x) xs) + mset (dropWhile (\<lambda>y. fst y \<le> fst x) xs)"
    by (metis mset_append takeWhile_dropWhile_id)
  then show ?thesis
    by (simp add: time_insert_def)
qed

lemma set_time_insert [simp]: "set (time_insert x xs) = insert x (set xs)"
  by (metis mset_time_insert set_mset_add_mset_insert set_mset_mset)

lemma length_time_insert [simp]: "length (time_insert x xs) = Suc (length xs)"
  by (metis mset_time_insert size_add_mset size_mset)

lemma time_insert_Cons:
  "time_insert x (y # ys) = (if fst y \<le> fst x then y # time_insert x ys else x # y # ys)"
  by (simp add: time_insert_def)

lemma time_insert_Nil [simp]: "time_insert x [] = [x]"
  by (simp add: time_insert_def)

lemma sorted_time_insert: "sorted (map fst xs) \<Longrightarrow> sorted (map fst (time_insert x xs))"
proof (induction xs)
  case (Cons y ys)
  then have "\<forall>z\<in>set ys. fst y \<le> fst z" and "sorted (map fst ys)"
    by simp_all
  with Cons.IH show ?case
    by (auto simp: time_insert_Cons)
qed simp

text \<open>Entries of one time stay in order of insertion.\<close>

lemma time_insert_stable:
  assumes "sorted (map fst xs)"
  shows "filter (\<lambda>y. fst y = k) (time_insert x xs) =
         filter (\<lambda>y. fst y = k) xs @ (if fst x = k then [x] else [])"
  using assms
proof (induction xs)
  case (Cons y ys)
  show ?case
  proof (cases "fst y \<le> fst x")
    case True
    then show ?thesis
      using Cons by (simp add: time_insert_def)
  next
    case False
    then have "\<forall>z\<in>set (y # ys). fst x < fst z"
      using Cons.prems by auto
    then have "fst x = k \<Longrightarrow> filter (\<lambda>z. fst z = k) (y # ys) = []"
      unfolding filter_empty_conv by force
    with False show ?thesis
      by (auto simp: time_insert_def)
  qed
qed simp

section \<open>Refinement\<close>

lemma node_path_cong:
  "(\<And>a. a \<in> set xs \<Longrightarrow> e_next (mem' a) = e_next (mem a)) \<Longrightarrow>
   node_path mem' a xs z = node_path mem a xs z"
  by (induction xs arbitrary: a) auto

lemma node_path_append:
  assumes "distinct (z # xs @ ys)"
  shows "node_path mem a (xs @ ys) z \<longleftrightarrow>
           node_path mem a xs (hd (ys @ [z])) \<and> node_path mem (hd (ys @ [z])) ys z"
  using assms
proof (induction xs arbitrary: a)
  case Nil
  then show ?case by (cases ys) auto
next
  case (Cons x xs)
  then have "x \<noteq> hd (ys @ [z])"
    by (cases ys) auto
  with Cons show ?case by auto
qed

lemma node_path_start: "node_path mem a xs z \<Longrightarrow> a = hd (xs @ [z])"
  by (cases xs) auto

lemma tol_seek_path:
  assumes "node_path mem a as nill"
  shows "tol_seek mem nill t anc a =
           Some (last (anc # takeWhile (\<lambda>x. e_t (mem x) \<le> t) as),
                 hd (dropWhile (\<lambda>x. e_t (mem x) \<le> t) as @ [nill]))"
  using assms
proof (induction as arbitrary: a anc)
  case Nil
  then show ?case by (subst tol_seek.simps) simp
next
  case (Cons x xs)
  then show ?case by (subst tol_seek.simps) auto
qed

lemma take_node_wf:
  assumes wf: "tol_wf as es s" and take: "tol_take_node s = (s1, e)"
  obtains es' where
    "node_path (tol_mem s1) (tol_list s1) as (tol_nill s1)"
    "node_path (tol_mem s1) (tol_empties s1) es' 0"
    "distinct (tol_nill s1 # e # as @ es')" "0 \<notin> set (tol_nill s1 # e # as @ es')"
    "\<forall>a\<in>set (tol_nill s1 # e # as @ es'). a < tol_fresh s1"
    "tol_size s1 = of_nat (length as)"
    "\<forall>a\<in>set as. entry (tol_mem s1 a) = entry (tol_mem s a)"
proof (cases "tol_empties s = 0")
  case True
  with wf have es: "es = []"
    by (cases es) (auto simp: tol_wf_def)
  have s1: "s1 = s\<lparr>tol_mem := (tol_mem s)(tol_fresh s := (tol_mem s (tol_fresh s))\<lparr>e_next := 0\<rparr>),
      tol_empties := 0, tol_fresh := Suc (tol_fresh s)\<rparr>" and e: "e = tol_fresh s"
    using take True by (auto simp: tol_take_node_def Let_def)
  have "node_path (tol_mem s1) (tol_list s) as (tol_nill s) = node_path (tol_mem s) (tol_list s) as (tol_nill s)"
    using wf by (intro node_path_cong) (auto simp: s1 tol_wf_def)
  then show thesis
    using wf es by (intro that [of "[]"]) (auto simp: s1 e tol_wf_def entry_def)
next
  case False
  then obtain es' where es: "es = tol_empties s # es'"
    using wf by (cases es) (auto simp: tol_wf_def)
  have s1: "s1 = s\<lparr>tol_empties := e_next (tol_mem s (tol_empties s))\<rparr>" and e: "e = tol_empties s"
    using take False by (auto simp: tol_take_node_def Let_def)
  show thesis
    using wf es by (intro that [of es']) (auto simp: s1 e tol_wf_def)
qed

lemma map_entry_time: "map (\<lambda>a. entry (mem a)) as = map (\<lambda>a. entry (mem' a)) as \<Longrightarrow>
    a \<in> set as \<Longrightarrow> e_t (mem a) = e_t (mem' a)"
  by (auto simp: entry_def)

lemma time_insert_map:
  assumes "\<forall>a\<in>set as. entry (mem' a) = entry (mem a)" and "entry (mem' e) = (t, p, d)"
  shows "map (\<lambda>a. entry (mem' a)) (takeWhile (\<lambda>x. e_t (mem x) \<le> t) as @ e # dropWhile (\<lambda>x. e_t (mem x) \<le> t) as) =
         time_insert (t, p, d) (map (\<lambda>a. entry (mem a)) as)"
  using assms by (induction as) (auto simp: time_insert_Cons entry_def)

theorem tol_insert_rep:
  assumes "tol_rep s xs"
  shows "\<exists>s'. tol_insert p t d s = Some s' \<and> tol_rep s' (time_insert (t, p, d) xs)"
proof -
  obtain as es where wf: "tol_wf as es s" and xs: "xs = map (\<lambda>a. entry (tol_mem s a)) as"
    using assms by (auto simp: tol_rep_def)
  obtain s1 e where take: "tol_take_node s = (s1, e)"
    by fastforce
  obtain es' where path: "node_path (tol_mem s1) (tol_list s1) as (tol_nill s1)"
    and empties: "node_path (tol_mem s1) (tol_empties s1) es' 0"
    and dist: "distinct (tol_nill s1 # e # as @ es')" and null: "0 \<notin> set (tol_nill s1 # e # as @ es')"
    and fresh: "\<forall>a\<in>set (tol_nill s1 # e # as @ es'). a < tol_fresh s1"
    and len: "tol_size s1 = of_nat (length as)"
    and same: "\<forall>a\<in>set as. entry (tol_mem s1 a) = entry (tol_mem s a)"
    using take_node_wf [OF wf take] by blast
  define mem where "mem = (tol_mem s1)(e := (tol_mem s1 e)\<lparr>e_p := p, e_t := t, e_d := d\<rparr>)"
  define L where "L = takeWhile (\<lambda>x. e_t (mem x) \<le> t) as"
  define R where "R = dropWhile (\<lambda>x. e_t (mem x) \<le> t) as"
  have as: "as = L @ R"
    by (simp add: L_def R_def)
  have mpath: "node_path mem (tol_list s1) as (tol_nill s1)"
    using path by (subst node_path_cong [of _ _ "tol_mem s1"]) (auto simp: mem_def)
  have mem_entry: "\<forall>a\<in>set as. entry (mem a) = entry (tol_mem s a)"
    using same dist by (auto simp: mem_def)
  have "map (\<lambda>a. entry (mem' a)) (L @ e # R) = time_insert (t, p, d) (map (\<lambda>a. entry (mem a)) as)"
    if "\<forall>a\<in>set as. entry (mem' a) = entry (mem a)" "entry (mem' e) = (t, p, d)" for mem'
    unfolding L_def R_def by (rule time_insert_map [OF that])
  moreover have "map (\<lambda>a. entry (mem a)) as = xs"
    using mem_entry xs by simp
  ultimately have rep: "map (\<lambda>a. entry (mem' a)) (L @ e # R) = time_insert (t, p, d) xs"
    if "\<forall>a\<in>set as. entry (mem' a) = entry (mem a)" "entry (mem' e) = (t, p, d)" for mem'
    using that by simp
  have seek: "tol_seek mem (tol_nill s1) t (tol_nill s1) (tol_list s1) =
                Some (last (tol_nill s1 # L), hd (R @ [tol_nill s1]))"
    using tol_seek_path [OF mpath] by (simp add: L_def R_def)
  have segs: "node_path mem (tol_list s1) L (hd (R @ [tol_nill s1]))"
    "node_path mem (hd (R @ [tol_nill s1])) R (tol_nill s1)"
    using mpath dist node_path_append [of "tol_nill s1" L R mem] by (auto simp: as)
  show ?thesis
  proof (cases L rule: rev_cases)
    case Nil
    let ?s' = "s1\<lparr>tol_mem := mem(e := (mem e)\<lparr>e_next := tol_list s1\<rparr>), tol_list := e, tol_size := tol_size s1 + 1\<rparr>"
    have ins: "tol_insert p t d s = Some ?s'"
      using seek Nil by (simp add: tol_insert_def take Let_def mem_def)
    have "tol_wf (e # as) es' ?s'"
    proof -
      have "node_path (tol_mem ?s') (tol_list s1) as (tol_nill s1)"
        using mpath dist by (subst node_path_cong [of _ _ mem]) auto
      moreover have "node_path (tol_mem ?s') (tol_empties s1) es' 0"
        using empties dist by (subst node_path_cong [of _ _ "tol_mem s1"]) (auto simp: mem_def)
      ultimately show ?thesis
        using dist null fresh len by (auto simp: tol_wf_def)
    qed
    moreover have "map (\<lambda>a. entry (tol_mem ?s' a)) (e # as) = time_insert (t, p, d) xs"
      using rep [of "tol_mem ?s'"] dist as Nil by (auto simp: mem_def entry_def)
    ultimately show ?thesis
      using ins unfolding tol_rep_def by metis
  next
    case (snoc L0 x)
    let ?m1 = "mem(e := (mem e)\<lparr>e_next := hd (R @ [tol_nill s1])\<rparr>)"
    let ?s' = "s1\<lparr>tol_mem := ?m1(x := (?m1 x)\<lparr>e_next := e\<rparr>), tol_size := tol_size s1 + 1\<rparr>"
    have x: "x \<noteq> tol_nill s1" "x \<noteq> e" "x \<notin> set L0" "x \<notin> set R" "e \<notin> set L0" "e \<notin> set R"
      using dist snoc as by auto
    have ins: "tol_insert p t d s = Some ?s'"
      using seek snoc x by (simp add: tol_insert_def take Let_def mem_def)
    have "tol_wf (L @ e # R) es' ?s'"
    proof -
      have "node_path mem (tol_list s1) L0 x"
        using segs(1) snoc dist as node_path_append [of "hd (R @ [tol_nill s1])" L0 "[x]" mem]
        by (cases R) auto
      then have p1: "node_path (tol_mem ?s') (tol_list s1) L0 x"
        using x by (subst node_path_cong [of _ _ mem]) auto
      have p2: "node_path (tol_mem ?s') (hd (R @ [tol_nill s1])) R (tol_nill s1)"
        using segs(2) x by (subst node_path_cong [of _ _ mem]) auto
      have "node_path (tol_mem ?s') (tol_list s1) (L0 @ x # e # R) (tol_nill s1)"
        using p1 p2 x dist as snoc node_path_append [of "tol_nill s1" L0 "x # e # R" "tol_mem ?s'"]
        by auto
      moreover have "node_path (tol_mem ?s') (tol_empties s1) es' 0"
        using empties dist as snoc by (subst node_path_cong [of _ _ "tol_mem s1"]) (auto simp: mem_def)
      moreover have "tol_size s1 + 1 = of_nat (length (L @ e # R))"
        using len by (simp add: as)
      ultimately show ?thesis
        using dist null fresh as snoc by (auto simp: tol_wf_def)
    qed
    moreover have "map (\<lambda>a. entry (tol_mem ?s' a)) (L @ e # R) = time_insert (t, p, d) xs"
      by (rule rep) (use x dist in \<open>auto simp: mem_def entry_def\<close>)
    ultimately show ?thesis
      using ins unfolding tol_rep_def by metis
  qed
qed

lemma tol_rep_new: "tol_rep (tol_new g) []"
  unfolding tol_rep_def by (intro exI [of _ "[]"]) (simp add: tol_wf_def tol_new_def)

lemma tol_rep_Cons:
  assumes "tol_rep s ((t, p, d) # xs)"
  shows "tol_rep (tol_delete_top s) xs" and "tol_top s = p" and "tol_top_time s = t"
    and "tol_top_delta s = d" and "xs \<noteq> [] \<Longrightarrow> tol_next_time s = fst (hd xs)"
proof -
  obtain as es where wf: "tol_wf as es s" and xs: "map (\<lambda>a. entry (tol_mem s a)) as = (t, p, d) # xs"
    using assms by (auto simp: tol_rep_def)
  obtain as' where as: "as = tol_list s # as'"
    using wf xs by (cases as) (auto simp: tol_wf_def)
  let ?s' = "tol_delete_top s"
  have s': "?s' = s\<lparr>tol_list := e_next (tol_mem s (tol_list s)),
      tol_mem := (tol_mem s)(tol_list s := (tol_mem s (tol_list s))\<lparr>e_next := tol_empties s\<rparr>),
      tol_empties := tol_list s, tol_size := tol_size s - 1\<rparr>"
    using wf by (simp add: tol_delete_top_def Let_def as tol_wf_def)
  have "tol_wf as' (tol_list s # es) ?s'"
  proof -
    have "node_path (tol_mem ?s') (e_next (tol_mem s (tol_list s))) as' (tol_nill s)"
      using wf by (subst node_path_cong [of _ _ "tol_mem s"]) (auto simp: s' as tol_wf_def)
    moreover have "node_path (tol_mem ?s') (tol_empties s) es 0"
      using wf by (subst node_path_cong [of _ _ "tol_mem s"]) (auto simp: s' as tol_wf_def)
    ultimately show ?thesis
      using wf by (auto simp: s' as tol_wf_def)
  qed
  moreover have "xs = map (\<lambda>a. entry (tol_mem ?s' a)) as'"
    using xs wf by (auto simp: s' as tol_wf_def)
  ultimately show "tol_rep ?s' xs"
    unfolding tol_rep_def by blast
  show "tol_top s = p" "tol_top_time s = t" "tol_top_delta s = d"
    using xs by (simp_all add: as entry_def tol_top_def tol_top_time_def tol_top_delta_def)
  show "tol_next_time s = fst (hd xs)" if ne: "xs \<noteq> []"
    using xs wf ne by (cases as') (auto simp: as entry_def tol_next_time_def tol_wf_def)
qed

lemma tol_rep_Nil: "tol_rep s [] \<Longrightarrow> tol_delete_top s = s"
  by (auto simp: tol_rep_def tol_wf_def tol_delete_top_def)

lemma tol_rep_size: "tol_rep s xs \<Longrightarrow> tol_get_size s = of_nat (length xs)"
  by (auto simp: tol_rep_def tol_wf_def tol_get_size_def)

lemma of_nat_u32_0: "n < 2 ^ 32 \<Longrightarrow> (of_nat n :: u32) = 0 \<longleftrightarrow> n = 0"
  by (simp add: word_of_nat_eq_0_iff) (metis dvd_imp_le linorder_not_less neq0_conv dvd_0_right)

lemma tol_rep_size_0: "tol_rep s xs \<Longrightarrow> length xs < 2 ^ 32 \<Longrightarrow> tol_get_size s = 0 \<longleftrightarrow> xs = []"
  by (simp add: tol_rep_size of_nat_u32_0)

lemma tol_reset_rep:
  "tol_rep s xs \<Longrightarrow> length xs < 2 ^ 32 \<Longrightarrow> \<exists>s'. tol_reset s = Some s' \<and> tol_rep s' []"
proof (induction xs arbitrary: s)
  case Nil
  then show ?case
    using tol_rep_size_0 [OF Nil] by (subst tol_reset.simps) (simp add: tol_get_size_def)
next
  case (Cons x xs)
  obtain t p d where "x = (t, p, d)"
    by (cases x)
  with Cons.prems have "tol_rep (tol_delete_top s) xs"
    using tol_rep_Cons(1) by simp
  with Cons.IH Cons.prems(2) have "\<exists>s'. tol_reset (tol_delete_top s) = Some s' \<and> tol_rep s' []"
    by simp
  then show ?case
    using tol_rep_size_0 [OF Cons.prems] by (subst tol_reset.simps) (simp add: tol_get_size_def)
qed

section \<open>Refinement of the ordered list\<close>

text \<open>The entries that the nodes hold, in order.\<close>

fun tol_walk :: "nat \<Rightarrow> (nat \<Rightarrow> ('p, 't) element) \<Rightarrow> nat \<Rightarrow> ('t \<times> 'p \<times> u64) list" where
  "tol_walk 0 mem a = []"
| "tol_walk (Suc n) mem a = entry (mem a) # tol_walk n mem (e_next (mem a))"

definition tol_entries :: "('p, 't) time_list \<Rightarrow> ('t \<times> 'p \<times> u64) list" where
  "tol_entries s = tol_walk (unat (tol_size s)) (tol_mem s) (tol_list s)"

lemma tol_walk_path: "node_path mem a as z \<Longrightarrow> tol_walk (length as) mem a = map (\<lambda>x. entry (mem x)) as"
  by (induction as arbitrary: a) auto

lemma unat_of_nat_u32: "n < 2 ^ 32 \<Longrightarrow> unat (of_nat n :: u32) = n"
  by (simp add: unsigned_of_nat take_bit_nat_eq_self)

lemma tol_rep_entries:
  assumes "tol_rep s xs" and "length xs < 2 ^ 32"
  shows "tol_entries s = xs"
  using assms by (auto simp: tol_rep_def tol_wf_def tol_entries_def unat_of_nat_u32 tol_walk_path)

datatype ('p, 't) tol_op = Insert 'p 't u64 | Delete_top

fun tol_run :: "('p, 't::linorder) tol_op list \<Rightarrow> ('p, 't) time_list \<Rightarrow> ('p, 't) time_list option" where
  "tol_run [] s = Some s"
| "tol_run (Insert p t d # ops) s = Option.bind (tol_insert p t d s) (tol_run ops)"
| "tol_run (Delete_top # ops) s = tol_run ops (tol_delete_top s)"

fun spec_run :: "('p, 't::linorder) tol_op list \<Rightarrow> ('t \<times> 'p \<times> u64) list \<Rightarrow> ('t \<times> 'p \<times> u64) list" where
  "spec_run [] xs = xs"
| "spec_run (Insert p t d # ops) xs = spec_run ops (time_insert (t, p, d) xs)"
| "spec_run (Delete_top # ops) xs = spec_run ops (tl xs)"

lemma length_spec_run: "length (spec_run ops xs) \<le> length xs + length ops"
  by (induction ops xs rule: spec_run.induct) auto

lemma sorted_spec_run: "sorted (map fst xs) \<Longrightarrow> sorted (map fst (spec_run ops xs))"
proof (induction ops xs rule: spec_run.induct)
  case (3 ops xs)
  then show ?case by (cases xs) auto
qed (auto intro: sorted_time_insert)

lemma tol_run_rep:
  "tol_rep s xs \<Longrightarrow> \<exists>s'. tol_run ops s = Some s' \<and> tol_rep s' (spec_run ops xs)"
proof (induction ops xs arbitrary: s rule: spec_run.induct)
  case (2 p t d ops xs)
  obtain s1 where ins: "tol_insert p t d s = Some s1" and rep: "tol_rep s1 (time_insert (t, p, d) xs)"
    using tol_insert_rep [OF 2(2)] by blast
  from 2(1) [OF rep] show ?case
    by (simp add: ins)
next
  case (3 ops xs)
  have "tol_rep (tol_delete_top s) (tl xs)"
  proof (cases xs)
    case (Cons x xs')
    with 3(2) tol_rep_Cons(1) [of s] show ?thesis by (cases x) auto
  qed (use 3(2) tol_rep_Nil [of s] in simp)
  from 3(1) [OF this] show ?case by simp
qed simp

text \<open>
  C10. The linked list of timed notifications refines a list in order of time: every
  sequence of insertions and deletions on it returns, what its nodes then hold is what the
  ordered list holds, in order of time, with a new entry behind the entries of its
  time, and its top is the head of the ordered list.
\<close>

theorem time_list_refines:
  assumes "length ops < 2 ^ 32"
  shows "\<exists>s. tol_run ops (tol_new g) = Some s \<and> tol_entries s = spec_run ops [] \<and>
           sorted (map fst (tol_entries s)) \<and> tol_get_size s = of_nat (length (spec_run ops [])) \<and>
           (spec_run ops [] \<noteq> [] \<longrightarrow> (tol_top_time s, tol_top s, tol_top_delta s) = hd (spec_run ops []))"
proof -
  obtain s where run: "tol_run ops (tol_new g) = Some s" and rep: "tol_rep s (spec_run ops [])"
    using tol_run_rep [OF tol_rep_new] by blast
  have "length (spec_run ops []) < 2 ^ 32"
    using length_spec_run [of ops "[]"] assms by simp
  with rep have "tol_entries s = spec_run ops []"
    by (rule tol_rep_entries)
  moreover have "(tol_top_time s, tol_top s, tol_top_delta s) = hd (spec_run ops [])"
    if "spec_run ops [] \<noteq> []"
    using that rep tol_rep_Cons(2-4) [of s] by (cases "spec_run ops []") auto
  ultimately show ?thesis
    using run tol_rep_size [OF rep] sorted_spec_run [of "[]" ops] by auto
qed

lemma time_list_refines_witness:
  "\<exists>s. tol_run [Insert ''b'' 7 0, Insert ''a'' 3 0, Insert ''c'' (7::nat) 1, Delete_top] (tol_new undefined) = Some s \<and>
     tol_entries s = [(7, ''b'', 0), (7, ''c'', 1)]"
proof -
  have "\<exists>s. tol_run [Insert ''b'' 7 0, Insert ''a'' 3 0, Insert ''c'' (7::nat) 1, Delete_top] (tol_new undefined) = Some s \<and>
     tol_entries s = spec_run [Insert ''b'' 7 0, Insert ''a'' 3 0, Insert ''c'' (7::nat) 1, Delete_top] []"
    using time_list_refines [of "[Insert ''b'' 7 0, Insert ''a'' 3 0, Insert ''c'' (7::nat) 1, Delete_top]" undefined]
    by auto
  then show ?thesis
    by (simp add: time_insert_Cons)
qed

end
