(* ===== verification/Peq.thy ===== *)
theory Peq
  imports Time_List
begin

text \<open>
  The event queue through which the wrapper and the memory device receive their calls:
  \<open>peq_with_cb_and_phase\<close> of \<open>tlm_utils\<close>. A notification with a delay goes into the time-ordered
  list, one without delay into one of two lists that are used in turn by the even and the
  odd delta cycles, an immediate one into a third; the event \<open>m_e\<close> makes the kernel run the
  method \<open>fec\<close>, which calls the owner back. The kernel's event is a parameter: a record of
  operations with the documented rule that one notification is pending at a time, a delta
  notification over a timed one and an earlier one over a later one. The value \<open>None\<close> stands
  for an access outside a vector or a walk that does not end.
\<close>

section \<open>Lists of payloads for one delta cycle\<close>

record 'p delta_list =
  dl_size :: u32
  dl_entries :: "'p list"
  dl_out :: u32

text \<open>\<open>garbage\<close> is the value of a default-constructed entry.\<close>

definition dl_reset :: "'p delta_list \<Rightarrow> 'p delta_list" where
  "dl_reset l = l\<lparr>dl_size := 0, dl_out := 0\<rparr>"

definition dl_new :: "'p \<Rightarrow> 'p delta_list" where
  "dl_new garbage = \<lparr>dl_size = 0, dl_entries = replicate 100 garbage, dl_out = 0\<rparr>"

definition dl_insert :: "'p \<Rightarrow> 'p \<Rightarrow> 'p delta_list \<Rightarrow> 'p delta_list option" where
  "dl_insert garbage p l =
     (let es = (if unat (dl_size l) = length (dl_entries l)
                then dl_entries l @ replicate (length (dl_entries l)) garbage
                else dl_entries l)
      in if unat (dl_size l) < length es
         then Some (l\<lparr>dl_entries := es[unat (dl_size l) := p], dl_size := dl_size l + 1\<rparr>)
         else None)"

definition dl_next :: "'p delta_list \<Rightarrow> bool" where
  "dl_next l \<longleftrightarrow> dl_out l < dl_size l"

definition dl_get :: "'p delta_list \<Rightarrow> ('p \<times> 'p delta_list) option" where
  "dl_get l =
     (if unat (dl_out l) < length (dl_entries l)
      then Some (dl_entries l ! unat (dl_out l), l\<lparr>dl_out := dl_out l + 1\<rparr>) else None)"

text \<open>\<open>while (next ()) get ()\<close>, with a callback for each payload; then \<open>reset ()\<close>.\<close>

partial_function (option) dl_drain :: "'p delta_list \<Rightarrow> ('p list \<times> 'p delta_list) option" where
  "dl_drain l =
     (if dl_next l
      then do {
        (p, l1) \<leftarrow> dl_get l;
        (ps, l2) \<leftarrow> dl_drain l1;
        Some (p # ps, l2)
      }
      else Some ([], dl_reset l))"

definition dl_rep :: "'p delta_list \<Rightarrow> 'p list \<Rightarrow> bool" where
  "dl_rep l ps \<longleftrightarrow> dl_out l = 0 \<and> unat (dl_size l) \<le> length (dl_entries l) \<and>
     0 < length (dl_entries l) \<and> ps = take (unat (dl_size l)) (dl_entries l)"

lemma dl_rep_new: "dl_rep (dl_new g) []"
  by (simp add: dl_rep_def dl_new_def)

lemma dl_rep_reset: "dl_rep l ps \<Longrightarrow> dl_rep (dl_reset l) []"
  by (simp add: dl_rep_def dl_reset_def)

lemma dl_rep_size_0: "dl_rep l ps \<Longrightarrow> dl_size l = 0 \<longleftrightarrow> ps = []"
  by (auto simp: dl_rep_def unat_eq_0)

lemma unat_Suc_u32: "unat w + 1 < 2 ^ 32 \<Longrightarrow> unat (w + 1) = Suc (unat w)" for w :: u32
  using unat_add_lem [of w 1] by simp

lemma dl_insert_rep:
  assumes "dl_rep l ps" and "length ps + 1 < 2 ^ 32"
  shows "\<exists>l'. dl_insert g p l = Some l' \<and> dl_rep l' (ps @ [p])"
proof -
  have len: "length ps = unat (dl_size l)"
    using assms(1) by (simp add: dl_rep_def)
  define es where "es = (if unat (dl_size l) = length (dl_entries l)
     then dl_entries l @ replicate (length (dl_entries l)) g else dl_entries l)"
  have es: "unat (dl_size l) < length es" "take (unat (dl_size l)) es = ps"
    using assms(1) by (auto simp: es_def dl_rep_def)
  have size: "unat (dl_size l + 1) = Suc (unat (dl_size l))"
    using assms(2) len by (intro unat_Suc_u32) simp
  have "dl_insert g p l = Some (l\<lparr>dl_entries := es[unat (dl_size l) := p], dl_size := dl_size l + 1\<rparr>)"
    using es(1) by (simp add: dl_insert_def es_def [symmetric])
  moreover have "take (Suc (unat (dl_size l))) (es[unat (dl_size l) := p]) = ps @ [p]"
    using es by (simp add: take_Suc_conv_app_nth)
  ultimately show ?thesis
    using es(1) assms(1) size by (auto simp: dl_rep_def)
qed

lemma dl_drain_from:
  assumes "unat (dl_out l) + n = unat (dl_size l)" and "unat (dl_size l) \<le> length (dl_entries l)"
  shows "dl_drain l = Some (drop (unat (dl_out l)) (take (unat (dl_size l)) (dl_entries l)), dl_reset l)"
  using assms
proof (induction n arbitrary: l)
  case 0
  then have "\<not> dl_next l"
    by (simp add: dl_next_def word_less_nat_alt)
  with 0 show ?case
    by (subst dl_drain.simps) simp
next
  case (Suc n)
  let ?l = "l\<lparr>dl_out := dl_out l + 1\<rparr>"
  have next': "dl_next l" and lt: "unat (dl_out l) < length (dl_entries l)"
    using Suc.prems by (simp_all add: dl_next_def word_less_nat_alt)
  have "unat (dl_size l) < 2 ^ LENGTH(32)"
    by (rule unsigned_less)
  then have out: "unat (dl_out l + 1) = Suc (unat (dl_out l))"
    using Suc.prems by (intro unat_Suc_u32) simp
  have "dl_drain ?l = Some (drop (Suc (unat (dl_out l))) (take (unat (dl_size l)) (dl_entries l)), dl_reset ?l)"
    using Suc.IH [of ?l] Suc.prems out by simp
  then show ?case
    using next' lt Suc.prems
    by (subst dl_drain.simps) (simp add: dl_get_def dl_reset_def Cons_nth_drop_Suc [symmetric])
qed

lemma dl_drain_rep: "dl_rep l ps \<Longrightarrow> dl_drain l = Some (ps, dl_reset l)"
  using dl_drain_from [of l "unat (dl_size l)"] by (simp add: dl_rep_def)

section \<open>The kernel's event\<close>

text \<open>What is pending on an event.\<close>

datatype pending = Not_pending | Next_delta | At_time u64

record 'e event_ops =
  ev_notify :: "'e \<Rightarrow> 'e"                     \<comment> \<open>\<open>notify ()\<close>\<close>
  ev_notify_delta :: "'e \<Rightarrow> 'e"               \<comment> \<open>\<open>notify (SC_ZERO_TIME)\<close>\<close>
  ev_notify_timed :: "u64 \<Rightarrow> u64 \<Rightarrow> 'e \<Rightarrow> 'e"   \<comment> \<open>\<open>notify (t)\<close> at the current time\<close>
  ev_cancel :: "'e \<Rightarrow> 'e"
  ev_trigger :: "'e \<Rightarrow> 'e"                    \<comment> \<open>the kernel takes the pending notification\<close>
  ev_pending :: "'e \<Rightarrow> pending"

definition event_laws :: "'e event_ops \<Rightarrow> bool" where
  "event_laws ops \<longleftrightarrow>
     (\<forall>e. ev_pending ops (ev_notify ops e) = Not_pending) \<and>
     (\<forall>e. ev_pending ops (ev_notify_delta ops e) = Next_delta) \<and>
     (\<forall>now t e. ev_pending ops (ev_notify_timed ops now t e) =
        (case ev_pending ops e of
           Not_pending \<Rightarrow> At_time (now + t)
         | Next_delta \<Rightarrow> Next_delta
         | At_time u \<Rightarrow> At_time (min u (now + t)))) \<and>
     (\<forall>e. ev_pending ops (ev_cancel ops e) = Not_pending) \<and>
     (\<forall>e. ev_pending ops (ev_trigger ops e) = Not_pending)"

text \<open>An event that is nothing but its pending notification satisfies the laws.\<close>

definition plain_event :: "pending event_ops" where
  "plain_event =
     \<lparr>ev_notify = (\<lambda>e. Not_pending), ev_notify_delta = (\<lambda>e. Next_delta),
      ev_notify_timed = (\<lambda>now t e. case e of Not_pending \<Rightarrow> At_time (now + t)
        | Next_delta \<Rightarrow> Next_delta | At_time u \<Rightarrow> At_time (min u (now + t))),
      ev_cancel = (\<lambda>e. Not_pending), ev_trigger = (\<lambda>e. Not_pending), ev_pending = (\<lambda>e. e)\<rparr>"

lemma event_laws_plain: "event_laws plain_event"
  by (simp add: event_laws_def plain_event_def)

section \<open>The event queue\<close>

text \<open>A payload \<open>'p\<close> stands for the pair of a transaction and a phase.\<close>

record ('p, 'e) peq =
  m_ppq :: "('p, u64) time_list"
  m_uneven_delta :: "'p delta_list"
  m_even_delta :: "'p delta_list"
  m_immediate_yield :: "'p delta_list"
  m_e :: 'e

definition peq_new :: "(nat \<Rightarrow> ('p, u64) element) \<Rightarrow> 'p \<Rightarrow> 'e \<Rightarrow> ('p, 'e) peq" where
  "peq_new mem garbage e =
     \<lparr>m_ppq = tol_new mem, m_uneven_delta = dl_new garbage, m_even_delta = dl_new garbage,
      m_immediate_yield = dl_new garbage, m_e = e\<rparr>"

text \<open>\<open>sc_delta_count () & 1\<close>.\<close>

definition uneven :: "u64 \<Rightarrow> bool" where
  "uneven delta \<longleftrightarrow> delta AND 1 \<noteq> 0"

definition peq_notify ::
  "'e event_ops \<Rightarrow> 'p \<Rightarrow> u64 \<Rightarrow> u64 \<Rightarrow> 'p \<Rightarrow> u64 \<Rightarrow> ('p, 'e) peq \<Rightarrow> ('p, 'e) peq option"
where
  "peq_notify ops garbage now delta p when q =
     (if when = 0
      then (if uneven delta
            then map_option (\<lambda>l. q\<lparr>m_even_delta := l, m_e := ev_notify_delta ops (m_e q)\<rparr>)
                   (dl_insert garbage p (m_even_delta q))
            else map_option (\<lambda>l. q\<lparr>m_uneven_delta := l, m_e := ev_notify_delta ops (m_e q)\<rparr>)
                   (dl_insert garbage p (m_uneven_delta q)))
      else map_option (\<lambda>l. q\<lparr>m_ppq := l, m_e := ev_notify_timed ops now when (m_e q)\<rparr>)
             (tol_insert p (when + now) delta (m_ppq q)))"

text \<open>The other \<open>notify\<close>; the kernel also makes \<open>fec\<close> runnable.\<close>

definition peq_notify_now :: "'e event_ops \<Rightarrow> 'p \<Rightarrow> 'p \<Rightarrow> ('p, 'e) peq \<Rightarrow> ('p, 'e) peq option" where
  "peq_notify_now ops garbage p q =
     map_option (\<lambda>l. q\<lparr>m_immediate_yield := l, m_e := ev_notify ops (m_e q)\<rparr>)
       (dl_insert garbage p (m_immediate_yield q))"

definition peq_cancel_all :: "'e event_ops \<Rightarrow> ('p, 'e) peq \<Rightarrow> ('p, 'e) peq option" where
  "peq_cancel_all ops q =
     map_option
       (\<lambda>l. q\<lparr>m_ppq := l, m_uneven_delta := dl_reset (m_uneven_delta q),
              m_even_delta := dl_reset (m_even_delta q),
              m_immediate_yield := dl_reset (m_immediate_yield q), m_e := ev_cancel ops (m_e q)\<rparr>)
       (tol_reset (m_ppq q))"

text \<open>
  The method \<open>fec\<close>: the payloads it calls the owner back with, in order. First the loop over
  the timed notifications that are due, and the renewed notification of the event.
\<close>

partial_function (option) peq_fire_timed ::
  "u64 \<Rightarrow> ('p, u64) time_list \<Rightarrow> ('p list \<times> ('p, u64) time_list) option"
where
  "peq_fire_timed now l =
     (if tol_get_size l \<noteq> 0 \<and> tol_top_time l = now
      then do {
        (ps, l') \<leftarrow> peq_fire_timed now (tol_delete_top l);
        Some (tol_top l # ps, l')
      }
      else Some ([], l))"

definition peq_fec_timed ::
  "'e event_ops \<Rightarrow> u64 \<Rightarrow> ('p, 'e) peq \<Rightarrow> ('p list \<times> ('p, 'e) peq) option"
where
  "peq_fec_timed ops now q =
     (if tol_get_size (m_ppq q) = 0 then Some ([], q)
      else do {
        (ps, l) \<leftarrow> peq_fire_timed now (m_ppq q);
        Some (ps, q\<lparr>m_ppq := l,
          m_e := (if tol_get_size l \<noteq> 0 then ev_notify_timed ops now (tol_top_time l - now) (m_e q)
                  else m_e q)\<rparr>)
      })"

definition peq_fec_delta :: "'e event_ops \<Rightarrow> u64 \<Rightarrow> ('p, 'e) peq \<Rightarrow> ('p list \<times> ('p, 'e) peq) option" where
  "peq_fec_delta ops delta q =
     (if uneven delta
      then do {
        (ps, l) \<leftarrow> dl_drain (m_uneven_delta q);
        Some (ps, q\<lparr>m_uneven_delta := l,
          m_e := (if dl_size (m_even_delta q) \<noteq> 0 then ev_notify_delta ops (m_e q) else m_e q)\<rparr>)
      }
      else do {
        (ps, l) \<leftarrow> dl_drain (m_even_delta q);
        Some (ps, q\<lparr>m_even_delta := l,
          m_e := (if dl_size (m_uneven_delta q) \<noteq> 0 then ev_notify_delta ops (m_e q) else m_e q)\<rparr>)
      })"

definition peq_fec ::
  "'e event_ops \<Rightarrow> u64 \<Rightarrow> u64 \<Rightarrow> ('p, 'e) peq \<Rightarrow> ('p list \<times> ('p, 'e) peq) option"
where
  "peq_fec ops now delta q =
     do {
       (ps1, l) \<leftarrow> dl_drain (m_immediate_yield q);
       (ps2, q2) \<leftarrow> peq_fec_delta ops delta (q\<lparr>m_immediate_yield := l\<rparr>);
       (ps3, q3) \<leftarrow> peq_fec_timed ops now q2;
       Some (ps1 @ ps2 @ ps3, q3)
     }"

end
