(* ===== verification/Peq_Props.thy ===== *)
theory Peq_Props
  imports Peq
begin

text \<open>
  What an event queue guarantees: run by a kernel that keeps the rules of its events, it calls
  its owner back with every notification exactly when it is due, and the kernel never passes
  the moment of one that waits.
\<close>

section \<open>What a queue stands for\<close>

text \<open>The timed notifications in order, those for odd and even delta cycles, the immediate ones.\<close>

definition peq_rep ::
  "('p, 'e) peq \<Rightarrow> (u64 \<times> 'p \<times> u64) list \<Rightarrow> 'p list \<Rightarrow> 'p list \<Rightarrow> 'p list \<Rightarrow> bool"
where
  "peq_rep q tm un ev im \<longleftrightarrow> tol_rep (m_ppq q) tm \<and> dl_rep (m_uneven_delta q) un \<and>
     dl_rep (m_even_delta q) ev \<and> dl_rep (m_immediate_yield q) im"

lemma peq_rep_new: "peq_rep (peq_new mem g e) [] [] [] []"
  by (simp add: peq_rep_def peq_new_def tol_rep_new dl_rep_new)

lemma peq_notify_rep:
  assumes "peq_rep q tm un ev im" and "length un + 1 < 2 ^ 32" "length ev + 1 < 2 ^ 32"
  obtains q' where "peq_notify ops g now delta p when q = Some q'"
    and "peq_rep q' (if when = 0 then tm else time_insert (when + now, p, delta) tm)
           (if when = 0 \<and> \<not> uneven delta then un @ [p] else un)
           (if when = 0 \<and> uneven delta then ev @ [p] else ev) im"
    and "m_e q' = (if when = 0 then ev_notify_delta ops (m_e q) else ev_notify_timed ops now when (m_e q))"
proof (cases "when = 0")
  case True
  show thesis
  proof (cases "uneven delta")
    case odd: True
    obtain l where "dl_insert g p (m_even_delta q) = Some l" "dl_rep l (ev @ [p])"
      using assms dl_insert_rep [of "m_even_delta q" ev g p] by (auto simp: peq_rep_def)
    then show thesis
      using True odd assms(1)
      by (intro that [of "q\<lparr>m_even_delta := l, m_e := ev_notify_delta ops (m_e q)\<rparr>"])
        (auto simp: peq_notify_def peq_rep_def)
  next
    case even: False
    obtain l where "dl_insert g p (m_uneven_delta q) = Some l" "dl_rep l (un @ [p])"
      using assms dl_insert_rep [of "m_uneven_delta q" un g p] by (auto simp: peq_rep_def)
    then show thesis
      using True even assms(1)
      by (intro that [of "q\<lparr>m_uneven_delta := l, m_e := ev_notify_delta ops (m_e q)\<rparr>"])
        (auto simp: peq_notify_def peq_rep_def)
  qed
next
  case False
  obtain l where "tol_insert p (when + now) delta (m_ppq q) = Some l"
      "tol_rep l (time_insert (when + now, p, delta) tm)"
    using assms tol_insert_rep [of "m_ppq q" tm p "when + now" delta] by (auto simp: peq_rep_def)
  then show thesis
    using False assms(1)
    by (intro that [of "q\<lparr>m_ppq := l, m_e := ev_notify_timed ops now when (m_e q)\<rparr>"])
      (auto simp: peq_notify_def peq_rep_def)
qed

lemma peq_notify_now_rep:
  assumes "peq_rep q tm un ev im" and "length im + 1 < 2 ^ 32"
  obtains q' where "peq_notify_now ops g p q = Some q'" and "peq_rep q' tm un ev (im @ [p])"
    and "m_e q' = ev_notify ops (m_e q)"
proof -
  obtain l where "dl_insert g p (m_immediate_yield q) = Some l" "dl_rep l (im @ [p])"
    using assms dl_insert_rep [of "m_immediate_yield q" im g p] by (auto simp: peq_rep_def)
  then show thesis
    using assms(1)
    by (intro that [of "q\<lparr>m_immediate_yield := l, m_e := ev_notify ops (m_e q)\<rparr>"])
      (auto simp: peq_notify_now_def peq_rep_def)
qed

lemma peq_cancel_all_rep:
  assumes "peq_rep q tm un ev im" and "length tm < 2 ^ 32"
  obtains q' where "peq_cancel_all ops q = Some q'" and "peq_rep q' [] [] [] []"
    and "m_e q' = ev_cancel ops (m_e q)"
proof -
  obtain l where "tol_reset (m_ppq q) = Some l" "tol_rep l []"
    using assms tol_reset_rep [of "m_ppq q" tm] by (auto simp: peq_rep_def)
  then show thesis
    using assms(1)
    by (intro that [of "q\<lparr>m_ppq := l, m_uneven_delta := dl_reset (m_uneven_delta q),
          m_even_delta := dl_reset (m_even_delta q), m_immediate_yield := dl_reset (m_immediate_yield q),
          m_e := ev_cancel ops (m_e q)\<rparr>"])
      (auto simp: peq_cancel_all_def peq_rep_def intro: dl_rep_reset)
qed

section \<open>One run of the method\<close>

lemma peq_fire_timed_rep:
  "tol_rep l tm \<Longrightarrow> length tm < 2 ^ 32 \<Longrightarrow>
   \<exists>l'. peq_fire_timed now l = Some (map (fst \<circ> snd) (takeWhile (\<lambda>x. fst x = now) tm), l') \<and>
     tol_rep l' (dropWhile (\<lambda>x. fst x = now) tm)"
proof (induction tm arbitrary: l)
  case Nil
  then show ?case
    using tol_rep_size_0 [OF Nil] by (subst peq_fire_timed.simps) simp
next
  case (Cons x tm)
  obtain t p d where x: "x = (t, p, d)"
    by (cases x)
  note top = tol_rep_Cons [OF Cons.prems(1) [unfolded x]]
  have size: "tol_get_size l \<noteq> 0"
    using tol_rep_size_0 [OF Cons.prems] by simp
  obtain l' where "peq_fire_timed now (tol_delete_top l) =
      Some (map (fst \<circ> snd) (takeWhile (\<lambda>x. fst x = now) tm), l')"
    and "tol_rep l' (dropWhile (\<lambda>x. fst x = now) tm)"
    using Cons.IH [OF top(1)] Cons.prems(2) by auto
  then show ?case
    using top(2,3) size Cons.prems(1) x by (subst peq_fire_timed.simps) auto
qed

definition fires :: "u64 \<Rightarrow> u64 \<Rightarrow> (u64 \<times> 'p \<times> u64) list \<Rightarrow> 'p list \<Rightarrow> 'p list \<Rightarrow> 'p list \<Rightarrow> 'p list" where
  "fires now delta tm un ev im =
     im @ (if uneven delta then un else ev) @ map (fst \<circ> snd) (takeWhile (\<lambda>x. fst x = now) tm)"

lemma peq_fec_rep:
  assumes rep: "peq_rep q tm un ev im" and len: "length tm < 2 ^ 32" and laws: "event_laws ops"
  obtains q' where "peq_fec ops now delta q = Some (fires now delta tm un ev im, q')"
    and "peq_rep q' (dropWhile (\<lambda>x. fst x = now) tm) (if uneven delta then [] else un)
           (if uneven delta then ev else []) []"
    and "if (if uneven delta then ev else un) \<noteq> [] then ev_pending ops (m_e q') = Next_delta
         else ev_pending ops (m_e q') =
           (case dropWhile (\<lambda>x. fst x = now) tm of [] \<Rightarrow> ev_pending ops (m_e q)
            | (t, _) # _ \<Rightarrow> (case ev_pending ops (m_e q) of Not_pending \<Rightarrow> At_time t
                | Next_delta \<Rightarrow> Next_delta | At_time u \<Rightarrow> At_time (min u t)))"
proof -
  have drains: "dl_drain (m_immediate_yield q) = Some (im, dl_reset (m_immediate_yield q))"
    "dl_drain (m_uneven_delta q) = Some (un, dl_reset (m_uneven_delta q))"
    "dl_drain (m_even_delta q) = Some (ev, dl_reset (m_even_delta q))"
    using rep by (simp_all add: peq_rep_def dl_drain_rep)
  have sizes: "dl_size (m_uneven_delta q) = 0 \<longleftrightarrow> un = []" "dl_size (m_even_delta q) = 0 \<longleftrightarrow> ev = []"
    using rep dl_rep_size_0 by (auto simp: peq_rep_def)
  have resets: "dl_rep (dl_reset (m_immediate_yield q)) []" "dl_rep (dl_reset (m_uneven_delta q)) []"
    "dl_rep (dl_reset (m_even_delta q)) []"
    using rep dl_rep_reset by (auto simp: peq_rep_def)
  obtain l where fire: "peq_fire_timed now (m_ppq q) = Some (map (fst \<circ> snd) (takeWhile (\<lambda>x. fst x = now) tm), l)"
    and l: "tol_rep l (dropWhile (\<lambda>x. fst x = now) tm)"
    using peq_fire_timed_rep [OF _ len] rep by (auto simp: peq_rep_def)
  have size0: "tol_get_size (m_ppq q) = 0 \<longleftrightarrow> tm = []"
    using tol_rep_size_0 len rep by (auto simp: peq_rep_def)
  have "length (dropWhile (\<lambda>x. fst x = now) tm) < 2 ^ 32"
    using len length_dropWhile_le [of "\<lambda>x. fst x = now" tm] by simp
  with l have size1: "tol_get_size l = 0 \<longleftrightarrow> dropWhile (\<lambda>x. fst x = now) tm = []"
    by (rule tol_rep_size_0)
  define e2 where "e2 = (if (if uneven delta then ev else un) \<noteq> [] then ev_notify_delta ops (m_e q) else m_e q)"
  define q2 where "q2 = (if uneven delta
     then q\<lparr>m_immediate_yield := dl_reset (m_immediate_yield q), m_uneven_delta := dl_reset (m_uneven_delta q), m_e := e2\<rparr>
     else q\<lparr>m_immediate_yield := dl_reset (m_immediate_yield q), m_even_delta := dl_reset (m_even_delta q), m_e := e2\<rparr>)"
  have delta: "peq_fec_delta ops delta (q\<lparr>m_immediate_yield := dl_reset (m_immediate_yield q)\<rparr>) =
      Some (if uneven delta then un else ev, q2)"
    by (auto simp: peq_fec_delta_def drains sizes q2_def e2_def)
  have q2: "m_ppq q2 = m_ppq q" "m_e q2 = e2"
    by (simp_all add: q2_def)
  have rep2: "peq_rep (q2\<lparr>m_ppq := k, m_e := e\<rparr>) tm' (if uneven delta then [] else un)
      (if uneven delta then ev else []) []" if "tol_rep k tm'" for k tm' e
    using that rep resets by (auto simp: q2_def peq_rep_def)
  have e2: "if (if uneven delta then ev else un) \<noteq> [] then ev_pending ops e2 = Next_delta
      else ev_pending ops e2 = ev_pending ops (m_e q)"
    using laws by (auto simp: e2_def event_laws_def)
  show thesis
  proof (cases "tm = []")
    case True
    then have "peq_fec ops now delta q = Some (fires now delta tm un ev im, q2)"
      using delta size0 q2 by (simp add: peq_fec_def drains peq_fec_timed_def fires_def)
    moreover have "peq_rep q2 [] (if uneven delta then [] else un) (if uneven delta then ev else []) []"
      using rep2 [of "m_ppq q2" "[]" "m_e q2"] rep True q2 by (simp add: peq_rep_def)
    ultimately show thesis
      using e2 q2 True by (intro that [of q2]) (auto split: if_splits)
  next
    case False
    define e3 where "e3 = (if tol_get_size l \<noteq> 0 then ev_notify_timed ops now (tol_top_time l - now) e2 else e2)"
    have "peq_fec ops now delta q = Some (fires now delta tm un ev im, q2\<lparr>m_ppq := l, m_e := e3\<rparr>)"
      using delta size0 q2 False fire by (simp add: peq_fec_def drains peq_fec_timed_def fires_def e3_def)
    moreover have "if (if uneven delta then ev else un) \<noteq> [] then ev_pending ops e3 = Next_delta
         else ev_pending ops e3 =
           (case dropWhile (\<lambda>x. fst x = now) tm of [] \<Rightarrow> ev_pending ops (m_e q)
            | (t, _) # _ \<Rightarrow> (case ev_pending ops (m_e q) of Not_pending \<Rightarrow> At_time t
                | Next_delta \<Rightarrow> Next_delta | At_time u \<Rightarrow> At_time (min u t)))"
    proof (cases "dropWhile (\<lambda>x. fst x = now) tm")
      case Nil
      show ?thesis
        using size1 e2 unfolding Nil by (simp add: e3_def)
    next
      case (Cons x xs)
      obtain t p d where x: "x = (t, p, d)"
        by (cases x)
      have cancel: "now + (t - now) = t"
        by simp
      have "tol_top_time l = t"
        using tol_rep_Cons(3) l Cons x by simp
      then have "e3 = ev_notify_timed ops now (t - now) e2"
        using size1 Cons by (simp add: e3_def)
      then show ?thesis
        using e2 laws Cons x cancel by (auto simp: event_laws_def split: if_splits pending.splits)
    qed
    ultimately show thesis
      using rep2 [OF l] by (intro that [of "q2\<lparr>m_ppq := l, m_e := e3\<rparr>"]) auto
  qed
qed

section \<open>The queue under the kernel\<close>

text \<open>
  When a notification is due: immediately in a delta cycle, in a delta cycle, at a time. The
  payloads of a run carry this mark; the code never looks at it.
\<close>

datatype due = Immediate u64 | In_delta u64 | At_moment u64

text \<open>
  \<open>w_run\<close>: the method is to run in this evaluation phase. \<open>w_sent\<close> and \<open>w_calls\<close> record the
  notifications in order and the callbacks with the time and the delta cycle of the call.
\<close>

record ('p, 'e) world =
  w_q :: "('p \<times> due, 'e) peq"
  w_now :: u64
  w_delta :: u64
  w_run :: bool
  w_sent :: "('p \<times> due) list"
  w_calls :: "(('p \<times> due) \<times> u64 \<times> u64) list"

definition world_ini :: "('p, 'e) world \<Rightarrow> bool" where
  "world_ini w \<longleftrightarrow> peq_rep (w_q w) [] [] [] [] \<and> \<not> w_run w \<and> w_sent w = [] \<and> w_calls w = []"

text \<open>
  One step: the owner notifies, notifies immediately or cancels; the kernel runs the
  method, begins the next delta cycle, or lets time pass. The kernel does not leave a
  delta cycle before the method has run, nor a time with a delta notification pending, nor
  does it pass the time of a pending notification. The guards on the length and on the
  time exclude an overflow of the 32-bit sizes and of the 64-bit time.
\<close>

inductive peq_step :: "'e event_ops \<Rightarrow> 'p \<times> due \<Rightarrow> ('p, 'e) world \<Rightarrow> ('p, 'e) world \<Rightarrow> bool"
  for ops g where
  Notify: "peq_notify ops g (w_now w) (w_delta w) x dt (w_q w) = Some q' \<Longrightarrow>
     x = (p, if dt = 0 then In_delta (w_delta w + 1) else At_moment (dt + w_now w)) \<Longrightarrow>
     unat (w_now w) + unat dt < 2 ^ 64 \<Longrightarrow> length (w_sent w) + 1 < 2 ^ 32 \<Longrightarrow>
     peq_step ops g w (w\<lparr>w_q := q', w_sent := w_sent w @ [x]\<rparr>)"
| Notify_now: "peq_notify_now ops g (p, Immediate (w_delta w)) (w_q w) = Some q' \<Longrightarrow>
     length (w_sent w) + 1 < 2 ^ 32 \<Longrightarrow>
     peq_step ops g w (w\<lparr>w_q := q', w_sent := w_sent w @ [(p, Immediate (w_delta w))], w_run := True\<rparr>)"
| Cancel: "peq_cancel_all ops (w_q w) = Some q' \<Longrightarrow>
     peq_step ops g w (w\<lparr>w_q := q', w_sent := map fst (w_calls w)\<rparr>)"
| Wake: "w_run w \<Longrightarrow> peq_fec ops (w_now w) (w_delta w) (w_q w) = Some (cs, q') \<Longrightarrow>
     peq_step ops g w (w\<lparr>w_q := q', w_run := False,
       w_calls := w_calls w @ map (\<lambda>c. (c, w_now w, w_delta w)) cs\<rparr>)"
| Next_cycle: "\<not> w_run w \<Longrightarrow> pend = ev_pending ops (m_e (w_q w)) \<Longrightarrow>
     peq_step ops g w (w\<lparr>w_delta := w_delta w + 1, w_run := (pend = Next_delta),
       w_q := (if pend = Next_delta then (w_q w)\<lparr>m_e := ev_trigger ops (m_e (w_q w))\<rparr> else w_q w)\<rparr>)"
| Pass_time: "\<not> w_run w \<Longrightarrow> pend = ev_pending ops (m_e (w_q w)) \<Longrightarrow> pend \<noteq> Next_delta \<Longrightarrow>
     w_now w < t \<Longrightarrow> (case pend of At_time u \<Rightarrow> t \<le> u | _ \<Rightarrow> True) \<Longrightarrow>
     peq_step ops g w (w\<lparr>w_now := t, w_delta := d, w_run := (pend = At_time t),
       w_q := (if pend = At_time t then (w_q w)\<lparr>m_e := ev_trigger ops (m_e (w_q w))\<rparr> else w_q w)\<rparr>)"

inductive peq_reach :: "'e event_ops \<Rightarrow> 'p \<times> due \<Rightarrow> ('p, 'e) world \<Rightarrow> bool" for ops g where
  Start: "world_ini w \<Longrightarrow> peq_reach ops g w"
| Step: "peq_reach ops g w \<Longrightarrow> peq_step ops g w w' \<Longrightarrow> peq_reach ops g w'"

definition waiting :: "(u64 \<times> 'a \<times> u64) list \<Rightarrow> 'a list \<Rightarrow> 'a list \<Rightarrow> 'a list \<Rightarrow> 'a list" where
  "waiting tm un ev im = im @ un @ ev @ map (fst \<circ> snd) tm"

text \<open>The marks of what waits, and the moments in the order of the list.\<close>

definition dues_ok ::
  "u64 \<Rightarrow> u64 \<Rightarrow> (u64 \<times> ('p \<times> due) \<times> u64) list \<Rightarrow> ('p \<times> due) list \<Rightarrow> ('p \<times> due) list \<Rightarrow> ('p \<times> due) list \<Rightarrow> bool"
where
  "dues_ok now delta tm un ev im \<longleftrightarrow>
     sorted (map fst tm) \<and> (\<forall>(t, x, d)\<in>set tm. snd x = At_moment t \<and> now \<le> t) \<and>
     (\<forall>x\<in>set un. snd x = In_delta (if uneven delta then delta else delta + 1)) \<and>
     (\<forall>x\<in>set ev. snd x = In_delta (if uneven delta then delta + 1 else delta)) \<and>
     (\<forall>x\<in>set im. snd x = Immediate delta)"

text \<open>When the method is not to run, nothing is due now and the rest is covered by the event.\<close>

definition covered ::
  "pending \<Rightarrow> u64 \<Rightarrow> u64 \<Rightarrow> (u64 \<times> 'a \<times> u64) list \<Rightarrow> 'a list \<Rightarrow> 'a list \<Rightarrow> 'a list \<Rightarrow> bool"
where
  "covered pend now delta tm un ev im \<longleftrightarrow>
     im = [] \<and> (if uneven delta then un else ev) = [] \<and> (\<forall>x\<in>set tm. now < fst x) \<and>
     ((if uneven delta then ev else un) \<noteq> [] \<longrightarrow> pend = Next_delta) \<and>
     (tm \<noteq> [] \<longrightarrow> pend = Next_delta \<or> (\<exists>u. pend = At_time u \<and> u \<le> fst (hd tm)))"

definition on_time :: "('p \<times> due) \<times> u64 \<times> u64 \<Rightarrow> bool" where
  "on_time c = (case c of ((p, k), now, delta) \<Rightarrow>
     (case k of Immediate d \<Rightarrow> d = delta | In_delta d \<Rightarrow> d = delta | At_moment t \<Rightarrow> t = now))"

definition world_inv ::
  "'e event_ops \<Rightarrow> ('p, 'e) world \<Rightarrow> (u64 \<times> ('p \<times> due) \<times> u64) list \<Rightarrow> ('p \<times> due) list \<Rightarrow>
   ('p \<times> due) list \<Rightarrow> ('p \<times> due) list \<Rightarrow> bool"
where
  "world_inv ops w tm un ev im \<longleftrightarrow>
     peq_rep (w_q w) tm un ev im \<and> dues_ok (w_now w) (w_delta w) tm un ev im \<and>
     (\<not> w_run w \<longrightarrow> covered (ev_pending ops (m_e (w_q w))) (w_now w) (w_delta w) tm un ev im) \<and>
     list_all on_time (w_calls w) \<and> length (w_sent w) < 2 ^ 32 \<and>
     mset (w_sent w) = mset (map fst (w_calls w)) + mset (waiting tm un ev im) \<and>
     (\<forall>k. filter (\<lambda>x. snd x = k) (w_sent w) =
        filter (\<lambda>x. snd x = k) (map fst (w_calls w)) @ filter (\<lambda>x. snd x = k) (waiting tm un ev im))"

lemma world_inv_len:
  assumes "world_inv ops w tm un ev im"
  shows "length tm + length un + length ev + length im \<le> length (w_sent w)"
proof -
  have "size (mset (w_sent w)) = size (mset (map fst (w_calls w)) + mset (waiting tm un ev im))"
    using assms by (simp add: world_inv_def)
  then show ?thesis
    by (simp add: waiting_def)
qed

lemma uneven_Suc [simp]: "uneven (d + 1) \<longleftrightarrow> \<not> uneven d"
  by (simp add: uneven_def one_and_eq and_one_eq even_plus_one_iff mod_2_eq_odd)

lemma filter_tm_other:
  "\<forall>(t, x, d)\<in>set tm. snd x = At_moment t \<and> P t \<Longrightarrow> (\<And>t. k \<noteq> At_moment t) \<Longrightarrow>
   filter (\<lambda>x. snd x = k) (map (fst \<circ> snd) tm) = []"
  by (auto simp: filter_empty_conv)

lemma filter_tm_moment:
  "\<forall>(t, x, d)\<in>set tm. snd x = At_moment t \<and> P t \<Longrightarrow>
   filter (\<lambda>x. snd x = At_moment k) (map (fst \<circ> snd) tm) = map (fst \<circ> snd) (filter (\<lambda>y. fst y = k) tm)"
  by (induction tm) auto

lemma filter_mark: "\<forall>x\<in>set xs. snd x = m \<Longrightarrow> filter (\<lambda>x. snd x = k) xs = (if m = k then xs else [])"
  by (auto simp: filter_empty_conv)

lemma filter_waiting:
  assumes "dues_ok now delta tm un ev im"
  shows "filter (\<lambda>x. snd x = k) (waiting tm un ev im) =
     (case k of Immediate d \<Rightarrow> if d = delta then im else []
      | In_delta d \<Rightarrow> if d = delta then (if uneven delta then un else ev)
                     else if d = delta + 1 then (if uneven delta then ev else un) else []
      | At_moment t \<Rightarrow> map (fst \<circ> snd) (filter (\<lambda>y. fst y = t) tm))"
proof -
  let ?f = "filter (\<lambda>x. snd x = k)"
  have tm: "\<forall>(t, x, d)\<in>set tm. snd x = At_moment t \<and> now \<le> t"
    and un: "?f un = (if In_delta (if uneven delta then delta else delta + 1) = k then un else [])"
    and ev: "?f ev = (if In_delta (if uneven delta then delta + 1 else delta) = k then ev else [])"
    and im: "?f im = (if Immediate delta = k then im else [])"
    using assms by (auto simp: dues_ok_def filter_mark)
  show ?thesis
  proof (cases k)
    case (At_moment t)
    then show ?thesis
      using filter_tm_moment [OF tm, of t] un ev im by (simp add: waiting_def)
  next
    case (Immediate d)
    then show ?thesis
      using filter_tm_other [OF tm, of k] un ev im by (auto simp: waiting_def)
  next
    case (In_delta d)
    then show ?thesis
      using filter_tm_other [OF tm, of k] un ev im by (auto simp: waiting_def)
  qed
qed

lemma mset_waiting: "mset (waiting tm un ev im) = mset im + mset un + mset ev + mset (map (fst \<circ> snd) tm)"
  by (simp add: waiting_def)

lemma uneven_neq [simp]: "d + 1 \<noteq> d" "d \<noteq> d + 1" for d :: u64
  by simp_all

text \<open>A notification without delay, with a delay, an immediate one.\<close>

lemma later_moment:
  fixes now t :: u64
  assumes "unat now + unat t < 2 ^ 64" and "t \<noteq> 0"
  shows "now < t + now"
proof -
  have "unat t + unat now < 2 ^ LENGTH(64)"
    using assms(1) by simp
  then have "unat (t + now) = unat t + unat now"
    by (rule unat_add_lem [THEN iffD1])
  moreover have "0 < unat t"
    using assms(2) by (simp add: unat_gt_0)
  ultimately show ?thesis
    unfolding word_less_nat_alt by linarith
qed

lemma dues_notify:
  assumes "dues_ok now delta tm un ev im" and "now < t"
  shows "dues_ok now delta (time_insert (t, (p, At_moment t), delta) tm) un ev im"
  using assms sorted_time_insert [of tm "(t, (p, At_moment t), delta)"] by (auto simp: dues_ok_def)

lemma dues_notify_delta:
  assumes "dues_ok now delta tm un ev im"
  shows "\<not> uneven delta \<Longrightarrow> dues_ok now delta tm (un @ [(p, In_delta (delta + 1))]) ev im"
    and "uneven delta \<Longrightarrow> dues_ok now delta tm un (ev @ [(p, In_delta (delta + 1))]) im"
  using assms by (auto simp: dues_ok_def)

lemma covered_notify:
  assumes "covered pend now delta tm un ev im" and "now < t"
  shows "covered (case pend of Not_pending \<Rightarrow> At_time t | Next_delta \<Rightarrow> Next_delta | At_time u \<Rightarrow> At_time (min u t))
           now delta (time_insert (t, x, delta) tm) un ev im"
proof -
  have "hd (time_insert (t, x, delta) tm) =
      (if tm \<noteq> [] \<and> fst (hd tm) \<le> t then hd tm else (t, x, delta))"
    by (cases tm) (auto simp: time_insert_Cons)
  moreover have "time_insert (t, x, delta) tm \<noteq> []"
    by (simp add: time_insert_def)
  ultimately show ?thesis
    using assms by (cases pend) (auto simp: covered_def min_def)
qed

text \<open>A step that sends one payload keeps the record of the run.\<close>

lemma record_sent:
  assumes inv: "world_inv ops w tm un ev im" and due': "dues_ok (w_now w) (w_delta w) tm' un' ev' im'"
    and mset: "mset (waiting tm' un' ev' im') = add_mset x (mset (waiting tm un ev im))"
    and filter: "\<And>k. filter (\<lambda>y. snd y = k) (waiting tm' un' ev' im') =
      filter (\<lambda>y. snd y = k) (waiting tm un ev im) @ (if snd x = k then [x] else [])"
    and rep': "peq_rep q' tm' un' ev' im'" and room: "length (w_sent w) + 1 < 2 ^ 32"
    and cov: "\<not> run \<Longrightarrow> covered (ev_pending ops (m_e q')) (w_now w) (w_delta w) tm' un' ev' im'"
  shows "world_inv ops (w\<lparr>w_q := q', w_sent := w_sent w @ [x], w_run := run\<rparr>) tm' un' ev' im'"
  using inv due' mset rep' room cov filter unfolding world_inv_def by simp

lemma laws_timed:
  "event_laws ops \<Longrightarrow> ev_pending ops (ev_notify_timed ops now t e) =
     (case ev_pending ops e of Not_pending \<Rightarrow> At_time (t + now) | Next_delta \<Rightarrow> Next_delta
      | At_time u \<Rightarrow> At_time (min u (t + now)))"
  by (cases "ev_pending ops e") (simp_all add: event_laws_def ac_simps)

lemma step_notify:
  assumes inv: "world_inv ops w tm un ev im" and laws: "event_laws ops"
    and x: "x = (p, if when = 0 then In_delta (w_delta w + 1) else At_moment (when + w_now w))"
    and fits: "unat (w_now w) + unat when < 2 ^ 64" and room: "length (w_sent w) + 1 < 2 ^ 32"
    and notify: "peq_notify ops g (w_now w) (w_delta w) x when (w_q w) = Some q'"
  shows "world_inv ops (w\<lparr>w_q := q', w_sent := w_sent w @ [x], w_run := w_run w\<rparr>)
           (if when = 0 then tm else time_insert (when + w_now w, x, w_delta w) tm)
           (if when = 0 \<and> \<not> uneven (w_delta w) then un @ [x] else un)
           (if when = 0 \<and> uneven (w_delta w) then ev @ [x] else ev) im"
    (is "world_inv ops ?w ?tm ?un ?ev im")
proof -
  have rep: "peq_rep (w_q w) tm un ev im" and due: "dues_ok (w_now w) (w_delta w) tm un ev im"
    using inv by (simp_all add: world_inv_def)
  have lens: "length un + 1 < 2 ^ 32" "length ev + 1 < 2 ^ 32"
    using world_inv_len [OF inv] room by simp_all
  obtain q'' where q'': "peq_notify ops g (w_now w) (w_delta w) x when (w_q w) = Some q''"
    and rep'': "peq_rep q'' ?tm ?un ?ev im"
    and e'': "m_e q'' = (if when = 0 then ev_notify_delta ops (m_e (w_q w))
       else ev_notify_timed ops (w_now w) when (m_e (w_q w)))"
    by (rule peq_notify_rep [OF rep lens])
  have "q'' = q'"
    using q'' notify by simp
  note rep' = rep'' [unfolded this] and e' = e'' [unfolded this]
  have later: "when \<noteq> 0 \<Longrightarrow> w_now w < when + w_now w"
    using fits by (rule later_moment)
  have due': "dues_ok (w_now w) (w_delta w) ?tm ?un ?ev im"
    using due dues_notify [OF due later] dues_notify_delta [OF due] by (auto simp: x)
  show ?thesis
  proof (rule record_sent [OF inv due' _ _ rep' room])
    show "mset (waiting ?tm ?un ?ev im) = add_mset x (mset (waiting tm un ev im))"
      by (simp add: mset_waiting)
    show "filter (\<lambda>y. snd y = k) (waiting ?tm ?un ?ev im) =
      filter (\<lambda>y. snd y = k) (waiting tm un ev im) @ (if snd x = k then [x] else [])" for k
    proof -
      have sx: "snd x = (if when = 0 then In_delta (w_delta w + 1) else At_moment (when + w_now w))"
        by (simp add: x)
      have "sorted (map fst tm)"
        using due by (simp add: dues_ok_def)
      note stable = time_insert_stable [OF this, of _ "(when + w_now w, x, w_delta w)"]
      show ?thesis
        unfolding filter_waiting [OF due] filter_waiting [OF due'] by (cases k) (auto simp: sx stable)
    qed
    show "covered (ev_pending ops (m_e q')) (w_now w) (w_delta w) ?tm ?un ?ev im" if "\<not> w_run w"
    proof -
      have cov: "covered (ev_pending ops (m_e (w_q w))) (w_now w) (w_delta w) tm un ev im"
        using inv that by (simp add: world_inv_def)
      show ?thesis
      proof (cases "when = 0")
        case True
        then show ?thesis
          using cov e' laws by (auto simp: covered_def event_laws_def)
      next
        case False
        then show ?thesis
          using covered_notify [OF cov later] e' by (simp add: laws_timed [OF laws])
      qed
    qed
  qed
qed

lemma step_notify_now:
  assumes inv: "world_inv ops w tm un ev im" and room: "length (w_sent w) + 1 < 2 ^ 32"
    and notify: "peq_notify_now ops g (p, Immediate (w_delta w)) (w_q w) = Some q'"
  shows "world_inv ops (w\<lparr>w_q := q', w_sent := w_sent w @ [(p, Immediate (w_delta w))], w_run := True\<rparr>)
           tm un ev (im @ [(p, Immediate (w_delta w))])"
proof -
  let ?x = "(p, Immediate (w_delta w))"
  have rep: "peq_rep (w_q w) tm un ev im" and due: "dues_ok (w_now w) (w_delta w) tm un ev im"
    using inv by (simp_all add: world_inv_def)
  have lens: "length im + 1 < 2 ^ 32"
    using world_inv_len [OF inv] room by simp
  have rep': "peq_rep q' tm un ev (im @ [?x])"
    using peq_notify_now_rep [OF rep lens, of ops g ?x] notify by (metis option.inject)
  have due': "dues_ok (w_now w) (w_delta w) tm un ev (im @ [?x])"
    using due by (simp add: dues_ok_def)
  show ?thesis
  proof (rule record_sent [OF inv due' _ _ rep' room])
    show "filter (\<lambda>y. snd y = k) (waiting tm un ev (im @ [?x])) =
      filter (\<lambda>y. snd y = k) (waiting tm un ev im) @ (if snd ?x = k then [?x] else [])" for k
      unfolding filter_waiting [OF due] filter_waiting [OF due'] by (cases k) auto
  qed (simp_all add: mset_waiting)
qed

lemma step_cancel:
  assumes inv: "world_inv ops w tm un ev im" and laws: "event_laws ops"
    and cancel: "peq_cancel_all ops (w_q w) = Some q'"
  shows "world_inv ops (w\<lparr>w_q := q', w_sent := map fst (w_calls w)\<rparr>) [] [] [] []"
proof -
  have rep: "peq_rep (w_q w) tm un ev im" and len: "length tm < 2 ^ 32"
    using inv world_inv_len [OF inv] by (simp_all add: world_inv_def)
  have "peq_rep q' [] [] [] []"
    using peq_cancel_all_rep [OF rep len, of ops] cancel by (metis option.inject)
  moreover have "length (w_calls w) < 2 ^ 32"
  proof -
    have "size (mset (w_sent w)) = size (mset (map fst (w_calls w)) + mset (waiting tm un ev im))"
      using inv by (simp add: world_inv_def)
    then show ?thesis
      using inv by (simp add: world_inv_def)
  qed
  ultimately show ?thesis
    using inv by (simp add: world_inv_def dues_ok_def covered_def waiting_def)
qed

lemma mset_parts: "mset (takeWhile P xs) + mset (dropWhile P xs) = mset xs"
  by (metis mset_append takeWhile_dropWhile_id)

lemma sorted_due_now:
  assumes "sorted (map fst tm)" and "\<forall>x\<in>set tm. now \<le> fst x"
  shows "takeWhile (\<lambda>x. fst x = now) tm = filter (\<lambda>x. fst x = now) tm \<and>
         dropWhile (\<lambda>x. fst x = now) tm = filter (\<lambda>x. now < fst x) tm"
  using assms
proof (induction tm)
  case (Cons x tm)
  show ?case
  proof (cases "fst x = now")
    case False
    then have "\<forall>y\<in>set (x # tm). now < fst y"
      using Cons.prems by force
    then have "filter (\<lambda>y. fst y = now) (x # tm) = []" "filter (\<lambda>y. now < fst y) (x # tm) = x # tm"
      by (auto simp: filter_empty_conv filter_id_conv)
    then show ?thesis
      using False by simp
  qed (use Cons in simp)
qed simp

text \<open>What a run of the method leaves behind.\<close>

lemma due_split:
  assumes due: "dues_ok now delta tm un ev im"
  shows "takeWhile (\<lambda>x. fst x = now) tm = filter (\<lambda>x. fst x = now) tm"
  "dropWhile (\<lambda>x. fst x = now) tm = filter (\<lambda>x. now < fst x) tm"
proof -
  have "sorted (map fst tm)" "\<forall>x\<in>set tm. now \<le> fst x"
    using due by (auto simp: dues_ok_def)
  from sorted_due_now [OF this] show
    "takeWhile (\<lambda>x. fst x = now) tm = filter (\<lambda>x. fst x = now) tm"
    "dropWhile (\<lambda>x. fst x = now) tm = filter (\<lambda>x. now < fst x) tm"
    by simp_all
qed

lemma dues_wake:
  assumes due: "dues_ok now delta tm un ev im"
  shows "dues_ok now delta (dropWhile (\<lambda>x. fst x = now) tm) (if uneven delta then [] else un)
     (if uneven delta then ev else []) []"
proof -
  have "sorted (map fst (filter (\<lambda>x. now < fst x) tm))"
    using due by (simp add: dues_ok_def sorted_filter)
  then show ?thesis
    using due unfolding due_split(2) [OF due] by (auto simp: dues_ok_def)
qed

lemma calls_wake:
  assumes due: "dues_ok now delta tm un ev im"
  shows "list_all on_time (map (\<lambda>c. (c, now, delta)) (fires now delta tm un ev im))"
  using due unfolding fires_def due_split(1) [OF due]
  by (auto simp: list_all_iff on_time_def dues_ok_def)

lemma mset_wake:
  assumes due: "dues_ok now delta tm un ev im"
  shows "mset (waiting tm un ev im) = mset (fires now delta tm un ev im) +
     mset (waiting (dropWhile (\<lambda>x. fst x = now) tm) (if uneven delta then [] else un)
       (if uneven delta then ev else []) [])"
proof -
  have "mset (map (fst \<circ> snd) tm) = mset (map (fst \<circ> snd) (takeWhile (\<lambda>x. fst x = now) tm)) +
      mset (map (fst \<circ> snd) (dropWhile (\<lambda>x. fst x = now) tm))"
    by (metis map_append mset_append takeWhile_dropWhile_id)
  then show ?thesis
    by (simp add: mset_waiting fires_def)
qed

lemma filter_wake:
  assumes due: "dues_ok now delta tm un ev im"
  shows "filter (\<lambda>x. snd x = k) (waiting tm un ev im) = filter (\<lambda>x. snd x = k) (fires now delta tm un ev im) @
     filter (\<lambda>x. snd x = k) (waiting (dropWhile (\<lambda>x. fst x = now) tm) (if uneven delta then [] else un)
       (if uneven delta then ev else []) [])"
proof -
  let ?f = "filter (\<lambda>x. snd x = k)"
  have un: "?f un = (if In_delta (if uneven delta then delta else delta + 1) = k then un else [])"
    and ev: "?f ev = (if In_delta (if uneven delta then delta + 1 else delta) = k then ev else [])"
    and im: "?f im = (if Immediate delta = k then im else [])"
    using due by (auto simp: dues_ok_def filter_mark)
  have tm: "?f (map (fst \<circ> snd) tm) = ?f (map (fst \<circ> snd) (takeWhile (\<lambda>x. fst x = now) tm)) @
      ?f (map (fst \<circ> snd) (dropWhile (\<lambda>x. fst x = now) tm))"
    by (metis filter_append map_append takeWhile_dropWhile_id)
  have none: "?f (map (fst \<circ> snd) xs) = []" if "set xs \<subseteq> set tm" "\<And>t. k \<noteq> At_moment t" for xs
    using due that by (fastforce simp: dues_ok_def filter_empty_conv)
  show ?thesis
  proof (cases "\<exists>t. k = At_moment t")
    case True
    then show ?thesis
      using un ev im tm by (auto simp: waiting_def fires_def)
  next
    case False
    then have "?f (map (fst \<circ> snd) (takeWhile (\<lambda>x. fst x = now) tm)) = []"
      "?f (map (fst \<circ> snd) (dropWhile (\<lambda>x. fst x = now) tm)) = []" "?f (map (fst \<circ> snd) tm) = []"
      by (auto intro!: none dest: set_takeWhileD set_dropWhileD)
    then show ?thesis
      using un ev im by (auto simp: waiting_def fires_def)
  qed
qed

lemma covered_wake:
  assumes due: "dues_ok now delta tm un ev im"
    and "if (if uneven delta then ev else un) \<noteq> [] then pend' = Next_delta
         else pend' =
           (case dropWhile (\<lambda>x. fst x = now) tm of [] \<Rightarrow> pend
            | (t, _) # _ \<Rightarrow> (case pend of Not_pending \<Rightarrow> At_time t
                | Next_delta \<Rightarrow> Next_delta | At_time u \<Rightarrow> At_time (min u t)))"
  shows "covered pend' now delta (dropWhile (\<lambda>x. fst x = now) tm) (if uneven delta then [] else un)
     (if uneven delta then ev else []) []"
proof -
  have "\<forall>x\<in>set (dropWhile (\<lambda>x. fst x = now) tm). now < fst x"
    by (simp add: due_split(2) [OF due])
  moreover have "dropWhile (\<lambda>x. fst x = now) tm \<noteq> [] \<longrightarrow> pend' = Next_delta \<or>
      (\<exists>u. pend' = At_time u \<and> u \<le> fst (hd (dropWhile (\<lambda>x. fst x = now) tm)))"
    using assms by (cases "dropWhile (\<lambda>x. fst x = now) tm"; cases pend) (auto split: if_splits)
  ultimately show ?thesis
    using assms by (auto simp: covered_def split: if_splits)
qed

lemma step_wake:
  assumes inv: "world_inv ops w tm un ev im" and laws: "event_laws ops"
    and fec: "peq_fec ops (w_now w) (w_delta w) (w_q w) = Some (cs, q')"
  shows "\<exists>tm un ev im. world_inv ops (w\<lparr>w_q := q', w_run := False,
       w_calls := w_calls w @ map (\<lambda>c. (c, w_now w, w_delta w)) cs\<rparr>) tm un ev im"
proof -
  let ?now = "w_now w" and ?delta = "w_delta w"
  let ?tm = "dropWhile (\<lambda>x. fst x = ?now) tm" and ?un = "if uneven ?delta then [] else un"
    and ?ev = "if uneven ?delta then ev else []"
  have rep: "peq_rep (w_q w) tm un ev im" and due: "dues_ok ?now ?delta tm un ev im"
    and len: "length tm < 2 ^ 32"
    using inv world_inv_len [OF inv] by (simp_all add: world_inv_def)
  obtain q'' where q'': "peq_fec ops ?now ?delta (w_q w) = Some (fires ?now ?delta tm un ev im, q'')"
    and rep'': "peq_rep q'' ?tm ?un ?ev []"
    and pend'': "if (if uneven ?delta then ev else un) \<noteq> [] then ev_pending ops (m_e q'') = Next_delta
         else ev_pending ops (m_e q'') =
           (case ?tm of [] \<Rightarrow> ev_pending ops (m_e (w_q w))
            | (t, _) # _ \<Rightarrow> (case ev_pending ops (m_e (w_q w)) of Not_pending \<Rightarrow> At_time t
                | Next_delta \<Rightarrow> Next_delta | At_time u \<Rightarrow> At_time (min u t)))"
    by (rule peq_fec_rep [OF rep len laws])
  have q': "q'' = q'" and cs: "cs = fires ?now ?delta tm un ev im"
    using q'' fec by simp_all
  note rep' = rep'' [unfolded q'] and cov = covered_wake [OF due pend'' [unfolded q']]
  have "world_inv ops (w\<lparr>w_q := q', w_run := False,
       w_calls := w_calls w @ map (\<lambda>c. (c, ?now, ?delta)) cs\<rparr>) ?tm ?un ?ev []"
    using inv rep' dues_wake [OF due] cov calls_wake [OF due] filter_wake [OF due] mset_wake [OF due]
    unfolding world_inv_def cs by (simp add: comp_def)
  then show ?thesis by blast
qed

lemma step_next_cycle:
  assumes inv: "world_inv ops w tm un ev im" and laws: "event_laws ops" and idle: "\<not> w_run w"
    and pend: "pend = ev_pending ops (m_e (w_q w))"
  shows "world_inv ops (w\<lparr>w_delta := w_delta w + 1, w_run := (pend = Next_delta),
       w_q := (if pend = Next_delta then (w_q w)\<lparr>m_e := ev_trigger ops (m_e (w_q w))\<rparr> else w_q w)\<rparr>)
       tm un ev im"
proof -
  have cov: "covered pend (w_now w) (w_delta w) tm un ev im"
    and due: "dues_ok (w_now w) (w_delta w) tm un ev im"
    using inv idle pend by (simp_all add: world_inv_def)
  have "dues_ok (w_now w) (w_delta w + 1) tm un ev im"
    using due cov by (auto simp: dues_ok_def covered_def split: if_splits)
  moreover have "covered pend (w_now w) (w_delta w + 1) tm un ev im" if "pend \<noteq> Next_delta"
    using cov that by (auto simp: covered_def split: if_splits)
  ultimately show ?thesis
    using inv pend by (auto simp: world_inv_def peq_rep_def)
qed

lemma step_pass_time:
  assumes inv: "world_inv ops w tm un ev im" and idle: "\<not> w_run w"
    and pend: "pend = ev_pending ops (m_e (w_q w))" "pend \<noteq> Next_delta"
    and t: "w_now w < t" "case pend of At_time u \<Rightarrow> t \<le> u | _ \<Rightarrow> True"
  shows "world_inv ops (w\<lparr>w_now := t, w_delta := d, w_run := (pend = At_time t),
       w_q := (if pend = At_time t then (w_q w)\<lparr>m_e := ev_trigger ops (m_e (w_q w))\<rparr> else w_q w)\<rparr>)
       tm un ev im"
proof -
  have cov: "covered pend (w_now w) (w_delta w) tm un ev im"
    and due: "dues_ok (w_now w) (w_delta w) tm un ev im"
    using inv idle pend by (simp_all add: world_inv_def)
  have empty: "un = []" "ev = []" "im = []"
    using cov pend(2) by (auto simp: covered_def split: if_splits)
  have head: "t \<le> fst (hd tm)" "pend \<noteq> At_time t \<Longrightarrow> t < fst (hd tm)" if "tm \<noteq> []"
    using cov pend(2) t that by (auto simp: covered_def)
  have hd_least: "\<forall>x\<in>set tm. fst (hd tm) \<le> fst x"
    using due by (cases tm) (auto simp: dues_ok_def)
  have all: "\<forall>x\<in>set tm. t \<le> fst x" "pend \<noteq> At_time t \<Longrightarrow> \<forall>x\<in>set tm. t < fst x"
    using head hd_least by (force, force)
  have "dues_ok t d tm un ev im"
    using due empty all(1) by (auto simp: dues_ok_def)
  moreover have "covered pend t d tm un ev im" if "pend \<noteq> At_time t"
    using cov all(2) that empty by (auto simp: covered_def)
  ultimately show ?thesis
    using inv pend by (auto simp: world_inv_def peq_rep_def)
qed

lemma reach_inv:
  assumes "peq_reach ops g w" and laws: "event_laws ops"
  shows "\<exists>tm un ev im. world_inv ops w tm un ev im"
  using assms(1)
proof induction
  case (Start w)
  then have "world_inv ops w [] [] [] []"
    by (simp add: world_ini_def world_inv_def dues_ok_def covered_def waiting_def)
  then show ?case by blast
next
  case (Step w w')
  then obtain tm un ev im where inv: "world_inv ops w tm un ev im" by blast
  from Step(2) show ?case
  proof cases
    case (Notify x dt q' p)
    have w': "w' = w\<lparr>w_q := q', w_sent := w_sent w @ [x], w_run := w_run w\<rparr>"
      using Notify(1) by simp
    show ?thesis
      unfolding w' by (intro exI) (rule step_notify [OF inv laws Notify(3,4,5,2)])
  next
    case (Notify_now p q')
    then show ?thesis
      using step_notify_now [OF inv Notify_now(3,2)] by auto
  next
    case (Cancel q')
    then show ?thesis
      using step_cancel [OF inv laws Cancel(2)] by blast
  next
    case (Wake cs q')
    then show ?thesis
      using step_wake [OF inv laws Wake(3)] by simp
  next
    case (Next_cycle pend)
    then show ?thesis
      using step_next_cycle [OF inv laws Next_cycle(2,3)] by blast
  next
    case (Pass_time pend t d)
    then show ?thesis
      using step_pass_time [OF inv Pass_time(2-6)] by blast
  qed
qed

text \<open>Every operation of a reachable queue has a result.\<close>

lemma reach_fec_defined:
  assumes "peq_reach ops g w" and laws: "event_laws ops"
  shows "\<exists>r. peq_fec ops (w_now w) (w_delta w) (w_q w) = Some r"
proof -
  obtain tm un ev im where inv: "world_inv ops w tm un ev im"
    using reach_inv [OF assms] by blast
  have rep: "peq_rep (w_q w) tm un ev im" and len: "length tm < 2 ^ 32"
    using inv world_inv_len [OF inv] by (simp_all add: world_inv_def)
  obtain q' where "peq_fec ops (w_now w) (w_delta w) (w_q w) = Some (fires (w_now w) (w_delta w) tm un ev im, q')"
    by (rule peq_fec_rep [OF rep len laws])
  then show ?thesis ..
qed

lemma reach_notify_defined:
  assumes "peq_reach ops g w" and laws: "event_laws ops" and room: "length (w_sent w) + 1 < 2 ^ 32"
  shows "\<exists>q'. peq_notify ops g (w_now w) (w_delta w) x t (w_q w) = Some q'"
proof -
  obtain tm un ev im where inv: "world_inv ops w tm un ev im"
    using reach_inv [OF assms(1,2)] by blast
  have rep: "peq_rep (w_q w) tm un ev im" and lens: "length un + 1 < 2 ^ 32" "length ev + 1 < 2 ^ 32"
    using inv world_inv_len [OF inv] room by (simp_all add: world_inv_def)
  obtain q' where "peq_notify ops g (w_now w) (w_delta w) x t (w_q w) = Some q'"
    by (rule peq_notify_rep [OF rep lens])
  then show ?thesis ..
qed

text \<open>Whether a notification is still to come.\<close>

definition still_due :: "u64 \<Rightarrow> u64 \<Rightarrow> due \<Rightarrow> bool" where
  "still_due now delta k =
     (case k of Immediate d \<Rightarrow> False | In_delta d \<Rightarrow> d = delta + 1 | At_moment t \<Rightarrow> now < t)"

text \<open>
  C11. An event queue delivers on time: under any order of notifications, delta cycles and
  passing time that keeps the rules of the kernel's event, every callback comes in the delta
  cycle or at the time its notification was due; those due at the same moment come in the order
  of their notification; and whenever the method has run, every notification that has not
  been delivered is still to come. The method and the notification always have a result.
\<close>

theorem peq_delivers_on_time:
  assumes reach: "peq_reach ops g w" and laws: "event_laws ops"
  shows "list_all on_time (w_calls w) \<and>
    (\<exists>rest. mset (w_sent w) = mset (map fst (w_calls w)) + mset rest \<and>
      (\<forall>k. filter (\<lambda>x. snd x = k) (w_sent w) =
         filter (\<lambda>x. snd x = k) (map fst (w_calls w)) @ filter (\<lambda>x. snd x = k) rest) \<and>
      (\<not> w_run w \<longrightarrow> list_all (\<lambda>x. still_due (w_now w) (w_delta w) (snd x)) rest)) \<and>
    (\<exists>r. peq_fec ops (w_now w) (w_delta w) (w_q w) = Some r) \<and>
    (length (w_sent w) + 1 < 2 ^ 32 \<longrightarrow>
      (\<forall>x t. \<exists>q'. peq_notify ops g (w_now w) (w_delta w) x t (w_q w) = Some q'))"
proof -
  obtain tm un ev im where inv: "world_inv ops w tm un ev im"
    using reach_inv [OF assms] by blast
  have "list_all (\<lambda>x. still_due (w_now w) (w_delta w) (snd x)) (waiting tm un ev im)" if "\<not> w_run w"
    using inv that
    by (fastforce simp: world_inv_def covered_def dues_ok_def waiting_def still_due_def list_all_iff
        split: if_splits)
  then show ?thesis
    using inv reach_fec_defined [OF assms] reach_notify_defined [OF assms]
    unfolding world_inv_def by (intro conjI exI [of _ "waiting tm un ev im"]) simp_all
qed

text \<open>A notification without delay, the next delta cycle, a run of the method.\<close>

lemma peq_delivers_on_time_witness:
  "\<exists>w. peq_reach plain_event (0, Immediate 0) w \<and> \<not> w_run w \<and> w_delta w = 1 \<and>
     map fst (w_calls w) = [(7::nat, In_delta 1)] \<and> list_all on_time (w_calls w)"
proof -
  let ?g = "(0::nat, Immediate 0)"
  define w0 :: "(nat, pending) world" where
    "w0 = \<lparr>w_q = peq_new undefined ?g Not_pending, w_now = 0, w_delta = 0, w_run = False, w_sent = [], w_calls = []\<rparr>"
  have r0: "peq_reach plain_event ?g w0"
    by (rule Start) (simp add: w0_def world_ini_def peq_rep_new)
  let ?x = "(7::nat, In_delta 1)"
  obtain q1 where q1: "peq_notify plain_event ?g 0 0 ?x 0 (w_q w0) = Some q1"
    using reach_notify_defined [OF r0 event_laws_plain, of ?x 0] by (auto simp: w0_def)
  define w1 where "w1 = w0\<lparr>w_q := q1, w_sent := [?x]\<rparr>"
  have "peq_step plain_event ?g w0 (w0\<lparr>w_q := q1, w_sent := w_sent w0 @ [?x]\<rparr>)"
    by (rule Notify [where p = 7 and dt = 0]) (use q1 in \<open>simp_all add: w0_def\<close>)
  then have "peq_step plain_event ?g w0 w1"
    by (simp add: w1_def w0_def)
  with r0 have r1: "peq_reach plain_event ?g w1" by (rule Step)
  have pend1: "ev_pending plain_event (m_e (w_q w1)) = Next_delta"
    using q1 by (auto simp: w1_def w0_def peq_notify_def plain_event_def uneven_def)
  define w2 where "w2 = w1\<lparr>w_delta := 1, w_run := True, w_q := (w_q w1)\<lparr>m_e := ev_trigger plain_event (m_e (w_q w1))\<rparr>\<rparr>"
  have "peq_step plain_event ?g w1 w2"
    using Next_cycle [of w1 Next_delta plain_event ?g] pend1 by (simp add: w2_def w1_def w0_def)
  with r1 have r2: "peq_reach plain_event ?g w2" by (rule Step)
  obtain cs q3 where fec: "peq_fec plain_event (w_now w2) (w_delta w2) (w_q w2) = Some (cs, q3)"
    using reach_fec_defined [OF r2 event_laws_plain] by fastforce
  define w3 where "w3 = w2\<lparr>w_q := q3, w_run := False, w_calls := w_calls w2 @ map (\<lambda>c. (c, w_now w2, w_delta w2)) cs\<rparr>"
  have "peq_step plain_event ?g w2 w3"
    unfolding w3_def by (rule Wake [OF _ fec]) (simp add: w2_def)
  with r2 have r3: "peq_reach plain_event ?g w3" by (rule Step)
  have w3: "w_sent w3 = [?x]" "\<not> w_run w3" "w_delta w3 = 1"
    by (simp_all add: w3_def w2_def w1_def)
  obtain rest where on_time: "list_all on_time (w_calls w3)"
    and rest: "mset (w_sent w3) = mset (map fst (w_calls w3)) + mset rest"
      "\<not> w_run w3 \<longrightarrow> list_all (\<lambda>x. still_due (w_now w3) (w_delta w3) (snd x)) rest"
    using peq_delivers_on_time [OF r3 event_laws_plain] by blast
  have "rest = []"
  proof (cases rest)
    case (Cons y ys)
    have "set_mset (mset (w_sent w3)) = set_mset (mset (map fst (w_calls w3)) + mset rest)"
      using rest(1) by (rule arg_cong)
    with Cons w3(1) have "y = ?x"
      by auto
    with Cons rest(2) w3 show ?thesis
      by (simp add: still_due_def)
  qed simp
  with rest(1) w3(1) have "mset (map fst (w_calls w3)) = {#?x#}"
    by (simp del: mset_map)
  then have "map fst (w_calls w3) = [?x]"
    by (rule mset_single_iff [THEN iffD1])
  then show ?thesis
    using r3 w3(2,3) on_time by (intro exI [of _ w3] conjI)
qed

end
