(* ===== verification/Dram_Controller.thy ===== *)
theory Dram_Controller
  imports Complex_Main Bridge
begin

text \<open>
  The DRAM controller that the repository patches into the DRAM simulator
  (\<open>etc/generic_dram_controller.cpp\<close>) with its requests and request buffers
  (\<open>etc/request.h\<close>, \<open>etc/request.cpp\<close>). The device model, the scheduler, the refresh manager and
  the plugins belong to the DRAM simulator: they are parameters, a record of the functions the
  controller calls on them over a state \<open>'d\<close> of their own.
\<close>

section \<open>Requests\<close>

text \<open>
  The fields that the controller reads or writes. \<open>dq_callback\<close>: whether the request has a
  callback, which puts \<open>dq_trans\<close> into the bridge's queue of completed payloads. The statistics
  flag, the scratchpad and \<open>m_payload\<close> are not used.
\<close>

record dram_request =
  dq_addr :: int
  dq_addr_vec :: "int list"
  dq_type_id :: int
  dq_source_id :: int
  dq_command :: int
  dq_final_command :: int
  dq_arrive :: int
  dq_depart :: int
  dq_callback :: bool
  dq_trans :: pid

definition Read :: int where "Read = 0"
definition Write :: int where "Write = 1"

definition request_blank :: dram_request where
  "request_blank = \<lparr>dq_addr = -1, dq_addr_vec = [], dq_type_id = -1, dq_source_id = -1, dq_command = -1,
     dq_final_command = -1, dq_arrive = -1, dq_depart = -1, dq_callback = False, dq_trans = 0\<rparr>"

definition request_addr :: "int \<Rightarrow> int \<Rightarrow> dram_request" where
  "request_addr addr type = request_blank\<lparr>dq_addr := addr, dq_type_id := type\<rparr>"

definition request_addr_vec :: "int list \<Rightarrow> int \<Rightarrow> dram_request" where
  "request_addr_vec addr_vec type = request_blank\<lparr>dq_addr_vec := addr_vec, dq_type_id := type\<rparr>"

definition request_source :: "int \<Rightarrow> int \<Rightarrow> int \<Rightarrow> bool \<Rightarrow> dram_request" where
  "request_source addr type source_id callback =
     request_blank\<lparr>dq_addr := addr, dq_type_id := type, dq_source_id := source_id, dq_callback := callback\<rparr>"

definition request_trans :: "int \<Rightarrow> int \<Rightarrow> int \<Rightarrow> bool \<Rightarrow> pid \<Rightarrow> dram_request" where
  "request_trans addr type source_id callback tr =
     request_blank\<lparr>dq_addr := addr, dq_type_id := type, dq_source_id := source_id, dq_callback := callback,
       dq_trans := tr\<rparr>"

section \<open>Request buffers\<close>

text \<open>An iterator is an index; the end iterator is the length.\<close>

record req_buffer =
  rb_buffer :: "dram_request list"
  rb_max_size :: nat

definition rb_new :: req_buffer where
  "rb_new = \<lparr>rb_buffer = [], rb_max_size = 32\<rparr>"

definition rb_size :: "req_buffer \<Rightarrow> nat" where
  "rb_size b = length (rb_buffer b)"

definition rb_begin :: "req_buffer \<Rightarrow> nat" where
  "rb_begin b = 0"

definition rb_end :: "req_buffer \<Rightarrow> nat" where
  "rb_end b = length (rb_buffer b)"

definition rb_enqueue :: "dram_request \<Rightarrow> req_buffer \<Rightarrow> req_buffer \<times> bool" where
  "rb_enqueue r b =
     (if rb_size b \<le> rb_max_size b then (b\<lparr>rb_buffer := rb_buffer b @ [r]\<rparr>, True) else (b, False))"

definition rb_remove :: "nat \<Rightarrow> req_buffer \<Rightarrow> req_buffer" where
  "rb_remove i b = b\<lparr>rb_buffer := take i (rb_buffer b) @ drop (Suc i) (rb_buffer b)\<rparr>"

section \<open>The environment of the controller\<close>

text \<open>
  \<open>best_request\<close> stands for the scheduler: it may set the next command of the requests of the
  buffer it is given and returns an iterator. \<open>refresh_tick\<close> yields the requests that the refresh
  manager sends with priority.
\<close>

record 'd dram_env =
  request_translations :: "int \<Rightarrow> int"
  check_ready :: "'d \<Rightarrow> int \<Rightarrow> int list \<Rightarrow> bool"
  get_preq_command :: "'d \<Rightarrow> int \<Rightarrow> int list \<Rightarrow> int"
  issue_command :: "int \<Rightarrow> int list \<Rightarrow> 'd \<Rightarrow> 'd"
  read_latency :: int
  is_opening :: "int \<Rightarrow> bool"
  is_closing :: "int \<Rightarrow> bool"
  row_level :: int
  best_request :: "'d \<Rightarrow> dram_request list \<Rightarrow> dram_request list \<times> nat"
  refresh_tick :: "'d \<Rightarrow> 'd \<times> dram_request list"
  plugin_update :: "bool \<Rightarrow> dram_request option \<Rightarrow> 'd \<Rightarrow> 'd"

section \<open>The controller\<close>

record 'd dram_ctrl =
  m_clk :: int
  pending_reads :: "dram_request list"
  m_active_buffer :: req_buffer
  m_priority_buffer :: req_buffer
  m_read_buffer :: req_buffer
  m_write_buffer :: req_buffer
  m_row_addr_idx :: int
  m_wr_low_watermark :: rat
  m_wr_high_watermark :: rat
  m_is_write_mode :: bool
  m_dram :: 'd

text \<open>
  \<open>init\<close> and \<open>setup\<close>; the clock is inherited from the DRAM simulator. The watermarks are the values of the \<open>float\<close> parameters; their product with the
  size 32 of the write buffer is exact.
\<close>

definition dram_init :: "int \<Rightarrow> rat \<Rightarrow> rat \<Rightarrow> 'd \<Rightarrow> 'd dram_ctrl" where
  "dram_init clk low high d =
     \<lparr>m_clk = clk, pending_reads = [], m_active_buffer = rb_new, m_priority_buffer = rb_new,
      m_read_buffer = rb_new, m_write_buffer = rb_new, m_row_addr_idx = -1,
      m_wr_low_watermark = low, m_wr_high_watermark = high, m_is_write_mode = False, m_dram = d\<rparr>"

definition dram_setup :: "'d dram_env \<Rightarrow> 'd dram_ctrl \<Rightarrow> 'd dram_ctrl" where
  "dram_setup env c =
     c\<lparr>m_row_addr_idx := row_level env,
       m_priority_buffer := (m_priority_buffer c)\<lparr>rb_max_size := 512 * 3 + 32\<rparr>\<rparr>"

text \<open>The result: the controller, the request as \<open>send\<close> leaves it, and whether it was accepted.\<close>

definition dram_send ::
  "'d dram_env \<Rightarrow> dram_request \<Rightarrow> 'd dram_ctrl \<Rightarrow> sim_error + ('d dram_ctrl \<times> dram_request \<times> bool)"
where
  "dram_send env r0 c =
     (let r = r0\<lparr>dq_final_command := request_translations env (dq_type_id r0)\<rparr> in
      if dq_type_id r = Read \<and> (\<exists>w\<in>set (rb_buffer (m_write_buffer c)). dq_addr w = dq_addr r)
      then let r1 = r\<lparr>dq_depart := m_clk c + 1\<rparr> in
           Inr (c\<lparr>pending_reads := pending_reads c @ [r1]\<rparr>, r1, True)
      else let r1 = r\<lparr>dq_arrive := m_clk c\<rparr> in
        if dq_type_id r = Read
        then (case rb_enqueue r1 (m_read_buffer c) of (b, ok) \<Rightarrow>
                Inr (c\<lparr>m_read_buffer := b\<rparr>, if ok then r1 else r1\<lparr>dq_arrive := -1\<rparr>, ok))
        else if dq_type_id r = Write
        then (case rb_enqueue r1 (m_write_buffer c) of (b, ok) \<Rightarrow>
                Inr (c\<lparr>m_write_buffer := b\<rparr>, if ok then r1 else r1\<lparr>dq_arrive := -1\<rparr>, ok))
        else Inl Exception_thrown)"

definition priority_send ::
  "'d dram_env \<Rightarrow> dram_request \<Rightarrow> 'd dram_ctrl \<Rightarrow> 'd dram_ctrl \<times> bool"
where
  "priority_send env r0 c =
     (case rb_enqueue (r0\<lparr>dq_final_command := request_translations env (dq_type_id r0)\<rparr>) (m_priority_buffer c)
      of (b, ok) \<Rightarrow> (c\<lparr>m_priority_buffer := b\<rparr>, ok))"

text \<open>The second result: the payloads whose callback is called.\<close>

definition serve_completed_reads :: "'d dram_ctrl \<Rightarrow> 'd dram_ctrl \<times> pid list" where
  "serve_completed_reads c =
     (case pending_reads c of
        [] \<Rightarrow> (c, [])
      | r # rs \<Rightarrow>
          if dq_depart r \<le> m_clk c
          then (c\<lparr>pending_reads := rs\<rparr>, if dq_callback r then [dq_trans r] else [])
          else (c, []))"

definition set_write_mode :: "'d dram_ctrl \<Rightarrow> 'd dram_ctrl" where
  "set_write_mode c =
     (let w = of_nat (rb_size (m_write_buffer c)); m = of_nat (rb_max_size (m_write_buffer c)) in
      if \<not> m_is_write_mode c
      then (if m_wr_high_watermark c * m < w \<or> rb_size (m_read_buffer c) = 0
            then c\<lparr>m_is_write_mode := True\<rparr> else c)
      else (if w < m_wr_low_watermark c * m \<and> rb_size (m_read_buffer c) \<noteq> 0
            then c\<lparr>m_is_write_mode := False\<rparr> else c))"

text \<open>Which buffer the pointer \<open>buffer\<close> points to.\<close>

datatype which_buffer = Active | Priority | Reads | Writes

fun the_buffer :: "which_buffer \<Rightarrow> 'd dram_ctrl \<Rightarrow> req_buffer" where
  "the_buffer Active c = m_active_buffer c"
| "the_buffer Priority c = m_priority_buffer c"
| "the_buffer Reads c = m_read_buffer c"
| "the_buffer Writes c = m_write_buffer c"

fun put_buffer :: "which_buffer \<Rightarrow> req_buffer \<Rightarrow> 'd dram_ctrl \<Rightarrow> 'd dram_ctrl" where
  "put_buffer Active b c = c\<lparr>m_active_buffer := b\<rparr>"
| "put_buffer Priority b c = c\<lparr>m_priority_buffer := b\<rparr>"
| "put_buffer Reads b c = c\<lparr>m_read_buffer := b\<rparr>"
| "put_buffer Writes b c = c\<lparr>m_write_buffer := b\<rparr>"

text \<open>\<open>m_scheduler->get_best_request (buffer)\<close>, and whether the request it returns is ready.\<close>

definition ask_scheduler :: "'d dram_env \<Rightarrow> which_buffer \<Rightarrow> 'd dram_ctrl \<Rightarrow> 'd dram_ctrl \<times> nat \<times> bool" where
  "ask_scheduler env k c =
     (case best_request env (m_dram c) (rb_buffer (the_buffer k c)) of (rs, i) \<Rightarrow>
        (put_buffer k ((the_buffer k c)\<lparr>rb_buffer := rs\<rparr>) c, i,
         i < length rs \<and> check_ready env (m_dram c) (dq_command (rs ! i)) (dq_addr_vec (rs ! i))))"

text \<open>
  The row group of a request: the levels up to the first wildcard, or up to the row. A range
  beyond the address vector is undefined behaviour.
\<close>

fun first_wildcard :: "int list \<Rightarrow> nat \<Rightarrow> int option" where
  "first_wildcard [] n = None"
| "first_wildcard (i # is) n = (if i = -1 then Some (int n) else first_wildcard is (Suc n))"

definition row_group_end :: "'d dram_ctrl \<Rightarrow> dram_request \<Rightarrow> int" where
  "row_group_end c r = (case first_wildcard (dq_addr_vec r) 0 of Some n \<Rightarrow> n | None \<Rightarrow> m_row_addr_idx c)"

definition prefix_vec :: "int \<Rightarrow> int list \<Rightarrow> sim_error + int list" where
  "prefix_vec n v = (if 0 \<le> n \<and> n \<le> int (length v) then Inr (take (nat n) v) else Inl Out_of_bounds)"

fun row_group_open :: "int \<Rightarrow> int list \<Rightarrow> dram_request list \<Rightarrow> sim_error + bool" where
  "row_group_open n g [] = Inr False"
| "row_group_open n g (a # as) =
     ebind (prefix_vec n (dq_addr_vec a)) (\<lambda>ga. ebind (row_group_open n g as) (\<lambda>b. Inr (g = ga \<or> b)))"

definition closes_open_row :: "'d dram_env \<Rightarrow> 'd dram_ctrl \<Rightarrow> dram_request \<Rightarrow> sim_error + bool" where
  "closes_open_row env c r =
     (if is_closing env (dq_command r)
      then ebind (prefix_vec (row_group_end c r) (dq_addr_vec r)) (\<lambda>g.
             row_group_open (row_group_end c r) g (rb_buffer (m_active_buffer c)))
      else Inr False)"

text \<open>The choice of a request: steps 2.1 and 2.2 of \<open>schedule_request\<close>, then step 2.3.\<close>

definition choose_request :: "'d dram_env \<Rightarrow> 'd dram_ctrl \<Rightarrow> 'd dram_ctrl \<times> (which_buffer \<times> nat) option" where
  "choose_request env c =
     (case ask_scheduler env Active c of (c1, i, True) \<Rightarrow> (c1, Some (Active, i))
      | (c1, i, False) \<Rightarrow>
          (case rb_buffer (m_priority_buffer c1) of
             r # rs \<Rightarrow>
               let r1 = r\<lparr>dq_command := get_preq_command env (m_dram c1) (dq_final_command r) (dq_addr_vec r)\<rparr>;
                   c2 = c1\<lparr>m_priority_buffer := (m_priority_buffer c1)\<lparr>rb_buffer := r1 # rs\<rparr>\<rparr>
               in (c2, if check_ready env (m_dram c2) (dq_command r1) (dq_addr_vec r1)
                       then Some (Priority, 0) else None)
           | [] \<Rightarrow>
               let c2 = set_write_mode c1; k = (if m_is_write_mode c2 then Writes else Reads) in
               (case ask_scheduler env k c2 of (c3, j, ready) \<Rightarrow> (c3, if ready then Some (k, j) else None))))"

definition schedule_request ::
  "'d dram_env \<Rightarrow> 'd dram_ctrl \<Rightarrow> sim_error + ('d dram_ctrl \<times> (which_buffer \<times> nat) option)"
where
  "schedule_request env c =
     (case choose_request env c of
        (c1, None) \<Rightarrow> Inr (c1, None)
      | (c1, Some (k, i)) \<Rightarrow>
          ebind (closes_open_row env c1 (rb_buffer (the_buffer k c1) ! i)) (\<lambda>open.
            Inr (c1, if open then None else Some (k, i))))"

text \<open>Step 4 of \<open>tick\<close>, for the request at \<open>i\<close> of the buffer.\<close>

definition issue_request ::
  "'d dram_env \<Rightarrow> which_buffer \<Rightarrow> nat \<Rightarrow> 'd dram_ctrl \<Rightarrow> sim_error + ('d dram_ctrl \<times> pid list)"
where
  "issue_request env k i c0 =
     (let r = rb_buffer (the_buffer k c0) ! i;
          c = c0\<lparr>m_dram := issue_command env (dq_command r) (dq_addr_vec r) (m_dram c0)\<rparr>
      in if dq_command r = dq_final_command r
         then (if dq_type_id r = Read
               then Inr (put_buffer k (rb_remove i (the_buffer k c))
                      (c\<lparr>pending_reads := pending_reads c @ [r\<lparr>dq_depart := m_clk c + read_latency env\<rparr>]\<rparr>), [])
               else if dq_type_id r = Write
               then (if dq_callback r
                     then Inr (put_buffer k (rb_remove i (the_buffer k c)) c, [dq_trans r])
                     else Inl Exception_thrown)
               else Inr (put_buffer k (rb_remove i (the_buffer k c)) c, []))
         else if is_opening env (dq_command r)
         then (let c1 = c\<lparr>m_active_buffer := fst (rb_enqueue r (m_active_buffer c))\<rparr> in
               Inr (put_buffer k (rb_remove i (the_buffer k c1)) c1, []))
         else Inr (c, []))"

fun priority_send_all :: "'d dram_env \<Rightarrow> dram_request list \<Rightarrow> 'd dram_ctrl \<Rightarrow> 'd dram_ctrl" where
  "priority_send_all env [] c = c"
| "priority_send_all env (r # rs) c = priority_send_all env rs (fst (priority_send env r c))"

definition dram_refresh :: "'d dram_env \<Rightarrow> 'd dram_ctrl \<Rightarrow> 'd dram_ctrl" where
  "dram_refresh env c =
     (case refresh_tick env (m_dram c) of (d, rs) \<Rightarrow> priority_send_all env rs (c\<lparr>m_dram := d\<rparr>))"

definition dram_tick :: "'d dram_env \<Rightarrow> 'd dram_ctrl \<Rightarrow> sim_error + ('d dram_ctrl \<times> pid list)" where
  "dram_tick env c0 =
     (case serve_completed_reads (c0\<lparr>m_clk := m_clk c0 + 1\<rparr>) of (c1, done1) \<Rightarrow>
        ebind (schedule_request env (dram_refresh env c1)) (\<lambda>(c2, found).
          let c3 = c2\<lparr>m_dram := plugin_update env (found \<noteq> None)
                 (map_option (\<lambda>(k, i). rb_buffer (the_buffer k c2) ! i) found) (m_dram c2)\<rparr>
          in case found of
               None \<Rightarrow> Inr (c3, done1)
             | Some (k, i) \<Rightarrow> ebind (issue_request env k i c3) (\<lambda>(c4, done2). Inr (c4, done1 @ done2))))"

end
