(* ===== verification/Dram_Props.thy ===== *)
theory Dram_Props
  imports Dram_Controller
begin

text \<open>
  What the patched DRAM controller promises to the bridge: every request it has accepted is
  completed exactly once, or still in one of its buffers, as long as the buffer of activated
  requests is not full.
\<close>

section \<open>What the controller owes\<close>

text \<open>A completion is owed for each request with a callback.\<close>

definition owed :: "dram_request list \<Rightarrow> pid multiset" where
  "owed rs = mset (map dq_trans (filter dq_callback rs))"

lemma owed_simps [simp]:
  "owed [] = {#}"
  "owed (r # rs) = (if dq_callback r then add_mset (dq_trans r) (owed rs) else owed rs)"
  "owed (xs @ ys) = owed xs + owed ys"
  by (simp_all add: owed_def)

definition dram_busy :: "'d dram_ctrl \<Rightarrow> pid multiset" where
  "dram_busy c = owed (pending_reads c) + owed (rb_buffer (m_active_buffer c)) +
     owed (rb_buffer (m_priority_buffer c)) + owed (rb_buffer (m_read_buffer c)) +
     owed (rb_buffer (m_write_buffer c))"

definition req_ok :: "dram_request \<Rightarrow> bool" where
  "req_ok r \<longleftrightarrow> (dq_callback r \<longrightarrow> dq_type_id r = Read \<or> dq_type_id r = Write)"

definition dram_inv :: "'d dram_ctrl \<Rightarrow> bool" where
  "dram_inv c \<longleftrightarrow> list_all req_ok (rb_buffer (m_active_buffer c)) \<and>
     list_all req_ok (rb_buffer (m_priority_buffer c)) \<and> list_all req_ok (rb_buffer (m_read_buffer c)) \<and>
     list_all req_ok (rb_buffer (m_write_buffer c))"

text \<open>
  What the controller relies on: the scheduler only sets commands, and the refresh manager
  sends requests without a callback.
\<close>

definition strip :: "dram_request \<Rightarrow> dram_request" where
  "strip r = r\<lparr>dq_command := 0\<rparr>"

definition env_ok :: "'d dram_env \<Rightarrow> bool" where
  "env_ok env \<longleftrightarrow>
     (\<forall>d rs. map strip (fst (best_request env d rs)) = map strip rs) \<and>
     (\<forall>d. list_all (\<lambda>r. \<not> dq_callback r) (snd (refresh_tick env d)))"

lemma strip_eq:
  "strip r = strip s \<Longrightarrow> dq_callback r = dq_callback s \<and> dq_trans r = dq_trans s \<and> dq_type_id r = dq_type_id s"
  by (cases r; cases s) (simp add: strip_def)

lemma strip_list:
  "map strip rs = map strip ss \<Longrightarrow> owed rs = owed ss \<and> list_all req_ok rs = list_all req_ok ss \<and> length rs = length ss"
proof (induction rs arbitrary: ss)
  case (Cons r rs)
  then obtain s ss' where ss: "ss = s # ss'" and "strip r = strip s" "map strip rs = map strip ss'"
    by (cases ss) auto
  with Cons.IH [of ss'] strip_eq [of r s] show ?case
    by (simp add: req_ok_def)
qed simp

lemma owed_remove:
  assumes "i < length rs"
  shows "owed (take i rs @ drop (Suc i) rs) + (if dq_callback (rs ! i) then {#dq_trans (rs ! i)#} else {#}) = owed rs"
proof -
  have "owed rs = owed (take i rs @ rs ! i # drop (Suc i) rs)"
    using assms by (simp add: id_take_nth_drop [symmetric])
  then show ?thesis
    by simp
qed

lemma list_all_remove: "list_all P rs \<Longrightarrow> list_all P (take i rs @ drop (Suc i) rs)"
  by (auto simp: list_all_iff dest: in_set_takeD in_set_dropD)

section \<open>The operations\<close>

lemma busy_frame [simp]:
  "dram_busy (c\<lparr>m_dram := d\<rparr>) = dram_busy c" "dram_inv (c\<lparr>m_dram := d\<rparr>) = dram_inv c"
  "dram_busy (c\<lparr>m_clk := t\<rparr>) = dram_busy c" "dram_inv (c\<lparr>m_clk := t\<rparr>) = dram_inv c"
  "dram_busy (c\<lparr>m_is_write_mode := b\<rparr>) = dram_busy c" "dram_inv (c\<lparr>m_is_write_mode := b\<rparr>) = dram_inv c"
  by (simp_all add: dram_busy_def dram_inv_def)

lemma rb_enqueue_simps:
  "rb_buffer (fst (rb_enqueue r b)) = (if rb_size b \<le> rb_max_size b then rb_buffer b @ [r] else rb_buffer b)"
  "snd (rb_enqueue r b) \<longleftrightarrow> rb_size b \<le> rb_max_size b"
  "rb_max_size (fst (rb_enqueue r b)) = rb_max_size b"
  by (simp_all add: rb_enqueue_def)

text \<open>A buffer never holds more than one request above its maximal size.\<close>

lemma rb_enqueue_bound: "rb_size b \<le> rb_max_size b + 1 \<Longrightarrow> rb_size (fst (rb_enqueue r b)) \<le> rb_max_size b + 1"
  by (simp add: rb_enqueue_def rb_size_def)

lemma dram_send_busy:
  assumes "dram_send env r c = Inr (c', r', ok)" and "dq_callback r"
  shows "dram_busy c' = (if ok then add_mset (dq_trans r) (dram_busy c) else dram_busy c)"
    and "dram_inv c \<Longrightarrow> dram_inv c'"
  using assms
  by (auto simp: dram_send_def Let_def dram_busy_def dram_inv_def req_ok_def rb_enqueue_def split: if_splits)

lemma serve_busy:
  assumes "serve_completed_reads c = (c', done)"
  shows "mset done + dram_busy c' = dram_busy c" and "dram_inv c' = dram_inv c"
    and "m_active_buffer c' = m_active_buffer c"
  using assms by (auto simp: serve_completed_reads_def dram_busy_def dram_inv_def split: list.splits if_splits)

lemma priority_send_busy:
  assumes "\<not> dq_callback r"
  shows "dram_busy (fst (priority_send env r c)) = dram_busy c"
    and "dram_inv c \<Longrightarrow> dram_inv (fst (priority_send env r c))"
    and "m_active_buffer (fst (priority_send env r c)) = m_active_buffer c"
  using assms by (auto simp: priority_send_def dram_busy_def dram_inv_def req_ok_def rb_enqueue_def)

lemma priority_send_all_busy:
  assumes "list_all (\<lambda>r. \<not> dq_callback r) rs"
  shows "dram_busy (priority_send_all env rs c) = dram_busy c \<and>
    (dram_inv c \<longrightarrow> dram_inv (priority_send_all env rs c)) \<and>
    m_active_buffer (priority_send_all env rs c) = m_active_buffer c"
  using assms
  by (induction rs arbitrary: c) (auto simp: priority_send_busy)

lemma dram_refresh_busy:
  assumes "env_ok env"
  shows "dram_busy (dram_refresh env c) = dram_busy c"
    and "dram_inv c \<Longrightarrow> dram_inv (dram_refresh env c)"
    and "m_active_buffer (dram_refresh env c) = m_active_buffer c"
proof -
  obtain d rs where r: "refresh_tick env (m_dram c) = (d, rs)"
    by fastforce
  then have "list_all (\<lambda>r. \<not> dq_callback r) rs"
    using assms by (metis env_ok_def snd_conv)
  note all = priority_send_all_busy [OF this, of env "c\<lparr>m_dram := d\<rparr>"]
  show "dram_busy (dram_refresh env c) = dram_busy c" "dram_inv c \<Longrightarrow> dram_inv (dram_refresh env c)"
    "m_active_buffer (dram_refresh env c) = m_active_buffer c"
    using all by (simp_all add: dram_refresh_def r)
qed

lemma the_put_buffer [simp]: "the_buffer k (put_buffer k b c) = b"
  by (cases k) simp_all

lemma ask_scheduler_busy:
  assumes "env_ok env" and "ask_scheduler env k c = (c', i, ready)"
  shows "dram_busy c' = dram_busy c" and "dram_inv c' = dram_inv c"
    and "length (rb_buffer (m_active_buffer c')) = length (rb_buffer (m_active_buffer c))"
    and "rb_max_size (m_active_buffer c') = rb_max_size (m_active_buffer c)"
    and "ready \<Longrightarrow> i < length (rb_buffer (the_buffer k c'))"
proof -
  obtain rs where b: "best_request env (m_dram c) (rb_buffer (the_buffer k c)) = (rs, i)"
    and c': "c' = put_buffer k ((the_buffer k c)\<lparr>rb_buffer := rs\<rparr>) c"
    and ready: "ready = (i < length rs \<and> check_ready env (m_dram c) (dq_command (rs ! i)) (dq_addr_vec (rs ! i)))"
    using assms(2) by (auto simp: ask_scheduler_def split: prod.splits)
  have "map strip rs = map strip (rb_buffer (the_buffer k c))"
    using assms(1) b by (metis env_ok_def fst_conv)
  note same = strip_list [OF this]
  show "dram_busy c' = dram_busy c" "dram_inv c' = dram_inv c"
    "length (rb_buffer (m_active_buffer c')) = length (rb_buffer (m_active_buffer c))"
    "rb_max_size (m_active_buffer c') = rb_max_size (m_active_buffer c)"
    using same c' by (cases k; simp add: dram_busy_def dram_inv_def)+
  show "ready \<Longrightarrow> i < length (rb_buffer (the_buffer k c'))"
    by (simp add: c' ready)
qed

lemma set_write_mode_busy [simp]:
  "dram_busy (set_write_mode c) = dram_busy c" "dram_inv (set_write_mode c) = dram_inv c"
  "m_active_buffer (set_write_mode c) = m_active_buffer c"
  by (auto simp: set_write_mode_def Let_def)

text \<open>What a step of \<open>tick\<close> keeps when it completes nothing.\<close>

definition keeps :: "'d dram_ctrl \<Rightarrow> 'd dram_ctrl \<Rightarrow> bool" where
  "keeps c c' \<longleftrightarrow> dram_busy c' = dram_busy c \<and> (dram_inv c \<longrightarrow> dram_inv c') \<and>
     rb_size (m_active_buffer c') = rb_size (m_active_buffer c) \<and>
     rb_max_size (m_active_buffer c') = rb_max_size (m_active_buffer c)"

lemma keeps_trans: "keeps a b \<Longrightarrow> keeps b c \<Longrightarrow> keeps a c"
  by (simp add: keeps_def)

lemma keeps_ask: "env_ok env \<Longrightarrow> ask_scheduler env k c = (c', i, ready) \<Longrightarrow> keeps c c'"
  using ask_scheduler_busy [of env k c c' i ready] by (simp add: keeps_def rb_size_def)

lemma keeps_mode: "keeps c (set_write_mode c)"
  by (simp add: keeps_def)

lemma keeps_priority:
  assumes "rb_buffer (m_priority_buffer c) = r # rs"
  shows "keeps c (c\<lparr>m_priority_buffer := (m_priority_buffer c)\<lparr>rb_buffer := r\<lparr>dq_command := x\<rparr> # rs\<rparr>\<rparr>)"
  using assms by (simp add: keeps_def dram_busy_def dram_inv_def req_ok_def)

lemma choose_request_ok:
  assumes env: "env_ok env" and choose: "choose_request env c = (c', found)"
  shows "keeps c c' \<and> (\<forall>k i. found = Some (k, i) \<longrightarrow> i < length (rb_buffer (the_buffer k c')))"
proof -
  obtain c1 i b where a: "ask_scheduler env Active c = (c1, i, b)"
    by (metis prod_cases3)
  note k1 = keeps_ask [OF env a] and i1 = ask_scheduler_busy(5) [OF env a]
  show ?thesis
  proof (cases b)
    case True
    then show ?thesis
      using choose a k1 i1 by (auto simp: choose_request_def)
  next
    case False
    show ?thesis
    proof (cases "rb_buffer (m_priority_buffer c1)")
      case (Cons r rs)
      then show ?thesis
        using choose a False keeps_trans [OF k1 keeps_priority [OF Cons]]
        by (auto simp: choose_request_def Let_def split: if_splits)
    next
      case Nil
      define k where "k = (if m_is_write_mode (set_write_mode c1) then Writes else Reads)"
      obtain c3 j ready where a2: "ask_scheduler env k (set_write_mode c1) = (c3, j, ready)"
        by (metis prod_cases3)
      have "keeps c c3"
        using k1 keeps_mode keeps_ask [OF env a2] keeps_trans by blast
      moreover have "c' = c3" "found = (if ready then Some (k, j) else None)"
        using choose a False Nil a2 unfolding k_def by (auto simp: choose_request_def Let_def)
      ultimately show ?thesis
        using ask_scheduler_busy(5) [OF env a2] by auto
    qed
  qed
qed

lemma schedule_request_ok:
  assumes "env_ok env" and "schedule_request env c = Inr (c', found)"
  shows "keeps c c' \<and> (\<forall>k i. found = Some (k, i) \<longrightarrow> i < length (rb_buffer (the_buffer k c')))"
  using assms choose_request_ok [of env c]
  by (auto simp: schedule_request_def split: prod.splits option.splits if_splits)

lemma owed_the_buffer: "owed (rb_buffer (the_buffer k c)) \<subseteq># dram_busy c"
  by (cases k) (simp_all add: dram_busy_def)

lemma put_busy:
  "dram_busy (put_buffer k b c) + owed (rb_buffer (the_buffer k c)) = dram_busy c + owed (rb_buffer b)"
  by (cases k) (simp_all add: dram_busy_def)

lemma put_inv: "dram_inv c \<Longrightarrow> list_all req_ok (rb_buffer b) \<Longrightarrow> dram_inv (put_buffer k b c)"
  by (cases k) (simp_all add: dram_inv_def)

lemma inv_the_buffer: "dram_inv c \<Longrightarrow> list_all req_ok (rb_buffer (the_buffer k c))"
  by (cases k) (simp_all add: dram_inv_def)

text \<open>Removing the request that has been served.\<close>

lemma remove_busy:
  assumes "i < length (rb_buffer (the_buffer k c))" and "r = rb_buffer (the_buffer k c) ! i"
  shows "dram_busy (put_buffer k (rb_remove i (the_buffer k c)) c) +
           (if dq_callback r then {#dq_trans r#} else {#}) = dram_busy c"
proof -
  have "owed (rb_buffer (rb_remove i (the_buffer k c))) + (if dq_callback r then {#dq_trans r#} else {#}) =
      owed (rb_buffer (the_buffer k c))"
    using owed_remove [OF assms(1)] assms(2) by (cases "dq_callback r") (simp_all add: rb_remove_def)
  with put_busy [of k "rb_remove i (the_buffer k c)" c] show ?thesis
    by (smt (verit, ccfv_threshold) add.assoc add.commute add_right_cancel)
qed

lemma remove_inv:
  "dram_inv c \<Longrightarrow> dram_inv (put_buffer k (rb_remove i (the_buffer k c)) c)"
  using inv_the_buffer [of c k] by (simp add: rb_remove_def put_inv list_all_remove del: list_all_append)

definition has_room :: "'d dram_ctrl \<Rightarrow> bool" where
  "has_room c \<longleftrightarrow> rb_size (m_active_buffer c) \<le> rb_max_size (m_active_buffer c)"

lemma the_buffer_frame [simp]:
  "the_buffer k (c\<lparr>m_dram := d\<rparr>) = the_buffer k c"
  "the_buffer k (c\<lparr>pending_reads := ps\<rparr>) = the_buffer k c"
  by (cases k; simp)+

lemma put_buffer_frame:
  "pending_reads (put_buffer k b c) = pending_reads c"
  by (cases k) simp_all

lemma pending_busy: "dram_busy (c\<lparr>pending_reads := pending_reads c @ [r]\<rparr>) = dram_busy c + owed [r]"
  by (simp add: dram_busy_def)

lemma pending_inv [simp]: "dram_inv (c\<lparr>pending_reads := ps\<rparr>) = dram_inv c"
  by (simp add: dram_inv_def)

lemma activate_the_buffer:
  assumes "has_room c" and "i < length (rb_buffer (the_buffer k c))"
  defines "c1 \<equiv> c\<lparr>m_active_buffer := fst (rb_enqueue (rb_buffer (the_buffer k c) ! i) (m_active_buffer c))\<rparr>"
  shows "i < length (rb_buffer (the_buffer k c1))" and "rb_buffer (the_buffer k c1) ! i = rb_buffer (the_buffer k c) ! i"
    and "dram_busy c1 = dram_busy c + owed [rb_buffer (the_buffer k c) ! i]"
    and "dram_inv c \<Longrightarrow> dram_inv c1"
proof -
  have "req_ok (rb_buffer (the_buffer k c) ! i)" if "dram_inv c"
    using inv_the_buffer [OF that, of k] assms(2) by (simp add: list_all_length)
  then show "dram_inv c \<Longrightarrow> dram_inv c1"
    by (auto simp: c1_def dram_inv_def rb_enqueue_simps)
  show "i < length (rb_buffer (the_buffer k c1))" "rb_buffer (the_buffer k c1) ! i = rb_buffer (the_buffer k c) ! i"
    "dram_busy c1 = dram_busy c + owed [rb_buffer (the_buffer k c) ! i]"
    using assms(1,2) by (cases k; simp add: c1_def has_room_def rb_enqueue_simps nth_append dram_busy_def)+
qed

lemma issue_request_busy:
  assumes issue: "issue_request env k i c = Inr (c', done)" and room: "has_room c" and inv: "dram_inv c"
    and i: "i < length (rb_buffer (the_buffer k c))"
  shows "mset done + dram_busy c' = dram_busy c \<and> dram_inv c'"
proof -
  define r where "r = rb_buffer (the_buffer k c) ! i"
  define d where "d = c\<lparr>m_dram := issue_command env (dq_command r) (dq_addr_vec r) (m_dram c)\<rparr>"
  have d: "dram_busy d = dram_busy c" "dram_inv d" "has_room d" "the_buffer k d = the_buffer k c"
    using inv room by (simp_all add: d_def has_room_def)
  have ok: "req_ok r"
    using inv_the_buffer [OF inv, of k] i by (simp add: r_def list_all_length)
  have rem: "dram_busy (put_buffer k (rb_remove i (the_buffer k x)) x) +
      (if dq_callback r then {#dq_trans r#} else {#}) = dram_busy x"
    if "i < length (rb_buffer (the_buffer k x))" "rb_buffer (the_buffer k x) ! i = r" for x :: "'a dram_ctrl"
    using remove_busy that by metis
  show ?thesis
  proof (cases "dq_command r = dq_final_command r")
    case True
    let ?p = "d\<lparr>pending_reads := pending_reads d @ [r\<lparr>dq_depart := m_clk d + read_latency env\<rparr>]\<rparr>"
    consider "dq_type_id r = Read" | "dq_type_id r \<noteq> Read" "dq_type_id r = Write" "dq_callback r"
      | "dq_type_id r \<noteq> Read" "dq_type_id r \<noteq> Write"
      using issue True by (auto simp: issue_request_def Let_def r_def [symmetric] split: if_splits)
    then show ?thesis
    proof cases
      case 1
      have "c' = put_buffer k (rb_remove i (the_buffer k ?p)) ?p" "done = []"
        using issue True 1 by (auto simp: issue_request_def Let_def r_def [symmetric] d_def)
      then show ?thesis
        using rem [of ?p] remove_inv [of ?p k i] d i
        by (simp add: r_def [symmetric] pending_busy split: if_splits)
    next
      case 2
      have "c' = put_buffer k (rb_remove i (the_buffer k d)) d" "done = [dq_trans r]"
        using issue True 2 by (auto simp: issue_request_def Let_def r_def [symmetric] d_def)
      then show ?thesis
        using rem [of d] remove_inv [of d k i] d i 2 by (simp add: r_def [symmetric])
    next
      case 3
      have "c' = put_buffer k (rb_remove i (the_buffer k d)) d" "done = []"
        using issue True 3 by (auto simp: issue_request_def Let_def r_def [symmetric] d_def)
      then show ?thesis
        using rem [of d] remove_inv [of d k i] d i 3 ok by (auto simp: r_def [symmetric] req_ok_def split: if_splits)
    qed
  next
    case False
    show ?thesis
    proof (cases "is_opening env (dq_command r)")
      case True
      have r_d: "rb_buffer (the_buffer k d) ! i = r" and i_d: "i < length (rb_buffer (the_buffer k d))"
        using d i by (simp_all add: r_def)
      note act = activate_the_buffer [OF d(3) i_d, unfolded r_d]
      let ?a = "d\<lparr>m_active_buffer := fst (rb_enqueue r (m_active_buffer d))\<rparr>"
      have "c' = put_buffer k (rb_remove i (the_buffer k ?a)) ?a" "done = []"
        using issue False True by (auto simp: issue_request_def Let_def r_def [symmetric] d_def)
      then show ?thesis
        using rem [of ?a] remove_inv [of ?a k i] act d by (simp split: if_splits)
    next
      case no: False
      then have "c' = d" "done = []"
        using issue False by (auto simp: issue_request_def Let_def r_def [symmetric] d_def)
      then show ?thesis
        using d by simp
    qed
  qed
qed

section \<open>The contract with the bridge\<close>

text \<open>Every other step of \<open>tick\<close> keeps the room in the buffer of activated requests.\<close>

lemma keeps_room: "keeps c c' \<Longrightarrow> has_room c' = has_room c"
  by (simp add: keeps_def has_room_def)

lemma keeps_refresh: "env_ok env \<Longrightarrow> keeps c (dram_refresh env c)"
  by (simp add: keeps_def dram_refresh_busy)

lemma dram_tick_conserves:
  assumes env: "env_ok env" and inv: "dram_inv c" and room: "has_room c"
    and tick: "dram_tick env c = Inr (c', done)"
  shows "dram_inv c' \<and> mset done + dram_busy c' = dram_busy c"
proof -
  obtain c1 done1 where serve: "serve_completed_reads (c\<lparr>m_clk := m_clk c + 1\<rparr>) = (c1, done1)"
    by fastforce
  have c1: "mset done1 + dram_busy c1 = dram_busy c" "dram_inv c1" "has_room c1"
    using serve_busy [OF serve] inv room by (simp_all add: has_room_def)
  obtain c2 found where sched: "schedule_request env (dram_refresh env c1) = Inr (c2, found)"
    using tick by (auto simp: dram_tick_def serve split: prod.splits)
  note s = schedule_request_ok [OF env sched]
  have "keeps c1 c2"
    using keeps_trans [OF keeps_refresh [OF env]] s by blast
  then have c2: "dram_busy c2 = dram_busy c1" "dram_inv c2" "has_room c2"
    using c1 keeps_room by (auto simp: keeps_def)
  define c3 where "c3 = c2\<lparr>m_dram := plugin_update env (found \<noteq> None)
     (map_option (\<lambda>(k, i). rb_buffer (the_buffer k c2) ! i) found) (m_dram c2)\<rparr>"
  have c3: "dram_busy c3 = dram_busy c1" "dram_inv c3" "has_room c3" "the_buffer k c3 = the_buffer k c2" for k
    using c2 by (simp_all add: c3_def has_room_def)
  show "dram_inv c' \<and> mset done + dram_busy c' = dram_busy c"
  proof (cases found)
    case None
    then have "c' = c3" "done = done1"
      using tick serve sched by (simp_all add: dram_tick_def c3_def)
    then show ?thesis
      using c1 c3 by simp
  next
    case (Some ki)
    then obtain k i where found: "found = Some (k, i)"
      by (cases ki) simp
    obtain done2 where issue: "issue_request env k i c3 = Inr (c', done2)" and "done": "done = done1 @ done2"
      using tick serve sched found by (auto simp: dram_tick_def c3_def)
    have "mset done2 + dram_busy c' = dram_busy c3 \<and> dram_inv c'"
      using issue_request_busy [OF issue c3(3,2)] s found c3(4) by simp
    then show ?thesis
      using c1 c3 "done" by (simp add: add.assoc)
  qed
qed

text \<open>
  A run of the controller: requests that are sent and ticks. \<open>None\<close> if the buffer of
  activated requests has no room at a tick. The results are the payloads of the accepted
  requests and those of the completed ones, in order.
\<close>

datatype dram_event = Dram_send dram_request | Dram_tick

fun dram_run ::
  "'d dram_env \<Rightarrow> dram_event list \<Rightarrow> 'd dram_ctrl \<Rightarrow> sim_error + ('d dram_ctrl \<times> pid list \<times> pid list) option"
where
  "dram_run env [] c = Inr (Some (c, [], []))"
| "dram_run env (Dram_send r # es) c =
     ebind (dram_send env r c) (\<lambda>(c1, r1, ok). ebind (dram_run env es c1) (\<lambda>res.
       Inr (map_option (\<lambda>(c2, acc, done). (c2, if ok then dq_trans r # acc else acc, done)) res)))"
| "dram_run env (Dram_tick # es) c =
     (if has_room c
      then ebind (dram_tick env c) (\<lambda>(c1, done1). ebind (dram_run env es c1) (\<lambda>res.
             Inr (map_option (\<lambda>(c2, acc, done). (c2, acc, done1 @ done)) res)))
      else Inr None)"

fun with_callback :: "dram_event \<Rightarrow> bool" where
  "with_callback (Dram_send r) = dq_callback r"
| "with_callback Dram_tick = True"

text \<open>
  C14. The DRAM controller keeps the contract the bridge relies on: in every run in which the
  buffer of activated requests has room at each tick, the requests it accepted and those it
  owed before are exactly those it completed, once each, and those it still owes.
\<close>

theorem dram_conserves:
  assumes "env_ok env" and "dram_inv c" and "list_all with_callback es"
    and "dram_run env es c = Inr (Some (c', acc, done))"
  shows "dram_inv c' \<and> mset done + dram_busy c' = mset acc + dram_busy c"
  using assms(2-)
proof (induction es arbitrary: c acc "done")
  case (Cons e es)
  show ?case
  proof (cases e)
    case (Dram_send r)
    then obtain c1 r1 ok acc' where send: "dram_send env r c = Inr (c1, r1, ok)"
      and run: "dram_run env es c1 = Inr (Some (c', acc', done))"
      and acc: "acc = (if ok then dq_trans r # acc' else acc')"
      using Cons.prems(3) by auto
    have "dram_inv c1" "dram_busy c1 = (if ok then add_mset (dq_trans r) (dram_busy c) else dram_busy c)"
      using dram_send_busy [OF send] Cons.prems(1,2) Dram_send by simp_all
    then show ?thesis
      using Cons.IH [OF _ _ run] Cons.prems(2) acc by simp
  next
    case Dram_tick
    then obtain c1 done1 done2 where room: "has_room c" and tick: "dram_tick env c = Inr (c1, done1)"
      and run: "dram_run env es c1 = Inr (Some (c', acc, done2))" and "done": "done = done1 @ done2"
      using Cons.prems(3) by (auto split: if_splits)
    note t = dram_tick_conserves [OF assms(1) Cons.prems(1) room tick]
    then have "mset done2 + dram_busy c' = mset acc + dram_busy c1" "dram_inv c'"
      using Cons.IH [OF _ _ run] Cons.prems(2) by simp_all
    then show ?thesis
      using t "done" by (simp add: ac_simps) (metis add.assoc add.left_commute)
  qed
qed simp

text \<open>
  A small environment: two commands per request, the first of which opens the row; the
  scheduler takes the oldest request.
\<close>

definition next_command :: "int list \<Rightarrow> dram_request \<Rightarrow> dram_request" where
  "next_command opened r =
     r\<lparr>dq_command := (if dq_addr r \<in> set opened then dq_final_command r else 5)\<rparr>"

definition small_env :: "int list dram_env" where
  "small_env =
     \<lparr>request_translations = (\<lambda>t. t + 10), check_ready = (\<lambda>d c v. True), get_preq_command = (\<lambda>d c v. c),
      issue_command = (\<lambda>c v d. d), read_latency = 2, is_opening = (\<lambda>c. c = 5), is_closing = (\<lambda>c. False),
      row_level = 0, best_request = (\<lambda>d rs. (map (next_command d) rs, 0)),
      refresh_tick = (\<lambda>d. (d, [])), plugin_update = (\<lambda>f r d. (case r of None \<Rightarrow> d | Some r \<Rightarrow> dq_addr r # d))\<rparr>"

lemma strip_next_command: "strip (next_command opened r) = strip r"
  by (cases r) (simp add: strip_def next_command_def)

lemma env_ok_small: "env_ok small_env"
  by (simp add: env_ok_def small_env_def strip_next_command)

lemma dram_inv_init: "dram_inv (dram_setup env (dram_init t low high d))"
  by (simp add: dram_inv_def dram_setup_def dram_init_def rb_new_def)

definition small_start :: "int list dram_ctrl" where
  "small_start = dram_setup small_env (dram_init 0 (1 / 5) (4 / 5) [])"

definition small_run :: "dram_event list" where
  "small_run = [Dram_send (request_trans 64 Read 0 True 7), Dram_send (request_trans 128 Write 0 True 8)] @
     replicate 5 Dram_tick"

lemma small_run_result:
  "map_sum id (map_option snd) (dram_run small_env small_run small_start) = Inr (Some ([7, 8], [7, 8]))"
  by code_simp

lemma dram_conserves_witness:
  "\<exists>c. dram_run small_env small_run small_start = Inr (Some (c, [7, 8], [7, 8])) \<and>
     mset [7, 8] + dram_busy c = mset [7, 8] + dram_busy small_start"
proof -
  obtain c where run: "dram_run small_env small_run small_start = Inr (Some (c, [7, 8], [7, 8]))"
    using small_run_result by (auto simp: map_sum_def split: sum.splits)
  have cb: "list_all with_callback small_run"
    by code_simp
  have start: "dram_inv small_start"
    by (simp add: small_start_def dram_inv_init)
  show ?thesis
    using run dram_conserves [OF env_ok_small start cb run] by simp
qed

section \<open>What goes wrong\<close>

text \<open>
  A buffer takes one request more than its maximal size, and when the buffer of activated
  requests holds 33 the next request whose row is opened is taken out of its buffer and
  put nowhere: nothing is completed for it and nothing is owed any more.
\<close>

theorem dram_full_loses_request:
  assumes full: "\<not> has_room c" and i: "i < length (rb_buffer (the_buffer k c))"
    and r: "r = rb_buffer (the_buffer k c) ! i"
    and act: "dq_command r \<noteq> dq_final_command r" "is_opening env (dq_command r)"
  shows "\<exists>c'. issue_request env k i c = Inr (c', []) \<and> dram_busy c = dram_busy c' + owed [r]"
proof -
  define d where "d = c\<lparr>m_dram := issue_command env (dq_command r) (dq_addr_vec r) (m_dram c)\<rparr>"
  have enq: "d\<lparr>m_active_buffer := fst (rb_enqueue r (m_active_buffer d))\<rparr> = d"
    using full by (simp add: d_def has_room_def rb_enqueue_def)
  have "issue_request env k i c = Inr (put_buffer k (rb_remove i (the_buffer k d)) d, [])"
    using act enq by (simp add: issue_request_def Let_def r [symmetric] d_def [symmetric])
  moreover have "dram_busy (put_buffer k (rb_remove i (the_buffer k d)) d) +
      (if dq_callback r then {#dq_trans r#} else {#}) = dram_busy d"
    by (rule remove_busy) (use i r in \<open>simp_all add: d_def\<close>)
  ultimately show ?thesis
    by (auto simp: d_def split: if_splits)
qed

definition crowded :: "int list dram_ctrl" where
  "crowded = small_start
     \<lparr>m_active_buffer := \<lparr>rb_buffer = replicate 33 (request_trans 0 Read 0 True 1), rb_max_size = 32\<rparr>,
      m_read_buffer := \<lparr>rb_buffer = [(request_trans 64 Read 0 True 9)\<lparr>dq_command := 5, dq_final_command := 10\<rparr>],
        rb_max_size = 32\<rparr>\<rparr>"

lemma dram_full_loses_request_witness:
  "\<exists>c'. issue_request small_env Reads 0 crowded = Inr (c', []) \<and> dram_busy crowded = add_mset 9 (dram_busy c')"
proof -
  let ?r = "(request_trans 64 Read 0 True 9)\<lparr>dq_command := 5, dq_final_command := 10\<rparr>"
  have "\<exists>c'. issue_request small_env Reads 0 crowded = Inr (c', []) \<and> dram_busy crowded = dram_busy c' + owed [?r]"
    by (rule dram_full_loses_request)
      (simp_all add: crowded_def has_room_def rb_size_def small_env_def request_trans_def)
  then show ?thesis
    by (simp add: request_trans_def request_blank_def)
qed

end
