(* ===== verification/Tlm_Attributes.thy ===== *)
theory Tlm_Attributes
  imports Tlm_Payload
begin

text \<open>
  The rest of the interface of a payload object (\<open>tlm_gp.h\<close>): the attributes beyond those that the
  simulator uses, and the functions that read and write each attribute; the array of extension
  slots with its cache of slots to free (\<open>tlm_array.h\<close>); and the description of a region of direct
  memory access (\<open>tlm_dmi.h\<close>), which a target fills in.
\<close>

section \<open>Attributes\<close>

datatype tlm_response_status =
    TLM_OK_RESPONSE
  | TLM_INCOMPLETE_RESPONSE
  | TLM_GENERIC_ERROR_RESPONSE
  | TLM_ADDRESS_ERROR_RESPONSE
  | TLM_COMMAND_ERROR_RESPONSE
  | TLM_BURST_ERROR_RESPONSE
  | TLM_BYTE_ENABLE_ERROR_RESPONSE

fun response_value :: "tlm_response_status \<Rightarrow> int" where
  "response_value TLM_OK_RESPONSE = 1"
| "response_value TLM_INCOMPLETE_RESPONSE = 0"
| "response_value TLM_GENERIC_ERROR_RESPONSE = -1"
| "response_value TLM_ADDRESS_ERROR_RESPONSE = -2"
| "response_value TLM_COMMAND_ERROR_RESPONSE = -3"
| "response_value TLM_BURST_ERROR_RESPONSE = -4"
| "response_value TLM_BYTE_ENABLE_ERROR_RESPONSE = -5"

datatype tlm_gp_option = TLM_MIN_PAYLOAD | TLM_FULL_PAYLOAD | TLM_FULL_PAYLOAD_ACCEPTED

record full_gp = gp +
  gp_response_status :: tlm_response_status
  gp_dmi :: bool
  gp_byte_enable :: data_ptr
  gp_byte_enable_length :: u32
  gp_streaming_width :: u32
  gp_option :: tlm_gp_option

definition get_ref_count :: "'a gp_scheme \<Rightarrow> int" where "get_ref_count g = sint (gp_ref_count g)"
definition set_mm :: "nat option \<Rightarrow> 'a gp_scheme \<Rightarrow> 'a gp_scheme" where "set_mm m g = g\<lparr>gp_mm := m\<rparr>"
definition has_mm :: "'a gp_scheme \<Rightarrow> bool" where "has_mm g \<longleftrightarrow> gp_mm g \<noteq> None"

definition is_read :: "'a gp_scheme \<Rightarrow> bool" where "is_read g \<longleftrightarrow> gp_command g = TLM_READ_COMMAND"
definition set_read :: "'a gp_scheme \<Rightarrow> 'a gp_scheme" where "set_read g = g\<lparr>gp_command := TLM_READ_COMMAND\<rparr>"
definition is_write :: "'a gp_scheme \<Rightarrow> bool" where "is_write g \<longleftrightarrow> gp_command g = TLM_WRITE_COMMAND"
definition set_write :: "'a gp_scheme \<Rightarrow> 'a gp_scheme" where "set_write g = g\<lparr>gp_command := TLM_WRITE_COMMAND\<rparr>"
definition get_command :: "'a gp_scheme \<Rightarrow> tlm_command" where "get_command = gp_command"
definition set_command :: "tlm_command \<Rightarrow> 'a gp_scheme \<Rightarrow> 'a gp_scheme" where "set_command c g = g\<lparr>gp_command := c\<rparr>"
definition get_address :: "'a gp_scheme \<Rightarrow> u64" where "get_address = gp_address"
definition set_address :: "u64 \<Rightarrow> 'a gp_scheme \<Rightarrow> 'a gp_scheme" where "set_address a g = g\<lparr>gp_address := a\<rparr>"
definition get_data_ptr :: "'a gp_scheme \<Rightarrow> data_ptr" where "get_data_ptr = gp_data"
definition set_data_ptr :: "data_ptr \<Rightarrow> 'a gp_scheme \<Rightarrow> 'a gp_scheme" where "set_data_ptr d g = g\<lparr>gp_data := d\<rparr>"
definition get_data_length :: "'a gp_scheme \<Rightarrow> u32" where "get_data_length = gp_length"
definition set_data_length :: "u32 \<Rightarrow> 'a gp_scheme \<Rightarrow> 'a gp_scheme" where "set_data_length n g = g\<lparr>gp_length := n\<rparr>"
definition get_id :: "'a gp_scheme \<Rightarrow> u32" where "get_id = gp_id"
definition set_id :: "32 word \<Rightarrow> 'a gp_scheme \<Rightarrow> 'a gp_scheme" where "set_id i g = g\<lparr>gp_id := i\<rparr>"

definition is_response_ok :: "'a full_gp_scheme \<Rightarrow> bool" where "is_response_ok g \<longleftrightarrow> response_value (gp_response_status g) > 0"
definition is_response_error :: "'a full_gp_scheme \<Rightarrow> bool" where "is_response_error g \<longleftrightarrow> response_value (gp_response_status g) \<le> 0"
definition get_response_status :: "'a full_gp_scheme \<Rightarrow> tlm_response_status" where "get_response_status = gp_response_status"
definition set_response_status :: "tlm_response_status \<Rightarrow> 'a full_gp_scheme \<Rightarrow> 'a full_gp_scheme" where "set_response_status r g = g\<lparr>gp_response_status := r\<rparr>"
definition get_streaming_width :: "'a full_gp_scheme \<Rightarrow> u32" where "get_streaming_width = gp_streaming_width"
definition set_streaming_width :: "u32 \<Rightarrow> 'a full_gp_scheme \<Rightarrow> 'a full_gp_scheme" where "set_streaming_width n g = g\<lparr>gp_streaming_width := n\<rparr>"
definition get_byte_enable_ptr :: "'a full_gp_scheme \<Rightarrow> data_ptr" where "get_byte_enable_ptr = gp_byte_enable"
definition set_byte_enable_ptr :: "data_ptr \<Rightarrow> 'a full_gp_scheme \<Rightarrow> 'a full_gp_scheme" where "set_byte_enable_ptr d g = g\<lparr>gp_byte_enable := d\<rparr>"
definition get_byte_enable_length :: "'a full_gp_scheme \<Rightarrow> u32" where "get_byte_enable_length = gp_byte_enable_length"
definition set_byte_enable_length :: "u32 \<Rightarrow> 'a full_gp_scheme \<Rightarrow> 'a full_gp_scheme" where "set_byte_enable_length n g = g\<lparr>gp_byte_enable_length := n\<rparr>"
definition set_dmi_allowed :: "bool \<Rightarrow> 'a full_gp_scheme \<Rightarrow> 'a full_gp_scheme" where "set_dmi_allowed b g = g\<lparr>gp_dmi := b\<rparr>"
definition is_dmi_allowed :: "'a full_gp_scheme \<Rightarrow> bool" where "is_dmi_allowed = gp_dmi"
definition get_gp_option :: "'a full_gp_scheme \<Rightarrow> tlm_gp_option" where "get_gp_option = gp_option"
definition set_gp_option :: "tlm_gp_option \<Rightarrow> 'a full_gp_scheme \<Rightarrow> 'a full_gp_scheme" where "set_gp_option x g = g\<lparr>gp_option := x\<rparr>"

section \<open>The array of extensions\<close>

text \<open>A slot is a pointer to an extension or null. The cache lists slots; a slot may be in it more than once.\<close>

record 'e tlm_array =
  ar_slots :: "'e option list"
  m_entries :: "nat list"

definition ar_new :: "nat \<Rightarrow> 'e tlm_array" where
  "ar_new n = \<lparr>ar_slots = replicate n None, m_entries = []\<rparr>"

definition ar_expand :: "nat \<Rightarrow> 'e tlm_array \<Rightarrow> 'e tlm_array" where
  "ar_expand n a =
     (if length (ar_slots a) < n
      then a\<lparr>ar_slots := ar_slots a @ replicate (n - length (ar_slots a)) None\<rparr> else a)"

definition insert_in_cache :: "nat \<Rightarrow> 'e tlm_array \<Rightarrow> 'e tlm_array" where
  "insert_in_cache i a = a\<lparr>m_entries := m_entries a @ [i]\<rparr>"

text \<open>The result lists the extensions whose \<open>free\<close> is called, in order.\<close>

function free_entire_cache :: "'e tlm_array \<Rightarrow> sim_error + ('e list \<times> 'e tlm_array)" where
  "free_entire_cache a =
     (if m_entries a = [] then Inr ([], a)
      else let i = last (m_entries a) in
        if i < length (ar_slots a)
        then ebind (free_entire_cache (a\<lparr>ar_slots := (ar_slots a)[i := None], m_entries := butlast (m_entries a)\<rparr>))
               (\<lambda>(es, a1). Inr (case ar_slots a ! i of Some e \<Rightarrow> e # es | None \<Rightarrow> es, a1))
        else Inl Out_of_bounds)"
  by pat_completeness auto

termination by (relation "measure (\<lambda>a. length (m_entries a))") auto

declare free_entire_cache.simps [simp del]

section \<open>Direct memory access\<close>

datatype dmi_access = DMI_ACCESS_NONE | DMI_ACCESS_READ | DMI_ACCESS_WRITE | DMI_ACCESS_READ_WRITE

fun access_bits :: "dmi_access \<Rightarrow> u32" where
  "access_bits DMI_ACCESS_NONE = 0"
| "access_bits DMI_ACCESS_READ = 1"
| "access_bits DMI_ACCESS_WRITE = 2"
| "access_bits DMI_ACCESS_READ_WRITE = 1 OR 2"

record tlm_dmi =
  dmi_ptr :: data_ptr
  dmi_start_address :: u64
  dmi_end_address :: u64
  dmi_granted :: dmi_access
  dmi_read_latency :: u64
  dmi_write_latency :: u64

definition dmi_init :: tlm_dmi where
  "dmi_init = \<lparr>dmi_ptr = Null_ptr, dmi_start_address = 0, dmi_end_address = -1, dmi_granted = DMI_ACCESS_NONE,
     dmi_read_latency = 0, dmi_write_latency = 0\<rparr>"

definition get_dmi_ptr :: "tlm_dmi \<Rightarrow> data_ptr" where "get_dmi_ptr = dmi_ptr"
definition get_start_address :: "tlm_dmi \<Rightarrow> u64" where "get_start_address = dmi_start_address"
definition get_end_address :: "tlm_dmi \<Rightarrow> u64" where "get_end_address = dmi_end_address"
definition get_read_latency :: "tlm_dmi \<Rightarrow> u64" where "get_read_latency = dmi_read_latency"
definition get_write_latency :: "tlm_dmi \<Rightarrow> u64" where "get_write_latency = dmi_write_latency"
definition get_granted_access :: "tlm_dmi \<Rightarrow> dmi_access" where "get_granted_access = dmi_granted"

definition is_none_allowed :: "tlm_dmi \<Rightarrow> bool" where
  "is_none_allowed d \<longleftrightarrow> dmi_granted d = DMI_ACCESS_NONE"
definition is_read_allowed :: "tlm_dmi \<Rightarrow> bool" where
  "is_read_allowed d \<longleftrightarrow> access_bits (dmi_granted d) AND access_bits DMI_ACCESS_READ = access_bits DMI_ACCESS_READ"
definition is_write_allowed :: "tlm_dmi \<Rightarrow> bool" where
  "is_write_allowed d \<longleftrightarrow> access_bits (dmi_granted d) AND access_bits DMI_ACCESS_WRITE = access_bits DMI_ACCESS_WRITE"
definition is_read_write_allowed :: "tlm_dmi \<Rightarrow> bool" where
  "is_read_write_allowed d \<longleftrightarrow>
     access_bits (dmi_granted d) AND access_bits DMI_ACCESS_READ_WRITE = access_bits DMI_ACCESS_READ_WRITE"

definition set_dmi_ptr :: "data_ptr \<Rightarrow> tlm_dmi \<Rightarrow> tlm_dmi" where "set_dmi_ptr p d = d\<lparr>dmi_ptr := p\<rparr>"
definition set_start_address :: "u64 \<Rightarrow> tlm_dmi \<Rightarrow> tlm_dmi" where "set_start_address a d = d\<lparr>dmi_start_address := a\<rparr>"
definition set_end_address :: "u64 \<Rightarrow> tlm_dmi \<Rightarrow> tlm_dmi" where "set_end_address a d = d\<lparr>dmi_end_address := a\<rparr>"
definition set_read_latency :: "u64 \<Rightarrow> tlm_dmi \<Rightarrow> tlm_dmi" where "set_read_latency t d = d\<lparr>dmi_read_latency := t\<rparr>"
definition set_write_latency :: "u64 \<Rightarrow> tlm_dmi \<Rightarrow> tlm_dmi" where "set_write_latency t d = d\<lparr>dmi_write_latency := t\<rparr>"
definition set_granted_access :: "dmi_access \<Rightarrow> tlm_dmi \<Rightarrow> tlm_dmi" where "set_granted_access a d = d\<lparr>dmi_granted := a\<rparr>"
definition allow_none :: "tlm_dmi \<Rightarrow> tlm_dmi" where "allow_none d = d\<lparr>dmi_granted := DMI_ACCESS_NONE\<rparr>"
definition allow_read :: "tlm_dmi \<Rightarrow> tlm_dmi" where "allow_read d = d\<lparr>dmi_granted := DMI_ACCESS_READ\<rparr>"
definition allow_write :: "tlm_dmi \<Rightarrow> tlm_dmi" where "allow_write d = d\<lparr>dmi_granted := DMI_ACCESS_WRITE\<rparr>"
definition allow_read_write :: "tlm_dmi \<Rightarrow> tlm_dmi" where "allow_read_write d = d\<lparr>dmi_granted := DMI_ACCESS_READ_WRITE\<rparr>"

section \<open>Properties\<close>

text \<open>What the region grants is what was allowed last.\<close>

lemma read_allowed_iff: "is_read_allowed d \<longleftrightarrow> dmi_granted d \<in> {DMI_ACCESS_READ, DMI_ACCESS_READ_WRITE}"
  unfolding is_read_allowed_def by (cases "dmi_granted d") simp_all

lemma write_allowed_iff: "is_write_allowed d \<longleftrightarrow> dmi_granted d \<in> {DMI_ACCESS_WRITE, DMI_ACCESS_READ_WRITE}"
  unfolding is_write_allowed_def by (cases "dmi_granted d") simp_all

lemma read_write_allowed_iff: "is_read_write_allowed d \<longleftrightarrow> is_read_allowed d \<and> is_write_allowed d"
  unfolding is_read_write_allowed_def read_allowed_iff write_allowed_iff by (cases "dmi_granted d") simp_all

text \<open>The extensions in the listed slots, each slot once, in the order of freeing.\<close>

definition cached :: "'e tlm_array \<Rightarrow> 'e list" where
  "cached a = List.map_filter (\<lambda>i. ar_slots a ! i) (rev (remdups (m_entries a)))"

lemma remdups_snoc: "remdups (xs @ [i]) = filter (\<lambda>x. x \<noteq> i) (remdups xs) @ [i]"
  by (induction xs) auto

lemma cached_cleared:
  assumes "\<forall>j\<in>set xs. j < length v"
  shows "List.map_filter (\<lambda>j. v[i := None] ! j) xs = List.map_filter (\<lambda>j. v ! j) (filter (\<lambda>j. j \<noteq> i) xs)"
  using assms by (induction xs) (auto simp: List.map_filter_simps nth_list_update split: option.split)

lemma cached_snoc:
  assumes "\<forall>j\<in>set (xs @ [i]). j < length v"
  shows "cached \<lparr>ar_slots = v, m_entries = xs @ [i]\<rparr> =
    (case v ! i of Some e \<Rightarrow> [e] | None \<Rightarrow> []) @ cached \<lparr>ar_slots = v[i := None], m_entries = xs\<rparr>"
proof -
  have "List.map_filter (\<lambda>j. v[i := None] ! j) (rev (remdups xs)) =
        List.map_filter (\<lambda>j. v ! j) (filter (\<lambda>j. j \<noteq> i) (rev (remdups xs)))"
    by (rule cached_cleared) (use assms in simp)
  then show ?thesis by (simp add: cached_def remdups_snoc rev_filter List.map_filter_simps split: option.split)
qed

lemma free_entire_cache_snoc:
  assumes "i < length v"
  shows "free_entire_cache \<lparr>ar_slots = v, m_entries = xs @ [i]\<rparr> =
    ebind (free_entire_cache \<lparr>ar_slots = v[i := None], m_entries = xs\<rparr>)
      (\<lambda>(es, a1). Inr ((case v ! i of Some e \<Rightarrow> [e] | None \<Rightarrow> []) @ es, a1))"
  by (subst free_entire_cache.simps)
    (use assms in \<open>auto simp: split_beta intro!: arg_cong2 [where f = ebind] split: option.split\<close>)

lemma free_entire_cache_all:
  "\<forall>j\<in>set xs. j < length v \<Longrightarrow>
   \<exists>v'. free_entire_cache \<lparr>ar_slots = v, m_entries = xs\<rparr> =
       Inr (cached \<lparr>ar_slots = v, m_entries = xs\<rparr>, \<lparr>ar_slots = v', m_entries = []\<rparr>) \<and>
     length v' = length v \<and> (\<forall>j<length v. v' ! j = (if j \<in> set xs then None else v ! j))"
proof (induction xs arbitrary: v rule: rev_induct)
  case Nil
  show ?case by (subst free_entire_cache.simps) (simp add: cached_def List.map_filter_simps)
next
  case (snoc i xs)
  have "\<forall>j\<in>set xs. j < length (v[i := None])" using snoc.prems by simp
  from snoc.IH [OF this] obtain v' where v':
    "free_entire_cache \<lparr>ar_slots = v[i := None], m_entries = xs\<rparr> =
       Inr (cached \<lparr>ar_slots = v[i := None], m_entries = xs\<rparr>, \<lparr>ar_slots = v', m_entries = []\<rparr>)"
    "length v' = length v"
    "\<forall>j<length v. v' ! j = (if j \<in> set xs then None else v[i := None] ! j)" by auto
  have "i < length v" using snoc.prems by simp
  then show ?case
    using v' cached_snoc [OF snoc.prems] by (auto simp: free_entire_cache_snoc nth_list_update intro!: exI [of _ v'])
qed

text \<open>
  When a payload is reset, each extension in a slot of the cache is freed once, even when its slot is
  listed twice; those slots are null afterwards, the others keep their extension, and the cache is empty.
\<close>

theorem extensions_freed_once:
  assumes "\<forall>j\<in>set (m_entries a). j < length (ar_slots a)"
  shows "\<exists>a'. free_entire_cache a = Inr (cached a, a') \<and> m_entries a' = [] \<and>
    length (ar_slots a') = length (ar_slots a) \<and>
    (\<forall>j<length (ar_slots a). ar_slots a' ! j = (if j \<in> set (m_entries a) then None else ar_slots a ! j))"
proof -
  have "a = \<lparr>ar_slots = ar_slots a, m_entries = m_entries a\<rparr>" by simp
  then show ?thesis using free_entire_cache_all [OF assms] by (metis tlm_array.select_convs)
qed

lemma extensions_freed_once_witness:
  "\<exists>a'. free_entire_cache \<lparr>ar_slots = [Some (7::nat), None, Some 8, Some 9], m_entries = [2, 0, 1, 2]\<rparr> = Inr ([8, 7], a')"
  using extensions_freed_once [of "\<lparr>ar_slots = [Some (7::nat), None, Some 8, Some 9], m_entries = [2, 0, 1, 2]\<rparr>"]
  by (auto simp: cached_def List.map_filter_simps)

end
