(* ===== verification/Multi_Socket.thy ===== *)
theory Multi_Socket
  imports Tlm_Attributes
begin

text \<open>
  The sockets that join the modules, from the repository's copy of SystemC: the port and the export
  of the kernel (\<open>sc_port.h\<close>, \<open>sc_export.h\<close>), the binding of an initiator socket to a target
  socket (\<open>tlm_initiator_socket.h\<close>, \<open>tlm_target_socket.h\<close>), and the multi sockets
  (\<open>multi_passthrough_initiator_socket.h\<close>, \<open>multi_passthrough_target_socket.h\<close>,
  \<open>multi_socket_bases.h\<close>): a binder per connection that adds the index of the connection to each
  call. Sockets are values of a type \<open>'s\<close>, callbacks values of a type \<open>'c\<close>; a pointer to an interface
  names the object that implements it. An error report throws, the default action of
  \<open>sc_report.h\<close>; a warning has no effect.
\<close>

section \<open>Interfaces, ports and exports\<close>

definition display_error :: "sim_error + 'a" where
  "display_error = Inl Exception_thrown"

text \<open>A forward interface: a binder of a multi target socket, or the interface behind the export of another target socket.\<close>

datatype 's fw_if = Fw_binder 's nat | Fw_plain 's

text \<open>A backward interface: a binder or the dummy binder of a multi initiator socket, or the export of another initiator socket.\<close>

datatype 's bw_if = Bw_binder 's nat | Bw_dummy 's | Bw_plain 's

text \<open>\<open>sc_export\<close>: the interface it is bound to.\<close>

definition export_bind :: "'a \<Rightarrow> 'a option \<Rightarrow> sim_error + 'a option" where
  "export_bind f e = (case e of Some _ \<Rightarrow> display_error | None \<Rightarrow> Inr (Some f))"

definition export_interface :: "'a option \<Rightarrow> sim_error + 'a" where
  "export_interface e = (case e of Some f \<Rightarrow> Inr f | None \<Rightarrow> display_error)"

text \<open>\<open>sc_port_b\<close>: \<open>m_interface\<close> and \<open>m_interface_vec\<close>.\<close>

record 'a port_b =
  po_first :: "'a option"
  po_vec :: "'a list"

definition port_new :: "'a port_b" where
  "port_new = \<lparr>po_first = None, po_vec = []\<rparr>"

definition port_size :: "'a port_b \<Rightarrow> nat" where
  "port_size po = length (po_vec po)"

definition add_interface :: "'a \<Rightarrow> 'a port_b \<Rightarrow> sim_error + 'a port_b" where
  "add_interface f po =
     (if f \<in> set (po_vec po) then display_error
      else let v = po_vec po @ [f] in Inr (po\<lparr>po_vec := v, po_first := Some (hd v)\<rparr>))"

definition port_arrow :: "'a port_b \<Rightarrow> sim_error + 'a" where
  "port_arrow po = (case po_first po of None \<Rightarrow> display_error | Some f \<Rightarrow> Inr f)"

definition port_get :: "int \<Rightarrow> 'a port_b \<Rightarrow> sim_error + 'a option" where
  "port_get i po =
     (if i = 0 then Inr (po_first po)
      else if i < 0 \<or> int (port_size po) \<le> i then display_error
      else Inr (Some (po_vec po ! nat i)))"

section \<open>Functors and binders\<close>

text \<open>A functor holds the callback once \<open>set_function\<close> has been called.\<close>

type_synonym 'c fn_ptr = "'c option"

definition functor_new :: "'c fn_ptr" where "functor_new = None"

definition set_function :: "'c \<Rightarrow> 'c fn_ptr \<Rightarrow> 'c fn_ptr" where "set_function cb f = Some cb"

definition is_valid :: "'c fn_ptr \<Rightarrow> bool" where "is_valid f \<longleftrightarrow> f \<noteq> None"

text \<open>
  A binder knows its number and, once \<open>set_callbacks\<close> has been called, the functors of a socket;
  the socket stands for the pointers to its functors. The port that calls a binder of a target socket:
\<close>

datatype 's caller_port = Multi_port 's | Init_port 's | Other_port

record 's bw_binder =
  bb_id :: nat
  bb_cbs :: "'s option"

record 's fw_binder =
  fb_id :: nat
  fb_cbs :: "'s option"
  fb_caller :: "'s caller_port option"

definition bw_binder_new :: "nat \<Rightarrow> 's bw_binder" where
  "bw_binder_new i = \<lparr>bb_id = i, bb_cbs = None\<rparr>"

definition fw_binder_new :: "nat \<Rightarrow> 's fw_binder" where
  "fw_binder_new i = \<lparr>fb_id = i, fb_cbs = None, fb_caller = None\<rparr>"

definition bw_set_callbacks :: "'s \<Rightarrow> 's bw_binder \<Rightarrow> 's bw_binder" where
  "bw_set_callbacks s b = b\<lparr>bb_cbs := Some s\<rparr>"

definition fw_set_callbacks :: "'s \<Rightarrow> 's fw_binder \<Rightarrow> 's fw_binder" where
  "fw_set_callbacks s b = b\<lparr>fb_cbs := Some s\<rparr>"

definition fw_register_port :: "'s caller_port \<Rightarrow> 's fw_binder \<Rightarrow> 's fw_binder" where
  "fw_register_port q b = b\<lparr>fb_caller := Some q\<rparr>"

definition get_other_side :: "'s fw_binder \<Rightarrow> 's caller_port option" where
  "get_other_side = fb_caller"

section \<open>State\<close>

record ('s, 'c) multi_init =
  mi_hierarch_bind :: "'s option"
  mi_beoe_disabled :: bool
  mi_binders :: "'s bw_binder list"
  mi_sockets :: "'s fw_if list"
  mi_used_sockets :: "'s fw_if list"
  mi_export :: "'s bw_if option"
  mi_dummy :: "'s bw_binder"
  mi_nb_f :: "'c fn_ptr"
  mi_dmi_f :: "'c fn_ptr"

record ('s, 'c) multi_target =
  mt_hierarch_bind :: "'s option"
  mt_eoe_disabled :: bool
  mt_export_callback_created :: bool
  mt_binders :: "'s fw_binder list"
  mt_multi_binds :: "nat \<rightharpoonup> 's bw_if"
  mt_sockets :: "'s bw_if list"
  mt_export :: "'s fw_if option"
  mt_nb_f :: "'c fn_ptr"
  mt_b_f :: "'c fn_ptr"
  mt_dbg_f :: "'c fn_ptr"
  mt_dmi_f :: "'c fn_ptr"

text \<open>
  All sockets, and what \<open>bind\<close> has been called with on their ports, in order: a port of an initiator
  socket is bound to forward interfaces, a port of a target socket to backward interfaces. A
  hierarchical binding gives one port to another as its parent.
\<close>

record ('s, 'c) sockets =
  inits :: "'s \<Rightarrow> ('s, 'c) multi_init"
  tgts :: "'s \<Rightarrow> ('s, 'c) multi_target"
  init_port :: "'s \<Rightarrow> 's fw_if list"
  tgt_port :: "'s \<Rightarrow> 's bw_if list"
  port_parents :: "('s \<times> 's) list"

definition mi_new :: "('s, 'c) multi_init" where
  "mi_new = \<lparr>mi_hierarch_bind = None, mi_beoe_disabled = False, mi_binders = [], mi_sockets = [],
     mi_used_sockets = [], mi_export = None, mi_dummy = bw_binder_new 42, mi_nb_f = functor_new,
     mi_dmi_f = functor_new\<rparr>"

definition mt_new :: "('s, 'c) multi_target" where
  "mt_new = \<lparr>mt_hierarch_bind = None, mt_eoe_disabled = False, mt_export_callback_created = False,
     mt_binders = [], mt_multi_binds = Map.empty, mt_sockets = [], mt_export = None,
     mt_nb_f = functor_new, mt_b_f = functor_new, mt_dbg_f = functor_new, mt_dmi_f = functor_new\<rparr>"

definition sockets_new :: "('s, 'c) sockets" where
  "sockets_new = \<lparr>inits = (\<lambda>_. mi_new), tgts = (\<lambda>_. mt_new), init_port = (\<lambda>_. []), tgt_port = (\<lambda>_. []),
     port_parents = []\<rparr>"

definition upd_init :: "'s \<Rightarrow> (('s, 'c) multi_init \<Rightarrow> ('s, 'c) multi_init) \<Rightarrow> ('s, 'c) sockets \<Rightarrow> ('s, 'c) sockets" where
  "upd_init i f w = w\<lparr>inits := (inits w)(i := f (inits w i))\<rparr>"

definition upd_tgt :: "'s \<Rightarrow> (('s, 'c) multi_target \<Rightarrow> ('s, 'c) multi_target) \<Rightarrow> ('s, 'c) sockets \<Rightarrow> ('s, 'c) sockets" where
  "upd_tgt t f w = w\<lparr>tgts := (tgts w)(t := f (tgts w t))\<rparr>"

text \<open>The two ends of the hierarchical chains; a chain that closes on itself has no end.\<close>

partial_function (option) mi_get_hierarch_bind :: "('s, 'c) sockets \<Rightarrow> 's \<Rightarrow> 's option" where
  "mi_get_hierarch_bind w i =
     (case mi_hierarch_bind (inits w i) of Some j \<Rightarrow> mi_get_hierarch_bind w j | None \<Rightarrow> Some i)"

partial_function (option) mt_get_hierarch_bind :: "('s, 'c) sockets \<Rightarrow> 's \<Rightarrow> 's option" where
  "mt_get_hierarch_bind w t =
     (case mt_hierarch_bind (tgts w t) of Some u \<Rightarrow> mt_get_hierarch_bind w u | None \<Rightarrow> Some t)"

section \<open>Registering callbacks\<close>

definition mi_register_nb_transport_bw :: "'s \<Rightarrow> 'c \<Rightarrow> ('s, 'c) sockets \<Rightarrow> ('s, 'c) sockets" where
  "mi_register_nb_transport_bw i cb =
     upd_init i (\<lambda>s. if is_valid (mi_nb_f s) then s else s\<lparr>mi_nb_f := set_function cb (mi_nb_f s)\<rparr>)"

definition mi_register_invalidate_dmi :: "'s \<Rightarrow> 'c \<Rightarrow> ('s, 'c) sockets \<Rightarrow> ('s, 'c) sockets" where
  "mi_register_invalidate_dmi i cb =
     upd_init i (\<lambda>s. if is_valid (mi_dmi_f s) then s else s\<lparr>mi_dmi_f := set_function cb (mi_dmi_f s)\<rparr>)"

definition check_export_binding :: "'s \<Rightarrow> ('s, 'c) multi_target \<Rightarrow> ('s, 'c) multi_target" where
  "check_export_binding t s =
     (if mt_export s \<noteq> None then s
      else if mt_binders s = []
      then s\<lparr>mt_binders := [fw_binder_new 0], mt_export_callback_created := True,
             mt_export := Some (Fw_binder t 0)\<rparr>
      else s\<lparr>mt_export := Some (Fw_binder t 0)\<rparr>)"

definition mt_register_nb_transport_fw :: "'s \<Rightarrow> 'c \<Rightarrow> ('s, 'c) sockets \<Rightarrow> ('s, 'c) sockets" where
  "mt_register_nb_transport_fw t cb =
     upd_tgt t (\<lambda>s0. let s = check_export_binding t s0 in
       if is_valid (mt_nb_f s) then s else s\<lparr>mt_nb_f := set_function cb (mt_nb_f s)\<rparr>)"

definition mt_register_b_transport :: "'s \<Rightarrow> 'c \<Rightarrow> ('s, 'c) sockets \<Rightarrow> ('s, 'c) sockets" where
  "mt_register_b_transport t cb =
     upd_tgt t (\<lambda>s0. let s = check_export_binding t s0 in
       if is_valid (mt_b_f s) then s else s\<lparr>mt_b_f := set_function cb (mt_b_f s)\<rparr>)"

definition mt_register_transport_dbg :: "'s \<Rightarrow> 'c \<Rightarrow> ('s, 'c) sockets \<Rightarrow> ('s, 'c) sockets" where
  "mt_register_transport_dbg t cb =
     upd_tgt t (\<lambda>s0. let s = check_export_binding t s0 in
       if is_valid (mt_dbg_f s) then s else s\<lparr>mt_dbg_f := set_function cb (mt_dbg_f s)\<rparr>)"

definition mt_register_get_direct_mem_ptr :: "'s \<Rightarrow> 'c \<Rightarrow> ('s, 'c) sockets \<Rightarrow> ('s, 'c) sockets" where
  "mt_register_get_direct_mem_ptr t cb =
     upd_tgt t (\<lambda>s0. let s = check_export_binding t s0 in
       if is_valid (mt_dmi_f s) then s else s\<lparr>mt_dmi_f := set_function cb (mt_dmi_f s)\<rparr>)"

section \<open>Binding\<close>

text \<open>The virtual functions that give a port its interface: each call makes a binder.\<close>

definition mi_get_base_interface :: "'s \<Rightarrow> ('s, 'c) sockets \<Rightarrow> ('s, 'c) sockets \<times> 's bw_if" where
  "mi_get_base_interface i w =
     (let n = length (mi_binders (inits w i)) in
      (upd_init i (\<lambda>s. s\<lparr>mi_binders := mi_binders s @ [bw_binder_new n]\<rparr>) w, Bw_binder i n))"

definition mt_get_base_interface :: "'s \<Rightarrow> ('s, 'c) sockets \<Rightarrow> sim_error + (('s, 'c) sockets \<times> 's fw_if)" where
  "mt_get_base_interface t w =
     (let s = tgts w t in
      if mt_hierarch_bind s \<noteq> None then display_error
      else let s1 = (if mt_export_callback_created s then s\<lparr>mt_export_callback_created := False\<rparr>
                     else s\<lparr>mt_binders := mt_binders s @ [fw_binder_new (length (mt_binders s))]\<rparr>)
           in Inr (upd_tgt t (\<lambda>_. s1) w, Fw_binder t (length (mt_binders s1) - 1)))"

definition get_last_binder :: "'s \<Rightarrow> 's bw_if \<Rightarrow> ('s, 'c) sockets \<Rightarrow> ('s, 'c) sockets \<times> 's fw_if" where
  "get_last_binder t other w =
     (let n = length (mt_binders (tgts w t)) - 1 in
      (upd_tgt t (\<lambda>s. s\<lparr>mt_multi_binds := (mt_multi_binds s)(n \<mapsto> other)\<rparr>) w, Fw_binder t n))"

text \<open>What a socket is bound to: a multi target socket, another target socket, or neither.\<close>

datatype 's peer = Multi 's | Plain 's | Foreign 's

definition peer_interface :: "'s peer \<Rightarrow> ('s, 'c) sockets \<Rightarrow> sim_error + (('s, 'c) sockets \<times> 's fw_if)" where
  "peer_interface p w =
     (case p of Multi t \<Rightarrow> mt_get_base_interface t w | Plain t \<Rightarrow> Inr (w, Fw_plain t) | Foreign t \<Rightarrow> Inr (w, Fw_plain t))"

fun peer_socket :: "'s peer \<Rightarrow> 's" where
  "peer_socket (Multi t) = t"
| "peer_socket (Plain t) = t"
| "peer_socket (Foreign t) = t"

text \<open>\<open>tlm_base_initiator_socket::bind\<close>: each port is bound to the interface of the other side.\<close>

definition base_bind :: "'s \<Rightarrow> 's peer \<Rightarrow> ('s, 'c) sockets \<Rightarrow> sim_error + ('s, 'c) sockets" where
  "base_bind i p w =
     ebind (peer_interface p w) (\<lambda>(w1, f).
       let w2 = w1\<lparr>init_port := (init_port w1)(i := init_port w1 i @ [f])\<rparr>;
           (w3, b) = mi_get_base_interface i w2;
           t = peer_socket p
       in Inr (w3\<lparr>tgt_port := (tgt_port w3)(t := tgt_port w3 t @ [b])\<rparr>))"

definition mi_bind :: "'s \<Rightarrow> 's peer \<Rightarrow> ('s, 'c) sockets \<Rightarrow> sim_error + ('s, 'c) sockets" where
  "mi_bind i p w =
     (if mi_hierarch_bind (inits w i) \<noteq> None then display_error
      else ebind (base_bind i p w) (\<lambda>w1.
        case p of
          Foreign t \<Rightarrow> display_error
        | Multi t \<Rightarrow>
            (case get_last_binder t (Bw_binder i (length (mi_binders (inits w1 i)) - 1)) w1 of (w2, f) \<Rightarrow>
               Inr (upd_init i (\<lambda>s. s\<lparr>mi_sockets := mi_sockets s @ [f]\<rparr>) w2))
        | Plain t \<Rightarrow> Inr (upd_init i (\<lambda>s. s\<lparr>mi_sockets := mi_sockets s @ [Fw_plain t]\<rparr>) w1)))"

text \<open>Hierarchical binding of two initiator sockets and of two target sockets.\<close>

definition mi_get_base_export :: "'s \<Rightarrow> ('s, 'c) sockets \<Rightarrow> sim_error + ('s, 'c) sockets" where
  "mi_get_base_export i w =
     (if mi_beoe_disabled (inits w i) then Inr w
      else ebind (export_bind (Bw_dummy i) (mi_export (inits w i))) (\<lambda>e. Inr (upd_init i (\<lambda>s. s\<lparr>mi_export := e\<rparr>) w)))"

definition mi_bind_hierarch :: "'s \<Rightarrow> 's \<Rightarrow> ('s, 'c) sockets \<Rightarrow> sim_error + ('s, 'c) sockets" where
  "mi_bind_hierarch i j w =
     (if mi_binders (inits w i) \<noteq> [] then display_error
      else if mi_hierarch_bind (inits w i) \<noteq> None then Inr w
      else
        let w1 = upd_init i (\<lambda>s. s\<lparr>mi_hierarch_bind := Some j\<rparr>) (upd_init j (\<lambda>s. s\<lparr>mi_beoe_disabled := True\<rparr>) w);
            w2 = w1\<lparr>port_parents := port_parents w1 @ [(i, j)]\<rparr>
        in ebind (mi_get_base_export j w2) (\<lambda>w3.
           ebind (mi_get_base_export i w3) (\<lambda>w4.
           ebind (export_interface (mi_export (inits w4 i))) (\<lambda>f.
           ebind (export_bind f (mi_export (inits w4 j))) (\<lambda>e.
             Inr (upd_init j (\<lambda>s. s\<lparr>mi_export := e\<rparr>) w4))))))"

definition mt_bind_hierarch :: "'s \<Rightarrow> 's \<Rightarrow> ('s, 'c) sockets \<Rightarrow> sim_error + ('s, 'c) sockets" where
  "mt_bind_hierarch t u w =
     (if mt_eoe_disabled (tgts w t) then Inr w
      else
        let w1 = upd_tgt u (\<lambda>s. s\<lparr>mt_hierarch_bind := Some t\<rparr>) (upd_tgt t (\<lambda>s. s\<lparr>mt_eoe_disabled := True\<rparr>) w)
        in ebind (export_interface (mt_export (tgts w1 u))) (\<lambda>f.
           ebind (export_bind f (mt_export (tgts w1 t))) (\<lambda>e.
             Inr ((upd_tgt t (\<lambda>s. s\<lparr>mt_export := e\<rparr>) w1)\<lparr>port_parents := port_parents w1 @ [(u, t)]\<rparr>))))"

section \<open>The end of elaboration\<close>

definition mi_before_end_of_elaboration :: "'s \<Rightarrow> ('s, 'c) sockets \<Rightarrow> ('s, 'c) sockets option" where
  "mi_before_end_of_elaboration i w =
     (let w1 = (if mi_export (inits w i) = None then upd_init i (\<lambda>s. s\<lparr>mi_export := Some (Bw_dummy i)\<rparr>) w else w)
      in if mi_beoe_disabled (inits w1 i) then Some w1
         else map_option
           (\<lambda>j. let w2 = upd_init i (\<lambda>s. s\<lparr>mi_used_sockets := mi_sockets (inits w1 j)\<rparr>) w1
                in upd_init j (\<lambda>s. s\<lparr>mi_binders := map (bw_set_callbacks i) (mi_binders s)\<rparr>) w2)
           (mi_get_hierarch_bind w1 i))"

text \<open>\<open>register_port\<close>, which the kernel calls for each interface that a port was bound to.\<close>

definition mt_register_port :: "'s \<Rightarrow> nat \<Rightarrow> 's caller_port \<Rightarrow> ('s, 'c) sockets \<Rightarrow> ('s, 'c) sockets" where
  "mt_register_port t k q =
     upd_tgt t (\<lambda>s. s\<lparr>mt_binders := (mt_binders s)[k := fw_register_port q (mt_binders s ! k)]\<rparr>)"

text \<open>The interface of the caller, for a connection that is not between multi sockets.\<close>

definition caller_interface :: "'s caller_port option \<Rightarrow> ('s, 'c) sockets \<Rightarrow> sim_error + (('s, 'c) sockets \<times> 's bw_if)" where
  "caller_interface q w =
     (case q of
        Some (Multi_port i) \<Rightarrow> Inr (mi_get_base_interface i w)
      | Some (Init_port i) \<Rightarrow> Inr (w, Bw_plain i)
      | _ \<Rightarrow> display_error)"

definition eoe_binder :: "'s \<Rightarrow> 's \<Rightarrow> nat \<Rightarrow> ('s, 'c) sockets \<Rightarrow> sim_error + ('s, 'c) sockets" where
  "eoe_binder t u k w =
     (let w1 = upd_tgt u (\<lambda>s. s\<lparr>mt_binders := (mt_binders s)[k := fw_set_callbacks t (mt_binders s ! k)]\<rparr>) w
      in ebind (case mt_multi_binds (tgts w1 u) k of
                  Some b \<Rightarrow> Inr (w1, b)
                | None \<Rightarrow> caller_interface (get_other_side (mt_binders (tgts w1 u) ! k)) w1)
           (\<lambda>(w2, b). Inr (upd_tgt t (\<lambda>s. s\<lparr>mt_sockets := mt_sockets s @ [b]\<rparr>) w2)))"

definition mt_end_of_elaboration :: "'s \<Rightarrow> ('s, 'c) sockets \<Rightarrow> sim_error + ('s, 'c) sockets option" where
  "mt_end_of_elaboration t w =
     (if mt_eoe_disabled (tgts w t) then Inr (Some w)
      else case mt_get_hierarch_bind w t of
        None \<Rightarrow> Inr None
      | Some u \<Rightarrow>
          (let n = length (mt_binders (tgts w u)) in
           if n = 1 \<and> mt_export_callback_created (tgts w t) \<and> mt_hierarch_bind (tgts w t) = None
           then Inr (Some w)
           else ebind (efold (eoe_binder t u) [0..<n] w) (\<lambda>w1. Inr (Some w1))))"

section \<open>Calls\<close>

definition mi_at :: "'s \<Rightarrow> nat \<Rightarrow> ('s, 'c) sockets \<Rightarrow> sim_error + 's fw_if" where
  "mi_at i k w = (let v = mi_used_sockets (inits w i) in if k < length v then Inr (v ! k) else Inl Out_of_bounds)"

definition mt_at :: "'s \<Rightarrow> nat \<Rightarrow> ('s, 'c) sockets \<Rightarrow> sim_error + 's bw_if" where
  "mt_at t k w = (let v = mt_sockets (tgts w t) in if k < length v then Inr (v ! k) else Inl Out_of_bounds)"

definition mi_size :: "'s \<Rightarrow> ('s, 'c) sockets \<Rightarrow> nat option" where
  "mi_size i w = map_option (\<lambda>j. length (mi_sockets (inits w j))) (mi_get_hierarch_bind w i)"

definition mt_size :: "'s \<Rightarrow> ('s, 'c) sockets \<Rightarrow> nat option" where
  "mt_size t w = map_option (\<lambda>u. length (mt_binders (tgts w u))) (mt_get_hierarch_bind w t)"

text \<open>Which callback a call through a binder reaches, and the index it is given.\<close>

definition fw_functor :: "(('s, 'c) multi_target \<Rightarrow> 'c fn_ptr) \<Rightarrow> 's fw_binder \<Rightarrow> ('s, 'c) sockets \<Rightarrow> ('c \<times> nat) option" where
  "fw_functor sel b w =
     (case fb_cbs b of None \<Rightarrow> None | Some s \<Rightarrow> map_option (\<lambda>cb. (cb, fb_id b)) (sel (tgts w s)))"

definition bw_functor :: "(('s, 'c) multi_init \<Rightarrow> 'c fn_ptr) \<Rightarrow> 's bw_binder \<Rightarrow> ('s, 'c) sockets \<Rightarrow> ('c \<times> nat) option" where
  "bw_functor sel b w =
     (case bb_cbs b of None \<Rightarrow> None | Some s \<Rightarrow> map_option (\<lambda>cb. (cb, bb_id b)) (sel (inits w s)))"

definition call_nb_transport_fw :: "'s fw_binder \<Rightarrow> ('s, 'c) sockets \<Rightarrow> sim_error + ('c \<times> nat)" where
  "call_nb_transport_fw b w = (case fw_functor mt_nb_f b w of Some c \<Rightarrow> Inr c | None \<Rightarrow> display_error)"

definition call_b_transport :: "'s fw_binder \<Rightarrow> ('s, 'c) sockets \<Rightarrow> sim_error + ('c \<times> nat)" where
  "call_b_transport b w = (case fw_functor mt_b_f b w of Some c \<Rightarrow> Inr c | None \<Rightarrow> display_error)"

text \<open>Without a callback the debug transport returns 0.\<close>

definition call_transport_dbg :: "'s fw_binder \<Rightarrow> ('s, 'c) sockets \<Rightarrow> ('c \<times> nat) + nat" where
  "call_transport_dbg b w = (case fw_functor mt_dbg_f b w of Some c \<Rightarrow> Inl c | None \<Rightarrow> Inr 0)"

text \<open>Without a callback no direct access is granted, to the whole range.\<close>

definition call_get_direct_mem_ptr ::
  "'s fw_binder \<Rightarrow> tlm_dmi \<Rightarrow> ('s, 'c) sockets \<Rightarrow> ('c \<times> nat) + (tlm_dmi \<times> bool)"
where
  "call_get_direct_mem_ptr b d w =
     (case fw_functor mt_dmi_f b w of
        Some c \<Rightarrow> Inl c
      | None \<Rightarrow> Inr (set_end_address (-1) (set_start_address 0 (allow_none d)), False))"

definition call_nb_transport_bw :: "'s bw_binder \<Rightarrow> ('s, 'c) sockets \<Rightarrow> sim_error + ('c \<times> nat)" where
  "call_nb_transport_bw b w = (case bw_functor mi_nb_f b w of Some c \<Rightarrow> Inr c | None \<Rightarrow> display_error)"

definition call_invalidate_dmi :: "'s bw_binder \<Rightarrow> ('s, 'c) sockets \<Rightarrow> ('c \<times> nat) option" where
  "call_invalidate_dmi b w = bw_functor mi_dmi_f b w"

end
