(* ===== verification/Simple_Target.thy ===== *)
theory Simple_Target
  imports Multi_Socket Peq
begin

text \<open>
  The socket of a memory device (\<open>simple_target_socket.h\<close>) with its queue (\<open>peq_with_get.h\<close>): it passes
  forward calls to the callback of the module, and backward calls of the module to the initiator.
  Where the module offers only the other style of transport the socket converts: a blocking call
  is queued, handed to the module by a thread, and ends when the module answers; a non-blocking
  call is handed to a thread that makes the blocking call and answers. The notifications that
  a function makes are part of its result.
\<close>

section \<open>The queue\<close>

text \<open>\<open>multimap\<close>: in order of time, and of insertion for one time.\<close>

record 'e peq_get =
  pg_scheduled :: "(u64 \<times> pid) list"
  pg_event :: 'e

text \<open>\<open>notify (t)\<close>: a notification after no time is a delta notification.\<close>

definition notify_after :: "'e event_ops \<Rightarrow> u64 \<Rightarrow> u64 \<Rightarrow> 'e \<Rightarrow> 'e" where
  "notify_after ops now t e = (if t = 0 then ev_notify_delta ops e else ev_notify_timed ops now t e)"

definition pg_notify :: "'e event_ops \<Rightarrow> u64 \<Rightarrow> pid \<Rightarrow> u64 \<Rightarrow> 'e peq_get \<Rightarrow> 'e peq_get" where
  "pg_notify ops now p t q =
     q\<lparr>pg_scheduled := time_insert (t + now, p) (pg_scheduled q), pg_event := notify_after ops now t (pg_event q)\<rparr>"

definition pg_notify_now :: "'e event_ops \<Rightarrow> u64 \<Rightarrow> pid \<Rightarrow> 'e peq_get \<Rightarrow> 'e peq_get" where
  "pg_notify_now ops now p q =
     q\<lparr>pg_scheduled := time_insert (now, p) (pg_scheduled q), pg_event := ev_notify ops (pg_event q)\<rparr>"

definition get_next_transaction :: "'e event_ops \<Rightarrow> u64 \<Rightarrow> 'e peq_get \<Rightarrow> 'e peq_get \<times> pid option" where
  "get_next_transaction ops now q =
     (case pg_scheduled q of
        [] \<Rightarrow> (q, None)
      | (t, p) # xs \<Rightarrow>
          if t \<le> now then (q\<lparr>pg_scheduled := xs\<rparr>, Some p)
          else (q\<lparr>pg_event := notify_after ops now (t - now) (pg_event q)\<rparr>, None))"

definition pg_cancel_all :: "'e event_ops \<Rightarrow> 'e peq_get \<Rightarrow> 'e peq_get" where
  "pg_cancel_all ops q = q\<lparr>pg_scheduled := [], pg_event := ev_cancel ops (pg_event q)\<rparr>"

section \<open>State\<close>

text \<open>A thread that makes a blocking call: its transaction, and whether it waits for a new one.\<close>

record process_handle =
  ph_trans :: pid
  ph_suspend :: bool

text \<open>
  \<open>st_pending\<close> gives each blocking call that waits the event it waits for; these events are numbered.
\<close>

record ('m, 'c, 'e) simple_target =
  st_mod :: "'m option"
  st_nb_transport :: "'c fn_ptr"
  st_b_transport :: "'c fn_ptr"
  st_transport_dbg :: "'c fn_ptr"
  st_get_direct_mem :: "'c fn_ptr"
  st_peq :: "'e peq_get"
  st_response_in_progress :: bool
  st_process_handle :: "process_handle list"
  st_pending :: "pid \<rightharpoonup> nat"
  st_next_event :: nat
  st_current :: "pid option"

definition st_new :: "'e \<Rightarrow> ('m, 'c, 'e) simple_target" where
  "st_new e = \<lparr>st_mod = None, st_nb_transport = None, st_b_transport = None, st_transport_dbg = None,
     st_get_direct_mem = None, st_peq = \<lparr>pg_scheduled = [], pg_event = e\<rparr>, st_response_in_progress = False,
     st_process_handle = [], st_pending = Map.empty, st_next_event = 0, st_current = None\<rparr>"

datatype st_event = End_request | End_response | End_of nat | Handle_event nat | Mm_done

text \<open>A notification: of which event, and after which time (0: in the next delta cycle, \<open>None\<close>: at once).\<close>

type_synonym notification = "st_event \<times> u64 option"

section \<open>Registering callbacks\<close>

text \<open>All callbacks belong to one module; a second callback of a kind is ignored with a warning.\<close>

definition st_set_mod :: "'m \<Rightarrow> ('m, 'c, 'e) simple_target \<Rightarrow> sim_error + ('m, 'c, 'e) simple_target" where
  "st_set_mod m s = (if st_mod s = None \<or> st_mod s = Some m then Inr (s\<lparr>st_mod := Some m\<rparr>) else Inl Assert_failed)"

definition set_nb_transport_ptr ::
  "'m \<Rightarrow> 'c \<Rightarrow> ('m, 'c, 'e) simple_target \<Rightarrow> sim_error + ('m, 'c, 'e) simple_target"
where
  "set_nb_transport_ptr m cb s =
     (if st_nb_transport s \<noteq> None then Inr s
      else ebind (st_set_mod m s) (\<lambda>s1. Inr (s1\<lparr>st_nb_transport := Some cb\<rparr>)))"

definition set_b_transport_ptr ::
  "'m \<Rightarrow> 'c \<Rightarrow> ('m, 'c, 'e) simple_target \<Rightarrow> sim_error + ('m, 'c, 'e) simple_target"
where
  "set_b_transport_ptr m cb s =
     (if st_b_transport s \<noteq> None then Inr s
      else ebind (st_set_mod m s) (\<lambda>s1. Inr (s1\<lparr>st_b_transport := Some cb\<rparr>)))"

definition set_transport_dbg_ptr ::
  "'m \<Rightarrow> 'c \<Rightarrow> ('m, 'c, 'e) simple_target \<Rightarrow> sim_error + ('m, 'c, 'e) simple_target"
where
  "set_transport_dbg_ptr m cb s =
     (if st_transport_dbg s \<noteq> None then Inr s
      else ebind (st_set_mod m s) (\<lambda>s1. Inr (s1\<lparr>st_transport_dbg := Some cb\<rparr>)))"

definition set_get_direct_mem_ptr ::
  "'m \<Rightarrow> 'c \<Rightarrow> ('m, 'c, 'e) simple_target \<Rightarrow> sim_error + ('m, 'c, 'e) simple_target"
where
  "set_get_direct_mem_ptr m cb s =
     (if st_get_direct_mem s \<noteq> None then Inr s
      else ebind (st_set_mod m s) (\<lambda>s1. Inr (s1\<lparr>st_get_direct_mem := Some cb\<rparr>)))"

text \<open>
  The functions of the socket that register a callback; \<open>elaborating\<close> is whether the
  simulation has not started, which the library checks first and reports otherwise.
\<close>

definition st_register_nb_transport_fw ::
  "bool \<Rightarrow> 'm \<Rightarrow> 'c \<Rightarrow> ('m, 'c, 'e) simple_target \<Rightarrow> sim_error + ('m, 'c, 'e) simple_target"
where
  "st_register_nb_transport_fw elaborating m cb s = (if elaborating then set_nb_transport_ptr m cb s else display_error)"

definition st_register_b_transport ::
  "bool \<Rightarrow> 'm \<Rightarrow> 'c \<Rightarrow> ('m, 'c, 'e) simple_target \<Rightarrow> sim_error + ('m, 'c, 'e) simple_target"
where
  "st_register_b_transport elaborating m cb s = (if elaborating then set_b_transport_ptr m cb s else display_error)"

definition st_register_transport_dbg ::
  "bool \<Rightarrow> 'm \<Rightarrow> 'c \<Rightarrow> ('m, 'c, 'e) simple_target \<Rightarrow> sim_error + ('m, 'c, 'e) simple_target"
where
  "st_register_transport_dbg elaborating m cb s = (if elaborating then set_transport_dbg_ptr m cb s else display_error)"

definition st_register_get_direct_mem_ptr ::
  "bool \<Rightarrow> 'm \<Rightarrow> 'c \<Rightarrow> ('m, 'c, 'e) simple_target \<Rightarrow> sim_error + ('m, 'c, 'e) simple_target"
where
  "st_register_get_direct_mem_ptr elaborating m cb s = (if elaborating then set_get_direct_mem_ptr m cb s else display_error)"

text \<open>\<open>start_of_simulation\<close>: whether the thread for blocking calls is started.\<close>

definition st_start_of_simulation :: "('m, 'c, 'e) simple_target \<Rightarrow> bool" where
  "st_start_of_simulation s \<longleftrightarrow> st_b_transport s = None \<and> st_nb_transport s \<noteq> None"

section \<open>Forward and backward calls\<close>

text \<open>A call of the module's callback, whose result is the result, or a result of the socket's own.\<close>

datatype ('c, 'r) answer = Call 'c | Return 'r

definition call_mod :: "'c \<Rightarrow> ('m, 'c, 'e) simple_target \<Rightarrow> sim_error + ('c, 'r) answer" where
  "call_mod cb s = (if st_mod s = None then Inl Assert_failed else Inr (Call cb))"

text \<open>The list of threads: the first that is suspended is used again.\<close>

fun get_handle :: "pid \<Rightarrow> process_handle list \<Rightarrow> (nat \<times> process_handle list) option" where
  "get_handle p [] = None"
| "get_handle p (h # hs) =
     (if ph_suspend h then Some (0, \<lparr>ph_trans = p, ph_suspend = False\<rparr> # hs)
      else map_option (\<lambda>(i, hs1). (Suc i, h # hs1)) (get_handle p hs))"

definition put_handle :: "process_handle \<Rightarrow> process_handle list \<Rightarrow> process_handle list" where
  "put_handle h hs = hs @ [h]"

definition st_nb_transport_fw ::
  "pid \<Rightarrow> tlm_phase \<Rightarrow> u64 \<Rightarrow> ('m, 'c, 'e) simple_target \<Rightarrow>
   sim_error + (('m, 'c, 'e) simple_target \<times> notification list \<times> ('c, tlm_sync_enum) answer)"
where
  "st_nb_transport_fw p phase t s =
     (case st_nb_transport s of
        Some cb \<Rightarrow> ebind (call_mod cb s) (\<lambda>r. Inr (s, [], r))
      | None \<Rightarrow>
          if st_b_transport s \<noteq> None
          then (if phase = BEGIN_REQ
                then (let (i, hs) = (case get_handle p (st_process_handle s) of
                            Some r \<Rightarrow> r
                          | None \<Rightarrow> (length (st_process_handle s),
                              put_handle \<lparr>ph_trans = p, ph_suspend = False\<rparr> (st_process_handle s)))
                      in Inr (s\<lparr>st_process_handle := hs\<rparr>, [(Handle_event i, Some t)], Return TLM_ACCEPTED))
                else if phase = END_RESP
                then Inr (s\<lparr>st_response_in_progress := False\<rparr>, [(End_response, Some t)], Return TLM_COMPLETED)
                else display_error)
          else display_error)"

definition st_transport_dbg_call :: "('m, 'c, 'e) simple_target \<Rightarrow> sim_error + ('c, nat) answer" where
  "st_transport_dbg_call s = (case st_transport_dbg s of Some cb \<Rightarrow> call_mod cb s | None \<Rightarrow> Inr (Return 0))"

definition st_get_direct_mem_ptr ::
  "tlm_dmi \<Rightarrow> ('m, 'c, 'e) simple_target \<Rightarrow> sim_error + ('c, tlm_dmi \<times> bool) answer"
where
  "st_get_direct_mem_ptr d s =
     (case st_get_direct_mem s of
        Some cb \<Rightarrow> call_mod cb s
      | None \<Rightarrow> Inr (Return (set_end_address (-1) (set_start_address 0 (allow_read_write d)), False)))"

text \<open>
  A backward call of the module: forwarded to the initiator, unless it concerns a blocking call that waits.
\<close>

datatype bw_answer = Forward | Bw_return tlm_sync_enum

definition st_nb_transport_bw ::
  "pid \<Rightarrow> tlm_phase \<Rightarrow> u64 \<Rightarrow> ('m, 'c, 'e) simple_target \<Rightarrow>
   sim_error + (('m, 'c, 'e) simple_target \<times> notification list \<times> bw_answer)"
where
  "st_nb_transport_bw p phase t s =
     (case st_pending s p of
        None \<Rightarrow> Inr (s, [], Forward)
      | Some e \<Rightarrow>
          if phase = END_REQ then Inr (s, [(End_request, Some 0)], Bw_return TLM_ACCEPTED)
          else if phase = BEGIN_RESP
          then Inr (s\<lparr>st_pending := (st_pending s)(p := None)\<rparr>,
                    (if st_current s = Some p then [(End_request, Some 0)] else []) @ [(End_of e, Some t)],
                    Bw_return TLM_COMPLETED)
          else display_error)"

section \<open>Blocking calls of a module that is non-blocking\<close>

text \<open>
  The calling thread: \<open>st_b_transport_call\<close> up to its first wait, \<open>st_b_end\<close> after the end event,
  \<open>st_b_done\<close> after the last reference is gone. The payload \<open>g\<close> without a memory manager gets the
  socket (number \<open>me\<close>) as its manager until then. \<open>st_free\<close> is what that manager does with the
  payload; \<open>reset\<close> stands for \<open>tlm_generic_payload::reset\<close>.
\<close>

definition st_b_transport_call ::
  "'e event_ops \<Rightarrow> nat \<Rightarrow> u64 \<Rightarrow> pid \<Rightarrow> u64 \<Rightarrow> gp \<Rightarrow> ('m, 'c, 'e) simple_target \<Rightarrow>
   sim_error + (('m, 'c, 'e) simple_target \<times> gp \<times> ('c, nat \<times> bool) answer)"
where
  "st_b_transport_call ops me now p t g s =
     (case st_b_transport s of
        Some cb \<Rightarrow> ebind (call_mod cb s) (\<lambda>r. Inr (s, g, r))
      | None \<Rightarrow>
          if st_nb_transport s \<noteq> None
          then let added = \<not> has_mm g; e = st_next_event s in
            Inr (s\<lparr>st_peq := pg_notify ops now p t (st_peq s), st_pending := (st_pending s)(p \<mapsto> e),
                   st_next_event := Suc e\<rparr>,
                 if added then (set_mm (Some me) g)\<lparr>gp_ref_count := gp_ref_count g + 1\<rparr> else g,
                 Return (e, added))
          else display_error)"

definition st_free :: "(gp \<Rightarrow> gp) \<Rightarrow> gp \<Rightarrow> gp \<times> notification list" where
  "st_free reset g = (reset g, [(Mm_done, None)])"

definition st_b_end :: "(gp \<Rightarrow> gp) \<Rightarrow> bool \<Rightarrow> gp \<Rightarrow> sim_error + (gp \<times> notification list \<times> bool)" where
  "st_b_end reset added g =
     (if \<not> added then Inr (g, [], True)
      else if \<not> has_mm g \<or> gp_ref_count g = 0 then Inl Assert_failed
      else let g1 = g\<lparr>gp_ref_count := gp_ref_count g - 1\<rparr>;
               (g2, ns) = (if gp_ref_count g1 = 0 then st_free reset g1 else (g1, []))
           in if get_ref_count g2 \<noteq> 0 then Inr (g2, ns, False) else Inr (set_mm None g2, ns, True))"

definition st_b_done :: "gp \<Rightarrow> gp" where
  "st_b_done g = set_mm None g"

text \<open>
  The thread \<open>b2nb_thread\<close>. Its waits, and the two points where it calls the module and the module
  may call back before it returns:
\<close>

datatype b2nb_pc = B_wait | B_called pid | B_end_request | B_delay | B_response pid | B_response_called pid

text \<open>The head of its loop.\<close>

definition b2nb_next ::
  "'e event_ops \<Rightarrow> u64 \<Rightarrow> ('m, 'c, 'e) simple_target \<Rightarrow> sim_error + (('m, 'c, 'e) simple_target \<times> b2nb_pc)"
where
  "b2nb_next ops now s =
     (case get_next_transaction ops now (st_peq s) of
        (q, None) \<Rightarrow> Inr (s\<lparr>st_peq := q\<rparr>, B_wait)
      | (q, Some p) \<Rightarrow>
          if st_mod s = None \<or> st_nb_transport s = None then Inl Assert_failed
          else Inr (s\<lparr>st_peq := q\<rparr>, B_called p))"

definition b2nb_finish ::
  "pid \<Rightarrow> u64 \<Rightarrow> ('m, 'c, 'e) simple_target \<Rightarrow> sim_error + (('m, 'c, 'e) simple_target \<times> notification list)"
where
  "b2nb_finish p t s =
     (case st_pending s p of
        None \<Rightarrow> Inl Assert_failed
      | Some e \<Rightarrow> Inr (s\<lparr>st_pending := (st_pending s)(p := None)\<rparr>, [(End_of e, Some t)]))"

text \<open>
  \<open>b2nb_return\<close>: the module's function has returned \<open>sync\<close>, with the phase and the time it left. The
  result is where the thread waits, for how long, or \<open>None\<close> when it goes on with its loop.
\<close>

definition b2nb_return ::
  "pid \<Rightarrow> tlm_sync_enum \<Rightarrow> tlm_phase \<Rightarrow> u64 \<Rightarrow> ('m, 'c, 'e) simple_target \<Rightarrow>
   sim_error + (('m, 'c, 'e) simple_target \<times> notification list \<times> (b2nb_pc \<times> u64) option)"
where
  "b2nb_return p sync phase t s =
     (if sync = TLM_COMPLETED then ebind (b2nb_finish p t s) (\<lambda>(s1, ns). Inr (s1, ns, None))
      else case phase of
        BEGIN_REQ \<Rightarrow> Inr (s\<lparr>st_current := Some p\<rparr>, [], Some (B_end_request, 0))
      | END_REQ \<Rightarrow> Inr (s, [], Some (B_delay, t))
      | BEGIN_RESP \<Rightarrow> Inr (s, [], Some (B_response p, t))
      | _ \<Rightarrow> display_error)"

text \<open>One turn of the thread; in \<open>B_called\<close> and \<open>B_response_called\<close> it is given what the module returns.\<close>

definition b2nb_turn ::
  "'e event_ops \<Rightarrow> u64 \<Rightarrow> tlm_sync_enum \<Rightarrow> tlm_phase \<Rightarrow> u64 \<Rightarrow> b2nb_pc \<Rightarrow> ('m, 'c, 'e) simple_target \<Rightarrow>
   sim_error + (('m, 'c, 'e) simple_target \<times> notification list \<times> b2nb_pc)"
where
  "b2nb_turn ops now sync phase t pc s =
     (let go_on = (\<lambda>s ns. ebind (b2nb_next ops now s) (\<lambda>(s1, pc1). Inr (s1, ns, pc1))) in
      case pc of
        B_wait \<Rightarrow> go_on s []
      | B_called p \<Rightarrow>
          ebind (b2nb_return p sync phase t s) (\<lambda>(s1, ns, w).
            case w of Some (pc1, d) \<Rightarrow> Inr (s1, ns, pc1) | None \<Rightarrow> go_on s1 ns)
      | B_end_request \<Rightarrow> go_on (s\<lparr>st_current := None\<rparr>) []
      | B_delay \<Rightarrow> go_on s []
      | B_response p \<Rightarrow> Inr (s, [], B_response_called p)
      | B_response_called p \<Rightarrow> ebind (b2nb_finish p t s) (\<lambda>(s1, ns). go_on s1 ns))"

section \<open>Non-blocking calls of a module that is blocking\<close>

text \<open>
  The thread \<open>nb2b_thread\<close> of the handle \<open>i\<close>: it calls the module, waits for the time the module
  gives, waits while another response is on its way, makes the backward call, and suspends itself.
\<close>

datatype nb2b_pc = N_call pid | N_delay pid | N_end_response pid | N_response pid | N_wait

definition nb2b_start :: "nat \<Rightarrow> ('m, 'c, 'e) simple_target \<Rightarrow> sim_error + nb2b_pc" where
  "nb2b_start i s = (if st_mod s = None then Inl Assert_failed else Inr (N_call (ph_trans (st_process_handle s ! i))))"

definition nb2b_try_response :: "pid \<Rightarrow> ('m, 'c, 'e) simple_target \<Rightarrow> nb2b_pc" where
  "nb2b_try_response p s = (if st_response_in_progress s then N_end_response p else N_response p)"

definition nb2b_turn ::
  "nat \<Rightarrow> tlm_sync_enum \<Rightarrow> tlm_phase \<Rightarrow> nb2b_pc \<Rightarrow> ('m, 'c, 'e) simple_target \<Rightarrow>
   sim_error + (('m, 'c, 'e) simple_target \<times> nb2b_pc)"
where
  "nb2b_turn i sync phase pc s =
     (case pc of
        N_call p \<Rightarrow> Inr (s, N_delay p)
      | N_delay p \<Rightarrow> Inr (s, nb2b_try_response p s)
      | N_end_response p \<Rightarrow> Inr (s, nb2b_try_response p s)
      | N_response p \<Rightarrow>
          let s1 = (if sync = TLM_COMPLETED \<or> sync = TLM_UPDATED \<and> phase = END_RESP then s
                    else s\<lparr>st_response_in_progress := True\<rparr>)
          in Inr (s1\<lparr>st_process_handle := (st_process_handle s1)[i := (st_process_handle s1 ! i)\<lparr>ph_suspend := True\<rparr>]\<rparr>, N_wait)
      | N_wait \<Rightarrow> ebind (nb2b_start i s) (\<lambda>pc1. Inr (s, pc1)))"

end
