(* ===== verification/Simple_Target_Props.thy ===== *)
theory Simple_Target_Props
  imports Simple_Target
begin

text \<open>
  What the conversion of blocking calls guarantees: each call is woken at most once, and waits exactly
  until then, however the calls, the turns of the thread and the answers of the module follow one another.
\<close>

section \<open>Runs\<close>

text \<open>The socket, its thread, and the events of the blocking calls that were made and that were woken.\<close>

record ('m, 'c, 'e) blocking =
  bl_sock :: "('m, 'c, 'e) simple_target"
  bl_pc :: b2nb_pc
  bl_started :: "nat list"
  bl_ended :: "nat list"

definition woken :: "notification list \<Rightarrow> nat list" where
  "woken ns = List.map_filter (\<lambda>n. case fst n of End_of e \<Rightarrow> Some e | _ \<Rightarrow> None) ns"

datatype st_ev =
    Start pid u64 u64 gp                       \<comment> \<open>a blocking call: transaction, delay, time, payload\<close>
  | Turn tlm_sync_enum tlm_phase u64 u64       \<comment> \<open>a turn of the thread: what the module returns, time\<close>
  | Backward pid tlm_phase u64                 \<comment> \<open>a backward call of the module\<close>

fun bl_step ::
  "'e event_ops \<Rightarrow> nat \<Rightarrow> st_ev \<Rightarrow> ('m, 'c, 'e) blocking \<Rightarrow> sim_error + ('m, 'c, 'e) blocking"
where
  "bl_step ops me (Start p t now g) b =
     ebind (st_b_transport_call ops me now p t g (bl_sock b)) (\<lambda>(s, g1, r).
       Inr (b\<lparr>bl_sock := s, bl_started := bl_started b @ (case r of Return (e, _) \<Rightarrow> [e] | _ \<Rightarrow> [])\<rparr>))"
| "bl_step ops me (Turn sync phase t now) b =
     ebind (b2nb_turn ops now sync phase t (bl_pc b) (bl_sock b)) (\<lambda>(s, ns, pc).
       Inr (b\<lparr>bl_sock := s, bl_pc := pc, bl_ended := bl_ended b @ woken ns\<rparr>))"
| "bl_step ops me (Backward p phase t) b =
     ebind (st_nb_transport_bw p phase t (bl_sock b)) (\<lambda>(s, ns, r).
       Inr (b\<lparr>bl_sock := s, bl_ended := bl_ended b @ woken ns\<rparr>))"

text \<open>A caller does not hand in a transaction that is still in a blocking call.\<close>

fun starts_idle :: "st_ev \<Rightarrow> ('m, 'c, 'e) blocking \<Rightarrow> bool" where
  "starts_idle (Start p t now g) b \<longleftrightarrow> st_pending (bl_sock b) p = None"
| "starts_idle _ b \<longleftrightarrow> True"

declare bl_step.simps [simp del]

primrec bl_run ::
  "'e event_ops \<Rightarrow> nat \<Rightarrow> st_ev list \<Rightarrow> ('m, 'c, 'e) blocking \<Rightarrow> sim_error + ('m, 'c, 'e) blocking"
where
  "bl_run ops me [] b = Inr b"
| "bl_run ops me (v # vs) b = ebind (bl_step ops me v b) (bl_run ops me vs)"

primrec all_starts_idle :: "'e event_ops \<Rightarrow> nat \<Rightarrow> st_ev list \<Rightarrow> ('m, 'c, 'e) blocking \<Rightarrow> bool" where
  "all_starts_idle ops me [] b \<longleftrightarrow> True"
| "all_starts_idle ops me (v # vs) b \<longleftrightarrow> starts_idle v b \<and>
     (case bl_step ops me v b of Inr b1 \<Rightarrow> all_starts_idle ops me vs b1 | Inl _ \<Rightarrow> True)"

section \<open>The invariant\<close>

definition accounted :: "('m, 'c, 'e) simple_target \<Rightarrow> nat list \<Rightarrow> nat list \<Rightarrow> bool" where
  "accounted s started ended \<longleftrightarrow>
     set started = {..<st_next_event s} \<and> distinct ended \<and>
     set started = set ended \<union> ran (st_pending s) \<and> set ended \<inter> ran (st_pending s) = {} \<and>
     inj_on (st_pending s) (dom (st_pending s))"

lemma woken_simps [simp]:
  "woken [] = []"
  "woken ((End_of e, t) # ns) = e # woken ns"
  "woken ((End_request, t) # ns) = woken ns"
  by (simp_all add: woken_def List.map_filter_simps)

lemma accounted_cong:
  "st_pending s1 = st_pending s \<Longrightarrow> st_next_event s1 = st_next_event s \<Longrightarrow>
   accounted s1 xs ys \<longleftrightarrow> accounted s xs ys"
  by (simp add: accounted_def)

lemma ran_remove:
  assumes "inj_on m (dom m)" "m p = Some e"
  shows "ran (m(p := None)) = ran m - {e}"
proof -
  have "q = p" if "m q = Some e" for q
    using assms that by (metis domI inj_onD)
  then have "q \<noteq> p \<longleftrightarrow> m q \<noteq> Some e" for q using assms(2) by blast
  then have "(\<exists>q. (m(p := None)) q = Some x) \<longleftrightarrow> (\<exists>q. m q = Some x) \<and> x \<noteq> e" for x
    using assms(2) by (metis fun_upd_apply option.inject option.distinct(1))
  then show ?thesis unfolding ran_def by blast
qed

lemma accountedD:
  assumes "accounted s xs ys"
  shows "set xs = {..<st_next_event s}" "distinct ys" "set xs = set ys \<union> ran (st_pending s)"
    "set ys \<inter> ran (st_pending s) = {}" "inj_on (st_pending s) (dom (st_pending s))"
  using assms unfolding accounted_def by blast+

lemma accounted_end:
  assumes "accounted s xs ys" "st_pending s p = Some e"
  shows "accounted (s\<lparr>st_pending := (st_pending s)(p := None)\<rparr>) xs (ys @ [e])"
proof -
  have acc: "set xs = {..<st_next_event s}" "distinct ys" "set xs = set ys \<union> ran (st_pending s)"
      "set ys \<inter> ran (st_pending s) = {}" "inj_on (st_pending s) (dom (st_pending s))"
    by (fact accountedD [OF assms(1)])+
  have ran: "ran ((st_pending s)(p := None)) = ran (st_pending s) - {e}"
    by (rule ran_remove [OF acc(5) assms(2)])
  have e: "e \<in> ran (st_pending s)" using assms(2) by (rule ranI)
  have inj: "inj_on ((st_pending s)(p := None)) (dom ((st_pending s)(p := None)))"
    using acc(5) by (auto simp: inj_on_def dom_def)
  have "distinct (ys @ [e])" using acc(2,4) e by auto
  moreover have "set xs = set (ys @ [e]) \<union> (ran (st_pending s) - {e})" using acc(3) e by auto
  moreover have "set (ys @ [e]) \<inter> (ran (st_pending s) - {e}) = {}" using acc(4) by auto
  ultimately show ?thesis unfolding accounted_def using acc(1) inj ran by simp
qed

lemma accounted_start:
  assumes "accounted s xs ys" "st_pending s p = None"
  shows "accounted (s\<lparr>st_peq := q, st_pending := (st_pending s)(p \<mapsto> st_next_event s),
           st_next_event := Suc (st_next_event s)\<rparr>) (xs @ [st_next_event s]) ys"
proof -
  have acc: "set xs = {..<st_next_event s}" "distinct ys" "set xs = set ys \<union> ran (st_pending s)"
      "set ys \<inter> ran (st_pending s) = {}" "inj_on (st_pending s) (dom (st_pending s))"
    by (fact accountedD [OF assms(1)])+
  have below: "n < st_next_event s" if "n \<in> set ys \<union> ran (st_pending s)" for n
    using that acc(1) acc(3) by (metis lessThan_iff)
  have new: "st_next_event s \<notin> ran (st_pending s)" "st_next_event s \<notin> set ys"
    using below by blast+
  have ran: "ran ((st_pending s)(p \<mapsto> st_next_event s)) = insert (st_next_event s) (ran (st_pending s))"
    using assms(2) by simp
  have inj: "inj_on ((st_pending s)(p \<mapsto> st_next_event s)) (dom ((st_pending s)(p \<mapsto> st_next_event s)))"
    using acc(5) new(1) by (auto simp: inj_on_def dom_def ran_def)
  have "set (xs @ [st_next_event s]) = {..<Suc (st_next_event s)}"
    using acc(1) by (simp add: lessThan_Suc)
  moreover have "set (xs @ [st_next_event s]) = set ys \<union> insert (st_next_event s) (ran (st_pending s))"
    using acc(3) by simp
  moreover have "set ys \<inter> insert (st_next_event s) (ran (st_pending s)) = {}" using acc(4) new(2) by auto
  ultimately show ?thesis unfolding accounted_def using acc(2) inj ran by simp
qed

lemma accounted_next:
  assumes "b2nb_next ops now s = Inr (s1, pc1)"
  shows "accounted s1 xs ys \<longleftrightarrow> accounted s xs ys"
  by (rule accounted_cong)
    (use assms in \<open>auto simp: b2nb_next_def split: prod.splits option.splits if_splits\<close>)

lemma accounted_finish:
  assumes "b2nb_finish p t s = Inr (s1, ns)" "accounted s xs ys"
  shows "accounted s1 xs (ys @ woken ns)"
  using assms accounted_end by (fastforce simp: b2nb_finish_def split: option.splits)

lemma accounted_current: "accounted (s\<lparr>st_current := c\<rparr>) xs ys \<longleftrightarrow> accounted s xs ys"
  by (rule accounted_cong) simp_all

lemma accounted_return:
  assumes "b2nb_return p sync phase t s = Inr (s1, ns, w)" "accounted s xs ys"
  shows "accounted s1 xs (ys @ woken ns)"
proof (cases "sync = TLM_COMPLETED")
  case True
  then have "b2nb_finish p t s = Inr (s1, ns)"
    using assms(1) by (auto simp: b2nb_return_def)
  then show ?thesis by (rule accounted_finish) (rule assms(2))
next
  case False
  then have "(s1 = s \<or> s1 = s\<lparr>st_current := Some p\<rparr>) \<and> ns = []"
    using assms(1) by (cases phase) (simp_all add: b2nb_return_def display_error_def)
  then show ?thesis using assms(2) by (auto simp: accounted_current)
qed

lemma accounted_turn:
  assumes "b2nb_turn ops now sync phase t pc s = Inr (s1, ns, pc1)" "accounted s xs ys"
  shows "accounted s1 xs (ys @ woken ns)"
proof (cases pc)
  case (B_called p)
  then obtain s2 ns2 w where r: "b2nb_return p sync phase t s = Inr (s2, ns2, w)"
    and rest: "(case w of Some (pc2, d) \<Rightarrow> Inr (s2, ns2, pc2)
        | None \<Rightarrow> ebind (b2nb_next ops now s2) (\<lambda>(s3, pc3). Inr (s3, ns2, pc3))) = Inr (s1, ns, pc1)"
    using assms(1) by (auto simp: b2nb_turn_def)
  have "accounted s2 xs (ys @ woken ns2)" by (rule accounted_return [OF r assms(2)])
  then show ?thesis using rest by (auto simp: accounted_next split: option.splits prod.splits)
next
  case (B_response_called p)
  then obtain s2 ns2 where r: "b2nb_finish p t s = Inr (s2, ns2)"
    and rest: "ebind (b2nb_next ops now s2) (\<lambda>(s3, pc3). Inr (s3, ns2, pc3)) = Inr (s1, ns, pc1)"
    using assms(1) by (auto simp: b2nb_turn_def)
  have "accounted s2 xs (ys @ woken ns2)" by (rule accounted_finish [OF r assms(2)])
  then show ?thesis using rest by (auto simp: accounted_next)
next
  case B_end_request
  have "accounted (s\<lparr>st_current := None\<rparr>) xs ys"
    using assms(2) by (simp add: accounted_current)
  then show ?thesis using assms(1) B_end_request by (auto simp: b2nb_turn_def accounted_next)
qed (use assms in \<open>auto simp: b2nb_turn_def accounted_next\<close>)

lemma accounted_step:
  assumes "bl_step ops me v b = Inr b1" "starts_idle v b" "accounted (bl_sock b) (bl_started b) (bl_ended b)"
  shows "accounted (bl_sock b1) (bl_started b1) (bl_ended b1)"
proof (cases v)
  case (Start p t now g)
  then show ?thesis
    using assms accounted_start [OF assms(3), of p]
    by (auto simp: bl_step.simps st_b_transport_call_def call_mod_def display_error_def Let_def split: option.splits if_splits)
next
  case (Turn sync phase t now)
  then obtain s ns pc where r: "b2nb_turn ops now sync phase t (bl_pc b) (bl_sock b) = Inr (s, ns, pc)"
    and "b1 = b\<lparr>bl_sock := s, bl_pc := pc, bl_ended := bl_ended b @ woken ns\<rparr>"
    using assms(1) by (auto simp: bl_step.simps)
  then show ?thesis using accounted_turn [OF r assms(3)] by simp
next
  case (Backward p phase t)
  then show ?thesis
    using assms accounted_end [OF assms(3), of p]
    by (auto simp: bl_step.simps st_nb_transport_bw_def display_error_def split: option.splits if_splits)
qed

lemma accounted_run:
  "bl_run ops me vs b = Inr b1 \<Longrightarrow> all_starts_idle ops me vs b \<Longrightarrow>
   accounted (bl_sock b) (bl_started b) (bl_ended b) \<Longrightarrow>
   accounted (bl_sock b1) (bl_started b1) (bl_ended b1)"
proof (induction vs arbitrary: b)
  case (Cons v vs)
  then obtain b2 where "bl_step ops me v b = Inr b2" by auto
  with Cons show ?case using accounted_step [of ops me v b b2] by auto
qed simp

lemma accounted_new: "accounted ((st_new e)\<lparr>st_mod := m, st_nb_transport := cb, st_b_transport := cb1\<rparr>) [] []"
  by (simp add: accounted_def st_new_def)

text \<open>The socket of a module that registered the callbacks \<open>nb\<close> and \<open>b\<close>, before the first call.\<close>

definition bl_start :: "'e \<Rightarrow> 'm \<Rightarrow> 'c fn_ptr \<Rightarrow> 'c fn_ptr \<Rightarrow> ('m, 'c, 'e) blocking" where
  "bl_start e m nb b =
     \<lparr>bl_sock = (st_new e)\<lparr>st_mod := Some m, st_nb_transport := nb, st_b_transport := b\<rparr>, bl_pc = B_wait,
      bl_started = [], bl_ended = []\<rparr>"

text \<open>
  C23. In every run of blocking calls, turns of the thread of the socket and backward calls of the
  module, where no transaction is handed in again before its call ended, each call is woken at
  most once; a call that was made has been woken or waits in the table of the socket, never both;
  and no two waiting transactions share an event.
\<close>

theorem blocking_calls_end_once:
  assumes "bl_run ops me vs (bl_start e m nb cb) = Inr b" "all_starts_idle ops me vs (bl_start e m nb cb)"
  shows "distinct (bl_ended b) \<and> set (bl_started b) = set (bl_ended b) \<union> ran (st_pending (bl_sock b)) \<and>
    set (bl_ended b) \<inter> ran (st_pending (bl_sock b)) = {} \<and>
    inj_on (st_pending (bl_sock b)) (dom (st_pending (bl_sock b)))"
  using accountedD(2-) [OF accounted_run [OF assms]] by (simp add: bl_start_def accounted_new)

text \<open>Two calls: the second is answered at once, the first by a backward call.\<close>

definition two_calls :: "st_ev list" where
  "two_calls =
     (let g = \<lparr>gp_address = 0, gp_command = TLM_READ_COMMAND, gp_data = Null_ptr, gp_length = 64, gp_id = 0,
              gp_mm = None, gp_ref_count = 0\<rparr>
      in [Start 5 10 100 g, Start 6 0 100 g, Turn TLM_ACCEPTED BEGIN_REQ 0 100, Turn TLM_COMPLETED BEGIN_REQ 0 100,
          Turn TLM_ACCEPTED BEGIN_REQ 0 110, Turn TLM_ACCEPTED BEGIN_REQ 0 110, Backward 5 BEGIN_RESP 3])"

lemmas bl_run_simps = two_calls_def bl_start_def st_new_def bl_step.simps st_b_transport_call_def pg_notify_def
  notify_after_def plain_event_def b2nb_turn_def b2nb_next_def b2nb_return_def b2nb_finish_def
  get_next_transaction_def st_nb_transport_bw_def has_mm_def set_mm_def time_insert_def Let_def

lemma blocking_calls_end_once_witness:
  "\<exists>b. bl_run plain_event 0 two_calls (bl_start Not_pending () (Some ()) None) = Inr b \<and>
     bl_started b = [0, 1] \<and> bl_ended b = [1, 0] \<and> distinct (bl_ended b)"
proof -
  obtain b where b: "bl_run plain_event 0 two_calls (bl_start Not_pending () (Some ()) None) = Inr b"
      "bl_started b = [0, 1]" "bl_ended b = [1, 0]"
    by (simp add: bl_run_simps)
  have "all_starts_idle plain_event 0 two_calls (bl_start Not_pending () (Some ()) None)"
    by (simp add: bl_run_simps)
  from blocking_calls_end_once [OF b(1) this] b show ?thesis by blast
qed

end
