(* ===== verification/Float32.thy ===== *)
theory Float32
  imports Complex_Main "HOL-Library.Log_Nat"
begin

text \<open>
  The arithmetic of the C type \<open>float\<close> on positive numbers, as far as the host program uses it
  to round a request up to whole packets: a result is the nearest number with a significand of
  24 bits, of two equally near ones the one with an even significand. The values that occur are
  far from the limits of the exponent.
\<close>

text \<open>The exponent: the greatest power of two that is not above a positive number.\<close>

definition flog2 :: "rat \<Rightarrow> int" where
  "flog2 x = (if 1 \<le> x then int (floorlog 2 (nat \<lfloor>x\<rfloor>)) - 1 else - int (floorlog 2 (nat (\<lceil>1 / x\<rceil> - 1))))"

definition round_even :: "rat \<Rightarrow> int" where
  "round_even x =
     (let n = \<lfloor>x\<rfloor>; r = x - of_int n in if r < 1 / 2 \<or> r = 1 / 2 \<and> even n then n else n + 1)"

definition fround :: "rat \<Rightarrow> rat" where
  "fround x =
     (if x = 0 then 0 else let u = 2 powi (flog2 x - 23) in of_int (round_even (x / u)) * u)"

lemma round_even_of_int [simp]: "round_even (of_int n) = n"
  by (simp add: round_even_def)

lemma round_even_le: "x \<le> of_int n \<Longrightarrow> round_even x \<le> n"
proof -
  assume le: "x \<le> of_int n"
  show ?thesis
  proof (cases "x = of_int n")
    case False
    with le have "\<lfloor>x\<rfloor> < n"
      by (simp add: floor_less_iff)
    then show ?thesis
      by (simp add: round_even_def Let_def)
  qed simp
qed

lemma round_even_ge: "of_int n \<le> x \<Longrightarrow> n \<le> round_even x"
proof -
  assume "of_int n \<le> x"
  then have "n \<le> \<lfloor>x\<rfloor>"
    by (simp add: le_floor_iff)
  then show ?thesis
    by (simp add: round_even_def Let_def)
qed

lemma round_even_gt:
  assumes "of_int n + 1 / 2 < x"
  shows "n < round_even x"
proof (cases "\<lfloor>x\<rfloor> = n")
  case True
  then show ?thesis
    using assms by (auto simp: round_even_def Let_def)
next
  case False
  moreover have "n \<le> \<lfloor>x\<rfloor>"
    using assms by (simp add: le_floor_iff)
  ultimately show ?thesis
    by (auto simp: round_even_def Let_def)
qed

lemma powi_less_exp: "(2::rat) powi a < 2 powi b \<Longrightarrow> a < b"
  using power_int_increasing [of b a "2::rat"] by (metis linorder_not_less one_le_numeral)

lemma flog2_bounds:
  assumes "0 < x"
  shows "2 powi flog2 x \<le> x" and "x < 2 powi (flog2 x + 1)"
proof -
  have "2 powi flog2 x \<le> x \<and> x < 2 powi (flog2 x + 1)"
  proof (cases "1 \<le> x")
    case True
    define n where "n = nat \<lfloor>x\<rfloor>"
    have n: "0 < n" "of_nat n \<le> x" "x < of_nat n + 1"
      using True floor_correct [of x] by (auto simp: n_def le_floor_iff)
    define f where "f = floorlog 2 n"
    have f: "2 ^ (f - 1) \<le> n" "n < 2 ^ f"
      using floorlog_bounds [of n 2] n(1) by (auto simp: f_def)
    have "0 < f"
      using n(1) by (simp add: f_def floorlog_def)
    then have e: "flog2 x = int (f - 1)" "flog2 x + 1 = int f"
      using True by (simp_all add: flog2_def f_def n_def)
    have "(2::rat) ^ (f - 1) \<le> of_nat n" "of_nat n + 1 \<le> (2::rat) ^ f"
      using f by (metis of_nat_le_iff of_nat_numeral of_nat_power,
          metis Suc_leI of_nat_Suc of_nat_le_iff of_nat_numeral of_nat_power add.commute)
    moreover have "(2::rat) powi flog2 x = 2 ^ (f - 1)" "(2::rat) powi (flog2 x + 1) = 2 ^ f"
      by (simp_all only: e(2)) (simp_all only: e(1) power_int_of_nat)
    ultimately show ?thesis
      using n by linarith
  next
    case False
    define n where "n = nat (\<lceil>1 / x\<rceil> - 1)"
    have y: "1 < 1 / x"
      using assms False by simp
    then have c: "2 \<le> \<lceil>1 / x\<rceil>"
      by (simp add: le_ceiling_iff)
    then have n: "0 < n" "of_nat n < 1 / x" "1 / x \<le> of_nat n + 1"
      by (auto simp: n_def) (use ceiling_correct [of "1 / x"] in linarith)+
    define f where "f = floorlog 2 n"
    have f: "2 ^ (f - 1) \<le> n" "n < 2 ^ f"
      using floorlog_bounds [of n 2] n(1) by (auto simp: f_def)
    have "0 < f"
      using n(1) by (simp add: f_def floorlog_def)
    have e: "flog2 x = - int f"
      using False by (simp add: flog2_def f_def n_def)
    have "(2::rat) ^ (f - 1) \<le> of_nat n" "of_nat n + 1 \<le> (2::rat) ^ f"
      using f by (metis of_nat_le_iff of_nat_numeral of_nat_power,
          metis Suc_leI of_nat_Suc of_nat_le_iff of_nat_numeral of_nat_power add.commute)
    then have b: "2 ^ (f - 1) < 1 / x" "1 / x \<le> 2 ^ f"
      using n by linarith+
    have p: "2 powi flog2 x = 1 / (2 ^ f :: rat)" "2 powi (flog2 x + 1) = 1 / (2 ^ (f - 1) :: rat)"
      using \<open>0 < f\<close> unfolding e
      by (cases f; simp add: power_int_def field_simps power_inverse nat_add_distrib)+
    show ?thesis
      using b assms unfolding p by (simp add: field_simps)
  qed
  then show "2 powi flog2 x \<le> x" "x < 2 powi (flog2 x + 1)" by simp_all
qed

text \<open>A number below \<open>2 ^ 24\<close> is rounded to a multiple of a unit that divides 1.\<close>

lemma fround_unit:
  assumes "0 < x" and "x < 2 ^ 24"
  obtains k where "fround x = of_int (round_even (x * 2 ^ k)) / 2 ^ k"
    and "x < 1 \<or> 2 ^ 23 \<le> x * 2 ^ k \<and> (\<exists>e. k = 23 - e \<and> e \<le> 23 \<and> 2 ^ e \<le> x)"
    and "2 ^ 23 \<le> x * 2 ^ k"
proof -
  define e where "e = flog2 x"
  have b: "2 powi e \<le> x" "x < 2 powi (e + 1)"
    using flog2_bounds [OF assms(1)] by (simp_all add: e_def)
  have "(2::rat) powi e < 2 powi 24"
    using b(1) assms(2) by simp
  then have e: "e < 24"
    by (rule powi_less_exp)
  define k where "k = nat (23 - e)"
  have k: "e - 23 = - int k"
    using e by (simp add: k_def)
  have u: "(2::rat) powi (e - 23) = 1 / 2 ^ k"
    unfolding k by (simp add: power_int_minus divide_inverse)
  have r: "fround x = of_int (round_even (x * 2 ^ k)) / 2 ^ k"
    using assms(1) by (simp add: fround_def e_def [symmetric] Let_def u)
  have "(2::rat) powi 23 = 2 powi e * 2 powi (int k)"
  proof -
    have "(23::int) = e + int k"
      using e by (simp add: k_def)
    then show ?thesis
      using power_int_add [of "2::rat" e "int k"] by simp
  qed
  then have low: "2 ^ 23 \<le> x * 2 ^ k"
    using b(1) mult_right_mono [OF b(1), of "2 ^ k"] by simp
  have "\<exists>n. k = 23 - n \<and> n \<le> 23 \<and> 2 ^ n \<le> x" if "\<not> x < 1"
  proof -
    have "(2::rat) powi 0 < 2 powi (e + 1)"
      using that b(2) by simp
    then have "0 < e + 1"
      by (rule powi_less_exp)
    then obtain n where n: "e = int n"
      using nonneg_int_cases [of e] by auto
    then show ?thesis
      using e b(1) by (intro exI [of _ n]) (simp add: k_def)
  qed
  with r low show thesis
    by (intro that [of k]) auto
qed

lemma fround_nat:
  assumes "n \<le> 2 ^ 24"
  shows "fround (of_nat n) = of_nat n"
proof (cases "n = 2 ^ 24")
  case True
  define e where "e = flog2 (2 ^ 24)"
  have "2 powi e \<le> (2 ^ 24 :: rat)" "(2 ^ 24 :: rat) < 2 powi (e + 1)"
    unfolding e_def by (rule flog2_bounds; simp)+
  then have "(2::rat) powi e < 2 powi 25" "(2::rat) powi 24 < 2 powi (e + 1)"
    by simp_all
  then have "e < 25" "24 < e + 1"
    by (metis powi_less_exp, metis powi_less_exp)
  then have "flog2 16777216 = 24"
    by (simp add: e_def)
  moreover have "round_even (8388608 :: rat) = 8388608"
    using round_even_of_int [of 8388608] by simp
  ultimately show ?thesis
    using True by (simp add: fround_def)
next
  case False
  then have "n < 2 ^ 24"
    using assms by simp
  then have lt: "(of_nat n :: rat) < 2 ^ 24"
    by (metis of_nat_less_iff of_nat_numeral of_nat_power)
  show ?thesis
  proof (cases "n = 0")
    case True
    then show ?thesis by (simp add: fround_def)
  next
    case pos: False
    then obtain k where k: "fround (of_nat n) = of_int (round_even (of_nat n * 2 ^ k)) / 2 ^ k"
      using fround_unit [of "of_nat n"] lt by auto
    have "(of_nat n * 2 ^ k :: rat) = of_int (int n * 2 ^ k)"
      by simp
    then show ?thesis
      unfolding k by (simp only: round_even_of_int) simp
  qed
qed

text \<open>The exact quotient is far enough above the integer below it.\<close>

lemma quotient_gap:
  fixes n d k e :: nat and c :: int
  assumes n: "n \<le> 2 ^ 24" and d: "0 < d" and ndvd: "\<not> d dvd n" and k: "k = 23 - e" "e \<le> 23"
    and e: "2 ^ e \<le> (of_nat n / of_nat d :: rat)" and c: "of_int c < (of_nat n / of_nat d :: rat)"
  shows "of_int (c * 2 ^ k) + 1 / 2 < (of_nat n / of_nat d :: rat) * 2 ^ k"
proof -
  have "(of_nat (d * 2 ^ e) :: rat) \<le> of_nat n"
    using e d by (simp add: le_divide_eq mult.commute)
  then have "d * 2 ^ e \<le> n"
    by (simp only: of_nat_le_iff)
  moreover have "d * 2 ^ e \<noteq> n"
    using ndvd by auto
  ultimately have "d * 2 ^ e < 2 * 2 ^ k * 2 ^ e"
    using n k by (simp add: power_add [symmetric] mult.assoc)
  then have "d < 2 * 2 ^ k"
    by simp
  then have dk: "(of_nat d :: rat) < 2 * 2 ^ k"
    by (metis of_nat_less_iff of_nat_mult of_nat_numeral of_nat_power)
  have "(of_int (c * int d) :: rat) < of_int (int n)"
    using c d by (simp add: less_divide_eq)
  then have "c * int d + 1 \<le> int n"
    by (simp only: of_int_less_iff)
  then have "(of_int (c * int d + 1) :: rat) \<le> of_int (int n)"
    by (simp only: of_int_le_iff)
  then have "of_int c + 1 / of_nat d \<le> (of_nat n / of_nat d :: rat)"
    using d divide_right_mono [of "of_int (c * int d + 1)" "of_int (int n)" "of_nat d :: rat"]
    by (simp add: add_divide_distrib)
  then have "(of_int c + 1 / of_nat d) * 2 ^ k \<le> (of_nat n / of_nat d :: rat) * 2 ^ k"
    by (rule mult_right_mono) simp
  moreover have "1 / 2 < 1 / of_nat d * (2 ^ k :: rat)"
    using dk d by (simp add: field_simps)
  ultimately show ?thesis
    unfolding distrib_right of_int_mult of_int_power of_int_numeral by linarith
qed

text \<open>
  The quotient of two numbers of at most 24 bits, rounded, lies between the same two integers
  as the exact quotient.
\<close>

lemma ceiling_fround_quotient:
  assumes "n \<le> 2 ^ 24" and "0 < d"
  shows "\<lceil>fround (of_nat n / of_nat d)\<rceil> = \<lceil>of_nat n / (of_nat d :: rat)\<rceil>"
proof (cases "d dvd n")
  case True
  then obtain m where m: "n = d * m" by blast
  have "m \<le> d * m"
    using assms(2) by simp
  then have "m \<le> 2 ^ 24"
    using assms(1) m by linarith
  moreover have "(of_nat n / of_nat d :: rat) = of_nat m"
    using assms(2) m by simp
  ultimately show ?thesis
    by (simp only: fround_nat)
next
  case False
  define x where "x = (of_nat n / of_nat d :: rat)"
  have n0: "0 < n"
    using False by (cases n) auto
  then have x0: "0 < x"
    using assms(2) by (simp add: x_def)
  have d2: "2 \<le> d"
    using False assms(2) by (cases "d = 1") auto
  have "n < 2 ^ 24 * d"
    using assms(1) d2 n0 mult_le_mono2 [OF d2, of "2 ^ 24"] by linarith
  then have "(of_nat n :: rat) < 2 ^ 24 * of_nat d"
    by (metis of_nat_less_iff of_nat_mult of_nat_numeral of_nat_power)
  then have lt: "x < 2 ^ 24"
    using assms(2) by (simp add: x_def divide_less_eq)
  obtain k where r: "fround x = of_int (round_even (x * 2 ^ k)) / 2 ^ k"
    and k: "x < 1 \<or> 2 ^ 23 \<le> x * 2 ^ k \<and> (\<exists>e. k = 23 - e \<and> e \<le> 23 \<and> 2 ^ e \<le> x)"
    and low: "2 ^ 23 \<le> x * 2 ^ k"
    by (rule fround_unit [OF x0 lt])
  define c where "c = \<lceil>x\<rceil>"
  have c: "of_int c - 1 < x" "x \<le> of_int c"
    using ceiling_correct [of x] by (simp_all add: c_def)
  have "x * 2 ^ k \<le> of_int (c * 2 ^ k)"
    using c(2) by (simp add: mult_right_mono)
  then have "round_even (x * 2 ^ k) \<le> c * 2 ^ k"
    by (rule round_even_le)
  then have "(of_int (round_even (x * 2 ^ k)) :: rat) \<le> of_int (c * 2 ^ k)"
    by (simp only: of_int_le_iff)
  then have upper: "fround x \<le> of_int c"
    unfolding r by (simp add: divide_le_eq)
  have "(c - 1) * 2 ^ k < round_even (x * 2 ^ k)"
  proof (cases "x < 1")
    case True
    then have "c = 1"
      using x0 by (simp add: c_def ceiling_eq_iff)
    moreover have "of_int (2 ^ 23) \<le> x * 2 ^ k"
      using low by simp
    then have "2 ^ 23 \<le> round_even (x * 2 ^ k)"
      by (rule round_even_ge)
    ultimately show ?thesis by simp
  next
    case big: False
    then obtain e where e: "k = 23 - e" "e \<le> 23" "2 ^ e \<le> x"
      using k by blast
    have "of_int ((c - 1) * 2 ^ k) + 1 / 2 < x * 2 ^ k"
      unfolding x_def by (rule quotient_gap [OF assms False e(1,2)]) (use e(3) c(1) in \<open>simp_all add: x_def\<close>)
    then show ?thesis
      by (rule round_even_gt)
  qed
  then have "(of_int ((c - 1) * 2 ^ k) :: rat) < of_int (round_even (x * 2 ^ k))"
    by (simp only: of_int_less_iff)
  then have lower: "of_int c - 1 < fround x"
    unfolding r by (simp add: less_divide_eq)
  show ?thesis
    using upper lower unfolding x_def [symmetric] c_def [symmetric] by (simp add: ceiling_unique)
qed

end
