(* ===== verification/Host_Trace.thy ===== *)
theory Host_Trace
  imports Shmem Float32
begin

text \<open>
  The host program: reading the trace (\<open>host/main.cpp\<close>), and turning each line of it into
  packets of the packet size (\<open>host/traceGenerator.cpp\<close>). Streams are strings, a file is the
  list of its lines; an exception of the C++ library that nothing catches is
  \<open>Exception_thrown\<close>. Requests are the packets that \<open>packetManager\<close> builds, in the order in
  which they are sent; the data a read waits for is an argument, the packets that arrive.
\<close>

section \<open>Reading numbers and fields\<close>

text \<open>\<open>getline (iss, s, c)\<close>: the field, and what is left of the stream after the delimiter.\<close>

definition getline_field :: "char \<Rightarrow> string \<Rightarrow> string \<times> string" where
  "getline_field c s = (takeWhile (\<lambda>x. x \<noteq> c) s, drop 1 (dropWhile (\<lambda>x. x \<noteq> c) s))"

definition is_digit :: "char \<Rightarrow> bool" where
  "is_digit c \<longleftrightarrow> 48 \<le> (of_char c :: nat) \<and> (of_char c :: nat) \<le> 57"

definition digit_value :: "char \<Rightarrow> nat" where
  "digit_value c = of_char c - 48"

definition is_space :: "char \<Rightarrow> bool" where
  "is_space c \<longleftrightarrow> (of_char c :: nat) = 32 \<or> 9 \<le> (of_char c :: nat) \<and> (of_char c :: nat) \<le> 13"

definition read_nat :: "string \<Rightarrow> nat" where
  "read_nat s = foldl (\<lambda>n c. 10 * n + digit_value c) 0 s"

text \<open>
  \<open>stoul\<close>: white space, a sign, digits; no digits and a value above 64 bits raise an exception,
  a minus sign negates in 64 bits.
\<close>

definition stoul :: "string \<Rightarrow> sim_error + u64" where
  "stoul s =
     (let s1 = dropWhile is_space s;
          (neg, s2) = (case s1 of [] \<Rightarrow> (False, [])
            | c # cs \<Rightarrow> if c = CHR ''-'' then (True, cs) else if c = CHR ''+'' then (False, cs) else (False, s1));
          ds = takeWhile is_digit s2
      in if ds = [] \<or> 2 ^ 64 \<le> read_nat ds then Inl Exception_thrown
         else Inr (if neg then - of_nat (read_nat ds) else of_nat (read_nat ds)))"

section \<open>Reading the trace\<close>

text \<open>A line of the trace: operation, address, size and data, separated by colons.\<close>

type_synonym trace_line = "string \<times> u32 \<times> u32 \<times> string"

definition parse_line :: "string \<Rightarrow> sim_error + trace_line" where
  "parse_line line =
     (let (api, r1) = getline_field (CHR '':'') line;
          (address, r2) = getline_field (CHR '':'') r1;
          (sz, dat) = getline_field (CHR '':'') r2
      in ebind (stoul address) (\<lambda>a. ebind (stoul sz) (\<lambda>n. Inr (api, ucast a, ucast n, dat))))"

fun parse_trace :: "string list \<Rightarrow> sim_error + trace_line list" where
  "parse_trace [] = Inr []"
| "parse_trace (l # ls) = ebind (parse_line l) (\<lambda>t. ebind (parse_trace ls) (\<lambda>ts. Inr (t # ts)))"

fun parse_delta_trace :: "string list \<Rightarrow> sim_error + u64 list" where
  "parse_delta_trace [] = Inr []"
| "parse_delta_trace (l # ls) = ebind (stoul l) (\<lambda>d. ebind (parse_delta_trace ls) (\<lambda>ds. Inr (d # ds)))"

text \<open>
  \<open>get_packet_size\<close>: the first place of the configuration file that matches
  \<open>"packet_size"\<close>, a colon and digits, with white space around the colon. \<open>None\<close>: the file does not open.
\<close>

definition packet_size_key :: string where
  "packet_size_key = CHR 0x22 # ''packet_size'' @ [CHR 0x22]"

definition match_packet_size :: "string \<Rightarrow> string option" where
  "match_packet_size s =
     (if take (length packet_size_key) s = packet_size_key
      then (case dropWhile is_space (drop (length packet_size_key) s) of
              c # cs \<Rightarrow>
                (if c = CHR '':'' \<and> takeWhile is_digit (dropWhile is_space cs) \<noteq> []
                 then Some (takeWhile is_digit (dropWhile is_space cs)) else None)
            | [] \<Rightarrow> None)
      else None)"

fun regex_search :: "string \<Rightarrow> string option" where
  "regex_search [] = None"
| "regex_search (c # cs) = (case match_packet_size (c # cs) of Some m \<Rightarrow> Some m | None \<Rightarrow> regex_search cs)"

definition get_packet_size :: "string option \<Rightarrow> sim_error + u32" where
  "get_packet_size file =
     (case file of
        None \<Rightarrow> Inr 1
      | Some json \<Rightarrow>
          (case regex_search json of
             None \<Rightarrow> Inr 1
           | Some ds \<Rightarrow> if read_nat ds < 2 ^ 31 then Inr (of_nat (read_nat ds)) else Inl Exception_thrown))"

section \<open>Requests\<close>

text \<open>
  \<open>size = ceil (float (size) / packet_size) * packet_size\<close>. A division by zero gives an
  infinity or no number, whose conversion is undefined, as is that of a value above 32 bits.
\<close>

definition whole_packets :: "u32 \<Rightarrow> u32 \<Rightarrow> sim_error + u32" where
  "whole_packets ps sz =
     (if ps = 0 then Inl Int_overflow
      else let p = fround (of_nat (unat ps));
               r = fround (of_int \<lceil>fround (fround (of_nat (unat sz)) / p)\<rceil> * p)
           in if r < 2 ^ 32 then Inr (of_int \<lfloor>r\<rfloor>) else Inl Int_overflow)"

text \<open>Whether an \<open>int\<close>, kept as its 32 bits, is positive.\<close>

definition int_pos :: "u32 \<Rightarrow> bool" where
  "int_pos i \<longleftrightarrow> i \<noteq> 0 \<and> unat i < 2 ^ 31"

text \<open>What the loops of \<open>trcWrite\<close> and \<open>trcRead\<close> count down.\<close>

definition loop_measure :: "u32 \<Rightarrow> u32 \<Rightarrow> nat" where
  "loop_measure ps i =
     (if int_pos i then (if unat ps < 2 ^ 31 then unat i else 2 ^ 31 - unat i) + 1 else 0)"

lemma loop_measure_less:
  assumes "int_pos i" and "ps \<noteq> 0"
  shows "loop_measure ps (i - ps) < loop_measure ps i"
proof (cases "int_pos (i - ps)")
  case True
  have p: "0 < unat ps"
    using assms(2) by (simp add: unat_gt_0)
  have i: "unat i < 2 ^ 31"
    using assms(1) by (simp add: int_pos_def)
  have pb: "unat ps < 2 ^ LENGTH(32)"
    by (rule unsigned_less)
  show ?thesis
  proof (cases "ps \<le> i")
    case le: True
    then have "unat (i - ps) = unat i - unat ps" "unat ps \<le> unat i"
      by (simp_all add: unat_sub word_le_nat_alt)
    then show ?thesis
      using True assms(1) p i by (simp add: loop_measure_def)
  next
    case False
    then have lt: "unat i < unat ps"
      by (simp add: word_le_nat_alt)
    have "unat (i - ps) = 2 ^ 32 + unat i - unat ps"
      using lt unat_sub_if' [of i ps] by (simp add: False)
    moreover have "unat (i - ps) < 2 ^ 31"
      using True by (simp add: int_pos_def)
    ultimately show ?thesis
      using True assms(1) p pb i lt by (auto simp: loop_measure_def)
  qed
qed (use assms in \<open>simp add: loop_measure_def\<close>)

text \<open>The packets that \<open>trcWrite\<close> sends, in order; \<open>i\<close> is the variable of the loop.\<close>

function trc_write_loop ::
  "u32 \<Rightarrow> u32 \<Rightarrow> byte list \<Rightarrow> u32 \<Rightarrow> u32 \<Rightarrow> u64 \<Rightarrow> nat \<Rightarrow> u32 \<Rightarrow> sim_error + packet list"
where
  "trc_write_loop ps address dat sz device delta j i =
     (if int_pos i \<and> ps \<noteq> 0
      then let delta1 = (if 0 < j then 0 else delta) in
        ebind (pm_makePacket ps packet_write (address + of_nat (j * unat ps)) (Some (drop (j * unat ps) dat)) sz
                 device delta1) (\<lambda>p.
        ebind (trc_write_loop ps address dat sz device delta1 (Suc j) (i - ps)) (\<lambda>qs. Inr (p # qs)))
      else Inr [])"
  by pat_completeness auto
termination
  by (relation "measure (\<lambda>(ps, address, dat, sz, device, delta, j, i). loop_measure ps i)")
    (simp_all add: loop_measure_less)

definition trcWrite ::
  "u32 \<Rightarrow> u32 \<Rightarrow> byte list \<Rightarrow> u32 \<Rightarrow> u32 \<Rightarrow> u64 \<Rightarrow> sim_error + packet list"
where
  "trcWrite ps address dat sz device delta =
     ebind (whole_packets ps sz) (\<lambda>n. trc_write_loop ps address dat n device delta 0 n)"

text \<open>
  \<open>trcRead\<close> sends a request and waits for the packet with the data, again and again. Given the
  packets that arrive, the result is what it sends and, unless it waits for ever, the data
  and the packets that are left.
\<close>

function trc_read_loop ::
  "u32 \<Rightarrow> u32 \<Rightarrow> byte list \<Rightarrow> u32 \<Rightarrow> u32 \<Rightarrow> u64 \<Rightarrow> nat \<Rightarrow> u32 \<Rightarrow> packet list \<Rightarrow>
   sim_error + (packet list \<times> (byte list \<times> packet list) option)"
where
  "trc_read_loop ps address dat sz device delta j i arriving =
     (if int_pos i \<and> ps \<noteq> 0
      then let delta1 = (if 0 < j then 0 else delta) in
        ebind (pm_makePacket ps packet_read (address + of_nat (j * unat ps)) None sz device delta1) (\<lambda>p.
        case arriving of
          [] \<Rightarrow> Inr ([p], None)
        | r # rs \<Rightarrow>
            ebind (memcpy (replicate (unat ps) 0) 0 (p_data r) 0 (unat ps)) (\<lambda>read_data.
            ebind (memcpy dat (j * unat ps) read_data 0 (unat ps)) (\<lambda>dat1.
            ebind (trc_read_loop ps address dat1 sz device delta1 (Suc j) (i - ps) rs) (\<lambda>(qs, res).
              Inr (p # qs, res)))))
      else Inr ([], Some (dat, arriving)))"
  by pat_completeness auto
termination
  by (relation "measure (\<lambda>(ps, address, dat, sz, device, delta, j, i, arriving). loop_measure ps i)")
    (simp_all add: loop_measure_less)

definition trcRead ::
  "u32 \<Rightarrow> u32 \<Rightarrow> byte list \<Rightarrow> u32 \<Rightarrow> u32 \<Rightarrow> u64 \<Rightarrow> packet list \<Rightarrow>
   sim_error + (packet list \<times> (byte list \<times> packet list) option)"
where
  "trcRead ps address dat sz device delta arriving =
     ebind (whole_packets ps sz) (\<lambda>n. trc_read_loop ps address dat n device delta 0 n arriving)"

definition trcSignal :: "u32 \<Rightarrow> u32 \<Rightarrow> sim_error + packet" where
  "trcSignal ps signalID = pm_makePacket ps packet_bar_signal signalID None 0 0 0"

definition trcWait :: "u32 \<Rightarrow> u32 \<Rightarrow> sim_error + packet" where
  "trcWait ps waitID = pm_makePacket ps packet_bar_wait waitID None 0 0 0"

definition trcTerminate :: "u32 \<Rightarrow> u64 \<Rightarrow> sim_error + packet" where
  "trcTerminate ps delta = pm_makePacket ps packet_terminated 0 None 0 0 delta"

declare trc_write_loop.simps [simp del] trc_read_loop.simps [simp del]

section \<open>The main loop\<close>

text \<open>The array that a write sends: \<open>uint_array[i] = i\<close> for \<open>i < (int) size\<close>.\<close>

definition write_array :: "u32 \<Rightarrow> byte list \<Rightarrow> byte list" where
  "write_array sz garbage =
     (if unat sz < 2 ^ 31 then map of_nat [0..<unat sz] else garbage)"

text \<open>
  One turn of the loop of \<open>host\<close>, given the delay of the line and what arrives; the array of
  \<open>size\<close> bytes that a read fills starts uninitialised.
\<close>

definition host_line ::
  "u32 \<Rightarrow> (u32 \<Rightarrow> byte list) \<Rightarrow> trace_line \<Rightarrow> u64 \<Rightarrow> packet list \<Rightarrow>
   sim_error + (packet list \<times> (byte list \<times> packet list) option)"
where
  "host_line ps garbage t delta arriving =
     (case t of (api, address, sz, dat) \<Rightarrow>
        if api = ''W''
        then ebind (trcWrite ps address (write_array sz (garbage sz)) sz 0 delta) (\<lambda>qs. Inr (qs, Some ([], arriving)))
        else if api = ''R'' then trcRead ps address (garbage sz) sz 0 delta arriving
        else ebind (trcTerminate ps delta) (\<lambda>q. Inr ([q], Some ([], arriving))))"

fun host_loop ::
  "u32 \<Rightarrow> (u32 \<Rightarrow> byte list) \<Rightarrow> trace_line list \<Rightarrow> u64 list \<Rightarrow> packet list \<Rightarrow> sim_error + (packet list \<times> bool)"
where
  "host_loop ps garbage [] deltas arriving = Inr ([], True)"
| "host_loop ps garbage (t # ts) [] arriving = Inl Out_of_bounds"
| "host_loop ps garbage (t # ts) (d # ds) arriving =
     ebind (host_line ps garbage t d arriving) (\<lambda>(qs, res).
       case res of
         None \<Rightarrow> Inr (qs, False)
       | Some (dat, rest) \<Rightarrow> ebind (host_loop ps garbage ts ds rest) (\<lambda>(qs1, fin). Inr (qs @ qs1, fin)))"

definition host_main ::
  "string option \<Rightarrow> (u32 \<Rightarrow> byte list) \<Rightarrow> string list \<Rightarrow> string list \<Rightarrow> packet list \<Rightarrow> sim_error + (packet list \<times> bool)"
where
  "host_main config garbage trace_file delta_file arriving =
     ebind (get_packet_size config) (\<lambda>ps.
     ebind (parse_trace trace_file) (\<lambda>tr.
     ebind (parse_delta_trace delta_file) (\<lambda>ds. host_loop ps garbage tr ds arriving)))"

end
