(* ===== verification/Configuration.thy ===== *)
theory Configuration
  imports Host_Trace
begin

text \<open>
  The configuration of the simulator (\<open>backplane/utilities/configurations\<close>): the values it
  takes from \<open>system.json\<close> and \<open>memory.json\<close> and those it derives. The JSON library is a parameter, a
  record of the accessors that the code uses on values of a type \<open>'v\<close>; a conversion that the
  library refuses raises an exception. A \<open>double\<close> is a rational number, its operations round to
  53 bits.
\<close>

section \<open>Doubles and JSON values\<close>

definition dround :: "rat \<Rightarrow> rat" where
  "dround x = (if x = 0 then 0 else let u = 2 powi (flog2 x - 52) in of_int (round_even (x / u)) * u)"

record 'v json_ops =
  json_member :: "'v \<Rightarrow> string \<Rightarrow> 'v"
  as_uint :: "'v \<Rightarrow> sim_error + u32"
  as_double :: "'v \<Rightarrow> sim_error + rat"
  as_string :: "'v \<Rightarrow> sim_error + string"

fun to_string :: "nat \<Rightarrow> string" where
  "to_string n = (if n < 10 then [char_of (48 + n)] else to_string (n div 10) @ [char_of (48 + n mod 10)])"

declare to_string.simps [simp del]

text \<open>
  \<open>stream >> hex >> n\<close>: white space, an optional \<open>0x\<close>, hexadecimal digits; without digits the value
  is 0, above 64 bits the greatest value.
\<close>

definition hex_value :: "char \<Rightarrow> nat option" where
  "hex_value c =
     (let n = of_char c :: nat in
      if 48 \<le> n \<and> n \<le> 57 then Some (n - 48)
      else if 97 \<le> n \<and> n \<le> 102 then Some (n - 87)
      else if 65 \<le> n \<and> n \<le> 70 then Some (n - 55) else None)"

definition read_hex :: "string \<Rightarrow> u64" where
  "read_hex s =
     (let s1 = dropWhile is_space s;
          s2 = (if take 2 s1 = ''0x'' \<or> take 2 s1 = ''0X'' then drop 2 s1 else s1);
          ds = takeWhile (\<lambda>c. hex_value c \<noteq> None) s2;
          n = foldl (\<lambda>n c. 16 * n + the (hex_value c)) 0 ds
      in if 2 ^ 64 \<le> n then - 1 else of_nat n)"

section \<open>State\<close>

record dram_info =
  di_type :: string
  di_size :: u64
  di_freq :: rat

text \<open>The period of a frequency 0 is an infinity: \<open>None\<close>.\<close>

record cpu_info =
  ci_simul_freq :: rat
  ci_period :: "rat option"
  ci_cpu_latency :: u32

record config =
  cf_flit_mode :: u32
  cf_flit_size :: u32
  cf_packet_size :: u32
  cf_dram_req_size :: u32
  cf_port_latency :: u32
  cf_link_latency :: u32
  cf_dev_ic_latency :: u32
  cf_host_num :: u32
  cf_dram_num :: u32
  cf_link_efficiency :: rat
  cf_raw_bandwidth :: rat
  cf_link_bandwidth :: rat
  cf_dram_map :: "nat \<rightharpoonup> dram_info"
  cf_cpu_map :: "nat \<rightharpoonup> cpu_info"

section \<open>Reading the configuration\<close>

text \<open>\<open>ceil (flit_size / link_bandwidth)\<close> as a \<open>uint32_t\<close>; undefined for an infinity or a value that does not fit.\<close>

definition derive_link_latency :: "u32 \<Rightarrow> rat \<Rightarrow> sim_error + u32" where
  "derive_link_latency flit bandwidth =
     (if bandwidth = 0 then Inl Int_overflow
      else let n = \<lceil>dround (of_nat (unat flit) / bandwidth)\<rceil>
           in if 0 \<le> n \<and> n < 2 ^ 32 then Inr (of_int n) else Inl Int_overflow)"

text \<open>What one turn of the loop over the memories reads: the memory, and the request size.\<close>

definition dram_read :: "'v json_ops \<Rightarrow> 'v \<Rightarrow> nat \<Rightarrow> sim_error + (dram_info \<times> u32)" where
  "dram_read js jroot i =
     (let dram = json_member js jroot (''dram'' @ to_string i) in
      ebind (as_string js (json_member js dram ''config'')) (\<lambda>type.
      ebind (as_string js (json_member js dram ''size'')) (\<lambda>sz.
      ebind (as_uint js (json_member js jroot ''req_size'')) (\<lambda>req.
      ebind (as_double js (json_member js dram ''freq'')) (\<lambda>freq.
        Inr (\<lparr>di_type = type, di_size = read_hex sz, di_freq = freq\<rparr>, req))))))"

definition init_dram_one :: "'v json_ops \<Rightarrow> 'v \<Rightarrow> nat \<Rightarrow> config \<Rightarrow> sim_error + config" where
  "init_dram_one js jroot i cf =
     ebind (dram_read js jroot i) (\<lambda>(info, req).
     ebind (derive_link_latency (cf_flit_size cf) (cf_link_bandwidth cf)) (\<lambda>lat.
       Inr (cf\<lparr>cf_dram_req_size := req, cf_link_latency := lat, cf_dram_map := (cf_dram_map cf)(i \<mapsto> info)\<rparr>)))"

definition init_dram :: "'v json_ops \<Rightarrow> 'v option \<Rightarrow> config \<Rightarrow> sim_error + config" where
  "init_dram js file cf =
     (case file of
        None \<Rightarrow> Inl Exception_thrown
      | Some jroot \<Rightarrow>
          ebind (as_uint js (json_member js jroot ''dram_num'')) (\<lambda>n.
            efold (init_dram_one js jroot) [0..<unat n] (cf\<lparr>cf_dram_num := n\<rparr>)))"

definition flit_size_of :: "u32 \<Rightarrow> u32 \<Rightarrow> u32" where
  "flit_size_of mode old = (if mode = 68 then 64 else if mode = 256 then 240 else old)"

definition init_system :: "'v json_ops \<Rightarrow> 'v \<Rightarrow> config \<Rightarrow> sim_error + config" where
  "init_system js jroot cf =
     ebind (as_uint js (json_member js jroot ''host_num'')) (\<lambda>hosts.
     ebind (as_uint js (json_member js jroot ''flit_mode'')) (\<lambda>mode.
     ebind (as_uint js (json_member js jroot ''packet_size'')) (\<lambda>packet.
     ebind (as_double js (json_member js jroot ''link_efficiency'')) (\<lambda>eff.
     ebind (as_double js (json_member js jroot ''PCIe_raw_bandwidth'')) (\<lambda>raw.
     ebind (as_uint js (json_member js jroot ''cxl_port_latency'')) (\<lambda>port.
     ebind (as_uint js (json_member js jroot ''cxl_dev_ic_latency'')) (\<lambda>dev.
       Inr (cf\<lparr>cf_host_num := hosts, cf_flit_mode := mode, cf_packet_size := packet,
         cf_link_efficiency := eff, cf_raw_bandwidth := raw, cf_port_latency := port,
         cf_dev_ic_latency := dev, cf_link_bandwidth := dround (eff * raw),
         cf_flit_size := flit_size_of mode (cf_flit_size cf)\<rparr>))))))))"

definition cpu_read :: "'v json_ops \<Rightarrow> 'v \<Rightarrow> nat \<Rightarrow> sim_error + cpu_info" where
  "cpu_read js jroot i =
     (let cpu = json_member js jroot (''cpu'' @ to_string i) in
      ebind (as_double js (json_member js cpu ''freq'')) (\<lambda>freq.
      ebind (as_uint js (json_member js cpu ''cpu_latency'')) (\<lambda>lat.
        Inr \<lparr>ci_simul_freq = freq, ci_period = (if freq = 0 then None else Some (dround (1 / freq))),
             ci_cpu_latency = lat\<rparr>)))"

definition init_cpu_one :: "'v json_ops \<Rightarrow> 'v \<Rightarrow> nat \<Rightarrow> config \<Rightarrow> sim_error + config" where
  "init_cpu_one js jroot i cf =
     ebind (cpu_read js jroot i) (\<lambda>c. Inr (cf\<lparr>cf_cpu_map := (cf_cpu_map cf)(i \<mapsto> c)\<rparr>))"

definition init_configurations ::
  "'v json_ops \<Rightarrow> 'v option \<Rightarrow> 'v option \<Rightarrow> config \<Rightarrow> sim_error + config"
where
  "init_configurations js system_file memory_file cf =
     (case system_file of
        None \<Rightarrow> Inl Exception_thrown
      | Some jroot \<Rightarrow>
          ebind (init_system js jroot cf) (\<lambda>cf1.
          ebind (efold (init_cpu_one js jroot) [0..<unat (cf_host_num cf1)] cf1) (init_dram js memory_file)))"

section \<open>Reading values\<close>

definition get_link_latency :: "config \<Rightarrow> u32" where "get_link_latency = cf_link_latency"
definition get_host_num :: "config \<Rightarrow> u32" where "get_host_num = cf_host_num"
definition get_dram_num :: "config \<Rightarrow> u32" where "get_dram_num = cf_dram_num"
definition get_flit_mode :: "config \<Rightarrow> u32" where "get_flit_mode = cf_flit_mode"
definition cfg_packet_size :: "config \<Rightarrow> u32" where "cfg_packet_size = cf_packet_size"
definition get_dram_req_size :: "config \<Rightarrow> u32" where "get_dram_req_size = cf_dram_req_size"
definition get_port_latency :: "config \<Rightarrow> u32" where "get_port_latency = cf_port_latency"
definition get_cxl_dev_ic_latency :: "config \<Rightarrow> u32" where "get_cxl_dev_ic_latency = cf_dev_ic_latency"

definition get_cxl_ctrl_latency :: "config \<Rightarrow> u32" where
  "get_cxl_ctrl_latency cf = cf_port_latency cf + cf_dev_ic_latency cf"

text \<open>\<open>map::operator[]\<close>: a missing entry is inserted, all zero.\<close>

definition zero_dram :: dram_info where
  "zero_dram = \<lparr>di_type = [], di_size = 0, di_freq = 0\<rparr>"

definition zero_cpu :: cpu_info where
  "zero_cpu = \<lparr>ci_simul_freq = 0, ci_period = Some 0, ci_cpu_latency = 0\<rparr>"

definition dram_of :: "nat \<Rightarrow> config \<Rightarrow> config \<times> dram_info" where
  "dram_of i cf = (case cf_dram_map cf i of
     Some d \<Rightarrow> (cf, d)
   | None \<Rightarrow> (cf\<lparr>cf_dram_map := (cf_dram_map cf)(i \<mapsto> zero_dram)\<rparr>, zero_dram))"

definition cpu_of :: "nat \<Rightarrow> config \<Rightarrow> config \<times> cpu_info" where
  "cpu_of i cf = (case cf_cpu_map cf i of
     Some c \<Rightarrow> (cf, c)
   | None \<Rightarrow> (cf\<lparr>cf_cpu_map := (cf_cpu_map cf)(i \<mapsto> zero_cpu)\<rparr>, zero_cpu))"

definition get_dram_config :: "nat \<Rightarrow> config \<Rightarrow> config \<times> string" where
  "get_dram_config i cf = map_prod id di_type (dram_of i cf)"

definition get_dram_size :: "nat \<Rightarrow> config \<Rightarrow> config \<times> u64" where
  "get_dram_size i cf = map_prod id di_size (dram_of i cf)"

definition get_dram_freq :: "nat \<Rightarrow> config \<Rightarrow> config \<times> rat" where
  "get_dram_freq i cf = map_prod id di_freq (dram_of i cf)"

definition get_freq :: "nat \<Rightarrow> config \<Rightarrow> config \<times> rat" where
  "get_freq i cf = map_prod id ci_simul_freq (cpu_of i cf)"

definition get_period :: "nat \<Rightarrow> config \<Rightarrow> config \<times> rat option" where
  "get_period i cf = map_prod id ci_period (cpu_of i cf)"

definition get_cpu_latency :: "nat \<Rightarrow> config \<Rightarrow> config \<times> u32" where
  "get_cpu_latency i cf = map_prod id ci_cpu_latency (cpu_of i cf)"

section \<open>What is read\<close>

lemma init_cpus:
  assumes "efold (init_cpu_one js jroot) is cf = Inr cf'"
  shows "\<exists>m. cf' = cf\<lparr>cf_cpu_map := m\<rparr> \<and>
     (\<forall>i\<in>set is. \<exists>c. cpu_read js jroot i = Inr c \<and> m i = Some c) \<and> (\<forall>i. i \<notin> set is \<longrightarrow> m i = cf_cpu_map cf i)"
  using assms
proof (induction "is" arbitrary: cf)
  case Nil
  then show ?case
    by (intro exI [of _ "cf_cpu_map cf"]) simp
next
  case (Cons i "is")
  then obtain cf1 where one: "init_cpu_one js jroot i cf = Inr cf1" and
      more: "efold (init_cpu_one js jroot) is cf1 = Inr cf'"
    by auto
  obtain c where read: "cpu_read js jroot i = Inr c" and cf1: "cf1 = cf\<lparr>cf_cpu_map := (cf_cpu_map cf)(i \<mapsto> c)\<rparr>"
    using one by (auto simp: init_cpu_one_def)
  note rest = more [unfolded cf1]
  from Cons.IH [OF rest] obtain m where "cf' = cf\<lparr>cf_cpu_map := m\<rparr>"
    and "\<forall>i\<in>set is. \<exists>c. cpu_read js jroot i = Inr c \<and> m i = Some c"
    and "\<forall>ia. ia \<notin> set is \<longrightarrow> m ia = ((cf_cpu_map cf)(i \<mapsto> c)) ia"
    by auto
  with read show ?case
    by (intro exI [of _ m]) (cases "i \<in> set is"; auto)
qed

lemma init_drams:
  assumes "efold (init_dram_one js jroot) is cf = Inr cf'"
  shows "\<exists>m req lat. cf' = cf\<lparr>cf_dram_req_size := req, cf_link_latency := lat, cf_dram_map := m\<rparr> \<and>
     (\<forall>i\<in>set is. \<exists>d r. dram_read js jroot i = Inr (d, r) \<and> m i = Some d) \<and>
     (if is = [] then req = cf_dram_req_size cf \<and> lat = cf_link_latency cf
      else as_uint js (json_member js jroot ''req_size'') = Inr req \<and>
        derive_link_latency (cf_flit_size cf) (cf_link_bandwidth cf) = Inr lat) \<and>
     (\<forall>i. i \<notin> set is \<longrightarrow> m i = cf_dram_map cf i)"
  using assms
proof (induction "is" arbitrary: cf)
  case Nil
  then show ?case
    by (intro exI [of _ "cf_dram_map cf"] exI [of _ "cf_dram_req_size cf"] exI [of _ "cf_link_latency cf"]) simp
next
  case (Cons i "is")
  then obtain cf1 where one: "init_dram_one js jroot i cf = Inr cf1" and
      more: "efold (init_dram_one js jroot) is cf1 = Inr cf'"
    by auto
  obtain d req lat where read: "dram_read js jroot i = Inr (d, req)"
    and lat: "derive_link_latency (cf_flit_size cf) (cf_link_bandwidth cf) = Inr lat"
    and cf1: "cf1 = cf\<lparr>cf_dram_req_size := req, cf_link_latency := lat, cf_dram_map := (cf_dram_map cf)(i \<mapsto> d)\<rparr>"
    using one by (auto simp: init_dram_one_def)
  have req: "as_uint js (json_member js jroot ''req_size'') = Inr req"
    using read by (auto simp: dram_read_def Let_def)
  obtain m req' lat' where cf': "cf' = cf1\<lparr>cf_dram_req_size := req', cf_link_latency := lat', cf_dram_map := m\<rparr>"
    and m: "\<forall>i\<in>set is. \<exists>d r. dram_read js jroot i = Inr (d, r) \<and> m i = Some d"
    and vals: "if is = [] then req' = cf_dram_req_size cf1 \<and> lat' = cf_link_latency cf1
      else as_uint js (json_member js jroot ''req_size'') = Inr req' \<and>
        derive_link_latency (cf_flit_size cf1) (cf_link_bandwidth cf1) = Inr lat'"
    and other: "\<forall>ia. ia \<notin> set is \<longrightarrow> m ia = cf_dram_map cf1 ia"
    using Cons.IH [OF more] by blast
  have "m i = Some d \<or> i \<in> set is"
    using other by (auto simp: cf1)
  then show ?case
    using cf' m vals other read req lat
    by (intro exI [of _ m] exI [of _ req'] exI [of _ lat']) (auto simp: cf1 split: if_splits)
qed

text \<open>
  C37. A configuration that is read has, for every host and every memory that the files announce,
  the entry of that number, and its link latency is derived from the flit mode and the
  bandwidth; but without a memory the link latency and the request size, and in a
  flit mode other than 68 and 256 the flit size, are whatever they were before.
\<close>

theorem configuration_read:
  assumes "init_configurations js (Some sys) (Some mem) cf = Inr cf'"
  shows "(\<forall>i < unat (cf_host_num cf'). \<exists>c. cpu_read js sys i = Inr c \<and> cf_cpu_map cf' i = Some c) \<and>
    (\<forall>i < unat (cf_dram_num cf'). \<exists>d r. dram_read js mem i = Inr (d, r) \<and> cf_dram_map cf' i = Some d) \<and>
    (if cf_dram_num cf' = 0 then cf_link_latency cf' = cf_link_latency cf \<and> cf_dram_req_size cf' = cf_dram_req_size cf
     else derive_link_latency (cf_flit_size cf') (cf_link_bandwidth cf') = Inr (cf_link_latency cf')) \<and>
    (cf_flit_mode cf' = 68 \<longrightarrow> cf_flit_size cf' = 64) \<and> (cf_flit_mode cf' = 256 \<longrightarrow> cf_flit_size cf' = 240) \<and>
    (cf_flit_mode cf' \<notin> {68, 256} \<longrightarrow> cf_flit_size cf' = cf_flit_size cf)"
proof -
  obtain cf1 cf2 where sys: "init_system js sys cf = Inr cf1"
    and cpus: "efold (init_cpu_one js sys) [0..<unat (cf_host_num cf1)] cf1 = Inr cf2"
    and mem: "init_dram js (Some mem) cf2 = Inr cf'"
    using assms by (auto simp: init_configurations_def)
  have f1: "cf_flit_size cf1 = flit_size_of (cf_flit_mode cf1) (cf_flit_size cf)"
    "cf_link_latency cf1 = cf_link_latency cf" "cf_dram_req_size cf1 = cf_dram_req_size cf"
    using sys by (auto simp: init_system_def)
  obtain m where cf2: "cf2 = cf1\<lparr>cf_cpu_map := m\<rparr>"
    and m: "\<forall>i\<in>set [0..<unat (cf_host_num cf1)]. \<exists>c. cpu_read js sys i = Inr c \<and> m i = Some c"
    using init_cpus [OF cpus] by blast
  obtain n where drams: "efold (init_dram_one js mem) [0..<unat n] (cf2\<lparr>cf_dram_num := n\<rparr>) = Inr cf'"
    using mem by (auto simp: init_dram_def)
  obtain m' req lat where cf': "cf' = (cf2\<lparr>cf_dram_num := n\<rparr>)\<lparr>cf_dram_req_size := req, cf_link_latency := lat, cf_dram_map := m'\<rparr>"
    and m': "\<forall>i\<in>set [0..<unat n]. \<exists>d r. dram_read js mem i = Inr (d, r) \<and> m' i = Some d"
    and lat: "if [0..<unat n] = [] then req = cf_dram_req_size (cf2\<lparr>cf_dram_num := n\<rparr>) \<and>
          lat = cf_link_latency (cf2\<lparr>cf_dram_num := n\<rparr>)
      else as_uint js (json_member js mem ''req_size'') = Inr req \<and>
        derive_link_latency (cf_flit_size (cf2\<lparr>cf_dram_num := n\<rparr>)) (cf_link_bandwidth (cf2\<lparr>cf_dram_num := n\<rparr>)) = Inr lat"
    using init_drams [OF drams] by blast
  show ?thesis
    using f1 m m' lat by (auto simp: cf' cf2 flit_size_of_def unat_eq_0 split: if_splits)
qed

text \<open>The shipped files, with the library as functions on a small type of values.\<close>

datatype jval = JNull | JNum rat | JStr string | JObj "(string \<times> jval) list"

definition plain_json :: "jval json_ops" where
  "plain_json =
     \<lparr>json_member = (\<lambda>v k. case v of JObj m \<Rightarrow> (case map_of m k of Some w \<Rightarrow> w | None \<Rightarrow> JNull) | _ \<Rightarrow> JNull),
      as_uint = (\<lambda>v. case v of JNull \<Rightarrow> Inr 0
        | JNum x \<Rightarrow> if 0 \<le> x \<and> x < 2 ^ 32 then Inr (of_int \<lfloor>x\<rfloor>) else Inl Exception_thrown
        | _ \<Rightarrow> Inl Exception_thrown),
      as_double = (\<lambda>v. case v of JNull \<Rightarrow> Inr 0 | JNum x \<Rightarrow> Inr (dround x) | _ \<Rightarrow> Inl Exception_thrown),
      as_string = (\<lambda>v. case v of JNull \<Rightarrow> Inr [] | JStr x \<Rightarrow> Inr x | _ \<Rightarrow> Inl Exception_thrown)\<rparr>"

definition odd_system :: jval where
  "odd_system = JObj [(''host_num'', JNum 1), (''flit_mode'', JNum 64), (''packet_size'', JNum 1024),
     (''link_efficiency'', JNum 1), (''PCIe_raw_bandwidth'', JNum 32), (''cxl_port_latency'', JNum 42),
     (''cxl_dev_ic_latency'', JNum 20), (''cpu0'', JObj [(''freq'', JNum 2), (''cpu_latency'', JNum 45)])]"

definition no_memory :: jval where
  "no_memory = JObj [(''dram_num'', JNum 0), (''req_size'', JNum 64)]"

lemma to_string_0: "to_string 0 = ''0''"
  by code_simp

lemma configuration_read_witness:
  "\<forall>cf. \<exists>cf'. init_configurations plain_json (Some odd_system) (Some no_memory) cf = Inr cf' \<and>
     cf_flit_size cf' = cf_flit_size cf \<and> cf_link_latency cf' = cf_link_latency cf"
proof
  fix cf
  have "\<exists>cf'. init_configurations plain_json (Some odd_system) (Some no_memory) cf = Inr cf' \<and>
      cf_flit_mode cf' = 64 \<and> cf_dram_num cf' = 0"
    by (simp add: init_configurations_def init_system_def init_dram_def init_cpu_one_def cpu_read_def
        plain_json_def odd_system_def no_memory_def to_string_0)
  then obtain cf' where run: "init_configurations plain_json (Some odd_system) (Some no_memory) cf = Inr cf'"
    and mode: "cf_flit_mode cf' = 64" "cf_dram_num cf' = 0"
    by blast
  show "\<exists>cf'. init_configurations plain_json (Some odd_system) (Some no_memory) cf = Inr cf' \<and>
     cf_flit_size cf' = cf_flit_size cf \<and> cf_link_latency cf' = cf_link_latency cf"
    using run configuration_read [OF run] mode by (intro exI [of _ cf']) auto
qed

end
