(* ===== verification/Top_Module.thy ===== *)
theory Top_Module
  imports Simple_Target Configuration
begin

text \<open>
  The module \<open>Top\<close> (\<open>backplane/components/Top.h\<close>) and the entry point (\<open>backplane/sc_main.cpp\<close>): which
  modules are made, which clock each of them has, how their sockets are bound, and what is deleted
  at the end. The modules themselves are in their own theories; here a module is its sockets with
  the callbacks that its constructor registers, and its address.
\<close>

section \<open>Modules and sockets\<close>

datatype sock =
    Sim_master nat | Usp_slave nat | Usp_master nat | Dsp_slave nat | Dsp_master nat
  | Ctrl_slave | Ctrl_master | Mem_slave nat

datatype callback =
    Sim_nb_bw nat | Usp_nb_fw nat | Usp_nb_bw nat | Dsp_nb_fw nat | Dsp_nb_bw nat
  | Ctrl_nb_fw | Ctrl_nb_bw | Mem_nb_fw nat

datatype sim_module = Host_module nat | Usp_module nat | Dsp_module nat | Ctrl_module | Mem_module nat

text \<open>
  \<open>tp_clock\<close> lists the modules with the index of the clock of \<open>Top\<close> that each was bound to. The arrays
  hold pointers to modules, null when deleted; \<open>tp_configs\<close> is the configuration that each memory was given.
\<close>

record top =
  tp_host_num :: int
  tp_dram_num :: int
  tp_active_cores :: u32
  tp_active_dram :: u32
  tp_socks :: "(sock, callback) sockets"
  tp_mems :: "nat \<Rightarrow> (sim_module, callback, pending) simple_target"
  tp_clock :: "(sim_module \<times> nat) list"
  tp_configs :: "string list"
  tp_sim_wrapper :: "sim_module option list"
  tp_upstream_port :: "sim_module option list"
  tp_downstream_port :: "sim_module option list"
  tp_controller :: "sim_module option"
  tp_mem_wrapper :: "sim_module option list"

definition top_bind :: "sock \<Rightarrow> sock peer \<Rightarrow> top \<Rightarrow> sim_error + top" where
  "top_bind i p t = ebind (mi_bind i p (tp_socks t)) (\<lambda>w. Inr (t\<lparr>tp_socks := w\<rparr>))"

definition clock_bind :: "sim_module \<Rightarrow> nat \<Rightarrow> top \<Rightarrow> top" where
  "clock_bind m k t = t\<lparr>tp_clock := tp_clock t @ [(m, k)]\<rparr>"

section \<open>Construction\<close>

text \<open>The constructors of the modules, as far as they register callbacks.\<close>

definition new_sim_wrapper :: "nat \<Rightarrow> top \<Rightarrow> top" where
  "new_sim_wrapper i t =
     t\<lparr>tp_socks := mi_register_nb_transport_bw (Sim_master i) (Sim_nb_bw i) (tp_socks t),
       tp_sim_wrapper := tp_sim_wrapper t @ [Some (Host_module i)]\<rparr>"

definition new_usp :: "nat \<Rightarrow> top \<Rightarrow> top" where
  "new_usp i t =
     t\<lparr>tp_socks := mt_register_nb_transport_fw (Usp_slave i) (Usp_nb_fw i)
         (mi_register_nb_transport_bw (Usp_master i) (Usp_nb_bw i) (tp_socks t)),
       tp_upstream_port := tp_upstream_port t @ [Some (Usp_module i)]\<rparr>"

definition new_dsp :: "nat \<Rightarrow> top \<Rightarrow> top" where
  "new_dsp i t =
     t\<lparr>tp_socks := mt_register_nb_transport_fw (Dsp_slave i) (Dsp_nb_fw i)
         (mi_register_nb_transport_bw (Dsp_master i) (Dsp_nb_bw i) (tp_socks t)),
       tp_downstream_port := tp_downstream_port t @ [Some (Dsp_module i)]\<rparr>"

definition new_controller :: "top \<Rightarrow> top" where
  "new_controller t =
     t\<lparr>tp_socks := mt_register_nb_transport_fw Ctrl_slave Ctrl_nb_fw
         (mi_register_nb_transport_bw Ctrl_master Ctrl_nb_bw (tp_socks t)),
       tp_controller := Some Ctrl_module\<rparr>"

definition new_mem_wrapper :: "nat \<Rightarrow> string \<Rightarrow> top \<Rightarrow> sim_error + top" where
  "new_mem_wrapper i config t =
     ebind (st_register_nb_transport_fw True (Mem_module i) (Mem_nb_fw i) (st_new Not_pending)) (\<lambda>s.
       Inr (t\<lparr>tp_mems := (tp_mems t)(i := s), tp_configs := tp_configs t @ [config],
              tp_mem_wrapper := tp_mem_wrapper t @ [Some (Mem_module i)]\<rparr>))"

text \<open>One turn of each of the two loops of the constructor.\<close>

definition top_host :: "nat \<Rightarrow> top \<Rightarrow> sim_error + top" where
  "top_host i t =
     (let t1 = clock_bind (Host_module i) i (new_sim_wrapper i (t\<lparr>tp_active_cores := tp_active_cores t + 1\<rparr>));
          t2 = clock_bind (Usp_module i) i (new_usp i t1);
          t3 = clock_bind (Dsp_module i) i (new_dsp i t2)
      in ebind (top_bind (Sim_master i) (Multi (Usp_slave i)) t3) (\<lambda>t4.
         ebind (top_bind (Usp_master i) (Multi (Dsp_slave i)) t4) (\<lambda>t5.
           top_bind (Dsp_master i) (Multi Ctrl_slave) t5)))"

definition top_mem :: "nat \<Rightarrow> config \<times> top \<Rightarrow> sim_error + (config \<times> top)" where
  "top_mem i ct =
     (case ct of (cf, t) \<Rightarrow>
        let (cf1, name) = get_dram_config i cf in
        ebind (new_mem_wrapper i name t) (\<lambda>t1.
          if tp_host_num t1 = 0 then Inl Division_by_zero
          else ebind (top_bind Ctrl_master (Plain (Mem_slave i))
                        (clock_bind (Mem_module i) (nat (int i mod tp_host_num t1)) t1))
                 (\<lambda>t2. Inr (cf1, t2))))"

definition top_blank :: "int \<Rightarrow> int \<Rightarrow> top" where
  "top_blank n m =
     \<lparr>tp_host_num = n, tp_dram_num = m, tp_active_cores = 0, tp_active_dram = 0, tp_socks = sockets_new,
      tp_mems = (\<lambda>_. st_new Not_pending), tp_clock = [], tp_configs = [], tp_sim_wrapper = [],
      tp_upstream_port = [], tp_downstream_port = [], tp_controller = None, tp_mem_wrapper = []\<rparr>"

text \<open>
  The constructor. The two numbers are converted to \<open>int\<close>; an array of negative length is an exception.
\<close>

definition top_construct :: "config \<Rightarrow> sim_error + (config \<times> top)" where
  "top_construct cf =
     (let n = sint (get_host_num cf); m = sint (get_dram_num cf) in
      if n < 0 \<or> m < 0 then Inl Exception_thrown
      else ebind (efold top_host [0..<nat n] (new_controller (top_blank n m))) (\<lambda>t.
           ebind (efold top_mem [0..<nat m] (cf, t)) (\<lambda>(cf1, t1).
             Inr (cf1, t1\<lparr>tp_active_dram := tp_active_dram t1 OR 1\<rparr>))))"

section \<open>The end\<close>

text \<open>\<open>delete\<close> of each pointer of an array that is not null; the result lists what is deleted.\<close>

fun delete_all :: "sim_module option list \<Rightarrow> sim_module list \<times> sim_module option list" where
  "delete_all [] = ([], [])"
| "delete_all (p # ps) =
     (case delete_all ps of (ds, qs) \<Rightarrow> (case p of Some m \<Rightarrow> m # ds | None \<Rightarrow> ds, None # qs))"

definition top_finish :: "top \<Rightarrow> sim_module list \<times> top" where
  "top_finish t =
     (let (d1, a1) = delete_all (tp_sim_wrapper t);
          (d2, a2) = delete_all (tp_upstream_port t);
          (d3, a3) = delete_all (tp_downstream_port t);
          d4 = (case tp_controller t of Some m \<Rightarrow> [m] | None \<Rightarrow> []);
          (d5, a5) = delete_all (tp_mem_wrapper t)
      in (d1 @ d2 @ d3 @ d4 @ d5,
          t\<lparr>tp_sim_wrapper := a1, tp_upstream_port := a2, tp_downstream_port := a3, tp_controller := None,
            tp_mem_wrapper := a5\<rparr>))"

section \<open>The entry point\<close>

text \<open>
  The clock of each host, with the period \<open>1 / freq\<close> in nanoseconds (infinite for the frequency 0),
  is bound to the clock of \<open>Top\<close> of that index.
\<close>

definition make_clock :: "nat \<Rightarrow> config \<times> rat option list \<Rightarrow> sim_error + (config \<times> rat option list)" where
  "make_clock i cs =
     (case cs of (cf, clocks) \<Rightarrow>
        let (cf1, f) = get_freq i cf in
        Inr (cf1, clocks @ [if f = 0 then None else Some (dround (1 / f))]))"

definition sc_main_setup ::
  "'v json_ops \<Rightarrow> 'v option \<Rightarrow> 'v option \<Rightarrow> config \<Rightarrow> sim_error + (config \<times> top \<times> rat option list)"
where
  "sc_main_setup js sys mem cf0 =
     ebind (init_configurations js sys mem cf0) (\<lambda>cf.
     ebind (top_construct cf) (\<lambda>(cf1, t).
     ebind (efold make_clock [0..<unat (get_host_num cf1)] (cf1, [])) (\<lambda>(cf2, clocks).
       Inr (cf2, t, clocks))))"

text \<open>
  The whole program: \<open>run\<close> stands for \<open>sc_start\<close>, which carries out the simulation.
\<close>

definition sc_main ::
  "'v json_ops \<Rightarrow> 'v option \<Rightarrow> 'v option \<Rightarrow> config \<Rightarrow> (config \<times> top \<times> rat option list \<Rightarrow> sim_error + top) \<Rightarrow>
   sim_error + (sim_module list \<times> top)"
where
  "sc_main js sys mem cf0 run =
     ebind (sc_main_setup js sys mem cf0) (\<lambda>r. ebind (run r) (\<lambda>t. Inr (top_finish t)))"

section \<open>Elaboration and calls\<close>

text \<open>
  The kernel calls the sockets at the end of elaboration: \<open>is\<close>, \<open>rs\<close> and \<open>ts\<close> are the orders in
  which it does. \<open>None\<close> is a chain of hierarchical bindings without an end.
\<close>

definition beoe_step :: "sock \<Rightarrow> (sock, callback) sockets \<Rightarrow> sim_error + (sock, callback) sockets" where
  "beoe_step i w = (case mi_before_end_of_elaboration i w of Some w1 \<Rightarrow> Inr w1 | None \<Rightarrow> Inl Assert_failed)"

definition eoe_step :: "sock \<Rightarrow> (sock, callback) sockets \<Rightarrow> sim_error + (sock, callback) sockets" where
  "eoe_step t w =
     ebind (mt_end_of_elaboration t w) (\<lambda>r. case r of Some w1 \<Rightarrow> Inr w1 | None \<Rightarrow> Inl Assert_failed)"

definition elaborate ::
  "sock list \<Rightarrow> (sock \<times> nat \<times> sock caller_port) list \<Rightarrow> sock list \<Rightarrow> (sock, callback) sockets \<Rightarrow>
   sim_error + (sock, callback) sockets"
where
  "elaborate is rs ts w =
     ebind (efold beoe_step is w) (\<lambda>w1.
       efold eoe_step ts (foldl (\<lambda>w (t, k, q). mt_register_port t k q w) w1 rs))"

text \<open>
  Which callback a call reaches, and the index that the callback is given, if it takes one. A call by
  \<open>socket->\<close> goes to the first interface of the port, to which the kernel has added the interfaces
  that the port was bound to; a call by \<open>socket[k]\<close> goes to the \<open>k\<close>-th connection of the multi socket.
\<close>

definition first_interface :: "'a list \<Rightarrow> sim_error + 'a" where
  "first_interface fs = ebind (efold add_interface fs port_new) port_arrow"

definition reach_fw_if ::
  "sock fw_if \<Rightarrow> pid \<Rightarrow> tlm_phase \<Rightarrow> u64 \<Rightarrow> (sock, callback) sockets \<Rightarrow> top \<Rightarrow> sim_error + (callback \<times> nat option)"
where
  "reach_fw_if f p phase d w t =
     (case f of
       Fw_binder u b \<Rightarrow>
         ebind (call_nb_transport_fw (mt_binders (tgts w u) ! b) w) (\<lambda>(cb, n). Inr (cb, Some n))
     | Fw_plain (Mem_slave m) \<Rightarrow>
         ebind (st_nb_transport_fw p phase d (tp_mems t m)) (\<lambda>(s, ns, r). case r of
           Call cb \<Rightarrow> Inr (cb, None) | Return _ \<Rightarrow> display_error)
     | Fw_plain _ \<Rightarrow> display_error)"

definition reach_fw ::
  "sock \<Rightarrow> pid \<Rightarrow> tlm_phase \<Rightarrow> u64 \<Rightarrow> (sock, callback) sockets \<Rightarrow> top \<Rightarrow> sim_error + (callback \<times> nat option)"
where
  "reach_fw i p phase d w t = ebind (first_interface (init_port w i)) (\<lambda>f. reach_fw_if f p phase d w t)"

definition reach_fw_at ::
  "sock \<Rightarrow> nat \<Rightarrow> pid \<Rightarrow> tlm_phase \<Rightarrow> u64 \<Rightarrow> (sock, callback) sockets \<Rightarrow> top \<Rightarrow>
   sim_error + (callback \<times> nat option)"
where
  "reach_fw_at i k p phase d w t = ebind (mi_at i k w) (\<lambda>f. reach_fw_if f p phase d w t)"

definition reach_bw_if :: "sock bw_if \<Rightarrow> (sock, callback) sockets \<Rightarrow> sim_error + (callback \<times> nat option)" where
  "reach_bw_if f w =
     (case f of
        Bw_binder i b \<Rightarrow>
          ebind (call_nb_transport_bw (mi_binders (inits w i) ! b) w) (\<lambda>(cb, n). Inr (cb, Some n))
      | Bw_dummy i \<Rightarrow>
          ebind (call_nb_transport_bw (mi_dummy (inits w i)) w) (\<lambda>(cb, n). Inr (cb, Some n))
      | Bw_plain i \<Rightarrow> display_error)"

definition reach_bw :: "sock \<Rightarrow> (sock, callback) sockets \<Rightarrow> sim_error + (callback \<times> nat option)" where
  "reach_bw u w = ebind (first_interface (tgt_port w u)) (\<lambda>f. reach_bw_if f w)"

definition reach_bw_at :: "sock \<Rightarrow> nat \<Rightarrow> (sock, callback) sockets \<Rightarrow> sim_error + (callback \<times> nat option)" where
  "reach_bw_at u k w = ebind (mt_at u k w) (\<lambda>f. reach_bw_if f w)"

text \<open>A backward call of the memory \<open>m\<close>: its socket forwards it through its port.\<close>

definition reach_mem_bw ::
  "nat \<Rightarrow> pid \<Rightarrow> tlm_phase \<Rightarrow> u64 \<Rightarrow> (sock, callback) sockets \<Rightarrow> top \<Rightarrow> sim_error + (callback \<times> nat option)"
where
  "reach_mem_bw m p phase d w t =
     ebind (st_nb_transport_bw p phase d (tp_mems t m)) (\<lambda>(s, ns, r). case r of
       Bw_return _ \<Rightarrow> display_error
     | Forward \<Rightarrow> reach_bw (Mem_slave m) w)"

end
