(* ===== verification/Top_Props.thy ===== *)
theory Top_Props
  imports Top_Module
begin

text \<open>
  What \<open>Top\<close> builds: which function each call through a socket reaches, and with which index, after any order
  of the calls with which the kernel ends the elaboration; which clock drives which module; and
  that each module is deleted once.
\<close>

section \<open>One binding\<close>

lemma mi_bind_multi:
  assumes "mi_hierarch_bind (inits w i) = None" "mt_hierarch_bind (tgts w t) = None"
    and s1: "s1 = (if mt_export_callback_created (tgts w t) then (tgts w t)\<lparr>mt_export_callback_created := False\<rparr>
      else (tgts w t)\<lparr>mt_binders := mt_binders (tgts w t) @ [fw_binder_new (length (mt_binders (tgts w t)))]\<rparr>)"
    and k: "k = length (mt_binders s1) - 1" and n: "n = length (mi_binders (inits w i))"
  shows "\<exists>w'. mi_bind i (Multi t) w = Inr w' \<and>
    inits w' = (inits w)(i := (inits w i)\<lparr>mi_binders := mi_binders (inits w i) @ [bw_binder_new n],
      mi_sockets := mi_sockets (inits w i) @ [Fw_binder t k]\<rparr>) \<and>
    tgts w' = (tgts w)(t := s1\<lparr>mt_multi_binds := (mt_multi_binds s1)(k \<mapsto> Bw_binder i n)\<rparr>) \<and>
    init_port w' = (init_port w)(i := init_port w i @ [Fw_binder t k]) \<and>
    tgt_port w' = (tgt_port w)(t := tgt_port w t @ [Bw_binder i n])"
  using assms
  by (simp add: mi_bind_def base_bind_def peer_interface_def mt_get_base_interface_def mi_get_base_interface_def
      get_last_binder_def upd_init_def upd_tgt_def Let_def)

lemma mi_bind_plain:
  assumes "mi_hierarch_bind (inits w i) = None" and n: "n = length (mi_binders (inits w i))"
  shows "\<exists>w'. mi_bind i (Plain t) w = Inr w' \<and>
    inits w' = (inits w)(i := (inits w i)\<lparr>mi_binders := mi_binders (inits w i) @ [bw_binder_new n],
      mi_sockets := mi_sockets (inits w i) @ [Fw_plain t]\<rparr>) \<and>
    tgts w' = tgts w \<and> init_port w' = (init_port w)(i := init_port w i @ [Fw_plain t]) \<and>
    tgt_port w' = (tgt_port w)(t := tgt_port w t @ [Bw_binder i n])"
  using assms
  by (simp add: mi_bind_def base_bind_def peer_interface_def mi_get_base_interface_def upd_init_def Let_def)

section \<open>The sockets that Top builds\<close>

definition joined :: "callback \<Rightarrow> sock fw_if \<Rightarrow> (sock, callback) multi_init" where
  "joined cb f = mi_new\<lparr>mi_binders := [bw_binder_new 0], mi_sockets := [f], mi_nb_f := Some cb\<rparr>"

definition accepting :: "sock \<Rightarrow> callback \<Rightarrow> sock list \<Rightarrow> (sock, callback) multi_target" where
  "accepting u cb is = mt_new\<lparr>mt_export_callback_created := (is = []),
     mt_binders := (if is = [] then [fw_binder_new 0] else map fw_binder_new [0..<length is]),
     mt_multi_binds := (\<lambda>k. if k < length is then Some (Bw_binder (is ! k) 0) else None),
     mt_export := Some (Fw_binder u 0), mt_nb_f := Some cb\<rparr>"

definition built_init :: "nat \<Rightarrow> nat \<Rightarrow> sock \<Rightarrow> (sock, callback) multi_init" where
  "built_init n m s =
     (case s of
        Sim_master i \<Rightarrow> if i < n then joined (Sim_nb_bw i) (Fw_binder (Usp_slave i) 0) else mi_new
      | Usp_master i \<Rightarrow> if i < n then joined (Usp_nb_bw i) (Fw_binder (Dsp_slave i) 0) else mi_new
      | Dsp_master i \<Rightarrow> if i < n then joined (Dsp_nb_bw i) (Fw_binder Ctrl_slave i) else mi_new
      | Ctrl_master \<Rightarrow> mi_new\<lparr>mi_binders := map bw_binder_new [0..<m],
          mi_sockets := map (\<lambda>d. Fw_plain (Mem_slave d)) [0..<m], mi_nb_f := Some Ctrl_nb_bw\<rparr>
      | _ \<Rightarrow> mi_new)"

definition built_tgt :: "nat \<Rightarrow> sock \<Rightarrow> (sock, callback) multi_target" where
  "built_tgt n s =
     (case s of
        Usp_slave i \<Rightarrow> if i < n then accepting s (Usp_nb_fw i) [Sim_master i] else mt_new
      | Dsp_slave i \<Rightarrow> if i < n then accepting s (Dsp_nb_fw i) [Usp_master i] else mt_new
      | Ctrl_slave \<Rightarrow> accepting s Ctrl_nb_fw (map Dsp_master [0..<n])
      | _ \<Rightarrow> mt_new)"

definition built_port :: "nat \<Rightarrow> nat \<Rightarrow> sock \<Rightarrow> sock bw_if list" where
  "built_port n m s =
     (case s of
        Usp_slave i \<Rightarrow> if i < n then [Bw_binder (Sim_master i) 0] else []
      | Dsp_slave i \<Rightarrow> if i < n then [Bw_binder (Usp_master i) 0] else []
      | Ctrl_slave \<Rightarrow> map (\<lambda>i. Bw_binder (Dsp_master i) 0) [0..<n]
      | Mem_slave d \<Rightarrow> if d < m then [Bw_binder Ctrl_master d] else []
      | _ \<Rightarrow> [])"

lemma accepting_bind:
  "s = accepting u cb is \<Longrightarrow>
   s1 = (if mt_export_callback_created s then s\<lparr>mt_export_callback_created := False\<rparr>
         else s\<lparr>mt_binders := mt_binders s @ [fw_binder_new (length (mt_binders s))]\<rparr>) \<Longrightarrow>
   length (mt_binders s1) - 1 = length is \<and>
   s1\<lparr>mt_multi_binds := (mt_multi_binds s1)(length is \<mapsto> Bw_binder i 0)\<rparr> = accepting u cb (is @ [i])"
  by (auto simp: accepting_def fun_eq_iff nth_append less_Suc_eq)

lemma new_accepting:
  "mt_register_nb_transport_fw u cb w = w\<lparr>tgts := (tgts w)(u := accepting u cb [])\<rparr>" if "tgts w u = mt_new"
  using that
  by (simp add: mt_register_nb_transport_fw_def upd_tgt_def check_export_binding_def mt_new_def accepting_def
      functor_new_def is_valid_def set_function_def fun_eq_iff)

lemma new_joining:
  "mi_register_nb_transport_bw i cb w = w\<lparr>inits := (inits w)(i := mi_new\<lparr>mi_nb_f := Some cb\<rparr>)\<rparr>" if "inits w i = mi_new"
  using that
  by (simp add: mi_register_nb_transport_bw_def upd_init_def mi_new_def functor_new_def is_valid_def set_function_def)

text \<open>Binding a fresh initiator socket to a target socket that accepts.\<close>

lemma bind_joining:
  assumes "inits w i = mi_new\<lparr>mi_nb_f := Some cb\<rparr>" "tgts w u = accepting u cb1 is"
  shows "\<exists>w'. mi_bind i (Multi u) w = Inr w' \<and> inits w' = (inits w)(i := joined cb (Fw_binder u (length is))) \<and>
    tgts w' = (tgts w)(u := accepting u cb1 (is @ [i])) \<and>
    init_port w' = (init_port w)(i := init_port w i @ [Fw_binder u (length is)]) \<and>
    tgt_port w' = (tgt_port w)(u := tgt_port w u @ [Bw_binder i 0])"
proof -
  define s1 where "s1 = (if mt_export_callback_created (tgts w u) then (tgts w u)\<lparr>mt_export_callback_created := False\<rparr>
      else (tgts w u)\<lparr>mt_binders := mt_binders (tgts w u) @ [fw_binder_new (length (mt_binders (tgts w u)))]\<rparr>)"
  have h: "mi_hierarch_bind (inits w i) = None" "mt_hierarch_bind (tgts w u) = None"
    "0 = length (mi_binders (inits w i))"
    using assms by (simp_all add: mi_new_def accepting_def mt_new_def)
  note acc = accepting_bind [OF assms(2) s1_def]
  from mi_bind_multi [OF h(1,2) s1_def refl h(3)] obtain w' where
    "mi_bind i (Multi u) w = Inr w'"
    "inits w' = (inits w)(i := (inits w i)\<lparr>mi_binders := mi_binders (inits w i) @ [bw_binder_new 0],
      mi_sockets := mi_sockets (inits w i) @ [Fw_binder u (length (mt_binders s1) - 1)]\<rparr>)"
    "tgts w' = (tgts w)(u := s1\<lparr>mt_multi_binds := (mt_multi_binds s1)(length (mt_binders s1) - 1 \<mapsto> Bw_binder i 0)\<rparr>)"
    "init_port w' = (init_port w)(i := init_port w i @ [Fw_binder u (length (mt_binders s1) - 1)])"
    "tgt_port w' = (tgt_port w)(u := tgt_port w u @ [Bw_binder i 0])" by blast
  then show ?thesis
    using acc assms(1) by (intro exI [of _ w']) (simp add: joined_def mi_new_def)
qed

section \<open>The two loops\<close>

text \<open>What is known of \<open>Top\<close> after \<open>n\<close> hosts and \<open>m\<close> memories.\<close>

definition built :: "nat \<Rightarrow> nat \<Rightarrow> top \<Rightarrow> bool" where
  "built n m t \<longleftrightarrow>
     inits (tp_socks t) = built_init n m \<and> tgts (tp_socks t) = built_tgt n \<and>
     init_port (tp_socks t) = (\<lambda>s. mi_sockets (built_init n m s)) \<and> tgt_port (tp_socks t) = built_port n m \<and>
     (\<forall>d<m. tp_mems t d = (st_new Not_pending)\<lparr>st_mod := Some (Mem_module d), st_nb_transport := Some (Mem_nb_fw d)\<rparr>) \<and>
     tp_active_cores t = of_nat n \<and> (tp_active_dram t = 0 \<or> tp_active_dram t = 1) \<and>
     tp_sim_wrapper t = map (\<lambda>i. Some (Host_module i)) [0..<n] \<and>
     tp_upstream_port t = map (\<lambda>i. Some (Usp_module i)) [0..<n] \<and>
     tp_downstream_port t = map (\<lambda>i. Some (Dsp_module i)) [0..<n] \<and>
     tp_controller t = Some Ctrl_module \<and>
     tp_mem_wrapper t = map (\<lambda>d. Some (Mem_module d)) [0..<m]"

definition host_clocks :: "nat \<Rightarrow> (sim_module \<times> nat) list" where
  "host_clocks i = [(Host_module i, i), (Usp_module i, i), (Dsp_module i, i)]"

lemma built_start: "built 0 0 (new_controller (top_blank a b))"
  by (simp add: built_def new_controller_def top_blank_def sockets_new_def new_joining new_accepting)
    (auto simp: fun_eq_iff built_init_def built_tgt_def built_port_def mi_new_def split: sock.splits)

lemma built_host_step:
  assumes "built n 0 t"
  shows "\<exists>t'. top_host n t = Inr t' \<and> built (Suc n) 0 t' \<and> tp_clock t' = tp_clock t @ host_clocks n \<and>
    tp_host_num t' = tp_host_num t \<and> tp_dram_num t' = tp_dram_num t"
proof -
  let ?w = "tp_socks t"
  have i0: "inits ?w = built_init n 0" and t0: "tgts ?w = built_tgt n" using assms by (simp_all add: built_def)
  define w1 where "w1 = ?w\<lparr>inits := (built_init n 0)(Sim_master n := mi_new\<lparr>mi_nb_f := Some (Sim_nb_bw n)\<rparr>,
      Usp_master n := mi_new\<lparr>mi_nb_f := Some (Usp_nb_bw n)\<rparr>, Dsp_master n := mi_new\<lparr>mi_nb_f := Some (Dsp_nb_bw n)\<rparr>),
      tgts := (built_tgt n)(Usp_slave n := accepting (Usp_slave n) (Usp_nb_fw n) [],
        Dsp_slave n := accepting (Dsp_slave n) (Dsp_nb_fw n) [])\<rparr>"
  have new: "built_init n 0 (Sim_master n) = mi_new" "built_init n 0 (Usp_master n) = mi_new"
      "built_init n 0 (Dsp_master n) = mi_new" "built_tgt n (Usp_slave n) = mt_new" "built_tgt n (Dsp_slave n) = mt_new"
    by (simp_all add: built_init_def built_tgt_def)
  have reg: "mt_register_nb_transport_fw (Dsp_slave n) (Dsp_nb_fw n)
      (mi_register_nb_transport_bw (Dsp_master n) (Dsp_nb_bw n)
      (mt_register_nb_transport_fw (Usp_slave n) (Usp_nb_fw n)
      (mi_register_nb_transport_bw (Usp_master n) (Usp_nb_bw n)
      (mi_register_nb_transport_bw (Sim_master n) (Sim_nb_bw n) ?w)))) = w1"
    using i0 t0 by (simp add: w1_def new_joining new_accepting new fun_upd_twist)
  obtain w2 where w2: "mi_bind (Sim_master n) (Multi (Usp_slave n)) w1 = Inr w2"
      "inits w2 = (inits w1)(Sim_master n := joined (Sim_nb_bw n) (Fw_binder (Usp_slave n) 0))"
      "tgts w2 = (tgts w1)(Usp_slave n := accepting (Usp_slave n) (Usp_nb_fw n) [Sim_master n])"
      "init_port w2 = (init_port w1)(Sim_master n := init_port w1 (Sim_master n) @ [Fw_binder (Usp_slave n) 0])"
      "tgt_port w2 = (tgt_port w1)(Usp_slave n := tgt_port w1 (Usp_slave n) @ [Bw_binder (Sim_master n) 0])"
    using bind_joining [of w1 "Sim_master n" "Sim_nb_bw n" "Usp_slave n" "Usp_nb_fw n" "[]"]
    by (auto simp: w1_def)
  obtain w3 where w3: "mi_bind (Usp_master n) (Multi (Dsp_slave n)) w2 = Inr w3"
      "inits w3 = (inits w2)(Usp_master n := joined (Usp_nb_bw n) (Fw_binder (Dsp_slave n) 0))"
      "tgts w3 = (tgts w2)(Dsp_slave n := accepting (Dsp_slave n) (Dsp_nb_fw n) [Usp_master n])"
      "init_port w3 = (init_port w2)(Usp_master n := init_port w2 (Usp_master n) @ [Fw_binder (Dsp_slave n) 0])"
      "tgt_port w3 = (tgt_port w2)(Dsp_slave n := tgt_port w2 (Dsp_slave n) @ [Bw_binder (Usp_master n) 0])"
    using bind_joining [of w2 "Usp_master n" "Usp_nb_bw n" "Dsp_slave n" "Dsp_nb_fw n" "[]"] w2
    by (auto simp: w1_def)
  have c: "tgts w3 Ctrl_slave = accepting Ctrl_slave Ctrl_nb_fw (map Dsp_master [0..<n])"
    using w2 w3 by (simp add: w1_def built_tgt_def)
  obtain w4 where w4: "mi_bind (Dsp_master n) (Multi Ctrl_slave) w3 = Inr w4"
      "inits w4 = (inits w3)(Dsp_master n := joined (Dsp_nb_bw n) (Fw_binder Ctrl_slave n))"
      "tgts w4 = (tgts w3)(Ctrl_slave := accepting Ctrl_slave Ctrl_nb_fw (map Dsp_master [0..<n] @ [Dsp_master n]))"
      "init_port w4 = (init_port w3)(Dsp_master n := init_port w3 (Dsp_master n) @ [Fw_binder Ctrl_slave n])"
      "tgt_port w4 = (tgt_port w3)(Ctrl_slave := tgt_port w3 Ctrl_slave @ [Bw_binder (Dsp_master n) 0])"
    using bind_joining [of w3 "Dsp_master n" "Dsp_nb_bw n" Ctrl_slave Ctrl_nb_fw "map Dsp_master [0..<n]"] c w2 w3
    by (auto simp: w1_def)
  have "inits w4 s = built_init (Suc n) 0 s" for s
    by (cases s) (simp_all add: w2(2) w3(2) w4(2) w1_def built_init_def)
  then have inits4: "inits w4 = built_init (Suc n) 0" ..
  have "tgts w4 s = built_tgt (Suc n) s" for s
    by (cases s) (simp_all add: w2(3) w3(3) w4(3) w1_def built_tgt_def)
  then have tgts4: "tgts w4 = built_tgt (Suc n)" ..
  have p0: "init_port ?w = (\<lambda>s. mi_sockets (built_init n 0 s))" "tgt_port ?w = built_port n 0"
    using assms by (simp_all add: built_def)
  have "init_port w4 s = mi_sockets (built_init (Suc n) 0 s)" for s
    by (cases s) (simp_all add: w2(4) w3(4) w4(4) w1_def p0 built_init_def joined_def mi_new_def)
  then have iport4: "init_port w4 = (\<lambda>s. mi_sockets (built_init (Suc n) 0 s))" ..
  have "tgt_port w4 s = built_port (Suc n) 0 s" for s
    by (cases s) (simp_all add: w2(5) w3(5) w4(5) w1_def p0 built_port_def)
  then have tport4: "tgt_port w4 = built_port (Suc n) 0" ..
  show ?thesis
    using assms inits4 tgts4 iport4 tport4 reg w2(1) w3(1) w4(1)
    by (simp add: top_host_def top_bind_def clock_bind_def new_sim_wrapper_def new_usp_def new_dsp_def Let_def
        built_def host_clocks_def)
qed

lemma built_mem_step:
  assumes "built n m t" "0 < tp_host_num t"
  shows "\<exists>cf' t'. top_mem m (cf, t) = Inr (cf', t') \<and> built n (Suc m) t' \<and>
    cf' = fst (get_dram_config m cf) \<and> tp_configs t' = tp_configs t @ [snd (get_dram_config m cf)] \<and>
    tp_clock t' = tp_clock t @ [(Mem_module m, nat (int m mod tp_host_num t))] \<and>
    tp_host_num t' = tp_host_num t \<and> tp_dram_num t' = tp_dram_num t"
proof -
  let ?w = "tp_socks t"
  have i0: "inits ?w = built_init n m" and t0: "tgts ?w = built_tgt n" using assms by (simp_all add: built_def)
  have c: "mi_hierarch_bind (built_init n m Ctrl_master) = None" "length (mi_binders (built_init n m Ctrl_master)) = m"
    by (simp_all add: built_init_def mi_new_def)
  obtain w1 where w1: "mi_bind Ctrl_master (Plain (Mem_slave m)) ?w = Inr w1"
      "inits w1 = (built_init n m)(Ctrl_master := (built_init n m Ctrl_master)\<lparr>
        mi_binders := mi_binders (built_init n m Ctrl_master) @ [bw_binder_new m],
        mi_sockets := mi_sockets (built_init n m Ctrl_master) @ [Fw_plain (Mem_slave m)]\<rparr>)"
      "tgts w1 = built_tgt n" "init_port w1 = (init_port ?w)(Ctrl_master := init_port ?w Ctrl_master @ [Fw_plain (Mem_slave m)])"
      "tgt_port w1 = (tgt_port ?w)(Mem_slave m := tgt_port ?w (Mem_slave m) @ [Bw_binder Ctrl_master m])"
    using mi_bind_plain [of ?w Ctrl_master m "Mem_slave m", unfolded i0 t0, OF c(1) c(2) [symmetric]] by blast
  have "inits w1 s = built_init n (Suc m) s" for s
    by (cases s) (simp_all add: w1(2) built_init_def)
  then have inits1: "inits w1 = built_init n (Suc m)" ..
  obtain cf' name where cf: "get_dram_config m cf = (cf', name)" by (cases "get_dram_config m cf")
  have sock: "st_register_nb_transport_fw True (Mem_module m) (Mem_nb_fw m) (st_new Not_pending) =
      Inr ((st_new Not_pending)\<lparr>st_mod := Some (Mem_module m), st_nb_transport := Some (Mem_nb_fw m)\<rparr>)"
    by (simp add: st_register_nb_transport_fw_def set_nb_transport_ptr_def st_set_mod_def st_new_def)
  define t2 where "t2 = t\<lparr>tp_mems := (tp_mems t)(m := (st_new Not_pending)\<lparr>st_mod := Some (Mem_module m),
        st_nb_transport := Some (Mem_nb_fw m)\<rparr>), tp_configs := tp_configs t @ [name],
      tp_mem_wrapper := tp_mem_wrapper t @ [Some (Mem_module m)],
      tp_clock := tp_clock t @ [(Mem_module m, nat (int m mod tp_host_num t))], tp_socks := w1\<rparr>"
  have step: "top_mem m (cf, t) = Inr (cf', t2)"
    using cf sock w1(1) assms(2)
    by (simp add: top_mem_def top_bind_def clock_bind_def new_mem_wrapper_def t2_def)
  have p0: "init_port ?w = (\<lambda>s. mi_sockets (built_init n m s))" "tgt_port ?w = built_port n m"
    using assms(1) by (simp_all add: built_def)
  have "init_port w1 s = mi_sockets (built_init n (Suc m) s)" for s
    by (cases s) (simp_all add: w1(4) p0 built_init_def mi_new_def)
  then have iport: "init_port w1 = (\<lambda>s. mi_sockets (built_init n (Suc m) s))" ..
  have "tgt_port w1 s = built_port n (Suc m) s" for s
    by (cases s) (simp_all add: w1(5) p0 built_port_def)
  then have tport: "tgt_port w1 = built_port n (Suc m)" ..
  have mems: "tp_mems t2 d = (st_new Not_pending)\<lparr>st_mod := Some (Mem_module d), st_nb_transport := Some (Mem_nb_fw d)\<rparr>"
    if "d < Suc m" for d
    using assms(1) that by (cases "d = m") (simp_all add: built_def t2_def)
  have "built n (Suc m) t2"
    unfolding built_def using assms(1) inits1 w1(3) iport tport mems by (simp add: t2_def built_def)
  then show ?thesis
    using step cf by (intro exI [of _ cf'] exI [of _ t2]) (simp add: t2_def)
qed

lemma built_hosts:
  assumes "built 0 0 t"
  shows "\<exists>t'. efold top_host [0..<n] t = Inr t' \<and> built n 0 t' \<and>
    tp_clock t' = tp_clock t @ concat (map host_clocks [0..<n]) \<and> tp_host_num t' = tp_host_num t \<and> tp_dram_num t' = tp_dram_num t"
proof (induction n)
  case 0
  then show ?case using assms by simp
next
  case (Suc n)
  then obtain t1 where "efold top_host [0..<n] t = Inr t1" "built n 0 t1"
      "tp_clock t1 = tp_clock t @ concat (map host_clocks [0..<n])" "tp_host_num t1 = tp_host_num t" "tp_dram_num t1 = tp_dram_num t"
    by blast
  moreover from built_host_step [OF this(2)] obtain t2 where "top_host n t1 = Inr t2" "built (Suc n) 0 t2"
      "tp_clock t2 = tp_clock t1 @ host_clocks n" "tp_host_num t2 = tp_host_num t1" "tp_dram_num t2 = tp_dram_num t1" by blast
  ultimately show ?case by (simp add: efold_append)
qed

lemma built_mems:
  assumes "built n 0 t" "0 < tp_host_num t"
  shows "\<exists>cf' t'. efold top_mem [0..<m] (cf, t) = Inr (cf', t') \<and> built n m t' \<and>
    tp_clock t' = tp_clock t @ map (\<lambda>d. (Mem_module d, nat (int d mod tp_host_num t))) [0..<m] \<and>
    tp_host_num t' = tp_host_num t \<and> tp_dram_num t' = tp_dram_num t"
proof (induction m)
  case 0
  then show ?case using assms by simp
next
  case (Suc m)
  then obtain cf1 t1 where "efold top_mem [0..<m] (cf, t) = Inr (cf1, t1)" "built n m t1"
      "tp_clock t1 = tp_clock t @ map (\<lambda>d. (Mem_module d, nat (int d mod tp_host_num t))) [0..<m]"
      "tp_host_num t1 = tp_host_num t" "tp_dram_num t1 = tp_dram_num t" by blast
  moreover from built_mem_step [OF this(2)] assms(2) this(4)
  obtain cf2 t2 where "top_mem m (cf1, t1) = Inr (cf2, t2)" "built n (Suc m) t2"
      "tp_clock t2 = tp_clock t1 @ [(Mem_module m, nat (int m mod tp_host_num t1))]"
      "tp_host_num t2 = tp_host_num t1" "tp_dram_num t2 = tp_dram_num t1" by (metis (no_types))
  ultimately show ?case by (simp add: efold_append)
qed

text \<open>The configurations for which \<open>Top\<close> can be built: there is a host, or no memory.\<close>

definition buildable :: "config \<Rightarrow> bool" where
  "buildable cf \<longleftrightarrow> 0 \<le> sint (cf_host_num cf) \<and> 0 \<le> sint (cf_dram_num cf) \<and> (0 < sint (cf_host_num cf) \<or> sint (cf_dram_num cf) = 0)"

definition hosts_of :: "config \<Rightarrow> nat" where "hosts_of cf = nat (sint (cf_host_num cf))"
definition mems_of :: "config \<Rightarrow> nat" where "mems_of cf = nat (sint (cf_dram_num cf))"

lemma built_top:
  assumes "buildable cf"
  shows "\<exists>cf' t. top_construct cf = Inr (cf', t) \<and> built (hosts_of cf) (mems_of cf) t \<and>
    tp_clock t = concat (map host_clocks [0..<hosts_of cf]) @
      map (\<lambda>d. (Mem_module d, d mod hosts_of cf)) [0..<mems_of cf] \<and>
    tp_active_dram t = 1"
proof -
  let ?n = "sint (cf_host_num cf)" and ?m = "sint (cf_dram_num cf)"
  let ?t0 = "new_controller (top_blank ?n ?m)"
  have nn: "\<not> ?n < 0" "\<not> ?m < 0" using assms by (simp_all add: buildable_def)
  have t0: "tp_clock ?t0 = []" "tp_host_num ?t0 = ?n" "tp_dram_num ?t0 = ?m" "tp_active_dram ?t0 = 0"
    by (simp_all add: new_controller_def top_blank_def)
  obtain t1 where t1: "efold top_host [0..<hosts_of cf] ?t0 = Inr t1" "built (hosts_of cf) 0 t1"
      "tp_clock t1 = concat (map host_clocks [0..<hosts_of cf])" "tp_host_num t1 = ?n"
    using built_hosts [OF built_start [of ?n ?m], of "hosts_of cf"] t0 by auto
  obtain cf2 t2 where t2: "efold top_mem [0..<mems_of cf] (cf, t1) = Inr (cf2, t2)"
      "built (hosts_of cf) (mems_of cf) t2"
      "tp_clock t2 = tp_clock t1 @ map (\<lambda>d. (Mem_module d, d mod hosts_of cf)) [0..<mems_of cf]"
  proof (cases "mems_of cf = 0")
    case True
    then show thesis using that [of cf t1] t1 by simp
  next
    case False
    then have "?n \<noteq> 0" using assms by (auto simp: buildable_def mems_of_def)
    then have pos: "0 < tp_host_num t1" using t1(4) nn by simp
    have "nat (int d mod tp_host_num t1) = d mod hosts_of cf" for d
      using t1(4) nn by (simp add: hosts_of_def nat_mod_distrib)
    then show thesis using that built_mems [OF t1(2) pos, of "mems_of cf" cf] by auto
  qed
  have "top_construct cf = Inr (cf2, t2\<lparr>tp_active_dram := tp_active_dram t2 OR 1\<rparr>)"
    using nn t1(1) t2(1) by (simp add: top_construct_def get_host_num_def get_dram_num_def hosts_of_def mems_of_def Let_def)
  then show ?thesis using t2 t1(3) by (auto simp: built_def)
qed

section \<open>The end of elaboration\<close>

lemma no_hierarch_init: "mi_hierarch_bind (inits w i) = None \<Longrightarrow> mi_get_hierarch_bind w i = Some i"
  by (subst mi_get_hierarch_bind.simps) simp

lemma no_hierarch_tgt: "mt_hierarch_bind (tgts w u) = None \<Longrightarrow> mt_get_hierarch_bind w u = Some u"
  by (subst mt_get_hierarch_bind.simps) simp

definition ready_init :: "sock \<Rightarrow> (sock, callback) multi_init \<Rightarrow> (sock, callback) multi_init" where
  "ready_init i s = s\<lparr>mi_export := (if mi_export s = None then Some (Bw_dummy i) else mi_export s),
     mi_used_sockets := mi_sockets s, mi_binders := map (bw_set_callbacks i) (mi_binders s)\<rparr>"

lemma beoe_flat:
  assumes "mi_hierarch_bind (inits w i) = None" "\<not> mi_beoe_disabled (inits w i)"
  shows "beoe_step i w = Inr (w\<lparr>inits := (inits w)(i := ready_init i (inits w i))\<rparr>)"
  using assms
  by (simp add: beoe_step_def mi_before_end_of_elaboration_def no_hierarch_init upd_init_def ready_init_def Let_def)

lemma ready_init_flat [simp]:
  "mi_hierarch_bind (ready_init i s) = mi_hierarch_bind s" "mi_beoe_disabled (ready_init i s) = mi_beoe_disabled s"
  "ready_init i (ready_init i s) = ready_init i s"
  by (simp_all add: ready_init_def bw_set_callbacks_def)

lemma beoe_all:
  assumes "\<forall>i. mi_hierarch_bind (inits w i) = None \<and> \<not> mi_beoe_disabled (inits w i)"
  shows "efold beoe_step is w = Inr (w\<lparr>inits := (\<lambda>i. if i \<in> set is then ready_init i (inits w i) else inits w i)\<rparr>)"
  using assms
proof (induction "is" arbitrary: w)
  case (Cons i "is")
  define w1 where "w1 = w\<lparr>inits := (inits w)(i := ready_init i (inits w i))\<rparr>"
  have step: "beoe_step i w = Inr w1" unfolding w1_def by (rule beoe_flat) (use Cons.prems in simp_all)
  have "\<forall>j. mi_hierarch_bind (inits w1 j) = None \<and> \<not> mi_beoe_disabled (inits w1 j)"
    using Cons.prems by (simp add: w1_def)
  note more = Cons.IH [OF this]
  have "(\<lambda>j. if j \<in> set is then ready_init j (inits w1 j) else inits w1 j) =
        (\<lambda>j. if j \<in> set (i # is) then ready_init j (inits w j) else inits w j)"
    by (auto simp: w1_def fun_eq_iff)
  then show ?case using step more by (simp add: w1_def)
qed simp

text \<open>Ports that are registered change nothing but the caller that a binder remembers.\<close>

definition same_binders :: "(sock, callback) multi_target \<Rightarrow> (sock, callback) multi_target \<Rightarrow> bool" where
  "same_binders s s' \<longleftrightarrow> s'\<lparr>mt_binders := []\<rparr> = s\<lparr>mt_binders := []\<rparr> \<and>
     map fb_id (mt_binders s') = map fb_id (mt_binders s)"

lemma register_port_same: "same_binders (tgts w u) (tgts (mt_register_port t k q w) u)"
proof -
  have "map fb_id ((mt_binders s)[k := fw_register_port q (mt_binders s ! k)]) = map fb_id (mt_binders s)"
    for s :: "(sock, callback) multi_target"
    by (cases "k < length (mt_binders s)") (simp_all add: map_update fw_register_port_def list_update_same_conv list_update_beyond)
  then show ?thesis by (simp add: same_binders_def mt_register_port_def upd_tgt_def)
qed

lemma register_ports:
  "inits (foldl (\<lambda>w (t, k, q). mt_register_port t k q w) w rs) = inits w \<and>
   init_port (foldl (\<lambda>w (t, k, q). mt_register_port t k q w) w rs) = init_port w \<and>
   tgt_port (foldl (\<lambda>w (t, k, q). mt_register_port t k q w) w rs) = tgt_port w \<and>
   (\<forall>u. same_binders (tgts w u) (tgts (foldl (\<lambda>w (t, k, q). mt_register_port t k q w) w rs) u))"
proof (induction rs arbitrary: w)
  case Nil
  then show ?case by (simp add: same_binders_def)
next
  case (Cons r rs)
  obtain t k q where r: "r = (t, k, q)" by (cases r)
  have "inits (mt_register_port t k q w) = inits w" "tgt_port (mt_register_port t k q w) = tgt_port w"
    "init_port (mt_register_port t k q w) = init_port w"
    by (simp_all add: mt_register_port_def upd_tgt_def)
  then show ?case
    using Cons.IH [of "mt_register_port t k q w"] register_port_same [of w _ t k q] r
    by (simp add: same_binders_def)
qed

definition ready_tgt :: "sock \<Rightarrow> (sock, callback) multi_target \<Rightarrow> (sock, callback) multi_target" where
  "ready_tgt u s = s\<lparr>mt_binders := map (fw_set_callbacks u) (mt_binders s),
     mt_sockets := mt_sockets s @ map (\<lambda>k. the (mt_multi_binds s k)) [0..<length (mt_binders s)]\<rparr>"

lemma eoe_binder_bound:
  assumes "mt_multi_binds (tgts w u) k = Some b"
  shows "eoe_binder u u k w = Inr (w\<lparr>tgts := (tgts w)(u := (tgts w u)\<lparr>
    mt_binders := (mt_binders (tgts w u))[k := fw_set_callbacks u (mt_binders (tgts w u) ! k)],
    mt_sockets := mt_sockets (tgts w u) @ [b]\<rparr>)\<rparr>)"
  using assms by (simp add: eoe_binder_def upd_tgt_def Let_def)

lemma eoe_binders:
  assumes "\<forall>k < length (mt_binders (tgts w u)). mt_multi_binds (tgts w u) k \<noteq> None"
    and "n \<le> length (mt_binders (tgts w u))"
  shows "efold (eoe_binder u u) [0..<n] w = Inr (w\<lparr>tgts := (tgts w)(u := (tgts w u)\<lparr>
      mt_binders := map (fw_set_callbacks u) (take n (mt_binders (tgts w u))) @ drop n (mt_binders (tgts w u)),
      mt_sockets := mt_sockets (tgts w u) @ map (\<lambda>k. the (mt_multi_binds (tgts w u) k)) [0..<n]\<rparr>)\<rparr>)"
  using assms(2)
proof (induction n)
  case 0
  then show ?case by simp
next
  case (Suc n)
  let ?bs = "mt_binders (tgts w u)"
  have n: "n < length ?bs" using Suc.prems by simp
  obtain b where b: "mt_multi_binds (tgts w u) n = Some b" using assms(1) n by auto
  have upd: "(map (fw_set_callbacks u) (take n ?bs) @ drop n ?bs)[n := fw_set_callbacks u (?bs ! n)] =
      map (fw_set_callbacks u) (take (Suc n) ?bs) @ drop (Suc n) ?bs"
    using n by (simp add: list_update_append take_Suc_conv_app_nth Cons_nth_drop_Suc [symmetric])
  have at: "(map (fw_set_callbacks u) (take n ?bs) @ drop n ?bs) ! n = ?bs ! n"
    using n by (simp add: nth_append)
  let ?w = "w\<lparr>tgts := (tgts w)(u := (tgts w u)\<lparr>
      mt_binders := map (fw_set_callbacks u) (take n ?bs) @ drop n ?bs,
      mt_sockets := mt_sockets (tgts w u) @ map (\<lambda>k. the (mt_multi_binds (tgts w u) k)) [0..<n]\<rparr>)\<rparr>"
  have first: "efold (eoe_binder u u) [0..<n] w = Inr ?w" using Suc.IH n by (simp only: less_imp_le)
  have "mt_multi_binds (tgts ?w u) n = Some b" using b by simp
  from eoe_binder_bound [OF this] have "eoe_binder u u n ?w = Inr (w\<lparr>tgts := (tgts w)(u := (tgts w u)\<lparr>
      mt_binders := map (fw_set_callbacks u) (take (Suc n) ?bs) @ drop (Suc n) ?bs,
      mt_sockets := mt_sockets (tgts w u) @ map (\<lambda>k. the (mt_multi_binds (tgts w u) k)) [0..<Suc n]\<rparr>)\<rparr>)"
    using upd at b by simp
  then show ?case
    unfolding upt_Suc_append [OF le0] efold_append first ebind_simps(2) by (simp add: fun_upd_def)
qed

lemma eoe_flat:
  assumes "mt_hierarch_bind (tgts w u) = None" "\<not> mt_eoe_disabled (tgts w u)"
    and "\<not> mt_export_callback_created (tgts w u)"
    and "\<forall>k < length (mt_binders (tgts w u)). mt_multi_binds (tgts w u) k \<noteq> None"
  shows "eoe_step u w = Inr (w\<lparr>tgts := (tgts w)(u := ready_tgt u (tgts w u))\<rparr>)"
  using assms eoe_binders [OF assms(4) order_refl]
  by (simp add: eoe_step_def mt_end_of_elaboration_def no_hierarch_tgt ready_tgt_def Let_def)

lemma eoe_unbound:
  assumes "mt_hierarch_bind (tgts w u) = None" "\<not> mt_eoe_disabled (tgts w u)"
    and "mt_export_callback_created (tgts w u)" "length (mt_binders (tgts w u)) = 1"
  shows "eoe_step u w = Inr w"
  using assms by (simp add: eoe_step_def mt_end_of_elaboration_def no_hierarch_tgt Let_def)

text \<open>A target socket of \<open>Top\<close> is either completely bound or, the controller's without a host, not at all.\<close>

definition fully_bound :: "(sock, callback) multi_target \<Rightarrow> bool" where
  "fully_bound s \<longleftrightarrow> \<not> mt_export_callback_created s \<and> (\<forall>k < length (mt_binders s). mt_multi_binds s k \<noteq> None)"

definition settled :: "(sock, callback) multi_target \<Rightarrow> bool" where
  "settled s \<longleftrightarrow> mt_hierarch_bind s = None \<and> \<not> mt_eoe_disabled s \<and>
     (fully_bound s \<or> mt_export_callback_created s \<and> length (mt_binders s) = 1)"

lemma eoe_all:
  assumes "\<forall>u. settled (tgts w u)" "distinct ts"
  shows "efold eoe_step ts w =
    Inr (w\<lparr>tgts := (\<lambda>u. if u \<in> set ts \<and> fully_bound (tgts w u) then ready_tgt u (tgts w u) else tgts w u)\<rparr>)"
  using assms
proof (induction ts arbitrary: w)
  case (Cons u ts)
  define s1 where "s1 = (if fully_bound (tgts w u) then ready_tgt u (tgts w u) else tgts w u)"
  define w1 where "w1 = w\<lparr>tgts := (tgts w)(u := s1)\<rparr>"
  have step: "eoe_step u w = Inr w1"
  proof (cases "fully_bound (tgts w u)")
    case True
    then show ?thesis
      using Cons.prems(1) by (subst eoe_flat) (auto simp: settled_def fully_bound_def w1_def s1_def)
  next
    case False
    then show ?thesis
      using Cons.prems(1) by (subst eoe_unbound) (auto simp: settled_def w1_def s1_def)
  qed
  have "settled s1"
    using Cons.prems(1) by (auto simp: s1_def settled_def fully_bound_def ready_tgt_def)
  then have "\<forall>v. settled (tgts w1 v)" using Cons.prems(1) by (simp add: w1_def)
  note more = Cons.IH [OF this]
  have "(\<lambda>v. if v \<in> set ts \<and> fully_bound (tgts w1 v) then ready_tgt v (tgts w1 v) else tgts w1 v) =
        (\<lambda>v. if v \<in> set (u # ts) \<and> fully_bound (tgts w v) then ready_tgt v (tgts w v) else tgts w v)"
    using Cons.prems(2) by (auto simp: w1_def s1_def fun_eq_iff)
  then show ?case using step more Cons.prems(2) by (simp add: w1_def)
qed simp

section \<open>What calls reach\<close>

lemma built_init_flat: "mi_hierarch_bind (built_init n m i) = None" "\<not> mi_beoe_disabled (built_init n m i)"
  by (cases i; simp add: built_init_def joined_def mi_new_def)+

lemma settled_accepting: "settled (accepting u cb is)" "fully_bound (accepting u cb is) \<longleftrightarrow> is \<noteq> []"
  by (auto simp: settled_def fully_bound_def accepting_def mt_new_def)

lemma settled_new: "settled mt_new"
  by (simp add: settled_def fully_bound_def mt_new_def)

lemma built_tgt_settled: "settled (built_tgt n u)"
  by (cases u) (simp_all add: built_tgt_def settled_accepting settled_new)

lemma same_bindersD:
  assumes "same_binders s s'"
  shows "s' = s\<lparr>mt_binders := mt_binders s'\<rparr>" "length (mt_binders s') = length (mt_binders s)"
    "map fb_id (mt_binders s') = map fb_id (mt_binders s)"
proof -
  have "s'\<lparr>mt_binders := mt_binders s'\<rparr> = (s'\<lparr>mt_binders := []\<rparr>)\<lparr>mt_binders := mt_binders s'\<rparr>" by simp
  also have "\<dots> = (s\<lparr>mt_binders := []\<rparr>)\<lparr>mt_binders := mt_binders s'\<rparr>"
    using assms by (simp only: same_binders_def)
  finally show "s' = s\<lparr>mt_binders := mt_binders s'\<rparr>" by simp
  show "map fb_id (mt_binders s') = map fb_id (mt_binders s)" using assms by (simp add: same_binders_def)
  then show "length (mt_binders s') = length (mt_binders s)" by (metis length_map)
qed

lemma same_binders_settled:
  assumes "same_binders s s'"
  shows "settled s' = settled s" "fully_bound s' = fully_bound s"
proof -
  define bs where "bs = mt_binders s'"
  have s': "s' = s\<lparr>mt_binders := bs\<rparr>" "length bs = length (mt_binders s)"
    using same_bindersD [OF assms] by (simp_all add: bs_def)
  then show "settled s' = settled s" "fully_bound s' = fully_bound s"
    by (simp_all add: settled_def fully_bound_def)
qed

text \<open>The world after elaboration.\<close>

definition elaborated :: "nat \<Rightarrow> nat \<Rightarrow> sock list \<Rightarrow> sock list \<Rightarrow> (sock, callback) sockets \<Rightarrow> bool" where
  "elaborated n m is ts w \<longleftrightarrow>
     (\<forall>i\<in>set is. inits w i = ready_init i (built_init n m i)) \<and>
     (\<forall>u\<in>set ts. fully_bound (built_tgt n u) \<longrightarrow>
        (\<exists>s. same_binders (built_tgt n u) s \<and> tgts w u = ready_tgt u s)) \<and>
     init_port w = (\<lambda>s. mi_sockets (built_init n m s)) \<and> tgt_port w = built_port n m"

lemma elaborate_built:
  assumes "built n m t" "distinct ts"
  shows "\<exists>w. elaborate is rs ts (tp_socks t) = Inr w \<and> elaborated n m is ts w"
proof -
  let ?w = "tp_socks t"
  define w1 where "w1 = ?w\<lparr>inits := (\<lambda>i. if i \<in> set is then ready_init i (built_init n m i) else built_init n m i)\<rparr>"
  have i0: "inits ?w = built_init n m" and t0: "tgts ?w = built_tgt n" using assms by (simp_all add: built_def)
  have one: "efold beoe_step is ?w = Inr w1"
    unfolding w1_def by (rule beoe_all [of ?w "is", unfolded i0]) (simp add: built_init_flat)
  define w2 where "w2 = foldl (\<lambda>w (t, k, q). mt_register_port t k q w) w1 rs"
  have w2: "inits w2 = inits w1" "tgt_port w2 = tgt_port ?w" "\<And>u. same_binders (built_tgt n u) (tgts w2 u)"
      "init_port w2 = init_port ?w"
    using register_ports [of w1 rs] t0 by (simp_all add: w2_def w1_def)
  have "\<forall>u. settled (tgts w2 u)"
    using same_binders_settled(1) [OF w2(3)] built_tgt_settled by simp
  from eoe_all [OF this assms(2)] have two: "efold eoe_step ts w2 =
      Inr (w2\<lparr>tgts := (\<lambda>u. if u \<in> set ts \<and> fully_bound (tgts w2 u) then ready_tgt u (tgts w2 u) else tgts w2 u)\<rparr>)" .
  let ?w3 = "w2\<lparr>tgts := (\<lambda>u. if u \<in> set ts \<and> fully_bound (tgts w2 u) then ready_tgt u (tgts w2 u) else tgts w2 u)\<rparr>"
  have run: "elaborate is rs ts ?w = Inr ?w3"
    using one two by (simp add: elaborate_def w2_def [symmetric])
  have "\<forall>i\<in>set is. inits ?w3 i = ready_init i (built_init n m i)"
    using w2(1) by (simp add: w1_def)
  moreover have "\<exists>s. same_binders (built_tgt n u) s \<and> tgts ?w3 u = ready_tgt u s"
    if "u \<in> set ts" "fully_bound (built_tgt n u)" for u
    using that w2(3) [of u] same_binders_settled(2) [OF w2(3), of u] by auto
  moreover have "init_port ?w3 = (\<lambda>s. mi_sockets (built_init n m s)) \<and> tgt_port ?w3 = built_port n m"
    using w2(2,4) assms(1) by (simp add: built_def w1_def)
  ultimately have "elaborated n m is ts ?w3"
    unfolding elaborated_def by blast
  with run show ?thesis by blast
qed

lemma ready_binder:
  assumes "tgts w u = ready_tgt u s" "same_binders s0 s" "k < length (mt_binders s0)" "mt_nb_f s0 = Some cb"
    and "fb_id (mt_binders s0 ! k) = k"
  shows "call_nb_transport_fw (mt_binders (tgts w u) ! k) w = Inr (cb, k)"
proof -
  define bs where "bs = mt_binders s"
  have s: "s = s0\<lparr>mt_binders := bs\<rparr>" "length bs = length (mt_binders s0)" "map fb_id bs = map fb_id (mt_binders s0)"
    using same_bindersD [OF assms(2)] by (simp_all add: bs_def)
  have "fb_id (bs ! k) = k" using s(2,3) assms(3,5) by (metis nth_map)
  then show ?thesis
    using assms(1,3,4) s by (simp add: call_nb_transport_fw_def fw_functor_def ready_tgt_def fw_set_callbacks_def)
qed

lemma ready_sockets:
  assumes "tgts w u = ready_tgt u s" "same_binders s0 s" "mt_sockets s0 = []"
  shows "mt_sockets (tgts w u) = map (\<lambda>k. the (mt_multi_binds s0 k)) [0..<length (mt_binders s0)]"
proof -
  define bs where "bs = mt_binders s"
  have "s = s0\<lparr>mt_binders := bs\<rparr>" "length bs = length (mt_binders s0)"
    using same_bindersD [OF assms(2)] by (simp_all add: bs_def)
  then show ?thesis using assms(1,3) by (simp add: ready_tgt_def)
qed

text \<open>A target socket that accepts the initiator sockets \<open>is\<close>: the calls from and to the \<open>k\<close>-th of them.\<close>

lemma accepting_reached:
  assumes "elaborated n m iss ts w" "u \<in> set ts" "built_tgt n u = accepting u cb is" "k < length is"
  shows "call_nb_transport_fw (mt_binders (tgts w u) ! k) w = Inr (cb, k)" "mt_at u k w = Inr (Bw_binder (is ! k) 0)"
proof -
  have c: "fully_bound (built_tgt n u)" using assms(3,4) settled_accepting(2) [of u cb "is"] by auto
  then obtain s where s: "same_binders (accepting u cb is) s" "tgts w u = ready_tgt u s"
    using assms(1-3) unfolding elaborated_def by metis
  have acc: "length (mt_binders (accepting u cb is)) = length is" "mt_nb_f (accepting u cb is) = Some cb"
      "fb_id (mt_binders (accepting u cb is) ! k) = k" "mt_sockets (accepting u cb is) = []"
      "mt_multi_binds (accepting u cb is) k = Some (Bw_binder (is ! k) 0)"
    using assms(4) by (auto simp: accepting_def mt_new_def fw_binder_new_def)
  show "call_nb_transport_fw (mt_binders (tgts w u) ! k) w = Inr (cb, k)"
    using ready_binder [OF s(2,1), of k cb] acc assms(4) by simp
  show "mt_at u k w = Inr (Bw_binder (is ! k) 0)"
    using ready_sockets [OF s(2,1) acc(4)] acc(1,5) assms(4) by (simp add: mt_at_def)
qed

text \<open>An initiator socket that is joined to one target socket.\<close>

lemma joined_reached:
  assumes "elaborated n m iss ts w" "i \<in> set iss" "built_init n m i = joined cb f"
  shows "first_interface (init_port w i) = Inr f" "reach_bw_if (Bw_binder i 0) w = Inr (cb, Some 0)"
proof -
  have i: "inits w i = ready_init i (joined cb f)" "init_port w i = [f]"
    using assms by (simp_all add: elaborated_def joined_def)
  then show "first_interface (init_port w i) = Inr f" "reach_bw_if (Bw_binder i 0) w = Inr (cb, Some 0)"
    by (simp_all add: first_interface_def port_new_def add_interface_def port_arrow_def reach_bw_if_def call_nb_transport_bw_def bw_functor_def ready_init_def joined_def mi_new_def
        bw_binder_new_def bw_set_callbacks_def)
qed

lemma master_reached:
  assumes "elaborated n m iss ts w" "Ctrl_master \<in> set iss"
  shows "mi_at Ctrl_master d w = (if d < m then Inr (Fw_plain (Mem_slave d)) else Inl Out_of_bounds)"
    and "d < m \<Longrightarrow> reach_bw_if (Bw_binder Ctrl_master d) w = Inr (Ctrl_nb_bw, Some d)"
proof -
  have i: "inits w Ctrl_master = ready_init Ctrl_master (built_init n m Ctrl_master)"
    using assms unfolding elaborated_def by metis
  then show "mi_at Ctrl_master d w = (if d < m then Inr (Fw_plain (Mem_slave d)) else Inl Out_of_bounds)"
    by (simp add: mi_at_def ready_init_def built_init_def mi_new_def)
  show "reach_bw_if (Bw_binder Ctrl_master d) w = Inr (Ctrl_nb_bw, Some d)" if "d < m"
    using i that by (simp add: reach_bw_if_def call_nb_transport_bw_def bw_functor_def ready_init_def built_init_def
        mi_new_def bw_binder_new_def bw_set_callbacks_def)
qed

text \<open>The sockets that take part in a simulation of \<open>n\<close> hosts.\<close>

definition init_sockets :: "nat \<Rightarrow> sock set" where
  "init_sockets n = insert Ctrl_master (Sim_master ` {..<n} \<union> Usp_master ` {..<n} \<union> Dsp_master ` {..<n})"

definition tgt_sockets :: "nat \<Rightarrow> sock set" where
  "tgt_sockets n = insert Ctrl_slave (Usp_slave ` {..<n} \<union> Dsp_slave ` {..<n})"

lemma host_path:
  assumes el: "elaborated n m is ts w" and "init_sockets n \<subseteq> set is" "tgt_sockets n \<subseteq> set ts" and i: "i < n"
  shows "reach_fw (Sim_master i) p phase d w t = Inr (Usp_nb_fw i, Some 0)"
    and "reach_fw (Usp_master i) p phase d w t = Inr (Dsp_nb_fw i, Some 0)"
    and "reach_fw (Dsp_master i) p phase d w t = Inr (Ctrl_nb_fw, Some i)"
    and "reach_bw_at Ctrl_slave i w = Inr (Dsp_nb_bw i, Some 0)"
    and "reach_bw (Dsp_slave i) w = Inr (Usp_nb_bw i, Some 0)"
    and "reach_bw (Usp_slave i) w = Inr (Sim_nb_bw i, Some 0)"
proof -
  have mem: "Sim_master i \<in> set is" "Usp_master i \<in> set is" "Dsp_master i \<in> set is"
      "Usp_slave i \<in> set ts" "Dsp_slave i \<in> set ts" "Ctrl_slave \<in> set ts"
    using assms by (auto simp: init_sockets_def tgt_sockets_def)
  have sim: "built_init n m (Sim_master i) = joined (Sim_nb_bw i) (Fw_binder (Usp_slave i) 0)"
    and usp: "built_init n m (Usp_master i) = joined (Usp_nb_bw i) (Fw_binder (Dsp_slave i) 0)"
    and dsp: "built_init n m (Dsp_master i) = joined (Dsp_nb_bw i) (Fw_binder Ctrl_slave i)"
    and usps: "built_tgt n (Usp_slave i) = accepting (Usp_slave i) (Usp_nb_fw i) [Sim_master i]"
    and dsps: "built_tgt n (Dsp_slave i) = accepting (Dsp_slave i) (Dsp_nb_fw i) [Usp_master i]"
    and ctrls: "built_tgt n Ctrl_slave = accepting Ctrl_slave Ctrl_nb_fw (map Dsp_master [0..<n])"
    using i by (simp_all add: built_init_def built_tgt_def)
  have len: "0 < length [Sim_master i]" "0 < length [Usp_master i]" "i < length (map Dsp_master [0..<n])" using i by simp_all
  have port: "tgt_port w (Usp_slave i) = [Bw_binder (Sim_master i) 0]" "tgt_port w (Dsp_slave i) = [Bw_binder (Usp_master i) 0]"
    using el i by (simp_all add: elaborated_def built_port_def)
  note u = accepting_reached [OF el mem(4) usps len(1)] accepting_reached [OF el mem(5) dsps len(2)]
    accepting_reached [OF el mem(6) ctrls len(3)]
  note j = joined_reached [OF el mem(1) sim] joined_reached [OF el mem(2) usp] joined_reached [OF el mem(3) dsp]
  show "reach_fw (Sim_master i) p phase d w t = Inr (Usp_nb_fw i, Some 0)"
    "reach_fw (Usp_master i) p phase d w t = Inr (Dsp_nb_fw i, Some 0)"
    "reach_fw (Dsp_master i) p phase d w t = Inr (Ctrl_nb_fw, Some i)"
    using u j by (simp_all add: reach_fw_def reach_fw_if_def)
  show "reach_bw_at Ctrl_slave i w = Inr (Dsp_nb_bw i, Some 0)"
    "reach_bw (Dsp_slave i) w = Inr (Usp_nb_bw i, Some 0)"
    "reach_bw (Usp_slave i) w = Inr (Sim_nb_bw i, Some 0)"
    using u j i port by (simp_all add: reach_bw_def reach_bw_at_def first_interface_def port_new_def add_interface_def
        port_arrow_def)
qed

lemma mem_path:
  assumes el: "elaborated n m is ts w" and "Ctrl_master \<in> set is" and b: "built n m t"
  shows "reach_fw_at Ctrl_master k p phase d w t = (if k < m then Inr (Mem_nb_fw k, None) else Inl Out_of_bounds)"
    and "k < m \<Longrightarrow> reach_mem_bw k p phase d w t = Inr (Ctrl_nb_bw, Some k)"
proof -
  note c = master_reached [OF assms(1,2)]
  have mem: "tp_mems t k = (st_new Not_pending)\<lparr>st_mod := Some (Mem_module k), st_nb_transport := Some (Mem_nb_fw k)\<rparr>"
    if "k < m" using b that by (simp add: built_def)
  show "reach_fw_at Ctrl_master k p phase d w t = (if k < m then Inr (Mem_nb_fw k, None) else Inl Out_of_bounds)"
    using c(1) [of k] mem by (simp add: reach_fw_at_def reach_fw_if_def st_nb_transport_fw_def call_mod_def)
  show "reach_mem_bw k p phase d w t = Inr (Ctrl_nb_bw, Some k)" if "k < m"
  proof -
    have "tgt_port w (Mem_slave k) = [Bw_binder Ctrl_master k]" using el that by (simp add: elaborated_def built_port_def)
    then show ?thesis
      using mem c(2) [of k] that
      by (simp add: reach_mem_bw_def reach_bw_def first_interface_def st_nb_transport_bw_def st_new_def port_new_def add_interface_def port_arrow_def)
  qed
qed

text \<open>
  C15. For every configuration with a host, or without a memory, \<open>Top\<close> can be built and elaborated, in whatever
  order the kernel calls the sockets, and each socket is joined to the right module: the modules of
  host \<open>i\<close> reach one another with index 0, the controller is called with the index of the host and reaches
  the port of that host under it, memory \<open>k\<close> is reached under the index \<open>k\<close> and calls back with
  it, and an index beyond the memories reaches nothing.
\<close>

theorem top_wired:
  assumes "buildable cf" "distinct ts"
    and "init_sockets (hosts_of cf) \<subseteq> set is" "tgt_sockets (hosts_of cf) \<subseteq> set ts"
  shows "\<exists>cf' t w. top_construct cf = Inr (cf', t) \<and> elaborate is rs ts (tp_socks t) = Inr w \<and>
    (\<forall>p phase d. \<forall>i < hosts_of cf.
       reach_fw (Sim_master i) p phase d w t = Inr (Usp_nb_fw i, Some 0) \<and>
       reach_fw (Usp_master i) p phase d w t = Inr (Dsp_nb_fw i, Some 0) \<and>
       reach_fw (Dsp_master i) p phase d w t = Inr (Ctrl_nb_fw, Some i) \<and>
       reach_bw_at Ctrl_slave i w = Inr (Dsp_nb_bw i, Some 0) \<and>
       reach_bw (Dsp_slave i) w = Inr (Usp_nb_bw i, Some 0) \<and>
       reach_bw (Usp_slave i) w = Inr (Sim_nb_bw i, Some 0)) \<and>
    (\<forall>p phase d k. reach_fw_at Ctrl_master k p phase d w t =
       (if k < mems_of cf then Inr (Mem_nb_fw k, None) else Inl Out_of_bounds)) \<and>
    (\<forall>p phase d. \<forall>k < mems_of cf. reach_mem_bw k p phase d w t = Inr (Ctrl_nb_bw, Some k))"
proof -
  obtain cf' t where t: "top_construct cf = Inr (cf', t)" "built (hosts_of cf) (mems_of cf) t"
    using built_top [OF assms(1)] by blast
  obtain w where w: "elaborate is rs ts (tp_socks t) = Inr w" "elaborated (hosts_of cf) (mems_of cf) is ts w"
    using elaborate_built [OF t(2) assms(2)] by blast
  have c: "Ctrl_master \<in> set is" using assms(3) by (auto simp: init_sockets_def)
  show ?thesis
    using t(1) w(1) host_path [OF w(2) assms(3,4)] mem_path [OF w(2) c t(2)]
    by (intro exI [of _ cf'] exI [of _ t] exI [of _ w]) simp
qed

definition two_by_two :: config where
  "two_by_two = \<lparr>cf_flit_mode = 68, cf_flit_size = 64, cf_packet_size = 1024, cf_dram_req_size = 64,
     cf_port_latency = 25, cf_link_latency = 2, cf_dev_ic_latency = 15, cf_host_num = 2, cf_dram_num = 2,
     cf_link_efficiency = 1, cf_raw_bandwidth = 32, cf_link_bandwidth = 32, cf_dram_map = Map.empty,
     cf_cpu_map = Map.empty\<rparr>"

lemma top_wired_witness:
  "\<exists>cf' t w. top_construct two_by_two = Inr (cf', t) \<and>
     elaborate [Ctrl_master, Dsp_master 1, Dsp_master 0, Usp_master 0, Usp_master 1, Sim_master 0, Sim_master 1] []
       [Dsp_slave 0, Ctrl_slave, Usp_slave 0, Usp_slave 1, Dsp_slave 1] (tp_socks t) = Inr w \<and>
     reach_fw (Dsp_master 1) 7 BEGIN_REQ 0 w t = Inr (Ctrl_nb_fw, Some 1) \<and>
     reach_mem_bw 1 7 BEGIN_RESP 0 w t = Inr (Ctrl_nb_bw, Some 1)"
proof -
  have n: "hosts_of two_by_two = 2" "mems_of two_by_two = 2" "buildable two_by_two"
    by (simp_all add: hosts_of_def mems_of_def buildable_def two_by_two_def)
  have two: "{..<2 :: nat} = {0, 1}" by auto
  let ?is = "[Ctrl_master, Dsp_master 1, Dsp_master 0, Usp_master 0, Usp_master 1, Sim_master 0, Sim_master 1]"
  let ?ts = "[Dsp_slave 0, Ctrl_slave, Usp_slave 0, Usp_slave 1, Dsp_slave 1]"
  have "init_sockets (hosts_of two_by_two) \<subseteq> set ?is" "tgt_sockets (hosts_of two_by_two) \<subseteq> set ?ts" "distinct ?ts"
    by (simp_all add: init_sockets_def tgt_sockets_def n two)
  note wired = top_wired [OF n(3) this(3,1,2), of "[]"]
  have lt: "1 < hosts_of two_by_two" "1 < mems_of two_by_two" using n by simp_all
  from wired obtain cf' t w where "top_construct two_by_two = Inr (cf', t)" "elaborate ?is [] ?ts (tp_socks t) = Inr w"
    "reach_fw (Dsp_master 1) 7 BEGIN_REQ 0 w t = Inr (Ctrl_nb_fw, Some 1)"
    "reach_mem_bw 1 7 BEGIN_RESP 0 w t = Inr (Ctrl_nb_bw, Some 1)"
    using lt by blast
  then show ?thesis by blast
qed

section \<open>Clocks and deletion\<close>

lemma delete_all_full: "delete_all (map Some ms) = (ms, replicate (length ms) None)"
  by (induction ms) simp_all

lemma delete_all_none: "delete_all (replicate n None) = ([], replicate n None)"
  by (induction n) simp_all

lemma host_clocks_index: "(x, k) \<in> set (concat (map host_clocks [0..<n])) \<longleftrightarrow>
    k < n \<and> x \<in> {Host_module k, Usp_module k, Dsp_module k}"
  by (auto simp: host_clocks_def)

text \<open>
  C33. The modules of host \<open>i\<close> run on the clock \<open>i\<close>, memory \<open>d\<close> on the clock \<open>d\<close> modulo the number of hosts, and no
  module is bound to a second clock; the counter of active cores is the number of hosts; and the end of the
  program deletes each module exactly once, so that a second end deletes nothing.
\<close>

theorem top_modules:
  assumes "buildable cf"
  shows "\<exists>cf' t. top_construct cf = Inr (cf', t) \<and>
    set (tp_clock t) = (\<Union>i<hosts_of cf. {(Host_module i, i), (Usp_module i, i), (Dsp_module i, i)}) \<union>
      (\<lambda>d. (Mem_module d, d mod hosts_of cf)) ` {..<mems_of cf} \<and>
    distinct (map fst (tp_clock t)) \<and> (\<forall>(x, k)\<in>set (tp_clock t). k < hosts_of cf) \<and>
    tp_active_cores t = cf_host_num cf \<and> tp_active_dram t = 1 \<and>
    distinct (fst (top_finish t)) \<and>
    set (fst (top_finish t)) = insert Ctrl_module (Host_module ` {..<hosts_of cf} \<union> Usp_module ` {..<hosts_of cf} \<union>
      Dsp_module ` {..<hosts_of cf} \<union> Mem_module ` {..<mems_of cf}) \<and>
    fst (top_finish (snd (top_finish t))) = []"
proof -
  let ?n = "hosts_of cf" and ?m = "mems_of cf"
  obtain cf' t where t: "top_construct cf = Inr (cf', t)" "built ?n ?m t" "tp_active_dram t = 1"
      "tp_clock t = concat (map host_clocks [0..<?n]) @ map (\<lambda>d. (Mem_module d, d mod ?n)) [0..<?m]"
    using built_top [OF assms] by blast
  have clocks: "set (tp_clock t) = (\<Union>i<?n. {(Host_module i, i), (Usp_module i, i), (Dsp_module i, i)}) \<union>
      (\<lambda>d. (Mem_module d, d mod ?n)) ` {..<?m}"
    by (auto simp: t(4) host_clocks_def)
  have hosts: "distinct (map fst (concat (map host_clocks [0..<k])))" for k
  proof (induction k)
    case (Suc k)
    then show ?case using host_clocks_index [of _ _ k] by (force simp: host_clocks_def)
  qed simp
  have one: "distinct (map fst (tp_clock t))"
    using hosts [of ?n] by (auto simp: t(4) host_clocks_def comp_def distinct_map inj_on_def)
  have "?m = 0 \<or> 0 < ?n" using assms by (auto simp: buildable_def hosts_of_def mems_of_def)
  then have range: "\<forall>(x, k)\<in>set (tp_clock t). k < ?n" by (auto simp: clocks)
  have cores: "of_nat ?n = cf_host_num cf"
    using assms by (simp add: buildable_def hosts_of_def)
  have none: "map (\<lambda>i. Some (f i)) xs = map Some (map f xs)" for f :: "nat \<Rightarrow> sim_module" and xs by simp
  have fin: "fst (top_finish t) = map Host_module [0..<?n] @ map Usp_module [0..<?n] @ map Dsp_module [0..<?n] @
      [Ctrl_module] @ map Mem_module [0..<?m]"
    using t(2) unfolding built_def none by (simp add: top_finish_def delete_all_full del: map_map)
  have again: "fst (top_finish (snd (top_finish t))) = []"
    using t(2) unfolding built_def none by (simp add: top_finish_def delete_all_full delete_all_none del: map_map)
  have dist: "distinct (fst (top_finish t))" by (auto simp: fin distinct_map inj_on_def)
  have all: "set (fst (top_finish t)) = insert Ctrl_module (Host_module ` {..<?n} \<union> Usp_module ` {..<?n} \<union>
      Dsp_module ` {..<?n} \<union> Mem_module ` {..<?m})" by (auto simp: fin)
  have "tp_active_cores t = cf_host_num cf" using t(2) cores by (simp add: built_def)
  with t(1,3) clocks one range again dist all show ?thesis by (intro exI [of _ cf'] exI [of _ t] conjI)
qed

lemma top_modules_witness:
  "\<exists>cf' t. top_construct two_by_two = Inr (cf', t) \<and> (Mem_module 1, 1) \<in> set (tp_clock t) \<and>
     fst (top_finish (snd (top_finish t))) = []"
proof -
  have n: "hosts_of two_by_two = 2" "mems_of two_by_two = 2" "buildable two_by_two"
    by (simp_all add: hosts_of_def mems_of_def buildable_def two_by_two_def)
  obtain cf' t where t: "top_construct two_by_two = Inr (cf', t)"
    "set (tp_clock t) = (\<Union>i<hosts_of two_by_two. {(Host_module i, i), (Usp_module i, i), (Dsp_module i, i)}) \<union>
      (\<lambda>d. (Mem_module d, d mod hosts_of two_by_two)) ` {..<mems_of two_by_two}"
    "fst (top_finish (snd (top_finish t))) = []"
    using top_modules [OF n(3)] by (elim exE conjE) (rule that; assumption)
  have "(Mem_module 1, 1) \<in> set (tp_clock t)" unfolding t(2) n by (auto intro!: image_eqI [of _ _ 1])
  then show ?thesis using t(1,3) by (intro exI [of _ cf'] exI [of _ t] conjI)
qed

text \<open>A configuration without a host but with a memory: the index of the clock is a remainder by zero.\<close>

theorem top_without_host:
  assumes "cf_host_num cf = 0" "0 < sint (cf_dram_num cf)"
  shows "top_construct cf = Inl Division_by_zero"
proof -
  let ?t = "new_controller (top_blank 0 (sint (cf_dram_num cf)))"
  have "[0..<nat (sint (cf_dram_num cf))] = 0 # [1..<nat (sint (cf_dram_num cf))]"
    using assms(2) by (simp add: upt_conv_Cons)
  moreover have "top_mem 0 (cf, ?t) = Inl Division_by_zero"
    by (auto simp: top_mem_def new_mem_wrapper_def st_register_nb_transport_fw_def set_nb_transport_ptr_def
        st_set_mod_def st_new_def new_controller_def top_blank_def split: prod.splits)
  ultimately show ?thesis
    using assms by (simp add: top_construct_def get_host_num_def get_dram_num_def)
qed

end
