(* ===== verification/Sc_Time.thy ===== *)
theory Sc_Time
  imports Configuration
begin

text \<open>
  Simulated time as the kernel represents it (\<open>sysc/kernel/sc_time.h\<close>): a 64-bit number of units of the
  time resolution. The comparisons make it a linear order; sums and differences wrap; a product with a
  \<open>double\<close> is rounded. The entry point prints the time of the end in nanoseconds, with a resolution
  of a picosecond (\<open>sc_main.cpp\<close>).
\<close>

section \<open>Operations\<close>

datatype sc_time = Sc_time (sc_value: u64)

definition sc_zero :: sc_time where "sc_zero = Sc_time 0"
definition sc_copy :: "sc_time \<Rightarrow> sc_time" where "sc_copy t = Sc_time (sc_value t)"

definition sc_eq :: "sc_time \<Rightarrow> sc_time \<Rightarrow> bool" where "sc_eq s t \<longleftrightarrow> sc_value s = sc_value t"
definition sc_neq :: "sc_time \<Rightarrow> sc_time \<Rightarrow> bool" where "sc_neq s t \<longleftrightarrow> sc_value s \<noteq> sc_value t"
definition sc_less :: "sc_time \<Rightarrow> sc_time \<Rightarrow> bool" where "sc_less s t \<longleftrightarrow> sc_value s < sc_value t"
definition sc_le :: "sc_time \<Rightarrow> sc_time \<Rightarrow> bool" where "sc_le s t \<longleftrightarrow> sc_value s \<le> sc_value t"
definition sc_greater :: "sc_time \<Rightarrow> sc_time \<Rightarrow> bool" where "sc_greater s t \<longleftrightarrow> sc_value t < sc_value s"
definition sc_ge :: "sc_time \<Rightarrow> sc_time \<Rightarrow> bool" where "sc_ge s t \<longleftrightarrow> sc_value t \<le> sc_value s"

definition sc_plus :: "sc_time \<Rightarrow> sc_time \<Rightarrow> sc_time" where "sc_plus s t = Sc_time (sc_value s + sc_value t)"
definition sc_minus :: "sc_time \<Rightarrow> sc_time \<Rightarrow> sc_time" where "sc_minus s t = Sc_time (sc_value s - sc_value t)"

definition sc_mod :: "sc_time \<Rightarrow> sc_time \<Rightarrow> sim_error + sc_time" where
  "sc_mod s t = (if sc_value t = 0 then Inl Division_by_zero else Inr (Sc_time (sc_value s mod sc_value t)))"

definition sc_to_double :: "sc_time \<Rightarrow> rat" where
  "sc_to_double t = dround (of_nat (unat (sc_value t)))"

text \<open>\<open>static_cast<int64>\<close> of a \<open>double\<close>: towards zero, undefined when the result does not fit.\<close>

definition cast_int64 :: "rat \<Rightarrow> sim_error + u64" where
  "cast_int64 x = (let n = (if 0 \<le> x then \<lfloor>x\<rfloor> else \<lceil>x\<rceil>) in
     if - (2 ^ 63) \<le> n \<and> n < 2 ^ 63 then Inr (of_int n) else Inl Int_overflow)"

definition sc_scale :: "sc_time \<Rightarrow> rat \<Rightarrow> sim_error + sc_time" where
  "sc_scale t d = ebind (cast_int64 (dround (dround (sc_to_double t * d) + 1 / 2))) (\<lambda>v. Inr (Sc_time v))"

text \<open>The quotient by zero is an infinity or not a number.\<close>

definition sc_unscale :: "sc_time \<Rightarrow> rat \<Rightarrow> sim_error + sc_time" where
  "sc_unscale t d =
     (if d = 0 then Inl Int_overflow
      else ebind (cast_int64 (dround (dround (sc_to_double t / d) + 1 / 2))) (\<lambda>v. Inr (Sc_time v)))"

definition sc_ratio :: "sc_time \<Rightarrow> sc_time \<Rightarrow> rat option" where
  "sc_ratio s t = (if sc_value t = 0 then None else Some (dround (sc_to_double s / sc_to_double t)))"

text \<open>The line that \<open>sc_main\<close> prints at the end: \<open>(uint64_t) (sc_time_stamp ().to_double () / 1000)\<close>.\<close>

definition simulated_ns :: "sc_time \<Rightarrow> u64" where
  "simulated_ns t = of_int \<lfloor>dround (sc_to_double t / 1000)\<rfloor>"

text \<open>The comparisons of the code are a linear order.\<close>

instantiation sc_time :: linorder
begin

definition less_eq_sc_time :: "sc_time \<Rightarrow> sc_time \<Rightarrow> bool" where "less_eq_sc_time = sc_le"
definition less_sc_time :: "sc_time \<Rightarrow> sc_time \<Rightarrow> bool" where "less_sc_time = sc_less"

instance
  by standard
    (auto simp: less_eq_sc_time_def less_sc_time_def sc_le_def sc_less_def sc_time.expand)

end

section \<open>Rounding to 53 bits\<close>

lemma round_even_error: "\<bar>of_int (round_even x) - x\<bar> \<le> 1 / 2"
proof -
  have "of_int \<lfloor>x\<rfloor> \<le> x" "x < of_int \<lfloor>x\<rfloor> + 1" using floor_correct [of x] by auto
  then show ?thesis by (auto simp: round_even_def Let_def abs_le_iff)
qed

text \<open>A number below \<open>2 ^ 53\<close> is rounded to a multiple of \<open>2 ^ - k\<close>, where \<open>k\<close> depends on its size.\<close>

lemma dround_unit:
  assumes "0 < x" and "x < 2 ^ Suc m" and "m \<le> 52"
  obtains k where "52 - m \<le> k" and "dround x = of_int (round_even (x * 2 ^ k)) / 2 ^ k"
proof -
  define e where "e = flog2 x"
  have "2 powi e \<le> x" unfolding e_def by (rule flog2_bounds [OF assms(1)])
  then have "(2::rat) powi e < 2 powi (int (Suc m))" using assms(2) by (simp only: power_int_of_nat)
  then have e: "e < int (Suc m)" by (rule powi_less_exp)
  define k where "k = nat (52 - e)"
  have k: "e - 52 = - int k" "52 - m \<le> k" using e assms(3) by (auto simp: k_def)
  have u: "(2::rat) powi (e - 52) = 1 / 2 ^ k" unfolding k by (simp add: power_int_minus divide_inverse)
  have "dround x = of_int (round_even (x * 2 ^ k)) / 2 ^ k"
    using assms(1) by (simp add: dround_def e_def [symmetric] Let_def u)
  with k(2) show thesis by (rule that)
qed

lemma dround_nat:
  assumes "n < 2 ^ 53"
  shows "dround (of_nat n) = of_nat n"
proof (cases "n = 0")
  case False
  have "(of_nat n :: rat) < 2 ^ Suc 52" using assms by (metis of_nat_less_iff of_nat_numeral of_nat_power numeral_eq_Suc pred_numeral_simps(3) eval_nat_numeral(3))
  then obtain k where k: "dround (of_nat n) = of_int (round_even (of_nat n * 2 ^ k)) / 2 ^ k"
    using dround_unit [of "of_nat n" 52] False by auto
  have "(of_nat n * 2 ^ k :: rat) = of_int (int n * 2 ^ k)" by simp
  then show ?thesis unfolding k by (simp only: round_even_of_int) simp
qed (simp add: dround_def)

lemma dround_error:
  assumes "0 < x" and "x < 2 ^ Suc m" and "m \<le> 52"
  shows "\<bar>dround x - x\<bar> \<le> 1 / (2 * 2 ^ (52 - m))"
proof -
  obtain k where k: "52 - m \<le> k" "dround x = of_int (round_even (x * 2 ^ k)) / 2 ^ k"
    by (rule dround_unit [OF assms])
  have "dround x - x = (of_int (round_even (x * 2 ^ k)) - x * 2 ^ k) / 2 ^ k"
    unfolding k(2) by (simp add: field_simps)
  then have "\<bar>dround x - x\<bar> = \<bar>of_int (round_even (x * 2 ^ k)) - x * 2 ^ k\<bar> / 2 ^ k" by simp
  also have "\<dots> \<le> (1 / 2) / 2 ^ k"
    by (rule divide_right_mono [OF round_even_error]) simp
  also have "\<dots> \<le> 1 / (2 * 2 ^ (52 - m))"
    using power_increasing [OF k(1), of "2 :: rat"] by (simp add: field_simps)
  finally show ?thesis .
qed

section \<open>Properties\<close>

text \<open>
  C36. As long as the simulated time is below \<open>2 ^ 53\<close> picoseconds (two and a half hours), the number of
  nanoseconds that the program prints is exact, in spite of the two roundings to a \<open>double\<close>: it
  is the time divided by 1000, rounded down.
\<close>

theorem simulated_ns_exact:
  assumes "unat (sc_value t) < 2 ^ 53"
  shows "unat (simulated_ns t) = unat (sc_value t) div 1000"
proof -
  define n where "n = unat (sc_value t)"
  define k where "k = n div 1000"
  define x where "x = (of_nat n / 1000 :: rat)"
  have n: "n < 2 ^ 53" using assms by (simp add: n_def)
  have x: "x = of_nat k + of_nat (n mod 1000) / 1000"
  proof -
    have "n = 1000 * k + n mod 1000" by (simp add: k_def)
    then have "(of_nat n :: rat) = 1000 * of_nat k + of_nat (n mod 1000)" by (metis of_nat_add of_nat_mult of_nat_numeral)
    then show ?thesis by (simp add: x_def)
  qed
  have k53: "k < 2 ^ 53" using n by (simp add: k_def)
  have "\<lfloor>dround x\<rfloor> = int k"
  proof (cases "n mod 1000 = 0")
    case True
    then have "dround x = of_nat k" using x k53 by (simp add: dround_nat)
    then show ?thesis by simp
  next
    case False
    have r: "(1 / 1000 :: rat) \<le> of_nat (n mod 1000) / 1000" "of_nat (n mod 1000) / 1000 \<le> (999 / 1000 :: rat)"
    proof -
      have "1 \<le> n mod 1000" "n mod 1000 \<le> 999" using False by simp_all
      then have "(1 :: rat) \<le> of_nat (n mod 1000)" "of_nat (n mod 1000) \<le> (999 :: rat)"
        by (metis of_nat_1 of_nat_le_iff, metis of_nat_numeral of_nat_le_iff)
      then show "(1 / 1000 :: rat) \<le> of_nat (n mod 1000) / 1000" "of_nat (n mod 1000) / 1000 \<le> (999 / 1000 :: rat)"
        by simp_all
    qed
    have x0: "0 < x" using x r by simp
    have "(of_nat n :: rat) < of_nat (2 ^ 53)" using n by (simp only: of_nat_less_iff)
    then have lt: "x < 2 ^ Suc 43" by (simp add: x_def)
    have "\<bar>dround x - x\<bar> \<le> 1 / 1024" using dround_error [OF x0 lt] by simp
    then have err: "x - 1 / 1024 \<le> dround x" "dround x \<le> x + 1 / 1024" by linarith+
    have "of_nat k + 1 / 1000 \<le> x" "x \<le> of_nat k + 999 / 1000" using x r by linarith+
    then have "of_nat k < dround x" "dround x < of_nat k + 1" using err by linarith+
    then show ?thesis by (simp add: floor_unique)
  qed
  moreover have "sc_to_double t = of_nat n" using n by (simp add: sc_to_double_def n_def [symmetric] dround_nat)
  ultimately have "simulated_ns t = of_nat k" by (simp add: simulated_ns_def x_def)
  moreover have "k < 2 ^ 64" using k53 by simp
  ultimately show ?thesis by (simp add: n_def k_def unat_of_nat take_bit_nat_eq_self)
qed

lemma simulated_ns_exact_witness: "unat (simulated_ns (Sc_time 9007199254740991)) = 9007199254740"
  using simulated_ns_exact [of "Sc_time 9007199254740991"] by simp

text \<open>Sums that do not exceed 64 bits keep the order; a difference undoes a sum.\<close>

lemma sc_minus_plus: "sc_minus (sc_plus s t) t = s"
  by (cases s) (simp add: sc_minus_def sc_plus_def)

lemma sc_plus_mono:
  "unat (sc_value s) + unat (sc_value t) < 2 ^ 64 \<Longrightarrow> s \<le> sc_plus s t"
  by (simp add: less_eq_sc_time_def sc_le_def sc_plus_def word_le_nat_alt unat_word_ariths)

end
