(* ===== verification/Host_Trace_Props.thy ===== *)
theory Host_Trace_Props
  imports Host_Trace
begin

text \<open>
  The host program does what a line of the trace says: lines are read back exactly, a write of
  at most 16 MB is cut into the packets that carry its bytes, and what happens beyond.
\<close>

section \<open>Numbers\<close>

fun show_nat :: "nat \<Rightarrow> string" where
  "show_nat n = (if n < 10 then [char_of (48 + n)] else show_nat (n div 10) @ [char_of (48 + n mod 10)])"

declare show_nat.simps [simp del]

lemma digit_char:
  assumes "n < 10"
  shows "is_digit (char_of (48 + n))" and "digit_value (char_of (48 + n)) = n"
  using assms by (simp_all add: is_digit_def digit_value_def of_char_of take_bit_eq_mod)

lemma show_nat_digits: "list_all is_digit (show_nat n) \<and> show_nat n \<noteq> []"
proof (induction n rule: show_nat.induct)
  case (1 n)
  show ?case
  proof (cases "n < 10")
    case True
    then show ?thesis
      by (subst (1 2) show_nat.simps) (simp add: digit_char)
  next
    case False
    then show ?thesis
      using 1 by (subst (1 2) show_nat.simps) (simp add: digit_char)
  qed
qed

lemma read_nat_append: "read_nat (s @ [c]) = 10 * read_nat s + digit_value c"
  by (simp add: read_nat_def)

lemma read_show_nat: "read_nat (show_nat n) = n"
proof (induction n rule: show_nat.induct)
  case (1 n)
  show ?case
  proof (cases "n < 10")
    case True
    then show ?thesis
      by (subst show_nat.simps) (simp add: digit_char read_nat_def)
  next
    case False
    then have "read_nat (show_nat n) = 10 * (n div 10) + n mod 10"
      using 1 by (subst show_nat.simps) (simp add: read_nat_append digit_char)
    then show ?thesis
      by simp
  qed
qed

lemma digit_not: "is_digit c \<Longrightarrow> \<not> is_space c \<and> c \<noteq> CHR '':'' \<and> c \<noteq> CHR ''-'' \<and> c \<noteq> CHR ''+''"
  by (auto simp: is_digit_def is_space_def)

lemma stoul_show_nat:
  assumes "n < 2 ^ 64"
  shows "stoul (show_nat n) = Inr (of_nat n)"
proof -
  obtain c cs where s: "show_nat n = c # cs" and c: "is_digit c" "list_all is_digit (c # cs)"
    using show_nat_digits [of n] by (cases "show_nat n") auto
  have "takeWhile is_digit (c # cs) = c # cs"
    using c(2) by (simp add: list_all_iff takeWhile_eq_all_conv)
  then show ?thesis
    using assms digit_not [OF c(1)] read_show_nat [of n] unfolding s
    by (simp add: stoul_def)
qed

lemma getline_field_append: "c \<notin> set s \<Longrightarrow> getline_field c (s @ c # r) = (s, r)"
  by (simp add: getline_field_def takeWhile_append dropWhile_append)

lemma getline_field_all: "c \<notin> set s \<Longrightarrow> fst (getline_field c s) = s"
  by (simp add: getline_field_def) (metis takeWhile_eq_all_conv)

definition show_line :: "trace_line \<Rightarrow> string" where
  "show_line t = (case t of (api, address, sz, dat) \<Rightarrow>
     api @ CHR '':'' # show_nat (unat address) @ CHR '':'' # show_nat (unat sz) @ CHR '':'' # dat)"

lemma unat_u32_less: "unat w < 2 ^ 64" for w :: u32
proof -
  have "unat w < 2 ^ LENGTH(32)"
    by (rule unsigned_less)
  then show ?thesis by simp
qed

lemma ucast_32_64_32 [simp]: "(ucast (ucast w :: u64) :: u32) = w" for w :: u32
  by (rule ucast_up_ucast_id) (simp add: is_up_def source_size_def target_size_def word_size)

lemma parse_show_line:
  assumes "CHR '':'' \<notin> set (fst t)"
  shows "parse_line (show_line t) = Inr t"
proof -
  obtain api address sz dat where t: "t = (api, address, sz, dat)"
    by (metis prod_cases4)
  have colon: "CHR '':'' \<notin> set (show_nat n)" for n
    using show_nat_digits [of n] digit_not by (auto simp: list_all_iff)
  show ?thesis
    using assms
    by (simp add: t show_line_def parse_line_def getline_field_append colon
        stoul_show_nat [OF unat_u32_less])
qed

text \<open>
  C24. The trace is read back exactly: a file whose lines are operations without a colon, a
  32-bit address, a 32-bit size and data is parsed to these operations.
\<close>

theorem trace_roundtrip:
  assumes "list_all (\<lambda>t. CHR '':'' \<notin> set (fst t)) ts"
  shows "parse_trace (map show_line ts) = Inr ts"
  using assms by (induction ts) (simp_all add: parse_show_line)

lemma trace_roundtrip_witness:
  "parse_trace [''W:64:2880:'', ''R:0:1024:x''] = Inr [(''W'', 64, 2880, []), (''R'', 0, 1024, ''x'')]"
proof -
  have "map show_line [(''W'', 64, 2880, []), (''R'', 0, 1024, ''x'')] = [''W:64:2880:'', ''R:0:1024:x'']"
    by (simp add: show_line_def show_nat.simps) code_simp
  then show ?thesis
    using trace_roundtrip [of "[(''W'', 64, 2880, []), (''R'', 0, 1024, ''x'')]"] by simp
qed

section \<open>Whole packets\<close>

definition packets_needed :: "nat \<Rightarrow> nat \<Rightarrow> nat" where
  "packets_needed ps n = (n + ps - 1) div ps"

lemma ceiling_quotient:
  assumes "0 < d"
  shows "\<lceil>of_nat n / (of_nat d :: rat)\<rceil> = int (packets_needed d n)"
proof -
  define k where "k = packets_needed d n"
  have "n \<le> k * d" "k * d < n + d"
    using assms div_mult_mod_eq [of "n + d - 1" d] mod_less_divisor [of d "n + d - 1"]
    unfolding k_def packets_needed_def by linarith+
  then have "(of_nat n :: rat) \<le> of_nat (k * d)" "of_nat (k * d) < (of_nat (n + d) :: rat)"
    by (simp_all only: of_nat_le_iff of_nat_less_iff)
  then have "of_int (int k) - 1 < (of_nat n / of_nat d :: rat)" "(of_nat n / of_nat d :: rat) \<le> of_int (int k)"
    using assms by (simp_all add: field_simps)
  then show ?thesis
    unfolding k_def [symmetric] by (rule ceiling_unique)
qed

lemma whole_packets_exact:
  assumes ps: "0 < unat ps" and fits: "packets_needed (unat ps) (unat sz) * unat ps \<le> 2 ^ 24"
    and sz: "unat sz \<le> 2 ^ 24" "unat ps \<le> 2 ^ 24"
  shows "whole_packets ps sz = Inr (of_nat (packets_needed (unat ps) (unat sz) * unat ps))"
proof -
  define n d where "n = unat sz" and "d = unat ps"
  define k where "k = packets_needed d n"
  have fits': "k * d \<le> 2 ^ 24" and n: "n \<le> 2 ^ 24" and d: "d \<le> 2 ^ 24" "0 < d"
    using assms by (simp_all add: k_def n_def d_def)
  have prod: "fround (of_int (int k) * of_nat d) = of_nat (k * d)"
    using fround_nat [OF fits'] by simp
  have "k * d < 2 ^ 32"
    using fits' by simp
  then have small: "(of_nat (k * d) :: rat) < 2 ^ 32"
    by (metis of_nat_less_iff of_nat_numeral of_nat_power)
  have "ps \<noteq> 0"
    using ps by auto
  then have "whole_packets ps sz =
      (if fround (of_int (int k) * of_nat d) < 2 ^ 32 then Inr (of_int \<lfloor>fround (of_int (int k) * of_nat d)\<rfloor>)
       else Inl Int_overflow)"
    unfolding whole_packets_def Let_def n_def [symmetric] d_def [symmetric] fround_nat [OF n] fround_nat [OF d(1)]
      ceiling_fround_quotient [OF n d(2)] ceiling_quotient [OF d(2)] k_def [symmetric]
    by simp
  also have "\<dots> = Inr (of_nat (k * d))"
    unfolding prod using small by (simp only: if_True floor_of_nat of_int_of_nat_eq)
  finally show ?thesis
    by (simp only: k_def n_def d_def)
qed

section \<open>The packets of a write\<close>

text \<open>The reference: packet \<open>i\<close> carries the \<open>i\<close>-th piece of the data; only the first one a delay.\<close>

definition write_packet :: "u32 \<Rightarrow> u32 \<Rightarrow> byte list \<Rightarrow> u32 \<Rightarrow> u32 \<Rightarrow> u64 \<Rightarrow> nat \<Rightarrow> packet" where
  "write_packet ps address dat sz device delta i =
     \<lparr>p_type = packet_write, p_size = sz, p_delta = (if i = 0 then delta else 0),
      p_address = address + of_nat (i * unat ps), p_device_id = device,
      p_data = piece (unat ps) i dat @ replicate (MAX_DATA_SIZE - unat ps) 0\<rparr>"

lemma makePacket_write:
  assumes "unat ps \<le> MAX_DATA_SIZE" and "Suc i * unat ps \<le> length dat"
  shows "pm_makePacket ps packet_write (address + of_nat (i * unat ps)) (Some (drop (i * unat ps) dat)) sz device
           (if i = 0 then delta else 0) = Inr (write_packet ps address dat sz device delta i)"
  using assms
  by (simp add: pm_makePacket_def memcpy_def zero_packet_def write_packet_def piece_def Let_def mult.commute)

lemma write_packet_delay: "i \<noteq> 0 \<Longrightarrow> write_packet ps a dat n dev d i = write_packet ps a dat n dev d' i"
  by (simp add: write_packet_def)

lemma trc_write_loop_packets:
  assumes "0 < unat ps" "unat ps \<le> MAX_DATA_SIZE" "m * unat ps < 2 ^ 31" "(j + m) * unat ps \<le> length dat"
    and "j = 0 \<Longrightarrow> d0 = delta"
  shows "trc_write_loop ps address dat sz device d0 j (of_nat (m * unat ps)) =
           Inr (map (write_packet ps address dat sz device delta) [j..<j + m])"
  using assms
proof (induction m arbitrary: j d0)
  case 0
  then show ?case
    by (subst trc_write_loop.simps) (simp add: int_pos_def)
next
  case (Suc m)
  have "Suc m * unat ps < 2 ^ 32"
    using Suc.prems(3) by simp
  then have "unat (of_nat (Suc m * unat ps) :: u32) = Suc m * unat ps"
    by (simp only: unsigned_of_nat) (simp add: take_bit_nat_eq_self)
  then have pos: "int_pos (of_nat (Suc m * unat ps))" "ps \<noteq> 0"
    using Suc.prems(1,3) by (auto simp: int_pos_def simp del: of_nat_mult)
  have rest: "(of_nat (Suc m * unat ps) :: u32) - ps = of_nat (m * unat ps)"
    by (simp add: algebra_simps)
  have fit: "Suc j * unat ps \<le> length dat"
    using Suc.prems(4) mult_le_mono1 [of "Suc j" "j + Suc m" "unat ps"] by linarith
  have delay: "(if 0 < j then 0 else d0) = (if j = 0 then delta else 0)"
    using Suc.prems(5) by simp
  have IH: "trc_write_loop ps address dat sz device (if j = 0 then delta else 0) (Suc j) (of_nat (m * unat ps)) =
      Inr (map (write_packet ps address dat sz device delta) [Suc j..<Suc j + m])"
    by (rule Suc.IH) (use Suc.prems in simp_all)
  have "[j..<j + Suc m] = j # [Suc j..<Suc j + m]"
    by (simp add: upt_conv_Cons)
  then show ?case
    using makePacket_write [OF Suc.prems(2) fit, of address sz device delta] IH
    by (subst trc_write_loop.simps) (simp add: pos Let_def delay rest del: of_nat_mult of_nat_Suc upt_Suc mult_Suc)
qed

text \<open>
  C16. The loop that cuts a write into packets agrees with its specification: with data for whole
  packets, a write of at most 16 MB is sent as one packet per begun packet size, packet
  \<open>i\<close> with the \<open>i\<close>-th piece of the data at the \<open>i\<close>-th address, the rounded size, and the delay on the first
  packet only; the rounding in \<open>float\<close> makes no difference.
\<close>

theorem write_is_cut_exactly:
  assumes ps: "0 < unat ps" "unat ps \<le> MAX_DATA_SIZE"
    and small: "packets_needed (unat ps) (unat sz) * unat ps \<le> 2 ^ 24" "unat sz \<le> 2 ^ 24"
    and dat: "packets_needed (unat ps) (unat sz) * unat ps \<le> length dat"
  shows "trcWrite ps address dat sz device delta =
    Inr (map (write_packet ps address dat (of_nat (packets_needed (unat ps) (unat sz) * unat ps)) device delta)
          [0..<packets_needed (unat ps) (unat sz)])"
proof -
  let ?k = "packets_needed (unat ps) (unat sz)"
  have "unat ps \<le> 2 ^ 24"
    using ps(2) by (simp add: MAX_DATA_SIZE_def)
  note whole = whole_packets_exact [OF ps(1) small this]
  have "trc_write_loop ps address dat (of_nat (?k * unat ps)) device delta 0 (of_nat (?k * unat ps)) =
      Inr (map (write_packet ps address dat (of_nat (?k * unat ps)) device delta) [0..<0 + ?k])"
    by (rule trc_write_loop_packets) (use assms in simp_all)
  then show ?thesis
    by (simp add: trcWrite_def whole)
qed

lemma write_is_cut_exactly_witness:
  "trcWrite 4 100 [1, 2, 3, 4, 5, 6, 7, 8] 6 0 9 =
     Inr (map (write_packet 4 100 [1, 2, 3, 4, 5, 6, 7, 8] 8 0 9) [0..<2])"
  using write_is_cut_exactly [of 4 6 "[1, 2, 3, 4, 5, 6, 7, 8]" 100 0 9]
  by (simp add: packets_needed_def MAX_DATA_SIZE_def)

section \<open>What goes wrong\<close>

lemma makePacket_beyond:
  assumes "length dat < Suc i * unat ps"
  shows "pm_makePacket ps t a (Some (drop (i * unat ps) dat)) sz device d = Inl Out_of_bounds"
proof -
  have "0 < unat ps"
    using assms by (cases "unat ps = 0") auto
  with assms show ?thesis
    by (cases "i * unat ps \<le> length dat") (auto simp: pm_makePacket_def memcpy_def Let_def)
qed

lemma makePacket_error: "pm_makePacket ps t a dat sz device d = Inl e \<Longrightarrow> e = Out_of_bounds"
  by (auto simp: pm_makePacket_def memcpy_def Let_def split: option.splits if_splits)

lemma trc_write_loop_beyond:
  assumes "0 < unat ps" "m * unat ps < 2 ^ 31" "0 < m" "length dat < (j + m) * unat ps"
  shows "trc_write_loop ps address dat sz device d0 j (of_nat (m * unat ps)) = Inl Out_of_bounds"
  using assms
proof (induction m arbitrary: j d0)
  case (Suc m)
  have "Suc m * unat ps < 2 ^ 32"
    using Suc.prems(2) by simp
  then have "unat (of_nat (Suc m * unat ps) :: u32) = Suc m * unat ps"
    by (simp only: unsigned_of_nat) (simp add: take_bit_nat_eq_self)
  then have pos: "int_pos (of_nat (Suc m * unat ps))" "ps \<noteq> 0"
    using Suc.prems(1,2) by (auto simp: int_pos_def simp del: of_nat_mult)
  have rest: "(of_nat (Suc m * unat ps) :: u32) - ps = of_nat (m * unat ps)"
    by (simp add: algebra_simps)
  let ?p = "pm_makePacket ps packet_write (address + of_nat (j * unat ps)) (Some (drop (j * unat ps) dat)) sz device
      (if 0 < j then 0 else d0)"
  have step: "trc_write_loop ps address dat sz device d0 j (of_nat (Suc m * unat ps)) =
      ebind ?p (\<lambda>p. ebind (trc_write_loop ps address dat sz device (if 0 < j then 0 else d0) (Suc j) (of_nat (m * unat ps)))
        (\<lambda>qs. Inr (p # qs)))"
    by (subst trc_write_loop.simps) (simp add: pos Let_def rest del: of_nat_mult of_nat_Suc mult_Suc)
  show ?case
  proof (cases "m = 0")
    case True
    then show ?thesis
      unfolding step using Suc.prems(4) by (simp add: makePacket_beyond)
  next
    case False
    have "trc_write_loop ps address dat sz device (if 0 < j then 0 else d0) (Suc j) (of_nat (m * unat ps)) =
        Inl Out_of_bounds"
      by (rule Suc.IH) (use False Suc.prems in simp_all)
    then show ?thesis
      unfolding step using makePacket_error by (cases ?p) auto
  qed
qed simp

text \<open>
  C40. The array that the host program allocates for a write has the size of the trace line, but
  whole packets are copied from it: unless the size is a multiple of the packet size, the
  last packet reads beyond the array.
\<close>

theorem host_write_reads_beyond:
  assumes ps: "0 < unat ps" "unat ps \<le> MAX_DATA_SIZE"
    and sz: "packets_needed (unat ps) (unat sz) * unat ps \<le> 2 ^ 24"
    and odd: "\<not> unat ps dvd unat sz"
  shows "host_line ps garbage (''W'', address, sz, dat) delta arriving = Inl Out_of_bounds"
proof -
  let ?k = "packets_needed (unat ps) (unat sz)"
  have "unat sz + unat ps - 1 = ?k * unat ps + (unat sz + unat ps - 1) mod unat ps"
    by (simp add: packets_needed_def)
  moreover have "(unat sz + unat ps - 1) mod unat ps < unat ps"
    using ps(1) by simp
  ultimately have le: "unat sz \<le> ?k * unat ps"
    by linarith
  moreover have "unat sz \<noteq> ?k * unat ps"
    using odd by (metis dvd_triv_right)
  ultimately have lt: "unat sz < ?k * unat ps"
    by simp
  then have pos: "0 < ?k"
    by (cases ?k) auto
  have small: "unat sz \<le> 2 ^ 24" "unat ps \<le> 2 ^ 24" "unat sz < 2 ^ 31" "?k * unat ps < 2 ^ 31"
    using le sz ps(2) by (simp_all add: MAX_DATA_SIZE_def)
  have "trc_write_loop ps address (write_array sz (garbage sz)) (of_nat (?k * unat ps)) 0 delta 0 (of_nat (?k * unat ps)) =
      Inl Out_of_bounds"
    by (rule trc_write_loop_beyond) (use ps(1) small pos lt in \<open>simp_all add: write_array_def\<close>)
  then show ?thesis
    by (simp add: host_line_def trcWrite_def whole_packets_exact [OF ps(1) sz small(1,2)])
qed

lemma host_write_reads_beyond_witness:
  "host_line 1024 (\<lambda>n. []) (''W'', 38797312, 28800, []) 46222042 [] = Inl Out_of_bounds"
  by (rule host_write_reads_beyond) (simp_all add: packets_needed_def MAX_DATA_SIZE_def)

text \<open>A size above 24 bits loses its last bits in \<open>float\<close>, and the last packet is not sent.\<close>

lemma fround_16777217: "fround 16777217 = 16777216"
proof -
  define e where "e = flog2 16777217"
  have "2 powi e \<le> (16777217 :: rat)" "(16777217 :: rat) < 2 powi (e + 1)"
    unfolding e_def by (rule flog2_bounds; simp)+
  then have "(2::rat) powi e < 2 powi 25" "(2::rat) powi 24 < 2 powi (e + 1)"
    by simp_all
  then have "e < 25" "24 < e + 1"
    by (metis powi_less_exp, metis powi_less_exp)
  then have "flog2 16777217 = 24"
    by (simp add: e_def)
  moreover have "\<lfloor>16777217 / 2 :: rat\<rfloor> = 8388608"
    by (rule floor_unique) simp_all
  ultimately show ?thesis
    by (simp add: fround_def round_even_def)
qed

lemma float_drops_a_packet:
  "whole_packets 1024 16777217 = Inr 16777216" "packets_needed 1024 16777217 * 1024 = 16778240"
proof -
  have "fround 1024 = 1024" "fround 16384 = 16384" "fround 16777216 = 16777216"
    using fround_nat [of 1024] fround_nat [of 16384] fround_nat [of 16777216] by simp_all
  then show "whole_packets 1024 16777217 = Inr 16777216"
    by (simp add: whole_packets_def fround_16777217)
qed (simp add: packets_needed_def)

end
