(* ===== verification/Device_Range.thy ===== *)
theory Device_Range
  imports Sim_Split Controller_Props Host_Trace_Props
begin

text \<open>
  A typing invariant across the host program, the wrapper and the controller: the packets of the host
  program are well formed and name memory 0; the wrapper keeps the table that gives each payload its
  memory within the memories of the controller when it splits such packets; so the controller never
  indexes beyond its bound sockets. A packet that names another memory breaks it.
\<close>

section \<open>The packets of the host program\<close>

definition packet_ok :: "packet \<Rightarrow> bool" where
  "packet_ok q \<longleftrightarrow> p_type q \<in> {packet_read, packet_write, packet_terminated} \<and> p_device_id q = 0 \<and>
     length (p_data q) = MAX_DATA_SIZE"

lemma made_packet_ok:
  assumes "pm_makePacket ps t a dat sz 0 delta = Inr q" "t \<in> {packet_read, packet_write, packet_terminated}"
  shows "packet_ok q"
  using assms memcpy_length
  by (fastforce simp: pm_makePacket_def packet_ok_def zero_packet_def Let_def split: option.splits)

lemma trc_write_loop_ok:
  "trc_write_loop ps a dat sz 0 delta j i = Inr qs \<Longrightarrow> q \<in> set qs \<Longrightarrow> packet_ok q"
proof (induction ps a dat sz "0 :: u32" delta j i arbitrary: qs rule: trc_write_loop.induct)
  case (1 ps a dat sz delta j i)
  show ?case
  proof (cases "int_pos i \<and> ps \<noteq> 0")
    case True
    then obtain p rest where p: "pm_makePacket ps packet_write (a + of_nat (j * unat ps)) (Some (drop (j * unat ps) dat))
        sz 0 (if 0 < j then 0 else delta) = Inr p"
      and rest: "trc_write_loop ps a dat sz 0 (if 0 < j then 0 else delta) (Suc j) (i - ps) = Inr rest"
      and "qs = p # rest"
      using 1(2) by (subst (asm) trc_write_loop.simps) (auto simp: Let_def)
    with True 1(3) show ?thesis
      using 1(1) [OF True refl rest] made_packet_ok [OF p] by auto
  next
    case False
    with 1(2,3) show ?thesis by (subst (asm) trc_write_loop.simps) auto
  qed
qed

lemma trc_read_loop_ok:
  "trc_read_loop ps a dat sz 0 delta j i arriving = Inr (qs, res) \<Longrightarrow> q \<in> set qs \<Longrightarrow> packet_ok q"
proof (induction ps a dat sz "0 :: u32" delta j i arriving arbitrary: qs res rule: trc_read_loop.induct)
  case (1 ps a dat sz delta j i arriving)
  show ?case
  proof (cases "int_pos i \<and> ps \<noteq> 0")
    case True
    let ?d = "if 0 < j then 0 else delta"
    obtain p where p: "pm_makePacket ps packet_read (a + of_nat (j * unat ps)) None sz 0 ?d = Inr p"
      using 1(2) True by (subst (asm) trc_read_loop.simps) (auto simp: Let_def)
    show ?thesis
    proof (cases arriving)
      case Nil
      then have "qs = [p]" using 1(2) True p by (subst (asm) trc_read_loop.simps) (auto simp: Let_def)
      with 1(3) show ?thesis using made_packet_ok [OF p] by simp
    next
      case (Cons r rs)
      then obtain bs dat1 rest res1 where
          m: "memcpy (replicate (unat ps) 0) 0 (p_data r) 0 (unat ps) = Inr bs"
          "memcpy dat (j * unat ps) bs 0 (unat ps) = Inr dat1"
        and rest: "trc_read_loop ps a dat1 sz 0 ?d (Suc j) (i - ps) rs = Inr (rest, res1)" and "qs = p # rest"
        using 1(2) True p by (subst (asm) trc_read_loop.simps) (auto simp: Let_def)
      with True 1(3) show ?thesis
        using 1(1) [OF True refl Cons rest] made_packet_ok [OF p] by auto
    qed
  next
    case False
    with 1(2,3) show ?thesis by (subst (asm) trc_read_loop.simps) auto
  qed
qed

lemma host_line_ok:
  assumes "host_line ps g t delta arriving = Inr (qs, res)" "q \<in> set qs"
  shows "packet_ok q"
proof (cases t)
  case (fields api a sz dat)
  then show ?thesis
    using assms trc_write_loop_ok trc_read_loop_ok
    by (auto simp: host_line_def trcWrite_def trcRead_def trcTerminate_def split: if_splits
        intro: made_packet_ok)
qed

lemma host_loop_ok:
  "host_loop ps g ts ds arriving = Inr (qs, fin) \<Longrightarrow> q \<in> set qs \<Longrightarrow> packet_ok q"
proof (induction ps g ts ds arriving arbitrary: qs fin rule: host_loop.induct)
  case (3 ps g t ts d ds arriving)
  then obtain qs1 res where line: "host_line ps g t d arriving = Inr (qs1, res)"
    and rest: "(case res of None \<Rightarrow> Inr (qs1, False)
      | Some (dat, rest) \<Rightarrow> ebind (host_loop ps g ts ds rest) (\<lambda>(qs2, fin). Inr (qs1 @ qs2, fin))) = Inr (qs, fin)"
    by auto
  show ?case
    using rest "3.prems"(2) host_line_ok [OF line] "3.IH"
    by (auto split: option.splits)
qed simp_all

section \<open>The table of devices\<close>

lemma devices_ok_upd:
  "devices_ok n dm \<Longrightarrow> unat d < n \<Longrightarrow> devices_ok n (dm(p \<mapsto> d))"
  by (auto simp: devices_ok_def map_index_def split: option.splits)

lemma add_payload_devices:
  assumes "add_payload cmd a sz dat d (s, w) = Inr (s', w')" "devices_ok n (device_map s)" "unat d < n"
  shows "devices_ok n (device_map s')"
  using assms devices_ok_upd [OF assms(2,3)]
  by (auto simp: add_payload_def Let_def split: if_splits)

lemma efold_devices:
  assumes "efold f is (s, w) = Inr (s', w')" "devices_ok n (device_map s)"
    and "\<And>i s w s' w'. f i (s, w) = Inr (s', w') \<Longrightarrow> devices_ok n (device_map s) \<Longrightarrow> devices_ok n (device_map s')"
  shows "devices_ok n (device_map s')"
  using assms(1,2)
proof (induction "is" arbitrary: s w)
  case (Cons i "is")
  then obtain s1 w1 where "f i (s, w) = Inr (s1, w1)" "efold f is (s1, w1) = Inr (s', w')" by auto
  with Cons assms(3) show ?case by blast
qed simp

lemma split_devices:
  assumes "split_read q (s, w) = Inr (s', w') \<or> split_write q (s, w) = Inr (s', w')"
    and "devices_ok n (device_map s)" "unat (p_device_id q) < n"
  shows "devices_ok n (device_map s')"
proof -
  have r: "devices_ok n (device_map s2)" if "read_turn q i (s1, w1) = Inr (s2, w2)" "devices_ok n (device_map s1)"
    for i s1 w1 s2 w2
    using that add_payload_devices [OF _ that(2) assms(3)] by (auto simp: read_turn_def Let_def)
  have wr: "devices_ok n (device_map s2)" if "write_turn q i (s1, w1) = Inr (s2, w2)" "devices_ok n (device_map s1)"
    for i s1 w1 s2 w2
    using that add_payload_devices [OF _ that(2) assms(3)] by (auto simp: write_turn_def Let_def)
  show ?thesis
    using assms(1) efold_devices [OF _ assms(2) r] efold_devices [OF _ assms(2) wr]
    by (auto simp: split_read_def split_write_def Let_def)
qed

text \<open>
  C17. Every packet that the host program sends, for whatever trace and configuration, is a read, a write or a
  termination with a full data array, for memory 0. Splitting such a packet keeps every entry of the
  device table below the number \<open>n\<close> of memories, whatever \<open>n\<close>, so that the controller with \<open>n\<close>
  bound memories finds the socket of the device of any payload.
\<close>

theorem host_packets_typed:
  assumes "host_main config g trace delta arriving = Inr (qs, fin)" "q \<in> set qs"
    and "devices_ok n (device_map s)"
    and "split_read q (s, w) = Inr (s', w') \<or> split_write q (s, w) = Inr (s', w')"
  shows "packet_ok q \<and> devices_ok n (device_map s') \<and>
    (\<forall>c p. c_masters c = n \<longrightarrow> (\<exists>i dm. ctrl_device (device_map s') c p = Inr (i, dm) \<and> i < n))"
proof -
  obtain ps tr ds where "host_loop ps g tr ds arriving = Inr (qs, fin)"
    using assms(1) by (auto simp: host_main_def)
  from host_loop_ok [OF this assms(2)] have q: "packet_ok q" .
  have "0 < n" using assms(3) by (simp add: devices_ok_def)
  then have dev: "devices_ok n (device_map s')"
    using split_devices [OF assms(4,3)] q by (simp add: packet_ok_def)
  then have "\<exists>i dm. ctrl_device (device_map s') c p = Inr (i, dm) \<and> i < n" if "c_masters c = n" for c p
    using that by (auto simp: ctrl_device_def devices_ok_def split: prod.splits)
      (metis fst_conv surj_pair)
  with q dev show ?thesis by blast
qed

text \<open>A payload of a packet that names a memory that does not exist makes the controller leave its array.\<close>

lemma foreign_device_fails:
  assumes "dm p = Some d" "c_masters c \<le> unat d"
  shows "ctrl_device dm c p = Inl Out_of_bounds"
  using assms by (simp add: ctrl_device_def)

section \<open>A run\<close>

definition eight_byte_config :: string where
  "eight_byte_config = packet_size_key @ '': 8''"

definition read_request :: packet where
  "read_request = zero_packet\<lparr>p_type := packet_read, p_size := 8, p_delta := 5, p_address := 64, p_device_id := 0\<rparr>"

lemma one_read_loop:
  "trc_read_loop 8 64 (replicate 8 0) 8 0 5 0 8 [small_packet packet_read] =
     Inr ([read_request], Some ([1, 2, 3, 4, 5, 6, 7, 8], []))"
proof -
  have "memcpy (replicate (unat (8 :: u32)) 0) 0 (p_data (small_packet packet_read)) 0 (unat (8 :: u32)) =
      Inr [1, 2, 3, 4, 5, 6, 7, 8]"
    "memcpy (replicate 8 0) (0 * unat (8 :: u32)) [1, 2, 3, 4, 5, 6, 7, 8 :: byte] 0 (unat (8 :: u32)) =
      Inr [1, 2, 3, 4, 5, 6, 7, 8]"
    by (simp_all add: memcpy_def)
  moreover have "pm_makePacket 8 packet_read (64 + of_nat (0 * unat (8 :: u32))) None 8 0 5 = Inr read_request"
    by (simp add: pm_makePacket_def read_request_def)
  moreover have "trc_read_loop 8 64 [1, 2, 3, 4, 5, 6, 7, 8] 8 0 5 1 0 [] = Inr ([], Some ([1, 2, 3, 4, 5, 6, 7, 8], []))"
    by (subst trc_read_loop.simps) (simp add: int_pos_def)
  ultimately show ?thesis
    by (subst trc_read_loop.simps) (simp add: int_pos_def)
qed

lemma one_read_fields:
  "regex_search eight_byte_config = Some ''8''" "read_nat ''8'' = 8" "read_nat ''64'' = 64" "read_nat ''5'' = 5"
  by code_simp+

lemma one_read_line:
  "getline_field (CHR '':'') ''R:64:8:'' = (''R'', ''64:8:'')"
  "getline_field (CHR '':'') ''64:8:'' = (''64'', ''8:'')" "getline_field (CHR '':'') ''8:'' = (''8'', [])"
  by code_simp+

lemma one_read_numbers: "stoul ''8'' = Inr 8" "stoul ''64'' = Inr 64" "stoul ''5'' = Inr 5"
proof -
  have "dropWhile is_space ''8'' = ''8''" "dropWhile is_space ''64'' = ''64''" "dropWhile is_space ''5'' = ''5''"
    "takeWhile is_digit ''8'' = ''8''" "takeWhile is_digit ''64'' = ''64''" "takeWhile is_digit ''5'' = ''5''"
    by code_simp+
  then show "stoul ''8'' = Inr 8" "stoul ''64'' = Inr 64" "stoul ''5'' = Inr 5"
    by (simp_all only: stoul_def Let_def prod.case list.case) (simp_all add: one_read_fields)
qed

lemma one_read:
  "host_main (Some eight_byte_config) (\<lambda>_. replicate 8 0) [''R:64:8:''] [''5''] [small_packet packet_read] =
     Inr ([read_request], True)"
proof -
  have "get_packet_size (Some eight_byte_config) = Inr 8"
    by (simp add: get_packet_size_def one_read_fields)
  moreover have "parse_trace [''R:64:8:''] = Inr [(''R'', 64, 8, [])]"
    using one_read_line one_read_numbers by (simp add: parse_line_def)
  moreover have "parse_delta_trace [''5''] = Inr [5]"
    using one_read_numbers by simp
  moreover have "whole_packets 8 8 = Inr 8"
    using whole_packets_exact [of 8 8] by (simp add: packets_needed_def)
  ultimately show ?thesis
    using one_read_loop by (simp add: host_main_def host_line_def trcRead_def)
qed

lemma one_split:
  obtains s' w' where "split_read read_request (small_sim empty_store, small_wrapper) = Inr (s', w')"
    "device_map s' \<noteq> Map.empty"
proof -
  let ?w = "small_wrapper\<lparr>req_done := False,
    sw_stats := update_total_read_size (packet_size small_wrapper) (increase_r_packet (sw_stats small_wrapper))\<rparr>"
  have "read_turn read_request i (s', w') = add_payload TLM_READ_COMMAND (p_address read_request + 4 * of_nat i)
      4 Null_ptr (p_device_id read_request) (s', w')" if "dram_req_size w' = 4" for i s' w'
    using that by (simp add: read_turn_def Let_def)
  with payloads_loop [of "\<lambda>_. []" "small_sim empty_store" ?w 4 2 "read_turn read_request" TLM_READ_COMMAND
      "p_address read_request" "\<lambda>_. Null_ptr" "p_device_id read_request"]
  obtain s' qs where "efold (read_turn read_request) [0 ..< 2] (small_sim empty_store, ?w) =
      Inr (s', enqueue TLM_READ_COMMAND qs ?w)"
    and row: "payload_row s' qs 2 TLM_READ_COMMAND (p_address read_request) 4 (host_id ?w) (p_device_id read_request)
      (\<lambda>_. Null_ptr)"
    by (auto simp: sample_store_wf)
  then have "split_read read_request (small_sim empty_store, small_wrapper) =
      Inr (s', enqueue TLM_READ_COMMAND qs ?w)"
    by (simp add: split_read_def Let_def payloads_per_packet_def)
  moreover have "device_map s' (qs ! 0) = Some (p_device_id read_request)"
    using row by (simp add: payload_row_def)
  ultimately show thesis
    by (intro that) auto
qed

lemma host_packets_typed_witness:
  "\<exists>s' w'. split_read read_request (small_sim empty_store, small_wrapper) = Inr (s', w') \<and>
     packet_ok read_request \<and> devices_ok 1 (device_map s') \<and> device_map s' \<noteq> Map.empty"
proof -
  obtain s' w' where s: "split_read read_request (small_sim empty_store, small_wrapper) = Inr (s', w')"
    "device_map s' \<noteq> Map.empty" by (rule one_split)
  have "devices_ok 1 (device_map (small_sim empty_store))"
    by (simp add: devices_ok_def small_sim_def map_index_def)
  with host_packets_typed [OF one_read _ this disjI1 [OF s(1)]] s show ?thesis by auto
qed

end
