(* ===== verification/End_To_End.thy ===== *)
theory End_To_End
  imports Sim_Respond Mem_Props
begin

text \<open>
  From a write packet of a host to the response of a later read of the same address: the wrapper splits
  the packet, the memory device takes the payloads in the order in which the link passes them on
  (theory \<open>Link\<close>), runs for any time in which nobody writes to the range, takes the payloads of
  the read, and answers them; the wrapper puts the answers together. The data that the host gets are
  the data it wrote.
\<close>

section \<open>The memory device takes a payload\<close>

text \<open>The call of the link, and the callback of the event queue.\<close>

definition mw_take ::
  "(nat \<Rightarrow> (nat \<Rightarrow> byte) \<times> nat) \<Rightarrow> pid \<Rightarrow> store \<times> 'm mem_wrapper \<Rightarrow> sim_error + (store \<times> 'm mem_wrapper)" where
  "mw_take mems p sm =
     (case sm of (st, m) \<Rightarrow> mw_peq_fire mems (st, fst (mw_nb_transport_fw m p BEGIN_REQ)))"

lemma mw_take_cb: "mw_peq m = [] \<Longrightarrow> mw_take mems p (st, m) = mw_peq_cb mems (st, m) p BEGIN_REQ"
  by (cases m) (simp add: mw_take_def mw_nb_transport_fw_def mw_peq_fire_def)

text \<open>The memory with some bytes written over it.\<close>

definition overlay :: "(nat \<Rightarrow> byte) \<Rightarrow> nat \<Rightarrow> byte list \<Rightarrow> nat \<Rightarrow> byte" where
  "overlay d a bs = (\<lambda>k. if a \<le> k \<and> k < a + length bs then bs ! (k - a) else d k)"

lemma overlay_Nil [simp]: "overlay d a [] = d"
  by (rule ext) (auto simp: overlay_def)

lemma overlay_append: "overlay (overlay d a bs) (a + length bs) cs = overlay d a (bs @ cs)"
  by (rule ext) (auto simp: overlay_def nth_append)

lemma mem_store_overlay: "a + length bs \<le> sz \<Longrightarrow> mem_store d sz a bs (length bs) = Inr (overlay d a bs)"
  by (simp add: mem_store_def overlay_def)

text \<open>
  A live payload that nobody else holds, on its way to the device: a write of some bytes to
  an address, or a read of some bytes from it.
\<close>

definition writes :: "store \<Rightarrow> pid \<Rightarrow> nat \<Rightarrow> byte list \<Rightarrow> bool" where
  "writes st p a bs \<longleftrightarrow> link_payload st p \<and> gp_command (heap st p) \<noteq> TLM_READ_COMMAND \<and>
     gp_data (heap st p) = Buf_ptr bs \<and> unat (gp_length (heap st p)) = length bs \<and> unat (gp_address (heap st p)) = a"

definition reads :: "store \<Rightarrow> pid \<Rightarrow> nat \<Rightarrow> nat \<Rightarrow> bool" where
  "reads st p a n \<longleftrightarrow> link_payload st p \<and> gp_command (heap st p) = TLM_READ_COMMAND \<and>
     unat (gp_length (heap st p)) = n \<and> unat (gp_address (heap st p)) = a"

text \<open>What stays of the payloads that are not taken.\<close>

definition keeps :: "pid set \<Rightarrow> store \<Rightarrow> store \<Rightarrow> bool" where
  "keeps A st st' \<longleftrightarrow> (\<forall>p \<in> live st - A. p \<in> live st' \<and> heap st' p = heap st p)"

lemma keepsD:
  assumes "keeps A st st'" "p \<notin> A"
  shows "writes st p a bs \<Longrightarrow> writes st' p a bs" and "reads st p a n \<Longrightarrow> reads st' p a n"
  using assms by (auto simp: keeps_def writes_def reads_def link_payload_def)

lemma keeps_chain:
  assumes "keeps A st st1" "keeps B st1 st2"
  shows "keeps (A \<union> B) st st2"
  using assms by (auto simp: keeps_def)

lemma replaces_keeps: "replaces st p st' q \<Longrightarrow> keeps {p} st st'"
  by (auto simp: replaces_def keeps_def)

lemma take_write:
  assumes wf: "store_wf fs st" and p: "writes st p a bs" and fits: "a + length bs \<le> mem_size m" and "mw_peq m = []"
  obtains st' q fs' where
    "mw_take mems p (st, m) = Inr (st', m\<lparr>mem_data := overlay (mem_data m) a bs, w_queue := w_queue m @ [q]\<rparr>)"
    and "store_wf fs' st'" and "keeps {p} st st'"
proof -
  have l: "link_payload st p" using p by (simp add: writes_def)
  obtain st1 q st2 fs2 where s: "gen_trans (mw_mm m) (gp_address (heap st p)) (gp_command (heap st p))
      (gp_length (heap st p)) (gp_id (heap st p)) st = Inr (st1, q)"
    "release p st1 = Inr st2" "store_wf fs2 st2" "replaces st p st2 q"
    using gen_release [OF wf l] by blast
  have "mw_peq_cb mems (st, m) p BEGIN_REQ =
      Inr (st2, m\<lparr>mem_data := overlay (mem_data m) a bs, w_queue := w_queue m @ [q]\<rparr>)"
    using s(1,2) p fits by (simp add: mw_peq_cb_def Let_def data_read_def writes_def mem_store_overlay)
  with that s(3,4) replaces_keeps mw_take_cb [OF assms(4)] show thesis by metis
qed

lemma take_read:
  assumes wf: "store_wf fs st" and p: "reads st p a n" and "mw_peq m = []"
  obtains st' q fs' where "mw_take mems p (st, m) = Inr (st', m\<lparr>r_queue := r_queue m @ [q]\<rparr>)"
    and "store_wf fs' st'" and "keeps {p} st st'" and "reads st' q a n" and "q \<notin> live st"
proof -
  have l: "link_payload st p" using p by (simp add: reads_def)
  obtain st1 q st2 fs2 where s: "gen_trans (mw_mm m) (gp_address (heap st p)) (gp_command (heap st p))
      (gp_length (heap st p)) (gp_id (heap st p)) st = Inr (st1, q)"
    "release p st1 = Inr st2" "store_wf fs2 st2" "replaces st p st2 q"
    using gen_release [OF wf l] by blast
  have "mw_peq_cb mems (st, m) p BEGIN_REQ = Inr (st2, m\<lparr>r_queue := r_queue m @ [q]\<rparr>)"
    using s(1,2) p by (simp add: mw_peq_cb_def Let_def reads_def)
  moreover have "reads st2 q a n" "q \<notin> live st"
    using s(4) p by (auto simp: reads_def replaces_def link_payload_def)
  ultimately show thesis
    using that s(3,4) replaces_keeps mw_take_cb [OF assms(3)] by metis
qed

section \<open>All payloads of a packet\<close>

lemma take_writes:
  assumes "store_wf fs st" and "distinct qs" and "length bss = length qs"
    and "\<forall>i < length qs. length (bss ! i) = r \<and> writes st (qs ! i) (a + r * i) (bss ! i)"
    and "a + r * length qs \<le> mem_size m" and "mw_peq m = []"
  shows "\<exists>st' qs' fs'. efold (mw_take mems) qs (st, m) =
      Inr (st', m\<lparr>mem_data := overlay (mem_data m) a (concat bss), w_queue := w_queue m @ qs'\<rparr>) \<and>
    store_wf fs' st' \<and> keeps (set qs) st st' \<and> length qs' = length qs"
  using assms
proof (induction qs arbitrary: st fs m a bss)
  case Nil
  then show ?case by (auto simp: keeps_def intro!: exI [of _ "[]"])
next
  case (Cons p qs)
  then obtain bs bss' where bss: "bss = bs # bss'" by (cases bss) auto
  have p: "writes st p a bs" "length bs = r"
    using Cons.prems(4) [rule_format, of 0] bss by simp_all
  have le: "a + length bs \<le> mem_size m" using Cons.prems(5) p(2) by simp
  obtain st1 q fs1 where one: "mw_take mems p (st, m) =
      Inr (st1, m\<lparr>mem_data := overlay (mem_data m) a bs, w_queue := w_queue m @ [q]\<rparr>)"
    and wf1: "store_wf fs1 st1" and k: "keeps {p} st st1"
    by (rule take_write [OF Cons.prems(1) p(1) le Cons.prems(6)])
  let ?m = "m\<lparr>mem_data := overlay (mem_data m) a bs, w_queue := w_queue m @ [q]\<rparr>"
  have rest: "length (bss' ! i) = r \<and> writes st1 (qs ! i) (a + r + r * i) (bss' ! i)" if "i < length qs" for i
  proof -
    have "qs ! i \<noteq> p" using that Cons.prems(2) by auto
    then show ?thesis
      using Cons.prems(4) [rule_format, of "Suc i"] that bss keepsD(1) [OF k] by (simp add: algebra_simps)
  qed
  have "\<exists>st' qs' fs'. efold (mw_take mems) qs (st1, ?m) =
      Inr (st', ?m\<lparr>mem_data := overlay (mem_data ?m) (a + r) (concat bss'), w_queue := w_queue ?m @ qs'\<rparr>) \<and>
    store_wf fs' st' \<and> keeps (set qs) st1 st' \<and> length qs' = length qs"
    using Cons.prems bss rest wf1 by (intro Cons.IH) (simp_all add: algebra_simps)
  then obtain st' qs' fs' where two: "efold (mw_take mems) qs (st1, ?m) =
      Inr (st', ?m\<lparr>mem_data := overlay (mem_data ?m) (a + r) (concat bss'), w_queue := w_queue ?m @ qs'\<rparr>)"
    "store_wf fs' st'" "keeps (set qs) st1 st'" "length (q # qs') = length (p # qs)" by auto
  have "efold (mw_take mems) (p # qs) (st, m) =
      Inr (st', m\<lparr>mem_data := overlay (mem_data m) a (concat bss), w_queue := w_queue m @ (q # qs')\<rparr>)"
    using one two(1) bss p(2) overlay_append [of "mem_data m" a bs "concat bss'"] by simp
  moreover have "keeps (set (p # qs)) st st'"
    using keeps_chain [OF k two(3)] by simp
  ultimately show ?case using two(2,4) by blast
qed

lemma take_reads:
  assumes "store_wf fs st" and "distinct qs"
    and "\<forall>i < length qs. reads st (qs ! i) (a + r * i) r" and "mw_peq m = []"
  shows "\<exists>st' qs' fs'. efold (mw_take mems) qs (st, m) = Inr (st', m\<lparr>r_queue := r_queue m @ qs'\<rparr>) \<and>
    store_wf fs' st' \<and> keeps (set qs) st st' \<and> length qs' = length qs \<and>
    (\<forall>i < length qs. reads st' (qs' ! i) (a + r * i) r)"
  using assms
proof (induction qs arbitrary: st fs m a)
  case Nil
  then show ?case by (auto simp: keeps_def intro!: exI [of _ "[]"])
next
  case (Cons p qs)
  have p: "reads st p a r"
    using Cons.prems(3) [rule_format, of 0] by simp
  obtain st1 q fs1 where one: "mw_take mems p (st, m) = Inr (st1, m\<lparr>r_queue := r_queue m @ [q]\<rparr>)"
    and wf1: "store_wf fs1 st1" and k: "keeps {p} st st1" and q: "reads st1 q a r" "q \<notin> live st"
    by (rule take_read [OF Cons.prems(1) p Cons.prems(4)])
  let ?m = "m\<lparr>r_queue := r_queue m @ [q]\<rparr>"
  have rest: "reads st1 (qs ! i) (a + r + r * i) r" if "i < length qs" for i
  proof -
    have "qs ! i \<noteq> p" using that Cons.prems(2) by auto
    then show ?thesis
      using Cons.prems(3) [rule_format, of "Suc i"] that keepsD(2) [OF k] by (simp add: algebra_simps)
  qed
  have old: "qs ! i \<in> live st" if "i < length qs" for i
    using Cons.prems(3) [rule_format, of "Suc i"] that by (simp add: reads_def link_payload_def)
  have "\<exists>st' qs' fs'. efold (mw_take mems) qs (st1, ?m) = Inr (st', ?m\<lparr>r_queue := r_queue ?m @ qs'\<rparr>) \<and>
    store_wf fs' st' \<and> keeps (set qs) st1 st' \<and> length qs' = length qs \<and>
    (\<forall>i < length qs. reads st' (qs' ! i) (a + r + r * i) r)"
    using Cons.prems rest wf1 by (intro Cons.IH) simp_all
  then obtain st' qs' fs' where two: "efold (mw_take mems) qs (st1, ?m) = Inr (st', ?m\<lparr>r_queue := r_queue ?m @ qs'\<rparr>)"
    "store_wf fs' st'" "keeps (set qs) st1 st'" "length qs' = length qs"
    "\<forall>i < length qs. reads st' (qs' ! i) (a + r + r * i) r" by blast
  have "q \<notin> set qs" using q(2) old by (metis in_set_conv_nth)
  then have q': "reads st' q a r" using keepsD(2) [OF two(3) _ q(1)] by simp
  show ?case
  proof (intro exI conjI)
    show "efold (mw_take mems) (p # qs) (st, m) = Inr (st', m\<lparr>r_queue := r_queue m @ (q # qs')\<rparr>)"
      using one two(1) by simp
    show "store_wf fs' st'" by (rule two(2))
    show "keeps (set (p # qs)) st st'" using keeps_chain [OF k two(3)] by simp
    show "length (q # qs') = length (p # qs)" using two(4) by simp
    show "\<forall>i < length (p # qs). reads st' ((q # qs') ! i) (a + r * i) r"
      using q' two(5) by (auto simp: nth_Cons algebra_simps split: nat.splits)
  qed
qed

section \<open>Answers\<close>

text \<open>
  A call of the link to the wrapper, and the callback of its event queue; then a turn in which the
  device answers on its falling edge and the wrapper takes the answer on its edges.
\<close>

definition arrive :: "store \<Rightarrow> sim_wrapper \<Rightarrow> pid \<Rightarrow> sim_wrapper" where
  "arrive st w p = sw_peq_fire st (fst (sw_nb_transport_bw w p))"

definition answer_turn ::
  "store \<times> 'm mem_wrapper \<times> sim_wrapper \<Rightarrow> sim_error + (store \<times> 'm mem_wrapper \<times> sim_wrapper)" where
  "answer_turn x =
     (case x of (st, m, w) \<Rightarrow>
        case mw_clock_negedge (st, m) of ((st1, m1), os) \<Rightarrow>
          ebind (take_rack (\<lambda>_. (mem_data m1, mem_size m1)) st1
                   (sw_clock_posedge (foldl (arrive st1) w (tokens answers os))))
            (\<lambda>(w1, os1). Inr (st1, m1, w1)))"

fun answer_turns ::
  "nat \<Rightarrow> store \<times> 'm mem_wrapper \<times> sim_wrapper \<Rightarrow> sim_error + (store \<times> 'm mem_wrapper \<times> sim_wrapper)" where
  "answer_turns 0 x = Inr x"
| "answer_turns (Suc k) x = ebind (answer_turn x) (answer_turns k)"

text \<open>A wrapper that waits for the answers of a read.\<close>

definition waiting :: "sim_wrapper \<Rightarrow> bool" where
  "waiting w \<longleftrightarrow> rack_queue w = [] \<and> rack_incoming w = None \<and> sw_peq w = [] \<and>
     chan_inv (h_chan (sw_host w)) \<and> \<not> pb_is_full (bi (h_chan (sw_host w)))"

definition only_writes :: "store \<Rightarrow> pid list \<Rightarrow> bool" where
  "only_writes st ps \<longleftrightarrow> (\<forall>p \<in> set ps. gp_command (heap st p) \<noteq> TLM_READ_COMMAND)"

lemma take_rack_keeps:
  assumes "take_rack mems st w = Inr (w', os)"
  shows "rack_incoming w' = rack_incoming w" "sw_peq w' = sw_peq w"
  using assms
  by (auto simp: take_rack_def respond_def Let_def split: list.splits option.splits if_splits)

lemma arrive_read:
  assumes "sw_peq w = []" and "gp_command (heap st p) = TLM_READ_COMMAND"
  shows "arrive st w p = w\<lparr>rack_incoming := Some p\<rparr>"
  using assms by (cases w) (simp add: arrive_def sw_nb_transport_bw_def sw_peq_fire_def sw_peq_cb_def)

lemma arrive_write:
  assumes "sw_peq w = []" and "gp_command (heap st p) \<noteq> TLM_READ_COMMAND"
  shows "arrive st w p = w\<lparr>wack_incoming := Some p\<rparr>"
  using assms by (cases w) (simp add: arrive_def sw_nb_transport_bw_def sw_peq_fire_def sw_peq_cb_def)

lemma negedge_read:
  assumes "rack_queue m = p # ps"
  obtains m' where "mw_clock_negedge (st, m) =
      ((upd_gp p (\<lambda>g. g\<lparr>gp_data := Mem_ptr (mw_id m) (gp_address g)\<rparr>) st, m'), Bw_read 0 p # map (Bw_write 0) (take 1 (wack_queue m)))"
    and "rack_queue m' = ps" "wack_queue m' = drop 1 (wack_queue m)" "mem_data m' = mem_data m"
    "mem_size m' = mem_size m" "mw_id m' = mw_id m"
  using assms that
  by (cases "wack_queue m") (auto simp: mw_clock_negedge_def backward_trans_def)

text \<open>What has arrived when the wrapper reaches its falling edge.\<close>

lemma arrived:
  assumes "waiting w" and "gp_command (heap st p) = TLM_READ_COMMAND" and "only_writes st acks" and "length acks \<le> 1"
  obtains w' where "sw_clock_posedge (foldl (arrive st) w (p # acks)) = w'" and "rack_queue w' = [p]"
    "rack_incoming w' = None" "sw_peq w' = []" "packet_size w' = packet_size w" "dram_req_size w' = dram_req_size w"
    "packet_data w' = packet_data w" "rack_num w' = rack_num w" "sw_host w' = sw_host w"
proof -
  have "sw_peq (w\<lparr>rack_incoming := Some p\<rparr>) = []" using assms(1) by (simp add: waiting_def)
  then have "foldl (arrive st) w (p # acks) = w\<lparr>rack_incoming := Some p\<rparr> \<or>
      (\<exists>q. foldl (arrive st) w (p # acks) = w\<lparr>rack_incoming := Some p, wack_incoming := Some q\<rparr>)"
    using assms arrive_read [of w st p] arrive_write
    by (cases acks) (auto simp: waiting_def only_writes_def)
  with assms(1) that show thesis
    by (auto simp: sw_clock_posedge_def waiting_def Let_def split: option.splits)
qed

text \<open>Setting the data pointer of an answer changes nothing else.\<close>

lemma data_set_live: "live (upd_gp p (\<lambda>g. g\<lparr>gp_data := f g\<rparr>) st) = live st"
  by (auto simp: live_def)

lemma data_set:
  "reads (upd_gp p (\<lambda>g. g\<lparr>gp_data := f g\<rparr>) st) q a n \<longleftrightarrow> reads st q a n"
  "only_writes (upd_gp p (\<lambda>g. g\<lparr>gp_data := f g\<rparr>) st) ps \<longleftrightarrow> only_writes st ps"
  by (auto simp: reads_def link_payload_def data_set_live only_writes_def)

text \<open>What the turns keep of the device: its memory, and the rest of its queues.\<close>

definition served :: "'m mem_wrapper \<Rightarrow> pid list \<Rightarrow> 'm mem_wrapper \<Rightarrow> bool" where
  "served m ps m' \<longleftrightarrow> rack_queue m' = ps \<and> wack_queue m' = drop 1 (wack_queue m) \<and> mem_data m' = mem_data m \<and>
     mem_size m' = mem_size m"

lemma answer_turn_step:
  assumes w: "waiting w" and m: "rack_queue m = p # ps" and p: "reads st p a (unat (dram_req_size w))"
    and load: "mem_load (mem_data m) (mem_size m) a (unat (dram_req_size w)) = Inr bs"
    and acks: "only_writes st (wack_queue m)"
  obtains st1 m1 w1 where
    "answer_turn (st, m, w) =
       ebind (take_rack (\<lambda>_. (mem_data m1, mem_size m1)) st1 w1) (\<lambda>(w2, os). Inr (st1, m1, w2))"
    and "served m ps m1" and "rack_queue w1 = [p]" "rack_incoming w1 = None" "sw_peq w1 = []"
    "packet_size w1 = packet_size w" "dram_req_size w1 = dram_req_size w" "packet_data w1 = packet_data w"
    "rack_num w1 = rack_num w" "sw_host w1 = sw_host w"
    and "brings (dram_req_size w) ((\<lambda>_. (mem_data m1, mem_size m1)), st1) p bs"
    and "\<And>q b k. reads st1 q b k = reads st q b k" and "\<And>qs. only_writes st1 qs = only_writes st qs"
proof -
  let ?st = "upd_gp p (\<lambda>g. g\<lparr>gp_data := Mem_ptr (mw_id m) (gp_address g)\<rparr>) st"
  obtain m1 where neg: "mw_clock_negedge (st, m) = ((?st, m1), Bw_read 0 p # map (Bw_write 0) (take 1 (wack_queue m)))"
    and m1: "rack_queue m1 = ps" "wack_queue m1 = drop 1 (wack_queue m)" "mem_data m1 = mem_data m"
    "mem_size m1 = mem_size m" "mw_id m1 = mw_id m"
    by (rule negedge_read [OF m])
  have tok: "tokens answers (map (Bw_write 0) qs) = qs" for qs
    by (induction qs) (simp_all add: tokens_def)
  have acks': "only_writes ?st (take 1 (wack_queue m))" "length (take 1 (wack_queue m)) \<le> 1"
    using acks by (auto simp: data_set only_writes_def dest: in_set_takeD)
  have cmd: "gp_command (heap ?st p) = TLM_READ_COMMAND" using p by (simp add: reads_def)
  obtain w1 where
    w1: "sw_clock_posedge (foldl (arrive ?st) w (p # take 1 (wack_queue m))) = w1" "rack_queue w1 = [p]"
    "rack_incoming w1 = None" "sw_peq w1 = []" "packet_size w1 = packet_size w" "dram_req_size w1 = dram_req_size w"
    "packet_data w1 = packet_data w" "rack_num w1 = rack_num w" "sw_host w1 = sw_host w"
    by (rule arrived [OF w cmd acks'])
  have "answer_turn (st, m, w) =
      ebind (take_rack (\<lambda>_. (mem_data m1, mem_size m1)) ?st w1) (\<lambda>(w2, os). Inr (?st, m1, w2))"
    using neg w1(1) by (simp add: answer_turn_def tok)
  moreover have "served m ps m1" using m1 by (simp add: served_def)
  moreover have "gp_length (heap st p) = dram_req_size w" using p by (simp add: reads_def word_unat_eq_iff)
  then have "brings (dram_req_size w) ((\<lambda>_. (mem_data m1, mem_size m1)), ?st) p bs"
    using p load m1 by (auto simp: brings_def reads_def data_read_def mem_load_def split: if_splits)
  ultimately show thesis
    by (rule that [OF _ _ w1(2-9)]) (rule data_set)+
qed

lemma answer_turn_middle:
  assumes whole: "unat (packet_size w) = unat (dram_req_size w) * n" "dram_req_size w \<noteq> 0"
    and k: "Suc (length ds) < n" and w: "waiting w" and f: "filled w ds" and m: "rack_queue m = p # ps"
    and p: "reads st p a (unat (dram_req_size w))"
    and load: "mem_load (mem_data m) (mem_size m) a (unat (dram_req_size w)) = Inr bs"
    and acks: "only_writes st (wack_queue m)"
  obtains st1 m1 w2 where "answer_turn (st, m, w) = Inr (st1, m1, w2)" and "served m ps m1" and "waiting w2"
    and "filled w2 (ds @ [bs])" and "packet_size w2 = packet_size w" "dram_req_size w2 = dram_req_size w"
    "sw_host w2 = sw_host w"
    and "\<And>q b k. reads st1 q b k = reads st q b k" and "\<And>qs. only_writes st1 qs = only_writes st qs"
proof (rule answer_turn_step [OF w m p load acks])
  fix st1 m1 w1
  assume turn: "answer_turn (st, m, w) =
       ebind (take_rack (\<lambda>_. (mem_data m1, mem_size m1)) st1 w1) (\<lambda>(w2, os). Inr (st1, m1, w2))"
    and s: "served m ps m1" and q: "rack_queue w1 = [p]"
    and idle: "rack_incoming w1 = None" "sw_peq w1 = []"
    and same: "packet_size w1 = packet_size w" "dram_req_size w1 = dram_req_size w" "packet_data w1 = packet_data w"
    "rack_num w1 = rack_num w" "sw_host w1 = sw_host w"
    and b: "brings (dram_req_size w) ((\<lambda>_. (mem_data m1, mem_size m1)), st1) p bs"
    and keep: "\<And>q b k. reads st1 q b k = reads st q b k" "\<And>qs. only_writes st1 qs = only_writes st qs"
  have f1: "filled w1 ds" using f same by (simp add: filled_def)
  obtain w2 where t: "take_rack (\<lambda>_. (mem_data m1, mem_size m1)) st1 w1 = Inr (w2, [Fw_end 0 p])"
    "rack_queue w2 = []" "filled w2 (ds @ [bs])" "packet_size w2 = packet_size w1"
    "dram_req_size w2 = dram_req_size w1" "sw_host w2 = sw_host w1"
    using take_rack_middle [of w1 n ds p "[]" "\<lambda>_. (mem_data m1, mem_size m1)" st1 bs] whole k q b f1 same by auto
  have "waiting w2"
    using w t same idle take_rack_keeps [OF t(1)] by (simp add: waiting_def)
  with that [OF _ s] turn t same keep show thesis by simp
qed

lemma answer_turn_last:
  assumes whole: "unat (packet_size w) = unat (dram_req_size w) * n" "dram_req_size w \<noteq> 0"
    and k: "Suc (length ds) = n" and w: "waiting w" and f: "filled w ds" and m: "rack_queue m = p # ps"
    and p: "reads st p a (unat (dram_req_size w))"
    and load: "mem_load (mem_data m) (mem_size m) a (unat (dram_req_size w)) = Inr bs"
    and acks: "only_writes st (wack_queue m)" and small: "unat (packet_size w) \<le> MAX_DATA_SIZE"
  obtains st1 m1 w2 where "answer_turn (st, m, w) = Inr (st1, m1, w2)" and "req_done w2"
    and "pb_list (bi (h_chan (sw_host w2))) =
      pb_list (bi (h_chan (sw_host w))) @ [response_packet (packet_size w) (concat (ds @ [bs]))]"
proof (rule answer_turn_step [OF w m p load acks])
  fix st1 m1 w1
  assume turn: "answer_turn (st, m, w) =
       ebind (take_rack (\<lambda>_. (mem_data m1, mem_size m1)) st1 w1) (\<lambda>(w2, os). Inr (st1, m1, w2))"
    and q: "rack_queue w1 = [p]"
    and same: "packet_size w1 = packet_size w" "dram_req_size w1 = dram_req_size w" "packet_data w1 = packet_data w"
    "rack_num w1 = rack_num w" "sw_host w1 = sw_host w"
    and b: "brings (dram_req_size w) ((\<lambda>_. (mem_data m1, mem_size m1)), st1) p bs"
  have f1: "filled w1 ds" using f same by (simp add: filled_def)
  obtain w2 where t: "take_rack (\<lambda>_. (mem_data m1, mem_size m1)) st1 w1 = Inr (w2, [Fw_end 0 p])" "req_done w2"
    "pb_list (bi (h_chan (sw_host w2))) =
      pb_list (bi (h_chan (sw_host w1))) @ [response_packet (packet_size w1) (concat (ds @ [bs]))]"
    using take_rack_last [of w1 n ds p "[]" "\<lambda>_. (mem_data m1, mem_size m1)" st1 bs] whole k q b f1 same w small
    by (auto simp: waiting_def)
  with that turn same show thesis by simp
qed

section \<open>The answers of a packet\<close>

text \<open>Device and wrapper answer the reads of consecutive pieces of a range that holds the bytes \<open>bs\<close>.\<close>

lemma mem_load_piece:
  assumes "mem_load d sz a (r * n) = Inr bs" and "i < n"
  shows "mem_load d sz (a + r * i) r = Inr (piece r i bs)" and "length bs = r * n"
proof -
  have "r * Suc i \<le> r * n" using assms(2) by (intro mult_le_mono2) simp
  then have le: "r * i + r \<le> r * n" by simp
  have sz: "a + r * n \<le> sz" "bs = map d [a ..< a + r * n]"
    using assms(1) by (auto simp: mem_load_def split: if_splits)
  show "length bs = r * n" using sz(2) by simp
  have "map d [a + r * i ..< a + r * i + r] = piece r i bs"
    using le by (simp add: piece_def sz(2) drop_map take_map take_upt)
  moreover have "a + r * i + r \<le> sz" using sz(1) le by simp
  ultimately show "mem_load d sz (a + r * i) r = Inr (piece r i bs)"
    by (simp add: mem_load_def)
qed

lemma answer_turns_run:
  assumes "unat (packet_size w) = unat (dram_req_size w) * n" "dram_req_size w \<noteq> 0"
    and "waiting w" and "filled w ds" and "length ds + length qs = n" and "qs \<noteq> []" and "rack_queue m = qs @ ps"
    and "\<forall>i < length qs. reads st (qs ! i) (a + unat (dram_req_size w) * (length ds + i)) (unat (dram_req_size w))"
    and "mem_load (mem_data m) (mem_size m) a (unat (dram_req_size w) * n) = Inr bs"
    and "ds = map (\<lambda>i. piece (unat (dram_req_size w)) i bs) [0..<length ds]"
    and "only_writes st (wack_queue m)" and "unat (packet_size w) \<le> MAX_DATA_SIZE"
  shows "\<exists>st' m' w'. answer_turns (length qs) (st, m, w) = Inr (st', m', w') \<and> req_done w' \<and>
    pb_list (bi (h_chan (sw_host w'))) = pb_list (bi (h_chan (sw_host w))) @ [response_packet (packet_size w) bs]"
  using assms
proof (induction qs arbitrary: st m w ds)
  case (Cons p qs)
  let ?r = "unat (dram_req_size w)" and ?b = "piece (unat (dram_req_size w)) (length ds) bs"
  note whole = Cons.prems(1,2) and wait = Cons.prems(3) and f = Cons.prems(4)
  have lt: "length ds < n" using Cons.prems(5) by simp
  have q: "rack_queue m = p # (qs @ ps)" using Cons.prems(7) by simp
  have p: "reads st p (a + ?r * length ds) ?r" using Cons.prems(8) [rule_format, of 0] by simp
  note load = mem_load_piece [OF Cons.prems(9) lt]
  have ds: "ds @ [?b] = map (\<lambda>i. piece ?r i bs) [0..<length (ds @ [?b])]"
    using Cons.prems(10) by simp
  show ?case
  proof (cases "qs = []")
    case True
    then have k: "Suc (length ds) = n" using Cons.prems(5) by simp
    have all: "concat (ds @ [?b]) = bs"
      using concat_pieces_all [OF load(2)] ds k by (metis length_append_singleton pieces_def)
    show ?thesis
    proof (rule answer_turn_last [OF whole k wait f q p load(1) Cons.prems(11,12)])
      fix st1 m1 w2
      assume "answer_turn (st, m, w) = Inr (st1, m1, w2)" "req_done w2"
        "pb_list (bi (h_chan (sw_host w2))) =
          pb_list (bi (h_chan (sw_host w))) @ [response_packet (packet_size w) (concat (ds @ [?b]))]"
      with True all show ?thesis by simp
    qed
  next
    case False
    then have k: "Suc (length ds) < n" using Cons.prems(5) by (cases qs) simp_all
    show ?thesis
    proof (rule answer_turn_middle [OF whole k wait f q p load(1) Cons.prems(11)])
      fix st1 m1 w2
      assume turn: "answer_turn (st, m, w) = Inr (st1, m1, w2)" and s: "served m (qs @ ps) m1" "waiting w2"
        "filled w2 (ds @ [?b])" and same: "packet_size w2 = packet_size w" "dram_req_size w2 = dram_req_size w"
        "sw_host w2 = sw_host w" and keep: "\<And>q b k. reads st1 q b k = reads st q b k"
        "\<And>qs. only_writes st1 qs = only_writes st qs"
      have rest: "reads st1 (qs ! i) (a + ?r * (length (ds @ [?b]) + i)) ?r" if "i < length qs" for i
        using Cons.prems(8) [rule_format, of "Suc i"] that keep by simp
      have acks: "only_writes st1 (wack_queue m1)"
        using Cons.prems(11) s(1) keep by (auto simp: only_writes_def served_def dest: in_set_dropD)
      have "\<exists>st' m' w'. answer_turns (length qs) (st1, m1, w2) = Inr (st', m', w') \<and> req_done w' \<and>
        pb_list (bi (h_chan (sw_host w'))) = pb_list (bi (h_chan (sw_host w2))) @ [response_packet (packet_size w2) bs]"
        by (rule Cons.IH [where ds = "ds @ [?b]"])
          (use Cons.prems(1,2,5,9,12) False s same rest acks ds in \<open>simp_all add: served_def\<close>)
      with turn same show ?thesis by simp
    qed
  qed
qed simp

section \<open>The packet of a write\<close>

lemma piece_address:
  assumes "unat a + unat r * n \<le> 2 ^ 32" and "i < n" and "r \<noteq> 0"
  shows "unat (ucast (a + r * of_nat i :: u32) :: u64) = unat a + unat r * i"
proof -
  have "unat a + unat r * i < unat a + unat r * n" using assms(2,3) by (simp add: unat_gt_0)
  then have lt: "unat a + unat r * i < 2 ^ 32" using assms(1) by (rule less_le_trans)
  have small: "unat r * i < 2 ^ LENGTH(32)" using lt by simp
  have eq: "r * of_nat i = (of_nat (unat r * i) :: u32)" by simp
  have "unat (r * of_nat i :: u32) = unat r * i"
    using small unfolding eq unat_of_nat by simp
  then have "unat (a + r * of_nat i :: u32) = unat a + unat r * i"
    using lt by (simp add: unat_word_ariths)
  then show ?thesis using lt by (simp add: unsigned_ucast_eq take_bit_nat_eq_self)
qed

lemma row_writes:
  assumes row: "payload_row s qs n TLM_WRITE_COMMAND a r h dev (\<lambda>i. Buf_ptr (piece (unat r) i dat))"
    and new: "set qs \<subseteq> live (s_store s)" and fits: "unat a + unat r * n \<le> 2 ^ 32" and r: "r \<noteq> 0"
    and room: "unat r * n \<le> length dat" and i: "i < n"
  shows "writes (s_store s) (qs ! i) (unat a + unat r * i) (piece (unat r) i dat)"
proof -
  have c: "carries (s_store s) (qs ! i) TLM_WRITE_COMMAND (a + r * of_nat i) r h (Buf_ptr (piece (unat r) i dat))"
    and l: "qs ! i \<in> live (s_store s)"
    using row new i by (auto simp: payload_row_def)
  have "unat r * Suc i \<le> unat r * n" using i by (intro mult_le_mono2) simp
  then have "unat r * Suc i \<le> length dat" using room by simp
  then have len: "length (piece (unat r) i dat) = unat r" by (rule length_piece)
  have ad: "unat (gp_address (heap (s_store s) (qs ! i))) = unat a + unat r * i"
    using c piece_address [OF fits i r] unfolding carries_def by metis
  show ?thesis
    using c l len ad by (simp add: writes_def link_payload_def carries_def)
qed

lemma row_reads:
  assumes row: "payload_row s qs n TLM_READ_COMMAND a r h dev dat"
    and new: "set qs \<subseteq> live (s_store s)" and fits: "unat a + unat r * n \<le> 2 ^ 32" and r: "r \<noteq> 0" and i: "i < n"
  shows "reads (s_store s) (qs ! i) (unat a + unat r * i) (unat r)"
proof -
  have c: "carries (s_store s) (qs ! i) TLM_READ_COMMAND (a + r * of_nat i) r h (dat i)"
    and l: "qs ! i \<in> live (s_store s)"
    using row new i by (auto simp: payload_row_def)
  have ad: "unat (gp_address (heap (s_store s) (qs ! i))) = unat a + unat r * i"
    using c piece_address [OF fits i r] unfolding carries_def by metis
  show ?thesis
    using c l ad by (simp add: reads_def link_payload_def carries_def)
qed

text \<open>A write packet, split and taken by the device, is in its memory; nothing else changes there.\<close>

lemma packet_lands:
  assumes wf: "store_wf fs (s_store s)" and r: "dram_req_size w \<noteq> 0"
    and whole: "unat (packet_size w) = unat (dram_req_size w) * n" and room: "unat (packet_size w) \<le> length (p_data p)"
    and idle: "w_queue w = []" "mw_peq m = []"
    and fits: "unat (p_address p) + unat (packet_size w) \<le> mem_size m" "mem_size m \<le> 2 ^ 32"
  obtains s1 w1 st2 qs fs2 where "split_write p (s, w) = Inr (s1, w1)"
    and "efold (mw_take mems) (w_queue w1) (s_store s1, m) =
      Inr (st2, m\<lparr>mem_data := overlay (mem_data m) (unat (p_address p)) (take (unat (packet_size w)) (p_data p)),
                   w_queue := w_queue m @ qs\<rparr>)"
    and "store_wf fs2 st2" and "length qs = n"
proof -
  let ?r = "dram_req_size w" and ?a = "p_address p"
  obtain s1 w1 qs fs1 where split: "split_write p (s, w) = Inr (s1, w1)" and q: "w_queue w1 = qs"
    and wf1: "store_wf fs1 (s_store s1)" and made: "made s s1 qs"
    and row: "payload_row s1 qs n TLM_WRITE_COMMAND ?a ?r (host_id w) (p_device_id p)
      (\<lambda>i. Buf_ptr (piece (unat ?r) i (p_data p)))"
    and all: "concat (map (\<lambda>i. piece (unat ?r) i (p_data p)) [0 ..< n]) = take (unat (packet_size w)) (p_data p)"
    using split_write_payloads [OF wf r whole room] idle(1) by auto
  have n: "length qs = n" using row by (simp add: payload_row_def)
  have new: "set qs \<subseteq> live (s_store s1)" "distinct qs" using made by (auto simp: made_def)
  have range: "unat ?a + unat ?r * n \<le> 2 ^ 32" "unat ?r * n \<le> length (p_data p)"
    using fits whole room by simp_all
  have each: "length (map (\<lambda>i. piece (unat ?r) i (p_data p)) [0 ..< n] ! i) = unat ?r \<and>
      writes (s_store s1) (qs ! i) (unat ?a + unat ?r * i) (map (\<lambda>i. piece (unat ?r) i (p_data p)) [0 ..< n] ! i)"
    if "i < length qs" for i
  proof -
    have i: "i < n" using that n by simp
    have "unat ?r * Suc i \<le> unat ?r * n" using i by (intro mult_le_mono2) simp
    then have "length (piece (unat ?r) i (p_data p)) = unat ?r"
      by (intro length_piece) (use range(2) in simp)
    then show ?thesis using row_writes [OF row new(1) range(1) r range(2) i] i by simp
  qed
  from take_writes [OF wf1 new(2) _ , of "map (\<lambda>i. piece (unat ?r) i (p_data p)) [0 ..< n]" "unat ?r" "unat ?a" m mems]
    each n fits(1) whole idle(2) all
  obtain st2 qs' fs2 where "efold (mw_take mems) qs (s_store s1, m) =
      Inr (st2, m\<lparr>mem_data := overlay (mem_data m) (unat ?a) (take (unat (packet_size w)) (p_data p)),
                   w_queue := w_queue m @ qs'\<rparr>)" "store_wf fs2 st2" "length qs' = n"
    by auto
  with that split q show thesis by blast
qed

lemma mem_load_overlay: "a + length bs \<le> sz \<Longrightarrow> mem_load (overlay d a bs) sz a (length bs) = Inr bs"
  by (simp add: mem_load_def overlay_def) (rule nth_equalityI; simp)

lemma mem_load_same:
  assumes "mem_load d sz a n = Inr bs" "\<forall>k. a \<le> k \<and> k < a + n \<longrightarrow> d' k = d k"
  shows "mem_load d' sz a n = Inr bs"
  using assms by (auto simp: mem_load_def split: if_splits)

text \<open>A read packet, split and taken by the device.\<close>

lemma packet_asked:
  assumes wf: "store_wf fs (s_store s)" and r: "dram_req_size w \<noteq> 0"
    and whole: "unat (packet_size w) = unat (dram_req_size w) * n"
    and idle: "r_queue w = []" "mw_peq m = []"
    and fits: "unat (p_address p) + unat (packet_size w) \<le> 2 ^ 32"
  obtains s1 w1 st2 qs where "split_read p (s, w) = Inr (s1, w1)"
    and "efold (mw_take mems) (r_queue w1) (s_store s1, m) = Inr (st2, m\<lparr>r_queue := r_queue m @ qs\<rparr>)"
    and "length qs = n" and "\<forall>i < n. reads st2 (qs ! i) (unat (p_address p) + unat (dram_req_size w) * i) (unat (dram_req_size w))"
proof -
  let ?r = "dram_req_size w" and ?a = "p_address p"
  have n: "unat (packet_size w) div unat ?r = n" using whole r by (simp add: unat_eq_0)
  obtain s1 w1 qs fs1 where split: "split_read p (s, w) = Inr (s1, w1)" and q: "r_queue w1 = qs"
    and wf1: "store_wf fs1 (s_store s1)" and made: "made s s1 qs"
    and row: "payload_row s1 qs n TLM_READ_COMMAND ?a ?r (host_id w) (p_device_id p) (\<lambda>_. Null_ptr)"
    using sw_splits_read [OF wf r, of p] idle(1) unfolding n by auto
  have len: "length qs = n" using row by (simp add: payload_row_def)
  have new: "set qs \<subseteq> live (s_store s1)" "distinct qs" using made by (auto simp: made_def)
  have range: "unat ?a + unat ?r * n \<le> 2 ^ 32" using fits whole by simp
  have "\<forall>i < length qs. reads (s_store s1) (qs ! i) (unat ?a + unat ?r * i) (unat ?r)"
    using row_reads [OF row new(1) range r] len by simp
  from take_reads [OF wf1 new(2) this idle(2), of mems] len
  obtain st2 qs' where "efold (mw_take mems) qs (s_store s1, m) = Inr (st2, m\<lparr>r_queue := r_queue m @ qs'\<rparr>)"
    "length qs' = n" "\<forall>i < n. reads st2 (qs' ! i) (unat ?a + unat ?r * i) (unat ?r)"
    by auto
  with that split q show thesis by blast
qed

section \<open>What a run leaves alone\<close>

text \<open>
  Whether an event writes to none of the \<open>n\<close> bytes at \<open>a\<close>: only the callback of the event queue
  writes, and what it writes is the payload it delivers. \<open>run_spares\<close> says it of a run.
\<close>

definition ev_spares :: "nat \<Rightarrow> nat \<Rightarrow> mw_event \<Rightarrow> 'm mem_wrapper \<Rightarrow> bool" where
  "ev_spares a n e m =
     (case e of
        Mw_peq mems st \<Rightarrow>
          (case mw_peq m of [] \<Rightarrow> True
           | (p, ph) # es \<Rightarrow> ph \<noteq> BEGIN_REQ \<or> gp_command (heap st p) = TLM_READ_COMMAND \<or>
               unat (gp_address (heap st p)) + unat (gp_length (heap st p)) \<le> a \<or>
               a + n \<le> unat (gp_address (heap st p)))
      | _ \<Rightarrow> True)"

fun run_spares ::
  "(request \<Rightarrow> 'm \<Rightarrow> 'm \<times> bool) \<Rightarrow> ('m \<Rightarrow> 'm \<times> pid list) \<Rightarrow> nat \<Rightarrow> nat \<Rightarrow> mw_event list \<Rightarrow> 'm mem_wrapper \<Rightarrow> bool"
where
  "run_spares send tick a n [] m = True"
| "run_spares send tick a n (e # es) m =
     (ev_spares a n e m \<and>
      (case mw_ev send tick e m of Inl _ \<Rightarrow> True | Inr (m', os) \<Rightarrow> run_spares send tick a n es m'))"

definition spared :: "nat \<Rightarrow> nat \<Rightarrow> 'm mem_wrapper \<Rightarrow> 'm mem_wrapper \<Rightarrow> bool" where
  "spared a n m m' \<longleftrightarrow> (\<forall>k. a \<le> k \<and> k < a + n \<longrightarrow> mem_data m' k = mem_data m k) \<and> mem_size m' = mem_size m"

lemma spared_refl: "mem_data m' = mem_data m \<Longrightarrow> mem_size m' = mem_size m \<Longrightarrow> spared a n m m'"
  by (simp add: spared_def)

lemma update_trans_delay_memory:
  assumes "update_trans_delay now m ad rd = Inr m'"
  shows "mem_data m' = mem_data m \<and> mem_size m' = mem_size m"
proof -
  obtain t where "stamp_ns now = Inr t"
    using assms by (cases "stamp_ns now") (simp_all add: update_trans_delay_def)
  with assms show ?thesis
    by (cases rd) (auto simp: update_trans_delay_def split: prod.splits)
qed

lemma issue_all_memory:
  "mw_issue_all st now ps m = Inr m' \<Longrightarrow> mem_data m' = mem_data m \<and> mem_size m' = mem_size m"
proof (induction ps arbitrary: m)
  case (Cons p ps)
  then obtain m1 where one: "mw_issue st now p m = Inr m1" "mw_issue_all st now ps m1 = Inr m'" by auto
  then have "mem_data m1 = mem_data m \<and> mem_size m1 = mem_size m"
    by (cases "stamp_ns now") (auto simp: mw_issue_def Let_def split: if_splits)
  with Cons.IH [OF one(2)] show ?case by simp
qed simp

lemma complete_memory:
  assumes "mw_complete st now m = Inr m'"
  shows "mem_data m' = mem_data m \<and> mem_size m' = mem_size m"
  using assms update_trans_delay_memory
  by (fastforce simp: mw_complete_def Let_def split: prod.splits option.splits if_splits)

lemma dram_memory:
  assumes "simulate_dram send tick st now ac m = Inr (m', stop)"
  shows "mem_data m' = mem_data m \<and> mem_size m' = mem_size m"
proof -
  obtain m1 m2 where one: "mw_complete st now m = Inr m1"
    and two: "mw_issue_all st now (mem_request m1) (m1\<lparr>mem_request := []\<rparr>) = Inr m2"
    and m': "mem_data m' = mem_data m2" "mem_size m' = mem_size m2"
    using assms by (auto simp: simulate_dram_def Let_def split: if_splits)
  show ?thesis using complete_memory [OF one] issue_all_memory [OF two] m' by simp
qed

lemma peq_fire_memory:
  assumes "mw_peq_fire mems (st, m) = Inr (st', m')" and "ev_spares a n (Mw_peq mems st) m"
  shows "spared a n m m'"
proof (cases "mw_peq m")
  case Nil
  with assms show ?thesis by (simp add: mw_peq_fire_def spared_def)
next
  case (Cons e es)
  obtain p ph where e: "e = (p, ph)" by (cases e)
  with Cons assms(1) have cb: "mw_peq_cb mems (st, m\<lparr>mw_peq := es\<rparr>) p ph = Inr (st', m')"
    by (simp add: mw_peq_fire_def)
  consider "ph \<noteq> BEGIN_REQ \<or> gp_command (heap st p) = TLM_READ_COMMAND"
    | "ph = BEGIN_REQ" "gp_command (heap st p) \<noteq> TLM_READ_COMMAND" by blast
  then show ?thesis
  proof cases
    case 1
    with cb show ?thesis by (cases "ph = BEGIN_REQ") (auto simp: mw_peq_cb_def Let_def spared_def)
  next
    case 2
    with cb obtain bs d where
      d: "mem_store (mem_data m) (mem_size m) (unat (gp_address (heap st p))) bs (unat (gp_length (heap st p))) = Inr d"
      and m': "mem_data m' = d" "mem_size m' = mem_size m"
      by (auto simp: mw_peq_cb_def Let_def)
    let ?b = "unat (gp_address (heap st p))" and ?l = "unat (gp_length (heap st p))"
    have "d k = (if ?b \<le> k \<and> k < ?b + ?l then bs ! (k - ?b) else mem_data m k)" for k
      using d by (auto simp: mem_store_def split: if_splits)
    moreover have "?b + ?l \<le> a \<or> a + n \<le> ?b"
      using assms(2) Cons e 2 by (simp add: ev_spares_def)
    ultimately show ?thesis
      unfolding spared_def m' by (auto)
  qed
qed

lemma mw_ev_memory:
  assumes "mw_ev send tick e m = Inr (m', os)" and "ev_spares a n e m"
  shows "spared a n m m'"
proof (cases e)
  case (Mw_peq mems st)
  with assms obtain st' where "mw_peq_fire mems (st, m) = Inr (st', m')" by auto
  with peq_fire_memory assms(2) Mw_peq show ?thesis by blast
next
  case (Mw_dram st now ac)
  with assms(1) obtain stop where "simulate_dram send tick st now ac m = Inr (m', stop)" by auto
  from dram_memory [OF this] show ?thesis by (auto intro: spared_refl)
next
  case (Mw_negedge st)
  with assms(1) show ?thesis
    by (auto simp: mw_clock_negedge_def backward_trans_def split: list.splits intro!: spared_refl)
qed (use assms(1) in \<open>auto simp: mw_nb_transport_fw_def mw_clock_posedge_def Let_def split: list.splits intro!: spared_refl\<close>)

lemma run_memory:
  "run_events (mw_ev send tick) es m = Inr (m', os) \<Longrightarrow> run_spares send tick a n es m \<Longrightarrow> spared a n m m'"
proof (induction es arbitrary: m os)
  case (Cons e es)
  then obtain m1 os1 os2 where one: "mw_ev send tick e m = Inr (m1, os1)"
    and two: "run_events (mw_ev send tick) es m1 = Inr (m', os2)" by auto
  have "spared a n m m1" using mw_ev_memory [OF one] Cons.prems(2) by simp
  moreover have "spared a n m1 m'" using Cons.IH [OF two] Cons.prems(2) one by simp
  ultimately show ?case by (simp add: spared_def)
qed (simp add: spared_def)

section \<open>Write, then read\<close>

lemma written_is_stored:
  assumes sizes: "unat (packet_size w) = unat (dram_req_size w) * n" "dram_req_size w \<noteq> 0"
      "unat (packet_size w) \<le> length (p_data pw)"
    and range: "unat (p_address pw) + unat (packet_size w) \<le> mem_size m" "mem_size m \<le> 2 ^ 32"
    and start: "store_wf fs (s_store s)" "w_queue w = []" "mw_peq m = []"
    and wr: "split_write pw (s, w) = Inr (s1, w1)"
      "efold (mw_take mems) (w_queue w1) (s_store s1, m) = Inr (st2, m2)"
  shows "mem_load (mem_data m2) (mem_size m2) (unat (p_address pw)) (unat (packet_size w)) =
    Inr (take (unat (packet_size w)) (p_data pw))"
proof -
  let ?a = "unat (p_address pw)" and ?bs = "take (unat (packet_size w)) (p_data pw)"
  have len: "length ?bs = unat (packet_size w)" using sizes(3) by simp
  obtain s1' w1' st2' qs' fs2 where split: "split_write pw (s, w) = Inr (s1', w1')"
    and took: "efold (mw_take mems) (w_queue w1') (s_store s1', m) =
      Inr (st2', m\<lparr>mem_data := overlay (mem_data m) ?a ?bs, w_queue := w_queue m @ qs'\<rparr>)"
    and "store_wf fs2 st2'" "length qs' = n"
    by (rule packet_lands [OF start(1) sizes(2,1,3) start(2,3) range, where mems = mems])
  have "s1' = s1" "w1' = w1" using split wr(1) by simp_all
  then have "m2 = m\<lparr>mem_data := overlay (mem_data m) ?a ?bs, w_queue := w_queue m @ qs'\<rparr>"
    using took wr(2) by simp
  then have "mem_data m2 = overlay (mem_data m) ?a ?bs" "mem_size m2 = mem_size m" by simp_all
  then show ?thesis using mem_load_overlay [of ?a ?bs "mem_size m" "mem_data m"] range(1) len by simp
qed

lemma asked_is_queued:
  assumes sizes: "unat (packet_size v) = unat (dram_req_size v) * n" "dram_req_size v \<noteq> 0"
      "unat (p_address pr) + unat (packet_size v) \<le> 2 ^ 32"
    and start: "store_wf fs (s_store s)" "r_queue v = []" "mw_peq m = []"
    and rd: "split_read pr (s, v) = Inr (s1, v1)"
      "efold (mw_take mems) (r_queue v1) (s_store s1, m) = Inr (st2, m2)"
  obtains qs where "m2 = m\<lparr>r_queue := r_queue m @ qs\<rparr>" "length qs = n"
    "\<forall>i < n. reads st2 (qs ! i) (unat (p_address pr) + unat (dram_req_size v) * i) (unat (dram_req_size v))"
proof -
  obtain s1' v1' st2' qs where "split_read pr (s, v) = Inr (s1', v1')"
    and took: "efold (mw_take mems) (r_queue v1') (s_store s1', m) = Inr (st2', m\<lparr>r_queue := r_queue m @ qs\<rparr>)"
    and qs: "length qs = n" "\<forall>i < n. reads st2' (qs ! i) (unat (p_address pr) + unat (dram_req_size v) * i) (unat (dram_req_size v))"
    by (rule packet_asked [OF start(1) sizes(2,1) start(2,3) sizes(3), where mems = mems])
  then have "s1' = s1" "v1' = v1" using rd(1) by simp_all
  with took rd(2) have "st2' = st2" "m2 = m\<lparr>r_queue := r_queue m @ qs\<rparr>" by simp_all
  with qs that show thesis by blast
qed

text \<open>
  C3. What a host wrote is what it reads. A write packet is split, the memory device takes its payloads, and
  runs in any way that writes nothing to the range; then a read packet for the same address (of this
  or another host with the same sizes) is split, the device takes its payloads, and runs until their answers are
  queued in the order of the requests. Then the turns in which device and wrapper
  answer them succeed, and the host gets one packet, with the bytes that were written.
\<close>

theorem read_returns_written:
  assumes sizes: "unat (packet_size w) = unat (dram_req_size w) * n" "dram_req_size w \<noteq> 0" "0 < n"
      "unat (packet_size w) \<le> MAX_DATA_SIZE" "unat (packet_size w) \<le> length (p_data pw)"
    and range: "unat (p_address pw) + unat (packet_size w) \<le> mem_size m" "mem_size m \<le> 2 ^ 32"
    and start: "store_wf fs (s_store s)" "w_queue w = []" "mw_peq m = []"
    and wr: "split_write pw (s, w) = Inr (s1, w1)"
      "efold (mw_take mems) (w_queue w1) (s_store s1, m) = Inr (st2, m2)"
    and run: "run_events (mw_ev send tick) es m2 = Inr (m3, os3)" "mw_peq m3 = []"
      "run_spares send tick (unat (p_address pw)) (unat (packet_size w)) es m2"
    and same: "p_address pr = p_address pw" "packet_size v = packet_size w" "dram_req_size v = dram_req_size w"
    and again: "store_wf fs' (s_store s3)" "r_queue v = []"
    and rd: "split_read pr (s3, v) = Inr (s4, v4)"
      "efold (mw_take mems') (r_queue v4) (s_store s4, m3) = Inr (st5, m5)"
    and run': "run_events (mw_ev send tick) es' m5 = Inr (m6, os6)"
      "run_spares send tick (unat (p_address pw)) (unat (packet_size w)) es' m5"
      "rack_queue m6 = drop (length (r_queue m3)) (r_queue m5) @ ps" "keeps {} st5 st6" "only_writes st6 (wack_queue m6)"
    and host: "waiting u" "rack_num u = 0" "length (packet_data u) = unat (packet_size u)"
      "packet_size u = packet_size w" "dram_req_size u = dram_req_size w"
  shows "\<exists>st7 m7 u'. answer_turns n (st6, m6, u) = Inr (st7, m7, u') \<and> req_done u' \<and>
    pb_list (bi (h_chan (sw_host u'))) = pb_list (bi (h_chan (sw_host u))) @
      [response_packet (packet_size w) (take (unat (packet_size w)) (p_data pw))]"
proof -
  let ?a = "unat (p_address pw)" and ?N = "unat (packet_size w)" and ?bs = "take (unat (packet_size w)) (p_data pw)"
  have load2: "mem_load (mem_data m2) (mem_size m2) ?a ?N = Inr ?bs"
    by (rule written_is_stored [OF sizes(1,2,5) range start wr])
  have load3: "mem_load (mem_data m3) (mem_size m3) ?a ?N = Inr ?bs"
    using mem_load_same [OF load2, of "mem_data m3"] run_memory [OF run(1,3)] by (simp add: spared_def)
  have wholev: "unat (packet_size v) = unat (dram_req_size v) * n" "dram_req_size v \<noteq> 0"
    "unat (p_address pr) + unat (packet_size v) \<le> 2 ^ 32"
    using sizes same range by auto
  obtain qs where m5: "m5 = m3\<lparr>r_queue := r_queue m3 @ qs\<rparr>" and qs: "length qs = n"
    "\<forall>i < n. reads st5 (qs ! i) (unat (p_address pr) + unat (dram_req_size v) * i) (unat (dram_req_size v))"
    by (rule asked_is_queued [OF wholev again run(2) rd])
  have load6: "mem_load (mem_data m6) (mem_size m6) ?a ?N = Inr ?bs"
    using mem_load_same [of "mem_data m5" "mem_size m5", of ?a ?N ?bs "mem_data m6"] load3 m5
      run_memory [OF run'(1,2)] by (simp add: spared_def)
  have rack: "rack_queue m6 = qs @ ps" using run'(3) m5 by simp
  have each: "\<forall>i < length qs. reads st6 (qs ! i) (?a + unat (dram_req_size u) * (length [] + i)) (unat (dram_req_size u))"
  proof (intro allI impI)
    fix i assume "i < length qs"
    then have "reads st5 (qs ! i) (?a + unat (dram_req_size u) * i) (unat (dram_req_size u))"
      using qs same host(5) by simp
    from keepsD(2) [OF run'(4) _ this]
    show "reads st6 (qs ! i) (?a + unat (dram_req_size u) * (length [] + i)) (unat (dram_req_size u))" by simp
  qed
  have "qs \<noteq> []" using qs(1) sizes(3) by auto
  moreover have "filled u []" using host by (simp add: filled_def)
  moreover have "mem_load (mem_data m6) (mem_size m6) ?a (unat (dram_req_size u) * n) = Inr ?bs"
    using load6 sizes(1) host(5) by simp
  moreover have "unat (packet_size u) = unat (dram_req_size u) * n" "dram_req_size u \<noteq> 0"
    "unat (packet_size u) \<le> MAX_DATA_SIZE"
    using sizes host by simp_all
  ultimately have "\<exists>st' m' w'. answer_turns (length qs) (st6, m6, u) = Inr (st', m', w') \<and> req_done w' \<and>
    pb_list (bi (h_chan (sw_host w'))) = pb_list (bi (h_chan (sw_host u))) @ [response_packet (packet_size u) ?bs]"
    using answer_turns_run [of u n "[]" qs m6 ps st6 ?a ?bs] host(1) each rack run'(5) qs(1) by simp
  then show ?thesis unfolding qs(1) host(4) .
qed

section \<open>A run\<close>

text \<open>One payload of 8 bytes to a packet, and a memory of 128 bytes that serves in order.\<close>

definition whole_wrapper :: sim_wrapper where
  "whole_wrapper = small_wrapper\<lparr>dram_req_size := 8\<rparr>"

definition some_mem :: "pid list mem_wrapper" where
  "some_mem = mw_init 0 1 128 [] 0 (bridge_init False [])"

lemma whole_wrapper_fields [simp]:
  "dram_req_size whole_wrapper = 8" "packet_size whole_wrapper = 8" "w_queue whole_wrapper = []"
  "r_queue whole_wrapper = []" "rack_num whole_wrapper = 0" "packet_data whole_wrapper = replicate 8 0"
  by (simp_all add: whole_wrapper_def)

lemma whole_wrapper_waits: "waiting whole_wrapper"
  using small_wrapper_chan by (simp add: waiting_def whole_wrapper_def)

lemma some_mem_fields [simp]:
  "mem_size some_mem = 128" "mw_peq some_mem = []" "w_queue some_mem = []" "r_queue some_mem = []"
  by (simp_all add: some_mem_def mw_init_def)

definition serving :: "store \<Rightarrow> mw_event list" where
  "serving st = [Mw_posedge, Mw_dram st 0 1, Mw_dram st 0 1]"

lemma some_mem_serves:
  assumes "gp_command (heap st q) = TLM_READ_COMMAND"
    and m: "m = some_mem\<lparr>mem_data := d, w_queue := [p], r_queue := [q]\<rparr>"
  shows "\<exists>m'. run_events (mw_ev (fifo_send 4) fifo_tick) (serving st) m = Inr (m', []) \<and>
    run_spares (fifo_send 4) fifo_tick a n (serving st) m \<and> rack_queue m' = [q] \<and> wack_queue m' = []"
proof -
  let ?m1 = "m\<lparr>r_queue := [], w_queue := [], mem_request := [q, p]\<rparr>"
  have one: "mw_ev (fifo_send 4) fifo_tick Mw_posedge m = Inr (?m1, [])"
    by (simp add: m mw_clock_posedge_def some_mem_def mw_init_def)
  obtain m2 where i: "mw_issue_all st 0 [q, p] (?m1\<lparr>mem_request := []\<rparr>) = Inr m2"
    by (auto simp: mw_issue_def stamp_ns_def Let_def)
  have m2: "in_queue (mw_bridge m2) = [q, p]" "out_queue (mw_bridge m2) = []" "memory_system (mw_bridge m2) = []"
    "rack_queue m2 = []" "wack_queue m2 = []" "mem_request m2 = []"
    using i assms(1) by (auto simp: mw_issue_def stamp_ns_def Let_def m some_mem_def mw_init_def bridge_init_def
        sendCommand_def split: if_splits)
  have c: "mw_complete st 0 ?m1 = Inr ?m1"
    by (simp add: mw_complete_def getCompletedCommand_def m some_mem_def mw_init_def bridge_init_def)
  let ?b = "ClockTick (fifo_send 4) fifo_tick st (mw_bridge m2)"
  define m3 where "m3 = m2\<lparr>mw_bridge := ?b, mw_total_cycle := mw_total_cycle m2 + 1\<rparr>"
  have two: "mw_ev (fifo_send 4) fifo_tick (Mw_dram st 0 1) ?m1 = Inr (m3, [])"
    using c i by (simp add: simulate_dram_def Let_def m3_def del: mw_issue_all.simps)
  have m3: "mw_bridge m3 = ?b" "rack_queue m3 = []" "wack_queue m3 = []" "mem_request m3 = []"
    using m2 by (simp_all add: m3_def)
  have b: "out_queue ?b = [q]"
    using m2 by (simp add: ClockTick_def fifo_send_def fifo_tick_def bridge_request_def)
  have t: "update_trans_delay 0 m4 ad rd = Inr m5 \<Longrightarrow> rack_queue m5 = rack_queue m4 \<and> wack_queue m5 = wack_queue m4 \<and>
    mem_request m5 = mem_request m4" for m4 m5 :: "pid list mem_wrapper" and ad rd
    using update_trans_delay_fields [of 0 m4 ad rd m5] by (auto simp: same_front_def)
  have "\<exists>m4. mw_complete st 0 m3 = Inr m4"
    using assms(1) m3(1) b
    by (simp add: mw_complete_def getCompletedCommand_def update_trans_delay_def stamp_ns_def Let_def)
  then obtain m4 where c4: "mw_complete st 0 m3 = Inr m4" ..
  have m4: "rack_queue m4 = [q]" "wack_queue m4 = []" "mem_request m4 = []"
    using c4 assms(1) m3 b t by (auto simp: mw_complete_def getCompletedCommand_def Let_def)
  define m5 where "m5 = m4\<lparr>mw_bridge := ClockTick (fifo_send 4) fifo_tick st (mw_bridge m4), mw_total_cycle := mw_total_cycle m4 + 1\<rparr>"
  have "m4\<lparr>mem_request := []\<rparr> = m4" using m4(3) by (cases m4) simp
  then have three: "mw_ev (fifo_send 4) fifo_tick (Mw_dram st 0 1) m3 = Inr (m5, [])"
    using c4 m4(3) by (simp add: simulate_dram_def Let_def m5_def)
  have m5: "rack_queue m5 = [q]" "wack_queue m5 = []"
    using m4 by (simp_all add: m5_def)
  show ?thesis
    using one two three m5 by (auto simp: serving_def ev_spares_def simp del: mw_ev.simps)
qed


theorem read_returns_written_witness:
  "\<exists>st6 (m6 :: pid list mem_wrapper) st7 m7 u'. answer_turns 1 (st6, m6, whole_wrapper) = Inr (st7, m7, u') \<and> req_done u' \<and>
    pb_list (bi (h_chan (sw_host u'))) = pb_list (bi (h_chan (sw_host whole_wrapper))) @
      [response_packet 8 [1, 2, 3, 4, 5, 6, 7, 8]]"
proof -
  let ?pw = "small_packet packet_write" and ?pr = "small_packet packet_read" and ?s = "small_sim empty_store"
    and ?mems = "\<lambda>_::nat. (\<lambda>_::nat. 0::byte, 0::nat)"
  have wf: "store_wf (\<lambda>_. []) (s_store ?s)" by (simp add: sample_store_wf)
  have sizes: "unat (packet_size whole_wrapper) = unat (dram_req_size whole_wrapper) * 1"
    "dram_req_size whole_wrapper \<noteq> 0" "unat (packet_size whole_wrapper) \<le> length (p_data ?pw)"
    "unat (p_address ?pw) + unat (packet_size whole_wrapper) \<le> mem_size some_mem" "mem_size some_mem \<le> 2 ^ 32"
    "unat (p_address ?pr) + unat (packet_size whole_wrapper) \<le> 2 ^ 32"
    "unat (packet_size whole_wrapper) \<le> MAX_DATA_SIZE"
    by (simp_all add: MAX_DATA_SIZE_def)
  obtain s1 w1 st2 qs fs2 where a: "split_write ?pw (?s, whole_wrapper) = Inr (s1, w1)"
    "efold (mw_take ?mems) (w_queue w1) (s_store s1, some_mem) =
      Inr (st2, some_mem\<lparr>mem_data := overlay (mem_data some_mem) (unat (p_address ?pw))
         (take (unat (packet_size whole_wrapper)) (p_data ?pw)), w_queue := w_queue some_mem @ qs\<rparr>)"
    "store_wf fs2 st2" "length qs = 1"
    by (rule packet_lands [OF wf sizes(2,1,3) _ _ sizes(4,5), where mems = ?mems]) simp_all
  define d m2 where "d = overlay (mem_data some_mem) (unat (p_address ?pw)) (take (unat (packet_size whole_wrapper)) (p_data ?pw))"
    and "m2 = some_mem\<lparr>mem_data := d, w_queue := qs\<rparr>"
  have a2: "efold (mw_take ?mems) (w_queue w1) (s_store s1, some_mem) = Inr (st2, m2)"
    using a(2) by (simp add: d_def m2_def)
  let ?s3 = "small_sim st2"
  have wf3: "store_wf fs2 (s_store ?s3)" using a(3) by simp
  have idle: "mw_peq m2 = []" by (simp add: m2_def)
  obtain s4 w4 st5 rs where b: "split_read ?pr (?s3, whole_wrapper) = Inr (s4, w4)"
    "efold (mw_take ?mems) (r_queue w4) (s_store s4, m2) = Inr (st5, m2\<lparr>r_queue := r_queue m2 @ rs\<rparr>)"
    "length rs = 1" "\<forall>i < 1. reads st5 (rs ! i) (unat (p_address ?pr) + unat (dram_req_size whole_wrapper) * i)
      (unat (dram_req_size whole_wrapper))"
    by (rule packet_asked [OF wf3 sizes(2,1) _ idle sizes(6), where mems = ?mems]) simp_all
  obtain q p where qp: "rs = [q]" "qs = [p]" using b(3) a(4) by (metis One_nat_def length_0_conv length_Suc_conv)
  have "gp_command (heap st5 q) = TLM_READ_COMMAND" using b(4) qp(1) by (simp add: reads_def)
  from some_mem_serves [OF this refl, where d = d and p = p and a = "unat (p_address ?pw)" and n = "unat (packet_size whole_wrapper)"]
  obtain m6 where run: "run_events (mw_ev (fifo_send 4) fifo_tick) (serving st5) (m2\<lparr>r_queue := [q]\<rparr>) = Inr (m6, [])"
    "run_spares (fifo_send 4) fifo_tick (unat (p_address ?pw)) (unat (packet_size whole_wrapper)) (serving st5) (m2\<lparr>r_queue := [q]\<rparr>)"
    "rack_queue m6 = [q]" "wack_queue m6 = []"
    by (auto simp: m2_def qp(2))
  have r: "m2\<lparr>r_queue := r_queue m2 @ rs\<rparr> = m2\<lparr>r_queue := [q]\<rparr>" "rack_queue m6 = drop (length (r_queue m2)) (r_queue (m2\<lparr>r_queue := [q]\<rparr>)) @ []"
    using run(3) by (simp_all add: m2_def qp)
  have k: "keeps {} st5 st5" "only_writes st5 (wack_queue m6)"
    using run(4) by (simp_all add: keeps_def only_writes_def)
  have "\<exists>st7 m7 u'. answer_turns 1 (st5, m6, whole_wrapper) = Inr (st7, m7, u') \<and> req_done u' \<and>
    pb_list (bi (h_chan (sw_host u'))) = pb_list (bi (h_chan (sw_host whole_wrapper))) @
      [response_packet (packet_size whole_wrapper) (take (unat (packet_size whole_wrapper)) (p_data ?pw))]"
    by (rule read_returns_written [where es = "[]" and send = "fifo_send 4" and tick = fifo_tick and m = some_mem and
        w = whole_wrapper and v = whole_wrapper and pr = ?pr and ps = "[]",
        OF sizes(1,2) _ sizes(7,3,4,5) wf _ _ a(1) a2 _ idle _ _ _ _ wf3 _ b(1) b(2) [unfolded r(1)] run(1,2) r(2) k whole_wrapper_waits])
      simp_all
  then have "\<exists>st7 m7 u'. answer_turns 1 (st5, m6, whole_wrapper) = Inr (st7, m7, u') \<and> req_done u' \<and>
    pb_list (bi (h_chan (sw_host u'))) = pb_list (bi (h_chan (sw_host whole_wrapper))) @
      [response_packet 8 [1, 2, 3, 4, 5, 6, 7, 8]]" by simp
  then show ?thesis by - (rule exI [of _ st5], rule exI [of _ m6], assumption)
qed

end
