(* ===== verification/Circular_Buffer.thy ===== *)
theory Circular_Buffer
  imports Interfaces
begin

text \<open>
  The circular buffer of the TLM library (\<open>circular_buffer.h\<close>), over raw memory in which objects are made and
  destroyed, with a size that can change. It provides the interface of a bounded queue; the FIFO channel
  (theory \<open>Tlm_Fifo\<close>) is built on it.
\<close>

section \<open>The circular buffer\<close>

text \<open>
  The memory of the buffer: a slot holds an object or raw memory (\<open>None\<close>). To read or destroy an object that
  is not there, or to leave the memory, is an error of the model.
\<close>

record 't circular_buffer =
  cb_size :: int
  cb_buf :: "'t option list"
  cb_free :: int
  cb_used :: int
  cb_ri :: int
  cb_wi :: int

definition cb_is_empty :: "'t circular_buffer \<Rightarrow> bool" where "cb_is_empty q \<longleftrightarrow> cb_used q = 0"
definition cb_is_full :: "'t circular_buffer \<Rightarrow> bool" where "cb_is_full q \<longleftrightarrow> cb_free q = 0"

definition buf_alloc :: "int \<Rightarrow> sim_error + 't option list" where
  "buf_alloc n = (if 0 \<le> n then Inr (replicate (nat n) None) else Inl Exception_thrown)"

definition buf_write :: "'t option list \<Rightarrow> int \<Rightarrow> 't \<Rightarrow> sim_error + 't option list" where
  "buf_write b n t = (if 0 \<le> n \<and> n < int (length b) then Inr (b[nat n := Some t]) else Inl Out_of_bounds)"

definition buf_read :: "'t option list \<Rightarrow> int \<Rightarrow> sim_error + 't" where
  "buf_read b n =
     (if 0 \<le> n \<and> n < int (length b)
      then (case b ! nat n of Some t \<Rightarrow> Inr t | None \<Rightarrow> Inl Out_of_bounds) else Inl Out_of_bounds)"

definition buf_clear :: "'t option list \<Rightarrow> int \<Rightarrow> sim_error + 't option list" where
  "buf_clear b n = ebind (buf_read b n) (\<lambda>t. Inr (b[nat n := None]))"

definition cb_new :: "int \<Rightarrow> sim_error + 't circular_buffer" where
  "cb_new n =
     ebind (if 0 < n then buf_alloc n else Inr []) (\<lambda>b.
       Inr \<lparr>cb_size = n, cb_buf = b, cb_free = n, cb_used = 0, cb_ri = 0, cb_wi = 0\<rparr>)"

definition cb_clear :: "'t circular_buffer \<Rightarrow> sim_error + 't circular_buffer" where
  "cb_clear q =
     ebind (efold (\<lambda>i b. ebind (rem_by (cb_ri q + int i) (cb_size q)) (buf_clear b)) [0..<nat (cb_used q)] (cb_buf q))
       (\<lambda>b. Inr (q\<lparr>cb_buf := b, cb_free := cb_size q, cb_used := 0, cb_ri := 0, cb_wi := 0\<rparr>))"

text \<open>The destructor.\<close>

definition cb_delete :: "'t circular_buffer \<Rightarrow> sim_error + 't circular_buffer" where
  "cb_delete q = ebind (cb_clear q) (\<lambda>q1. Inr (q1\<lparr>cb_buf := []\<rparr>))"

definition cb_read_data :: "'t circular_buffer \<Rightarrow> sim_error + 't" where
  "cb_read_data q = buf_read (cb_buf q) (cb_ri q)"

definition cb_peek_data :: "'t circular_buffer \<Rightarrow> int \<Rightarrow> sim_error + 't" where
  "cb_peek_data q i = ebind (rem_by (cb_ri q + i) (cb_size q)) (buf_read (cb_buf q))"

text \<open>\<open>poke_data (i) = t\<close>: the object that the reference refers to is assigned.\<close>

definition cb_poke_data :: "'t circular_buffer \<Rightarrow> int \<Rightarrow> 't \<Rightarrow> sim_error + 't circular_buffer" where
  "cb_poke_data q i t =
     ebind (rem_by (cb_wi q + i) (cb_size q)) (\<lambda>k.
     ebind (buf_read (cb_buf q) k) (\<lambda>old.
     ebind (buf_write (cb_buf q) k t) (\<lambda>b. Inr (q\<lparr>cb_buf := b\<rparr>))))"

definition increment_write_pos :: "int \<Rightarrow> 't circular_buffer \<Rightarrow> sim_error + 't circular_buffer" where
  "increment_write_pos i q =
     ebind (rem_by (cb_wi q + i) (cb_size q)) (\<lambda>k.
       Inr (q\<lparr>cb_wi := k, cb_used := cb_used q + i, cb_free := cb_free q - i\<rparr>))"

definition increment_read_pos :: "int \<Rightarrow> 't circular_buffer \<Rightarrow> sim_error + 't circular_buffer" where
  "increment_read_pos i q =
     ebind (rem_by (cb_ri q + i) (cb_size q)) (\<lambda>k.
       Inr (q\<lparr>cb_ri := k, cb_used := cb_used q - i, cb_free := cb_free q + i\<rparr>))"

definition cb_read :: "'t circular_buffer \<Rightarrow> sim_error + ('t circular_buffer \<times> 't)" where
  "cb_read q =
     ebind (cb_read_data q) (\<lambda>t.
     ebind (buf_clear (cb_buf q) (cb_ri q)) (\<lambda>b.
     ebind (increment_read_pos 1 (q\<lparr>cb_buf := b\<rparr>)) (\<lambda>q1. Inr (q1, t))))"

definition cb_write :: "'t \<Rightarrow> 't circular_buffer \<Rightarrow> sim_error + 't circular_buffer" where
  "cb_write t q =
     ebind (buf_write (cb_buf q) (cb_wi q) t) (\<lambda>b. increment_write_pos 1 (q\<lparr>cb_buf := b\<rparr>))"

text \<open>One turn of the loop of \<open>resize\<close> over the new and the old memory.\<close>

definition resize_turn ::
  "'t circular_buffer \<Rightarrow> nat \<Rightarrow> 't option list \<times> 't option list \<Rightarrow> sim_error + ('t option list \<times> 't option list)" where
  "resize_turn q i bs =
     (case bs of (new, old) \<Rightarrow>
        ebind (cb_peek_data (q\<lparr>cb_buf := old\<rparr>) (int i)) (\<lambda>t.
        ebind (buf_write new (int i) t) (\<lambda>new1.
        ebind (rem_by (cb_ri q + int i) (cb_size q)) (\<lambda>k.
        ebind (buf_clear old k) (\<lambda>old1. Inr (new1, old1))))))"

definition cb_resize :: "int \<Rightarrow> 't circular_buffer \<Rightarrow> sim_error + 't circular_buffer" where
  "cb_resize n q =
     ebind (buf_alloc n) (\<lambda>b.
     ebind (efold (resize_turn q) [0..<nat (min n (cb_used q))] (b, cb_buf q)) (\<lambda>(new, old).
       let i = int (nat (min n (cb_used q))) in
       ebind (rem_by i n) (\<lambda>w.
         Inr \<lparr>cb_size = n, cb_buf = new, cb_free = n - i, cb_used = i, cb_ri = 0, cb_wi = w\<rparr>)))"

section \<open>The buffer is a queue\<close>

definition cb_inv :: "'t circular_buffer \<Rightarrow> bool" where
  "cb_inv q \<longleftrightarrow> 0 < cb_size q \<and> int (length (cb_buf q)) = cb_size q \<and> 0 \<le> cb_used q \<and> cb_used q \<le> cb_size q \<and>
     cb_free q = cb_size q - cb_used q \<and> 0 \<le> cb_ri q \<and> cb_ri q < cb_size q \<and>
     cb_wi q = (cb_ri q + cb_used q) mod cb_size q \<and>
     (\<forall>i. 0 \<le> i \<and> i < cb_size q \<longrightarrow> (cb_buf q ! nat ((cb_ri q + i) mod cb_size q) \<noteq> None \<longleftrightarrow> i < cb_used q))"

definition cb_slot :: "'t circular_buffer \<Rightarrow> int \<Rightarrow> 't option" where
  "cb_slot q i = cb_buf q ! nat ((cb_ri q + i) mod cb_size q)"

definition cb_list :: "'t circular_buffer \<Rightarrow> 't list" where
  "cb_list q = map (\<lambda>i. the (cb_slot q (int i))) [0..<nat (cb_used q)]"

lemma cb_invD:
  assumes "cb_inv q"
  shows "0 < cb_size q" "int (length (cb_buf q)) = cb_size q" "0 \<le> cb_used q" "cb_used q \<le> cb_size q"
    "cb_free q = cb_size q - cb_used q" "0 \<le> cb_ri q" "cb_ri q < cb_size q"
    "cb_wi q = (cb_ri q + cb_used q) mod cb_size q"
    and "0 \<le> i \<Longrightarrow> i < cb_size q \<Longrightarrow> cb_slot q i \<noteq> None \<longleftrightarrow> i < cb_used q"
  using assms by (simp_all add: cb_inv_def cb_slot_def)

lemma length_cb_list: "cb_inv q \<Longrightarrow> int (length (cb_list q)) = cb_used q"
  by (simp add: cb_list_def cb_inv_def)

lemma rem_by_nonneg: "0 \<le> a \<Longrightarrow> 0 < n \<Longrightarrow> rem_by a n = Inr (a mod n)"
  by (simp add: rem_by_def c_rem_nonneg)

lemma ring_index_inj:
  fixes n r i j :: int
  assumes "(r + i) mod n = (r + j) mod n" "0 \<le> i" "i < n" "0 \<le> j" "j < n"
  shows "i = j"
proof -
  have "i mod n = j mod n" using assms(1) by (metis add_diff_cancel_left' mod_diff_left_eq)
  with assms show ?thesis by simp
qed

lemma ring_slot:
  assumes "cb_inv q" "0 \<le> i"
  shows "0 \<le> (cb_ri q + i) mod cb_size q" "(cb_ri q + i) mod cb_size q < int (length (cb_buf q))"
  using cb_invD [OF assms(1)] by simp_all

lemma slot_read:
  assumes "cb_inv q" "0 \<le> i" "i < cb_used q"
  obtains t where "cb_slot q i = Some t" and "buf_read (cb_buf q) ((cb_ri q + i) mod cb_size q) = Inr t"
    and "t = cb_list q ! nat i"
proof -
  have "cb_slot q i \<noteq> None" using cb_invD(9) [OF assms(1,2)] cb_invD(4) [OF assms(1)] assms(3) by simp
  then obtain t where t: "cb_slot q i = Some t" by blast
  have "buf_read (cb_buf q) ((cb_ri q + i) mod cb_size q) = Inr t"
    using t ring_slot [OF assms(1,2)] by (simp add: buf_read_def cb_slot_def)
  moreover have "t = cb_list q ! nat i" using t assms(2,3) by (simp add: cb_list_def)
  ultimately show thesis using t that by blast
qed

text \<open>Two states with the same size: the invariant and the list of one from its slots.\<close>

lemma cb_inv_slots:
  assumes "0 < cb_size q" "int (length (cb_buf q)) = cb_size q" "0 \<le> cb_used q" "cb_used q \<le> cb_size q"
    "cb_free q = cb_size q - cb_used q" "0 \<le> cb_ri q" "cb_ri q < cb_size q"
    "cb_wi q = (cb_ri q + cb_used q) mod cb_size q"
    and "\<And>i. 0 \<le> i \<Longrightarrow> i < cb_size q \<Longrightarrow> cb_slot q i \<noteq> None \<longleftrightarrow> i < cb_used q"
  shows "cb_inv q"
  using assms by (simp add: cb_inv_def cb_slot_def)

lemma cb_write_ok:
  assumes inv: "cb_inv q" and room: "cb_used q < cb_size q"
  obtains q' where "cb_write t q = Inr q'" and "cb_inv q'" and "cb_list q' = cb_list q @ [t]"
    and "cb_size q' = cb_size q" and "cb_used q' = cb_used q + 1"
proof -
  note I = cb_invD [OF inv]
  let ?s = "cb_size q"
  define q' where "q' = q\<lparr>cb_buf := (cb_buf q)[nat (cb_wi q) := Some t], cb_wi := (cb_wi q + 1) mod ?s,
    cb_used := cb_used q + 1, cb_free := cb_free q - 1\<rparr>"
  have wi: "0 \<le> cb_wi q" "cb_wi q < ?s" using I by simp_all
  have "cb_write t q = Inr q'"
    using wi I(1,2) by (simp add: cb_write_def buf_write_def increment_write_pos_def rem_by_nonneg q'_def)
  moreover have slot: "cb_slot q' i = (if i = cb_used q then Some t else cb_slot q i)" if "0 \<le> i" "i < ?s" for i
  proof -
    have "nat ((cb_ri q + i) mod ?s) = nat (cb_wi q) \<longleftrightarrow> (cb_ri q + i) mod ?s = (cb_ri q + cb_used q) mod ?s"
      using I by (auto simp: nat_eq_iff2)
    also have "\<dots> \<longleftrightarrow> i = cb_used q"
      using ring_index_inj [of "cb_ri q" i ?s "cb_used q"] that room I(3) by blast
    moreover have "nat (cb_wi q) < length (cb_buf q)" using wi I(2) by linarith
    ultimately show ?thesis by (auto simp: cb_slot_def q'_def nth_list_update)
  qed
  moreover have "cb_inv q'"
  proof (rule cb_inv_slots)
    fix i assume "0 \<le> i" "i < cb_size q'"
    then have i: "0 \<le> i" "i < ?s" by (simp_all add: q'_def)
    show "cb_slot q' i \<noteq> None \<longleftrightarrow> i < cb_used q'"
      using slot [OF i] I(9) [OF i] by (auto simp: q'_def)
  qed (use I room in \<open>simp_all add: q'_def mod_add_left_eq add.assoc\<close>)
  moreover have "cb_list q' = cb_list q @ [t]"
  proof -
    have n: "nat (cb_used q') = Suc (nat (cb_used q))" using I(3) by (simp add: q'_def)
    have "the (cb_slot q' (int i)) = the (cb_slot q (int i))" if "i < nat (cb_used q)" for i
      using slot [of "int i"] that I by auto
    moreover have "cb_slot q' (int (nat (cb_used q))) = Some t"
      using slot [of "cb_used q"] I room by simp
    ultimately show ?thesis by (simp add: cb_list_def n)
  qed
  ultimately show thesis using that [of q'] by (simp add: q'_def)
qed

lemma cb_read_ok:
  assumes inv: "cb_inv q" and some: "0 < cb_used q"
  obtains q' t where "cb_read q = Inr (q', t)" and "cb_inv q'" and "cb_list q = t # cb_list q'"
    and "cb_size q' = cb_size q" and "cb_used q' = cb_used q - 1"
proof -
  note I = cb_invD [OF inv]
  let ?s = "cb_size q"
  have ri: "(cb_ri q + 0) mod ?s = cb_ri q" using I by simp
  obtain t where t: "cb_slot q 0 = Some t" "buf_read (cb_buf q) (cb_ri q) = Inr t"
    using slot_read [OF inv _ some] ri by auto
  define q' where "q' = q\<lparr>cb_buf := (cb_buf q)[nat (cb_ri q) := None], cb_ri := (cb_ri q + 1) mod ?s,
    cb_used := cb_used q - 1, cb_free := cb_free q + 1\<rparr>"
  have "cb_read q = Inr (q', t)"
    using t(2) I(1,6) by (simp add: cb_read_def cb_read_data_def buf_clear_def increment_read_pos_def rem_by_nonneg q'_def)
  moreover have slot: "cb_slot q' i = (if i + 1 = ?s then None else cb_slot q (i + 1))" if "0 \<le> i" "i < ?s" for i
  proof -
    have eq: "((cb_ri q + 1) mod ?s + i) mod ?s = (cb_ri q + (i + 1)) mod ?s"
      by (metis add.assoc add.commute mod_add_left_eq)
    have lt: "nat (cb_ri q) < length (cb_buf q)" using I(2,6,7) by linarith
    show ?thesis
    proof (cases "i + 1 = ?s")
      case True
      then show ?thesis using lt I(6,7) by (simp add: cb_slot_def q'_def eq)
    next
      case False
      then have "(cb_ri q + (i + 1)) mod ?s \<noteq> (cb_ri q + 0) mod ?s"
        using ring_index_inj [of "cb_ri q" "i + 1" ?s 0] that I(1) by auto
      then have "nat ((cb_ri q + (i + 1)) mod ?s) \<noteq> nat (cb_ri q)"
        using ri I by (simp add: nat_eq_iff2)
      with False show ?thesis by (simp add: cb_slot_def q'_def eq)
    qed
  qed
  moreover have "cb_inv q'"
  proof (rule cb_inv_slots)
    fix i assume "0 \<le> i" "i < cb_size q'"
    then have i: "0 \<le> i" "i < ?s" by (simp_all add: q'_def)
    show "cb_slot q' i \<noteq> None \<longleftrightarrow> i < cb_used q'"
      using slot [OF i] I(9) [of "i + 1"] i I(4) by (auto simp: q'_def)
  qed (use I some in \<open>simp_all add: q'_def mod_add_left_eq\<close>)
  moreover have "cb_list q = t # cb_list q'"
  proof -
    have n: "nat (cb_used q) = Suc (nat (cb_used q'))" using some by (simp add: q'_def)
    have "the (cb_slot q (int (Suc i))) = the (cb_slot q' (int i))" if "i < nat (cb_used q')" for i
      using slot [of "int i"] that I some by (auto simp: q'_def add.commute)
    then have "map (\<lambda>i. the (cb_slot q (int (Suc i)))) [0..<nat (cb_used q')] = cb_list q'"
      by (simp add: cb_list_def)
    moreover have "cb_list q = the (cb_slot q (int 0)) # map (\<lambda>i. the (cb_slot q (int (Suc i)))) [0..<nat (cb_used q')]"
      unfolding cb_list_def n by (simp only: upt_conv_Cons [OF zero_less_Suc] list.map map_Suc_upt [symmetric] map_map comp_def)
    ultimately show ?thesis using t(1) by simp
  qed
  ultimately show thesis using that [of q' t] by (simp add: q'_def)
qed

lemma cb_peek_ok:
  assumes "cb_inv q" "0 \<le> i" "i < cb_used q"
  shows "cb_peek_data q i = Inr (cb_list q ! nat i)"
proof -
  note I = cb_invD [OF assms(1)]
  have "rem_by (cb_ri q + i) (cb_size q) = Inr ((cb_ri q + i) mod cb_size q)"
    using I assms(2) by (intro rem_by_nonneg) simp_all
  then show ?thesis using slot_read [OF assms] by (auto simp: cb_peek_data_def)
qed

lemma cb_read_data_ok:
  assumes "cb_inv q" "0 < cb_used q"
  shows "cb_read_data q = Inr (hd (cb_list q))"
proof (rule slot_read [OF assms(1) order.refl assms(2)])
  fix t assume t: "buf_read (cb_buf q) ((cb_ri q + 0) mod cb_size q) = Inr t" "t = cb_list q ! nat 0"
  have "cb_list q \<noteq> []" using length_cb_list [OF assms(1)] assms(2) by auto
  with t cb_invD [OF assms(1)] show ?thesis by (simp add: cb_read_data_def hd_conv_nth)
qed

text \<open>A buffer that is as large or larger takes over the objects in order.\<close>

lemma resize_loop:
  assumes inv: "cb_inv q" and k: "int k \<le> cb_used q" and n: "cb_used q \<le> n"
  shows "\<exists>old. efold (resize_turn q) [0..<k] (replicate (nat n) None, cb_buf q) =
      Inr (map Some (take k (cb_list q)) @ replicate (nat n - k) None, old) \<and> length old = length (cb_buf q) \<and>
    (\<forall>j. int k \<le> j \<and> j < cb_used q \<longrightarrow> old ! nat ((cb_ri q + j) mod cb_size q) = cb_slot q j)"
  using k
proof (induction k)
  case 0
  then show ?case by (simp add: cb_slot_def)
next
  case (Suc k)
  note I = cb_invD [OF inv]
  let ?s = "cb_size q" and ?new = "map Some (take k (cb_list q)) @ replicate (nat n - k) None"
  obtain old where old: "efold (resize_turn q) [0..<k] (replicate (nat n) None, cb_buf q) = Inr (?new, old)"
    "length old = length (cb_buf q)"
    "\<And>j. int k \<le> j \<Longrightarrow> j < cb_used q \<Longrightarrow> old ! nat ((cb_ri q + j) mod ?s) = cb_slot q j"
    using Suc by auto
  let ?k = "(cb_ri q + int k) mod ?s"
  obtain t where t: "cb_slot q (int k) = Some t" "t = cb_list q ! k"
    using slot_read [OF inv, of "int k"] Suc.prems by auto
  have idx: "0 \<le> ?k" "?k < int (length old)" using ring_slot [OF inv, of "int k"] old(2) by simp_all
  have rem: "rem_by (cb_ri q + int k) ?s = Inr ?k" using I by (intro rem_by_nonneg) simp_all
  have read: "buf_read old ?k = Inr t"
    using old(3) [of "int k"] Suc.prems t idx by (simp add: buf_read_def)
  have kl: "k < length (cb_list q)" using length_cb_list [OF inv] Suc.prems by simp
  have len: "length ?new = nat n" "k < nat n" using kl Suc.prems n by simp_all
  have kn: "int k < n" "0 \<le> n" using len(2) by linarith+
  have "?new[k := Some t] = map Some (take (Suc k) (cb_list q)) @ replicate (nat n - Suc k) None"
  proof -
    have "nat n - k = Suc (nat n - Suc k)" using len(2) by simp
    then show ?thesis using t(2) kl by (simp add: list_update_append take_Suc_conv_app_nth)
  qed
  then have "buf_write ?new (int k) t = Inr (map Some (take (Suc k) (cb_list q)) @ replicate (nat n - Suc k) None)"
    unfolding buf_write_def len(1) using kn by simp
  then have "resize_turn q k (?new, old) =
      Inr (map Some (take (Suc k) (cb_list q)) @ replicate (nat n - Suc k) None, old[nat ?k := None])"
    using rem read by (simp add: resize_turn_def cb_peek_data_def buf_clear_def)
  then have "efold (resize_turn q) [0..<Suc k] (replicate (nat n) None, cb_buf q) =
      Inr (map Some (take (Suc k) (cb_list q)) @ replicate (nat n - Suc k) None, old[nat ?k := None])"
    using old(1) by (simp add: efold_append)
  moreover have "old[nat ?k := None] ! nat ((cb_ri q + j) mod ?s) = cb_slot q j"
    if j: "int (Suc k) \<le> j" "j < cb_used q" for j
  proof -
    have "(cb_ri q + j) mod ?s \<noteq> ?k"
      using ring_index_inj [of "cb_ri q" j ?s "int k"] j Suc.prems I(4) by auto
    then have "nat ((cb_ri q + j) mod ?s) \<noteq> nat ?k" using I(1) by (simp add: nat_eq_iff2)
    then show ?thesis using old(3) [of j] j by simp
  qed
  ultimately show ?case using old(2) by (intro exI [of _ "old[nat ?k := None]"]) auto
qed

lemma cb_resize_ok:
  assumes inv: "cb_inv q" and n: "cb_used q \<le> n" "0 < n"
  obtains q' where "cb_resize n q = Inr q'" and "cb_inv q'" and "cb_list q' = cb_list q"
    and "cb_size q' = n" and "cb_used q' = cb_used q"
proof -
  note I = cb_invD [OF inv]
  let ?u = "nat (cb_used q)"
  have u: "int ?u = cb_used q" "?u = length (cb_list q)" using I(3) by (simp_all add: cb_list_def)
  obtain old where loop: "efold (resize_turn q) [0..<?u] (replicate (nat n) None, cb_buf q) =
      Inr (map Some (cb_list q) @ replicate (nat n - ?u) None, old)"
    using resize_loop [OF inv, of ?u n] n u by auto
  define q' where "q' = \<lparr>cb_size = n, cb_buf = map Some (cb_list q) @ replicate (nat n - ?u) None, cb_free = n - cb_used q,
    cb_used = cb_used q, cb_ri = 0, cb_wi = cb_used q mod n\<rparr>"
  have "cb_resize n q = Inr q'"
    using loop n I(3) by (simp add: cb_resize_def buf_alloc_def min_absorb2 rem_by_nonneg q'_def Let_def)
  moreover have slot: "cb_slot q' i = (if i < cb_used q then Some (cb_list q ! nat i) else None)" if "0 \<le> i" "i < n" for i
    using that u by (auto simp: cb_slot_def q'_def nth_append nat_less_iff)
  moreover have "cb_inv q'"
  proof (rule cb_inv_slots)
    show "int (length (cb_buf q')) = cb_size q'" using u n by (simp add: q'_def)
    fix i assume "0 \<le> i" "i < cb_size q'"
    then show "cb_slot q' i \<noteq> None \<longleftrightarrow> i < cb_used q'" using slot [of i] by (simp add: q'_def)
  qed (use I n in \<open>simp_all add: q'_def\<close>)
  moreover have "cb_list q' = cb_list q"
  proof (rule nth_equalityI)
    show "length (cb_list q') = length (cb_list q)" by (simp add: cb_list_def q'_def)
    fix i assume "i < length (cb_list q')"
    then have "i < ?u" by (simp add: cb_list_def q'_def)
    then have "cb_list q' ! i = the (cb_slot q' (int i))" "int i < cb_used q"
      by (auto simp: cb_list_def q'_def)
    then show "cb_list q' ! i = cb_list q ! i" using slot [of "int i"] n(1) by simp
  qed
  ultimately show thesis using that [of q'] by (simp add: q'_def)
qed

lemma cb_resize_new:
  assumes "0 < n"
  obtains q' where "ebind (cb_new 0) (cb_resize n) = Inr q'" and "cb_inv q'" and "cb_list q' = []"
    and "cb_size q' = n"
proof -
  let ?q = "\<lparr>cb_size = n, cb_buf = replicate (nat n) None, cb_free = n, cb_used = 0, cb_ri = 0, cb_wi = 0\<rparr>"
  have "ebind (cb_new 0) (cb_resize n) = Inr ?q"
    using assms by (simp add: cb_new_def cb_resize_def buf_alloc_def rem_by_nonneg)
  moreover have "cb_inv ?q" using assms by (auto simp: cb_inv_def)
  moreover have "cb_list ?q = []" by (simp add: cb_list_def)
  ultimately show thesis using that [of ?q] by simp
qed

text \<open>For a fixed size the buffer provides the interface of a bounded queue.\<close>

definition cb_of_size :: "nat \<Rightarrow> 't circular_buffer \<Rightarrow> bool" where
  "cb_of_size n q \<longleftrightarrow> cb_inv q \<and> cb_size q = int n"

definition cb_put :: "'t circular_buffer \<Rightarrow> 't \<Rightarrow> 't circular_buffer" where
  "cb_put q t = (case cb_write t q of Inr q1 \<Rightarrow> q1 | Inl e \<Rightarrow> q)"

definition cb_get :: "'t circular_buffer \<Rightarrow> 't circular_buffer \<times> 't" where
  "cb_get q = (case cb_read q of Inr r \<Rightarrow> r | Inl e \<Rightarrow> (q, hd (cb_list q)))"

lemma cb_used_iff:
  assumes "cb_inv q"
  shows "cb_is_full q \<longleftrightarrow> cb_used q = cb_size q" "cb_is_empty q \<longleftrightarrow> cb_list q = []"
  using cb_invD(3,5) [OF assms] length_cb_list [OF assms] by (auto simp: cb_is_full_def cb_is_empty_def)

lemma cb_put_ok:
  assumes "cb_inv q" "\<not> cb_is_full q"
  shows "cb_inv (cb_put q t) \<and> cb_size (cb_put q t) = cb_size q \<and> cb_list (cb_put q t) = cb_list q @ [t]"
proof -
  have "cb_used q < cb_size q" using assms(2) cb_used_iff(1) [OF assms(1)] cb_invD(4) [OF assms(1)] by simp
  then obtain q' where "cb_write t q = Inr q'" "cb_inv q'" "cb_list q' = cb_list q @ [t]" "cb_size q' = cb_size q"
    by (rule cb_write_ok [OF assms(1)])
  then show ?thesis by (simp add: cb_put_def)
qed

lemma cb_get_ok:
  assumes "cb_inv q" "\<not> cb_is_empty q"
  shows "cb_inv (fst (cb_get q)) \<and> cb_size (fst (cb_get q)) = cb_size q \<and> cb_list q = snd (cb_get q) # cb_list (fst (cb_get q))"
proof -
  have "0 < cb_used q" using assms(2) cb_invD(3) [OF assms(1)] by (simp add: cb_is_empty_def)
  then obtain q' t where "cb_read q = Inr (q', t)" "cb_inv q'" "cb_list q = t # cb_list q'" "cb_size q' = cb_size q"
    by (rule cb_read_ok [OF assms(1)])
  then show ?thesis by (simp add: cb_get_def)
qed

interpretation circ: bounded_queue "cb_of_size n" cb_list n cb_is_full cb_is_empty cb_put cb_get for n
proof unfold_locales
  fix q :: "'a circular_buffer" and t
  assume "cb_of_size n q"
  then have inv: "cb_inv q" and size: "cb_size q = int n" by (simp_all add: cb_of_size_def)
  show "cb_is_full q \<longleftrightarrow> length (cb_list q) = n"
    using cb_used_iff(1) [OF inv] length_cb_list [OF inv] size by auto
  show "cb_is_empty q \<longleftrightarrow> cb_list q = []" by (rule cb_used_iff(2) [OF inv])
  show "length (cb_list q) \<le> n" using length_cb_list [OF inv] cb_invD(4) [OF inv] size by simp
  show "cb_of_size n (cb_put q t)" if "\<not> cb_is_full q"
    using cb_put_ok [OF inv that] size by (simp add: cb_of_size_def)
  show "cb_list (cb_put q t) = cb_list q @ [t]" if "\<not> cb_is_full q"
    using cb_put_ok [OF inv that] by simp
  show "cb_of_size n (fst (cb_get q))" if "\<not> cb_is_empty q"
    using cb_get_ok [OF inv that] size by (simp add: cb_of_size_def)
  show "cb_list q = snd (cb_get q) # cb_list (fst (cb_get q))" if "\<not> cb_is_empty q"
    using cb_get_ok [OF inv that] by blast
qed

end
