(* ===== verification/Tlm_Fifo.thy ===== *)
theory Tlm_Fifo
  imports Circular_Buffer
begin

text \<open>
  The FIFO channel of the TLM library (\<open>tlm_fifo.h\<close> with its parts \<open>_put_get\<close>, \<open>_peek\<close> and \<open>_resize\<close>)
  over the circular buffer. What is put becomes visible to the reader, and what is read becomes room
  for the writer, in the next delta cycle: the kernel calls \<open>update\<close> between delta cycles. A blocking
  call that has to wait is the result \<open>None\<close>.
\<close>

section \<open>State and operations\<close>

text \<open>
  The logical size is an \<open>int\<close> that the code adds unsigned numbers to, so it is kept as its 32 bits; a
  negative size means no bound. \<open>update_requested\<close> is what \<open>request_update\<close> leaves with the kernel.
\<close>

record 't tlm_fifo =
  ff_buffer :: "'t circular_buffer"
  ff_size :: u32
  num_readable :: int
  num_read :: int
  num_written :: int
  ff_expand :: bool
  num_read_no_notify :: int
  update_requested :: bool

definition fifo_init :: "u32 \<Rightarrow> 't circular_buffer \<Rightarrow> sim_error + 't tlm_fifo" where
  "fifo_init n b =
     ebind (if 0 < sint n then cb_resize (sint n) b
            else if sint n < 0
            then (if sint n = - (2 ^ 31) then Inl Int_overflow else cb_resize (- sint n) b)
            else cb_resize 16 b) (\<lambda>b1.
       Inr \<lparr>ff_buffer = b1, ff_size = n, num_readable = 0, num_read = 0, num_written = 0, ff_expand = False,
         num_read_no_notify = 0, update_requested = False\<rparr>)"

text \<open>The constructor: the buffer is made with size 0.\<close>

definition fifo_new :: "u32 \<Rightarrow> sim_error + 't tlm_fifo" where
  "fifo_new n = ebind (cb_new 0) (fifo_init n)"

definition fifo_used :: "'t tlm_fifo \<Rightarrow> int" where "fifo_used f = num_readable f - num_read f"
definition fifo_is_empty :: "'t tlm_fifo \<Rightarrow> bool" where "fifo_is_empty f \<longleftrightarrow> fifo_used f = 0"

definition fifo_is_full :: "'t tlm_fifo \<Rightarrow> bool" where
  "fifo_is_full f \<longleftrightarrow> \<not> sint (ff_size f) < 0 \<and> sint (ff_size f) \<le> num_readable f + num_written f"

text \<open>The two results: whether the events for read data and for written data are notified.\<close>

definition fifo_update :: "'t tlm_fifo \<Rightarrow> 't tlm_fifo \<times> bool \<times> bool" where
  "fifo_update f =
     (f\<lparr>ff_expand := False, num_read := 0, num_written := 0, num_readable := cb_used (ff_buffer f),
        num_read_no_notify := 0, update_requested := False\<rparr>,
      num_read f > num_read_no_notify f \<or> ff_expand f, num_written f > 0)"

definition fifo_get :: "'t tlm_fifo \<Rightarrow> sim_error + ('t tlm_fifo \<times> 't) option" where
  "fifo_get f =
     (if fifo_is_empty f then Inr None
      else ebind (cb_read (ff_buffer f)) (\<lambda>(b, t).
             Inr (Some (f\<lparr>ff_buffer := b, num_read := num_read f + 1, update_requested := True\<rparr>, t))))"

definition fifo_nb_get :: "'t tlm_fifo \<Rightarrow> sim_error + ('t tlm_fifo \<times> 't option)" where
  "fifo_nb_get f =
     (if fifo_is_empty f then Inr (f, None)
      else ebind (cb_read (ff_buffer f)) (\<lambda>(b, t).
             Inr (f\<lparr>ff_buffer := b, num_read := num_read f + 1, update_requested := True\<rparr>, Some t)))"

definition fifo_nb_can_get :: "'t tlm_fifo \<Rightarrow> bool" where "fifo_nb_can_get f \<longleftrightarrow> \<not> fifo_is_empty f"

text \<open>A physical buffer that is full is doubled; its size is an \<open>int\<close>.\<close>

definition make_room :: "'t circular_buffer \<Rightarrow> sim_error + 't circular_buffer" where
  "make_room b =
     (if cb_is_full b
      then (if cb_size b * 2 < 2 ^ 31 then cb_resize (cb_size b * 2) b else Inl Int_overflow) else Inr b)"

definition fifo_append :: "'t \<Rightarrow> 't tlm_fifo \<Rightarrow> sim_error + 't tlm_fifo" where
  "fifo_append t f =
     ebind (make_room (ff_buffer f)) (\<lambda>b.
     ebind (cb_write t b) (\<lambda>b1.
       Inr (f\<lparr>ff_buffer := b1, num_written := num_written f + 1, update_requested := True\<rparr>)))"

definition fifo_put :: "'t \<Rightarrow> 't tlm_fifo \<Rightarrow> sim_error + 't tlm_fifo option" where
  "fifo_put t f = (if fifo_is_full f then Inr None else ebind (fifo_append t f) (\<lambda>f1. Inr (Some f1)))"

definition fifo_nb_put :: "'t \<Rightarrow> 't tlm_fifo \<Rightarrow> sim_error + ('t tlm_fifo \<times> bool)" where
  "fifo_nb_put t f = (if fifo_is_full f then Inr (f, False) else ebind (fifo_append t f) (\<lambda>f1. Inr (f1, True)))"

definition fifo_nb_can_put :: "'t tlm_fifo \<Rightarrow> bool" where "fifo_nb_can_put f \<longleftrightarrow> \<not> fifo_is_full f"

definition fifo_peek :: "'t tlm_fifo \<Rightarrow> sim_error + 't option" where
  "fifo_peek f = (if fifo_is_empty f then Inr None else ebind (cb_read_data (ff_buffer f)) (\<lambda>t. Inr (Some t)))"

definition fifo_nb_peek :: "'t tlm_fifo \<Rightarrow> sim_error + 't option" where
  "fifo_nb_peek f = (if fifo_used f < 1 then Inr None else ebind (cb_peek_data (ff_buffer f) 0) (\<lambda>t. Inr (Some t)))"

definition fifo_nb_peek_at :: "int \<Rightarrow> 't tlm_fifo \<Rightarrow> sim_error + 't option" where
  "fifo_nb_peek_at n f =
     (if n \<ge> fifo_used f \<or> n < -1 then Inr None
      else ebind (cb_peek_data (ff_buffer f) (if n = -1 then fifo_used f - 1 else n)) (\<lambda>t. Inr (Some t)))"

definition fifo_nb_can_peek :: "'t tlm_fifo \<Rightarrow> bool" where "fifo_nb_can_peek f \<longleftrightarrow> \<not> fifo_is_empty f"

definition fifo_nb_poke :: "'t \<Rightarrow> int \<Rightarrow> 't tlm_fifo \<Rightarrow> sim_error + ('t tlm_fifo \<times> bool)" where
  "fifo_nb_poke t n f =
     (if n \<ge> fifo_used f \<or> n < 0 then Inr (f, False)
      else ebind (cb_poke_data (ff_buffer f) n t) (\<lambda>b. Inr (f\<lparr>ff_buffer := b\<rparr>, True)))"

definition fifo_nb_expand :: "u32 \<Rightarrow> 't tlm_fifo \<Rightarrow> 't tlm_fifo" where
  "fifo_nb_expand n f =
     (if 0 \<le> sint (ff_size f) then f\<lparr>ff_expand := True, ff_size := ff_size f + n, update_requested := True\<rparr> else f)"

definition fifo_nb_unbound :: "u32 \<Rightarrow> 't tlm_fifo \<Rightarrow> sim_error + 't tlm_fifo" where
  "fifo_nb_unbound n f =
     ebind (if cb_size (ff_buffer f) < sint n then cb_resize (sint n) (ff_buffer f) else Inr (ff_buffer f)) (\<lambda>b.
       Inr (f\<lparr>ff_expand := True, ff_size := - n, ff_buffer := b, update_requested := True\<rparr>))"

definition fifo_nb_bound :: "u32 \<Rightarrow> 't tlm_fifo \<Rightarrow> 't tlm_fifo \<times> bool" where
  "fifo_nb_bound n f =
     (if sint n < fifo_used f then (f\<lparr>ff_size := of_int (fifo_used f)\<rparr>, False) else (f\<lparr>ff_size := n\<rparr>, True))"

definition fifo_nb_reduce :: "u32 \<Rightarrow> 't tlm_fifo \<Rightarrow> 't tlm_fifo \<times> bool" where
  "fifo_nb_reduce n f = (if sint (ff_size f) < 0 then (f, False) else fifo_nb_bound (ff_size f - n) f)"

section \<open>What the channel is\<close>

text \<open>
  The reader sees \<open>sp_visible\<close>; \<open>sp_fresh\<close> was written in this delta cycle and is not visible yet;
  \<open>sp_taken\<close> objects were read in it and still take up room.
\<close>

record 't fifo_spec =
  sp_visible :: "'t list"
  sp_fresh :: "'t list"
  sp_taken :: nat
  sp_size :: u32
  sp_expanded :: bool

datatype 't fifo_op =
    Get | Put 't | Can_get | Can_put | Peek | Peek_at nat | Expand u32 | Unbound u32 | Reduce u32 | Bound u32 | Update

datatype 't fifo_res = Value "'t option" | Flag bool | Events bool bool | Nothing

definition spec_full :: "'t fifo_spec \<Rightarrow> bool" where
  "spec_full s \<longleftrightarrow> 0 \<le> sint (sp_size s) \<and>
     sint (sp_size s) \<le> int (length (sp_visible s) + sp_taken s + length (sp_fresh s))"

definition spec_bound :: "u32 \<Rightarrow> 't fifo_spec \<Rightarrow> 't fifo_spec \<times> 't fifo_res" where
  "spec_bound n s =
     (if sint n < int (length (sp_visible s)) then (s\<lparr>sp_size := of_nat (length (sp_visible s))\<rparr>, Flag False)
      else (s\<lparr>sp_size := n\<rparr>, Flag True))"

fun spec_step :: "'t fifo_op \<Rightarrow> 't fifo_spec \<Rightarrow> 't fifo_spec \<times> 't fifo_res" where
  "spec_step Get s =
     (case sp_visible s of [] \<Rightarrow> (s, Value None)
      | x # xs \<Rightarrow> (s\<lparr>sp_visible := xs, sp_taken := sp_taken s + 1\<rparr>, Value (Some x)))"
| "spec_step (Put x) s = (if spec_full s then (s, Flag False) else (s\<lparr>sp_fresh := sp_fresh s @ [x]\<rparr>, Flag True))"
| "spec_step Can_get s = (s, Flag (sp_visible s \<noteq> []))"
| "spec_step Can_put s = (s, Flag (\<not> spec_full s))"
| "spec_step Peek s = (s, Value (case sp_visible s of [] \<Rightarrow> None | x # xs \<Rightarrow> Some x))"
| "spec_step (Peek_at n) s =
     (s, Value (if n < length (sp_visible s) then Some (sp_visible s ! n) else None))"
| "spec_step (Expand n) s =
     (if 0 \<le> sint (sp_size s) then (s\<lparr>sp_size := sp_size s + n, sp_expanded := True\<rparr>, Nothing) else (s, Nothing))"
| "spec_step (Unbound n) s = (s\<lparr>sp_size := - n, sp_expanded := True\<rparr>, Nothing)"
| "spec_step (Reduce n) s = (if sint (sp_size s) < 0 then (s, Flag False) else spec_bound (sp_size s - n) s)"
| "spec_step (Bound n) s = spec_bound n s"
| "spec_step Update s =
     (s\<lparr>sp_visible := sp_visible s @ sp_fresh s, sp_fresh := [], sp_taken := 0, sp_expanded := False\<rparr>,
      Events (0 < sp_taken s \<or> sp_expanded s) (sp_fresh s \<noteq> []))"

fun fifo_step :: "'t fifo_op \<Rightarrow> 't tlm_fifo \<Rightarrow> sim_error + ('t tlm_fifo \<times> 't fifo_res)" where
  "fifo_step Get f = ebind (fifo_nb_get f) (\<lambda>(f1, r). Inr (f1, Value r))"
| "fifo_step (Put x) f = ebind (fifo_nb_put x f) (\<lambda>(f1, r). Inr (f1, Flag r))"
| "fifo_step Can_get f = Inr (f, Flag (fifo_nb_can_get f))"
| "fifo_step Can_put f = Inr (f, Flag (fifo_nb_can_put f))"
| "fifo_step Peek f = ebind (fifo_nb_peek f) (\<lambda>r. Inr (f, Value r))"
| "fifo_step (Peek_at n) f = ebind (fifo_nb_peek_at (int n) f) (\<lambda>r. Inr (f, Value r))"
| "fifo_step (Expand n) f = Inr (fifo_nb_expand n f, Nothing)"
| "fifo_step (Unbound n) f = ebind (fifo_nb_unbound n f) (\<lambda>f1. Inr (f1, Nothing))"
| "fifo_step (Reduce n) f = (case fifo_nb_reduce n f of (f1, r) \<Rightarrow> Inr (f1, Flag r))"
| "fifo_step (Bound n) f = (case fifo_nb_bound n f of (f1, r) \<Rightarrow> Inr (f1, Flag r))"
| "fifo_step Update f = (case fifo_update f of (f1, r, w) \<Rightarrow> Inr (f1, Events r w))"

fun spec_run :: "'t fifo_op list \<Rightarrow> 't fifo_spec \<Rightarrow> 't fifo_spec \<times> 't fifo_res list" where
  "spec_run [] s = (s, [])"
| "spec_run (p # ps) s = (case spec_step p s of (s1, r) \<Rightarrow> case spec_run ps s1 of (s2, rs) \<Rightarrow> (s2, r # rs))"

fun fifo_run :: "'t fifo_op list \<Rightarrow> 't tlm_fifo \<Rightarrow> sim_error + ('t tlm_fifo \<times> 't fifo_res list)" where
  "fifo_run [] f = Inr (f, [])"
| "fifo_run (p # ps) f =
     ebind (fifo_step p f) (\<lambda>(f1, r). ebind (fifo_run ps f1) (\<lambda>(f2, rs). Inr (f2, r # rs)))"

section \<open>Refinement\<close>

definition fifo_rep :: "'t tlm_fifo \<Rightarrow> 't fifo_spec \<Rightarrow> bool" where
  "fifo_rep f s \<longleftrightarrow> cb_inv (ff_buffer f) \<and> cb_list (ff_buffer f) = sp_visible s @ sp_fresh s \<and>
     num_readable f = int (length (sp_visible s) + sp_taken s) \<and> num_read f = int (sp_taken s) \<and>
     num_written f = int (length (sp_fresh s)) \<and> ff_size f = sp_size s \<and> ff_expand f = sp_expanded s \<and>
     num_read_no_notify f = 0"

lemma fifo_repD:
  assumes "fifo_rep f s"
  shows "cb_inv (ff_buffer f)" "cb_list (ff_buffer f) = sp_visible s @ sp_fresh s"
    "fifo_used f = int (length (sp_visible s))" "cb_used (ff_buffer f) = int (length (sp_visible s) + length (sp_fresh s))"
    "fifo_is_empty f \<longleftrightarrow> sp_visible s = []" "fifo_is_full f \<longleftrightarrow> spec_full s" "ff_size f = sp_size s"
proof -
  have r: "cb_inv (ff_buffer f)" "cb_list (ff_buffer f) = sp_visible s @ sp_fresh s"
    "num_readable f = int (length (sp_visible s) + sp_taken s)" "num_read f = int (sp_taken s)"
    "num_written f = int (length (sp_fresh s))" "ff_size f = sp_size s"
    using assms by (simp_all add: fifo_rep_def)
  show "cb_inv (ff_buffer f)" "cb_list (ff_buffer f) = sp_visible s @ sp_fresh s" "ff_size f = sp_size s"
    by (rule r)+
  show u: "fifo_used f = int (length (sp_visible s))" using r by (simp add: fifo_used_def)
  show "cb_used (ff_buffer f) = int (length (sp_visible s) + length (sp_fresh s))"
    using length_cb_list [OF r(1)] r(2) by simp
  show "fifo_is_empty f \<longleftrightarrow> sp_visible s = []" using u by (simp add: fifo_is_empty_def)
  show "fifo_is_full f \<longleftrightarrow> spec_full s" using r by (auto simp: fifo_is_full_def spec_full_def)
qed

lemma get_refines:
  assumes "fifo_rep f s"
  shows "\<exists>f'. fifo_step Get f = Inr (f', snd (spec_step Get s)) \<and> fifo_rep f' (fst (spec_step Get s))"
proof (cases "sp_visible s")
  case Nil
  then show ?thesis using assms fifo_repD(5) [OF assms] by (simp add: fifo_nb_get_def)
next
  case (Cons x xs)
  note R = fifo_repD [OF assms]
  have "0 < cb_used (ff_buffer f)" using R(4) Cons by simp
  from cb_read_ok [OF R(1) this] obtain b t where b: "cb_read (ff_buffer f) = Inr (b, t)" "cb_inv b"
    "cb_list (ff_buffer f) = t # cb_list b" by blast
  then have "t = x" "cb_list b = xs @ sp_fresh s" using R(2) Cons by simp_all
  with b R(5) Cons assms show ?thesis by (simp add: fifo_nb_get_def fifo_rep_def)
qed

lemma make_room_ok:
  assumes "cb_inv b" and "length (cb_list b) < 2 ^ 30"
  obtains b' where "make_room b = Inr b'" and "cb_inv b'" and "cb_list b' = cb_list b" and "cb_used b' < cb_size b'"
proof (cases "cb_is_full b")
  case True
  note I = cb_invD [OF assms(1)]
  have full: "cb_used b = cb_size b" using True cb_used_iff(1) [OF assms(1)] by simp
  then have "cb_size b < 2 ^ 30" using length_cb_list [OF assms(1)] assms(2) by simp
  then have lt: "cb_size b * 2 < 2 ^ 31" by simp
  obtain b' where "cb_resize (cb_size b * 2) b = Inr b'" "cb_inv b'" "cb_list b' = cb_list b"
    "cb_size b' = cb_size b * 2" "cb_used b' = cb_used b"
    by (rule cb_resize_ok [OF assms(1), of "cb_size b * 2"]) (use I full in simp_all)
  with that True lt full I(1) show thesis by (simp add: make_room_def)
next
  case False
  with that assms(1) cb_used_iff(1) [OF assms(1)] cb_invD(4) [OF assms(1)] show thesis
    by (simp add: make_room_def)
qed

lemma put_refines:
  assumes rep: "fifo_rep f s" and room: "length (sp_visible s) + length (sp_fresh s) < 2 ^ 30"
  shows "\<exists>f'. fifo_step (Put x) f = Inr (f', snd (spec_step (Put x) s)) \<and> fifo_rep f' (fst (spec_step (Put x) s))"
proof (cases "spec_full s")
  case True
  then show ?thesis using rep fifo_repD(6) [OF rep] by (simp add: fifo_nb_put_def)
next
  case False
  note R = fifo_repD [OF rep]
  have "length (cb_list (ff_buffer f)) < 2 ^ 30" using R(2) room by simp
  then obtain b where b: "make_room (ff_buffer f) = Inr b" "cb_inv b" "cb_list b = cb_list (ff_buffer f)"
    "cb_used b < cb_size b"
    by (rule make_room_ok [OF R(1)])
  obtain b1 where b1: "cb_write x b = Inr b1" "cb_inv b1" "cb_list b1 = cb_list b @ [x]"
    by (rule cb_write_ok [OF b(2,4)])
  from b b1 R False rep show ?thesis
    by (simp add: fifo_nb_put_def fifo_append_def fifo_rep_def)
qed

lemma peek_refines:
  assumes rep: "fifo_rep f s" and n: "n < length (sp_visible s)"
  shows "cb_peek_data (ff_buffer f) (int n) = Inr (sp_visible s ! n)"
  using cb_peek_ok [OF fifo_repD(1) [OF rep], of "int n"] fifo_repD(2,4) [OF rep] n by (simp add: nth_append)

lemma step_refines:
  assumes rep: "fifo_rep f s" and room: "length (sp_visible s) + length (sp_fresh s) < 2 ^ 30"
  shows "\<exists>f'. fifo_step p f = Inr (f', snd (spec_step p s)) \<and> fifo_rep f' (fst (spec_step p s))"
proof -
  note R = fifo_repD [OF rep]
  have bound: "\<exists>f' r. fifo_nb_bound n f = (f', r) \<and> Flag r = (snd (spec_bound n s) :: 'a fifo_res) \<and> fifo_rep f' (fst (spec_bound n s))" for n
    using rep R(3) by (auto simp: fifo_nb_bound_def spec_bound_def fifo_rep_def)
  show ?thesis
  proof (cases p)
    case Get
    with get_refines [OF rep] show ?thesis by simp
  next
    case (Put x)
    with put_refines [OF rep room] show ?thesis by simp
  next
    case Peek
    with peek_refines [OF rep, of 0] R(3) rep show ?thesis
      by (cases "sp_visible s") (auto simp: fifo_nb_peek_def)
  next
    case (Peek_at n)
    with peek_refines [OF rep, of n] R(3) rep show ?thesis
      by (auto simp: fifo_nb_peek_at_def)
  next
    case (Unbound n)
    show ?thesis
    proof (cases "cb_size (ff_buffer f) < sint n")
      case True
      have "cb_used (ff_buffer f) \<le> sint n" "0 < sint n" using True cb_invD(1,4) [OF R(1)] by simp_all
      from cb_resize_ok [OF R(1) this] obtain b where "cb_resize (sint n) (ff_buffer f) = Inr b" "cb_inv b"
        "cb_list b = cb_list (ff_buffer f)" by blast
      with Unbound True rep show ?thesis by (simp add: fifo_nb_unbound_def fifo_rep_def)
    next
      case False
      with Unbound rep show ?thesis by (simp add: fifo_nb_unbound_def fifo_rep_def)
    qed
  next
    case (Reduce n)
    with bound [of "sp_size s - n"] R(7) rep show ?thesis by (auto simp: fifo_nb_reduce_def)
  next
    case (Bound n)
    with bound [of n] show ?thesis by auto
  next
    case (Expand n)
    with rep show ?thesis by (auto simp: fifo_nb_expand_def fifo_rep_def)
  next
    case Update
    with rep R(4) show ?thesis by (auto simp: fifo_update_def fifo_rep_def)
  qed (use rep R in \<open>auto simp: fifo_nb_can_get_def fifo_nb_can_put_def\<close>)
qed

lemma spec_step_size:
  "length (sp_visible (fst (spec_step p s))) + length (sp_fresh (fst (spec_step p s))) \<le>
   Suc (length (sp_visible s) + length (sp_fresh s))"
  by (cases p) (auto simp: spec_bound_def split: list.splits)

definition spec_new :: "u32 \<Rightarrow> 't fifo_spec" where
  "spec_new n = \<lparr>sp_visible = [], sp_fresh = [], sp_taken = 0, sp_size = n, sp_expanded = False\<rparr>"

lemma run_refines:
  assumes "fifo_rep f s" and "length (sp_visible s) + length (sp_fresh s) + length ps \<le> 2 ^ 30"
  shows "\<exists>f'. fifo_run ps f = Inr (f', snd (spec_run ps s)) \<and> fifo_rep f' (fst (spec_run ps s))"
  using assms
proof (induction ps arbitrary: f s)
  case (Cons p ps)
  let ?s = "fst (spec_step p s)"
  have "length (sp_visible s) + length (sp_fresh s) < 2 ^ 30" using Cons.prems(2) by simp
  then obtain f1 where one: "fifo_step p f = Inr (f1, snd (spec_step p s))" "fifo_rep f1 ?s"
    using step_refines [OF Cons.prems(1)] by blast
  have "length (sp_visible ?s) + length (sp_fresh ?s) + length ps \<le> 2 ^ 30"
    using spec_step_size [of p s] Cons.prems(2) by simp
  with Cons.IH [OF one(2)] obtain f2 where
    "fifo_run ps f1 = Inr (f2, snd (spec_run ps ?s))" "fifo_rep f2 (fst (spec_run ps ?s))" by blast
  with one show ?case by (simp add: split_beta)
qed simp

lemma fifo_new_ok:
  assumes "sint n \<noteq> - (2 ^ 31)"
  shows "\<exists>f :: 'a tlm_fifo. fifo_new n = Inr f \<and> fifo_rep f (spec_new n)"
proof -
  define k where "k = (if 0 < sint n then sint n else if sint n < 0 then - sint n else 16)"
  have "0 < k" by (simp add: k_def)
  then obtain b :: "'a circular_buffer" where b: "ebind (cb_new 0) (cb_resize k) = Inr b" "cb_inv b" "cb_list b = []"
    by (rule cb_resize_new)
  define f where "f = \<lparr>ff_buffer = b, ff_size = n, num_readable = 0, num_read = 0, num_written = 0,
      ff_expand = False, num_read_no_notify = 0, update_requested = False\<rparr>"
  have "fifo_new n = Inr f"
    using assms b(1) by (auto simp: fifo_new_def fifo_init_def k_def f_def split: if_splits)
  moreover have "fifo_rep f (spec_new n)" using b by (simp add: fifo_rep_def spec_new_def f_def)
  ultimately show ?thesis by blast
qed

text \<open>
  C39. The FIFO channel refines a queue with two ends in time: for every sequence of calls and delta
  cycles on a new channel, whatever its size, no call fails, and every result, every value and every event is that
  of the abstract channel, where a value is visible from the delta cycle after it was put and in the order
  in which the values were put, through every change of the size and every growth of the buffer.
\<close>

theorem tlm_fifo_refines:
  fixes ps :: "'a fifo_op list"
  assumes "sint n \<noteq> - (2 ^ 31)" and "length ps \<le> 2 ^ 30"
  shows "\<exists>f. ebind (fifo_new n) (fifo_run ps) = Inr (f, snd (spec_run ps (spec_new n))) \<and>
    fifo_rep f (fst (spec_run ps (spec_new n)))"
proof -
  obtain f :: "'a tlm_fifo" where f: "fifo_new n = Inr f" "fifo_rep f (spec_new n)"
    using fifo_new_ok [OF assms(1)] by blast
  have "length (sp_visible (spec_new n :: 'a fifo_spec)) + length (sp_fresh (spec_new n :: 'a fifo_spec)) + length ps \<le> 2 ^ 30"
    using assms(2) by (simp add: spec_new_def)
  from run_refines [OF f(2) this] obtain f' where
    "fifo_run ps f = Inr (f', snd (spec_run ps (spec_new n)))" "fifo_rep f' (fst (spec_run ps (spec_new n)))"
    by blast
  with f(1) show ?thesis by simp
qed

lemma tlm_fifo_refines_witness:
  "\<exists>f. ebind (fifo_new 2) (fifo_run [Put 5, Put (6::nat), Put 7, Get, Update, Get, Peek_at 0, Put 8, Expand 1, Put 8]) =
     Inr (f, [Flag True, Flag True, Flag False, Value None, Events False True, Value (Some 5), Value (Some 6),
              Flag False, Nothing, Flag True])"
  using tlm_fifo_refines [of 2 "[Put 5, Put (6::nat), Put 7, Get, Update, Get, Peek_at 0, Put 8, Expand 1, Put 8]"]
  by (auto simp: spec_new_def spec_full_def)

section \<open>What goes wrong\<close>

text \<open>
  \<open>nb_poke\<close> means to replace a visible value, but \<open>poke_data\<close> counts from the place of the next write: on
  a channel with one value it assigns to an object that does not exist.
\<close>

lemma poke_misses:
  assumes "cb_inv (ff_buffer f)" and "fifo_used f = 1" and "cb_used (ff_buffer f) < cb_size (ff_buffer f)"
  shows "fifo_nb_poke x 0 f = Inl Out_of_bounds"
proof -
  let ?b = "ff_buffer f"
  note I = cb_invD [OF assms(1)]
  have "cb_slot ?b (cb_used ?b) = None" using I(9) [of "cb_used ?b"] I(3) assms(3) by blast
  then have "buf_read (cb_buf ?b) (cb_wi ?b) = Inl Out_of_bounds"
    using I by (simp add: buf_read_def cb_slot_def)
  moreover have "rem_by (cb_wi ?b + 0) (cb_size ?b) = Inr (cb_wi ?b)"
    using I by (subst rem_by_nonneg) simp_all
  ultimately show ?thesis using assms(2) by (simp add: fifo_nb_poke_def cb_poke_data_def)
qed

text \<open>\<open>nb_peek (t, -1)\<close> of an empty channel reads in front of the buffer.\<close>

lemma peek_last_of_empty:
  assumes "cb_ri (ff_buffer f) = 0" and "fifo_used f = 0" and "1 < cb_size (ff_buffer f)"
  shows "fifo_nb_peek_at (-1) f = Inl Out_of_bounds"
  using assms by (simp add: fifo_nb_peek_at_def cb_peek_data_def rem_by_def c_rem_def buf_read_def)

end
