(* ===== verification/Endian.thy ===== *)
theory Endian
  imports Tlm_Attributes
begin

text \<open>
  The functions that convert a payload between the byte order of an initiator and that of the host
  (\<open>tlm_endian_conv.h\<close>): the context that a payload carries as an extension, its pool, the copiers, the three
  loops, and the four sets of functions for the request and the response. They work on a store of arrays
  of bytes; the header's template parameter, the type of a data word, is its size \<open>D\<close>.
\<close>

section \<open>Arrays, contexts and payloads\<close>

text \<open>\<open>from_f\<close> points to one of four functions, for a size of the data word.\<close>

datatype convert_set = Conv_generic | Conv_word | Conv_aligned | Conv_single

record endian_context =
  ec_address :: u64
  ec_new_address :: u64
  ec_data_ptr :: data_ptr
  ec_byte_enable :: data_ptr
  ec_length :: int
  ec_stream_width :: int
  from_f :: "convert_set \<times> nat"
  ec_sizeof_databus :: int
  new_dbuf :: nat
  new_bebuf :: nat
  dbuf_size :: int
  bebuf_size :: int
  ec_next :: "nat option"

text \<open>
  A pointer is null or an offset in an array (\<open>Mem_ptr\<close>). \<open>raw\<close> is what the memory of a new array holds,
  \<open>ctx_raw\<close> the fields of a new context that its constructor does not set; \<open>ctx_first\<close> is the head of the global
  pool of contexts.
\<close>

record byte_store =
  arrays :: "nat \<Rightarrow> byte list option"
  next_array :: nat
  raw :: "nat \<Rightarrow> nat \<Rightarrow> byte"
  ctxs :: "nat \<Rightarrow> endian_context"
  next_ctx :: nat
  ctx_raw :: "endian_context"
  ctx_first :: "nat option"

record conv_txn = full_gp +
  gp_context :: "nat option"

definition TLM_BYTE_DISABLED :: byte where "TLM_BYTE_DISABLED = 0x0"
definition TLM_BYTE_ENABLED :: byte where "TLM_BYTE_ENABLED = 0xff"

definition ptr_add :: "data_ptr \<Rightarrow> u64 \<Rightarrow> data_ptr" where
  "ptr_add p n = (case p of Mem_ptr b k \<Rightarrow> Mem_ptr b (k + n) | _ \<Rightarrow> p)"

definition ptr_at :: "data_ptr \<Rightarrow> int \<Rightarrow> data_ptr" where
  "ptr_at p i = ptr_add p (of_int i)"

definition load_byte :: "byte_store \<Rightarrow> data_ptr \<Rightarrow> sim_error + byte" where
  "load_byte h p =
     (case p of
        Mem_ptr b k \<Rightarrow>
          (case arrays h b of
             Some bs \<Rightarrow> if unat k < length bs then Inr (bs ! unat k) else Inl Out_of_bounds
           | None \<Rightarrow> Inl Out_of_bounds)
      | _ \<Rightarrow> Inl Null_pointer)"

definition store_byte :: "data_ptr \<Rightarrow> byte \<Rightarrow> byte_store \<Rightarrow> sim_error + byte_store" where
  "store_byte p x h =
     (case p of
        Mem_ptr b k \<Rightarrow>
          (case arrays h b of
             Some bs \<Rightarrow>
               if unat k < length bs then Inr (h\<lparr>arrays := (arrays h)(b \<mapsto> bs[unat k := x])\<rparr>) else Inl Out_of_bounds
           | None \<Rightarrow> Inl Out_of_bounds)
      | _ \<Rightarrow> Inl Null_pointer)"

text \<open>\<open>*dest = *src\<close> for a byte, and for a data word of \<open>n\<close> bytes.\<close>

definition copy_byte :: "data_ptr \<Rightarrow> data_ptr \<Rightarrow> byte_store \<Rightarrow> sim_error + byte_store" where
  "copy_byte dest src h = ebind (load_byte h src) (\<lambda>x. store_byte dest x h)"

fun load_bytes :: "nat \<Rightarrow> data_ptr \<Rightarrow> byte_store \<Rightarrow> sim_error + byte list" where
  "load_bytes 0 p h = Inr []"
| "load_bytes (Suc n) p h = ebind (load_byte h p) (\<lambda>x. ebind (load_bytes n (ptr_at p 1) h) (\<lambda>xs. Inr (x # xs)))"

fun store_bytes :: "data_ptr \<Rightarrow> byte list \<Rightarrow> byte_store \<Rightarrow> sim_error + byte_store" where
  "store_bytes p [] h = Inr h"
| "store_bytes p (x # xs) h = ebind (store_byte p x h) (store_bytes (ptr_at p 1) xs)"

definition copy_word :: "nat \<Rightarrow> data_ptr \<Rightarrow> data_ptr \<Rightarrow> byte_store \<Rightarrow> sim_error + byte_store" where
  "copy_word n dest src h = ebind (load_bytes n src h) (\<lambda>xs. store_bytes dest xs h)"

text \<open>The constants of \<open>tlm_bool\<close>: a data word with one byte throughout; its test looks at the first byte.\<close>

definition make_uchar_array :: "nat \<Rightarrow> byte \<Rightarrow> byte list" where
  "make_uchar_array n c = replicate n c"

definition tlm_bool :: "data_ptr \<Rightarrow> byte_store \<Rightarrow> sim_error + bool" where
  "tlm_bool p h = ebind (load_byte h p) (\<lambda>b. Inr (b \<noteq> TLM_BYTE_DISABLED))"

section \<open>Contexts\<close>

definition new_array :: "int \<Rightarrow> byte_store \<Rightarrow> byte_store" where
  "new_array n h =
     h\<lparr>arrays := (arrays h)(next_array h \<mapsto> map (raw h (next_array h)) [0..<nat n]), next_array := Suc (next_array h)\<rparr>"

definition delete_array :: "nat \<Rightarrow> byte_store \<Rightarrow> byte_store" where
  "delete_array b h = h\<lparr>arrays := (arrays h)(b := None)\<rparr>"

definition upd_ctx :: "nat \<Rightarrow> (endian_context \<Rightarrow> endian_context) \<Rightarrow> byte_store \<Rightarrow> byte_store" where
  "upd_ctx c f h = h\<lparr>ctxs := (ctxs h)(c := f (ctxs h c))\<rparr>"

definition establish_dbuf :: "int \<Rightarrow> nat \<Rightarrow> byte_store \<Rightarrow> byte_store" where
  "establish_dbuf len c h =
     (if len \<le> dbuf_size (ctxs h c) then h
      else let h1 = (if dbuf_size (ctxs h c) > 0 then delete_array (new_dbuf (ctxs h c)) h else h)
        in upd_ctx c (\<lambda>k. k\<lparr>new_dbuf := next_array h1, dbuf_size := len\<rparr>) (new_array len h1))"

definition establish_bebuf :: "int \<Rightarrow> nat \<Rightarrow> byte_store \<Rightarrow> byte_store" where
  "establish_bebuf len c h =
     (if len \<le> bebuf_size (ctxs h c) then h
      else let h1 = (if bebuf_size (ctxs h c) > 0 then delete_array (new_bebuf (ctxs h c)) h else h)
        in upd_ctx c (\<lambda>k. k\<lparr>new_bebuf := next_array h1, bebuf_size := len\<rparr>) (new_array len h1))"

text \<open>The destructor of a context.\<close>

definition delete_context :: "nat \<Rightarrow> byte_store \<Rightarrow> byte_store" where
  "delete_context c h =
     (let h1 = (if dbuf_size (ctxs h c) > 0 then delete_array (new_dbuf (ctxs h c)) h else h)
      in if bebuf_size (ctxs h c) > 0 then delete_array (new_bebuf (ctxs h c)) h1 else h1)"

definition ctx_pop :: "byte_store \<Rightarrow> nat \<times> byte_store" where
  "ctx_pop h =
     (case ctx_first h of
        None \<Rightarrow> (next_ctx h, h\<lparr>ctxs := (ctxs h)(next_ctx h := (ctx_raw h)\<lparr>dbuf_size := 0, bebuf_size := 0\<rparr>),
                   next_ctx := Suc (next_ctx h)\<rparr>)
      | Some r \<Rightarrow> (r, h\<lparr>ctx_first := ec_next (ctxs h r)\<rparr>))"

definition ctx_push :: "nat \<Rightarrow> byte_store \<Rightarrow> byte_store" where
  "ctx_push c h = (upd_ctx c (\<lambda>k. k\<lparr>ec_next := ctx_first h\<rparr>) h)\<lparr>ctx_first := Some c\<rparr>"

text \<open>\<open>free\<close>, which the payload calls for its extension.\<close>

definition ctx_free :: "nat \<Rightarrow> byte_store \<Rightarrow> byte_store" where
  "ctx_free c h = ctx_push c h"

text \<open>The destructor of the pool, which walks through its list.\<close>

partial_function (option) ctx_pool_delete :: "byte_store \<Rightarrow> byte_store option" where
  "ctx_pool_delete h =
     (case ctx_first h of
        None \<Rightarrow> Some h
      | Some c \<Rightarrow> ctx_pool_delete ((delete_context c h)\<lparr>ctx_first := ec_next (ctxs h c)\<rparr>))"

definition establish_context :: "conv_txn \<Rightarrow> byte_store \<Rightarrow> nat \<times> conv_txn \<times> byte_store" where
  "establish_context t h =
     (case gp_context t of
        Some c \<Rightarrow> (c, t, h)
      | None \<Rightarrow> (case ctx_pop h of (c, h1) \<Rightarrow> (c, t\<lparr>gp_context := Some c\<rparr>, h1)))"

definition the_context :: "conv_txn \<Rightarrow> byte_store \<Rightarrow> sim_error + endian_context" where
  "the_context t h = (case gp_context t of None \<Rightarrow> Inl Null_pointer | Some c \<Rightarrow> Inr (ctxs h c))"

section \<open>The generic conversion\<close>

type_synonym copier = "data_ptr \<Rightarrow> data_ptr \<Rightarrow> data_ptr \<Rightarrow> data_ptr \<Rightarrow> byte_store \<Rightarrow> sim_error + byte_store"

definition copy_db0 :: copier where
  "copy_db0 src1 src2 dest1 dest2 h = ebind (copy_byte dest1 src1 h) (copy_byte dest2 src2)"

definition copy_dbtrue0 :: copier where
  "copy_dbtrue0 src1 src2 dest1 dest2 h = ebind (copy_byte dest1 src1 h) (store_byte dest2 TLM_BYTE_ENABLED)"

definition copy_btrue0 :: copier where
  "copy_btrue0 src1 src2 dest1 dest2 h = store_byte dest2 TLM_BYTE_ENABLED h"

definition copy_b0 :: copier where
  "copy_b0 src1 src2 dest1 dest2 h = copy_byte dest2 src2 h"

definition copy_dbyb0 :: copier where
  "copy_dbyb0 src1 src2 dest1 dest2 h =
     ebind (load_byte h dest2) (\<lambda>b. if b = TLM_BYTE_ENABLED then copy_byte src1 dest1 h else Inr h)"

text \<open>
  The arguments of \<open>loop_generic0\<close>. A loop with a counter is a fold over the values of the counter.
\<close>

record loop0 =
  l_new_len :: int
  l_new_stream_width :: int
  l_orig_stream_width :: int
  l_sizeof_databus :: int
  l_orig_start :: u64
  l_new_start :: u64
  l_be_length :: int
  l_ie_data :: data_ptr
  l_ie_be :: data_ptr
  l_he_data :: data_ptr
  l_he_be :: data_ptr

definition generic_byte :: "copier \<Rightarrow> loop0 \<Rightarrow> int \<Rightarrow> int \<Rightarrow> u64 \<times> byte_store \<Rightarrow> sim_error + (u64 \<times> byte_store)" where
  "generic_byte COPY a new_sword curr_byte s =
     (case s of (ie_addr, h) \<Rightarrow>
        let he_index = ((ie_addr XOR of_int (l_sizeof_databus a - 1)) - l_new_start a) + of_int new_sword
        in ebind (rem_by curr_byte (l_be_length a)) (\<lambda>k.
           ebind (COPY (ptr_at (l_ie_data a) curr_byte) (ptr_at (l_ie_be a) k)
                    (ptr_add (l_he_data a) he_index) (ptr_add (l_he_be a) he_index) h) (\<lambda>h1.
             Inr (ie_addr + 1, h1))))"

definition generic_dword ::
  "copier \<Rightarrow> loop0 \<Rightarrow> nat \<Rightarrow> int \<Rightarrow> int \<Rightarrow> u64 \<times> byte_store \<Rightarrow> sim_error + (u64 \<times> byte_store)" where
  "generic_dword COPY a D new_sword orig_dword =
     efold (generic_byte COPY a new_sword) (map (\<lambda>i. orig_dword + int D - 1 - int i) [0..<D])"

definition generic_sword :: "copier \<Rightarrow> loop0 \<Rightarrow> nat \<Rightarrow> nat \<Rightarrow> byte_store \<Rightarrow> sim_error + byte_store" where
  "generic_sword COPY a D m h =
     ebind (efold (generic_dword COPY a D (int m * l_new_stream_width a))
              (map (\<lambda>i. int m * l_orig_stream_width a + int (i * D))
                 [0..<nat ((l_orig_stream_width a + int D - 1) div int D)])
              (l_orig_start a, h))
       (\<lambda>(ie_addr, h1). Inr h1)"

text \<open>With a new width that is not positive the counter never reaches the new length.\<close>

definition loop_generic0 :: "copier \<Rightarrow> loop0 \<Rightarrow> nat \<Rightarrow> byte_store \<Rightarrow> sim_error + byte_store" where
  "loop_generic0 COPY a D h =
     (if l_new_len a \<le> 0 then Inr h
      else if l_new_stream_width a \<le> 0 then Inl Int_overflow
      else efold (generic_sword COPY a D)
             [0..<nat ((l_new_len a + l_new_stream_width a - 1) div l_new_stream_width a)] h)"

definition from_hostendian_generic :: "nat \<Rightarrow> conv_txn \<Rightarrow> u32 \<Rightarrow> byte_store \<Rightarrow> sim_error + byte_store" where
  "from_hostendian_generic D t sizeof_databus h =
     (if is_read t
      then ebind (the_context t h) (\<lambda>tc.
        loop_generic0 copy_dbyb0
          \<lparr>l_new_len = sint (get_data_length t), l_new_stream_width = sint (get_streaming_width t),
           l_orig_stream_width = ec_stream_width tc, l_sizeof_databus = sint sizeof_databus,
           l_orig_start = ec_address tc, l_new_start = ec_new_address tc,
           l_be_length = sint (get_data_length t), l_ie_data = ec_data_ptr tc, l_ie_be = Null_ptr,
           l_he_data = get_data_ptr t, l_he_be = get_byte_enable_ptr t\<rparr> D h)
      else Inr h)"

text \<open>The quotient of an \<open>int\<close>, and \<open>memset\<close>, whose length is converted to an unsigned number.\<close>

definition quot_by :: "int \<Rightarrow> int \<Rightarrow> sim_error + int" where
  "quot_by a n = (if n = 0 then Inl Division_by_zero
     else if a = - (2 ^ 31) \<and> n = -1 then Inl Int_overflow
     else Inr (sgn a * sgn n * (\<bar>a\<bar> div \<bar>n\<bar>)))"

definition memset :: "data_ptr \<Rightarrow> byte \<Rightarrow> int \<Rightarrow> byte_store \<Rightarrow> sim_error + byte_store" where
  "memset p x n h =
     (if n < 0 then Inl Out_of_bounds else efold (\<lambda>i. store_byte (ptr_at p (int i)) x) [0..<nat n] h)"

text \<open>
  The mask \<open>~(sizeof_databus - 1)\<close> has 32 bits, so it clears the upper half of an address. The two widths of
  the new payload are computed with 64 bits and stored as \<open>int\<close>.
\<close>

definition bus_mask :: "u32 \<Rightarrow> u64" where
  "bus_mask sizeof_databus = ucast (NOT (sizeof_databus - 1))"

definition to_hostendian_generic ::
  "nat \<Rightarrow> conv_txn \<Rightarrow> u32 \<Rightarrow> byte_store \<Rightarrow> sim_error + (conv_txn \<times> byte_store)" where
  "to_hostendian_generic D t0 sizeof_databus h0 =
     (case establish_context t0 h0 of (c, t, h1) \<Rightarrow>
      let h2 = upd_ctx c (\<lambda>k. k\<lparr>from_f := (Conv_generic, D), ec_sizeof_databus := sint sizeof_databus\<rparr>) h1;
          len = sint (get_data_length t);
          s_width = (if sint (get_streaming_width t) \<ge> len then len else sint (get_streaming_width t))
      in ebind (quot_by len s_width) (\<lambda>nr_stream_words.
      let new_address = get_address t AND bus_mask sizeof_databus;
          end_address = (get_address t + of_int s_width - 1) AND bus_mask sizeof_databus;
          new_stream_width = sint (ucast (end_address - new_address + ucast sizeof_databus) :: u32);
          new_length = new_stream_width * nr_stream_words
      in if new_length < - (2 ^ 31) \<or> 2 ^ 31 \<le> new_length then Inl Int_overflow else
      let h3 = upd_ctx c (\<lambda>k. k\<lparr>ec_data_ptr := get_data_ptr t, ec_address := get_address t,
                 ec_new_address := new_address, ec_stream_width := s_width\<rparr>) h2;
          orig_be = get_byte_enable_ptr t;
          orig_be_length = sint (get_byte_enable_length t);
          h4 = establish_dbuf new_length c h3;
          h5 = establish_bebuf new_length c h4;
          t1 = set_byte_enable_ptr (Mem_ptr (new_bebuf (ctxs h5 c)) 0)
                 (set_data_ptr (Mem_ptr (new_dbuf (ctxs h4 c)) 0) (set_address new_address t))
      in ebind (memset (get_byte_enable_ptr t1) TLM_BYTE_DISABLED new_length h5) (\<lambda>h6.
      let t2 = set_byte_enable_length (of_int new_length)
                 (set_data_length (of_int new_length) (set_streaming_width (of_int new_stream_width) t1));
          a = \<lparr>l_new_len = new_length, l_new_stream_width = new_stream_width, l_orig_stream_width = s_width,
                l_sizeof_databus = sint sizeof_databus, l_orig_start = get_address t, l_new_start = new_address,
                l_be_length = (if orig_be = Null_ptr then new_length else orig_be_length),
                l_ie_data = get_data_ptr t, l_ie_be = orig_be,
                l_he_data = get_data_ptr t2, l_he_be = get_byte_enable_ptr t2\<rparr>;
          COPY = (if is_write t2 then (if orig_be = Null_ptr then copy_dbtrue0 else copy_db0)
                  else (if orig_be = Null_ptr then copy_btrue0 else copy_b0))
      in ebind (loop_generic0 COPY a D h6) (\<lambda>h7. Inr (t2, h7)))))"

section \<open>The conversion by data words\<close>

definition copy_d1 :: "nat \<Rightarrow> copier" where
  "copy_d1 D src1 src2 dest1 dest2 h =
     ebind (copy_word D dest1 src1 h) (store_bytes dest2 (make_uchar_array D TLM_BYTE_ENABLED))"

definition copy_db1 :: "nat \<Rightarrow> copier" where
  "copy_db1 D src1 src2 dest1 dest2 h = ebind (copy_word D dest1 src1 h) (copy_word D dest2 src2)"

definition true_b1 :: "nat \<Rightarrow> copier" where
  "true_b1 D src1 src2 dest1 dest2 h = store_bytes dest2 (make_uchar_array D TLM_BYTE_ENABLED) h"

definition copy_b1 :: "nat \<Rightarrow> copier" where
  "copy_b1 D src1 src2 dest1 dest2 h = copy_word D dest2 src2 h"

definition copy_dbyb1 :: "nat \<Rightarrow> copier" where
  "copy_dbyb1 D src1 src2 dest1 dest2 h =
     ebind (load_byte h src2) (\<lambda>b. if b \<noteq> TLM_BYTE_DISABLED then copy_word D src1 dest1 h else Inr h)"

definition copy_dbytrue1 :: "nat \<Rightarrow> copier" where
  "copy_dbytrue1 D src1 src2 dest1 dest2 h = copy_word D src1 dest1 h"

definition false_b1 :: "nat \<Rightarrow> data_ptr \<Rightarrow> byte_store \<Rightarrow> sim_error + byte_store" where
  "false_b1 D dest1 h = store_bytes dest1 (make_uchar_array D TLM_BYTE_DISABLED) h"

definition no_b1 :: "nat \<Rightarrow> data_ptr \<Rightarrow> byte_store \<Rightarrow> sim_error + byte_store" where
  "no_b1 D dest1 h = Inr h"

text \<open>
  The arguments of \<open>loop_word1\<close>. The pointers \<open>src\<close> and \<open>dest\<close> are the start of their array and an index; so
  are the pointers at the distances \<open>d2b_src\<close> and \<open>d2b_dest\<close>, into the arrays of byte enables. The source index
  leaves its array and is then compared only.
\<close>

record loop1 =
  w_len0 :: int
  w_lenN :: int
  w_sizeof_databus :: int
  w_end :: int
  w_src :: data_ptr
  w_bsrc :: data_ptr
  w_dest :: data_ptr
  w_bdest :: data_ptr

record loop1_state =
  s_src :: int
  s_dest :: int
  s_left :: int
  s_bytes :: byte_store

definition src_inside :: "loop1 \<Rightarrow> loop1_state \<Rightarrow> bool" where
  "src_inside a s \<longleftrightarrow> 0 \<le> s_src s \<and> s_src s < w_end a"

definition word_copy :: "copier \<Rightarrow> loop1 \<Rightarrow> loop1_state \<Rightarrow> sim_error + byte_store" where
  "word_copy COPY a s =
     COPY (ptr_at (w_src a) (s_src s)) (ptr_at (w_bsrc a) (s_src s))
       (ptr_at (w_dest a) (s_dest s)) (ptr_at (w_bdest a) (s_dest s)) (s_bytes s)"

definition next_byte :: "loop1_state \<Rightarrow> byte_store \<Rightarrow> loop1_state" where
  "next_byte s h = s\<lparr>s_src := s_src s + 1, s_dest := s_dest s + 1, s_bytes := h\<rparr>"

text \<open>
  The \<open>n\<close> bytes at the start (\<open>len0\<close>) or the end (\<open>lenN\<close>) of a bus word, which belong to one data word. The flag
  says that the function returns.
\<close>

definition word_part ::
  "(nat \<Rightarrow> copier) \<Rightarrow> (nat \<Rightarrow> data_ptr \<Rightarrow> byte_store \<Rightarrow> sim_error + byte_store) \<Rightarrow> loop1 \<Rightarrow> int \<Rightarrow> loop1_state \<Rightarrow>
   sim_error + (bool \<times> loop1_state)" where
  "word_part COPY FILL a n s =
     (if src_inside a s
      then ebind (efold (\<lambda>_ r. ebind (word_copy (COPY 1) a r) (\<lambda>h. Inr (next_byte r h))) [0..<nat n] s) (\<lambda>r.
             Inr (s_left r - n \<le> 0, r\<lparr>s_left := s_left r - n\<rparr>))
      else ebind (efold (\<lambda>_ r. ebind (FILL 1 (ptr_at (w_bdest a) (s_dest r)) (s_bytes r)) (\<lambda>h. Inr (next_byte r h)))
                    [0..<nat n] s) (\<lambda>r. Inr (False, r)))"

text \<open>The whole data words in between.\<close>

definition word_full ::
  "(nat \<Rightarrow> copier) \<Rightarrow> (nat \<Rightarrow> data_ptr \<Rightarrow> byte_store \<Rightarrow> sim_error + byte_store) \<Rightarrow> loop1 \<Rightarrow> nat \<Rightarrow> loop1_state \<Rightarrow>
   sim_error + (bool \<times> loop1_state)" where
  "word_full COPY FILL a D s =
     ebind (if src_inside a s
            then ebind (word_copy (COPY D) a s) (\<lambda>h. Inr (s\<lparr>s_left := s_left s - int D, s_bytes := h\<rparr>))
            else ebind (FILL D (ptr_at (w_bdest a) (s_dest s)) (s_bytes s)) (\<lambda>h. Inr (s\<lparr>s_bytes := h\<rparr>))) (\<lambda>r.
     let r1 = r\<lparr>s_dest := s_dest r + int D\<rparr>
     in if s_left r1 \<le> 0 then Inr (True, r1) else Inr (False, r1\<lparr>s_src := s_src r1 - int D\<rparr>))"

text \<open>\<open>until_return f s\<close> goes on with \<open>f\<close> when the code before it has not returned.\<close>

definition until_return ::
  "(loop1_state \<Rightarrow> sim_error + (bool \<times> loop1_state)) \<Rightarrow> bool \<times> loop1_state \<Rightarrow> sim_error + (bool \<times> loop1_state)" where
  "until_return f r = (case r of (True, s) \<Rightarrow> Inr (True, s) | (False, s) \<Rightarrow> f s)"

definition word_turn ::
  "(nat \<Rightarrow> copier) \<Rightarrow> (nat \<Rightarrow> data_ptr \<Rightarrow> byte_store \<Rightarrow> sim_error + byte_store) \<Rightarrow> loop1 \<Rightarrow> nat \<Rightarrow> loop1_state \<Rightarrow>
   sim_error + (bool \<times> loop1_state)" where
  "word_turn COPY FILL a D s =
     ebind (word_part COPY FILL a (w_len0 a) s)
       (until_return (\<lambda>s1.
     ebind (efold (\<lambda>i. until_return (word_full COPY FILL a D)) [1..<nat (w_sizeof_databus a) div D]
              (False, s1\<lparr>s_src := s_src s1 - 2 * int D\<rparr>))
       (until_return (\<lambda>s2.
     ebind (word_part COPY FILL a (w_lenN a) s2)
       (until_return (\<lambda>s3. Inr (False, s3\<lparr>s_src := s_src s3 + 2 * w_sizeof_databus a\<rparr>)))))))"

text \<open>\<open>None\<close>: the loop does not return. The result is the number of bytes that the destination has.\<close>

partial_function (option) loop_word1 ::
  "(nat \<Rightarrow> copier) \<Rightarrow> (nat \<Rightarrow> data_ptr \<Rightarrow> byte_store \<Rightarrow> sim_error + byte_store) \<Rightarrow> loop1 \<Rightarrow> nat \<Rightarrow> loop1_state \<Rightarrow>
   (sim_error + (int \<times> byte_store)) option" where
  "loop_word1 COPY FILL a D s =
     (case word_turn COPY FILL a D s of
        Inl e \<Rightarrow> Some (Inl e)
      | Inr r \<Rightarrow> if fst r then Some (Inr (s_dest (snd r), s_bytes (snd r))) else loop_word1 COPY FILL a D (snd r))"

text \<open>
  The numbers that both word functions compute from an address: the mask of the bus, the offset in its bus word, and the
  lengths of the two parts of a data word that a border of bus words cuts.
\<close>

definition b_mask :: "u32 \<Rightarrow> u64" where "b_mask sizeof_databus = ucast (sizeof_databus - 1)"
definition a_offset :: "u64 \<Rightarrow> u32 \<Rightarrow> u32" where "a_offset a sizeof_databus = ucast (a AND b_mask sizeof_databus)"
definition d_mask :: "nat \<Rightarrow> u32" where "d_mask D = of_nat D - 1"
definition word_len0 :: "nat \<Rightarrow> u64 \<Rightarrow> u32 \<Rightarrow> u32" where
  "word_len0 D a sizeof_databus = (sizeof_databus - a_offset a sizeof_databus) AND d_mask D"
definition word_lenN :: "nat \<Rightarrow> u64 \<Rightarrow> u32 \<Rightarrow> u32" where
  "word_lenN D a sizeof_databus = of_nat D - word_len0 D a sizeof_databus"
definition word_start :: "nat \<Rightarrow> u64 \<Rightarrow> u32 \<Rightarrow> u32" where
  "word_start D a sizeof_databus =
     ((sizeof_databus - a_offset a sizeof_databus) AND NOT (d_mask D)) + word_lenN D a sizeof_databus"

definition from_hostendian_word ::
  "nat \<Rightarrow> conv_txn \<Rightarrow> u32 \<Rightarrow> byte_store \<Rightarrow> (sim_error + byte_store) option" where
  "from_hostendian_word D t sizeof_databus h =
     (if is_read t
      then (case the_context t h of
          Inl e \<Rightarrow> Some (Inl e)
        | Inr tc \<Rightarrow>
            let a = \<lparr>w_len0 = sint (word_len0 D (ec_address tc) sizeof_databus),
                  w_lenN = sint (word_lenN D (ec_address tc) sizeof_databus),
                  w_sizeof_databus = sint sizeof_databus, w_end = ec_length tc, w_src = ec_data_ptr tc,
                  w_bsrc = ec_byte_enable tc, w_dest = get_data_ptr t, w_bdest = Null_ptr\<rparr>;
              COPY = (if ec_byte_enable tc = Null_ptr then copy_dbytrue1 else copy_dbyb1)
            in map_option (\<lambda>r. ebind r (\<lambda>(n, h1). Inr h1))
                 (loop_word1 COPY no_b1 a D
                    \<lparr>s_src = uint (word_start D (ec_address tc) sizeof_databus), s_dest = 0, s_left = ec_length tc,
                     s_bytes = h\<rparr>))
      else Some (Inr h))"

definition to_hostendian_word ::
  "nat \<Rightarrow> conv_txn \<Rightarrow> u32 \<Rightarrow> byte_store \<Rightarrow> (sim_error + (conv_txn \<times> byte_store)) option" where
  "to_hostendian_word D t0 sizeof_databus h0 =
     (case establish_context t0 h0 of (c, t, h1) \<Rightarrow>
      let h2 = upd_ctx c (\<lambda>k. k\<lparr>from_f := (Conv_word, D), ec_sizeof_databus := sint sizeof_databus\<rparr>) h1;
          adr = get_address t;
          a_aligned = adr AND NOT (b_mask sizeof_databus);
          long_enough = sint (get_data_length t + 2 * sizeof_databus);
          h3 = establish_dbuf long_enough c h2;
          h4 = establish_bebuf long_enough c h3;
          new_data = Mem_ptr (new_dbuf (ctxs h3 c)) 0;
          new_be = Mem_ptr (new_bebuf (ctxs h4 c)) 0;
          be = get_byte_enable_ptr t;
          h5 = (if is_read t
                then upd_ctx c (\<lambda>k. k\<lparr>ec_data_ptr := get_data_ptr t, ec_address := adr, ec_byte_enable := be,
                       ec_length := sint (get_data_length t)\<rparr>) h4
                else h4);
          a = \<lparr>w_len0 = sint (word_len0 D adr sizeof_databus), w_lenN = sint (word_lenN D adr sizeof_databus),
                w_sizeof_databus = sint sizeof_databus, w_end = uint (get_data_length t),
                w_src = get_data_ptr t, w_bsrc = be, w_dest = new_data, w_bdest = new_be\<rparr>;
          COPY = (if is_read t then (if be = Null_ptr then true_b1 else copy_b1)
                  else (if be = Null_ptr then copy_d1 else copy_db1))
      in map_option (\<lambda>r. ebind r (\<lambda>(n, h6).
           let t1 = set_data_length (of_int n) t;
               t2 = set_streaming_width (get_data_length t1) (set_byte_enable_length (get_data_length t1) t1)
           in Inr (set_address a_aligned (set_byte_enable_ptr new_be (set_data_ptr new_data t2)), h6)))
           (loop_word1 COPY false_b1 a D
              \<lparr>s_src = uint (word_start D adr sizeof_databus), s_dest = 0, s_left = sint (get_data_length t),
               s_bytes = h5\<rparr>))"

section \<open>The conversion of aligned payloads\<close>

definition copy_d2 :: "nat \<Rightarrow> copier" where
  "copy_d2 D src1 src2 dest1 dest2 h = copy_word D dest1 src1 h"

definition copy_db2 :: "nat \<Rightarrow> copier" where
  "copy_db2 D src1 src2 dest1 dest2 h = ebind (copy_word D dest1 src1 h) (copy_word D dest2 src2)"

definition copy_dbyb2 :: "nat \<Rightarrow> copier" where
  "copy_dbyb2 D src1 src2 dest1 dest2 h =
     ebind (tlm_bool src2 h) (\<lambda>b. if b then copy_word D dest1 src1 h else Inr h)"

text \<open>
  Pointers to data words are indices: \<open>i\<close> of the source, \<open>j\<close> of the destination, \<open>bus_start\<close> and \<open>words\<close> for
  \<open>done\<close>. The loop ends only when \<open>bus_start\<close> is \<open>words\<close>; otherwise it leaves the arrays.
\<close>

partial_function (option) loop_aligned2_from ::
  "copier \<Rightarrow> nat \<Rightarrow> data_ptr \<Rightarrow> data_ptr \<Rightarrow> data_ptr \<Rightarrow> data_ptr \<Rightarrow> int \<Rightarrow> int \<Rightarrow> int \<Rightarrow> int \<Rightarrow> int \<Rightarrow> byte_store \<Rightarrow>
   (sim_error + byte_store) option" where
  "loop_aligned2_from COPY D src1 src2 dest1 dest2 words words_per_bus bus_start i j h =
     (case COPY (ptr_at src1 (i * int D)) (ptr_at src2 (i * int D)) (ptr_at dest1 (j * int D))
             (ptr_at dest2 (j * int D)) h of
        Inl e \<Rightarrow> Some (Inl e)
      | Inr h1 \<Rightarrow>
          if i - 1 < bus_start
          then (if bus_start + words_per_bus = words then Some (Inr h1)
                else loop_aligned2_from COPY D src1 src2 dest1 dest2 words words_per_bus (bus_start + words_per_bus)
                       (bus_start + words_per_bus + (words_per_bus - 1)) (j + 1) h1)
          else loop_aligned2_from COPY D src1 src2 dest1 dest2 words words_per_bus bus_start (i - 1) (j + 1) h1)"

definition loop_aligned2 ::
  "copier \<Rightarrow> nat \<Rightarrow> data_ptr \<Rightarrow> data_ptr \<Rightarrow> data_ptr \<Rightarrow> data_ptr \<Rightarrow> int \<Rightarrow> int \<Rightarrow> byte_store \<Rightarrow>
   (sim_error + byte_store) option" where
  "loop_aligned2 COPY D src1 src2 dest1 dest2 words words_per_bus h =
     loop_aligned2_from COPY D src1 src2 dest1 dest2 words words_per_bus 0 (words_per_bus - 1) 0 h"

definition aligned_words :: "nat \<Rightarrow> u32 \<Rightarrow> int" where
  "aligned_words D n = uint n div int D"

definition from_hostendian_aligned ::
  "nat \<Rightarrow> conv_txn \<Rightarrow> u32 \<Rightarrow> byte_store \<Rightarrow> (sim_error + byte_store) option" where
  "from_hostendian_aligned D t sizeof_databus h =
     (let words_per_bus = aligned_words D sizeof_databus; words = aligned_words D (get_data_length t)
      in if words_per_bus = 1 then Some (Inr h)
      else if \<not> is_read t then Some (Inr h)
      else case the_context t h of
          Inl e \<Rightarrow> Some (Inl e)
        | Inr tc \<Rightarrow>
            if get_byte_enable_ptr t = Null_ptr
            then loop_aligned2 (copy_d2 D) D (get_data_ptr t) Null_ptr (ec_data_ptr tc) Null_ptr words words_per_bus h
            else loop_aligned2 (copy_dbyb2 D) D (get_data_ptr t) (get_byte_enable_ptr t) (ec_data_ptr tc) Null_ptr
                   words words_per_bus h)"

definition to_hostendian_aligned ::
  "nat \<Rightarrow> conv_txn \<Rightarrow> u32 \<Rightarrow> byte_store \<Rightarrow> (sim_error + (conv_txn \<times> byte_store)) option" where
  "to_hostendian_aligned D t0 sizeof_databus h0 =
     (case establish_context t0 h0 of (c, t, h1) \<Rightarrow>
      let h2 = upd_ctx c (\<lambda>k. k\<lparr>from_f := (Conv_aligned, D), ec_sizeof_databus := sint sizeof_databus\<rparr>) h1;
          words_per_bus = aligned_words D sizeof_databus;
          words = aligned_words D (get_data_length t)
      in if words_per_bus = 1 then Some (Inr (t, h2))
      else
      let original_be = get_byte_enable_ptr t;
          original_data = get_data_ptr t;
          h3 = establish_dbuf (sint (get_data_length t)) c h2;
          t1 = set_data_ptr (Mem_ptr (new_dbuf (ctxs h3 c)) 0) t
      in if original_be = Null_ptr
      then (if is_write t1
            then map_option (\<lambda>r. ebind r (\<lambda>h4. Inr (t1, h4)))
                   (loop_aligned2 (copy_d2 D) D original_data Null_ptr (get_data_ptr t1) Null_ptr words words_per_bus h3)
            else Some (Inr (t1, upd_ctx c (\<lambda>k. k\<lparr>ec_data_ptr := original_data\<rparr>) h3)))
      else
      let h4 = establish_bebuf (sint (get_data_length t)) c h3;
          t2 = set_byte_enable_length (get_data_length t) (set_byte_enable_ptr (Mem_ptr (new_bebuf (ctxs h4 c)) 0) t1)
      in map_option (\<lambda>r. ebind r (\<lambda>h5. Inr (t2, h5)))
           (if is_write t2
            then loop_aligned2 (copy_db2 D) D original_data original_be (get_data_ptr t2) (get_byte_enable_ptr t2)
                   words words_per_bus h4
            else loop_aligned2 (copy_d2 D) D original_be Null_ptr (get_byte_enable_ptr t2) Null_ptr words words_per_bus
                   (upd_ctx c (\<lambda>k. k\<lparr>ec_data_ptr := original_data\<rparr>) h4)))"

section \<open>The conversion of a single data word\<close>

definition from_hostendian_single :: "nat \<Rightarrow> conv_txn \<Rightarrow> u32 \<Rightarrow> byte_store \<Rightarrow> sim_error + byte_store" where
  "from_hostendian_single D t sizeof_databus h = Inr h"

definition to_hostendian_single :: "nat \<Rightarrow> conv_txn \<Rightarrow> u32 \<Rightarrow> byte_store \<Rightarrow> conv_txn \<times> byte_store" where
  "to_hostendian_single D t0 sizeof_databus h0 =
     (case establish_context t0 h0 of (c, t, h1) \<Rightarrow>
      let h2 = upd_ctx c (\<lambda>k. k\<lparr>from_f := (Conv_single, D), ec_sizeof_databus := sint sizeof_databus\<rparr>) h1;
          mask = b_mask sizeof_databus;
          a = get_address t
      in (set_address ((a AND NOT mask) OR (ucast sizeof_databus - (a AND mask) - of_nat D)) t, h2))"

section \<open>The common function for the response\<close>

definition from_hostendian :: "conv_txn \<Rightarrow> byte_store \<Rightarrow> (sim_error + byte_store) option" where
  "from_hostendian t h =
     (case the_context t h of
        Inl e \<Rightarrow> Some (Inl e)
      | Inr tc \<Rightarrow>
          (case from_f tc of
             (Conv_generic, D) \<Rightarrow> Some (from_hostendian_generic D t (of_int (ec_sizeof_databus tc)) h)
           | (Conv_word, D) \<Rightarrow> from_hostendian_word D t (of_int (ec_sizeof_databus tc)) h
           | (Conv_aligned, D) \<Rightarrow> from_hostendian_aligned D t (of_int (ec_sizeof_databus tc)) h
           | (Conv_single, D) \<Rightarrow> Some (from_hostendian_single D t (of_int (ec_sizeof_databus tc)) h)))"

end
