(* ===== verification/Endian_Bytes.thy ===== *)
theory Endian_Bytes
  imports Endian
begin

text \<open>
  What the proofs about the conversions share: a calculus of writes to the byte store, in which a piece of code
  is described by the map from addresses to bytes that it writes, and the arithmetic of the
  byte order, in which all masks and exclusive ors of the code become one function on numbers.
\<close>

section \<open>A calculus of writes\<close>

text \<open>\<open>g\<close> differs from \<open>h\<close> at most in the bytes at \<open>W\<close>, which exist.\<close>

definition like :: "byte_store \<Rightarrow> data_ptr set \<Rightarrow> byte_store \<Rightarrow> bool" where
  "like h W g \<longleftrightarrow> g = h\<lparr>arrays := arrays g\<rparr> \<and> (\<forall>p. p \<notin> W \<longrightarrow> load_byte g p = load_byte h p) \<and>
     (\<forall>p \<in> W. \<exists>v. load_byte g p = Inr v)"

definition written :: "(data_ptr \<rightharpoonup> byte) \<Rightarrow> byte_store \<Rightarrow> byte_store \<Rightarrow> bool" where
  "written w g g' \<longleftrightarrow> g' = g\<lparr>arrays := arrays g'\<rparr> \<and>
     (\<forall>p. load_byte g' p = (case w p of Some v \<Rightarrow> Inr v | None \<Rightarrow> load_byte g p))"

text \<open>Wherever only \<open>W\<close> may have changed since \<open>h\<close>, \<open>f\<close> succeeds and writes \<open>w\<close>.\<close>

definition acts :: "byte_store \<Rightarrow> data_ptr set \<Rightarrow> (byte_store \<Rightarrow> sim_error + byte_store) \<Rightarrow> (data_ptr \<rightharpoonup> byte) \<Rightarrow> bool" where
  "acts h W f w \<longleftrightarrow> dom w \<subseteq> W \<and> (\<forall>g. like h W g \<longrightarrow> (\<exists>g'. f g = Inr g' \<and> written w g g'))"

fun writes_of :: "('k \<Rightarrow> data_ptr \<rightharpoonup> byte) \<Rightarrow> 'k list \<Rightarrow> data_ptr \<rightharpoonup> byte" where
  "writes_of w [] = Map.empty"
| "writes_of w (k # ks) = w k ++ writes_of w ks"

lemma like_refl: "like h W h \<longleftrightarrow> (\<forall>p \<in> W. \<exists>v. load_byte h p = Inr v)"
  by (simp add: like_def)

lemma written_like:
  assumes "like h W g" and "written w g g'" and "dom w \<subseteq> W"
  shows "like h W g'"
proof -
  have g: "g = h\<lparr>arrays := arrays g\<rparr>" and g': "g' = g\<lparr>arrays := arrays g'\<rparr>"
    using assms(1,2) by (simp_all add: like_def written_def)
  have "g' = h\<lparr>arrays := arrays g'\<rparr>"
    by (subst g', subst g) simp
  then show ?thesis
    using assms unfolding like_def written_def by (auto split: option.splits)
qed

lemma written_trans: "written w1 g g1 \<Longrightarrow> written w2 g1 g2 \<Longrightarrow> written (w1 ++ w2) g g2"
proof -
  assume 1: "written w1 g g1" and 2: "written w2 g1 g2"
  have "g1 = g\<lparr>arrays := arrays g1\<rparr>" and g2: "g2 = g1\<lparr>arrays := arrays g2\<rparr>"
    using 1 2 by (simp_all add: written_def)
  then have "g2 = g\<lparr>arrays := arrays g2\<rparr>"
    by (subst g2) (metis byte_store.update_convs(1) byte_store.fold_congs(1) byte_store.surjective)
  then show ?thesis using 1 2 by (auto simp: written_def map_add_def split: option.splits)
qed

lemma acts_result:
  assumes "acts h W f w" and "\<forall>p \<in> W. \<exists>v. load_byte h p = Inr v"
  shows "\<exists>h'. f h = Inr h' \<and> written w h h'"
  using assms by (auto simp: acts_def like_refl)

lemma acts_skip: "acts h W Inr Map.empty"
  by (simp add: acts_def written_def)

lemma acts_seq:
  assumes f: "acts h W f w1" and g: "acts h W g w2"
  shows "acts h W (\<lambda>s. ebind (f s) g) (w1 ++ w2)"
  unfolding acts_def
proof (intro conjI allI impI)
  show "dom (w1 ++ w2) \<subseteq> W" using f g by (auto simp: acts_def)
  fix s assume s: "like h W s"
  then obtain s1 where s1: "f s = Inr s1" "written w1 s s1" using f by (auto simp: acts_def)
  have "like h W s1" using written_like [OF s s1(2)] f by (simp add: acts_def)
  then obtain s2 where "g s1 = Inr s2" "written w2 s1 s2" using g by (auto simp: acts_def)
  then show "\<exists>s'. ebind (f s) g = Inr s' \<and> written (w1 ++ w2) s s'"
    using s1 written_trans by auto
qed

lemma acts_efold:
  assumes "\<And>k. k \<in> set ks \<Longrightarrow> acts h W (f k) (w k)"
  shows "acts h W (efold f ks) (writes_of w ks)"
  using assms
proof (induction ks)
  case Nil
  then show ?case using acts_skip by (simp add: fun_eq_iff [of "efold f []"] acts_def written_def)
next
  case (Cons k ks)
  have "acts h W (\<lambda>s. ebind (f k s) (efold f ks)) (w k ++ writes_of w ks)"
    by (rule acts_seq) (use Cons in simp_all)
  moreover have "efold f (k # ks) = (\<lambda>s. ebind (f k s) (efold f ks))" by (simp add: fun_eq_iff)
  ultimately show ?case by simp
qed

lemma load_store:
  assumes "load_byte g p = Inr v"
  shows "\<exists>g'. store_byte p x g = Inr g' \<and> written [p \<mapsto> x] g g'"
proof -
  obtain b k bs where p: "p = Mem_ptr b k" and bs: "arrays g b = Some bs" "unat k < length bs"
    using assms by (auto simp: load_byte_def split: data_ptr.splits option.splits if_splits)
  let ?g = "g\<lparr>arrays := (arrays g)(b \<mapsto> bs[unat k := x])\<rparr>"
  have "load_byte ?g q = (if q = p then Inr x else load_byte g q)" for q
    using p bs by (auto simp: load_byte_def nth_list_update simp flip: word_unat_eq_iff split: data_ptr.splits option.splits)
  then have "written [p \<mapsto> x] g ?g" by (simp add: written_def)
  moreover have "store_byte p x g = Inr ?g" using p bs by (simp add: store_byte_def)
  ultimately show ?thesis by blast
qed

lemma acts_store:
  assumes "p \<in> W"
  shows "acts h W (store_byte p x) [p \<mapsto> x]"
  using assms load_store by (fastforce simp: acts_def like_def)

lemma acts_load:
  assumes "s \<notin> W" and "load_byte h s = Inr v" and "acts h W (f v) w"
  shows "acts h W (\<lambda>g. ebind (load_byte g s) (\<lambda>x. f x g)) w"
  using assms by (auto simp: acts_def like_def)

lemma acts_copy:
  assumes "d \<in> W" and "s \<notin> W" and "load_byte h s = Inr v"
  shows "acts h W (copy_byte d s) [d \<mapsto> v]"
proof -
  have "copy_byte d s = (\<lambda>g. ebind (load_byte g s) (\<lambda>x. store_byte d x g))"
    by (simp add: copy_byte_def fun_eq_iff)
  then show ?thesis using acts_load [OF assms(2,3), of "store_byte d"] acts_store [OF assms(1)] by simp
qed

lemma acts_cong: "acts h W f w \<Longrightarrow> w = w' \<Longrightarrow> (\<And>g. f g = f' g) \<Longrightarrow> acts h W f' w'"
  by (simp add: acts_def)

lemma writes_of_append: "writes_of w (ks @ ls) = writes_of w ks ++ writes_of w ls"
  by (induction ks) (simp_all add: map_add_assoc)

lemma writes_of_map: "writes_of w (map f ks) = writes_of (\<lambda>k. w (f k)) ks"
  by (induction ks) simp_all

text \<open>Writes to different places do not disturb each other.\<close>

lemma writes_of_disjoint:
  assumes "\<And>k l. k \<in> set ks \<Longrightarrow> l \<in> set ks \<Longrightarrow> k \<noteq> l \<Longrightarrow> dom (w k) \<inter> dom (w l) = {}"
  shows "writes_of w ks p = Some v \<longleftrightarrow> (\<exists>k \<in> set ks. w k p = Some v)"
  using assms
proof (induction ks arbitrary: v)
  case (Cons k ks)
  have IH: "writes_of w ks p = Some u \<longleftrightarrow> (\<exists>l \<in> set ks. w l p = Some u)" for u
    by (rule Cons.IH) (use Cons.prems in auto)
  show ?case
  proof (cases "w k p")
    case None
    then show ?thesis by (auto simp: map_add_Some_iff IH)
  next
    case (Some x)
    have same: "u = x" if "l \<in> set ks" "w l p = Some u" for l u
      using Cons.prems [of k l] Some that by (cases "l = k") auto
    show ?thesis
    proof (cases "writes_of w ks p")
      case None
      with IH Some show ?thesis by (auto simp: map_add_def)
    next
      case (Some u)
      then obtain l where l: "l \<in> set ks" "w l p = Some u" using IH [of u] by auto
      then have "u = x" by (rule same)
      with l \<open>w k p = Some x\<close> Some show ?thesis using IH [of v] by (auto simp: map_add_def)
    qed
  qed
qed simp

section \<open>Reversing the bytes of words\<close>

text \<open>The byte \<open>k\<close> of a row of words of \<open>n\<close> bytes stands, after each word was reversed, at \<open>flip n k\<close>.\<close>

definition flip :: "nat \<Rightarrow> nat \<Rightarrow> nat" where
  "flip n k = k div n * n + (n - 1 - k mod n)"

lemma flip_div: "0 < n \<Longrightarrow> flip n k div n = k div n"
  by (simp add: flip_def)

lemma flip_mod: "0 < n \<Longrightarrow> flip n k mod n = n - 1 - k mod n"
  by (simp add: flip_def)

lemma flip_flip:
  assumes "0 < n"
  shows "flip n (flip n k) = k"
proof -
  have "flip n (flip n k) = k div n * n + (n - 1 - (n - 1 - k mod n))"
    by (simp add: flip_def [of n "flip n k"] flip_div [OF assms] flip_mod [OF assms])
  also have "n - 1 - (n - 1 - k mod n) = k mod n" using mod_less_divisor [OF assms, of k] by simp
  finally show ?thesis by simp
qed

lemma flip_inj: "0 < n \<Longrightarrow> flip n k = flip n l \<longleftrightarrow> k = l"
  by (metis flip_flip)

lemma flip_less:
  assumes "0 < n" "n dvd m" "k < m"
  shows "flip n k < m"
proof -
  obtain c where c: "m = n * c" using assms(2) by blast
  then have "k div n < c" using assms by (simp add: less_mult_imp_div_less mult.commute)
  then have "flip n k div n < c" using assms(1) by (simp add: flip_div)
  then show ?thesis using assms(1) c by (simp add: div_less_iff_less_mult mult.commute)
qed

lemma flip_add: "0 < n \<Longrightarrow> n dvd m \<Longrightarrow> flip n (m + k) = m + flip n k"
  by (auto simp: flip_def dvd_def algebra_simps)

text \<open>The masks of the code.\<close>

lemma xor_mask_less:
  fixes y :: nat
  assumes "y < 2 ^ b"
  shows "y XOR mask b = 2 ^ b - 1 - y"
proof -
  have bits: "bit y n \<Longrightarrow> n < b" for n
    using assms by (metis bit_take_bit_iff take_bit_nat_eq_self)
  have "y AND (y XOR mask b) = 0"
    by (rule bit_eqI) (auto simp: bit_simps dest: bits)
  then have "y + (y XOR mask b) = y OR (y XOR mask b)" by (rule disjunctive_add_eq_or)
  also have "\<dots> = mask b" by (rule bit_eqI) (auto simp: bit_simps dest: bits)
  finally show ?thesis by (simp add: mask_eq_exp_minus_1)
qed

lemma xor_mask_flip: "(x :: nat) XOR mask b = flip (2 ^ b) x"
proof -
  have "x XOR mask b = push_bit b (drop_bit b (x XOR mask b)) + take_bit b (x XOR mask b)"
    by (simp only: bits_ident)
  also have "drop_bit b (x XOR mask b) = drop_bit b x" by (rule bit_eqI) (simp add: bit_simps)
  also have "take_bit b (x XOR mask b) = take_bit b x XOR mask b" by (rule bit_eqI) (auto simp: bit_simps)
  also have "\<dots> = 2 ^ b - 1 - x mod 2 ^ b" by (subst xor_mask_less) (simp_all add: take_bit_eq_mod)
  finally show ?thesis by (simp add: flip_def push_bit_eq_mult drop_bit_eq_div)
qed

lemma unat_xor_mask:
  fixes w :: u64
  assumes "b < 64"
  shows "unat (w XOR (2 ^ b - 1)) = flip (2 ^ b) (unat w)"
proof -
  have "(2 ^ b - 1 :: u64) = mask b" by (simp add: mask_eq_exp_minus_1)
  then have "unat (w XOR (2 ^ b - 1)) = unat w XOR unat (mask b :: u64)" by (simp add: unsigned_xor_eq)
  also have "unat (mask b :: u64) = mask b" by (rule bit_eqI) (use assms in \<open>auto simp: bit_simps\<close>)
  finally show ?thesis by (simp add: xor_mask_flip)
qed

lemma unat_and_not_mask:
  fixes w :: "'a :: len word"
  shows "unat (w AND NOT (mask b)) = unat w div 2 ^ b * 2 ^ b"
proof -
  have "w AND NOT (mask b) = push_bit b (drop_bit b w)"
    by (rule bit_word_eqI) (auto simp: bit_simps)
  then have "unat (w AND NOT (mask b)) = take_bit LENGTH('a) (push_bit b (drop_bit b (unat w)))"
    using take_bit_nat_eq_self [OF unsigned_less [of w]] by (simp add: unsigned_push_bit_eq unsigned_drop_bit_eq)
  also have "push_bit b (drop_bit b (unat w)) = unat w div 2 ^ b * 2 ^ b"
    by (simp add: push_bit_eq_mult drop_bit_eq_div)
  also have "take_bit LENGTH('a) (unat w div 2 ^ b * 2 ^ b) = unat w div 2 ^ b * 2 ^ b"
    by (rule take_bit_nat_eq_self) (metis div_times_less_eq_dividend le_less_trans unsigned_less)
  finally show ?thesis .
qed

lemma and_bus_mask:
  fixes a :: u64
  assumes "unat a < 2 ^ 32" and "b < 32"
  shows "a AND bus_mask (2 ^ b) = a AND NOT (mask b)"
proof (rule bit_word_eqI)
  fix n assume "n < LENGTH(64)"
  have small: "bit a n \<Longrightarrow> n < 32"
  proof -
    assume "bit a n"
    then have "bit (unat a) n" by (simp add: bit_unsigned_iff)
    then show "n < 32" using assms(1) by (metis bit_take_bit_iff take_bit_nat_eq_self)
  qed
  have "(2 ^ b - 1 :: u32) = mask b" by (simp add: mask_eq_exp_minus_1)
  then show "bit (a AND bus_mask (2 ^ b)) n = bit (a AND NOT (mask b)) n"
    using small by (auto simp: bus_mask_def bit_simps)
qed

section \<open>Pointers\<close>

lemma ptr_at_Mem [simp]: "ptr_at (Mem_ptr b k) i = Mem_ptr b (k + of_int i)"
  by (simp add: ptr_at_def ptr_add_def)

lemma ptr_add_Mem [simp]: "ptr_add (Mem_ptr b k) w = Mem_ptr b (k + w)"
  by (simp add: ptr_add_def)

lemma ptr_at_Null [simp]: "ptr_at Null_ptr i = Null_ptr" "ptr_add Null_ptr w = Null_ptr"
  by (simp_all add: ptr_at_def ptr_add_def)

lemma ptr_at_0 [simp]: "ptr_at p 0 = p"
  by (cases p) (simp_all add: ptr_at_def ptr_add_def)

lemma ptr_at_at [simp]: "ptr_at (ptr_at p i) j = ptr_at p (i + j)"
  by (cases p) (simp_all add: ptr_at_def ptr_add_def add.assoc)

lemma ptr_add_nat: "w = of_nat n \<Longrightarrow> ptr_add p w = ptr_at p (int n)"
  by (cases p) (simp_all add: ptr_at_def ptr_add_def)

lemma ptr_at_inj:
  assumes "x < 2 ^ 64" "y < 2 ^ 64"
  shows "ptr_at (Mem_ptr b k) (int x) = ptr_at (Mem_ptr b k) (int y) \<longleftrightarrow> x = y"
proof -
  have "(of_nat x :: u64) = of_nat y \<longleftrightarrow> x = y"
    using assms by (auto simp: word_unat_eq_iff unat_of_nat)
  then show ?thesis by simp
qed

section \<open>Loops with a counter\<close>

lemma ebind_efold_Nil [simp]: "ebind m (efold f []) = m"
  by (cases m) simp_all

lemma counter_efold:
  assumes "\<And>k g. k < length xs \<Longrightarrow> F (xs ! k) (A + of_nat (k * c), g) =
      ebind (G k g) (\<lambda>g'. Inr (A + of_nat (k * c + c), g'))"
  shows "efold F xs (A :: u64, g) = ebind (efold G [0..<length xs] g) (\<lambda>g'. Inr (A + of_nat (length xs * c), g'))"
  using assms
proof (induction xs rule: rev_induct)
  case (snoc x xs)
  have IH: "efold F xs (A, g) = ebind (efold G [0..<length xs] g) (\<lambda>g'. Inr (A + of_nat (length xs * c), g'))"
  proof (rule snoc.IH)
    fix k g assume "k < length xs"
    with snoc.prems [of k g] show "F (xs ! k) (A + of_nat (k * c), g) =
        ebind (G k g) (\<lambda>g'. Inr (A + of_nat (k * c + c), g'))"
      by (simp add: nth_append)
  qed
  have last: "F x (A + of_nat (length xs * c), g') =
      ebind (G (length xs) g') (\<lambda>g''. Inr (A + of_nat (length xs * c + c), g''))" for g'
    using snoc.prems [of "length xs" g'] by simp
  show ?case
    by (cases "efold G [0..<length xs] g") (simp_all add: efold_append IH last add.commute [of c] del: of_nat_mult of_nat_add)
qed simp

lemma upt_blocks: "[0..<Suc j * D] = [0..<j * D] @ map (\<lambda>i. j * D + i) [0..<D]"
proof -
  have "[0..<j * D + D] = [0..<j * D] @ [j * D..<j * D + D]" by (rule upt_add_eq_append) simp
  moreover have "map (\<lambda>i. i + j * D) [0..<D] = [j * D..<D + j * D]" by (rule map_add_upt)
  ultimately show ?thesis by (simp add: add.commute)
qed

lemma writes_of_blocks:
  "writes_of (\<lambda>j. writes_of (\<lambda>i. w (j * D + i)) [0..<D]) [0..<n] = writes_of w [0..<n * D]"
proof (induction n)
  case (Suc n)
  have "writes_of w [0..<Suc n * D] = writes_of w [0..<n * D] ++ writes_of (\<lambda>i. w (n * D + i)) [0..<D]"
    by (simp only: upt_blocks writes_of_append writes_of_map)
  with Suc show ?case by (simp add: writes_of_append)
qed simp

section \<open>The loop of the generic conversion\<close>

definition he_place :: "loop0 \<Rightarrow> nat \<Rightarrow> nat \<Rightarrow> u64" where
  "he_place a m n =
     ((l_orig_start a + of_nat n) XOR of_int (l_sizeof_databus a - 1)) - l_new_start a +
       of_int (int m * l_new_stream_width a)"

definition generic_copy :: "copier \<Rightarrow> loop0 \<Rightarrow> nat \<Rightarrow> nat \<Rightarrow> nat \<Rightarrow> byte_store \<Rightarrow> sim_error + byte_store" where
  "generic_copy COPY a D m n =
     (let k = nat (l_orig_stream_width a) * m + flip D n in
      COPY (ptr_at (l_ie_data a) (int k)) (ptr_at (l_ie_be a) (int (k mod nat (l_be_length a))))
        (ptr_add (l_he_data a) (he_place a m n)) (ptr_add (l_he_be a) (he_place a m n)))"

lemma generic_byte_copy:
  assumes "0 < l_be_length a" and "0 \<le> l_orig_stream_width a" and "i < D"
  shows "generic_byte COPY a (int m * l_new_stream_width a)
      (int m * l_orig_stream_width a + int (j * D) + int D - 1 - int i) (l_orig_start a + of_nat (j * D + i), g) =
    ebind (generic_copy COPY a D m (j * D + i) g) (\<lambda>h. Inr (l_orig_start a + of_nat (j * D + i) + 1, h))"
proof -
  define k where "k = nat (l_orig_stream_width a) * m + flip D (j * D + i)"
  have "flip D (j * D + i) = j * D + (D - 1 - i)" using assms(3) by (simp add: flip_def)
  then have k: "int m * l_orig_stream_width a + int (j * D) + int D - 1 - int i = int k"
    using assms(2,3) by (simp add: k_def algebra_simps of_nat_diff)
  have "rem_by (int k) (l_be_length a) = Inr (int (k mod nat (l_be_length a)))"
    using assms(1) by (simp add: rem_by_def c_rem_nonneg zmod_int)
  then show ?thesis unfolding k generic_byte_def generic_copy_def k_def [symmetric]
    by (simp add: Let_def he_place_def)
qed

lemma generic_sword_copy:
  assumes "0 < l_be_length a" and "l_orig_stream_width a = int sw" and "D dvd sw" and "0 < D"
  shows "generic_sword COPY a D m g =
    efold (\<lambda>j. efold (\<lambda>i. generic_copy COPY a D m (j * D + i)) [0..<D]) [0..<sw div D] g"
proof -
  obtain c where c: "sw = c * D" using assms(3) by (metis dvd_div_mult_self)
  let ?A = "l_orig_start a" and ?NW = "int m * l_new_stream_width a"
  have "(l_orig_stream_width a + int D - 1) div int D = int c"
  proof -
    have "(l_orig_stream_width a + int D - 1) div int D = (int D - 1 + int c * int D) div int D"
      using assms(2) c by (simp add: algebra_simps)
    also have "\<dots> = int c" using assms(4) by (simp add: div_pos_pos_trivial)
    finally show ?thesis .
  qed
  then have n: "nat ((l_orig_stream_width a + int D - 1) div int D) = c" by simp
  let ?xs = "map (\<lambda>i. int m * l_orig_stream_width a + int (i * D)) [0..<c]"
  have dword: "generic_dword COPY a D ?NW (int m * l_orig_stream_width a + int (j * D)) (?A + of_nat (j * D), g) =
      ebind (efold (\<lambda>i. generic_copy COPY a D m (j * D + i)) [0..<D] g) (\<lambda>g'. Inr (?A + of_nat (j * D + D), g'))" for j g
  proof -
    let ?ys = "map (\<lambda>i. int m * l_orig_stream_width a + int (j * D) + int D - 1 - int i) [0..<D]"
    have "efold (generic_byte COPY a ?NW) ?ys (?A + of_nat (j * D), g) =
      ebind (efold (\<lambda>i. generic_copy COPY a D m (j * D + i)) [0..<length ?ys] g)
        (\<lambda>g'. Inr (?A + of_nat (j * D) + of_nat (length ?ys * 1), g'))"
    proof (rule counter_efold)
      fix k g assume "k < length ?ys"
      then have k: "k < D" by simp
      from generic_byte_copy [OF assms(1) _ k, of COPY m j g] assms(2)
      show "generic_byte COPY a ?NW (?ys ! k) (?A + of_nat (j * D) + of_nat (k * 1), g) =
        ebind (generic_copy COPY a D m (j * D + k) g) (\<lambda>g'. Inr (?A + of_nat (j * D) + of_nat (k * 1 + 1), g'))"
        using k by (simp add: algebra_simps)
    qed
    then show ?thesis by (simp add: generic_dword_def algebra_simps)
  qed
  have "efold (generic_dword COPY a D ?NW) ?xs (?A, g) =
    ebind (efold (\<lambda>j. efold (\<lambda>i. generic_copy COPY a D m (j * D + i)) [0..<D]) [0..<length ?xs] g)
      (\<lambda>g'. Inr (?A + of_nat (length ?xs * D), g'))"
    by (rule counter_efold) (use dword in simp)
  moreover have "ebind (ebind r (\<lambda>g'. Inr (z, g'))) (\<lambda>(ie, h1). Inr h1) = r" for r :: "sim_error + byte_store" and z :: u64
    by (cases r) simp_all
  ultimately show ?thesis unfolding generic_sword_def n using c assms(4) by simp
qed

lemma generic_loop:
  assumes "0 < l_be_length a" and "l_orig_stream_width a = int sw" and "D dvd sw" and "0 < D"
    and "l_new_stream_width a = int nsw" "0 < nsw" and "l_new_len a = int (nr * nsw)" "0 < nr"
    and step: "\<And>m n. m < nr \<Longrightarrow> n < sw \<Longrightarrow> acts h W (generic_copy COPY a D m n) (w m n)"
  shows "acts h W (loop_generic0 COPY a D) (writes_of (\<lambda>m. writes_of (w m) [0..<sw]) [0..<nr])"
proof -
  have turns: "nat ((l_new_len a + l_new_stream_width a - 1) div l_new_stream_width a) = nr"
  proof -
    have "(l_new_len a + l_new_stream_width a - 1) div l_new_stream_width a =
        (int nsw - 1 + int nr * int nsw) div int nsw"
      using assms(5,7) by (simp add: algebra_simps)
    also have "\<dots> = int nr" using assms(6) by (simp add: div_pos_pos_trivial)
    finally show ?thesis by simp
  qed
  have one: "acts h W (generic_sword COPY a D m) (writes_of (w m) [0..<sw])" if "m < nr" for m
  proof -
    have "acts h W (efold (\<lambda>j. efold (\<lambda>i. generic_copy COPY a D m (j * D + i)) [0..<D]) [0..<sw div D])
      (writes_of (\<lambda>j. writes_of (\<lambda>i. w m (j * D + i)) [0..<D]) [0..<sw div D])"
    proof (intro acts_efold)
      fix j i assume j: "j \<in> set [0..<sw div D]" and i: "i \<in> set [0..<D]"
      then have "j * D + i < Suc j * D" by simp
      also have "\<dots> \<le> sw div D * D" using j by (intro mult_le_mono1) simp
      also have "\<dots> = sw" using assms(3) by simp
      finally show "acts h W (generic_copy COPY a D m (j * D + i)) (w m (j * D + i))" using that step by simp
    qed
    then show ?thesis
      by (rule acts_cong) (use assms(3) generic_sword_copy [OF assms(1-4)] in \<open>simp_all add: writes_of_blocks\<close>)
  qed
  have "acts h W (efold (generic_sword COPY a D) [0..<nr]) (writes_of (\<lambda>m. writes_of (w m) [0..<sw]) [0..<nr])"
    by (rule acts_efold) (use one in simp)
  moreover have "loop_generic0 COPY a D g = efold (generic_sword COPY a D) [0..<nr] g" for g
  proof -
    have "0 < int (nr * nsw)" using assms(6,8) by simp
    then have "\<not> l_new_len a \<le> 0" "\<not> l_new_stream_width a \<le> 0" using assms(5-7) by linarith+
    then show ?thesis unfolding loop_generic0_def turns by simp
  qed
  ultimately show ?thesis by (auto intro: acts_cong)
qed

end
