(* ===== verification/Endian_Context.thy ===== *)
theory Endian_Context
  imports Endian_Bytes
begin

text \<open>
  The context of a payload and its arrays: a new context, or one from the pool, gets arrays that are long enough and
  nobody else's. What a payload carries to a target, and what the initiator means by it.
\<close>

section \<open>The arrays of a context\<close>

definition ctx_arrays :: "byte_store \<Rightarrow> nat \<Rightarrow> nat set" where
  "ctx_arrays h c =
     (if 0 < dbuf_size (ctxs h c) then {new_dbuf (ctxs h c)} else {}) \<union>
     (if 0 < bebuf_size (ctxs h c) then {new_bebuf (ctxs h c)} else {})"

definition has_array :: "byte_store \<Rightarrow> nat \<Rightarrow> int \<Rightarrow> bool" where
  "has_array h b n \<longleftrightarrow> (\<exists>bs. arrays h b = Some bs \<and> int (length bs) = n)"

definition ctx_ok :: "byte_store \<Rightarrow> nat \<Rightarrow> bool" where
  "ctx_ok h c \<longleftrightarrow> 0 \<le> dbuf_size (ctxs h c) \<and> 0 \<le> bebuf_size (ctxs h c) \<and>
     (0 < dbuf_size (ctxs h c) \<longrightarrow> has_array h (new_dbuf (ctxs h c)) (dbuf_size (ctxs h c))) \<and>
     (0 < bebuf_size (ctxs h c) \<longrightarrow> has_array h (new_bebuf (ctxs h c)) (bebuf_size (ctxs h c))) \<and>
     (0 < dbuf_size (ctxs h c) \<and> 0 < bebuf_size (ctxs h c) \<longrightarrow> new_dbuf (ctxs h c) \<noteq> new_bebuf (ctxs h c))"

definition arrays_ok :: "byte_store \<Rightarrow> bool" where
  "arrays_ok h \<longleftrightarrow> (\<forall>b \<ge> next_array h. arrays h b = None)"

text \<open>The arrays of the initiator: they exist and are not of the context.\<close>

definition others_kept :: "nat \<Rightarrow> byte_store \<Rightarrow> byte_store \<Rightarrow> bool" where
  "others_kept c h h' \<longleftrightarrow> (\<forall>b bs. arrays h b = Some bs \<and> b \<notin> ctx_arrays h c \<longrightarrow>
     arrays h' b = Some bs \<and> b \<notin> ctx_arrays h' c)"

lemma others_kept_trans: "others_kept c h h1 \<Longrightarrow> others_kept c h1 h2 \<Longrightarrow> others_kept c h h2"
  by (auto simp: others_kept_def)

lemma others_kept_refl: "others_kept c h h"
  by (simp add: others_kept_def)

lemma replaced_array:
  assumes "arrays_ok h" and "next_array h' = Suc (next_array h)"
    and arr: "\<And>b. arrays h' b = (if b = next_array h then Some new else if gone \<and> b = old then None else arrays h b)"
  shows "arrays_ok h'"
    and "arrays h b = Some bs \<Longrightarrow> \<not> (gone \<and> b = old) \<Longrightarrow> arrays h' b = Some bs \<and> b \<noteq> next_array h"
proof -
  show "arrays_ok h'" using assms by (auto simp: arrays_ok_def)
  assume b: "arrays h b = Some bs" and "\<not> (gone \<and> b = old)"
  moreover have "b \<noteq> next_array h" using assms(1) b by (auto simp: arrays_ok_def)
  ultimately show "arrays h' b = Some bs \<and> b \<noteq> next_array h" using arr by simp
qed

lemma establish_dbuf_ok:
  assumes ok: "arrays_ok h" "ctx_ok h c" and n: "0 < n" and h': "h' = establish_dbuf n c h"
  shows "arrays_ok h'" "ctx_ok h' c" "others_kept c h h'" "n \<le> dbuf_size (ctxs h' c)"
    and "\<exists>d s. ctxs h' = (ctxs h)(c := (ctxs h c)\<lparr>new_dbuf := d, dbuf_size := s\<rparr>)"
proof -
  let ?k = "ctxs h c"
  have sizes: "0 \<le> dbuf_size ?k" "0 \<le> bebuf_size ?k"
    and da: "0 < dbuf_size ?k \<Longrightarrow> has_array h (new_dbuf ?k) (dbuf_size ?k)"
    and be: "0 < bebuf_size ?k \<Longrightarrow> has_array h (new_bebuf ?k) (bebuf_size ?k)"
    and diff: "0 < dbuf_size ?k \<Longrightarrow> 0 < bebuf_size ?k \<Longrightarrow> new_dbuf ?k \<noteq> new_bebuf ?k"
    using ok(2) unfolding ctx_ok_def by blast+
  have "arrays_ok h' \<and> ctx_ok h' c \<and> others_kept c h h' \<and> n \<le> dbuf_size (ctxs h' c) \<and>
    (\<exists>d s. ctxs h' = (ctxs h)(c := ?k\<lparr>new_dbuf := d, dbuf_size := s\<rparr>))"
  proof (cases "n \<le> dbuf_size ?k")
    case True
    then have "h' = h" using h' by (simp add: establish_dbuf_def)
    moreover have "ctxs h = (ctxs h)(c := ?k\<lparr>new_dbuf := new_dbuf ?k, dbuf_size := dbuf_size ?k\<rparr>)" by simp
    ultimately show ?thesis using ok others_kept_refl True by metis
  next
    case False
    define h1 where "h1 = (if dbuf_size ?k > 0 then delete_array (new_dbuf ?k) h else h)"
    have h1: "ctxs h1 = ctxs h" "next_array h1 = next_array h" "raw h1 = raw h"
      "\<And>b. arrays h1 b = (if 0 < dbuf_size ?k \<and> b = new_dbuf ?k then None else arrays h b)"
      by (auto simp: h1_def delete_array_def)
    have h'1: "h' = upd_ctx c (\<lambda>k. k\<lparr>new_dbuf := next_array h1, dbuf_size := n\<rparr>) (new_array n h1)"
      using h' False by (simp add: establish_dbuf_def h1_def Let_def)
    have ctx: "ctxs h' = (ctxs h)(c := ?k\<lparr>new_dbuf := next_array h, dbuf_size := n\<rparr>)"
      and nxt: "next_array h' = Suc (next_array h)"
      and arr: "\<And>b. arrays h' b = (if b = next_array h then Some (map (raw h (next_array h)) [0..<nat n])
        else if 0 < dbuf_size ?k \<and> b = new_dbuf ?k then None else arrays h b)"
      unfolding h'1 upd_ctx_def new_array_def using h1 by auto
    note keep = replaced_array [OF ok(1) nxt arr]
    have other: "has_array h' (new_bebuf ?k) (bebuf_size ?k) \<and> new_bebuf ?k \<noteq> next_array h" if "0 < bebuf_size ?k"
      using be [OF that] diff [OF _ that] keep(2) unfolding has_array_def by metis
    have "has_array h' (next_array h) n" using n arr by (simp add: has_array_def)
    then have "ctx_ok h' c" using sizes n other by (auto simp: ctx_ok_def ctx)
    moreover have "others_kept c h h'"
      unfolding others_kept_def
    proof (intro allI impI)
      fix b bs assume b: "arrays h b = Some bs \<and> b \<notin> ctx_arrays h c"
      then have "arrays h' b = Some bs \<and> b \<noteq> next_array h" by (intro keep(2)) (auto simp: ctx_arrays_def)
      then show "arrays h' b = Some bs \<and> b \<notin> ctx_arrays h' c" using b n by (auto simp: ctx_arrays_def ctx)
    qed
    ultimately show ?thesis using ctx keep(1) by auto
  qed
  then show "arrays_ok h'" "ctx_ok h' c" "others_kept c h h'" "n \<le> dbuf_size (ctxs h' c)"
    "\<exists>d s. ctxs h' = (ctxs h)(c := ?k\<lparr>new_dbuf := d, dbuf_size := s\<rparr>)" by blast+
qed

lemma establish_bebuf_ok:
  assumes ok: "arrays_ok h" "ctx_ok h c" and n: "0 < n" and h': "h' = establish_bebuf n c h"
  shows "arrays_ok h'" "ctx_ok h' c" "others_kept c h h'" "n \<le> bebuf_size (ctxs h' c)"
    and "\<exists>e s. ctxs h' = (ctxs h)(c := (ctxs h c)\<lparr>new_bebuf := e, bebuf_size := s\<rparr>)"
proof -
  let ?k = "ctxs h c"
  have sizes: "0 \<le> dbuf_size ?k" "0 \<le> bebuf_size ?k"
    and da: "0 < dbuf_size ?k \<Longrightarrow> has_array h (new_dbuf ?k) (dbuf_size ?k)"
    and be: "0 < bebuf_size ?k \<Longrightarrow> has_array h (new_bebuf ?k) (bebuf_size ?k)"
    and diff: "0 < dbuf_size ?k \<Longrightarrow> 0 < bebuf_size ?k \<Longrightarrow> new_dbuf ?k \<noteq> new_bebuf ?k"
    using ok(2) unfolding ctx_ok_def by blast+
  have "arrays_ok h' \<and> ctx_ok h' c \<and> others_kept c h h' \<and> n \<le> bebuf_size (ctxs h' c) \<and>
    (\<exists>e s. ctxs h' = (ctxs h)(c := ?k\<lparr>new_bebuf := e, bebuf_size := s\<rparr>))"
  proof (cases "n \<le> bebuf_size ?k")
    case True
    then have "h' = h" using h' by (simp add: establish_bebuf_def)
    moreover have "ctxs h = (ctxs h)(c := ?k\<lparr>new_bebuf := new_bebuf ?k, bebuf_size := bebuf_size ?k\<rparr>)" by simp
    ultimately show ?thesis using ok others_kept_refl True by metis
  next
    case False
    define h1 where "h1 = (if bebuf_size ?k > 0 then delete_array (new_bebuf ?k) h else h)"
    have h1: "ctxs h1 = ctxs h" "next_array h1 = next_array h" "raw h1 = raw h"
      "\<And>b. arrays h1 b = (if 0 < bebuf_size ?k \<and> b = new_bebuf ?k then None else arrays h b)"
      by (auto simp: h1_def delete_array_def)
    have h'1: "h' = upd_ctx c (\<lambda>k. k\<lparr>new_bebuf := next_array h1, bebuf_size := n\<rparr>) (new_array n h1)"
      using h' False by (simp add: establish_bebuf_def h1_def Let_def)
    have ctx: "ctxs h' = (ctxs h)(c := ?k\<lparr>new_bebuf := next_array h, bebuf_size := n\<rparr>)"
      and nxt: "next_array h' = Suc (next_array h)"
      and arr: "\<And>b. arrays h' b = (if b = next_array h then Some (map (raw h (next_array h)) [0..<nat n])
        else if 0 < bebuf_size ?k \<and> b = new_bebuf ?k then None else arrays h b)"
      unfolding h'1 upd_ctx_def new_array_def using h1 by auto
    note keep = replaced_array [OF ok(1) nxt arr]
    have other: "has_array h' (new_dbuf ?k) (dbuf_size ?k) \<and> new_dbuf ?k \<noteq> next_array h" if "0 < dbuf_size ?k"
      using da [OF that] diff [OF that] keep(2) unfolding has_array_def by metis
    have "has_array h' (next_array h) n" using n arr by (simp add: has_array_def)
    then have "ctx_ok h' c" using sizes n other by (auto simp: ctx_ok_def ctx)
    moreover have "others_kept c h h'"
      unfolding others_kept_def
    proof (intro allI impI)
      fix b bs assume b: "arrays h b = Some bs \<and> b \<notin> ctx_arrays h c"
      then have "arrays h' b = Some bs \<and> b \<noteq> next_array h" by (intro keep(2)) (auto simp: ctx_arrays_def)
      then show "arrays h' b = Some bs \<and> b \<notin> ctx_arrays h' c" using b n by (auto simp: ctx_arrays_def ctx)
    qed
    ultimately show ?thesis using ctx keep(1) by auto
  qed
  then show "arrays_ok h'" "ctx_ok h' c" "others_kept c h h'" "n \<le> bebuf_size (ctxs h' c)"
    "\<exists>e s. ctxs h' = (ctxs h)(c := ?k\<lparr>new_bebuf := e, bebuf_size := s\<rparr>)" by blast+
qed

text \<open>Both arrays, and the bytes of them that a conversion may write.\<close>

definition he_range :: "nat \<Rightarrow> nat \<Rightarrow> nat \<Rightarrow> data_ptr set" where
  "he_range d e n = {p. \<exists>x < n. p = Mem_ptr d (of_nat x) \<or> p = Mem_ptr e (of_nat x)}"

definition only_arrays :: "nat \<Rightarrow> nat \<Rightarrow> endian_context \<Rightarrow> endian_context \<Rightarrow> bool" where
  "only_arrays d e k k' \<longleftrightarrow> (\<exists>s s'. k' = k\<lparr>new_dbuf := d, dbuf_size := s, new_bebuf := e, bebuf_size := s'\<rparr>)"

lemma load_in_array:
  assumes "has_array h b m" and "int n \<le> m" and "x < n" and "n \<le> 2 ^ 64"
  shows "\<exists>v. load_byte h (Mem_ptr b (of_nat x)) = Inr v"
proof -
  obtain bs where bs: "arrays h b = Some bs" "n \<le> length bs" using assms(1,2) by (auto simp: has_array_def)
  have "unat (of_nat x :: u64) = x" using assms(3,4) by (simp add: unat_of_nat)
  then show ?thesis using bs assms(3) by (simp add: load_byte_def)
qed

lemma arrays_ready:
  assumes ok: "arrays_ok h" "ctx_ok h c" and n: "0 < n" "n \<le> 2 ^ 64"
    and h1: "h1 = establish_dbuf (int n) c h" and h2: "h2 = establish_bebuf (int n) c h1"
    and d: "d = new_dbuf (ctxs h1 c)" and e: "e = new_bebuf (ctxs h2 c)"
  shows "d \<noteq> e" "\<forall>p \<in> he_range d e n. \<exists>v. load_byte h2 p = Inr v" "others_kept c h h2"
    "ctx_arrays h2 c = {d, e}" "arrays_ok h2" "ctx_ok h2 c"
    and "only_arrays d e (ctxs h c) (ctxs h2 c)" "\<And>c'. c' \<noteq> c \<Longrightarrow> ctxs h2 c' = ctxs h c'"
proof -
  have pos: "0 < int n" using n by simp
  note one = establish_dbuf_ok [OF ok pos h1]
  note two = establish_bebuf_ok [OF one(1,2) pos h2]
  obtain d' s where c1: "ctxs h1 = (ctxs h)(c := (ctxs h c)\<lparr>new_dbuf := d', dbuf_size := s\<rparr>)"
    using one(5) by blast
  obtain e' s' where c2: "ctxs h2 = (ctxs h1)(c := (ctxs h1 c)\<lparr>new_bebuf := e', bebuf_size := s'\<rparr>)"
    using two(5) by blast
  have de: "d = d'" "e = e'" using d e c1 c2 by simp_all
  have s: "int n \<le> s" "int n \<le> s'" using one(4) two(4) c1 c2 by simp_all
  have f: "new_dbuf (ctxs h2 c) = d" "new_bebuf (ctxs h2 c) = e" "dbuf_size (ctxs h2 c) = s" "bebuf_size (ctxs h2 c) = s'"
    using c1 c2 de by simp_all
  have pos2: "0 < s" "0 < s'" using s pos by simp_all
  have ar: "has_array h2 d s" "has_array h2 e s'" "d \<noteq> e"
    using two(2) f pos2 by (simp_all add: ctx_ok_def)
  show "d \<noteq> e" by (rule ar)
  show "\<forall>p \<in> he_range d e n. \<exists>v. load_byte h2 p = Inr v"
    using load_in_array [OF ar(1) s(1) _ n(2)] load_in_array [OF ar(2) s(2) _ n(2)] by (auto simp: he_range_def)
  show "others_kept c h h2" using one(3) two(3) by (rule others_kept_trans)
  show "ctx_arrays h2 c = {d, e}" using f pos2 by (auto simp: ctx_arrays_def)
  show "arrays_ok h2" "ctx_ok h2 c" by (rule two)+
  show "only_arrays d e (ctxs h c) (ctxs h2 c)"
    unfolding only_arrays_def c2 c1 de by (intro exI [of _ s] exI [of _ s']) simp
  show "ctxs h2 c' = ctxs h c'" if "c' \<noteq> c" for c' using c1 c2 that by simp
qed

section \<open>Where a conversion starts\<close>

definition ctx_of :: "conv_txn \<Rightarrow> byte_store \<Rightarrow> nat option" where
  "ctx_of t h = (case gp_context t of Some c \<Rightarrow> Some c | None \<Rightarrow> ctx_first h)"

definition own_arrays :: "conv_txn \<Rightarrow> byte_store \<Rightarrow> nat set" where
  "own_arrays t h = (case ctx_of t h of Some c \<Rightarrow> ctx_arrays h c | None \<Rightarrow> {})"

definition store_fit :: "conv_txn \<Rightarrow> byte_store \<Rightarrow> bool" where
  "store_fit t h \<longleftrightarrow> arrays_ok h \<and> (case ctx_of t h of Some c \<Rightarrow> ctx_ok h c | None \<Rightarrow> True)"

lemma establish_context_ok:
  assumes "establish_context t h = (c, t1, h1)" and "store_fit t h"
  shows "t1 = t\<lparr>gp_context := Some c\<rparr>" "arrays h1 = arrays h" "arrays_ok h1" "ctx_ok h1 c"
    "ctx_arrays h1 c = own_arrays t h"
  using assms
  by (auto simp: establish_context_def ctx_pop_def store_fit_def ctx_of_def own_arrays_def arrays_ok_def ctx_ok_def
      ctx_arrays_def has_array_def split: option.splits)

lemma upd_ctx_keeps:
  assumes "\<And>k. new_dbuf (f k) = new_dbuf k" "\<And>k. new_bebuf (f k) = new_bebuf k"
    "\<And>k. dbuf_size (f k) = dbuf_size k" "\<And>k. bebuf_size (f k) = bebuf_size k"
  shows "ctx_ok (upd_ctx c f h) c = ctx_ok h c" "ctx_arrays (upd_ctx c f h) c = ctx_arrays h c"
    "arrays_ok (upd_ctx c f h) = arrays_ok h" "arrays (upd_ctx c f h) = arrays h"
    "load_byte (upd_ctx c f h) p = load_byte h p" "ctxs (upd_ctx c f h) c = f (ctxs h c)"
  using assms by (simp_all add: upd_ctx_def ctx_ok_def ctx_arrays_def arrays_ok_def has_array_def load_byte_def
      split: data_ptr.split)

text \<open>A pointer of the initiator: not into an array of the context, with \<open>n\<close> bytes to read.\<close>

definition user_ptr :: "nat set \<Rightarrow> byte_store \<Rightarrow> data_ptr \<Rightarrow> nat \<Rightarrow> bool" where
  "user_ptr A h p n \<longleftrightarrow> (\<exists>b k. p = Mem_ptr b k \<and> b \<notin> A) \<and> (\<forall>k < n. \<exists>v. load_byte h (ptr_at p (int k)) = Inr v)"

lemma user_ptr_kept:
  assumes "user_ptr (ctx_arrays h c) h p n" and "others_kept c h h'" and "k < n"
  shows "load_byte h' (ptr_at p (int k)) = load_byte h (ptr_at p (int k))"
    and "ctx_arrays h' c = {d, e} \<Longrightarrow> ptr_at p (int k) \<notin> he_range d e m"
proof -
  obtain b j where p: "p = Mem_ptr b j" "b \<notin> ctx_arrays h c" using assms(1) by (auto simp: user_ptr_def)
  obtain v where v: "load_byte h (ptr_at p (int k)) = Inr v" using assms(1,3) by (auto simp: user_ptr_def)
  then obtain bs where bs: "arrays h b = Some bs" using p by (auto simp: load_byte_def split: option.splits)
  then have h': "arrays h' b = Some bs" "b \<notin> ctx_arrays h' c" using assms(2) p(2) by (auto simp: others_kept_def)
  then show "load_byte h' (ptr_at p (int k)) = load_byte h (ptr_at p (int k))"
    using p(1) bs by (simp add: load_byte_def)
  show "ptr_at p (int k) \<notin> he_range d e m" if "ctx_arrays h' c = {d, e}"
    using h'(2) that p(1) by (auto simp: he_range_def)
qed

section \<open>What a payload carries\<close>

text \<open>Byte \<open>x\<close> of a payload, and whether it is enabled; a byte enable array that is short is repeated.\<close>

definition payload_enabled :: "conv_txn \<Rightarrow> byte_store \<Rightarrow> nat \<Rightarrow> bool" where
  "payload_enabled t h x \<longleftrightarrow>
     gp_byte_enable t = Null_ptr \<or>
     (case load_byte h (ptr_at (gp_byte_enable t) (int (x mod unat (gp_byte_enable_length t)))) of
        Inr b \<Rightarrow> b \<noteq> TLM_BYTE_DISABLED | Inl e \<Rightarrow> False)"

definition payload_byte :: "conv_txn \<Rightarrow> byte_store \<Rightarrow> nat \<Rightarrow> byte option" where
  "payload_byte t h x = (case load_byte h (ptr_at (gp_data t) (int x)) of Inr b \<Rightarrow> Some b | Inl e \<Rightarrow> None)"

text \<open>What a target is given for the address \<open>a\<close> of the host.\<close>

definition carries :: "conv_txn \<Rightarrow> byte_store \<Rightarrow> u64 \<Rightarrow> byte option" where
  "carries t h a =
     (let x = unat (a - gp_address t)
      in if x < unat (gp_length t) \<and> payload_enabled t h x then payload_byte t h x else None)"

text \<open>
  The byte of the payload of an initiator that stands for the host address \<open>a\<close>: on a bus of \<open>B\<close> bytes the two
  number the bytes of a bus word in opposite orders, and the bytes of each data word of the initiator are in the order of the host.
\<close>

definition initiator_index :: "nat \<Rightarrow> nat \<Rightarrow> conv_txn \<Rightarrow> u64 \<Rightarrow> nat option" where
  "initiator_index D B t a =
     (let y = flip B (unat a); A = unat (gp_address t)
      in if A \<le> y \<and> y < A + unat (gp_length t) then Some (flip D (y - A)) else None)"

definition initiator_carries :: "nat \<Rightarrow> nat \<Rightarrow> conv_txn \<Rightarrow> byte_store \<Rightarrow> u64 \<Rightarrow> byte option" where
  "initiator_carries D B t h a =
     (case initiator_index D B t a of
        Some k \<Rightarrow> if payload_enabled t h k then payload_byte t h k else None
      | None \<Rightarrow> None)"

end
