(* ===== verification/Endian_Generic.thy ===== *)
theory Endian_Generic
  imports Endian_Context
begin

text \<open>
  The request side of the conversions: the layout that each of them gives the new payload, first for the
  generic conversion. A layout says which byte of the initiator stands at each place of the new arrays.
\<close>

section \<open>Inputs and layouts\<close>

text \<open>
  What the header asks of a payload, for a bus of \<open>2^b\<close> bytes and a data word of \<open>D\<close>: whole data words, no
  streaming, arrays that exist. The lengths fit an \<open>int\<close>.
\<close>

definition conv_input :: "nat \<Rightarrow> nat \<Rightarrow> conv_txn \<Rightarrow> byte_store \<Rightarrow> bool" where
  "conv_input D b t h \<longleftrightarrow>
     b < 30 \<and> 0 < D \<and> D dvd unat (gp_length t) \<and> 0 < unat (gp_length t) \<and> unat (gp_length t) + 2 * 2 ^ b < 2 ^ 31 \<and>
     unat (gp_length t) \<le> unat (gp_streaming_width t) \<and> unat (gp_streaming_width t) < 2 ^ 31 \<and>
     unat (gp_address t) + unat (gp_length t) + 2 ^ b \<le> 2 ^ 64 \<and>
     (gp_command t = TLM_READ_COMMAND \<or> gp_command t = TLM_WRITE_COMMAND) \<and>
     store_fit t h \<and> user_ptr (own_arrays t h) h (gp_data t) (unat (gp_length t)) \<and>
     (gp_byte_enable t \<noteq> Null_ptr \<longrightarrow> 0 < unat (gp_byte_enable_length t) \<and> unat (gp_byte_enable_length t) < 2 ^ 31 \<and>
        user_ptr (own_arrays t h) h (gp_byte_enable t) (unat (gp_byte_enable_length t)))"

definition data_value :: "conv_txn \<Rightarrow> byte_store \<Rightarrow> nat \<Rightarrow> byte" where
  "data_value t h k = projr (load_byte h (ptr_at (gp_data t) (int k)))"

definition be_value :: "conv_txn \<Rightarrow> byte_store \<Rightarrow> nat \<Rightarrow> byte" where
  "be_value t h k =
     (if gp_byte_enable t = Null_ptr then TLM_BYTE_ENABLED
      else projr (load_byte h (ptr_at (gp_byte_enable t) (int (k mod unat (gp_byte_enable_length t))))))"

definition layout :: "(nat \<Rightarrow> nat option) \<Rightarrow> conv_txn \<Rightarrow> byte_store \<Rightarrow> nat \<Rightarrow> nat \<Rightarrow> nat \<Rightarrow> byte_store \<Rightarrow> bool" where
  "layout src t h d e n h' \<longleftrightarrow>
     (\<forall>x < n. load_byte h' (Mem_ptr e (of_nat x)) =
          Inr (case src x of Some k \<Rightarrow> be_value t h k | None \<Rightarrow> TLM_BYTE_DISABLED) \<and>
        (\<forall>k. gp_command t = TLM_WRITE_COMMAND \<and> src x = Some k \<longrightarrow>
           load_byte h' (Mem_ptr d (of_nat x)) = Inr (data_value t h k)))"

lemma data_value_load:
  assumes "conv_input D b t h" and "k < unat (gp_length t)"
  shows "load_byte h (ptr_at (gp_data t) (int k)) = Inr (data_value t h k)"
  using assms by (auto simp: conv_input_def user_ptr_def data_value_def)

lemma be_value_load:
  assumes "conv_input D b t h" and "gp_byte_enable t \<noteq> Null_ptr"
  shows "load_byte h (ptr_at (gp_byte_enable t) (int (k mod unat (gp_byte_enable_length t)))) = Inr (be_value t h k)"
proof -
  have "k mod unat (gp_byte_enable_length t) < unat (gp_byte_enable_length t)"
    using assms by (simp add: conv_input_def)
  then have "\<exists>v. load_byte h (ptr_at (gp_byte_enable t) (int (k mod unat (gp_byte_enable_length t)))) = Inr v"
    using assms by (auto simp: conv_input_def user_ptr_def)
  then show ?thesis using assms(2) by (auto simp: be_value_def)
qed

lemma enabled_be_value: "conv_input D b t h \<Longrightarrow> payload_enabled t h k \<longleftrightarrow> be_value t h k \<noteq> TLM_BYTE_DISABLED"
  using be_value_load [of D b t h k]
  by (auto simp: payload_enabled_def be_value_def TLM_BYTE_ENABLED_def TLM_BYTE_DISABLED_def split: sum.splits)

lemma initiator_index_less:
  assumes "conv_input D b t h" and "initiator_index D B t a = Some k"
  shows "k < unat (gp_length t)"
proof -
  have "flip D m < unat (gp_length t)" if "m < unat (gp_length t)" for m
    using flip_less [of D "unat (gp_length t)" m] assms(1) that by (simp add: conv_input_def)
  then show ?thesis using assms(2) by (auto simp: initiator_index_def Let_def split: if_splits)
qed

text \<open>A payload with this layout carries what the initiator means.\<close>

lemma layout_carries:
  assumes input: "conv_input D b t h" and wr: "gp_command t = TLM_WRITE_COMMAND"
    and lay: "layout (\<lambda>x. initiator_index D B t (gp_address t' + of_nat x)) t h d e n h'"
    and t': "gp_data t' = Mem_ptr d 0" "gp_byte_enable t' = Mem_ptr e 0" "unat (gp_length t') = n"
      "unat (gp_byte_enable_length t') = n"
    and inside: "\<And>a k. initiator_index D B t a = Some k \<Longrightarrow> unat (a - gp_address t') < n"
  shows "carries t' h' a = initiator_carries D B t h a"
proof (cases "unat (a - gp_address t') < n")
  case False
  then have "initiator_index D B t a = None" using inside by (metis not_None_eq)
  with False show ?thesis by (simp add: carries_def initiator_carries_def t' Let_def)
next
  case True
  define x where "x = unat (a - gp_address t')"
  have a: "gp_address t' + of_nat x = a" by (simp add: x_def)
  have x: "x < n" using True by (simp add: x_def)
  have be: "load_byte h' (Mem_ptr e (of_nat x)) =
      Inr (case initiator_index D B t a of Some k \<Rightarrow> be_value t h k | None \<Rightarrow> TLM_BYTE_DISABLED)"
    using lay x a by (simp add: layout_def)
  then have en: "payload_enabled t' h' x \<longleftrightarrow>
      (case initiator_index D B t a of Some k \<Rightarrow> payload_enabled t h k | None \<Rightarrow> False)"
    unfolding payload_enabled_def t' using x enabled_be_value [OF input]
    by (auto simp: payload_enabled_def split: option.split)
  show ?thesis
  proof (cases "initiator_index D B t a")
    case None
    then show ?thesis using en by (simp add: carries_def initiator_carries_def Let_def x_def [symmetric])
  next
    case (Some k)
    then have "load_byte h' (Mem_ptr d (of_nat x)) = Inr (data_value t h k)"
      using lay x a wr by (simp add: layout_def)
    then have "payload_byte t' h' x = Some (data_value t h k)" by (simp add: payload_byte_def t')
    moreover have "payload_byte t h k = Some (data_value t h k)"
      using data_value_load [OF input initiator_index_less [OF input Some]] by (simp add: payload_byte_def)
    ultimately show ?thesis
      using en Some x t' by (simp add: carries_def initiator_carries_def Let_def x_def [symmetric])
  qed
qed

section \<open>Copiers of the request\<close>

definition request_writes :: "conv_txn \<Rightarrow> byte_store \<Rightarrow> nat \<Rightarrow> nat \<Rightarrow> nat \<Rightarrow> nat \<Rightarrow> data_ptr \<rightharpoonup> byte" where
  "request_writes t h d e k x =
     (if gp_command t = TLM_WRITE_COMMAND then [Mem_ptr d (of_nat x) \<mapsto> data_value t h k] else Map.empty) ++
     [Mem_ptr e (of_nat x) \<mapsto> be_value t h k]"

lemma dom_request_writes:
  "p \<in> dom (request_writes t h d e k x) \<Longrightarrow> p = Mem_ptr d (of_nat x) \<or> p = Mem_ptr e (of_nat x)"
  by (auto simp: request_writes_def split: if_splits)

definition copier0 :: "conv_txn \<Rightarrow> copier" where
  "copier0 t =
     (if is_write t then (if gp_byte_enable t = Null_ptr then copy_dbtrue0 else copy_db0)
      else (if gp_byte_enable t = Null_ptr then copy_btrue0 else copy_b0))"

text \<open>
  \<open>ready t h d e n g\<close>: the arrays \<open>d\<close> and \<open>e\<close> of the context have \<open>n\<close> bytes, and the initiator's are as in \<open>h\<close>.
\<close>

definition ready :: "conv_txn \<Rightarrow> byte_store \<Rightarrow> nat \<Rightarrow> nat \<Rightarrow> nat \<Rightarrow> byte_store \<Rightarrow> bool" where
  "ready t h d e n g \<longleftrightarrow> d \<noteq> e \<and> n < 2 ^ 31 \<and> (\<forall>p \<in> he_range d e n. \<exists>v. load_byte g p = Inr v) \<and>
     (\<forall>k < unat (gp_length t). load_byte g (ptr_at (gp_data t) (int k)) = Inr (data_value t h k) \<and>
        ptr_at (gp_data t) (int k) \<notin> he_range d e n) \<and>
     (gp_byte_enable t \<noteq> Null_ptr \<longrightarrow> (\<forall>k. let p = ptr_at (gp_byte_enable t) (int (k mod unat (gp_byte_enable_length t)))
        in load_byte g p = Inr (be_value t h k) \<and> p \<notin> he_range d e n))"

lemma copier0_acts:
  assumes "ready t h d e n g" and "k < unat (gp_length t)" and "x < n"
    and "gp_byte_enable t \<noteq> Null_ptr \<Longrightarrow> q = int (k mod unat (gp_byte_enable_length t))"
  shows "acts g (he_range d e n) (copier0 t (ptr_at (gp_data t) (int k)) (ptr_at (gp_byte_enable t) q)
    (Mem_ptr d (of_nat x)) (Mem_ptr e (of_nat x))) (request_writes t h d e k x)"
proof -
  let ?W = "he_range d e n" and ?s1 = "ptr_at (gp_data t) (int k)" and ?s2 = "ptr_at (gp_byte_enable t) q"
  let ?d1 = "Mem_ptr d (of_nat x)" and ?d2 = "Mem_ptr e (of_nat x)"
  have W: "?d1 \<in> ?W" "?d2 \<in> ?W" using assms(3) by (auto simp: he_range_def)
  have s1: "load_byte g ?s1 = Inr (data_value t h k)" "?s1 \<notin> ?W"
    using assms(1,2) by (auto simp: ready_def)
  have s2: "load_byte g ?s2 = Inr (be_value t h k)" "?s2 \<notin> ?W" if "gp_byte_enable t \<noteq> Null_ptr"
    using assms(1,4) that by (auto simp: ready_def Let_def)
  have data: "acts g ?W (copy_byte ?d1 ?s1) [?d1 \<mapsto> data_value t h k]" by (rule acts_copy) (use W s1 in simp_all)
  have be: "acts g ?W (if gp_byte_enable t = Null_ptr then store_byte ?d2 TLM_BYTE_ENABLED else copy_byte ?d2 ?s2)
      [?d2 \<mapsto> be_value t h k]"
    using acts_store [OF W(2)] acts_copy [OF W(2) s2(2,1)] by (auto simp: be_value_def)
  show ?thesis
  proof (cases "gp_command t = TLM_WRITE_COMMAND")
    case True
    show ?thesis
      by (rule acts_cong [OF acts_seq [OF data be]])
        (use True in \<open>auto simp: request_writes_def copier0_def is_write_def copy_dbtrue0_def copy_db0_def\<close>)
  next
    case False
    show ?thesis
      by (rule acts_cong [OF be]) (use False in \<open>auto simp: request_writes_def copier0_def is_write_def copy_btrue0_def copy_b0_def\<close>)
  qed
qed

lemma request_writes_at:
  assumes "d \<noteq> e" and "x < 2 ^ 31" and "y < 2 ^ 31"
  shows "request_writes t h d e k x (Mem_ptr e (of_nat y)) = Some v \<longleftrightarrow> x = y \<and> v = be_value t h k"
    and "request_writes t h d e k x (Mem_ptr d (of_nat y)) = Some v \<longleftrightarrow>
      gp_command t = TLM_WRITE_COMMAND \<and> x = y \<and> v = data_value t h k"
proof -
  have "(of_nat x :: u64) = of_nat y \<longleftrightarrow> x = y" using assms(2,3) by (auto simp: word_unat_eq_iff unat_of_nat)
  then show "request_writes t h d e k x (Mem_ptr e (of_nat y)) = Some v \<longleftrightarrow> x = y \<and> v = be_value t h k"
    "request_writes t h d e k x (Mem_ptr d (of_nat y)) = Some v \<longleftrightarrow>
      gp_command t = TLM_WRITE_COMMAND \<and> x = y \<and> v = data_value t h k"
    using assms(1) by (auto simp: request_writes_def)
qed

lemma request_writes_disjoint:
  assumes "d \<noteq> e" and "x < 2 ^ 31" and "y < 2 ^ 31" and "x \<noteq> y"
  shows "dom (request_writes t h d e k x) \<inter> dom (request_writes t h d e l y) = {}"
proof -
  have "(of_nat x :: u64) \<noteq> of_nat y" using assms(2-4) by (auto simp: word_unat_eq_iff unat_of_nat)
  then show ?thesis using assms(1) by (auto dest!: dom_request_writes)
qed

lemma memset_acts:
  "acts g (he_range d e n) (memset (Mem_ptr e 0) v (int n)) (writes_of (\<lambda>x. [Mem_ptr e (of_nat x) \<mapsto> v]) [0..<n])"
proof -
  have "acts g (he_range d e n) (efold (\<lambda>i. store_byte (ptr_at (Mem_ptr e 0) (int i)) v) [0..<n])
      (writes_of (\<lambda>x. [Mem_ptr e (of_nat x) \<mapsto> v]) [0..<n])"
  proof (rule acts_efold)
    fix k assume "k \<in> set [0..<n]"
    then have "Mem_ptr e (of_nat k) \<in> he_range d e n" by (auto simp: he_range_def)
    from acts_store [OF this]
    show "acts g (he_range d e n) (store_byte (ptr_at (Mem_ptr e 0) (int k)) v) [Mem_ptr e (of_nat k) \<mapsto> v]" by simp
  qed
  then show ?thesis by (rule acts_cong) (simp_all add: memset_def)
qed

text \<open>Byte enables are cleared first, then the bytes \<open>kf m\<close> of the initiator are put at \<open>xf m\<close>.\<close>

lemma layout_of_writes:
  assumes w: "written (writes_of (\<lambda>x. [Mem_ptr e (of_nat x) \<mapsto> TLM_BYTE_DISABLED]) [0..<n] ++
      writes_of (\<lambda>m. request_writes t h d e (kf m) (xf m)) [0..<len]) g g'"
    and small: "d \<noteq> e" "n < 2 ^ 31"
    and inj: "\<And>m l. m < len \<Longrightarrow> l < len \<Longrightarrow> xf m = xf l \<Longrightarrow> m = l"
    and xf: "\<And>m. m < len \<Longrightarrow> xf m < n \<and> src (xf m) = Some (kf m)"
    and src: "\<And>x k. x < n \<Longrightarrow> src x = Some k \<Longrightarrow> \<exists>m < len. xf m = x"
  shows "layout src t h d e n g'"
proof -
  let ?w1 = "writes_of (\<lambda>x. [Mem_ptr e (of_nat x :: u64) \<mapsto> TLM_BYTE_DISABLED]) [0..<n]"
  let ?w2 = "writes_of (\<lambda>m. request_writes t h d e (kf m) (xf m)) [0..<len]"
  have dis: "dom (request_writes t h d e (kf m) (xf m)) \<inter> dom (request_writes t h d e (kf l) (xf l)) = {}"
    if "m \<in> set [0..<len]" "l \<in> set [0..<len]" "m \<noteq> l" for m l
    by (rule request_writes_disjoint [OF small(1)])
      (use xf [of m] xf [of l] inj [of m l] that small(2) in \<open>auto intro: less_trans\<close>)
  have w2: "?w2 p = Some v \<longleftrightarrow> (\<exists>m \<in> set [0..<len]. request_writes t h d e (kf m) (xf m) p = Some v)" for p v
    by (rule writes_of_disjoint) (rule dis)
  have e2: "?w2 (Mem_ptr e (of_nat x)) = Some v \<longleftrightarrow> (\<exists>m < len. xf m = x \<and> v = be_value t h (kf m))" if "x < n" for x v
  proof -
    have "request_writes t h d e (kf m) (xf m) (Mem_ptr e (of_nat x)) = Some v \<longleftrightarrow> xf m = x \<and> v = be_value t h (kf m)"
      if "m < len" for m
      by (rule request_writes_at [OF small(1)]) (use xf [OF that] \<open>x < n\<close> small(2) in simp_all)
    then show ?thesis unfolding w2 by auto
  qed
  have d2: "?w2 (Mem_ptr d (of_nat x)) = Some v \<longleftrightarrow>
    gp_command t = TLM_WRITE_COMMAND \<and> (\<exists>m < len. xf m = x \<and> v = data_value t h (kf m))" if "x < n" for x v
  proof -
    have "request_writes t h d e (kf m) (xf m) (Mem_ptr d (of_nat x)) = Some v \<longleftrightarrow>
        gp_command t = TLM_WRITE_COMMAND \<and> xf m = x \<and> v = data_value t h (kf m)"
      if "m < len" for m
      by (rule request_writes_at [OF small(1)]) (use xf [OF that] \<open>x < n\<close> small(2) in simp_all)
    then show ?thesis unfolding w2 by auto
  qed
  have w1: "?w1 (Mem_ptr e (of_nat x)) = Some TLM_BYTE_DISABLED" if "x < n" for x
  proof -
    have "?w1 p = Some v \<longleftrightarrow> (\<exists>x \<in> set [0..<n]. [Mem_ptr e (of_nat x :: u64) \<mapsto> TLM_BYTE_DISABLED] p = Some v)" for p v
      by (rule writes_of_disjoint) (use small(2) in \<open>auto simp: word_unat_eq_iff unat_of_nat\<close>)
    then show ?thesis using that by auto
  qed
  have load: "load_byte g' p = (case (?w1 ++ ?w2) p of Some v \<Rightarrow> Inr v | None \<Rightarrow> load_byte g p)" for p
    using w unfolding written_def by blast
  show ?thesis
    unfolding layout_def
  proof (intro allI impI conjI)
    fix x assume x: "x < n"
    show "load_byte g' (Mem_ptr e (of_nat x)) = Inr (case src x of Some k \<Rightarrow> be_value t h k | None \<Rightarrow> TLM_BYTE_DISABLED)"
    proof (cases "src x")
      case None
      then have "?w2 (Mem_ptr e (of_nat x)) = None" using e2 [OF x] xf by (metis not_None_eq option.distinct(1))
      then show ?thesis using load w1 [OF x] None by (simp add: map_add_def)
    next
      case (Some k)
      then obtain m where m: "m < len" "xf m = x" using src x by blast
      then have "kf m = k" using xf [OF m(1)] Some by simp
      then have "?w2 (Mem_ptr e (of_nat x)) = Some (be_value t h k)" using e2 [OF x] m by blast
      then show ?thesis using load Some by (simp add: map_add_def)
    qed
  next
    fix x k assume x: "x < n" and k: "gp_command t = TLM_WRITE_COMMAND \<and> src x = Some k"
    then obtain m where m: "m < len" "xf m = x" using src by blast
    then have "kf m = k" using xf [OF m(1)] k by simp
    then have "?w2 (Mem_ptr d (of_nat x)) = Some (data_value t h k)" using d2 [OF x] m k by blast
    then show "load_byte g' (Mem_ptr d (of_nat x)) = Inr (data_value t h k)" using load by (simp add: map_add_def)
  qed
qed

section \<open>Numbers of the conversions\<close>

lemma sint_u32:
  fixes w :: u32
  assumes "unat w < 2 ^ 31"
  shows "sint w = int (unat w)"
proof -
  have u: "uint w = int (unat w)" by simp
  have "int (unat w) < int (2 ^ 31)" using assms by (simp only: of_nat_less_iff)
  then have "signed_take_bit 31 (int (unat w)) = int (unat w)"
    by (intro signed_take_bit_int_eq_self) (simp_all del: of_nat_unat)
  moreover have "sint w = signed_take_bit 31 (uint w)" by (simp add: sint_uint del: of_nat_unat)
  ultimately show ?thesis by (simp only: u)
qed

lemma unat_exp: "b < LENGTH('a) \<Longrightarrow> unat (2 ^ b :: 'a :: len word) = 2 ^ b"
  using unat_of_nat [of "2 ^ b", where 'a = 'a] by simp

text \<open>The new address, and the place that byte \<open>m\<close> (in order of the initiator's addresses) has behind it.\<close>

definition bus_base :: "nat \<Rightarrow> nat \<Rightarrow> nat" where "bus_base B A = A div B * B"
definition place :: "nat \<Rightarrow> nat \<Rightarrow> nat \<Rightarrow> nat" where "place B A m = flip B (A + m) - bus_base B A"

definition bus_span :: "nat \<Rightarrow> nat \<Rightarrow> nat \<Rightarrow> nat" where
  "bus_span B A len = bus_base B (A + len - 1) - bus_base B A + B"

lemma bus_base_le: "bus_base B A \<le> A"
  by (simp add: bus_base_def)

lemma bus_base_less: "0 < B \<Longrightarrow> A < bus_base B A + B"
  unfolding bus_base_def by (metis add.commute add_less_cancel_right div_mult_mod_eq mod_less_divisor)

lemma bus_base_mono: "A \<le> A' \<Longrightarrow> bus_base B A \<le> bus_base B A'"
  unfolding bus_base_def by (intro mult_le_mono1 div_le_mono)

lemma flip_in_word:
  assumes "0 < B"
  shows "bus_base B y \<le> flip B y" "flip B y < bus_base B y + B"
  using assms by (simp_all add: flip_def bus_base_def)

lemma place_add:
  assumes "0 < B"
  shows "bus_base B A + place B A m = flip B (A + m)"
proof -
  have "bus_base B A \<le> bus_base B (A + m)" by (rule bus_base_mono) simp
  with flip_in_word(1) [OF assms, of "A + m"] show ?thesis by (simp add: place_def)
qed

lemma place_less:
  assumes "0 < B" "m < len"
  shows "place B A m < bus_span B A len"
proof -
  have "bus_base B (A + m) \<le> bus_base B (A + len - 1)" by (rule bus_base_mono) (use assms in simp)
  moreover have "bus_base B A \<le> bus_base B (A + len - 1)" by (rule bus_base_mono) (use assms in simp)
  ultimately show ?thesis
    using flip_in_word(2) [OF assms(1), of "A + m"] place_add [OF assms(1), of A m] by (simp add: bus_span_def)
qed

lemma place_inj:
  assumes "0 < B" "place B A m = place B A l"
  shows "m = l"
proof -
  have "flip B (A + m) = flip B (A + l)" using place_add [OF assms(1), of A] assms(2) by metis
  then show ?thesis using flip_inj [OF assms(1)] by simp
qed

lemma bus_span_bounds:
  assumes "0 < B" "0 < len"
  shows "0 < bus_span B A len" "bus_span B A len < len + 2 * B" "bus_base B A + bus_span B A len \<le> A + len - 1 + B"
proof -
  have "bus_base B A \<le> bus_base B (A + len - 1)" by (rule bus_base_mono) (use assms in simp)
  then show "bus_base B A + bus_span B A len \<le> A + len - 1 + B"
    using bus_base_le [of B "A + len - 1"] by (simp add: bus_span_def)
  then show "bus_span B A len < len + 2 * B" using bus_base_less [OF assms(1), of A] assms(2) by linarith
qed (use assms in \<open>simp add: bus_span_def\<close>)

lemma index_place:
  assumes "0 < B" "m < unat (gp_length t)" and "unat (gp_address t) + unat (gp_length t) + B \<le> 2 ^ 64"
  shows "initiator_index D B t (of_nat (bus_base B (unat (gp_address t))) + of_nat (place B (unat (gp_address t)) m)) =
    Some (flip D m)"
proof -
  let ?A = "unat (gp_address t)" and ?n = "unat (gp_length t)"
  have sum: "bus_base B ?A + place B ?A m = flip B (?A + m)" by (rule place_add [OF assms(1)])
  have "flip B (?A + m) < bus_base B (?A + m) + B" by (rule flip_in_word [OF assms(1)])
  also have "\<dots> \<le> ?A + m + B" using bus_base_le [of B "?A + m"] by simp
  also have "\<dots> < 2 ^ 64" using assms(2,3) by simp
  finally have "unat (of_nat (flip B (?A + m)) :: u64) = flip B (?A + m)" by (simp add: unat_of_nat)
  moreover have "of_nat (bus_base B ?A) + of_nat (place B ?A m) = (of_nat (flip B (?A + m)) :: u64)"
    using sum by (metis of_nat_add)
  ultimately show ?thesis using assms(2) flip_flip [OF assms(1)] by (simp add: initiator_index_def Let_def)
qed

lemma index_some:
  assumes "0 < B" "initiator_index D B t a = Some k"
  shows "\<exists>m < unat (gp_length t). k = flip D m \<and> unat a = bus_base B (unat (gp_address t)) + place B (unat (gp_address t)) m"
proof -
  let ?A = "unat (gp_address t)" and ?y = "flip B (unat a)"
  have y: "?A \<le> ?y" "?y < ?A + unat (gp_length t)" "k = flip D (?y - ?A)"
    using assms(2) by (auto simp: initiator_index_def Let_def split: if_splits)
  have "bus_base B ?A + place B ?A (?y - ?A) = flip B ?y" using place_add [OF assms(1), of ?A "?y - ?A"] y(1) by simp
  then show ?thesis using y flip_flip [OF assms(1)] by (intro exI [of _ "?y - ?A"]) auto
qed

text \<open>Two of the conditions of a layout, for every conversion whose new address is the start of the bus word.\<close>

lemma index_inside:
  assumes "0 < B" "initiator_index D B t a = Some k" and "unat a' = bus_base B (unat (gp_address t))"
  shows "\<exists>m < unat (gp_length t). k = flip D m \<and> unat (a - a') = place B (unat (gp_address t)) m"
proof -
  obtain m where m: "m < unat (gp_length t)" "k = flip D m"
    "unat a = bus_base B (unat (gp_address t)) + place B (unat (gp_address t)) m"
    using index_some [OF assms(1,2)] by blast
  then have "a' \<le> a" using assms(3) by (simp add: word_le_nat_alt)
  then have "unat (a - a') = unat a - unat a'" by (rule unat_sub)
  then show ?thesis using m assms(3) by auto
qed

section \<open>The converted payload\<close>

definition converted ::
  "nat \<Rightarrow> nat \<Rightarrow> conv_txn \<Rightarrow> byte_store \<Rightarrow> nat \<Rightarrow> nat \<Rightarrow> nat \<Rightarrow> nat \<Rightarrow> conv_txn \<Rightarrow> byte_store \<Rightarrow> bool" where
  "converted D B t h c d e n t' h' \<longleftrightarrow>
     gp_context t' = Some c \<and> gp_command t' = gp_command t \<and>
     unat (gp_address t') = bus_base B (unat (gp_address t)) \<and>
     gp_data t' = Mem_ptr d 0 \<and> gp_byte_enable t' = Mem_ptr e 0 \<and> unat (gp_length t') = n \<and>
     unat (gp_byte_enable_length t') = n \<and> ready t h d e n h' \<and>
     (\<forall>m < unat (gp_length t). place B (unat (gp_address t)) m < n) \<and>
     layout (\<lambda>x. initiator_index D B t (gp_address t' + of_nat x)) t h d e n h'"

lemma converted_carries:
  assumes "conv_input D b t h" and "gp_command t = TLM_WRITE_COMMAND" and "0 < B"
    and c: "converted D B t h c d e n t' h'"
  shows "carries t' h' a = initiator_carries D B t h a"
proof (rule layout_carries [OF assms(1,2)])
  show "layout (\<lambda>x. initiator_index D B t (gp_address t' + of_nat x)) t h d e n h'" "gp_data t' = Mem_ptr d 0"
    "gp_byte_enable t' = Mem_ptr e 0" "unat (gp_length t') = n" "unat (gp_byte_enable_length t') = n"
    using c by (simp_all add: converted_def)
  fix a k assume "initiator_index D B t a = Some k"
  from index_inside [OF assms(3) this] c show "unat (a - gp_address t') < n" unfolding converted_def by metis
qed

lemma load_byte_arrays: "arrays g = arrays h \<Longrightarrow> load_byte g p = load_byte h p"
  by (simp add: load_byte_def split: data_ptr.split)

lemma ready_after:
  assumes input: "conv_input D b t h" and same: "arrays g = arrays h" "ctx_arrays g c = own_arrays t h"
    and kept: "others_kept c g g'" "ctx_arrays g' c = {d, e}" "d \<noteq> e"
    and n: "n < 2 ^ 31" "\<forall>p \<in> he_range d e n. \<exists>v. load_byte g' p = Inr v"
  shows "ready t h d e n g'"
proof -
  note load = load_byte_arrays [OF same(1)]
  have user: "user_ptr (ctx_arrays g c) g (gp_data t) (unat (gp_length t))"
    "gp_byte_enable t \<noteq> Null_ptr \<Longrightarrow> user_ptr (ctx_arrays g c) g (gp_byte_enable t) (unat (gp_byte_enable_length t))"
    using input by (simp_all add: conv_input_def user_ptr_def same load)
  have "load_byte g' (ptr_at (gp_data t) (int k)) = Inr (data_value t h k)" "ptr_at (gp_data t) (int k) \<notin> he_range d e n"
    if "k < unat (gp_length t)" for k
    using user_ptr_kept [OF user(1) kept(1) that] kept(2) data_value_load [OF input that] by (simp_all add: load)
  moreover have "load_byte g' (ptr_at (gp_byte_enable t) (int (k mod unat (gp_byte_enable_length t)))) = Inr (be_value t h k)"
    "ptr_at (gp_byte_enable t) (int (k mod unat (gp_byte_enable_length t))) \<notin> he_range d e n"
    if "gp_byte_enable t \<noteq> Null_ptr" for k
  proof -
    have "k mod unat (gp_byte_enable_length t) < unat (gp_byte_enable_length t)"
      using input that by (simp add: conv_input_def)
    from user_ptr_kept [OF user(2) [OF that] kept(1) this] kept(2) be_value_load [OF input that]
    show "load_byte g' (ptr_at (gp_byte_enable t) (int (k mod unat (gp_byte_enable_length t)))) = Inr (be_value t h k)"
      "ptr_at (gp_byte_enable t) (int (k mod unat (gp_byte_enable_length t))) \<notin> he_range d e n"
      by (simp_all add: load)
  qed
  ultimately show ?thesis using kept(3) n by (simp add: ready_def Let_def)
qed

lemma ready_written:
  assumes "ready t h d e n g" and "written w g g'" and "dom w \<subseteq> he_range d e n"
  shows "ready t h d e n g'" "ctxs g' = ctxs g"
proof -
  have "like g (he_range d e n) g" using assms(1) by (simp add: like_refl ready_def)
  from written_like [OF this assms(2,3)] show "ready t h d e n g'"
    using assms(1) by (auto simp: ready_def like_def Let_def)
  have g': "g' = g\<lparr>arrays := arrays g'\<rparr>" using assms(2) by (simp add: written_def)
  show "ctxs g' = ctxs g" by (subst g') simp
qed

section \<open>The generic request\<close>

definition generic_args :: "nat \<Rightarrow> conv_txn \<Rightarrow> u64 \<Rightarrow> nat \<Rightarrow> nat \<Rightarrow> nat \<Rightarrow> loop0" where
  "generic_args b t a d e n =
     \<lparr>l_new_len = int n, l_new_stream_width = int n, l_orig_stream_width = int (unat (gp_length t)),
      l_sizeof_databus = 2 ^ b, l_orig_start = gp_address t, l_new_start = a,
      l_be_length = (if gp_byte_enable t = Null_ptr then int n else int (unat (gp_byte_enable_length t))),
      l_ie_data = gp_data t, l_ie_be = gp_byte_enable t, l_he_data = Mem_ptr d 0, l_he_be = Mem_ptr e 0\<rparr>"

lemma word_unat_of_nat_back: "(of_nat (unat w) :: 'a :: len word) = w"
  by simp

lemma unat_ucast_nat: "(ucast (w :: u32) :: u64) = of_nat (unat w)"
  by (simp add: word_unat_eq_iff unsigned_ucast_eq unat_of_nat take_bit_eq_mod)

lemma he_place_generic:
  assumes "b < 30" and "unat (gp_address t) + unat (gp_length t) + 2 ^ b \<le> 2 ^ 64" and "m < unat (gp_length t)"
    and "l_orig_start r = gp_address t" "l_sizeof_databus r = 2 ^ b"
    and "l_new_start r = of_nat (bus_base (2 ^ b) (unat (gp_address t)))"
  shows "he_place r 0 m = of_nat (place (2 ^ b) (unat (gp_address t)) m)"
proof -
  let ?A = "unat (gp_address t)"
  have "?A + m < 2 ^ 64" using assms(2,3) by simp
  then have "unat (gp_address t + of_nat m) = ?A + m" by (simp add: unat_word_ariths unat_of_nat)
  then have "unat ((gp_address t + of_nat m) XOR (2 ^ b - 1)) = flip (2 ^ b) (?A + m)"
    using unat_xor_mask [of b "gp_address t + of_nat m"] assms(1) by simp
  then have "(gp_address t + of_nat m) XOR (2 ^ b - 1) = of_nat (flip (2 ^ b) (?A + m))"
    by (metis word_unat_of_nat_back)
  also have "flip (2 ^ b) (?A + m) = bus_base (2 ^ b) ?A + place (2 ^ b) ?A m" using place_add [of "2 ^ b" ?A m] by simp
  finally show ?thesis by (simp add: he_place_def assms(4-6))
qed

lemma conv_inputD:
  assumes "conv_input D b t h"
  shows "b < 30" "0 < D" "D dvd unat (gp_length t)" "0 < unat (gp_length t)"
    "unat (gp_length t) + 2 * 2 ^ b < 2 ^ 31" "unat (gp_address t) + unat (gp_length t) + 2 ^ b \<le> 2 ^ 64"
    "gp_byte_enable t \<noteq> Null_ptr \<Longrightarrow> 0 < unat (gp_byte_enable_length t)"
  using assms by (simp_all add: conv_input_def)

lemma request_writes_inside: "x < n \<Longrightarrow> dom (request_writes t h d e k x) \<subseteq> he_range d e n"
  by (auto simp: he_range_def dest!: dom_request_writes)

lemma dom_writes_of: "(\<And>k. k \<in> set ks \<Longrightarrow> dom (w k) \<subseteq> W) \<Longrightarrow> dom (writes_of w ks) \<subseteq> W"
  by (induction ks) auto

lemma generic_run:
  assumes input: "conv_input D b t h" and rd: "ready t h d e n g"
    and n: "n = bus_span (2 ^ b) (unat (gp_address t)) (unat (gp_length t))"
    and a: "a = of_nat (bus_base (2 ^ b) (unat (gp_address t)))"
  shows "\<exists>g'. ebind (memset (Mem_ptr e 0) TLM_BYTE_DISABLED (int n) g)
      (loop_generic0 (copier0 t) (generic_args b t a d e n) D) = Inr g' \<and>
    layout (\<lambda>x. initiator_index D (2 ^ b) t (a + of_nat x)) t h d e n g' \<and> ready t h d e n g' \<and> ctxs g' = ctxs g"
proof -
  note I = conv_inputD [OF input]
  let ?A = "unat (gp_address t)" and ?len = "unat (gp_length t)" and ?W = "he_range d e n"
  let ?args = "generic_args b t a d e n" and ?place = "place (2 ^ b) (unat (gp_address t))"
  let ?w = "\<lambda>m k. request_writes t h d e (flip D k) (?place k)"
  let ?wm = "writes_of (\<lambda>x. [Mem_ptr e (of_nat x :: u64) \<mapsto> TLM_BYTE_DISABLED]) [0..<n]"
  have B: "0 < (2 :: nat) ^ b" by simp
  note span = bus_span_bounds [OF B I(4), of ?A]
  have small: "d \<noteq> e" "n < 2 ^ 31" and valid: "\<forall>p \<in> ?W. \<exists>v. load_byte g p = Inr v"
    using rd by (simp_all add: ready_def)
  have inside: "?place m < n" if "m < ?len" for m using place_less [OF B that] n by simp
  have step: "acts g ?W (generic_copy (copier0 t) ?args D 0 m) (?w 0 m)" if m: "m < ?len" for m
  proof -
    have k: "flip D m < ?len" by (rule flip_less [OF I(2,3) m])
    have hp: "he_place ?args 0 m = of_nat (?place m)" by (rule he_place_generic [OF I(1,6) m]) (simp_all add: generic_args_def a)
    have "acts g ?W (copier0 t (ptr_at (gp_data t) (int (flip D m)))
        (ptr_at (gp_byte_enable t) (int (flip D m mod nat (l_be_length ?args))))
        (Mem_ptr d (of_nat (?place m))) (Mem_ptr e (of_nat (?place m)))) (?w 0 m)"
      by (rule copier0_acts [OF rd k inside [OF m]]) (simp add: generic_args_def)
    then show ?thesis by (rule acts_cong) (simp_all add: generic_copy_def Let_def hp, simp add: generic_args_def)
  qed
  have "acts g ?W (loop_generic0 (copier0 t) ?args D) (writes_of (\<lambda>m. writes_of (?w m) [0..<?len]) [0..<1])"
  proof (rule generic_loop)
    show "0 < l_be_length ?args" using I(7) span(1) n by (simp add: generic_args_def del: of_nat_unat)
    show "l_orig_stream_width ?args = int ?len" "l_new_stream_width ?args = int n" "l_new_len ?args = int (1 * n)"
      by (simp_all add: generic_args_def)
    show "acts g ?W (generic_copy (copier0 t) ?args D m k) (?w m k)" if "m < 1" "k < ?len" for m k
      using step [OF that(2)] that(1) by simp
  qed (use I span(1) n in simp_all)
  then have loop: "acts g ?W (loop_generic0 (copier0 t) ?args D) (writes_of (?w 0) [0..<?len])" by simp
  from acts_result [OF acts_seq [OF memset_acts loop] valid] obtain g' where
    g': "ebind (memset (Mem_ptr e 0) TLM_BYTE_DISABLED (int n) g) (loop_generic0 (copier0 t) ?args D) = Inr g'"
    and w: "written (?wm ++ writes_of (?w 0) [0..<?len]) g g'" by blast
  have dom: "dom (?wm ++ writes_of (?w 0) [0..<?len]) \<subseteq> ?W"
  proof -
    have "dom ?wm \<subseteq> ?W" by (rule dom_writes_of) (auto simp: he_range_def)
    moreover have "dom (writes_of (?w 0) [0..<?len]) \<subseteq> ?W"
      by (rule dom_writes_of) (use inside request_writes_inside in simp)
    ultimately show ?thesis by simp
  qed
  have "layout (\<lambda>x. initiator_index D (2 ^ b) t (a + of_nat x)) t h d e n g'"
  proof (rule layout_of_writes [OF w small])
    show "\<And>m l. m < ?len \<Longrightarrow> l < ?len \<Longrightarrow> ?place m = ?place l \<Longrightarrow> m = l" using place_inj [OF B] by blast
    show "?place m < n \<and> initiator_index D (2 ^ b) t (a + of_nat (?place m)) = Some (flip D m)" if "m < ?len" for m
      using inside [OF that] index_place [OF B that] I(6) a by simp
    show "\<exists>m < ?len. ?place m = x" if x: "x < n" and k: "initiator_index D (2 ^ b) t (a + of_nat x) = Some k" for x k
    proof -
      have "bus_base (2 ^ b) ?A < 2 ^ 64" using bus_base_le [of "2 ^ b" ?A] I(4,6) by linarith
      then have "unat a = bus_base (2 ^ b) ?A" using a by (simp add: unat_of_nat)
      from index_inside [OF B k this] obtain m where "m < ?len" "unat (of_nat x :: u64) = ?place m" by auto
      moreover have "unat (of_nat x :: u64) = x" using x small(2) by (simp add: unat_of_nat)
      ultimately show ?thesis by auto
    qed
  qed
  with g' ready_written [OF rd w dom] show ?thesis by blast
qed

text \<open>What the response needs of the context.\<close>

definition generic_context :: "nat \<Rightarrow> nat \<Rightarrow> conv_txn \<Rightarrow> conv_txn \<Rightarrow> endian_context \<Rightarrow> bool" where
  "generic_context D b t t' k \<longleftrightarrow>
     from_f k = (Conv_generic, D) \<and> ec_sizeof_databus k = 2 ^ b \<and> ec_data_ptr k = gp_data t \<and>
     ec_address k = gp_address t \<and> ec_new_address k = gp_address t' \<and> ec_stream_width k = int (unat (gp_length t))"

lemma generic_request:
  assumes input: "conv_input D b t h" and low: "unat (gp_address t) + unat (gp_length t) \<le> 2 ^ 32"
  shows "\<exists>c d e n t' h'. to_hostendian_generic D t (2 ^ b) h = Inr (t', h') \<and> converted D (2 ^ b) t h c d e n t' h' \<and>
    unat (gp_streaming_width t') = n \<and> generic_context D b t t' (ctxs h' c)"
proof -
  note I = conv_inputD [OF input]
  let ?A = "unat (gp_address t)" and ?len = "unat (gp_length t)"
  obtain c t1 h1 where est: "establish_context t h = (c, t1, h1)" by (metis prod_cases3)
  have fit: "store_fit t h" using input by (simp add: conv_input_def)
  note E = establish_context_ok [OF est fit]
  define n where "n = bus_span (2 ^ b) ?A ?len"
  define a :: u64 where "a = of_nat (bus_base (2 ^ b) ?A)"
  have B: "0 < (2 :: nat) ^ b" by simp
  note span = bus_span_bounds [OF B I(4), of ?A, folded n_def]
  have n: "0 < n" "n < 2 ^ 31" using span(1,2) I(5) by simp_all
  have bus: "unat (2 ^ b :: u32) = 2 ^ b" "sint (2 ^ b :: u32) = 2 ^ b"
  proof -
    show u: "unat (2 ^ b :: u32) = 2 ^ b" by (rule unat_exp) (use I(1) in simp)
    have "(2 :: nat) ^ b < 2 ^ 31" by (rule power_strict_increasing) (use I(1) in simp_all)
    with u sint_u32 [of "2 ^ b"] show "sint (2 ^ b :: u32) = 2 ^ b" by simp
  qed
  have len: "sint (gp_length t) = int ?len" by (rule sint_u32) (use I(5) in simp)
  have sw: "sint (gp_length t) \<le> sint (gp_streaming_width t)"
    using input sint_u32 [of "gp_streaming_width t"] len by (simp add: conv_input_def del: of_nat_unat)
  have new: "gp_address t AND bus_mask (2 ^ b) = a"
  proof -
    have "unat (gp_address t AND bus_mask (2 ^ b)) = bus_base (2 ^ b) ?A"
      using and_bus_mask [of "gp_address t" b] low I(1,4) by (simp add: unat_and_not_mask bus_base_def)
    then show ?thesis unfolding a_def by (metis word_unat_of_nat_back)
  qed
  define ew :: u64 where "ew = of_nat (bus_base (2 ^ b) (?A + ?len - 1))"
  have endw: "(gp_address t + of_int (sint (gp_length t)) - 1) AND bus_mask (2 ^ b) = ew"
  proof -
    have "gp_address t + of_int (sint (gp_length t)) - 1 = (of_nat (?A + ?len - 1) :: u64)"
      using I(4) by (simp add: len of_nat_diff)
    moreover have "unat (of_nat (?A + ?len - 1) :: u64) = ?A + ?len - 1" using I(6) by (simp add: unat_of_nat)
    ultimately have "unat ((gp_address t + of_int (sint (gp_length t)) - 1) AND bus_mask (2 ^ b)) = bus_base (2 ^ b) (?A + ?len - 1)"
      using and_bus_mask [of "of_nat (?A + ?len - 1)" b] low I(1,4) by (simp add: unat_and_not_mask bus_base_def)
    then show ?thesis unfolding ew_def by (metis word_unat_of_nat_back)
  qed
  have width: "sint (ucast (ew - a + ucast (2 ^ b :: u32)) :: u32) = int n"
  proof -
    have "bus_base (2 ^ b) ?A \<le> bus_base (2 ^ b) (?A + ?len - 1)" by (rule bus_base_mono) (use I(4) in simp)
    moreover have "(ucast (2 ^ b :: u32) :: u64) = of_nat (2 ^ b)" using bus(1) unat_ucast_nat by metis
    ultimately have "ew - a + ucast (2 ^ b :: u32) = (of_nat n :: u64)"
      by (simp add: n_def bus_span_def a_def ew_def of_nat_diff)
    then have "(ucast (ew - a + ucast (2 ^ b :: u32)) :: u32) = of_nat n"
      using n(2) by (simp add: word_unat_eq_iff unsigned_ucast_eq take_bit_nat_eq_self unat_of_nat)
    moreover have "unat (of_nat n :: u32) = n" using n(2) by (simp add: unat_of_nat)
    ultimately show ?thesis using sint_u32 [of "of_nat n"] n(2) by simp
  qed
  define h2 where "h2 = upd_ctx c (\<lambda>k. k\<lparr>from_f := (Conv_generic, D), ec_sizeof_databus := sint (2 ^ b :: u32)\<rparr>) h1"
  define h3 where "h3 = upd_ctx c (\<lambda>k. k\<lparr>ec_data_ptr := gp_data t, ec_address := gp_address t,
                 ec_new_address := a, ec_stream_width := sint (gp_length t)\<rparr>) h2"
  have c3: "ctx_ok h3 c" "ctx_arrays h3 c = own_arrays t h" "arrays_ok h3" "arrays h3 = arrays h"
    using E by (simp_all add: h3_def h2_def upd_ctx_keeps)
  define h4 where "h4 = establish_dbuf (int n) c h3"
  define h5 where "h5 = establish_bebuf (int n) c h4"
  define d where "d = new_dbuf (ctxs h4 c)"
  define e where "e = new_bebuf (ctxs h5 c)"
  have "n \<le> 2 ^ 64" using n(2) by simp
  note R = arrays_ready [OF c3(3,1) n(1) this h4_def h5_def d_def e_def]
  have rd: "ready t h d e n h5" by (rule ready_after [OF input c3(4,2) R(3,4,1) n(2) R(2)])
  obtain h7 where run: "ebind (memset (Mem_ptr e 0) TLM_BYTE_DISABLED (int n) h5)
      (loop_generic0 (copier0 t) (generic_args b t a d e n) D) = Inr h7"
    and lay: "layout (\<lambda>x. initiator_index D (2 ^ b) t (a + of_nat x)) t h d e n h7" "ready t h d e n h7" "ctxs h7 = ctxs h5"
    using generic_run [OF input rd n_def a_def] by blast
  define t2 where "t2 = t\<lparr>gp_context := Some c, gp_address := a, gp_data := Mem_ptr d 0, gp_byte_enable := Mem_ptr e 0,
    gp_streaming_width := of_nat n, gp_length := of_nat n, gp_byte_enable_length := of_nat n\<rparr>"
  have quot: "quot_by (sint (gp_length t)) (sint (gp_length t)) = Inr 1"
  proof -
    have "0 < sint (gp_length t)" unfolding len using I(4) by (simp only: of_nat_0_less_iff)
    then show ?thesis by (simp add: quot_by_def sgn_if)
  qed
  have range: "\<not> int n < - (2 ^ 31)" "\<not> 2 ^ 31 \<le> int n" using n by simp_all
  define args where "args = \<lparr>l_new_len = int n, l_new_stream_width = int n, l_orig_stream_width = sint (gp_length t),
      l_sizeof_databus = sint (2 ^ b :: u32), l_orig_start = gp_address t, l_new_start = a,
      l_be_length = (if gp_byte_enable t = Null_ptr then int n else sint (gp_byte_enable_length t)),
      l_ie_data = gp_data t, l_ie_be = gp_byte_enable t, l_he_data = Mem_ptr d 0, l_he_be = Mem_ptr e 0\<rparr>"
  have args: "args = generic_args b t a d e n"
    using input sint_u32 [of "gp_byte_enable_length t"]
    by (auto simp: args_def generic_args_def bus(2) len conv_input_def simp del: of_nat_unat)
  have "to_hostendian_generic D t (2 ^ b) h =
    ebind (memset (Mem_ptr e 0) TLM_BYTE_DISABLED (int n) h5) (\<lambda>h6. ebind (loop_generic0 (copier0 t) args D h6) (\<lambda>h7. Inr (t2, h7)))"
    using sw range
    by (simp add: to_hostendian_generic_def est E(1) Let_def get_address_def get_data_length_def get_streaming_width_def
        get_byte_enable_ptr_def get_byte_enable_length_def get_data_ptr_def set_address_def set_data_ptr_def
        set_data_length_def set_streaming_width_def set_byte_enable_ptr_def set_byte_enable_length_def is_write_def
        quot new endw width h2_def h3_def h4_def h5_def d_def e_def args_def t2_def copier0_def
        del: of_int_sint)
  then have "to_hostendian_generic D t (2 ^ b) h = Inr (t2, h7)" using run unfolding args by auto
  moreover have "converted D (2 ^ b) t h c d e n t2 h7"
  proof -
    have "bus_base (2 ^ b) ?A < 2 ^ 64" using bus_base_le [of "2 ^ b" ?A] I(4,6) by linarith
    then have "unat a = bus_base (2 ^ b) ?A" by (simp add: a_def unat_of_nat)
    moreover have "unat (of_nat n :: u32) = n" using n(2) by (simp add: unat_of_nat)
    moreover have "place (2 ^ b) ?A m < n" if "m < ?len" for m using place_less [OF B that] by (simp add: n_def)
    ultimately show ?thesis using lay(1,2) by (simp add: converted_def t2_def)
  qed
  moreover have "unat (gp_streaming_width t2) = n" using n(2) by (simp add: t2_def unat_of_nat)
  moreover have "generic_context D b t t2 (ctxs h7 c)"
  proof -
    have k: "ctxs h3 c = (ctxs h1 c)\<lparr>from_f := (Conv_generic, D), ec_sizeof_databus := sint (2 ^ b :: u32),
        ec_data_ptr := gp_data t, ec_address := gp_address t, ec_new_address := a, ec_stream_width := sint (gp_length t)\<rparr>"
      by (simp add: h3_def h2_def upd_ctx_def)
    obtain s s' where "ctxs h7 c = (ctxs h3 c)\<lparr>new_dbuf := d, dbuf_size := s, new_bebuf := e, bebuf_size := s'\<rparr>"
      using R(7) lay(3) by (auto simp: only_arrays_def)
    then show ?thesis unfolding k generic_context_def using bus(2) len by (simp add: t2_def)
  qed
  ultimately show ?thesis by blast
qed

section \<open>The generic response\<close>

text \<open>A target answers a read: it fills the enabled bytes with what it has at their addresses.\<close>

definition target_answers :: "(u64 \<Rightarrow> byte) \<Rightarrow> conv_txn \<Rightarrow> byte_store \<Rightarrow> byte_store \<Rightarrow> bool" where
  "target_answers M t h h2 \<longleftrightarrow> ctxs h2 = ctxs h \<and>
     (\<forall>x < unat (gp_length t). payload_enabled t h x \<longrightarrow>
        load_byte h2 (ptr_at (gp_data t) (int x)) = Inr (M (gp_address t + of_nat x))) \<and>
     (\<forall>p. (\<forall>x < unat (gp_length t). payload_enabled t h x \<longrightarrow> p \<noteq> ptr_at (gp_data t) (int x)) \<longrightarrow>
        load_byte h2 p = load_byte h p)"

text \<open>The host address of byte \<open>k\<close> of the initiator, and what the initiator finds in its array.\<close>

definition host_address :: "nat \<Rightarrow> nat \<Rightarrow> conv_txn \<Rightarrow> nat \<Rightarrow> u64" where
  "host_address D B t k = of_nat (flip B (unat (gp_address t) + flip D k))"

definition returned :: "nat \<Rightarrow> nat \<Rightarrow> (u64 \<Rightarrow> byte) \<Rightarrow> conv_txn \<Rightarrow> byte_store \<Rightarrow> byte_store \<Rightarrow> bool" where
  "returned D B M t h h3 \<longleftrightarrow>
     (\<forall>k < unat (gp_length t). load_byte h3 (ptr_at (gp_data t) (int k)) =
        Inr (if payload_enabled t h k then M (host_address D B t k) else data_value t h k))"

definition proper_enables :: "conv_txn \<Rightarrow> byte_store \<Rightarrow> bool" where
  "proper_enables t h \<longleftrightarrow> (\<forall>k < unat (gp_length t). be_value t h k \<in> {TLM_BYTE_DISABLED, TLM_BYTE_ENABLED})"

definition user_range :: "conv_txn \<Rightarrow> data_ptr set" where
  "user_range t = {p. \<exists>k < unat (gp_length t). p = ptr_at (gp_data t) (int k)}"

text \<open>The arrays after the answer, seen from the payload of the initiator.\<close>

lemma answered:
  assumes input: "conv_input D b t h" and B: "B = 2 ^ b" and conv: "converted D B t h c d e n t' h'"
    and ans: "target_answers M t' h' h2"
  shows "ctxs h2 = ctxs h'" "\<forall>k < unat (gp_length t). load_byte h2 (ptr_at (gp_data t) (int k)) = Inr (data_value t h k)"
    and "\<And>x. x < n \<Longrightarrow> load_byte h2 (Mem_ptr e (of_nat x)) =
      Inr (case initiator_index D B t (gp_address t' + of_nat x) of Some k \<Rightarrow> be_value t h k | None \<Rightarrow> TLM_BYTE_DISABLED)"
    and "\<And>m. m < unat (gp_length t) \<Longrightarrow> payload_enabled t h (flip D m) \<Longrightarrow>
      load_byte h2 (Mem_ptr d (of_nat (place B (unat (gp_address t)) m))) = Inr (M (host_address D B t (flip D m)))"
    and "gp_byte_enable t \<noteq> Null_ptr \<Longrightarrow>
      load_byte h2 (ptr_at (gp_byte_enable t) (int (k mod unat (gp_byte_enable_length t)))) = Inr (be_value t h k)"
proof -
  note I = conv_inputD [OF input]
  have c: "unat (gp_address t') = bus_base B (unat (gp_address t))" "gp_data t' = Mem_ptr d 0" "gp_byte_enable t' = Mem_ptr e 0"
    "unat (gp_length t') = n" "unat (gp_byte_enable_length t') = n" "ready t h d e n h'"
    "\<forall>m < unat (gp_length t). place B (unat (gp_address t)) m < n"
    "layout (\<lambda>x. initiator_index D B t (gp_address t' + of_nat x)) t h d e n h'"
    using conv by (simp_all add: converted_def)
  have r: "d \<noteq> e" "n < 2 ^ 31" using c(6) by (simp_all add: ready_def)
  show "ctxs h2 = ctxs h'" using ans by (simp add: target_answers_def)
  have outside: "load_byte h2 p = load_byte h' p" if "\<forall>x < n. p \<noteq> Mem_ptr d (of_nat x)" for p
    using ans that c(2,4) unfolding target_answers_def by (metis of_int_of_nat_eq ptr_at_Mem add_0)
  have notin: "p \<notin> he_range d e n \<Longrightarrow> \<forall>x < n. p \<noteq> Mem_ptr d (of_nat x)" for p by (auto simp: he_range_def)
  show "\<forall>k < unat (gp_length t). load_byte h2 (ptr_at (gp_data t) (int k)) = Inr (data_value t h k)"
    using c(6) outside notin by (simp add: ready_def)
  show be: "load_byte h2 (Mem_ptr e (of_nat x)) =
      Inr (case initiator_index D B t (gp_address t' + of_nat x) of Some k \<Rightarrow> be_value t h k | None \<Rightarrow> TLM_BYTE_DISABLED)"
    if "x < n" for x
    using c(8) that outside [of "Mem_ptr e (of_nat x)"] r(1) by (simp add: layout_def)
  show "load_byte h2 (ptr_at (gp_byte_enable t) (int (k mod unat (gp_byte_enable_length t)))) = Inr (be_value t h k)"
    if "gp_byte_enable t \<noteq> Null_ptr"
    using c(6) outside notin that by (simp add: ready_def Let_def)
  fix m assume m: "m < unat (gp_length t)" and en: "payload_enabled t h (flip D m)"
  let ?x = "place B (unat (gp_address t)) m"
  have x: "?x < n" using c(7) m by simp
  have adr: "gp_address t' = of_nat (bus_base B (unat (gp_address t)))" using c(1) by (metis word_unat_of_nat_back)
  have idx: "initiator_index D B t (gp_address t' + of_nat ?x) = Some (flip D m)"
    unfolding adr by (rule index_place) (use m I(6) B in simp_all)
  have "load_byte h' (Mem_ptr e (of_nat ?x)) = Inr (be_value t h (flip D m))" using c(8) x idx by (simp add: layout_def)
  then have "payload_enabled t' h' ?x"
    using en enabled_be_value [OF input] x c(3,5) by (simp add: payload_enabled_def)
  then have "load_byte h2 (Mem_ptr d (of_nat ?x)) = Inr (M (gp_address t' + of_nat ?x))"
    using ans x c(2,4) by (simp add: target_answers_def)
  moreover have "gp_address t' + of_nat ?x = host_address D B t (flip D m)"
    using place_add [of B "unat (gp_address t)" m] flip_flip [OF I(2)] B unfolding adr host_address_def by (simp flip: of_nat_add)
  ultimately show "load_byte h2 (Mem_ptr d (of_nat ?x)) = Inr (M (host_address D B t (flip D m)))" by simp
qed

definition response_writes :: "nat \<Rightarrow> nat \<Rightarrow> (u64 \<Rightarrow> byte) \<Rightarrow> conv_txn \<Rightarrow> byte_store \<Rightarrow> nat \<Rightarrow> data_ptr \<rightharpoonup> byte" where
  "response_writes D B M t h k =
     (if payload_enabled t h k then [ptr_at (gp_data t) (int k) \<mapsto> M (host_address D B t k)] else Map.empty)"

lemma writes_of_agree:
  assumes "\<And>k. k \<in> set ks \<Longrightarrow> w k p = None \<or> w k p = Some v"
  shows "writes_of w ks p = (if \<exists>k \<in> set ks. w k p = Some v then Some v else None)"
  using assms
proof (induction ks)
  case (Cons k ks)
  have IH: "writes_of w ks p = (if \<exists>k \<in> set ks. w k p = Some v then Some v else None)" by (rule Cons.IH) (use Cons.prems in simp)
  show ?case using Cons.prems [of k] IH by (auto simp: map_add_def)
qed simp

lemma user_ptr_inj:
  assumes "conv_input D b t h" and "k < unat (gp_length t)" and "l < unat (gp_length t)"
  shows "ptr_at (gp_data t) (int k) = ptr_at (gp_data t) (int l) \<longleftrightarrow> k = l"
proof -
  obtain j i where "gp_data t = Mem_ptr j i" using assms(1) by (auto simp: conv_input_def user_ptr_def)
  moreover have "k < 2 ^ 64" "l < 2 ^ 64" using assms conv_inputD(5) [OF assms(1)] by simp_all
  ultimately show ?thesis using ptr_at_inj [of k l j i] by simp
qed

lemma returned_of_writes:
  assumes input: "conv_input D b t h"
    and w: "written (writes_of (\<lambda>m. response_writes D B M t h (kf m)) ms) g g'"
    and g: "\<forall>k < unat (gp_length t). load_byte g (ptr_at (gp_data t) (int k)) = Inr (data_value t h k)"
    and kf: "\<And>m. m \<in> set ms \<Longrightarrow> kf m < unat (gp_length t)" "\<And>k. k < unat (gp_length t) \<Longrightarrow> \<exists>m \<in> set ms. kf m = k"
  shows "returned D B M t h g'"
  unfolding returned_def
proof (intro allI impI)
  fix k assume k: "k < unat (gp_length t)"
  let ?p = "ptr_at (gp_data t) (int k)" and ?v = "M (host_address D B t k)"
  have one: "response_writes D B M t h (kf m) ?p = (if kf m = k \<and> payload_enabled t h k then Some ?v else None)"
    if "m \<in> set ms" for m
    using user_ptr_inj [OF input kf(1) [OF that] k] by (auto simp: response_writes_def)
  have "writes_of (\<lambda>m. response_writes D B M t h (kf m)) ms ?p = (if payload_enabled t h k then Some ?v else None)"
    using kf(2) [OF k] one by (subst writes_of_agree [where v = ?v]) auto
  then show "load_byte g' ?p = Inr (if payload_enabled t h k then ?v else data_value t h k)"
    using w g k by (simp add: written_def)
qed

lemma range_valid:
  assumes "\<forall>k < unat (gp_length t). load_byte g (ptr_at (gp_data t) (int k)) = Inr (data_value t h k)"
  shows "\<forall>p \<in> user_range t. \<exists>v. load_byte g p = Inr v"
  using assms by (auto simp: user_range_def)

lemma ready_apart:
  assumes "ready t h d e n g" and "p \<in> he_range d e n"
  shows "p \<notin> user_range t"
  using assms unfolding ready_def user_range_def by blast

lemma flip_onto:
  assumes "0 < D" "D dvd n" "k < n"
  shows "\<exists>m < n. flip D m = k"
  using flip_less [OF assms] flip_flip [OF assms(1)] by metis

lemma generic_response:
  assumes input: "conv_input D b t h" and rd: "gp_command t = TLM_READ_COMMAND" and proper: "proper_enables t h"
    and conv: "converted D (2 ^ b) t h c d e n t' h'" "unat (gp_streaming_width t') = n"
    and ctx: "generic_context D b t t' (ctxs h' c)" and ans: "target_answers M t' h' h2"
  shows "\<exists>h3. from_hostendian_generic D t' (2 ^ b) h2 = Inr h3 \<and> returned D (2 ^ b) M t h h3"
proof -
  note I = conv_inputD [OF input]
  note A = answered [OF input refl conv(1) ans]
  let ?A = "unat (gp_address t)" and ?len = "unat (gp_length t)" and ?W = "user_range t"
  have c: "gp_context t' = Some c" "gp_command t' = TLM_READ_COMMAND" "gp_data t' = Mem_ptr d 0" "gp_byte_enable t' = Mem_ptr e 0"
    "unat (gp_length t') = n" "ready t h d e n h'" "unat (gp_address t') = bus_base (2 ^ b) ?A"
    "\<forall>m < ?len. place (2 ^ b) ?A m < n"
    using conv(1) rd by (simp_all add: converted_def)
  have n: "n < 2 ^ 31" using c(6) by (simp add: ready_def)
  have npos: "0 < n" using c(8) I(4) by (metis gr_zeroI not_less_zero)
  define args where "args = \<lparr>l_new_len = int n, l_new_stream_width = int n, l_orig_stream_width = int ?len,
    l_sizeof_databus = 2 ^ b, l_orig_start = gp_address t, l_new_start = gp_address t', l_be_length = int n,
    l_ie_data = gp_data t, l_ie_be = Null_ptr, l_he_data = Mem_ptr d 0, l_he_be = Mem_ptr e 0\<rparr>"
  have bus: "sint (2 ^ b :: u32) = 2 ^ b"
  proof -
    have "(2 :: nat) ^ b < 2 ^ 31" by (rule power_strict_increasing) (use I(1) in simp_all)
    moreover have "unat (2 ^ b :: u32) = 2 ^ b" by (rule unat_exp) (use I(1) in simp)
    ultimately show ?thesis using sint_u32 [of "2 ^ b"] by simp
  qed
  have from_eq: "from_hostendian_generic D t' (2 ^ b) h2 = loop_generic0 copy_dbyb0 args D h2"
  proof -
    have "sint (gp_length t') = int n" "sint (gp_streaming_width t') = int n"
      using sint_u32 [of "gp_length t'"] sint_u32 [of "gp_streaming_width t'"] c(5) conv(2) n by simp_all
    then show ?thesis using ctx c(1-4) A(1) bus
      by (simp add: from_hostendian_generic_def is_read_def the_context_def generic_context_def args_def
          get_data_length_def get_streaming_width_def get_data_ptr_def get_byte_enable_ptr_def)
  qed
  have fields: "l_ie_data args = gp_data t" "l_he_data args = Mem_ptr d 0" "l_he_be args = Mem_ptr e 0"
    "l_orig_stream_width args = int ?len" by (simp_all add: args_def)
  have notin: "Mem_ptr d (of_nat x) \<notin> ?W" "Mem_ptr e (of_nat x) \<notin> ?W" if "x < n" for x
  proof -
    have "Mem_ptr d (of_nat x) \<in> he_range d e n" "Mem_ptr e (of_nat x) \<in> he_range d e n"
      using that by (auto simp: he_range_def)
    then show "Mem_ptr d (of_nat x) \<notin> ?W" "Mem_ptr e (of_nat x) \<notin> ?W" using ready_apart [OF c(6)] by blast+
  qed
  have step: "acts h2 ?W (generic_copy copy_dbyb0 args D 0 m) (response_writes D (2 ^ b) M t h (flip D m))" if m: "m < ?len" for m
  proof -
    let ?x = "place (2 ^ b) ?A m" and ?k = "flip D m"
    have k: "?k < ?len" by (rule flip_less [OF I(2,3) m])
    have x: "?x < n" using c(8) m by simp
    have adr: "gp_address t' = of_nat (bus_base (2 ^ b) ?A)" using c(7) by (metis word_unat_of_nat_back)
    have idx: "initiator_index D (2 ^ b) t (gp_address t' + of_nat ?x) = Some ?k"
      unfolding adr by (rule index_place) (use m I(6) in simp_all)
    have hp: "he_place args 0 m = of_nat ?x"
      by (rule he_place_generic [OF I(1,6) m]) (simp_all add: args_def adr)
    have be: "load_byte h2 (Mem_ptr e (of_nat ?x)) = Inr (be_value t h ?k)" using A(3) [OF x] idx by simp
    have en: "be_value t h ?k = TLM_BYTE_ENABLED \<longleftrightarrow> payload_enabled t h ?k"
      using proper k enabled_be_value [OF input, of ?k]
      by (auto simp: proper_enables_def TLM_BYTE_ENABLED_def TLM_BYTE_DISABLED_def)
    have user: "ptr_at (gp_data t) (int ?k) \<in> ?W" using k by (auto simp: user_range_def)
    let ?copy = "copy_byte (ptr_at (gp_data t) (int ?k)) (Mem_ptr d (of_nat ?x))"
    have "acts h2 ?W (\<lambda>g. if be_value t h ?k = TLM_BYTE_ENABLED then ?copy g else Inr g) (response_writes D (2 ^ b) M t h ?k)"
      using acts_copy [OF user notin(1) [OF x] A(4) [OF m]] acts_skip [of h2 ?W] en
      by (cases "payload_enabled t h ?k") (simp_all add: response_writes_def)
    from acts_load [OF notin(2) [OF x] be, of "\<lambda>v g. if v = TLM_BYTE_ENABLED then ?copy g else Inr g", OF this]
    have "acts h2 ?W (\<lambda>g. ebind (load_byte g (Mem_ptr e (of_nat ?x)))
      (\<lambda>v. if v = TLM_BYTE_ENABLED then ?copy g else Inr g)) (response_writes D (2 ^ b) M t h ?k)" .
    then show ?thesis
      by (rule acts_cong) (simp_all add: generic_copy_def Let_def hp copy_dbyb0_def fields)
  qed
  have "acts h2 ?W (loop_generic0 copy_dbyb0 args D)
    (writes_of (\<lambda>m. writes_of (\<lambda>k. response_writes D (2 ^ b) M t h (flip D k)) [0..<?len]) [0..<1])"
  proof (rule generic_loop)
    show "l_new_len args = int (1 * n)" by (simp add: args_def)
    show "acts h2 ?W (generic_copy copy_dbyb0 args D m k) (response_writes D (2 ^ b) M t h (flip D k))"
      if "m < 1" "k < ?len" for m k
      using step [OF that(2)] that(1) by simp
  qed (use I npos in \<open>simp_all add: args_def\<close>)
  from acts_result [OF this range_valid [OF A(2)]] obtain h3 where
    h3: "loop_generic0 copy_dbyb0 args D h2 = Inr h3"
    "written (writes_of (\<lambda>k. response_writes D (2 ^ b) M t h (flip D k)) [0..<?len]) h2 h3" by auto
  have "returned D (2 ^ b) M t h h3"
  proof (rule returned_of_writes [OF input h3(2) A(2)])
    show "flip D m < ?len" if "m \<in> set [0..<?len]" for m using flip_less [OF I(2,3), of m] that by simp
    show "\<exists>m \<in> set [0..<?len]. flip D m = k" if "k < ?len" for k using flip_onto [OF I(2,3) that] by auto
  qed
  then show ?thesis using from_eq h3(1) by auto
qed

end
