(* ===== verification/Endian_Word.thy ===== *)
theory Endian_Word
  imports Endian_Generic
begin

text \<open>
  The conversion by data words. Its loop goes through the new array fragment by fragment: at each border of
  bus words a data word may be cut in two. What it writes is described byte by byte, by the same function from
  places to bytes of the initiator as the generic conversion.
\<close>

section \<open>Fragments\<close>

text \<open>
  \<open>src x\<close> is the byte of the initiator for place \<open>x\<close>; a copier for \<open>s\<close> bytes writes \<open>wb k x\<close> for each
  of them, a filler \<open>wn x\<close>.
\<close>

definition copies :: "byte_store \<Rightarrow> data_ptr set \<Rightarrow> (nat \<Rightarrow> copier) \<Rightarrow> nat \<Rightarrow> nat \<Rightarrow> loop1 \<Rightarrow> (nat \<Rightarrow> nat option) \<Rightarrow>
    (nat \<Rightarrow> nat \<Rightarrow> data_ptr \<rightharpoonup> byte) \<Rightarrow> bool" where
  "copies h W COPY D N a src wb \<longleftrightarrow>
     (\<forall>k x s. (s = 1 \<or> s = D \<and> D dvd k) \<and> x + s \<le> N \<and> (\<forall>i < s. src (x + i) = Some (k + i)) \<longrightarrow>
        acts h W (COPY s (ptr_at (w_src a) (int k)) (ptr_at (w_bsrc a) (int k)) (ptr_at (w_dest a) (int x))
          (ptr_at (w_bdest a) (int x))) (writes_of (\<lambda>i. wb (k + i) (x + i)) [0..<s]))"

definition fills :: "byte_store \<Rightarrow> data_ptr set \<Rightarrow> (nat \<Rightarrow> data_ptr \<Rightarrow> byte_store \<Rightarrow> sim_error + byte_store) \<Rightarrow>
    nat \<Rightarrow> nat \<Rightarrow> loop1 \<Rightarrow> (nat \<Rightarrow> nat option) \<Rightarrow> (nat \<Rightarrow> data_ptr \<rightharpoonup> byte) \<Rightarrow> bool" where
  "fills h W FILL D N a src wn \<longleftrightarrow>
     (\<forall>x s. (s = 1 \<or> s = D) \<and> x + s \<le> N \<and> (\<forall>i < s. src (x + i) = None) \<longrightarrow>
        acts h W (FILL s (ptr_at (w_bdest a) (int x))) (writes_of (\<lambda>i. wn (x + i)) [0..<s]))"

definition place_writes ::
  "(nat \<Rightarrow> nat option) \<Rightarrow> (nat \<Rightarrow> nat \<Rightarrow> data_ptr \<rightharpoonup> byte) \<Rightarrow> (nat \<Rightarrow> data_ptr \<rightharpoonup> byte) \<Rightarrow> nat \<Rightarrow> data_ptr \<rightharpoonup> byte" where
  "place_writes src wb wn x = (case src x of Some k \<Rightarrow> wb k x | None \<Rightarrow> wn x)"

definition hits :: "(nat \<Rightarrow> nat option) \<Rightarrow> nat \<Rightarrow> nat" where
  "hits src x = length (filter (\<lambda>y. src y \<noteq> None) [0..<x])"

lemma hits_add:
  "(\<And>i. i < n \<Longrightarrow> src (x + i) \<noteq> None) \<Longrightarrow> hits src (x + n) = hits src x + n"
  "(\<And>i. i < n \<Longrightarrow> src (x + i) = None) \<Longrightarrow> hits src (x + n) = hits src x"
  by (induction n) (simp_all add: hits_def)

lemma writes_of_shift: "writes_of (\<lambda>i. w (x + i)) [0..<n] = writes_of w [x..<x + n]"
  by (induction n) (simp_all add: writes_of_append)

lemma writes_of_cong: "(\<And>k. k \<in> set ks \<Longrightarrow> w k = w' k) \<Longrightarrow> writes_of w ks = writes_of w' ks"
  by (induction ks) simp_all

lemma copiesD:
  assumes "copies h W COPY D N a src wb" and "s = 1 \<or> s = D \<and> D dvd k" and "x + s \<le> N"
    and "\<And>i. i < s \<Longrightarrow> src (x + i) = Some (k + i)"
  shows "acts h W (COPY s (ptr_at (w_src a) (int k)) (ptr_at (w_bsrc a) (int k)) (ptr_at (w_dest a) (int x))
      (ptr_at (w_bdest a) (int x))) (writes_of (\<lambda>i. place_writes src wb wn (x + i)) [0..<s])"
proof -
  have "acts h W (COPY s (ptr_at (w_src a) (int k)) (ptr_at (w_bsrc a) (int k)) (ptr_at (w_dest a) (int x))
      (ptr_at (w_bdest a) (int x))) (writes_of (\<lambda>i. wb (k + i) (x + i)) [0..<s])"
    using assms unfolding copies_def by blast
  moreover have "writes_of (\<lambda>i. wb (k + i) (x + i)) [0..<s] = writes_of (\<lambda>i. place_writes src wb wn (x + i)) [0..<s]"
    by (rule writes_of_cong) (use assms(4) in \<open>simp add: place_writes_def\<close>)
  ultimately show ?thesis by simp
qed

lemma fillsD:
  assumes "fills h W FILL D N a src wn" and "s = 1 \<or> s = D" and "x + s \<le> N"
    and "\<And>i. i < s \<Longrightarrow> src (x + i) = None"
  shows "acts h W (FILL s (ptr_at (w_bdest a) (int x))) (writes_of (\<lambda>i. place_writes src wb wn (x + i)) [0..<s])"
proof -
  have "acts h W (FILL s (ptr_at (w_bdest a) (int x))) (writes_of (\<lambda>i. wn (x + i)) [0..<s])"
    using assms unfolding fills_def by blast
  moreover have "writes_of (\<lambda>i. wn (x + i)) [0..<s] = writes_of (\<lambda>i. place_writes src wb wn (x + i)) [0..<s]"
    by (rule writes_of_cong) (use assms(4) in \<open>simp add: place_writes_def\<close>)
  ultimately show ?thesis by simp
qed

text \<open>A piece of code that writes the next \<open>n\<close> places.\<close>

definition so_far :: "byte_store \<Rightarrow> data_ptr set \<Rightarrow> (nat \<Rightarrow> data_ptr \<rightharpoonup> byte) \<Rightarrow> nat \<Rightarrow> byte_store \<Rightarrow> bool" where
  "so_far h W w x g \<longleftrightarrow> written (writes_of w [0..<x]) h g \<and> dom (writes_of w [0..<x]) \<subseteq> W"

lemma so_far_acts:
  assumes valid: "like h W h" and s: "so_far h W w x s"
    and f: "acts h W f (writes_of (\<lambda>i. w (x + i)) [0..<n])"
  shows "\<exists>g. f s = Inr g \<and> so_far h W w (x + n) g"
proof -
  have w: "written (writes_of w [0..<x]) h s" "dom (writes_of w [0..<x]) \<subseteq> W"
    using s by (simp_all add: so_far_def)
  have "like h W s" by (rule written_like [OF valid w])
  with f obtain g where g: "f s = Inr g" "written (writes_of (\<lambda>i. w (x + i)) [0..<n]) s g"
    unfolding acts_def by blast
  have dom: "dom (writes_of (\<lambda>i. w (x + i)) [0..<n]) \<subseteq> W" using f by (simp add: acts_def)
  have "[0..<x + n] = [0..<x] @ [x..<x + n]" by (rule upt_add_eq_append) simp
  then have all: "writes_of w [0..<x + n] = writes_of w [0..<x] ++ writes_of (\<lambda>i. w (x + i)) [0..<n]"
    by (simp add: writes_of_append writes_of_shift)
  have "written (writes_of w [0..<x + n]) h g" unfolding all by (rule written_trans [OF w(1) g(2)])
  moreover have "dom (writes_of w [0..<x + n]) \<subseteq> W" unfolding all using w(2) dom by simp
  ultimately have "so_far h W w (x + n) g" by (simp only: so_far_def)
  with g(1) show ?thesis by blast
qed

text \<open>The bytes of a part, one after the other; \<open>f\<close> copies or fills.\<close>

lemma part_bytes:
  assumes valid: "like h W h" and s: "so_far h W w x (s_bytes s)" "s_dest s = int x"
    and f: "\<And>i r. i < n \<Longrightarrow> s_src r = s_src s + int i \<Longrightarrow> s_dest r = int (x + i) \<Longrightarrow>
      \<exists>F. f r = F (s_bytes r) \<and> acts h W F (writes_of (\<lambda>j. w (x + i + j)) [0..<1])"
  shows "\<exists>r. efold (\<lambda>_ r. ebind (f r) (\<lambda>g. Inr (next_byte r g))) [0..<n] s = Inr r \<and> s_dest r = int (x + n) \<and>
    s_src r = s_src s + int n \<and> s_left r = s_left s \<and> so_far h W w (x + n) (s_bytes r)"
  using f
proof (induction n)
  case 0
  with s show ?case by simp
next
  case (Suc n)
  have "\<exists>r. efold (\<lambda>_ r. ebind (f r) (\<lambda>g. Inr (next_byte r g))) [0..<n] s = Inr r \<and> s_dest r = int (x + n) \<and>
    s_src r = s_src s + int n \<and> s_left r = s_left s \<and> so_far h W w (x + n) (s_bytes r)"
    by (rule Suc.IH) (rule Suc.prems, rule less_SucI)
  then obtain r where r:
    "efold (\<lambda>_ r. ebind (f r) (\<lambda>g. Inr (next_byte r g))) [0..<n] s = Inr r" "s_dest r = int (x + n)"
    "s_src r = s_src s + int n" "s_left r = s_left s" "so_far h W w (x + n) (s_bytes r)"
    by blast
  from Suc.prems [OF lessI r(3,2)] obtain F where F: "f r = F (s_bytes r)"
    "acts h W F (writes_of (\<lambda>j. w (x + n + j)) [0..<1])" by blast
  from so_far_acts [OF valid r(5) F(2)] obtain g where g: "f r = Inr g" "so_far h W w (x + n + 1) g" using F(1) by auto
  show ?case using r g by (simp add: efold_append next_byte_def)
qed

text \<open>The state when the first \<open>x\<close> places are done, and what the next fragment of \<open>n\<close> bytes has to be.\<close>

definition at_place :: "byte_store \<Rightarrow> data_ptr set \<Rightarrow> (nat \<Rightarrow> nat option) \<Rightarrow> (nat \<Rightarrow> data_ptr \<rightharpoonup> byte) \<Rightarrow> nat \<Rightarrow> nat \<Rightarrow>
    loop1_state \<Rightarrow> bool" where
  "at_place h W src w len x s \<longleftrightarrow>
     so_far h W w x (s_bytes s) \<and> s_dest s = int x \<and> s_left s = int len - int (hits src x)"

definition fragment :: "(nat \<Rightarrow> nat option) \<Rightarrow> loop1 \<Rightarrow> nat \<Rightarrow> nat \<Rightarrow> loop1_state \<Rightarrow> bool" where
  "fragment src a x n s \<longleftrightarrow>
     (if src_inside a s then \<forall>i < n. src (x + i) = Some (nat (s_src s) + i) else \<forall>i < n. src (x + i) = None)"

lemma part_step:
  assumes valid: "like h W h" and C: "copies h W COPY D N a src wb" and F: "fills h W FILL D N a src wn"
    and s: "at_place h W src (place_writes src wb wn) len x s" "0 < s_left s"
    and fr: "fragment src a x n s" and N: "x + n \<le> N"
  shows "\<exists>fin s'. word_part COPY FILL a (int n) s = Inr (fin, s') \<and>
    at_place h W src (place_writes src wb wn) len (x + n) s' \<and> s_src s' = s_src s + int n \<and> (fin \<longleftrightarrow> s_left s' \<le> 0)"
proof -
  let ?w = "place_writes src wb wn"
  have so: "so_far h W ?w x (s_bytes s)" "s_dest s = int x" "s_left s = int len - int (hits src x)"
    using s(1) by (simp_all add: at_place_def)
  show ?thesis
  proof (cases "src_inside a s")
    case True
    then have here: "\<And>i. i < n \<Longrightarrow> src (x + i) = Some (nat (s_src s) + i)" and pos: "0 \<le> s_src s"
      using fr by (simp_all add: fragment_def src_inside_def)
    have "\<exists>G. word_copy (COPY 1) a r = G (s_bytes r) \<and> acts h W G (writes_of (\<lambda>j. ?w (x + i + j)) [0..<1])"
      if "i < n" "s_src r = s_src s + int i" "s_dest r = int (x + i)" for i r
    proof -
      have "s_src r = int (nat (s_src s) + i)" using that(2) pos by simp
      moreover have "acts h W (COPY 1 (ptr_at (w_src a) (int (nat (s_src s) + i))) (ptr_at (w_bsrc a) (int (nat (s_src s) + i)))
          (ptr_at (w_dest a) (int (x + i))) (ptr_at (w_bdest a) (int (x + i)))) (writes_of (\<lambda>j. ?w (x + i + j)) [0..<1])"
        by (rule copiesD [OF C]) (use here [OF that(1)] that(1) N in simp_all)
      ultimately show ?thesis using that(3) by (auto simp: word_copy_def)
    qed
    from part_bytes [OF valid so(1,2) this] obtain r where r:
      "efold (\<lambda>_ r. ebind (word_copy (COPY 1) a r) (\<lambda>g. Inr (next_byte r g))) [0..<n] s = Inr r" "s_dest r = int (x + n)"
      "s_src r = s_src s + int n" "s_left r = s_left s" "so_far h W ?w (x + n) (s_bytes r)" by blast
    have "hits src (x + n) = hits src x + n" by (rule hits_add(1)) (use here in simp)
    then have "at_place h W src ?w len (x + n) (r\<lparr>s_left := s_left r - int n\<rparr>)" using r so(3) by (simp add: at_place_def)
    then show ?thesis using True r by (auto simp: word_part_def)
  next
    case False
    then have here: "\<And>i. i < n \<Longrightarrow> src (x + i) = None" using fr by (simp add: fragment_def)
    have "\<exists>G. FILL 1 (ptr_at (w_bdest a) (s_dest r)) (s_bytes r) = G (s_bytes r) \<and>
        acts h W G (writes_of (\<lambda>j. ?w (x + i + j)) [0..<1])"
      if "i < n" "s_src r = s_src s + int i" "s_dest r = int (x + i)" for i r
      using fillsD [OF F, of 1 "x + i" wb] here [OF that(1)] that(1,3) N by auto
    from part_bytes [OF valid so(1,2) this] obtain r where r:
      "efold (\<lambda>_ r. ebind (FILL 1 (ptr_at (w_bdest a) (s_dest r)) (s_bytes r)) (\<lambda>g. Inr (next_byte r g))) [0..<n] s = Inr r"
      "s_dest r = int (x + n)" "s_src r = s_src s + int n" "s_left r = s_left s" "so_far h W ?w (x + n) (s_bytes r)" by blast
    have "hits src (x + n) = hits src x" by (rule hits_add(2)) (use here in simp)
    then have "at_place h W src ?w len (x + n) r" using r so(3) by (simp add: at_place_def)
    then show ?thesis using False r s(2) by (auto simp: word_part_def)
  qed
qed

lemma full_step:
  assumes valid: "like h W h" and C: "copies h W COPY D N a src wb" and F: "fills h W FILL D N a src wn"
    and s: "at_place h W src (place_writes src wb wn) len x s" "0 < s_left s"
    and fr: "fragment src a x D s" and N: "x + D \<le> N" and al: "int D dvd s_src s"
  shows "\<exists>fin s'. word_full COPY FILL a D s = Inr (fin, s') \<and>
    at_place h W src (place_writes src wb wn) len (x + D) s' \<and> (fin \<longleftrightarrow> s_left s' \<le> 0) \<and>
    (\<not> fin \<longrightarrow> s_src s' = s_src s - int D)"
proof -
  let ?w = "place_writes src wb wn"
  have so: "so_far h W ?w x (s_bytes s)" "s_dest s = int x" "s_left s = int len - int (hits src x)"
    using s(1) by (simp_all add: at_place_def)
  show ?thesis
  proof (cases "src_inside a s")
    case True
    define k where "k = nat (s_src s)"
    have k: "s_src s = int k" using True by (simp add: k_def src_inside_def)
    have here: "\<And>i. i < D \<Longrightarrow> src (x + i) = Some (k + i)" using fr True by (simp add: fragment_def k_def)
    have "acts h W (COPY D (ptr_at (w_src a) (int k)) (ptr_at (w_bsrc a) (int k))
          (ptr_at (w_dest a) (int x)) (ptr_at (w_bdest a) (int x))) (writes_of (\<lambda>j. ?w (x + j)) [0..<D])"
      by (rule copiesD [OF C]) (use here al k N in simp_all)
    from so_far_acts [OF valid so(1) this] obtain g where g: "word_copy (COPY D) a s = Inr g" "so_far h W ?w (x + D) g"
      using so(2) k by (auto simp: word_copy_def)
    have "hits src (x + D) = hits src x + D" by (rule hits_add(1)) (use here in simp)
    then show ?thesis
      using True g so by (cases "s_left s \<le> int D") (auto simp: word_full_def Let_def at_place_def)
  next
    case False
    then have here: "\<And>i. i < D \<Longrightarrow> src (x + i) = None" using fr by (simp add: fragment_def)
    have "acts h W (FILL D (ptr_at (w_bdest a) (int x))) (writes_of (\<lambda>j. ?w (x + j)) [0..<D])"
      by (rule fillsD [OF F]) (use here N in simp_all)
    from so_far_acts [OF valid so(1) this] obtain g where
      g: "FILL D (ptr_at (w_bdest a) (s_dest s)) (s_bytes s) = Inr g" "so_far h W ?w (x + D) g" using so(2) by auto
    have "hits src (x + D) = hits src x" by (rule hits_add(2)) (use here in simp)
    then show ?thesis using False g so s(2) by (auto simp: word_full_def Let_def at_place_def)
  qed
qed

section \<open>A turn of the loop\<close>

text \<open>
  The byte of the initiator at place \<open>x\<close>: bus word \<open>m\<close>, byte \<open>i\<close> in it. The first \<open>len0\<close> bytes end a data word
  whose other bytes are in the bus word before; the last ones begin a data word.
\<close>

definition len_0 :: "nat \<Rightarrow> nat \<Rightarrow> nat \<Rightarrow> nat" where "len_0 D B off = (B - off) mod D"
definition word_index :: "nat \<Rightarrow> nat \<Rightarrow> nat \<Rightarrow> nat \<Rightarrow> int" where
  "word_index D B off m = (int (m * B) + int B - int off) div int D"

definition src_index :: "nat \<Rightarrow> nat \<Rightarrow> nat \<Rightarrow> nat \<Rightarrow> nat \<Rightarrow> int" where
  "src_index D B off m i =
     (if i < len_0 D B off then word_index D B off m * int D + int (D - len_0 D B off) + int i
      else (word_index D B off m - 1 - int ((i - len_0 D B off) div D)) * int D + int ((i - len_0 D B off) mod D))"

definition word_source :: "nat \<Rightarrow> nat \<Rightarrow> nat \<Rightarrow> nat \<Rightarrow> nat \<Rightarrow> nat option" where
  "word_source D B off len x =
     (let k = src_index D B off (x div B) (x mod B) in if 0 \<le> k \<and> k < int len then Some (nat k) else None)"

definition word_args :: "loop1 \<Rightarrow> nat \<Rightarrow> nat \<Rightarrow> nat \<Rightarrow> nat \<Rightarrow> bool" where
  "word_args a D B off len \<longleftrightarrow> w_len0 a = int (len_0 D B off) \<and> w_lenN a = int (D - len_0 D B off) \<and>
     w_sizeof_databus a = int B \<and> w_end a = int len"

lemma until_return_simps [simp]:
  "until_return f (True, s) = Inr (True, s)" "until_return f (False, s) = f s"
  by (simp_all add: until_return_def)

lemma len_0_less: "0 < D \<Longrightarrow> len_0 D B off < D"
  by (simp add: len_0_def)

lemma same_word:
  fixes q :: int
  assumes "D dvd len" "0 < D" "r < D"
  shows "0 \<le> q * int D + int r \<and> q * int D + int r < int len \<longleftrightarrow> 0 \<le> q \<and> q * int D < int len"
proof -
  obtain c where c: "len = c * D" using assms(1) by (metis dvd_def mult.commute)
  have "q * int D + int r < int c * int D \<longleftrightarrow> q < int c"
  proof
    assume "q * int D + int r < int c * int D"
    then have "q * int D < int c * int D" by simp
    then show "q < int c" using assms(2) by simp
  next
    assume "q < int c"
    then have "(q + 1) * int D \<le> int c * int D" by (intro mult_right_mono) simp_all
    then show "q * int D + int r < int c * int D" using assms(3) by (simp add: algebra_simps)
  qed
  moreover have "0 \<le> q * int D + int r \<longleftrightarrow> 0 \<le> q"
  proof
    assume "0 \<le> q * int D + int r"
    then have "- int D < q * int D" using assms(3) by simp
    then have "-1 * int D < q * int D" by simp
    then have "-1 < q" using assms(2) by (simp only: mult_less_cancel_right)
    then show "0 \<le> q" by simp
  qed simp
  ultimately show ?thesis using c assms(2) by simp
qed

text \<open>A piece of one data word, from its byte \<open>r\<close>, is a fragment.\<close>

lemma word_fragment:
  assumes D: "D dvd len" "0 < D" "r + n \<le> D" and a: "w_end a = int len" and s: "s_src s = q * int D + int r"
    and x: "x = m * B + i" "i + n \<le> B"
    and idx: "\<And>j. j < n \<Longrightarrow> src_index D B off m (i + j) = q * int D + int (r + j)"
  shows "fragment (word_source D B off len) a x n s"
proof (cases "n = 0")
  case False
  have inside: "src_inside a s \<longleftrightarrow> 0 \<le> q \<and> q * int D < int len"
    using same_word [OF D(1,2), of r q] D(3) False s a by (simp add: src_inside_def)
  have src: "word_source D B off len (x + j) = (if src_inside a s then Some (nat (s_src s) + j) else None)" if j: "j < n" for j
  proof -
    have ij: "i + j < B" using x(2) j by simp
    then have "(x + j) div B = m" "(x + j) mod B = i + j"
      using x(1) by (simp_all add: add.assoc)
    then have k: "word_source D B off len (x + j) =
      (let k = q * int D + int (r + j) in if 0 \<le> k \<and> k < int len then Some (nat k) else None)"
      using idx [OF j] by (simp add: word_source_def)
    have "r + j < D" using D(3) j by simp
    from same_word [OF D(1,2) this, of q] have "src_inside a s \<longleftrightarrow> 0 \<le> q * int D + int (r + j) \<and> q * int D + int (r + j) < int len"
      using inside by simp
    moreover have "nat (q * int D + int (r + j)) = nat (s_src s) + j" if "src_inside a s"
    proof -
      have "q * int D + int (r + j) = s_src s + int j" using s by simp
      then have "nat (q * int D + int (r + j)) = nat (s_src s + int j)" by (rule arg_cong)
      also have "\<dots> = nat (s_src s) + j" using that by (simp add: src_inside_def nat_add_distrib)
      finally show ?thesis .
    qed
    ultimately show ?thesis using k by (auto simp: Let_def)
  qed
  then show ?thesis by (simp add: fragment_def)
qed (simp add: fragment_def)

lemma src_index_part0: "i < len_0 D B off \<Longrightarrow>
    src_index D B off m i = word_index D B off m * int D + int (D - len_0 D B off + i)"
  by (simp add: src_index_def)

lemma src_index_full:
  assumes "r < D"
  shows "src_index D B off m (len_0 D B off + j * D + r) = (word_index D B off m - 1 - int j) * int D + int r"
proof -
  have "(len_0 D B off + j * D + r - len_0 D B off) = j * D + r" by simp
  moreover have "(j * D + r) div D = j" "(j * D + r) mod D = r" using assms by simp_all
  ultimately show ?thesis by (simp add: src_index_def)
qed

text \<open>What the loop is given, and where it is at the start of bus word \<open>m\<close>.\<close>

definition word_start_at :: "nat \<Rightarrow> nat \<Rightarrow> nat \<Rightarrow> nat \<Rightarrow> int" where
  "word_start_at D B off m = word_index D B off m * int D + int (D - len_0 D B off)"

definition stopped :: "byte_store \<Rightarrow> data_ptr set \<Rightarrow> (nat \<Rightarrow> nat option) \<Rightarrow> (nat \<Rightarrow> data_ptr \<rightharpoonup> byte) \<Rightarrow> nat \<Rightarrow> nat \<Rightarrow>
    loop1_state \<Rightarrow> bool" where
  "stopped h W src w len N s \<longleftrightarrow> s_left s \<le> 0 \<and> (\<exists>x \<le> N. at_place h W src w len x s)"

lemma fulls_run:
  assumes valid: "like h W h" and C: "copies h W COPY D N a (word_source D B off len) wb"
    and F: "fills h W FILL D N a (word_source D B off len) wn"
    and D: "D dvd len" "0 < D" and B: "B = wpb * D" and a: "word_args a D B off len"
    and s: "at_place h W (word_source D B off len) (place_writes (word_source D B off len) wb wn) len (m * B + len_0 D B off) s"
      "0 < s_left s" "s_src s = (word_index D B off m - 1) * int D"
    and N: "m * B + B \<le> N" and c: "c < wpb"
  shows "\<exists>fin s'. efold (\<lambda>i. until_return (word_full COPY FILL a D)) [1..<Suc c] (False, s) = Inr (fin, s') \<and>
    (if fin then stopped h W (word_source D B off len) (place_writes (word_source D B off len) wb wn) len N s'
     else at_place h W (word_source D B off len) (place_writes (word_source D B off len) wb wn) len
         (m * B + len_0 D B off + c * D) s' \<and> 0 < s_left s' \<and> s_src s' = (word_index D B off m - 1 - int c) * int D)"
  using c
proof (induction c)
  case 0
  then show ?case using s by (intro exI [of _ False]) simp
next
  case (Suc c)
  let ?src = "word_source D B off len" and ?f = "\<lambda>i :: nat. until_return (word_full COPY FILL a D)"
  let ?w = "place_writes ?src wb wn" and ?x = "m * B + len_0 D B off + c * D"
  from Suc obtain fin s1 where one: "efold ?f [1..<Suc c] (False, s) = Inr (fin, s1)"
    and s1: "if fin then stopped h W ?src ?w len N s1
      else at_place h W ?src ?w len ?x s1 \<and> 0 < s_left s1 \<and> s_src s1 = (word_index D B off m - 1 - int c) * int D"
    by auto
  have step: "efold ?f [1..<Suc (Suc c)] (False, s) = until_return (word_full COPY FILL a D) (fin, s1)"
    using one by (simp add: efold_append)
  show ?case
  proof (cases fin)
    case True
    then show ?thesis using step s1
      by (intro exI [of _ True] exI [of _ s1]) (simp del: upt_Suc)
  next
    case False
    with s1 have s1: "at_place h W ?src ?w len ?x s1" "0 < s_left s1"
      "s_src s1 = (word_index D B off m - 1 - int c) * int D" by auto
    have room: "len_0 D B off + c * D + D \<le> B"
    proof -
      have "(Suc c + 1) * D \<le> wpb * D" by (rule mult_le_mono1) (use Suc.prems in simp)
      then show ?thesis using B len_0_less [OF D(2), of B off] by simp
    qed
    have fr: "fragment ?src a ?x D s1"
    proof (rule word_fragment [where q = "word_index D B off m - 1 - int c" and r = 0])
      show "src_index D B off m (len_0 D B off + c * D + j) = (word_index D B off m - 1 - int c) * int D + int (0 + j)"
        if "j < D" for j using src_index_full [OF that] by simp
    qed (use D a s1(3) room in \<open>simp_all add: word_args_def add.assoc\<close>)
    have N': "?x + D \<le> N" using room N by simp
    have al: "int D dvd s_src s1" using s1(3) by simp
    from full_step [OF valid C F s1(1,2) fr N' al] obtain fin' s' where
      s': "word_full COPY FILL a D s1 = Inr (fin', s')" "at_place h W ?src ?w len (?x + D) s'"
      "fin' \<longleftrightarrow> s_left s' \<le> 0" "\<not> fin' \<longrightarrow> s_src s' = s_src s1 - int D" by blast
    have "efold ?f [1..<Suc (Suc c)] (False, s) = Inr (fin', s')" using step False s'(1)
      by (simp del: upt_Suc)
    moreover have "if fin' then stopped h W ?src ?w len N s'
      else at_place h W ?src ?w len (m * B + len_0 D B off + Suc c * D) s' \<and> 0 < s_left s' \<and>
        s_src s' = (word_index D B off m - 1 - int (Suc c)) * int D"
    proof (cases fin')
      case True
      then show ?thesis using s'(2,3) N' by (auto simp: stopped_def)
    next
      case False
      then show ?thesis using s' s1(3) by (simp add: algebra_simps)
    qed
    ultimately show ?thesis by blast
  qed
qed

lemma turn_step:
  assumes valid: "like h W h" and C: "copies h W COPY D N a (word_source D B off len) wb"
    and F: "fills h W FILL D N a (word_source D B off len) wn"
    and D: "D dvd len" "0 < D" and B: "B = wpb * D" "off < B" and a: "word_args a D B off len"
    and s: "at_place h W (word_source D B off len) (place_writes (word_source D B off len) wb wn) len (m * B) s"
      "0 < s_left s" "s_src s = word_start_at D B off m"
    and N: "m * B + B \<le> N"
  shows "\<exists>fin s'. word_turn COPY FILL a D s = Inr (fin, s') \<and>
    (if fin then stopped h W (word_source D B off len) (place_writes (word_source D B off len) wb wn) len N s'
     else at_place h W (word_source D B off len) (place_writes (word_source D B off len) wb wn) len (Suc m * B) s' \<and>
       0 < s_left s' \<and> s_src s' = word_start_at D B off (Suc m))"
proof -
  let ?src = "word_source D B off len"
  let ?w = "place_writes ?src wb wn" and ?q = "word_index D B off m" and ?l = "len_0 D B off"
  have wpb: "0 < wpb" using B by (cases wpb) simp_all
  have l: "?l < D" by (rule len_0_less [OF D(2)])
  have al: "w_len0 a = int ?l" "w_lenN a = int (D - ?l)" "w_sizeof_databus a = int B" "w_end a = int len"
    using a by (simp_all add: word_args_def)
  have turns: "nat (w_sizeof_databus a) div D = wpb" using D(2) unfolding al(3) nat_int B(1) by simp
  have sum: "?l + (wpb - 1) * D + (D - ?l) = B"
  proof -
    have "(wpb - 1) * D + D = wpb * D" using wpb by (cases wpb) simp_all
    then show ?thesis using B(1) l by simp
  qed
  have fr0: "fragment ?src a (m * B) ?l s"
  proof (rule word_fragment [where q = ?q and r = "D - ?l" and i = 0 and m = m])
    show "src_index D B off m (0 + j) = ?q * int D + int (D - ?l + j)" if "j < ?l" for j using src_index_part0 [OF that] by simp
  qed (use D l al(4) s(3) sum in \<open>simp_all add: word_start_at_def\<close>)
  have "m * B + ?l \<le> N" using N sum by simp
  from part_step [OF valid C F s(1,2) fr0 this] obtain fin1 s1 where
    one: "word_part COPY FILL a (w_len0 a) s = Inr (fin1, s1)" "at_place h W ?src ?w len (m * B + ?l) s1"
      "s_src s1 = s_src s + int ?l" "fin1 \<longleftrightarrow> s_left s1 \<le> 0" unfolding al(1) by blast
  show ?thesis
  proof (cases fin1)
    case True
    have "stopped h W ?src ?w len N s1" using one(2,4) True \<open>m * B + ?l \<le> N\<close> by (auto simp: stopped_def)
    moreover have "word_turn COPY FILL a D s = Inr (True, s1)" using one(1) True by (simp add: word_turn_def)
    ultimately show ?thesis by (intro exI [of _ True] exI [of _ s1]) simp
  next
    case False
    define s2 where "s2 = s1\<lparr>s_src := s_src s1 - 2 * int D\<rparr>"
    have s2: "at_place h W ?src ?w len (m * B + ?l) s2" "0 < s_left s2" "s_src s2 = (?q - 1) * int D"
    proof -
      have "s_src s1 = ?q * int D + int D" using one(3) s(3) l by (simp add: word_start_at_def of_nat_diff)
      then show "s_src s2 = (?q - 1) * int D" by (simp add: s2_def algebra_simps)
    qed (use one(2,4) False in \<open>simp_all add: s2_def at_place_def\<close>)
    obtain fin2 s3 where two: "efold (\<lambda>i. until_return (word_full COPY FILL a D)) [1..<wpb] (False, s2) = Inr (fin2, s3)"
      and s3: "if fin2 then stopped h W ?src ?w len N s3
        else at_place h W ?src ?w len (m * B + ?l + (wpb - 1) * D) s3 \<and> 0 < s_left s3 \<and>
          s_src s3 = (?q - 1 - int (wpb - 1)) * int D"
      using fulls_run [OF valid C F D B(1) a s2 N, of "wpb - 1"] wpb by auto
    have turn: "word_turn COPY FILL a D s = until_return (\<lambda>s2. ebind (word_part COPY FILL a (w_lenN a) s2)
        (until_return (\<lambda>s3. Inr (False, s3\<lparr>s_src := s_src s3 + 2 * w_sizeof_databus a\<rparr>)))) (fin2, s3)"
      using one(1) False two unfolding word_turn_def turns by (simp add: s2_def)
    show ?thesis
    proof (cases fin2)
      case True
      then show ?thesis using turn s3 by (intro exI [of _ True] exI [of _ s3]) simp
    next
      case False
      let ?x = "m * B + ?l + (wpb - 1) * D"
      have s3: "at_place h W ?src ?w len ?x s3" "0 < s_left s3" "s_src s3 = (?q - 1 - int (wpb - 1)) * int D"
        using s3 False by auto
      have frN: "fragment ?src a ?x (D - ?l) s3"
      proof (rule word_fragment [where q = "?q - 1 - int (wpb - 1)" and r = 0 and i = "?l + (wpb - 1) * D"])
        show "src_index D B off m (?l + (wpb - 1) * D + j) = (?q - 1 - int (wpb - 1)) * int D + int (0 + j)"
          if "j < D - ?l" for j using src_index_full [of j D B off m "wpb - 1"] that by simp
      qed (use D s3(3) al(4) sum in \<open>simp_all add: add.assoc\<close>)
      have xN: "?x + (D - ?l) = Suc m * B" using sum by simp
      then have "?x + (D - ?l) \<le> N" using N by simp
      from part_step [OF valid C F s3(1,2) frN this] obtain fin3 s4 where
        three: "word_part COPY FILL a (w_lenN a) s3 = Inr (fin3, s4)" "at_place h W ?src ?w len (Suc m * B) s4"
          "s_src s4 = s_src s3 + int (D - ?l)" "fin3 \<longleftrightarrow> s_left s4 \<le> 0" unfolding al(2) xN by blast
      show ?thesis
      proof (cases fin3)
        case True
        have "stopped h W ?src ?w len N s4" using three(2,4) True N by (auto simp: stopped_def intro!: exI [of _ "Suc m * B"])
        moreover have "word_turn COPY FILL a D s = Inr (True, s4)" using turn three(1) True False by simp
        ultimately show ?thesis by (intro exI [of _ True] exI [of _ s4]) simp
      next
        case fin3: False
        let ?s5 = "s4\<lparr>s_src := s_src s4 + 2 * int B\<rparr>"
        have "word_turn COPY FILL a D s = Inr (False, ?s5)" using turn three(1) fin3 False al(3) by simp
        moreover have "at_place h W ?src ?w len (Suc m * B) ?s5" "0 < s_left ?s5"
          using three(2,4) fin3 by (simp_all add: at_place_def)
        moreover have "s_src ?s5 = word_start_at D B off (Suc m)"
        proof -
          have Bw: "int B = int wpb * int D" using B by simp
          have "word_index D B off (Suc m) = (int (m * B) + int B - int off + int wpb * int D) div int D"
            by (simp add: word_index_def Bw algebra_simps)
          also have "\<dots> = ?q + int wpb" using D(2) by (simp add: word_index_def)
          finally have "word_index D B off (Suc m) = ?q + int wpb" .
          then show ?thesis using three(3) s3(3) wpb Bw
            by (simp add: word_start_at_def algebra_simps of_nat_diff)
        qed
        ultimately show ?thesis by (intro exI [of _ False] exI [of _ ?s5]) simp
      qed
    qed
  qed
qed

section \<open>The source of a place\<close>

text \<open>The source of a place is the byte that the initiator has for its address.\<close>

lemma word_index_nat:
  assumes "off < B"
  shows "word_index D B off m = int ((m * B + B - off) div D)"
proof -
  have "int (m * B) + int B - int off = int (m * B + B - off)" using assms by simp
  then show ?thesis unfolding word_index_def by (simp only: zdiv_int)
qed

lemma word_split:
  assumes "off < B" "D dvd B"
  shows "m * B + B - off = (m * B + B - off) div D * D + len_0 D B off"
proof -
  have "(m * B + (B - off)) mod D = (B - off) mod D" using assms(2) by (simp add: mod_mult_right_eq mod_add_left_eq [symmetric])
  then have "(m * B + B - off) mod D = len_0 D B off" using assms(1) by (simp add: len_0_def)
  then show ?thesis by (metis div_mult_mod_eq)
qed

lemma flip_pos:
  assumes "r < D"
  shows "flip D (q * D + r) = q * D + (D - 1 - r)"
proof -
  have "(q * D + r) div D = q" "(q * D + r) mod D = r" using assms by simp_all
  then show ?thesis by (simp add: flip_def)
qed

lemma word_source_place:
  assumes D: "D dvd len" "0 < D" "D dvd B" and B: "0 < B" "off < B" and x: "x = m * B + i" "i < B"
  shows "word_source D B off len x =
    (let y = flip B x in if off \<le> y \<and> y < off + len then Some (flip D (y - off)) else None)"
proof -
  define q where "q = (m * B + B - off) div D"
  let ?l = "len_0 D B off" and ?y = "m * B + (B - 1 - i)"
  have l: "?l < D" by (rule len_0_less [OF D(2)])
  have y: "flip B x = ?y" unfolding x(1) by (rule flip_pos [OF x(2)])
  have qB: "m * B + B = off + q * D + ?l" using word_split [OF B(2) D(3), of m] B(2) by (simp add: q_def)
  have src: "word_source D B off len x = (let k = src_index D B off m i in if 0 \<le> k \<and> k < int len then Some (nat k) else None)"
    using x by (simp add: word_source_def)
  have wi: "word_index D B off m = int q" using word_index_nat [OF B(2)] by (simp add: q_def)
  show ?thesis
  proof (cases "i < ?l")
    case True
    define r where "r = ?l - 1 - i"
    have r: "r < D" "r + 1 + i = ?l" using True l by (simp_all add: r_def)
    have yo: "?y = off + (q * D + r)" using qB r(2) x(2) by linarith
    have k: "src_index D B off m i = int q * int D + int (D - 1 - r)"
      using True l r(2) by (simp add: src_index_def wi of_nat_diff)
    have "0 \<le> int q * int D + int (D - 1 - r) \<and> int q * int D + int (D - 1 - r) < int len \<longleftrightarrow>
      0 \<le> int q * int D + int r \<and> int q * int D + int r < int len"
      using same_word [OF D(1,2), of "D - 1 - r" "int q"] same_word [OF D(1,2), of r "int q"] r(1) D(2) by simp
    then have "0 \<le> src_index D B off m i \<and> src_index D B off m i < int len \<longleftrightarrow> q * D + r < len"
      unfolding k by (simp flip: of_nat_mult of_nat_add)
    moreover have "nat (src_index D B off m i) = flip D (q * D + r)"
      unfolding k flip_pos [OF r(1)] by (simp flip: of_nat_mult of_nat_add)
    ultimately show ?thesis unfolding src y yo by (simp add: Let_def)
  next
    case False
    define j where "j = (i - ?l) div D"
    define r where "r = (i - ?l) mod D"
    have r: "r < D" using D(2) by (simp add: r_def)
    have i: "i = ?l + j * D + r" using False by (simp add: j_def r_def)
    have k: "src_index D B off m i = (int q - 1 - int j) * int D + int r"
      using src_index_full [OF r, of B off m j] i wi by simp
    show ?thesis
    proof (cases "j + 1 \<le> q")
      case True
      then obtain p where p: "q = p + 1 + j" by (metis add.assoc add.commute le_Suc_ex)
      have yo: "?y = off + (p * D + (D - 1 - r))" using qB i r x(2) p by (simp add: algebra_simps)
      have kp: "src_index D B off m i = int p * int D + int r" using k p by simp
      have r': "D - 1 - r < D" using D(2) by simp
      have "0 \<le> int p * int D + int r \<and> int p * int D + int r < int len \<longleftrightarrow>
        0 \<le> int p * int D + int (D - 1 - r) \<and> int p * int D + int (D - 1 - r) < int len"
        using same_word [OF D(1,2) r', of "int p"] same_word [OF D(1,2) r, of "int p"] by simp
      then have "0 \<le> src_index D B off m i \<and> src_index D B off m i < int len \<longleftrightarrow> p * D + (D - 1 - r) < len"
        unfolding kp by (simp flip: of_nat_mult of_nat_add)
      moreover have "nat (src_index D B off m i) = flip D (p * D + (D - 1 - r))"
        unfolding kp flip_pos [OF r'] using r by (simp flip: of_nat_mult of_nat_add)
      ultimately show ?thesis unfolding src y yo by (simp add: Let_def)
    next
      case False
      have "(int q - 1 - int j) * int D \<le> -1 * int D" by (rule mult_right_mono) (use False in simp_all)
      then have "src_index D B off m i < 0" using k r by simp
      moreover have "?y < off"
      proof -
        have "q * D \<le> j * D" by (rule mult_le_mono1) (use False in simp)
        then have "off + q * D + ?l \<le> off + i" using i by linarith
        then show ?thesis using qB x(2) by linarith
      qed
      ultimately show ?thesis unfolding src y by (simp add: Let_def)
    qed
  qed
qed

lemma word_source_index:
  assumes D: "D dvd unat (gp_length t)" "0 < D" "D dvd B" and B: "0 < B"
    and off: "off = unat (gp_address t) - bus_base B (unat (gp_address t))"
    and x: "bus_base B (unat (gp_address t)) + x < 2 ^ 64" and a: "unat a' = bus_base B (unat (gp_address t))"
  shows "initiator_index D B t (a' + of_nat x) = word_source D B off (unat (gp_length t)) x"
proof -
  let ?A = "unat (gp_address t)"
  have A: "?A = bus_base B ?A + off" using off bus_base_le [of B ?A] by simp
  have "off < B" using off bus_base_less [OF B, of ?A] bus_base_le [of B ?A] by linarith
  then have ws: "word_source D B off (unat (gp_length t)) x =
    (let y = flip B x in if off \<le> y \<and> y < off + unat (gp_length t) then Some (flip D (y - off)) else None)"
    by (intro word_source_place [where m = "x div B" and i = "x mod B"]) (use D B in simp_all)
  have "unat (a' + of_nat x) = bus_base B ?A + x" using x a by (simp add: unat_word_ariths unat_of_nat)
  moreover have "flip B (bus_base B ?A + x) = bus_base B ?A + flip B x"
    by (rule flip_add [OF B]) (simp add: bus_base_def)
  moreover have "bus_base B ?A + y - ?A = y - off" "?A \<le> bus_base B ?A + y \<longleftrightarrow> off \<le> y"
    "bus_base B ?A + y < ?A + n \<longleftrightarrow> y < off + n" for y n using A by linarith+
  ultimately show ?thesis unfolding ws initiator_index_def Let_def by simp
qed

section \<open>The loop ends when every byte is done\<close>

lemma hits_card: "hits src x = card {y. y < x \<and> src y \<noteq> None}"
proof -
  have "{y. y < x \<and> src y \<noteq> None} = set (filter (\<lambda>y. src y \<noteq> None) [0..<x])" by auto
  also have "card \<dots> = hits src x" unfolding hits_def by (rule distinct_card) simp
  finally show ?thesis by simp
qed

text \<open>\<open>pl\<close> lists the places of the bytes.\<close>

lemma hits_all:
  assumes inj: "inj_on pl {..<len}" and src: "\<And>m. m < len \<Longrightarrow> src (pl m) \<noteq> None"
    and pl: "\<And>m. m < len \<Longrightarrow> pl m < x"
  shows "len \<le> hits src x"
proof -
  have "card (pl ` {..<len}) \<le> card {y. y < x \<and> src y \<noteq> None}"
    by (rule card_mono) (use src pl in auto)
  then show ?thesis using card_image [OF inj] by (simp add: hits_card)
qed

lemma all_hit:
  assumes inj: "inj_on pl {..<len}" and onto: "\<And>y k. y < x \<Longrightarrow> src y = Some k \<Longrightarrow> \<exists>m < len. y = pl m"
    and hits: "len \<le> hits src x" and m: "m < len"
  shows "pl m < x"
proof -
  have sub: "{y. y < x \<and> src y \<noteq> None} \<subseteq> pl ` {..<len}" using onto by auto
  have "{y. y < x \<and> src y \<noteq> None} = pl ` {..<len}"
    by (rule card_seteq [OF _ sub]) (use hits card_image [OF inj] in \<open>simp_all add: hits_card\<close>)
  then show ?thesis using m by auto
qed

lemma loop_run:
  assumes valid: "like h W h" and C: "copies h W COPY D N a (word_source D B off len) wb"
    and F: "fills h W FILL D N a (word_source D B off len) wn"
    and D: "D dvd len" "0 < D" and B: "B = wpb * D" "off < B" and a: "word_args a D B off len"
    and N: "off + len + B \<le> N"
    and full: "\<And>m. off + len \<le> m * B \<Longrightarrow> len \<le> hits (word_source D B off len) (m * B)"
    and s: "at_place h W (word_source D B off len) (place_writes (word_source D B off len) wb wn) len (m * B) s"
      "0 < s_left s" "s_src s = word_start_at D B off m"
  shows "\<exists>x g. loop_word1 COPY FILL a D s = Some (Inr (int x, g)) \<and> x \<le> N \<and>
    so_far h W (place_writes (word_source D B off len) wb wn) x g \<and> len \<le> hits (word_source D B off len) x"
  using s
proof (induction "off + len - m * B" arbitrary: m s rule: less_induct)
  case less
  let ?src = "word_source D B off len"
  have left: "hits ?src (m * B) < len" using less.prems(1,2) by (simp add: at_place_def)
  then have lt: "m * B < off + len" using full [of m] by (meson not_less)
  then have "m * B + B \<le> N" using N by simp
  from turn_step [OF valid C F D B a less.prems this] obtain fin s' where
    turn: "word_turn COPY FILL a D s = Inr (fin, s')"
    and s': "if fin then stopped h W ?src (place_writes ?src wb wn) len N s'
      else at_place h W ?src (place_writes ?src wb wn) len (Suc m * B) s' \<and> 0 < s_left s' \<and>
        s_src s' = word_start_at D B off (Suc m)" by blast
  show ?case
  proof (cases fin)
    case True
    then obtain x where x: "x \<le> N" "at_place h W ?src (place_writes ?src wb wn) len x s'" "s_left s' \<le> 0"
      using s' by (auto simp: stopped_def)
    have "loop_word1 COPY FILL a D s = Some (Inr (int x, s_bytes s'))"
      using turn True x(2) by (subst loop_word1.simps) (simp add: at_place_def)
    then show ?thesis using x by (auto simp: at_place_def)
  next
    case False
    have B0: "0 < B" using B(2) by simp
    have "off + len - Suc m * B < off + len - m * B" using lt B0 by simp
    moreover have "at_place h W ?src (place_writes ?src wb wn) len (Suc m * B) s'" "0 < s_left s'"
      "s_src s' = word_start_at D B off (Suc m)" using s' False by (simp_all del: mult_Suc)
    ultimately have "\<exists>x g. loop_word1 COPY FILL a D s' = Some (Inr (int x, g)) \<and> x \<le> N \<and>
      so_far h W (place_writes ?src wb wn) x g \<and> len \<le> hits ?src x" by (rule less.hyps)
    then obtain x g where x:
      "loop_word1 COPY FILL a D s' = Some (Inr (int x, g))" "x \<le> N" "so_far h W (place_writes ?src wb wn) x g"
      "len \<le> hits ?src x" by blast
    have "loop_word1 COPY FILL a D s = loop_word1 COPY FILL a D s'"
      using turn False by (subst loop_word1.simps) simp
    then show ?thesis using x by auto
  qed
qed

end
