(* ===== verification/Endian_Word_Conv.thy ===== *)
theory Endian_Word_Conv
  imports Endian_Word
begin

text \<open>
  The request and the response by data words: the copiers and fillers that they give to the loop write what the
  loop expects, the masks are the numbers of the loop, and so the payload is converted as by the generic functions.
\<close>

section \<open>Several bytes at once\<close>

lemma load_bytes_all:
  assumes "\<And>i. i < n \<Longrightarrow> load_byte g (ptr_at s (int i)) = Inr (v i)"
  shows "load_bytes n s g = Inr (map v [0..<n])"
  using assms
proof (induction n arbitrary: s v)
  case (Suc n)
  have "load_bytes n (ptr_at s 1) g = Inr (map (\<lambda>i. v (Suc i)) [0..<n])"
  proof (rule Suc.IH)
    fix i assume "i < n"
    then show "load_byte g (ptr_at (ptr_at s 1) (int i)) = Inr (v (Suc i))" using Suc.prems [of "Suc i"] by simp
  qed
  moreover have "load_byte g s = Inr (v 0)" using Suc.prems [of 0] by simp
  moreover have "map v [0..<Suc n] = v 0 # map (\<lambda>i. v (Suc i)) [0..<n]"
    by (simp add: upt_conv_Cons map_Suc_upt [symmetric] del: upt_Suc)
  ultimately show ?case by simp
qed simp

lemma store_bytes_acts:
  assumes "\<And>i. i < length xs \<Longrightarrow> ptr_at p (int i) \<in> W"
  shows "acts h W (store_bytes p xs) (writes_of (\<lambda>i. [ptr_at p (int i) \<mapsto> xs ! i]) [0..<length xs])"
  using assms
proof (induction xs arbitrary: p)
  case Nil
  have "acts h W Inr Map.empty" by (rule acts_skip)
  then show ?case by (rule acts_cong) simp_all
next
  case (Cons x xs)
  have "acts h W (store_bytes (ptr_at p 1) xs) (writes_of (\<lambda>i. [ptr_at (ptr_at p 1) (int i) \<mapsto> xs ! i]) [0..<length xs])"
  proof (rule Cons.IH)
    fix i assume "i < length xs"
    then show "ptr_at (ptr_at p 1) (int i) \<in> W" using Cons.prems [of "Suc i"] by simp
  qed
  moreover have "acts h W (store_byte p x) [p \<mapsto> x]" by (rule acts_store) (use Cons.prems [of 0] in simp)
  ultimately have both: "acts h W (\<lambda>s. ebind (store_byte p x s) (store_bytes (ptr_at p 1) xs))
      ([p \<mapsto> x] ++ writes_of (\<lambda>i. [ptr_at (ptr_at p 1) (int i) \<mapsto> xs ! i]) [0..<length xs])"
    by (intro acts_seq)
  have all: "writes_of (\<lambda>i. [ptr_at p (int i) \<mapsto> (x # xs) ! i]) [0..<length (x # xs)] =
      [p \<mapsto> x] ++ writes_of (\<lambda>i. [ptr_at (ptr_at p 1) (int i) \<mapsto> xs ! i]) [0..<length xs]"
  proof -
    have l: "[0..<length (x # xs)] = 0 # map Suc [0..<length xs]" by (simp add: map_Suc_upt upt_conv_Cons del: upt_Suc)
    show ?thesis unfolding l writes_of.simps writes_of_map by (simp del: fun_upd_apply)
  qed
  show ?case unfolding all by (rule acts_cong [OF both refl]) simp
qed

lemma copy_word_acts:
  assumes "\<And>i. i < n \<Longrightarrow> ptr_at d (int i) \<in> W" and "\<And>i. i < n \<Longrightarrow> ptr_at s (int i) \<notin> W"
    and "\<And>i. i < n \<Longrightarrow> load_byte h (ptr_at s (int i)) = Inr (v i)"
  shows "acts h W (copy_word n d s) (writes_of (\<lambda>i. [ptr_at d (int i) \<mapsto> v i]) [0..<n])"
  unfolding acts_def
proof (intro conjI allI impI)
  let ?w = "writes_of (\<lambda>i. [ptr_at d (int i) \<mapsto> map v [0..<n] ! i]) [0..<length (map v [0..<n])]"
  have "acts h W (store_bytes d (map v [0..<n])) ?w" by (rule store_bytes_acts) (use assms(1) in simp)
  moreover have w: "?w = writes_of (\<lambda>i. [ptr_at d (int i) \<mapsto> v i]) [0..<n]"
    unfolding length_map length_upt by (simp, rule writes_of_cong) simp
  ultimately have st: "acts h W (store_bytes d (map v [0..<n])) (writes_of (\<lambda>i. [ptr_at d (int i) \<mapsto> v i]) [0..<n])" by simp
  show "dom (writes_of (\<lambda>i. [ptr_at d (int i) \<mapsto> v i]) [0..<n]) \<subseteq> W" using st by (simp add: acts_def)
  fix g assume g: "like h W g"
  have "load_bytes n s g = Inr (map v [0..<n])" by (rule load_bytes_all) (use g assms(2,3) in \<open>simp add: like_def\<close>)
  then show "\<exists>g'. copy_word n d s g = Inr g' \<and> written (writes_of (\<lambda>i. [ptr_at d (int i) \<mapsto> v i]) [0..<n]) g g'"
    using st g by (simp add: acts_def copy_word_def)
qed

lemma fill_acts:
  assumes "\<And>i. i < n \<Longrightarrow> ptr_at p (int i) \<in> W"
  shows "acts h W (store_bytes p (make_uchar_array n v)) (writes_of (\<lambda>i. [ptr_at p (int i) \<mapsto> v]) [0..<n])"
proof -
  have "acts h W (store_bytes p (replicate n v)) (writes_of (\<lambda>i. [ptr_at p (int i) \<mapsto> replicate n v ! i]) [0..<length (replicate n v)])"
    by (rule store_bytes_acts) (use assms in simp)
  moreover have "writes_of (\<lambda>i. [ptr_at p (int i) \<mapsto> replicate n v ! i]) [0..<length (replicate n v)] =
      writes_of (\<lambda>i. [ptr_at p (int i) \<mapsto> v]) [0..<n]"
    unfolding length_replicate by (rule writes_of_cong) simp
  ultimately show ?thesis by (simp add: make_uchar_array_def)
qed

lemma writes_of_both:
  assumes "\<And>i j. i \<in> set ks \<Longrightarrow> j \<in> set ks \<Longrightarrow> dom (v i) \<inter> dom (w j) = {}"
  shows "writes_of (\<lambda>i. v i ++ w i) ks = writes_of v ks ++ writes_of w ks"
  using assms
proof (induction ks)
  case (Cons k ks)
  have "writes_of (\<lambda>i. v i ++ w i) ks = writes_of v ks ++ writes_of w ks" by (rule Cons.IH) (use Cons.prems in simp)
  moreover have "w k ++ writes_of v ks = writes_of v ks ++ w k"
  proof (rule map_add_comm)
    have "dom (writes_of v ks) \<subseteq> - dom (w k)" by (rule dom_writes_of) (use Cons.prems in fastforce)
    then show "dom (w k) \<inter> dom (writes_of v ks) = {}" by blast
  qed
  ultimately show ?case by (metis map_add_assoc writes_of.simps(2))
qed simp

section \<open>The copiers of the request\<close>

definition request_copier1 :: "conv_txn \<Rightarrow> nat \<Rightarrow> copier" where
  "request_copier1 t =
     (if is_read t then (if gp_byte_enable t = Null_ptr then true_b1 else copy_b1)
      else (if gp_byte_enable t = Null_ptr then copy_d1 else copy_db1))"

text \<open>Byte enables that need no repetition: one for each byte.\<close>

definition own_enables :: "conv_txn \<Rightarrow> bool" where
  "own_enables t \<longleftrightarrow> gp_byte_enable t \<noteq> Null_ptr \<longrightarrow> unat (gp_length t) \<le> unat (gp_byte_enable_length t)"

lemma be_at:
  assumes "ready t h d e n g" and "own_enables t" and "k < unat (gp_length t)" and "gp_byte_enable t \<noteq> Null_ptr"
  shows "load_byte g (ptr_at (gp_byte_enable t) (int k)) = Inr (be_value t h k)"
    "ptr_at (gp_byte_enable t) (int k) \<notin> he_range d e n"
proof -
  have "k mod unat (gp_byte_enable_length t) = k" using assms(2-4) by (simp add: own_enables_def)
  moreover have "let p = ptr_at (gp_byte_enable t) (int (k mod unat (gp_byte_enable_length t)))
        in load_byte g p = Inr (be_value t h k) \<and> p \<notin> he_range d e n"
    using assms(1,4) unfolding ready_def by blast
  ultimately show "load_byte g (ptr_at (gp_byte_enable t) (int k)) = Inr (be_value t h k)"
    "ptr_at (gp_byte_enable t) (int k) \<notin> he_range d e n" by (simp_all add: Let_def)
qed

lemma request_copier1_acts:
  assumes rd: "ready t h d e n g" and own: "own_enables t" and cmd: "gp_command t = TLM_READ_COMMAND \<or> gp_command t = TLM_WRITE_COMMAND"
    and k: "k + s \<le> unat (gp_length t)" and x: "x + s \<le> n"
  shows "acts g (he_range d e n) (request_copier1 t s (ptr_at (gp_data t) (int k)) (ptr_at (gp_byte_enable t) (int k))
      (ptr_at (Mem_ptr d 0) (int x)) (ptr_at (Mem_ptr e 0) (int x)))
    (writes_of (\<lambda>i. request_writes t h d e (k + i) (x + i)) [0..<s])"
proof -
  let ?W = "he_range d e n" and ?s1 = "ptr_at (gp_data t) (int k)" and ?s2 = "ptr_at (gp_byte_enable t) (int k)"
  let ?d1 = "ptr_at (Mem_ptr d 0) (int x)" and ?d2 = "ptr_at (Mem_ptr e 0) (int x)"
  have W: "ptr_at ?d1 (int i) \<in> ?W" "ptr_at ?d2 (int i) \<in> ?W" if "i < s" for i
    using that x by (auto simp: he_range_def intro!: exI [of _ "x + i"])
  have de: "d \<noteq> e" using rd by (simp add: ready_def)
  have pt: "ptr_at ?d1 (int i) = Mem_ptr d (of_nat (x + i))" "ptr_at ?d2 (int i) = Mem_ptr e (of_nat (x + i))" for i
    by simp_all
  have data: "acts g ?W (copy_word s ?d1 ?s1) (writes_of (\<lambda>i. [Mem_ptr d (of_nat (x + i)) \<mapsto> data_value t h (k + i)]) [0..<s])"
  proof -
    have "acts g ?W (copy_word s ?d1 ?s1) (writes_of (\<lambda>i. [ptr_at ?d1 (int i) \<mapsto> data_value t h (k + i)]) [0..<s])"
    proof (rule copy_word_acts)
      fix i assume i: "i < s"
      show "ptr_at ?d1 (int i) \<in> ?W" by (rule W [OF i])
      have "k + i < unat (gp_length t)" using i k by simp
      then have "load_byte g (ptr_at (gp_data t) (int (k + i))) = Inr (data_value t h (k + i)) \<and>
          ptr_at (gp_data t) (int (k + i)) \<notin> ?W"
        using rd unfolding ready_def by blast
      then show "ptr_at ?s1 (int i) \<notin> ?W" "load_byte g (ptr_at ?s1 (int i)) = Inr (data_value t h (k + i))" by simp_all
    qed
    then show ?thesis by (simp only: pt)
  qed
  have be: "acts g ?W (if gp_byte_enable t = Null_ptr then store_bytes ?d2 (make_uchar_array s TLM_BYTE_ENABLED)
      else copy_word s ?d2 ?s2) (writes_of (\<lambda>i. [Mem_ptr e (of_nat (x + i)) \<mapsto> be_value t h (k + i)]) [0..<s])"
  proof (cases "gp_byte_enable t = Null_ptr")
    case True
    have "acts g ?W (store_bytes ?d2 (make_uchar_array s TLM_BYTE_ENABLED)) (writes_of (\<lambda>i. [ptr_at ?d2 (int i) \<mapsto> TLM_BYTE_ENABLED]) [0..<s])"
      by (rule fill_acts) (rule W)
    then show ?thesis using True by (simp add: be_value_def)
  next
    case False
    have "acts g ?W (copy_word s ?d2 ?s2) (writes_of (\<lambda>i. [ptr_at ?d2 (int i) \<mapsto> be_value t h (k + i)]) [0..<s])"
    proof (rule copy_word_acts)
      fix i assume i: "i < s"
      show "ptr_at ?d2 (int i) \<in> ?W" by (rule W [OF i])
      have "k + i < unat (gp_length t)" using i k by simp
      from be_at [OF rd own this False]
      show "ptr_at ?s2 (int i) \<notin> ?W" "load_byte g (ptr_at ?s2 (int i)) = Inr (be_value t h (k + i))" by simp_all
    qed
    then show ?thesis using False by (simp only: pt if_False)
  qed
  show ?thesis
  proof (cases "gp_command t = TLM_WRITE_COMMAND")
    case True
    have "writes_of (\<lambda>i. request_writes t h d e (k + i) (x + i)) [0..<s] =
      writes_of (\<lambda>i. [Mem_ptr d (of_nat (x + i)) \<mapsto> data_value t h (k + i)]) [0..<s] ++
      writes_of (\<lambda>i. [Mem_ptr e (of_nat (x + i)) \<mapsto> be_value t h (k + i)]) [0..<s]"
      using True by (subst writes_of_both [symmetric]) (use de in \<open>simp_all add: request_writes_def\<close>)
    with acts_seq [OF data be] show ?thesis
      by (elim acts_cong) (use True in \<open>auto simp: request_copier1_def is_read_def copy_d1_def copy_db1_def\<close>)
  next
    case False
    then show ?thesis
      by (intro acts_cong [OF be]) (use cmd in \<open>auto simp: request_writes_def request_copier1_def is_read_def true_b1_def copy_b1_def\<close>)
  qed
qed

section \<open>The whole loop\<close>

lemma word_places:
  assumes D: "D dvd len" "0 < D" "D dvd B" and B: "0 < B" "off < B"
  shows "word_source D B off len x = Some k \<longleftrightarrow> (\<exists>m < len. x = flip B (off + m) \<and> k = flip D m)"
proof -
  have ws: "word_source D B off len x =
    (let y = flip B x in if off \<le> y \<and> y < off + len then Some (flip D (y - off)) else None)"
    by (rule word_source_place [where m = "x div B" and i = "x mod B", OF D B]) (use B in simp_all)
  show ?thesis
  proof
    assume "word_source D B off len x = Some k"
    then have "off \<le> flip B x" "flip B x < off + len" "k = flip D (flip B x - off)"
      by (auto simp: ws Let_def split: if_splits)
    then show "\<exists>m < len. x = flip B (off + m) \<and> k = flip D m"
      using flip_flip [OF B(1), of x] by (intro exI [of _ "flip B x - off"]) auto
  next
    assume "\<exists>m < len. x = flip B (off + m) \<and> k = flip D m"
    then show "word_source D B off len x = Some k" using flip_flip [OF B(1)] by (auto simp: ws)
  qed
qed

lemma word_loop:
  assumes valid: "\<forall>p \<in> W. \<exists>v. load_byte h p = Inr v" and C: "copies h W COPY D N a (word_source D B off len) wb"
    and F: "fills h W FILL D N a (word_source D B off len) wn"
    and D: "D dvd len" "0 < D" "D dvd B" and B: "off < B" and len: "0 < len" and a: "word_args a D B off len"
    and N: "off + len + B \<le> N"
    and s: "s = \<lparr>s_src = word_start_at D B off 0, s_dest = 0, s_left = int len, s_bytes = h\<rparr>"
  shows "\<exists>n g. loop_word1 COPY FILL a D s = Some (Inr (int n, g)) \<and> n \<le> N \<and>
    so_far h W (place_writes (word_source D B off len) wb wn) n g \<and> (\<forall>m < len. flip B (off + m) < n)"
proof -
  let ?src = "word_source D B off len"
  have B0: "0 < B" using B by simp
  note places = word_places [OF D B0 B]
  obtain wpb where wpb: "B = wpb * D" using D(3) by (metis dvd_def mult.commute)
  have inj: "inj_on (\<lambda>m. flip B (off + m)) {..<len}" using flip_inj [OF B0] by (simp add: inj_on_def)
  have src: "?src (flip B (off + m)) \<noteq> None" if "m < len" for m using places [of "flip B (off + m)" "flip D m"] that by auto
  have full: "len \<le> hits ?src (m * B)" if "off + len \<le> m * B" for m
  proof (rule hits_all [OF inj])
    fix l assume "l < len"
    then show "?src (flip B (off + l)) \<noteq> None" by (rule src)
    from \<open>l < len\<close> show "flip B (off + l) < m * B" by (intro flip_less) (use B0 that in simp_all)
  qed
  have start: "at_place h W ?src (place_writes ?src wb wn) len (0 * B) s" "0 < s_left s" "s_src s = word_start_at D B off 0"
    using len by (simp_all add: s at_place_def so_far_def written_def hits_def)
  have like: "like h W h" using valid by (simp add: like_refl)
  obtain x g where x: "loop_word1 COPY FILL a D s = Some (Inr (int x, g))" "x \<le> N"
    "so_far h W (place_writes ?src wb wn) x g" "len \<le> hits ?src x"
    using loop_run [OF like C F D(1,2) wpb B a N full start] by blast
  have "flip B (off + m) < x" if "m < len" for m
  proof (rule all_hit [OF inj _ x(4) that])
    show "\<exists>m < len. y = flip B (off + m)" if "?src y = Some k" for y k using places that by blast
  qed
  with x show ?thesis by blast
qed

section \<open>The numbers of the word functions\<close>

lemma unat_and_mask:
  fixes w :: "'a :: len word"
  shows "unat (w AND mask b) = unat w mod 2 ^ b"
proof -
  have "unat (w AND mask b) = unat (take_bit b w)" by (simp only: take_bit_eq_mask)
  also have "\<dots> = take_bit b (unat w)" by (rule unsigned_take_bit_eq)
  finally show ?thesis by (simp only: take_bit_eq_mod)
qed

lemma word_numbers:
  assumes b: "b < 30" and D: "D = 2 ^ j" "j \<le> b" and off: "off = unat adr mod 2 ^ b"
  shows "unat (word_len0 D adr (2 ^ b)) = len_0 D (2 ^ b) off"
    and "unat (word_lenN D adr (2 ^ b)) = D - len_0 D (2 ^ b) off"
    and "uint (word_start D adr (2 ^ b)) = word_start_at D (2 ^ b) off 0"
    and "unat (adr AND NOT (b_mask (2 ^ b))) = bus_base (2 ^ b) (unat adr)"
proof -
  let ?B = "(2 :: nat) ^ b" and ?l = "len_0 D (2 ^ b) off"
  have D0: "0 < D" "D \<le> ?B" using D by (simp_all add: power_increasing)
  have offB: "off < ?B" using off by simp
  have Bs: "?B \<le> 2 ^ 29" by (rule power_increasing) (use b in simp_all)
  have mb: "b_mask (2 ^ b) = mask b"
  proof -
    have "(2 :: u32) ^ b - 1 = mask b" by (simp add: mask_eq_exp_minus_1)
    moreover have "(ucast (mask b :: u32) :: u64) = mask b"
      by (rule bit_word_eqI) (use b in \<open>auto simp: bit_simps\<close>)
    ultimately show ?thesis by (simp only: b_mask_def)
  qed
  show "unat (adr AND NOT (b_mask (2 ^ b))) = bus_base ?B (unat adr)"
    unfolding mb unat_and_not_mask by (simp add: bus_base_def)
  have ao: "unat (a_offset adr (2 ^ b)) = off"
  proof -
    have "unat (adr AND mask b) = off" by (simp add: unat_and_mask off)
    moreover have "off < 2 ^ 32" using offB Bs by simp
    ultimately show ?thesis unfolding a_offset_def mb by (simp add: unsigned_ucast_eq take_bit_nat_eq_self)
  qed
  have Bw: "unat (2 ^ b :: u32) = ?B" by (rule unat_exp) (use b in simp)
  have diff: "unat (2 ^ b - a_offset adr (2 ^ b)) = ?B - off"
    using unat_sub [of "a_offset adr (2 ^ b)" "2 ^ b"] Bw ao offB by (simp add: word_le_nat_alt)
  have md: "d_mask D = mask j" using D by (simp add: d_mask_def mask_eq_exp_minus_1)
  show l0: "unat (word_len0 D adr (2 ^ b)) = ?l"
    unfolding word_len0_def md unat_and_mask diff by (simp add: len_0_def D(1))
  have l: "?l < D" by (rule len_0_less [OF D0(1)])
  have Du: "unat (of_nat D :: u32) = D" using D0(2) Bs by (simp add: unat_of_nat)
  show lN: "unat (word_lenN D adr (2 ^ b)) = D - ?l"
    using unat_sub [of "word_len0 D adr (2 ^ b)" "of_nat D"] l0 Du l by (simp add: word_lenN_def word_le_nat_alt)
  have hi: "unat ((2 ^ b - a_offset adr (2 ^ b)) AND NOT (d_mask D)) = (?B - off) div D * D"
    unfolding md unat_and_not_mask diff by (simp add: D(1))
  have "(?B - off) div D * D \<le> ?B - off" by (rule div_times_less_eq_dividend)
  then have "(?B - off) div D * D + (D - ?l) \<le> ?B + ?B" using D0(2) by linarith
  then have "(?B - off) div D * D + (D - ?l) < 2 ^ 32" using Bs by simp
  then have st: "unat (word_start D adr (2 ^ b)) = (?B - off) div D * D + (D - ?l)"
    unfolding word_start_def by (subst unat_add_lem [THEN iffD1]) (simp_all add: hi lN)
  have "uint (word_start D adr (2 ^ b)) = int (unat (word_start D adr (2 ^ b)))" by simp
  also have "\<dots> = word_start_at D ?B off 0"
    unfolding st word_start_at_def using word_index_nat [OF offB, of D 0] by (simp del: of_nat_power)
  finally show "uint (word_start D adr (2 ^ b)) = word_start_at D ?B off 0" .
qed

section \<open>The request\<close>

lemma source_inside:
  assumes D: "D dvd len" "0 < D" "D dvd B" and B: "0 < B" "off < B" and s: "0 < s"
    and src: "\<And>i. i < s \<Longrightarrow> word_source D B off len (x + i) = Some (k + i)"
  shows "k + s \<le> len"
proof -
  have "word_source D B off len (x + (s - 1)) = Some (k + (s - 1))" by (rule src) (use s in simp)
  then obtain m where "m < len" "k + (s - 1) = flip D m" using word_places [OF D B] by blast
  then show ?thesis using flip_less [OF D(2,1), of m] s by simp
qed

lemma request_copies:
  assumes rd: "ready t h d e n g" and own: "own_enables t"
    and cmd: "gp_command t = TLM_READ_COMMAND \<or> gp_command t = TLM_WRITE_COMMAND"
    and D: "D dvd unat (gp_length t)" "0 < D" "D dvd B" and B: "0 < B" "off < B" and N: "N \<le> n"
    and a: "w_src a = gp_data t" "w_bsrc a = gp_byte_enable t" "w_dest a = Mem_ptr d 0" "w_bdest a = Mem_ptr e 0"
  shows "copies g (he_range d e n) (request_copier1 t) D N a (word_source D B off (unat (gp_length t))) (request_writes t h d e)"
  unfolding copies_def
proof (intro allI impI, elim conjE)
  fix k x s
  assume s: "s = 1 \<or> s = D \<and> D dvd k" and x: "x + s \<le> N"
    and src: "\<forall>i < s. word_source D B off (unat (gp_length t)) (x + i) = Some (k + i)"
  have "k + s \<le> unat (gp_length t)" by (rule source_inside [OF D B]) (use s src D(2) in auto)
  moreover have "x + s \<le> n" using x N by simp
  ultimately show "acts g (he_range d e n) (request_copier1 t s (ptr_at (w_src a) (int k)) (ptr_at (w_bsrc a) (int k))
      (ptr_at (w_dest a) (int x)) (ptr_at (w_bdest a) (int x))) (writes_of (\<lambda>i. request_writes t h d e (k + i) (x + i)) [0..<s])"
    unfolding a by (rule request_copier1_acts [OF rd own cmd])
qed

definition clear_byte :: "nat \<Rightarrow> nat \<Rightarrow> data_ptr \<rightharpoonup> byte" where
  "clear_byte e x = [Mem_ptr e (of_nat x) \<mapsto> TLM_BYTE_DISABLED]"

lemma request_fills:
  assumes a: "w_bdest a = Mem_ptr e 0" and N: "N \<le> n"
  shows "fills g (he_range d e n) false_b1 D N a src (clear_byte e)"
  unfolding fills_def
proof (intro allI impI, elim conjE)
  fix x s assume x: "x + s \<le> N"
  have "acts g (he_range d e n) (store_bytes (ptr_at (Mem_ptr e 0) (int x)) (make_uchar_array s TLM_BYTE_DISABLED))
      (writes_of (\<lambda>i. [ptr_at (ptr_at (Mem_ptr e 0) (int x)) (int i) \<mapsto> TLM_BYTE_DISABLED]) [0..<s])"
    by (rule fill_acts) (use x N in \<open>auto simp: he_range_def intro!: exI [of _ "x + i" for i]\<close>)
  then show "acts g (he_range d e n) (false_b1 s (ptr_at (w_bdest a) (int x))) (writes_of (\<lambda>i. clear_byte e (x + i)) [0..<s])"
    unfolding a by (rule acts_cong) (simp_all add: clear_byte_def false_b1_def)
qed

text \<open>The places that are done have the layout.\<close>

lemma layout_of_places:
  assumes w: "written (writes_of (place_writes src (request_writes t h d e) (clear_byte e)) [0..<n]) g g'"
    and small: "d \<noteq> e" "n < 2 ^ 31"
  shows "layout src t h d e n g'"
proof -
  let ?w = "place_writes src (request_writes t h d e) (clear_byte e)"
  have sub: "p = Mem_ptr d (of_nat x) \<or> p = Mem_ptr e (of_nat x)" if "p \<in> dom (?w x)" for p x
    using that by (cases "src x") (auto simp: place_writes_def clear_byte_def split: if_splits dest!: dom_request_writes)
  have dis: "dom (?w x) \<inter> dom (?w y) = {}" if "x \<in> set [0..<n]" "y \<in> set [0..<n]" "x \<noteq> y" for x y
  proof -
    have "(of_nat x :: u64) \<noteq> of_nat y" using that small(2) by (auto simp: word_unat_eq_iff unat_of_nat)
    then show ?thesis using small(1) sub [of _ x] sub [of _ y] by fastforce
  qed
  have at: "writes_of ?w [0..<n] p = Some v" if "x < n" "?w x p = Some v" for x p v
    using writes_of_disjoint [of "[0..<n]" ?w p v] dis that by auto
  have load: "load_byte g' p = Inr v" if "x < n" "?w x p = Some v" for x p v
    using w at [OF that] by (simp add: written_def)
  have self: "request_writes t h d e k x (Mem_ptr e (of_nat x)) = Some (be_value t h k)"
    "gp_command t = TLM_WRITE_COMMAND \<Longrightarrow> request_writes t h d e k x (Mem_ptr d (of_nat x)) = Some (data_value t h k)" for k x
    using small(1) by (simp_all add: request_writes_def)
  show ?thesis
    unfolding layout_def
  proof (intro allI impI conjI)
    fix x assume x: "x < n"
    show "load_byte g' (Mem_ptr e (of_nat x)) = Inr (case src x of Some k \<Rightarrow> be_value t h k | None \<Rightarrow> TLM_BYTE_DISABLED)"
      by (rule load [OF x]) (use self in \<open>simp add: place_writes_def clear_byte_def split: option.split\<close>)
    fix k assume "gp_command t = TLM_WRITE_COMMAND \<and> src x = Some k"
    then show "load_byte g' (Mem_ptr d (of_nat x)) = Inr (data_value t h k)"
      by (intro load [OF x]) (use self in \<open>simp add: place_writes_def\<close>)
  qed
qed

lemma layout_cong: "(\<And>x. x < n \<Longrightarrow> src x = src' x) \<Longrightarrow> layout src t h d e n g \<longleftrightarrow> layout src' t h d e n g"
  by (simp add: layout_def)

lemma ready_less:
  assumes "ready t h d e N g" and "n \<le> N"
  shows "ready t h d e n g"
proof -
  have "he_range d e n \<subseteq> he_range d e N" using assms(2) by (auto simp: he_range_def intro: less_le_trans)
  then show ?thesis using assms unfolding ready_def Let_def by (meson le_less_trans subsetD)
qed

text \<open>What the response needs of the context.\<close>

definition word_context :: "nat \<Rightarrow> nat \<Rightarrow> conv_txn \<Rightarrow> endian_context \<Rightarrow> bool" where
  "word_context D b t k \<longleftrightarrow>
     from_f k = (Conv_word, D) \<and> ec_sizeof_databus k = 2 ^ b \<and>
     (gp_command t = TLM_READ_COMMAND \<longrightarrow> ec_data_ptr k = gp_data t \<and> ec_address k = gp_address t \<and>
        ec_byte_enable k = gp_byte_enable t \<and> ec_length k = int (unat (gp_length t)))"

definition request_args :: "nat \<Rightarrow> nat \<Rightarrow> conv_txn \<Rightarrow> nat \<Rightarrow> nat \<Rightarrow> loop1" where
  "request_args D b t d e =
     \<lparr>w_len0 = sint (word_len0 D (gp_address t) (2 ^ b)), w_lenN = sint (word_lenN D (gp_address t) (2 ^ b)),
      w_sizeof_databus = sint (2 ^ b :: u32), w_end = uint (gp_length t), w_src = gp_data t, w_bsrc = gp_byte_enable t,
      w_dest = Mem_ptr d 0, w_bdest = Mem_ptr e 0\<rparr>"

lemma sint_bus:
  assumes "b < 30"
  shows "sint (2 ^ b :: u32) = int (2 ^ b)" "unat (2 ^ b :: u32) = 2 ^ b"
proof -
  show u: "unat (2 ^ b :: u32) = 2 ^ b" by (rule unat_exp) (use assms in simp)
  have "(2 :: nat) ^ b < 2 ^ 31" by (rule power_strict_increasing) (use assms in simp_all)
  with u sint_u32 [of "2 ^ b"] show "sint (2 ^ b :: u32) = int (2 ^ b)" by simp
qed

lemma word_args_ok:
  assumes b: "b < 30" and D: "D = 2 ^ j" "j \<le> b" and off: "off = unat adr mod 2 ^ b"
    and a: "w_len0 a = sint (word_len0 D adr (2 ^ b))" "w_lenN a = sint (word_lenN D adr (2 ^ b))"
      "w_sizeof_databus a = sint (2 ^ b :: u32)" "w_end a = int len"
  shows "word_args a D (2 ^ b) off len"
proof -
  note N = word_numbers [OF b D off]
  have "(2 :: nat) ^ b \<le> 2 ^ 29" by (rule power_increasing) (use b in simp_all)
  moreover have "D \<le> 2 ^ b" using D by (simp add: power_increasing)
  ultimately have "D < 2 ^ 31" by simp
  then have "len_0 D (2 ^ b) off < 2 ^ 31" "D - len_0 D (2 ^ b) off < 2 ^ 31"
    using len_0_less [of D "2 ^ b" off] D(1) by (simp_all add: less_imp_diff_less)
  then show ?thesis
    using a sint_u32 [of "word_len0 D adr (2 ^ b)"] sint_u32 [of "word_lenN D adr (2 ^ b)"] sint_bus(1) [OF b] N(1,2)
    by (simp add: word_args_def)
qed

lemma word_run:
  assumes input: "conv_input D b t h" and own: "own_enables t" and D: "D = 2 ^ j" "j \<le> b"
    and rd: "ready t h d e (unat (gp_length t) + 2 * 2 ^ b) g"
    and a': "unat a' = bus_base (2 ^ b) (unat (gp_address t))"
  shows "\<exists>n g'. loop_word1 (request_copier1 t) false_b1 (request_args D b t d e) D
      \<lparr>s_src = uint (word_start D (gp_address t) (2 ^ b)), s_dest = 0, s_left = sint (gp_length t), s_bytes = g\<rparr> =
        Some (Inr (int n, g')) \<and> n \<le> unat (gp_length t) + 2 * 2 ^ b \<and>
    layout (\<lambda>x. initiator_index D (2 ^ b) t (a' + of_nat x)) t h d e n g' \<and> ready t h d e n g' \<and> ctxs g' = ctxs g \<and>
    (\<forall>m < unat (gp_length t). place (2 ^ b) (unat (gp_address t)) m < n)"
proof -
  note I = conv_inputD [OF input]
  let ?A = "unat (gp_address t)" and ?len = "unat (gp_length t)" and ?B = "(2 :: nat) ^ b"
  let ?N = "?len + 2 * ?B" and ?a = "request_args D b t d e"
  define off where "off = ?A mod ?B"
  let ?src = "word_source D ?B off ?len" and ?w = "place_writes (word_source D ?B off ?len) (request_writes t h d e) (clear_byte e)"
  have DB: "D dvd ?B" using D by (simp add: le_imp_power_dvd)
  have B: "0 < ?B" "off < ?B" by (simp_all add: off_def)
  have off': "off = ?A - bus_base ?B ?A" by (simp add: off_def bus_base_def modulo_nat_def)
  have Aoff: "?A = bus_base ?B ?A + off" using off' bus_base_le [of ?B ?A] by simp
  have cmd: "gp_command t = TLM_READ_COMMAND \<or> gp_command t = TLM_WRITE_COMMAND" using input by (simp add: conv_input_def)
  have valid: "\<forall>p \<in> he_range d e ?N. \<exists>v. load_byte g p = Inr v" and small: "d \<noteq> e" "?N < 2 ^ 31"
    using rd by (simp_all add: ready_def)
  have C: "copies g (he_range d e ?N) (request_copier1 t) D (off + ?len + ?B) ?a ?src (request_writes t h d e)"
    by (rule request_copies [OF rd own cmd I(3,2) DB B]) (use B in \<open>simp_all add: request_args_def\<close>)
  have F: "fills g (he_range d e ?N) false_b1 D (off + ?len + ?B) ?a ?src (clear_byte e)"
    by (rule request_fills) (use B in \<open>simp_all add: request_args_def\<close>)
  have args: "word_args ?a D ?B off ?len"
    by (rule word_args_ok [OF I(1) D off_def]) (simp_all add: request_args_def)
  have len: "sint (gp_length t) = int ?len" by (rule sint_u32) (use I(5) in simp)
  obtain n g' where run: "loop_word1 (request_copier1 t) false_b1 ?a D
      \<lparr>s_src = uint (word_start D (gp_address t) (2 ^ b)), s_dest = 0, s_left = sint (gp_length t), s_bytes = g\<rparr> =
        Some (Inr (int n, g'))"
    and n: "n \<le> off + ?len + ?B" and so: "so_far g (he_range d e ?N) ?w n g'" and hit: "\<forall>m < ?len. flip ?B (off + m) < n"
    using word_loop [OF valid C F I(3,2) DB B(2) I(4) args order_refl refl]
    unfolding word_numbers(3) [OF I(1) D off_def] len by blast
  have nN: "n \<le> ?N" using n B(2) by simp
  have w: "written (writes_of ?w [0..<n]) g g'" "dom (writes_of ?w [0..<n]) \<subseteq> he_range d e ?N" using so by (simp_all add: so_far_def)
  have "layout ?src t h d e n g'" by (rule layout_of_places [OF w(1) small(1)]) (use nN small(2) in simp)
  moreover have "?src x = initiator_index D ?B t (a' + of_nat x)" if "x < n" for x
  proof (rule word_source_index [symmetric, OF I(3,2) DB B(1) off' _ a'])
    have "bus_base ?B ?A + x < bus_base ?B ?A + (off + ?len + ?B)" using that n by simp
    also have "\<dots> = ?A + ?len + ?B" using Aoff by simp
    finally show "bus_base ?B ?A + x < 2 ^ 64" using I(6) by simp
  qed
  ultimately have lay: "layout (\<lambda>x. initiator_index D ?B t (a' + of_nat x)) t h d e n g'"
    using layout_cong [of n ?src "\<lambda>x. initiator_index D ?B t (a' + of_nat x)" t h d e g'] by simp
  have "place ?B ?A m < n" if "m < ?len" for m
  proof -
    have "flip ?B (?A + m) = bus_base ?B ?A + flip ?B (off + m)"
      using flip_add [OF B(1), of "bus_base ?B ?A" "off + m"] Aoff by (simp add: add.assoc [symmetric], simp add: bus_base_def)
    then show ?thesis using hit that by (simp add: place_def)
  qed
  with run nN lay ready_written [OF rd w] ready_less [OF ready_written(1) [OF rd w] nN] show ?thesis by blast
qed

lemma word_request:
  assumes input: "conv_input D b t h" and own: "own_enables t" and D: "D = 2 ^ j" "j \<le> b"
  shows "\<exists>c d e n t' h'. to_hostendian_word D t (2 ^ b) h = Some (Inr (t', h')) \<and> converted D (2 ^ b) t h c d e n t' h' \<and>
    word_context D b t (ctxs h' c)"
proof -
  note I = conv_inputD [OF input]
  let ?A = "unat (gp_address t)" and ?len = "unat (gp_length t)" and ?B = "(2 :: nat) ^ b"
  let ?N = "?len + 2 * ?B"
  obtain c t1 h1 where est: "establish_context t h = (c, t1, h1)" by (metis prod_cases3)
  have fit: "store_fit t h" using input by (simp add: conv_input_def)
  note E = establish_context_ok [OF est fit]
  note bus = sint_bus [OF I(1)]
  define L where "L = sint (gp_length t + 2 * 2 ^ b)"
  have long: "L = int ?N"
  proof -
    have "unat (2 * 2 ^ b :: u32) = 2 * ?B" using unat_exp [of "Suc b", where 'a = 32] I(1) by simp
    then have "unat (gp_length t + 2 * 2 ^ b) = ?N"
      using I(5) by (subst unat_add_lem [THEN iffD1]) simp_all
    then show ?thesis unfolding L_def using sint_u32 [of "gp_length t + 2 * 2 ^ b"] I(5) by simp
  qed
  define h2 where "h2 = upd_ctx c (\<lambda>k. k\<lparr>from_f := (Conv_word, D), ec_sizeof_databus := sint (2 ^ b :: u32)\<rparr>) h1"
  have c2: "ctx_ok h2 c" "ctx_arrays h2 c = own_arrays t h" "arrays_ok h2" "arrays h2 = arrays h"
    using E by (simp_all add: h2_def upd_ctx_keeps)
  define h3 where "h3 = establish_dbuf L c h2"
  define h4 where "h4 = establish_bebuf L c h3"
  define d where "d = new_dbuf (ctxs h3 c)"
  define e where "e = new_bebuf (ctxs h4 c)"
  have N: "0 < ?N" "?N \<le> 2 ^ 64" "?N < 2 ^ 31" using I(4,5) by simp_all
  note R = arrays_ready [OF c2(3,1) N(1,2) h3_def [unfolded long] h4_def [unfolded long] d_def e_def]
  have rd4: "ready t h d e ?N h4" by (rule ready_after [OF input c2(4,2) R(3,4,1) N(3) R(2)])
  define h5 where "h5 = (if is_read t
    then upd_ctx c (\<lambda>k. k\<lparr>ec_data_ptr := gp_data t, ec_address := gp_address t, ec_byte_enable := gp_byte_enable t,
      ec_length := sint (gp_length t)\<rparr>) h4 else h4)"
  have "arrays h5 = arrays h4" by (simp add: h5_def upd_ctx_def)
  from load_byte_arrays [OF this] have rd: "ready t h d e ?N h5" using rd4 by (simp add: ready_def)
  define a' where "a' = gp_address t AND NOT (b_mask (2 ^ b))"
  have a': "unat a' = bus_base ?B ?A" unfolding a'_def by (rule word_numbers(4) [OF I(1) D refl])
  obtain n g' where run: "loop_word1 (request_copier1 t) false_b1 (request_args D b t d e) D
      \<lparr>s_src = uint (word_start D (gp_address t) (2 ^ b)), s_dest = 0, s_left = sint (gp_length t), s_bytes = h5\<rparr> =
        Some (Inr (int n, g'))"
    and n: "n \<le> ?N" and lay: "layout (\<lambda>x. initiator_index D ?B t (a' + of_nat x)) t h d e n g'" "ready t h d e n g'"
      "ctxs g' = ctxs h5" "\<forall>m < ?len. place ?B ?A m < n"
    using word_run [OF input own D rd a'] by blast
  define t2 where "t2 = t\<lparr>gp_context := Some c, gp_address := a', gp_data := Mem_ptr d 0, gp_byte_enable := Mem_ptr e 0,
    gp_streaming_width := of_nat n, gp_length := of_nat n, gp_byte_enable_length := of_nat n\<rparr>"
  have "to_hostendian_word D t (2 ^ b) h = map_option (\<lambda>r. ebind r (\<lambda>(n, h6).
      Inr (t\<lparr>gp_context := Some c, gp_length := of_int n, gp_byte_enable_length := of_int n,
        gp_streaming_width := of_int n, gp_data := Mem_ptr d 0, gp_byte_enable := Mem_ptr e 0, gp_address := a'\<rparr>, h6)))
    (loop_word1 (request_copier1 t) false_b1 (request_args D b t d e) D
      \<lparr>s_src = uint (word_start D (gp_address t) (2 ^ b)), s_dest = 0, s_left = sint (gp_length t), s_bytes = h5\<rparr>)"
    by (simp add: to_hostendian_word_def est E(1) Let_def get_address_def get_data_length_def L_def h2_def h3_def h4_def h5_def
        get_byte_enable_ptr_def get_data_ptr_def set_address_def set_data_ptr_def is_read_def set_data_length_def
        set_streaming_width_def set_byte_enable_ptr_def set_byte_enable_length_def request_copier1_def request_args_def
        a'_def d_def e_def cong: if_cong)
  then have "to_hostendian_word D t (2 ^ b) h = Some (Inr (t2, g'))" unfolding run by (simp add: t2_def)
  moreover have "converted D ?B t h c d e n t2 g'"
  proof -
    have "unat (of_nat n :: u32) = n" using n N(3) by (simp add: unat_of_nat)
    then show ?thesis using lay a' by (simp add: converted_def t2_def)
  qed
  moreover have "word_context D b t (ctxs g' c)"
  proof -
    have k: "ctxs h2 c = (ctxs h1 c)\<lparr>from_f := (Conv_word, D), ec_sizeof_databus := sint (2 ^ b :: u32)\<rparr>"
      by (simp add: h2_def upd_ctx_def)
    obtain s s' where k4: "ctxs h4 c = (ctxs h2 c)\<lparr>new_dbuf := d, dbuf_size := s, new_bebuf := e, bebuf_size := s'\<rparr>"
      using R(7) by (auto simp: only_arrays_def)
    have "sint (gp_length t) = int ?len" by (rule sint_u32) (use I(5) in simp)
    then show ?thesis unfolding lay(3) h5_def word_context_def
      using bus(1) by (auto simp: upd_ctx_def k4 k is_read_def)
  qed
  ultimately show ?thesis by blast
qed

section \<open>The response\<close>

text \<open>What the response asks of byte enables: one for each byte, the same for a data word, not in the data.\<close>

definition word_enables :: "nat \<Rightarrow> conv_txn \<Rightarrow> byte_store \<Rightarrow> bool" where
  "word_enables D t h \<longleftrightarrow> (gp_byte_enable t \<noteq> Null_ptr \<longrightarrow> unat (gp_length t) \<le> unat (gp_byte_enable_length t) \<and>
     (\<forall>k < unat (gp_length t). ptr_at (gp_byte_enable t) (int k) \<notin> user_range t \<and>
        (be_value t h k = TLM_BYTE_DISABLED \<longleftrightarrow> be_value t h (k div D * D) = TLM_BYTE_DISABLED)))"

definition response_copier1 :: "conv_txn \<Rightarrow> nat \<Rightarrow> copier" where
  "response_copier1 t = (if gp_byte_enable t = Null_ptr then copy_dbytrue1 else copy_dbyb1)"

lemma writes_of_none: "(\<And>k. k \<in> set ks \<Longrightarrow> w k = Map.empty) \<Longrightarrow> writes_of w ks = Map.empty"
  by (induction ks) simp_all

lemma writes_of_filter: "(\<And>k. k \<in> set ks \<Longrightarrow> \<not> P k \<Longrightarrow> w k = Map.empty) \<Longrightarrow> writes_of w (filter P ks) = writes_of w ks"
  by (induction ks) simp_all

lemma response_copier1_acts:
  assumes input: "conv_input D b t h" and en: "word_enables D t h"
    and be: "\<And>k. gp_byte_enable t \<noteq> Null_ptr \<Longrightarrow>
      load_byte h2 (ptr_at (gp_byte_enable t) (int (k mod unat (gp_byte_enable_length t)))) = Inr (be_value t h k)"
    and s: "s = 1 \<or> s = D \<and> D dvd k" and k: "k + s \<le> unat (gp_length t)"
    and q: "\<And>i. i < s \<Longrightarrow> ptr_at q (int i) \<notin> user_range t"
    and data: "\<And>i. i < s \<Longrightarrow> payload_enabled t h (k + i) \<Longrightarrow> load_byte h2 (ptr_at q (int i)) = Inr (M (host_address D B t (k + i)))"
  shows "acts h2 (user_range t) (response_copier1 t s (ptr_at (gp_data t) (int k)) (ptr_at (gp_byte_enable t) (int k)) q r)
    (writes_of (\<lambda>i. response_writes D B M t h (k + i)) [0..<s])"
proof -
  let ?W = "user_range t" and ?p = "ptr_at (gp_data t) (int k)"
  note I = conv_inputD [OF input]
  have copy: "acts h2 ?W (copy_word s ?p q) (writes_of (\<lambda>i. response_writes D B M t h (k + i)) [0..<s])"
    if all: "\<And>i. i < s \<Longrightarrow> payload_enabled t h (k + i)"
  proof -
    have "acts h2 ?W (copy_word s ?p q) (writes_of (\<lambda>i. [ptr_at ?p (int i) \<mapsto> M (host_address D B t (k + i))]) [0..<s])"
    proof (rule copy_word_acts)
      fix i assume i: "i < s"
      then have "k + i < unat (gp_length t)" using k by simp
      then show "ptr_at ?p (int i) \<in> ?W" by (auto simp: user_range_def intro!: exI [of _ "k + i"])
      show "ptr_at q (int i) \<notin> ?W" by (rule q [OF i])
      show "load_byte h2 (ptr_at q (int i)) = Inr (M (host_address D B t (k + i)))" by (rule data [OF i all [OF i]])
    qed
    moreover have "writes_of (\<lambda>i. [ptr_at ?p (int i) \<mapsto> M (host_address D B t (k + i))]) [0..<s] =
      writes_of (\<lambda>i. response_writes D B M t h (k + i)) [0..<s]"
      by (rule writes_of_cong) (use all in \<open>simp add: response_writes_def\<close>)
    ultimately show ?thesis by simp
  qed
  show ?thesis
  proof (cases "gp_byte_enable t = Null_ptr")
    case True
    then have "payload_enabled t h (k + i)" for i by (simp add: payload_enabled_def)
    from copy [OF this] show ?thesis by (rule acts_cong) (use True in \<open>simp_all add: response_copier1_def copy_dbytrue1_def\<close>)
  next
    case False
    have s0: "0 < s" using s I(2) by auto
    then have k0: "k < unat (gp_length t)" using k by simp
    have own: "unat (gp_length t) \<le> unat (gp_byte_enable_length t)" using en False by (simp add: word_enables_def)
    have same: "payload_enabled t h (k + i) \<longleftrightarrow> be_value t h k \<noteq> TLM_BYTE_DISABLED" if "i < s" for i
    proof -
      have "k + i < unat (gp_length t)" using that k by simp
      with en False have low: "be_value t h (k + i) = TLM_BYTE_DISABLED \<longleftrightarrow> be_value t h ((k + i) div D * D) = TLM_BYTE_DISABLED"
        by (simp add: word_enables_def)
      from s have "be_value t h (k + i) = TLM_BYTE_DISABLED \<longleftrightarrow> be_value t h k = TLM_BYTE_DISABLED"
      proof
        assume "s = 1"
        then show ?thesis using that by simp
      next
        assume D: "s = D \<and> D dvd k"
        then have "(k + i) div D = k div D" using that by (metis add.right_neutral div_less div_plus_div_distrib_dvd_left)
        then show ?thesis using low D by simp
      qed
      then show ?thesis unfolding enabled_be_value [OF input] by simp
    qed
    have "load_byte h2 (ptr_at (gp_byte_enable t) (int k)) = Inr (be_value t h k)" using be [OF False, of k] k0 own by simp
    moreover have "ptr_at (gp_byte_enable t) (int k) \<notin> ?W" using en False k0 by (simp add: word_enables_def)
    moreover have "acts h2 ?W (if be_value t h k \<noteq> TLM_BYTE_DISABLED then copy_word s ?p q else Inr)
      (writes_of (\<lambda>i. response_writes D B M t h (k + i)) [0..<s])"
    proof (cases "be_value t h k = TLM_BYTE_DISABLED")
      case True
      have "writes_of (\<lambda>i. response_writes D B M t h (k + i)) [0..<s] = Map.empty"
        by (rule writes_of_none) (use same True in \<open>simp add: response_writes_def\<close>)
      then show ?thesis using True acts_skip by simp
    next
      case False
      then show ?thesis using copy same by simp
    qed
    ultimately have "acts h2 ?W (\<lambda>g. ebind (load_byte g (ptr_at (gp_byte_enable t) (int k)))
        (\<lambda>v. (if v \<noteq> TLM_BYTE_DISABLED then copy_word s ?p q else Inr) g))
      (writes_of (\<lambda>i. response_writes D B M t h (k + i)) [0..<s])"
      by (intro acts_load [where f = "\<lambda>v. if v \<noteq> TLM_BYTE_DISABLED then copy_word s ?p q else Inr"])
    then show ?thesis
      by (rule acts_cong) (use False in \<open>auto simp: response_copier1_def copy_dbyb1_def intro!: arg_cong [where f = "ebind _"]\<close>)
  qed
qed

definition response_args :: "nat \<Rightarrow> nat \<Rightarrow> conv_txn \<Rightarrow> nat \<Rightarrow> loop1" where
  "response_args D b t d =
     \<lparr>w_len0 = sint (word_len0 D (gp_address t) (2 ^ b)), w_lenN = sint (word_lenN D (gp_address t) (2 ^ b)),
      w_sizeof_databus = sint (2 ^ b :: u32), w_end = int (unat (gp_length t)), w_src = gp_data t,
      w_bsrc = gp_byte_enable t, w_dest = Mem_ptr d 0, w_bdest = Null_ptr\<rparr>"

lemma word_response:
  assumes input: "conv_input D b t h" and rd: "gp_command t = TLM_READ_COMMAND" and en: "word_enables D t h"
    and D: "D = 2 ^ j" "j \<le> b" and conv: "converted D (2 ^ b) t h c d e n t' h'"
    and ctx: "word_context D b t (ctxs h' c)" and ans: "target_answers M t' h' h2"
  shows "\<exists>h3. from_hostendian_word D t' (2 ^ b) h2 = Some (Inr h3) \<and> returned D (2 ^ b) M t h h3"
proof -
  note I = conv_inputD [OF input]
  note A = answered [OF input refl conv ans]
  let ?A = "unat (gp_address t)" and ?len = "unat (gp_length t)" and ?B = "(2 :: nat) ^ b" and ?W = "user_range t"
  let ?a = "response_args D b t d" and ?wb = "\<lambda>k (x :: nat). response_writes D ?B M t h k"
  define off where "off = ?A mod ?B"
  let ?src = "word_source D ?B off ?len" and ?N = "off + ?len + ?B"
  have DB: "D dvd ?B" using D by (simp add: le_imp_power_dvd)
  have B: "0 < ?B" "off < ?B" by (simp_all add: off_def)
  have Aoff: "?A = bus_base ?B ?A + off" unfolding off_def bus_base_def by (rule div_mult_mod_eq [symmetric])
  note places = word_places [OF I(3,2) DB B]
  have c: "gp_context t' = Some c" "gp_command t' = TLM_READ_COMMAND" "gp_data t' = Mem_ptr d 0" "ready t h d e n h'"
    "\<forall>m < ?len. place ?B ?A m < n" using conv rd by (simp_all add: converted_def)
  have place: "place ?B ?A m = flip ?B (off + m)" for m
    using flip_add [OF B(1), of "bus_base ?B ?A" "off + m"] Aoff
    by (simp add: place_def add.assoc [symmetric], simp add: bus_base_def)
  have at: "Mem_ptr d (of_nat x) \<notin> ?W" "payload_enabled t h k \<Longrightarrow> load_byte h2 (Mem_ptr d (of_nat x)) = Inr (M (host_address D ?B t k))"
    if "?src x = Some k" for x k
  proof -
    from that have "\<exists>m < ?len. x = place ?B ?A m \<and> k = flip D m" unfolding place by (simp only: places)
    then obtain m where m: "m < ?len" "x = place ?B ?A m" "k = flip D m" by blast
    then have "Mem_ptr d (of_nat x) \<in> he_range d e n" using c(5) by (auto simp: he_range_def)
    then show "Mem_ptr d (of_nat x) \<notin> ?W" by (rule ready_apart [OF c(4)])
    show "load_byte h2 (Mem_ptr d (of_nat x)) = Inr (M (host_address D ?B t k))" if "payload_enabled t h k"
      using A(4) [OF m(1)] that m by simp
  qed
  have C: "copies h2 ?W (response_copier1 t) D ?N ?a ?src ?wb"
    unfolding copies_def
  proof (intro allI impI, elim conjE)
    fix k x s
    assume s: "s = 1 \<or> s = D \<and> D dvd k" and src: "\<forall>i < s. ?src (x + i) = Some (k + i)"
    have k: "k + s \<le> ?len" by (rule source_inside [OF I(3,2) DB B]) (use s src I(2) in auto)
    show "acts h2 ?W (response_copier1 t s (ptr_at (w_src ?a) (int k)) (ptr_at (w_bsrc ?a) (int k))
        (ptr_at (w_dest ?a) (int x)) (ptr_at (w_bdest ?a) (int x))) (writes_of (\<lambda>i. ?wb (k + i) (x + i)) [0..<s])"
      unfolding response_args_def loop1.simps
    proof (rule response_copier1_acts [OF input en A(5) s k])
      fix i assume "i < s"
      with src have "?src (x + i) = Some (k + i)" by blast
      from at [OF this] show "ptr_at (ptr_at (Mem_ptr d 0) (int x)) (int i) \<notin> ?W"
        "payload_enabled t h (k + i) \<Longrightarrow>
          load_byte h2 (ptr_at (ptr_at (Mem_ptr d 0) (int x)) (int i)) = Inr (M (host_address D ?B t (k + i)))" by simp_all
    qed
  qed
  have F: "fills h2 ?W no_b1 D ?N ?a ?src (\<lambda>_. Map.empty)"
    unfolding fills_def by (auto simp: no_b1_def writes_of_none intro!: acts_cong [OF acts_skip])
  have args: "word_args ?a D ?B off ?len"
    by (rule word_args_ok [OF I(1) D off_def]) (simp_all add: response_args_def)
  obtain g x where run: "loop_word1 (response_copier1 t) no_b1 ?a D
      \<lparr>s_src = uint (word_start D (gp_address t) (2 ^ b)), s_dest = 0, s_left = int ?len, s_bytes = h2\<rparr> = Some (Inr (int x, g))"
    and so: "so_far h2 ?W (place_writes ?src ?wb (\<lambda>_. Map.empty)) x g" and hit: "\<forall>m < ?len. flip ?B (off + m) < x"
    using word_loop [OF range_valid [OF A(2)] C F I(3,2) DB B(2) I(4) args order_refl refl]
    unfolding word_numbers(3) [OF I(1) D off_def] by blast
  have "from_hostendian_word D t' (2 ^ b) h2 = Some (Inr g)"
    using ctx c(1-3) A(1) run rd
    by (cases "gp_byte_enable t = Null_ptr")
      (simp_all add: from_hostendian_word_def is_read_def the_context_def word_context_def response_args_def
        response_copier1_def get_data_ptr_def Let_def)
  moreover have "returned D ?B M t h g"
  proof (rule returned_of_writes [OF input _ A(2)])
    let ?ms = "filter (\<lambda>y. ?src y \<noteq> None) [0..<x]"
    have "writes_of (\<lambda>y. response_writes D ?B M t h (the (?src y))) ?ms =
      writes_of (place_writes ?src ?wb (\<lambda>_. Map.empty)) ?ms"
      by (rule writes_of_cong) (auto simp: place_writes_def)
    also have "\<dots> = writes_of (place_writes ?src ?wb (\<lambda>_. Map.empty)) [0..<x]"
      by (rule writes_of_filter) (auto simp: place_writes_def)
    finally show "written (writes_of (\<lambda>y. response_writes D ?B M t h (the (?src y))) ?ms) h2 g"
      using so by (simp add: so_far_def)
    show "the (?src m) < ?len" if "m \<in> set ?ms" for m
    proof -
      have "?src m \<noteq> None" using that by simp
      then obtain k where k: "?src m = Some k" by blast
      then obtain l where "l < ?len" "k = flip D l" using places by blast
      then show ?thesis using flip_less [OF I(2,3)] k by simp
    qed
    show "\<exists>m \<in> set ?ms. the (?src m) = k" if "k < ?len" for k
    proof -
      have "\<exists>m < ?len. flip D m = k" by (rule flip_onto [OF I(2,3) that])
      then obtain m where m: "m < ?len" "flip D m = k" by blast
      then have "?src (flip ?B (off + m)) = Some k" using places by blast
      then show ?thesis using hit m(1) by (intro bexI [of _ "flip ?B (off + m)"]) auto
    qed
  qed
  ultimately show ?thesis by blast
qed

end
