(* ===== verification/Endian_Aligned.thy ===== *)
theory Endian_Aligned
  imports Endian_Word_Conv
begin

text \<open>
  The conversions of aligned payloads and of a single data word. The first reverses the data words of each bus
  word and keeps the address, the second changes the address only; both carry what the generic conversion carries.
\<close>

section \<open>The loop over data words\<close>

lemma flip_next:
  assumes "0 < n"
  shows "j mod n = n - 1 \<Longrightarrow> Suc j div n * n = j div n * n + n \<and> flip n (Suc j) = Suc j div n * n + (n - 1)"
    and "j mod n \<noteq> n - 1 \<Longrightarrow> Suc j div n * n = j div n * n \<and> flip n j = Suc (flip n (Suc j))"
proof -
  have j: "j = j div n * n + j mod n" by simp
  show "Suc j div n * n = j div n * n + n \<and> flip n (Suc j) = Suc j div n * n + (n - 1)" if "j mod n = n - 1"
  proof -
    have "Suc j = Suc (j div n) * n" using j that assms by (metis Suc_diff_1 add.commute add_Suc_right mult_Suc)
    then have "Suc j div n = Suc (j div n)" "Suc j mod n = 0" using assms by (metis nonzero_mult_div_cancel_right less_numeral_extra(3), metis mod_mult_self2_is_0)
    then show ?thesis by (simp add: flip_def)
  qed
  show "Suc j div n * n = j div n * n \<and> flip n j = Suc (flip n (Suc j))" if "j mod n \<noteq> n - 1"
  proof -
    have r: "Suc (j mod n) < n" using that assms mod_less_divisor [of n j] by linarith
    then have "Suc j div n = j div n" "Suc j mod n = Suc (j mod n)"
      using j by (simp_all add: div_Suc mod_Suc)
    then show ?thesis using r by (simp add: flip_def)
  qed
qed

lemma aligned_loop_from:
  assumes valid: "like h W h" and n: "0 < n" "words = c * n"
    and step: "\<And>j. j < words \<Longrightarrow> acts h W (COPY (ptr_at src1 (int (flip n j) * int D)) (ptr_at src2 (int (flip n j) * int D))
      (ptr_at dest1 (int j * int D)) (ptr_at dest2 (int j * int D))) (w j)"
    and j: "j < words" and s: "so_far h W w j s"
  shows "\<exists>g. loop_aligned2_from COPY D src1 src2 dest1 dest2 (int words) (int n) (int (j div n * n)) (int (flip n j)) (int j) s =
    Some (Inr g) \<and> so_far h W w words g"
  using j s
proof (induction "words - j" arbitrary: j s rule: less_induct)
  case less
  have "acts h W (COPY (ptr_at src1 (int (flip n j) * int D)) (ptr_at src2 (int (flip n j) * int D))
      (ptr_at dest1 (int j * int D)) (ptr_at dest2 (int j * int D))) (writes_of (\<lambda>i. w (j + i)) [0..<1])"
    using step [OF less.prems(1)] by simp
  from so_far_acts [OF valid less.prems(2) this] obtain g where
    g: "COPY (ptr_at src1 (int (flip n j) * int D)) (ptr_at src2 (int (flip n j) * int D))
      (ptr_at dest1 (int j * int D)) (ptr_at dest2 (int j * int D)) s = Inr g" "so_far h W w (Suc j) g" by auto
  have IH: "\<exists>g'. loop_aligned2_from COPY D src1 src2 dest1 dest2 (int words) (int n) (int (Suc j div n * n)) (int (flip n (Suc j)))
      (int (Suc j)) g = Some (Inr g') \<and> so_far h W w words g'" if "Suc j < words"
    by (rule less.hyps [OF _ that g(2)]) (use less.prems(1) in simp)
  have jn: "int j + 1 = int (Suc j)" by simp
  show ?case
  proof (cases "j mod n = n - 1")
    case True
    note nx = flip_next(1) [OF n(1) True]
    have last: "flip n j = j div n * n" using True by (simp add: flip_def)
    have sj: "Suc j = j div n * n + n" using True n(1) by (metis Suc_diff_1 add.commute add_Suc_right div_mult_mod_eq)
    show ?thesis
    proof (cases "Suc j = words")
      case True
      then have "int (j div n * n) + int n = int words" using sj by linarith
      then show ?thesis using g True by (subst loop_aligned2_from.simps) (simp add: last)
    next
      case False
      then have "Suc j < words" using less.prems(1) by simp
      moreover have "int (j div n * n) + int n \<noteq> int words" using sj False by linarith
      moreover have "int (j div n * n) + int n = int (Suc j div n * n)"
        "int (Suc j div n * n) + (int n - 1) = int (flip n (Suc j))" using nx n(1) by simp_all
      ultimately show ?thesis using IH g(1) last by (subst loop_aligned2_from.simps) (simp del: of_nat_Suc add: jn)
    qed
  next
    case False
    note nx = flip_next(2) [OF n(1) False]
    have "Suc j < words"
    proof (rule ccontr)
      assume "\<not> Suc j < words"
      then have "Suc j = c * n" using less.prems(1) n(2) by simp
      then show False using False n(1) by (metis diff_Suc_1 mod_Suc mod_mult_self2_is_0 nat.distinct(1))
    qed
    moreover have "j div n * n \<le> flip n (Suc j)" using nx by (metis flip_def le_add1)
    then have lt: "\<not> int (flip n j) - 1 < int (j div n * n)" using nx by linarith
    have "loop_aligned2_from COPY D src1 src2 dest1 dest2 (int words) (int n) (int (j div n * n)) (int (flip n j)) (int j) s =
      loop_aligned2_from COPY D src1 src2 dest1 dest2 (int words) (int n) (int (j div n * n)) (int (flip n j) - 1) (int j + 1) g"
      by (subst loop_aligned2_from.simps) (simp only: g(1) lt sum.case if_False)
    moreover have "int (flip n j) - 1 = int (flip n (Suc j))" "int (j div n * n) = int (Suc j div n * n)" using nx by (linarith, metis)
    ultimately show ?thesis using IH unfolding jn by metis
  qed
qed

lemma aligned_loop:
  assumes valid: "\<forall>p \<in> W. \<exists>v. load_byte h p = Inr v" and n: "0 < n" "words = c * n" "0 < words"
    and step: "\<And>j. j < words \<Longrightarrow> acts h W (COPY (ptr_at src1 (int (flip n j * D))) (ptr_at src2 (int (flip n j * D)))
      (ptr_at dest1 (int (j * D))) (ptr_at dest2 (int (j * D)))) (writes_of (\<lambda>i. w (j * D + i)) [0..<D])"
  shows "\<exists>g. loop_aligned2 COPY D src1 src2 dest1 dest2 (int words) (int n) h = Some (Inr g) \<and>
    written (writes_of w [0..<words * D]) h g \<and> dom (writes_of w [0..<words * D]) \<subseteq> W"
proof -
  let ?w = "\<lambda>j. writes_of (\<lambda>i. w (j * D + i)) [0..<D]"
  have like: "like h W h" using valid by (simp add: like_refl)
  have start: "so_far h W ?w 0 h" by (simp add: so_far_def written_def)
  have "\<exists>g. loop_aligned2_from COPY D src1 src2 dest1 dest2 (int words) (int n) (int (0 div n * n)) (int (flip n 0)) (int 0) h =
    Some (Inr g) \<and> so_far h W ?w words g"
    by (rule aligned_loop_from [OF like n(1,2) _ n(3) start]) (use step in simp)
  moreover have "int (flip n 0) = int n - 1" using n(1) by (simp add: flip_def)
  ultimately show ?thesis by (simp add: loop_aligned2_def so_far_def writes_of_blocks)
qed

section \<open>The order of the bytes\<close>

definition word_order :: "nat \<Rightarrow> nat \<Rightarrow> nat \<Rightarrow> nat" where
  "word_order D B x = flip D (flip B x)"

lemma word_order_block:
  assumes "0 < D" "0 < n" "i < D"
  shows "word_order D (n * D) (j * D + i) = flip n j * D + i"
proof -
  define q r where "q = j div n" and "r = j mod n"
  have r: "r < n" "j = q * n + r" using assms(2) by (simp_all add: q_def r_def)
  have "(n - 1 - r) + 1 + r = n" using r(1) by simp
  then have "((n - 1 - r) + 1 + r) * D = n * D" by (simp only:)
  then have "(n - 1 - r) * D + D + r * D = n * D" by (simp only: add_mult_distrib mult_1)
  then have sum: "n * D - 1 - (r * D + i) = (n - 1 - r) * D + (D - 1 - i)" using assms(3) by linarith
  have "r * D + i < n * D"
  proof -
    have "Suc r * D \<le> n * D" by (rule mult_le_mono1) (use r(1) in simp)
    then show ?thesis using assms(3) by simp
  qed
  then have "flip (n * D) (q * (n * D) + (r * D + i)) = q * (n * D) + (n * D - 1 - (r * D + i))" by (rule flip_pos)
  also have "\<dots> = (q * n + (n - 1 - r)) * D + (D - 1 - i)" unfolding sum by (simp add: algebra_simps)
  finally have "flip (n * D) (j * D + i) = (q * n + (n - 1 - r)) * D + (D - 1 - i)" using r(2) by (simp add: algebra_simps)
  moreover have "flip n j = q * n + (n - 1 - r)" unfolding r(2) by (rule flip_pos [OF r(1)])
  ultimately show ?thesis using assms flip_pos [of "D - 1 - i" D] by (simp add: word_order_def)
qed

lemma word_order_less:
  assumes "0 < D" "0 < B" "D dvd n" "B dvd n" "x < n"
  shows "word_order D B x < n"
  unfolding word_order_def by (intro flip_less) (use assms in \<open>simp_all add: flip_less\<close>)

lemma word_order_onto:
  assumes "0 < D" "0 < B" "D dvd n" "B dvd n" "k < n"
  shows "\<exists>x < n. word_order D B x = k"
proof -
  have "flip B (flip D k) < n" by (intro flip_less) (use assms in \<open>simp_all add: flip_less\<close>)
  moreover have "word_order D B (flip B (flip D k)) = k" using assms by (simp add: word_order_def flip_flip)
  ultimately show ?thesis by blast
qed

lemma word_order_twice:
  assumes "0 < D" "0 < n"
  shows "word_order D (n * D) (word_order D (n * D) x) = x"
proof -
  have x: "x = x div D * D + x mod D" "x mod D < D" using assms(1) by simp_all
  have "word_order D (n * D) x = flip n (x div D) * D + x mod D"
    using word_order_block [OF assms x(2), of "x div D"] x(1) by simp
  then have "word_order D (n * D) (word_order D (n * D) x) = flip n (flip n (x div D)) * D + x mod D"
    using word_order_block [OF assms x(2), of "flip n (x div D)"] by simp
  then show ?thesis using flip_flip [OF assms(2)] x(1) by simp
qed

section \<open>Aligned payloads\<close>

definition aligned_input :: "nat \<Rightarrow> conv_txn \<Rightarrow> bool" where
  "aligned_input b t \<longleftrightarrow> unat (gp_address t) mod 2 ^ b = 0 \<and> unat (gp_length t) mod 2 ^ b = 0 \<and> own_enables t"

lemma aligned_index:
  assumes input: "conv_input D b t h" and al: "aligned_input b t"
  shows "initiator_index D (2 ^ b) t a =
    (if unat (a - gp_address t) < unat (gp_length t) then Some (word_order D (2 ^ b) (unat (a - gp_address t))) else None)"
proof -
  note I = conv_inputD [OF input]
  let ?A = "unat (gp_address t)" and ?len = "unat (gp_length t)" and ?B = "(2 :: nat) ^ b"
  have B: "0 < ?B" "?B dvd ?A" "?B dvd ?len" using al by (simp_all add: aligned_input_def dvd_eq_mod_eq_0)
  have base: "bus_base ?B ?A = ?A" using B(2) by (simp add: bus_base_def)
  have pl: "place ?B ?A m = flip ?B m" for m using flip_add [OF B(1,2), of m] by (simp add: place_def base)
  show ?thesis
  proof (cases "initiator_index D ?B t a")
    case None
    have False if x: "unat (a - gp_address t) < ?len"
    proof -
      let ?x = "unat (a - gp_address t)"
      have m: "flip ?B ?x < ?len" by (rule flip_less [OF B(1,3) x])
      have "a = of_nat (bus_base ?B ?A) + of_nat (place ?B ?A (flip ?B ?x))" unfolding base pl flip_flip [OF B(1)] by simp
      with index_place [OF B(1) m, of D] I(6) None show False by simp
    qed
    with None show ?thesis by auto
  next
    case (Some k)
    have "unat (gp_address t) = bus_base ?B ?A" by (simp add: base)
    from index_inside [OF B(1) Some this] obtain m where m: "m < ?len" "k = flip D m" "unat (a - gp_address t) = flip ?B m"
      unfolding pl by blast
    then have "unat (a - gp_address t) < ?len" "word_order D ?B (unat (a - gp_address t)) = k"
      using flip_less [OF B(1,3) m(1)] flip_flip [OF B(1)] by (simp_all add: word_order_def)
    with Some show ?thesis by simp
  qed
qed

text \<open>Words copied in reverse: the byte at \<open>x\<close> comes from place \<open>word_order x\<close>.\<close>

lemma reverse_word:
  assumes D: "0 < D" "0 < n" and B: "B = n * D" and j: "j < c * n"
    and dest: "\<And>x. x < c * B \<Longrightarrow> ptr_at dp (int x) \<in> W"
    and src: "\<And>x. x < c * B \<Longrightarrow> ptr_at sp (int x) \<notin> W \<and> load_byte h (ptr_at sp (int x)) = Inr (v x)"
  shows "acts h W (copy_word D (ptr_at dp (int (j * D))) (ptr_at sp (int (flip n j * D))))
    (writes_of (\<lambda>i. [ptr_at dp (int (j * D + i)) \<mapsto> v (word_order D B (j * D + i))]) [0..<D])"
proof -
  have less: "y * D + i < c * B" if "y < c * n" "i < D" for y i
  proof -
    have "Suc y * D \<le> c * n * D" by (rule mult_le_mono1) (use that in simp)
    then show ?thesis using that(2) by (simp add: B)
  qed
  have f: "flip n j < c * n" by (rule flip_less) (use D j in simp_all)
  have "acts h W (copy_word D (ptr_at dp (int (j * D))) (ptr_at sp (int (flip n j * D))))
    (writes_of (\<lambda>i. [ptr_at (ptr_at dp (int (j * D))) (int i) \<mapsto> v (flip n j * D + i)]) [0..<D])"
    by (rule copy_word_acts) (use dest [OF less [OF j]] src [OF less [OF f]] in \<open>simp_all del: of_nat_mult\<close>)
  moreover have "writes_of (\<lambda>i. [ptr_at (ptr_at dp (int (j * D))) (int i) \<mapsto> v (flip n j * D + i)]) [0..<D] =
    writes_of (\<lambda>i. [ptr_at dp (int (j * D + i)) \<mapsto> v (word_order D B (j * D + i))]) [0..<D]"
    by (rule writes_of_cong) (use word_order_block [OF D, of _ j] in \<open>simp add: B\<close>)
  ultimately show ?thesis by simp
qed

lemma reversed_at:
  assumes "written (writes_of (\<lambda>x. [Mem_ptr d (of_nat x) \<mapsto> u x]) [0..<n]) g g'" and "n < 2 ^ 31" and "x < n"
  shows "load_byte g' (Mem_ptr d (of_nat x)) = Inr (u x)"
proof -
  have "writes_of (\<lambda>x. [Mem_ptr d (of_nat x :: u64) \<mapsto> u x]) [0..<n] p = Some v \<longleftrightarrow>
      (\<exists>x \<in> set [0..<n]. [Mem_ptr d (of_nat x :: u64) \<mapsto> u x] p = Some v)" for p v
    by (rule writes_of_disjoint) (use assms(2) in \<open>auto simp: word_unat_eq_iff unat_of_nat\<close>)
  then have "writes_of (\<lambda>x. [Mem_ptr d (of_nat x :: u64) \<mapsto> u x]) [0..<n] (Mem_ptr d (of_nat x)) = Some (u x)" using assms(3) by auto
  then show ?thesis using assms(1) by (simp add: written_def)
qed

text \<open>The numbers of an aligned payload: \<open>n\<close> data words in a bus word, \<open>c\<close> bus words.\<close>

lemma aligned_numbers:
  assumes input: "conv_input D b t h" and al: "aligned_input b t" and D: "D = 2 ^ j" "j \<le> b"
  shows "\<exists>n c. 0 < n \<and> 0 < c \<and> 2 ^ b = n * D \<and> unat (gp_length t) = c * 2 ^ b \<and>
    aligned_words D (2 ^ b) = int n \<and> aligned_words D (gp_length t) = int (c * n)"
proof -
  note I = conv_inputD [OF input]
  have D0: "0 < D" using D by simp
  have "D dvd 2 ^ b" using D by (simp add: le_imp_power_dvd)
  then obtain n where n: "2 ^ b = n * D" by (metis dvd_def mult.commute)
  have "2 ^ b dvd unat (gp_length t)" using al by (simp add: aligned_input_def dvd_eq_mod_eq_0)
  then obtain c where c: "unat (gp_length t) = c * 2 ^ b" by (metis dvd_def mult.commute)
  have pos: "0 < n" "0 < c" using n c I(4) by (metis bot_nat_0.not_eq_extremum mult_0 power_not_zero zero_neq_numeral, metis mult_0 not_gr_zero)
  have "uint (2 ^ b :: u32) = int (n * D)" using sint_bus(2) [OF I(1)] unfolding n by (metis uint_nat)
  moreover have "uint (gp_length t) = int (c * n * D)" using c n by (metis mult.assoc uint_nat)
  ultimately have "aligned_words D (2 ^ b) = int n" "aligned_words D (gp_length t) = int (c * n)"
    using D0 by (simp_all add: aligned_words_def)
  with pos n c show ?thesis by blast
qed

text \<open>What the response needs of the context; with one data word in a bus word nothing is done.\<close>

definition aligned_context :: "nat \<Rightarrow> nat \<Rightarrow> conv_txn \<Rightarrow> endian_context \<Rightarrow> bool" where
  "aligned_context D b t k \<longleftrightarrow>
     from_f k = (Conv_aligned, D) \<and> ec_sizeof_databus k = 2 ^ b \<and>
     (gp_command t = TLM_READ_COMMAND \<and> D \<noteq> 2 ^ b \<longrightarrow> ec_data_ptr k = gp_data t)"

lemma aligned_copier_acts:
  assumes input: "conv_input D b t h" and own: "own_enables t" and rd: "ready t h d e (unat (gp_length t)) g"
    and be: "gp_byte_enable t \<noteq> Null_ptr" and n: "0 < n" "2 ^ b = n * D" "unat (gp_length t) = c * 2 ^ b" and j: "j < c * n"
  shows "acts g (he_range d e (unat (gp_length t)))
    (if is_write t then copy_db2 D (ptr_at (gp_data t) (int (flip n j * D))) (ptr_at (gp_byte_enable t) (int (flip n j * D)))
        (ptr_at (Mem_ptr d 0) (int (j * D))) (ptr_at (Mem_ptr e 0) (int (j * D)))
      else copy_d2 D (ptr_at (gp_byte_enable t) (int (flip n j * D))) p (ptr_at (Mem_ptr e 0) (int (j * D))) q)
    (writes_of (\<lambda>i. request_writes t h d e (word_order D (2 ^ b) (j * D + i)) (j * D + i)) [0..<D])"
proof -
  note I = conv_inputD [OF input]
  let ?len = "unat (gp_length t)" and ?W = "he_range d e (unat (gp_length t))"
  let ?k = "\<lambda>i. word_order D (2 ^ b) (j * D + i)"
  have W: "ptr_at (Mem_ptr d 0) (int x) \<in> ?W" "ptr_at (Mem_ptr e 0) (int x) \<in> ?W" if "x < c * 2 ^ b" for x
    using that n(3) by (auto simp: he_range_def)
  have data: "acts g ?W (copy_word D (ptr_at (Mem_ptr d 0) (int (j * D))) (ptr_at (gp_data t) (int (flip n j * D))))
    (writes_of (\<lambda>i. [ptr_at (Mem_ptr d 0) (int (j * D + i)) \<mapsto> data_value t h (?k i)]) [0..<D])"
    by (rule reverse_word [OF I(2) n(1,2) j W(1)]) (use rd n(3) in \<open>simp_all add: ready_def\<close>)
  have en: "acts g ?W (copy_word D (ptr_at (Mem_ptr e 0) (int (j * D))) (ptr_at (gp_byte_enable t) (int (flip n j * D))))
    (writes_of (\<lambda>i. [ptr_at (Mem_ptr e 0) (int (j * D + i)) \<mapsto> be_value t h (?k i)]) [0..<D])"
    by (rule reverse_word [OF I(2) n(1,2) j W(2)]) (use be_at [OF rd own _ be] n(3) in simp_all)
  have de: "d \<noteq> e" using rd by (simp add: ready_def)
  show ?thesis
  proof (cases "is_write t")
    case True
    have "writes_of (\<lambda>i. request_writes t h d e (?k i) (j * D + i)) [0..<D] =
      writes_of (\<lambda>i. [ptr_at (Mem_ptr d 0) (int (j * D + i)) \<mapsto> data_value t h (?k i)]) [0..<D] ++
      writes_of (\<lambda>i. [ptr_at (Mem_ptr e 0) (int (j * D + i)) \<mapsto> be_value t h (?k i)]) [0..<D]"
      using True by (subst writes_of_both [symmetric]) (use de in \<open>simp_all add: request_writes_def is_write_def\<close>)
    then have eq: "writes_of (\<lambda>i. [ptr_at (Mem_ptr d 0) (int (j * D + i)) \<mapsto> data_value t h (?k i)]) [0..<D] ++
      writes_of (\<lambda>i. [ptr_at (Mem_ptr e 0) (int (j * D + i)) \<mapsto> be_value t h (?k i)]) [0..<D] =
      writes_of (\<lambda>i. request_writes t h d e (?k i) (j * D + i)) [0..<D]" by simp
    show ?thesis by (rule acts_cong [OF acts_seq [OF data en] eq]) (use True in \<open>simp add: copy_db2_def\<close>)
  next
    case False
    show ?thesis by (rule acts_cong [OF en]) (use False in \<open>simp_all add: request_writes_def is_write_def copy_d2_def\<close>)
  qed
qed

lemma aligned_request_enables:
  assumes input: "conv_input D b t h" and al: "aligned_input b t" and D: "D = 2 ^ j" "j \<le> b" "D \<noteq> 2 ^ b"
    and be: "gp_byte_enable t \<noteq> Null_ptr"
  shows "\<exists>c d e t' h'. to_hostendian_aligned D t (2 ^ b) h = Some (Inr (t', h')) \<and>
    converted D (2 ^ b) t h c d e (unat (gp_length t)) t' h' \<and> gp_length t' = gp_length t \<and> aligned_context D b t (ctxs h' c)"
proof -
  note I = conv_inputD [OF input]
  let ?len = "unat (gp_length t)" and ?B = "(2 :: nat) ^ b"
  obtain n k where n: "0 < n" "?B = n * D" "?len = k * ?B" "0 < k"
    and words: "aligned_words D (2 ^ b) = int n" "aligned_words D (gp_length t) = int (k * n)"
    using aligned_numbers [OF input al D(1,2)] by blast
  have n1: "n \<noteq> 1" using n(2) D(3) by auto
  have own: "own_enables t" using al by (simp add: aligned_input_def)
  obtain c t1 h1 where est: "establish_context t h = (c, t1, h1)" by (metis prod_cases3)
  have fit: "store_fit t h" using input by (simp add: conv_input_def)
  note E = establish_context_ok [OF est fit]
  define L where "L = sint (gp_length t)"
  have L: "L = int ?len" unfolding L_def by (rule sint_u32) (use I(5) in simp)
  define h2 where "h2 = upd_ctx c (\<lambda>k. k\<lparr>from_f := (Conv_aligned, D), ec_sizeof_databus := sint (2 ^ b :: u32)\<rparr>) h1"
  have c2: "ctx_ok h2 c" "ctx_arrays h2 c = own_arrays t h" "arrays_ok h2" "arrays h2 = arrays h"
    using E by (simp_all add: h2_def upd_ctx_keeps)
  define h3 where "h3 = establish_dbuf L c h2"
  define h4 where "h4 = establish_bebuf L c h3"
  define d where "d = new_dbuf (ctxs h3 c)"
  define e where "e = new_bebuf (ctxs h4 c)"
  have N: "0 < ?len" "?len \<le> 2 ^ 64" "?len < 2 ^ 31" using I(4,5) by simp_all
  note R = arrays_ready [OF c2(3,1) N(1,2) h3_def [unfolded L] h4_def [unfolded L] d_def e_def]
  have rd4: "ready t h d e ?len h4" by (rule ready_after [OF input c2(4,2) R(3,4,1) N(3) R(2)])
  define h5 where "h5 = (if is_write t then h4 else upd_ctx c (\<lambda>k. k\<lparr>ec_data_ptr := gp_data t\<rparr>) h4)"
  have "arrays h5 = arrays h4" by (simp add: h5_def upd_ctx_def)
  from load_byte_arrays [OF this] have rd: "ready t h d e ?len h5" using rd4 by (simp add: ready_def)
  have valid: "\<forall>p \<in> he_range d e ?len. \<exists>v. load_byte h5 p = Inr v" and de: "d \<noteq> e" using rd by (simp_all add: ready_def)
  let ?w = "\<lambda>x. request_writes t h d e (word_order D ?B x) x"
  have len: "k * n * D = ?len" using n by simp
  have wpos: "0 < k * n" using n by simp
  have "\<exists>g. (if is_write t then loop_aligned2 (copy_db2 D) D (gp_data t) (gp_byte_enable t) (Mem_ptr d 0) (Mem_ptr e 0) (int (k * n)) (int n) h5
      else loop_aligned2 (copy_d2 D) D (gp_byte_enable t) Null_ptr (Mem_ptr e 0) Null_ptr (int (k * n)) (int n) h5) = Some (Inr g) \<and>
    written (writes_of ?w [0..<k * n * D]) h5 g \<and> dom (writes_of ?w [0..<k * n * D]) \<subseteq> he_range d e ?len"
    using aligned_loop [OF valid n(1) refl wpos, of "copy_db2 D" "gp_data t" D "gp_byte_enable t" "Mem_ptr d 0" "Mem_ptr e 0" ?w]
      aligned_loop [OF valid n(1) refl wpos, of "copy_d2 D" "gp_byte_enable t" D Null_ptr "Mem_ptr e 0" Null_ptr ?w]
      aligned_copier_acts [OF input own rd be n(1-3)]
    by (cases "is_write t") simp_all
  then obtain g where run: "(if is_write t then loop_aligned2 (copy_db2 D) D (gp_data t) (gp_byte_enable t) (Mem_ptr d 0) (Mem_ptr e 0) (int (k * n)) (int n) h5
      else loop_aligned2 (copy_d2 D) D (gp_byte_enable t) Null_ptr (Mem_ptr e 0) Null_ptr (int (k * n)) (int n) h5) = Some (Inr g)"
    and w: "written (writes_of ?w [0..<?len]) h5 g" "dom (writes_of ?w [0..<?len]) \<subseteq> he_range d e ?len" unfolding len by blast
  define t2 where "t2 = t\<lparr>gp_context := Some c, gp_data := Mem_ptr d 0, gp_byte_enable := Mem_ptr e 0,
    gp_byte_enable_length := gp_length t\<rparr>"
  have "to_hostendian_aligned D t (2 ^ b) h = Some (Inr (t2, g))"
    using run n1 be
    by (simp add: to_hostendian_aligned_def est E(1) Let_def words get_data_length_def get_byte_enable_ptr_def get_data_ptr_def
        set_data_ptr_def set_byte_enable_ptr_def set_byte_enable_length_def is_write_def L_def h2_def h3_def h4_def h5_def
        d_def e_def t2_def split: if_splits)
  moreover have "converted D ?B t h c d e ?len t2 g"
  proof -
    have "place_writes (\<lambda>x. Some (word_order D ?B x)) (request_writes t h d e) (clear_byte e) = ?w"
      by (rule ext) (simp add: place_writes_def)
    then have "layout (\<lambda>x. Some (word_order D ?B x)) t h d e ?len g"
      using w(1) by (intro layout_of_places [where g = h5, OF _ de N(3)]) simp
    moreover have "initiator_index D ?B t (gp_address t + of_nat x) = Some (word_order D ?B x)" if "x < ?len" for x
      using aligned_index [OF input al, of "gp_address t + of_nat x"] that N(3) by (simp add: unat_of_nat)
    ultimately have lay: "layout (\<lambda>x. initiator_index D ?B t (gp_address t + of_nat x)) t h d e ?len g"
      using layout_cong [of ?len "\<lambda>x. Some (word_order D ?B x)" "\<lambda>x. initiator_index D ?B t (gp_address t + of_nat x)" t h d e g] by simp
    have B: "0 < ?B" "?B dvd unat (gp_address t)" using al by (simp_all add: aligned_input_def dvd_eq_mod_eq_0)
    then have base: "bus_base ?B (unat (gp_address t)) = unat (gp_address t)" by (simp add: bus_base_def)
    have "place ?B (unat (gp_address t)) m < ?len" if "m < ?len" for m
      using flip_add [OF B, of m] flip_less [OF B(1), of ?len m] that n(3) by (simp add: place_def base)
    then show ?thesis using lay base ready_written [OF rd w] by (simp add: converted_def t2_def)
  qed
  moreover have "aligned_context D b t (ctxs g c)"
  proof -
    have k: "ctxs h2 c = (ctxs h1 c)\<lparr>from_f := (Conv_aligned, D), ec_sizeof_databus := sint (2 ^ b :: u32)\<rparr>"
      by (simp add: h2_def upd_ctx_def)
    obtain s s' where k4: "ctxs h4 c = (ctxs h2 c)\<lparr>new_dbuf := d, dbuf_size := s, new_bebuf := e, bebuf_size := s'\<rparr>"
      using R(7) by (auto simp: only_arrays_def)
    show ?thesis unfolding ready_written(2) [OF rd w] h5_def aligned_context_def
      using sint_bus(1) [OF I(1)] by (auto simp: upd_ctx_def k4 k is_write_def)
  qed
  moreover have "gp_length t2 = gp_length t" by (simp add: t2_def)
  ultimately show ?thesis by blast
qed

text \<open>A payload without byte enables stays without.\<close>

definition plain :: "nat \<Rightarrow> nat \<Rightarrow> conv_txn \<Rightarrow> byte_store \<Rightarrow> nat \<Rightarrow> nat \<Rightarrow> conv_txn \<Rightarrow> byte_store \<Rightarrow> bool" where
  "plain D b t h c d t' h' \<longleftrightarrow> t' = t\<lparr>gp_context := Some c, gp_data := Mem_ptr d 0\<rparr> \<and> aligned_context D b t (ctxs h' c) \<and>
     (\<forall>x < unat (gp_length t). Mem_ptr d (of_nat x) \<notin> user_range t \<and>
        (gp_command t = TLM_WRITE_COMMAND \<longrightarrow> load_byte h' (Mem_ptr d (of_nat x)) = Inr (data_value t h (word_order D (2 ^ b) x)))) \<and>
     (\<forall>k < unat (gp_length t). load_byte h' (ptr_at (gp_data t) (int k)) = Inr (data_value t h k))"

lemma aligned_request_plain:
  assumes input: "conv_input D b t h" and al: "aligned_input b t" and D: "D = 2 ^ j" "j \<le> b" "D \<noteq> 2 ^ b"
    and be: "gp_byte_enable t = Null_ptr"
  shows "\<exists>c d t' h'. to_hostendian_aligned D t (2 ^ b) h = Some (Inr (t', h')) \<and> plain D b t h c d t' h'"
proof -
  note I = conv_inputD [OF input]
  let ?len = "unat (gp_length t)" and ?B = "(2 :: nat) ^ b"
  obtain n k where n: "0 < n" "?B = n * D" "?len = k * ?B" "0 < k"
    and words: "aligned_words D (2 ^ b) = int n" "aligned_words D (gp_length t) = int (k * n)"
    using aligned_numbers [OF input al D(1,2)] by blast
  have n1: "n \<noteq> 1" using n(2) D(3) by auto
  obtain c t1 h1 where est: "establish_context t h = (c, t1, h1)" by (metis prod_cases3)
  have fit: "store_fit t h" using input by (simp add: conv_input_def)
  note E = establish_context_ok [OF est fit]
  define L where "L = sint (gp_length t)"
  have L: "L = int ?len" unfolding L_def by (rule sint_u32) (use I(5) in simp)
  define h2 where "h2 = upd_ctx c (\<lambda>k. k\<lparr>from_f := (Conv_aligned, D), ec_sizeof_databus := sint (2 ^ b :: u32)\<rparr>) h1"
  have c2: "ctx_ok h2 c" "ctx_arrays h2 c = own_arrays t h" "arrays_ok h2" "arrays h2 = arrays h"
    using E by (simp_all add: h2_def upd_ctx_keeps)
  define h3 where "h3 = establish_dbuf L c h2"
  define d where "d = new_dbuf (ctxs h3 c)"
  have N: "?len \<le> 2 ^ 64" "?len < 2 ^ 31" "0 < int ?len" using I(4,5) by (simp_all del: of_nat_unat)
  note R = establish_dbuf_ok [OF c2(3,1) N(3) h3_def [unfolded L]]
  have dpos: "0 < dbuf_size (ctxs h3 c)" using R(4) N(3) by linarith
  have din: "d \<in> ctx_arrays h3 c" using dpos by (simp add: ctx_arrays_def d_def)
  have dar: "has_array h3 d (dbuf_size (ctxs h3 c))" using R(2) dpos by (simp add: ctx_ok_def d_def)
  have dload: "\<exists>v. load_byte h3 (Mem_ptr d (of_nat x)) = Inr v" if "x < ?len" for x
    by (rule load_in_array [OF dar R(4) that N(1)])
  have user: "user_ptr (ctx_arrays h2 c) h2 (gp_data t) ?len"
    using input load_byte_arrays [OF c2(4)] by (simp add: conv_input_def user_ptr_def c2(2))
  have udata: "load_byte h3 (ptr_at (gp_data t) (int k)) = Inr (data_value t h k)" if "k < ?len" for k
    using user_ptr_kept(1) [OF user R(3) that] data_value_load [OF input that] load_byte_arrays [OF c2(4)] by simp
  obtain ub uo where ub: "gp_data t = Mem_ptr ub uo" "ub \<notin> ctx_arrays h2 c" using user by (auto simp: user_ptr_def)
  have "ub \<noteq> d"
  proof -
    have "\<exists>v. load_byte h2 (ptr_at (gp_data t) (int 0)) = Inr v" using user I(4) unfolding user_ptr_def by blast
    then obtain bs where "arrays h2 ub = Some bs" using ub(1) by (auto simp: load_byte_def split: option.splits)
    then have "ub \<notin> ctx_arrays h3 c" using R(3) ub(2) by (auto simp: others_kept_def)
    then show ?thesis using din by blast
  qed
  then have apart: "Mem_ptr d y \<notin> user_range t" for y using ub(1) by (auto simp: user_range_def)
  have bus: "sint (2 ^ b :: u32) = 2 ^ b" using sint_bus(1) [OF I(1)] by simp
  define t2 where "t2 = t\<lparr>gp_context := Some c, gp_data := Mem_ptr d 0\<rparr>"
  have k: "ctxs h2 c = (ctxs h1 c)\<lparr>from_f := (Conv_aligned, D), ec_sizeof_databus := sint (2 ^ b :: u32)\<rparr>"
    by (simp add: h2_def upd_ctx_def)
  obtain d' s where k3: "ctxs h3 c = (ctxs h2 c)\<lparr>new_dbuf := d', dbuf_size := s\<rparr>" using R(5) by auto
  have to: "to_hostendian_aligned D t (2 ^ b) h =
    (if is_write t
     then map_option (\<lambda>r. ebind r (\<lambda>h4. Inr (t2, h4)))
       (loop_aligned2 (copy_d2 D) D (gp_data t) Null_ptr (Mem_ptr d 0) Null_ptr (int (k * n)) (int n) h3)
     else Some (Inr (t2, upd_ctx c (\<lambda>k. k\<lparr>ec_data_ptr := gp_data t\<rparr>) h3)))"
    using n1 be by (simp add: to_hostendian_aligned_def est E(1) Let_def words get_data_length_def get_byte_enable_ptr_def
        get_data_ptr_def set_data_ptr_def is_write_def L_def h2_def h3_def d_def t2_def)
  show ?thesis
  proof (cases "is_write t")
    case False
    let ?h = "upd_ctx c (\<lambda>k. k\<lparr>ec_data_ptr := gp_data t\<rparr>) h3"
    have "arrays ?h = arrays h3" by (simp add: upd_ctx_def)
    from load_byte_arrays [OF this] have "plain D b t h c d t2 ?h"
      unfolding plain_def aligned_context_def
      using apart udata False bus by (auto simp: t2_def upd_ctx_keeps k3 k is_write_def)
    with to False show ?thesis by auto
  next
    case True
    let ?W = "{p. \<exists>x < ?len. p = Mem_ptr d (of_nat x)}"
    let ?w = "\<lambda>x. [Mem_ptr d (of_nat x) \<mapsto> data_value t h (word_order D ?B x)]"
    have valid: "\<forall>p \<in> ?W. \<exists>v. load_byte h3 p = Inr v" using dload by auto
    have uW: "ptr_at (gp_data t) (int x) \<notin> ?W" for x using \<open>ub \<noteq> d\<close> ub(1) by auto
    have wpos: "0 < k * n" using n by simp
    have len: "k * n * D = ?len" using n by simp
    have "\<exists>g. loop_aligned2 (copy_d2 D) D (gp_data t) Null_ptr (Mem_ptr d 0) Null_ptr (int (k * n)) (int n) h3 = Some (Inr g) \<and>
      written (writes_of ?w [0..<k * n * D]) h3 g \<and> dom (writes_of ?w [0..<k * n * D]) \<subseteq> ?W"
    proof (rule aligned_loop [OF valid n(1) refl wpos])
      fix j assume j: "j < k * n"
      have "acts h3 ?W (copy_word D (ptr_at (Mem_ptr d 0) (int (j * D))) (ptr_at (gp_data t) (int (flip n j * D))))
        (writes_of (\<lambda>i. [ptr_at (Mem_ptr d 0) (int (j * D + i)) \<mapsto> data_value t h (word_order D ?B (j * D + i))]) [0..<D])"
        by (rule reverse_word [OF I(2) n(1,2) j]) (use n(3) uW udata in auto)
      then show "acts h3 ?W (copy_d2 D (ptr_at (gp_data t) (int (flip n j * D))) (ptr_at Null_ptr (int (flip n j * D)))
          (ptr_at (Mem_ptr d 0) (int (j * D))) (ptr_at Null_ptr (int (j * D)))) (writes_of (\<lambda>i. ?w (j * D + i)) [0..<D])"
        by (rule acts_cong) (simp_all add: copy_d2_def)
    qed
    then obtain g where run: "loop_aligned2 (copy_d2 D) D (gp_data t) Null_ptr (Mem_ptr d 0) Null_ptr (int (k * n)) (int n) h3 = Some (Inr g)"
      and w: "written (writes_of ?w [0..<?len]) h3 g" "dom (writes_of ?w [0..<?len]) \<subseteq> ?W" unfolding len by blast
    have "like h3 ?W h3" using valid by (simp add: like_refl)
    from written_like [OF this w] have g: "\<forall>p. p \<notin> ?W \<longrightarrow> load_byte g p = load_byte h3 p" by (simp add: like_def)
    have ctx: "ctxs g = ctxs h3"
    proof -
      have "g = h3\<lparr>arrays := arrays g\<rparr>" using w(1) by (simp add: written_def)
      then show ?thesis by (metis byte_store.select_convs(4) byte_store.surjective byte_store.update_convs(1))
    qed
    have "plain D b t h c d t2 g"
      unfolding plain_def aligned_context_def ctx
      using apart udata g uW reversed_at [OF w(1) N(2)] True bus by (auto simp: t2_def k3 k is_write_def)
    with to True run show ?thesis by auto
  qed
qed

section \<open>The aligned response\<close>

lemma aligned_host_address:
  assumes input: "conv_input D b t h" and al: "aligned_input b t" and D: "D dvd 2 ^ b"
  shows "host_address D (2 ^ b) t k = gp_address t + of_nat (word_order D (2 ^ b) k)"
proof -
  let ?A = "unat (gp_address t)" and ?B = "(2 :: nat) ^ b"
  have B: "0 < ?B" "?B dvd ?A" using al by (simp_all add: aligned_input_def dvd_eq_mod_eq_0)
  note D0 = conv_inputD(2) [OF input]
  obtain n where n: "?B = n * D" using D by (metis dvd_def mult.commute)
  have n0: "0 < n" using n B(1) by (metis mult_0 not_gr_zero)
  have "word_order D ?B (word_order D ?B k) = k" unfolding n by (rule word_order_twice [OF D0 n0])
  then have "flip ?B (flip D k) = word_order D ?B k"
    unfolding word_order_def using flip_flip [OF B(1)] flip_flip [OF D0] by metis
  then show ?thesis using flip_add [OF B, of "flip D k"] by (simp add: host_address_def)
qed

lemma aligned_response:
  assumes input: "conv_input D b t h" and al: "aligned_input b t" and rd: "gp_command t = TLM_READ_COMMAND"
    and en: "word_enables D t h" and D: "D = 2 ^ j" "j \<le> b" "D \<noteq> 2 ^ b"
    and t': "gp_context t' = Some c" "gp_command t' = TLM_READ_COMMAND" "gp_length t' = gp_length t" "gp_data t' = Mem_ptr d 0"
    and ctx: "aligned_context D b t (ctxs h2 c)"
    and user: "\<forall>k < unat (gp_length t). load_byte h2 (ptr_at (gp_data t) (int k)) = Inr (data_value t h k)"
    and data: "\<And>x. x < unat (gp_length t) \<Longrightarrow> Mem_ptr d (of_nat x) \<notin> user_range t"
      "\<And>x. x < unat (gp_length t) \<Longrightarrow> payload_enabled t h (word_order D (2 ^ b) x) \<Longrightarrow>
        load_byte h2 (Mem_ptr d (of_nat x)) = Inr (M (gp_address t + of_nat x))"
    and be: "gp_byte_enable t' = (if gp_byte_enable t = Null_ptr then Null_ptr else Mem_ptr e 0)"
      "\<And>x. gp_byte_enable t \<noteq> Null_ptr \<Longrightarrow> x < unat (gp_length t) \<Longrightarrow> Mem_ptr e (of_nat x) \<notin> user_range t \<and>
        load_byte h2 (Mem_ptr e (of_nat x)) = Inr (be_value t h (word_order D (2 ^ b) x))"
  shows "\<exists>h3. from_hostendian_aligned D t' (2 ^ b) h2 = Some (Inr h3) \<and> returned D (2 ^ b) M t h h3"
proof -
  note I = conv_inputD [OF input]
  let ?len = "unat (gp_length t)" and ?B = "(2 :: nat) ^ b" and ?W = "user_range t"
  obtain n c' where n: "0 < n" "?B = n * D" "?len = c' * ?B" "0 < c'"
    and words: "aligned_words D (2 ^ b) = int n" "aligned_words D (gp_length t) = int (c' * n)"
    using aligned_numbers [OF input al D(1,2)] by blast
  have n1: "n \<noteq> 1" using n(2) D(3) by auto
  have DB: "D dvd ?B" using n(2) by simp
  have wpos: "0 < c' * n" using n by simp
  have len: "c' * n * D = ?len" using n by simp
  note host = aligned_host_address [OF input al DB]
  define COPY where "COPY = (if gp_byte_enable t = Null_ptr then copy_d2 D else copy_dbyb2 D)"
  have step: "acts h2 ?W (COPY (ptr_at (Mem_ptr d 0) (int (flip n i * D))) (ptr_at (gp_byte_enable t') (int (flip n i * D)))
      (ptr_at (gp_data t) (int (i * D))) (ptr_at Null_ptr (int (i * D))))
    (writes_of (\<lambda>l. response_writes D ?B M t h (i * D + l)) [0..<D])" if i: "i < c' * n" for i
  proof -
    have f: "flip n i < c' * n" by (rule flip_less) (use n i in simp_all)
    have less: "y * D + l < ?len" if "y < c' * n" "l < D" for y l
    proof -
      have "Suc y * D \<le> c' * n * D" by (rule mult_le_mono1) (use that in simp)
      then show ?thesis using that(2) by (simp add: len [symmetric])
    qed
    have wo: "word_order D ?B (flip n i * D + l) = i * D + l" "word_order D ?B (i * D + l) = flip n i * D + l" if "l < D" for l
      using word_order_block [OF I(2) n(1) that] flip_flip [OF n(1)] by (simp_all add: n(2))
    let ?k = "i * D"
    have same: "payload_enabled t h (?k + l) \<longleftrightarrow> be_value t h ?k \<noteq> TLM_BYTE_DISABLED" if "l < D" "gp_byte_enable t \<noteq> Null_ptr" for l
    proof -
      have "(?k + l) div D * D = ?k" using that(1) by simp
      moreover have "be_value t h (?k + l) = TLM_BYTE_DISABLED \<longleftrightarrow> be_value t h ((?k + l) div D * D) = TLM_BYTE_DISABLED"
        using en that(2) less [OF i that(1)] unfolding word_enables_def by blast
      ultimately show ?thesis unfolding enabled_be_value [OF input] by metis
    qed
    have copy: "acts h2 ?W (copy_word D (ptr_at (gp_data t) (int ?k)) (ptr_at (Mem_ptr d 0) (int (flip n i * D))))
        (writes_of (\<lambda>l. response_writes D ?B M t h (?k + l)) [0..<D])"
      if all: "\<And>l. l < D \<Longrightarrow> payload_enabled t h (?k + l)"
    proof -
      have "acts h2 ?W (copy_word D (ptr_at (gp_data t) (int ?k)) (ptr_at (Mem_ptr d 0) (int (flip n i * D))))
        (writes_of (\<lambda>l. [ptr_at (ptr_at (gp_data t) (int ?k)) (int l) \<mapsto> M (gp_address t + of_nat (flip n i * D + l))]) [0..<D])"
      proof (rule copy_word_acts)
        fix l assume l: "l < D"
        show "ptr_at (ptr_at (gp_data t) (int ?k)) (int l) \<in> ?W"
          using less [OF i l] by (auto simp: user_range_def intro!: exI [of _ "?k + l"])
        have p: "ptr_at (ptr_at (Mem_ptr d 0) (int (flip n i * D))) (int l) = Mem_ptr d (of_nat (flip n i * D + l))" by simp
        show "ptr_at (ptr_at (Mem_ptr d 0) (int (flip n i * D))) (int l) \<notin> ?W"
          unfolding p by (rule data(1) [OF less [OF f l]])
        show "load_byte h2 (ptr_at (ptr_at (Mem_ptr d 0) (int (flip n i * D))) (int l)) = Inr (M (gp_address t + of_nat (flip n i * D + l)))"
          unfolding p by (rule data(2) [OF less [OF f l]]) (use all [OF l] wo(1) [OF l] in simp)
      qed
      moreover have "writes_of (\<lambda>l. [ptr_at (ptr_at (gp_data t) (int ?k)) (int l) \<mapsto> M (gp_address t + of_nat (flip n i * D + l))]) [0..<D] =
        writes_of (\<lambda>l. response_writes D ?B M t h (?k + l)) [0..<D]"
        by (rule writes_of_cong) (use all wo(2) in \<open>simp add: response_writes_def host of_nat_add [of "i * D", where 'a = int] del: of_nat_mult of_nat_add\<close>)
      ultimately show ?thesis by simp
    qed
    show ?thesis
    proof (cases "gp_byte_enable t = Null_ptr")
      case True
      then have "payload_enabled t h l" for l by (simp add: payload_enabled_def)
      from copy [OF this] show ?thesis by (rule acts_cong) (use True in \<open>simp_all add: COPY_def copy_d2_def\<close>)
    next
      case False
      have q: "ptr_at (gp_byte_enable t') (int (flip n i * D)) = Mem_ptr e (of_nat (flip n i * D))" using be(1) False by simp
      have test: "Mem_ptr e (of_nat (flip n i * D)) \<notin> ?W" "load_byte h2 (Mem_ptr e (of_nat (flip n i * D))) = Inr (be_value t h ?k)"
        using be(2) [OF False less [OF f I(2)]] wo(1) [OF I(2)] by simp_all
      have "acts h2 ?W (if be_value t h ?k \<noteq> TLM_BYTE_DISABLED
          then copy_word D (ptr_at (gp_data t) (int ?k)) (ptr_at (Mem_ptr d 0) (int (flip n i * D))) else Inr)
        (writes_of (\<lambda>l. response_writes D ?B M t h (?k + l)) [0..<D])"
      proof (cases "be_value t h ?k = TLM_BYTE_DISABLED")
        case True
        have "writes_of (\<lambda>l. response_writes D ?B M t h (?k + l)) [0..<D] = Map.empty"
          by (rule writes_of_none) (use same False True in \<open>simp add: response_writes_def\<close>)
        then show ?thesis using True acts_skip by simp
      next
        case enabled: False
        with copy same False show ?thesis by simp
      qed
      from acts_load [where f = "\<lambda>v. if v \<noteq> TLM_BYTE_DISABLED
          then copy_word D (ptr_at (gp_data t) (int ?k)) (ptr_at (Mem_ptr d 0) (int (flip n i * D))) else Inr", OF test this]
      show ?thesis
      proof (rule acts_cong [OF _ refl])
        fix g
        show "ebind (load_byte g (Mem_ptr e (of_nat (flip n i * D))))
            (\<lambda>v. (if v \<noteq> TLM_BYTE_DISABLED
              then copy_word D (ptr_at (gp_data t) (int ?k)) (ptr_at (Mem_ptr d 0) (int (flip n i * D))) else Inr) g) =
          COPY (ptr_at (Mem_ptr d 0) (int (flip n i * D))) (ptr_at (gp_byte_enable t') (int (flip n i * D)))
            (ptr_at (gp_data t) (int (i * D))) (ptr_at Null_ptr (int (i * D))) g"
          unfolding q COPY_def copy_dbyb2_def tlm_bool_def
          by (cases "load_byte g (Mem_ptr e (of_nat (flip n i * D)))") (simp_all add: False)
      qed
    qed
  qed
  have "\<exists>g. loop_aligned2 COPY D (Mem_ptr d 0) (gp_byte_enable t') (gp_data t) Null_ptr (int (c' * n)) (int n) h2 = Some (Inr g) \<and>
    written (writes_of (response_writes D ?B M t h) [0..<c' * n * D]) h2 g \<and>
    dom (writes_of (response_writes D ?B M t h) [0..<c' * n * D]) \<subseteq> ?W"
    by (rule aligned_loop [OF range_valid [OF user] n(1) refl wpos]) (rule step)
  then obtain h3 where
    run: "loop_aligned2 COPY D (Mem_ptr d 0) (gp_byte_enable t') (gp_data t) Null_ptr (int (c' * n)) (int n) h2 = Some (Inr h3)"
    and w: "written (writes_of (\<lambda>m. response_writes D ?B M t h m) [0..<?len]) h2 h3" unfolding len by blast
  have "from_hostendian_aligned D t' (2 ^ b) h2 = Some (Inr h3)"
    using run n1 t' be(1) ctx rd D(3)
    by (cases "gp_byte_enable t = Null_ptr")
      (simp_all add: from_hostendian_aligned_def words is_read_def the_context_def aligned_context_def COPY_def get_data_ptr_def
        get_byte_enable_ptr_def get_data_length_def)
  moreover have "returned D ?B M t h h3" by (rule returned_of_writes [OF input w user]) auto
  ultimately show ?thesis by blast
qed

end
