(* ===== verification/Endian_Props.thy ===== *)
theory Endian_Props
  imports Endian_Aligned
begin

text \<open>
  What the four sets of conversion functions promise: a request carries, address by address, what the initiator means,
  whichever set made it, and the response puts the answer of a target where the initiator looks for it.
\<close>

section \<open>A single data word\<close>

text \<open>Where the arrays stay the initiator's, the target's answer is in place.\<close>

lemma in_place:
  assumes input: "conv_input D b t h" and t': "gp_data t' = gp_data t" "gp_length t' = gp_length t"
    and same: "\<And>k. k < unat (gp_length t) \<Longrightarrow> payload_enabled t' h' k = payload_enabled t h k"
      "\<And>k. k < unat (gp_length t) \<Longrightarrow> load_byte h' (ptr_at (gp_data t) (int k)) = Inr (data_value t h k)"
    and adr: "\<And>k. k < unat (gp_length t) \<Longrightarrow> gp_address t' + of_nat k = host_address D B t k"
    and ans: "target_answers M t' h' h2"
  shows "returned D B M t h h2"
  unfolding returned_def
proof (intro allI impI)
  fix k assume k: "k < unat (gp_length t)"
  let ?p = "ptr_at (gp_data t) (int k)"
  show "load_byte h2 ?p = Inr (if payload_enabled t h k then M (host_address D B t k) else data_value t h k)"
  proof (cases "payload_enabled t h k")
    case True
    then have "load_byte h2 (ptr_at (gp_data t') (int k)) = Inr (M (gp_address t' + of_nat k))"
      using ans k t' same(1) unfolding target_answers_def by metis
    then show ?thesis using True t' adr k by simp
  next
    case False
    have "?p \<noteq> ptr_at (gp_data t') (int x)" if "x < unat (gp_length t')" "payload_enabled t' h' x" for x
      using user_ptr_inj [OF input k, of x] that t' same(1) False by auto
    then have "load_byte h2 ?p = load_byte h' ?p" using ans unfolding target_answers_def by blast
    then show ?thesis using False same(2) k by simp
  qed
qed

definition single_input :: "nat \<Rightarrow> nat \<Rightarrow> conv_txn \<Rightarrow> bool" where
  "single_input D b t \<longleftrightarrow> unat (gp_length t) = D \<and> unat (gp_address t) mod 2 ^ b + D \<le> 2 ^ b"

lemma single_address:
  assumes b: "b < 30" and off: "off = unat adr mod 2 ^ b" "off + D \<le> 2 ^ b" "0 < D" and high: "unat adr + 2 ^ b \<le> 2 ^ 64"
  shows "unat ((adr AND NOT (b_mask (2 ^ b))) OR (ucast (2 ^ b :: u32) - (adr AND b_mask (2 ^ b)) - of_nat D)) =
    bus_base (2 ^ b) (unat adr) + (2 ^ b - off - D)"
proof -
  let ?B = "(2 :: nat) ^ b" and ?x = "adr AND NOT (b_mask (2 ^ b))" and ?m = "adr AND b_mask (2 ^ b)"
  let ?y = "ucast (2 ^ b :: u32) - ?m - of_nat D"
  have Bs: "?B < 2 ^ 64" by (rule power_strict_increasing) (use b in simp_all)
  have mb: "b_mask (2 ^ b) = mask b"
  proof -
    have "(2 :: u32) ^ b - 1 = mask b" by (simp add: mask_eq_exp_minus_1)
    moreover have "(ucast (mask b :: u32) :: u64) = mask b" by (rule bit_word_eqI) (use b in \<open>auto simp: bit_simps\<close>)
    ultimately show ?thesis by (simp only: b_mask_def)
  qed
  have x: "unat ?x = bus_base ?B (unat adr)" unfolding mb unat_and_not_mask by (simp add: bus_base_def)
  have m: "unat ?m = off" unfolding mb unat_and_mask off ..
  have y: "?y = of_nat (?B - off - D)"
  proof -
    have "(ucast (2 ^ b :: u32) :: u64) = of_nat ?B" using sint_bus(2) [OF b] unat_ucast_nat [of "2 ^ b"] by simp
    moreover have "?m = of_nat off" using m by (metis word_unat_of_nat_back)
    ultimately show ?thesis using off(2) by (simp add: of_nat_diff)
  qed
  then have uy: "unat ?y = ?B - off - D" using Bs by (simp add: unat_of_nat)
  have "unat (?y AND mask b) = unat ?y" unfolding unat_and_mask uy using off(3) by simp
  then have "?y = ?y AND mask b" by (metis word_unat_eq_iff)
  moreover have "?x AND (?y AND mask b) = 0" unfolding mb by (rule bit_word_eqI) (simp add: bit_simps)
  ultimately have "?x AND ?y = 0" by metis
  then have "?x OR ?y = ?x + ?y" by (simp add: disjunctive_add_eq_or)
  moreover have "bus_base ?B (unat adr) + (?B - off - D) < 2 ^ 64"
    using bus_base_le [of ?B "unat adr"] high off(2,3) by linarith
  then have "unat (?x + ?y) = bus_base ?B (unat adr) + (?B - off - D)"
    by (subst unat_add_lem [THEN iffD1]) (simp_all add: x uy)
  ultimately show ?thesis by simp
qed

lemma single_request:
  assumes input: "conv_input D b t h" and si: "single_input D b t"
  shows "\<exists>c a' h'. to_hostendian_single D t (2 ^ b) h = (t\<lparr>gp_context := Some c, gp_address := a'\<rparr>, h') \<and>
    (\<forall>k < D. a' + of_nat k = host_address D (2 ^ b) t k) \<and> (\<forall>p. load_byte h' p = load_byte h p) \<and>
    from_f (ctxs h' c) = (Conv_single, D)"
proof -
  note I = conv_inputD [OF input]
  let ?A = "unat (gp_address t)" and ?B = "(2 :: nat) ^ b"
  define off where "off = ?A mod ?B"
  have off: "off + D \<le> ?B" using si by (simp add: single_input_def off_def)
  obtain c t1 h1 where est: "establish_context t h = (c, t1, h1)" by (metis prod_cases3)
  have fit: "store_fit t h" using input by (simp add: conv_input_def)
  note E = establish_context_ok [OF est fit]
  define a' where "a' = ((gp_address t AND NOT (b_mask (2 ^ b))) OR (ucast (2 ^ b :: u32) - (gp_address t AND b_mask (2 ^ b)) - of_nat D))"
  have "?A + ?B \<le> 2 ^ 64" using I(6) by simp
  then have a': "unat a' = bus_base ?B ?A + (?B - off - D)"
    unfolding a'_def by (rule single_address [OF I(1) off_def off I(2)])
  have host: "a' + of_nat k = host_address D ?B t k" if "k < D" for k
  proof -
    have A: "?A = bus_base ?B ?A + off" unfolding off_def bus_base_def by (rule div_mult_mod_eq [symmetric])
    have "flip D k = D - 1 - k" using that by (simp add: flip_def)
    then have "?A + flip D k = ?A div ?B * ?B + (off + (D - 1 - k))" using A by (simp add: bus_base_def)
    moreover have "off + (D - 1 - k) < ?B" using off that by simp
    ultimately have "flip ?B (?A + flip D k) = bus_base ?B ?A + (?B - 1 - (off + (D - 1 - k)))"
      using flip_pos [of "off + (D - 1 - k)" ?B "?A div ?B"] by (simp add: bus_base_def)
    also have "\<dots> = unat a' + k" using a' off that by simp
    finally show ?thesis by (simp add: host_address_def)
  qed
  define h2 where "h2 = upd_ctx c (\<lambda>k. k\<lparr>from_f := (Conv_single, D), ec_sizeof_databus := sint (2 ^ b :: u32)\<rparr>) h1"
  have "to_hostendian_single D t (2 ^ b) h = (t\<lparr>gp_context := Some c, gp_address := a'\<rparr>, h2)"
    by (simp add: to_hostendian_single_def est E(1) Let_def get_address_def set_address_def a'_def h2_def)
  moreover have "load_byte h2 p = load_byte h p" for p
    using load_byte_arrays [OF E(2)] by (simp add: h2_def upd_ctx_keeps)
  moreover have "from_f (ctxs h2 c) = (Conv_single, D)" by (simp add: h2_def upd_ctx_def)
  ultimately show ?thesis using host by blast
qed

lemma host_index:
  assumes input: "conv_input D b t h" and B: "B = 2 ^ b" and k: "k < unat (gp_length t)"
  shows "initiator_index D B t (host_address D B t k) = Some k"
proof -
  note I = conv_inputD [OF input]
  have B0: "0 < B" by (simp add: B)
  have m: "flip D k < unat (gp_length t)" by (rule flip_less [OF I(2,3) k])
  have "host_address D B t k = of_nat (bus_base B (unat (gp_address t))) + of_nat (place B (unat (gp_address t)) (flip D k))"
    using place_add [OF B0, of "unat (gp_address t)" "flip D k"] by (simp add: host_address_def flip: of_nat_add)
  then show ?thesis using index_place [OF B0 m, of D] I(6) flip_flip [OF I(2)] by (simp add: B)
qed

lemma index_host:
  assumes input: "conv_input D b t h" and B: "B = 2 ^ b" and k: "initiator_index D B t a = Some k"
  shows "a = host_address D B t k \<and> k < unat (gp_length t)"
proof -
  note I = conv_inputD [OF input]
  have B0: "0 < B" by (simp add: B)
  obtain m where m: "m < unat (gp_length t)" "k = flip D m"
    "unat a = bus_base B (unat (gp_address t)) + place B (unat (gp_address t)) m" using index_some [OF B0 k] by blast
  then have "unat a = flip B (unat (gp_address t) + flip D k)" using place_add [OF B0] flip_flip [OF I(2)] by simp
  then have "a = host_address D B t k" unfolding host_address_def by (metis word_unat_of_nat_back)
  moreover have "k < unat (gp_length t)" unfolding m(2) by (rule flip_less [OF I(2,3) m(1)])
  ultimately show ?thesis by simp
qed

lemma in_place_carries:
  assumes input: "conv_input D b t h" and t': "gp_data t' = gp_data t" "gp_length t' = gp_length t"
    and same: "\<And>k. k < unat (gp_length t) \<Longrightarrow> payload_enabled t' h' k = payload_enabled t h k"
      "\<And>k. k < unat (gp_length t) \<Longrightarrow> load_byte h' (ptr_at (gp_data t) (int k)) = Inr (data_value t h k)"
    and adr: "\<And>k. k < unat (gp_length t) \<Longrightarrow> gp_address t' + of_nat k = host_address D (2 ^ b) t k"
  shows "carries t' h' a = initiator_carries D (2 ^ b) t h a"
proof (cases "unat (a - gp_address t') < unat (gp_length t)")
  case True
  let ?k = "unat (a - gp_address t')"
  have "a = host_address D (2 ^ b) t ?k" using adr [OF True] by simp
  then have "initiator_index D (2 ^ b) t a = Some ?k" using host_index [OF input refl True] by simp
  moreover have "payload_byte t' h' ?k = payload_byte t h ?k"
    using same(2) [OF True] data_value_load [OF input True] by (simp add: payload_byte_def t')
  ultimately show ?thesis using True same(1) by (simp add: carries_def initiator_carries_def Let_def t')
next
  case False
  have "initiator_index D (2 ^ b) t a = None"
  proof (cases "initiator_index D (2 ^ b) t a")
    case (Some k)
    from index_host [OF input refl Some] have k: "a = gp_address t' + of_nat k" "k < unat (gp_length t)" using adr by simp_all
    moreover have "k < 2 ^ 64" using k(2) conv_inputD(5) [OF input] by simp
    ultimately have "unat (a - gp_address t') = k" by (simp add: unat_of_nat)
    then show ?thesis using False k(2) by simp
  qed
  then show ?thesis using False by (simp add: carries_def initiator_carries_def Let_def t')
qed

section \<open>The four sets of functions\<close>

definition to_hostendian ::
  "convert_set \<Rightarrow> nat \<Rightarrow> conv_txn \<Rightarrow> u32 \<Rightarrow> byte_store \<Rightarrow> (sim_error + (conv_txn \<times> byte_store)) option" where
  "to_hostendian cs D t n h =
     (case cs of
        Conv_generic \<Rightarrow> Some (to_hostendian_generic D t n h)
      | Conv_word \<Rightarrow> to_hostendian_word D t n h
      | Conv_aligned \<Rightarrow> to_hostendian_aligned D t n h
      | Conv_single \<Rightarrow> Some (Inr (to_hostendian_single D t n h)))"

text \<open>Which payloads a set is for; the bound of the generic functions is that of their 32-bit mask.\<close>

definition fits :: "convert_set \<Rightarrow> nat \<Rightarrow> nat \<Rightarrow> conv_txn \<Rightarrow> bool" where
  "fits cs D b t \<longleftrightarrow>
     (case cs of
        Conv_generic \<Rightarrow> unat (gp_address t) + unat (gp_length t) \<le> 2 ^ 32
      | Conv_word \<Rightarrow> (\<exists>j \<le> b. D = 2 ^ j) \<and> own_enables t
      | Conv_aligned \<Rightarrow> (\<exists>j \<le> b. D = 2 ^ j) \<and> aligned_input b t
      | Conv_single \<Rightarrow> single_input D b t)"

definition enables_fit :: "convert_set \<Rightarrow> nat \<Rightarrow> conv_txn \<Rightarrow> byte_store \<Rightarrow> bool" where
  "enables_fit cs D t h \<longleftrightarrow>
     (case cs of
        Conv_generic \<Rightarrow> proper_enables t h
      | Conv_word \<Rightarrow> word_enables D t h
      | Conv_aligned \<Rightarrow> word_enables D t h
      | Conv_single \<Rightarrow> True)"

definition response_ok :: "convert_set \<Rightarrow> nat \<Rightarrow> nat \<Rightarrow> conv_txn \<Rightarrow> byte_store \<Rightarrow> conv_txn \<Rightarrow> byte_store \<Rightarrow> bool" where
  "response_ok cs D b t h t' h' \<longleftrightarrow> gp_command t = TLM_READ_COMMAND \<and> enables_fit cs D t h \<longrightarrow>
     (\<forall>M h2. target_answers M t' h' h2 \<longrightarrow> (\<exists>h3. from_hostendian t' h2 = Some (Inr h3) \<and> returned D (2 ^ b) M t h h3))"

definition request_ok :: "nat \<Rightarrow> nat \<Rightarrow> conv_txn \<Rightarrow> byte_store \<Rightarrow> conv_txn \<Rightarrow> byte_store \<Rightarrow> bool" where
  "request_ok D b t h t' h' \<longleftrightarrow> gp_command t = TLM_WRITE_COMMAND \<longrightarrow> (\<forall>a. carries t' h' a = initiator_carries D (2 ^ b) t h a)"

lemma from_hostendian_set:
  assumes "gp_context t' = Some c" and "from_f (ctxs h2 c) = (cs, D)" and "ec_sizeof_databus (ctxs h2 c) = 2 ^ b"
  shows "from_hostendian t' h2 =
    (case cs of
       Conv_generic \<Rightarrow> Some (from_hostendian_generic D t' (2 ^ b) h2)
     | Conv_word \<Rightarrow> from_hostendian_word D t' (2 ^ b) h2
     | Conv_aligned \<Rightarrow> from_hostendian_aligned D t' (2 ^ b) h2
     | Conv_single \<Rightarrow> Some (from_hostendian_single D t' (2 ^ b) h2))"
  using assms by (simp add: from_hostendian_def the_context_def split: convert_set.split)

lemma generic_ok:
  assumes input: "conv_input D b t h" and f: "fits Conv_generic D b t"
  shows "\<exists>t' h'. to_hostendian Conv_generic D t (2 ^ b) h = Some (Inr (t', h')) \<and> request_ok D b t h t' h' \<and>
    response_ok Conv_generic D b t h t' h'"
proof -
  have "unat (gp_address t) + unat (gp_length t) \<le> 2 ^ 32" using f by (simp add: fits_def)
  from generic_request [OF input this] obtain c d e n t' h' where
    r: "to_hostendian_generic D t (2 ^ b) h = Inr (t', h')" "converted D (2 ^ b) t h c d e n t' h'"
      "unat (gp_streaming_width t') = n" "generic_context D b t t' (ctxs h' c)" by blast
  have "request_ok D b t h t' h'" unfolding request_ok_def using converted_carries [OF input _ _ r(2)] by simp
  moreover have "response_ok Conv_generic D b t h t' h'"
    unfolding response_ok_def
  proof (intro impI allI, elim conjE)
    fix M h2
    assume rd: "gp_command t = TLM_READ_COMMAND" and en: "enables_fit Conv_generic D t h" and ans: "target_answers M t' h' h2"
    have "proper_enables t h" using en by (simp add: enables_fit_def)
    from generic_response [OF input rd this r(2-4) ans]
    obtain h3 where h3: "from_hostendian_generic D t' (2 ^ b) h2 = Inr h3" "returned D (2 ^ b) M t h h3" by blast
    have "ctxs h2 = ctxs h'" "gp_context t' = Some c" using ans r(2) by (simp_all add: target_answers_def converted_def)
    then have "from_hostendian t' h2 = Some (Inr h3)"
      using from_hostendian_set [of t' c h2 Conv_generic D b] r(4) h3(1) by (simp add: generic_context_def)
    with h3 show "\<exists>h3. from_hostendian t' h2 = Some (Inr h3) \<and> returned D (2 ^ b) M t h h3" by blast
  qed
  ultimately show ?thesis using r(1) by (simp add: to_hostendian_def)
qed

lemma word_ok:
  assumes input: "conv_input D b t h" and f: "fits Conv_word D b t"
  shows "\<exists>t' h'. to_hostendian Conv_word D t (2 ^ b) h = Some (Inr (t', h')) \<and> request_ok D b t h t' h' \<and>
    response_ok Conv_word D b t h t' h'"
proof -
  obtain j where D: "D = 2 ^ j" "j \<le> b" and own: "own_enables t" using f by (auto simp: fits_def)
  from word_request [OF input own D] obtain c d e n t' h' where
    r: "to_hostendian_word D t (2 ^ b) h = Some (Inr (t', h'))" "converted D (2 ^ b) t h c d e n t' h'"
      "word_context D b t (ctxs h' c)" by blast
  have "request_ok D b t h t' h'" unfolding request_ok_def using converted_carries [OF input _ _ r(2)] by simp
  moreover have "response_ok Conv_word D b t h t' h'"
    unfolding response_ok_def
  proof (intro impI allI, elim conjE)
    fix M h2
    assume rd: "gp_command t = TLM_READ_COMMAND" and en: "enables_fit Conv_word D t h" and ans: "target_answers M t' h' h2"
    have "word_enables D t h" using en by (simp add: enables_fit_def)
    from word_response [OF input rd this D r(2,3) ans]
    obtain h3 where h3: "from_hostendian_word D t' (2 ^ b) h2 = Some (Inr h3)" "returned D (2 ^ b) M t h h3" by blast
    have "ctxs h2 = ctxs h'" "gp_context t' = Some c" using ans r(2) by (simp_all add: target_answers_def converted_def)
    then have "from_hostendian t' h2 = Some (Inr h3)"
      using from_hostendian_set [of t' c h2 Conv_word D b] r(3) h3(1) by (simp add: word_context_def)
    with h3 show "\<exists>h3. from_hostendian t' h2 = Some (Inr h3) \<and> returned D (2 ^ b) M t h h3" by blast
  qed
  ultimately show ?thesis using r(1) by (simp add: to_hostendian_def)
qed

lemma single_ok:
  assumes input: "conv_input D b t h" and f: "fits Conv_single D b t"
  shows "\<exists>t' h'. to_hostendian Conv_single D t (2 ^ b) h = Some (Inr (t', h')) \<and> request_ok D b t h t' h' \<and>
    response_ok Conv_single D b t h t' h'"
proof -
  have si: "single_input D b t" "unat (gp_length t) = D" using f by (simp_all add: fits_def single_input_def)
  from single_request [OF input si(1)] obtain c a' h' where
    r: "to_hostendian_single D t (2 ^ b) h = (t\<lparr>gp_context := Some c, gp_address := a'\<rparr>, h')"
      "\<forall>k < D. a' + of_nat k = host_address D (2 ^ b) t k" "\<And>p. load_byte h' p = load_byte h p"
      "from_f (ctxs h' c) = (Conv_single, D)" by blast
  let ?t = "t\<lparr>gp_context := Some c, gp_address := a'\<rparr>"
  have t: "gp_data ?t = gp_data t" "gp_length ?t = gp_length t" by simp_all
  have same: "payload_enabled ?t h' k = payload_enabled t h k" for k by (simp add: payload_enabled_def r(3))
  have data: "load_byte h' (ptr_at (gp_data t) (int k)) = Inr (data_value t h k)" if "k < unat (gp_length t)" for k
    using data_value_load [OF input that] by (simp add: r(3))
  have adr: "gp_address ?t + of_nat k = host_address D (2 ^ b) t k" if "k < unat (gp_length t)" for k using r(2) si(2) that by simp
  have "request_ok D b t h ?t h'"
    unfolding request_ok_def using in_place_carries [OF input t same data adr] by blast
  moreover have "response_ok Conv_single D b t h ?t h'"
    unfolding response_ok_def
  proof (intro impI allI, elim conjE)
    fix M h2
    assume ans: "target_answers M ?t h' h2"
    have "returned D (2 ^ b) M t h h2" by (rule in_place [OF input t same data adr ans])
    moreover have "ctxs h2 = ctxs h'" using ans by (simp add: target_answers_def)
    then have "from_hostendian ?t h2 = Some (Inr h2)"
      using r(4) by (simp add: from_hostendian_def the_context_def from_hostendian_single_def)
    ultimately show "\<exists>h3. from_hostendian ?t h2 = Some (Inr h3) \<and> returned D (2 ^ b) M t h h3" by blast
  qed
  ultimately show ?thesis using r(1) by (simp add: to_hostendian_def)
qed

text \<open>The aligned functions, with byte enables, without, and for a data word as wide as the bus.\<close>

lemma from_hostendian_aligned_eq:
  assumes "gp_context t' = Some c" and "aligned_context D b t (ctxs h2 c)"
  shows "from_hostendian t' h2 = from_hostendian_aligned D t' (2 ^ b) h2"
  using from_hostendian_set [of t' c h2 Conv_aligned D b] assms by (simp add: aligned_context_def)

lemma aligned_enables_ok:
  assumes input: "conv_input D b t h" and al: "aligned_input b t" and D: "D = 2 ^ j" "j \<le> b" "D \<noteq> 2 ^ b"
    and be: "gp_byte_enable t \<noteq> Null_ptr"
  shows "\<exists>t' h'. to_hostendian_aligned D t (2 ^ b) h = Some (Inr (t', h')) \<and> request_ok D b t h t' h' \<and>
    response_ok Conv_aligned D b t h t' h'"
proof -
  note I = conv_inputD [OF input]
  let ?len = "unat (gp_length t)" and ?A = "unat (gp_address t)" and ?B = "(2 :: nat) ^ b"
  from aligned_request_enables [OF input al D be] obtain c d e t' h' where
    r: "to_hostendian_aligned D t (2 ^ b) h = Some (Inr (t', h'))" "converted D ?B t h c d e ?len t' h'"
      "gp_length t' = gp_length t" "aligned_context D b t (ctxs h' c)" by blast
  have B: "0 < ?B" "?B dvd ?A" "?B dvd ?len" using al by (simp_all add: aligned_input_def dvd_eq_mod_eq_0)
  have base: "bus_base ?B ?A = ?A" using B(2) by (simp add: bus_base_def)
  have place: "place ?B ?A m = flip ?B m" for m using flip_add [OF B(1,2), of m] by (simp add: place_def base)
  have DB: "D dvd ?B" using D by (simp add: le_imp_power_dvd)
  have "request_ok D b t h t' h'" unfolding request_ok_def using converted_carries [OF input _ _ r(2)] by simp
  moreover have "response_ok Conv_aligned D b t h t' h'"
    unfolding response_ok_def
  proof (intro impI allI, elim conjE)
    fix M h2
    assume rd: "gp_command t = TLM_READ_COMMAND" and en: "enables_fit Conv_aligned D t h" and ans: "target_answers M t' h' h2"
    note A = answered [OF input refl r(2) ans]
    have we: "word_enables D t h" using en by (simp add: enables_fit_def)
    have t': "gp_context t' = Some c" "gp_command t' = TLM_READ_COMMAND" "gp_data t' = Mem_ptr d 0" "gp_byte_enable t' = Mem_ptr e 0"
      "unat (gp_address t') = ?A" and rdy: "ready t h d e ?len h'" using r(2) rd base by (simp_all add: converted_def)
    have adr: "gp_address t' = gp_address t" using t'(5) by (simp add: word_unat_eq_iff)
    have ctx: "aligned_context D b t (ctxs h2 c)" using r(4) A(1) by simp
    have range: "Mem_ptr d (of_nat x) \<in> he_range d e ?len" "Mem_ptr e (of_nat x) \<in> he_range d e ?len" if "x < ?len" for x
      using that by (auto simp: he_range_def)
    have idx: "initiator_index D ?B t (gp_address t + of_nat x) = Some (word_order D ?B x)" if "x < ?len" for x
      using aligned_index [OF input al, of "gp_address t + of_nat x"] that I(5) by (simp add: unat_of_nat)
    have "\<exists>h3. from_hostendian_aligned D t' (2 ^ b) h2 = Some (Inr h3) \<and> returned D ?B M t h h3"
    proof (rule aligned_response [OF input al rd we D t'(1,2) r(3) t'(3) ctx A(2)])
      show "Mem_ptr d (of_nat x) \<notin> user_range t" if "x < ?len" for x by (rule ready_apart [OF rdy range(1) [OF that]])
      show "gp_byte_enable t' = (if gp_byte_enable t = Null_ptr then Null_ptr else Mem_ptr e 0)" using be t'(4) by simp
      show "Mem_ptr e (of_nat x) \<notin> user_range t \<and> load_byte h2 (Mem_ptr e (of_nat x)) = Inr (be_value t h (word_order D ?B x))"
        if "x < ?len" for x
        using ready_apart [OF rdy range(2) [OF that]] A(3) [OF that] idx [OF that] by (simp add: adr)
      show "load_byte h2 (Mem_ptr d (of_nat x)) = Inr (M (gp_address t + of_nat x))"
        if x: "x < ?len" and p: "payload_enabled t h (word_order D ?B x)" for x
      proof -
        have m: "flip ?B x < ?len" by (rule flip_less [OF B(1,3) x])
        have "flip D (flip ?B x) = word_order D ?B x" by (simp add: word_order_def)
        from A(4) [OF m] p this have "load_byte h2 (Mem_ptr d (of_nat x)) = Inr (M (host_address D ?B t (word_order D ?B x)))"
          by (simp add: place flip_flip [OF B(1)])
        also have "host_address D ?B t (word_order D ?B x) = gp_address t + of_nat x"
        proof -
          obtain n where n: "?B = n * D" using DB by (metis dvd_def mult.commute)
          have "0 < n" using n B(1) by (metis mult_0 not_gr_zero)
          then show ?thesis using aligned_host_address [OF input al DB] word_order_twice [OF I(2), of n x] n by simp
        qed
        finally show ?thesis .
      qed
    qed
    then show "\<exists>h3. from_hostendian t' h2 = Some (Inr h3) \<and> returned D ?B M t h h3"
      unfolding from_hostendian_aligned_eq [OF t'(1) ctx] .
  qed
  ultimately show ?thesis using r(1) by blast
qed

lemma aligned_plain_ok:
  assumes input: "conv_input D b t h" and al: "aligned_input b t" and D: "D = 2 ^ j" "j \<le> b" "D \<noteq> 2 ^ b"
    and be: "gp_byte_enable t = Null_ptr"
  shows "\<exists>t' h'. to_hostendian_aligned D t (2 ^ b) h = Some (Inr (t', h')) \<and> request_ok D b t h t' h' \<and>
    response_ok Conv_aligned D b t h t' h'"
proof -
  note I = conv_inputD [OF input]
  let ?len = "unat (gp_length t)" and ?B = "(2 :: nat) ^ b"
  from aligned_request_plain [OF input al D be] obtain c d t' h' where
    r: "to_hostendian_aligned D t (2 ^ b) h = Some (Inr (t', h'))" and p: "plain D b t h c d t' h'" by blast
  have t': "t' = t\<lparr>gp_context := Some c, gp_data := Mem_ptr d 0\<rparr>" and ctx: "aligned_context D b t (ctxs h' c)"
    and he: "\<And>x. x < ?len \<Longrightarrow> Mem_ptr d (of_nat x) \<notin> user_range t"
      "\<And>x. x < ?len \<Longrightarrow> gp_command t = TLM_WRITE_COMMAND \<Longrightarrow>
        load_byte h' (Mem_ptr d (of_nat x)) = Inr (data_value t h (word_order D ?B x))"
    and user: "\<And>k. k < ?len \<Longrightarrow> load_byte h' (ptr_at (gp_data t) (int k)) = Inr (data_value t h k)"
    using p by (simp_all add: plain_def)
  have all: "payload_enabled t h k" "payload_enabled t' h' k" for k by (simp_all add: payload_enabled_def be t')
  have B: "0 < ?B" "?B dvd ?len" using al by (simp_all add: aligned_input_def dvd_eq_mod_eq_0)
  have "carries t' h' a = initiator_carries D ?B t h a" if wr: "gp_command t = TLM_WRITE_COMMAND" for a
  proof (cases "unat (a - gp_address t) < ?len")
    case True
    let ?k = "word_order D ?B (unat (a - gp_address t))"
    have "?k < ?len" by (rule word_order_less [OF I(2) B(1) I(3) B(2) True])
    then have "payload_byte t h ?k = Some (data_value t h ?k)" using data_value_load [OF input] by (simp add: payload_byte_def)
    moreover have "payload_byte t' h' (unat (a - gp_address t)) = Some (data_value t h ?k)"
      using he(2) [OF True wr] by (simp add: payload_byte_def t')
    ultimately show ?thesis
      using True all aligned_index [OF input al, of a] by (simp add: carries_def initiator_carries_def Let_def t')
  next
    case False
    then show ?thesis using aligned_index [OF input al, of a] by (simp add: carries_def initiator_carries_def Let_def t')
  qed
  then have "request_ok D b t h t' h'" by (simp add: request_ok_def)
  moreover have "response_ok Conv_aligned D b t h t' h'"
    unfolding response_ok_def
  proof (intro impI allI, elim conjE)
    fix M h2
    assume rd: "gp_command t = TLM_READ_COMMAND" and en: "enables_fit Conv_aligned D t h" and ans: "target_answers M t' h' h2"
    have we: "word_enables D t h" using en by (simp add: enables_fit_def)
    have ctx2: "aligned_context D b t (ctxs h2 c)" using ctx ans by (simp add: target_answers_def)
    have data: "load_byte h2 (Mem_ptr d (of_nat x)) = Inr (M (gp_address t + of_nat x))" if "x < ?len" for x
      using ans all(2) that by (simp add: target_answers_def t')
    have user2: "load_byte h2 (ptr_at (gp_data t) (int k)) = Inr (data_value t h k)" if k: "k < ?len" for k
    proof -
      have "ptr_at (gp_data t) (int k) \<in> user_range t" using k by (auto simp: user_range_def)
      then have "ptr_at (gp_data t) (int k) \<noteq> ptr_at (gp_data t') (int x)" if "x < ?len" for x
        using he(1) [OF that] by (auto simp: t')
      then show ?thesis using ans user [OF k] by (simp add: target_answers_def t')
    qed
    have f: "gp_context t' = Some c" "gp_command t' = TLM_READ_COMMAND" "gp_length t' = gp_length t" "gp_data t' = Mem_ptr d 0"
      using rd by (simp_all add: t')
    have "\<exists>h3. from_hostendian_aligned D t' (2 ^ b) h2 = Some (Inr h3) \<and> returned D ?B M t h h3"
      by (rule aligned_response [OF input al rd we D f ctx2 _ he(1) data, where e = 0]) (use user2 be in \<open>auto simp: t'\<close>)
    then show "\<exists>h3. from_hostendian t' h2 = Some (Inr h3) \<and> returned D ?B M t h h3"
      unfolding from_hostendian_aligned_eq [OF f(1) ctx2] .
  qed
  ultimately show ?thesis using r by blast
qed

lemma aligned_same_ok:
  assumes input: "conv_input D b t h" and al: "aligned_input b t" and D: "D = 2 ^ b"
  shows "\<exists>t' h'. to_hostendian_aligned D t (2 ^ b) h = Some (Inr (t', h')) \<and> request_ok D b t h t' h' \<and>
    response_ok Conv_aligned D b t h t' h'"
proof -
  note I = conv_inputD [OF input]
  obtain c t1 h1 where est: "establish_context t h = (c, t1, h1)" by (metis prod_cases3)
  have fit: "store_fit t h" using input by (simp add: conv_input_def)
  note E = establish_context_ok [OF est fit]
  define h2 where "h2 = upd_ctx c (\<lambda>k. k\<lparr>from_f := (Conv_aligned, D), ec_sizeof_databus := sint (2 ^ b :: u32)\<rparr>) h1"
  let ?t = "t\<lparr>gp_context := Some c\<rparr>"
  have one: "aligned_words D (2 ^ b) = 1"
    using aligned_numbers [OF input al D order_refl] I(2) by (auto simp: D)
  have to: "to_hostendian_aligned D t (2 ^ b) h = Some (Inr (?t, h2))"
    using one by (simp add: to_hostendian_aligned_def est E(1) Let_def h2_def)
  have load: "load_byte h2 p = load_byte h p" for p using load_byte_arrays [OF E(2)] by (simp add: h2_def upd_ctx_keeps)
  have t: "gp_data ?t = gp_data t" "gp_length ?t = gp_length t" by simp_all
  have same: "payload_enabled ?t h2 k = payload_enabled t h k" for k by (simp add: payload_enabled_def load)
  have data: "load_byte h2 (ptr_at (gp_data t) (int k)) = Inr (data_value t h k)" if "k < unat (gp_length t)" for k
    using data_value_load [OF input that] by (simp add: load)
  have adr: "gp_address ?t + of_nat k = host_address D (2 ^ b) t k" for k
    using aligned_host_address [OF input al, of k] flip_flip [of D k] by (simp add: D word_order_def)
  have "request_ok D b t h ?t h2"
    unfolding request_ok_def using in_place_carries [OF input t same data adr] by blast
  moreover have "response_ok Conv_aligned D b t h ?t h2"
    unfolding response_ok_def
  proof (intro impI allI, elim conjE)
    fix M h3
    assume ans: "target_answers M ?t h2 h3"
    have ret: "returned D (2 ^ b) M t h h3" by (rule in_place [OF input t same data adr ans])
    have "ctxs h3 = ctxs h2" using ans by (simp add: target_answers_def)
    then have "aligned_context D b t (ctxs h3 c)"
      using sint_bus(1) [OF I(1)] by (simp add: aligned_context_def h2_def upd_ctx_def D)
    then have "from_hostendian ?t h3 = from_hostendian_aligned D ?t (2 ^ b) h3" by (intro from_hostendian_aligned_eq) simp
    also have "\<dots> = Some (Inr h3)" using one by (simp add: from_hostendian_aligned_def Let_def)
    finally show "\<exists>g. from_hostendian ?t h3 = Some (Inr g) \<and> returned D (2 ^ b) M t h g" using ret by blast
  qed
  ultimately show ?thesis using to by blast
qed

lemma conversions_ok:
  assumes input: "conv_input D b t h" and f: "fits cs D b t"
  shows "\<exists>t' h'. to_hostendian cs D t (2 ^ b) h = Some (Inr (t', h')) \<and> request_ok D b t h t' h' \<and> response_ok cs D b t h t' h'"
proof (cases cs)
  case Conv_aligned
  then obtain j where D: "D = 2 ^ j" "j \<le> b" and al: "aligned_input b t" using f by (auto simp: fits_def)
  have "\<exists>t' h'. to_hostendian_aligned D t (2 ^ b) h = Some (Inr (t', h')) \<and> request_ok D b t h t' h' \<and>
    response_ok Conv_aligned D b t h t' h'"
    using aligned_enables_ok [OF input al D] aligned_plain_ok [OF input al D] aligned_same_ok [OF input al] by blast
  then show ?thesis by (simp add: Conv_aligned to_hostendian_def)
qed (use generic_ok [OF input] word_ok [OF input] single_ok [OF input] f in simp_all)

section \<open>Requests and responses\<close>

text \<open>C12. A request made by any of the four sets of functions, for a payload that the set is for, returns; the payload
  of a write then carries, at every address of the host, the byte that the initiator means for it, and nothing elsewhere.
  So the word, aligned and single conversions agree with the generic one.\<close>

theorem endian_requests_agree:
  assumes "conv_input D b t h" and "fits cs D b t"
  shows "\<exists>t' h'. to_hostendian cs D t (2 ^ b) h = Some (Inr (t', h')) \<and>
    (gp_command t = TLM_WRITE_COMMAND \<longrightarrow> (\<forall>a. carries t' h' a = initiator_carries D (2 ^ b) t h a))"
  using conversions_ok [OF assms] unfolding request_ok_def by blast

lemma response_returns:
  assumes "conv_input D b t h" and "fits cs D b t" and "gp_command t = TLM_READ_COMMAND" and "enables_fit cs D t h"
    and "to_hostendian cs D t (2 ^ b) h = Some (Inr (t', h'))" and "target_answers M t' h' h2"
  shows "\<exists>h3. from_hostendian t' h2 = Some (Inr h3) \<and> returned D (2 ^ b) M t h h3"
  using conversions_ok [OF assms(1,2)] assms(3-6) unfolding response_ok_def by auto

text \<open>C13. What was written is read back: a target that holds the bytes that a converted write carried, answers a converted
  read of the same range; then every byte of the reader's array that both enable is the byte of the writer's array,
  whichever sets of functions the two use.\<close>

theorem endian_write_read:
  assumes "conv_input D b w h" and "fits cs D b w" and "gp_command w = TLM_WRITE_COMMAND"
    and "to_hostendian cs D w (2 ^ b) h = Some (Inr (w', h'))"
    and "conv_input D b r g" and "fits cs' D b r" and "gp_command r = TLM_READ_COMMAND" and "enables_fit cs' D r g"
    and "to_hostendian cs' D r (2 ^ b) g = Some (Inr (r', g'))"
    and "gp_address r = gp_address w" and "gp_length r = gp_length w"
    and "\<And>a v. carries w' h' a = Some v \<Longrightarrow> M a = v" and "target_answers M r' g' g2"
  shows "\<exists>g3. from_hostendian r' g2 = Some (Inr g3) \<and>
    (\<forall>k < unat (gp_length r). payload_enabled w h k \<and> payload_enabled r g k \<longrightarrow> payload_byte r g3 k = payload_byte w h k)"
proof -
  obtain g3 where g3: "from_hostendian r' g2 = Some (Inr g3)" "returned D (2 ^ b) M r g g3"
    using response_returns [OF assms(5-9,13)] by blast
  have carry: "carries w' h' a = initiator_carries D (2 ^ b) w h a" for a
    using conversions_ok [OF assms(1,2)] assms(3,4) unfolding request_ok_def by auto
  have "payload_byte r g3 k = payload_byte w h k"
    if k: "k < unat (gp_length r)" and en: "payload_enabled w h k" "payload_enabled r g k" for k
  proof -
    have kw: "k < unat (gp_length w)" using k assms(11) by simp
    have byte: "payload_byte w h k = Some (data_value w h k)"
      using data_value_load [OF assms(1) kw] by (simp add: payload_byte_def)
    have "carries w' h' (host_address D (2 ^ b) w k) = Some (data_value w h k)"
      unfolding carry initiator_carries_def using host_index [OF assms(1) refl kw] en(1) byte by simp
    from assms(12) [OF this] have "M (host_address D (2 ^ b) r k) = data_value w h k"
      by (simp add: host_address_def assms(10))
    then show ?thesis using g3(2) k en(2) byte by (simp add: returned_def payload_byte_def)
  qed
  with g3(1) show ?thesis by blast
qed

section \<open>Concrete payloads\<close>

definition ex_ctx :: endian_context where
  "ex_ctx = \<lparr>ec_address = 0, ec_new_address = 0, ec_data_ptr = Null_ptr, ec_byte_enable = Null_ptr, ec_length = 0,
     ec_stream_width = 0, from_f = (Conv_generic, 1), ec_sizeof_databus = 0, new_dbuf = 0, new_bebuf = 0, dbuf_size = 0,
     bebuf_size = 0, ec_next = None\<rparr>"

definition ex_bytes :: byte_store where
  "ex_bytes = \<lparr>arrays = [0 \<mapsto> [0x11, 0x22, 0x33, 0x44], 1 \<mapsto> [0, 0, 0, 0]], next_array = 2, raw = (\<lambda>_ _. 0), ctxs = (\<lambda>_. ex_ctx),
     next_ctx = 0, ctx_raw = ex_ctx, ctx_first = None\<rparr>"

definition ex_payload :: "tlm_command \<Rightarrow> nat \<Rightarrow> conv_txn" where
  "ex_payload cmd n = \<lparr>gp_address = 2, gp_command = cmd, gp_data = Mem_ptr n 0, gp_length = 4, gp_id = 0, gp_mm = None,
     gp_ref_count = 0, gp_response_status = TLM_INCOMPLETE_RESPONSE, gp_dmi = False,
     gp_byte_enable = Null_ptr, gp_byte_enable_length = 0, gp_streaming_width = 4, gp_option = TLM_MIN_PAYLOAD, gp_context = None\<rparr>"

lemma ex_input:
  assumes "cmd = TLM_READ_COMMAND \<or> cmd = TLM_WRITE_COMMAND" and "n \<le> 1"
  shows "conv_input 4 3 (ex_payload cmd n) ex_bytes" "conv_input 2 3 (ex_payload cmd n) ex_bytes"
proof -
  have "\<exists>v. load_byte ex_bytes (ptr_at (Mem_ptr n 0) (int k)) = Inr v" if "k < 4" for k
  proof -
    have "k = 0 \<or> k = 1 \<or> k = 2 \<or> k = 3" "n = 0 \<or> n = 1" using that assms(2) by linarith+
    then show ?thesis by (elim disjE) (simp_all add: load_byte_def ex_bytes_def)
  qed
  then have "user_ptr {} ex_bytes (Mem_ptr n 0) 4" by (simp add: user_ptr_def)
  moreover have "store_fit (ex_payload cmd n) ex_bytes"
    by (auto simp: store_fit_def ctx_of_def ex_payload_def ex_bytes_def arrays_ok_def)
  moreover have "own_arrays (ex_payload cmd n) ex_bytes = {}"
    by (auto simp: own_arrays_def ctx_of_def ex_payload_def ex_bytes_def)
  ultimately show "conv_input 4 3 (ex_payload cmd n) ex_bytes" "conv_input 2 3 (ex_payload cmd n) ex_bytes"
    using assms(1) by (auto simp: conv_input_def ex_payload_def)
qed

lemma endian_requests_agree_witness:
  "\<exists>t' h'. to_hostendian Conv_word 2 (ex_payload TLM_WRITE_COMMAND 0) (2 ^ 3) ex_bytes = Some (Inr (t', h')) \<and>
    carries t' h' 4 = Some 0x11 \<and> carries t' h' 3 = Some 0x44 \<and> carries t' h' 6 = None"
proof -
  let ?t = "ex_payload TLM_WRITE_COMMAND 0"
  have "fits Conv_word 2 3 ?t" by (simp add: fits_def own_enables_def ex_payload_def) (rule exI [of _ 1], simp)
  from endian_requests_agree [OF ex_input(2) this] obtain t' h' where
    r: "to_hostendian Conv_word 2 ?t (2 ^ 3) ex_bytes = Some (Inr (t', h'))"
    and c: "\<And>a. carries t' h' a = initiator_carries 2 (2 ^ 3) ?t ex_bytes a"
    by (auto simp: ex_payload_def)
  have "initiator_carries 2 (2 ^ 3) ?t ex_bytes 4 = Some 0x11" "initiator_carries 2 (2 ^ 3) ?t ex_bytes 3 = Some 0x44"
    "initiator_carries 2 (2 ^ 3) ?t ex_bytes 6 = None"
    by (simp_all add: initiator_carries_def initiator_index_def flip_def ex_payload_def payload_enabled_def payload_byte_def
        load_byte_def ex_bytes_def Let_def)
  with r c show ?thesis by auto
qed

text \<open>A memory with what the word conversion wrote, and its answer to a read of the single conversion.\<close>

definition ex_memory :: "u64 \<Rightarrow> byte" where
  "ex_memory a = (case initiator_carries 4 (2 ^ 3) (ex_payload TLM_WRITE_COMMAND 0) ex_bytes a of Some v \<Rightarrow> v | None \<Rightarrow> 0)"

definition ex_read :: "conv_txn \<times> byte_store" where
  "ex_read = to_hostendian_single 4 (ex_payload TLM_READ_COMMAND 1) (2 ^ 3) ex_bytes"

definition ex_answer :: byte_store where
  "ex_answer = (snd ex_read)\<lparr>arrays := (arrays ex_bytes)(1 \<mapsto> [0x11, 0x22, 0x33, 0x44])\<rparr>"

lemma ex_read_eq:
  "gp_address (fst ex_read) = 2" "gp_data (fst ex_read) = Mem_ptr 1 0" "gp_length (fst ex_read) = 4"
  "gp_byte_enable (fst ex_read) = Null_ptr" "arrays (snd ex_read) = arrays ex_bytes"
  by (simp_all add: ex_read_def to_hostendian_single_def ex_payload_def ex_bytes_def establish_context_def ctx_pop_def
      upd_ctx_def get_address_def set_address_def b_mask_def)

lemma ex_memory_eq: "ex_memory 2 = 0x11" "ex_memory 3 = 0x22" "ex_memory 4 = 0x33" "ex_memory 5 = 0x44"
  by (simp_all add: ex_memory_def initiator_carries_def initiator_index_def flip_def ex_payload_def payload_enabled_def
      payload_byte_def load_byte_def ex_bytes_def Let_def)

lemma ex_answers: "target_answers ex_memory (fst ex_read) (snd ex_read) ex_answer"
  unfolding target_answers_def
proof (intro conjI allI impI)
  show "ctxs ex_answer = ctxs (snd ex_read)" by (simp add: ex_answer_def)
  have four: "x = 0 \<or> x = 1 \<or> x = 2 \<or> x = 3" if "x < 4" for x :: nat using that by linarith
  show "load_byte ex_answer (ptr_at (gp_data (fst ex_read)) (int x)) = Inr (ex_memory (gp_address (fst ex_read) + of_nat x))"
    if "x < unat (gp_length (fst ex_read))" for x
  proof -
    have "x < 4" using that by (simp add: ex_read_eq)
    from four [OF this] show ?thesis by (elim disjE) (simp_all add: ex_read_eq ex_memory_eq load_byte_def ex_answer_def)
  qed
  fix p
  assume p: "\<forall>x < unat (gp_length (fst ex_read)). payload_enabled (fst ex_read) (snd ex_read) x \<longrightarrow>
    p \<noteq> ptr_at (gp_data (fst ex_read)) (int x)"
  have "p \<noteq> Mem_ptr 1 k" if "unat k < 4" for k
    using p that by (auto simp: ex_read_eq payload_enabled_def dest: spec [of _ "unat k"])
  then show "load_byte ex_answer p = load_byte (snd ex_read) p"
    by (auto simp: load_byte_def ex_answer_def ex_read_eq ex_bytes_def split: data_ptr.split)
qed

lemma endian_write_read_witness:
  "\<exists>g3. from_hostendian (fst ex_read) ex_answer = Some (Inr g3) \<and>
    payload_byte (ex_payload TLM_READ_COMMAND 1) g3 0 = Some 0x11 \<and> payload_byte (ex_payload TLM_READ_COMMAND 1) g3 3 = Some 0x44"
proof -
  let ?w = "ex_payload TLM_WRITE_COMMAND 0" and ?r = "ex_payload TLM_READ_COMMAND 1"
  have w: "conv_input 4 3 ?w ex_bytes" and r: "conv_input 4 3 ?r ex_bytes" by (rule ex_input, simp_all)+
  have fw: "fits Conv_word 4 3 ?w" by (simp add: fits_def own_enables_def ex_payload_def) (rule exI [of _ 2], simp)
  have fr: "fits Conv_single 4 3 ?r" by (simp add: fits_def single_input_def ex_payload_def)
  obtain w' h' where w': "to_hostendian Conv_word 4 ?w (2 ^ 3) ex_bytes = Some (Inr (w', h'))" "request_ok 4 3 ?w ex_bytes w' h'"
    using conversions_ok [OF w fw] by blast
  have read: "to_hostendian Conv_single 4 ?r (2 ^ 3) ex_bytes = Some (Inr (fst ex_read, snd ex_read))"
    by (simp add: to_hostendian_def ex_read_def)
  have mem: "ex_memory a = v" if "carries w' h' a = Some v" for a v
    using w'(2) that by (simp add: request_ok_def ex_payload_def ex_memory_def)
  have "\<exists>g3. from_hostendian (fst ex_read) ex_answer = Some (Inr g3) \<and>
    (\<forall>k < unat (gp_length ?r). payload_enabled ?w ex_bytes k \<and> payload_enabled ?r ex_bytes k \<longrightarrow>
      payload_byte ?r g3 k = payload_byte ?w ex_bytes k)"
    by (rule endian_write_read [OF w fw _ w'(1) r fr _ _ read _ _ mem ex_answers]) (simp_all add: ex_payload_def enables_fit_def)
  then obtain g3 where g3: "from_hostendian (fst ex_read) ex_answer = Some (Inr g3)"
    "\<And>k. k < 4 \<Longrightarrow> payload_byte ?r g3 k = payload_byte ?w ex_bytes k"
    by (auto simp: payload_enabled_def ex_payload_def)
  have "payload_byte ?w ex_bytes 0 = Some 0x11" "payload_byte ?w ex_bytes 3 = Some 0x44"
    by (simp_all add: payload_byte_def load_byte_def ex_payload_def ex_bytes_def)
  with g3 show ?thesis by auto
qed

section \<open>Addresses above 4 GiB\<close>

text \<open>
  The mask of the generic functions has 32 bits: of a high address it clears the upper half, and the index of the
  first byte is then past the end of the new array, which has less than 2 GiB.
\<close>

lemma generic_high_address:
  assumes b: "b < 32" and high: "2 ^ 32 \<le> unat adr" and arr: "arrays h d = Some bs" "length bs < 2 ^ 31"
  shows "load_byte h (ptr_add (Mem_ptr d 0) ((adr XOR (2 ^ b - 1)) - (adr AND bus_mask (2 ^ b)))) = Inl Out_of_bounds"
proof -
  let ?A = "unat adr" and ?B = "(2 :: nat) ^ b" and ?i = "adr XOR (2 ^ b - 1)" and ?n = "adr AND bus_mask (2 ^ b)"
  define H L where "H = ?A div 2 ^ 32 * 2 ^ 32" and "L = ?A mod 2 ^ 32"
  have A: "?A = H + L" unfolding H_def L_def by (rule div_mult_mod_eq [symmetric])
  have H: "?B dvd H" "2 ^ 32 \<le> H"
  proof -
    have "?B dvd 2 ^ 32" by (rule le_imp_power_dvd) (use b in simp)
    then show "?B dvd H" unfolding H_def by (rule dvd_mult)
    have "L < 2 ^ 32" by (simp add: L_def)
    then have "H \<noteq> 0" using A high by linarith
    then show "2 ^ 32 \<le> H" by (simp add: H_def)
  qed
  have n: "unat ?n = L div ?B * ?B"
  proof -
    have "(2 :: u32) ^ b - 1 = mask b" by (simp add: mask_eq_exp_minus_1)
    then have "?n = take_bit 32 adr AND NOT (mask b)"
      unfolding bus_mask_def by (intro bit_word_eqI) (use b in \<open>auto simp: bit_simps\<close>)
    moreover have "unat (take_bit 32 adr) = L"
    proof -
      have "unat (take_bit 32 adr) = take_bit 32 ?A" by (rule unsigned_take_bit_eq)
      then show ?thesis by (simp only: take_bit_eq_mod L_def)
    qed
    ultimately show ?thesis by (simp add: unat_and_not_mask)
  qed
  have i: "unat ?i = H + flip ?B L"
    using unat_xor_mask [of b adr] flip_add [OF _ H(1), of L] b A by simp
  have "unat ?n \<le> flip ?B L" unfolding n by (simp add: flip_def)
  then have "?n \<le> ?i" using i by (simp add: word_le_nat_alt)
  then have "unat (?i - ?n) = unat ?i - unat ?n" by (rule unat_sub)
  then have "2 ^ 32 \<le> unat (?i - ?n)" using i \<open>unat ?n \<le> flip ?B L\<close> H(2) by linarith
  then show ?thesis using arr by (simp add: load_byte_def)
qed

end
