(* ===== verification/Link_Time.thy ===== *)
theory Link_Time
  imports Link
begin

text \<open>
  The link of one host in simulated time. The kernel resumes a thread exactly when the time
  it waits for has passed; which of the threads that are due at one moment runs first is open. A
  run of the bound link is therefore a list of events with their times, in which each turn of
  a thread comes at its wake-up time, and the length of the next wait is what the turn returns.
  The result bounds how long a group of read requests takes from the upstream port to the memory
  devices, whatever goes the other way meanwhile.
\<close>

section \<open>Timed runs\<close>

datatype link_thread = Usp_fw | Usp_bw | Dsp_fw | Dsp_bw | Ctrl_fw | Ctrl_bw

type_synonym link_event = "(usp_event + dsp_event) + ctrl_event"
type_synonym link_state = "(usp \<times> dsp) \<times> ctrl"

definition link_threads :: "link_thread list" where
  "link_threads = [Usp_fw, Usp_bw, Dsp_fw, Dsp_bw, Ctrl_fw, Ctrl_bw]"

fun link_thread_of :: "link_event \<Rightarrow> link_thread option" where
  "link_thread_of (Inl (Inl Usp_fw_run)) = Some Usp_fw"
| "link_thread_of (Inl (Inl Usp_bw_run)) = Some Usp_bw"
| "link_thread_of (Inl (Inr Dsp_fw_run)) = Some Dsp_fw"
| "link_thread_of (Inl (Inr Dsp_bw_run)) = Some Dsp_bw"
| "link_thread_of (Inr (Ctrl_fw_run dm)) = Some Ctrl_fw"
| "link_thread_of (Inr (Ctrl_bw_run st)) = Some Ctrl_bw"
| "link_thread_of _ = None"

text \<open>The \<open>wait\<close> that ends the turn; a call from outside waits for nothing.\<close>

fun link_wait :: "link_event \<Rightarrow> link_state \<Rightarrow> sim_error + delay" where
  "link_wait (Inl (Inl Usp_fw_run)) ((u, d), c) = ebind (usp_fw_resume u) (\<lambda>(_, _, w). Inr w)"
| "link_wait (Inl (Inl Usp_bw_run)) ((u, d), c) = ebind (usp_bw_resume u) (\<lambda>(_, _, w). Inr w)"
| "link_wait (Inl (Inr Dsp_fw_run)) ((u, d), c) = Inr (snd (snd (dsp_fw_resume d)))"
| "link_wait (Inl (Inr Dsp_bw_run)) ((u, d), c) = Inr (snd (snd (dsp_bw_resume d)))"
| "link_wait (Inr (Ctrl_fw_run dm)) ((u, d), c) = ebind (ctrl_fw_resume dm c) (\<lambda>(_, _, _, w). Inr w)"
| "link_wait (Inr (Ctrl_bw_run st)) ((u, d), c) = ebind (ctrl_bw_resume st c) (\<lambda>(_, _, w). Inr w)"
| "link_wait _ _ = Inr (Delay_ns 0)"

text \<open>The state of the link with the time in nanoseconds and the time at which each thread resumes.\<close>

record timed_link =
  tl_now :: rat
  tl_wake :: "link_thread \<Rightarrow> rat"
  tl_link :: link_state

definition timed_ev :: "store \<Rightarrow> rat \<Rightarrow> rat \<times> link_event \<Rightarrow> timed_link \<Rightarrow>
  sim_error + (timed_link \<times> ((call + call) + call) list)" where
  "timed_ev st period = (\<lambda>(t, e) s.
     ebind (link_ev st e (tl_link s)) (\<lambda>(l, os).
     ebind (link_wait e (tl_link s)) (\<lambda>w.
       Inr (\<lparr>tl_now = t, tl_wake = (case link_thread_of e of None \<Rightarrow> tl_wake s
              | Some th \<Rightarrow> (tl_wake s)(th := t + delay_time period w)), tl_link = l\<rparr>, os))))"

text \<open>Time does not go back, no thread is overdue, and a turn comes when its thread is due.\<close>

definition turn_on_time :: "rat \<times> link_event \<Rightarrow> timed_link \<Rightarrow> bool" where
  "turn_on_time = (\<lambda>(t, e) s. tl_now s \<le> t \<and> list_all (\<lambda>th. t \<le> tl_wake s th) link_threads \<and>
     (case link_thread_of e of None \<Rightarrow> True | Some th \<Rightarrow> tl_wake s th = t))"

fun on_schedule :: "store \<Rightarrow> rat \<Rightarrow> (rat \<times> link_event) list \<Rightarrow> timed_link \<Rightarrow> bool" where
  "on_schedule st period [] s \<longleftrightarrow> True"
| "on_schedule st period (x # xs) s \<longleftrightarrow> turn_on_time x s \<and>
     (case timed_ev st period x s of Inl _ \<Rightarrow> False | Inr (s', _) \<Rightarrow> on_schedule st period xs s')"

section \<open>The bound as a number\<close>

text \<open>
  \<open>p\<close> is the period, \<open>m\<close> the longest wait before a read flit, \<open>l\<close> the longest wait
  before the controller sends. The three deadlines bound when the upstream port has sent \<open>q\<close> flits,
  when the downstream port has sent its \<open>b\<close> requests and those, and when the controller
  has sent its \<open>k\<close> requests and the \<open>n\<close> that are still to come by time \<open>d\<close>. The
  threads resume at \<open>w\<close>, at the head of their loop or not.
\<close>

definition usp_deadline :: "rat \<Rightarrow> rat \<Rightarrow> nat \<Rightarrow> bool \<Rightarrow> rat \<Rightarrow> rat" where
  "usp_deadline p m q head w = w + of_nat q * (m + p) - (if head then p else m + p)"

definition dsp_deadline :: "rat \<Rightarrow> nat \<Rightarrow> rat \<Rightarrow> nat \<Rightarrow> rat \<Rightarrow> rat" where
  "dsp_deadline p q t b w =
     (if q = 0 then w + (of_nat b - 1) * p else max (w + of_nat b * p) (t + p) + (2 * of_nat q - 1) * p)"

definition ctrl_deadline :: "rat \<Rightarrow> rat \<Rightarrow> nat \<Rightarrow> rat \<Rightarrow> nat \<Rightarrow> bool \<Rightarrow> rat \<Rightarrow> rat" where
  "ctrl_deadline p l n d k head w =
     (let f = w + of_nat k * (l + p) - (if head then 0 else l)
      in if n = 0 then f - p else max f (d + p) + of_nat n * (l + p) - p)"

lemma dsp_deadline_mono: "t \<le> t' \<Longrightarrow> dsp_deadline p q t b w \<le> dsp_deadline p q t' b w"
  by (auto simp: dsp_deadline_def)

lemma ctrl_deadline_mono: "d \<le> d' \<Longrightarrow> ctrl_deadline p l n d k h w \<le> ctrl_deadline p l n d' k h w"
  by (auto simp: ctrl_deadline_def Let_def)

text \<open>Every step of the six threads leaves the deadlines where they are or lowers them.\<close>

lemma usp_deadline_start: "d \<le> m \<Longrightarrow> usp_deadline p m q False (w + d) \<le> usp_deadline p m q True w"
  by (simp add: usp_deadline_def)

lemma usp_deadline_sent: "usp_deadline p m q True (w + p) = usp_deadline p m (Suc q) False w"
  by (simp add: usp_deadline_def algebra_simps)

lemma usp_deadline_late:
  assumes "0 < p" and "p \<le> m" and "0 < q"
  shows "w \<le> usp_deadline p m q h w"
proof -
  obtain r where q: "q = Suc r" using assms(3) by (cases q) auto
  have "0 \<le> of_nat r * (m + p)" using assms(1,2) by simp
  then show ?thesis using assms(1,2) by (simp add: usp_deadline_def q distrib_right)
qed

lemma dsp_deadline_arrival:
  assumes "0 < p"
  shows "dsp_deadline p q t (b + 2) w \<le> dsp_deadline p (Suc q) t b w"
  using assms by (auto simp: dsp_deadline_def algebra_simps max_def)

lemma dsp_deadline_sent: "dsp_deadline p q t b (w + p) = dsp_deadline p q t (Suc b) w"
  by (simp add: dsp_deadline_def algebra_simps)

lemma dsp_deadline_idle: "w \<le> t \<Longrightarrow> 0 < q \<Longrightarrow> dsp_deadline p q t 0 (w + p) \<le> dsp_deadline p q t 0 w"
  by (simp add: dsp_deadline_def)

lemma dsp_deadline_late:
  assumes "0 < p" and "0 < q \<longrightarrow> x \<le> t" and "x \<le> w" and "0 < 2 * q + b"
  shows "x \<le> dsp_deadline p q t b w"
proof (cases "q = 0")
  case True
  then have "0 \<le> (of_nat b - 1) * p" using assms(1,4) by (intro mult_nonneg_nonneg) auto
  then show ?thesis using True assms(3) by (simp add: dsp_deadline_def)
next
  case False
  then have "0 \<le> (2 * of_nat q - 1) * p" using assms(1) by (intro mult_nonneg_nonneg) auto
  moreover have "x \<le> max (w + of_nat b * p) (t + p)" using False assms(1,2) by (simp add: le_max_iff_disj)
  ultimately show ?thesis using False by (simp add: dsp_deadline_def)
qed

lemma ctrl_deadline_arrival:
  assumes "0 < p" and "0 \<le> l"
  shows "ctrl_deadline p l n d (Suc k) h w \<le> ctrl_deadline p l (Suc n) d k h w"
proof -
  have "0 \<le> l + p" using assms by simp
  then show ?thesis by (auto simp: ctrl_deadline_def Let_def algebra_simps max_def)
qed

lemma ctrl_deadline_start: "d \<le> l \<Longrightarrow> ctrl_deadline p l n x k False (w + d) \<le> ctrl_deadline p l n x k True w"
  by (auto simp: ctrl_deadline_def Let_def)

lemma ctrl_deadline_sent: "ctrl_deadline p l n x k True (w + p) = ctrl_deadline p l n x (Suc k) False w"
  by (simp add: ctrl_deadline_def Let_def algebra_simps)

lemma ctrl_deadline_idle:
  "w \<le> x \<Longrightarrow> 0 < n \<Longrightarrow> ctrl_deadline p l n x 0 True (w + p) \<le> ctrl_deadline p l n x 0 True w"
  by (simp add: ctrl_deadline_def)

lemma ctrl_deadline_late:
  assumes "0 < p" and "0 \<le> l" and "0 < n \<longrightarrow> y \<le> x" and "y \<le> w" and "0 < n + k" and "\<not> h \<longrightarrow> 0 < k"
  shows "y \<le> ctrl_deadline p l n x k h w"
proof (cases "n = 0")
  case True
  then obtain r where k: "k = Suc r" using assms(5) by (cases k) auto
  have "0 \<le> of_nat r * (l + p)" using assms(1,2) by simp
  moreover have "ctrl_deadline p l n x k h w = w + of_nat r * (l + p) + (if h then l else 0)"
    using True by (simp add: ctrl_deadline_def k algebra_simps)
  moreover have "0 \<le> (if h then l else 0)" using assms(2) by simp
  ultimately show ?thesis using assms(4) by linarith
next
  case False
  then obtain r where n: "n = Suc r" by (cases n) auto
  have "0 \<le> of_nat r * (l + p)" using assms(1,2) by simp
  moreover have "y + p \<le> max (w + of_nat k * (l + p) - (if h then 0 else l)) (x + p)"
    using False assms(3) by (simp add: le_max_iff_disj)
  moreover have "ctrl_deadline p l n x k h w =
      max (w + of_nat k * (l + p) - (if h then 0 else l)) (x + p) + of_nat r * (l + p) + l"
    by (simp add: ctrl_deadline_def n algebra_simps)
  ultimately show ?thesis using assms(1,2) by linarith
qed

section \<open>Which events touch the requests\<close>

definition usp_fview :: "usp \<Rightarrow> pid list \<times> pid list \<times> usp_fw_pc \<times> u32 \<times> u32 \<times> u32 \<times> u32" where
  "usp_fview u = (r_queue u, w_queue u, u_fw_pc u, f_idx u, r_msg u, u_port_latency u, u_link_latency u)"

definition dsp_fview :: "dsp \<Rightarrow> pid list \<times> pid list" where
  "dsp_fview d = (r_queue d, w_queue d)"

definition ctrl_fview :: "ctrl \<Rightarrow> pid list \<times> pid list \<times> ctrl_fw_pc \<times> u32 \<times> u32" where
  "ctrl_fview c = (r_queue c, w_queue c, c_fw_pc c, c_link_latency c, c_ctrl_latency c)"

lemmas fview_defs = usp_fview_def dsp_fview_def ctrl_fview_def

lemma run_events_keep:
  assumes "\<And>e s s' os. e \<in> set es \<Longrightarrow> ev e s = Inr (s', os) \<Longrightarrow> v s' = v s"
  shows "run_events ev es s = Inr (s', os) \<Longrightarrow> v s' = v s"
  using assms
proof (induction es arbitrary: s os)
  case (Cons e es)
  then obtain s1 os1 os2 where "ev e s = Inr (s1, os1)" "run_events ev es s1 = Inr (s', os2)" by auto
  with Cons show ?case by (metis list.set_intros)
qed simp

definition is_answer :: "call \<Rightarrow> bool" where
  "is_answer x \<longleftrightarrow> (case x of Bw_read i p \<Rightarrow> True | Bw_write i p \<Rightarrow> True | _ \<Rightarrow> False)"

lemma usp_bw_keeps:
  assumes "usp_bw_resume u = Inr (u', os, w)"
  shows "usp_fview u' = usp_fview u" and "list_all is_answer os"
  using assms
  by (auto simp: usp_bw_resume_def usp_rack_check_def usp_ack_delay_def usp_fview_def is_answer_def
      split: usp_bw_pc.splits list.splits if_splits)

lemma dsp_bw_keeps:
  assumes "dsp_bw_resume d = (d', os, w)"
  shows "dsp_fview d' = dsp_fview d" and "list_all is_answer os"
  using assms by (auto simp: dsp_bw_resume_def dsp_fview_def is_answer_def split: list.splits)

lemma ctrl_send_keeps:
  "ctrl_send_rack st c = Inr (c', os) \<Longrightarrow> ctrl_fview c' = ctrl_fview c \<and> list_all is_answer os"
  "ctrl_send_wack st c = Inr (c', os) \<Longrightarrow> ctrl_fview c' = ctrl_fview c \<and> list_all is_answer os"
  by (auto simp: ctrl_send_rack_def ctrl_send_wack_def ctrl_fview_def is_answer_def Let_def case_prod_beta split: if_splits)

lemma ctrl_wacks_keeps:
  "ctrl_send_wacks n st c = Inr (c', os) \<Longrightarrow> ctrl_fview c' = ctrl_fview c \<and> list_all is_answer os"
proof (induction n arbitrary: c os)
  case (Suc n)
  then show ?case using ctrl_send_keeps(2) by (fastforce split: if_splits)
qed simp

lemma ctrl_fview_pc [simp]: "ctrl_fview (c\<lparr>c_bw_pc := x\<rparr>) = ctrl_fview c"
  by (simp add: ctrl_fview_def)

lemma ctrl_turns_keep [simp]:
  "ctrl_fview (ctrl_drs_turn i c) = ctrl_fview c" "ctrl_fview (ctrl_ndr_turn i c) = ctrl_fview c"
  by (simp_all add: ctrl_drs_turn_def ctrl_ndr_turn_def)

lemma ctrl_bw_keeps:
  assumes "ctrl_bw_resume st c = Inr (c', os, w)"
  shows "ctrl_fview c' = ctrl_fview c \<and> list_all is_answer os"
  using assms ctrl_send_keeps ctrl_wacks_keeps [of 2 st c]
  by (auto simp: ctrl_bw_resume_def Let_def split: ctrl_bw_pc.splits if_splits)

lemma call_keeps [simp]:
  "usp_fview (fst (usp_nb_transport_bw st u p)) = usp_fview u"
  "dsp_fview (fst (dsp_nb_transport_bw st d p)) = dsp_fview d"
  "ctrl_fview (fst (ctrl_nb_transport_bw st c p)) = ctrl_fview c"
  by (simp_all add: usp_nb_transport_bw_def dsp_nb_transport_bw_def ctrl_nb_transport_bw_def Let_def
      push_ack_def fview_defs)

text \<open>What an answer feeds to the neighbour leaves the requests there alone.\<close>

lemma answers_feed:
  "list_all is_answer os \<Longrightarrow> concat (map (usp_to_dsp st) os) = []"
  "list_all is_answer os \<Longrightarrow> concat (map (dsp_to_ctrl st) (map Inr os)) = []"
  "concat (map (dsp_to_ctrl st) (map Inl os')) = []"
proof (induction os)
  case (Cons x os)
  { case 1 then show ?case using Cons.IH by (cases x) (auto simp: is_answer_def) }
  { case 2 then show ?case using Cons.IH by (cases x) (auto simp: is_answer_def) }
  { case 3 then show ?case using Cons.IH by simp }
next
  case Nil
  { case 1 then show ?case by simp }
  { case 2 then show ?case by simp }
  { case 3 then show ?case by (induction os') simp_all }
qed

lemma to_usp_keeps:
  assumes "run_events usp_ev (concat (map (dsp_to_usp st) os)) u = Inr (u', os')"
  shows "usp_fview u' = usp_fview u"
proof (rule run_events_keep [OF _ assms])
  fix e s s' os''
  assume "e \<in> set (concat (map (dsp_to_usp st) os))" and e: "usp_ev e s = Inr (s', os'')"
  then obtain x where "e \<in> set (dsp_to_usp st x)" by auto
  with e show "usp_fview s' = usp_fview s" by (cases x) auto
qed

lemma to_dsp_keeps:
  assumes "run_events (ports_ev st) (concat (map (ctrl_to_dsp st) os)) (u, d) = Inr ((u', d'), os')"
  shows "usp_fview u' = usp_fview u" and "dsp_fview d' = dsp_fview d"
proof -
  let ?v = "\<lambda>s. (usp_fview (fst s), dsp_fview (snd s))"
  have "?v (u', d') = ?v (u, d)"
  proof (rule run_events_keep [OF _ assms])
    fix e s s' os''
    assume "e \<in> set (concat (map (ctrl_to_dsp st) os))" and e: "ports_ev st e s = Inr (s', os'')"
    then obtain x where "e \<in> set (ctrl_to_dsp st x)" by auto
    with e show "?v s' = ?v s" by (cases x; cases s) auto
  qed
  then show "usp_fview u' = usp_fview u" "dsp_fview d' = dsp_fview d" by simp_all
qed

lemma concat_nothing [simp]: "concat (map (\<lambda>x. []) xs) = []"
  by (induction xs) simp_all

lemma link_run_ports:
  "link_ev st (Inl (Inl e)) ((u, d), c) = ebind (usp_ev e u) (\<lambda>(u', os).
     ebind (run_events dsp_ev (concat (map (usp_to_dsp st) os)) d) (\<lambda>(d', _). Inr (((u', d'), c), map (Inl \<circ> Inl) os)))"
  by (auto simp: link_ev_def answers_feed(3) ebind_def comp_def split: sum.splits prod.splits)

lemma quiet_event:
  assumes run: "link_ev st e ((u, d), c) = Inr (((u', d'), c'), os)" and legal: "link_legal ms e"
    and none: "from_host usp_read_in e = []" "from_host usp_write_in e = []"
    and other: "link_thread_of e \<notin> {Some Usp_fw, Some Dsp_fw, Some Ctrl_fw}"
  shows "usp_fview u' = usp_fview u \<and> dsp_fview d' = dsp_fview d \<and> ctrl_fview c' = ctrl_fview c"
proof (cases e)
  case (Inr x)
  show ?thesis
  proof (cases x)
    case (Ctrl_bw_run st')
    with Inr run obtain os1 w s2 where "ctrl_bw_resume st' c = Inr (c', os1, w)"
      "run_events (ports_ev st) (concat (map (ctrl_to_dsp st) os1)) (u, d) = Inr ((u', d'), s2)"
      by (auto simp: link_ev_def)
    with ctrl_bw_keeps to_dsp_keeps show ?thesis by blast
  next
    case (Ctrl_bw_call st' p)
    with Inr run show ?thesis by (auto simp: link_ev_def)
  qed (use Inr legal other in \<open>auto split: if_splits\<close>)
next
  case (Inl y)
  show ?thesis
  proof (cases y)
    case (Inl x)
    show ?thesis
    proof (cases x)
      case (Usp_fw_call st' p ph)
      with \<open>e = Inl y\<close> Inl none run show ?thesis
        by (auto simp: link_run_ports from_host_def usp_nb_transport_fw_def split: if_splits)
    next
      case Usp_bw_run
      with \<open>e = Inl y\<close> Inl run obtain os1 w s2 where r: "usp_bw_resume u = Inr (u', os1, w)"
        "run_events dsp_ev (concat (map (usp_to_dsp st) os1)) d = Inr (d', s2)" and "c' = c"
        by (auto simp: link_run_ports)
      moreover have "concat (map (usp_to_dsp st) os1) = []"
        by (rule answers_feed(1) [OF usp_bw_keeps(2) [OF r(1)]])
      ultimately show ?thesis using usp_bw_keeps(1) [OF r(1)] by simp
    qed (use \<open>e = Inl y\<close> Inl legal other in \<open>auto split: if_splits\<close>)
  next
    case (Inr x)
    show ?thesis
    proof (cases x)
      case Dsp_bw_run
      obtain d1 os1 w where r: "dsp_bw_resume d = (d1, os1, w)" by (metis prod_cases3)
      with Dsp_bw_run \<open>e = Inl y\<close> Inr run obtain s2 s3 where
        t: "run_events usp_ev (concat (map (dsp_to_usp st) os1)) u = Inr (u', s2)" "d' = d1"
        "run_events ctrl_ev (concat (map (dsp_to_ctrl st) (map Inr os1))) c = Inr (c', s3)"
        by (auto simp: link_ev_def)
      then have "run_events ctrl_ev [] c = Inr (c', s3)"
        by (simp only: answers_feed(2) [OF dsp_bw_keeps(2) [OF r]])
      then show ?thesis using dsp_bw_keeps(1) [OF r] to_usp_keeps [OF t(1)] t(2) by simp
    qed (use \<open>e = Inl y\<close> Inr legal other in \<open>auto split: if_splits\<close>)
  qed
qed

lemma feed_reads:
  "run_events dsp_ev (concat (map (usp_to_dsp st) (map (Fw_read i) ps))) d = Inr (d\<lparr>r_queue := r_queue d @ ps\<rparr>, [])"
proof (induction ps arbitrary: d)
  case (Cons p ps)
  have "dsp_ev (Dsp_fw_call (labelled TLM_READ_COMMAND st) p) d = Inr (d\<lparr>r_queue := r_queue d @ [p]\<rparr>, [])"
    by (simp add: dsp_nb_transport_fw_def push_request_def)
  with Cons.IH [of "d\<lparr>r_queue := r_queue d @ [p]\<rparr>"] show ?case by simp
qed simp

section \<open>The turns of the three forward threads\<close>

text \<open>
  Only reads are on their way to the memory. The bounds \<open>m\<close> and \<open>l\<close> cover the waits of
  the upstream port and of the controller.
\<close>

fun reads_only :: "nat \<Rightarrow> rat \<Rightarrow> rat \<Rightarrow> rat \<Rightarrow> link_state \<Rightarrow> bool" where
  "reads_only ms p m l ((u, d), c) \<longleftrightarrow> usp_inv u \<and> ctrl_inv ms 1 c \<and> r_msg u = 2 \<and>
     u_fw_pc u \<in> {Fw_top, Fw_read_flit} \<and> f_idx u \<noteq> 4 \<and> w_queue u = [] \<and> w_queue d = [] \<and> w_queue c = [] \<and>
     c_fw_pc c \<in> {Cfw_top, Cfw_read} \<and> p \<le> m \<and> of_nat (unat (u_port_latency u + u_link_latency u)) \<le> m \<and>
     of_nat (unat (c_ctrl_latency c)) \<le> l \<and> of_nat (unat (c_link_latency c)) \<le> l"

text \<open>The reads that will reach the memory without another call of the host: reads leave the port in pairs.\<close>

fun in_transit :: "link_state \<Rightarrow> nat" where
  "in_transit ((u, d), c) = 2 * (length (r_queue u) div 2) + length (r_queue d) + length (r_queue c)"

definition deadline :: "rat \<Rightarrow> rat \<Rightarrow> rat \<Rightarrow> timed_link \<Rightarrow> rat" where
  "deadline p m l s = (case tl_link s of ((u, d), c) \<Rightarrow>
     let q = length (r_queue u) div 2; b = length (r_queue d);
         t = usp_deadline p m q (u_fw_pc u = Fw_top) (tl_wake s Usp_fw);
         x = dsp_deadline p q t b (tl_wake s Dsp_fw)
     in ctrl_deadline p l (2 * q + b) x (length (r_queue c)) (c_fw_pc c = Cfw_top) (tl_wake s Ctrl_fw))"

lemma reads_only_views:
  assumes "reads_only ms p m l ((u, d), c)" and "usp_inv u'" and "ctrl_inv ms 1 c'"
    and "usp_fview u' = usp_fview u" and "dsp_fview d' = dsp_fview d" and "ctrl_fview c' = ctrl_fview c"
  shows "reads_only ms p m l ((u', d'), c')"
  using assms by (simp add: fview_defs)

lemma read_delay_bound:
  assumes "p \<le> m" and "of_nat (unat (u_port_latency u + u_link_latency u)) \<le> m"
  shows "delay_time p (read_delay u) \<le> m"
  using assms by (simp add: read_delay_def)

lemma usp_turn:
  assumes ro: "reads_only ms p m l ((u, d), c)"
    and run: "link_ev st (Inl (Inl Usp_fw_run)) ((u, d), c) = Inr (s', os)"
    and wait: "link_wait (Inl (Inl Usp_fw_run)) ((u, d), c) = Inr w"
  obtains (start) "u_fw_pc u = Fw_top" "2 \<le> length (r_queue u)" "s' = ((u\<lparr>u_fw_pc := Fw_read_flit\<rparr>, d), c)"
      "delay_time p w \<le> m"
  | (idle) "u_fw_pc u = Fw_top" "length (r_queue u) < 2" "s' = ((u, d), c)"
  | (send) st' where "u_fw_pc u = Fw_read_flit" "2 \<le> length (r_queue u)" "delay_time p w = p"
      "s' = ((u\<lparr>r_queue := drop 2 (r_queue u), u_stats := st', u_fw_pc := Fw_top\<rparr>,
              d\<lparr>r_queue := r_queue d @ take 2 (r_queue u)\<rparr>), c)"
proof (cases "u_fw_pc u = Fw_top")
  case True
  have cfg: "usp_cfg_ok u" using ro by (simp add: usp_inv_def)
  have "usp_fw_resume u = Inr (u\<lparr>u_fw_pc := fw_next u\<rparr>, [], read_delay u)"
    using fw_top_idle [OF cfg True] ro by simp
  then have r: "s' = ((u\<lparr>u_fw_pc := fw_next u\<rparr>, d), c)" "w = read_delay u"
    using run wait by (simp_all add: link_run_ports)
  have r2: "unat (r_msg u) = 2" using ro by simp
  show thesis
  proof (cases "2 \<le> length (r_queue u)")
    case True
    with r r2 have "s' = ((u\<lparr>u_fw_pc := Fw_read_flit\<rparr>, d), c)" by (simp add: fw_next_def)
    with start \<open>u_fw_pc u = Fw_top\<close> True read_delay_bound [of p m u] ro r(2) show thesis by simp
  next
    case False
    with r r2 True have "s' = ((u, d), c)" by (simp add: fw_next_def)
    with idle True False show thesis by simp
  qed
next
  case False
  with ro have pc: "u_fw_pc u = Fw_read_flit" by simp
  have r2: "unat (r_msg u) = 2" using ro by simp
  have "usp_fw_ok u" using ro by (simp add: usp_inv_def)
  then have "unat (r_msg u) \<le> length (r_queue u)" using pc by (simp add: usp_fw_ok_def)
  then have len: "2 \<le> length (r_queue u)" by (simp only: r2)
  let ?u = "u\<lparr>r_queue := drop 2 (r_queue u), u_stats := increase_r_flit (u_stats u), u_fw_pc := Fw_top\<rparr>"
  have "usp_fw_resume u = Inr (?u, map (Fw_read 0) (take 2 (r_queue u)), Delay_period)"
    using fw_read [OF pc] len by (simp add: r2)
  with run wait have "s' = ((?u, d\<lparr>r_queue := r_queue d @ take 2 (r_queue u)\<rparr>), c)" "w = Delay_period"
    by (simp_all add: link_run_ports feed_reads del: map_map)
  with send [of "increase_r_flit (u_stats u)"] pc len show thesis by simp
qed

lemma dsp_turn:
  assumes ro: "reads_only ms p m l ((u, d), c)"
    and run: "link_ev st (Inl (Inr Dsp_fw_run)) ((u, d), c) = Inr (s', os)"
    and wait: "link_wait (Inl (Inr Dsp_fw_run)) ((u, d), c) = Inr w"
  obtains (idle) "r_queue d = []" "s' = ((u, d), c)" "delay_time p w = p"
  | (send) x xs m' where "r_queue d = x # xs" "delay_time p w = p"
      "s' = ((u, d\<lparr>r_queue := xs\<rparr>), c\<lparr>r_queue := r_queue c @ [x], r_trans_id := m'\<rparr>)"
proof (cases "r_queue d")
  case Nil
  with ro have "dsp_fw_resume d = (d, [], Delay_period)" by (simp add: dsp_fw_resume_def)
  with run wait have "s' = ((u, d), c)" "delay_time p w = p" by (auto simp: link_ev_def)
  with idle Nil show thesis by simp
next
  case (Cons x xs)
  with ro have r: "dsp_fw_resume d = (d\<lparr>r_queue := xs\<rparr>, [Fw_read 0 x], Delay_period)"
    by (simp add: dsp_fw_resume_def)
  let ?c = "c\<lparr>r_queue := r_queue c @ [x], r_trans_id := (r_trans_id c)(gp_address (heap (labelled TLM_READ_COMMAND st) x) \<mapsto> 0)\<rparr>"
  have "fst (ctrl_nb_transport_fw (labelled TLM_READ_COMMAND st) c 0 x) = ?c"
    by (simp add: ctrl_nb_transport_fw_def Let_def push_request_def)
  with r run wait have "s' = ((u, d\<lparr>r_queue := xs\<rparr>), ?c)" "delay_time p w = p"
    by (auto simp: link_ev_def)
  with send Cons show thesis by blast
qed

lemma stage_delay_bound:
  assumes "ctrl_stage_delay c n = Inr w" and "of_nat (unat (c_ctrl_latency c)) \<le> l" and "of_nat (unat (c_link_latency c)) \<le> l"
  shows "delay_time p w \<le> l"
  using assms by (auto simp: ctrl_stage_delay_def split: if_splits)

lemma ctrl_turn:
  assumes ro: "reads_only ms p m l ((u, d), c)"
    and run: "link_ev st (Inr (Ctrl_fw_run dm)) ((u, d), c) = Inr (s', os)"
    and wait: "link_wait (Inr (Ctrl_fw_run dm)) ((u, d), c) = Inr w"
  obtains (start) "c_fw_pc c = Cfw_top" "r_queue c \<noteq> []" "s' = ((u, d), c\<lparr>c_fw_pc := Cfw_read\<rparr>)" "delay_time p w \<le> l"
  | (idle) "c_fw_pc c = Cfw_top" "r_queue c = []" "s' = ((u, d), c)" "delay_time p w = p"
  | (send) x xs n' where "c_fw_pc c = Cfw_read" "r_queue c = x # xs" "delay_time p w = p"
      "s' = ((u, d), c\<lparr>r_queue := xs, r_num := n', c_fw_pc := Cfw_top\<rparr>)"
proof -
  have s': "\<exists>dm' c' os1. ctrl_fw_resume dm c = Inr (dm', c', os1, w)" using wait by auto
  then obtain dm' c' os1 where r: "ctrl_fw_resume dm c = Inr (dm', c', os1, w)" by blast
  show thesis
  proof (cases "c_fw_pc c = Cfw_top")
    case True
    show thesis
    proof (cases "r_queue c = []")
      case True
      with \<open>c_fw_pc c = Cfw_top\<close> r ro have "c' = c" "os1 = []" "w = Delay_period"
        by (auto simp: ctrl_fw_resume_def ctrl_write_check_def)
      with idle True \<open>c_fw_pc c = Cfw_top\<close> run r show thesis by (auto simp: link_ev_def)
    next
      case False
      with \<open>c_fw_pc c = Cfw_top\<close> r have "c' = c\<lparr>c_fw_pc := Cfw_read\<rparr>" "os1 = []" and d: "ctrl_stage_delay c (r_num c) = Inr w"
        by (auto simp: ctrl_fw_resume_def)
      with start False \<open>c_fw_pc c = Cfw_top\<close> run r stage_delay_bound [OF d] ro show thesis
        by (auto simp: link_ev_def)
    qed
  next
    case False
    with ro have pc: "c_fw_pc c = Cfw_read" by simp
    with r obtain x xs i where q: "r_queue c = x # xs" and c': "c' = c\<lparr>r_queue := xs, r_num := r_num c + 1, c_fw_pc := Cfw_top\<rparr>"
      and "os1 = [Fw_read i x]" and w: "w = Delay_period"
      using ro by (auto simp: ctrl_fw_resume_def ctrl_write_check_def)
    with run r have "s' = ((u, d), c')" by (auto simp: link_ev_def)
    with send [of x xs "r_num c + 1"] pc q c' w show thesis by simp
  qed
qed

section \<open>The deadline holds\<close>

lemma reads_only_nonneg: "reads_only ms p m l ((u, d), c) \<Longrightarrow> 0 \<le> l"
proof -
  assume ro: "reads_only ms p m l ((u, d), c)"
  have "0 \<le> (of_nat (unat (c_link_latency c)) :: rat)" by (rule of_nat_0_le_iff)
  also have "\<dots> \<le> l" using ro by (simp only: reads_only.simps)
  finally show "0 \<le> l" .
qed

lemma deadline_late:
  assumes p: "0 < p" and ro: "reads_only ms p m l (tl_link s)" and due: "list_all (\<lambda>th. t \<le> tl_wake s th) link_threads"
    and left: "0 < in_transit (tl_link s)"
  shows "t \<le> deadline p m l s"
proof -
  obtain u d c where lk: "tl_link s = ((u, d), c)" by (metis prod.exhaust)
  note ro = ro [unfolded lk]
  let ?q = "length (r_queue u) div 2" and ?b = "length (r_queue d)" and ?k = "length (r_queue c)"
  let ?t = "usp_deadline p m ?q (u_fw_pc u = Fw_top) (tl_wake s Usp_fw)"
  let ?x = "dsp_deadline p ?q ?t ?b (tl_wake s Dsp_fw)"
  have w: "t \<le> tl_wake s Usp_fw" "t \<le> tl_wake s Dsp_fw" "t \<le> tl_wake s Ctrl_fw"
    using due by (simp_all add: link_threads_def)
  have l: "0 \<le> l" by (rule reads_only_nonneg [OF ro])
  have pm: "p \<le> m" using ro by simp
  have T: "0 < ?q \<longrightarrow> t \<le> ?t" by (intro impI order_trans [OF w(1)] usp_deadline_late [OF p pm])
  have X: "0 < 2 * ?q + ?b \<longrightarrow> t \<le> ?x" by (intro impI dsp_deadline_late [OF p T w(2)])
  have h: "\<not> c_fw_pc c = Cfw_top \<longrightarrow> 0 < ?k" using ro by (auto simp: ctrl_inv_def ctrl_fw_pc_ok_def)
  have n: "0 < (2 * ?q + ?b) + ?k" using left by (simp add: lk)
  have "t \<le> ctrl_deadline p l (2 * ?q + ?b) ?x ?k (c_fw_pc c = Cfw_top) (tl_wake s Ctrl_fw)"
    by (rule ctrl_deadline_late [OF p l X w(3) n h])
  then show ?thesis by (simp add: deadline_def lk Let_def)
qed

lemma timed_evE:
  assumes "timed_ev st p (t, e) s = Inr (s', os)"
  obtains w where "link_ev st e (tl_link s) = Inr (tl_link s', os)" and "link_wait e (tl_link s) = Inr w"
    and "tl_now s' = t" and "tl_wake s' = (case link_thread_of e of None \<Rightarrow> tl_wake s
      | Some th \<Rightarrow> (tl_wake s)(th := t + delay_time p w))"
  using assms by (auto simp: timed_ev_def)

lemma link_step_inv:
  assumes "usp_inv u" "ctrl_inv ms 1 c" "link_legal ms e" "link_ev st e ((u, d), c) = Inr (((u', d'), c'), os)"
  shows "usp_inv u'" "ctrl_inv ms 1 c'"
proof -
  have l: "list_all (link_legal ms) [e]" using assms(3) by simp
  obtain u1 d1 c1 os1 where "run_events (link_ev st) [e] ((u, d), c) = Inr (((u1, d1), c1), os1)"
    and "usp_inv u1" "ctrl_inv ms 1 c1"
    by (rule link_run [OF assms(1,2) l])
  with assms(4) show "usp_inv u'" "ctrl_inv ms 1 c'" by auto
qed

text \<open>One event: what is on its way stays on its way or leaves, and the deadline does not move back.\<close>

definition kept :: "nat \<Rightarrow> rat \<Rightarrow> rat \<Rightarrow> rat \<Rightarrow> timed_link \<Rightarrow> timed_link \<Rightarrow> bool" where
  "kept ms p m l s s' \<longleftrightarrow> reads_only ms p m l (tl_link s') \<and> in_transit (tl_link s') \<le> in_transit (tl_link s) \<and>
     length (r_queue (fst (fst (tl_link s')))) mod 2 = length (r_queue (fst (fst (tl_link s)))) mod 2 \<and>
     (0 < in_transit (tl_link s') \<longrightarrow> deadline p m l s' \<le> deadline p m l s)"

lemma usp_kept:
  assumes p: "0 < p" and ro: "reads_only ms p m l (tl_link s)"
    and run: "timed_ev st p (t, Inl (Inl Usp_fw_run)) s = Inr (s', os)" and due: "tl_wake s Usp_fw = t"
  shows "kept ms p m l s s'"
proof -
  obtain u d c where lk: "tl_link s = ((u, d), c)" by (metis prod.exhaust)
  from run obtain w where r: "link_ev st (Inl (Inl Usp_fw_run)) ((u, d), c) = Inr (tl_link s', os)"
    and w: "link_wait (Inl (Inl Usp_fw_run)) ((u, d), c) = Inr w"
    and wake: "tl_wake s' = (tl_wake s)(Usp_fw := t + delay_time p w)"
    by (rule timed_evE) (simp add: lk)
  obtain u1 d1 c1 where lk1: "tl_link s' = ((u1, d1), c1)" by (metis prod.exhaust)
  have inv: "usp_inv u1" "ctrl_inv ms 1 c1"
    using link_step_inv [of u ms c "Inl (Inl Usp_fw_run)" st d u1 d1 c1 os] ro r lk lk1 by simp_all
  from ro [unfolded lk] r w show ?thesis
  proof (cases rule: usp_turn)
    case start
    then have u1: "u1 = u\<lparr>u_fw_pc := Fw_read_flit\<rparr>" "d1 = d" "c1 = c" using lk1 by auto
    have "usp_deadline p m q False (t + delay_time p w) \<le> usp_deadline p m q True t" for q
      by (rule usp_deadline_start [OF start(4)])
    from ctrl_deadline_mono [OF dsp_deadline_mono [OF this]] show ?thesis
      using ro inv u1 start(1) by (simp add: kept_def deadline_def lk lk1 wake due Let_def)
  next
    case idle
    then have "length (r_queue u) div 2 = 0" "u1 = u" "d1 = d" "c1 = c" using lk1 by auto
    then show ?thesis
      using ro by (simp add: kept_def deadline_def lk lk1 wake Let_def dsp_deadline_def)
  next
    case (send st')
    define q where "q = length (drop 2 (r_queue u)) div 2"
    have q: "length (r_queue u) div 2 = Suc q" using send(2) by (simp add: q_def)
    have s: "u1 = u\<lparr>r_queue := drop 2 (r_queue u), u_stats := st', u_fw_pc := Fw_top\<rparr>"
      "d1 = d\<lparr>r_queue := r_queue d @ take 2 (r_queue u)\<rparr>" "c1 = c" using send lk1 by auto
    have b: "length (r_queue d @ take 2 (r_queue u)) = length (r_queue d) + 2" using send(2) by simp
    have par: "length (drop 2 (r_queue u)) mod 2 = length (r_queue u) mod 2"
      using send(2) by (simp add: le_mod_geq)
    let ?T = "usp_deadline p m (Suc q) False t"
    have "ctrl_deadline p l n (dsp_deadline p q ?T (length (r_queue d) + 2) (tl_wake s Dsp_fw)) k h x \<le>
        ctrl_deadline p l n (dsp_deadline p (Suc q) ?T (length (r_queue d)) (tl_wake s Dsp_fw)) k h x" for n k h x
      by (rule ctrl_deadline_mono [OF dsp_deadline_arrival [OF p]])
    then show ?thesis
      using ro inv s send(1,3) q b par
      by (simp add: kept_def deadline_def lk lk1 wake due Let_def usp_deadline_sent q_def [symmetric]
          del: length_append length_drop)
  qed
qed

lemma dsp_kept:
  assumes p: "0 < p" and ro: "reads_only ms p m l (tl_link s)"
    and run: "timed_ev st p (t, Inl (Inr Dsp_fw_run)) s = Inr (s', os)" and due: "tl_wake s Dsp_fw = t"
    and other: "t \<le> tl_wake s Usp_fw"
  shows "kept ms p m l s s'"
proof -
  obtain u d c where lk: "tl_link s = ((u, d), c)" by (metis prod.exhaust)
  from run obtain w where r: "link_ev st (Inl (Inr Dsp_fw_run)) ((u, d), c) = Inr (tl_link s', os)"
    and w: "link_wait (Inl (Inr Dsp_fw_run)) ((u, d), c) = Inr w"
    and wake: "tl_wake s' = (tl_wake s)(Dsp_fw := t + delay_time p w)"
    by (rule timed_evE) (simp add: lk)
  obtain u1 d1 c1 where lk1: "tl_link s' = ((u1, d1), c1)" by (metis prod.exhaust)
  have inv: "usp_inv u1" "ctrl_inv ms 1 c1"
    using link_step_inv [of u ms c "Inl (Inr Dsp_fw_run)" st d u1 d1 c1 os] ro r lk lk1 by simp_all
  let ?q = "length (r_queue u) div 2"
  let ?T = "usp_deadline p m ?q (u_fw_pc u = Fw_top) (tl_wake s Usp_fw)"
  from ro [unfolded lk] r w show ?thesis
  proof (cases rule: dsp_turn)
    case idle
    then have same: "u1 = u" "d1 = d" "c1 = c" using lk1 by auto
    show ?thesis
    proof (cases "?q = 0")
      case True
      with same idle ro show ?thesis
        by (simp add: kept_def deadline_def lk lk1 wake Let_def ctrl_deadline_def)
    next
      case False
      have "t \<le> ?T" using other usp_deadline_late [OF p, of m ?q "tl_wake s Usp_fw" "u_fw_pc u = Fw_top"] False ro lk
        by simp
      from ctrl_deadline_mono [OF dsp_deadline_idle [OF this, of ?q p]] False same idle ro show ?thesis
        by (simp add: kept_def deadline_def lk lk1 wake due Let_def)
    qed
  next
    case (send x xs m')
    then have s: "u1 = u" "d1 = d\<lparr>r_queue := xs\<rparr>" "c1 = c\<lparr>r_queue := r_queue c @ [x], r_trans_id := m'\<rparr>"
      using lk1 by auto
    have "ctrl_deadline p l n y (Suc k) h z \<le> ctrl_deadline p l (Suc n) y k h z" for n y k h z
      by (rule ctrl_deadline_arrival [OF p reads_only_nonneg [OF ro [unfolded lk]]])
    then show ?thesis
      using ro inv s send(1,2)
      by (simp add: kept_def deadline_def lk lk1 wake due Let_def dsp_deadline_sent)
  qed
qed

lemma ctrl_kept:
  assumes p: "0 < p" and ro: "reads_only ms p m l (tl_link s)" and legal: "devices_ok ms dm"
    and run: "timed_ev st p (t, Inr (Ctrl_fw_run dm)) s = Inr (s', os)" and due: "tl_wake s Ctrl_fw = t"
    and other: "t \<le> tl_wake s Usp_fw" "t \<le> tl_wake s Dsp_fw"
  shows "kept ms p m l s s'"
proof -
  obtain u d c where lk: "tl_link s = ((u, d), c)" by (metis prod.exhaust)
  from run obtain w where r: "link_ev st (Inr (Ctrl_fw_run dm)) ((u, d), c) = Inr (tl_link s', os)"
    and w: "link_wait (Inr (Ctrl_fw_run dm)) ((u, d), c) = Inr w"
    and wake: "tl_wake s' = (tl_wake s)(Ctrl_fw := t + delay_time p w)"
    by (rule timed_evE) (simp add: lk)
  obtain u1 d1 c1 where lk1: "tl_link s' = ((u1, d1), c1)" by (metis prod.exhaust)
  have inv: "usp_inv u1" "ctrl_inv ms 1 c1"
    using link_step_inv [of u ms c "Inr (Ctrl_fw_run dm)" st d u1 d1 c1 os] ro r lk lk1 legal by simp_all
  let ?q = "length (r_queue u) div 2" and ?b = "length (r_queue d)"
  let ?T = "usp_deadline p m ?q (u_fw_pc u = Fw_top) (tl_wake s Usp_fw)"
  let ?X = "dsp_deadline p ?q ?T ?b (tl_wake s Dsp_fw)"
  from ro [unfolded lk] r w show ?thesis
  proof (cases rule: ctrl_turn)
    case start
    then have s: "u1 = u" "d1 = d" "c1 = c\<lparr>c_fw_pc := Cfw_read\<rparr>" using lk1 by auto
    show ?thesis
      using ctrl_deadline_start [OF start(4)] ro inv s start(1)
      by (simp add: kept_def deadline_def lk lk1 wake due Let_def)
  next
    case idle
    then have same: "u1 = u" "d1 = d" "c1 = c" using lk1 by auto
    show ?thesis
    proof (cases "2 * ?q + ?b = 0")
      case True
      with same idle ro show ?thesis by (simp add: kept_def lk lk1)
    next
      case False
      have pm: "p \<le> m" using ro lk by simp
      have T: "0 < ?q \<longrightarrow> t \<le> ?T" by (intro impI order_trans [OF other(1)] usp_deadline_late [OF p pm])
      have "t \<le> ?X" by (rule dsp_deadline_late [OF p T other(2)]) (use False in simp)
      from ctrl_deadline_idle [OF this] False same idle ro show ?thesis
        by (simp add: kept_def deadline_def lk lk1 wake due Let_def)
    qed
  next
    case (send x xs n')
    then have s: "u1 = u" "d1 = d" "c1 = c\<lparr>r_queue := xs, r_num := n', c_fw_pc := Cfw_top\<rparr>"
      using lk1 by auto
    show ?thesis
      using ro inv s send(1-3)
      by (simp add: kept_def deadline_def lk lk1 wake due Let_def ctrl_deadline_sent)
  qed
qed

lemma quiet_kept:
  assumes ro: "reads_only ms p m l (tl_link s)" and run: "timed_ev st p (t, e) s = Inr (s', os)"
    and legal: "link_legal ms e" and none: "from_host usp_read_in e = []" "from_host usp_write_in e = []"
    and other: "link_thread_of e \<notin> {Some Usp_fw, Some Dsp_fw, Some Ctrl_fw}"
  shows "kept ms p m l s s'"
proof -
  obtain u d c where lk: "tl_link s = ((u, d), c)" by (metis prod.exhaust)
  obtain u1 d1 c1 where lk1: "tl_link s' = ((u1, d1), c1)" by (metis prod.exhaust)
  from run obtain w where r: "link_ev st e ((u, d), c) = Inr (((u1, d1), c1), os)"
    and wake: "tl_wake s' = (case link_thread_of e of None \<Rightarrow> tl_wake s
      | Some th \<Rightarrow> (tl_wake s)(th := t + delay_time p w))"
    by (rule timed_evE) (simp add: lk lk1)
  have v: "usp_fview u1 = usp_fview u" "dsp_fview d1 = dsp_fview d" "ctrl_fview c1 = ctrl_fview c"
    using quiet_event [OF r legal none other] by simp_all
  have inv: "usp_inv u1" "ctrl_inv ms 1 c1"
    using link_step_inv [OF _ _ legal r] ro lk by simp_all
  have "reads_only ms p m l ((u1, d1), c1)"
    by (rule reads_only_views [OF ro [unfolded lk] inv v])
  moreover have "tl_wake s' th = tl_wake s th" if "th \<in> {Usp_fw, Dsp_fw, Ctrl_fw}" for th
    using that other by (auto simp: wake split: option.split)
  ultimately show ?thesis
    using v by (simp add: kept_def deadline_def lk lk1 fview_defs Let_def)
qed

lemma event_kept:
  assumes p: "0 < p" and ro: "reads_only ms p m l (tl_link s)" and time: "turn_on_time (t, e) s"
    and legal: "link_legal ms e" and none: "from_host usp_read_in e = []" "from_host usp_write_in e = []"
    and run: "timed_ev st p (t, e) s = Inr (s', os)"
  shows "kept ms p m l s s'"
proof -
  have w: "t \<le> tl_wake s Usp_fw" "t \<le> tl_wake s Dsp_fw"
    using time by (simp_all add: turn_on_time_def link_threads_def)
  consider "e = Inl (Inl Usp_fw_run)" | "e = Inl (Inr Dsp_fw_run)" | dm where "e = Inr (Ctrl_fw_run dm)"
    | "link_thread_of e \<notin> {Some Usp_fw, Some Dsp_fw, Some Ctrl_fw}"
    by (cases e rule: link_thread_of.cases) auto
  then show ?thesis
  proof cases
    case 1
    with time run usp_kept [OF p ro] show ?thesis by (simp add: turn_on_time_def)
  next
    case 2
    with time run w dsp_kept [OF p ro] show ?thesis by (simp add: turn_on_time_def)
  next
    case 3
    with time run w legal ctrl_kept [OF p ro] show ?thesis by (simp add: turn_on_time_def)
  next
    case 4
    with quiet_kept [OF ro run legal none] show ?thesis by blast
  qed
qed

lemma timed_untimed:
  "run_events (timed_ev st p) es s = Inr (s', os) \<Longrightarrow>
   run_events (link_ev st) (map snd es) (tl_link s) = Inr (tl_link s', os)"
proof (induction es arbitrary: s os)
  case (Cons x es)
  obtain t e where x: "x = (t, e)" by (cases x)
  from Cons.prems obtain s1 os1 os2 where one: "timed_ev st p (t, e) s = Inr (s1, os1)"
    and rest: "run_events (timed_ev st p) es s1 = Inr (s', os2)" and os: "os = os1 @ os2"
    by (auto simp: x)
  from one have "link_ev st e (tl_link s) = Inr (tl_link s1, os1)" by (rule timed_evE)
  with Cons.IH [OF rest] os x show ?case by simp
qed simp

lemma run_kept:
  assumes p: "0 < p"
  shows "run_events (timed_ev st p) es s = Inr (s', os) \<Longrightarrow> on_schedule st p es s \<Longrightarrow>
    list_all (link_legal ms) (map snd es) \<Longrightarrow> tokens (from_host usp_read_in) (map snd es) = [] \<Longrightarrow>
    tokens (from_host usp_write_in) (map snd es) = [] \<Longrightarrow> reads_only ms p m l (tl_link s) \<Longrightarrow>
    (0 < in_transit (tl_link s) \<longrightarrow> deadline p m l s \<le> b \<and> tl_now s \<le> b) \<Longrightarrow>
    reads_only ms p m l (tl_link s') \<and> (0 < in_transit (tl_link s') \<longrightarrow> tl_now s' \<le> b) \<and>
    length (r_queue (fst (fst (tl_link s')))) mod 2 = length (r_queue (fst (fst (tl_link s)))) mod 2"
proof (induction es arbitrary: s os)
  case (Cons x es)
  obtain t e where x: "x = (t, e)" by (cases x)
  from Cons.prems obtain s1 os1 os2 where one: "timed_ev st p (t, e) s = Inr (s1, os1)"
    and rest: "run_events (timed_ev st p) es s1 = Inr (s', os2)"
    by (auto simp: x)
  have time: "turn_on_time (t, e) s" and sched: "on_schedule st p es s1" using Cons.prems(2) one by (simp_all add: x)
  have k: "kept ms p m l s s1"
    by (rule event_kept [OF p Cons.prems(6) time _ _ _ one]) (use Cons.prems(3-5) x in auto)
  have now: "tl_now s1 = t" using one by (rule timed_evE)
  have due: "list_all (\<lambda>th. t \<le> tl_wake s th) link_threads" using time by (simp add: turn_on_time_def)
  have b: "0 < in_transit (tl_link s1) \<longrightarrow> deadline p m l s1 \<le> b \<and> tl_now s1 \<le> b"
  proof
    assume left: "0 < in_transit (tl_link s1)"
    with k have left0: "0 < in_transit (tl_link s)" by (simp add: kept_def)
    with deadline_late [OF p Cons.prems(6) due] Cons.prems(7) now k left
    show "deadline p m l s1 \<le> b \<and> tl_now s1 \<le> b" by (auto simp: kept_def)
  qed
  have "reads_only ms p m l (tl_link s') \<and> (0 < in_transit (tl_link s') \<longrightarrow> tl_now s' \<le> b) \<and>
      length (r_queue (fst (fst (tl_link s')))) mod 2 = length (r_queue (fst (fst (tl_link s1)))) mod 2"
    by (rule Cons.IH [OF rest sched _ _ _ _ b]) (use Cons.prems(3-5) k x in \<open>auto simp: kept_def\<close>)
  then show ?case using k by (simp add: kept_def)
qed simp

lemma schedule_runs:
  "on_schedule st p es s \<Longrightarrow> \<exists>s' os. run_events (timed_ev st p) es s = Inr (s', os) \<and>
    tl_now s' = (if es = [] then tl_now s else fst (last es))"
proof (induction es arbitrary: s)
  case (Cons x es)
  obtain t e where x: "x = (t, e)" by (cases x)
  from Cons.prems obtain s1 os1 where one: "timed_ev st p (t, e) s = Inr (s1, os1)" and "on_schedule st p es s1"
    by (auto simp: x split: sum.splits)
  moreover from one have "tl_now s1 = t" by (rule timed_evE)
  ultimately show ?case using Cons.IH [of s1] x by fastforce
qed simp

text \<open>A run on schedule can always go on: the thread that is due first takes its turn.\<close>

fun turn_of :: "store \<Rightarrow> (pid \<rightharpoonup> u32) \<Rightarrow> link_thread \<Rightarrow> link_event" where
  "turn_of st dm Usp_fw = Inl (Inl Usp_fw_run)"
| "turn_of st dm Usp_bw = Inl (Inl Usp_bw_run)"
| "turn_of st dm Dsp_fw = Inl (Inr Dsp_fw_run)"
| "turn_of st dm Dsp_bw = Inl (Inr Dsp_bw_run)"
| "turn_of st dm Ctrl_fw = Inr (Ctrl_fw_run dm)"
| "turn_of st dm Ctrl_bw = Inr (Ctrl_bw_run st)"

lemma link_wait_total:
  assumes "link_ev st' (turn_of st dm th) l = Inr r"
  shows "\<exists>w. link_wait (turn_of st dm th) l = Inr w"
proof -
  obtain u d c where "l = ((u, d), c)" by (metis prod.exhaust)
  with assms show ?thesis by (cases th) (auto simp: link_ev_def)
qed

theorem schedule_goes_on:
  assumes lk: "tl_link s = ((u, d), c)" and inv: "usp_inv u" "ctrl_inv ms 1 c" and dev: "devices_ok ms dm" and p: "0 \<le> p"
    and due: "list_all (\<lambda>th. tl_now s \<le> tl_wake s th) link_threads"
  shows "\<exists>th s' os. turn_on_time (tl_wake s th, turn_of st dm th) s \<and> link_legal ms (turn_of st dm th) \<and>
    timed_ev st' p (tl_wake s th, turn_of st dm th) s = Inr (s', os) \<and>
    list_all (\<lambda>x. tl_now s' \<le> tl_wake s' x) link_threads"
proof -
  define th where "th = arg_min_on (tl_wake s) (set link_threads)"
  have th: "th \<in> set link_threads" and least: "\<forall>x \<in> set link_threads. tl_wake s th \<le> tl_wake s x"
    using arg_min_if_finite [of "set link_threads" "tl_wake s"] by (auto simp: th_def link_threads_def not_less)
  let ?e = "turn_of st dm th"
  have legal: "link_legal ms ?e" using dev by (cases th) simp_all
  have ls: "list_all (link_legal ms) [?e]" using legal by simp
  have "\<exists>r. run_events (link_ev st') [?e] ((u, d), c) = Inr r" by (rule link_run [OF inv ls, of st' d]) blast
  then obtain r where r: "link_ev st' ?e (tl_link s) = Inr r" by (auto simp: lk)
  obtain w where w: "link_wait ?e (tl_link s) = Inr w" using link_wait_total [OF r] by blast
  have thr: "link_thread_of ?e = Some th" by (cases th) simp_all
  have "0 \<le> delay_time p w" using p by (cases w) (simp_all del: of_nat_unat)
  with least have "list_all (\<lambda>x. tl_wake s th \<le> ((tl_wake s)(th := tl_wake s th + delay_time p w)) x) link_threads"
    by (auto simp: list_all_iff)
  moreover have "turn_on_time (tl_wake s th, ?e) s"
    using due th least by (auto simp: turn_on_time_def thr list_all_iff)
  ultimately show ?thesis
    using r w legal by (intro exI [of _ th]) (cases r, simp add: timed_ev_def thr)
qed

text \<open>
  The threads poll an empty link: each of the three forward threads is at the head of its
  loop and resumes within a period; reads may wait in the upstream port, which is not at the last
  flit of a write group.
\<close>

fun link_idle :: "nat \<Rightarrow> link_state \<Rightarrow> bool" where
  "link_idle ms ((u, d), c) \<longleftrightarrow> usp_inv u \<and> ctrl_inv ms 1 c \<and> r_msg u = 2 \<and> u_fw_pc u = Fw_top \<and> f_idx u \<noteq> 4 \<and>
     w_queue u = [] \<and> r_queue d = [] \<and> w_queue d = [] \<and> r_queue c = [] \<and> w_queue c = [] \<and> c_fw_pc c = Cfw_top"

definition polling :: "rat \<Rightarrow> timed_link \<Rightarrow> bool" where
  "polling p s \<longleftrightarrow> list_all (\<lambda>th. tl_wake s th \<le> tl_now s + p) [Usp_fw, Dsp_fw, Ctrl_fw]"

text \<open>The time that \<open>q\<close> flits of reads take at most, from the latencies in the configuration.\<close>

fun read_bound :: "rat \<Rightarrow> link_state \<Rightarrow> nat \<Rightarrow> rat" where
  "read_bound p ((u, d), c) q =
     of_nat q * (max p (of_nat (unat (u_port_latency u + u_link_latency u))) + p) + 2 * of_nat q * p +
     2 * of_nat q * (max (of_nat (unat (c_ctrl_latency c))) (of_nat (unat (c_link_latency c))) + p)"

lemma idle_deadline:
  assumes p: "0 < p" and idle: "link_idle ms (tl_link s)" and poll: "polling p s"
    and lk: "tl_link s = ((u, d), c)" and q: "q = length (r_queue u) div 2" "0 < q"
    and m: "m = max p (of_nat (unat (u_port_latency u + u_link_latency u)))"
    and l: "l = max (of_nat (unat (c_ctrl_latency c))) (of_nat (unat (c_link_latency c)))"
  shows "deadline p m l s \<le> tl_now s + read_bound p (tl_link s) q"
proof -
  have w: "tl_wake s Usp_fw \<le> tl_now s + p" "tl_wake s Dsp_fw \<le> tl_now s + p" "tl_wake s Ctrl_fw \<le> tl_now s + p"
    using poll by (simp_all add: polling_def)
  have nonneg: "0 \<le> of_nat q * (m + p)" "0 \<le> 2 * of_nat q * p" using p m by simp_all
  let ?t = "usp_deadline p m q True (tl_wake s Usp_fw)"
  let ?x = "dsp_deadline p q ?t 0 (tl_wake s Dsp_fw)"
  have t: "?t \<le> tl_now s + of_nat q * (m + p)" using w(1) by (simp add: usp_deadline_def)
  have "max (tl_wake s Dsp_fw) (?t + p) \<le> tl_now s + of_nat q * (m + p) + p"
    using w(2) t nonneg(1) by simp
  then have x: "?x \<le> tl_now s + of_nat q * (m + p) + 2 * of_nat q * p"
    using q(2) by (simp add: dsp_deadline_def algebra_simps)
  have "max (tl_wake s Ctrl_fw) (?x + p) \<le> tl_now s + of_nat q * (m + p) + 2 * of_nat q * p + p"
    by (rule max.boundedI) (use w(3) x nonneg in linarith)+
  moreover have "ctrl_deadline p l (2 * q) ?x 0 True (tl_wake s Ctrl_fw) =
      max (tl_wake s Ctrl_fw) (?x + p) + 2 * of_nat q * (l + p) - p"
    using q(2) by (simp add: ctrl_deadline_def)
  ultimately have "ctrl_deadline p l (2 * q) ?x 0 True (tl_wake s Ctrl_fw) \<le>
      tl_now s + of_nat q * (m + p) + 2 * of_nat q * p + 2 * of_nat q * (l + p)"
    by linarith
  moreover have "deadline p m l s = ctrl_deadline p l (2 * q) ?x 0 True (tl_wake s Ctrl_fw)"
    using idle by (simp add: deadline_def lk Let_def q(1))
  ultimately show ?thesis by (simp add: lk m l)
qed

text \<open>
  C4. The latency of reads through the link of one host. Start from threads that poll an empty link, with reads
  waiting in the upstream port, and take any run on schedule: any order of the threads that are due at the same
  time, any answers on the way back, no further request of the host. Once the time is beyond the bound, all pairs of
  these reads have been sent to the memory devices, in order, and only an odd last read is still in the port. The
  bound is computed from the configured latencies and the clock period: for \<open>q\<close> flits, \<open>q\<close> times the latency of
  port and link (or a period, if that is longer) and a period, and for each read two periods and the latency of the
  controller or the link, whichever is longer.
\<close>

theorem link_read_latency:
  assumes p: "0 < p" and idle: "link_idle ms (tl_link s)" and poll: "polling p s" and lk: "tl_link s = ((u, d), c)"
    and legal: "list_all (link_legal ms) (map snd es)"
    and none: "tokens (from_host usp_read_in) (map snd es) = []" "tokens (from_host usp_write_in) (map snd es) = []"
    and sched: "on_schedule st p es s" and run: "run_events (timed_ev st p) es s = Inr (s', os)"
    and late: "tl_now s + read_bound p (tl_link s) (length (r_queue u) div 2) < tl_now s'"
  shows "tokens (to_memory fw_reads) os = take (2 * (length (r_queue u) div 2)) (r_queue u)"
proof -
  define m where "m = max p (of_nat (unat (u_port_latency u + u_link_latency u)))"
  define l where "l = (max (of_nat (unat (c_ctrl_latency c))) (of_nat (unat (c_link_latency c))) :: rat)"
  define q where "q = length (r_queue u) div 2"
  define b where "b = tl_now s + read_bound p (tl_link s) q"
  have i: "usp_inv u" "ctrl_inv ms 1 c" "r_queue d = []" "r_queue c = []" using idle lk by simp_all
  have ro: "reads_only ms p m l (tl_link s)" using idle by (simp add: lk m_def l_def)
  have "0 \<le> read_bound p (tl_link s) q"
    unfolding lk read_bound.simps using p by (intro add_nonneg_nonneg mult_nonneg_nonneg) (simp_all add: le_max_iff_disj del: of_nat_unat)
  then have start: "0 < in_transit (tl_link s) \<longrightarrow> deadline p m l s \<le> b \<and> tl_now s \<le> b"
    using idle_deadline [OF p idle poll lk q_def _ m_def l_def] i by (simp add: b_def lk q_def)
  have k: "reads_only ms p m l (tl_link s') \<and> (0 < in_transit (tl_link s') \<longrightarrow> tl_now s' \<le> b) \<and>
      length (r_queue (fst (fst (tl_link s')))) mod 2 = length (r_queue (fst (fst (tl_link s)))) mod 2"
    by (rule run_kept [OF p run sched legal none ro start])
  then have gone: "in_transit (tl_link s') = 0" using late by (auto simp: b_def q_def)
  obtain u' d' c' os1 where r: "run_events (link_ev st) (map snd es) ((u, d), c) = Inr (((u', d'), c'), os1)"
    and t: "tokens (to_memory fw_reads) os1 @ r_queue c' @ r_queue d' @ r_queue u' =
      (r_queue c @ r_queue d @ r_queue u) @ tokens (from_host usp_read_in) (map snd es)"
    by (rule link_run [OF i(1,2) legal])
  have s': "tl_link s' = ((u', d'), c')" and os: "os1 = os" using timed_untimed [OF run] r lk by simp_all
  have e: "r_queue d' = []" "r_queue c' = []" "length (r_queue u') div 2 = 0" using gone s' by simp_all
  have parity: "length (r_queue u') mod 2 = length (r_queue u) mod 2" using k s' lk by simp
  have split: "tokens (to_memory fw_reads) os @ r_queue u' = r_queue u" using t e i none os by simp
  have "length (r_queue u') = length (r_queue u) mod 2" using e(3) parity by presburger
  then have "length (tokens (to_memory fw_reads) os) = 2 * (length (r_queue u) div 2)"
    using arg_cong [OF split, of length] by simp presburger
  with split show ?thesis by (metis append_eq_conv_conj)
qed

definition witness_turns :: "rat \<Rightarrow> (rat \<times> link_event) list" where
  "witness_turns t = [(t, Inl (Inl Usp_fw_run)), (t, Inl (Inr Dsp_fw_run)), (t, Inr (Ctrl_fw_run Map.empty))]"

definition witness_events :: "(rat \<times> link_event) list" where
  "witness_events =
     [(0, Inl (Inl Usp_fw_run)), (0, Inl (Inl Usp_fw_run)), (0, Inl (Inr Dsp_fw_run)),
      (0, Inr (Ctrl_fw_run Map.empty)), (0, Inr (Ctrl_fw_run Map.empty)),
      (1, Inl (Inl Usp_fw_run)), (1, Inl (Inr Dsp_fw_run)),
      (1, Inr (Ctrl_fw_run Map.empty)), (1, Inr (Ctrl_fw_run Map.empty))] @
     concat (map witness_turns [2, 3, 4, 5, 6, 7])"

definition witness_link :: "usp \<Rightarrow> timed_link" where
  "witness_link u = \<lparr>tl_now = 0, tl_wake = (\<lambda>th. 0)(Usp_bw := 9, Dsp_bw := 9, Ctrl_bw := 9),
     tl_link = ((u\<lparr>r_queue := [0, 1]\<rparr>, dsp_init), ctrl_init 0 0 [] 1 1)\<rparr>"

definition witness_port :: usp where
  "witness_port = \<lparr>r_queue = [], w_queue = [], rack_queue = [], wack_queue = [],
         pending_queue = [], f_idx = 0, r_msg = 2, u_pipeline = 8, u_rack_num = 0,
         u_wack_num = 0, u_dram_num = 1, payload_num = 16,
         u_port_latency = 0, u_link_latency = 0,
         u_stats = set_name [] (stats_new []), u_fw_pc = Fw_top, u_bw_pc = Ubw_top\<rparr>"

lemma witness_port_init: "usp_init 1 0 0 64 4 [] = Inr witness_port"
  by (simp add: usp_init_def witness_port_def)

lemmas witness_eval = witness_events_def witness_turns_def witness_link_def witness_port_def timed_ev_def turn_on_time_def
  link_threads_def link_ev_def usp_fw_resume_def usp_read_check_def dsp_fw_resume_def dsp_init_def
  ctrl_fw_resume_def ctrl_init_def ctrl_write_check_def ctrl_stage_delay_def ctrl_device_def
  dsp_nb_transport_fw_def ctrl_nb_transport_fw_def push_request_def Let_def get_r_flit_num_def
  increase_r_flit_def set_name_def stats_new_def

lemma send_two:
  "usp_send_reads 2 u = ebind (usp_send_reads 1 u) (\<lambda>(u1, os1). ebind (usp_send_reads 1 u1) (\<lambda>(u2, os2). Inr (u2, os1 @ os2)))"
  "usp_send_reads 1 u = ebind (pop_front (r_queue u)) (\<lambda>(p, rs). Inr (u\<lparr>r_queue := rs\<rparr>, [Fw_read 0 p]))"
  by (simp_all add: numeral_2_eq_2 ebind_def split: sum.splits prod.splits)

lemma witness_sched: "on_schedule (reads_of 64) 1 witness_events (witness_link witness_port)"
  by (simp add: witness_eval send_two)

lemma witness_legal:
  "list_all (link_legal 1) (map snd witness_events)"
  "tokens (from_host usp_read_in) (map snd witness_events) = []"
  "tokens (from_host usp_write_in) (map snd witness_events) = []"
  by (simp_all add: witness_events_def witness_turns_def devices_ok_def map_index_def from_host_def)

theorem link_read_latency_witness:
  "\<exists>s' os. run_events (timed_ev (reads_of 64) 1) witness_events (witness_link witness_port) = Inr (s', os) \<and>
    tl_now s' = 7 \<and> tokens (to_memory fw_reads) os = [0, 1]"
proof -
  let ?s = "witness_link witness_port"
  obtain s' os where run: "run_events (timed_ev (reads_of 64) 1) witness_events ?s = Inr (s', os)"
    and now: "tl_now s' = fst (last witness_events)"
    using schedule_runs [OF witness_sched] by (auto simp: witness_events_def)
  then have seven: "tl_now s' = 7" by (simp add: witness_events_def witness_turns_def)
  have inv: "usp_inv witness_port" using usp_init_ok [OF witness_port_init] by simp
  then have idle: "link_idle 1 (tl_link ?s)"
    using ctrl_inv_init [of 1 1 0 0 "[]"]
    by (simp add: witness_link_def witness_port_def dsp_init_def ctrl_init_def usp_inv_def usp_cfg_ok_def usp_fw_ok_def)
  have poll: "polling 1 ?s" by (simp add: polling_def witness_link_def)
  have lk: "tl_link ?s = ((witness_port\<lparr>r_queue := [0, 1]\<rparr>, dsp_init), ctrl_init 0 0 [] 1 1)"
    by (simp add: witness_link_def)
  have "tl_now ?s + read_bound 1 (tl_link ?s) (length (r_queue (witness_port\<lparr>r_queue := [0, 1]\<rparr>)) div 2) < tl_now s'"
    unfolding lk by (simp add: seven witness_port_def ctrl_init_def witness_link_def)
  from link_read_latency [OF _ idle poll lk witness_legal witness_sched run this] run seven show ?thesis by auto
qed

end
