(* ===== verification/Links.thy ===== *)
theory Links
  imports Link
begin

text \<open>
  The links of all hosts as \<open>Top.h\<close> binds them: one upstream and one downstream port for each host,
  and one controller that all downstream ports are bound to. The controller knows a port by
  its number and finds it again by the address of a response. The result is about hosts that use
  different addresses: each gets its own responses and no others, in order.
\<close>

section \<open>The bound modules\<close>

type_synonym port_event = "usp_event + dsp_event"

datatype links_event = At_host nat port_event | At_ctrl ctrl_event

text \<open>A call that a module makes: by the ports of a host, or by the controller.\<close>

type_synonym links_call = "(nat \<times> (call + call)) + call"

text \<open>\<open>downstream_port[i]->master.bind (controller->slave)\<close> for host \<open>i\<close>, and back.\<close>

fun dsp_to_ctrl_at :: "store \<Rightarrow> nat \<Rightarrow> call + call \<Rightarrow> ctrl_event list" where
  "dsp_to_ctrl_at st i (Inr (Fw_read k p)) = [Ctrl_fw_call (labelled TLM_READ_COMMAND st) (int i) p]"
| "dsp_to_ctrl_at st i (Inr (Fw_write k p)) = [Ctrl_fw_call (labelled TLM_WRITE_COMMAND st) (int i) p]"
| "dsp_to_ctrl_at st i _ = []"

fun bw_port :: "call \<Rightarrow> nat option" where
  "bw_port (Bw_read i p) = Some i"
| "bw_port (Bw_write i p) = Some i"
| "bw_port _ = None"

definition deliver :: "store \<Rightarrow> call \<Rightarrow> (usp \<times> dsp) list \<Rightarrow> sim_error + (usp \<times> dsp) list" where
  "deliver st x ps =
     (case bw_port x of
        None \<Rightarrow> Inr ps
      | Some i \<Rightarrow>
          if i < length ps
          then ebind (run_events (ports_ev st) (ctrl_to_dsp st x) (ps ! i)) (\<lambda>(s, _). Inr (ps[i := s]))
          else Inl Out_of_bounds)"

fun links_ev :: "store \<Rightarrow> links_event \<Rightarrow> (usp \<times> dsp) list \<times> ctrl \<Rightarrow>
  sim_error + (((usp \<times> dsp) list \<times> ctrl) \<times> links_call list)" where
  "links_ev st (At_host i e) (ps, c) =
     (if i < length ps
      then ebind (ports_ev st e (ps ! i)) (\<lambda>(s, os).
             ebind (run_events ctrl_ev (concat (map (dsp_to_ctrl_at st i) os)) c) (\<lambda>(c', _).
               Inr ((ps[i := s], c'), map (\<lambda>x. Inl (i, x)) os)))
      else Inl Out_of_bounds)"
| "links_ev st (At_ctrl e) (ps, c) =
     ebind (ctrl_ev e c) (\<lambda>(c', os). ebind (efold (deliver st) os ps) (\<lambda>ps'. Inr ((ps', c'), map Inr os)))"

section \<open>What comes from outside\<close>

text \<open>
  \<open>owner a\<close> is the host that uses address \<open>a\<close>: a host asks for its own addresses. The memory devices answer with
  payloads of their own, but only addresses that they were asked for: \<open>R\<close> by reads and \<open>W\<close> by writes;
  theory \<open>Mem_Answers\<close> shows that of a device. The store \<open>st\<close> has
  the addresses of the whole run; a payload that a memory manager gives out once more counts as a new number.
\<close>

definition addr :: "store \<Rightarrow> pid \<Rightarrow> u64" where "addr st p = gp_address (heap st p)"

fun outside_ok :: "store \<Rightarrow> (u64 \<Rightarrow> nat) \<Rightarrow> nat \<Rightarrow> u64 set \<Rightarrow> u64 set \<Rightarrow> links_event \<Rightarrow> (usp \<times> dsp) list \<times> ctrl \<Rightarrow> bool" where
  "outside_ok st owner ms R W (At_host i (Inl (Usp_fw_call st' p ph))) (ps, c) \<longleftrightarrow>
     i < length ps \<and> usp_legal (Usp_fw_call st' p ph) \<and> (ph \<noteq> END_RESP \<longrightarrow> owner (addr st p) = i)"
| "outside_ok st owner ms R W (At_host i (Inl (Usp_bw_call st' p))) (ps, c) \<longleftrightarrow> False"
| "outside_ok st owner ms R W (At_host i (Inr (Dsp_fw_call st' p))) (ps, c) \<longleftrightarrow> False"
| "outside_ok st owner ms R W (At_host i (Inr (Dsp_bw_call st' p))) (ps, c) \<longleftrightarrow> False"
| "outside_ok st owner ms R W (At_host i e) (ps, c) \<longleftrightarrow> i < length ps"
| "outside_ok st owner ms R W (At_ctrl (Ctrl_fw_call st' i p)) (ps, c) \<longleftrightarrow> False"
| "outside_ok st owner ms R W (At_ctrl (Ctrl_fw_run dm)) (ps, c) \<longleftrightarrow> devices_ok ms dm"
| "outside_ok st owner ms R W (At_ctrl (Ctrl_bw_call st' p)) (ps, c) \<longleftrightarrow>
     (if gp_command (heap st' p) = TLM_READ_COMMAND then addr st p \<in> R else addr st p \<in> W)"
| "outside_ok st owner ms R W (At_ctrl (Ctrl_bw_run st')) (ps, c) \<longleftrightarrow>
     (\<forall>p \<in> set (rack_queue c) \<union> set (wack_queue c). addr st' p = addr st p)"

text \<open>What goes in and out of the whole, for one host or for the memory.\<close>

fun host_in :: "(usp_event \<Rightarrow> pid list) \<Rightarrow> nat \<Rightarrow> links_event \<Rightarrow> pid list" where
  "host_in f i (At_host j (Inl e)) = (if i = j then f e else [])"
| "host_in f i _ = []"

fun memory_in :: "(ctrl_event \<Rightarrow> pid list) \<Rightarrow> links_event \<Rightarrow> pid list" where
  "memory_in f (At_ctrl e) = f e"
| "memory_in f _ = []"

fun host_out :: "(call \<Rightarrow> pid list) \<Rightarrow> nat \<Rightarrow> links_call \<Rightarrow> pid list" where
  "host_out f i (Inl (j, Inl x)) = (if i = j then f x else [])"
| "host_out f i _ = []"

fun memory_out :: "(call \<Rightarrow> pid list) \<Rightarrow> links_call \<Rightarrow> pid list" where
  "memory_out f (Inr x) = f x"
| "memory_out f _ = []"

fun links_ok :: "store \<Rightarrow> (u64 \<Rightarrow> nat) \<Rightarrow> nat \<Rightarrow> u64 set \<Rightarrow> u64 set \<Rightarrow> links_event list \<Rightarrow> (usp \<times> dsp) list \<times> ctrl \<Rightarrow> bool" where
  "links_ok st owner ms R W [] s \<longleftrightarrow> True"
| "links_ok st owner ms R W (e # es) s \<longleftrightarrow> outside_ok st owner ms R W e s \<and>
     (case links_ev st e s of
        Inl _ \<Rightarrow> True
      | Inr (s', os) \<Rightarrow> links_ok st owner ms (R \<union> addr st ` set (tokens (memory_out fw_reads) os)) (W \<union> addr st ` set (tokens (memory_out fw_writes) os)) es s')"

definition own :: "store \<Rightarrow> (u64 \<Rightarrow> nat) \<Rightarrow> nat \<Rightarrow> pid list \<Rightarrow> pid list" where
  "own st owner i ps = filter (\<lambda>p. owner (addr st p) = i) ps"

lemma own_simps [simp]:
  "own st owner i [] = []"
  "own st owner i (xs @ ys) = own st owner i xs @ own st owner i ys"
  "own st owner i (p # xs) = (if owner (addr st p) = i then [p] else []) @ own st owner i xs"
  by (simp_all add: own_def)

lemma own_all: "\<forall>p \<in> set ps. owner (addr st p) = j \<Longrightarrow> own st owner i ps = (if i = j then ps else [])"
  by (auto simp: own_def filter_id_conv filter_empty_conv)

section \<open>The calls of a downstream port\<close>

lemma addr_labelled [simp]: "gp_address (heap (labelled cmd st) p) = addr st p"
  by (simp add: addr_def labelled_def)

lemma dsp_to_ctrl_at_feeds: "i < n \<Longrightarrow> feeds ctrl_ev (ctrl_legal ms n) (dsp_to_ctrl_at st i)"
proof -
  assume "i < n"
  then have "\<forall>e \<in> set (dsp_to_ctrl_at st i x). ctrl_legal ms n e \<and> (\<forall>s s' os. ctrl_ev e s = Inr (s', os) \<longrightarrow> os = [])" for x
    by (cases "(st, i, x)" rule: dsp_to_ctrl_at.cases) (simp_all add: port_ok_def)
  then show ?thesis by (simp add: feeds_def)
qed

lemma dsp_to_ctrl_at_tokens:
  "tokens ctrl_read_in (concat (map (dsp_to_ctrl_at st i) os)) = tokens (case_sum (\<lambda>_. []) fw_reads) os"
  "tokens ctrl_write_in (concat (map (dsp_to_ctrl_at st i) os)) = tokens (case_sum (\<lambda>_. []) fw_writes) os"
  "tokens ctrl_rack_in (concat (map (dsp_to_ctrl_at st i) os)) = []"
  "tokens ctrl_wack_in (concat (map (dsp_to_ctrl_at st i) os)) = []"
proof -
  have "tokens ctrl_read_in (dsp_to_ctrl_at st i x) = case_sum (\<lambda>_. []) fw_reads x"
    "tokens ctrl_write_in (dsp_to_ctrl_at st i x) = case_sum (\<lambda>_. []) fw_writes x"
    "tokens ctrl_rack_in (dsp_to_ctrl_at st i x) = []" "tokens ctrl_wack_in (dsp_to_ctrl_at st i x) = []" for x
    by (cases "(st, i, x)" rule: dsp_to_ctrl_at.cases; simp)+
  then show "tokens ctrl_read_in (concat (map (dsp_to_ctrl_at st i) os)) = tokens (case_sum (\<lambda>_. []) fw_reads) os"
    "tokens ctrl_write_in (concat (map (dsp_to_ctrl_at st i) os)) = tokens (case_sum (\<lambda>_. []) fw_writes) os"
    "tokens ctrl_rack_in (concat (map (dsp_to_ctrl_at st i) os)) = []"
    "tokens ctrl_wack_in (concat (map (dsp_to_ctrl_at st i) os)) = []"
    by (simp_all add: tokens_concat)
qed

lemma asks_at:
  assumes "e \<in> set (dsp_to_ctrl_at st i x)"
  shows "asks_read a e = (if a \<in> addr st ` set (case_sum (\<lambda>_. []) fw_reads x) then Some i else None)"
    and "asks_write a e = (if a \<in> addr st ` set (case_sum (\<lambda>_. []) fw_writes x) then Some i else None)"
  using assms by (cases "(st, i, x)" rule: dsp_to_ctrl_at.cases; auto)+

lemma some_call: "p \<in> set (case_sum (\<lambda>_. []) fw_reads x) \<or> p \<in> set (case_sum (\<lambda>_. []) fw_writes x) \<Longrightarrow>
    \<exists>e. e \<in> set (dsp_to_ctrl_at st i x)"
  by (cases "(st, i, x)" rule: dsp_to_ctrl_at.cases) auto

lemma in_tokens: "p \<in> set (tokens f xs) \<longleftrightarrow> (\<exists>x \<in> set xs. p \<in> set (f x))"
  by (auto simp: tokens_def)

text \<open>A record stays right when the host that asks for an address owns it.\<close>

lemma last_asker_owner:
  assumes feed: "\<And>x e. e \<in> set (feed x) \<Longrightarrow> f e = (if a \<in> addr st ` set (g x) then Some i else None)"
    and some: "\<And>x p. p \<in> set (g x) \<Longrightarrow> \<exists>e. e \<in> set (feed x)"
    and mine: "\<forall>p \<in> set (tokens g os). owner (addr st p) = i"
    and known: "n = owner a \<or> a \<in> addr st ` set (tokens g os)"
  shows "last_of f (concat (map feed os)) n = owner a"
proof (rule last_of_unique)
  have "owner a = i" if "x \<in> set os" "a \<in> addr st ` set (g x)" for x
    using that mine by (auto simp: in_tokens)
  then show "\<forall>e \<in> set (concat (map feed os)). f e \<in> {None, Some (owner a)}"
    by (auto dest!: feed)
  have "\<exists>e \<in> set (concat (map feed os)). f e = Some (owner a)" if "a \<in> addr st ` set (tokens g os)"
  proof -
    from that obtain x p where x: "x \<in> set os" "p \<in> set (g x)" "a = addr st p"
      by (auto simp: in_tokens)
    then obtain e where "e \<in> set (feed x)" using some by blast
    moreover have "owner a = i" using x mine by (auto simp: in_tokens)
    ultimately show ?thesis using x feed [of e x] by auto
  qed
  with known show "n = owner a \<or> (\<exists>e \<in> set (concat (map feed os)). f e = Some (owner a))" by blast
qed

text \<open>One event of a host, as its ports and the controller see it.\<close>

lemma port_read_legal:
  assumes "outside_ok st owner ms R W (At_host i e) (ps, c)"
  shows "case_sum (\<lambda>e. usp_legal e \<and> usp_rack_in e = []) (\<lambda>e. True \<and> dsp_read_in e = []) e"
    and "case_sum (\<lambda>e. usp_legal e \<and> usp_wack_in e = []) (\<lambda>e. True \<and> dsp_write_in e = []) e"
    and "case_sum (\<lambda>_. []) dsp_rack_in e = []" "case_sum (\<lambda>_. []) dsp_wack_in e = []"
    and "i < length ps"
    and "\<forall>p \<in> set (case_sum usp_read_in (\<lambda>_. []) e). owner (addr st p) = i"
    and "\<forall>p \<in> set (case_sum usp_write_in (\<lambda>_. []) e). owner (addr st p) = i"
  using assms by (cases "(st, owner, ms, R, W, At_host i e, ps, c)" rule: outside_ok.cases; simp)+

definition port_reads :: "usp \<times> dsp \<Rightarrow> pid list" where "port_reads s = r_queue (snd s) @ r_queue (fst s)"
definition port_writes :: "usp \<times> dsp \<Rightarrow> pid list" where "port_writes s = w_queue (snd s) @ usp_writes (fst s)"
definition port_racks :: "usp \<times> dsp \<Rightarrow> pid list" where "port_racks s = usp_racks (fst s) @ rack_queue (snd s)"
definition port_wacks :: "usp \<times> dsp \<Rightarrow> pid list" where "port_wacks s = usp_wacks (fst s) @ wack_queue (snd s)"

lemmas port_defs = port_reads_def port_writes_def port_racks_def port_wacks_def

definition from_port :: "(usp_event \<Rightarrow> pid list) \<Rightarrow> port_event \<Rightarrow> pid list" where "from_port f = case_sum f (\<lambda>_. [])"

lemma ports_step:
  assumes ok: "outside_ok st owner ms R W (At_host i e) (ps, c)" and inv: "usp_inv (fst s)"
  obtains s' os where "ports_ev st e s = Inr (s', os)" and "usp_inv (fst s')"
    and "tokens (case_sum (\<lambda>_. []) fw_reads) os @ port_reads s' = port_reads s @ from_port usp_read_in e"
    and "tokens (case_sum (\<lambda>_. []) fw_writes) os @ port_writes s' = port_writes s @ from_port usp_write_in e"
    and "tokens (case_sum bw_reads (\<lambda>_. [])) os @ port_racks s' = port_racks s"
    and "tokens (case_sum bw_writes (\<lambda>_. [])) os @ port_wacks s' = port_wacks s"
proof -
  note l = port_read_legal [OF ok]
  have i: "usp_inv (fst s) \<and> True" using inv by simp
  obtain s' os where run: "ports_ev st e s = Inr (s', os)" using ports_r.forward.ev_total [OF i l(1)] by blast
  show thesis
    by (rule that [OF run])
      (use ports_r.forward.ev_inv [OF i l(1) run] ports_r.forward.ev_fifo [OF i l(1) run] ports_w.forward.ev_fifo [OF i l(2) run]
        ports_r.backward.ev_fifo [OF i l(1) run] ports_w.backward.ev_fifo [OF i l(2) run]
        in \<open>simp_all add: port_defs from_port_def l(3,4)\<close>)
qed

lemma calls_step:
  assumes inv: "ctrl_inv ms n c" and i: "i < n"
  obtains c' where "run_events ctrl_ev (concat (map (dsp_to_ctrl_at st i) os)) c = Inr (c', [])" and "ctrl_inv ms n c'"
    and "r_queue c' = r_queue c @ tokens (case_sum (\<lambda>_. []) fw_reads) os"
    and "w_queue c' = w_queue c @ tokens (case_sum (\<lambda>_. []) fw_writes) os"
    and "rack_queue c' = rack_queue c" and "wack_queue c' = wack_queue c"
    and "\<And>a. port_of (r_trans_id c') a =
      last_of (asks_read a) (concat (map (dsp_to_ctrl_at st i) os)) (port_of (r_trans_id c) a)"
    and "\<And>a. port_of (w_trans_id c') a =
      last_of (asks_write a) (concat (map (dsp_to_ctrl_at st i) os)) (port_of (w_trans_id c) a)"
proof -
  note feeds = dsp_to_ctrl_at_feeds [OF i, of ms st]
  note legal = feeds_legal [OF feeds, of os]
  obtain c' os' where run: "run_events ctrl_ev (concat (map (dsp_to_ctrl_at st i) os)) c = Inr (c', os')"
    using ctrl_r.run_total [OF inv legal] by blast
  have quiet: "os' = []" by (rule feeds_quiet [OF feeds run])
  note run' = run [unfolded quiet]
  show thesis
    by (rule that [OF run'])
      (use ctrl_r.run_inv_fifo [OF inv legal run'] ctrl_w.run_fifo [OF inv legal run']
        ctrl_ra.run_fifo [OF inv legal run'] ctrl_wa.run_fifo [OF inv legal run'] trans_id_run [OF inv legal run']
        in \<open>simp_all add: dsp_to_ctrl_at_tokens\<close>)
qed

section \<open>Responses to the ports\<close>

fun rightly_sent :: "store \<Rightarrow> (u64 \<Rightarrow> nat) \<Rightarrow> nat \<Rightarrow> call \<Rightarrow> bool" where
  "rightly_sent st owner n (Bw_read i p) \<longleftrightarrow> i = owner (addr st p) \<and> i < n"
| "rightly_sent st owner n (Bw_write i p) \<longleftrightarrow> i = owner (addr st p) \<and> i < n"
| "rightly_sent st owner n _ \<longleftrightarrow> True"

definition same_requests :: "usp \<times> dsp \<Rightarrow> usp \<times> dsp \<Rightarrow> bool" where
  "same_requests s s' \<longleftrightarrow> usp_inv (fst s') = usp_inv (fst s) \<and> port_reads s' = port_reads s \<and> port_writes s' = port_writes s"

lemma deliver_one:
  assumes "rightly_sent st owner (length ps) x"
  obtains ps' where "deliver st x ps = Inr ps'" and "length ps' = length ps"
    and "\<And>i. i < length ps \<Longrightarrow> same_requests (ps ! i) (ps' ! i) \<and>
      port_racks (ps' ! i) = port_racks (ps ! i) @ own st owner i (bw_reads x) \<and>
      port_wacks (ps' ! i) = port_wacks (ps ! i) @ own st owner i (bw_writes x)"
proof (cases "bw_port x")
  case None
  then have "bw_reads x = []" "bw_writes x = []" by (cases x; simp)+
  with None show thesis by (intro that [of ps]) (simp_all add: deliver_def same_requests_def)
next
  case (Some j)
  with assms have j: "j < length ps" by (cases x) auto
  obtain u d where s: "ps ! j = (u, d)" by (cases "ps ! j")
  from Some have "\<exists>d'. run_events (ports_ev st) (ctrl_to_dsp st x) (u, d) = Inr ((u, d'), []) \<and>
     rack_queue d' = rack_queue d @ bw_reads x \<and> wack_queue d' = wack_queue d @ bw_writes x \<and>
     r_queue d' = r_queue d \<and> w_queue d' = w_queue d"
    by (cases x) (auto simp: dsp_nb_transport_bw_def queue_simps)
  then obtain d' where run: "run_events (ports_ev st) (ctrl_to_dsp st x) (u, d) = Inr ((u, d'), [])"
    and d': "rack_queue d' = rack_queue d @ bw_reads x" "wack_queue d' = wack_queue d @ bw_writes x"
      "r_queue d' = r_queue d" "w_queue d' = w_queue d" by blast
  have mine: "own st owner i (bw_reads x) = (if i = j then bw_reads x else [])"
    "own st owner i (bw_writes x) = (if i = j then bw_writes x else [])" for i
    using assms Some by (cases x; auto)+
  show thesis
    by (rule that [of "ps[j := (u, d')]"])
      (use Some j s run d' in \<open>auto simp: deliver_def same_requests_def port_defs mine nth_list_update\<close>)
qed

lemma deliver_all:
  assumes "list_all (rightly_sent st owner (length ps)) os"
  shows "\<exists>ps'. efold (deliver st) os ps = Inr ps' \<and> length ps' = length ps \<and>
    (\<forall>i < length ps. same_requests (ps ! i) (ps' ! i) \<and>
      port_racks (ps' ! i) = port_racks (ps ! i) @ own st owner i (tokens bw_reads os) \<and>
      port_wacks (ps' ! i) = port_wacks (ps ! i) @ own st owner i (tokens bw_writes os))"
  using assms
proof (induction os arbitrary: ps)
  case Nil
  then show ?case by (simp add: same_requests_def)
next
  case (Cons x os)
  then obtain ps1 where one: "deliver st x ps = Inr ps1" and len: "length ps1 = length ps"
    and first: "\<And>i. i < length ps \<Longrightarrow> same_requests (ps ! i) (ps1 ! i) \<and>
      port_racks (ps1 ! i) = port_racks (ps ! i) @ own st owner i (bw_reads x) \<and>
      port_wacks (ps1 ! i) = port_wacks (ps ! i) @ own st owner i (bw_writes x)"
    using deliver_one [of st owner ps x] by auto
  have "list_all (rightly_sent st owner (length ps1)) os" using Cons.prems len by simp
  from Cons.IH [OF this] obtain ps2 where two: "efold (deliver st) os ps1 = Inr ps2" "length ps2 = length ps1"
    and rest: "\<forall>i < length ps1. same_requests (ps1 ! i) (ps2 ! i) \<and>
      port_racks (ps2 ! i) = port_racks (ps1 ! i) @ own st owner i (tokens bw_reads os) \<and>
      port_wacks (ps2 ! i) = port_wacks (ps1 ! i) @ own st owner i (tokens bw_writes os)" by blast
  show ?case
    by (rule exI [of _ ps2]) (use one two len first rest in \<open>auto simp: same_requests_def\<close>)
qed

section \<open>Conservation for every host\<close>

text \<open>What of host \<open>i\<close> is inside: requests on their way to the memory, and responses on their way back.\<close>

fun reads_inside :: "store \<Rightarrow> (u64 \<Rightarrow> nat) \<Rightarrow> nat \<Rightarrow> (usp \<times> dsp) list \<times> ctrl \<Rightarrow> pid list" where
  "reads_inside st owner i (ps, c) = own st owner i (r_queue c) @ port_reads (ps ! i)"

fun writes_inside :: "store \<Rightarrow> (u64 \<Rightarrow> nat) \<Rightarrow> nat \<Rightarrow> (usp \<times> dsp) list \<times> ctrl \<Rightarrow> pid list" where
  "writes_inside st owner i (ps, c) = own st owner i (w_queue c) @ port_writes (ps ! i)"

fun racks_inside :: "store \<Rightarrow> (u64 \<Rightarrow> nat) \<Rightarrow> nat \<Rightarrow> (usp \<times> dsp) list \<times> ctrl \<Rightarrow> pid list" where
  "racks_inside st owner i (ps, c) = port_racks (ps ! i) @ own st owner i (rack_queue c)"

fun wacks_inside :: "store \<Rightarrow> (u64 \<Rightarrow> nat) \<Rightarrow> nat \<Rightarrow> (usp \<times> dsp) list \<times> ctrl \<Rightarrow> pid list" where
  "wacks_inside st owner i (ps, c) = port_wacks (ps ! i) @ own st owner i (wack_queue c)"

definition conserved :: "store \<Rightarrow> (u64 \<Rightarrow> nat) \<Rightarrow> nat \<Rightarrow> (usp \<times> dsp) list \<times> ctrl \<Rightarrow> links_event list \<Rightarrow>
  links_call list \<Rightarrow> (usp \<times> dsp) list \<times> ctrl \<Rightarrow> bool" where
  "conserved st owner i s es os s' \<longleftrightarrow>
     own st owner i (tokens (memory_out fw_reads) os) @ reads_inside st owner i s' =
       reads_inside st owner i s @ tokens (host_in usp_read_in i) es \<and>
     own st owner i (tokens (memory_out fw_writes) os) @ writes_inside st owner i s' =
       writes_inside st owner i s @ tokens (host_in usp_write_in i) es \<and>
     tokens (host_out bw_reads i) os @ racks_inside st owner i s' =
       racks_inside st owner i s @ own st owner i (tokens (memory_in ctrl_rack_in) es) \<and>
     tokens (host_out bw_writes i) os @ wacks_inside st owner i s' =
       wacks_inside st owner i s @ own st owner i (tokens (memory_in ctrl_wack_in) es)"

lemma conserved_Nil: "conserved st owner i s [] [] s"
  by (simp add: conserved_def)

lemma append_shift: "a @ x1 = x @ b \<Longrightarrow> a' @ x2 = x1 @ b' \<Longrightarrow> (a @ a') @ x2 = x @ b @ b'"
  by (metis append_assoc)

lemma conserved_Cons:
  assumes "conserved st owner i s [e] os s1" and "conserved st owner i s1 es os' s2"
  shows "conserved st owner i s (e # es) (os @ os') s2"
  using assms append_shift [of _ "reads_inside st owner i s1"] append_shift [of _ "writes_inside st owner i s1"]
    append_shift [of _ "racks_inside st owner i s1"] append_shift [of _ "wacks_inside st owner i s1"]
  unfolding conserved_def by simp

text \<open>
  The invariant: the requests inside the ports of a host are its own, and the controller has the right host on
  record for what it holds and for what the memory may still answer.
\<close>

definition right_port :: "(u64 \<Rightarrow> nat) \<Rightarrow> (u64 \<rightharpoonup> int) \<Rightarrow> u64 set \<Rightarrow> bool" where
  "right_port owner m A \<longleftrightarrow> (\<forall>a \<in> A. port_of m a = owner a)"

definition port_inv :: "store \<Rightarrow> (u64 \<Rightarrow> nat) \<Rightarrow> nat \<Rightarrow> usp \<times> dsp \<Rightarrow> bool" where
  "port_inv st owner i s \<longleftrightarrow> usp_inv (fst s) \<and>
     (\<forall>p \<in> set (port_reads s) \<union> set (port_writes s). owner (addr st p) = i)"

fun links_inv :: "store \<Rightarrow> (u64 \<Rightarrow> nat) \<Rightarrow> nat \<Rightarrow> u64 set \<Rightarrow> u64 set \<Rightarrow> (usp \<times> dsp) list \<times> ctrl \<Rightarrow> bool" where
  "links_inv st owner ms R W (ps, c) \<longleftrightarrow> ctrl_inv ms (length ps) c \<and>
     (\<forall>i < length ps. port_inv st owner i (ps ! i)) \<and>
     right_port owner (r_trans_id c) (R \<union> addr st ` set (r_queue c) \<union> addr st ` set (rack_queue c)) \<and>
     right_port owner (w_trans_id c) (W \<union> addr st ` set (w_queue c) \<union> addr st ` set (wack_queue c))"

lemma same_requests_inv: "same_requests s s' \<Longrightarrow> port_inv st owner i s' = port_inv st owner i s"
  by (simp add: same_requests_def port_inv_def)

lemma own_event_tokens:
  "tokens (memory_out f) (map (\<lambda>x. Inl (i, x)) os) = []"
  "tokens (memory_out f) (map Inr os') = tokens f os'"
  "tokens (host_out f j) (map (\<lambda>x. Inl (i, x)) os) = (if i = j then tokens (case_sum f (\<lambda>_. [])) os else [])"
  "tokens (host_out f j) (map Inr os') = []"
proof -
  show "tokens (memory_out f) (map (\<lambda>x. Inl (i, x)) os) = []" by (induction os) simp_all
  show "tokens (memory_out f) (map Inr os') = tokens f os'" by (induction os') simp_all
  have "host_out f j (Inl (i, x)) = (if i = j then case_sum f (\<lambda>_. []) x else [])" for x by (cases x) simp_all
  then show "tokens (host_out f j) (map (\<lambda>x. Inl (i, x)) os) = (if i = j then tokens (case_sum f (\<lambda>_. [])) os else [])"
    by (induction os) simp_all
  show "tokens (host_out f j) (map Inr os') = []" by (induction os') simp_all
qed

lemma host_in_port: "host_in f j (At_host i e) = (if i = j then from_port f e else [])"
  by (cases e) (simp_all add: from_port_def)

text \<open>An event of a host.\<close>

lemma host_step:
  assumes inv: "links_inv st owner ms R W (ps, c)" and ok: "outside_ok st owner ms R W (At_host i e) (ps, c)"
  shows "\<exists>ps' c' os. links_ev st (At_host i e) (ps, c) = Inr ((ps', c'), os) \<and> length ps' = length ps \<and>
    links_inv st owner ms (R \<union> addr st ` set (tokens (memory_out fw_reads) os)) (W \<union> addr st ` set (tokens (memory_out fw_writes) os)) (ps', c') \<and>
    (\<forall>j < length ps. conserved st owner j (ps, c) [At_host i e] os (ps', c'))"
proof -
  note l = port_read_legal [OF ok]
  have port: "port_inv st owner i (ps ! i)" and ctrl: "ctrl_inv ms (length ps) c" using inv l(5) by simp_all
  have ui0: "usp_inv (fst (ps ! i))" using port by (simp add: port_inv_def)
  obtain s' os where one: "ports_ev st e (ps ! i) = Inr (s', os)" and ui: "usp_inv (fst s')"
    and f: "tokens (case_sum (\<lambda>_. []) fw_reads) os @ port_reads s' = port_reads (ps ! i) @ from_port usp_read_in e"
    "tokens (case_sum (\<lambda>_. []) fw_writes) os @ port_writes s' = port_writes (ps ! i) @ from_port usp_write_in e"
    and b: "tokens (case_sum bw_reads (\<lambda>_. [])) os @ port_racks s' = port_racks (ps ! i)"
    "tokens (case_sum bw_writes (\<lambda>_. [])) os @ port_wacks s' = port_wacks (ps ! i)"
    by (rule ports_step [OF ok ui0]) blast
  obtain c' where two: "run_events ctrl_ev (concat (map (dsp_to_ctrl_at st i) os)) c = Inr (c', [])"
    and c': "ctrl_inv ms (length ps) c'"
    and q: "r_queue c' = r_queue c @ tokens (case_sum (\<lambda>_. []) fw_reads) os"
    "w_queue c' = w_queue c @ tokens (case_sum (\<lambda>_. []) fw_writes) os"
    "rack_queue c' = rack_queue c" "wack_queue c' = wack_queue c"
    and rec: "\<And>a. port_of (r_trans_id c') a =
      last_of (asks_read a) (concat (map (dsp_to_ctrl_at st i) os)) (port_of (r_trans_id c) a)"
    "\<And>a. port_of (w_trans_id c') a =
      last_of (asks_write a) (concat (map (dsp_to_ctrl_at st i) os)) (port_of (w_trans_id c) a)"
    by (rule calls_step [OF ctrl l(5), of st os]) blast
  have mine: "\<forall>p \<in> set (tokens (case_sum (\<lambda>_. []) fw_reads) os @ port_reads s'). owner (addr st p) = i"
    "\<forall>p \<in> set (tokens (case_sum (\<lambda>_. []) fw_writes) os @ port_writes s'). owner (addr st p) = i"
    using f l(6,7) port by (auto simp: port_inv_def from_port_def)
  have port': "port_inv st owner i s'" using ui mine by (auto simp: port_inv_def)
  have "port_of (r_trans_id c') a = owner a"
    if "port_of (r_trans_id c) a = owner a \<or> a \<in> addr st ` set (tokens (case_sum (\<lambda>_. []) fw_reads) os)" for a
    unfolding rec by (rule last_asker_owner [OF asks_at(1) some_call]) (use that mine(1) in auto)
  moreover have "port_of (w_trans_id c') a = owner a"
    if "port_of (w_trans_id c) a = owner a \<or> a \<in> addr st ` set (tokens (case_sum (\<lambda>_. []) fw_writes) os)" for a
    unfolding rec by (rule last_asker_owner [OF asks_at(2) some_call]) (use that mine(2) in auto)
  ultimately have right: "right_port owner (r_trans_id c') (R \<union> addr st ` set (r_queue c') \<union> addr st ` set (rack_queue c'))"
    "right_port owner (w_trans_id c') (W \<union> addr st ` set (w_queue c') \<union> addr st ` set (wack_queue c'))"
    using inv by (auto simp: right_port_def q)
  have other: "own st owner j (tokens (case_sum (\<lambda>_. []) fw_reads) os) = (if i = j then tokens (case_sum (\<lambda>_. []) fw_reads) os else [])"
    "own st owner j (tokens (case_sum (\<lambda>_. []) fw_writes) os) = (if i = j then tokens (case_sum (\<lambda>_. []) fw_writes) os else [])" for j
    using own_all [of "tokens (case_sum (\<lambda>_. []) fw_reads) os" owner st i j]
      own_all [of "tokens (case_sum (\<lambda>_. []) fw_writes) os" owner st i j] mine by auto
  have "links_inv st owner ms R W (ps[i := s'], c')"
    using inv c' right port' l(5) by (auto simp: nth_list_update)
  moreover have "conserved st owner j (ps, c) [At_host i e] (map (\<lambda>x. Inl (i, x)) os) (ps[i := s'], c')" if "j < length ps" for j
    using f b that l(5) by (simp add: conserved_def own_event_tokens host_in_port q other)
  moreover have "links_ev st (At_host i e) (ps, c) = Inr ((ps[i := s'], c'), map (\<lambda>x. Inl (i, x)) os)"
    using one two l(5) by simp
  ultimately show ?thesis
    by (intro exI [of _ "ps[i := s']"] exI [of _ c'] exI [of _ "map (\<lambda>x. Inl (i, x)) os"])
      (simp add: own_event_tokens del: links_inv.simps links_ev.simps)
qed

text \<open>An event at the controller: where its calls go, and what it leaves on record.\<close>

lemma right_port_cong:
  assumes "right_port owner m A" and "\<And>a. port_of m' a = port_of m a" and "A' \<subseteq> A"
  shows "right_port owner m' A'"
  using assms by (auto simp: right_port_def)

lemma port_of_bound: "ids_ok n m \<Longrightarrow> 0 < n \<Longrightarrow> port_of m a < n"
  using ids_ok_index(1) [of n m a] by (auto simp: port_of_def port_ok_def)

lemma ctrl_calls_right:
  assumes inv: "ctrl_inv ms n c" and routed: "list_all (routed_call st' c) os"
    and r: "\<forall>p \<in> set (tokens bw_reads os). addr st' p = addr st p \<and> port_of (r_trans_id c) (addr st p) = owner (addr st p)"
    and w: "\<forall>p \<in> set (tokens bw_writes os). addr st' p = addr st p \<and> port_of (w_trans_id c) (addr st p) = owner (addr st p)"
  shows "list_all (rightly_sent st owner n) os"
proof -
  have "ids_ok n (r_trans_id c)" "ids_ok n (w_trans_id c)" "0 < n"
    using inv by (auto simp: ctrl_inv_def ctrl_base_def)
  then have b: "port_of (r_trans_id c) a < n" "port_of (w_trans_id c) a < n" for a
    using port_of_bound by blast+
  have "rightly_sent st owner n x" if x: "x \<in> set os" for x
  proof (cases x)
    case (Bw_read i p)
    with x have "p \<in> set (tokens bw_reads os)" by (auto simp: in_tokens intro!: bexI [of _ x])
    with r have q: "addr st' p = addr st p" "port_of (r_trans_id c) (addr st p) = owner (addr st p)" by simp_all
    have "routed_call st' c x" using routed x by (simp add: list_all_iff)
    then have i: "i = port_of (r_trans_id c) (addr st p)" using Bw_read q(1) by (simp add: addr_def)
    have "i < n" unfolding i by (rule b)
    with Bw_read i q(2) show ?thesis by simp
  next
    case (Bw_write i p)
    with x have "p \<in> set (tokens bw_writes os)" by (auto simp: in_tokens intro!: bexI [of _ x])
    with w have q: "addr st' p = addr st p" "port_of (w_trans_id c) (addr st p) = owner (addr st p)" by simp_all
    have "routed_call st' c x" using routed x by (simp add: list_all_iff)
    then have i: "i = port_of (w_trans_id c) (addr st p)" using Bw_write q(1) by (simp add: addr_def)
    have "i < n" unfolding i by (rule b)
    with Bw_write i q(2) show ?thesis by simp
  qed simp_all
  then show ?thesis by (simp add: list_all_iff)
qed

lemma ctrl_step_calls:
  assumes inv: "links_inv st owner ms R W (ps, c)" and ok: "outside_ok st owner ms R W (At_ctrl e) (ps, c)"
  obtains c' os where "ctrl_ev e c = Inr (c', os)" and "ctrl_inv ms (length ps) c'"
    and "tokens fw_reads os @ r_queue c' = r_queue c" "tokens fw_writes os @ w_queue c' = w_queue c"
    and "tokens bw_reads os @ rack_queue c' = rack_queue c @ ctrl_rack_in e"
    and "tokens bw_writes os @ wack_queue c' = wack_queue c @ ctrl_wack_in e"
    and "addr st ` set (ctrl_rack_in e) \<subseteq> R" "addr st ` set (ctrl_wack_in e) \<subseteq> W"
    and "\<And>a. port_of (r_trans_id c') a = port_of (r_trans_id c) a"
    and "\<And>a. port_of (w_trans_id c') a = port_of (w_trans_id c) a"
    and "list_all (rightly_sent st owner (length ps)) os"
proof -
  have ctrl: "ctrl_inv ms (length ps) c" using inv by simp
  have legal: "ctrl_legal ms (length ps) e" and no_in: "ctrl_read_in e = []" "ctrl_write_in e = []"
    and asks: "\<And>a. asks_read a e = None" "\<And>a. asks_write a e = None"
    and answers: "addr st ` set (ctrl_rack_in e) \<subseteq> R" "addr st ` set (ctrl_wack_in e) \<subseteq> W"
    using ok by (cases e; auto)+
  obtain c' os where step: "ctrl_ev e c = Inr (c', os)" and more: "ctrl_inv ms (length ps) c'"
    "tokens fw_reads os @ r_queue c' = r_queue c" "tokens fw_writes os @ w_queue c' = w_queue c"
    "tokens bw_reads os @ rack_queue c' = rack_queue c @ ctrl_rack_in e"
    "tokens bw_writes os @ wack_queue c' = wack_queue c @ ctrl_wack_in e"
    using ctrl_ev_ok [OF ctrl legal] no_in by auto
  have calls: "list_all (rightly_sent st owner (length ps)) os"
  proof (cases e)
    case (Ctrl_bw_run st')
    have right: "right_port owner (r_trans_id c) (addr st ` set (rack_queue c))" "right_port owner (w_trans_id c) (addr st ` set (wack_queue c))"
      using inv by (auto simp: right_port_def)
    have "list_all (routed_call st' c) os"
      using Ctrl_bw_run step ctrl_bw_resume_ok [OF ctrl, of st'] by (auto simp: bw_good_def bw_seg_def)
    moreover have "set (tokens bw_reads os) \<subseteq> set (rack_queue c)" "set (tokens bw_writes os) \<subseteq> set (wack_queue c)"
      using more(4,5) Ctrl_bw_run by (simp_all, metis set_append sup_ge1, metis set_append sup_ge1)
    ultimately show ?thesis
      using right ok Ctrl_bw_run by (intro ctrl_calls_right [OF ctrl]) (auto simp: right_port_def)
  next
    case (Ctrl_fw_run dm)
    with ok ctrl_fw_resume_ok [OF ctrl, of dm] step
    have "tokens bw_reads os = []" "tokens bw_writes os = []" by (auto simp: fw_seg_def)
    then have "\<forall>x \<in> set os. bw_reads x = [] \<and> bw_writes x = []" by (simp add: tokens_def)
    moreover have "rightly_sent st owner n x" if "bw_reads x = []" "bw_writes x = []" for n x
      using that by (cases x) simp_all
    ultimately show ?thesis by (simp add: list_all_iff)
  qed (use step ok in auto)
  show thesis
    by (rule that [OF step more answers _ _ calls]) (simp_all add: trans_id_step [OF ctrl legal step] asks)
qed

lemma ctrl_step:
  assumes inv: "links_inv st owner ms R W (ps, c)" and ok: "outside_ok st owner ms R W (At_ctrl e) (ps, c)"
  shows "\<exists>ps' c' os. links_ev st (At_ctrl e) (ps, c) = Inr ((ps', c'), os) \<and> length ps' = length ps \<and>
    links_inv st owner ms (R \<union> addr st ` set (tokens (memory_out fw_reads) os)) (W \<union> addr st ` set (tokens (memory_out fw_writes) os)) (ps', c') \<and>
    (\<forall>j < length ps. conserved st owner j (ps, c) [At_ctrl e] os (ps', c'))"
proof -
  obtain c' os where one: "ctrl_ev e c = Inr (c', os)" and c': "ctrl_inv ms (length ps) c'"
    and f: "tokens fw_reads os @ r_queue c' = r_queue c" "tokens fw_writes os @ w_queue c' = w_queue c"
    and b: "tokens bw_reads os @ rack_queue c' = rack_queue c @ ctrl_rack_in e"
      "tokens bw_writes os @ wack_queue c' = wack_queue c @ ctrl_wack_in e"
    and answers: "addr st ` set (ctrl_rack_in e) \<subseteq> R" "addr st ` set (ctrl_wack_in e) \<subseteq> W"
    and same: "\<And>a. port_of (r_trans_id c') a = port_of (r_trans_id c) a"
      "\<And>a. port_of (w_trans_id c') a = port_of (w_trans_id c) a"
    and sent: "list_all (rightly_sent st owner (length ps)) os"
    by (rule ctrl_step_calls [OF inv ok]) blast
  from deliver_all [OF sent] obtain ps' where two: "efold (deliver st) os ps = Inr ps'" "length ps' = length ps"
    and each: "\<And>j. j < length ps \<Longrightarrow> same_requests (ps ! j) (ps' ! j)"
      "\<And>j. j < length ps \<Longrightarrow> port_racks (ps' ! j) = port_racks (ps ! j) @ own st owner j (tokens bw_reads os)"
      "\<And>j. j < length ps \<Longrightarrow> port_wacks (ps' ! j) = port_wacks (ps ! j) @ own st owner j (tokens bw_writes os)"
    by blast
  let ?a = "\<lambda>qs. addr st ` set qs"
  have eqs: "?a (tokens fw_reads os) \<union> ?a (r_queue c') = ?a (r_queue c)"
    "?a (tokens fw_writes os) \<union> ?a (w_queue c') = ?a (w_queue c)"
    "?a (tokens bw_reads os) \<union> ?a (rack_queue c') = ?a (rack_queue c) \<union> ?a (ctrl_rack_in e)"
    "?a (tokens bw_writes os) \<union> ?a (wack_queue c') = ?a (wack_queue c) \<union> ?a (ctrl_wack_in e)"
    by (simp_all flip: f b set_append image_Un)
  have sub: "B \<subseteq> C \<union> S" if "A \<union> B = C \<union> D" and "D \<subseteq> S" for A B C D S :: "u64 set"
    using that by blast
  note sets = eqs(1,2) sub [OF eqs(3) answers(1)] sub [OF eqs(4) answers(2)]
  have "right_port owner (r_trans_id c') ((R \<union> addr st ` set (tokens fw_reads os)) \<union> addr st ` set (r_queue c') \<union> addr st ` set (rack_queue c'))"
    by (rule right_port_cong [OF _ same(1)]) (use inv sets(1,3) in auto)
  moreover have "right_port owner (w_trans_id c') ((W \<union> addr st ` set (tokens fw_writes os)) \<union> addr st ` set (w_queue c') \<union> addr st ` set (wack_queue c'))"
    by (rule right_port_cong [OF _ same(2)]) (use inv sets(2,4) in auto)
  moreover have "port_inv st owner j (ps' ! j)" if "j < length ps" for j
    using same_requests_inv [OF each(1) [OF that]] inv that by simp
  ultimately have "links_inv st owner ms (R \<union> addr st ` set (tokens fw_reads os)) (W \<union> addr st ` set (tokens fw_writes os)) (ps', c')"
    using c' two(2) by simp
  moreover have "conserved st owner j (ps, c) [At_ctrl e] (map Inr os) (ps', c')" if "j < length ps" for j
    using each [OF that] arg_cong [OF f(1), of "own st owner j"] arg_cong [OF f(2), of "own st owner j"]
      arg_cong [OF b(1), of "own st owner j"] arg_cong [OF b(2), of "own st owner j"]
    by (simp add: conserved_def own_event_tokens same_requests_def)
  moreover have "links_ev st (At_ctrl e) (ps, c) = Inr ((ps', c'), map Inr os)"
    using one two by simp
  ultimately show ?thesis
    using two(2) by (intro exI [of _ ps'] exI [of _ c'] exI [of _ "map Inr os"])
      (simp add: own_event_tokens del: links_inv.simps links_ev.simps)
qed

lemma links_run:
  assumes "links_inv st owner ms R W (ps, c)" and "links_ok st owner ms R W es (ps, c)"
  shows "\<exists>ps' c' os. run_events (links_ev st) es (ps, c) = Inr ((ps', c'), os) \<and> length ps' = length ps \<and>
    (\<forall>j < length ps. conserved st owner j (ps, c) es os (ps', c'))"
  using assms
proof (induction es arbitrary: R W ps c)
  case Nil
  then show ?case by (simp add: conserved_Nil)
next
  case (Cons e es)
  have ok: "outside_ok st owner ms R W e (ps, c)" using Cons.prems by simp
  have "\<exists>ps' c' os. links_ev st e (ps, c) = Inr ((ps', c'), os) \<and> length ps' = length ps \<and>
    links_inv st owner ms (R \<union> addr st ` set (tokens (memory_out fw_reads) os)) (W \<union> addr st ` set (tokens (memory_out fw_writes) os)) (ps', c') \<and>
    (\<forall>j < length ps. conserved st owner j (ps, c) [e] os (ps', c'))"
    using host_step [OF Cons.prems(1)] ctrl_step [OF Cons.prems(1)] ok by (cases e) metis+
  then obtain ps1 c1 os1 where one: "links_ev st e (ps, c) = Inr ((ps1, c1), os1)" and len: "length ps1 = length ps"
    and inv: "links_inv st owner ms (R \<union> addr st ` set (tokens (memory_out fw_reads) os1)) (W \<union> addr st ` set (tokens (memory_out fw_writes) os1)) (ps1, c1)"
    and first: "\<forall>j < length ps. conserved st owner j (ps, c) [e] os1 (ps1, c1)"
    by blast
  have "links_ok st owner ms (R \<union> addr st ` set (tokens (memory_out fw_reads) os1)) (W \<union> addr st ` set (tokens (memory_out fw_writes) os1)) es (ps1, c1)"
    using Cons.prems(2) one by (simp del: links_ev.simps)
  from Cons.IH [OF inv this] obtain ps2 c2 os2 where "run_events (links_ev st) es (ps1, c1) = Inr ((ps2, c2), os2)"
    "length ps2 = length ps1" "\<forall>j < length ps1. conserved st owner j (ps1, c1) es os2 (ps2, c2)"
    by blast
  with one len first conserved_Cons show ?case
    by (intro exI [of _ ps2] exI [of _ c2] exI [of _ "os1 @ os2"]) (auto simp del: links_ev.simps)
qed

section \<open>From the initial state\<close>

definition links_init :: "usp list \<Rightarrow> u32 \<Rightarrow> u32 \<Rightarrow> string \<Rightarrow> nat \<Rightarrow> (usp \<times> dsp) list \<times> ctrl" where
  "links_init us ll cl nm ms = (map (\<lambda>u. (u, dsp_init)) us, ctrl_init ll cl nm ms (length us))"

definition fresh_usp :: "usp \<Rightarrow> bool" where
  "fresh_usp u \<longleftrightarrow> (\<exists>dn pl ll pk rs nm. usp_init dn pl ll pk rs nm = Inr u \<and> pk div rs div 2 \<noteq> 0)"

lemma fresh_port:
  assumes "fresh_usp u"
  shows "port_inv st owner i (u, dsp_init)" "port_reads (u, dsp_init) = []" "port_writes (u, dsp_init) = []"
    "port_racks (u, dsp_init) = []" "port_wacks (u, dsp_init) = []"
proof -
  obtain dn pl ll pk rs nm where u: "usp_init dn pl ll pk rs nm = Inr u" "pk div rs div 2 \<noteq> 0"
    using assms by (auto simp: fresh_usp_def)
  have "w_queue u = []" "r_queue u = []" "usp_writes u = []" "usp_wacks u = []" "usp_racks u = []"
    using u(1) by (auto simp: usp_init_def usp_content_defs split: if_splits)
  then show "port_reads (u, dsp_init) = []" "port_writes (u, dsp_init) = []"
    "port_racks (u, dsp_init) = []" "port_wacks (u, dsp_init) = []"
    by (simp_all add: port_defs dsp_init_def)
  with usp_init_ok [OF u] show "port_inv st owner i (u, dsp_init)" by (simp add: port_inv_def)
qed

lemma links_inv_init:
  assumes "\<forall>u \<in> set us. fresh_usp u" and "0 < length us" and "length us < 2 ^ 32"
  shows "links_inv st owner ms {} {} (links_init us ll cl nm ms)"
  using assms ctrl_inv_init [of "length us" ms ll cl nm] fresh_port(1)
  by (simp add: links_init_def right_port_def) (simp add: ctrl_init_def)

text \<open>
  C1. Any number of hosts on one controller, each with addresses of its own, from the initial state, for every sequence
  of requests by the hosts, answers by the memory to addresses it was asked for, and turns of all threads: no step fails;
  for every host, its requests that reach the memory, followed by those still inside, are
  the requests that it made in their order, for reads and for writes; and the responses that reach it,
  followed by those still inside, are the answers of the memory to its addresses in their order. No host
  gets a response for another.
\<close>

theorem links_in_order:
  assumes "\<forall>u \<in> set us. fresh_usp u" and "0 < length us" and "length us < 2 ^ 32"
    and "links_ok st owner ms {} {} es (links_init us ll cl nm ms)"
  shows "\<exists>s' os. run_events (links_ev st) es (links_init us ll cl nm ms) = Inr (s', os) \<and>
    (\<forall>i < length us.
       own st owner i (tokens (memory_out fw_reads) os) @ reads_inside st owner i s' = tokens (host_in usp_read_in i) es \<and>
       own st owner i (tokens (memory_out fw_writes) os) @ writes_inside st owner i s' = tokens (host_in usp_write_in i) es \<and>
       tokens (host_out bw_reads i) os @ racks_inside st owner i s' = own st owner i (tokens (memory_in ctrl_rack_in) es) \<and>
       tokens (host_out bw_writes i) os @ wacks_inside st owner i s' = own st owner i (tokens (memory_in ctrl_wack_in) es))"
proof -
  let ?s = "links_init us ll cl nm ms"
  have len: "length (fst ?s) = length us" by (simp add: links_init_def)
  have inv: "links_inv st owner ms {} {} (fst ?s, snd ?s)" using links_inv_init [OF assms(1-3)] by simp
  have ok: "links_ok st owner ms {} {} es (fst ?s, snd ?s)" using assms(4) by simp
  obtain ps' c' os where run: "run_events (links_ev st) es ?s = Inr ((ps', c'), os)"
    and all: "\<forall>j < length us. conserved st owner j ?s es os (ps', c')"
    using links_run [OF inv ok] len by auto
  have empty: "reads_inside st owner j ?s = []" "writes_inside st owner j ?s = []"
    "racks_inside st owner j ?s = []" "wacks_inside st owner j ?s = []" if "j < length us" for j
    using that fresh_port(2-5) [of "us ! j"] assms(1) by (simp_all add: links_init_def ctrl_init_def)
  show ?thesis
    by (intro exI [of _ "(ps', c')"] exI [of _ os]) (use run all empty in \<open>simp add: conserved_def\<close>)
qed

text \<open>
  Two hosts that read twice each, one at address 64 and one at address 128; the memory answers with payloads of its
  own, the second host first. The result: host 1 gets the answer to its own read, and that of host 0 is on its way to host 0.
\<close>

definition two_hosts :: store where
  "two_hosts = sample_store (\<lambda>p. sample_gp TLM_READ_COMMAND (if even p then 64 else 128))"

definition two_owners :: "u64 \<Rightarrow> nat" where "two_owners a = (if a = 64 then 0 else 1)"

definition two_hosts_requests :: "links_event list" where
  "two_hosts_requests =
     [At_host 0 (Inl (Usp_fw_call two_hosts 0 BEGIN_REQ)), At_host 1 (Inl (Usp_fw_call two_hosts 1 BEGIN_REQ)),
      At_host 0 (Inl (Usp_fw_call two_hosts 2 BEGIN_REQ)), At_host 1 (Inl (Usp_fw_call two_hosts 3 BEGIN_REQ)),
      At_host 0 (Inl Usp_fw_run), At_host 1 (Inl Usp_fw_run), At_host 0 (Inl Usp_fw_run), At_host 1 (Inl Usp_fw_run),
      At_host 0 (Inr Dsp_fw_run), At_host 1 (Inr Dsp_fw_run),
      At_ctrl (Ctrl_fw_run Map.empty), At_ctrl (Ctrl_fw_run Map.empty), At_ctrl (Ctrl_fw_run Map.empty), At_ctrl (Ctrl_fw_run Map.empty)]"

definition two_hosts_answers :: "links_event list" where
  "two_hosts_answers =
     [At_ctrl (Ctrl_bw_call two_hosts 5), At_ctrl (Ctrl_bw_call two_hosts 4),
      At_ctrl (Ctrl_bw_run two_hosts), At_ctrl (Ctrl_bw_run two_hosts), At_ctrl (Ctrl_bw_run two_hosts),
      At_host 1 (Inr Dsp_bw_run), At_host 1 (Inl Usp_bw_run), At_host 1 (Inl Usp_bw_run)]"

lemmas links_run_simps = two_owners_def deliver_def addr_def labelled_def ctrl_run_simps
  dsp_nb_transport_fw_def dsp_nb_transport_bw_def dsp_fw_resume_def dsp_bw_resume_def usp_nb_transport_fw_def
  usp_nb_transport_bw_def usp_fw_resume_def usp_bw_resume_def usp_read_check_def usp_ack_delay_def
  increase_r_flit_def get_r_flit_num_def

lemma heap_two_hosts: "heap two_hosts p = sample_gp TLM_READ_COMMAND (if even p then 64 else 128)"
  by (simp add: two_hosts_def)

lemma send_two_reads: "usp_send_reads 2 u = usp_send_reads (Suc (Suc 0)) u"
  by (simp only: numeral_2_eq_2)

definition two_ports :: "usp list" where
  "two_ports = [projr (usp_init 1 5 5 64 4 []), projr (usp_init 1 5 5 64 4 [])]"

lemma two_ports_fresh: "\<forall>u \<in> set two_ports. fresh_usp u" "length two_ports = 2"
proof -
  have "usp_init 1 5 5 64 4 [] = Inr (projr (usp_init 1 5 5 64 4 []))" by (simp add: usp_init_def)
  then show "\<forall>u \<in> set two_ports. fresh_usp u" unfolding two_ports_def fresh_usp_def by fastforce
qed (simp add: two_ports_def)

lemma two_links: "links_init two_ports 5 5 [] ms =
  (let s = (\<lparr>r_queue = [], w_queue = [], rack_queue = [], wack_queue = [],
      pending_queue = [], f_idx = 0, r_msg = 2, u_pipeline = 8, u_rack_num = 0,
      u_wack_num = 0, u_dram_num = 1, payload_num = 16, u_port_latency = 5, u_link_latency = 5,
      u_stats = set_name [] (stats_new []), u_fw_pc = Fw_top, u_bw_pc = Ubw_top\<rparr>, dsp_init)
   in ([s, s], ctrl_init 5 5 [] ms 2))"
  by (simp add: links_init_def two_ports_def usp_init_def Let_def)
    (simp add: numeral_2_eq_2)

lemma two_hosts_ok: "links_ok two_hosts two_owners 1 {} {} (two_hosts_requests @ two_hosts_answers) (links_init two_ports 5 5 [] 1)"
  by (simp add: two_links heap_two_hosts two_hosts_requests_def two_hosts_answers_def links_run_simps ctrl_init_def dsp_init_def devices_ok_def usp_rack_check_def send_two_reads Let_def)

theorem links_in_order_witness:
  "\<exists>s' os. run_events (links_ev two_hosts) (two_hosts_requests @ two_hosts_answers) (links_init two_ports 5 5 [] 1) = Inr (s', os) \<and>
    own two_hosts two_owners 1 (tokens (memory_out fw_reads) os) @ reads_inside two_hosts two_owners 1 s' = [1, 3] \<and>
    tokens (host_out bw_reads 0) os @ racks_inside two_hosts two_owners 0 s' = [4] \<and>
    tokens (host_out bw_reads 1) os @ racks_inside two_hosts two_owners 1 s' = [5]"
proof -
  let ?es = "two_hosts_requests @ two_hosts_answers"
  have reads: "tokens (host_in usp_read_in 1) ?es = [1, 3]"
    by (simp add: two_hosts_requests_def two_hosts_answers_def heap_two_hosts)
  have answers: "tokens (memory_in ctrl_rack_in) ?es = [5, 4]"
    by (simp add: two_hosts_requests_def two_hosts_answers_def heap_two_hosts)
  have mine: "own two_hosts two_owners 0 [5, 4] = [4]" "own two_hosts two_owners 1 [5, 4] = [5]"
    by (simp_all add: addr_def heap_two_hosts two_owners_def)
  have two: "0 < length two_ports" "length two_ports < 2 ^ 32" "0 < length two_ports" "1 < length two_ports"
    by (simp_all add: two_ports_fresh(2))
  obtain s' os where run: "run_events (links_ev two_hosts) ?es (links_init two_ports 5 5 [] 1) = Inr (s', os)"
    and all: "\<forall>i < length two_ports.
      own two_hosts two_owners i (tokens (memory_out fw_reads) os) @ reads_inside two_hosts two_owners i s' =
        tokens (host_in usp_read_in i) ?es \<and>
      own two_hosts two_owners i (tokens (memory_out fw_writes) os) @ writes_inside two_hosts two_owners i s' =
        tokens (host_in usp_write_in i) ?es \<and>
      tokens (host_out bw_reads i) os @ racks_inside two_hosts two_owners i s' =
        own two_hosts two_owners i (tokens (memory_in ctrl_rack_in) ?es) \<and>
      tokens (host_out bw_writes i) os @ wacks_inside two_hosts two_owners i s' =
        own two_hosts two_owners i (tokens (memory_in ctrl_wack_in) ?es)"
    using links_in_order [OF two_ports_fresh(1) two(1,2) two_hosts_ok] by blast
  show ?thesis
    by (intro exI [of _ s'] exI [of _ os])
      (use run all [rule_format, OF two(3)] all [rule_format, OF two(4)] reads answers mine in metis)
qed

end
