(* ===== verification/Mem_Answers.thy ===== *)
theory Mem_Answers
  imports Mem_Props
begin

text \<open>
  The memory device together with the payloads in the store, which the device changes: it releases
  the payload of a request and answers with a fresh one. The result is that the answers are those to
  the requests: each request is answered once, by a payload with its command, address, length and number.
\<close>

section \<open>The device and the store\<close>

text \<open>What the link sees of a payload.\<close>

definition seen :: "store \<Rightarrow> pid \<Rightarrow> tlm_command \<times> u64 \<times> u32 \<times> u32" where
  "seen st p = (let g = heap st p in (gp_command g, gp_address g, gp_length g, gp_id g))"

text \<open>The events of the device, each from the current store, and changes of the store by other modules.\<close>

datatype mem_event =
    Mem_call pid
  | Mem_fire "nat \<Rightarrow> (nat \<Rightarrow> byte) \<times> nat"
  | Mem_posedge
  | Mem_negedge
  | Mem_dram nat u32
  | Mem_other store

datatype mem_io =
    Asked "tlm_command \<times> u64 \<times> u32 \<times> u32"
  | Answered "tlm_command \<times> u64 \<times> u32 \<times> u32"

fun mem_sys :: "(request \<Rightarrow> 'm \<Rightarrow> 'm \<times> bool) \<Rightarrow> ('m \<Rightarrow> 'm \<times> pid list) \<Rightarrow> mem_event \<Rightarrow> store \<times> 'm mem_wrapper \<Rightarrow>
  sim_error + ((store \<times> 'm mem_wrapper) \<times> mem_io list)" where
  "mem_sys send tick (Mem_call p) (st, w) = Inr ((st, fst (mw_nb_transport_fw w p BEGIN_REQ)), [Asked (seen st p)])"
| "mem_sys send tick (Mem_fire mems) (st, w) = ebind (mw_peq_fire mems (st, w)) (\<lambda>s. Inr (s, []))"
| "mem_sys send tick Mem_posedge (st, w) = Inr ((st, mw_clock_posedge w), [])"
| "mem_sys send tick Mem_negedge (st, w) =
     (case mw_clock_negedge (st, w) of (s, os) \<Rightarrow> Inr (s, map (\<lambda>p. Answered (seen (fst s) p)) (tokens answers os)))"
| "mem_sys send tick (Mem_dram now ac) (st, w) = ebind (simulate_dram send tick st now ac w) (\<lambda>(w', stop). Inr ((st, w'), []))"
| "mem_sys send tick (Mem_other st') (st, w) = Inr ((st', w), [])"

fun asked :: "mem_io \<Rightarrow> (tlm_command \<times> u64 \<times> u32 \<times> u32) list" where
  "asked (Asked x) = [x]"
| "asked (Answered x) = []"

fun answered :: "mem_io \<Rightarrow> (tlm_command \<times> u64 \<times> u32 \<times> u32) list" where
  "answered (Answered x) = [x]"
| "answered (Asked x) = []"

section \<open>What is inside the device\<close>

definition issued :: "('m \<Rightarrow> pid multiset) \<Rightarrow> 'm mem_wrapper \<Rightarrow> pid multiset" where
  "issued busy w = in_bridge busy (mw_bridge w) + mset (rack_queue w) + mset (wack_queue w)"

definition inside :: "('m \<Rightarrow> pid multiset) \<Rightarrow> 'm mem_wrapper \<Rightarrow> pid multiset" where
  "inside busy w = mset (map fst (mw_peq w)) + mset (r_queue w) + mset (w_queue w) + mset (mem_request w) + issued busy w"

text \<open>
  A caller hands over a payload that is in use, that nobody else holds and that the device does not have yet; other modules
  leave alone what the device has.
\<close>

fun event_ok :: "('m \<Rightarrow> pid multiset) \<Rightarrow> mem_event \<Rightarrow> store \<times> 'm mem_wrapper \<Rightarrow> bool" where
  "event_ok busy (Mem_call p) (st, w) \<longleftrightarrow> link_payload st p \<and> p \<notin># inside busy w"
| "event_ok busy (Mem_other st') (st, w) \<longleftrightarrow> (\<exists>fs. store_wf fs st') \<and>
     (\<forall>p \<in># inside busy w. link_payload st' p \<and> seen st' p = seen st p)"
| "event_ok busy _ (st, w) \<longleftrightarrow> True"

fun events_ok :: "(request \<Rightarrow> 'm \<Rightarrow> 'm \<times> bool) \<Rightarrow> ('m \<Rightarrow> 'm \<times> pid list) \<Rightarrow> ('m \<Rightarrow> pid multiset) \<Rightarrow> mem_event list \<Rightarrow>
  store \<times> 'm mem_wrapper \<Rightarrow> bool" where
  "events_ok send tick busy [] s \<longleftrightarrow> True"
| "events_ok send tick busy (e # es) s \<longleftrightarrow> event_ok busy e s \<and>
     (case mem_sys send tick e s of Inl _ \<Rightarrow> True | Inr (s', _) \<Rightarrow> events_ok send tick busy es s')"

definition mem_inv :: "('m \<Rightarrow> pid multiset) \<Rightarrow> store \<times> 'm mem_wrapper \<Rightarrow> bool" where
  "mem_inv busy s \<longleftrightarrow> (\<exists>fs. store_wf fs (fst s)) \<and> (\<forall>p \<in># inside busy (snd s). link_payload (fst s) p) \<and>
     (\<forall>p. count (inside busy (snd s)) p \<le> 1) \<and> (\<forall>e \<in> set (mw_peq (snd s)). snd e = BEGIN_REQ) \<and>
     m_outstanding (snd s) = of_nat (size (issued busy (snd s)))"

definition seen_inside :: "('m \<Rightarrow> pid multiset) \<Rightarrow> store \<times> 'm mem_wrapper \<Rightarrow> (tlm_command \<times> u64 \<times> u32 \<times> u32) multiset" where
  "seen_inside busy s = image_mset (seen (fst s)) (inside busy (snd s))"

section \<open>Where the payloads go\<close>

lemma posedge_inside:
  "inside busy (mw_clock_posedge w) = inside busy w" "mw_peq (mw_clock_posedge w) = mw_peq w"
  "m_outstanding (mw_clock_posedge w) = m_outstanding w" "issued busy (mw_clock_posedge w) = issued busy w"
  by (auto simp: mw_clock_posedge_def inside_def issued_def Let_def split: list.split)

lemma issue_all_inside:
  assumes "mw_issue_all st now ps w = Inr w'"
  shows "issued busy w' = issued busy w + mset ps \<and> same_front w w' \<and> m_outstanding w' = m_outstanding w + of_nat (length ps)"
  using assms
proof (induction ps arbitrary: w)
  case (Cons p ps)
  then obtain w1 where one: "mw_issue st now p w = Inr w1" and rest: "mw_issue_all st now ps w1 = Inr w'"
    by auto
  from Cons.IH [OF rest] mw_issue_fields [OF one] show ?case
    by (simp add: issued_def same_front_def)
qed (simp add: same_front_def)

lemma complete_inside:
  assumes step: "mw_complete st now w = Inr w'"
  shows "issued busy w' = issued busy w \<and> same_front w w' \<and> m_outstanding w' = m_outstanding w"
proof -
  obtain b o' where b: "getCompletedCommand (mw_bridge w) = (b, o')" by fastforce
  show ?thesis
  proof (cases o')
    case None
    with b in_bridge_get(1) [of "mw_bridge w" b] step show ?thesis
      by (auto simp: mw_complete_def same_front_def)
  next
    case (Some p)
    with b have g: "getCompletedCommand (mw_bridge w) = (b, Some p)" by simp
    note split = in_bridge_get(2) [OF g, of busy]
    define w1 where "w1 = (if gp_command (heap st p) = TLM_READ_COMMAND then w\<lparr>mw_bridge := b, rack_queue := rack_queue w @ [p]\<rparr>
      else w\<lparr>mw_bridge := b, wack_queue := wack_queue w @ [p]\<rparr>)"
    have "\<exists>a rd. update_trans_delay now w1 a rd = Inr w'"
      using step g by (auto simp: mw_complete_def Let_def w1_def split: if_splits)
    then obtain a rd where "update_trans_delay now w1 a rd = Inr w'" by blast
    from update_trans_delay_fields [OF this] split show ?thesis
      by (cases "gp_command (heap st p) = TLM_READ_COMMAND") (simp_all add: w1_def issued_def same_front_def)
  qed
qed

lemma dram_inside:
  assumes cons: "conserving send tick busy" and step: "simulate_dram send tick st now ac w = Inr (w', stop)"
  shows "inside busy w' = inside busy w \<and> mw_peq w' = mw_peq w \<and> issued busy w' = issued busy w + mset (mem_request w) \<and>
    m_outstanding w' = m_outstanding w + of_nat (length (mem_request w))"
proof -
  from step obtain w1 w2 where one: "mw_complete st now w = Inr w1"
    and two: "mw_issue_all st now (mem_request w1) (w1\<lparr>mem_request := []\<rparr>) = Inr w2"
    and w': "w' = w2\<lparr>mw_bridge := ClockTick send tick st (mw_bridge w2)\<rparr> \<or>
      w' = w2\<lparr>mw_bridge := ClockTick send tick st (mw_bridge w2), mw_total_cycle := mw_total_cycle w2 + 1\<rparr>"
    by (auto simp: simulate_dram_def Let_def split: if_splits)
  have last: "issued busy w' = issued busy w2" "m_outstanding w' = m_outstanding w2" "same_front w2 w'"
    using w' in_bridge_tick [OF cons, of st "mw_bridge w2"] by (auto simp: issued_def same_front_def)
  have "issued busy (w1\<lparr>mem_request := []\<rparr>) = issued busy w1" by (simp add: issued_def)
  with issue_all_inside [OF two, of busy] complete_inside [OF one, of busy] last show ?thesis
    by (simp add: inside_def same_front_def ac_simps)
qed

lemma seen_upd_data [simp]: "seen (upd_gp p (\<lambda>g. g\<lparr>gp_data := f g\<rparr>) st) q = seen st q"
  by (simp add: seen_def Let_def upd_gp_def)

lemma link_payload_upd_data [simp]: "link_payload (upd_gp p (\<lambda>g. g\<lparr>gp_data := f g\<rparr>) st) q = link_payload st q"
  by (simp add: link_payload_def live_def upd_gp_def)

lemma store_wf_upd_data: "store_wf fs st \<Longrightarrow> store_wf fs (upd_gp p (\<lambda>g. g\<lparr>gp_data := f g\<rparr>) st)"
  by (rule store_wf_upd(1)) simp_all

lemma negedge_inside:
  assumes "mw_clock_negedge (st, w) = ((st', w'), os)"
  shows "issued busy w = mset (tokens answers os) + issued busy w'" "inside busy w = mset (tokens answers os) + inside busy w'"
    "mw_peq w' = mw_peq w" "m_outstanding w' = m_outstanding w - of_nat (length (tokens answers os))"
    "seen st' = seen st" "link_payload st' = link_payload st" "store_wf fs st \<Longrightarrow> store_wf fs st'"
  using assms
  by (auto simp: mw_clock_negedge_def backward_trans_def issued_def inside_def store_wf_upd_data fun_eq_iff split: list.splits)

text \<open>The event queue delivers a request: a fresh payload with the same attributes takes the place of the old one.\<close>

lemma fire_inside:
  assumes wf: "store_wf fs st" and q: "mw_peq w = (p, BEGIN_REQ) # es" and p: "link_payload st p"
    and step: "mw_peq_fire mems (st, w) = Inr (st', w')"
  obtains r fs' where "store_wf fs' st'" "replaces st p st' r" "inside busy w' + {#p#} = inside busy w + {#r#}"
    "issued busy w' = issued busy w" "mw_peq w' = es" "m_outstanding w' = m_outstanding w"
proof -
  obtain st1 r st2 fs2 where s: "gen_trans (mw_mm w) (gp_address (heap st p)) (gp_command (heap st p))
      (gp_length (heap st p)) (gp_id (heap st p)) st = Inr (st1, r)"
    "release p st1 = Inr st2" "store_wf fs2 st2" "replaces st p st2 r"
    using gen_release [OF wf p] by blast
  have cb: "mw_peq_cb mems (st, w\<lparr>mw_peq := es\<rparr>) p BEGIN_REQ = Inr (st', w')"
    using step q by (simp add: mw_peq_fire_def)
  have "st' = st2 \<and> inside busy w' + {#p#} = inside busy w + {#r#} \<and> issued busy w' = issued busy w \<and>
    mw_peq w' = es \<and> m_outstanding w' = m_outstanding w"
  proof (cases "gp_command (heap st p) = TLM_READ_COMMAND")
    case True
    with cb s(1,2) q show ?thesis by (auto simp: mw_peq_cb_def Let_def inside_def issued_def)
  next
    case False
    with cb s(1,2) q show ?thesis by (auto simp: mw_peq_cb_def Let_def inside_def issued_def)
  qed
  with that s(3,4) show thesis by blast
qed

section \<open>Every step\<close>

definition mem_step_ok :: "('m \<Rightarrow> pid multiset) \<Rightarrow> store \<times> 'm mem_wrapper \<Rightarrow> mem_io list \<Rightarrow> store \<times> 'm mem_wrapper \<Rightarrow> bool" where
  "mem_step_ok busy s os s' \<longleftrightarrow> mem_inv busy s' \<and>
     seen_inside busy s + mset (tokens asked os) = mset (tokens answered os) + seen_inside busy s'"

lemma call_step:
  assumes "mem_inv busy (st, w)" and "event_ok busy (Mem_call p) (st, w)"
  shows "mem_step_ok busy (st, w) [Asked (seen st p)] (st, fst (mw_nb_transport_fw w p BEGIN_REQ))"
proof -
  let ?w = "fst (mw_nb_transport_fw w p BEGIN_REQ)"
  have "inside busy ?w = add_mset p (inside busy w)" "issued busy ?w = issued busy w"
    "m_outstanding ?w = m_outstanding w" "mw_peq ?w = mw_peq w @ [(p, BEGIN_REQ)]"
    by (simp_all add: mw_nb_transport_fw_def inside_def issued_def)
  moreover have "count (inside busy w) p = 0" using assms(2) by (simp add: count_eq_zero_iff)
  ultimately show ?thesis
    using assms by (auto simp: mem_step_ok_def mem_inv_def seen_inside_def)
qed

lemma fire_step:
  assumes inv: "mem_inv busy (st, w)" and step: "mw_peq_fire mems (st, w) = Inr s'"
  shows "mem_step_ok busy (st, w) [] s'"
proof (cases "mw_peq w")
  case Nil
  with step inv show ?thesis by (simp add: mw_peq_fire_def mem_step_ok_def)
next
  case (Cons e es)
  obtain st' w' where s': "s' = (st', w')" by (cases s')
  obtain p where e: "e = (p, BEGIN_REQ)" using inv Cons by (cases e) (simp add: mem_inv_def)
  have p: "p \<in># inside busy w" using Cons e by (simp add: inside_def)
  obtain fs where "store_wf fs st" using inv by (auto simp: mem_inv_def)
  moreover have "link_payload st p" using inv p by (simp add: mem_inv_def)
  ultimately obtain r fs' where wf: "store_wf fs' st'" and rep: "replaces st p st' r"
    and ins: "inside busy w' + {#p#} = inside busy w + {#r#}" and rest: "issued busy w' = issued busy w" "mw_peq w' = es"
      "m_outstanding w' = m_outstanding w"
    using fire_inside [of fs st w p es mems st' w' busy] Cons e step s' by metis
  define R where "R = inside busy w - {#p#}"
  have w: "inside busy w = add_mset p R" using p by (simp add: R_def)
  with ins have w': "inside busy w' = add_mset r R" by simp
  have once: "count (add_mset p R) q \<le> 1" for q
    using inv by (simp add: mem_inv_def flip: w)
  have notp: "count R p = 0" using once [of p] by simp
  have le: "count R q \<le> 1" for q using once [of q] by (cases "p = q") simp_all
  have live: "q \<in> live st - {p}" if "q \<in># R" for q
  proof -
    have "q \<noteq> p" using that notp by (auto simp: count_eq_zero_iff)
    moreover have "q \<in># inside busy w" using that w by simp
    ultimately show ?thesis using inv by (simp add: mem_inv_def link_payload_def)
  qed
  have same: "heap st' q = heap st q" "q \<in> live st'" if "q \<in># R" for q
    using live [OF that] rep by (auto simp: replaces_def)
  have new: "r \<notin># R" using live rep by (auto simp: replaces_def)
  have link: "link_payload st' r" using rep by (auto simp: replaces_def link_payload_def)
  have others: "link_payload st' q" if "q \<in># R" for q
  proof -
    have "q \<in># inside busy w" using that w by simp
    then have "link_payload st q" using inv by (simp add: mem_inv_def)
    with same [OF that] show ?thesis by (simp add: link_payload_def)
  qed
  have "count R r = 0" using new by (simp add: count_eq_zero_iff)
  then have cnt: "count (inside busy w') q \<le> 1" for q
    using le [of q] unfolding w' by (cases "q = r") simp_all
  have seenR: "image_mset (seen st') R = image_mset (seen st) R"
    by (rule image_mset_cong) (simp add: same seen_def)
  have seen: "seen st' r = seen st p" using rep by (simp add: replaces_def seen_def Let_def)
  have "\<forall>q \<in># inside busy w'. link_payload st' q" unfolding w' using link others by simp
  moreover have "\<forall>e \<in> set (mw_peq w'). snd e = BEGIN_REQ" using inv rest(2) Cons by (simp add: mem_inv_def)
  moreover have "m_outstanding w' = of_nat (size (issued busy w'))" using inv rest by (simp add: mem_inv_def)
  ultimately have "mem_inv busy (st', w')" using wf cnt by (auto simp only: mem_inv_def fst_conv snd_conv)
  moreover have "seen_inside busy (st', w') = seen_inside busy (st, w)"
    unfolding seen_inside_def fst_conv snd_conv w w' using seenR seen by simp
  ultimately show ?thesis by (simp add: mem_step_ok_def s')
qed

lemma negedge_step:
  assumes inv: "mem_inv busy (st, w)" and step: "mw_clock_negedge (st, w) = ((st', w'), os)"
  shows "mem_step_ok busy (st, w) (map (\<lambda>p. Answered (seen st' p)) (tokens answers os)) (st', w')"
proof -
  note f = negedge_inside [OF step]
  have io: "tokens asked (map (\<lambda>p. Answered (seen st p)) ps) = []"
    "tokens answered (map (\<lambda>p. Answered (seen st p)) ps) = map (seen st) ps" for ps
    by (induction ps) simp_all
  have wf: "\<exists>fs. store_wf fs st'" using inv f(7) by (auto simp: mem_inv_def)
  have link: "\<forall>p \<in># inside busy w'. link_payload st' p"
    using inv by (simp add: mem_inv_def f(2) [of busy] f(6))
  have cnt: "count (inside busy w') p \<le> 1" for p
  proof -
    have "count (mset (tokens answers os) + inside busy w') p \<le> 1"
      using inv unfolding f(2) [of busy, symmetric] by (simp add: mem_inv_def)
    then show ?thesis by simp
  qed
  have "m_outstanding w' = of_nat (size (issued busy w'))"
    using inv by (simp add: mem_inv_def f(1,4))
  then have "mem_inv busy (st', w')" using wf link cnt inv f(3) by (simp add: mem_inv_def)
  moreover have "seen_inside busy (st, w) = image_mset (seen st) (mset (tokens answers os)) + seen_inside busy (st', w')"
    by (simp add: seen_inside_def f(2,5))
  ultimately show ?thesis by (simp add: mem_step_ok_def io f(5))
qed

lemma dram_step:
  assumes cons: "conserving send tick busy" and inv: "mem_inv busy (st, w)"
    and step: "simulate_dram send tick st now ac w = Inr (w', stop)"
  shows "mem_step_ok busy (st, w) [] (st, w')"
  using inv dram_inside [OF cons step] by (simp add: mem_step_ok_def mem_inv_def seen_inside_def)

lemma other_step:
  assumes inv: "mem_inv busy (st, w)" and ok: "event_ok busy (Mem_other st') (st, w)"
  shows "mem_step_ok busy (st, w) [] (st', w)"
proof -
  have "image_mset (seen st') (inside busy w) = image_mset (seen st) (inside busy w)"
    by (rule image_mset_cong) (use ok in simp)
  with inv ok show ?thesis by (simp add: mem_step_ok_def mem_inv_def seen_inside_def)
qed

lemma mem_sys_step:
  assumes cons: "conserving send tick busy" and inv: "mem_inv busy s" and ok: "event_ok busy e s"
    and step: "mem_sys send tick e s = Inr (s', os)"
  shows "mem_step_ok busy s os s'"
proof -
  obtain st w where s: "s = (st, w)" by (cases s)
  note inv = inv [unfolded s] and ok = ok [unfolded s] and step = step [unfolded s]
  have "mem_step_ok busy (st, w) os s'"
  proof (cases e)
    case (Mem_call p)
    with step call_step [OF inv] ok show ?thesis by auto
  next
    case (Mem_fire mems)
    with step fire_step [OF inv] show ?thesis by auto
  next
    case Mem_posedge
    with step inv show ?thesis
      by (auto simp: mem_step_ok_def mem_inv_def seen_inside_def posedge_inside)
  next
    case Mem_negedge
    obtain st' w' cs where n: "mw_clock_negedge (st, w) = ((st', w'), cs)" by (metis prod.exhaust)
    with Mem_negedge step negedge_step [OF inv n] show ?thesis by auto
  next
    case (Mem_dram now ac)
    with step dram_step [OF cons inv] show ?thesis by auto
  next
    case (Mem_other st')
    with step other_step [OF inv] ok show ?thesis by auto
  qed
  then show ?thesis by (simp add: s)
qed

lemma conserved_chain:
  fixes a b a' b' x y z :: "'x multiset"
  assumes "x + a = b + y" and "y + a' = b' + z"
  shows "x + (a + a') = b + b' + z"
  using assms by (metis add.assoc)

lemma mem_sys_run:
  assumes cons: "conserving send tick busy"
  shows "mem_inv busy s \<Longrightarrow> events_ok send tick busy es s \<Longrightarrow> run_events (mem_sys send tick) es s = Inr (s', os) \<Longrightarrow>
    mem_step_ok busy s os s'"
proof (induction es arbitrary: s os)
  case Nil
  then show ?case by (simp add: mem_step_ok_def)
next
  case (Cons e es)
  then obtain s1 os1 os2 where one: "mem_sys send tick e s = Inr (s1, os1)"
    and rest: "run_events (mem_sys send tick) es s1 = Inr (s', os2)" and os: "os = os1 @ os2"
    by auto
  have ok: "event_ok busy e s" "events_ok send tick busy es s1" using Cons.prems(2) one by simp_all
  have first: "mem_step_ok busy s os1 s1" by (rule mem_sys_step [OF cons Cons.prems(1) ok(1) one])
  then have "mem_inv busy s1" by (simp add: mem_step_ok_def)
  from Cons.IH [OF this ok(2) rest] have second: "mem_step_ok busy s1 os2 s'" .
  have "seen_inside busy s + mset (tokens asked os1) = mset (tokens answered os1) + seen_inside busy s1"
    "seen_inside busy s1 + mset (tokens asked os2) = mset (tokens answered os2) + seen_inside busy s'"
    using first second by (simp_all add: mem_step_ok_def)
  then have "seen_inside busy s + mset (tokens asked os) = mset (tokens answered os) + seen_inside busy s'"
    unfolding os tokens_simps(3) mset_append by (rule conserved_chain)
  with second show ?case by (simp add: mem_step_ok_def)
qed

text \<open>
  C9. For every memory system that completes each accepted request once, and every run of a fresh device that does not end in an
  error, whatever the other modules do with the rest of the store: the answers, with the requests that are still
  inside, are exactly the requests, each once, with its command, address, length and number, although the payload that answers is
  another one than the payload that asked; and the counter \<open>m_outstanding\<close> is the number of requests that
  the memory thread has issued and the device has not answered (modulo 2^32).
\<close>

theorem mem_answers_requests:
  assumes "conserving send tick busy" and "busy m = {#}" and "store_wf fs st"
    and "events_ok send tick busy es (st, mw_init i k sz nm g (bridge_init ok m))"
    and "run_events (mem_sys send tick) es (st, mw_init i k sz nm g (bridge_init ok m)) = Inr ((st', w), os)"
  shows "mset (tokens asked os) = mset (tokens answered os) + image_mset (seen st') (inside busy w) \<and>
    m_outstanding w = of_nat (size (issued busy w))"
proof -
  have empty: "inside busy (mw_init i k sz nm g (bridge_init ok m)) = {#}" "issued busy (mw_init i k sz nm g (bridge_init ok m)) = {#}"
    using assms(2) by (simp_all add: inside_def issued_def mw_init_def in_bridge_def bridge_init_def)
  have "mem_inv busy (st, mw_init i k sz nm g (bridge_init ok m))"
    using assms(3) empty by (auto simp: mem_inv_def) (simp_all add: mw_init_def)
  from mem_sys_run [OF assms(1) this assms(4,5)] show ?thesis
    by (simp add: mem_step_ok_def mem_inv_def seen_inside_def empty)
qed

section \<open>A run\<close>

text \<open>One read, from the call of the link to the answer, with a memory that completes a request in each cycle.\<close>

definition one_read :: store where "one_read = link_store (sample_gp TLM_READ_COMMAND 4)"

definition one_read_events :: "mem_event list" where
  "one_read_events = [Mem_call 0, Mem_fire (\<lambda>_. (\<lambda>_. 0, 0)), Mem_posedge, Mem_dram 0 1, Mem_dram 0 1, Mem_negedge]"

lemma one_read_runs:
  "\<exists>st' w. run_events (mem_sys (fifo_send 4) fifo_tick) one_read_events
      (one_read, mw_init 0 1 64 [] 0 (bridge_init False [])) = Inr ((st', w), [Asked (seen one_read 0), Answered (seen one_read 0)])"
proof -
  let ?w = "mw_init 0 1 64 [] 0 (bridge_init False []) :: pid list mem_wrapper" and ?m = "\<lambda>_::nat. (\<lambda>_::nat. 0::byte, 0::nat)"
  have cmd: "gp_command (heap one_read 0) = TLM_READ_COMMAND" by (simp add: one_read_def link_store_ok)
  obtain st q where cb: "mw_peq_cb ?m (one_read, ?w) 0 BEGIN_REQ = Inr (st, ?w\<lparr>r_queue := r_queue ?w @ [q]\<rparr>)"
    and rep: "replaces one_read 0 st q"
    using mem_accepts_read [OF link_store_ok(1,2) cmd [unfolded one_read_def], where w = ?w and mems = ?m]
    unfolding one_read_def by blast
  have q: "gp_command (heap st q) = TLM_READ_COMMAND" "seen st q = seen one_read 0"
    using rep cmd by (simp_all add: replaces_def seen_def Let_def)
  have fire: "mw_peq_fire ?m (one_read, fst (mw_nb_transport_fw ?w 0 BEGIN_REQ)) = Inr (st, ?w\<lparr>r_queue := [q]\<rparr>)"
    using cb by (simp add: mw_peq_fire_def mw_nb_transport_fw_def mw_init_def)
  show ?thesis
    using q fire
    by (simp add: one_read_events_def mw_clock_posedge_def mw_init_def simulate_dram_def mw_complete_def getCompletedCommand_def
        bridge_init_def mw_issue_def stamp_ns_def Let_def ClockTick_def fifo_send_def fifo_tick_def sendCommand_def
        bridge_request_def update_trans_delay_def mw_clock_negedge_def backward_trans_def)
qed

lemma own_events_ok:
  "list_all (\<lambda>e. \<not> (\<exists>p. e = Mem_call p) \<and> \<not> (\<exists>st'. e = Mem_other st')) es \<Longrightarrow> events_ok send tick busy es s"
proof (induction es arbitrary: s)
  case (Cons e es)
  then have "event_ok busy e s" for s by (cases "(busy, e, s)" rule: event_ok.cases) simp_all
  with Cons show ?case by (simp split: sum.split)
qed simp

lemma one_read_ok: "events_ok (fifo_send 4) fifo_tick mset one_read_events (one_read, mw_init 0 1 64 [] 0 (bridge_init False []))"
proof -
  have "inside mset (mw_init 0 1 64 [] 0 (bridge_init False []) :: pid list mem_wrapper) = {#}"
    by (simp add: inside_def issued_def mw_init_def in_bridge_def bridge_init_def)
  moreover have "link_payload one_read 0" by (simp add: one_read_def link_store_ok)
  ultimately show ?thesis
    unfolding one_read_events_def by (subst events_ok.simps(2)) (auto intro: own_events_ok split: sum.split)
qed

theorem mem_answers_requests_witness:
  "\<exists>st' w. run_events (mem_sys (fifo_send 4) fifo_tick) one_read_events (one_read, mw_init 0 1 64 [] 0 (bridge_init False [])) =
      Inr ((st', w), [Asked (seen one_read 0), Answered (seen one_read 0)]) \<and>
    {#seen one_read 0#} = {#seen one_read 0#} + image_mset (seen st') (inside mset w) \<and>
    m_outstanding w = of_nat (size (issued mset w))"
proof -
  obtain st' w where run: "run_events (mem_sys (fifo_send 4) fifo_tick) one_read_events
      (one_read, mw_init 0 1 64 [] 0 (bridge_init False [])) = Inr ((st', w), [Asked (seen one_read 0), Answered (seen one_read 0)])"
    using one_read_runs by blast
  have "mset [] = {#}" "store_wf (\<lambda>_. []) one_read" by (simp_all add: one_read_def link_store_ok)
  from mem_answers_requests [OF fifo_conserving this one_read_ok run] run show ?thesis
    by (intro exI [of _ st'] exI [of _ w]) simp
qed

end
