(* ===== verification/Update_List.thy ===== *)
theory Update_List
  imports Prelude
begin

text \<open>
  How a primitive channel asks for the update phase (\<open>sysc/communication/sc_prim_channel.h\<close>). The
  list of the channels to update is threaded through the channels themselves: a channel that
  is in the list points to the next one, and the last one points to a terminator that
  is not null, so that a null pointer means that the channel is not in the list. The walk through the
  list in the update phase is code of the compiled kernel and a parameter here.
\<close>

section \<open>State and operations\<close>

text \<open>
  A channel is its address; \<open>None\<close> is the null pointer. \<open>update_next\<close> is the member
  \<open>m_update_next_p\<close> of each channel, the other two are members of the registry.
\<close>

type_synonym prim_channel = nat

record registry =
  update_next :: "prim_channel \<Rightarrow> prim_channel option"
  update_list_p :: "prim_channel option"
  update_list_end :: "prim_channel option"

definition update_requested :: "prim_channel \<Rightarrow> registry \<Rightarrow> bool" where
  "update_requested c r \<longleftrightarrow> update_next r c \<noteq> None"

definition registry_request_update :: "prim_channel \<Rightarrow> registry \<Rightarrow> registry" where
  "registry_request_update c r =
     r\<lparr>update_next := (update_next r)(c := update_list_p r), update_list_p := Some c\<rparr>"

definition request_update :: "prim_channel \<Rightarrow> registry \<Rightarrow> registry" where
  "request_update c r = (if update_next r c = None then registry_request_update c r else r)"

text \<open>The requests of other operating system threads are in a list of their own.\<close>

definition pending_updates :: "bool \<Rightarrow> registry \<Rightarrow> bool" where
  "pending_updates pending_async_updates r \<longleftrightarrow> update_list_p r \<noteq> update_list_end r \<or> pending_async_updates"

text \<open>\<open>sc_prim_channel::perform_update\<close>, with the channel's own \<open>update\<close> as an argument.\<close>

definition perform_update :: "('s \<times> registry \<Rightarrow> 's \<times> registry) \<Rightarrow> prim_channel \<Rightarrow> 's \<times> registry \<Rightarrow> 's \<times> registry" where
  "perform_update update c sr = (case update sr of (s, r) \<Rightarrow> (s, r\<lparr>update_next := (update_next r)(c := None)\<rparr>))"

section \<open>The list in the channels\<close>

primrec update_path :: "(prim_channel \<Rightarrow> prim_channel option) \<Rightarrow> prim_channel option \<Rightarrow> prim_channel list \<Rightarrow> prim_channel option \<Rightarrow> bool" where
  "update_path nx p [] e \<longleftrightarrow> p = e"
| "update_path nx p (c # cs) e \<longleftrightarrow> p = Some c \<and> update_path nx (nx c) cs e"

lemma update_path_upd: "c \<notin> set cs \<Longrightarrow> update_path (nx(c := x)) p cs e = update_path nx p cs e"
  by (induction cs arbitrary: p) auto

lemma update_path_unique:
  "update_path nx p cs e \<Longrightarrow> update_path nx p ds e \<Longrightarrow> e \<notin> Some ` set cs \<Longrightarrow> e \<notin> Some ` set ds \<Longrightarrow> cs = ds"
proof (induction cs arbitrary: p ds)
  case Nil
  then show ?case by (cases ds) auto
next
  case (Cons c cs)
  then obtain ds' where "ds = c # ds'" by (cases ds) auto
  with Cons show ?case by auto
qed

text \<open>The registry represents \<open>cs\<close>: the channels in the list, the latest request first.\<close>

definition update_rep :: "prim_channel \<Rightarrow> registry \<Rightarrow> prim_channel list \<Rightarrow> bool" where
  "update_rep e r cs \<longleftrightarrow> update_list_end r = Some e \<and> update_path (update_next r) (update_list_p r) cs (Some e) \<and>
     distinct cs \<and> e \<notin> set cs \<and> (\<forall>c. update_next r c \<noteq> None \<longleftrightarrow> c \<in> set cs)"

lemma update_rep_None: "update_rep e r cs \<Longrightarrow> update_next r c = None \<longleftrightarrow> c \<notin> set cs"
  unfolding update_rep_def by blast

lemma update_rep_request:
  assumes "update_rep e r cs" and "c \<noteq> e"
  shows "update_rep e (request_update c r) (if c \<in> set cs then cs else c # cs)"
proof (cases "c \<in> set cs")
  case True
  with assms obtain y where "update_next r c = Some y" by (auto simp: update_rep_def)
  with assms True show ?thesis by (simp add: request_update_def)
next
  case False
  with assms have "update_next r c = None" by (simp add: update_rep_None)
  moreover have "update_list_p r \<noteq> None" using assms by (cases cs) (auto simp: update_rep_def)
  ultimately show ?thesis
    using assms False by (auto simp: request_update_def registry_request_update_def update_rep_def update_path_upd)
qed

lemma update_rep_pending:
  assumes "update_rep e r cs"
  shows "pending_updates a r \<longleftrightarrow> cs \<noteq> [] \<or> a"
  using assms by (cases cs) (auto simp: update_rep_def pending_updates_def)

section \<open>Runs\<close>

datatype update_op = Request prim_channel | Update_phase

text \<open>The channels that asked since the last update phase, the latest first, each once.\<close>

fun wanted :: "update_op list \<Rightarrow> prim_channel list \<Rightarrow> prim_channel list" where
  "wanted [] cs = cs"
| "wanted (Request c # ops) cs = wanted ops (if c \<in> set cs then cs else c # cs)"
| "wanted (Update_phase # ops) cs = wanted ops []"

fun update_run :: "(registry \<Rightarrow> registry) \<Rightarrow> update_op list \<Rightarrow> registry \<Rightarrow> registry" where
  "update_run phase [] r = r"
| "update_run phase (Request c # ops) r = update_run phase ops (request_update c r)"
| "update_run phase (Update_phase # ops) r = update_run phase ops (phase r)"

text \<open>
  What the kernel documents of the update phase: it calls \<open>perform_update\<close> once for each
  channel in the list (the channels' own \<open>update\<close> makes no request here) and leaves an empty list.
  \<open>chs\<close> are the channels of the design, as in the vector \<open>m_prim_channel_vec\<close>.
\<close>

definition phase_law :: "prim_channel list \<Rightarrow> (registry \<Rightarrow> registry) \<Rightarrow> bool" where
  "phase_law chs phase \<longleftrightarrow> (\<forall>r cs e. update_list_end r = Some e \<longrightarrow> set cs \<subseteq> set chs - {e} \<longrightarrow> distinct cs \<longrightarrow>
     update_path (update_next r) (update_list_p r) cs (Some e) \<longrightarrow>
     phase r = (snd (fold (perform_update (\<lambda>sr. sr)) cs ((), r)))\<lparr>update_list_p := Some e\<rparr>)"

definition registry_new :: "prim_channel \<Rightarrow> registry" where
  "registry_new e = \<lparr>update_next = (\<lambda>_. None), update_list_p = Some e, update_list_end = Some e\<rparr>"

lemma perform_all:
  "snd (fold (perform_update (\<lambda>sr. sr)) cs ((), r)) =
   r\<lparr>update_next := \<lambda>c. if c \<in> set cs then None else update_next r c\<rparr>"
  by (induction cs arbitrary: r) (auto simp: perform_update_def fun_eq_iff)

lemma update_rep_phase:
  assumes law: "phase_law chs phase" and rep: "update_rep e r cs" and chs: "set cs \<subseteq> set chs"
  shows "update_rep e (phase r) []"
proof -
  have r: "update_list_end r = Some e" "set cs \<subseteq> set chs - {e}" "distinct cs"
    "update_path (update_next r) (update_list_p r) cs (Some e)"
    using rep chs by (auto simp: update_rep_def)
  then have "phase r = (snd (fold (perform_update (\<lambda>sr. sr)) cs ((), r)))\<lparr>update_list_p := Some e\<rparr>"
    using law by (simp add: phase_law_def)
  moreover have "update_next r c = None" if "c \<notin> set cs" for c
    using rep that by (simp add: update_rep_None)
  ultimately show ?thesis using r(1) by (simp add: perform_all update_rep_def)
qed

fun requests_in :: "prim_channel list \<Rightarrow> update_op list \<Rightarrow> bool" where
  "requests_in chs [] \<longleftrightarrow> True"
| "requests_in chs (Request c # ops) \<longleftrightarrow> c \<in> set chs \<and> requests_in chs ops"
| "requests_in chs (Update_phase # ops) \<longleftrightarrow> requests_in chs ops"

lemma update_run_rep:
  "phase_law chs phase \<Longrightarrow> e \<notin> set chs \<Longrightarrow> update_rep e r cs \<Longrightarrow> set cs \<subseteq> set chs \<Longrightarrow> requests_in chs ops \<Longrightarrow>
   update_rep e (update_run phase ops r) (wanted ops cs)"
proof (induction ops arbitrary: r cs)
  case (Cons x ops)
  show ?case
  proof (cases x)
    case (Request c)
    with Cons.prems have "c \<noteq> e" "c \<in> set chs" "requests_in chs ops" by auto
    with Cons.IH [OF Cons.prems(1,2) update_rep_request [OF Cons.prems(3)]] Cons.prems(4) Request
    show ?thesis by simp
  next
    case Update_phase
    with Cons.IH [OF Cons.prems(1,2) update_rep_phase [OF Cons.prems(1,3,4)]] Cons.prems(5)
    show ?thesis by simp
  qed
qed simp

text \<open>
  C26. After any sequence of requests and update phases, the list that is threaded through the channels
  holds exactly the channels that asked since the last phase, the latest first and each once however often it
  asked; a channel knows that it is in the list, and the registry knows whether the list is empty.
\<close>

theorem update_list_exact:
  assumes "phase_law chs phase" and "e \<notin> set chs" and "requests_in chs ops"
  shows "\<exists>r. r = update_run phase ops (registry_new e) \<and>
    update_path (update_next r) (update_list_p r) (wanted ops []) (update_list_end r) \<and> distinct (wanted ops []) \<and>
    (\<forall>c. update_requested c r = (c \<in> set (wanted ops []))) \<and> pending_updates False r = (wanted ops [] \<noteq> [])"
proof -
  have "update_rep e (registry_new e) []" by (simp add: update_rep_def registry_new_def)
  from update_run_rep [OF assms(1,2) this _ assms(3)]
  have "update_rep e (update_run phase ops (registry_new e)) (wanted ops [])" by simp
  with update_rep_pending [OF this, of False] show ?thesis
    by (simp add: update_rep_def update_requested_def)
qed

text \<open>An update phase that follows the list, for at most \<open>n\<close> channels.\<close>

fun walk :: "nat \<Rightarrow> registry \<Rightarrow> registry" where
  "walk 0 r = r"
| "walk (Suc n) r =
     (if update_list_p r = update_list_end r then r
      else case update_list_p r of None \<Rightarrow> r
        | Some c \<Rightarrow> walk n (snd (perform_update (\<lambda>sr. sr) c ((), r\<lparr>update_list_p := update_next r c\<rparr>))))"

lemma walk_path:
  assumes "update_list_end r = Some e"
  shows "update_path (update_next r) (update_list_p r) cs (Some e) \<Longrightarrow> e \<notin> set cs \<Longrightarrow> distinct cs \<Longrightarrow> length cs \<le> n \<Longrightarrow>
    walk n r = (snd (fold (perform_update (\<lambda>sr. sr)) cs ((), r)))\<lparr>update_list_p := Some e\<rparr>"
  using assms
proof (induction n arbitrary: cs r)
  case 0
  then show ?case by simp
next
  case (Suc n)
  show ?case
  proof (cases cs)
    case Nil
    with Suc.prems show ?thesis by simp
  next
    case (Cons c ds)
    let ?r = "snd (perform_update (\<lambda>sr. sr) c ((), r\<lparr>update_list_p := update_next r c\<rparr>))"
    have "update_path (update_next ?r) (update_list_p ?r) ds (Some e)" "update_list_end ?r = Some e"
      using Suc.prems Cons by (simp_all add: perform_update_def update_path_upd)
    from Suc.IH [OF this(1) _ _ _ this(2)] Suc.prems Cons
    have "walk n ?r = (snd (fold (perform_update (\<lambda>sr. sr)) ds ((), ?r)))\<lparr>update_list_p := Some e\<rparr>" by simp
    moreover have "walk (Suc n) r = walk n ?r" using Suc.prems Cons by auto
    ultimately show ?thesis
      using Cons by (simp only: perform_all) (auto simp: perform_all perform_update_def fun_eq_iff)
  qed
qed

lemma walk_law: "phase_law chs (walk (length chs))"
proof -
  have "length cs \<le> length chs" if "set cs \<subseteq> set chs - {e}" "distinct cs" for cs :: "prim_channel list" and e
  proof -
    have "set cs \<subseteq> set chs" using that(1) by blast
    then have "card (set cs) \<le> card (set chs)" by (rule card_mono [OF finite_set])
    then show ?thesis using that(2) card_length [of chs] by (simp add: distinct_card)
  qed
  moreover have "e \<notin> set cs" if "set cs \<subseteq> set chs - {e}" for cs and e using that by blast
  ultimately show ?thesis using walk_path by (simp add: phase_law_def)
qed

theorem update_list_exact_witness:
  "\<exists>r. r = update_run (walk 3) [Request 1, Request 2, Update_phase, Request 3, Request 1, Request 3] (registry_new 0) \<and>
    update_path (update_next r) (update_list_p r) [1, 3] (Some 0) \<and> update_requested 1 r \<and> \<not> update_requested 2 r \<and>
    pending_updates False r"
proof -
  have "phase_law [1, 2, 3] (walk 3)" using walk_law [of "[1, 2, 3]"] by (simp add: numeral_3_eq_3)
  from update_list_exact [OF this, of 0 "[Request 1, Request 2, Update_phase, Request 3, Request 1, Request 3]"]
  show ?thesis by (simp add: registry_new_def) (simp add: request_update_def registry_request_update_def numeral_3_eq_3 perform_update_def update_requested_def pending_updates_def)
qed

text \<open>
  With a null terminator the first channel in the list would not know that it is in it: a second request
  would make it point to itself.
\<close>

lemma null_terminator_cycles:
  assumes "update_list_p r = None" and "update_next r c = None"
  shows "update_next (request_update c (request_update c r)) c = Some c"
  using assms by (simp add: request_update_def registry_request_update_def)

end
