(* ===== verification/Sc_Event.thy ===== *)
theory Sc_Event
  imports Sc_Time
begin

text \<open>
  Events and the part of the simulation context that they use, as far as the code is in the
  headers (\<open>sysc/kernel/sc_event.h\<close>, \<open>sc_simcontext.h\<close>). The kernel's loop and its
  priority queue of timed events are compiled code: the queue is a type of its own with its
  insertion as an argument, and what the loop does to an event that is due is a hypothesis of
  the clock.
\<close>

section \<open>State\<close>

text \<open>Events, timed notifications and processes are numbered; \<open>None\<close> is the null pointer.\<close>

datatype notify_t = NOTIFY_NONE | NOTIFY_DELTA | NOTIFY_TIMED

record sc_event =
  m_trigger_stamp :: u64
  m_notify_type :: notify_t
  m_delta_event_index :: int
  m_timed :: "nat option"
  m_methods_static :: "nat list"
  m_methods_dynamic :: "nat list"
  m_threads_static :: "nat list"
  m_threads_dynamic :: "nat list"

record sc_event_timed =
  et_event :: "nat option"
  et_notify_time :: sc_time

datatype sc_status =
    SC_ELABORATION | SC_BEFORE_END_OF_ELABORATION | SC_END_OF_ELABORATION | SC_START_OF_SIMULATION
  | SC_RUNNING | SC_PAUSED | SC_SUSPENDED | SC_STOPPED | SC_END_OF_SIMULATION

datatype execution_phase = Phase_initialize | Phase_evaluate | Phase_update | Phase_notify

record 'q simcontext =
  k_event :: "nat \<Rightarrow> sc_event"
  k_timed :: "nat \<Rightarrow> sc_event_timed option"
  k_fresh :: nat
  m_delta_events :: "nat list"
  m_timed_events :: 'q
  m_curr_time :: sc_time
  m_max_time :: sc_time
  m_change_stamp :: u64
  m_delta_count :: u64
  m_initial_delta_count :: u64
  m_execution_phase :: execution_phase
  m_ready_to_simulate :: bool
  m_error :: "nat option"
  m_forced_stop :: bool
  m_simulation_status :: sc_status
  m_in_simulator_control :: bool
  m_suspend :: int
  m_next_proc_id :: u32
  m_current_writer :: "nat option"

section \<open>The simulation context\<close>

definition sim_get_status :: "'q simcontext \<Rightarrow> sc_status" where
  "sim_get_status k =
     (if m_simulation_status k \<noteq> SC_RUNNING then m_simulation_status k
      else if m_in_simulator_control k then (if m_suspend k \<noteq> 0 then SC_SUSPENDED else SC_RUNNING) else SC_PAUSED)"

text \<open>0 is \<open>SC_SIM_OK\<close>, 1 \<open>SC_SIM_ERROR\<close>, 2 \<open>SC_SIM_USER_STOP\<close>.\<close>

definition sim_status :: "'q simcontext \<Rightarrow> int" where
  "sim_status k = (if m_error k \<noteq> None then 1 else if m_forced_stop k then 2 else 0)"

definition next_proc_id :: "'q simcontext \<Rightarrow> 'q simcontext \<times> u32" where
  "next_proc_id k = (k\<lparr>m_next_proc_id := m_next_proc_id k + 1\<rparr>, m_next_proc_id k + 1)"

definition max_time :: "'q simcontext \<Rightarrow> 'q simcontext \<times> sc_time" where
  "max_time k =
     (let k1 = (if sc_eq (m_max_time k) sc_zero then k\<lparr>m_max_time := Sc_time (NOT 0)\<rparr> else k) in (k1, m_max_time k1))"

definition delta_count_at_current_time :: "'q simcontext \<Rightarrow> u64" where
  "delta_count_at_current_time k = m_delta_count k - m_initial_delta_count k"

definition event_occurred :: "u64 \<Rightarrow> 'q simcontext \<Rightarrow> bool" where
  "event_occurred last_change_stamp k \<longleftrightarrow> m_change_stamp k = last_change_stamp"

definition evaluation_phase :: "'q simcontext \<Rightarrow> bool" where
  "evaluation_phase k \<longleftrightarrow> m_execution_phase k = Phase_evaluate \<and> m_ready_to_simulate k"

definition update_phase :: "'q simcontext \<Rightarrow> bool" where "update_phase k \<longleftrightarrow> m_execution_phase k = Phase_update"
definition notify_phase :: "'q simcontext \<Rightarrow> bool" where "notify_phase k \<longleftrightarrow> m_execution_phase k = Phase_notify"

text \<open>The second result is the report that is deleted.\<close>

definition set_error :: "nat option \<Rightarrow> 'q simcontext \<Rightarrow> 'q simcontext \<times> nat option" where
  "set_error err k = (k\<lparr>m_error := err\<rparr>, m_error k)"

definition get_error :: "'q simcontext \<Rightarrow> bool" where "get_error k \<longleftrightarrow> m_error k \<noteq> None"

definition add_delta_event :: "nat \<Rightarrow> 'q simcontext \<Rightarrow> 'q simcontext \<times> int" where
  "add_delta_event e k =
     (let k1 = k\<lparr>m_delta_events := m_delta_events k @ [e]\<rparr>
      in (k1, sint (of_nat (length (m_delta_events k1) - 1) :: u32)))"

definition add_timed_event :: "(nat \<Rightarrow> 'q \<Rightarrow> 'q) \<Rightarrow> nat \<Rightarrow> 'q simcontext \<Rightarrow> 'q simcontext" where
  "add_timed_event ins et k = k\<lparr>m_timed_events := ins et (m_timed_events k)\<rparr>"

section \<open>Events\<close>

definition set_event :: "nat \<Rightarrow> sc_event \<Rightarrow> 'q simcontext \<Rightarrow> 'q simcontext" where
  "set_event e v k = k\<lparr>k_event := (k_event k)(e := v)\<rparr>"

text \<open>\<open>new sc_event_timed (e, t)\<close> and its destructor.\<close>

definition event_timed_new :: "nat \<Rightarrow> sc_time \<Rightarrow> 'q simcontext \<Rightarrow> 'q simcontext \<times> nat" where
  "event_timed_new e t k =
     (k\<lparr>k_timed := (k_timed k)(k_fresh k \<mapsto> \<lparr>et_event = Some e, et_notify_time = t\<rparr>), k_fresh := k_fresh k + 1\<rparr>, k_fresh k)"

definition event_timed_delete :: "nat \<Rightarrow> 'q simcontext \<Rightarrow> sim_error + 'q simcontext" where
  "event_timed_delete et k =
     (case k_timed k et of None \<Rightarrow> Inl Null_pointer
      | Some x \<Rightarrow>
          (let k1 = (case et_event x of None \<Rightarrow> k | Some e \<Rightarrow> set_event e (k_event k e\<lparr>m_timed := None\<rparr>) k)
           in Inr (k1\<lparr>k_timed := (k_timed k1)(et := None)\<rparr>)))"

definition notify_internal :: "(nat \<Rightarrow> 'q \<Rightarrow> 'q) \<Rightarrow> nat \<Rightarrow> sc_time \<Rightarrow> 'q simcontext \<Rightarrow> 'q simcontext" where
  "notify_internal ins e t k =
     (if sc_eq t sc_zero
      then (case add_delta_event e k of (k1, i) \<Rightarrow>
              set_event e (k_event k1 e\<lparr>m_delta_event_index := i, m_notify_type := NOTIFY_DELTA\<rparr>) k1)
      else (case event_timed_new e (sc_plus (m_curr_time k) t) k of (k1, et) \<Rightarrow>
              let k2 = add_timed_event ins et k1
              in set_event e (k_event k2 e\<lparr>m_timed := Some et, m_notify_type := NOTIFY_TIMED\<rparr>) k2))"

text \<open>An error report is thrown unless the user has suppressed it.\<close>

definition notify_next_delta :: "bool \<Rightarrow> nat \<Rightarrow> 'q simcontext \<Rightarrow> sim_error + 'q simcontext" where
  "notify_next_delta suppressed e k =
     (if m_notify_type (k_event k e) \<noteq> NOTIFY_NONE \<and> \<not> suppressed then Inl Exception_thrown
      else (case add_delta_event e k of (k1, i) \<Rightarrow>
              Inr (set_event e (k_event k1 e\<lparr>m_delta_event_index := i, m_notify_type := NOTIFY_DELTA\<rparr>) k1)))"

definition add_static_method :: "nat \<Rightarrow> sc_event \<Rightarrow> sc_event" where
  "add_static_method h v = v\<lparr>m_methods_static := m_methods_static v @ [h]\<rparr>"

definition add_static_thread :: "nat \<Rightarrow> sc_event \<Rightarrow> sc_event" where
  "add_static_thread h v = v\<lparr>m_threads_static := m_threads_static v @ [h]\<rparr>"

definition add_dynamic_method :: "nat \<Rightarrow> sc_event \<Rightarrow> sc_event" where
  "add_dynamic_method h v = v\<lparr>m_methods_dynamic := m_methods_dynamic v @ [h]\<rparr>"

definition add_dynamic_thread :: "nat \<Rightarrow> sc_event \<Rightarrow> sc_event" where
  "add_dynamic_thread h v = v\<lparr>m_threads_dynamic := m_threads_dynamic v @ [h]\<rparr>"

section \<open>Lemmas\<close>

lemma set_event_fields [simp]:
  "k_event (set_event e v k) = (k_event k)(e := v)"
  "k_timed (set_event e v k) = k_timed k"
  "k_fresh (set_event e v k) = k_fresh k"
  "m_curr_time (set_event e v k) = m_curr_time k"
  "m_timed_events (set_event e v k) = m_timed_events k"
  "m_delta_events (set_event e v k) = m_delta_events k"
  by (simp_all add: set_event_def)

text \<open>A notification for a later time: the event is due exactly once more, after the given delay.\<close>

lemma notify_internal_timed:
  assumes "sc_value t \<noteq> 0"
  shows "k_event (notify_internal ins e t k) =
      (k_event k)(e := k_event k e\<lparr>m_timed := Some (k_fresh k), m_notify_type := NOTIFY_TIMED\<rparr>)"
    and "k_timed (notify_internal ins e t k) =
      (k_timed k)(k_fresh k \<mapsto> \<lparr>et_event = Some e, et_notify_time = sc_plus (m_curr_time k) t\<rparr>)"
    and "k_fresh (notify_internal ins e t k) = k_fresh k + 1"
    and "m_curr_time (notify_internal ins e t k) = m_curr_time k"
    and "m_timed_events (notify_internal ins e t k) = ins (k_fresh k) (m_timed_events k)"
    and "m_delta_events (notify_internal ins e t k) = m_delta_events k"
  using assms by (simp_all add: notify_internal_def event_timed_new_def add_timed_event_def sc_eq_def sc_zero_def)

text \<open>The event forgets an earlier notification, which stays in the queue: the caller must know that none is pending.\<close>

lemma notify_internal_twice:
  assumes "sc_value t \<noteq> 0" and "sc_value t' \<noteq> 0"
  shows "m_timed_events (notify_internal ins e t' (notify_internal ins e t k)) =
      ins (Suc (k_fresh k)) (ins (k_fresh k) (m_timed_events k)) \<and>
    m_timed (k_event (notify_internal ins e t' (notify_internal ins e t k)) e) = Some (Suc (k_fresh k))"
  using assms by (simp add: notify_internal_timed)

lemma delete_new:
  "ebind (event_timed_delete (snd (event_timed_new e t k)) (fst (event_timed_new e t k)))
     (\<lambda>k1. Inr (m_timed (k_event k1 e), k_timed k1 (k_fresh k))) = Inr (None, None)"
  by (simp add: event_timed_new_def event_timed_delete_def)

end
