(* ===== verification/Sc_Signal.thy ===== *)
theory Sc_Signal
  imports Update_List Sc_Event
begin

text \<open>
  Signals (\<open>sysc/communication/sc_signal.h\<close> and \<open>sc_writer_policy.h\<close>): a value that is written
  in the evaluation phase becomes visible in the update phase, and the writer policy reports two
  processes that write one signal. The type-agnostic part of the update (the change event and
  the change stamp) and the report are code of the compiled kernel and arguments here.
\<close>

section \<open>State\<close>

datatype sc_writer_policy = SC_ONE_WRITER | SC_MANY_WRITERS | SC_UNCHECKED_WRITERS

text \<open>\<open>sig_base\<close> is the part of the class \<open>sc_signal_channel\<close>; \<open>sig_id\<close> is the channel's address.\<close>

record ('v, 'b) sc_signal =
  sig_id :: prim_channel
  sig_base :: 'b
  sig_policy :: sc_writer_policy
  m_delta_only :: bool
  m_writer_p :: "nat option"
  m_cur_val :: 'v
  m_new_val :: 'v

text \<open>The constructors: the policy for many writers checks within a delta cycle only.\<close>

definition signal_new :: "prim_channel \<Rightarrow> 'b \<Rightarrow> sc_writer_policy \<Rightarrow> bool \<Rightarrow> 'v \<Rightarrow> ('v, 'b) sc_signal" where
  "signal_new c b pol only_delta v =
     \<lparr>sig_id = c, sig_base = b, sig_policy = pol, m_delta_only = (pol = SC_MANY_WRITERS \<or> only_delta),
      m_writer_p = None, m_cur_val = v, m_new_val = v\<rparr>"

section \<open>Writer policies\<close>

text \<open>
  \<open>writer\<close> is the current process, or null outside of all processes; \<open>goes_on\<close> is what the report of an
  invalid writer does: it throws, or returns when the user has suppressed the error.
\<close>

definition policy_check_write :: "(nat \<Rightarrow> nat \<Rightarrow> bool \<Rightarrow> bool) \<Rightarrow> nat option \<Rightarrow> ('v, 'b) sc_signal \<Rightarrow>
  sim_error + ('v, 'b) sc_signal" where
  "policy_check_write goes_on writer s =
     (if sig_policy s = SC_UNCHECKED_WRITERS then Inr s
      else case m_writer_p s of
        None \<Rightarrow> Inr (s\<lparr>m_writer_p := writer\<rparr>)
      | Some p \<Rightarrow> (case writer of
          None \<Rightarrow> Inr s
        | Some w \<Rightarrow>
            if p \<noteq> w
            then (if goes_on p w (m_delta_only s) then Inr (s\<lparr>m_writer_p := Some w\<rparr>) else Inl Exception_thrown)
            else Inr s))"

definition policy_needs_update :: "('v, 'b) sc_signal \<Rightarrow> bool" where
  "policy_needs_update s \<longleftrightarrow> (case sig_policy s of
     SC_ONE_WRITER \<Rightarrow> m_delta_only s | SC_MANY_WRITERS \<Rightarrow> True | SC_UNCHECKED_WRITERS \<Rightarrow> False)"

definition policy_update :: "('v, 'b) sc_signal \<Rightarrow> ('v, 'b) sc_signal" where
  "policy_update s = (case sig_policy s of
     SC_ONE_WRITER \<Rightarrow> if m_delta_only s then s\<lparr>m_writer_p := None\<rparr> else s
   | SC_MANY_WRITERS \<Rightarrow> s\<lparr>m_writer_p := None\<rparr>
   | SC_UNCHECKED_WRITERS \<Rightarrow> s)"

section \<open>Reading, writing and the update\<close>

definition signal_read :: "('v, 'b) sc_signal \<Rightarrow> 'v" where "signal_read s = m_cur_val s"

definition signal_write :: "(nat \<Rightarrow> nat \<Rightarrow> bool \<Rightarrow> bool) \<Rightarrow> nat option \<times> 'v \<Rightarrow> ('v, 'b) sc_signal \<times> registry \<Rightarrow>
  sim_error + (('v, 'b) sc_signal \<times> registry)" where
  "signal_write goes_on = (\<lambda>(writer, v) (s, r).
     let value_changed = (m_new_val s \<noteq> v)
     in ebind (policy_check_write goes_on writer s) (\<lambda>s1.
       let s2 = s1\<lparr>m_new_val := v\<rparr>
       in Inr (s2, if value_changed \<or> policy_needs_update s2 then request_update (sig_id s2) r else r)))"

definition signal_do_update :: "('b \<Rightarrow> 'b) \<Rightarrow> ('v, 'b) sc_signal \<Rightarrow> ('v, 'b) sc_signal" where
  "signal_do_update base_do_update s = s\<lparr>sig_base := base_do_update (sig_base s), m_cur_val := m_new_val s\<rparr>"

definition signal_update :: "('b \<Rightarrow> 'b) \<Rightarrow> ('v, 'b) sc_signal \<Rightarrow> ('v, 'b) sc_signal" where
  "signal_update base_do_update s =
     (let s1 = policy_update s in if m_new_val s1 \<noteq> m_cur_val s1 then signal_do_update base_do_update s1 else s1)"

text \<open>\<open>sc_signal_channel::event\<close> and the edges of a signal of type \<open>bool\<close>; the base part has the change stamp.\<close>

definition signal_event :: "'q simcontext \<Rightarrow> ('v, u64) sc_signal \<Rightarrow> bool" where
  "signal_event k s = event_occurred (sig_base s) k"

definition signal_posedge :: "'q simcontext \<Rightarrow> (bool, u64) sc_signal \<Rightarrow> bool" where
  "signal_posedge k s \<longleftrightarrow> signal_event k s \<and> m_cur_val s"

definition signal_negedge :: "'q simcontext \<Rightarrow> (bool, u64) sc_signal \<Rightarrow> bool" where
  "signal_negedge k s \<longleftrightarrow> signal_event k s \<and> \<not> m_cur_val s"

section \<open>One delta cycle\<close>

text \<open>
  The writes of an evaluation phase, and the update phase, which performs the update of the
  channel when the channel asked for it.
\<close>

definition signal_cycle :: "(nat \<Rightarrow> nat \<Rightarrow> bool \<Rightarrow> bool) \<Rightarrow> ('b \<Rightarrow> 'b) \<Rightarrow> (nat option \<times> 'v) list \<Rightarrow>
  ('v, 'b) sc_signal \<times> registry \<Rightarrow> sim_error + (('v, 'b) sc_signal \<times> registry)" where
  "signal_cycle goes_on base_do_update ws sr =
     ebind (efold (signal_write goes_on) ws sr) (\<lambda>(s, r).
       Inr (if update_requested (sig_id s) r
            then perform_update (\<lambda>(s, r). (signal_update base_do_update s, r)) (sig_id s) (s, r) else (s, r)))"

text \<open>Between two delta cycles nothing is pending, and a policy that checks within a cycle has no writer.\<close>

definition signal_quiet :: "('v, 'b) sc_signal \<Rightarrow> registry \<Rightarrow> bool" where
  "signal_quiet s r \<longleftrightarrow> m_new_val s = m_cur_val s \<and> \<not> update_requested (sig_id s) r \<and> update_list_p r \<noteq> None \<and>
     (sig_policy s = SC_MANY_WRITERS \<longrightarrow> m_delta_only s) \<and> (m_delta_only s \<longrightarrow> m_writer_p s = None)"

text \<open>Two processes write the signal, in this cycle or, without \<open>m_delta_only\<close>, ever.\<close>

definition two_writers :: "nat option list \<Rightarrow> bool" where
  "two_writers ws \<longleftrightarrow> (\<exists>a \<in> set ws. \<exists>b \<in> set ws. a \<noteq> None \<and> b \<noteq> None \<and> a \<noteq> b)"

definition written_value :: "'v \<Rightarrow> (nat option \<times> 'v) list \<Rightarrow> 'v" where
  "written_value v ws = (if ws = [] then v else snd (last ws))"

section \<open>Writes of one evaluation phase\<close>

abbreviation throws :: "nat \<Rightarrow> nat \<Rightarrow> bool \<Rightarrow> bool" where "throws \<equiv> \<lambda>_ _ _. False"

definition checked_conflict :: "('v, 'b) sc_signal \<Rightarrow> nat option list \<Rightarrow> bool" where
  "checked_conflict s ws \<longleftrightarrow> sig_policy s \<noteq> SC_UNCHECKED_WRITERS \<and> two_writers (m_writer_p s # ws)"

lemma requested_request [simp]:
  "update_list_p r \<noteq> None \<Longrightarrow> update_requested c (request_update c r)"
  "update_list_p r \<noteq> None \<Longrightarrow> update_list_p (request_update c r) \<noteq> None"
  "update_requested c r \<Longrightarrow> request_update c r = r"
  by (auto simp: update_requested_def request_update_def registry_request_update_def)

lemma two_writers_Cons:
  "two_writers (None # w # ws) = two_writers (w # ws)"
  "two_writers (Some p # None # ws) = two_writers (Some p # ws)"
  "p \<noteq> q \<Longrightarrow> two_writers (Some p # Some q # ws)"
  "two_writers (Some p # Some p # ws) = two_writers (Some p # ws)"
  by (auto simp: two_writers_def)

lemma check_write_cases:
  "policy_check_write throws w s =
     (if sig_policy s \<noteq> SC_UNCHECKED_WRITERS \<and> two_writers [m_writer_p s, w] then Inl Exception_thrown
      else Inr (s\<lparr>m_writer_p := (if sig_policy s \<noteq> SC_UNCHECKED_WRITERS \<and> m_writer_p s = None then w else m_writer_p s)\<rparr>))"
  by (cases "m_writer_p s"; cases w) (auto simp: policy_check_write_def two_writers_def)

text \<open>What holds in the middle of an evaluation phase that began with \<open>s0\<close>.\<close>

definition writing :: "('v, 'b) sc_signal \<Rightarrow> ('v, 'b) sc_signal \<Rightarrow> registry \<Rightarrow> bool" where
  "writing s0 s r \<longleftrightarrow> sig_id s = sig_id s0 \<and> sig_base s = sig_base s0 \<and> sig_policy s = sig_policy s0 \<and>
     m_delta_only s = m_delta_only s0 \<and> m_cur_val s = m_cur_val s0 \<and> update_list_p r \<noteq> None \<and>
     (m_new_val s \<noteq> m_cur_val s \<longrightarrow> update_requested (sig_id s) r) \<and>
     (sig_policy s \<noteq> SC_UNCHECKED_WRITERS \<and> m_delta_only s \<and> m_writer_p s \<noteq> None \<longrightarrow> update_requested (sig_id s) r) \<and>
     (sig_policy s = SC_UNCHECKED_WRITERS \<longrightarrow> m_writer_p s = m_writer_p s0) \<and>
     (sig_policy s = SC_MANY_WRITERS \<longrightarrow> m_delta_only s)"

lemma write_step:
  assumes "writing s0 s r"
  shows "if checked_conflict s [w] then signal_write throws (w, v) (s, r) = Inl Exception_thrown
    else \<exists>s1 r1. signal_write throws (w, v) (s, r) = Inr (s1, r1) \<and> writing s0 s1 r1 \<and> m_new_val s1 = v \<and>
      (\<forall>ws. checked_conflict s1 ws = checked_conflict s (w # ws))"
proof (cases "checked_conflict s [w]")
  case True
  then show ?thesis by (simp add: signal_write_def check_write_cases checked_conflict_def Let_def)
next
  case False
  define s1 where "s1 = s\<lparr>m_writer_p := (if sig_policy s \<noteq> SC_UNCHECKED_WRITERS \<and> m_writer_p s = None then w else m_writer_p s), m_new_val := v\<rparr>"
  define r1 where "r1 = (if m_new_val s \<noteq> v \<or> policy_needs_update s1 then request_update (sig_id s) r else r)"
  have f: "sig_id s1 = sig_id s" "sig_base s1 = sig_base s" "sig_policy s1 = sig_policy s" "m_delta_only s1 = m_delta_only s"
    "m_cur_val s1 = m_cur_val s" "m_new_val s1 = v"
    "m_writer_p s1 = (if sig_policy s \<noteq> SC_UNCHECKED_WRITERS \<and> m_writer_p s = None then w else m_writer_p s)"
    by (simp_all add: s1_def)
  have run: "signal_write throws (w, v) (s, r) = Inr (s1, r1)"
    using False by (simp add: signal_write_def check_write_cases checked_conflict_def Let_def s1_def r1_def)
  have r: "update_list_p r \<noteq> None" using assms by (simp add: writing_def)
  have keep: "update_requested c r1" if "update_requested c r" for c
    using that by (auto simp: r1_def update_requested_def request_update_def registry_request_update_def)
  have ask: "update_requested (sig_id s) r1" if "m_new_val s \<noteq> v \<or> policy_needs_update s1"
    using that r requested_request(1) by (simp only: r1_def if_True) blast
  have "update_requested (sig_id s) r1" if "v \<noteq> m_cur_val s"
    using that assms keep ask by (cases "m_new_val s = v") (auto simp: writing_def)
  moreover have "update_requested (sig_id s) r1" if "sig_policy s \<noteq> SC_UNCHECKED_WRITERS" "m_delta_only s"
    by (rule ask) (use that f in \<open>cases "sig_policy s"; simp add: policy_needs_update_def\<close>)
  moreover have "update_list_p r1 \<noteq> None" using r requested_request(2) by (simp only: r1_def split: if_splits) blast
  ultimately have "writing s0 s1 r1" using assms f by (auto simp: writing_def)
  moreover have "checked_conflict s1 ws = checked_conflict s (w # ws)" for ws
    using False f by (cases "m_writer_p s"; cases w) (auto simp: checked_conflict_def two_writers_def)
  ultimately show ?thesis using run False f by auto
qed

lemma conflict_mono: "checked_conflict s [w] \<Longrightarrow> checked_conflict s (w # ws)"
  by (auto simp: checked_conflict_def two_writers_def)

lemma conflict_Nil [simp]: "\<not> checked_conflict s []"
  by (simp add: checked_conflict_def two_writers_def)

lemma writes_run:
  assumes "writing s0 s r"
  shows "if checked_conflict s (map fst ws) then efold (signal_write throws) ws (s, r) = Inl Exception_thrown
    else \<exists>s1 r1. efold (signal_write throws) ws (s, r) = Inr (s1, r1) \<and> writing s0 s1 r1 \<and>
      m_new_val s1 = written_value (m_new_val s) ws"
  using assms
proof (induction ws arbitrary: s r)
  case Nil
  then show ?case by (simp add: written_value_def)
next
  case (Cons x ws)
  obtain w v where x: "x = (w, v)" by (cases x)
  show ?case
  proof (cases "checked_conflict s [w]")
    case True
    then show ?thesis using write_step [OF Cons.prems, of w v] conflict_mono [OF True] by (simp add: x)
  next
    case False
    with write_step [OF Cons.prems, of w v] obtain s1 r1 where one: "signal_write throws (w, v) (s, r) = Inr (s1, r1)"
      and wr: "writing s0 s1 r1" and v: "m_new_val s1 = v"
      and c: "checked_conflict s1 (map fst ws) = checked_conflict s (w # map fst ws)" by auto
    have "written_value v ws = written_value (m_new_val s) (x # ws)" by (simp add: written_value_def x)
    with Cons.IH [OF wr] one v c show ?thesis by (cases "checked_conflict s (w # map fst ws)") (auto simp: x)
  qed
qed

text \<open>The update phase, when the channel asked for it.\<close>

lemma cycle_end:
  assumes wr: "writing s0 s r" and quiet: "signal_quiet s0 r0"
  shows "\<exists>s1 r1. (if update_requested (sig_id s) r
      then perform_update (\<lambda>(s, r). (signal_update base_do_update s, r)) (sig_id s) (s, r) else (s, r)) = (s1, r1) \<and>
    signal_quiet s1 r1 \<and> signal_read s1 = m_new_val s \<and>
    sig_base s1 = (if m_new_val s = signal_read s0 then sig_base s0 else base_do_update (sig_base s0))"
proof (cases "update_requested (sig_id s) r")
  case True
  let ?s = "signal_update base_do_update s" and ?r = "r\<lparr>update_next := (update_next r)(sig_id s := None)\<rparr>"
  have f: "m_new_val ?s = m_new_val s" "m_cur_val ?s = m_new_val s" "sig_id ?s = sig_id s" "sig_policy ?s = sig_policy s"
    "m_delta_only ?s = m_delta_only s"
    "sig_base ?s = (if m_new_val s = m_cur_val s then sig_base s else base_do_update (sig_base s))"
    "m_writer_p ?s = (if sig_policy s \<noteq> SC_UNCHECKED_WRITERS \<and> (m_delta_only s \<or> sig_policy s = SC_MANY_WRITERS) then None else m_writer_p s)"
    by (cases "sig_policy s"; simp add: signal_update_def policy_update_def signal_do_update_def Let_def)+
  have "signal_quiet ?s ?r"
    using wr quiet f by (auto simp: signal_quiet_def writing_def update_requested_def)
  with True wr f show ?thesis by (auto simp: perform_update_def signal_read_def writing_def)
next
  case False
  have same: "m_new_val s = m_cur_val s" "m_cur_val s = m_cur_val s0" "sig_base s = sig_base s0"
    using wr False by (auto simp: writing_def)
  have "signal_quiet s r" using wr quiet False by (auto simp: signal_quiet_def writing_def)
  with False same show ?thesis by (simp add: signal_read_def)
qed

text \<open>
  C25. One delta cycle of a signal, for any writes by any processes: while they write, every read
  gives the old value. Unless the policy finds two writers, in which case the write of the second one throws,
  the value after the update phase is the one written last, the change event is notified exactly when it differs
  from the old one, and nothing is pending for the next cycle.
\<close>

theorem signal_settles:
  assumes "signal_quiet s r"
  shows "(\<forall>n s1 r1. efold (signal_write throws) (take n ws) (s, r) = Inr (s1, r1) \<longrightarrow> signal_read s1 = signal_read s) \<and>
    (if checked_conflict s (map fst ws) then signal_cycle throws base_do_update ws (s, r) = Inl Exception_thrown
     else \<exists>s1 r1. signal_cycle throws base_do_update ws (s, r) = Inr (s1, r1) \<and> signal_quiet s1 r1 \<and>
       signal_read s1 = written_value (signal_read s) ws \<and>
       sig_base s1 = (if written_value (signal_read s) ws = signal_read s then sig_base s else base_do_update (sig_base s)))"
proof -
  have start: "writing s s r" using assms by (auto simp: signal_quiet_def writing_def)
  have "signal_read s1 = signal_read s" if "efold (signal_write throws) (take n ws) (s, r) = Inr (s1, r1)" for n s1 r1
    using writes_run [OF start, of "take n ws"] that by (auto simp: signal_read_def writing_def split: if_splits)
  moreover have "if checked_conflict s (map fst ws) then signal_cycle throws base_do_update ws (s, r) = Inl Exception_thrown
     else \<exists>s1 r1. signal_cycle throws base_do_update ws (s, r) = Inr (s1, r1) \<and> signal_quiet s1 r1 \<and>
       signal_read s1 = written_value (signal_read s) ws \<and>
       sig_base s1 = (if written_value (signal_read s) ws = signal_read s then sig_base s else base_do_update (sig_base s))"
  proof (cases "checked_conflict s (map fst ws)")
    case True
    then show ?thesis using writes_run [OF start, of ws] by (simp add: signal_cycle_def)
  next
    case False
    with writes_run [OF start, of ws] obtain s1 r1 where run: "efold (signal_write throws) ws (s, r) = Inr (s1, r1)"
      and wr: "writing s s1 r1" and v: "m_new_val s1 = written_value (signal_read s) ws"
      using assms by (auto simp: signal_quiet_def signal_read_def)
    from cycle_end [OF wr assms] run v False show ?thesis by (simp add: signal_cycle_def) 
  qed
  ultimately show ?thesis by blast
qed

theorem signal_settles_witness:
  "\<exists>s1 r1. signal_cycle throws (\<lambda>_. 4) [(Some 7, 5), (None, 6), (Some 7, 8)]
      (signal_new 1 3 SC_ONE_WRITER False (0 :: int), registry_new 0) = Inr (s1, r1) \<and> signal_quiet s1 r1 \<and>
    signal_read s1 = 8 \<and> sig_base s1 = (4 :: u64)"
proof -
  let ?s = "signal_new 1 3 SC_ONE_WRITER False (0 :: int) :: (int, u64) sc_signal"
  have quiet: "signal_quiet ?s (registry_new 0)"
    by (simp add: signal_quiet_def signal_new_def registry_new_def update_requested_def)
  have "\<not> checked_conflict ?s (map fst [(Some 7, 5 :: int), (None, 6), (Some 7, 8)])"
    by (simp add: checked_conflict_def two_writers_def signal_new_def)
  with signal_settles [OF quiet, of "[(Some 7, 5), (None, 6), (Some 7, 8)]" "\<lambda>_. 4"] show ?thesis
    by (simp add: written_value_def signal_read_def signal_new_def)
qed

text \<open>A second process is reported even when it writes the value that is there already.\<close>

lemma second_writer_throws:
  assumes "sig_policy s \<noteq> SC_UNCHECKED_WRITERS" and "m_writer_p s = Some p" and "p \<noteq> q"
  shows "signal_write throws (Some q, m_new_val s) (s, r) = Inl Exception_thrown"
  using assms by (simp add: signal_write_def policy_check_write_def Let_def)

end
