(* ===== verification/Sc_Clock.thy ===== *)
theory Sc_Clock
  imports Sc_Signal
begin

text \<open>
  The clock (\<open>sysc/communication/sc_clock.h\<close>), of which the program makes one per host: a signal of
  type \<open>bool\<close> with two events that notify each other. The constructor's arithmetic and the kernel's
  loop are compiled code: the two distances between the edges are arguments, and what the kernel does when
  a timed notification is due is a hypothesis.
\<close>

section \<open>State and operations\<close>

record clock_times =
  m_period :: sc_time
  m_duty_cycle :: rat
  m_start_time :: sc_time
  m_posedge_first :: bool
  m_posedge_time :: sc_time
  m_negedge_time :: sc_time
  m_next_posedge_event :: nat
  m_next_negedge_event :: nat

record ('b, 'q) clock_state =
  ck_times :: clock_times
  ck_signal :: "(bool, 'b) sc_signal"
  ck_registry :: registry
  ck_kernel :: "'q simcontext"

definition posedge_action :: "(nat \<Rightarrow> 'q \<Rightarrow> 'q) \<Rightarrow> ('b, 'q) clock_state \<Rightarrow> ('b, 'q) clock_state" where
  "posedge_action ins c =
     (let c1 = c\<lparr>ck_kernel := notify_internal ins (m_next_negedge_event (ck_times c)) (m_negedge_time (ck_times c)) (ck_kernel c)\<rparr>;
          c2 = c1\<lparr>ck_signal := (ck_signal c1)\<lparr>m_new_val := True\<rparr>\<rparr>
      in c2\<lparr>ck_registry := request_update (sig_id (ck_signal c2)) (ck_registry c2)\<rparr>)"

definition negedge_action :: "(nat \<Rightarrow> 'q \<Rightarrow> 'q) \<Rightarrow> ('b, 'q) clock_state \<Rightarrow> ('b, 'q) clock_state" where
  "negedge_action ins c =
     (let c1 = c\<lparr>ck_kernel := notify_internal ins (m_next_posedge_event (ck_times c)) (m_posedge_time (ck_times c)) (ck_kernel c)\<rparr>;
          c2 = c1\<lparr>ck_signal := (ck_signal c1)\<lparr>m_new_val := False\<rparr>\<rparr>
      in c2\<lparr>ck_registry := request_update (sig_id (ck_signal c2)) (ck_registry c2)\<rparr>)"

section \<open>What the kernel does\<close>

text \<open>
  \<open>due e k\<close> is the context when the timed notification of event \<open>e\<close> is due: the time is the one of the
  notification, the event has none any more, and other events and notifications are as before.
\<close>

definition due_law :: "(nat \<Rightarrow> 'q simcontext \<Rightarrow> 'q simcontext) \<Rightarrow> bool" where
  "due_law due \<longleftrightarrow> (\<forall>e k et x. m_timed (k_event k e) = Some et \<longrightarrow> k_timed k et = Some x \<longrightarrow>
     m_curr_time (due e k) = et_notify_time x \<and> m_timed (k_event (due e k) e) = None \<and>
     (\<forall>e'. e' \<noteq> e \<longrightarrow> k_event (due e k) e' = k_event k e'))"

text \<open>The update of a signal of type \<open>bool\<close>, which is compiled code as well, makes the new value the current one.\<close>

definition update_law :: "((bool, 'b) sc_signal \<Rightarrow> (bool, 'b) sc_signal) \<Rightarrow> bool" where
  "update_law bu \<longleftrightarrow> (\<forall>s. signal_read (bu s) = m_new_val s \<and> sig_id (bu s) = sig_id s)"

text \<open>
  A clock runs when the kernel, for each edge in turn, lets the pending notification become due, runs the method
  that is sensitive to the event, and performs the update of the channel. The result is the
  list of the edges, with the time and the value that the clock has from then on.
\<close>

definition clock_edge :: "(nat \<Rightarrow> 'q \<Rightarrow> 'q) \<Rightarrow> (nat \<Rightarrow> 'q simcontext \<Rightarrow> 'q simcontext) \<Rightarrow>
  ((bool, 'b) sc_signal \<Rightarrow> (bool, 'b) sc_signal) \<Rightarrow> bool \<Rightarrow> ('b, 'q) clock_state \<Rightarrow> ('b, 'q) clock_state" where
  "clock_edge ins due bu pos c =
     (let e = (if pos then m_next_posedge_event (ck_times c) else m_next_negedge_event (ck_times c));
          c1 = c\<lparr>ck_kernel := due e (ck_kernel c)\<rparr>;
          c2 = (if pos then posedge_action ins c1 else negedge_action ins c1)
      in if update_requested (sig_id (ck_signal c2)) (ck_registry c2)
         then case perform_update (\<lambda>(s, r). (bu s, r)) (sig_id (ck_signal c2)) (ck_signal c2, ck_registry c2) of
                (s, r) \<Rightarrow> c2\<lparr>ck_signal := s, ck_registry := r\<rparr>
         else c2)"

fun clock_run :: "(nat \<Rightarrow> 'q \<Rightarrow> 'q) \<Rightarrow> (nat \<Rightarrow> 'q simcontext \<Rightarrow> 'q simcontext) \<Rightarrow>
  ((bool, 'b) sc_signal \<Rightarrow> (bool, 'b) sc_signal) \<Rightarrow> nat \<Rightarrow> bool \<Rightarrow>
  ('b, 'q) clock_state \<Rightarrow> (nat \<times> bool) list" where
  "clock_run ins due bu 0 pos c = []"
| "clock_run ins due bu (Suc n) pos c =
     (let c1 = clock_edge ins due bu pos c
      in (unat (sc_value (m_curr_time (ck_kernel c1))), signal_read (ck_signal c1)) # clock_run ins due bu n (\<not> pos) c1)"

section \<open>The edges\<close>

definition edge_event :: "bool \<Rightarrow> clock_times \<Rightarrow> nat" where
  "edge_event pos t = (if pos then m_next_posedge_event t else m_next_negedge_event t)"

definition edge_distance :: "bool \<Rightarrow> clock_times \<Rightarrow> nat" where
  "edge_distance pos t = unat (sc_value (if pos then m_negedge_time t else m_posedge_time t))"

definition pending_at :: "nat \<Rightarrow> nat \<Rightarrow> 'q simcontext \<Rightarrow> bool" where
  "pending_at e t k \<longleftrightarrow> (case m_timed (k_event k e) of None \<Rightarrow> False
     | Some et \<Rightarrow> (case k_timed k et of None \<Rightarrow> False | Some x \<Rightarrow> unat (sc_value (et_notify_time x)) = t))"

definition clock_ready :: "bool \<Rightarrow> nat \<Rightarrow> ('b, 'q) clock_state \<Rightarrow> bool" where
  "clock_ready pos t c \<longleftrightarrow> m_next_posedge_event (ck_times c) \<noteq> m_next_negedge_event (ck_times c) \<and>
     0 < edge_distance True (ck_times c) \<and> 0 < edge_distance False (ck_times c) \<and>
     update_list_p (ck_registry c) \<noteq> None \<and> pending_at (edge_event pos (ck_times c)) t (ck_kernel c)"

lemma edge_action:
  "(if pos then posedge_action ins c else negedge_action ins c) =
   c\<lparr>ck_kernel := notify_internal ins (edge_event (\<not> pos) (ck_times c))
        (if pos then m_negedge_time (ck_times c) else m_posedge_time (ck_times c)) (ck_kernel c),
     ck_signal := (ck_signal c)\<lparr>m_new_val := pos\<rparr>,
     ck_registry := request_update (sig_id (ck_signal c)) (ck_registry c)\<rparr>"
  by (simp add: posedge_action_def negedge_action_def edge_event_def Let_def)

lemma edge_step:
  fixes ins :: "nat \<Rightarrow> 'q \<Rightarrow> 'q" and bu :: "(bool, 'b) sc_signal \<Rightarrow> (bool, 'b) sc_signal" and c :: "('b, 'q) clock_state"
  assumes law: "due_law due" and upd: "update_law bu" and ready: "clock_ready pos t c" and fits: "t + edge_distance pos (ck_times c) < 2 ^ 64"
  defines "c' \<equiv> clock_edge ins due bu pos c"
  shows "unat (sc_value (m_curr_time (ck_kernel c'))) = t" "signal_read (ck_signal c') = pos"
    "ck_times c' = ck_times c" "clock_ready (\<not> pos) (t + edge_distance pos (ck_times c)) c'"
proof -
  let ?e = "edge_event pos (ck_times c)" and ?f = "edge_event (\<not> pos) (ck_times c)"
  let ?d = "if pos then m_negedge_time (ck_times c) else m_posedge_time (ck_times c)"
  let ?k = "due ?e (ck_kernel c)"
  have d: "unat (sc_value ?d) = edge_distance pos (ck_times c)" "sc_value ?d \<noteq> 0"
    using ready by (auto simp: edge_distance_def clock_ready_def)
  obtain et x where p: "m_timed (k_event (ck_kernel c) ?e) = Some et" "k_timed (ck_kernel c) et = Some x"
    "unat (sc_value (et_notify_time x)) = t"
    using ready by (auto simp: clock_ready_def pending_at_def split: option.splits)
  then have k: "unat (sc_value (m_curr_time ?k)) = t" using law by (simp add: due_law_def)
  have r: "update_requested (sig_id (ck_signal c)) (request_update (sig_id (ck_signal c)) (ck_registry c))"
    using ready by (intro requested_request(1)) (simp add: clock_ready_def)
  have r': "update_list_p (request_update (sig_id (ck_signal c)) (ck_registry c)) \<noteq> None"
    using ready by (intro requested_request(2)) (simp add: clock_ready_def)
  have c': "c' = c\<lparr>ck_kernel := notify_internal ins ?f ?d ?k,
      ck_signal := bu ((ck_signal c)\<lparr>m_new_val := pos\<rparr>),
      ck_registry := (request_update (sig_id (ck_signal c)) (ck_registry c))
        \<lparr>update_next := (update_next (request_update (sig_id (ck_signal c)) (ck_registry c)))(sig_id (ck_signal c) := None)\<rparr>\<rparr>"
    using r unfolding c'_def clock_edge_def
    by (simp add: edge_action Let_def perform_update_def edge_event_def [of pos, symmetric])
  show "ck_times c' = ck_times c" "signal_read (ck_signal c') = pos" using upd by (simp_all add: c' update_law_def)
  show "unat (sc_value (m_curr_time (ck_kernel c'))) = t" using k d(2) by (simp add: c' notify_internal_timed)
  have "unat (sc_value (sc_plus (m_curr_time ?k) ?d)) = t + edge_distance pos (ck_times c)"
    using fits k d(1) by (simp add: sc_plus_def unat_word_ariths)
  then have "pending_at ?f (t + edge_distance pos (ck_times c)) (notify_internal ins ?f ?d ?k)"
    using d(2) by (simp add: pending_at_def notify_internal_timed)
  then show "clock_ready (\<not> pos) (t + edge_distance pos (ck_times c)) c'"
    using ready r' by (simp add: clock_ready_def c')
qed

lemma edges_run:
  assumes law: "due_law due" and upd: "update_law bu"
  shows "clock_ready pos t c \<Longrightarrow> t + n * (edge_distance True (ck_times c) + edge_distance False (ck_times c)) < 2 ^ 64 \<Longrightarrow>
    clock_run ins due bu n pos c =
      map (\<lambda>i. (t + i div 2 * (edge_distance True (ck_times c) + edge_distance False (ck_times c)) +
             (if odd i then edge_distance pos (ck_times c) else 0), even i = pos)) [0 ..< n]"
proof (induction n arbitrary: pos t c)
  case (Suc n)
  let ?a = "edge_distance pos (ck_times c)" and ?b = "edge_distance (\<not> pos) (ck_times c)"
  let ?c = "clock_edge ins due bu pos c"
  have sum: "edge_distance True (ck_times c) + edge_distance False (ck_times c) = ?a + ?b" by (cases pos) simp_all
  have fits: "t + ?a < 2 ^ 64" using Suc.prems(2) by (simp add: sum)
  note step = edge_step [OF law upd Suc.prems(1) fits, of ins]
  have "t + ?a + n * (edge_distance True (ck_times ?c) + edge_distance False (ck_times ?c)) < 2 ^ 64"
    using Suc.prems(2) by (simp add: step(3) sum)
  from Suc.IH [OF step(4) this] have rest: "clock_run ins due bu n (\<not> pos) ?c =
      map (\<lambda>i. (t + ?a + i div 2 * (?a + ?b) + (if odd i then ?b else 0), even i = (\<not> pos))) [0 ..< n]"
    by (simp add: step(3) sum)
  have "(t + ?a + i div 2 * (?a + ?b) + (if odd i then ?b else 0), even i = (\<not> pos)) =
      (t + Suc i div 2 * (?a + ?b) + (if odd (Suc i) then ?a else 0), even (Suc i) = pos)" for i
    by (cases "even i") (auto elim!: evenE oddE)
  then have "map (\<lambda>i. (t + ?a + i div 2 * (?a + ?b) + (if odd i then ?b else 0), even i = (\<not> pos))) [0 ..< n] =
      map (\<lambda>i. (t + i div 2 * (?a + ?b) + (if odd i then ?a else 0), even i = pos)) (map Suc [0 ..< n])"
    by (simp only: map_map comp_def)
  moreover have "[0 ..< Suc n] = 0 # map Suc [0 ..< n]" by (simp only: upt_conv_Cons map_Suc_upt zero_less_Suc)
  ultimately show ?case using step(1,2) rest by (simp add: Let_def sum del: upt_Suc)
qed simp

text \<open>
  C27. The clock, in every run of the kernel in which an edge method runs when its event is due: starting
  with a positive edge that is due at time \<open>t\<close>, its edges alternate, and the \<open>i\<close>-th comes exactly at \<open>t\<close> and
  \<open>i div 2\<close> periods, plus the high time for a negative edge, as long as the 64-bit time does not
  overflow; after each edge the clock has the value of the edge.
\<close>

theorem clock_edges:
  assumes "due_law due" and "update_law bu" and "clock_ready True t c"
    and "t + n * (edge_distance True (ck_times c) + edge_distance False (ck_times c)) < 2 ^ 64"
  shows "clock_run ins due bu n True c =
    map (\<lambda>i. (t + i div 2 * (unat (sc_value (m_negedge_time (ck_times c))) + unat (sc_value (m_posedge_time (ck_times c)))) +
           (if odd i then unat (sc_value (m_negedge_time (ck_times c))) else 0), even i)) [0 ..< n]"
  using edges_run [OF assms] by (simp add: edge_distance_def)

definition due_now :: "nat \<Rightarrow> 'q simcontext \<Rightarrow> 'q simcontext" where
  "due_now e k = (case m_timed (k_event k e) of None \<Rightarrow> k
     | Some et \<Rightarrow> (case k_timed k et of None \<Rightarrow> k
       | Some x \<Rightarrow> set_event e (k_event k e\<lparr>m_timed := None, m_notify_type := NOTIFY_NONE\<rparr>)
           (k\<lparr>m_curr_time := et_notify_time x, k_timed := (k_timed k)(et := None)\<rparr>)))"

lemma signal_update_law: "update_law (signal_update bu)"
proof -
  have "signal_read (signal_update bu s) = m_new_val s \<and> sig_id (signal_update bu s) = sig_id s" for s :: "(bool, 'a) sc_signal"
    by (cases "sig_policy s"; simp add: signal_read_def signal_update_def policy_update_def signal_do_update_def Let_def)
  then show ?thesis by (simp add: update_law_def)
qed

lemma due_now_law: "due_law due_now"
  by (simp add: due_law_def due_now_def)

definition idle_event :: sc_event where
  "idle_event = \<lparr>m_trigger_stamp = 0, m_notify_type = NOTIFY_NONE, m_delta_event_index = -1, m_timed = None,
     m_methods_static = [], m_methods_dynamic = [], m_threads_static = [], m_threads_dynamic = []\<rparr>"

definition plain_kernel :: "nat list simcontext" where
  "plain_kernel = \<lparr>k_event = (\<lambda>_. idle_event), k_timed = (\<lambda>_. None), k_fresh = 0, m_delta_events = [], m_timed_events = [],
     m_curr_time = Sc_time 0, m_max_time = Sc_time 0, m_change_stamp = 0, m_delta_count = 0, m_initial_delta_count = 0,
     m_execution_phase = Phase_evaluate, m_ready_to_simulate = True, m_error = None, m_forced_stop = False,
     m_simulation_status = SC_RUNNING, m_in_simulator_control = True, m_suspend = 0, m_next_proc_id = 0,
     m_current_writer = None\<rparr>"

definition plain_clock :: "(u64, nat list) clock_state" where
  "plain_clock = \<lparr>ck_times = \<lparr>m_period = Sc_time 1000, m_duty_cycle = 3 / 10, m_start_time = Sc_time 500,
       m_posedge_first = True, m_posedge_time = Sc_time 700, m_negedge_time = Sc_time 300,
       m_next_posedge_event = 0, m_next_negedge_event = 1\<rparr>,
     ck_signal = signal_new 5 0 SC_ONE_WRITER False False, ck_registry = registry_new 9,
     ck_kernel = notify_internal (#) 0 (Sc_time 500) plain_kernel\<rparr>"

theorem clock_edges_witness:
  "clock_run (#) due_now (signal_update (\<lambda>_. 7)) 4 True plain_clock = [(500, True), (800, False), (1500, True), (1800, False)]"
proof -
  have "clock_ready True 500 plain_clock"
    by (simp add: clock_ready_def plain_clock_def edge_distance_def edge_event_def pending_at_def notify_internal_timed
        registry_new_def plain_kernel_def sc_plus_def)
  from clock_edges [OF due_now_law signal_update_law this, of 4 "(#)" "\<lambda>_. 7"] show ?thesis
    by (simp add: plain_clock_def edge_distance_def upt_conv_Cons)
qed

end
