(* ===== verification/Spec2Isabelle.thy ===== *)
theory Spec2Isabelle
  imports Packet_Buffer_Conc Link Mem_Props Sim_Count Peq_Props Dram_Props Simple_Target_Props Top_Props
    Sc_Time Device_Range End_To_End Tlm_Fifo Endian_Props Link_Time Links Mem_Answers Sc_Clock
begin

text \<open>
  A model of TSim4CXL, a simulator of memory that is attached over CXL. A host process
  sends packets of reads and writes through shared memory; the simulator splits them
  into payloads of the memory request size, carries these through an upstream port, a
  downstream port and a controller to the memory devices, each backed by a DRAM
  simulator, and carries the acknowledgements back. The development models the code under
  \<open>backplane\<close>, \<open>etc\<close> and \<open>host\<close>, and of the headers of SystemC and TLM under \<open>libs\<close> the parts that
  the simulator runs on: event queues, sockets, payload objects and simulated time.

  \<^bold>\<open>How the program is modelled.\<close> A module of the simulator is a record of its fields. A
  simulation thread (\<open>SC_THREAD\<close>) gives up control only at a \<open>wait\<close>, so a thread is a
  program counter with one value per \<open>wait\<close> and a function that runs one segment, from
  one \<open>wait\<close> to the next; the function returns the new state, the calls made through
  the sockets, and the length of the next \<open>wait\<close>. A clock method and a transport
  function is one function. Machine integers are words of their width. What the code
  does not survive (front of an empty deque, failed assertion, access outside an array,
  division by zero) is a value of \<open>sim_error\<close>. Payloads live in an explicit store and are
  passed by number, as the code passes pointers.

  \<^bold>\<open>Theories.\<close>
  \<^item> \<open>Prelude\<close>: machine types, errors, deques, \<open>memcpy\<close>, slices of lists.
  \<^item> \<open>Interfaces\<close>: runs of a component, and the contracts as locales: \<open>hop\<close> (a stage
    neither loses nor duplicates nor reorders), \<open>duplex\<close> (two stages bound together,
    with sublocales that make the pair a hop in both directions), \<open>drain\<close> (a hop that
    empties itself), \<open>bounded_queue\<close>.
  \<^item> \<open>Sim_Packet\<close>, \<open>Packet_Buffer\<close>, \<open>Packet_Buffer_Conc\<close>: the packet
    (\<open>utilities/sim_packet.h\<close>) and the ring buffer in shared memory
    (\<open>utilities/packet_buffer\<close>), first as a queue, then under every interleaving of
    the two processes at the granularity of the copy and the index update.
  \<^item> \<open>Shmem\<close>, \<open>Host\<close>: the two ends of the channel (\<open>utilities/shmem_communicator\<close>,
    \<open>host/packetManager\<close>) and the host object (\<open>components/host\<close>).
  \<^item> \<open>Mem_Manager\<close>, \<open>Tlm_Payload\<close>: the payload pool (\<open>utilities/mm\<close>) and payload
    objects with reference counts; the pool is an interface that the linked list
    of the code is shown to provide.
  \<^item> \<open>Statistics\<close>, \<open>Sync_Object\<close>, \<open>Timing\<close>: counters and reports, the signals between
    writes and reads, simulated time and the calls between modules.
  \<^item> \<open>Usp\<close>, \<open>Usp_Props\<close>, \<open>Usp_Flits\<close>: the upstream port (\<open>components/port/usp\<close>), its
    four hops, its flits and their latency.
  \<^item> \<open>Dsp\<close>: the downstream port (\<open>components/port/dsp\<close>).
  \<^item> \<open>Controller\<close>, \<open>Controller_Props\<close>, \<open>Controller_Routing\<close>: the controller
    (\<open>components/controller\<close>), its hops, where responses go, and how soon its queues are empty.
  \<^item> \<open>Bridge\<close>, \<open>Mem_Wrapper\<close>, \<open>Mem_Props\<close>, \<open>Mem_Answers\<close>: the bridge to the DRAM simulator (\<open>etc/Bridge\<close>)
    and the memory device (\<open>components/wrapper/mem_wrapper\<close>).
  \<^item> \<open>Sim_Wrapper\<close>, \<open>Sim_Split\<close>, \<open>Sim_Respond\<close>, \<open>Sim_Thread\<close>, \<open>Sim_Count\<close>: the wrapper of a
    host (\<open>components/wrapper/sim_wrapper\<close>), how it splits packets, answers them,
    waits, and counts.
  \<^item> \<open>Link\<close>: the upstream port, the downstream port and the controller bound as in
    \<open>components/Top.h\<close> for one host.
  \<^item> \<open>Links\<close>: the ports of any number of hosts bound to the one controller.
  \<^item> \<open>Link_Time\<close>: the same link in simulated time, with the moments at which its six threads resume, and
    how long read requests take through it.
  \<^item> \<open>Time_List\<close>, \<open>Peq\<close>, \<open>Peq_Props\<close>: the event queue that delays payloads
    (\<open>tlm_utils/peq_with_cb_and_phase.h\<close>): its ordered list with a free list of nodes, its lists for
    the delta cycles, notification and delivery. The event of the kernel is a record of operations with
    laws.
  \<^item> \<open>Dram_Controller\<close>, \<open>Dram_Props\<close>: the controller that is patched into the DRAM simulator
    (\<open>etc/generic_dram_controller.cpp\<close>, \<open>etc/request\<close>): buffers, forwarding of writes, scheduling, ticks.
  \<^item> \<open>Float32\<close>, \<open>Host_Trace\<close>, \<open>Host_Trace_Props\<close>: rounding to \<open>float\<close> and \<open>double\<close>, and the trace program of the
    host (\<open>host/main.cpp\<close>, \<open>host/traceGenerator.cpp\<close>).
  \<^item> \<open>Configuration\<close>: the reader of the configuration files (\<open>utilities/configurations\<close>); the JSON library
    is a record of operations.
  \<^item> \<open>Tlm_Attributes\<close>: the accessors of payload objects, the array of extensions and the description of
    direct memory access (\<open>tlm_gp.h\<close>, \<open>tlm_array.h\<close>, \<open>tlm_dmi.h\<close>).
  \<^item> \<open>Multi_Socket\<close>: the sockets between the modules (\<open>tlm_utils/multi_socket_bases.h\<close> and the
    two \<open>multi_passthrough\<close> sockets) over ports and exports of the kernel.
  \<^item> \<open>Simple_Target\<close>, \<open>Simple_Target_Props\<close>: the target socket with its two conversions between blocking and
    non-blocking calls (\<open>tlm_utils/simple_target_socket.h\<close>, \<open>tlm_utils/peq_with_get.h\<close>).
  \<^item> \<open>Top_Module\<close>, \<open>Top_Props\<close>: the construction of all modules, their bindings and clocks and the
    end of the program for any number of hosts and memories (\<open>components/Top.h\<close>, \<open>sc_main.cpp\<close>).
  \<^item> \<open>Sc_Time\<close>: simulated time (\<open>sysc/kernel/sc_time.h\<close>) and the time that the program prints.
  \<^item> \<open>Update_List\<close>, \<open>Sc_Event\<close>, \<open>Sc_Signal\<close>, \<open>Sc_Clock\<close>: what the headers of the kernel have of the clock that the
    program makes for each host (\<open>sysc/communication\<close>: \<open>sc_prim_channel.h\<close>, \<open>sc_signal.h\<close>, \<open>sc_writer_policy.h\<close>,
    \<open>sc_clock.h\<close>; \<open>sysc/kernel\<close>: \<open>sc_event.h\<close>, \<open>sc_simcontext.h\<close>): the list of channels to update, which is threaded through
    the channels, notification of events, signals with their writer policies, and the two methods of the clock.
  \<^item> \<open>Device_Range\<close>: from the host program through the wrapper to the controller, which memory a payload is for.
  \<^item> \<open>End_To_End\<close>: the wrapper and the memory device together, from a write packet to the answer of a read packet.
  \<^item> \<open>Circular_Buffer\<close>, \<open>Tlm_Fifo\<close>: the FIFO channel of TLM (\<open>tlm_1/.../tlm_fifo\<close>) over a circular buffer in raw
    memory, which provides the interface \<open>bounded_queue\<close>; the channel refines a queue with delta cycles.
  \<^item> \<open>Endian\<close>: the functions that convert a payload between the byte orders of an initiator and of the host
    (\<open>tlm_endian_conv.h\<close>), over arrays of bytes: generic, by data words, for aligned payloads, for a single
    data word. \<open>Endian_Bytes\<close> has a calculus of what a piece of code writes and the arithmetic of the masks,
    \<open>Endian_Context\<close> the arrays of a context and what a payload carries, \<open>Endian_Generic\<close>, \<open>Endian_Word\<close>,
    \<open>Endian_Word_Conv\<close> and \<open>Endian_Aligned\<close> the loops, requests and responses, \<open>Endian_Props\<close> the properties of all four.

  \<^bold>\<open>What is shown.\<close> From the interfaces: no payload is lost, duplicated or reordered
  within its kind in a stage, nor in the bound link. With several hosts on the controller this holds for each
  of them separately, and each gets its own responses only, as long as no two use the same address. For the wrapper and the memory
  device: packets are split and put together exactly, a read waits for the signal of
  its address, a write is in the backing store, every request is answered once, with its own attributes, and the
  counters count what they should; what the host wrote is what it reads, whatever the
  device served in between, if the range was spared. For the channel: in every interleaving exactly what was
  sent arrives. For the thread of a wrapper: it counts its core out once, after its host has terminated, and it ends
  exactly when the host and the memories have. For the threads of the ports and the controller: how many turns empty
  their queues. Some theorems state what goes wrong: two hosts that read the
  same address get their responses mixed up, the last write of an incomplete group of
  four is stuck, the memory can stop with writes waiting, an address beyond the
  array of signals is an access outside of it.

  For the event queue: the linked list refines an ordered list, and every notification is delivered at its
  time, once, in order. For the DRAM controller: it completes what it accepts, once, which is what
  the bridge relies on, as long as its buffer of activated requests has room; otherwise a
  request is lost. For the host program: a trace is read back, and a write is cut into packets
  exactly; a size that is not a multiple of the packet size reads beyond an array. For the whole
  structure: every socket reaches the right module with the right index in every order of elaboration, every
  module has one clock and is deleted once, and every packet of the host program names a memory that exists.

  In simulated time: a group of reads is through the link of a host within a bound that follows from the configured
  latencies and the clock period, in every order of the threads and whatever goes the other way. The argument is a
  deadline for each state of the three forward threads that no step moves back; a run on schedule can always go on.
  For the clock: its edges come exactly at whole periods. For signals: a write becomes visible in the
  next delta cycle, the last one counts, and no request for an update is lost or made twice.

  For the conversion of byte orders: whichever of the four sets of functions makes a request, the payload carries
  the same bytes at the same addresses of the host, and what was written is read back.

  \<^bold>\<open>Bounds.\<close> There is no fuel: every thread function is total. Runs are lists of events of
  any length; the liveness theorems give the number of turns that is enough. The
  counters of 32 bits wrap, and the theorems that read one as a number bound the number by
  2^32.

  Numbers in \<open>float\<close> and \<open>double\<close> are rationals that are rounded after each operation, to even, without a bound
  on the exponent. A hierarchical binding that refers to itself is no result (\<open>None\<close>) of a
  \<open>partial_function\<close>. So is a loop of the word or the aligned conversion that does not end; the theorems about
  requests and responses show that they do return. The conversions are for payloads whose length, with two bus words
  more, fits an \<open>int\<close> and whose bus words do not wrap around the address space; without streaming; the generic one for
  addresses below 4 GiB, because of its 32-bit mask.

  \<^bold>\<open>What is not modelled.\<close> The SystemC kernel, which is linked as a binary (the order of events at one time
  and the order of elaboration are parameters of every run, the kernel's event a parameter with laws; a report
  of an error throws, as \<open>sc_report.h\<close> sets it by default). Of its loop the theorems on the clock and on the update list
  assume what is documented: \<open>due_law\<close> (a timed notification becomes due at its time), \<open>phase_law\<close> (the update phase performs
  each requested update once), \<open>update_law\<close> (the update of a \<open>bool\<close> signal makes the new value current). Not modelled
  either: the memory system behind the bridge
  (a parameter with the law that it completes each accepted request once), and the scheduler, device model,
  refresh manager and plugins behind the DRAM controller; the JSON library; the operating-system calls that map
  shared memory and start processes; console output and wall-clock time. The memory device and
  the wrapper post to their event queue without a delay, and are modelled with the order in which it delivers.
  The numeric types of SystemC, the ports of TLM 1, and the logging library are not used by the program.
\<close>

end
